(* ===== verification/Vllm_Prelude.thy ===== *)
theory Vllm_Prelude
  imports Main "HOL-Library.Word" "HOL-Library.AList" "HOL-Library.Multiset"
begin

section \<open>Prelude: results, Python arithmetic, slices and ordered dictionaries\<close>

text \<open>
  What the component theories share. Python exceptions are the values of \<open>py_error\<close> and a
  call that may raise returns \<open>py_error + 'a\<close> (\<open>Inl\<close> is the exception); the value
  \<open>NonTermination\<close> is not an exception, it stands for a call that does not return. Python integers are
  \<open>int\<close>, and floor division and its remainder are \<open>div\<close> and \<open>mod\<close> on that type, which
  floor as well. Bytes are \<open>8 word\<close>, a \<open>bytes\<close> object is a list of them. A Python \<open>dict\<close>
  or \<open>OrderedDict\<close> whose order matters is an association list, updated in place by
  \<open>AList.update\<close> (an existing key keeps its position, a new one goes to the end).
\<close>

datatype py_error =
    AssertionError
  | ValueError
  | RuntimeError
  | KeyError
  | IndexError
  | TypeError
  | OverflowError
  | NotImplementedError
  | ZeroDivisionError
  | AttributeError
  | StopIteration
  | OtherException
  | NonTermination

type_synonym 'a result = "py_error + 'a"
type_synonym bytes = "8 word list"

named_theorems result_simps \<open>equations that run the result monad\<close>
named_theorems frame_simps \<open>what an operation leaves unchanged\<close>

subsection \<open>Running code that may raise\<close>

fun bindE :: "'a result \<Rightarrow> ('a \<Rightarrow> 'b result) \<Rightarrow> 'b result" where
  "bindE (Inr x) k = k x"
| "bindE (Inl exc) k = Inl exc"

definition assertE :: "bool \<Rightarrow> 'a result \<Rightarrow> 'a result" where
  "assertE b k = (if b then k else Inl AssertionError)"

definition of_option :: "py_error \<Rightarrow> 'a option \<Rightarrow> 'a result" where
  "of_option e m = (case m of None \<Rightarrow> Inl e | Some x \<Rightarrow> Inr x)"

text \<open>A call that may not return is \<open>None\<close> where the loop is defined; its caller passes that on.\<close>

definition of_run :: "'a result option \<Rightarrow> 'a result" where
  "of_run m = (case m of None \<Rightarrow> Inl NonTermination | Some r \<Rightarrow> r)"

text \<open>A \<open>for\<close> loop over a list whose body may raise and updates a state.\<close>

primrec foldE :: "('a \<Rightarrow> 's \<Rightarrow> 's result) \<Rightarrow> 'a list \<Rightarrow> 's \<Rightarrow> 's result" where
  "foldE f [] s = Inr s"
| "foldE f (x # xs) s = bindE (f x s) (foldE f xs)"

text \<open>A list comprehension whose element may raise, evaluated from left to right.\<close>

fun mapE :: "('a \<Rightarrow> 'b result) \<Rightarrow> 'a list \<Rightarrow> 'b list result" where
  "mapE f [] = Inr []"
| "mapE f (x # xs) = bindE (f x) (\<lambda>y. bindE (mapE f xs) (\<lambda>ys. Inr (y # ys)))"

declare bindE.simps [result_simps]

lemma bindE_def: "bindE r k = case_sum Inl k r"
  by (cases r) simp_all

lemma bindE_InrE [elim]:
  assumes "bindE r k = Inr out"
  obtains mid where "r = Inr mid" and "k mid = Inr out"
  using assms by (cases r) simp_all

lemma bindE_Inr_iff: "bindE r k = Inr out \<longleftrightarrow> (\<exists>mid. r = Inr mid \<and> k mid = Inr out)"
  by (cases r) simp_all

lemma bindE_cong:
  "r = r' \<Longrightarrow> (\<And>out. r' = Inr out \<Longrightarrow> k out = k' out) \<Longrightarrow> bindE r k = bindE r' k'"
  by (cases r') simp_all

lemma of_run_Inr_iff [simp]: "of_run m = Inr y \<longleftrightarrow> m = Some (Inr y)"
  by (simp add: of_run_def split: option.splits)

lemma assertE_simps [simp, result_simps]:
  "assertE True k = k"
  "assertE False k = Inl AssertionError"
  by (simp_all add: assertE_def)

lemma assertE_Inr_iff [simp]: "assertE b k = Inr y \<longleftrightarrow> b \<and> k = Inr y"
  by (simp add: assertE_def)

lemma of_option_simps [simp, result_simps]:
  "of_option e None = Inl e"
  "of_option e (Some x) = Inr x"
  by (simp_all add: of_option_def)

lemma of_option_Inr_iff [simp]: "of_option e m = Inr y \<longleftrightarrow> m = Some y"
  by (cases m) simp_all

lemma foldE_append: "foldE f (xs @ ys) s = bindE (foldE f xs s) (foldE f ys)"
proof (induction xs arbitrary: s)
  case (Cons x xs)
  then show ?case by (cases "f x s") simp_all
qed simp

lemma mapE_Inr_iff: "mapE f xs = Inr ys \<longleftrightarrow> list_all2 (\<lambda>x y. f x = Inr y) xs ys"
proof (induction xs arbitrary: ys)
  case (Cons x xs)
  then show ?case by (cases ys) (auto simp: bindE_Inr_iff)
qed auto

lemma mapE_total: "(\<And>x. x \<in> set xs \<Longrightarrow> f x = Inr (g x)) \<Longrightarrow> mapE f xs = Inr (map g xs)"
  by (induction xs) simp_all

lemma mapE_length: "mapE f xs = Inr ys \<Longrightarrow> length ys = length xs"
  by (auto simp: mapE_Inr_iff dest: list_all2_lengthD)

lemma mapE_set: "mapE f xs = Inr ys \<Longrightarrow> y \<in> set ys \<longleftrightarrow> (\<exists>x \<in> set xs. f x = Inr y)"
  unfolding mapE_Inr_iff by (induction xs ys rule: list_all2_induct) auto

lemma mapE_set_dom: "mapE f xs = Inr ys \<Longrightarrow> x \<in> set xs \<Longrightarrow> \<exists>y \<in> set ys. f x = Inr y"
  unfolding mapE_Inr_iff by (induction xs ys rule: list_all2_induct) auto

text \<open>A loop keeps what every run of its body keeps.\<close>

lemma foldE_invariant:
  assumes "foldE f xs s = Inr s'" and "P s"
    and "\<And>x t t'. x \<in> set xs \<Longrightarrow> P t \<Longrightarrow> f x t = Inr t' \<Longrightarrow> P t'"
  shows "P s'"
  using assms
proof (induction xs arbitrary: s)
  case (Cons x xs)
  from Cons.prems(1) obtain t where t: "f x s = Inr t" "foldE f xs t = Inr s'"
    by (auto elim: bindE_InrE)
  have "P t" using Cons.prems(2,3) t(1) by auto
  show ?case
    by (rule Cons.IH [OF t(2) \<open>P t\<close>]) (use Cons.prems(3) in auto)
qed simp

subsection \<open>Integer arithmetic\<close>

text \<open>\<open>cdiv\<close> of \<^verbatim>\<open>vllm/utils/math_utils.py\<close>: \<open>-(a // -b)\<close>.\<close>

definition cdiv :: "int \<Rightarrow> int \<Rightarrow> int" where
  "cdiv a b = - (a div (- b))"

text \<open>The same call and floor division where the divisor may be zero.\<close>

definition cdivE :: "int \<Rightarrow> int \<Rightarrow> int result" where
  "cdivE a b = (if b = 0 then Inl ZeroDivisionError else Inr (cdiv a b))"

definition floordivE :: "int \<Rightarrow> int \<Rightarrow> int result" where
  "floordivE a b = (if b = 0 then Inl ZeroDivisionError else Inr (a div b))"

lemma div_zero_cases [simp]:
  "b \<noteq> 0 \<Longrightarrow> cdivE a b = Inr (cdiv a b)"
  "b \<noteq> 0 \<Longrightarrow> floordivE a b = Inr (a div b)"
  "cdivE a 0 = Inl ZeroDivisionError"
  "floordivE a 0 = Inl ZeroDivisionError"
  by (simp_all add: cdivE_def floordivE_def)

lemma cdivE_Inr_iff: "cdivE a b = Inr q \<longleftrightarrow> b \<noteq> 0 \<and> q = cdiv a b"
  by (auto simp: cdivE_def)

lemma floordivE_Inr_iff: "floordivE a b = Inr q \<longleftrightarrow> b \<noteq> 0 \<and> q = a div b"
  by (auto simp: floordivE_def)

lemma int_le_div_iff: "0 < b \<Longrightarrow> k \<le> a div b \<longleftrightarrow> k * b \<le> a" for a b k :: int
proof
  assume b: "0 < b" and "k \<le> a div b"
  then have "k * b \<le> a div b * b" by (simp add: mult_right_mono)
  also have "\<dots> \<le> a" using b by (simp add: minus_mod_eq_div_mult [symmetric])
  finally show "k * b \<le> a" .
next
  assume b: "0 < b" and "k * b \<le> a"
  then have "k * b div b \<le> a div b" by (intro zdiv_mono1)
  with b show "k \<le> a div b" by simp
qed

lemma cdiv_le_iff: "0 < b \<Longrightarrow> cdiv a b \<le> k \<longleftrightarrow> a \<le> k * b"
proof -
  assume b: "0 < b"
  have "cdiv a b \<le> k \<longleftrightarrow> - k \<le> (- a) div b"
    unfolding cdiv_def by (metis div_minus_minus minus_le_iff minus_minus)
  also have "\<dots> \<longleftrightarrow> a \<le> k * b" using int_le_div_iff [OF b, of "- k" "- a"] by simp
  finally show ?thesis .
qed

lemma cdiv_bounds:
  assumes "0 < b"
  shows "a \<le> cdiv a b * b" and "cdiv a b * b < a + b"
proof -
  show "a \<le> cdiv a b * b" using cdiv_le_iff [OF assms, of a "cdiv a b"] by simp
  have "\<not> cdiv a b \<le> cdiv a b - 1" by simp
  then have "\<not> a \<le> (cdiv a b - 1) * b" using cdiv_le_iff [OF assms] by blast
  then show "cdiv a b * b < a + b" by (simp add: algebra_simps)
qed

lemma cdiv_mono: "0 < b \<Longrightarrow> a \<le> a' \<Longrightarrow> cdiv a b \<le> cdiv a' b"
  using cdiv_bounds(1) [of b a'] by (simp add: cdiv_le_iff)

lemma cdiv_nonneg: "0 < b \<Longrightarrow> 0 \<le> a \<Longrightarrow> 0 \<le> cdiv a b"
  using cdiv_mono [of b 0 a] by (simp add: cdiv_def)

lemma cdiv_multiple [simp]: "0 < b \<Longrightarrow> cdiv (k * b) b = k"
proof -
  assume b: "0 < b"
  have "(k * b) div (- b) = - k"
    using b by (metis div_minus_right less_irrefl mult_minus_left nonzero_mult_div_cancel_right
        minus_minus add.inverse_inverse)
  then show ?thesis by (simp add: cdiv_def)
qed

subsection \<open>Slices\<close>

text \<open>
  Python slicing \<open>xs[i:j]\<close> for \<open>int\<close> bounds: a negative bound counts from the end, every
  bound is clamped to the list, and an empty range gives the empty list.
\<close>

definition slice_bound :: "'a list \<Rightarrow> int \<Rightarrow> nat" where
  "slice_bound xs i =
     (let n = int (length xs); j = (if i < 0 then max 0 (n + i) else i) in nat (min n j))"

definition slice :: "'a list \<Rightarrow> int \<Rightarrow> int \<Rightarrow> 'a list" where
  "slice xs i j = drop (slice_bound xs i) (take (slice_bound xs j) xs)"

definition slice_from :: "'a list \<Rightarrow> int \<Rightarrow> 'a list" where
  "slice_from xs i = drop (slice_bound xs i) xs"

lemma slice_bound_nonneg: "0 \<le> i \<Longrightarrow> slice_bound xs i = min (length xs) (nat i)"
  by (auto simp: slice_bound_def Let_def min_def)

lemma slice_nonneg:
  "0 \<le> i \<Longrightarrow> 0 \<le> j \<Longrightarrow> slice xs i j = drop (nat i) (take (nat j) xs)"
  by (auto simp: slice_def slice_bound_nonneg min_def)

lemma slice_from_nonneg: "0 \<le> i \<Longrightarrow> slice_from xs i = drop (nat i) xs"
  by (auto simp: slice_from_def slice_bound_nonneg min_def)

text \<open>Python indexing \<open>xs[i]\<close>: \<open>IndexError\<close> outside the list, negative from the end.\<close>

definition index_py :: "'a list \<Rightarrow> int \<Rightarrow> 'a result" where
  "index_py xs i =
     (if i < 0
      then (if length xs < nat (- i) then Inl IndexError else Inr (xs ! (length xs - nat (- i))))
      else (if length xs \<le> nat i then Inl IndexError else Inr (xs ! nat i)))"

lemma index_py_nonneg:
  "0 \<le> i \<Longrightarrow> index_py xs i = (if nat i < length xs then Inr (xs ! nat i) else Inl IndexError)"
  by (auto simp: index_py_def Let_def)

subsection \<open>Ordered dictionaries\<close>

type_synonym ('k, 'v) odict = "('k \<times> 'v) list"

text \<open>\<open>OrderedDict.move_to_end\<close>: \<open>KeyError\<close> for a missing key.\<close>

definition move_to_end :: "'k \<Rightarrow> ('k, 'v) odict \<Rightarrow> ('k, 'v) odict result" where
  "move_to_end k d = (case map_of d k of
     None \<Rightarrow> Inl KeyError
   | Some v \<Rightarrow> Inr (AList.delete k d @ [(k, v)]))"

abbreviation distinct_keys :: "('k, 'v) odict \<Rightarrow> bool" where
  "distinct_keys d \<equiv> distinct (map fst d)"

lemma update_fresh: "map_of d k = None \<Longrightarrow> AList.update k v d = d @ [(k, v)]"
  by (induction d) (auto split: if_splits)

lemma delete_fresh: "map_of d k = None \<Longrightarrow> AList.delete k d = d"
  by (induction d) (auto split: if_splits simp: AList.delete_eq)

end
