(* ===== verification/Free_Queue.thy ===== *)
theory Free_Queue
  imports Vllm_Prelude
begin

section \<open>The free block queue\<close>

text \<open>
  \<^verbatim>\<open>KVCacheBlock\<close> and \<^verbatim>\<open>FreeKVCacheBlockQueue\<close> of \<^verbatim>\<open>vllm/v1/core/kv_cache_utils.py\<close>. The queue
  is a doubly linked list threaded through the block objects themselves, so the model keeps an
  explicit store: \<open>heap\<close> maps the address of an object to its fields. The addresses are the
  block objects \<open>Blk i\<close> and the two sentinels. An assignment of the source is one update of
  the store, in the order the source makes them. \<open>fq_rel s xs\<close> says that the links of \<open>s\<close> spell
  the list \<open>xs\<close>; every operation is proved to act on \<open>xs\<close> as on a plain list.
\<close>

subsection \<open>Objects and the store\<close>

datatype ptr = Blk nat | FakeHead | FakeTail

record KVCacheBlock =
  block_id :: int
  ref_cnt :: int
  block_hash :: "bytes option"
  prev_free_block :: "ptr option"
  next_free_block :: "ptr option"
  is_null :: bool

definition new_block :: "int \<Rightarrow> KVCacheBlock" where
  "new_block i = \<lparr>block_id = i, ref_cnt = 0, block_hash = None,
     prev_free_block = None, next_free_block = None, is_null = False\<rparr>"

record free_queue =
  heap :: "ptr \<Rightarrow> KVCacheBlock"
  num_free_blocks :: int

definition upd :: "(KVCacheBlock \<Rightarrow> KVCacheBlock) \<Rightarrow> ptr \<Rightarrow> 'a free_queue_scheme \<Rightarrow> 'a free_queue_scheme" where
  "upd f p s = s\<lparr>heap := (heap s)(p := f (heap s p))\<rparr>"

definition set_next :: "ptr \<Rightarrow> ptr option \<Rightarrow> 'a free_queue_scheme \<Rightarrow> 'a free_queue_scheme" where
  "set_next p v = upd (\<lambda>b. b\<lparr>next_free_block := v\<rparr>) p"

definition set_prev :: "ptr \<Rightarrow> ptr option \<Rightarrow> 'a free_queue_scheme \<Rightarrow> 'a free_queue_scheme" where
  "set_prev p v = upd (\<lambda>b. b\<lparr>prev_free_block := v\<rparr>) p"

abbreviation nxt :: "'a free_queue_scheme \<Rightarrow> ptr \<Rightarrow> ptr option" where
  "nxt s p \<equiv> next_free_block (heap s p)"

abbreviation prv :: "'a free_queue_scheme \<Rightarrow> ptr \<Rightarrow> ptr option" where
  "prv s p \<equiv> prev_free_block (heap s p)"

text \<open>The setter of \<^verbatim>\<open>block_hash\<close> asserts that the block has no hash yet.\<close>

definition set_block_hash :: "ptr \<Rightarrow> bytes \<Rightarrow> 'a free_queue_scheme \<Rightarrow> 'a free_queue_scheme result" where
  "set_block_hash p h s = assertE (block_hash (heap s p) = None)
     (Inr (upd (\<lambda>b. b\<lparr>block_hash := Some h\<rparr>) p s))"

definition reset_hash :: "ptr \<Rightarrow> 'a free_queue_scheme \<Rightarrow> 'a free_queue_scheme" where
  "reset_hash = upd (\<lambda>b. b\<lparr>block_hash := None\<rparr>)"

subsection \<open>The operations of the queue\<close>

text \<open>
  The constructor links the \<open>n\<close> given blocks in order and then the sentinels. The loop body
  guards the two ends.
\<close>

definition link_block :: "nat \<Rightarrow> nat \<Rightarrow> 'a free_queue_scheme \<Rightarrow> 'a free_queue_scheme" where
  "link_block n i s =
     (let s = (if i > 0 then set_prev (Blk i) (Some (Blk (i - 1))) s else s)
      in if i < n - 1 then set_next (Blk i) (Some (Blk (i + 1))) s else s)"

definition free_queue_init :: "nat \<Rightarrow> 'a free_queue_scheme \<Rightarrow> 'a free_queue_scheme" where
  "free_queue_init n s =
     (let s = fold (link_block n) [0..<n] (s\<lparr>num_free_blocks := int n\<rparr>)
      in if n > 0 then
        set_next (Blk (n - 1)) (Some FakeTail)
          (set_prev FakeTail (Some (Blk (n - 1)))
            (set_prev (Blk 0) (Some FakeHead) (set_next FakeHead (Some (Blk 0)) s)))
      else set_prev FakeTail (Some FakeHead) (set_next FakeHead (Some FakeTail) s))"

definition popleft :: "'a free_queue_scheme \<Rightarrow> ('a free_queue_scheme \<times> ptr) result" where
  "popleft s = (case nxt s FakeHead of
      None \<Rightarrow> assertE (num_free_blocks s = 0) (Inl ValueError)
    | Some first \<Rightarrow>
       (if first = FakeTail then assertE (num_free_blocks s = 0) (Inl ValueError)
        else case nxt s first of
          None \<Rightarrow> Inl RuntimeError
        | Some second \<Rightarrow>
           (let s = set_next FakeHead (Some second) s;
                s = set_prev second (Some FakeHead) s;
                s = set_next first None (set_prev first None s)
            in Inr (s\<lparr>num_free_blocks := num_free_blocks s - 1\<rparr>, first))))"

fun popleft_loop :: "nat \<Rightarrow> ptr option \<Rightarrow> ptr list \<Rightarrow> 'a free_queue_scheme
    \<Rightarrow> ('a free_queue_scheme \<times> ptr list \<times> ptr option) result" where
  "popleft_loop 0 cur ret s = Inr (s, ret, cur)"
| "popleft_loop (Suc k) None ret s = Inl AssertionError"
| "popleft_loop (Suc k) (Some c) ret s =
     popleft_loop k (nxt s c) (ret @ [c]) (set_next c None (set_prev c None s))"

definition popleft_n :: "int \<Rightarrow> 'a free_queue_scheme \<Rightarrow> ('a free_queue_scheme \<times> ptr list) result" where
  "popleft_n n s =
     (if n = 0 then Inr (s, [])
      else assertE (num_free_blocks s \<ge> n)
        (bindE (popleft_loop (nat n) (nxt s FakeHead) []
            (s\<lparr>num_free_blocks := num_free_blocks s - n\<rparr>))
          (\<lambda>(s, ret, cur). case cur of
             None \<Rightarrow> Inr (s, ret)
           | Some c \<Rightarrow> Inr (set_prev c (Some FakeHead) (set_next FakeHead (Some c) s), ret))))"

definition remove :: "ptr \<Rightarrow> 'a free_queue_scheme \<Rightarrow> 'a free_queue_scheme result" where
  "remove p s = (case (prv s p, nxt s p) of
      (Some a, Some b) \<Rightarrow>
        (let s = set_next a (Some b) s;
             s = set_prev b (Some a) s;
             s = set_next p None (set_prev p None s)
         in Inr (s\<lparr>num_free_blocks := num_free_blocks s - 1\<rparr>))
    | _ \<Rightarrow> Inl RuntimeError)"

definition append_block :: "ptr \<Rightarrow> 'a free_queue_scheme \<Rightarrow> 'a free_queue_scheme result" where
  "append_block p s = (case prv s FakeTail of
      None \<Rightarrow> Inl RuntimeError
    | Some last_block \<Rightarrow>
        (let s = set_next last_block (Some p) s;
             s = set_prev p (Some last_block) s;
             s = set_next p (Some FakeTail) s;
             s = set_prev FakeTail (Some p) s
         in Inr (s\<lparr>num_free_blocks := num_free_blocks s + 1\<rparr>)))"

fun append_loop :: "ptr list \<Rightarrow> ptr \<Rightarrow> 'a free_queue_scheme \<Rightarrow> ptr \<times> 'a free_queue_scheme" where
  "append_loop [] last_block s = (last_block, s)"
| "append_loop (b # bs) last_block s =
     append_loop bs b (set_next last_block (Some b) (set_prev b (Some last_block) s))"

definition append_n :: "ptr list \<Rightarrow> 'a free_queue_scheme \<Rightarrow> 'a free_queue_scheme result" where
  "append_n bs s =
     (if bs = [] then Inr s
      else case prv s FakeTail of
        None \<Rightarrow> Inl AssertionError
      | Some last_block \<Rightarrow>
          (let (l, s) = append_loop bs last_block s;
               s = set_prev FakeTail (Some l) (set_next l (Some FakeTail) s)
           in Inr (s\<lparr>num_free_blocks := num_free_blocks s + int (length bs)\<rparr>)))"

text \<open>The \<open>while\<close> loop of \<^verbatim>\<open>get_all_free_blocks\<close> has no bound of its own.\<close>

partial_function (option) walk :: "(ptr \<Rightarrow> KVCacheBlock) \<Rightarrow> ptr \<Rightarrow> ptr list \<Rightarrow> ptr list option" where
  "walk h c ret = (case next_free_block (h c) of
      None \<Rightarrow> Some ret
    | Some d \<Rightarrow> walk h d (ret @ [c]))"

definition get_all_free_blocks :: "'a free_queue_scheme \<Rightarrow> ptr list result option" where
  "get_all_free_blocks s = (case nxt s FakeHead of
      None \<Rightarrow> Some (Inl RuntimeError)
    | Some c \<Rightarrow> map_option Inr (walk (heap s) c []))"

subsection \<open>Chains of links\<close>

fun linked :: "(ptr \<Rightarrow> KVCacheBlock) \<Rightarrow> ptr list \<Rightarrow> bool" where
  "linked h (x # y # zs) \<longleftrightarrow>
     next_free_block (h x) = Some y \<and> prev_free_block (h y) = Some x \<and> linked h (y # zs)"
| "linked h _ \<longleftrightarrow> True"

text \<open>The queue holds \<open>xs\<close>: the abstraction relation and the invariant in one.\<close>

definition fq_rel :: "'a free_queue_scheme \<Rightarrow> ptr list \<Rightarrow> bool" where
  "fq_rel s xs \<longleftrightarrow> linked (heap s) (FakeHead # xs @ [FakeTail])
     \<and> distinct (FakeHead # xs @ [FakeTail])
     \<and> nxt s FakeTail = None
     \<and> (\<forall>i. Blk i \<notin> set xs \<longrightarrow> prv s (Blk i) = None \<and> nxt s (Blk i) = None)
     \<and> num_free_blocks s = int (length xs)"

text \<open>What the queue operations never touch.\<close>

definition meta :: "'a free_queue_scheme \<Rightarrow> (ptr \<Rightarrow> int \<times> int \<times> bytes option \<times> bool) \<times> 'a" where
  "meta s = ((\<lambda>p. (block_id (heap s p), ref_cnt (heap s p), block_hash (heap s p),
     is_null (heap s p))), free_queue.more s)"

lemma links_upd [simp]:
  "nxt (set_next p v s) q = (if q = p then v else nxt s q)"
  "prv (set_next p v s) q = prv s q"
  "prv (set_prev p v s) q = (if q = p then v else prv s q)"
  "nxt (set_prev p v s) q = nxt s q"
  "num_free_blocks (set_next p v s) = num_free_blocks s"
  "num_free_blocks (set_prev p v s) = num_free_blocks s"
  by (simp_all add: set_next_def set_prev_def upd_def)

lemma meta_upd [simp, frame_simps]:
  "meta (set_next p v s) = meta s"
  "meta (set_prev p v s) = meta s"
  "meta (s\<lparr>num_free_blocks := k\<rparr>) = meta s"
  by (auto simp: meta_def set_next_def set_prev_def upd_def fun_eq_iff)

lemma linked_cong:
  assumes "\<And>x. x \<in> set (butlast xs) \<Longrightarrow> next_free_block (h' x) = next_free_block (h x)"
    and "\<And>x. x \<in> set (tl xs) \<Longrightarrow> prev_free_block (h' x) = prev_free_block (h x)"
  shows "linked h' xs = linked h xs"
  using assms by (induction h xs rule: linked.induct) auto

lemma linked_append:
  "linked h (xs @ y # ys) \<longleftrightarrow> linked h (xs @ [y]) \<and> linked h (y # ys)"
proof (induction xs)
  case (Cons x xs)
  then show ?case by (cases xs) auto
qed simp

lemma linked_append2:
  "linked h (xs @ y # z # zs) \<longleftrightarrow> linked h (xs @ [y])
     \<and> next_free_block (h y) = Some z \<and> prev_free_block (h z) = Some y \<and> linked h (z # zs)"
  using linked_append [of h xs y "z # zs"] by simp

text \<open>Joining two chains after their ends were linked to each other.\<close>

lemma linked_join:
  assumes "linked h (us @ [a])" and "linked h (b # vs)"
    and "distinct (us @ a # b # vs)"
    and "next_free_block (h' a) = Some b" and "prev_free_block (h' b) = Some a"
    and "\<And>x. x \<in> set us \<union> set vs \<union> {b} \<Longrightarrow> next_free_block (h' x) = next_free_block (h x)"
    and "\<And>x. x \<in> set us \<union> set vs \<union> {a} \<Longrightarrow> prev_free_block (h' x) = prev_free_block (h x)"
  shows "linked h' (us @ a # b # vs)"
proof -
  have "linked h' (us @ [a]) = linked h (us @ [a])"
    by (rule linked_cong) (use assms in \<open>auto dest: list.set_sel(2) [rotated] split: list.splits simp: tl_append\<close>)
  moreover have "linked h' (b # vs) = linked h (b # vs)"
    by (rule linked_cong) (use assms in \<open>auto dest: in_set_butlastD split: if_splits\<close>)
  ultimately show ?thesis using assms(1,2,4,5) by (simp add: linked_append2)
qed

lemma ptr_not_sentinel: "p \<noteq> FakeHead \<Longrightarrow> p \<noteq> FakeTail \<Longrightarrow> \<exists>i. p = Blk i"
  by (cases p) auto

lemma fq_rel_num: "fq_rel s xs \<Longrightarrow> num_free_blocks s = int (length xs)"
  by (simp add: fq_rel_def)

lemma fq_rel_distinct: "fq_rel s xs \<Longrightarrow> distinct xs"
  by (simp add: fq_rel_def)

lemma fq_rel_real: "fq_rel s xs \<Longrightarrow> p \<in> set xs \<Longrightarrow> \<exists>i. p = Blk i"
  by (rule ptr_not_sentinel) (auto simp: fq_rel_def)

lemma fq_rel_unlinked:
  "fq_rel s xs \<Longrightarrow> Blk i \<notin> set xs \<Longrightarrow> prv s (Blk i) = None \<and> nxt s (Blk i) = None"
  by (simp add: fq_rel_def)

text \<open>The queue determines its list.\<close>

lemma linked_determines:
  "linked h (a # xs @ [FakeTail]) \<Longrightarrow> linked h (a # ys @ [FakeTail]) \<Longrightarrow>
   FakeTail \<notin> set xs \<Longrightarrow> FakeTail \<notin> set ys \<Longrightarrow> xs = ys"
proof (induction xs arbitrary: a ys)
  case Nil
  then show ?case by (cases ys) auto
next
  case (Cons x xs)
  then show ?case by (cases ys) auto
qed

lemma fq_rel_unique: "fq_rel s xs \<Longrightarrow> fq_rel s ys \<Longrightarrow> xs = ys"
  by (rule linked_determines [of "heap s" FakeHead]) (auto simp: fq_rel_def)

subsection \<open>Each operation acts on the list\<close>

lemma remove_refines:
  assumes rel: "fq_rel s xs" and "p \<in> set xs"
  shows "\<exists>s'. remove p s = Inr s' \<and> fq_rel s' (remove1 p xs) \<and> meta s' = meta s"
proof -
  from assms obtain as bs where xs: "xs = as @ p # bs" and p: "p \<notin> set as"
    by (meson split_list_first)
  obtain us a where us: "FakeHead # as = us @ [a]" by (metis list.discI rev_exhaust)
  obtain b vs where vs: "bs @ [FakeTail] = b # vs" by (cases bs) auto
  have path: "FakeHead # xs @ [FakeTail] = us @ a # p # b # vs"
    using us vs xs by (metis append.assoc append_Cons append_Nil)
  let ?h = "heap s"
  have lk: "linked ?h (us @ [a])" "next_free_block (?h a) = Some p" "prev_free_block (?h p) = Some a"
    "next_free_block (?h p) = Some b" "linked ?h (b # vs)"
    using rel unfolding fq_rel_def path by (auto simp: linked_append2)
  have d: "distinct (us @ a # p # b # vs)" using rel unfolding fq_rel_def path by simp
  define s' where "s' = (set_next p None (set_prev p None (set_prev b (Some a) (set_next a (Some b) s))))
      \<lparr>num_free_blocks := num_free_blocks s - 1\<rparr>"
  have rem: "remove p s = Inr s'" using lk by (simp add: remove_def s'_def)
  have path': "FakeHead # remove1 p xs @ [FakeTail] = us @ a # b # vs"
    using us vs xs p by (simp add: remove1_append)
  have "linked (heap s') (us @ a # b # vs)"
    by (rule linked_join [OF lk(1,5)]) (use d in \<open>auto simp: s'_def\<close>)
  moreover have "nxt s' FakeTail = None"
    using rel lk(2) by (auto simp: s'_def fq_rel_def)
  moreover have "\<forall>i. Blk i \<notin> set (remove1 p xs) \<longrightarrow> prv s' (Blk i) = None \<and> nxt s' (Blk i) = None"
  proof (intro allI impI)
    fix i assume i: "Blk i \<notin> set (remove1 p xs)"
    then have "Blk i = p \<or> Blk i \<notin> set xs" using rel by (auto simp: fq_rel_def)
    moreover have "a \<in> set (FakeHead # remove1 p xs @ [FakeTail])" "b \<in> set (FakeHead # remove1 p xs @ [FakeTail])"
      unfolding path' by simp_all
    with i have "Blk i \<noteq> a" "Blk i \<noteq> b" by auto
    ultimately show "prv s' (Blk i) = None \<and> nxt s' (Blk i) = None"
      using rel by (auto simp: s'_def fq_rel_def)
  qed
  moreover have "distinct (FakeHead # remove1 p xs @ [FakeTail])"
    using d unfolding path' by simp
  moreover have "num_free_blocks s' = int (length (remove1 p xs))"
    using rel xs p by (simp add: fq_rel_def s'_def remove1_append)
  ultimately have "fq_rel s' (remove1 p xs)" unfolding fq_rel_def path' by blast
  moreover have "meta s' = meta s" by (simp add: s'_def)
  ultimately show ?thesis using rem by blast
qed

text \<open>\<^verbatim>\<open>popleft\<close> is \<^verbatim>\<open>remove\<close> of the first block.\<close>

lemma popleft_empty: "fq_rel s [] \<Longrightarrow> popleft s = Inl ValueError"
  by (simp add: popleft_def fq_rel_def)

lemma popleft_eq_remove:
  assumes "fq_rel s (p # xs)"
  shows "popleft s = bindE (remove p s) (\<lambda>s'. Inr (s', p))"
proof -
  obtain b where b: "nxt s p = Some b" using assms by (cases xs) (auto simp: fq_rel_def)
  have "nxt s FakeHead = Some p" "prv s p = Some FakeHead" "p \<noteq> FakeTail"
    using assms by (auto simp: fq_rel_def)
  with b show ?thesis by (simp add: popleft_def remove_def)
qed

lemma popleft_refines:
  assumes "fq_rel s (p # xs)"
  shows "\<exists>s'. popleft s = Inr (s', p) \<and> fq_rel s' xs \<and> meta s' = meta s"
  using remove_refines [OF assms, of p] popleft_eq_remove [OF assms] by auto

definition clear_links :: "ptr \<Rightarrow> 'a free_queue_scheme \<Rightarrow> 'a free_queue_scheme" where
  "clear_links c s = set_next c None (set_prev c None s)"

lemma fold_clear_links [simp]:
  "nxt (fold clear_links ys s) q = (if q \<in> set ys then None else nxt s q)"
  "prv (fold clear_links ys s) q = (if q \<in> set ys then None else prv s q)"
  "num_free_blocks (fold clear_links ys s) = num_free_blocks s"
  "meta (fold clear_links ys s) = meta s"
  by (induction ys arbitrary: s) (auto simp: clear_links_def)

lemma popleft_loop_chain:
  "linked (heap s) (ys @ z # zs) \<Longrightarrow> distinct (ys @ z # zs) \<Longrightarrow>
   popleft_loop (length ys) (Some (hd (ys @ [z]))) ret s
     = Inr (fold clear_links ys s, ret @ ys, Some z)"
proof (induction ys arbitrary: s ret)
  case (Cons y ys)
  obtain r rs where r: "ys @ z # zs = r # rs" "hd (ys @ [z]) = r" by (cases ys) auto
  from Cons.prems(1) have n: "nxt s y = Some r" and lk: "linked (heap s) (ys @ z # zs)"
    using r by auto
  have "linked (heap (clear_links y s)) (ys @ z # zs)"
    using lk Cons.prems(2) by (subst linked_cong [where h = "heap s"])
      (auto simp: clear_links_def dest: in_set_butlastD list.set_sel(2) [rotated])
  with Cons.IH [of "clear_links y s" "ret @ [y]"] Cons.prems(2) n r(2)
  show ?case by (simp add: clear_links_def)
qed simp

lemma popleft_n_refines:
  assumes rel: "fq_rel s xs" and n: "0 \<le> n" "n \<le> int (length xs)"
  shows "\<exists>s'. popleft_n n s = Inr (s', take (nat n) xs) \<and> fq_rel s' (drop (nat n) xs) \<and> meta s' = meta s"
proof (cases "n = 0")
  case True
  with rel show ?thesis by (simp add: popleft_n_def)
next
  case False
  define ys where "ys = take (nat n) xs"
  define zs where "zs = drop (nat n) xs"
  have xs: "xs = ys @ zs" and len: "length ys = nat n"
    using n by (auto simp: ys_def zs_def)
  obtain z vs where z: "zs @ [FakeTail] = z # vs" by (cases zs) auto
  define s0 where "s0 = s\<lparr>num_free_blocks := num_free_blocks s - n\<rparr>"
  define s' where "s' = set_prev z (Some FakeHead) (set_next FakeHead (Some z) (fold clear_links ys s0))"
  have path: "FakeHead # xs @ [FakeTail] = FakeHead # ys @ z # vs" using xs z by simp
  have lk: "linked (heap s0) (FakeHead # ys @ z # vs)" and d: "distinct (FakeHead # ys @ z # vs)"
    using rel unfolding fq_rel_def path by (auto simp: s0_def)
  have lk': "linked (heap s0) (ys @ z # vs)"
    using lk by (cases ys) auto
  then have lk'': "linked (heap s0) (z # vs)" by (subst (asm) linked_append) simp
  have hd: "nxt s FakeHead = Some (hd (ys @ [z]))"
    using lk by (cases ys) (auto simp: s0_def)
  have "popleft_n n s = Inr (s', ys)"
    using False rel n popleft_loop_chain [OF lk', of "[]"] d
    by (simp add: popleft_n_def fq_rel_num hd len s0_def s'_def)
  moreover have "fq_rel s' zs"
  proof -
    have "linked (heap s') ([] @ FakeHead # z # vs)"
      by (rule linked_join [where h = "heap s0"])
        (use lk'' d in \<open>auto simp: s'_def\<close>)
    moreover have "\<forall>i. Blk i \<notin> set zs \<longrightarrow> prv s' (Blk i) = None \<and> nxt s' (Blk i) = None"
    proof (intro allI impI)
      fix i assume i: "Blk i \<notin> set zs"
      then have "Blk i \<noteq> z" using z by (cases zs) auto
      with i xs rel show "prv s' (Blk i) = None \<and> nxt s' (Blk i) = None"
        by (auto simp: s'_def s0_def fq_rel_def)
    qed
    moreover have "distinct (FakeHead # zs @ [FakeTail])" "num_free_blocks s' = int (length zs)"
      using rel n len by (simp_all add: fq_rel_def xs s'_def s0_def)
    moreover have "nxt s' FakeTail = None"
      using rel z [symmetric] by (simp add: fq_rel_def s'_def s0_def)
    ultimately show ?thesis by (simp add: fq_rel_def z)
  qed
  moreover have "meta s' = meta s" by (simp add: s'_def s0_def)
  ultimately show ?thesis by (auto simp: ys_def zs_def)
qed

lemma popleft_n_too_many:
  "fq_rel s xs \<Longrightarrow> n > int (length xs) \<Longrightarrow> popleft_n n s = Inl AssertionError"
  by (auto simp: popleft_n_def fq_rel_num)

lemma append_loop_chain:
  assumes "linked (heap s) (us @ [l])" and "distinct (us @ l # bs)"
  shows "let (l', s') = append_loop bs l s in
     l' = last (l # bs) \<and> linked (heap s') (us @ l # bs)
     \<and> (\<forall>q. q \<notin> set (butlast (l # bs)) \<longrightarrow> nxt s' q = nxt s q)
     \<and> (\<forall>q. q \<notin> set bs \<longrightarrow> prv s' q = prv s q)
     \<and> num_free_blocks s' = num_free_blocks s \<and> meta s' = meta s"
  using assms
proof (induction bs arbitrary: l s us)
  case (Cons b bs)
  let ?s = "set_next l (Some b) (set_prev b (Some l) s)"
  have "linked (heap ?s) (us @ l # b # [])"
    by (rule linked_join [OF Cons.prems(1)]) (use Cons.prems(2) in auto)
  with Cons.IH [of ?s "us @ [l]" b] Cons.prems(2) show ?case
    by (auto simp: Let_def split: prod.splits)
qed auto

lemma append_n_refines:
  assumes rel: "fq_rel s xs" and bs: "distinct bs" "set bs \<inter> set xs = {}" "set bs \<subseteq> range Blk"
  shows "\<exists>s'. append_n bs s = Inr s' \<and> fq_rel s' (xs @ bs) \<and> meta s' = meta s"
proof (cases "bs = []")
  case True
  with rel show ?thesis by (simp add: append_n_def)
next
  case False
  obtain us l where us: "FakeHead # xs = us @ [l]" by (metis list.discI rev_exhaust)
  have path: "FakeHead # xs @ [FakeTail] = us @ [l] @ [FakeTail]" using us by simp
  have lk: "linked (heap s) (us @ [l])" and pt: "prv s FakeTail = Some l"
    and d: "distinct (us @ [l])" "FakeTail \<notin> set (us @ [l])"
    using rel unfolding fq_rel_def path by (auto simp: linked_append2)
  have set_us: "set (us @ [l]) = insert FakeHead (set xs)" using us by (metis list.simps(15))
  have fresh: "set bs \<inter> set (us @ [l]) = {}" "FakeTail \<notin> set bs"
    using bs set_us by auto
  have dist: "distinct (us @ l # bs)" using d(1) fresh(1) bs(1) by auto
  obtain l' s1 where app: "append_loop bs l s = (l', s1)" by force
  from append_loop_chain [OF lk dist]
  have l': "l' = last bs" and lk1: "linked (heap s1) (us @ l # bs)"
    and nx: "\<And>q. q \<notin> set (butlast (l # bs)) \<Longrightarrow> nxt s1 q = nxt s q"
    and pv: "\<And>q. q \<notin> set bs \<Longrightarrow> prv s1 q = prv s q"
    and num: "num_free_blocks s1 = num_free_blocks s" "meta s1 = meta s"
    using app False by (auto simp: Let_def)
  obtain cs where cs: "us @ l # bs = cs @ [l']"
    using False l' by (metis append_butlast_last_id append_is_Nil_conv last_ConsR last_appendR list.discI)
  define s' where "s' = (set_prev FakeTail (Some l') (set_next l' (Some FakeTail) s1))
     \<lparr>num_free_blocks := num_free_blocks s1 + int (length bs)\<rparr>"
  have ap: "append_n bs s = Inr s'"
    using False pt app by (simp add: append_n_def s'_def)
  have dcs: "distinct (cs @ [l'])" "FakeTail \<notin> set (cs @ [l'])"
    using dist d(2) fresh(2) unfolding cs [symmetric] by auto
  have "linked (heap s') (cs @ l' # FakeTail # [])"
    by (rule linked_join [where h = "heap s1"]) (use lk1 cs dcs in \<open>auto simp: s'_def\<close>)
  moreover have path': "FakeHead # (xs @ bs) @ [FakeTail] = cs @ l' # [FakeTail]"
  proof -
    have "FakeHead # (xs @ bs) @ [FakeTail] = (us @ l # bs) @ [FakeTail]"
      using us by (metis append.assoc append_Cons append_Nil)
    then show ?thesis by (simp add: cs)
  qed
  moreover have "nxt s' FakeTail = None"
  proof -
    have "FakeTail \<notin> set (butlast (l # bs))"
      using d(2) fresh(2) by (auto dest: in_set_butlastD split: if_splits)
    with rel dcs(2) nx show ?thesis by (auto simp: s'_def fq_rel_def)
  qed
  moreover have "\<forall>i. Blk i \<notin> set (xs @ bs) \<longrightarrow> prv s' (Blk i) = None \<and> nxt s' (Blk i) = None"
  proof (intro allI impI)
    fix i assume i: "Blk i \<notin> set (xs @ bs)"
    then have "Blk i \<notin> set (l # bs)" using set_us by auto
    then have "Blk i \<noteq> l'" "Blk i \<notin> set (butlast (l # bs))"
      using l' False by (auto dest: in_set_butlastD)
    with i rel nx pv show "prv s' (Blk i) = None \<and> nxt s' (Blk i) = None"
      by (auto simp: s'_def fq_rel_def)
  qed
  ultimately have "fq_rel s' (xs @ bs)"
    using rel dcs num unfolding fq_rel_def path' by (auto simp: s'_def)
  with ap num show ?thesis by (auto simp: s'_def)
qed

lemma append_block_eq_append_n:
  "fq_rel s xs \<Longrightarrow> append_block p s = append_n [p] s"
proof -
  assume rel: "fq_rel s xs"
  obtain us l where "FakeHead # xs = us @ [l]" by (metis list.discI rev_exhaust)
  then have "prv s FakeTail = Some l"
    using rel unfolding fq_rel_def by (metis append_Cons append.assoc linked_append2 append_Nil)
  moreover have "set_next l v (set_prev p w t) = set_prev p w (set_next l v t)" for v w and t :: "'a free_queue_scheme"
    by (simp add: set_next_def set_prev_def upd_def fun_eq_iff)
  ultimately show ?thesis by (simp add: append_block_def append_n_def Let_def)
qed

lemma append_block_refines:
  assumes "fq_rel s xs" and "Blk i \<notin> set xs"
  shows "\<exists>s'. append_block (Blk i) s = Inr s' \<and> fq_rel s' (xs @ [Blk i]) \<and> meta s' = meta s"
  using append_n_refines [OF assms(1), of "[Blk i]"] append_block_eq_append_n [OF assms(1)] assms(2)
  by auto

text \<open>The constructor's loop, and the queue it makes: the blocks in the order of their ids.\<close>

lemma fold_link_block:
  "k \<le> n \<Longrightarrow>
   nxt (fold (link_block n) [0..<k] s) p
     = (case p of Blk i \<Rightarrow> if i < k \<and> i < n - 1 then Some (Blk (i + 1)) else nxt s p | _ \<Rightarrow> nxt s p)
   \<and> prv (fold (link_block n) [0..<k] s) p
     = (case p of Blk i \<Rightarrow> if i < k \<and> 0 < i then Some (Blk (i - 1)) else prv s p | _ \<Rightarrow> prv s p)
   \<and> num_free_blocks (fold (link_block n) [0..<k] s) = num_free_blocks s
   \<and> meta (fold (link_block n) [0..<k] s) = meta s"
proof (induction k)
  case (Suc k)
  then show ?case by (auto simp: link_block_def Let_def less_Suc_eq split: ptr.splits)
qed (auto split: ptr.splits)

lemma linked_iff_nth:
  "linked h xs \<longleftrightarrow> (\<forall>i. Suc i < length xs \<longrightarrow>
     next_free_block (h (xs ! i)) = Some (xs ! Suc i) \<and> prev_free_block (h (xs ! Suc i)) = Some (xs ! i))"
proof (induction h xs rule: linked.induct)
  case (1 h x y zs)
  show ?case
    unfolding linked.simps 1 by (auto simp: nth_Cons split: nat.splits)
qed auto

lemma free_queue_init_links:
  assumes "\<And>p. nxt s p = None \<and> prv s p = None"
  shows "nxt (free_queue_init n s) p = (case p of
        FakeHead \<Rightarrow> Some (if n > 0 then Blk 0 else FakeTail)
      | FakeTail \<Rightarrow> None
      | Blk i \<Rightarrow> if i < n then Some (if i = n - 1 then FakeTail else Blk (i + 1)) else None)"
    and "prv (free_queue_init n s) p = (case p of
        FakeHead \<Rightarrow> None
      | FakeTail \<Rightarrow> Some (if n > 0 then Blk (n - 1) else FakeHead)
      | Blk i \<Rightarrow> if i < n then Some (if i = 0 then FakeHead else Blk (i - 1)) else None)"
    and "num_free_blocks (free_queue_init n s) = int n"
    and "meta (free_queue_init n s) = meta s"
  using fold_link_block [of n n "s\<lparr>num_free_blocks := int n\<rparr>"] assms
  by (auto simp: free_queue_init_def Let_def split: ptr.splits)

lemma free_queue_init_refines:
  assumes "\<And>p. nxt s p = None \<and> prv s p = None"
  shows "fq_rel (free_queue_init n s) (map Blk [0..<n])" and "meta (free_queue_init n s) = meta s"
proof -
  note L = free_queue_init_links [OF assms, of n]
  have "linked (heap (free_queue_init n s)) (FakeHead # map Blk [0..<n] @ [FakeTail])"
    unfolding linked_iff_nth
  proof (intro allI impI)
    fix i assume i: "Suc i < length (FakeHead # map Blk [0..<n] @ [FakeTail])"
    then consider "i = 0" | j where "i = Suc j" "j < n" by (cases i) auto
    then show "nxt (free_queue_init n s) ((FakeHead # map Blk [0..<n] @ [FakeTail]) ! i)
        = Some ((FakeHead # map Blk [0..<n] @ [FakeTail]) ! Suc i)
      \<and> prv (free_queue_init n s) ((FakeHead # map Blk [0..<n] @ [FakeTail]) ! Suc i)
        = Some ((FakeHead # map Blk [0..<n] @ [FakeTail]) ! i)"
      by cases (auto simp: L nth_append less_Suc_eq)
  qed
  then show "fq_rel (free_queue_init n s) (map Blk [0..<n])"
    by (auto simp: fq_rel_def L distinct_map inj_on_def)
qed (rule free_queue_init_links [OF assms])

text \<open>The \<open>while\<close> loop ends and returns the list.\<close>

lemma walk_chain:
  "linked h (ys @ [FakeTail]) \<Longrightarrow> next_free_block (h FakeTail) = None \<Longrightarrow>
   walk h (hd (ys @ [FakeTail])) ret = Some (ret @ ys)"
proof (induction ys arbitrary: ret)
  case Nil
  then show ?case by (simp add: walk.simps)
next
  case (Cons y ys)
  then have "next_free_block (h y) = Some (hd (ys @ [FakeTail]))" by (cases ys) auto
  with Cons show ?case by (cases ys) (auto simp: walk.simps [of h y])
qed

lemma get_all_free_blocks_refines: "fq_rel s xs \<Longrightarrow> get_all_free_blocks s = Some (Inr xs)"
proof -
  assume rel: "fq_rel s xs"
  then have "nxt s FakeHead = Some (hd (xs @ [FakeTail]))" "linked (heap s) (xs @ [FakeTail])"
    by (cases xs; simp add: fq_rel_def)+
  with rel walk_chain [of "heap s" xs "[]"] show ?thesis
    by (simp add: get_all_free_blocks_def fq_rel_def)
qed

lemma remove_unlinked: "fq_rel s xs \<Longrightarrow> Blk i \<notin> set xs \<Longrightarrow> remove (Blk i) s = Inl RuntimeError"
  by (simp add: remove_def fq_rel_def)

subsection \<open>The interface the block pool uses\<close>

text \<open>
  What the block pool relies on: the state stands for a duplicate-free list, allocation takes
  from the front, a touched block is taken out of the middle, freed blocks go to the back, and
  nothing but the list changes (\<open>frame\<close> is everything the queue does not own).
\<close>

locale eviction_queue =
  fixes rel :: "'s \<Rightarrow> 'b list \<Rightarrow> bool"
    and size_of :: "'s \<Rightarrow> int"
    and pop_n :: "int \<Rightarrow> 's \<Rightarrow> ('s \<times> 'b list) result"
    and rem :: "'b \<Rightarrow> 's \<Rightarrow> 's result"
    and app :: "'b list \<Rightarrow> 's \<Rightarrow> 's result"
    and valid :: "'b \<Rightarrow> bool"
    and frame :: "'s \<Rightarrow> 'f"
  assumes rel_distinct: "rel s xs \<Longrightarrow> distinct xs"
    and rel_fun: "rel s xs \<Longrightarrow> rel s ys \<Longrightarrow> xs = ys"
    and rel_valid: "rel s xs \<Longrightarrow> x \<in> set xs \<Longrightarrow> valid x"
    and size_law: "rel s xs \<Longrightarrow> size_of s = int (length xs)"
    and pop_law: "rel s xs \<Longrightarrow> 0 \<le> n \<Longrightarrow> n \<le> int (length xs) \<Longrightarrow>
      \<exists>s'. pop_n n s = Inr (s', take (nat n) xs) \<and> rel s' (drop (nat n) xs) \<and> frame s' = frame s"
    and pop_too_many: "rel s xs \<Longrightarrow> n > int (length xs) \<Longrightarrow> pop_n n s = Inl AssertionError"
    and rem_law: "rel s xs \<Longrightarrow> x \<in> set xs \<Longrightarrow>
      \<exists>s'. rem x s = Inr s' \<and> rel s' (remove1 x xs) \<and> frame s' = frame s"
    and app_law: "rel s xs \<Longrightarrow> distinct ys \<Longrightarrow> set ys \<inter> set xs = {} \<Longrightarrow> (\<forall>y\<in>set ys. valid y) \<Longrightarrow>
      \<exists>s'. app ys s = Inr s' \<and> rel s' (xs @ ys) \<and> frame s' = frame s"
begin

lemma pop_Inr:
  assumes "rel s xs" and "0 \<le> n" and "pop_n n s = Inr (s', ps)"
  shows "n \<le> int (length xs)" and "ps = take (nat n) xs" and "rel s' (drop (nat n) xs)"
    and "frame s' = frame s"
proof -
  show n: "n \<le> int (length xs)"
    using pop_too_many [OF assms(1), of n] assms(3) by fastforce
  show "ps = take (nat n) xs" and "rel s' (drop (nat n) xs)" and "frame s' = frame s"
    using pop_law [OF assms(1,2) n] assms(3) by auto
qed

text \<open>Blocks are reused in the order in which they became free.\<close>

lemma fifo_reuse:
  assumes "rel s xs" and "distinct ys" and "set ys \<inter> set xs = {}" and "\<forall>y\<in>set ys. valid y"
    and "0 \<le> n" and "n \<le> int (length xs + length ys)"
  shows "\<exists>s' s''. app ys s = Inr s' \<and> pop_n n s' = Inr (s'', take (nat n) (xs @ ys))"
proof -
  obtain s' where s': "app ys s = Inr s'" "rel s' (xs @ ys)" using app_law [OF assms(1-4)] by blast
  with pop_law [OF s'(2) assms(5)] assms(6) show ?thesis by auto
qed

text \<open>A block that was taken out of the queue is not handed out.\<close>

lemma removed_not_popped:
  assumes "rel s xs" and "x \<in> set xs" and "rem x s = Inr s'" and "0 \<le> n" and "pop_n n s' = Inr (s'', ps)"
  shows "x \<notin> set ps"
proof -
  have "rel s' (remove1 x xs)" using rem_law [OF assms(1,2)] assms(3) by auto
  then have "ps = take (nat n) (remove1 x xs)" using pop_Inr(2) assms(4,5) by blast
  with rel_distinct [OF assms(1)] show ?thesis by (auto dest: in_set_takeD)
qed

text \<open>Allocating and freeing again rotates the queue: the blocks become the most recent ones.\<close>

lemma pop_app_rotates:
  assumes "rel s xs" and "0 \<le> n" and "pop_n n s = Inr (s', ps)"
  shows "\<exists>s''. app ps s' = Inr s'' \<and> rel s'' (drop (nat n) xs @ take (nat n) xs) \<and> frame s'' = frame s"
proof -
  note P = pop_Inr [OF assms]
  have d: "distinct (take (nat n) xs @ drop (nat n) xs)" using rel_distinct [OF assms(1)] by simp
  have "\<exists>s''. app ps s' = Inr s'' \<and> rel s'' (drop (nat n) xs @ ps) \<and> frame s'' = frame s'"
  proof (rule app_law)
    show "set ps \<inter> set (drop (nat n) xs) = {}" using d P(2) by (simp only: distinct_append)
  qed (use P d rel_valid [OF assms(1)] in \<open>auto dest: in_set_takeD\<close>)
  with P show ?thesis by auto
qed

end

lemma range_Blk_iff: "p \<in> range Blk \<longleftrightarrow> (\<exists>i. p = Blk i)"
  by auto

interpretation fq: eviction_queue fq_rel num_free_blocks popleft_n remove append_n
  "\<lambda>p. p \<in> range Blk" meta
proof unfold_locales
  fix s :: "'a free_queue_scheme" and xs ys :: "ptr list"
  show "\<exists>s'. append_n ys s = Inr s' \<and> fq_rel s' (xs @ ys) \<and> meta s' = meta s"
    if "fq_rel s xs" "distinct ys" "set ys \<inter> set xs = {}" "\<forall>y\<in>set ys. y \<in> range Blk"
    using append_n_refines that by blast
qed (auto intro: fq_rel_unique fq_rel_distinct dest: fq_rel_real fq_rel_num popleft_n_refines
    popleft_n_too_many remove_refines)

subsection \<open>Properties of the queue\<close>

text \<open>
  C10: The doubly linked free queue behaves as a list. When the links spell \<open>xs\<close>, \<^verbatim>\<open>popleft_n(n)\<close>
  returns exactly the first \<open>n\<close> blocks and leaves the rest (and fails its assertion when fewer
  are free), \<^verbatim>\<open>remove\<close> deletes one block from wherever it is, \<^verbatim>\<open>append_n\<close> adds blocks at the back,
  the \<open>while\<close> loop of \<^verbatim>\<open>get_all_free_blocks\<close> ends and returns \<open>xs\<close>, \<^verbatim>\<open>num_free_blocks\<close> is the
  length, and no operation changes a reference count, a hash, an id or a null flag.
\<close>

theorem free_queue_refines_list:
  assumes "fq_rel s xs"
  shows "(\<forall>n. 0 \<le> n \<and> n \<le> int (length xs) \<longrightarrow>
        (\<exists>s'. popleft_n n s = Inr (s', take (nat n) xs) \<and> fq_rel s' (drop (nat n) xs) \<and> meta s' = meta s))
    \<and> (\<forall>n. n > int (length xs) \<longrightarrow> popleft_n n s = Inl AssertionError)
    \<and> (\<forall>p \<in> set xs. \<exists>s'. remove p s = Inr s' \<and> fq_rel s' (remove1 p xs) \<and> meta s' = meta s)
    \<and> (\<forall>bs. distinct bs \<and> set bs \<inter> set xs = {} \<and> set bs \<subseteq> range Blk \<longrightarrow>
        (\<exists>s'. append_n bs s = Inr s' \<and> fq_rel s' (xs @ bs) \<and> meta s' = meta s))
    \<and> get_all_free_blocks s = Some (Inr xs)
    \<and> num_free_blocks s = int (length xs)"
  by (intro conjI allI ballI impI; (elim conjE)?)
    (use assms in \<open>auto intro: fq.pop_law fq.rem_law fq.pop_too_many append_n_refines
       get_all_free_blocks_refines fq.size_law\<close>)

definition initial_queue :: free_queue where
  "initial_queue = \<lparr>heap = (\<lambda>p. case p of Blk i \<Rightarrow> new_block (int i) | _ \<Rightarrow> new_block (-1)), num_free_blocks = 0\<rparr>"

lemma initial_queue_rel: "fq_rel (free_queue_init n initial_queue) (map Blk [0..<n])"
  by (rule free_queue_init_refines) (simp add: initial_queue_def new_block_def split: ptr.splits)

theorem free_queue_refines_list_witness:
  "(\<exists>s'. popleft_n 2 (free_queue_init 3 initial_queue) = Inr (s', [Blk 0, Blk 1]) \<and> fq_rel s' [Blk 2])
   \<and> (\<exists>s'. remove (Blk 1) (free_queue_init 3 initial_queue) = Inr s' \<and> fq_rel s' [Blk 0, Blk 2])"
  using free_queue_refines_list [OF initial_queue_rel [of 3]]
  by (auto simp: upt_rec numeral_eq_Suc dest!: spec [where x = 2])

text \<open>
  Least recently freed blocks are reused first, and allocating then freeing blocks makes
  them the most recently used: after \<^verbatim>\<open>popleft_n(n)\<close> and \<^verbatim>\<open>append_n\<close> of what it returned, the queue
  is rotated by \<open>n\<close>.
\<close>

theorem free_queue_pop_then_append_rotates:
  assumes "fq_rel s xs" and "0 \<le> n" and "popleft_n n s = Inr (s', ps)"
  shows "\<exists>s''. append_n ps s' = Inr s'' \<and> fq_rel s'' (drop (nat n) xs @ take (nat n) xs) \<and> meta s'' = meta s"
  using assms by (rule fq.pop_app_rotates)

theorem free_queue_pop_then_append_rotates_witness:
  "\<exists>s' s''. popleft_n 2 (free_queue_init 3 initial_queue) = Inr (s', [Blk 0, Blk 1])
     \<and> append_n [Blk 0, Blk 1] s' = Inr s'' \<and> fq_rel s'' [Blk 2, Blk 0, Blk 1]"
proof -
  have rel: "fq_rel (free_queue_init 3 initial_queue) [Blk 0, Blk 1, Blk 2]"
    using initial_queue_rel [of 3] by (simp add: upt_rec numeral_eq_Suc)
  obtain s' where s': "popleft_n 2 (free_queue_init 3 initial_queue) = Inr (s', [Blk 0, Blk 1])"
    using fq.pop_law [OF rel, of 2] by auto
  with free_queue_pop_then_append_rotates [OF rel _ s'] show ?thesis by auto
qed

end
