(* ===== verification/Requests.thy ===== *)
theory Requests
  imports Complex_Main Vllm_Prelude "HOL-Library.List_Lexorder" "HOL-Library.Char_ord"
begin

section \<open>Requests\<close>

text \<open>
  \<^verbatim>\<open>vllm/v1/request.py\<close>, the stop check and list helper of \<^verbatim>\<open>vllm/v1/core/sched/utils.py\<close>, and
  the placeholder ranges of \<^verbatim>\<open>vllm/multimodal/inputs.py\<close> that requests carry. A request is a
  record with the fields of the class; a method that assigns fields returns the updated
  record. The callable \<^verbatim>\<open>block_hasher\<close> is an argument of the operations that call it. Times are
  rationals: the code only compares them. A tensor of prompt embeddings is the list of the
  byte strings of its rows. \<open>py_id\<close> is the identity \<open>id(self)\<close> of the object.
\<close>

subsection \<open>Status and finish reason\<close>

datatype RequestStatus =
    WAITING | WAITING_FOR_FSM | WAITING_FOR_REMOTE_KVS | WAITING_FOR_STREAMING_REQ
  | RUNNING | PREEMPTED
  | FINISHED_STOPPED | FINISHED_LENGTH_CAPPED | FINISHED_ABORTED | FINISHED_IGNORED | FINISHED_ERROR

datatype FinishReason = REASON_STOP | REASON_LENGTH | REASON_ABORT | REASON_ERROR

text \<open>The values \<^verbatim>\<open>enum.auto()\<close> gives, in the order of the class body.\<close>

fun status_value :: "RequestStatus \<Rightarrow> int" where
  "status_value WAITING = 1"
| "status_value WAITING_FOR_FSM = 2"
| "status_value WAITING_FOR_REMOTE_KVS = 3"
| "status_value WAITING_FOR_STREAMING_REQ = 4"
| "status_value RUNNING = 5"
| "status_value PREEMPTED = 6"
| "status_value FINISHED_STOPPED = 7"
| "status_value FINISHED_LENGTH_CAPPED = 8"
| "status_value FINISHED_ABORTED = 9"
| "status_value FINISHED_IGNORED = 10"
| "status_value FINISHED_ERROR = 11"

definition status_is_finished :: "RequestStatus \<Rightarrow> bool" where
  "status_is_finished s \<longleftrightarrow> status_value s > status_value PREEMPTED"

fun finished_reason_map :: "RequestStatus \<Rightarrow> FinishReason option" where
  "finished_reason_map FINISHED_STOPPED = Some REASON_STOP"
| "finished_reason_map FINISHED_LENGTH_CAPPED = Some REASON_LENGTH"
| "finished_reason_map FINISHED_ABORTED = Some REASON_ABORT"
| "finished_reason_map FINISHED_IGNORED = Some REASON_LENGTH"
| "finished_reason_map FINISHED_ERROR = Some REASON_ERROR"
| "finished_reason_map WAITING_FOR_STREAMING_REQ = Some REASON_STOP"
| "finished_reason_map _ = None"

subsection \<open>Multi-modal placeholders\<close>

record PlaceholderRange =
  offset :: int
  length_of :: int
  is_embed :: "bool list option"

definition embeds_cumsum :: "PlaceholderRange \<Rightarrow> int list option" where
  "embeds_cumsum r = map_option
     (\<lambda>m. map (\<lambda>i. int (length (filter id (take (Suc i) m)))) [0..<length m]) (is_embed r)"

definition get_num_embeds :: "PlaceholderRange \<Rightarrow> int result" where
  "get_num_embeds r = (case embeds_cumsum r of
     None \<Rightarrow> Inr (length_of r)
   | Some c \<Rightarrow> index_py c (-1))"

definition get_embeds_indices_in_range :: "PlaceholderRange \<Rightarrow> int \<Rightarrow> int \<Rightarrow> (int \<times> int) result" where
  "get_embeds_indices_in_range r start_idx end_idx = (case embeds_cumsum r of
     None \<Rightarrow> Inr (start_idx, end_idx)
   | Some c \<Rightarrow>
       bindE (if start_idx > 0 then index_py c (start_idx - 1) else Inr 0) (\<lambda>a.
       bindE (index_py c (end_idx - 1)) (\<lambda>b. Inr (a, b))))"

record MultiModalFeatureSpec =
  modality :: string
  mm_identifier :: string
  mm_position :: PlaceholderRange

subsection \<open>The request\<close>

record LoRARequest =
  lora_name :: string
  lora_int_id :: int

record SamplingParams =
  sp_max_tokens :: "int option"
  min_tokens :: int
  ignore_eos :: bool
  stop_token_ids :: "int list"
  structured_outputs :: bool
  sp_skip_reading_prefix_cache :: "bool option"

record PoolingParams =
  pp_skip_reading_prefix_cache :: "bool option"

datatype EngineCoreEventType = QUEUED | SCHEDULED | EVENT_PREEMPTED

record StreamingUpdate =
  su_mm_features :: "MultiModalFeatureSpec list option"
  su_prompt_token_ids :: "int list option"
  su_max_tokens :: int
  su_arrival_time :: rat
  su_sampling_params :: "SamplingParams option"

record Request =
  request_id :: string
  py_id :: int
  client_index :: int
  priority :: int
  sampling_params :: "SamplingParams option"
  pooling_params :: "PoolingParams option"
  eos_token_id :: "int option"
  lora_request :: "LoRARequest option"
  use_structured_output :: bool
  arrival_time :: rat
  status :: RequestStatus
  events :: "(EngineCoreEventType \<times> rat) list"
  stop_reason :: "int option"
  max_tokens :: int
  prompt_token_ids :: "int list option"
  prompt_embeds :: "bytes list option"
  num_prompt_tokens :: int
  output_token_ids :: "int list"
  all_token_ids :: "int list"
  num_output_placeholders :: int
  discard_latest_async_tokens :: bool
  spec_token_ids :: "int list"
  num_computed_tokens :: int
  cache_salt :: "string option"
  mm_features :: "MultiModalFeatureSpec list"
  num_cached_tokens :: int
  is_prefill_chunk :: bool
  num_preemptions :: int
  num_external_computed_tokens :: int
  block_hashes :: "bytes list"
  skip_reading_prefix_cache :: bool
  resumable :: bool
  streaming_queue :: "StreamingUpdate option list option"

type_synonym block_hasher = "Request \<Rightarrow> bytes list result"

definition num_tokens :: "Request \<Rightarrow> int" where
  "num_tokens r = int (length (all_token_ids r))"

definition num_tokens_with_spec :: "Request \<Rightarrow> int" where
  "num_tokens_with_spec r = int (length (all_token_ids r)) + int (length (spec_token_ids r))"

definition num_output_tokens :: "Request \<Rightarrow> int" where
  "num_output_tokens r = int (length (output_token_ids r))"

definition num_encoder_inputs :: "Request \<Rightarrow> int" where
  "num_encoder_inputs r = int (length (mm_features r))"

definition has_encoder_inputs :: "Request \<Rightarrow> bool" where
  "has_encoder_inputs r \<longleftrightarrow> num_encoder_inputs r > 0"

definition get_skip_reading_prefix_cache ::
    "SamplingParams option \<Rightarrow> PoolingParams option \<Rightarrow> bool" where
  "get_skip_reading_prefix_cache sp pp =
     (case Option.bind sp sp_skip_reading_prefix_cache of
        Some b \<Rightarrow> b
      | None \<Rightarrow> (case Option.bind pp pp_skip_reading_prefix_cache of Some b \<Rightarrow> b | None \<Rightarrow> False))"

definition get_num_encoder_embeds :: "Request \<Rightarrow> nat \<Rightarrow> int result" where
  "get_num_encoder_embeds r i = assertE (i < length (mm_features r))
     (get_num_embeds (mm_position (mm_features r ! i)))"

definition length_from_prompt_token_ids_or_embeds ::
    "int list option \<Rightarrow> bytes list option \<Rightarrow> int result" where
  "length_from_prompt_token_ids_or_embeds toks embs = (case toks of
      None \<Rightarrow> (case embs of None \<Rightarrow> Inl ValueError | Some e \<Rightarrow> Inr (int (length e)))
    | Some t \<Rightarrow> (case embs of
        Some e \<Rightarrow> if length e \<noteq> length t then Inl ValueError else Inr (int (length t))
      | None \<Rightarrow> Inr (int (length t))))"

text \<open>The constructor. The time stamp \<open>now\<close> is what \<^verbatim>\<open>time.time()\<close> returns.\<close>

definition new_request ::
    "string \<Rightarrow> int \<Rightarrow> int list option \<Rightarrow> SamplingParams option \<Rightarrow> PoolingParams option \<Rightarrow> int option
     \<Rightarrow> int \<Rightarrow> rat option \<Rightarrow> rat \<Rightarrow> bytes list option \<Rightarrow> MultiModalFeatureSpec list option
     \<Rightarrow> LoRARequest option \<Rightarrow> string option \<Rightarrow> int \<Rightarrow> block_hasher option \<Rightarrow> bool \<Rightarrow> Request result" where
  "new_request rid pid toks sp pp eos client arrival now embs mms lora salt prio hasher resum =
     (let so = (case sp of None \<Rightarrow> False | Some p \<Rightarrow> structured_outputs p) in
      bindE (case pp of
          Some _ \<Rightarrow> Inr (1, WAITING)
        | None \<Rightarrow> (case sp of
            Some p \<Rightarrow> (case sp_max_tokens p of
                None \<Rightarrow> Inl AssertionError
              | Some m \<Rightarrow> Inr (m, if so then WAITING_FOR_FSM else WAITING))
          | None \<Rightarrow> Inl ValueError)) (\<lambda>(mt, st).
      bindE (length_from_prompt_token_ids_or_embeds toks embs) (\<lambda>np.
      let r = \<lparr>request_id = rid, py_id = pid, client_index = client, priority = prio,
          sampling_params = sp, pooling_params = pp, eos_token_id = eos, lora_request = lora,
          use_structured_output = so,
          arrival_time = (case arrival of Some t \<Rightarrow> t | None \<Rightarrow> now),
          status = st, events = [], stop_reason = None, max_tokens = mt,
          prompt_token_ids = toks, prompt_embeds = embs, num_prompt_tokens = np,
          output_token_ids = [],
          all_token_ids = (case toks of Some t \<Rightarrow> t | None \<Rightarrow> replicate (nat np) 0),
          num_output_placeholders = 0, discard_latest_async_tokens = False,
          spec_token_ids = [], num_computed_tokens = 0, cache_salt = salt,
          mm_features = (case mms of Some m \<Rightarrow> m | None \<Rightarrow> []),
          num_cached_tokens = -1, is_prefill_chunk = False, num_preemptions = 0,
          num_external_computed_tokens = 0, block_hashes = [],
          skip_reading_prefix_cache = get_skip_reading_prefix_cache sp pp,
          resumable = resum, streaming_queue = None\<rparr>
      in case hasher of
           None \<Rightarrow> Inr r
         | Some f \<Rightarrow> bindE (f r) (\<lambda>hs. Inr (r\<lparr>block_hashes := hs\<rparr>)))))"

definition append_output_token_ids :: "block_hasher option \<Rightarrow> int list \<Rightarrow> Request \<Rightarrow> Request result" where
  "append_output_token_ids hasher toks r =
     (let r = r\<lparr>output_token_ids := output_token_ids r @ toks,
               all_token_ids := all_token_ids r @ toks\<rparr>
      in case hasher of
           None \<Rightarrow> Inr r
         | Some f \<Rightarrow> bindE (f r) (\<lambda>hs. Inr (r\<lparr>block_hashes := block_hashes r @ hs\<rparr>)))"

definition record_event :: "EngineCoreEventType \<Rightarrow> rat \<Rightarrow> Request \<Rightarrow> Request" where
  "record_event e t r = r\<lparr>events := events r @ [(e, t)]\<rparr>"

definition take_request_events ::
    "Request \<Rightarrow> Request \<times> (EngineCoreEventType \<times> rat) list option" where
  "take_request_events r =
     (if events r = [] then (r, None) else (r\<lparr>events := []\<rparr>, Some (events r)))"

definition streaming_update_from_request :: "Request \<Rightarrow> StreamingUpdate option" where
  "streaming_update_from_request r =
     (if \<not> resumable r then None
      else Some \<lparr>su_mm_features = Some (mm_features r), su_prompt_token_ids = prompt_token_ids r,
        su_max_tokens = max_tokens r, su_arrival_time = arrival_time r,
        su_sampling_params = sampling_params r\<rparr>)"

text \<open>\<^verbatim>\<open>Request.__lt__\<close>: priority, then arrival time, then id string, then object identity.\<close>

definition request_lt :: "Request \<Rightarrow> Request \<Rightarrow> bool" where
  "request_lt a b =
     (if priority a \<noteq> priority b then priority a < priority b
      else if arrival_time a \<noteq> arrival_time b then arrival_time a < arrival_time b
      else if request_id a \<noteq> request_id b then request_id a < request_id b
      else py_id a < py_id b)"

subsection \<open>Scheduler utilities\<close>

text \<open>
  \<^verbatim>\<open>remove_all\<close>: the set of items is given by the list of its elements, without repetition.
\<close>

definition remove_all_items :: "'a list \<Rightarrow> 'a list \<Rightarrow> 'a list" where
  "remove_all_items lst items =
     (if items = [] then lst
      else if length items = 1 then remove1 (hd items) lst
      else filter (\<lambda>x. x \<notin> set items) lst)"

definition check_stop :: "Request \<Rightarrow> int \<Rightarrow> (Request \<times> bool) result" where
  "check_stop r max_model_len =
     assertE (pooling_params r = None)
       (case sampling_params r of
          None \<Rightarrow> Inl AssertionError
        | Some sp \<Rightarrow>
           (if num_output_tokens r < min_tokens sp then Inr (r, False)
            else bindE (index_py (output_token_ids r) (-1)) (\<lambda>last_token_id.
              if \<not> ignore_eos sp \<and> Some last_token_id = eos_token_id r
              then Inr (r\<lparr>status := FINISHED_STOPPED\<rparr>, True)
              else if last_token_id \<in> set (stop_token_ids sp)
              then Inr (r\<lparr>status := FINISHED_STOPPED, stop_reason := Some last_token_id\<rparr>, True)
              else if num_tokens r \<ge> max_model_len \<or> num_output_tokens r \<ge> max_tokens r
              then Inr (r\<lparr>status := FINISHED_LENGTH_CAPPED\<rparr>, True)
              else Inr (r, False))))"

subsection \<open>Invariant and properties\<close>

text \<open>
  The token lists agree: all tokens are the tokens of the prompt followed by the output tokens.
  A request whose prompt is given as embeddings has no prompt token ids; zeros stand for them.
\<close>

definition prompt_tokens :: "Request \<Rightarrow> int list" where
  "prompt_tokens r = (case prompt_token_ids r of Some ts \<Rightarrow> ts
     | None \<Rightarrow> replicate (case prompt_embeds r of Some e \<Rightarrow> length e | None \<Rightarrow> 0) 0)"

definition tokens_wf :: "Request \<Rightarrow> bool" where
  "tokens_wf r \<longleftrightarrow> all_token_ids r = prompt_tokens r @ output_token_ids r
     \<and> num_prompt_tokens r = int (length (prompt_tokens r))
     \<and> num_tokens r = num_prompt_tokens r + num_output_tokens r"

lemma index_last: "index_py xs (-1) = (if xs = [] then Inl IndexError else Inr (last xs))"
  by (cases xs rule: rev_cases) (auto simp: index_py_def Let_def nth_append)

lemma request_lt_irrefl: "\<not> request_lt a a"
  by (simp add: request_lt_def)

lemma request_lt_trans: "request_lt a b \<Longrightarrow> request_lt b c \<Longrightarrow> request_lt a c"
  unfolding request_lt_def by (auto split: if_splits)

lemma request_lt_total: "py_id a \<noteq> py_id b \<Longrightarrow> request_lt a b \<or> request_lt b a"
  unfolding request_lt_def by (auto split: if_splits)

lemma prompt_length:
  "length_from_prompt_token_ids_or_embeds toks embs = Inr np \<Longrightarrow>
   np = int (length (case toks of Some t \<Rightarrow> t | None \<Rightarrow> replicate (nat np) 0))"
  by (cases toks; cases embs)
    (auto simp: length_from_prompt_token_ids_or_embeds_def split: if_splits)

lemma prompt_length_embeds:
  "length_from_prompt_token_ids_or_embeds None embs = Inr np \<Longrightarrow>
   np = int (case embs of Some e \<Rightarrow> length e | None \<Rightarrow> 0)"
  by (auto simp: length_from_prompt_token_ids_or_embeds_def split: option.splits)

lemma new_request_tokens_wf:
  assumes "new_request rid pid toks sp pp eos client arrival now embs mms lora salt prio hasher resum = Inr r"
  shows "tokens_wf r \<and> prompt_token_ids r = toks \<and> prompt_embeds r = embs \<and> output_token_ids r = []"
proof -
  from assms obtain np where np: "length_from_prompt_token_ids_or_embeds toks embs = Inr np"
    and r: "num_prompt_tokens r = np" "output_token_ids r = []" "prompt_token_ids r = toks" "prompt_embeds r = embs"
      "all_token_ids r = (case toks of Some t \<Rightarrow> t | None \<Rightarrow> replicate (nat np) 0)"
    unfolding new_request_def Let_def
    by (elim bindE_InrE) (auto split: prod.splits option.splits elim!: bindE_InrE)
  from prompt_length [OF np] np r show ?thesis
    by (auto simp: tokens_wf_def prompt_tokens_def num_tokens_def num_output_tokens_def
        dest: prompt_length_embeds split: option.splits)
qed

lemma append_output_token_ids_fields:
  assumes "append_output_token_ids hasher ts r = Inr r'"
  shows "num_prompt_tokens r' = num_prompt_tokens r"
    and "output_token_ids r' = output_token_ids r @ ts"
    and "all_token_ids r' = all_token_ids r @ ts"
    and "prompt_tokens r' = prompt_tokens r"
  using assms unfolding append_output_token_ids_def Let_def prompt_tokens_def
  by (auto split: option.splits elim!: bindE_InrE)

text \<open>A concrete generative request, for witnesses: its prompt, at most four output tokens.\<close>

definition demo_sampling :: SamplingParams where
  "demo_sampling = \<lparr>sp_max_tokens = Some 4, min_tokens = 1, ignore_eos = False, stop_token_ids = [7],
     structured_outputs = False, sp_skip_reading_prefix_cache = None\<rparr>"

definition demo_new :: "string \<Rightarrow> int list \<Rightarrow> MultiModalFeatureSpec list \<Rightarrow> LoRARequest option
    \<Rightarrow> string option \<Rightarrow> block_hasher option \<Rightarrow> Request result" where
  "demo_new rid toks mms lora salt hasher =
     new_request rid 1 (Some toks) (Some demo_sampling) None (Some 9) 0 (Some 0) 0 None (Some mms)
       lora salt 0 hasher False"

definition demo_request :: "string \<Rightarrow> int list \<Rightarrow> MultiModalFeatureSpec list \<Rightarrow> LoRARequest option
    \<Rightarrow> string option \<Rightarrow> Request" where
  "demo_request rid toks mms lora salt =
     \<lparr>request_id = rid, py_id = 1, client_index = 0, priority = 0,
      sampling_params = Some demo_sampling, pooling_params = None, eos_token_id = Some 9,
      lora_request = lora, use_structured_output = False, arrival_time = 0,
      status = WAITING, events = [], stop_reason = None, max_tokens = 4,
      prompt_token_ids = Some toks, prompt_embeds = None, num_prompt_tokens = int (length toks),
      output_token_ids = [], all_token_ids = toks, num_output_placeholders = 0,
      discard_latest_async_tokens = False, spec_token_ids = [], num_computed_tokens = 0,
      cache_salt = salt, mm_features = mms, num_cached_tokens = -1, is_prefill_chunk = False,
      num_preemptions = 0, num_external_computed_tokens = 0, block_hashes = [],
      skip_reading_prefix_cache = False, resumable = False, streaming_queue = None\<rparr>"

lemma demo_new_eq: "demo_new rid toks mms lora salt None = Inr (demo_request rid toks mms lora salt)"
  by (simp add: demo_new_def new_request_def demo_request_def demo_sampling_def
      length_from_prompt_token_ids_or_embeds_def get_skip_reading_prefix_cache_def)

text \<open>
  C21: A new request keeps its prompt and has no output, and the token lists of every request
  that the constructor makes and that \<^verbatim>\<open>append_output_token_ids\<close> grows are consistent:
  \<^verbatim>\<open>_all_token_ids\<close> is the list \<^verbatim>\<open>prompt_token_ids\<close> (zeros, one per row, for a prompt given as
  embeddings) followed by \<^verbatim>\<open>_output_token_ids\<close>, and \<open>num_tokens = num_prompt_tokens +
  num_output_tokens\<close>. Growing appends the given tokens to both lists and leaves the prompt alone,
  whatever the hasher does.
\<close>

theorem request_tokens_wf:
  "(new_request rid pid toks sp pp eos client arrival now embs mms lora salt prio hasher resum = Inr r
      \<longrightarrow> tokens_wf r \<and> prompt_token_ids r = toks \<and> prompt_embeds r = embs \<and> output_token_ids r = [])
   \<and> (tokens_wf r \<and> append_output_token_ids hasher ts r = Inr r' \<longrightarrow>
        tokens_wf r' \<and> prompt_tokens r' = prompt_tokens r
        \<and> output_token_ids r' = output_token_ids r @ ts \<and> all_token_ids r' = all_token_ids r @ ts)"
proof (rule conjI; rule impI; (elim conjE)?)
  assume wf: "tokens_wf r" and app: "append_output_token_ids hasher ts r = Inr r'"
  note F = append_output_token_ids_fields [OF app]
  have "tokens_wf r'"
    using wf unfolding tokens_wf_def num_tokens_def num_output_tokens_def F by auto
  with F show "tokens_wf r' \<and> prompt_tokens r' = prompt_tokens r
    \<and> output_token_ids r' = output_token_ids r @ ts \<and> all_token_ids r' = all_token_ids r @ ts" by simp
qed (rule new_request_tokens_wf)

theorem request_tokens_wf_witness:
  "demo_new ''a'' [1, 2] [] None None None = Inr (demo_request ''a'' [1, 2] [] None None)
   \<and> tokens_wf (demo_request ''a'' [1, 2] [] None None)
   \<and> (\<exists>r'. append_output_token_ids None [5] (demo_request ''a'' [1, 2] [] None None) = Inr r'
        \<and> tokens_wf r' \<and> prompt_tokens r' = [1, 2] \<and> all_token_ids r' = [1, 2, 5])"
proof -
  let ?r = "demo_request ''a'' [1, 2] [] None None"
  have wf: "tokens_wf ?r"
    using request_tokens_wf [THEN conjunct1, rule_format, OF demo_new_eq [unfolded demo_new_def]] by blast
  have app: "append_output_token_ids None [5] ?r
     = Inr (?r\<lparr>output_token_ids := [5], all_token_ids := [1, 2, 5]\<rparr>)"
    by (simp add: append_output_token_ids_def demo_request_def)
  have "tokens_wf (?r\<lparr>output_token_ids := [5], all_token_ids := [1, 2, 5]\<rparr>)"
    using request_tokens_wf wf app by blast
  moreover have "prompt_tokens (?r\<lparr>output_token_ids := [5], all_token_ids := [1, 2, 5]\<rparr>) = [1, 2]"
    by (simp add: prompt_tokens_def demo_request_def)
  ultimately show ?thesis using wf app by (simp add: demo_new_eq)
qed

text \<open>
  C22: The stop check of a generative request. When it stops, the request is finished; it
  never stops before \<^verbatim>\<open>min_tokens\<close>; from then on it stops exactly when the last token is the
  end-of-sequence token (unless ignored), a stop token, or a length limit is reached; and a
  request that is not stopped is unchanged.
\<close>

theorem check_stop_correct:
  assumes "pooling_params r = None" and "sampling_params r = Some sp" and "output_token_ids r \<noteq> []"
  shows "\<exists>r' b. check_stop r max_model_len = Inr (r', b)
     \<and> (b \<longleftrightarrow> min_tokens sp \<le> num_output_tokens r
           \<and> (\<not> ignore_eos sp \<and> eos_token_id r = Some (last (output_token_ids r))
             \<or> last (output_token_ids r) \<in> set (stop_token_ids sp)
             \<or> num_tokens r \<ge> max_model_len \<or> num_output_tokens r \<ge> max_tokens r))
     \<and> (b \<longrightarrow> status_is_finished (status r') \<and> finished_reason_map (status r') \<noteq> None)
     \<and> (\<not> b \<longrightarrow> r' = r)"
  using assms by (auto simp: check_stop_def index_last status_is_finished_def)

theorem check_stop_correct_witness:
  "check_stop ((demo_request ''a'' [1, 2] [] None None)\<lparr>output_token_ids := [7], all_token_ids := [1, 2, 7]\<rparr>) 100
   = Inr ((demo_request ''a'' [1, 2] [] None None)\<lparr>output_token_ids := [7], all_token_ids := [1, 2, 7],
       status := FINISHED_STOPPED, stop_reason := Some 7\<rparr>, True)
   \<and> status_is_finished FINISHED_STOPPED"
proof -
  let ?r = "(demo_request ''a'' [1, 2] [] None None)\<lparr>output_token_ids := [7], all_token_ids := [1, 2, 7]\<rparr>"
  have hyps: "pooling_params ?r = None" "sampling_params ?r = Some demo_sampling" "output_token_ids ?r \<noteq> []"
    by (simp_all add: demo_request_def)
  have run: "check_stop ?r 100 = Inr (?r\<lparr>status := FINISHED_STOPPED, stop_reason := Some 7\<rparr>, True)"
    by (simp add: check_stop_def demo_request_def demo_sampling_def num_output_tokens_def index_py_def)
  have "status_is_finished (status (?r\<lparr>status := FINISHED_STOPPED, stop_reason := Some 7\<rparr>))"
    using check_stop_correct [OF hyps, of 100] unfolding run by auto
  with run show ?thesis by simp
qed

end
