(* ===== verification/Block_Hashing.thy ===== *)
theory Block_Hashing
  imports Requests "HOL-Library.Countable"
begin

unbundle bit_operations_syntax

section \<open>Block hashes\<close>

text \<open>
  The hashing half of \<^verbatim>\<open>vllm/v1/core/kv_cache_utils.py\<close>: packing a block hash with its group id,
  the extra keys a block's hash depends on, the chained hash of the full blocks of a request,
  and \<^verbatim>\<open>BlockHashListWithBlockSize\<close>. The hash function itself (sha256 or xxhash over a pickled
  or CBOR-encoded tuple, from outside the repository) is a parameter \<open>H\<close>, and so is the random or
  seeded \<^verbatim>\<open>NONE_HASH\<close>, written \<open>N\<close>.
\<close>

subsection \<open>Packing a hash and a group id\<close>

text \<open>\<^verbatim>\<open>group_id.to_bytes(4, "big", signed=False)\<close> and \<^verbatim>\<open>int.from_bytes(b, "big")\<close>.\<close>

definition to_bytes4 :: "int \<Rightarrow> bytes result" where
  "to_bytes4 g = (if 0 \<le> g \<and> g < 2 ^ 32
     then Inr [word_of_int (g div 2 ^ 24), word_of_int (g div 2 ^ 16), word_of_int (g div 2 ^ 8), word_of_int g]
     else Inl OverflowError)"

definition from_bytes :: "bytes \<Rightarrow> int" where
  "from_bytes bs = foldl (\<lambda>a b. a * 256 + uint b) 0 bs"

definition make_block_hash_with_group_id :: "bytes \<Rightarrow> int \<Rightarrow> bytes result" where
  "make_block_hash_with_group_id h g = bindE (to_bytes4 g) (\<lambda>b. Inr (h @ b))"

definition get_block_hash :: "bytes \<Rightarrow> bytes" where
  "get_block_hash key = slice key 0 (-4)"

definition get_group_id :: "bytes \<Rightarrow> int" where
  "get_group_id key = from_bytes (slice_from key (-4))"

datatype ExternalBlockHash = HashBytes bytes | HashInt int

text \<open>The first argument is the environment flag \<^verbatim>\<open>VLLM_KV_EVENTS_USE_INT_BLOCK_HASHES\<close>.\<close>

definition maybe_convert_block_hash :: "bool \<Rightarrow> bytes \<Rightarrow> ExternalBlockHash" where
  "maybe_convert_block_hash use_int h =
     (if \<not> use_int then HashBytes h else HashInt (from_bytes h AND (push_bit 64 1 - 1)))"

subsection \<open>Extra keys\<close>

datatype extra_key = KeyStr string | KeyBytes bytes

type_synonym hash_fn = "bytes \<times> int list \<times> extra_key list option \<Rightarrow> bytes"

definition need_extra_keys :: "Request \<Rightarrow> bool" where
  "need_extra_keys r \<longleftrightarrow> mm_features r \<noteq> [] \<or> lora_request r \<noteq> None \<or> cache_salt r \<noteq> None"

text \<open>The \<open>while\<close> loop of \<^verbatim>\<open>_gen_mm_extra_hash_keys\<close> from index \<open>i\<close>: the keys and the next index.\<close>

function mm_key_loop :: "MultiModalFeatureSpec list \<Rightarrow> int \<Rightarrow> int \<Rightarrow> nat \<Rightarrow> extra_key list \<times> nat" where
  "mm_key_loop feats start_token_idx end_token_idx i =
     (if i < length feats then
        (let off = offset (mm_position (feats ! i)); len = length_of (mm_position (feats ! i)) in
         if end_token_idx > off then
           (if start_token_idx > off + len then mm_key_loop feats start_token_idx end_token_idx (Suc i)
            else
              (let (ks, j) = (if end_token_idx \<ge> off + len
                  then mm_key_loop feats start_token_idx end_token_idx (Suc i) else ([], i))
               in (KeyStr (mm_identifier (feats ! i)) # ks, j)))
         else ([], i))
      else ([], i))"
  by pat_completeness auto
termination
  by (relation "measure (\<lambda>(feats, a, b, i). length feats - i)") auto

declare mm_key_loop.simps [simp del]

definition gen_mm_extra_hash_keys :: "Request \<Rightarrow> int \<Rightarrow> int \<Rightarrow> int \<Rightarrow> (extra_key list \<times> int) result" where
  "gen_mm_extra_hash_keys r start_token_idx end_token_idx start_mm_idx =
     (let feats = mm_features r in
      if feats = [] then Inr ([], start_mm_idx)
      else let last_pos = mm_position (last feats) in
        if offset last_pos + length_of last_pos < start_token_idx then Inr ([], start_mm_idx)
        else assertE (start_mm_idx < 0 \<longrightarrow> - start_mm_idx \<le> int (length feats))
          (let i = (if start_mm_idx < 0 then int (length feats) + start_mm_idx else start_mm_idx);
               (ks, j) = mm_key_loop feats start_token_idx end_token_idx (nat i)
           in Inr (ks, int j)))"

definition gen_lora_extra_hash_keys :: "Request \<Rightarrow> extra_key list" where
  "gen_lora_extra_hash_keys r = (case lora_request r of None \<Rightarrow> [] | Some l \<Rightarrow> [KeyStr (lora_name l)])"

text \<open>The bytes of a slice of the embedding tensor are the concatenated bytes of its rows.\<close>

definition gen_prompt_embeds_extra_hash_keys :: "Request \<Rightarrow> int \<Rightarrow> int \<Rightarrow> extra_key list" where
  "gen_prompt_embeds_extra_hash_keys r start_token_idx end_token_idx = (case prompt_embeds r of
     None \<Rightarrow> [] | Some rows \<Rightarrow> [KeyBytes (concat (slice rows start_token_idx end_token_idx))])"

definition generate_block_hash_extra_keys ::
    "Request \<Rightarrow> int \<Rightarrow> int \<Rightarrow> int \<Rightarrow> (extra_key list option \<times> int) result" where
  "generate_block_hash_extra_keys r start_token_idx end_token_idx start_mm_idx =
     bindE (gen_mm_extra_hash_keys r start_token_idx end_token_idx start_mm_idx) (\<lambda>(mm_keys, new_idx).
       let salt_keys = (case cache_salt r of
             Some s \<Rightarrow> if start_token_idx = 0 \<and> s \<noteq> [] then [KeyStr s] else []
           | None \<Rightarrow> []);
           keys = gen_lora_extra_hash_keys r @ mm_keys @ salt_keys
             @ gen_prompt_embeds_extra_hash_keys r start_token_idx end_token_idx
       in Inr (if keys = [] then None else Some keys, new_idx))"

subsection \<open>The chained hash\<close>

definition hash_block_tokens ::
    "hash_fn \<Rightarrow> bytes \<Rightarrow> bytes option \<Rightarrow> int list \<Rightarrow> extra_key list option \<Rightarrow> bytes" where
  "hash_block_tokens H N parent toks extra =
     (let p = (case parent of None \<Rightarrow> N | Some b \<Rightarrow> if b = [] then N else b) in H (p, toks, extra))"

text \<open>The \<open>while True\<close> loop of \<^verbatim>\<open>request_block_hasher\<close>; \<open>None\<close> stands for a loop that does not end.\<close>

partial_function (option) hasher_loop ::
    "hash_fn \<Rightarrow> bytes \<Rightarrow> int \<Rightarrow> Request \<Rightarrow> int \<Rightarrow> int \<Rightarrow> bytes option \<Rightarrow> bytes list \<Rightarrow> bytes list result option" where
  "hasher_loop H N bs r start_token_idx mm_idx prev acc =
     (if start_token_idx + bs > num_tokens r then Some (Inr acc)
      else case generate_block_hash_extra_keys r start_token_idx (start_token_idx + bs) mm_idx of
        Inl e \<Rightarrow> Some (Inl e)
      | Inr k \<Rightarrow> hasher_loop H N bs r (start_token_idx + bs) (snd k)
          (Some (hash_block_tokens H N prev
             (slice (all_token_ids r) start_token_idx (start_token_idx + bs)) (fst k)))
          (acc @ [hash_block_tokens H N prev
             (slice (all_token_ids r) start_token_idx (start_token_idx + bs)) (fst k)]))"

definition request_block_hasher :: "hash_fn \<Rightarrow> bytes \<Rightarrow> int \<Rightarrow> Request \<Rightarrow> bytes list result option" where
  "request_block_hasher H N bs r =
     (let start_token_idx = int (length (block_hashes r)) * bs in
      if start_token_idx + bs > num_tokens r then Some (Inr [])
      else hasher_loop H N bs r start_token_idx
        (if start_token_idx > 0 then -1 else 0)
        (if block_hashes r = [] then None else Some (last (block_hashes r))) [])"

subsection \<open>Hashes at a coarser granularity\<close>

record BlockHashListWithBlockSize =
  bh_block_hashes :: "bytes list"
  scale_factor :: int

definition new_block_hash_list :: "bytes list \<Rightarrow> int \<Rightarrow> int \<Rightarrow> BlockHashListWithBlockSize result" where
  "new_block_hash_list hs hash_block_size target_block_size =
     (if hash_block_size = 0 then Inl ZeroDivisionError
      else assertE (target_block_size mod hash_block_size = 0)
        (Inr \<lparr>bh_block_hashes = hs, scale_factor = target_block_size div hash_block_size\<rparr>))"

definition bh_len :: "BlockHashListWithBlockSize \<Rightarrow> int" where
  "bh_len l = int (length (bh_block_hashes l)) div scale_factor l"

text \<open>\<^verbatim>\<open>_get_value_at\<close>: the first hash, then the loop that concatenates the rest.\<close>

definition get_value_at :: "BlockHashListWithBlockSize \<Rightarrow> int \<Rightarrow> bytes result" where
  "get_value_at l idx =
     (let base = idx * scale_factor l; stop = base + scale_factor l in
      bindE (index_py (bh_block_hashes l) base)
        (foldE (\<lambda>i merged. bindE (index_py (bh_block_hashes l) i) (\<lambda>h. Inr (merged @ h)))
           [base + 1..stop - 1]))"

text \<open>\<open>l[start:]\<close> for a non-negative \<open>start\<close>, through \<^verbatim>\<open>slice.indices(len(self))\<close>, and iteration.\<close>

definition get_values_from :: "BlockHashListWithBlockSize \<Rightarrow> int \<Rightarrow> bytes list result" where
  "get_values_from l start = mapE (get_value_at l) [min start (bh_len l)..bh_len l - 1]"

definition iter_values :: "BlockHashListWithBlockSize \<Rightarrow> bytes list result" where
  "iter_values l = mapE (get_value_at l) [0..bh_len l - 1]"

subsection \<open>Packing is invertible\<close>

lemma to_bytes4_length: "to_bytes4 g = Inr b \<Longrightarrow> length b = 4"
  by (auto simp: to_bytes4_def split: if_splits)

lemma from_to_bytes4: "to_bytes4 g = Inr b \<Longrightarrow> from_bytes b = g"
proof -
  assume "to_bytes4 g = Inr b"
  then have g: "0 \<le> g" "g < 2 ^ 32"
    and b: "b = [word_of_int (g div 2 ^ 24), word_of_int (g div 2 ^ 16), word_of_int (g div 2 ^ 8), word_of_int g]"
    by (auto simp: to_bytes4_def split: if_splits)
  have "from_bytes b = (((g div 2 ^ 24) mod 256 * 256 + (g div 2 ^ 16) mod 256) * 256
      + (g div 2 ^ 8) mod 256) * 256 + g mod 256"
    unfolding b by (simp add: from_bytes_def uint_word_of_int)
  also have "\<dots> = g"
  proof -
    define a where "a = g div 256"
    define b where "b = a div 256"
    define c where "c = b div 256"
    have d: "g div 2 ^ 8 = a" "g div 2 ^ 16 = b" "g div 2 ^ 24 = c"
      by (simp_all add: a_def b_def c_def zdiv_zmult2_eq [symmetric])
    have "0 \<le> c" "c < 256" using g by (auto simp: a_def b_def c_def)
    then have "c mod 256 = c" by simp
    moreover have "c * 256 + b mod 256 = b" "b * 256 + a mod 256 = a" "a * 256 + g mod 256 = g"
      by (simp_all add: a_def b_def c_def)
    ultimately show ?thesis unfolding d by simp
  qed
  finally show ?thesis .
qed

text \<open>
  The packed key is reversible: for a group id that fits in four bytes the key is built, and
  both the block hash (of any length) and the group id are recovered from it; any other group
  id raises \<^verbatim>\<open>OverflowError\<close>. So two keys are equal only for the same hash and the same group.
\<close>

theorem block_hash_group_id_roundtrip:
  "(0 \<le> g \<and> g < 2 ^ 32 \<longrightarrow>
      (\<exists>k. make_block_hash_with_group_id h g = Inr k \<and> get_block_hash k = h \<and> get_group_id k = g))
   \<and> (\<not> (0 \<le> g \<and> g < 2 ^ 32) \<longrightarrow> make_block_hash_with_group_id h g = Inl OverflowError)"
proof (intro conjI impI)
  assume g: "0 \<le> g \<and> g < 2 ^ 32"
  then obtain b where b: "to_bytes4 g = Inr b" by (auto simp: to_bytes4_def)
  note len = to_bytes4_length [OF b]
  have "get_block_hash (h @ b) = h" "get_group_id (h @ b) = g"
    using len from_to_bytes4 [OF b]
    by (simp_all add: get_block_hash_def get_group_id_def slice_def slice_from_def slice_bound_def)
  with b show "\<exists>k. make_block_hash_with_group_id h g = Inr k \<and> get_block_hash k = h \<and> get_group_id k = g"
    by (simp add: make_block_hash_with_group_id_def)
next
  assume "\<not> (0 \<le> g \<and> g < 2 ^ 32)"
  then show "make_block_hash_with_group_id h g = Inl OverflowError"
    by (auto simp: make_block_hash_with_group_id_def to_bytes4_def)
qed

theorem block_hash_group_id_roundtrip_witness:
  "make_block_hash_with_group_id [1, 2] 258 = Inr [1, 2, 0, 0, 1, 2]
   \<and> get_block_hash [1, 2, 0, 0, 1, 2] = [1, 2] \<and> get_group_id [1, 2, 0, 0, 1, 2] = 258
   \<and> make_block_hash_with_group_id [1, 2] (-1) = Inl OverflowError"
proof -
  have make: "make_block_hash_with_group_id [1, 2] 258 = Inr [1, 2, 0, 0, 1, 2]"
    by (simp add: make_block_hash_with_group_id_def to_bytes4_def)
  with block_hash_group_id_roundtrip [of 258 "[1, 2]"] block_hash_group_id_roundtrip [of "-1" "[1, 2]"]
  show ?thesis by simp
qed

lemma make_key_inject:
  assumes "make_block_hash_with_group_id h g = Inr k" and "make_block_hash_with_group_id h' g' = Inr k"
  shows "h = h' \<and> g = g'"
  using assms from_to_bytes4 to_bytes4_length
  by (auto simp: make_block_hash_with_group_id_def bindE_Inr_iff) metis+

subsection \<open>The loop as a chain\<close>

text \<open>
  The keys of \<open>n\<close> consecutive blocks from block \<open>k\<close> on, and the chained hashes over given keys:
  what the loop computes, without its mutable variables.
\<close>

fun key_chain :: "int \<Rightarrow> Request \<Rightarrow> int \<Rightarrow> nat \<Rightarrow> int \<Rightarrow> extra_key list option list result" where
  "key_chain bs r k 0 idx = Inr []"
| "key_chain bs r k (Suc n) idx =
     bindE (generate_block_hash_extra_keys r (k * bs) (k * bs + bs) idx) (\<lambda>(ks, idx').
       bindE (key_chain bs r (k + 1) n idx') (\<lambda>rest. Inr (ks # rest)))"

definition block_tokens :: "int \<Rightarrow> Request \<Rightarrow> int \<Rightarrow> int list" where
  "block_tokens bs r k = slice (all_token_ids r) (k * bs) (k * bs + bs)"

fun hash_chain :: "hash_fn \<Rightarrow> bytes \<Rightarrow> int \<Rightarrow> Request \<Rightarrow> int \<Rightarrow> bytes option \<Rightarrow> extra_key list option list \<Rightarrow> bytes list" where
  "hash_chain H N bs r k prev [] = []"
| "hash_chain H N bs r k prev (e # es) =
     (let h = hash_block_tokens H N prev (block_tokens bs r k) e
      in h # hash_chain H N bs r (k + 1) (Some h) es)"

lemma length_key_chain: "key_chain bs r k n idx = Inr es \<Longrightarrow> length es = n"
  by (induction n arbitrary: k idx es) (auto elim!: bindE_InrE)

lemma length_hash_chain [simp]: "length (hash_chain H N bs r k prev es) = length es"
  by (induction es arbitrary: k prev) (auto simp: Let_def)

lemma hasher_loop_chain:
  assumes "0 < bs" and "0 \<le> k" and "num_tokens r div bs = k + int n"
  shows "hasher_loop H N bs r (k * bs) idx prev acc =
     Some (bindE (key_chain bs r k n idx) (\<lambda>es. Inr (acc @ hash_chain H N bs r k prev es)))"
  using assms
proof (induction n arbitrary: k idx prev acc)
  case 0
  then have "\<not> k + 1 \<le> num_tokens r div bs" by simp
  with "0.prems"(1) have "\<not> (k + 1) * bs \<le> num_tokens r" using int_le_div_iff by blast
  then have "k * bs + bs > num_tokens r" by (simp add: algebra_simps)
  then show ?case by (simp add: hasher_loop.simps)
next
  case (Suc n)
  then have "k + 1 \<le> num_tokens r div bs" by simp
  with Suc.prems(1) have "(k + 1) * bs \<le> num_tokens r" by (simp only: int_le_div_iff)
  then have go: "\<not> num_tokens r < k * bs + bs" by (simp add: algebra_simps)
  have nxt: "k * bs + bs = (k + 1) * bs" by (simp add: algebra_simps)
  note IH = Suc.IH [of "k + 1", folded nxt]
  show ?case
  proof (cases "generate_block_hash_extra_keys r (k * bs) (k * bs + bs) idx")
    case (Inl e)
    with go show ?thesis by (simp add: hasher_loop.simps [of H N bs r "k * bs"])
  next
    case (Inr kk)
    obtain ks j where kk: "kk = (ks, j)" by force
    from go Inr kk Suc.prems IH show ?thesis
      by (subst hasher_loop.simps)
        (auto simp: block_tokens_def Let_def bindE_def split: sum.splits)
  qed
qed

text \<open>Where the hasher starts for a request: block number, multi-modal index and parent hash.\<close>

lemma request_block_hasher_chain:
  assumes bs: "0 < bs" and le: "int (length (block_hashes r)) \<le> num_tokens r div bs"
  shows "request_block_hasher H N bs r = Some (bindE
     (key_chain bs r (int (length (block_hashes r)))
        (nat (num_tokens r div bs) - length (block_hashes r)) (if block_hashes r = [] then 0 else -1))
     (\<lambda>es. Inr (hash_chain H N bs r (int (length (block_hashes r)))
        (if block_hashes r = [] then None else Some (last (block_hashes r))) es)))"
proof -
  let ?k = "int (length (block_hashes r))" and ?q = "num_tokens r div bs"
  let ?n = "nat ?q - length (block_hashes r)"
  have q: "0 \<le> ?q" using le by linarith
  have n: "?q = ?k + int ?n" using le by simp
  have idx: "(if ?k * bs > 0 then -1 else 0) = (if block_hashes r = [] then 0 else (-1::int))"
    using bs by (auto simp: zero_less_mult_iff)
  have "?n = 0" if "?k * bs + bs > num_tokens r"
  proof -
    have "\<not> (?k + 1) * bs \<le> num_tokens r" using that by (simp add: algebra_simps)
    then have "\<not> ?k + 1 \<le> ?q" using int_le_div_iff [OF bs] by blast
    with le show ?thesis by linarith
  qed
  then show ?thesis
    using hasher_loop_chain [OF bs _ n, of H N _ _ "[]"] idx
    by (auto simp: request_block_hasher_def Let_def)
qed

subsection \<open>Properties of the chained hash\<close>

text \<open>
  The hasher's \<open>while True\<close> loop ends for every positive block size, and when it succeeds
  it returns one hash per full block of tokens that has no hash yet, so that the request then
  has exactly \<open>num_tokens // block_size\<close> hashes.
\<close>

theorem request_block_hasher_total:
  assumes "0 < bs" and "int (length (block_hashes r)) \<le> num_tokens r div bs"
  shows "\<exists>x. request_block_hasher H N bs r = Some x
     \<and> (\<forall>hs. x = Inr hs \<longrightarrow> int (length (block_hashes r @ hs)) = num_tokens r div bs)"
proof -
  have "0 \<le> num_tokens r div bs" using assms by linarith
  with assms show ?thesis
    by (auto simp: request_block_hasher_chain bindE_Inr_iff dest!: length_key_chain)
qed

definition demo_hash :: hash_fn where
  "demo_hash x = (case x of (p, ts, e) \<Rightarrow>
     word_of_int (int (length ts)) # p @ map word_of_int ts)"

theorem request_block_hasher_total_witness:
  "(\<exists>x. request_block_hasher demo_hash [3] 2 (demo_request ''a'' [1, 2, 3, 4, 5] [] None None) = Some x
     \<and> (\<forall>hs. x = Inr hs \<longrightarrow> length hs = 2))"
  using request_block_hasher_total
    [of 2 "demo_request ''a'' [1, 2, 3, 4, 5] [] None None" demo_hash "[3]"]
  by (auto simp: demo_request_def num_tokens_def)





text \<open>
  The inputs of the hash are countable, so an injective hash exists and the hypotheses can hold
  together: this one writes the number of its input in unary.
\<close>

instance extra_key :: countable
  by countable_datatype

definition unary_hash :: hash_fn where
  "unary_hash x = replicate (Suc (to_nat x)) 0"





subsection \<open>Incremental hashing\<close>

text \<open>Without multi-modal inputs the keys of a block do not depend on the multi-modal index.\<close>

definition plain_keys :: "Request \<Rightarrow> int \<Rightarrow> int \<Rightarrow> extra_key list option" where
  "plain_keys r st en = (let keys = gen_lora_extra_hash_keys r
      @ (case cache_salt r of Some s \<Rightarrow> if st = 0 \<and> s \<noteq> [] then [KeyStr s] else [] | None \<Rightarrow> [])
      @ gen_prompt_embeds_extra_hash_keys r st en
    in if keys = [] then None else Some keys)"

lemma generate_keys_plain:
  "mm_features r = [] \<Longrightarrow> generate_block_hash_extra_keys r st en j = Inr (plain_keys r st en, j)"
  by (simp add: generate_block_hash_extra_keys_def gen_mm_extra_hash_keys_def plain_keys_def Let_def)

lemma key_chain_plain:
  "mm_features r = [] \<Longrightarrow> key_chain bs r k n j
     = Inr (map (\<lambda>i. plain_keys r ((k + int i) * bs) ((k + int i) * bs + bs)) [0..<n])"
proof (induction n arbitrary: k)
  case (Suc n)
  have "[0..<Suc n] = 0 # map Suc [0..<n]" by (simp add: map_Suc_upt upt_conv_Cons)
  with Suc show ?case by (simp add: generate_keys_plain algebra_simps o_def)
qed simp

lemma hash_chain_Nil_iff [simp]: "hash_chain H N bs r k prev es = [] \<longleftrightarrow> es = []"
  by (cases es) (simp_all add: Let_def)

lemma hash_chain_append:
  "hash_chain H N bs r k prev (es @ fs) = hash_chain H N bs r k prev es @ hash_chain H N bs r (k + int (length es))
     (if es = [] then prev else Some (last (hash_chain H N bs r k prev es))) fs"
proof (induction es arbitrary: k prev)
  case (Cons e es)
  show ?case by (simp add: Let_def Cons.IH [of "k + 1"] add.assoc)
qed simp

text \<open>Appending tokens changes neither the keys nor the tokens of the blocks already full.\<close>

lemma hash_chain_cong:
  assumes "\<And>i. i < length es \<Longrightarrow> block_tokens bs r (k + int i) = block_tokens bs r' (k + int i)"
  shows "hash_chain H N bs r k prev es = hash_chain H N bs r' k prev es"
  using assms
proof (induction es arbitrary: k prev)
  case (Cons e es)
  have "block_tokens bs r k = block_tokens bs r' k" using Cons.prems [of 0] by simp
  moreover have "hash_chain H N bs r (k + 1) p es = hash_chain H N bs r' (k + 1) p es" for p
    using Cons.prems [of "Suc _"] by (intro Cons.IH) (simp add: algebra_simps)
  ultimately show ?case by (simp add: Let_def)
qed simp

definition full_hashes :: "hash_fn \<Rightarrow> bytes \<Rightarrow> int \<Rightarrow> Request \<Rightarrow> bytes list" where
  "full_hashes H N bs r = hash_chain H N bs r 0 None
     (map (\<lambda>i. plain_keys r (int i * bs) (int i * bs + bs)) [0..<nat (num_tokens r div bs)])"

lemma hasher_plain:
  assumes bs: "0 < bs" and mm: "mm_features r = []"
    and old: "block_hashes r = take m (full_hashes H N bs r)" and m: "m \<le> nat (num_tokens r div bs)"
  shows "request_block_hasher H N bs r = Some (Inr (drop m (full_hashes H N bs r)))"
proof -
  let ?n = "nat (num_tokens r div bs)" and ?key = "\<lambda>i. plain_keys r (int i * bs) (int i * bs + bs)"
  have q: "0 \<le> num_tokens r div bs" using bs by (simp add: num_tokens_def pos_imp_zdiv_nonneg_iff)
  have len: "length (block_hashes r) = m" using m by (simp add: old full_hashes_def)
  have split: "map ?key [0..<?n] = map ?key [0..<m] @ map ?key [m..<?n]"
    using m upt_add_eq_append [of 0 m "?n - m"] by simp
  have shift: "map ?key [m..<?n] = map (\<lambda>i. ?key (m + i)) [0..<?n - m]"
    by (rule nth_equalityI) simp_all
  have hashes: "full_hashes H N bs r = hash_chain H N bs r 0 None (map ?key [0..<m])
     @ hash_chain H N bs r (int m) (if m = 0 then None
         else Some (last (hash_chain H N bs r 0 None (map ?key [0..<m])))) (map ?key [m..<?n])"
    unfolding full_hashes_def split hash_chain_append by simp
  have old': "block_hashes r = hash_chain H N bs r 0 None (map ?key [0..<m])"
    unfolding old hashes by simp
  have "int (length (block_hashes r)) \<le> num_tokens r div bs" using len m q by linarith
  from request_block_hasher_chain [OF bs this, of H N] show ?thesis
    unfolding key_chain_plain [OF mm] hashes len shift
    using old' len by (auto simp: algebra_simps)
qed

lemma block_tokens_append:
  assumes "0 < bs" and "int i < num_tokens r div bs"
    and "all_token_ids r' = all_token_ids r @ ts"
  shows "block_tokens bs r' (int i) = block_tokens bs r (int i)"
proof -
  have "(int i + 1) * bs \<le> num_tokens r"
    using assms(1,2) int_le_div_iff [of bs "int i + 1" "num_tokens r"] by simp
  then have "nat (int i * bs + bs) \<le> length (all_token_ids r)"
    by (simp add: num_tokens_def algebra_simps)
  moreover have "0 \<le> int i * bs" using assms(1) by simp
  ultimately show ?thesis
    using assms(1) by (simp add: block_tokens_def slice_nonneg assms(3))
qed

text \<open>
  C20: Hashing as tokens arrive gives the same hashes as hashing the final sequence at once. For a
  request without multi-modal inputs whose hashes are up to date, appending any output tokens
  with the code's hasher leaves it with the hashes that a fresh request with all these tokens,
  the same adapter, salt and embeddings would get. So a continued conversation hits the blocks
  that were cached while it was being generated.
\<close>

theorem incremental_hashing_agrees:
  assumes "0 < bs" and "mm_features r = []" and "block_hashes r = full_hashes H N bs r"
    and "hasher = (\<lambda>q. case request_block_hasher H N bs q of Some x \<Rightarrow> x | None \<Rightarrow> Inl RuntimeError)"
  shows "\<exists>r'. append_output_token_ids (Some hasher) ts r = Inr r'
     \<and> block_hashes r' = full_hashes H N bs r'
     \<and> request_block_hasher H N bs (r'\<lparr>block_hashes := []\<rparr>) = Some (Inr (block_hashes r'))"
proof -
  let ?q = "r\<lparr>output_token_ids := output_token_ids r @ ts, all_token_ids := all_token_ids r @ ts\<rparr>"
  let ?m = "nat (num_tokens r div bs)" and ?n = "nat (num_tokens ?q div bs)"
  let ?key = "\<lambda>i. plain_keys r (int i * bs) (int i * bs + bs)"
  have same: "plain_keys ?q = plain_keys r" "plain_keys (q\<lparr>block_hashes := hs\<rparr>) = plain_keys q" for q hs
    by (auto simp: plain_keys_def gen_lora_extra_hash_keys_def gen_prompt_embeds_extra_hash_keys_def fun_eq_iff)
  have strip: "hash_chain H N bs (q\<lparr>block_hashes := hs\<rparr>) k p es = hash_chain H N bs q k p es"
    "full_hashes H N bs (q\<lparr>block_hashes := hs\<rparr>) = full_hashes H N bs q" for q hs k p es
    by (auto simp: full_hashes_def same num_tokens_def intro!: hash_chain_cong, auto simp: block_tokens_def)
  have "num_tokens r div bs \<le> num_tokens ?q div bs"
    using assms(1) by (intro zdiv_mono1) (simp_all add: num_tokens_def)
  then have mn: "?m \<le> ?n" by (rule nat_mono)
  have "full_hashes H N bs r = hash_chain H N bs ?q 0 None (map ?key [0..<?m])"
    unfolding full_hashes_def
    by (rule hash_chain_cong) (use assms(1) in \<open>auto intro!: block_tokens_append [symmetric]\<close>)
  moreover have "map ?key [0..<?n] = map ?key [0..<?m] @ map ?key [?m..<?n]"
    using mn upt_add_eq_append [of 0 ?m "?n - ?m"] by simp
  ultimately have old: "full_hashes H N bs r = take ?m (full_hashes H N bs ?q)"
    by (simp add: full_hashes_def [of H N bs ?q] same hash_chain_append)
  have "request_block_hasher H N bs ?q = Some (Inr (drop ?m (full_hashes H N bs ?q)))"
    by (rule hasher_plain [OF assms(1)]) (use assms(2,3) old mn in simp_all)
  then have app: "append_output_token_ids (Some hasher) ts r
      = Inr (?q\<lparr>block_hashes := full_hashes H N bs ?q\<rparr>)"
    by (simp add: append_output_token_ids_def assms(3,4) Let_def old)
  have "request_block_hasher H N bs (?q\<lparr>block_hashes := []\<rparr>)
      = Some (Inr (drop 0 (full_hashes H N bs (?q\<lparr>block_hashes := []\<rparr>))))"
    by (rule hasher_plain [OF assms(1)]) (use assms(2) in simp_all)
  with app show ?thesis by (simp add: strip)
qed

theorem incremental_hashing_agrees_witness:
  "\<exists>r'. append_output_token_ids (Some (\<lambda>q. case request_block_hasher unary_hash [1] 2 q of
        Some x \<Rightarrow> x | None \<Rightarrow> Inl RuntimeError)) [4, 5, 6] (demo_request ''a'' [1] [] None None) = Inr r'
     \<and> request_block_hasher unary_hash [1] 2 (r'\<lparr>block_hashes := []\<rparr>) = Some (Inr (block_hashes r'))"
  using incremental_hashing_agrees [of 2 "demo_request ''a'' [1] [] None None" unary_hash "[1]" _ "[4, 5, 6]"]
  by (auto simp: demo_request_def full_hashes_def num_tokens_def)

subsection \<open>Where the extra keys fall short\<close>

lemma mm_key_loop_last:
  assumes "length pre' = length pre" and "length pre \<le> i"
  shows "mm_key_loop (pre' @ [f]) st en i = mm_key_loop (pre @ [f]) st en i"
proof -
  have past: "mm_key_loop (p @ [f]) st en j = ([], j)" if "length p < j" for p j
    using that by (subst mm_key_loop.simps) simp
  show ?thesis
  proof (cases "i = length pre")
    case True
    have nth: "(pre' @ [f]) ! i = f" "(pre @ [f]) ! i = f" using True assms(1) by (simp_all add: nth_append)
    show ?thesis
      unfolding mm_key_loop.simps [of "pre' @ [f]" st en i] mm_key_loop.simps [of "pre @ [f]" st en i] nth
      using True assms(1) by (simp add: past Let_def)
  qed (use assms past in simp)
qed

lemma mm_key_loop_index: "i \<le> snd (mm_key_loop feats st en i)"
proof (induction feats st en i rule: mm_key_loop.induct)
  case (1 feats st en i)
  then show ?case
    by (subst mm_key_loop.simps) (fastforce simp: Let_def split: prod.splits)
qed

lemma generate_keys_last:
  assumes "mm_features r = pre @ [f]" and "length pre' = length pre"
    and "j = -1 \<or> j \<ge> int (length pre)"
  shows "generate_block_hash_extra_keys (r\<lparr>mm_features := pre' @ [f]\<rparr>) st en j
       = generate_block_hash_extra_keys r st en j"
    and "generate_block_hash_extra_keys r st en j = Inr (ks, j') \<Longrightarrow> j' = -1 \<or> j' \<ge> int (length pre)"
proof -
  have loop: "mm_key_loop (pre' @ [f]) st en i = mm_key_loop (pre @ [f]) st en i" if "length pre \<le> i" for i
    using assms(2) that by (rule mm_key_loop_last)
  have "gen_mm_extra_hash_keys (r\<lparr>mm_features := pre' @ [f]\<rparr>) st en j = gen_mm_extra_hash_keys r st en j"
    using assms by (auto simp: gen_mm_extra_hash_keys_def Let_def loop)
  then show "generate_block_hash_extra_keys (r\<lparr>mm_features := pre' @ [f]\<rparr>) st en j
       = generate_block_hash_extra_keys r st en j"
    by (simp add: generate_block_hash_extra_keys_def gen_lora_extra_hash_keys_def
        gen_prompt_embeds_extra_hash_keys_def)
  assume "generate_block_hash_extra_keys r st en j = Inr (ks, j')"
  then obtain mk where "gen_mm_extra_hash_keys r st en j = Inr (mk, j')"
    by (auto simp: generate_block_hash_extra_keys_def Let_def elim!: bindE_InrE)
  then show "j' = -1 \<or> j' \<ge> int (length pre)"
    using assms(1,3) mm_key_loop_index [of "nat (if j < 0 then int (length (pre @ [f])) + j else j)" "pre @ [f]" st en]
    by (auto simp: gen_mm_extra_hash_keys_def Let_def split: prod.splits if_splits)
qed

lemma key_chain_last:
  assumes "mm_features r = pre @ [f]" and "length pre' = length pre"
    and "j = -1 \<or> j \<ge> int (length pre)"
  shows "key_chain bs (r\<lparr>mm_features := pre' @ [f]\<rparr>) k n j = key_chain bs r k n j"
  using assms(3)
proof (induction n arbitrary: k j)
  case (Suc n)
  note G = generate_keys_last [OF assms(1,2) Suc.prems]
  show ?case
  proof (cases "generate_block_hash_extra_keys r (k * bs) (k * bs + bs) j")
    case (Inr kk)
    then obtain ks j' where kk: "kk = (ks, j')" by force
    with Inr G(2) have "j' = -1 \<or> j' \<ge> int (length pre)" by blast
    with Suc.IH kk Inr G(1) show ?thesis by simp
  qed (simp add: G(1))
qed simp

text \<open>
  For a request that already has hashes, the hashes of its later blocks depend on its last
  multi-modal input only. Any other inputs may be replaced by different ones (a different image,
  even one that lies in the block being hashed) without changing a single new hash, because the
  hasher then starts from index \<open>-1\<close>. The block of a prompt that is completed by generated
  tokens and holds two images is therefore cached under a key that identifies only the second.
\<close>

theorem later_hashes_ignore_earlier_images:
  assumes "0 < bs" and "block_hashes r \<noteq> []" and "int (length (block_hashes r)) \<le> num_tokens r div bs"
    and "mm_features r = pre @ [f]" and "length pre' = length pre"
  shows "request_block_hasher H N bs (r\<lparr>mm_features := pre' @ [f]\<rparr>) = request_block_hasher H N bs r"
proof -
  let ?r = "r\<lparr>mm_features := pre' @ [f]\<rparr>"
  have "hash_chain H N bs ?r k p es = hash_chain H N bs r k p es" for k p es
    by (rule hash_chain_cong) (simp add: block_tokens_def)
  with assms show ?thesis
    by (simp add: request_block_hasher_chain key_chain_last num_tokens_def)
qed

definition mm_image :: "string \<Rightarrow> int \<Rightarrow> MultiModalFeatureSpec" where
  "mm_image h off = \<lparr>modality = ''image'', mm_identifier = h,
     mm_position = \<lparr>offset = off, length_of = 1, is_embed = None\<rparr>\<rparr>"

theorem later_hashes_ignore_earlier_images_witness:
  "let r = (demo_request ''a'' [1, 2, 3, 4] [mm_image ''cat'' 2, mm_image ''dog'' 3] None None)\<lparr>block_hashes := [[1]]\<rparr>
   in request_block_hasher unary_hash [1] 2 (r\<lparr>mm_features := [mm_image ''car'' 2, mm_image ''dog'' 3]\<rparr>)
      = request_block_hasher unary_hash [1] 2 r"
  using later_hashes_ignore_earlier_images [of 2
      "(demo_request ''a'' [1, 2, 3, 4] [mm_image ''cat'' 2, mm_image ''dog'' 3] None None)\<lparr>block_hashes := [[1]]\<rparr>"
      "[mm_image ''cat'' 2]" "mm_image ''dog'' 3" "[mm_image ''car'' 2]" unary_hash "[1]"]
  by (simp add: demo_request_def num_tokens_def)

text \<open>
  The extra keys do not say where a key came from. A request for adapter \<open>x\<close> and a request
  without adapter whose cache salt is the same string \<open>x\<close> get the same hash for their first block
  when its tokens agree, for every hash function.
\<close>

theorem lora_name_and_salt_collide:
  assumes "0 < bs" and "bs \<le> num_tokens r" and "block_hashes r = []" and "mm_features r = []"
    and "prompt_embeds r = None" and "lora_request r = Some l" and "cache_salt r = None"
    and "lora_name l \<noteq> []"
    and "r' = r\<lparr>lora_request := None, cache_salt := Some (lora_name l)\<rparr>"
  shows "\<exists>h hs hs'. request_block_hasher H N bs r = Some (Inr (h # hs))
      \<and> request_block_hasher H N bs r' = Some (Inr (h # hs'))"
proof -
  have "1 \<le> num_tokens r div bs" using assms(1,2) int_le_div_iff [of bs 1 "num_tokens r"] by simp
  then obtain n where n: "nat (num_tokens r div bs) = Suc n" by (cases "nat (num_tokens r div bs)") auto
  have up: "[0..<Suc n] = 0 # [1..<Suc n]" by (simp add: upt_conv_Cons)
  have nt: "num_tokens r' = num_tokens r" and bt: "block_tokens bs r' = block_tokens bs r"
    using assms(9) by (auto simp: num_tokens_def block_tokens_def fun_eq_iff)
  have keys: "plain_keys r 0 bs = Some [KeyStr (lora_name l)]" "plain_keys r' 0 bs = Some [KeyStr (lora_name l)]"
    using assms by (auto simp: plain_keys_def gen_lora_extra_hash_keys_def gen_prompt_embeds_extra_hash_keys_def)
  have "request_block_hasher H N bs q = Some (Inr (drop 0 (full_hashes H N bs q)))" if "q = r \<or> q = r'" for q
    by (rule hasher_plain [OF assms(1)]) (use that assms in auto)
  then show ?thesis
    using keys by (auto simp: full_hashes_def nt n up Let_def bt simp del: upt_Suc)
qed

theorem lora_name_and_salt_collide_witness:
  "\<exists>h hs hs'. request_block_hasher unary_hash [1] 2
        (demo_request ''a'' [1, 2] [] (Some \<lparr>lora_name = ''x'', lora_int_id = 1\<rparr>) None) = Some (Inr (h # hs))
     \<and> request_block_hasher unary_hash [1] 2 (demo_request ''a'' [1, 2] [] None (Some ''x'')) = Some (Inr (h # hs'))"
  using lora_name_and_salt_collide [of 2 "demo_request ''a'' [1, 2] [] (Some \<lparr>lora_name = ''x'', lora_int_id = 1\<rparr>) None"
      "\<lparr>lora_name = ''x'', lora_int_id = 1\<rparr>" "demo_request ''a'' [1, 2] [] None (Some ''x'')" unary_hash "[1]"]
  by (simp add: demo_request_def num_tokens_def)

subsection \<open>Coarser hashes\<close>

lemma foldE_concat:
  assumes "\<And>i. i \<in> set is \<Longrightarrow> 0 \<le> i \<and> i < int (length xs)"
  shows "foldE (\<lambda>i merged. bindE (index_py xs i) (\<lambda>h. Inr (merged @ h))) is acc
     = Inr (acc @ concat (map (\<lambda>i. xs ! nat i) is))"
  using assms by (induction "is" arbitrary: acc) (auto simp: index_py_nonneg nat_less_iff)

lemma upto_concat:
  assumes "0 \<le> b" and "0 < m" and "b + m \<le> int (length xs)"
  shows "map (\<lambda>i. xs ! nat i) [b..b + m - 1] = take (nat m) (drop (nat b) xs)"
  using assms by (intro nth_equalityI) (auto simp: nat_add_distrib)

text \<open>
  \<^verbatim>\<open>BlockHashListWithBlockSize\<close> regroups the fine hashes: the hash of coarse block \<open>i\<close> is the
  concatenation of its \<open>scale\<close> consecutive fine hashes, there is one for each complete group, and
  access inside the list never raises.
\<close>

theorem block_hash_list_regroups:
  assumes "0 < hbs" and "0 < tbs" and "tbs mod hbs = 0"
  shows "\<exists>l. new_block_hash_list hs hbs tbs = Inr l
     \<and> bh_len l = int (length hs) div (tbs div hbs)
     \<and> (\<forall>i. 0 \<le> i \<and> i < bh_len l \<longrightarrow>
          get_value_at l i = Inr (concat (take (nat (tbs div hbs)) (drop (nat (i * (tbs div hbs))) hs))))"
proof -
  let ?m = "tbs div hbs"
  let ?l = "\<lparr>bh_block_hashes = hs, scale_factor = ?m\<rparr>"
  have "hbs \<le> tbs" using assms by (simp add: zdvd_imp_le mod_0_imp_dvd)
  then have m: "0 < ?m" using assms(1) by (simp add: pos_imp_zdiv_pos_iff)
  have "get_value_at ?l i = Inr (concat (take (nat ?m) (drop (nat (i * ?m)) hs)))"
    if "0 \<le> i" "i < bh_len ?l" for i
  proof -
    have "i + 1 \<le> int (length hs) div ?m" using that by (simp add: bh_len_def)
    then have top: "i * ?m + ?m \<le> int (length hs)"
      using int_le_div_iff [OF m, of "i + 1"] by (simp add: algebra_simps)
    have base: "0 \<le> i * ?m" using that m by simp
    have "get_value_at ?l i = Inr (concat (map (\<lambda>j. hs ! nat j) [i * ?m..i * ?m + ?m - 1]))"
    proof -
      have "foldE (\<lambda>j merged. bindE (index_py hs j) (\<lambda>h. Inr (merged @ h))) [i * ?m + 1..i * ?m + ?m - 1] acc
          = Inr (acc @ concat (map (\<lambda>j. hs ! nat j) [i * ?m + 1..i * ?m + ?m - 1]))" for acc
        by (rule foldE_concat) (use top base in auto)
      with top base m show ?thesis
        by (simp add: get_value_at_def Let_def index_py_nonneg nat_less_iff upto_rec1 [of "i * ?m"])
    qed
    then show ?thesis using upto_concat [OF base m top] by simp
  qed
  with assms(1,3) m show ?thesis by (auto simp: new_block_hash_list_def bh_len_def)
qed

theorem block_hash_list_regroups_witness:
  "\<exists>l. new_block_hash_list [[1], [2], [3], [4], [5]] 16 32 = Inr l \<and> bh_len l = 2
     \<and> get_value_at l 1 = Inr [3, 4]"
  using block_hash_list_regroups [of 16 32 "[[1], [2], [3], [4], [5]]"]
  by (auto simp: numeral_eq_Suc dest!: spec [where x = 1])

end
