(* ===== verification/Block_Pool.thy ===== *)
theory Block_Pool
  imports Free_Queue Block_Hashing
begin

section \<open>The block pool\<close>

text \<open>
  \<^verbatim>\<open>vllm/v1/core/block_pool.py\<close>: the map from block hashes to cached blocks and the pool that
  allocates, shares, frees and evicts blocks. The pool's record extends the store of the free
  queue, so a block is one object seen by the queue, the pool and the hash map. The events of
  \<^verbatim>\<open>vllm/distributed/kv_events.py\<close> are the entries of \<open>kv_event_queue\<close>. The optional metrics
  collector, which only records times, is left out.
\<close>

subsection \<open>The map from hashes to blocks\<close>

datatype KVCacheBlocks = OneBlock ptr | BlockDict "(int, ptr) odict"

type_synonym BlockHashToBlockMap = "(bytes, KVCacheBlocks) odict"
type_synonym store = "ptr \<Rightarrow> KVCacheBlock"

definition get_one_block :: "bytes \<Rightarrow> BlockHashToBlockMap \<Rightarrow> ptr option result" where
  "get_one_block key m = (case map_of m key of
      None \<Rightarrow> Inr None
    | Some (OneBlock p) \<Rightarrow> Inr (Some p)
    | Some (BlockDict d) \<Rightarrow> (case d of [] \<Rightarrow> Inl StopIteration | (_, p) # _ \<Rightarrow> Inr (Some p)))"

definition insert_block :: "store \<Rightarrow> bytes \<Rightarrow> ptr \<Rightarrow> BlockHashToBlockMap \<Rightarrow> BlockHashToBlockMap" where
  "insert_block h key p m = (case map_of m key of
      None \<Rightarrow> AList.update key (OneBlock p) m
    | Some (OneBlock q) \<Rightarrow>
        AList.update key (BlockDict (AList.update (block_id (h p)) p [(block_id (h q), q)])) m
    | Some (BlockDict d) \<Rightarrow> AList.update key (BlockDict (AList.update (block_id (h p)) p d)) m)"

definition pop_block :: "store \<Rightarrow> bytes \<Rightarrow> int \<Rightarrow> BlockHashToBlockMap \<Rightarrow> BlockHashToBlockMap \<times> ptr option" where
  "pop_block h key bid m = (let rest = AList.delete key m in case map_of m key of
      None \<Rightarrow> (rest, None)
    | Some (OneBlock q) \<Rightarrow>
        (if block_id (h q) = bid then (rest, Some q)
         else (AList.update key (OneBlock q) rest, None))
    | Some (BlockDict d) \<Rightarrow>
        (let d' = AList.delete bid d
         in (if d' \<noteq> [] then AList.update key (BlockDict d') rest else rest, map_of d bid)))"

subsection \<open>Events\<close>

datatype KVCacheEvent =
    BlockStored "ExternalBlockHash list" "ExternalBlockHash option" "int list" int "int option" string "string option"
  | BlockRemoved "ExternalBlockHash list" string
  | AllBlocksCleared

abbreviation MEDIUM_GPU :: string where
  "MEDIUM_GPU \<equiv> ''GPU''"

subsection \<open>The pool\<close>

record block_pool = free_queue +
  num_gpu_blocks :: int
  enable_caching :: bool
  hash_block_size :: int
  cached_block_hash_to_block :: BlockHashToBlockMap
  null_block :: ptr
  enable_kv_cache_events :: bool
  kv_event_queue :: "KVCacheEvent list"

definition blocks :: "block_pool \<Rightarrow> ptr list" where
  "blocks s = map Blk [0..<nat (num_gpu_blocks s)]"

definition add_event :: "KVCacheEvent \<Rightarrow> block_pool \<Rightarrow> block_pool" where
  "add_event e s = (if enable_kv_cache_events s then s\<lparr>kv_event_queue := kv_event_queue s @ [e]\<rparr> else s)"

text \<open>The block objects are created with their index as id; the sentinels have id \<open>-1\<close>.\<close>

definition fresh_store :: store where
  "fresh_store p = (case p of Blk i \<Rightarrow> new_block (int i) | _ \<Rightarrow> new_block (-1))"

definition block_pool_init :: "int \<Rightarrow> bool \<Rightarrow> int \<Rightarrow> bool \<Rightarrow> block_pool result" where
  "block_pool_init n caching hbs evs = assertE (n > 0)
     (let s = free_queue_init (nat n) \<lparr>heap = fresh_store, num_free_blocks = 0,
                num_gpu_blocks = n, enable_caching = caching, hash_block_size = hbs,
                cached_block_hash_to_block = [], null_block = FakeHead,
                enable_kv_cache_events = evs, kv_event_queue = []\<rparr>
      in bindE (popleft s) (\<lambda>(s, p).
           Inr (upd (\<lambda>b. b\<lparr>is_null := True\<rparr>) p (s\<lparr>null_block := p\<rparr>))))"

fun get_cached_block :: "bytes \<Rightarrow> int list \<Rightarrow> block_pool \<Rightarrow> ptr list option result" where
  "get_cached_block bh [] s = Inr (Some [])"
| "get_cached_block bh (g # gs) s =
     bindE (make_block_hash_with_group_id bh g) (\<lambda>key.
     bindE (get_one_block key (cached_block_hash_to_block s)) (\<lambda>b. case b of
        None \<Rightarrow> Inr None
      | Some p \<Rightarrow> bindE (get_cached_block bh gs s) (\<lambda>r. Inr (map_option (Cons p) r))))"

text \<open>The loop body of \<^verbatim>\<open>cache_full_blocks\<close>; \<open>use_int\<close> is the flag of \<open>maybe_convert_block_hash\<close>.\<close>

definition cache_block_step :: "bool \<Rightarrow> int \<Rightarrow> bytes list \<Rightarrow> int \<times> ptr
    \<Rightarrow> block_pool \<times> ExternalBlockHash list \<Rightarrow> (block_pool \<times> ExternalBlockHash list) result" where
  "cache_block_step use_int group_id hs ip st =
     (case (ip, st) of ((i, p), (s, new_hashes)) \<Rightarrow>
        if is_null (heap s p) then Inr (s, new_hashes)
        else assertE (block_hash (heap s p) = None)
          (bindE (index_py hs i) (\<lambda>h.
           bindE (make_block_hash_with_group_id h group_id) (\<lambda>key.
           bindE (set_block_hash p key s) (\<lambda>s.
             Inr (s\<lparr>cached_block_hash_to_block :=
                      insert_block (heap s) key p (cached_block_hash_to_block s)\<rparr>,
                  if enable_kv_cache_events s then new_hashes @ [maybe_convert_block_hash use_int h]
                  else new_hashes))))))"

text \<open>
  The block hashes at the granularity of \<open>block_size\<close> from block \<open>num_cached_blocks\<close> on, and the
  hash of the block before it, which is read only when an event is emitted.
  \<^verbatim>\<open>num_cached_blocks\<close> is a count of blocks and non-negative.
\<close>

definition new_block_hashes :: "Request \<Rightarrow> int \<Rightarrow> int \<Rightarrow> block_pool \<Rightarrow> (bytes list \<times> bytes result) result" where
  "new_block_hashes r num_cached_blocks block_size s =
     (if block_size = hash_block_size s
      then Inr (slice_from (block_hashes r) num_cached_blocks,
                index_py (block_hashes r) (num_cached_blocks - 1))
      else if hash_block_size s = 0 then Inl ZeroDivisionError
      else assertE (block_size mod hash_block_size s = 0)
        (bindE (new_block_hash_list (block_hashes r) (hash_block_size s) block_size) (\<lambda>l.
         bindE (get_values_from l num_cached_blocks) (\<lambda>hs.
           Inr (hs, get_value_at l (num_cached_blocks - 1))))))"

definition cache_full_blocks :: "bool \<Rightarrow> Request \<Rightarrow> ptr list \<Rightarrow> int \<Rightarrow> int \<Rightarrow> int \<Rightarrow> int
    \<Rightarrow> block_pool \<Rightarrow> block_pool result" where
  "cache_full_blocks use_int r bls num_cached_blocks num_full_blocks block_size group_id s =
     (if num_cached_blocks \<ge> num_full_blocks then Inr s
      else let new_full_blocks = slice bls num_cached_blocks num_full_blocks in
      assertE (int (length (block_hashes r)) \<ge> num_full_blocks)
        (bindE (new_block_hashes r num_cached_blocks block_size s) (\<lambda>(hs, parent).
         bindE (foldE (cache_block_step use_int group_id hs)
             (zip [0..int (length new_full_blocks) - 1] new_full_blocks) (s, [])) (\<lambda>(s, new_hashes).
           if \<not> enable_kv_cache_events s then Inr s
           else bindE (if num_cached_blocks = 0 then Inr None
                  else bindE parent (\<lambda>h. Inr (Some (maybe_convert_block_hash use_int h)))) (\<lambda>par.
             Inr (add_event (BlockStored new_hashes par
               (slice (all_token_ids r) (num_cached_blocks * block_size) (num_full_blocks * block_size))
               block_size (map_option lora_int_id (lora_request r)) MEDIUM_GPU
               (map_option lora_name (lora_request r))) s))))))"

definition maybe_evict_cached_block :: "bool \<Rightarrow> ptr \<Rightarrow> block_pool \<Rightarrow> block_pool \<times> bool" where
  "maybe_evict_cached_block use_int p s = (case block_hash (heap s p) of
      None \<Rightarrow> (s, False)
    | Some bh \<Rightarrow>
        (let (m, popped) = pop_block (heap s) bh (block_id (heap s p)) (cached_block_hash_to_block s);
             s = s\<lparr>cached_block_hash_to_block := m\<rparr>
         in case popped of
              None \<Rightarrow> (s, False)
            | Some _ \<Rightarrow>
                (add_event (BlockRemoved [maybe_convert_block_hash use_int (get_block_hash bh)] MEDIUM_GPU)
                   (reset_hash p s), True)))"

definition incr_ref :: "ptr \<Rightarrow> block_pool \<Rightarrow> block_pool" where
  "incr_ref = upd (\<lambda>b. b\<lparr>ref_cnt := ref_cnt b + 1\<rparr>)"

definition decr_ref :: "ptr \<Rightarrow> block_pool \<Rightarrow> block_pool" where
  "decr_ref = upd (\<lambda>b. b\<lparr>ref_cnt := ref_cnt b - 1\<rparr>)"

definition alloc_step :: "bool \<Rightarrow> ptr \<Rightarrow> block_pool \<Rightarrow> block_pool result" where
  "alloc_step use_int p s =
     (let s = (if enable_caching s then fst (maybe_evict_cached_block use_int p s) else s)
      in assertE (ref_cnt (heap s p) = 0) (Inr (incr_ref p s)))"

definition get_new_blocks :: "bool \<Rightarrow> int \<Rightarrow> block_pool \<Rightarrow> (block_pool \<times> ptr list) result" where
  "get_new_blocks use_int n s =
     (if n > num_free_blocks s then Inl ValueError
      else bindE (popleft_n n s) (\<lambda>(s, ret).
             bindE (foldE (alloc_step use_int) ret s) (\<lambda>s. Inr (s, ret))))"

definition touch_step :: "ptr \<Rightarrow> block_pool \<Rightarrow> block_pool result" where
  "touch_step p s =
     bindE (if ref_cnt (heap s p) = 0 \<and> \<not> is_null (heap s p) then remove p s else Inr s)
       (\<lambda>s. Inr (incr_ref p s))"

definition touch :: "ptr list \<Rightarrow> block_pool \<Rightarrow> block_pool result" where
  "touch = foldE touch_step"

definition free_blocks :: "ptr list \<Rightarrow> block_pool \<Rightarrow> block_pool result" where
  "free_blocks ps s =
     (let s = fold decr_ref ps s
      in append_n (filter (\<lambda>p. ref_cnt (heap s p) = 0 \<and> \<not> is_null (heap s p)) ps) s)"

text \<open>The argument lists the set of ids in the order in which Python iterates over it.\<close>

definition evict_blocks :: "bool \<Rightarrow> int list \<Rightarrow> block_pool \<Rightarrow> block_pool result" where
  "evict_blocks use_int = foldE (\<lambda>bid s. assertE (bid < int (length (blocks s)))
     (bindE (index_py (blocks s) bid) (\<lambda>p. Inr (fst (maybe_evict_cached_block use_int p s)))))"

definition reset_prefix_cache :: "block_pool \<Rightarrow> block_pool \<times> bool" where
  "reset_prefix_cache s =
     (if num_gpu_blocks s - num_free_blocks s \<noteq> 1 then (s, False)
      else (add_event AllBlocksCleared
             (fold reset_hash (blocks s) (s\<lparr>cached_block_hash_to_block := []\<rparr>)), True))"

definition get_num_free_blocks :: "block_pool \<Rightarrow> int" where
  "get_num_free_blocks s = num_free_blocks s"

definition get_usage :: "block_pool \<Rightarrow> rat" where
  "get_usage s = (let total = num_gpu_blocks s - 1
     in if total = 0 then 0 else 1 - of_int (get_num_free_blocks s) / of_int total)"

definition take_events :: "block_pool \<Rightarrow> block_pool \<times> KVCacheEvent list" where
  "take_events s = (if \<not> enable_kv_cache_events s then (s, [])
     else (s\<lparr>kv_event_queue := []\<rparr>, kv_event_queue s))"


subsection \<open>What the map stores\<close>

fun entries :: "KVCacheBlocks \<Rightarrow> ptr list" where
  "entries (OneBlock p) = [p]"
| "entries (BlockDict d) = map snd d"

definition entries_at :: "BlockHashToBlockMap \<Rightarrow> bytes \<Rightarrow> ptr list" where
  "entries_at m k = (case map_of m k of None \<Rightarrow> [] | Some b \<Rightarrow> entries b)"

fun entry_ok :: "store \<Rightarrow> KVCacheBlocks \<Rightarrow> bool" where
  "entry_ok h (OneBlock p) \<longleftrightarrow> True"
| "entry_ok h (BlockDict d) \<longleftrightarrow> d \<noteq> [] \<and> distinct_keys d \<and> (\<forall>(i, p) \<in> set d. i = block_id (h p))"

text \<open>Every entry is well formed, and only blocks of \<open>A\<close>, which have different ids, are stored.\<close>

definition map_ok :: "store \<Rightarrow> ptr set \<Rightarrow> BlockHashToBlockMap \<Rightarrow> bool" where
  "map_ok h A m \<longleftrightarrow> inj_on (\<lambda>p. block_id (h p)) A
     \<and> (\<forall>k b. map_of m k = Some b \<longrightarrow> entry_ok h b \<and> set (entries b) \<subseteq> A)"

lemma map_ok_entries: "map_ok h A m \<Longrightarrow> set (entries_at m k) \<subseteq> A"
  by (cases "map_of m k") (auto simp: map_ok_def entries_at_def)

lemma map_ok_cong:
  assumes "\<And>p. block_id (h' p) = block_id (h p)"
  shows "map_ok h' A m = map_ok h A m"
proof -
  have "entry_ok h' b = entry_ok h b" for b by (cases b) (simp_all add: assms)
  then show ?thesis by (simp add: map_ok_def assms)
qed

lemma map_ok_update:
  assumes "map_ok h A m" and "entry_ok h b" and "set (entries b) \<subseteq> A"
  shows "map_ok h A (AList.update k b m)"
  using assms by (auto simp: map_ok_def update_conv')

lemma map_ok_delete: "map_ok h A m \<Longrightarrow> map_ok h A (AList.delete k m)"
  by (auto simp: map_ok_def delete_conv' split: if_splits)

lemma entries_at_update [simp]:
  "entries_at (AList.update k b m) k' = (if k' = k then entries b else entries_at m k')"
  by (auto simp: entries_at_def update_conv')

lemma entries_at_delete [simp]:
  "entries_at (AList.delete k m) k' = (if k' = k then [] else entries_at m k')"
  by (auto simp: entries_at_def delete_conv')

lemma get_one_block_hd:
  assumes "map_ok h A m"
  shows "get_one_block k m = Inr (if entries_at m k = [] then None else Some (hd (entries_at m k)))"
proof (cases "map_of m k")
  case (Some b)
  with assms have "entry_ok h b" by (auto simp: map_ok_def)
  with Some show ?thesis
    by (cases b) (auto simp: get_one_block_def entries_at_def neq_Nil_conv)
qed (simp add: get_one_block_def entries_at_def)

lemma dict_update_ok:
  assumes "entry_ok h (BlockDict d)" and "inj_on (\<lambda>p. block_id (h p)) A"
    and "snd ` set d \<subseteq> A" and "p \<in> A"
  shows "entry_ok h (BlockDict (AList.update (block_id (h p)) p d))"
    and "snd ` set (AList.update (block_id (h p)) p d) = insert p (snd ` set d)"
proof -
  have d: "distinct_keys d" "\<forall>(i, q) \<in> set d. i = block_id (h q)" using assms(1) by auto
  let ?d = "AList.update (block_id (h p)) p d"
  have dk: "distinct_keys ?d" using d(1) by (rule distinct_update)
  have mem: "(i, q) \<in> set ?d \<longleftrightarrow> (i, q) \<in> set d \<or> (i = block_id (h p) \<and> q = p)" for i q
  proof -
    have "(i, q) \<in> set ?d \<longleftrightarrow> map_of ?d i = Some q" using dk by simp
    also have "\<dots> \<longleftrightarrow> (i = block_id (h p) \<and> q = p) \<or> (i \<noteq> block_id (h p) \<and> (i, q) \<in> set d)"
      using d(1) by (auto simp: update_conv')
    also have "\<dots> \<longleftrightarrow> (i, q) \<in> set d \<or> (i = block_id (h p) \<and> q = p)"
    proof -
      have "q = p" if "(i, q) \<in> set d" "i = block_id (h p)"
      proof -
        have "block_id (h q) = block_id (h p)" "q \<in> A" using that d(2) assms(3) by force+
        with assms(2,4) show "q = p" by (auto dest: inj_onD)
      qed
      then show ?thesis by blast
    qed
    finally show ?thesis .
  qed
  have "?d \<noteq> []" using mem [of "block_id (h p)" p] by auto
  with dk d(2) mem show "entry_ok h (BlockDict ?d)" by auto
  show "snd ` set ?d = insert p (snd ` set d)" using mem by force
qed

lemma insert_block_ok:
  assumes m: "map_ok h A m" and p: "p \<in> A"
  shows "map_ok h A (insert_block h k p m)"
    and "set (entries_at (insert_block h k p m) k') =
           (if k' = k then insert p (set (entries_at m k)) else set (entries_at m k'))"
proof -
  have inj: "inj_on (\<lambda>p. block_id (h p)) A" using m by (simp add: map_ok_def)
  have "map_ok h A (insert_block h k p m) \<and> set (entries_at (insert_block h k p m) k') =
           (if k' = k then insert p (set (entries_at m k)) else set (entries_at m k'))"
  proof (cases "map_of m k")
    case None
    with m p show ?thesis by (auto simp: insert_block_def entries_at_def [of m k] intro: map_ok_update)
  next
    case (Some b)
    with m have b: "entry_ok h b" "set (entries b) \<subseteq> A" by (auto simp: map_ok_def)
    define d where "d = (case b of OneBlock q \<Rightarrow> [(block_id (h q), q)] | BlockDict d \<Rightarrow> d)"
    have d: "entry_ok h (BlockDict d)" "snd ` set d = set (entries b)"
      using b by (auto simp: d_def split: KVCacheBlocks.splits)
    note upd = dict_update_ok [OF d(1) inj _ p]
    have "insert_block h k p m = AList.update k (BlockDict (AList.update (block_id (h p)) p d)) m"
      using Some by (auto simp: insert_block_def d_def split: KVCacheBlocks.splits)
    then show ?thesis
      using upd b p d(2) m Some by (auto simp: entries_at_def [of m k] intro!: map_ok_update)
  qed
  then show "map_ok h A (insert_block h k p m)"
    and "set (entries_at (insert_block h k p m) k') =
           (if k' = k then insert p (set (entries_at m k)) else set (entries_at m k'))" by simp_all
qed

text \<open>Popping a stored block by its id removes that block and no other.\<close>

lemma pop_block_ok:
  assumes m: "map_ok h A m" and p: "p \<in> set (entries_at m k)"
  shows "\<exists>m'. pop_block h k (block_id (h p)) m = (m', Some p) \<and> map_ok h A m'
     \<and> (\<forall>k'. set (entries_at m' k') = (if k' = k then set (entries_at m k) - {p} else set (entries_at m k')))"
proof -
  from p obtain b where b: "map_of m k = Some b" "p \<in> set (entries b)"
    by (cases "map_of m k") (auto simp: entries_at_def)
  have inj: "inj_on (\<lambda>p. block_id (h p)) A" using m by (simp add: map_ok_def)
  have ok: "entry_ok h b" "set (entries b) \<subseteq> A" using m b(1) by (auto simp: map_ok_def)
  show ?thesis
  proof (cases b)
    case (OneBlock q)
    with b m show ?thesis
      by (auto simp: pop_block_def entries_at_def [of m k] intro: map_ok_delete)
  next
    case (BlockDict d)
    let ?d = "AList.delete (block_id (h p)) d"
    have d: "distinct_keys d" "\<forall>(i, q) \<in> set d. i = block_id (h q)" using ok BlockDict by auto
    have "(block_id (h p), p) \<in> set d" using b(2) BlockDict d(2) by auto
    then have get: "map_of d (block_id (h p)) = Some p" using d(1) by simp
    have set_d: "set ?d = {(i, q). (i, q) \<in> set d \<and> i \<noteq> block_id (h p)}" by (auto simp: AList.delete_eq)
    have snds: "snd ` set ?d = snd ` set d - {p}"
    proof -
      have "q = p" if "(i, q) \<in> set d" "i = block_id (h p)" for i q
        using that get d(1) by simp
      with d(2) show ?thesis unfolding set_d by force
    qed
    have ok': "entry_ok h (BlockDict ?d)" if "?d \<noteq> []"
      using that d set_d distinct_delete [OF d(1)] by auto
    have sub: "snd ` set ?d \<subseteq> A" using snds ok BlockDict by auto
    show ?thesis
      using get b m BlockDict ok' sub snds
      by (auto simp: pop_block_def Let_def entries_at_def [of m k] intro!: map_ok_update map_ok_delete)
  qed
qed


subsection \<open>The invariant of the pool\<close>

text \<open>
  \<open>pool_rel s xs\<close>: the free queue holds \<open>xs\<close>, these are exactly the ordinary blocks with no
  reference, reference counts are not negative, block 0 is the null block and is never free or
  cached, and the map and the hash fields of the blocks agree.
\<close>

definition real_blocks :: "block_pool \<Rightarrow> ptr set" where
  "real_blocks s = Blk ` {i. 0 < i \<and> int i < num_gpu_blocks s}"

definition static_ok :: "block_pool \<Rightarrow> bool" where
  "static_ok s \<longleftrightarrow> 0 < num_gpu_blocks s \<and> null_block s = Blk 0
     \<and> (\<forall>i. int i < num_gpu_blocks s \<longrightarrow> block_id (heap s (Blk i)) = int i \<and> is_null (heap s (Blk i)) = (i = 0))"

definition cache_ok :: "block_pool \<Rightarrow> bool" where
  "cache_ok s \<longleftrightarrow> map_ok (heap s) (real_blocks s) (cached_block_hash_to_block s)
     \<and> block_hash (heap s (Blk 0)) = None
     \<and> (\<forall>k. set (entries_at (cached_block_hash_to_block s) k) =
            {p \<in> real_blocks s. block_hash (heap s p) = Some k})"

definition refs_ok :: "block_pool \<Rightarrow> ptr list \<Rightarrow> bool" where
  "refs_ok s xs \<longleftrightarrow> (\<forall>p \<in> real_blocks s. 0 \<le> ref_cnt (heap s p))
     \<and> set xs = {p \<in> real_blocks s. ref_cnt (heap s p) = 0}"

definition pool_rel :: "block_pool \<Rightarrow> ptr list \<Rightarrow> bool" where
  "pool_rel s xs \<longleftrightarrow> fq_rel s xs \<and> static_ok s \<and> cache_ok s \<and> refs_ok s xs"

definition pool_inv :: "block_pool \<Rightarrow> bool" where
  "pool_inv s \<longleftrightarrow> (\<exists>xs. pool_rel s xs)"

lemma meta_eqD:
  assumes "meta s' = meta s"
  shows "block_id (heap s' p) = block_id (heap s p)" "ref_cnt (heap s' p) = ref_cnt (heap s p)"
    "block_hash (heap s' p) = block_hash (heap s p)" "is_null (heap s' p) = is_null (heap s p)"
    "free_queue.more s' = free_queue.more s"
  using assms by (auto simp: meta_def fun_eq_iff)

lemma more_eqD:
  fixes s s' :: block_pool
  assumes "free_queue.more s' = free_queue.more s"
  shows "num_gpu_blocks s' = num_gpu_blocks s" "enable_caching s' = enable_caching s"
    "hash_block_size s' = hash_block_size s"
    "cached_block_hash_to_block s' = cached_block_hash_to_block s" "null_block s' = null_block s"
    "enable_kv_cache_events s' = enable_kv_cache_events s" "kv_event_queue s' = kv_event_queue s"
  using assms by (cases s; cases s'; simp)+

lemmas meta_fields = meta_eqD(1-4) more_eqD [OF meta_eqD(5)]

lemma meta_invariants:
  assumes "meta s' = meta s"
  shows "real_blocks s' = real_blocks s" "static_ok s' = static_ok s" "cache_ok s' = cache_ok s"
    "refs_ok s' xs = refs_ok s xs"
proof -
  show r: "real_blocks s' = real_blocks s" by (simp add: real_blocks_def meta_fields [OF assms])
  show "static_ok s' = static_ok s" by (simp add: static_ok_def meta_fields [OF assms])
  show "cache_ok s' = cache_ok s"
    using map_ok_cong [of "heap s'" "heap s", OF meta_fields(1) [OF assms]]
    by (simp add: cache_ok_def r meta_fields [OF assms])
  show "refs_ok s' xs = refs_ok s xs" by (simp add: refs_ok_def r meta_fields [OF assms])
qed

text \<open>The free queue only looks at links and its counter.\<close>

lemma fq_rel_cong:
  assumes "\<And>p. nxt s' p = nxt s p" and "\<And>p. prv s' p = prv s p"
    and "num_free_blocks s' = num_free_blocks s"
  shows "fq_rel s' xs = fq_rel s xs"
proof -
  have "linked (heap s') ys = linked (heap s) ys" for ys
    by (rule linked_cong) (simp_all add: assms)
  then show ?thesis by (simp add: fq_rel_def assms)
qed

lemma heap_upd [simp]: "heap (upd f p s) q = (if q = p then f (heap s q) else heap s q)"
  by (simp add: upd_def)

lemma fields_upd [simp]:
  "num_free_blocks (upd f p s) = num_free_blocks s"
  "num_gpu_blocks (upd f p b) = num_gpu_blocks b" "enable_caching (upd f p b) = enable_caching b"
  "hash_block_size (upd f p b) = hash_block_size b"
  "cached_block_hash_to_block (upd f p b) = cached_block_hash_to_block b"
  "null_block (upd f p b) = null_block b" "enable_kv_cache_events (upd f p b) = enable_kv_cache_events b"
  "kv_event_queue (upd f p b) = kv_event_queue b"
  by (simp_all add: upd_def)

lemma fields_add_event [simp]:
  "heap (add_event e s) = heap s" "num_free_blocks (add_event e s) = num_free_blocks s"
  "num_gpu_blocks (add_event e s) = num_gpu_blocks s" "enable_caching (add_event e s) = enable_caching s"
  "hash_block_size (add_event e s) = hash_block_size s"
  "cached_block_hash_to_block (add_event e s) = cached_block_hash_to_block s"
  "null_block (add_event e s) = null_block s"
  "enable_kv_cache_events (add_event e s) = enable_kv_cache_events s"
  "kv_event_queue (add_event e s) = kv_event_queue s @ (if enable_kv_cache_events s then [e] else [])"
  by (simp_all add: add_event_def)

lemma real_blocks_cong: "num_gpu_blocks s' = num_gpu_blocks s \<Longrightarrow> real_blocks s' = real_blocks s"
  by (simp add: real_blocks_def)

lemma pool_relD:
  assumes "pool_rel s xs"
  shows "fq_rel s xs" "static_ok s" "cache_ok s" "refs_ok s xs"
  using assms by (simp_all add: pool_rel_def)

lemma static_id:
  assumes "static_ok s" and "p \<in> real_blocks s"
  shows "\<not> is_null (heap s p)" and "\<exists>i. p = Blk i \<and> block_id (heap s p) = int i \<and> i \<noteq> 0"
  using assms by (auto simp: static_ok_def real_blocks_def)

lemma in_blocks: "static_ok s \<Longrightarrow> p \<in> set (blocks s) \<longleftrightarrow> p = Blk 0 \<or> p \<in> real_blocks s"
  by (auto simp: blocks_def real_blocks_def static_ok_def image_iff)

lemma in_blocks_null:
  assumes "static_ok s" and "p \<in> set (blocks s)"
  shows "is_null (heap s p) \<longleftrightarrow> p = Blk 0" and "is_null (heap s p) \<longleftrightarrow> p \<notin> real_blocks s"
  using assms by (auto simp: static_ok_def blocks_def real_blocks_def)

subsection \<open>Construction\<close>

lemma block_pool_init_rel:
  assumes "n > 0"
  shows "\<exists>s. block_pool_init n caching hbs evs = Inr s \<and> pool_rel s (map Blk [1..<nat n])
     \<and> (\<forall>p. block_hash (heap s p) = None) \<and> num_gpu_blocks s = n \<and> enable_caching s = caching
     \<and> hash_block_size s = hbs \<and> enable_kv_cache_events s = evs \<and> kv_event_queue s = []
     \<and> cached_block_hash_to_block s = [] \<and> (\<forall>p. ref_cnt (heap s p) = 0)"
proof -
  define r where "r = \<lparr>heap = fresh_store, num_free_blocks = 0,
      num_gpu_blocks = n, enable_caching = caching, hash_block_size = hbs,
      cached_block_hash_to_block = [], null_block = FakeHead,
      enable_kv_cache_events = evs, kv_event_queue = []\<rparr>"
  have links: "prev_free_block (fresh_store p) = None" "next_free_block (fresh_store p) = None"
    "ref_cnt (fresh_store p) = 0" "block_hash (fresh_store p) = None" "\<not> is_null (fresh_store p)" for p
    by (simp_all add: fresh_store_def new_block_def split: ptr.splits)
  have init: "fq_rel (free_queue_init (nat n) r) (map Blk [0..<nat n]) \<and> meta (free_queue_init (nat n) r) = meta r"
    using free_queue_init_refines [of r "nat n"] links by (simp add: r_def)
  have list: "map Blk [0..<nat n] = Blk 0 # map Blk [1..<nat n]"
    using assms by (simp add: upt_conv_Cons)
  obtain s where s: "popleft (free_queue_init (nat n) r) = Inr (s, Blk 0)" "fq_rel s (map Blk [1..<nat n])"
      "meta s = meta (free_queue_init (nat n) r)"
    using popleft_refines [of "free_queue_init (nat n) r" "Blk 0" "map Blk [1..<nat n]"] init list by auto
  have m: "meta s = meta r" using s(3) init by simp
  define t where "t = upd (\<lambda>b. b\<lparr>is_null := True\<rparr>) (Blk 0) (s\<lparr>null_block := Blk 0\<rparr>)"
  have run: "block_pool_init n caching hbs evs = Inr t"
    using assms s(1) by (simp add: block_pool_init_def t_def r_def [symmetric])
  have r_fields: "heap r = fresh_store" "num_gpu_blocks r = n" "enable_caching r = caching"
    "hash_block_size r = hbs" "cached_block_hash_to_block r = []" "enable_kv_cache_events r = evs"
    "kv_event_queue r = []" by (simp_all add: r_def)
  note mf = meta_fields [OF m]
  have rb: "real_blocks t = Blk ` {i. 0 < i \<and> int i < n}"
    by (simp add: real_blocks_def t_def mf r_fields)
  have "fq_rel t (map Blk [1..<nat n])"
    using s(2) by (subst fq_rel_cong [of t s]) (simp_all add: t_def)
  moreover have "static_ok t"
    using assms by (auto simp: static_ok_def t_def mf r_fields fresh_store_def new_block_def)
  moreover have "cache_ok t"
    using links by (auto simp: cache_ok_def map_ok_def entries_at_def t_def mf r_fields
        inj_on_def real_blocks_def fresh_store_def new_block_def)
  moreover have h: "\<forall>p. block_hash (heap t p) = None" "\<forall>p. ref_cnt (heap t p) = 0"
    by (auto simp: t_def mf r_fields links)
  moreover have "refs_ok t (map Blk [1..<nat n])"
    using h(2) by (auto simp: refs_ok_def rb image_iff)
  ultimately show ?thesis
    using run by (auto simp: pool_rel_def t_def mf r_fields)
qed


subsection \<open>What an operation may change\<close>

definition same_config :: "block_pool \<Rightarrow> block_pool \<Rightarrow> bool" where
  "same_config s s' \<longleftrightarrow> num_gpu_blocks s' = num_gpu_blocks s \<and> enable_caching s' = enable_caching s
     \<and> hash_block_size s' = hash_block_size s \<and> null_block s' = null_block s
     \<and> enable_kv_cache_events s' = enable_kv_cache_events s
     \<and> (\<forall>p. block_id (heap s' p) = block_id (heap s p) \<and> is_null (heap s' p) = is_null (heap s p))"

definition same_links :: "block_pool \<Rightarrow> block_pool \<Rightarrow> bool" where
  "same_links s s' \<longleftrightarrow> (\<forall>p. nxt s' p = nxt s p \<and> prv s' p = prv s p)
     \<and> num_free_blocks s' = num_free_blocks s"

lemma same_refl [simp]: "same_config s s" "same_links s s"
  by (simp_all add: same_config_def same_links_def)

lemma same_config_trans: "same_config s t \<Longrightarrow> same_config t u \<Longrightarrow> same_config s u"
  by (simp add: same_config_def)

lemma same_links_trans: "same_links s t \<Longrightarrow> same_links t u \<Longrightarrow> same_links s u"
  by (simp add: same_links_def)

lemma same_links_rel: "same_links s s' \<Longrightarrow> fq_rel s' xs = fq_rel s xs"
  by (rule fq_rel_cong) (simp_all add: same_links_def)

lemma same_config_ok:
  assumes "same_config s s'"
  shows "static_ok s' = static_ok s" "real_blocks s' = real_blocks s" "blocks s' = blocks s"
    "enable_caching s' = enable_caching s" "enable_kv_cache_events s' = enable_kv_cache_events s"
    "is_null (heap s' p) = is_null (heap s p)" "block_id (heap s' p) = block_id (heap s p)"
  using assms by (simp_all add: same_config_def static_ok_def real_blocks_def blocks_def)

lemma meta_same_config: "meta s' = meta s \<Longrightarrow> same_config s s'"
  using meta_fields [of s' s] by (simp add: same_config_def)

text \<open>
  What a consumer of the events reconstructs: a bag of block hashes. \<open>cached_hashes\<close> is the bag
  the pool really holds.
\<close>

fun replay_event :: "KVCacheEvent \<Rightarrow> ExternalBlockHash multiset \<Rightarrow> ExternalBlockHash multiset" where
  "replay_event (BlockStored hs _ _ _ _ _ _) M = M + mset hs"
| "replay_event (BlockRemoved hs _) M = M - mset hs"
| "replay_event AllBlocksCleared M = {#}"

definition hash_bag :: "bool \<Rightarrow> bytes option \<Rightarrow> ExternalBlockHash multiset" where
  "hash_bag use_int h = (case h of None \<Rightarrow> {#}
     | Some k \<Rightarrow> {#maybe_convert_block_hash use_int (get_block_hash k)#})"

definition cached_hashes :: "bool \<Rightarrow> block_pool \<Rightarrow> ExternalBlockHash multiset" where
  "cached_hashes use_int s = (\<Sum>p \<in> real_blocks s. hash_bag use_int (block_hash (heap s p)))"

definition logged :: "bool \<Rightarrow> block_pool \<Rightarrow> block_pool \<Rightarrow> bool" where
  "logged use_int s s' \<longleftrightarrow> (\<exists>evs. kv_event_queue s' = kv_event_queue s @ evs
     \<and> (enable_kv_cache_events s \<longrightarrow> cached_hashes use_int s' = fold replay_event evs (cached_hashes use_int s))
     \<and> (\<not> enable_kv_cache_events s \<longrightarrow> evs = []))"

lemma finite_real_blocks [simp]: "finite (real_blocks s)"
proof -
  have "{i. 0 < i \<and> int i < num_gpu_blocks s} \<subseteq> {..<nat (num_gpu_blocks s)}" by auto
  then show ?thesis unfolding real_blocks_def by (blast intro: finite_imageI finite_subset)
qed

lemma cached_hashes_cong:
  "real_blocks s' = real_blocks s \<Longrightarrow> (\<And>p. p \<in> real_blocks s \<Longrightarrow> block_hash (heap s' p) = block_hash (heap s p)) \<Longrightarrow>
   cached_hashes use_int s' = cached_hashes use_int s"
  by (simp add: cached_hashes_def)

lemma cached_hashes_upd:
  assumes "real_blocks s' = real_blocks s" and "p \<in> real_blocks s"
    and "\<And>q. q \<noteq> p \<Longrightarrow> block_hash (heap s' q) = block_hash (heap s q)"
  shows "cached_hashes use_int s' + hash_bag use_int (block_hash (heap s p))
    = cached_hashes use_int s + hash_bag use_int (block_hash (heap s' p))"
proof -
  have "(\<Sum>q \<in> real_blocks s - {p}. hash_bag use_int (block_hash (heap s' q)))
      = (\<Sum>q \<in> real_blocks s - {p}. hash_bag use_int (block_hash (heap s q)))"
    by (rule sum.cong) (use assms in auto)
  then show ?thesis
    unfolding cached_hashes_def assms(1)
    by (simp add: sum.remove [OF finite_real_blocks assms(2)] ac_simps)
qed

lemma logged_quiet:
  assumes "kv_event_queue s' = kv_event_queue s" and "real_blocks s' = real_blocks s"
    and "\<And>p. p \<in> real_blocks s \<Longrightarrow> block_hash (heap s' p) = block_hash (heap s p)"
  shows "logged use_int s s'"
  using assms cached_hashes_cong [of s' s use_int] by (auto simp: logged_def)

lemma logged_trans:
  assumes "logged use_int s t" and "logged use_int t u"
    and "enable_kv_cache_events t = enable_kv_cache_events s"
  shows "logged use_int s u"
proof -
  obtain e1 where e1: "kv_event_queue t = kv_event_queue s @ e1"
     "enable_kv_cache_events s \<longrightarrow> cached_hashes use_int t = fold replay_event e1 (cached_hashes use_int s)"
     "\<not> enable_kv_cache_events s \<longrightarrow> e1 = []"
    using assms(1) unfolding logged_def by blast
  obtain e2 where e2: "kv_event_queue u = kv_event_queue t @ e2"
     "enable_kv_cache_events t \<longrightarrow> cached_hashes use_int u = fold replay_event e2 (cached_hashes use_int t)"
     "\<not> enable_kv_cache_events t \<longrightarrow> e2 = []"
    using assms(2) unfolding logged_def by blast
  show ?thesis
    unfolding logged_def by (rule exI [of _ "e1 @ e2"]) (use e1 e2 assms(3) in simp)
qed

lemma meta_logged: "meta s' = meta s \<Longrightarrow> logged use_int s s'"
  using meta_fields(3,11) [of s' s] meta_invariants(1) [of s' s] by (intro logged_quiet) simp_all

subsection \<open>Eviction of one block\<close>

lemma maybe_evict_ok:
  assumes st: "static_ok s" and ok: "cache_ok s" and p: "p \<in> set (blocks s)"
  shows "\<exists>s'. maybe_evict_cached_block use_int p s = (s', block_hash (heap s p) \<noteq> None)
     \<and> cache_ok s' \<and> same_config s s' \<and> same_links s s' \<and> logged use_int s s'
     \<and> (\<forall>q. ref_cnt (heap s' q) = ref_cnt (heap s q))
     \<and> (\<forall>q. block_hash (heap s' q) = (if q = p then None else block_hash (heap s q)))"
proof (cases "block_hash (heap s p)")
  case None
  then show ?thesis
    using ok by (auto simp: maybe_evict_cached_block_def logged_quiet)
next
  case (Some k)
  let ?m = "cached_block_hash_to_block s"
  have p_real: "p \<in> real_blocks s" using p Some ok st by (auto simp: in_blocks cache_ok_def)
  have m: "map_ok (heap s) (real_blocks s) ?m" using ok by (simp add: cache_ok_def)
  have "p \<in> set (entries_at ?m k)" using ok p_real Some by (simp add: cache_ok_def)
  from pop_block_ok [OF m this] obtain m' where m':
    "pop_block (heap s) k (block_id (heap s p)) ?m = (m', Some p)" "map_ok (heap s) (real_blocks s) m'"
    "\<And>k'. set (entries_at m' k') = (if k' = k then set (entries_at ?m k) - {p} else set (entries_at ?m k'))"
    by auto
  define s' where "s' = add_event (BlockRemoved [maybe_convert_block_hash use_int (get_block_hash k)] MEDIUM_GPU)
      (reset_hash p (s\<lparr>cached_block_hash_to_block := m'\<rparr>))"
  have run: "maybe_evict_cached_block use_int p s = (s', True)"
    using Some m'(1) by (simp add: maybe_evict_cached_block_def s'_def)
  have h: "heap s' q = (if q = p then (heap s p)\<lparr>block_hash := None\<rparr> else heap s q)" for q
    by (simp add: s'_def reset_hash_def)
  have cfg: "same_config s s'" by (auto simp: same_config_def h) (simp_all add: s'_def reset_hash_def)
  have lk: "same_links s s'" by (auto simp: same_links_def h) (simp add: s'_def reset_hash_def)
  note rb = same_config_ok(2) [OF cfg]
  have "map_ok (heap s') (real_blocks s') m'"
    using m'(2) map_ok_cong [of "heap s'" "heap s"] by (simp add: h rb)
  moreover have "set (entries_at m' k') = {q \<in> real_blocks s'. block_hash (heap s' q) = Some k'}" for k'
    using m'(3) [of k'] ok Some by (auto simp: cache_ok_def rb h)
  moreover have "cached_block_hash_to_block s' = m'" by (simp add: s'_def reset_hash_def)
  moreover have "block_hash (heap s' (Blk 0)) = None" using ok by (simp add: cache_ok_def h)
  ultimately have "cache_ok s'" by (simp add: cache_ok_def)
  moreover have "logged use_int s s'"
  proof -
    have "cached_hashes use_int s = cached_hashes use_int s' + hash_bag use_int (Some k)"
      using cached_hashes_upd [OF rb p_real, of use_int] Some by (simp add: h hash_bag_def)
    then show ?thesis unfolding logged_def
      by (intro exI [of _ "if enable_kv_cache_events s then
            [BlockRemoved [maybe_convert_block_hash use_int (get_block_hash k)] MEDIUM_GPU] else []"])
        (simp add: s'_def reset_hash_def hash_bag_def)
  qed
  ultimately show ?thesis using run cfg lk Some by (auto simp: h)
qed


subsection \<open>Allocation\<close>

lemma incr_ref_effect:
  "cache_ok (incr_ref p s) = cache_ok s" "same_config s (incr_ref p s)" "same_links s (incr_ref p s)"
  "kv_event_queue (incr_ref p s) = kv_event_queue s"
  "block_hash (heap (incr_ref p s) q) = block_hash (heap s q)"
  "ref_cnt (heap (incr_ref p s) q) = ref_cnt (heap s q) + (if q = p then 1 else 0)"
proof -
  have rb: "real_blocks (incr_ref p s) = real_blocks s" by (simp add: real_blocks_def incr_ref_def)
  have "map_ok (heap (incr_ref p s)) A m = map_ok (heap s) A m" for A m
    by (rule map_ok_cong) (simp add: incr_ref_def)
  moreover have bh: "block_hash (heap (incr_ref p s) q) = block_hash (heap s q)" for q by (simp add: incr_ref_def)
  moreover have "cached_block_hash_to_block (incr_ref p s) = cached_block_hash_to_block s" by (simp add: incr_ref_def)
  ultimately show "cache_ok (incr_ref p s) = cache_ok s" by (simp add: cache_ok_def rb)
  show "block_hash (heap (incr_ref p s) q) = block_hash (heap s q)" by (rule bh)
qed (simp_all add: same_config_def same_links_def incr_ref_def)

text \<open>Every block of \<open>ps\<close> gained a reference and lost its hash when caching is on.\<close>

definition alloc_effect :: "bool \<Rightarrow> ptr list \<Rightarrow> block_pool \<Rightarrow> block_pool \<Rightarrow> bool" where
  "alloc_effect use_int ps s s' \<longleftrightarrow> cache_ok s' \<and> same_config s s' \<and> logged use_int s s'
     \<and> (\<forall>q. ref_cnt (heap s' q) = ref_cnt (heap s q) + (if q \<in> set ps then 1 else 0))
     \<and> (\<forall>q. block_hash (heap s' q) = (if q \<in> set ps \<and> enable_caching s then None else block_hash (heap s q)))"

lemma alloc_step_ok:
  assumes "static_ok s" and "cache_ok s" and "p \<in> set (blocks s)" and "ref_cnt (heap s p) = 0"
  shows "\<exists>s'. alloc_step use_int p s = Inr s' \<and> alloc_effect use_int [p] s s' \<and> same_links s s'"
proof -
  define t where "t = (if enable_caching s then fst (maybe_evict_cached_block use_int p s) else s)"
  have t: "cache_ok t" "same_config s t" "same_links s t" "logged use_int s t"
    "\<And>q. ref_cnt (heap t q) = ref_cnt (heap s q)"
    "\<And>q. block_hash (heap t q) = (if q = p \<and> enable_caching s then None else block_hash (heap s q))"
    using maybe_evict_ok [OF assms(1-3), of use_int] assms(2)
    by (auto simp: t_def logged_quiet split: if_splits)
  note i = incr_ref_effect [where s = t and p = p]
  have "alloc_step use_int p s = Inr (incr_ref p t)"
    using t(5) assms(4) by (simp add: alloc_step_def t_def [symmetric] Let_def)
  moreover have "logged use_int s (incr_ref p t)"
    using t(2,4) i by (auto intro!: logged_trans [OF t(4)] logged_quiet simp: same_config_ok)
  ultimately show ?thesis
    using t i same_config_trans [OF t(2) i(2)] same_links_trans [OF t(3) i(3)]
    by (auto simp: alloc_effect_def)
qed

lemma alloc_effect_trans:
  assumes "alloc_effect use_int ps s t" and "alloc_effect use_int qs t u" and "set ps \<inter> set qs = {}"
  shows "alloc_effect use_int (ps @ qs) s u"
proof -
  have cfg: "same_config s t" "same_config t u" using assms by (simp_all add: alloc_effect_def)
  note c = same_config_ok [OF cfg(1)]
  have "logged use_int s u"
    by (rule logged_trans [of _ _ t]) (use assms c in \<open>simp_all add: alloc_effect_def\<close>)
  then show ?thesis
    using assms c same_config_trans [OF cfg] unfolding alloc_effect_def by auto
qed

lemma alloc_fold:
  assumes "static_ok s" and "cache_ok s" and "distinct ps" and "set ps \<subseteq> set (blocks s)"
    and "\<forall>p \<in> set ps. ref_cnt (heap s p) = 0"
  shows "\<exists>s'. foldE (alloc_step use_int) ps s = Inr s' \<and> alloc_effect use_int ps s s' \<and> same_links s s'"
  using assms
proof (induction ps arbitrary: s)
  case Nil
  then show ?case by (simp add: alloc_effect_def logged_quiet)
next
  case (Cons p ps)
  from alloc_step_ok [of s p use_int] Cons.prems obtain t where
    t: "alloc_step use_int p s = Inr t" "alloc_effect use_int [p] s t" "same_links s t" by auto
  then have cfg: "same_config s t" "cache_ok t" by (simp_all add: alloc_effect_def)
  have "\<exists>s'. foldE (alloc_step use_int) ps t = Inr s' \<and> alloc_effect use_int ps t s' \<and> same_links t s'"
    using Cons.prems t(2) by (intro Cons.IH) (auto simp: cfg same_config_ok [OF cfg(1)] alloc_effect_def)
  then obtain u where u: "foldE (alloc_step use_int) ps t = Inr u" "alloc_effect use_int ps t u" "same_links t u"
    by blast
  show ?case
    using t(1) u(1) alloc_effect_trans [OF t(2) u(2)] same_links_trans [OF t(3) u(3)] Cons.prems(3) by simp
qed

text \<open>
  Allocation takes the first \<open>n\<close> free blocks, gives each its first reference, and drops their
  cached contents.
\<close>

lemma get_new_blocks_ok:
  assumes rel: "pool_rel s xs" and n: "0 \<le> n" "n \<le> num_free_blocks s"
  shows "\<exists>s'. get_new_blocks use_int n s = Inr (s', take (nat n) xs) \<and> pool_rel s' (drop (nat n) xs)
     \<and> alloc_effect use_int (take (nat n) xs) s s'"
proof -
  note r = pool_relD [OF rel]
  have len: "n \<le> int (length xs)" using n fq_rel_num [OF r(1)] by simp
  obtain t where t: "popleft_n n s = Inr (t, take (nat n) xs)" "fq_rel t (drop (nat n) xs)" "meta t = meta s"
    using popleft_n_refines [OF r(1) n(1) len] by blast
  let ?ps = "take (nat n) xs"
  have d: "distinct xs" using r(1) by (rule fq_rel_distinct)
  have sub: "set ?ps \<subseteq> set xs" by (rule set_take_subset)
  have t_ok: "static_ok t" "cache_ok t" using r meta_invariants [OF t(3)] by auto
  have refs: "\<forall>p \<in> set ?ps. ref_cnt (heap t p) = 0" "set ?ps \<subseteq> set (blocks t)"
    using r(4) sub meta_fields(2) [OF t(3)] meta_invariants(1) [OF t(3)]
    by (auto simp: refs_ok_def in_blocks [OF t_ok(1)])
  obtain u where u: "foldE (alloc_step use_int) ?ps t = Inr u" "alloc_effect use_int ?ps t u" "same_links t u"
    using alloc_fold [OF t_ok _ refs(2,1)] d by (metis distinct_take)
  have cfg: "same_config t u" using u(2) by (simp add: alloc_effect_def)
  have step: "alloc_effect use_int ?ps s u"
  proof -
    have "alloc_effect use_int [] s t"
      using t_ok meta_fields [OF t(3)] meta_same_config [OF t(3)] meta_logged [OF t(3)] by (simp add: alloc_effect_def)
    from alloc_effect_trans [OF this u(2)] show ?thesis by simp
  qed
  have "refs_ok u (drop (nat n) xs)"
  proof -
    have "set (drop (nat n) xs) = set xs - set ?ps"
      using d by (metis append_take_drop_id distinct_append set_append Diff_cancel Diff_triv Un_Diff Int_commute sup_bot_left)
    then show ?thesis
      using r(4) step same_config_ok(2) [of s u] unfolding refs_ok_def alloc_effect_def by auto
  qed
  moreover have "fq_rel u (drop (nat n) xs)" using t(2) same_links_rel [OF u(3)] by simp
  moreover have "static_ok u" "cache_ok u"
    using t_ok(1) same_config_ok(1) [OF cfg] u(2) by (simp_all add: alloc_effect_def)
  moreover have "get_new_blocks use_int n s = Inr (u, ?ps)"
    using n(2) t(1) u(1) by (simp add: get_new_blocks_def)
  ultimately show ?thesis using step by (simp add: pool_rel_def)
qed

lemma get_new_blocks_error: "n > num_free_blocks s \<Longrightarrow> get_new_blocks use_int n s = Inl ValueError"
  by (simp add: get_new_blocks_def)


subsection \<open>Sharing and freeing\<close>

lemma distinct_count_list_1: "distinct xs \<Longrightarrow> x \<in> set xs \<Longrightarrow> count_list xs x = 1"
  by (induction xs) (auto simp: count_list_0_iff)

lemma pool_rel_step:
  assumes "pool_rel s xs" and "meta t = meta s" and "fq_rel t ys"
    and "cache_ok u = cache_ok t" and "same_config t u" and "same_links t u" and "refs_ok u ys"
  shows "pool_rel u ys"
proof -
  have "static_ok u" "cache_ok u"
    using assms(1,4) meta_invariants(2,3) [OF assms(2)] same_config_ok(1) [OF assms(5)]
    by (simp_all add: pool_rel_def)
  moreover have "fq_rel u ys" using assms(3) same_links_rel [OF assms(6)] by simp
  ultimately show ?thesis using assms(7) by (simp add: pool_rel_def)
qed

text \<open>\<open>shifted f s s'\<close>: references moved by \<open>f\<close>, hashes and events stayed.\<close>

definition shifted :: "(ptr \<Rightarrow> int) \<Rightarrow> block_pool \<Rightarrow> block_pool \<Rightarrow> bool" where
  "shifted f s s' \<longleftrightarrow> same_config s s' \<and> kv_event_queue s' = kv_event_queue s
     \<and> cached_block_hash_to_block s' = cached_block_hash_to_block s
     \<and> (\<forall>q. block_hash (heap s' q) = block_hash (heap s q) \<and> ref_cnt (heap s' q) = ref_cnt (heap s q) + f q)"

lemma shifted_trans:
  "shifted f s t \<Longrightarrow> shifted g t u \<Longrightarrow> (\<And>q. h q = f q + g q) \<Longrightarrow> shifted h s u"
  unfolding shifted_def using same_config_trans by auto

lemma shifted_logged: "shifted f s s' \<Longrightarrow> logged use_int s s'"
  by (auto simp: shifted_def intro!: logged_quiet same_config_ok)

lemma meta_shifted: "meta t = meta s \<Longrightarrow> shifted (\<lambda>_. 0) s t"
  using meta_fields [of t s] meta_same_config [of t s] by (simp add: shifted_def)

lemma incr_shifted: "shifted (\<lambda>q. if q = p then 1 else 0) s (incr_ref p s)"
  unfolding shifted_def using incr_ref_effect [where p = p and s = s] by (simp add: incr_ref_def)

lemma touch_step_ok:
  assumes rel: "pool_rel s xs" and p: "p \<in> set (blocks s)"
  shows "\<exists>s'. touch_step p s = Inr s' \<and> pool_rel s' (removeAll p xs)
     \<and> shifted (\<lambda>q. if q = p then 1 else 0) s s'"
proof -
  note r = pool_relD [OF rel]
  have free: "ref_cnt (heap s p) = 0 \<and> \<not> is_null (heap s p) \<longleftrightarrow> p \<in> set xs"
    using r p in_blocks_null [OF r(2) p] by (auto simp: refs_ok_def)
  have "\<exists>t. (if p \<in> set xs then remove p s else Inr s) = Inr t \<and> fq_rel t (removeAll p xs) \<and> meta t = meta s"
  proof (cases "p \<in> set xs")
    case True
    then show ?thesis
      using remove_refines [OF r(1) True] distinct_remove1_removeAll [OF fq_rel_distinct [OF r(1)]] by simp
  qed (simp add: r(1))
  then obtain t where t: "(if p \<in> set xs then remove p s else Inr s) = Inr t"
    "fq_rel t (removeAll p xs)" "meta t = meta s" by blast
  let ?u = "incr_ref p t"
  have sh: "shifted (\<lambda>q. if q = p then 1 else 0) s ?u"
    by (rule shifted_trans [OF meta_shifted [OF t(3)] incr_shifted]) simp
  have "refs_ok ?u (removeAll p xs)"
    using r(4) sh same_config_ok(2) [of s ?u]
    by (fastforce simp: refs_ok_def shifted_def)
  then have "pool_rel ?u (removeAll p xs)"
    by (intro pool_rel_step [OF rel t(3,2)] incr_ref_effect)
  moreover have "touch_step p s = Inr ?u" using t(1) by (simp add: touch_step_def free)
  ultimately show ?thesis using sh by blast
qed

lemma shifted_config: "shifted f s s' \<Longrightarrow> same_config s s'"
  by (simp add: shifted_def)

lemma touch_ok:
  assumes "pool_rel s xs" and "set ps \<subseteq> set (blocks s)"
  shows "\<exists>s'. touch ps s = Inr s' \<and> pool_rel s' (filter (\<lambda>p. p \<notin> set ps) xs)
     \<and> shifted (\<lambda>q. int (count_list ps q)) s s'"
  using assms
proof (induction ps arbitrary: s xs)
  case Nil
  then show ?case by (simp add: touch_def shifted_def)
next
  case (Cons p ps)
  obtain t where t: "touch_step p s = Inr t" "pool_rel t (removeAll p xs)"
      "shifted (\<lambda>q. if q = p then 1 else 0) s t"
    using touch_step_ok [OF Cons.prems(1)] Cons.prems(2) by auto
  obtain u where u: "touch ps t = Inr u" "pool_rel u (filter (\<lambda>q. q \<notin> set ps) (removeAll p xs))"
      "shifted (\<lambda>q. int (count_list ps q)) t u"
    using Cons.IH [OF t(2)] Cons.prems(2) same_config_ok(3) [OF shifted_config [OF t(3)]] by auto
  have "shifted (\<lambda>q. int (count_list (p # ps) q)) s u"
    by (rule shifted_trans [OF t(3) u(3)]) auto
  moreover have "filter (\<lambda>q. q \<notin> set ps) (removeAll p xs) = filter (\<lambda>q. q \<notin> set (p # ps)) xs"
    by (simp add: removeAll_filter_not_eq) (rule filter_cong, auto)
  moreover have "touch (p # ps) s = Inr u" using t(1) u(1) by (simp add: touch_def)
  ultimately show ?case using u(2) by metis
qed

lemma fold_decr_ref:
  "shifted (\<lambda>q. - int (count_list ps q)) s (fold decr_ref ps s) \<and> same_links s (fold decr_ref ps s)"
proof (induction ps arbitrary: s)
  case (Cons p ps)
  have "shifted (\<lambda>q. if q = p then -1 else 0) s (decr_ref p s)" "same_links s (decr_ref p s)"
    by (auto simp: shifted_def same_config_def same_links_def decr_ref_def)
  with Cons.IH [of "decr_ref p s"] show ?case
    by (auto intro: same_links_trans shifted_trans [where t = "decr_ref p s"])
qed (simp add: shifted_def)

lemma shifted_cache_ok:
  assumes "shifted f s s'"
  shows "cache_ok s' = cache_ok s"
proof -
  have "map_ok (heap s') A m = map_ok (heap s) A m" for A m
    by (rule map_ok_cong) (use assms in \<open>simp add: shifted_def same_config_def\<close>)
  then show ?thesis using assms same_config_ok(2) [of s s'] by (simp add: cache_ok_def shifted_def)
qed

text \<open>
  Freeing: every listed block loses a reference; those that lose their last one go to the end of
  the eviction order, in the order given.
\<close>

lemma free_blocks_ok:
  assumes rel: "pool_rel s xs" and ps: "set ps \<subseteq> set (blocks s)"
    and d: "distinct (filter (\<lambda>p. p \<in> real_blocks s) ps)"
    and refs: "\<forall>p \<in> set ps \<inter> real_blocks s. 0 < ref_cnt (heap s p)"
  shows "\<exists>s'. free_blocks ps s = Inr s'
     \<and> pool_rel s' (xs @ filter (\<lambda>p. p \<in> real_blocks s \<and> ref_cnt (heap s p) = 1) ps)
     \<and> shifted (\<lambda>q. - int (count_list ps q)) s s'"
proof -
  note r = pool_relD [OF rel]
  define t where "t = fold decr_ref ps s"
  have t: "shifted (\<lambda>q. - int (count_list ps q)) s t" "same_links s t"
    using fold_decr_ref by (simp_all add: t_def)
  have one: "count_list ps p = 1" if "p \<in> set ps" "p \<in> real_blocks s" for p
  proof -
    have "count_list ps p = count_list (filter (\<lambda>p. p \<in> real_blocks s) ps) p"
      using that(2) by (induction ps) auto
    also have "\<dots> = 1"
      using that distinct_count_list_1 [OF d] by simp
    finally show ?thesis .
  qed
  let ?new = "filter (\<lambda>p. p \<in> real_blocks s \<and> ref_cnt (heap s p) = 1) ps"
  have sel: "filter (\<lambda>p. ref_cnt (heap t p) = 0 \<and> \<not> is_null (heap t p)) ps = ?new"
  proof (rule filter_cong [OF refl])
    fix p assume p: "p \<in> set ps"
    have "is_null (heap t p) \<longleftrightarrow> p \<notin> real_blocks s"
      using in_blocks_null(2) [OF r(2), of p] p ps same_config_ok(6) [OF shifted_config [OF t(1)], of p]
      by auto
    moreover have "ref_cnt (heap t p) = ref_cnt (heap s p) - int (count_list ps p)"
      using t(1) by (simp add: shifted_def)
    ultimately show "(ref_cnt (heap t p) = 0 \<and> \<not> is_null (heap t p))
        = (p \<in> real_blocks s \<and> ref_cnt (heap s p) = 1)"
      using one [OF p] by auto
  qed
  have real: "set ?new \<subseteq> range Blk" by (auto simp: real_blocks_def)
  have "distinct ?new" using distinct_filter [OF d, of "\<lambda>p. ref_cnt (heap s p) = 1"] by simp
  moreover have "set ?new \<inter> set xs = {}" using r(4) by (auto simp: refs_ok_def)
  ultimately obtain u where u: "append_n ?new t = Inr u" "fq_rel u (xs @ ?new)" "meta u = meta t"
    using append_n_refines [of t xs ?new] r(1) same_links_rel [OF t(2)] real by auto
  have sh: "shifted (\<lambda>q. - int (count_list ps q)) s u"
    by (rule shifted_trans [OF t(1) meta_shifted [OF u(3)]]) simp
  have rb: "real_blocks u = real_blocks s" using sh by (simp add: shifted_def same_config_ok)
  have ref: "ref_cnt (heap u p) = ref_cnt (heap s p) - (if p \<in> set ps then 1 else 0)" if "p \<in> real_blocks s" for p
    using sh that one [of p] by (auto simp: shifted_def)
  have nonneg: "0 \<le> ref_cnt (heap s p)" if "p \<in> real_blocks s" for p using r(4) that by (simp add: refs_ok_def)
  have free: "p \<in> set xs \<longleftrightarrow> p \<in> real_blocks s \<and> ref_cnt (heap s p) = 0" for p
    using r(4) by (simp add: refs_ok_def)
  have pos: "0 < ref_cnt (heap s p)" if "p \<in> real_blocks s" "p \<in> set ps" for p using refs that by blast
  have "p \<in> set (xs @ ?new) \<longleftrightarrow> p \<in> real_blocks s \<and> ref_cnt (heap u p) = 0" for p
    using ref [of p] pos [of p] free [of p] by (auto split: if_splits)
  moreover have "0 \<le> ref_cnt (heap u p)" if "p \<in> real_blocks s" for p
    using ref [OF that] pos [OF that] nonneg [OF that] by (cases "p \<in> set ps") auto
  ultimately have "refs_ok u (xs @ ?new)" by (auto simp: refs_ok_def rb)
  moreover have "static_ok u" "cache_ok u"
    using r sh shifted_cache_ok [OF sh] same_config_ok(1) [of s u] by (simp_all add: shifted_def)
  ultimately show ?thesis
    using u(1,2) sh sel by (simp add: free_blocks_def t_def [symmetric] pool_rel_def)
qed


subsection \<open>Caching full blocks\<close>

lemma make_key_hash: "make_block_hash_with_group_id h g = Inr k \<Longrightarrow> get_block_hash k = h"
  by (auto simp: make_block_hash_with_group_id_def get_block_hash_def slice_def slice_bound_def
      dest: to_bytes4_length elim!: bindE_InrE)

text \<open>Only hashes and the map change, coherently.\<close>

definition hash_effect :: "block_pool \<Rightarrow> block_pool \<Rightarrow> bool" where
  "hash_effect s s' \<longleftrightarrow> cache_ok s' \<and> same_config s s' \<and> same_links s s'
     \<and> kv_event_queue s' = kv_event_queue s \<and> (\<forall>q. ref_cnt (heap s' q) = ref_cnt (heap s q))"

lemma hash_effect_trans: "hash_effect s t \<Longrightarrow> hash_effect t u \<Longrightarrow> hash_effect s u"
  unfolding hash_effect_def using same_config_trans same_links_trans by metis

definition cache_block :: "bytes \<Rightarrow> ptr \<Rightarrow> block_pool \<Rightarrow> block_pool" where
  "cache_block key p s = (let s = upd (\<lambda>b. b\<lparr>block_hash := Some key\<rparr>) p s
     in s\<lparr>cached_block_hash_to_block := insert_block (heap s) key p (cached_block_hash_to_block s)\<rparr>)"

lemma cache_block_ok:
  assumes ok: "cache_ok s" and p: "p \<in> real_blocks s" and none: "block_hash (heap s p) = None"
  shows "hash_effect s (cache_block key p s)"
    and "block_hash (heap (cache_block key p s) q) = (if q = p then Some key else block_hash (heap s q))"
    and "cached_hashes use_int (cache_block key p s) =
           cached_hashes use_int s + hash_bag use_int (Some key)"
proof -
  let ?t = "upd (\<lambda>b. b\<lparr>block_hash := Some key\<rparr>) p s" and ?u = "cache_block key p s"
  let ?m = "cached_block_hash_to_block s"
  have h: "heap ?u q = (if q = p then (heap s p)\<lparr>block_hash := Some key\<rparr> else heap s q)" for q
    by (simp add: cache_block_def Let_def)
  have cfg: "same_config s ?u" by (auto simp: same_config_def h) (simp_all add: cache_block_def Let_def)
  have lk: "same_links s ?u" by (auto simp: same_links_def h) (simp add: cache_block_def Let_def)
  note rb = same_config_ok(2) [OF cfg]
  have ids: "map_ok h' A m = map_ok (heap s) A m" if "\<And>q. block_id (h' q) = block_id (heap s q)" for h' A m
    by (rule map_ok_cong) (rule that)
  have m: "map_ok (heap ?t) (real_blocks s) ?m" using ok ids [of "heap ?t"] by (simp add: cache_ok_def)
  note ins = insert_block_ok [OF m p, of key]
  have m': "cached_block_hash_to_block ?u = insert_block (heap ?t) key p ?m" by (simp add: cache_block_def Let_def)
  have "set (entries_at (insert_block (heap ?t) key p ?m) k) = {q \<in> real_blocks s. block_hash (heap ?u q) = Some k}" for k
    using ins(2) [of k] ok p none by (auto simp: cache_ok_def h)
  moreover have "map_ok (heap ?u) (real_blocks s) (insert_block (heap ?t) key p ?m)"
    using ins(1) ids [of "heap ?t"] ids [of "heap ?u"] by (simp add: h)
  moreover have "block_hash (heap ?u (Blk 0)) = None"
    using ok p by (auto simp: cache_ok_def h real_blocks_def)
  ultimately have "cache_ok ?u" by (simp add: cache_ok_def rb m')
  then show "hash_effect s ?u" using cfg lk by (simp add: hash_effect_def h) (simp add: cache_block_def Let_def)
  show "block_hash (heap ?u q) = (if q = p then Some key else block_hash (heap s q))" by (simp add: h)
  show "cached_hashes use_int ?u = cached_hashes use_int s + hash_bag use_int (Some key)"
    using cached_hashes_upd [OF rb p, of use_int] none by (simp add: h hash_bag_def)
qed

lemma cache_block_step_eq:
  assumes "static_ok s" and "p \<in> set (blocks s)"
  shows "cache_block_step use_int g hs (i, p) (s, acc) =
    (if p \<notin> real_blocks s then Inr (s, acc)
     else assertE (block_hash (heap s p) = None)
       (bindE (index_py hs i) (\<lambda>h. bindE (make_block_hash_with_group_id h g) (\<lambda>key.
          Inr (cache_block key p s,
               if enable_kv_cache_events s then acc @ [maybe_convert_block_hash use_int h] else acc)))))"
  using in_blocks_null(2) [OF assms]
  by (cases "block_hash (heap s p)")
    (simp_all add: cache_block_step_def set_block_hash_def cache_block_def Let_def cong: if_cong)

text \<open>A run of the loop keeps the invariant and collects exactly the hashes that it added.\<close>

lemma cache_loop_ok:
  assumes run: "foldE (cache_block_step use_int g hs) ips (s, []) = Inr (t, acc)"
    and ok: "static_ok s" "cache_ok s" and sub: "snd ` set ips \<subseteq> set (blocks s)"
  shows "hash_effect s t" and "enable_kv_cache_events s \<Longrightarrow> cached_hashes use_int t = cached_hashes use_int s + mset acc"
proof -
  define P where "P = (\<lambda>(u, acc). hash_effect s u
     \<and> (enable_kv_cache_events s \<longrightarrow> cached_hashes use_int u = cached_hashes use_int s + mset acc))"
  have "P (t, acc)"
  proof (rule foldE_invariant [OF run])
    show "P (s, [])" using ok by (simp add: P_def hash_effect_def)
  next
    fix ip and u u' :: "block_pool \<times> ExternalBlockHash list"
    assume ip: "ip \<in> set ips" and u: "P u" and step: "cache_block_step use_int g hs ip u = Inr u'"
    obtain i p where [simp]: "ip = (i, p)" by force
    obtain v a where [simp]: "u = (v, a)" by force
    have v: "hash_effect s v" using u by (simp add: P_def)
    then have cfg: "same_config s v" "cache_ok v" by (simp_all add: hash_effect_def)
    note c = same_config_ok [OF cfg(1)]
    have p: "static_ok v" "p \<in> set (blocks v)" using ip sub ok(1) by (auto simp: c)
    show "P u'"
    proof (cases "p \<in> real_blocks v")
      case False
      with step u show ?thesis by (simp add: cache_block_step_eq [OF p])
    next
      case True
      with step obtain h key where k: "block_hash (heap v p) = None"
        "make_block_hash_with_group_id h g = Inr key"
        "u' = (cache_block key p v, if enable_kv_cache_events v then a @ [maybe_convert_block_hash use_int h] else a)"
        by (auto simp: cache_block_step_eq [OF p] elim!: bindE_InrE)
      note cb = cache_block_ok [OF cfg(2) True k(1)]
      show ?thesis
        using u hash_effect_trans [OF v cb(1)] cb(3) make_key_hash [OF k(2)]
        by (auto simp: P_def k(3) c hash_bag_def)
    qed
  qed
  then show "hash_effect s t" "enable_kv_cache_events s \<Longrightarrow> cached_hashes use_int t = cached_hashes use_int s + mset acc"
    by (simp_all add: P_def)
qed

lemma hash_effect_rel:
  assumes "hash_effect s t" and "pool_rel s xs"
  shows "pool_rel t xs"
proof -
  have cfg: "same_config s t" "same_links s t" "cache_ok t" using assms(1) by (simp_all add: hash_effect_def)
  have "refs_ok t xs"
    using assms by (simp add: hash_effect_def pool_rel_def refs_ok_def same_config_ok [OF cfg(1)])
  then show ?thesis
    using assms(2) cfg same_links_rel [OF cfg(2)] same_config_ok [OF cfg(1)] by (simp add: pool_rel_def)
qed


lemma add_event_config:
  "pool_rel (add_event e t) xs = pool_rel t xs" "same_config t (add_event e t)"
proof -
  have "real_blocks (add_event e t) = real_blocks t" by (simp add: real_blocks_def)
  moreover have "fq_rel (add_event e t) xs = fq_rel t xs" by (rule fq_rel_cong) simp_all
  ultimately show "pool_rel (add_event e t) xs = pool_rel t xs"
    by (simp add: pool_rel_def static_ok_def cache_ok_def refs_ok_def)
  show "same_config t (add_event e t)" by (simp add: same_config_def)
qed

lemma set_slice: "set (slice xs i j) \<subseteq> set xs"
  unfolding slice_def by (meson order_trans set_drop_subset set_take_subset)

lemma cache_full_blocks_ok:
  assumes run: "cache_full_blocks use_int r bls nc nf bs g s = Inr s'"
    and rel: "pool_rel s xs" and sub: "set bls \<subseteq> set (blocks s)"
  shows "pool_rel s' xs \<and> same_config s s' \<and> logged use_int s s'
     \<and> (\<forall>q. ref_cnt (heap s' q) = ref_cnt (heap s q))"
proof (cases "nc \<ge> nf")
  case True
  with run rel show ?thesis by (simp add: cache_full_blocks_def logged_quiet)
next
  case False
  let ?ips = "zip [0..int (length (slice bls nc nf)) - 1] (slice bls nc nf)"
  from run False obtain hs t acc parent where
    loop: "foldE (cache_block_step use_int g hs) ?ips (s, []) = Inr (t, acc)"
    and rest: "(if \<not> enable_kv_cache_events t then Inr t
      else bindE (if nc = 0 then Inr None
             else bindE parent (\<lambda>h. Inr (Some (maybe_convert_block_hash use_int h)))) (\<lambda>par.
        Inr (add_event (BlockStored acc par (slice (all_token_ids r) (nc * bs) (nf * bs)) bs
          (map_option lora_int_id (lora_request r)) MEDIUM_GPU
          (map_option lora_name (lora_request r))) t))) = Inr s'"
    unfolding cache_full_blocks_def Let_def by (auto simp del: bindE.simps elim!: bindE_InrE)
  have s': "s' = t \<and> \<not> enable_kv_cache_events t
       \<or> enable_kv_cache_events t \<and> (\<exists>par toks l1 l2. s' = add_event (BlockStored acc par toks bs l1 MEDIUM_GPU l2) t)"
    using rest by (auto elim!: bindE_InrE split: if_splits)
  have "snd ` set ?ips \<subseteq> set (slice bls nc nf)" by (auto dest: set_zip_rightD)
  then have "snd ` set ?ips \<subseteq> set (blocks s)" using set_slice [of bls nc nf] sub by blast
  note L = cache_loop_ok [OF loop pool_relD(2,3) [OF rel] this]
  have cfg: "same_config s t" using L(1) by (simp add: hash_effect_def)
  have ev: "enable_kv_cache_events t = enable_kv_cache_events s" using same_config_ok(5) [OF cfg] .
  obtain e where e: "s' = (if enable_kv_cache_events t then add_event e t else t)"
      "enable_kv_cache_events t \<Longrightarrow> replay_event e (cached_hashes use_int s) = cached_hashes use_int t"
    using s' L(2) by (auto simp: ev)
  have q: "kv_event_queue t = kv_event_queue s" using L(1) by (simp add: hash_effect_def)
  have bags: "cached_hashes use_int (add_event e t) = cached_hashes use_int t"
    by (rule cached_hashes_cong) (simp_all add: real_blocks_def)
  have "logged use_int s s'"
    using e bags q unfolding logged_def
    by (intro exI [of _ "if enable_kv_cache_events s then [e] else []"]) (simp add: ev)
  moreover have "pool_rel s' xs" "same_config s s'"
    using e(1) hash_effect_rel [OF L(1) rel] cfg same_config_trans [OF cfg add_event_config(2)]
    by (simp_all add: add_event_config)
  moreover have "\<forall>q. ref_cnt (heap s' q) = ref_cnt (heap s q)"
    using e(1) L(1) by (simp add: hash_effect_def)
  ultimately show ?thesis by blast
qed

text \<open>With room in the hash list and fresh blocks the loop runs through and stores every block.\<close>

lemma cache_loop_total:
  assumes "static_ok s" and "cache_ok s" and "set ps \<subseteq> set (blocks s)" and "0 \<le> g" "g < 2 ^ 32"
    and "distinct (filter (\<lambda>p. p \<in> real_blocks s) ps)"
    and "\<forall>p \<in> set ps. block_hash (heap s p) = None" and "0 \<le> k" and "nat k + length ps \<le> length hs"
  shows "\<exists>t acc'. foldE (cache_block_step use_int g hs) (zip [k..k + int (length ps) - 1] ps) (s, acc) = Inr (t, acc')
     \<and> hash_effect s t \<and> (\<forall>q. q \<notin> set ps \<longrightarrow> block_hash (heap t q) = block_hash (heap s q))
     \<and> (\<forall>j < length ps. ps ! j \<in> real_blocks s \<longrightarrow>
          make_block_hash_with_group_id (hs ! (nat k + j)) g = Inr (the (block_hash (heap t (ps ! j))))
          \<and> block_hash (heap t (ps ! j)) \<noteq> None)"
  using assms
proof (induction ps arbitrary: s acc k)
  case Nil
  then show ?case by (simp add: hash_effect_def)
next
  case (Cons p ps)
  let ?h = "hs ! nat k"
  obtain key where key: "make_block_hash_with_group_id ?h g = Inr key"
    using Cons.prems(4,5) by (auto simp: make_block_hash_with_group_id_def to_bytes4_def)
  have idx: "index_py hs k = Inr ?h" using Cons.prems(8,9) by (simp add: index_py_nonneg)
  define s1 where "s1 = (if p \<in> real_blocks s then cache_block key p s else s)"
  have p: "p \<in> set (blocks s)" "block_hash (heap s p) = None" using Cons.prems by simp_all
  have "\<exists>acc1. cache_block_step use_int g hs (k, p) (s, acc) = Inr (s1, acc1)"
    using key idx p(2) by (cases "p \<in> real_blocks s")
      (simp_all add: cache_block_step_eq [OF Cons.prems(1) p(1)] s1_def)
  then obtain acc1 where step: "cache_block_step use_int g hs (k, p) (s, acc) = Inr (s1, acc1)" ..
  have h1: "hash_effect s s1" "\<And>q. block_hash (heap s1 q) =
      (if q = p \<and> p \<in> real_blocks s then Some key else block_hash (heap s q))"
    using cache_block_ok(1,2) [OF Cons.prems(2) _ p(2), of key] Cons.prems(2)
    by (auto simp: s1_def hash_effect_def)
  have cfg: "same_config s s1" "cache_ok s1" using h1(1) by (simp_all add: hash_effect_def)
  note c = same_config_ok [OF cfg(1)]
  have null: "block_hash (heap s1 q) = None" if "q \<in> set ps" for q
    using that h1(2) [of q] Cons.prems(6,7) by (auto simp: c)
  have "\<exists>t acc'. foldE (cache_block_step use_int g hs) (zip [k + 1..k + 1 + int (length ps) - 1] ps) (s1, acc1) = Inr (t, acc')
     \<and> hash_effect s1 t \<and> (\<forall>q. q \<notin> set ps \<longrightarrow> block_hash (heap t q) = block_hash (heap s1 q))
     \<and> (\<forall>j < length ps. ps ! j \<in> real_blocks s1 \<longrightarrow>
          make_block_hash_with_group_id (hs ! (nat (k + 1) + j)) g = Inr (the (block_hash (heap t (ps ! j))))
          \<and> block_hash (heap t (ps ! j)) \<noteq> None)"
    by (rule Cons.IH) (use Cons.prems cfg null in \<open>auto simp: c split: if_splits\<close>)
  then obtain t acc' where t:
    "foldE (cache_block_step use_int g hs) (zip [k + 1..k + int (length ps)] ps) (s1, acc1) = Inr (t, acc')"
    "hash_effect s1 t" "\<And>q. q \<notin> set ps \<Longrightarrow> block_hash (heap t q) = block_hash (heap s1 q)"
    "\<And>j. j < length ps \<Longrightarrow> ps ! j \<in> real_blocks s \<Longrightarrow>
       make_block_hash_with_group_id (hs ! (nat (k + 1) + j)) g = Inr (the (block_hash (heap t (ps ! j))))
       \<and> block_hash (heap t (ps ! j)) \<noteq> None"
    by (auto simp: c)
  have up: "[k..k + int (length (p # ps)) - 1] = k # [k + 1..k + int (length ps)]"
    by (subst upto_rec1) auto
  have "foldE (cache_block_step use_int g hs) (zip [k..k + int (length (p # ps)) - 1] (p # ps)) (s, acc) = Inr (t, acc')"
    unfolding up using step t(1) by simp
  moreover have "make_block_hash_with_group_id (hs ! (nat k + j)) g = Inr (the (block_hash (heap t ((p # ps) ! j))))
          \<and> block_hash (heap t ((p # ps) ! j)) \<noteq> None"
    if j: "j < length (p # ps)" "(p # ps) ! j \<in> real_blocks s" for j
  proof (cases j)
    case 0
    then have "p \<in> real_blocks s" "p \<notin> set ps" using j Cons.prems(6) by auto
    with 0 show ?thesis using t(3) [of p] h1(2) [of p] key by simp
  next
    case (Suc i)
    with j t(4) [of i] Cons.prems(8) show ?thesis by (simp add: nat_add_distrib)
  qed
  moreover have "\<forall>q. q \<notin> set (p # ps) \<longrightarrow> block_hash (heap t q) = block_hash (heap s q)"
    using t(3) h1(2) by simp
  ultimately show ?case using hash_effect_trans [OF h1(1) t(2)] by blast
qed


subsection \<open>Lookup\<close>

definition block_with_key :: "block_pool \<Rightarrow> bytes \<Rightarrow> ptr \<Rightarrow> bool" where
  "block_with_key s key p \<longleftrightarrow> p \<in> real_blocks s \<and> block_hash (heap s p) = Some key"

lemma get_one_block_ok:
  assumes "cache_ok s"
  shows "\<exists>b. get_one_block key (cached_block_hash_to_block s) = Inr b
     \<and> (case b of None \<Rightarrow> (\<nexists>p. block_with_key s key p) | Some p \<Rightarrow> block_with_key s key p)"
proof -
  let ?es = "entries_at (cached_block_hash_to_block s) key"
  have es: "set ?es = {p. block_with_key s key p}" using assms by (simp add: cache_ok_def block_with_key_def)
  have ok: "map_ok (heap s) (real_blocks s) (cached_block_hash_to_block s)" using assms by (simp add: cache_ok_def)
  show ?thesis
  proof (cases "?es = []")
    case True
    with es show ?thesis by (simp add: get_one_block_hd [OF ok])
  next
    case False
    then have "hd ?es \<in> set ?es" by simp
    with es False show ?thesis by (simp add: get_one_block_hd [OF ok])
  qed
qed

lemma get_cached_block_ok:
  assumes "cache_ok s" and "\<forall>g \<in> set gs. 0 \<le> g \<and> g < 2 ^ 32"
  shows "\<exists>res. get_cached_block bh gs s = Inr res \<and> (case res of
      None \<Rightarrow> \<exists>g \<in> set gs. \<exists>key. make_block_hash_with_group_id bh g = Inr key \<and> (\<nexists>p. block_with_key s key p)
    | Some ps \<Rightarrow> list_all2 (\<lambda>g p. \<exists>key. make_block_hash_with_group_id bh g = Inr key \<and> block_with_key s key p) gs ps)"
  using assms(2)
proof (induction gs)
  case Nil
  then show ?case by simp
next
  case (Cons g gs)
  then obtain key where key: "make_block_hash_with_group_id bh g = Inr key"
    by (auto simp: make_block_hash_with_group_id_def to_bytes4_def)
  obtain b where b: "get_one_block key (cached_block_hash_to_block s) = Inr b"
    "case b of None \<Rightarrow> (\<nexists>p. block_with_key s key p) | Some p \<Rightarrow> block_with_key s key p"
    using get_one_block_ok [OF assms(1)] by blast
  obtain res where res: "get_cached_block bh gs s = Inr res" "case res of
      None \<Rightarrow> \<exists>g \<in> set gs. \<exists>key. make_block_hash_with_group_id bh g = Inr key \<and> (\<nexists>p. block_with_key s key p)
    | Some ps \<Rightarrow> list_all2 (\<lambda>g p. \<exists>key. make_block_hash_with_group_id bh g = Inr key \<and> block_with_key s key p) gs ps"
    using Cons by auto
  show ?case
  proof (cases b)
    case None
    with key b show ?thesis by auto
  next
    case (Some p)
    with key b res show ?thesis by (cases res) auto
  qed
qed

subsection \<open>Eviction on request and reset\<close>

lemma evict_blocks_ok:
  assumes rel: "pool_rel s xs" and run: "evict_blocks use_int ids s = Inr s'"
  shows "pool_rel s' xs \<and> same_config s s' \<and> logged use_int s s'
     \<and> (\<forall>q. ref_cnt (heap s' q) = ref_cnt (heap s q))"
proof (rule foldE_invariant [OF run [unfolded evict_blocks_def]])
  show "pool_rel s xs \<and> same_config s s \<and> logged use_int s s \<and> (\<forall>q. ref_cnt (heap s q) = ref_cnt (heap s q))"
    using rel by (simp add: logged_quiet)
next
  fix bid t t'
  assume t: "pool_rel t xs \<and> same_config s t \<and> logged use_int s t \<and> (\<forall>q. ref_cnt (heap t q) = ref_cnt (heap s q))"
    and step: "assertE (bid < int (length (blocks t)))
     (bindE (index_py (blocks t) bid) (\<lambda>p. Inr (fst (maybe_evict_cached_block use_int p t)))) = Inr t'"
  from step obtain p where p: "index_py (blocks t) bid = Inr p" "t' = fst (maybe_evict_cached_block use_int p t)"
    by (auto elim!: bindE_InrE)
  have "p \<in> set (blocks t)" using p(1) by (auto simp: index_py_def split: if_splits)
  then obtain ev: "cache_ok t'" "same_config t t'" "same_links t t'" "logged use_int t t'"
      "\<forall>q. ref_cnt (heap t' q) = ref_cnt (heap t q)"
    using maybe_evict_ok [of t p use_int] pool_relD [of t xs] t p(2) by auto
  note c = same_config_ok [OF ev(2)]
  have "pool_rel t xs" using t by simp
  then have "pool_rel t' xs"
    using ev same_links_rel [OF ev(3)] by (simp add: pool_rel_def refs_ok_def c)
  moreover have "logged use_int s t'"
    using t ev(4) logged_trans same_config_ok(5) by blast
  ultimately show "pool_rel t' xs \<and> same_config s t' \<and> logged use_int s t'
      \<and> (\<forall>q. ref_cnt (heap t' q) = ref_cnt (heap s q))"
    using t ev(5) same_config_trans [OF _ ev(2)] by simp
qed

lemma fold_reset_hash:
  "heap (fold reset_hash ps s) q = (if q \<in> set ps then (heap s q)\<lparr>block_hash := None\<rparr> else heap s q)"
  "num_free_blocks (fold reset_hash ps s) = num_free_blocks s"
  "free_queue.more (fold reset_hash ps s) = free_queue.more s"
  by (induction ps arbitrary: s) (auto simp: reset_hash_def upd_def)

lemma card_real_blocks: "static_ok s \<Longrightarrow> int (card (real_blocks s)) = num_gpu_blocks s - 1"
proof -
  assume "static_ok s"
  then have "{i. 0 < i \<and> int i < num_gpu_blocks s} = {1..<nat (num_gpu_blocks s)}" "0 < num_gpu_blocks s"
    by (auto simp: static_ok_def)
  then show ?thesis by (simp add: real_blocks_def card_image inj_on_def)
qed

lemma free_count:
  assumes "pool_rel s xs"
  shows "num_free_blocks s = int (card {p \<in> real_blocks s. ref_cnt (heap s p) = 0})"
  using pool_relD [OF assms] fq_rel_num [of s xs] distinct_card [OF fq_rel_distinct [of s xs]]
  by (simp add: refs_ok_def)

lemma all_free_iff:
  assumes "pool_rel s xs"
  shows "num_gpu_blocks s - num_free_blocks s = 1 \<longleftrightarrow> (\<forall>p \<in> real_blocks s. ref_cnt (heap s p) = 0)"
proof -
  let ?F = "{p \<in> real_blocks s. ref_cnt (heap s p) = 0}"
  have "num_gpu_blocks s - num_free_blocks s = 1 \<longleftrightarrow> card ?F = card (real_blocks s)"
    using free_count [OF assms] card_real_blocks [OF pool_relD(2) [OF assms]] by linarith
  also have "\<dots> \<longleftrightarrow> ?F = real_blocks s" by (auto dest: card_subset_eq [rotated 2])
  finally show ?thesis by blast
qed

lemma reset_prefix_cache_ok:
  assumes rel: "pool_rel s xs"
  shows "snd (reset_prefix_cache s) = (\<forall>p \<in> real_blocks s. ref_cnt (heap s p) = 0)"
    and "\<not> snd (reset_prefix_cache s) \<Longrightarrow> fst (reset_prefix_cache s) = s"
    and "snd (reset_prefix_cache s) \<Longrightarrow> block_hash (heap (fst (reset_prefix_cache s)) p) = (if p \<in> set (blocks s) then None else block_hash (heap s p))"
    and "pool_rel (fst (reset_prefix_cache s)) xs \<and> same_config s (fst (reset_prefix_cache s))
     \<and> logged use_int s (fst (reset_prefix_cache s)) \<and> (\<forall>q. ref_cnt (heap (fst (reset_prefix_cache s)) q) = ref_cnt (heap s q))"
proof -
  show "snd (reset_prefix_cache s) = (\<forall>p \<in> real_blocks s. ref_cnt (heap s p) = 0)"
    using all_free_iff [OF rel] by (auto simp: reset_prefix_cache_def)
  show "\<not> snd (reset_prefix_cache s) \<Longrightarrow> fst (reset_prefix_cache s) = s"
    by (auto simp: reset_prefix_cache_def split: if_splits)
  define t where "t = fold reset_hash (blocks s) (s\<lparr>cached_block_hash_to_block := []\<rparr>)"
  have h: "heap t q = (if q \<in> set (blocks s) then (heap s q)\<lparr>block_hash := None\<rparr> else heap s q)" for q
    by (simp add: t_def fold_reset_hash)
  have more: "free_queue.more t = free_queue.more (s\<lparr>cached_block_hash_to_block := []\<rparr>)" "num_free_blocks t = num_free_blocks s"
    by (simp_all add: t_def fold_reset_hash)
  note f = more_eqD [OF more(1), simplified]
  show "snd (reset_prefix_cache s) \<Longrightarrow> block_hash (heap (fst (reset_prefix_cache s)) p) = (if p \<in> set (blocks s) then None else block_hash (heap s p))"
    by (auto simp: reset_prefix_cache_def t_def [symmetric] h split: if_splits)
  note r = pool_relD [OF rel]
  have cfg: "same_config s t" by (simp add: same_config_def h f)
  note c = same_config_ok [OF cfg]
  have "same_links s t" by (simp add: same_links_def h more(2))
  then have "fq_rel t xs" using r(1) same_links_rel by blast
  moreover have "map_ok (heap t) (real_blocks s) []"
  proof -
    have "map_ok (heap t) (real_blocks s) [] = map_ok (heap s) (real_blocks s) []"
      by (rule map_ok_cong) (simp add: h)
    then show ?thesis using r(3) by (simp add: cache_ok_def map_ok_def)
  qed
  then have "cache_ok t"
    using in_blocks [OF r(2)] by (auto simp: cache_ok_def c f h entries_at_def)
  ultimately have t: "pool_rel t xs" using r by (simp add: pool_rel_def refs_ok_def c h)
  have "cached_hashes use_int (add_event AllBlocksCleared t) = {#}"
    using in_blocks [OF r(2)] c by (simp add: cached_hashes_def h hash_bag_def real_blocks_cong [of "add_event AllBlocksCleared t" t])
  then have lg: "logged use_int s (add_event AllBlocksCleared t)"
    unfolding logged_def
    by (intro exI [of _ "if enable_kv_cache_events s then [AllBlocksCleared] else []"]) (simp add: f)
  show "pool_rel (fst (reset_prefix_cache s)) xs \<and> same_config s (fst (reset_prefix_cache s))
     \<and> logged use_int s (fst (reset_prefix_cache s)) \<and> (\<forall>q. ref_cnt (heap (fst (reset_prefix_cache s)) q) = ref_cnt (heap s q))"
    using rel t lg same_config_trans [OF cfg add_event_config(2)]
    by (simp add: reset_prefix_cache_def t_def [symmetric] add_event_config logged_quiet h)
qed


subsection \<open>The interface the cache managers rely on\<close>

text \<open>
  Reference-counted allocation: \<open>alloc\<close> hands out unreferenced blocks, \<open>share\<close> and \<open>release\<close> move
  the counts, and the number of available blocks is the number of blocks without references.
\<close>

locale refcounted_pool =
  fixes inv :: "'s \<Rightarrow> bool"
    and owned :: "'s \<Rightarrow> 'b set"
    and refs :: "'s \<Rightarrow> 'b \<Rightarrow> int"
    and avail :: "'s \<Rightarrow> int"
    and alloc :: "int \<Rightarrow> 's \<Rightarrow> ('s \<times> 'b list) result"
    and share :: "'b list \<Rightarrow> 's \<Rightarrow> 's result"
    and release :: "'b list \<Rightarrow> 's \<Rightarrow> 's result"
  assumes finite_owned: "finite (owned s)"
    and avail_count: "inv s \<Longrightarrow> avail s = int (card {p \<in> owned s. refs s p = 0})"
    and alloc_law: "inv s \<Longrightarrow> 0 \<le> n \<Longrightarrow> n \<le> avail s \<Longrightarrow>
      \<exists>s' ps. alloc n s = Inr (s', ps) \<and> inv s' \<and> owned s' = owned s \<and> length ps = nat n \<and> distinct ps
        \<and> set ps \<subseteq> {p \<in> owned s. refs s p = 0}
        \<and> (\<forall>p. refs s' p = refs s p + (if p \<in> set ps then 1 else 0))"
    and alloc_refuse: "n > avail s \<Longrightarrow> \<exists>e. alloc n s = Inl e"
    and share_law: "inv s \<Longrightarrow> set ps \<subseteq> owned s \<Longrightarrow> distinct ps \<Longrightarrow>
      \<exists>s'. share ps s = Inr s' \<and> inv s' \<and> owned s' = owned s
        \<and> (\<forall>p. refs s' p = refs s p + (if p \<in> set ps then 1 else 0))"
    and release_law: "inv s \<Longrightarrow> set ps \<subseteq> owned s \<Longrightarrow> distinct ps \<Longrightarrow> \<forall>p \<in> set ps. 0 < refs s p \<Longrightarrow>
      \<exists>s'. release ps s = Inr s' \<and> inv s' \<and> owned s' = owned s
        \<and> (\<forall>p. refs s' p = refs s p - (if p \<in> set ps then 1 else 0))"
begin

lemma same_refs_same_avail:
  "inv s \<Longrightarrow> inv s' \<Longrightarrow> owned s' = owned s \<Longrightarrow> (\<And>p. refs s' p = refs s p) \<Longrightarrow> avail s' = avail s"
  by (simp add: avail_count)

lemma allocD:
  assumes "inv s" "0 \<le> n" and run: "alloc n s = Inr (s', ps)"
  shows "inv s'" "owned s' = owned s" "length ps = nat n" "distinct ps" "n \<le> avail s"
    "set ps \<subseteq> {p \<in> owned s. refs s p = 0}" "refs s' p = refs s p + (if p \<in> set ps then 1 else 0)"
proof -
  have le: "n \<le> avail s" using alloc_refuse [of s n] run by fastforce
  from alloc_law [OF assms(1,2) le] run
  show "inv s'" "owned s' = owned s" "length ps = nat n" "distinct ps" "n \<le> avail s"
    "set ps \<subseteq> {p \<in> owned s. refs s p = 0}" "refs s' p = refs s p + (if p \<in> set ps then 1 else 0)"
    using le by auto
qed

text \<open>Allocation uses up exactly what it hands out.\<close>

lemma alloc_avail:
  assumes "inv s" "0 \<le> n" and run: "alloc n s = Inr (s', ps)"
  shows "avail s' = avail s - n"
proof -
  note d = allocD [OF assms]
  let ?F = "{p \<in> owned s. refs s p = 0}"
  have "0 \<le> card ?F" by simp
  have "{p \<in> owned s'. refs s' p = 0} = ?F - set ps"
    using d(2,6) d(7) by auto
  then have "avail s' = int (card (?F - set ps))" using avail_count [OF d(1)] by simp
  also have "\<dots> = int (card ?F) - int (card (set ps))"
    using d(6) card_mono [OF _ d(6)] finite_owned [of s] by (simp add: card_Diff_subset of_nat_diff)
  also have "\<dots> = avail s - n"
    using avail_count [OF assms(1)] distinct_card [OF d(4)] d(3) assms(2) by simp
  finally show ?thesis .
qed

text \<open>Allocating and releasing again gives back the counts and the room.\<close>

lemma alloc_release:
  assumes "inv s" "0 \<le> n" and run: "alloc n s = Inr (s', ps)"
  shows "\<exists>s''. release ps s' = Inr s'' \<and> inv s'' \<and> (\<forall>p. refs s'' p = refs s p) \<and> avail s'' = avail s"
proof -
  note d = allocD [OF assms]
  have "set ps \<subseteq> owned s'" "\<forall>p \<in> set ps. 0 < refs s' p" using d(2,6) d(7) by auto
  from release_law [OF d(1) this(1) d(4) this(2)] obtain s'' where
    r: "release ps s' = Inr s''" "inv s''" "owned s'' = owned s'"
      "\<And>p. refs s'' p = refs s' p - (if p \<in> set ps then 1 else 0)" by blast
  then have "\<And>p. refs s'' p = refs s p" using d(7) by simp
  with r d(2) same_refs_same_avail [OF assms(1) r(2)] show ?thesis by auto
qed

text \<open>Two allocations never overlap, whatever is shared in between.\<close>

lemma alloc_share_alloc_disjoint:
  assumes "inv s" "0 \<le> n" "alloc n s = Inr (s1, ps)"
    and "set qs \<subseteq> owned s" "distinct qs" "share qs s1 = Inr s2"
    and "0 \<le> m" "alloc m s2 = Inr (s3, rs)" and nonneg: "\<forall>p \<in> owned s. 0 \<le> refs s p"
  shows "set rs \<inter> (set ps \<union> set qs) = {}"
proof -
  note d = allocD [OF assms(1-3)]
  from share_law [OF d(1) _ assms(5)] assms(4,6) d(2) have
    s2: "inv s2" "owned s2 = owned s" "\<And>p. refs s2 p = refs s1 p + (if p \<in> set qs then 1 else 0)" by auto
  have "refs s2 p > 0" if "p \<in> owned s" "p \<in> set ps \<union> set qs" for p
    using that nonneg d(7) [of p] s2(3) [of p] by fastforce
  with allocD(6) [OF s2(1) assms(7,8)] s2(2) show ?thesis by fastforce
qed

end

lemma count_list_distinct: "distinct ps \<Longrightarrow> int (count_list ps q) = (if q \<in> set ps then 1 else 0)"
  by (auto simp: distinct_count_list_1 count_list_0_iff)

lemma real_in_blocks: "real_blocks s \<subseteq> set (blocks s)"
  by (auto simp: real_blocks_def blocks_def image_iff)

interpretation bp: refcounted_pool pool_inv real_blocks "\<lambda>s p. ref_cnt (heap s p)" num_free_blocks
    "get_new_blocks use_int" touch free_blocks for use_int
proof (unfold_locales, goal_cases)
  case (1 s) show ?case by simp
next
  case (2 s) then show ?case using free_count by (auto simp: pool_inv_def)
next
  case (3 s n)
  then obtain xs where xs: "pool_rel s xs" by (auto simp: pool_inv_def)
  from get_new_blocks_ok [OF xs 3(2,3), of use_int] obtain s' where
    s': "get_new_blocks use_int n s = Inr (s', take (nat n) xs)" "pool_rel s' (drop (nat n) xs)"
      "alloc_effect use_int (take (nat n) xs) s s'" by blast
  have "length (take (nat n) xs) = nat n" using 3(2,3) fq_rel_num [OF pool_relD(1) [OF xs]] by simp
  moreover have "set (take (nat n) xs) \<subseteq> {p \<in> real_blocks s. ref_cnt (heap s p) = 0}"
    using pool_relD(4) [OF xs] set_take_subset [of "nat n" xs] by (auto simp: refs_ok_def)
  moreover have "distinct (take (nat n) xs)" using fq_rel_distinct [OF pool_relD(1) [OF xs]] by simp
  ultimately show ?case
    using s' same_config_ok(2) [of s s'] by (auto simp: alloc_effect_def pool_inv_def)
next
  case (4 s n) then show ?case by (auto simp: get_new_blocks_error)
next
  case (5 s ps)
  then obtain xs where xs: "pool_rel s xs" by (auto simp: pool_inv_def)
  have "set ps \<subseteq> set (blocks s)" using 5(2) real_in_blocks by blast
  from touch_ok [OF xs this] show ?case
    using count_list_distinct [OF 5(3)] same_config_ok(2) by (auto simp: pool_inv_def shifted_def)
next
  case (6 s ps)
  then obtain xs where xs: "pool_rel s xs" by (auto simp: pool_inv_def)
  have "set ps \<subseteq> set (blocks s)" using 6(2) real_in_blocks by blast
  from free_blocks_ok [OF xs this] 6(3,4) show ?case
    using count_list_distinct [OF 6(3)] same_config_ok(2) by (fastforce simp: pool_inv_def shifted_def)
qed


subsection \<open>Reachable pools\<close>

text \<open>
  One call of a client, with the events it takes away. The side conditions are the clients'
  obligations: they name blocks of this pool, and free only blocks they hold a reference to.
\<close>

inductive pool_step :: "bool \<Rightarrow> block_pool \<Rightarrow> KVCacheEvent list \<Rightarrow> block_pool \<Rightarrow> bool" for use_int where
  step_alloc: "0 \<le> n \<Longrightarrow> get_new_blocks use_int n s = Inr (s', ps) \<Longrightarrow> pool_step use_int s [] s'"
| step_touch: "set ps \<subseteq> set (blocks s) \<Longrightarrow> touch ps s = Inr s' \<Longrightarrow> pool_step use_int s [] s'"
| step_free: "set ps \<subseteq> set (blocks s) \<Longrightarrow> distinct (filter (\<lambda>p. p \<in> real_blocks s) ps) \<Longrightarrow>
    \<forall>p \<in> set ps \<inter> real_blocks s. 0 < ref_cnt (heap s p) \<Longrightarrow> free_blocks ps s = Inr s' \<Longrightarrow> pool_step use_int s [] s'"
| step_cache: "set bls \<subseteq> set (blocks s) \<Longrightarrow> cache_full_blocks use_int r bls nc nf bs g s = Inr s' \<Longrightarrow> pool_step use_int s [] s'"
| step_evict: "evict_blocks use_int ids s = Inr s' \<Longrightarrow> pool_step use_int s [] s'"
| step_reset: "reset_prefix_cache s = (s', ok) \<Longrightarrow> pool_step use_int s [] s'"
| step_take: "take_events s = (s', evs) \<Longrightarrow> pool_step use_int s evs s'"

inductive pool_reach :: "bool \<Rightarrow> KVCacheEvent list \<Rightarrow> block_pool \<Rightarrow> bool" for use_int where
  reach_init: "block_pool_init n caching hbs evs = Inr s \<Longrightarrow> pool_reach use_int [] s"
| reach_step: "pool_reach use_int d s \<Longrightarrow> pool_step use_int s evs s' \<Longrightarrow> pool_reach use_int (d @ evs) s'"

lemma take_events_ok:
  assumes "take_events s = (s', evs)"
  shows "pool_rel s' xs = pool_rel s xs" "same_config s s'" "cached_hashes use_int s' = cached_hashes use_int s"
    "enable_kv_cache_events s \<Longrightarrow> evs @ kv_event_queue s' = kv_event_queue s"
proof -
  have h: "heap s' = heap s" "num_free_blocks s' = num_free_blocks s" "num_gpu_blocks s' = num_gpu_blocks s"
    "null_block s' = null_block s" "cached_block_hash_to_block s' = cached_block_hash_to_block s"
    using assms by (auto simp: take_events_def split: if_splits)
  have rb: "real_blocks s' = real_blocks s" by (simp add: real_blocks_def h)
  have "fq_rel s' xs = fq_rel s xs" by (rule fq_rel_cong) (simp_all add: h)
  then show "pool_rel s' xs = pool_rel s xs"
    by (simp add: pool_rel_def static_ok_def cache_ok_def refs_ok_def rb h)
  show "same_config s s'" using assms by (auto simp: same_config_def take_events_def split: if_splits)
  show "cached_hashes use_int s' = cached_hashes use_int s" by (simp add: cached_hashes_def rb h)
  show "enable_kv_cache_events s \<Longrightarrow> evs @ kv_event_queue s' = kv_event_queue s"
    using assms by (auto simp: take_events_def split: if_splits)
qed

text \<open>Every call keeps the invariant, and the events it queues describe what it did to the cache.\<close>

lemma pool_step_ok:
  assumes "pool_step use_int s evs s'" and "pool_inv s"
  shows "pool_inv s' \<and> same_config s s' \<and> (enable_kv_cache_events s \<longrightarrow>
     (\<exists>new. evs @ kv_event_queue s' = kv_event_queue s @ new
        \<and> cached_hashes use_int s' = fold replay_event new (cached_hashes use_int s)))"
proof -
  obtain xs where xs: "pool_rel s xs" using assms(2) by (auto simp: pool_inv_def)
  have quiet: ?thesis if "pool_inv s'" "same_config s s'" "logged use_int s s'" "evs = []"
    using that by (auto simp: logged_def)
  show ?thesis
    using assms(1)
  proof cases
    case (step_alloc n ps)
    then have "n \<le> num_free_blocks s" by (auto simp: get_new_blocks_def split: if_splits)
    from get_new_blocks_ok [OF xs step_alloc(2) this, of use_int] step_alloc show ?thesis
      by (intro quiet) (auto simp: pool_inv_def alloc_effect_def)
  next
    case (step_touch ps)
    from touch_ok [OF xs step_touch(2)] step_touch show ?thesis
      by (intro quiet) (auto simp: pool_inv_def intro: shifted_config shifted_logged)
  next
    case (step_free ps)
    from free_blocks_ok [OF xs step_free(2-4)] step_free show ?thesis
      by (intro quiet) (auto simp: pool_inv_def intro: shifted_config shifted_logged)
  next
    case (step_cache bls r nc nf bs g)
    from cache_full_blocks_ok [OF step_cache(3) xs step_cache(2)] step_cache(1) show ?thesis
      by (intro quiet) (auto simp: pool_inv_def)
  next
    case (step_evict ids)
    from evict_blocks_ok [OF xs step_evict(2)] step_evict(1) show ?thesis
      by (intro quiet) (auto simp: pool_inv_def)
  next
    case (step_reset ok)
    from reset_prefix_cache_ok(4) [OF xs, of use_int] step_reset show ?thesis
      by (intro quiet) (auto simp: pool_inv_def)
  next
    case step_take
    from take_events_ok [OF step_take] xs show ?thesis by (auto simp: pool_inv_def)
  qed
qed

text \<open>
  A run of calls, with the references that it takes and gives back: \<open>gs\<close> lists the blocks that allocations
  returned and that cache hits shared, \<open>fs\<close> those that were freed, with repetitions.
\<close>

inductive pool_run :: "bool \<Rightarrow> block_pool \<Rightarrow> ptr list \<Rightarrow> ptr list \<Rightarrow> block_pool \<Rightarrow> bool" for use_int where
  run_start: "pool_run use_int s [] [] s"
| run_alloc: "pool_run use_int s gs fs t \<Longrightarrow> 0 \<le> n \<Longrightarrow> get_new_blocks use_int n t = Inr (u, ps)
    \<Longrightarrow> pool_run use_int s (gs @ ps) fs u"
| run_touch: "pool_run use_int s gs fs t \<Longrightarrow> set ps \<subseteq> set (blocks t) \<Longrightarrow> touch ps t = Inr u
    \<Longrightarrow> pool_run use_int s (gs @ ps) fs u"
| run_free: "pool_run use_int s gs fs t \<Longrightarrow> set ps \<subseteq> set (blocks t) \<Longrightarrow> distinct (filter (\<lambda>p. p \<in> real_blocks t) ps)
    \<Longrightarrow> \<forall>p \<in> set ps \<inter> real_blocks t. 0 < ref_cnt (heap t p) \<Longrightarrow> free_blocks ps t = Inr u
    \<Longrightarrow> pool_run use_int s gs (fs @ ps) u"
| run_cache: "pool_run use_int s gs fs t \<Longrightarrow> set bls \<subseteq> set (blocks t) \<Longrightarrow> cache_full_blocks use_int r bls nc nf bs g t = Inr u
    \<Longrightarrow> pool_run use_int s gs fs u"
| run_evict: "pool_run use_int s gs fs t \<Longrightarrow> evict_blocks use_int ids t = Inr u \<Longrightarrow> pool_run use_int s gs fs u"
| run_reset: "pool_run use_int s gs fs t \<Longrightarrow> reset_prefix_cache t = (u, ok) \<Longrightarrow> pool_run use_int s gs fs u"
| run_take: "pool_run use_int s gs fs t \<Longrightarrow> take_events t = (u, evs) \<Longrightarrow> pool_run use_int s gs fs u"

text \<open>The reference count is what was taken less what was given back.\<close>

definition run_balance :: "block_pool \<Rightarrow> ptr list \<Rightarrow> ptr list \<Rightarrow> block_pool \<Rightarrow> bool" where
  "run_balance s gs fs s' \<longleftrightarrow> pool_inv s' \<and> same_config s s'
    \<and> (\<forall>p. ref_cnt (heap s' p) = ref_cnt (heap s p) + int (count_list gs p) - int (count_list fs p))"

lemma run_balance_next:
  assumes "run_balance s gs fs t" and "pool_inv u" and "same_config t u"
    and "\<And>p. ref_cnt (heap u p) = ref_cnt (heap t p) + int (count_list x p) - int (count_list y p)"
  shows "run_balance s (gs @ x) (fs @ y) u"
  using assms same_config_trans [of s t u] by (simp add: run_balance_def)

lemma pool_run_ok:
  assumes "pool_run use_int s gs fs s'" and "pool_inv s"
  shows "run_balance s gs fs s'"
  using assms
proof (induction rule: pool_run.induct)
  case (run_start s)
  then show ?case by (simp add: run_balance_def)
next
  case (run_alloc s gs fs t n u ps)
  note ih = run_alloc.IH [OF run_alloc.prems]
  obtain xs where xs: "pool_rel t xs" using ih by (auto simp: run_balance_def pool_inv_def)
  have le: "n \<le> num_free_blocks t" using run_alloc.hyps(3) by (auto simp: get_new_blocks_def split: if_splits)
  from get_new_blocks_ok [OF xs run_alloc.hyps(2) le, of use_int] run_alloc.hyps(3)
  have u: "ps = take (nat n) xs" "pool_rel u (drop (nat n) xs)" "alloc_effect use_int ps t u" by auto
  have d: "distinct ps" using fq_rel_distinct [OF pool_relD(1) [OF xs]] by (simp add: u(1))
  from run_balance_next [OF ih, of u ps "[]"] u(2,3) show ?case
    unfolding alloc_effect_def count_list_distinct [OF d] by (auto simp: pool_inv_def)
next
  case (run_touch s gs fs t ps u)
  note ih = run_touch.IH [OF run_touch.prems]
  obtain xs where xs: "pool_rel t xs" using ih by (auto simp: run_balance_def pool_inv_def)
  from touch_ok [OF xs run_touch.hyps(2)] run_touch.hyps(3)
  have u: "pool_inv u" "shifted (\<lambda>q. int (count_list ps q)) t u" by (auto simp: pool_inv_def)
  from run_balance_next [OF ih u(1) shifted_config [OF u(2)], of ps "[]"] u(2) show ?case by (simp add: shifted_def)
next
  case (run_free s gs fs t ps u)
  note ih = run_free.IH [OF run_free.prems]
  obtain xs where xs: "pool_rel t xs" using ih by (auto simp: run_balance_def pool_inv_def)
  from free_blocks_ok [OF xs run_free.hyps(2-4)] run_free.hyps(5)
  have u: "pool_inv u" "shifted (\<lambda>q. - int (count_list ps q)) t u" by (auto simp: pool_inv_def)
  from run_balance_next [OF ih u(1) shifted_config [OF u(2)], of "[]" ps] u(2) show ?case by (simp add: shifted_def)
next
  case (run_cache s gs fs t bls r nc nf bs g u)
  note ih = run_cache.IH [OF run_cache.prems]
  obtain xs where xs: "pool_rel t xs" using ih by (auto simp: run_balance_def pool_inv_def)
  from cache_full_blocks_ok [OF run_cache.hyps(3) xs run_cache.hyps(2)] run_balance_next [OF ih, of u "[]" "[]"]
  show ?case by (auto simp: pool_inv_def)
next
  case (run_evict s gs fs t ids u)
  note ih = run_evict.IH [OF run_evict.prems]
  obtain xs where xs: "pool_rel t xs" using ih by (auto simp: run_balance_def pool_inv_def)
  from evict_blocks_ok [OF xs run_evict.hyps(2)] run_balance_next [OF ih, of u "[]" "[]"]
  show ?case by (auto simp: pool_inv_def)
next
  case (run_reset s gs fs t u ok)
  note ih = run_reset.IH [OF run_reset.prems]
  obtain xs where xs: "pool_rel t xs" using ih by (auto simp: run_balance_def pool_inv_def)
  from reset_prefix_cache_ok(4) [OF xs, of use_int] run_reset.hyps(2) run_balance_next [OF ih, of u "[]" "[]"]
  show ?case by (auto simp: pool_inv_def)
next
  case (run_take s gs fs t u evs)
  note ih = run_take.IH [OF run_take.prems]
  obtain xs where xs: "pool_rel t xs" using ih by (auto simp: run_balance_def pool_inv_def)
  have "heap u = heap t" using run_take.hyps(2) by (auto simp: take_events_def split: if_splits)
  with take_events_ok [OF run_take.hyps(2)] xs run_balance_next [OF ih, of u "[]" "[]"]
  show ?case by (auto simp: pool_inv_def)
qed

lemma block_pool_init_Inr:
  assumes "block_pool_init n caching hbs evs = Inr s"
  shows "pool_rel s (map Blk [1..<nat n])" "\<forall>p. block_hash (heap s p) = None" "kv_event_queue s = []"
    "num_gpu_blocks s = n" "enable_caching s = caching" "hash_block_size s = hbs" "enable_kv_cache_events s = evs"
proof -
  have "n > 0" using assms by (simp add: block_pool_init_def)
  from block_pool_init_rel [OF this, of caching hbs evs] assms
  show "pool_rel s (map Blk [1..<nat n])" "\<forall>p. block_hash (heap s p) = None" "kv_event_queue s = []"
    "num_gpu_blocks s = n" "enable_caching s = caching" "hash_block_size s = hbs" "enable_kv_cache_events s = evs"
    by auto
qed

lemma pool_reach_ok:
  assumes "pool_reach use_int d s"
  shows "pool_inv s \<and> (enable_kv_cache_events s \<longrightarrow>
     fold replay_event (d @ kv_event_queue s) {#} = cached_hashes use_int s)"
  using assms
proof induction
  case (reach_init n caching hbs evs s)
  note i = block_pool_init_Inr [OF reach_init]
  have "cached_hashes use_int s = {#}" using i(2) by (simp add: cached_hashes_def hash_bag_def)
  with i show ?case by (auto simp: pool_inv_def)
next
  case (reach_step d s evs s')
  from pool_step_ok [OF reach_step.hyps(2)] reach_step.IH have
    st: "pool_inv s'" "same_config s s'" "enable_kv_cache_events s \<longrightarrow>
      (\<exists>new. evs @ kv_event_queue s' = kv_event_queue s @ new
        \<and> cached_hashes use_int s' = fold replay_event new (cached_hashes use_int s))" by simp_all
  show ?case
  proof (intro conjI impI)
    assume "enable_kv_cache_events s'"
    then have "enable_kv_cache_events s" using same_config_ok(5) [OF st(2)] by simp
    with st(3) obtain new where new: "evs @ kv_event_queue s' = kv_event_queue s @ new"
        "cached_hashes use_int s' = fold replay_event new (cached_hashes use_int s)" by blast
    have "fold replay_event ((d @ evs) @ kv_event_queue s') {#} = fold replay_event ((d @ kv_event_queue s) @ new) {#}"
      using new(1) by simp
    with reach_step.IH new(2) \<open>enable_kv_cache_events s\<close>
    show "fold replay_event ((d @ evs) @ kv_event_queue s') {#} = cached_hashes use_int s'" by simp
  qed (rule st(1))
qed


subsection \<open>The properties of the pool\<close>

lemma pool_inv_spelled:
  assumes "pool_inv s"
  shows "\<exists>xs. get_all_free_blocks s = Some (Inr xs) \<and> distinct xs
     \<and> set xs = {p \<in> real_blocks s. ref_cnt (heap s p) = 0} \<and> get_num_free_blocks s = int (length xs)
     \<and> null_block s \<notin> set xs \<and> (\<forall>p \<in> real_blocks s. 0 \<le> ref_cnt (heap s p))
     \<and> (\<forall>k p. p \<in> set (entries_at (cached_block_hash_to_block s) k) \<longleftrightarrow> block_with_key s k p)"
proof -
  obtain xs where xs: "pool_rel s xs" using assms by (auto simp: pool_inv_def)
  note r = pool_relD [OF xs]
  have "null_block s \<notin> real_blocks s" using r(2) by (auto simp: static_ok_def real_blocks_def)
  with r show ?thesis
    using fq_rel_distinct [OF r(1)] fq_rel_num [OF r(1)] get_all_free_blocks_refines [OF r(1)]
    by (intro exI [of _ xs]) (auto simp: refs_ok_def cache_ok_def get_num_free_blocks_def block_with_key_def)
qed

text \<open>A pool to run things on: three ordinary blocks, prefix caching and events on.\<close>

lemma demo_pool:
  "\<exists>s. block_pool_init 4 True 2 True = Inr s \<and> pool_rel s [Blk 1, Blk 2, Blk 3]
     \<and> pool_inv s \<and> num_free_blocks s = 3 \<and> num_gpu_blocks s = 4 \<and> enable_caching s
     \<and> hash_block_size s = 2 \<and> (\<forall>p. block_hash (heap s p) = None) \<and> enable_kv_cache_events s
     \<and> kv_event_queue s = [] \<and> (\<forall>p. ref_cnt (heap s p) = 0)"
proof -
  have up: "map Blk [1..<nat 4] = [Blk 1, Blk 2, Blk 3]" by (simp add: upt_rec)
  obtain s where s: "block_pool_init 4 True 2 True = Inr s" "pool_rel s [Blk 1, Blk 2, Blk 3]"
      "\<forall>p. block_hash (heap s p) = None" "num_gpu_blocks s = 4" "enable_caching s"
      "hash_block_size s = 2" "enable_kv_cache_events s" "kv_event_queue s = []" "\<forall>p. ref_cnt (heap s p) = 0"
    using block_pool_init_rel [of 4 True 2 True] unfolding up by auto
  then have "num_free_blocks s = 3" using fq_rel_num [OF pool_relD(1) [OF s(2)]] by simp
  with s show ?thesis unfolding pool_inv_def by blast
qed

text \<open>
  C6: In every state the pool can reach, the free queue holds each ordinary block without
  references exactly once and no other (in particular never the null block), its counter is
  right, no reference count is negative, and the hash map lists under a key exactly the blocks
  that carry that hash.
\<close>

theorem block_pool_invariant:
  assumes "pool_reach use_int d s"
  shows "\<exists>xs. get_all_free_blocks s = Some (Inr xs) \<and> distinct xs
     \<and> set xs = {p \<in> real_blocks s. ref_cnt (heap s p) = 0} \<and> get_num_free_blocks s = int (length xs)
     \<and> null_block s \<notin> set xs \<and> (\<forall>p \<in> real_blocks s. 0 \<le> ref_cnt (heap s p))
     \<and> (\<forall>k p. p \<in> set (entries_at (cached_block_hash_to_block s) k) \<longleftrightarrow> block_with_key s k p)"
  using pool_inv_spelled pool_reach_ok [OF assms] by blast

theorem block_pool_invariant_witness:
  "\<exists>s s'. block_pool_init 4 True 2 True = Inr s \<and> get_new_blocks False 2 s = Inr (s', [Blk 1, Blk 2])
     \<and> (\<exists>xs. get_all_free_blocks s' = Some (Inr xs) \<and> get_num_free_blocks s' = int (length xs))"
proof -
  obtain s where s: "block_pool_init 4 True 2 True = Inr s" "pool_rel s [Blk 1, Blk 2, Blk 3]" "num_free_blocks s = 3"
    using demo_pool by blast
  obtain s' where s': "get_new_blocks False 2 s = Inr (s', [Blk 1, Blk 2])"
    using get_new_blocks_ok [OF s(2), of 2 False] s(3) by auto
  have "pool_reach False ([] @ []) s'"
    by (intro reach_step [OF reach_init [OF s(1)]] step_alloc [OF _ s']) simp
  from block_pool_invariant [OF this] s(1) s' show ?thesis by blast
qed

text \<open>
  C18: With events enabled, the events handed out so far followed by those still queued, replayed
  on an empty bag, give exactly the bag of block hashes that the pool holds: no call forgets or
  duplicates an event.
\<close>

theorem kv_events_replay_cache:
  assumes "pool_reach use_int d s" and "enable_kv_cache_events s"
  shows "fold replay_event (d @ kv_event_queue s) {#} = cached_hashes use_int s"
  using pool_reach_ok [OF assms(1)] assms(2) by blast

text \<open>Two blocks are cached and one of them is evicted: the queued events give the hash of the other one.\<close>

theorem kv_events_replay_cache_witness:
  "\<exists>s. pool_reach False [] s \<and> length (kv_event_queue s) = 2 \<and> cached_hashes False s = {#HashBytes [6]#}"
proof -
  let ?r = "(demo_request ''r'' [1, 2, 3, 4] [] None None)\<lparr>block_hashes := [[5], [6]]\<rparr>"
  have "bindE (block_pool_init 4 True 2 True) (\<lambda>s. bindE (get_new_blocks False 2 s) (\<lambda>(s1, ps).
      bindE (cache_full_blocks False ?r [Blk 1, Blk 2] 0 2 2 0 s1) (\<lambda>s2. bindE (evict_blocks False [1] s2) (\<lambda>s3.
      Inr (ps = [Blk 1, Blk 2] \<and> list_all (\<lambda>p. p \<in> set (blocks s1)) ps \<and> enable_kv_cache_events s3
        \<and> kv_event_queue s3 = [BlockStored [HashBytes [5], HashBytes [6]] None [1, 2, 3, 4] 2 None MEDIUM_GPU None,
            BlockRemoved [HashBytes [5]] MEDIUM_GPU]))))) = Inr True"
    by code_simp
  then obtain s s1 s2 s3 where run: "block_pool_init 4 True 2 True = Inr s" "get_new_blocks False 2 s = Inr (s1, [Blk 1, Blk 2])"
    "cache_full_blocks False ?r [Blk 1, Blk 2] 0 2 2 0 s1 = Inr s2" "evict_blocks False [1] s2 = Inr s3"
    "set [Blk 1, Blk 2] \<subseteq> set (blocks s1)" "enable_kv_cache_events s3"
    and queue: "length (kv_event_queue s3) = 2" "fold replay_event (kv_event_queue s3) {#} = {#HashBytes [6]#}"
    by (auto elim!: bindE_InrE)
  have reach: "pool_reach False ((([] @ []) @ []) @ []) s3"
    by (rule reach_step [OF reach_step [OF reach_step [OF reach_init [OF run(1)] step_alloc [OF _ run(2)]]
          step_cache [OF run(5,3)]] step_evict [OF run(4)]]) simp
  from kv_events_replay_cache [OF this run(6)] queue have "cached_hashes False s3 = {#HashBytes [6]#}" by simp
  with reach queue(1) show ?thesis by auto
qed

text \<open>
  C14: \<^verbatim>\<open>get_new_blocks\<close> raises \<^verbatim>\<open>ValueError\<close> exactly when it is asked for more blocks than are
  free. Otherwise it returns the first \<open>n\<close> blocks of the eviction order, all unreferenced before
  and referenced once after, no longer found under any hash when caching is on; every other
  block keeps its references and its hash, and the invariant holds.
\<close>

theorem get_new_blocks_correct:
  assumes "pool_inv s" and "0 \<le> n"
  shows "(n > get_num_free_blocks s \<longrightarrow> get_new_blocks use_int n s = Inl ValueError)
   \<and> (n \<le> get_num_free_blocks s \<longrightarrow> (\<exists>s' ps rest. get_new_blocks use_int n s = Inr (s', ps)
        \<and> get_all_free_blocks s = Some (Inr (ps @ rest)) \<and> get_all_free_blocks s' = Some (Inr rest)
        \<and> int (length ps) = n \<and> pool_inv s'
        \<and> (\<forall>p \<in> set ps. ref_cnt (heap s p) = 0 \<and> ref_cnt (heap s' p) = 1
             \<and> (enable_caching s \<longrightarrow> (\<nexists>k. block_with_key s' k p)))
        \<and> (\<forall>p. p \<notin> set ps \<longrightarrow> ref_cnt (heap s' p) = ref_cnt (heap s p)
             \<and> block_hash (heap s' p) = block_hash (heap s p))))"
proof (intro conjI impI)
  assume "n > get_num_free_blocks s"
  then show "get_new_blocks use_int n s = Inl ValueError" by (simp add: get_new_blocks_error get_num_free_blocks_def)
next
  assume n: "n \<le> get_num_free_blocks s"
  obtain xs where xs: "pool_rel s xs" using assms(1) by (auto simp: pool_inv_def)
  note r = pool_relD [OF xs]
  obtain s' where s': "get_new_blocks use_int n s = Inr (s', take (nat n) xs)" "pool_rel s' (drop (nat n) xs)"
     "alloc_effect use_int (take (nat n) xs) s s'"
    using get_new_blocks_ok [OF xs assms(2)] n by (auto simp: get_num_free_blocks_def)
  have free: "p \<in> set (take (nat n) xs) \<Longrightarrow> ref_cnt (heap s p) = 0" for p
    using r(4) set_take_subset [of "nat n" xs] by (auto simp: refs_ok_def)
  have len: "int (length (take (nat n) xs)) = n"
    using n assms(2) fq_rel_num [OF r(1)] by (simp add: get_num_free_blocks_def)
  show "\<exists>s' ps rest. get_new_blocks use_int n s = Inr (s', ps)
        \<and> get_all_free_blocks s = Some (Inr (ps @ rest)) \<and> get_all_free_blocks s' = Some (Inr rest)
        \<and> int (length ps) = n \<and> pool_inv s'
        \<and> (\<forall>p \<in> set ps. ref_cnt (heap s p) = 0 \<and> ref_cnt (heap s' p) = 1
             \<and> (enable_caching s \<longrightarrow> (\<nexists>k. block_with_key s' k p)))
        \<and> (\<forall>p. p \<notin> set ps \<longrightarrow> ref_cnt (heap s' p) = ref_cnt (heap s p)
             \<and> block_hash (heap s' p) = block_hash (heap s p))"
    by (intro exI [of _ s'] exI [of _ "take (nat n) xs"] exI [of _ "drop (nat n) xs"])
      (use s' free len get_all_free_blocks_refines r(1) pool_relD(1) [OF s'(2)] in
        \<open>auto simp: pool_inv_def alloc_effect_def block_with_key_def\<close>)
qed

theorem get_new_blocks_correct_witness:
  "\<exists>s. block_pool_init 4 True 2 True = Inr s \<and> get_new_blocks False 5 s = Inl ValueError
     \<and> (\<exists>s' ps. get_new_blocks False 2 s = Inr (s', ps) \<and> length ps = 2 \<and> pool_inv s')"
proof -
  obtain s where s: "block_pool_init 4 True 2 True = Inr s" "pool_inv s" "num_free_blocks s = 3"
    using demo_pool by blast
  then have f: "get_num_free_blocks s = 3" by (simp add: get_num_free_blocks_def)
  from get_new_blocks_correct [OF s(2), of 5 False] f have "get_new_blocks False 5 s = Inl ValueError" by simp
  moreover from get_new_blocks_correct [OF s(2), of 2 False] f
  have "\<exists>s' ps. get_new_blocks False 2 s = Inr (s', ps) \<and> length ps = 2 \<and> pool_inv s'" by auto
  ultimately show ?thesis using s(1) by blast
qed

text \<open>
  \<^verbatim>\<open>get_cached_block\<close> never raises for group ids of four bytes. A hit returns, for each group
  in turn, an ordinary block that carries the key of that group; a miss means that for some
  group no block carries the key.
\<close>

theorem get_cached_block_correct:
  assumes "pool_inv s" and "\<forall>g \<in> set gs. 0 \<le> g \<and> g < 2 ^ 32"
  shows "\<exists>res. get_cached_block bh gs s = Inr res \<and> (case res of
      None \<Rightarrow> \<exists>g \<in> set gs. \<exists>key. make_block_hash_with_group_id bh g = Inr key \<and> (\<nexists>p. block_with_key s key p)
    | Some ps \<Rightarrow> list_all2 (\<lambda>g p. \<exists>key. make_block_hash_with_group_id bh g = Inr key \<and> block_with_key s key p) gs ps)"
  using get_cached_block_ok [OF _ assms(2)] assms(1) by (auto simp: pool_inv_def pool_rel_def)

theorem get_cached_block_correct_witness:
  "\<exists>s. block_pool_init 4 True 2 True = Inr s \<and> (\<exists>res. get_cached_block [7] [0, 1] s = Inr res)"
proof -
  obtain s where s: "block_pool_init 4 True 2 True = Inr s" "pool_inv s" using demo_pool by blast
  with get_cached_block_correct [OF s(2), of "[0, 1]" "[7]"] show ?thesis by auto
qed


text \<open>
  C19: Caching the full blocks \<open>num_cached\<close> to \<open>num_full - 1\<close> of a request succeeds when the request
  has their hashes and the blocks are fresh; afterwards a lookup of each of these hashes in that
  group is a hit, references are unchanged and the invariant holds.
\<close>

theorem cache_full_blocks_then_hit:
  assumes "pool_inv s" and "0 \<le> nc" "nc < nf" and "nf \<le> int (length (block_hashes r))" "nf \<le> int (length bls)"
    and "set bls \<subseteq> real_blocks s" "distinct bls"
    and "\<forall>i. nat nc \<le> i \<and> i < nat nf \<longrightarrow> block_hash (heap s (bls ! i)) = None"
    and "0 \<le> g" "g < 2 ^ 32"
  shows "\<exists>s'. cache_full_blocks use_int r bls nc nf (hash_block_size s) g s = Inr s' \<and> pool_inv s'
     \<and> (\<forall>p. ref_cnt (heap s' p) = ref_cnt (heap s p))
     \<and> (\<forall>i. nat nc \<le> i \<and> i < nat nf \<longrightarrow>
          (\<exists>p. get_cached_block (block_hashes r ! i) [g] s' = Inr (Some [p])
             \<and> block_hash (heap s' p) = block_hash (heap s' (bls ! i))))"
proof -
  obtain xs where xs: "pool_rel s xs" using assms(1) by (auto simp: pool_inv_def)
  note r = pool_relD [OF xs]
  let ?ps = "slice bls nc nf" and ?hs = "drop (nat nc) (block_hashes r)"
  have ps: "?ps = drop (nat nc) (take (nat nf) bls)" using assms(2,3) by (simp add: slice_nonneg)
  have len: "length ?ps = nat nf - nat nc" using assms(5) by (simp add: ps)
  have nth: "?ps ! j = bls ! (nat nc + j)" if "j < length ?ps" for j using that len assms(5) by (simp add: ps)
  have sub: "set ?ps \<subseteq> real_blocks s" using set_slice [of bls nc nf] assms(6) by blast
  have none: "\<forall>p \<in> set ?ps. block_hash (heap s p) = None"
    using assms(8) len nth by (auto simp: in_set_conv_nth)
  have dist: "distinct (filter (\<lambda>p. p \<in> real_blocks s) ?ps)" using assms(7) by (simp add: ps)
  have room: "nat 0 + length ?ps \<le> length ?hs" using len assms(2,4) by simp
  have sub': "set ?ps \<subseteq> set (blocks s)" using sub real_in_blocks by blast
  from cache_loop_total [OF r(2,3) sub' assms(9,10) dist none order_refl room, of use_int "[]"]
  obtain t acc where t: "foldE (cache_block_step use_int g ?hs) (zip [0..int (length ?ps) - 1] ?ps) (s, []) = Inr (t, acc)"
    "hash_effect s t" "\<And>j. j < length ?ps \<Longrightarrow> ?ps ! j \<in> real_blocks s \<Longrightarrow>
       make_block_hash_with_group_id (?hs ! j) g = Inr (the (block_hash (heap t (?ps ! j))))
          \<and> block_hash (heap t (?ps ! j)) \<noteq> None"
    by auto
  have parent: "\<exists>h. index_py (block_hashes r) (nc - 1) = Inr h" if "nc \<noteq> 0"
    using that assms(2-4) by (simp add: index_py_nonneg)
  have "\<exists>s'. cache_full_blocks use_int r bls nc nf (hash_block_size s) g s = Inr s' \<and> heap s' = heap t \<and> real_blocks s' = real_blocks t"
    using assms(2-4) t(1) parent
    by (auto simp: cache_full_blocks_def new_block_hashes_def slice_from_nonneg Let_def real_blocks_def bindE_def split: sum.splits)
  then obtain s' where s': "cache_full_blocks use_int r bls nc nf (hash_block_size s) g s = Inr s'" "heap s' = heap t"
     "real_blocks s' = real_blocks t" by blast
  have all: "set bls \<subseteq> set (blocks s)" using assms(6) real_in_blocks by blast
  note ok = cache_full_blocks_ok [OF s'(1) xs all]
  have rb: "real_blocks s' = real_blocks s" using ok same_config_ok(2) by blast
  have hit: "\<exists>p. get_cached_block (block_hashes r ! i) [g] s' = Inr (Some [p])
             \<and> block_hash (heap s' p) = block_hash (heap s' (bls ! i))" if i: "nat nc \<le> i \<and> i < nat nf" for i
  proof -
    let ?j = "i - nat nc"
    have j1: "?j < length ?ps" using i len by linarith
    have "nat nc \<le> length (block_hashes r)" using i assms(3,4) by linarith
    then have j: "?j < length ?ps" "?ps ! ?j = bls ! i" "?hs ! ?j = block_hashes r ! i"
      using j1 i nth [OF j1] by simp_all
    then have real: "bls ! i \<in> real_blocks s" using sub by (metis nth_mem subsetD)
    with t(3) [OF j(1)] j obtain key where key: "make_block_hash_with_group_id (block_hashes r ! i) g = Inr key"
      "block_hash (heap s' (bls ! i)) = Some key" by (auto simp: s'(2))
    then have "block_with_key s' key (bls ! i)" using real rb by (simp add: block_with_key_def)
    moreover have "cache_ok s'" using ok by (simp add: pool_rel_def)
    from get_one_block_ok [OF this, of key] obtain b where
      b: "get_one_block key (cached_block_hash_to_block s') = Inr b"
        "case b of None \<Rightarrow> (\<nexists>p. block_with_key s' key p) | Some p \<Rightarrow> block_with_key s' key p" by blast
    ultimately obtain p where "b = Some p" "block_with_key s' key p" by (cases b) auto
    with b key show ?thesis by (auto simp: block_with_key_def)
  qed
  show ?thesis using s'(1) ok hit by (auto simp: pool_inv_def)
qed

theorem cache_full_blocks_then_hit_witness:
  "\<exists>s s'. block_pool_init 4 True 2 True = Inr s
     \<and> cache_full_blocks False ((demo_request ''r'' [1, 2, 3, 4] [] None None)\<lparr>block_hashes := [[5], [6]]\<rparr>)
          [Blk 2, Blk 3] 0 2 2 0 s = Inr s'
     \<and> (\<exists>p. get_cached_block [6] [0] s' = Inr (Some [p]))"
proof -
  obtain s where s: "block_pool_init 4 True 2 True = Inr s" "pool_inv s" "num_gpu_blocks s = 4" "hash_block_size s = 2"
      "\<forall>p. block_hash (heap s p) = None"
    using demo_pool by blast
  let ?r = "(demo_request ''r'' [1, 2, 3, 4] [] None None)\<lparr>block_hashes := [[5], [6]]\<rparr>"
  have sub: "set [Blk 2, Blk 3] \<subseteq> real_blocks s" using s(3) by (simp add: real_blocks_def)
  have pre: "0 \<le> (0::int)" "0 < (2::int)" "2 \<le> int (length (block_hashes ?r))" "2 \<le> int (length [Blk 2, Blk 3])"
    "distinct [Blk 2, Blk 3]" "0 \<le> (0::int)" "0 < (2::int) ^ 32"
    "\<forall>i. nat 0 \<le> i \<and> i < nat 2 \<longrightarrow> block_hash (heap s ([Blk 2, Blk 3] ! i)) = None"
    using s(5) by simp_all
  from cache_full_blocks_then_hit [OF s(2) pre(1-4) sub pre(5) pre(8) pre(6,7), of False] s(4)
  obtain s' where "cache_full_blocks False ?r [Blk 2, Blk 3] 0 2 2 0 s = Inr s'"
    "\<forall>i. nat 0 \<le> i \<and> i < nat 2 \<longrightarrow> (\<exists>p. get_cached_block (block_hashes ?r ! i) [0] s' = Inr (Some [p])
             \<and> block_hash (heap s' p) = block_hash (heap s' ([Blk 2, Blk 3] ! i)))" by auto
  moreover from this(2) have "\<exists>p. get_cached_block (block_hashes ?r ! 1) [0] s' = Inr (Some [p])"
    by (elim allE [of _ 1]) (auto simp del: get_cached_block.simps)
  ultimately show ?thesis using s(1) by (intro exI [of _ s] exI [of _ s']) simp
qed

text \<open>
  C15: No block is used twice. Take a run of pool calls in any order (allocations, cache hits, frees,
  caching, evictions, resets) from any reachable pool; the callers free only blocks of the pool that
  are referenced, none twice in one call. The reference count of every block is what it was, plus the
  number of times that the run handed it out or shared it, less the number of times that the run freed
  it. An allocation after the run returns different ordinary blocks, and only such whose
  references, those from before the run included, have all been given back. So a block that was
  handed out or shared is never handed out again before all its holders have freed it.
\<close>

theorem no_block_used_twice:
  assumes "pool_reach use_int d s" and "pool_run use_int s gs fs s'"
  shows "(\<forall>p. ref_cnt (heap s' p) = ref_cnt (heap s p) + int (count_list gs p) - int (count_list fs p))
    \<and> (\<forall>m s'' rs. 0 \<le> m \<and> get_new_blocks use_int m s' = Inr (s'', rs) \<longrightarrow>
        distinct rs \<and> set rs \<subseteq> real_blocks s
        \<and> (\<forall>p \<in> set rs. ref_cnt (heap s p) + int (count_list gs p) = int (count_list fs p))
        \<and> (\<forall>p. p \<in> real_blocks s \<and> int (count_list fs p) < ref_cnt (heap s p) + int (count_list gs p) \<longrightarrow> p \<notin> set rs))"
proof -
  have "pool_inv s" using pool_reach_ok [OF assms(1)] by blast
  from pool_run_ok [OF assms(2) this] have o: "pool_inv s'" "same_config s s'"
    "\<And>p. ref_cnt (heap s' p) = ref_cnt (heap s p) + int (count_list gs p) - int (count_list fs p)" by (simp_all add: run_balance_def)
  obtain xs where xs: "pool_rel s' xs" using o(1) by (auto simp: pool_inv_def)
  have new: "distinct rs \<and> set rs \<subseteq> real_blocks s \<and> (\<forall>p \<in> set rs. ref_cnt (heap s' p) = 0)"
    if m: "0 \<le> m" "get_new_blocks use_int m s' = Inr (s'', rs)" for m s'' rs
  proof -
    have le: "m \<le> num_free_blocks s'" using m(2) by (auto simp: get_new_blocks_def split: if_splits)
    from get_new_blocks_ok [OF xs m(1) le, of use_int] m(2) have rs: "rs = take (nat m) xs" by auto
    have "distinct xs" "set xs = {p \<in> real_blocks s'. ref_cnt (heap s' p) = 0}"
      using pool_relD [OF xs] fq_rel_distinct by (auto simp: refs_ok_def)
    then show ?thesis using rs same_config_ok(2) [OF o(2)] by (auto dest: in_set_takeD)
  qed
  show ?thesis using o(3) new by fastforce
qed

theorem no_block_used_twice_witness:
  "\<exists>s s1 s2 s3 s4 rs. block_pool_init 4 True 2 True = Inr s \<and> get_new_blocks False 1 s = Inr (s1, [Blk 1])
     \<and> touch [Blk 1] s1 = Inr s2 \<and> free_blocks [Blk 1] s2 = Inr s3 \<and> get_new_blocks False 2 s3 = Inr (s4, rs)
     \<and> Blk 1 \<notin> set rs \<and> distinct rs"
proof -
  obtain s where s: "block_pool_init 4 True 2 True = Inr s" "pool_rel s [Blk 1, Blk 2, Blk 3]" "num_free_blocks s = 3"
     "num_gpu_blocks s = 4" "\<forall>p. ref_cnt (heap s p) = 0" using demo_pool by blast
  obtain s1 where s1: "get_new_blocks False 1 s = Inr (s1, [Blk 1])" "pool_rel s1 [Blk 2, Blk 3]" "same_config s s1"
      "ref_cnt (heap s1 (Blk 1)) = 1"
    using get_new_blocks_ok [OF s(2), of 1 False] s(3,5) by (auto simp: alloc_effect_def)
  have one: "Blk 1 \<in> real_blocks s" using s(4) by (simp add: real_blocks_def)
  then have in1: "set [Blk 1] \<subseteq> set (blocks s1)" using real_in_blocks same_config_ok(3) [OF s1(3)] by auto
  from touch_ok [OF s1(2) this] obtain s2 where s2: "touch [Blk 1] s1 = Inr s2" "pool_rel s2 [Blk 2, Blk 3]"
    "shifted (\<lambda>q. int (count_list [Blk 1] q)) s1 s2" by auto
  then have in2: "set [Blk 1] \<subseteq> set (blocks s2)" and ref: "ref_cnt (heap s2 (Blk 1)) = 2"
    using in1 s1(4) same_config_ok(3) [OF shifted_config [OF s2(3)]] by (auto simp: shifted_def)
  then have held: "distinct (filter (\<lambda>p. p \<in> real_blocks s2) [Blk 1])"
    "\<forall>p \<in> set [Blk 1] \<inter> real_blocks s2. 0 < ref_cnt (heap s2 p)" by auto
  from free_blocks_ok [OF s2(2) in2 held] ref obtain s3 where s3: "free_blocks [Blk 1] s2 = Inr s3" "pool_rel s3 [Blk 2, Blk 3]"
    by auto
  obtain s4 rs where s4: "get_new_blocks False 2 s3 = Inr (s4, rs)"
    using get_new_blocks_ok [OF s3(2), of 2 False] fq_rel_num [OF pool_relD(1) [OF s3(2)]] by auto
  have run: "pool_run False s (([] @ [Blk 1]) @ [Blk 1]) ([] @ [Blk 1]) s3"
    by (rule run_free [OF run_touch [OF run_alloc [OF run_start _ s1(1)] in1 s2(1)] in2 held s3(1)]) simp
  note p = no_block_used_twice [OF reach_init [OF s(1)] run, THEN conjunct2, rule_format, of 2 s4 rs]
  have "distinct rs" using p s4 by simp
  moreover have "Blk 1 \<notin> set rs" using p s4 one s(5) by auto
  ultimately show ?thesis using s(1) s1(1) s2(1) s3(1) s4 by blast
qed

text \<open>
  \<^verbatim>\<open>reset_prefix_cache\<close> succeeds exactly when no ordinary block is referenced, does nothing
  otherwise, and after a success no block has a hash, so that every lookup misses; the usage it
  is guarded by is between 0 and 1.
\<close>

theorem reset_prefix_cache_correct:
  assumes "pool_inv s"
  shows "snd (reset_prefix_cache s) = (\<forall>p \<in> real_blocks s. ref_cnt (heap s p) = 0)
   \<and> (\<not> snd (reset_prefix_cache s) \<longrightarrow> fst (reset_prefix_cache s) = s)
   \<and> (snd (reset_prefix_cache s) \<longrightarrow> (\<nexists>k p. block_with_key (fst (reset_prefix_cache s)) k p))
   \<and> pool_inv (fst (reset_prefix_cache s))
   \<and> 0 \<le> get_usage s \<and> get_usage s \<le> 1"
proof -
  obtain xs where xs: "pool_rel s xs" using assms by (auto simp: pool_inv_def)
  note o = reset_prefix_cache_ok [OF xs]
  have rb: "real_blocks (fst (reset_prefix_cache s)) = real_blocks s" using o(4) same_config_ok(2) by blast
  have "\<nexists>k p. block_with_key (fst (reset_prefix_cache s)) k p" if "snd (reset_prefix_cache s)"
    using o(3) [OF that] real_in_blocks [of s] by (auto simp: block_with_key_def rb)
  moreover have "0 \<le> get_usage s \<and> get_usage s \<le> 1"
  proof -
    have sub: "{p \<in> real_blocks s. ref_cnt (heap s p) = 0} \<subseteq> real_blocks s" by blast
    have le: "0 \<le> num_free_blocks s" "num_free_blocks s \<le> num_gpu_blocks s - 1"
      using free_count [OF xs] card_real_blocks [OF pool_relD(2) [OF xs]] card_mono [OF finite_real_blocks sub] by linarith+
    show ?thesis
    proof (cases "num_gpu_blocks s - 1 = 0")
      case False
      then have "0 < num_gpu_blocks s - 1" using le by linarith
      then have "(of_int (num_free_blocks s) :: rat) / of_int (num_gpu_blocks s - 1) \<le> 1"
        "0 \<le> (of_int (num_free_blocks s) :: rat) / of_int (num_gpu_blocks s - 1)"
        using le by (simp_all only: divide_le_eq_1_pos of_int_0_less_iff of_int_le_iff divide_nonneg_pos of_int_0_le_iff)
      with False show ?thesis by (simp add: get_usage_def get_num_free_blocks_def Let_def)
    qed (simp add: get_usage_def)
  qed
  moreover have "pool_inv (fst (reset_prefix_cache s))" using o(4) unfolding pool_inv_def by blast
  ultimately show ?thesis using o(1,2) by blast
qed

theorem reset_prefix_cache_correct_witness:
  "\<exists>s. block_pool_init 4 True 2 True = Inr s \<and> snd (reset_prefix_cache s)
     \<and> (\<nexists>k p. block_with_key (fst (reset_prefix_cache s)) k p)"
proof -
  obtain s where s: "block_pool_init 4 True 2 True = Inr s" "pool_inv s" "\<forall>p. ref_cnt (heap s p) = 0" using demo_pool by blast
  from reset_prefix_cache_correct [OF s(2)] s show ?thesis by blast
qed

end
