(* ===== verification/Binary_Heap.thy ===== *)
theory Binary_Heap
  imports Vllm_Prelude
begin

section \<open>Binary heaps in a list\<close>

text \<open>
  The algorithms of Python's \<^verbatim>\<open>heapq\<close> that the priority queue of the scheduler calls, over any
  comparison \<open>lt\<close>: \<open>heappush\<close>, \<open>heappop\<close> and \<open>heapify\<close> with their two helper loops. A pop moves the
  smaller children up until it reaches a leaf and then sifts the last element back from there,
  as the library does. The locale \<open>heap_order\<close> states what the comparison must satisfy and proves
  the algorithms once.
\<close>

subsection \<open>The algorithms\<close>

function siftdown :: "('a \<Rightarrow> 'a \<Rightarrow> bool) \<Rightarrow> nat \<Rightarrow> nat \<Rightarrow> 'a \<Rightarrow> 'a list \<Rightarrow> 'a list" where
  "siftdown lt startpos pos newitem h =
     (if pos > startpos then
        (let parentpos = (pos - 1) div 2 in
         if lt newitem (h ! parentpos)
         then siftdown lt startpos parentpos newitem (h[pos := h ! parentpos])
         else h[pos := newitem])
      else h[pos := newitem])"
  by pat_completeness auto
termination
  by (relation "measure (\<lambda>(lt, startpos, pos, newitem, h). pos)") auto

definition smaller_child :: "('a \<Rightarrow> 'a \<Rightarrow> bool) \<Rightarrow> nat \<Rightarrow> 'a list \<Rightarrow> nat" where
  "smaller_child lt pos h = (let childpos = 2 * pos + 1; rightpos = childpos + 1
     in if rightpos < length h \<and> \<not> lt (h ! childpos) (h ! rightpos) then rightpos else childpos)"

function siftup_loop :: "('a \<Rightarrow> 'a \<Rightarrow> bool) \<Rightarrow> nat \<Rightarrow> 'a list \<Rightarrow> nat \<times> 'a list" where
  "siftup_loop lt pos h =
     (if 2 * pos + 1 < length h
      then siftup_loop lt (smaller_child lt pos h) (h[pos := h ! smaller_child lt pos h])
      else (pos, h))"
  by pat_completeness auto
termination
  by (relation "measure (\<lambda>(lt, pos, h). length h - pos)") (auto simp: smaller_child_def Let_def)

declare siftdown.simps [simp del] siftup_loop.simps [simp del]

definition siftup :: "('a \<Rightarrow> 'a \<Rightarrow> bool) \<Rightarrow> nat \<Rightarrow> 'a list \<Rightarrow> 'a list" where
  "siftup lt pos h = (let (leaf, h') = siftup_loop lt pos h in siftdown lt pos leaf (h ! pos) h')"

definition heappush :: "('a \<Rightarrow> 'a \<Rightarrow> bool) \<Rightarrow> 'a \<Rightarrow> 'a list \<Rightarrow> 'a list" where
  "heappush lt x h = siftdown lt 0 (length h) x (h @ [x])"

definition heappop :: "('a \<Rightarrow> 'a \<Rightarrow> bool) \<Rightarrow> 'a list \<Rightarrow> ('a list \<times> 'a) result" where
  "heappop lt h =
     (if h = [] then Inl IndexError
      else let lastelt = last h; h' = butlast h
        in if h' \<noteq> [] then Inr (siftup lt 0 (h'[0 := lastelt]), h' ! 0) else Inr (h', lastelt))"

definition heapify :: "('a \<Rightarrow> 'a \<Rightarrow> bool) \<Rightarrow> 'a list \<Rightarrow> 'a list" where
  "heapify lt h = fold (siftup lt) (rev [0..<length h div 2]) h"

subsection \<open>Lengths and contents\<close>

lemma length_siftdown [simp]: "length (siftdown lt s pos x h) = length h"
  by (induction lt s pos x h rule: siftdown.induct) (subst siftdown.simps, simp add: Let_def)

lemma smaller_child_bounds:
  "2 * pos + 1 < length h \<Longrightarrow> smaller_child lt pos h < length h \<and> pos < smaller_child lt pos h
     \<and> (smaller_child lt pos h - 1) div 2 = pos \<and> 0 < smaller_child lt pos h"
  by (auto simp: smaller_child_def Let_def)

lemma mset_move:
  "i < length h \<Longrightarrow> j < length h \<Longrightarrow> i \<noteq> j \<Longrightarrow> mset (h[i := h ! j, j := x]) = mset (h[i := x])"
  using mset_swap [of j "h[i := x]" i] by (simp add: list_update_swap)

lemma siftdown_mset: "pos < length h \<Longrightarrow> mset (siftdown lt s pos x h) = mset (h[pos := x])"
proof (induction lt s pos x h rule: siftdown.induct)
  case (1 lt s pos x h)
  let ?p = "(pos - 1) div 2"
  have p: "?p < length h" "?p \<noteq> pos" if "pos > s" using "1.prems" that by linarith+
  show ?case
    using 1 p by (subst siftdown.simps) (auto simp: Let_def mset_move)
qed

lemma siftup_loop_facts:
  assumes "pos < length h" and "siftup_loop lt pos h = (leaf, h')"
  shows "length h' = length h \<and> leaf < length h \<and> length h \<le> 2 * leaf + 1
    \<and> mset (h'[leaf := x]) = mset (h[pos := x])"
  using assms
proof (induction lt pos h rule: siftup_loop.induct)
  case (1 lt pos h)
  let ?c = "smaller_child lt pos h"
  show ?case
  proof (cases "2 * pos + 1 < length h")
    case True
    note b = smaller_child_bounds [OF True, of lt]
    have run: "siftup_loop lt ?c (h[pos := h ! ?c]) = (leaf, h')"
      using "1.prems"(2) True by (simp add: siftup_loop.simps [of lt pos h])
    have "length h' = length (h[pos := h ! ?c]) \<and> leaf < length (h[pos := h ! ?c])
        \<and> length (h[pos := h ! ?c]) \<le> 2 * leaf + 1 \<and> mset (h'[leaf := x]) = mset (h[pos := h ! ?c, ?c := x])"
      by (rule "1.IH" [OF True _ run]) (use b in simp)
    with b "1.prems"(1) mset_move [of pos h ?c x] show ?thesis by simp
  next
    case False
    with "1.prems" show ?thesis by (simp add: siftup_loop.simps [of lt pos h])
  qed
qed

lemma siftup_mset:
  assumes "pos < length h"
  shows "mset (siftup lt pos h) = mset h" and "length (siftup lt pos h) = length h"
proof -
  obtain leaf h' where run: "siftup_loop lt pos h = (leaf, h')" by force
  note f = siftup_loop_facts [OF assms run]
  show "mset (siftup lt pos h) = mset h"
    using f siftdown_mset [of leaf h' lt pos "h ! pos"] by (simp add: siftup_def run)
  show "length (siftup lt pos h) = length h" using f(1) by (simp add: siftup_def run)
qed


lemma heapify_mset: "mset (heapify lt h) = mset h"
proof -
  have "(\<forall>i \<in> set is. i < length h) \<Longrightarrow> mset (fold (siftup lt) is h) = mset h" for "is" h
  proof (induction "is" arbitrary: h)
    case (Cons i "is")
    then show ?case using siftup_mset [of i h lt] by simp
  qed simp
  moreover have "\<forall>i \<in> set (rev [0..<length h div 2]). i < length h" by auto
  ultimately show ?thesis unfolding heapify_def by blast
qed

subsection \<open>Correctness for an ordering\<close>

locale heap_order =
  fixes lt :: "'a \<Rightarrow> 'a \<Rightarrow> bool"
  assumes lt_irrefl: "\<not> lt a a"
    and lt_asym: "lt a b \<Longrightarrow> \<not> lt b a"
    and lt_negtrans: "lt a c \<Longrightarrow> lt a b \<or> lt b c"
begin

abbreviation le :: "'a \<Rightarrow> 'a \<Rightarrow> bool" where
  "le a b \<equiv> \<not> lt b a"

text \<open>The heap order at every edge whose parent is at position \<open>s\<close> or later.\<close>

definition heap_from :: "nat \<Rightarrow> 'a list \<Rightarrow> bool" where
  "heap_from s h \<longleftrightarrow> (\<forall>i. 0 < i \<and> i < length h \<and> s \<le> (i - 1) div 2 \<longrightarrow> le (h ! ((i - 1) div 2)) (h ! i))"

text \<open>A heap with a hole at \<open>pos\<close>: the edges around the hole are skipped.\<close>

definition holed :: "nat \<Rightarrow> 'a list \<Rightarrow> nat \<Rightarrow> bool" where
  "holed s h pos \<longleftrightarrow>
     (\<forall>i. 0 < i \<and> i < length h \<and> s \<le> (i - 1) div 2 \<and> i \<noteq> pos \<and> (i - 1) div 2 \<noteq> pos
        \<longrightarrow> le (h ! ((i - 1) div 2)) (h ! i))
     \<and> (\<forall>i. 0 < i \<and> i < length h \<and> (i - 1) div 2 = pos \<and> s < pos \<longrightarrow> le (h ! ((pos - 1) div 2)) (h ! i))"

text \<open>\<open>pos\<close> lies in the subtree of \<open>s\<close>.\<close>

inductive below :: "nat \<Rightarrow> nat \<Rightarrow> bool" for s where
  below_refl: "below s s"
| below_child: "below s ((pos - 1) div 2) \<Longrightarrow> 0 < pos \<Longrightarrow> below s pos"

lemma le_trans: "le a b \<Longrightarrow> le b c \<Longrightarrow> le a c"
  using lt_negtrans by blast

lemma below_ge: "below s pos \<Longrightarrow> s \<le> pos"
  by (induction rule: below.induct) linarith+

lemma below_cases: "below s pos \<Longrightarrow> pos = s \<or> (s < pos \<and> below s ((pos - 1) div 2))"
  by (erule below.cases) (auto dest: below_ge)

lemma holedD:
  "holed s h pos \<Longrightarrow> 0 < i \<Longrightarrow> i < length h \<Longrightarrow> s \<le> (i - 1) div 2 \<Longrightarrow> i \<noteq> pos \<Longrightarrow>
     (i - 1) div 2 \<noteq> pos \<Longrightarrow> le (h ! ((i - 1) div 2)) (h ! i)"
  "holed s h pos \<Longrightarrow> 0 < i \<Longrightarrow> i < length h \<Longrightarrow> (i - 1) div 2 = pos \<Longrightarrow> s < pos \<Longrightarrow>
     le (h ! ((pos - 1) div 2)) (h ! i)"
  unfolding holed_def by blast+

lemma fill_hole:
  assumes "holed s h pos" and "pos < length h" and "below s pos"
    and "\<forall>i. 0 < i \<and> i < length h \<and> (i - 1) div 2 = pos \<longrightarrow> le x (h ! i)"
    and "s < pos \<Longrightarrow> le (h ! ((pos - 1) div 2)) x"
  shows "heap_from s (h[pos := x])"
  unfolding heap_from_def
proof (intro allI impI)
  fix i assume i: "0 < i \<and> i < length (h[pos := x]) \<and> s \<le> (i - 1) div 2"
  then have par: "(i - 1) div 2 < i" "(i - 1) div 2 < length h" by auto
  consider "i = pos" | "(i - 1) div 2 = pos" "i \<noteq> pos" | "i \<noteq> pos" "(i - 1) div 2 \<noteq> pos" by blast
  then show "le (h[pos := x] ! ((i - 1) div 2)) (h[pos := x] ! i)"
  proof cases
    case 1
    with i par have "s < pos" by linarith
    with 1 assms(2,5) par show ?thesis by (simp add: nth_list_update)
  next
    case 2
    with i assms(2,4) show ?thesis by simp
  next
    case 3
    with i holedD(1) [OF assms(1), of i] show ?thesis by simp
  qed
qed

lemma siftdown_heap:
  "holed s h pos \<Longrightarrow> pos < length h \<Longrightarrow> below s pos \<Longrightarrow>
   (\<forall>i. 0 < i \<and> i < length h \<and> (i - 1) div 2 = pos \<longrightarrow> le x (h ! i)) \<Longrightarrow>
   heap_from s (siftdown lt s pos x h)"
proof (induction pos arbitrary: h rule: less_induct)
  case (less pos)
  note hole = less.prems(1) and len = less.prems(2) and bel = less.prems(3) and ch = less.prems(4)
  let ?p = "(pos - 1) div 2"
  show ?case
  proof (cases "s < pos \<and> lt x (h ! ?p)")
    case False
    then have "siftdown lt s pos x h = h[pos := x]" by (subst siftdown.simps) (auto simp: Let_def)
    with fill_hole [OF hole len bel ch] False show ?thesis by auto
  next
    case True
    then have p: "?p < pos" "?p < length h" "below s ?p" "s \<le> ?p"
      using len below_cases [OF bel] by (auto dest: below_ge)
    let ?h = "h[pos := h ! ?p]"
    have step: "siftdown lt s pos x h = siftdown lt s ?p x ?h"
      using True by (subst siftdown.simps) (simp add: Let_def)
    have sib: "le (h ! ?p) (?h ! i)" if "0 < i" "i < length h" "(i - 1) div 2 = ?p" for i
    proof (cases "i = pos")
      case True
      then show ?thesis using len lt_irrefl by simp
    next
      case False
      then show ?thesis using holedD(1) [OF hole that(1,2)] that p by simp
    qed
    have hole': "holed s ?h ?p"
      unfolding holed_def
    proof (intro conjI allI impI)
      fix i assume i: "0 < i \<and> i < length ?h \<and> s \<le> (i - 1) div 2 \<and> i \<noteq> ?p \<and> (i - 1) div 2 \<noteq> ?p"
      then have "i \<noteq> pos" by auto
      show "le (?h ! ((i - 1) div 2)) (?h ! i)"
      proof (cases "(i - 1) div 2 = pos")
        case True
        then show ?thesis using holedD(2) [OF hole, of i] i \<open>s < pos \<and> lt x (h ! ?p)\<close> len \<open>i \<noteq> pos\<close> by simp
      next
        case False
        then show ?thesis using holedD(1) [OF hole, of i] i \<open>i \<noteq> pos\<close> by simp
      qed
    next
      fix i assume i: "0 < i \<and> i < length ?h \<and> (i - 1) div 2 = ?p \<and> s < ?p"
      have "s \<le> (?p - 1) div 2" using below_cases [OF p(3)] i by (auto dest: below_ge)
      then have up: "le (h ! ((?p - 1) div 2)) (h ! ?p)"
      proof -
        have "0 < ?p" "?p \<noteq> pos" "(?p - 1) div 2 \<noteq> pos" using p i by auto
        then show ?thesis using holedD(1) [OF hole _ p(2) \<open>s \<le> (?p - 1) div 2\<close>] by blast
      qed
      have down: "le (h ! ?p) (?h ! i)" using sib i by simp
      have "(?p - 1) div 2 \<noteq> pos" using p by linarith
      then have "?h ! ((?p - 1) div 2) = h ! ((?p - 1) div 2)" by simp
      with le_trans [OF up down] show "le (?h ! ((?p - 1) div 2)) (?h ! i)" by (simp only: simp_thms)
    qed
    have "le x (h ! ?p)" using True lt_asym by blast
    then have "\<forall>i. 0 < i \<and> i < length ?h \<and> (i - 1) div 2 = ?p \<longrightarrow> le x (?h ! i)"
      using sib le_trans by simp
    from less.IH [OF p(1) hole' _ p(3) this] p(2) step show ?thesis by simp
  qed
qed

text \<open>Moving the smaller child up keeps a heap with a hole, until the hole is a leaf.\<close>

lemma siftup_loop_holed:
  "holed s h pos \<Longrightarrow> pos < length h \<Longrightarrow> below s pos \<Longrightarrow> siftup_loop lt pos h = (leaf, h') \<Longrightarrow>
   holed s h' leaf \<and> below s leaf"
proof (induction "length h - pos" arbitrary: h pos rule: less_induct)
  case less
  note hole = less.prems(1) and len = less.prems(2) and bel = less.prems(3) and run = less.prems(4)
  show ?case
  proof (cases "2 * pos + 1 < length h")
    case False
    with run hole bel show ?thesis by (simp add: siftup_loop.simps [of lt pos h])
  next
    case True
    define c where "c = smaller_child lt pos h"
    have c: "c < length h" "pos < c" "(c - 1) div 2 = pos" "0 < c"
      using smaller_child_bounds [OF True, of lt] by (simp_all add: c_def)
    have min: "le (h ! c) (h ! i)" if "0 < i" "i < length h" "(i - 1) div 2 = pos" for i
    proof -
      have "i = 2 * pos + 1 \<or> i = 2 * pos + 2" using that by linarith
      then show ?thesis
        using that lt_irrefl lt_asym by (auto simp: c_def smaller_child_def Let_def)
    qed
    let ?h = "h[pos := h ! c]"
    have run': "siftup_loop lt c ?h = (leaf, h')"
      using run True by (simp add: siftup_loop.simps [of lt pos h] c_def)
    have s: "s \<le> pos" using bel below_ge by blast
    have "holed s ?h c"
      unfolding holed_def
    proof (intro conjI allI impI)
      fix i assume i: "0 < i \<and> i < length ?h \<and> s \<le> (i - 1) div 2 \<and> i \<noteq> c \<and> (i - 1) div 2 \<noteq> c"
      consider "i = pos" | "(i - 1) div 2 = pos" "i \<noteq> pos" | "i \<noteq> pos" "(i - 1) div 2 \<noteq> pos" by blast
      then show "le (?h ! ((i - 1) div 2)) (?h ! i)"
      proof cases
        case 1
        have "(pos - 1) div 2 < pos" using i 1 by auto
        with 1 i have "s < pos" by linarith
        with holedD(2) [OF hole c(4,1,3)] 1 len \<open>(pos - 1) div 2 < pos\<close> show ?thesis by simp
      next
        case 2
        with min i len show ?thesis by simp
      next
        case 3
        with holedD(1) [OF hole, of i] i show ?thesis by simp
      qed
    next
      fix i assume i: "0 < i \<and> i < length ?h \<and> (i - 1) div 2 = c \<and> s < c"
      then have "i \<noteq> pos" "c \<noteq> pos" using c(2) by auto
      with holedD(1) [OF hole, of i] i s c len show "le (?h ! ((c - 1) div 2)) (?h ! i)" by simp
    qed
    moreover have "below s c" using below_child [of s c] bel c by simp
    ultimately show ?thesis using less.hyps [of ?h c] run' c by simp
  qed
qed

lemma siftup_heap:
  assumes "heap_from (Suc s) h" and "s < length h"
  shows "heap_from s (siftup lt s h)"
proof -
  have "holed s h s" using assms(1) unfolding holed_def heap_from_def by simp
  moreover obtain leaf h' where run: "siftup_loop lt s h = (leaf, h')" by force
  ultimately have h': "holed s h' leaf" "below s leaf"
    using siftup_loop_holed [OF _ assms(2) below_refl run] by auto
  note f = siftup_loop_facts [OF assms(2) run, of "h ! s"]
  have "heap_from s (siftdown lt s leaf (h ! s) h')"
    by (rule siftdown_heap [OF h'(1) _ h'(2)]) (use f in auto)
  then show ?thesis by (simp add: siftup_def run)
qed

abbreviation is_heap :: "'a list \<Rightarrow> bool" where
  "is_heap \<equiv> heap_from 0"

lemma heap_root_min: "is_heap h \<Longrightarrow> i < length h \<Longrightarrow> le (h ! 0) (h ! i)"
proof (induction i rule: less_induct)
  case (less i)
  show ?case
  proof (cases "i = 0")
    case True
    then show ?thesis using lt_irrefl by simp
  next
    case False
    then have "(i - 1) div 2 < i" by auto
    with less False have "le (h ! 0) (h ! ((i - 1) div 2))" by simp
    moreover have "le (h ! ((i - 1) div 2)) (h ! i)" using less.prems False by (simp add: heap_from_def)
    ultimately show ?thesis by (rule le_trans)
  qed
qed

lemma heappush_heap: "is_heap h \<Longrightarrow> is_heap (heappush lt x h) \<and> mset (heappush lt x h) = add_mset x (mset h)"
proof -
  assume h: "is_heap h"
  have bel: "below 0 pos" for pos
  proof (induction pos rule: less_induct)
    case (less pos)
    show ?case
    proof (cases "pos = 0")
      case False
      then have "below 0 ((pos - 1) div 2)" by (intro less) auto
      with False show ?thesis by (intro below_child [of 0 pos]) auto
    qed (simp add: below_refl)
  qed
  have "holed 0 (h @ [x]) (length h)"
    unfolding holed_def
  proof (intro conjI allI impI)
    fix i assume i: "0 < i \<and> i < length (h @ [x]) \<and> 0 \<le> (i - 1) div 2 \<and> i \<noteq> length h \<and> (i - 1) div 2 \<noteq> length h"
    then have "i < length h" "(i - 1) div 2 < length h" by auto
    with h i show "le ((h @ [x]) ! ((i - 1) div 2)) ((h @ [x]) ! i)"
      by (simp add: heap_from_def nth_append)
  next
    fix i assume "0 < i \<and> i < length (h @ [x]) \<and> (i - 1) div 2 = length h \<and> 0 < length h"
    then have False by auto
    then show "le ((h @ [x]) ! ((length h - 1) div 2)) ((h @ [x]) ! i)" ..
  qed
  then have "is_heap (siftdown lt 0 (length h) x (h @ [x]))"
    by (rule siftdown_heap) (auto simp: bel)
  then show ?thesis by (simp add: heappush_def siftdown_mset)
qed

lemma heapify_heap: "is_heap (heapify lt h)"
proof -
  have "n \<le> length h \<Longrightarrow> heap_from n h \<Longrightarrow> is_heap (fold (siftup lt) (rev [0..<n]) h)" for n h
  proof (induction n arbitrary: h)
    case (Suc n)
    have "heap_from n (siftup lt n h)" using Suc.prems by (intro siftup_heap) auto
    with Suc.IH [of "siftup lt n h"] Suc.prems siftup_mset(2) [of n h lt] show ?case by simp
  qed simp
  moreover have "heap_from (length h div 2) h" by (auto simp: heap_from_def)
  ultimately show ?thesis by (simp add: heapify_def)
qed

lemma butlast_heap: "is_heap h \<Longrightarrow> is_heap (butlast h)"
  by (auto simp: heap_from_def nth_butlast)

lemma heappop_min:
  assumes h: "is_heap h" and ne: "h \<noteq> []"
  shows "\<exists>h' x. heappop lt h = Inr (h', x) \<and> is_heap h' \<and> mset h = add_mset x (mset h')
    \<and> (\<forall>y \<in> set h. le x y)"
proof -
  have root: "\<forall>y \<in> set h. le (h ! 0) y" using heap_root_min [OF h] by (auto simp: in_set_conv_nth)
  show ?thesis
  proof (cases "butlast h = []")
    case True
    with ne obtain x where "h = [x]" by (cases h) (auto split: if_splits)
    with root show ?thesis by (simp add: heappop_def heap_from_def)
  next
    case False
    let ?b = "butlast h" and ?l = "last h"
    have eq: "h = ?b @ [?l]" using ne by simp
    have len: "0 < length ?b" using False by blast
    have h0: "?b ! 0 = h ! 0" using False by (metis nth_butlast length_greater_0_conv)
    have "heap_from (Suc 0) (?b[0 := ?l])"
      using butlast_heap [OF h] unfolding heap_from_def by (auto simp: nth_list_update)
    then have up: "is_heap (siftup lt 0 (?b[0 := ?l]))" by (rule siftup_heap) (use len in simp)
    have "mset (siftup lt 0 (?b[0 := ?l])) = mset (?b[0 := ?l])"
      by (rule siftup_mset) (use len in simp)
    also have "\<dots> = add_mset ?l (mset ?b - {#?b ! 0#})" using len by (simp add: mset_update)
    finally have "mset h = add_mset (?b ! 0) (mset (siftup lt 0 (?b[0 := ?l])))"
      using nth_mem [OF len] by (subst eq) simp
    then show ?thesis using up root False ne h0 by (simp add: heappop_def Let_def)
  qed
qed

end

end
