(* ===== verification/Request_Queue.thy ===== *)
theory Request_Queue
  imports Requests Binary_Heap
begin

section \<open>The queues of waiting requests\<close>

text \<open>
  \<^verbatim>\<open>vllm/v1/core/sched/request_queue.py\<close>. The two classes behind \<^verbatim>\<open>RequestQueue\<close> are the two
  constructors of one datatype, and an operation has one equation per class. The queues hold
  references: \<^verbatim>\<open>Request\<close> defines no equality of its own, so two entries are the same request if
  the references are equal, and a request may change while it waits. The argument \<open>st\<close> is the store that
  gives the request behind a reference; a comparison reads through it. The set given to
  \<^verbatim>\<open>remove_requests\<close> is a list.
\<close>

datatype SchedulingPolicy = FCFS | PRIORITY

datatype 'r RequestQueue = FCFSRequestQueue "'r list" | PriorityRequestQueue "'r list"

definition ref_lt :: "('r \<Rightarrow> Request) \<Rightarrow> 'r \<Rightarrow> 'r \<Rightarrow> bool" where
  "ref_lt st a b \<longleftrightarrow> request_lt (st a) (st b)"

fun create_request_queue :: "SchedulingPolicy \<Rightarrow> 'r RequestQueue" where
  "create_request_queue PRIORITY = PriorityRequestQueue []"
| "create_request_queue FCFS = FCFSRequestQueue []"

fun add_request :: "('r \<Rightarrow> Request) \<Rightarrow> 'r \<Rightarrow> 'r RequestQueue \<Rightarrow> 'r RequestQueue" where
  "add_request st r (FCFSRequestQueue q) = FCFSRequestQueue (q @ [r])"
| "add_request st r (PriorityRequestQueue h) = PriorityRequestQueue (heappush (ref_lt st) r h)"

fun pop_request :: "('r \<Rightarrow> Request) \<Rightarrow> 'r RequestQueue \<Rightarrow> ('r RequestQueue \<times> 'r) result" where
  "pop_request st (FCFSRequestQueue q) =
     (case q of [] \<Rightarrow> Inl IndexError | r # q' \<Rightarrow> Inr (FCFSRequestQueue q', r))"
| "pop_request st (PriorityRequestQueue h) =
     (if h = [] then Inl IndexError
      else bindE (heappop (ref_lt st) h) (\<lambda>(h', r). Inr (PriorityRequestQueue h', r)))"

fun peek_request :: "'r RequestQueue \<Rightarrow> 'r result" where
  "peek_request (FCFSRequestQueue q) = (case q of [] \<Rightarrow> Inl IndexError | r # _ \<Rightarrow> Inr r)"
| "peek_request (PriorityRequestQueue h) = (case h of [] \<Rightarrow> Inl IndexError | r # _ \<Rightarrow> Inr r)"

fun prepend_request :: "('r \<Rightarrow> Request) \<Rightarrow> 'r \<Rightarrow> 'r RequestQueue \<Rightarrow> 'r RequestQueue" where
  "prepend_request st r (FCFSRequestQueue q) = FCFSRequestQueue (r # q)"
| "prepend_request st r (PriorityRequestQueue h) = add_request st r (PriorityRequestQueue h)"

text \<open>Iteration over a priority queue pops a copy of the heap until it is empty.\<close>

primrec pop_all :: "('r \<Rightarrow> Request) \<Rightarrow> nat \<Rightarrow> 'r list \<Rightarrow> 'r list result" where
  "pop_all st 0 h = Inr []"
| "pop_all st (Suc n) h = (if h = [] then Inr []
     else bindE (heappop (ref_lt st) h) (\<lambda>(h', r). bindE (pop_all st n h') (\<lambda>rs. Inr (r # rs))))"

fun iter_requests :: "('r \<Rightarrow> Request) \<Rightarrow> 'r RequestQueue \<Rightarrow> 'r list result" where
  "iter_requests st (FCFSRequestQueue q) = Inr q"
| "iter_requests st (PriorityRequestQueue h) = pop_all st (length h) h"

fun prepend_requests :: "('r \<Rightarrow> Request) \<Rightarrow> 'r RequestQueue \<Rightarrow> 'r RequestQueue \<Rightarrow> 'r RequestQueue result" where
  "prepend_requests st rs (FCFSRequestQueue q) =
     bindE (iter_requests st rs) (\<lambda>l. Inr (FCFSRequestQueue (rev l @ q)))"
| "prepend_requests st rs (PriorityRequestQueue h) =
     bindE (iter_requests st rs) (\<lambda>l. Inr (fold (add_request st) l (PriorityRequestQueue h)))"

fun remove_object :: "'r \<Rightarrow> 'r list \<Rightarrow> 'r list result" where
  "remove_object r [] = Inl ValueError"
| "remove_object r (x # xs) =
     (if x = r then Inr xs else bindE (remove_object r xs) (\<lambda>ys. Inr (x # ys)))"

fun remove_request :: "('r \<Rightarrow> Request) \<Rightarrow> 'r \<Rightarrow> 'r RequestQueue \<Rightarrow> 'r RequestQueue result" where
  "remove_request st r (FCFSRequestQueue q) = bindE (remove_object r q) (\<lambda>q'. Inr (FCFSRequestQueue q'))"
| "remove_request st r (PriorityRequestQueue h) =
     bindE (remove_object r h) (\<lambda>h'. Inr (PriorityRequestQueue (heapify (ref_lt st) h')))"

fun remove_requests :: "('r \<Rightarrow> Request) \<Rightarrow> 'r list \<Rightarrow> 'r RequestQueue \<Rightarrow> 'r RequestQueue" where
  "remove_requests st rs (FCFSRequestQueue q) =
     FCFSRequestQueue (filter (\<lambda>x. x \<notin> set rs) q)"
| "remove_requests st rs (PriorityRequestQueue h) =
     PriorityRequestQueue (heapify (ref_lt st) (filter (\<lambda>x. x \<notin> set rs) h))"

fun len_requests :: "'r RequestQueue \<Rightarrow> nat" where
  "len_requests (FCFSRequestQueue q) = length q"
| "len_requests (PriorityRequestQueue h) = length h"

definition has_requests :: "'r RequestQueue \<Rightarrow> bool" where
  "has_requests q \<longleftrightarrow> len_requests q > 0"

subsection \<open>The comparison of requests orders heaps\<close>

lemma request_lt_negtrans: "request_lt a c \<Longrightarrow> request_lt a b \<or> request_lt b c"
  unfolding request_lt_def by (auto split: if_splits)

interpretation rh: heap_order "ref_lt st" for st
  unfolding ref_lt_def by unfold_locales (use request_lt_irrefl request_lt_trans request_lt_negtrans in blast)+

fun queue_bag :: "'r RequestQueue \<Rightarrow> 'r multiset" where
  "queue_bag (FCFSRequestQueue q) = mset q"
| "queue_bag (PriorityRequestQueue h) = mset h"

text \<open>
  What a queue contains does not depend on the heap order: requests keep their place in the count
  even if their priorities change while they wait.
\<close>

lemma heappop_contents:
  assumes "heappop lt h = Inr (h', x)"
  shows "mset h = add_mset x (mset h') \<and> x = hd h"
proof (cases "butlast h = []")
  case True
  with assms show ?thesis by (cases h) (auto simp: heappop_def split: if_splits)
next
  case False
  then obtain y ys where h: "h = y # ys @ [last h]" "butlast h = y # ys"
    by (cases h) (auto split: if_splits, metis append_butlast_last_id)
  have "h' = siftup lt 0 (last h # ys)" "x = y" using assms h(2) by (auto simp: heappop_def split: if_splits)
  moreover have "mset h = add_mset y (mset (last h # ys))" by (subst h(1)) simp
  ultimately show ?thesis using siftup_mset(1) [of 0 "last h # ys" lt] h(1) by (metis length_greater_0_conv list.sel(1) list.discI)
qed

lemma heappop_returns: "h \<noteq> [] \<Longrightarrow> \<exists>h' x. heappop lt h = Inr (h', x)"
  by (auto simp: heappop_def Let_def)

lemma heappush_contents: "mset (heappush lt x h) = add_mset x (mset h)"
  using siftdown_mset [of "length h" "h @ [x]" lt 0 x] by (simp add: heappush_def)

lemma bag_add_request [simp]: "queue_bag (add_request st r q) = add_mset r (queue_bag q)"
  by (cases q) (simp_all add: heappush_contents)

lemma bag_prepend_request [simp]: "queue_bag (prepend_request st r q) = add_mset r (queue_bag q)"
  by (cases q) (simp_all add: heappush_contents)

lemma bag_create_request_queue [simp]: "queue_bag (create_request_queue policy) = {#}"
  by (cases policy) simp_all

lemma bag_pop_request:
  "pop_request st q = Inr (q', x) \<Longrightarrow> queue_bag q = add_mset x (queue_bag q') \<and> peek_request q = Inr x"
  by (cases q) (auto simp: bindE_Inr_iff dest!: heappop_contents split: list.splits if_splits)

lemma pop_request_returns:
  assumes "peek_request q = Inr x"
  shows "\<exists>q'. pop_request st q = Inr (q', x)"
proof (cases q)
  case (FCFSRequestQueue l)
  with assms show ?thesis by (cases l) simp_all
next
  case (PriorityRequestQueue h)
  with assms have h: "h \<noteq> []" "x = hd h" by (cases h; simp)+
  then obtain h' y where "heappop (ref_lt st) h = Inr (h', y)" using heappop_returns by blast
  with heappop_contents [OF this] h PriorityRequestQueue show ?thesis by simp
qed

lemma bag_fold_add_request [simp]: "queue_bag (fold (add_request st) rs q) = queue_bag q + mset rs"
  by (induction rs arbitrary: q) simp_all

lemma pop_all_contents: "length h \<le> n \<Longrightarrow> \<exists>rs. pop_all st n h = Inr rs \<and> mset rs = mset h"
proof (induction n arbitrary: h)
  case (Suc n)
  show ?case
  proof (cases "h = []")
    case False
    then obtain h' x where x: "heappop (ref_lt st) h = Inr (h', x)" using heappop_returns by blast
    have c: "mset h = add_mset x (mset h')" using heappop_contents [OF x] by simp
    have "length h' \<le> n" using arg_cong [OF c, of size] Suc.prems by simp
    from Suc.IH [OF this] obtain rs where "pop_all st n h' = Inr rs" "mset rs = mset h'" by blast
    with x c False show ?thesis by simp
  qed simp
qed simp

lemma bag_iter_requests: "\<exists>rs. iter_requests st q = Inr rs \<and> mset rs = queue_bag q"
  using pop_all_contents by (cases q) auto

lemma bag_prepend_requests: "\<exists>q'. prepend_requests st others q = Inr q' \<and> queue_bag q' = queue_bag q + queue_bag others"
proof -
  obtain rs where "iter_requests st others = Inr rs" "mset rs = queue_bag others" using bag_iter_requests by blast
  then show ?thesis by (cases q) (simp_all add: add.commute)
qed

lemma bag_remove_requests [simp]: "queue_bag (remove_requests st rs q) = filter_mset (\<lambda>x. x \<notin> set rs) (queue_bag q)"
  by (cases q) (simp_all add: heapify_mset)

lemma len_requests_bag: "len_requests q = size (queue_bag q)"
  by (cases q) simp_all

text \<open>A queue of the priority class keeps the heap order; the other class has no invariant.\<close>

fun queue_ok :: "('r \<Rightarrow> Request) \<Rightarrow> 'r RequestQueue \<Rightarrow> bool" where
  "queue_ok st (FCFSRequestQueue q) = True"
| "queue_ok st (PriorityRequestQueue h) = rh.is_heap st h"

subsection \<open>What every queue promises\<close>

primrec serve :: "('q \<Rightarrow> ('q \<times> 'a) result) \<Rightarrow> nat \<Rightarrow> 'q \<Rightarrow> ('q \<times> 'a list) result" where
  "serve pop 0 q = Inr (q, [])"
| "serve pop (Suc n) q = bindE (pop q) (\<lambda>(q', r). bindE (serve pop n q') (\<lambda>(q'', rs). Inr (q'', r # rs)))"

locale request_queue =
  fixes ok :: "'q \<Rightarrow> bool"
    and bag :: "'q \<Rightarrow> 'r multiset"
    and add :: "'r \<Rightarrow> 'q \<Rightarrow> 'q"
    and pop :: "'q \<Rightarrow> ('q \<times> 'r) result"
    and peek :: "'q \<Rightarrow> 'r result"
  assumes add_law: "ok q \<Longrightarrow> ok (add r q) \<and> bag (add r q) = add_mset r (bag q)"
    and pop_empty: "ok q \<Longrightarrow> bag q = {#} \<Longrightarrow> pop q = Inl IndexError \<and> peek q = Inl IndexError"
    and pop_law: "ok q \<Longrightarrow> bag q \<noteq> {#} \<Longrightarrow>
      \<exists>q' r. pop q = Inr (q', r) \<and> peek q = Inr r \<and> ok q' \<and> bag q = add_mset r (bag q')"
begin

text \<open>No request is lost or served twice: serving a whole queue returns a permutation of it.\<close>

lemma serve_all:
  "ok q \<Longrightarrow> size (bag q) = n \<Longrightarrow> \<exists>q' rs. serve pop n q = Inr (q', rs) \<and> mset rs = bag q \<and> bag q' = {#}"
proof (induction n arbitrary: q)
  case 0
  then show ?case by simp
next
  case (Suc n)
  then have "bag q \<noteq> {#}" by auto
  from pop_law [OF Suc.prems(1) this] obtain q1 r where
    q1: "pop q = Inr (q1, r)" "ok q1" "bag q = add_mset r (bag q1)" by blast
  then have "size (bag q1) = n" using Suc.prems(2) by simp
  from Suc.IH [OF q1(2) this] obtain q' rs where
    "serve pop n q1 = Inr (q', rs)" "mset rs = bag q1" "bag q' = {#}" by blast
  with q1 show ?case by simp
qed

lemma add_all: "ok q \<Longrightarrow> ok (fold add rs q) \<and> bag (fold add rs q) = bag q + mset rs"
  by (induction rs arbitrary: q) (simp_all add: add_law)

end

lemma heappop_request:
  assumes "rh.is_heap st h" "h \<noteq> []"
  shows "\<exists>h' x. heappop (ref_lt st) h = Inr (h', x) \<and> rh.is_heap st h' \<and> mset h = add_mset x (mset h')
    \<and> (\<forall>y \<in> set h. \<not> ref_lt st y x) \<and> x = hd h"
proof -
  from rh.heappop_min [OF assms] obtain h' x where
    x: "heappop (ref_lt st) h = Inr (h', x)" "rh.is_heap st h'" "mset h = add_mset x (mset h')"
      "\<forall>y \<in> set h. \<not> ref_lt st y x" by blast
  with heappop_contents [OF x(1)] show ?thesis by simp
qed

interpretation rq: request_queue "queue_ok st" queue_bag "add_request st" "pop_request st" peek_request for st
proof (unfold_locales, goal_cases)
  case (1 q r)
  then show ?case using rh.heappush_heap [of st _ r] by (cases q) auto
next
  case (2 q)
  then show ?case by (cases q) auto
next
  case (3 q)
  show ?case
  proof (cases q)
    case (FCFSRequestQueue l)
    with 3 show ?thesis by (cases l) auto
  next
    case (PriorityRequestQueue h)
    with 3 have h: "rh.is_heap st h" "h \<noteq> []" by auto
    from heappop_request [OF this] h(2) PriorityRequestQueue show ?thesis
      by (auto simp: neq_Nil_conv)
  qed
qed


subsection \<open>Properties\<close>

lemma pop_all_sorted:
  "rh.is_heap st h \<Longrightarrow> length h = n \<Longrightarrow>
   \<exists>rs q'. pop_all st n h = Inr rs \<and> serve (pop_request st) n (PriorityRequestQueue h) = Inr (q', rs)
     \<and> mset rs = mset h \<and> sorted_wrt (\<lambda>a b. \<not> ref_lt st b a) rs"
proof (induction n arbitrary: h)
  case 0
  then show ?case by simp
next
  case (Suc n)
  then have ne: "h \<noteq> []" by auto
  from heappop_request [OF Suc.prems(1) ne] obtain h' x where
    x: "heappop (ref_lt st) h = Inr (h', x)" "rh.is_heap st h'" "mset h = add_mset x (mset h')"
      "\<forall>y \<in> set h. \<not> ref_lt st y x" by blast
  have "length h' = n" using x(3) Suc.prems(2) by (metis size_mset size_add_mset Suc_inject)
  from Suc.IH [OF x(2) this] obtain rs q' where rs: "pop_all st n h' = Inr rs"
    "serve (pop_request st) n (PriorityRequestQueue h') = Inr (q', rs)" "mset rs = mset h'"
    "sorted_wrt (\<lambda>a b. \<not> ref_lt st b a) rs" by blast
  have "set rs \<subseteq> set h" using rs(3) x(3) by (metis mset_eq_setD set_mset_add_mset_insert set_mset_mset subset_insertI)
  then have "sorted_wrt (\<lambda>a b. \<not> ref_lt st b a) (x # rs)" using rs(4) x(4) by auto
  with x rs ne show ?case by auto
qed

lemma iter_requests_ok:
  assumes "queue_ok st q"
  shows "\<exists>rs. iter_requests st q = Inr rs \<and> mset rs = queue_bag q"
  using assms pop_all_sorted [of st _ "len_requests q"] by (cases q) fastforce+

lemma fold_add_request:
  "queue_ok st q \<Longrightarrow> queue_ok st (fold (add_request st) rs q) \<and> queue_bag (fold (add_request st) rs q) = queue_bag q + mset rs"
  by (rule rq.add_all)

lemma remove_object_ok: "r \<in> set l \<Longrightarrow> \<exists>l'. remove_object r l = Inr l' \<and> mset l = add_mset r (mset l')"
proof (induction l)
  case (Cons y l)
  then show ?case by (cases "y = r") auto
qed simp

lemma remove_object_error: "r \<notin> set l \<Longrightarrow> remove_object r l = Inl ValueError"
  by (induction l) auto

lemma remove_request_ok:
  assumes "r \<in># queue_bag q"
  shows "\<exists>q'. remove_request st r q = Inr q' \<and> queue_ok st q' \<and> queue_bag q = add_mset r (queue_bag q')"
  using assms remove_object_ok by (cases q) (fastforce simp: rh.heapify_heap heapify_mset)+

fun first_come_first_served :: "'r RequestQueue \<Rightarrow> bool" where
  "first_come_first_served (FCFSRequestQueue q) = True"
| "first_come_first_served (PriorityRequestQueue h) = False"

lemma remove_object_remove1: "r \<in> set l \<Longrightarrow> remove_object r l = Inr (remove1 r l)"
  by (induction l) auto

lemma fcfs_order:
  assumes "first_come_first_served q" and "iter_requests st q = Inr l" and "iter_requests st others = Inr lo"
  shows "iter_requests st (add_request st r q) = Inr (l @ [r])
   \<and> iter_requests st (prepend_request st r q) = Inr (r # l)
   \<and> (\<exists>q'. prepend_requests st others q = Inr q' \<and> iter_requests st q' = Inr (rev lo @ l))
   \<and> (l \<noteq> [] \<longrightarrow> (\<exists>q'. pop_request st q = Inr (q', hd l) \<and> iter_requests st q' = Inr (tl l)))
   \<and> (r \<in> set l \<longrightarrow> (\<exists>q'. remove_request st r q = Inr q' \<and> iter_requests st q' = Inr (remove1 r l)))
   \<and> iter_requests st (remove_requests st rs q) = Inr (filter (\<lambda>x. x \<notin> set rs) l)"
  using assms by (cases q) (auto simp: remove_object_remove1 split: list.splits)

lemma priority_order:
  assumes "queue_ok st q" and "\<not> first_come_first_served q"
  shows "\<exists>l. iter_requests st q = Inr l \<and> sorted_wrt (\<lambda>a b. \<not> ref_lt st b a) l
   \<and> (has_requests q \<longrightarrow> (\<exists>q' x. pop_request st q = Inr (q', x) \<and> (\<forall>y \<in># queue_bag q. \<not> ref_lt st y x)))"
proof (cases q)
  case (PriorityRequestQueue h)
  with assms have h: "rh.is_heap st h" by simp
  have pop: "\<exists>q' x. pop_request st q = Inr (q', x) \<and> (\<forall>y \<in># queue_bag q. \<not> ref_lt st y x)" if "has_requests q"
  proof -
    from that PriorityRequestQueue have "h \<noteq> []" by (simp add: has_requests_def)
    with heappop_request [OF h this] PriorityRequestQueue show ?thesis by auto
  qed
  from pop_all_sorted [OF h refl] obtain l where
    "pop_all st (length h) h = Inr l" "sorted_wrt (\<lambda>a b. \<not> ref_lt st b a) l" by blast
  with pop PriorityRequestQueue show ?thesis by auto
qed (use assms in simp)

text \<open>
  C23: Both kinds of queue are bags of requests with a well-formedness invariant (the heap order
  for the priority queue) that every operation keeps: adding and prepending add the given
  requests, popping an empty queue raises \<^verbatim>\<open>IndexError\<close> and otherwise takes the request that
  \<^verbatim>\<open>peek\<close> shows, removing takes out exactly that request or raises \<^verbatim>\<open>ValueError\<close>, bulk removal takes
  out exactly the given objects. The order is fixed too. Let \<open>l\<close> be the requests in the order of
  iteration: in the first-come-first-served queue \<^verbatim>\<open>add_request\<close> puts the request at the end of \<open>l\<close>,
  \<^verbatim>\<open>prepend_request\<close> at its front, \<^verbatim>\<open>prepend_requests\<close> puts the other queue's requests in front in
  reverse order, \<^verbatim>\<open>pop_request\<close> takes the front one and the removals keep the order of the rest; in
  the priority queue \<open>l\<close> never has a request after one that it precedes, and \<^verbatim>\<open>pop_request\<close> takes a
  request that no other one precedes.
\<close>

theorem request_queue_operations:
  assumes "queue_ok st q" and "queue_ok st others"
  shows "queue_ok st (create_request_queue policy) \<and> queue_bag (create_request_queue policy) = {#}
   \<and> queue_ok st (add_request st r q) \<and> queue_bag (add_request st r q) = add_mset r (queue_bag q)
   \<and> queue_ok st (prepend_request st r q) \<and> queue_bag (prepend_request st r q) = add_mset r (queue_bag q)
   \<and> (\<exists>q'. prepend_requests st others q = Inr q' \<and> queue_ok st q' \<and> queue_bag q' = queue_bag q + queue_bag others)
   \<and> (\<not> has_requests q \<longrightarrow> pop_request st q = Inl IndexError \<and> peek_request q = Inl IndexError)
   \<and> (has_requests q \<longrightarrow> (\<exists>q' x. pop_request st q = Inr (q', x) \<and> peek_request q = Inr x \<and> queue_ok st q'
         \<and> queue_bag q = add_mset x (queue_bag q')))
   \<and> (r \<notin># queue_bag q \<longrightarrow> remove_request st r q = Inl ValueError)
   \<and> (r \<in># queue_bag q \<longrightarrow> (\<exists>q'. remove_request st r q = Inr q' \<and> queue_ok st q' \<and> queue_bag q = add_mset r (queue_bag q')))
   \<and> queue_ok st (remove_requests st rs q)
   \<and> queue_bag (remove_requests st rs q) = filter_mset (\<lambda>x. x \<notin> set rs) (queue_bag q)
   \<and> (\<exists>l lo. iter_requests st q = Inr l \<and> iter_requests st others = Inr lo
     \<and> mset l = queue_bag q \<and> mset lo = queue_bag others
     \<and> (first_come_first_served q \<longrightarrow>
          iter_requests st (add_request st r q) = Inr (l @ [r])
        \<and> iter_requests st (prepend_request st r q) = Inr (r # l)
        \<and> (\<exists>q'. prepend_requests st others q = Inr q' \<and> iter_requests st q' = Inr (rev lo @ l))
        \<and> (l \<noteq> [] \<longrightarrow> (\<exists>q'. pop_request st q = Inr (q', hd l) \<and> iter_requests st q' = Inr (tl l)))
        \<and> (r \<in> set l \<longrightarrow> (\<exists>q'. remove_request st r q = Inr q' \<and> iter_requests st q' = Inr (remove1 r l)))
        \<and> iter_requests st (remove_requests st rs q) = Inr (filter (\<lambda>x. x \<notin> set rs) l))
     \<and> (\<not> first_come_first_served q \<longrightarrow> sorted_wrt (\<lambda>a b. \<not> ref_lt st b a) l
        \<and> (has_requests q \<longrightarrow> (\<exists>q' x. pop_request st q = Inr (q', x) \<and> (\<forall>y \<in># queue_bag q. \<not> ref_lt st y x)))))"
proof (intro conjI)
  show "queue_ok st (create_request_queue policy)" "queue_bag (create_request_queue policy) = {#}"
    by (cases policy; simp add: rh.heap_from_def)+
  show "queue_ok st (add_request st r q)" "queue_bag (add_request st r q) = add_mset r (queue_bag q)"
    using rq.add_law [OF assms(1)] by simp_all
  show "queue_ok st (prepend_request st r q)" "queue_bag (prepend_request st r q) = add_mset r (queue_bag q)"
    using rq.add_law [OF assms(1), of r] by (cases q; simp)+
  show "\<exists>q'. prepend_requests st others q = Inr q' \<and> queue_ok st q' \<and> queue_bag q' = queue_bag q + queue_bag others"
    using iter_requests_ok [OF assms(2)] fold_add_request [OF assms(1)] by (cases q) auto
  have size: "has_requests q \<longleftrightarrow> queue_bag q \<noteq> {#}" by (cases q) (simp_all add: has_requests_def)
  show "\<not> has_requests q \<longrightarrow> pop_request st q = Inl IndexError \<and> peek_request q = Inl IndexError"
    using rq.pop_empty [OF assms(1)] size by blast
  show "has_requests q \<longrightarrow> (\<exists>q' x. pop_request st q = Inr (q', x) \<and> peek_request q = Inr x \<and> queue_ok st q'
         \<and> queue_bag q = add_mset x (queue_bag q'))"
    using rq.pop_law [OF assms(1)] size by blast
  show "r \<notin># queue_bag q \<longrightarrow> remove_request st r q = Inl ValueError"
    by (cases q) (simp_all add: remove_object_error)
  show "r \<in># queue_bag q \<longrightarrow> (\<exists>q'. remove_request st r q = Inr q' \<and> queue_ok st q' \<and> queue_bag q = add_mset r (queue_bag q'))"
    by (rule impI) (rule remove_request_ok)
  show "queue_ok st (remove_requests st rs q)"
    "queue_bag (remove_requests st rs q) = filter_mset (\<lambda>x. x \<notin> set rs) (queue_bag q)"
    by (cases q; simp add: rh.heapify_heap heapify_mset)+
  obtain l lo where l: "iter_requests st q = Inr l" "iter_requests st others = Inr lo"
    "mset l = queue_bag q" "mset lo = queue_bag others"
    using iter_requests_ok [OF assms(1)] iter_requests_ok [OF assms(2)] by blast
  have prio: "sorted_wrt (\<lambda>a b. \<not> ref_lt st b a) l
    \<and> (has_requests q \<longrightarrow> (\<exists>q' x. pop_request st q = Inr (q', x) \<and> (\<forall>y \<in># queue_bag q. \<not> ref_lt st y x)))"
    if "\<not> first_come_first_served q"
    using priority_order [OF assms(1) that] l(1) by simp
  show "\<exists>l lo. iter_requests st q = Inr l \<and> iter_requests st others = Inr lo
     \<and> mset l = queue_bag q \<and> mset lo = queue_bag others
     \<and> (first_come_first_served q \<longrightarrow>
          iter_requests st (add_request st r q) = Inr (l @ [r])
        \<and> iter_requests st (prepend_request st r q) = Inr (r # l)
        \<and> (\<exists>q'. prepend_requests st others q = Inr q' \<and> iter_requests st q' = Inr (rev lo @ l))
        \<and> (l \<noteq> [] \<longrightarrow> (\<exists>q'. pop_request st q = Inr (q', hd l) \<and> iter_requests st q' = Inr (tl l)))
        \<and> (r \<in> set l \<longrightarrow> (\<exists>q'. remove_request st r q = Inr q' \<and> iter_requests st q' = Inr (remove1 r l)))
        \<and> iter_requests st (remove_requests st rs q) = Inr (filter (\<lambda>x. x \<notin> set rs) l))
     \<and> (\<not> first_come_first_served q \<longrightarrow> sorted_wrt (\<lambda>a b. \<not> ref_lt st b a) l
        \<and> (has_requests q \<longrightarrow> (\<exists>q' x. pop_request st q = Inr (q', x) \<and> (\<forall>y \<in># queue_bag q. \<not> ref_lt st y x))))"
    by (rule exI [of _ l], rule exI [of _ lo])
      (intro conjI impI l prio; use fcfs_order [OF _ l(1,2)] in blast)
qed

theorem request_queue_operations_witness:
  "queue_bag (add_request (\<lambda>x. x) (demo_request ''a'' [1] [] None None) (create_request_queue PRIORITY))
     = {#demo_request ''a'' [1] [] None None#}
   \<and> queue_ok (\<lambda>x. x) (add_request (\<lambda>x. x) (demo_request ''a'' [1] [] None None) (create_request_queue PRIORITY))
   \<and> iter_requests (\<lambda>_. demo_request ''a'' [1] [] None None)
        (prepend_request (\<lambda>_. demo_request ''a'' [1] [] None None) (3::nat) (FCFSRequestQueue [1, 2])) = Inr [3, 1, 2]"
proof -
  have ok: "queue_ok (\<lambda>x. x) (create_request_queue PRIORITY)" by (simp add: rh.heap_from_def)
  let ?r = "demo_request ''a'' [1] [] None None" and ?add = "add_request (\<lambda>x. x)"
  from request_queue_operations [OF ok ok, of PRIORITY ?r "[]"]
  have "queue_bag (create_request_queue PRIORITY :: Request RequestQueue) = {#}"
    "queue_ok (\<lambda>x. x) (?add ?r (create_request_queue PRIORITY))"
    "queue_bag (?add ?r (create_request_queue PRIORITY)) = add_mset ?r (queue_bag (create_request_queue PRIORITY))"
    by blast+
  moreover have fcfs: "queue_ok (\<lambda>_. ?r) (FCFSRequestQueue [1::nat, 2])" by simp
  have "iter_requests (\<lambda>_. ?r) (prepend_request (\<lambda>_. ?r) (3::nat) (FCFSRequestQueue [1, 2])) = Inr [3, 1, 2]"
    using request_queue_operations [OF fcfs fcfs, of FCFS 3 "[]"] by simp
  ultimately show ?thesis by (intro conjI) (metis, assumption+)
qed

text \<open>
  Iterating over a queue yields the requests in the order in which repeated pops serve them,
  each exactly once; for the priority queue this order never puts a request before one that
  compares smaller, and the first-come-first-served queue serves in order of arrival.
\<close>

theorem request_queue_service_order:
  assumes "queue_ok st q"
  shows "\<exists>rs q'. iter_requests st q = Inr rs \<and> serve (pop_request st) (len_requests q) q = Inr (q', rs)
     \<and> mset rs = queue_bag q
     \<and> (case q of FCFSRequestQueue l \<Rightarrow> rs = l
        | PriorityRequestQueue h \<Rightarrow> sorted_wrt (\<lambda>a b. \<not> ref_lt st b a) rs)"
proof (cases q)
  case (FCFSRequestQueue l)
  have "serve (pop_request st) (length l) (FCFSRequestQueue l) = Inr (FCFSRequestQueue [], l)"
    by (induction l) simp_all
  with FCFSRequestQueue show ?thesis by simp
next
  case (PriorityRequestQueue h)
  with assms pop_all_sorted [of st h "length h"] show ?thesis by simp
qed

theorem request_queue_service_order_witness:
  "\<exists>rs q'. iter_requests (\<lambda>x. x) (fold (add_request (\<lambda>x. x)) [(demo_request ''a'' [1] [] None None)\<lparr>priority := 2\<rparr>,
        demo_request ''b'' [1] [] None None] (create_request_queue PRIORITY)) = Inr rs
      \<and> sorted_wrt (\<lambda>a b. \<not> ref_lt (\<lambda>x. x) b a) rs"
proof -
  let ?rs = "[(demo_request ''a'' [1] [] None None)\<lparr>priority := 2\<rparr>, demo_request ''b'' [1] [] None None]"
  have ok: "queue_ok (\<lambda>x. x) (fold (add_request (\<lambda>x. x)) ?rs (create_request_queue PRIORITY))"
    by (rule fold_add_request [THEN conjunct1]) (simp add: rh.heap_from_def)
  from request_queue_service_order [OF ok] show ?thesis by auto
qed

text \<open>
  Requests that the scheduler skips are put back in front in their old order: it prepends
  them one by one to a fresh queue and then prepends that queue, and the two reversals cancel.
\<close>

theorem skipped_requests_keep_order:
  "prepend_requests st (fold (prepend_request st) rs (create_request_queue FCFS)) (FCFSRequestQueue q)
     = Inr (FCFSRequestQueue (rs @ q))"
proof -
  have "fold (prepend_request st) rs (FCFSRequestQueue l) = FCFSRequestQueue (rev rs @ l)" for l
    by (induction rs arbitrary: l) simp_all
  then show ?thesis by simp
qed

end
