(* ===== verification/Encoder_Cache.thy ===== *)
theory Encoder_Cache
  imports Requests
begin

section \<open>The encoder cache\<close>

text \<open>
  \<^verbatim>\<open>vllm/v1/core/encoder_cache_manager.py\<close>: the bookkeeping of cached encoder outputs
  (\<^verbatim>\<open>EncoderCacheManager\<close>), the simplified manager for encoder-decoder models, and the budgets.
  A request names an encoder input by its index; the identifier of the input is the cache key.
  \<^verbatim>\<open>cached\<close> maps a key to the ids of the requests that reference it, \<^verbatim>\<open>freeable\<close> lists the
  unreferenced entries, oldest first.
\<close>

record EncoderCacheManager =
  cache_size :: int
  num_free_slots :: int
  num_freeable_slots :: int
  cached :: "(string, string set) odict"
  freeable :: "(string, int) odict"
  freed :: "string list"

definition encoder_cache_init :: "int \<Rightarrow> EncoderCacheManager" where
  "encoder_cache_init n = \<lparr>cache_size = n, num_free_slots = n, num_freeable_slots = n,
     cached = [], freeable = [], freed = []\<rparr>"

definition encoder_cache_reset :: "EncoderCacheManager \<Rightarrow> EncoderCacheManager" where
  "encoder_cache_reset s = s\<lparr>cached := [], freeable := [], freed := [],
     num_free_slots := cache_size s, num_freeable_slots := cache_size s\<rparr>"

definition mm_hash_of :: "Request \<Rightarrow> nat \<Rightarrow> string result" where
  "mm_hash_of r i = (if i < length (mm_features r) then Inr (mm_identifier (mm_features r ! i)) else Inl IndexError)"

definition check_and_update_cache :: "Request \<Rightarrow> nat \<Rightarrow> EncoderCacheManager \<Rightarrow> (EncoderCacheManager \<times> bool) result" where
  "check_and_update_cache r i s = bindE (mm_hash_of r i) (\<lambda>h. case map_of (cached s) h of
      None \<Rightarrow> Inr (s, False)
    | Some refs \<Rightarrow>
        bindE (if refs = {}
            then (case map_of (freeable s) h of
                None \<Rightarrow> Inl KeyError
              | Some n \<Rightarrow> Inr (s\<lparr>freeable := AList.delete h (freeable s),
                                num_freeable_slots := num_freeable_slots s - n\<rparr>))
            else Inr s)
          (\<lambda>s. Inr (s\<lparr>cached := AList.update h (insert (request_id r) refs) (cached s)\<rparr>, True)))"

text \<open>The eviction loop of \<^verbatim>\<open>can_allocate\<close>.\<close>

function evict_until :: "int \<Rightarrow> EncoderCacheManager \<Rightarrow> EncoderCacheManager result" where
  "evict_until num_embeds s =
     (if num_embeds > num_free_slots s then
        (case freeable s of
           [] \<Rightarrow> Inl KeyError
         | (h, n) # rest \<Rightarrow>
             (if map_of (cached s) h = None then Inl KeyError
              else evict_until num_embeds (s\<lparr>freeable := rest, cached := AList.delete h (cached s),
                freed := freed s @ [h], num_free_slots := num_free_slots s + n\<rparr>)))
      else Inr s)"
  by pat_completeness auto
termination
  by (relation "measure (\<lambda>(n, s). length (freeable s))") auto

declare evict_until.simps [simp del]

definition can_allocate :: "Request \<Rightarrow> nat \<Rightarrow> int \<Rightarrow> int \<Rightarrow> EncoderCacheManager \<Rightarrow> (EncoderCacheManager \<times> bool) result" where
  "can_allocate r i encoder_compute_budget num_embeds_to_schedule s =
     bindE (get_num_encoder_embeds r i) (\<lambda>n.
       if n > encoder_compute_budget then Inr (s, False)
       else let num_embeds = n + num_embeds_to_schedule in
         if num_embeds \<le> num_free_slots s then Inr (s, True)
         else if num_embeds > num_freeable_slots s then Inr (s, False)
         else bindE (evict_until num_embeds s) (\<lambda>s. Inr (s, True)))"

definition allocate :: "Request \<Rightarrow> nat \<Rightarrow> EncoderCacheManager \<Rightarrow> EncoderCacheManager result" where
  "allocate r i s = bindE (mm_hash_of r i) (\<lambda>h.
     let refs = (case map_of (cached s) h of None \<Rightarrow> {} | Some refs \<Rightarrow> refs) in
     bindE (get_num_encoder_embeds r i) (\<lambda>n.
       assertE (num_free_slots s \<ge> n)
         (assertE (num_freeable_slots s \<ge> n)
           (Inr (s\<lparr>cached := AList.update h (insert (request_id r) refs) (cached s),
                   num_free_slots := num_free_slots s - n,
                   num_freeable_slots := num_freeable_slots s - n\<rparr>)))))"

definition get_cached_input_ids :: "Request \<Rightarrow> EncoderCacheManager \<Rightarrow> nat list" where
  "get_cached_input_ids r s =
     filter (\<lambda>i. map_of (cached s) (mm_identifier (mm_features r ! i)) \<noteq> None) [0..<length (mm_features r)]"

definition free_encoder_input :: "Request \<Rightarrow> nat \<Rightarrow> EncoderCacheManager \<Rightarrow> EncoderCacheManager result" where
  "free_encoder_input r i s = bindE (mm_hash_of r i) (\<lambda>h. case map_of (cached s) h of
      None \<Rightarrow> Inr s
    | Some refs \<Rightarrow>
        if refs = {} then Inr s
        else let refs' = refs - {request_id r}; s = s\<lparr>cached := AList.update h refs' (cached s)\<rparr> in
          if refs' = {}
          then bindE (get_num_encoder_embeds r i) (\<lambda>n.
                 Inr (s\<lparr>freeable := AList.update h n (freeable s),
                        num_freeable_slots := num_freeable_slots s + n\<rparr>))
          else Inr s)"

text \<open>The set of input ids is iterated in ascending order, as CPython does for small integers.\<close>

definition free_request :: "Request \<Rightarrow> EncoderCacheManager \<Rightarrow> EncoderCacheManager result" where
  "free_request r s = foldE (free_encoder_input r) (get_cached_input_ids r s) s"

definition get_freed_mm_hashes :: "EncoderCacheManager \<Rightarrow> EncoderCacheManager \<times> string list" where
  "get_freed_mm_hashes s = (s\<lparr>freed := []\<rparr>, freed s)"

subsection \<open>Budgets\<close>

record SchedulerConfig =
  disable_chunked_mm_input :: bool
  max_num_batched_tokens :: int
  max_num_encoder_input_tokens :: int
  encoder_cache_size :: int

definition compute_mm_encoder_budget :: "SchedulerConfig \<Rightarrow> (string, int) odict \<Rightarrow> (int \<times> int) result" where
  "compute_mm_encoder_budget cfg mm_max_toks_per_item =
     (if mm_max_toks_per_item = [] then Inr (0, 0)
      else let m = Max (set (map snd mm_max_toks_per_item)) in
        if disable_chunked_mm_input cfg \<and> m > max_num_batched_tokens cfg then Inl ValueError
        else Inr (max (max_num_encoder_input_tokens cfg) m, max (encoder_cache_size cfg) m))"

subsection \<open>Encoder-decoder models\<close>

record EncoderDecoderCacheManager =
  ed_cache_size :: int
  ed_num_free_slots :: int
  allocated :: "string list"
  to_free :: "string list"

definition ed_init :: "int \<Rightarrow> EncoderDecoderCacheManager" where
  "ed_init n = \<lparr>ed_cache_size = n, ed_num_free_slots = n, allocated = [], to_free = []\<rparr>"

definition ed_reset :: "EncoderDecoderCacheManager \<Rightarrow> EncoderDecoderCacheManager" where
  "ed_reset s = s\<lparr>ed_num_free_slots := ed_cache_size s, allocated := [], to_free := []\<rparr>"

definition ed_check_and_update_cache :: "Request \<Rightarrow> nat \<Rightarrow> EncoderDecoderCacheManager \<Rightarrow> bool" where
  "ed_check_and_update_cache r i s = False"

definition ed_can_allocate :: "Request \<Rightarrow> nat \<Rightarrow> int \<Rightarrow> int \<Rightarrow> EncoderDecoderCacheManager \<Rightarrow> bool result" where
  "ed_can_allocate r i encoder_compute_budget num_embeds_to_schedule s =
     bindE (get_num_encoder_embeds r i) (\<lambda>n.
       if n > encoder_compute_budget then Inr False
       else Inr (n + num_embeds_to_schedule \<le> ed_num_free_slots s))"

definition ed_allocate :: "Request \<Rightarrow> nat \<Rightarrow> EncoderDecoderCacheManager \<Rightarrow> EncoderDecoderCacheManager result" where
  "ed_allocate r i s = bindE (get_num_encoder_embeds r i) (\<lambda>n. bindE (mm_hash_of r i) (\<lambda>h.
     Inr (s\<lparr>ed_num_free_slots := ed_num_free_slots s - n, allocated := allocated s @ [h]\<rparr>)))"

definition ed_free_encoder_input :: "Request \<Rightarrow> nat \<Rightarrow> EncoderDecoderCacheManager \<Rightarrow> EncoderDecoderCacheManager result" where
  "ed_free_encoder_input r i s = bindE (get_num_encoder_embeds r i) (\<lambda>n.
     Inr (s\<lparr>ed_num_free_slots := ed_num_free_slots s + n\<rparr>))"

definition ed_free :: "Request \<Rightarrow> EncoderDecoderCacheManager \<Rightarrow> EncoderDecoderCacheManager result" where
  "ed_free r s = foldE (ed_free_encoder_input r) [0..<length (mm_features r)] s"

definition ed_get_cached_input_ids :: "Request \<Rightarrow> nat list" where
  "ed_get_cached_input_ids r = [0..<length (mm_features r)]"

definition ed_get_freed_mm_hashes :: "EncoderDecoderCacheManager \<Rightarrow> EncoderDecoderCacheManager \<times> string list" where
  "ed_get_freed_mm_hashes s = (s\<lparr>to_free := allocated s, allocated := []\<rparr>, to_free s)"

subsection \<open>The invariant\<close>

text \<open>
  The number of embeddings is a function \<open>E\<close> of the identifier: equal identifiers stand for equal
  inputs.
\<close>

definition sized :: "(string \<Rightarrow> int) \<Rightarrow> Request \<Rightarrow> bool" where
  "sized E r \<longleftrightarrow> (\<forall>i < length (mm_features r).
     get_num_encoder_embeds r i = Inr (E (mm_identifier (mm_features r ! i))))"

definition enc_ok :: "(string \<Rightarrow> int) \<Rightarrow> EncoderCacheManager \<Rightarrow> bool" where
  "enc_ok E s \<longleftrightarrow> distinct_keys (cached s) \<and> distinct_keys (freeable s) \<and> (\<forall>h. 0 \<le> E h)
     \<and> (\<forall>h. map_of (freeable s) h = (if map_of (cached s) h = Some {} then Some (E h) else None))
     \<and> num_free_slots s + sum_list (map E (map fst (cached s))) = cache_size s
     \<and> num_freeable_slots s = num_free_slots s + sum_list (map snd (freeable s))
     \<and> 0 \<le> num_free_slots s"

lemma sum_delete:
  fixes f :: "'k \<times> 'v \<Rightarrow> int"
  assumes "distinct_keys d" and "map_of d k = Some v"
  shows "sum_list (map f (AList.delete k d)) = sum_list (map f d) - f (k, v)"
  using assms
proof (induction d)
  case (Cons p d)
  obtain k' v' where p: "p = (k', v')" by force
  show ?case
  proof (cases "k' = k")
    case True
    then have "map_of d k = None" using Cons.prems(1) p by (auto simp: map_of_eq_None_iff)
    then show ?thesis using Cons.prems p True by (simp add: delete_fresh)
  next
    case False
    then show ?thesis using Cons p by simp
  qed
qed simp

lemma sum_keys_delete:
  fixes E :: "'k \<Rightarrow> int"
  assumes "distinct_keys d" and "map_of d k = Some v"
  shows "sum_list (map E (map fst (AList.delete k d))) = sum_list (map E (map fst d)) - E k"
  using sum_delete [OF assms, of "\<lambda>p. E (fst p)"] by (simp add: comp_def)

lemma keys_update: "map fst (AList.update k v d) = (if map_of d k = None then map fst d @ [k] else map fst d)"
  by (simp add: update_keys map_of_eq_None_iff)

lemma mm_hash_of_ok: "i < length (mm_features r) \<Longrightarrow> mm_hash_of r i = Inr (mm_identifier (mm_features r ! i))"
  by (simp add: mm_hash_of_def)


lemma enc_okD:
  assumes "enc_ok E s"
  shows "distinct_keys (cached s)" "distinct_keys (freeable s)" "0 \<le> E h"
    "map_of (freeable s) h = (if map_of (cached s) h = Some {} then Some (E h) else None)"
    "num_free_slots s + sum_list (map E (map fst (cached s))) = cache_size s"
    "num_freeable_slots s = num_free_slots s + sum_list (map snd (freeable s))"
    "0 \<le> num_free_slots s"
  using assms unfolding enc_ok_def by blast+

lemma freeable_sum_nonneg:
  assumes "enc_ok E s"
  shows "0 \<le> sum_list (map snd (freeable s))"
proof (rule sum_list_nonneg)
  fix x assume "x \<in> set (map snd (freeable s))"
  then obtain h where "(h, x) \<in> set (freeable s)" by auto
  then have "map_of (freeable s) h = Some x" using enc_okD(2) [OF assms] by (rule map_of_is_SomeI [rotated])
  then have "x = E h" using enc_okD(4) [OF assms, of h] by (simp del: map_of_eq_Some_iff split: if_splits)
  then show "0 \<le> x" using enc_okD(3) [OF assms, of h] by simp
qed

lemma enc_init_ok: "0 \<le> n \<Longrightarrow> \<forall>h. 0 \<le> E h \<Longrightarrow> enc_ok E (encoder_cache_init n)"
  by (simp add: enc_ok_def encoder_cache_init_def)

lemma check_and_update_ok:
  assumes ok: "enc_ok E s" and i: "i < length (mm_features r)"
  defines "h \<equiv> mm_identifier (mm_features r ! i)"
  shows "\<exists>s'. check_and_update_cache r i s = Inr (s', map_of (cached s) h \<noteq> None) \<and> enc_ok E s'
     \<and> num_free_slots s' = num_free_slots s \<and> cache_size s' = cache_size s \<and> freed s' = freed s
     \<and> map_of (cached s') = (map_of (cached s))(h := map_option (insert (request_id r)) (map_of (cached s) h))"
proof (cases "map_of (cached s) h")
  case None
  with ok i show ?thesis
    by (auto simp: check_and_update_cache_def mm_hash_of_ok h_def [symmetric] fun_upd_idem)
next
  case (Some refs)
  define t where "t = (if refs = {} then s\<lparr>freeable := AList.delete h (freeable s),
      num_freeable_slots := num_freeable_slots s - E h\<rparr> else s)"
  define s' where "s' = t\<lparr>cached := AList.update h (insert (request_id r) refs) (cached t)\<rparr>"
  have fr: "map_of (freeable s) h = (if refs = {} then Some (E h) else None)" using ok Some by (simp add: enc_ok_def)
  then have run: "check_and_update_cache r i s = Inr (s', True)"
    using Some i by (simp add: check_and_update_cache_def mm_hash_of_ok h_def [symmetric] t_def s'_def)
  have fields: "num_free_slots s' = num_free_slots s" "cache_size s' = cache_size s" "freed s' = freed s"
    "cached s' = AList.update h (insert (request_id r) refs) (cached s)"
    "freeable s' = (if refs = {} then AList.delete h (freeable s) else freeable s)"
    "num_freeable_slots s' = (if refs = {} then num_freeable_slots s - E h else num_freeable_slots s)"
    by (simp_all add: s'_def t_def)
  have sum: "sum_list (map snd (AList.delete h (freeable s))) = sum_list (map snd (freeable s)) - E h" if "refs = {}"
    using sum_delete [of "freeable s" h "E h" snd] ok fr that by (simp add: enc_ok_def)
  have "map_of (freeable s') k = (if map_of (cached s') k = Some {} then Some (E k) else None)" for k
    using enc_okD(4) [OF ok, of k] Some fr
    by (auto simp: fields update_conv' delete_conv' simp del: map_of_eq_Some_iff)
  then have "enc_ok E s'"
    unfolding enc_ok_def using enc_okD(1,2,3,5,6,7) [OF ok] sum distinct_delete [OF enc_okD(2) [OF ok], of h]
      distinct_update [OF enc_okD(1) [OF ok], of h "insert (request_id r) refs"] Some
    by (simp add: fields keys_update del: map_of_eq_Some_iff)
  then show ?thesis using run Some by (auto simp: fields update_conv')
qed

text \<open>Evicting the oldest unreferenced entry keeps the books balanced.\<close>

lemma evict_one_ok:
  assumes ok: "enc_ok E s" and fr: "freeable s = (h, n) # rest"
  defines "t \<equiv> s\<lparr>freeable := rest, cached := AList.delete h (cached s),
      freed := freed s @ [h], num_free_slots := num_free_slots s + n\<rparr>"
  shows "enc_ok E t" and "map_of (cached s) h = Some {}" and "n = E h"
proof -
  have mf: "map_of (freeable s) h = Some n" using fr by simp
  then show h: "map_of (cached s) h = Some {}" and n: "n = E h"
    using enc_okD(4) [OF ok, of h] by (simp_all del: map_of_eq_Some_iff split: if_splits)
  have "h \<notin> fst ` set rest" using enc_okD(2) [OF ok] fr by auto
  then have rest: "map_of rest h = None" by (simp add: map_of_eq_None_iff)
  have "map_of rest k = (if map_of (AList.delete h (cached s)) k = Some {} then Some (E k) else None)" for k
    using enc_okD(4) [OF ok, of k] fr rest by (auto simp: delete_conv' simp del: map_of_eq_Some_iff)
  moreover have "sum_list (map E (map fst (AList.delete h (cached s)))) = sum_list (map E (map fst (cached s))) - E h"
    by (rule sum_keys_delete [OF enc_okD(1) [OF ok] h])
  ultimately show "enc_ok E t"
    unfolding enc_ok_def
    using enc_okD(1,2,3,5,6,7) [OF ok] fr n distinct_delete [of "cached s" h]
    by (simp add: t_def del: map_of_eq_Some_iff)
qed

lemma evict_until_ok:
  "enc_ok E s \<Longrightarrow> num_embeds \<le> num_freeable_slots s \<Longrightarrow>
   \<exists>s' ev. evict_until num_embeds s = Inr s' \<and> enc_ok E s' \<and> num_embeds \<le> num_free_slots s'
     \<and> freeable s = ev @ freeable s' \<and> freed s' = freed s @ map fst ev \<and> cache_size s' = cache_size s
     \<and> num_freeable_slots s' = num_freeable_slots s
     \<and> (ev \<noteq> [] \<longrightarrow> num_free_slots s' - snd (last ev) < num_embeds)
     \<and> (\<forall>h. map_of (cached s') h = (if h \<in> fst ` set ev then None else map_of (cached s) h))"
proof (induction "length (freeable s)" arbitrary: s)
  case 0
  then have "num_embeds \<le> num_free_slots s" using enc_okD(6) [OF "0.prems"(1)] by simp
  with 0 show ?case by (auto simp: evict_until.simps [of num_embeds s])
next
  case (Suc k)
  show ?case
  proof (cases "num_embeds \<le> num_free_slots s")
    case True
    with Suc.prems show ?thesis by (intro exI [of _ s] exI [of _ "[]"]) (simp add: evict_until.simps [of num_embeds s])
  next
    case False
    obtain h n rest where fr: "freeable s = (h, n) # rest" using Suc.hyps(2) by (cases "freeable s") auto
    define t where "t = s\<lparr>freeable := rest, cached := AList.delete h (cached s),
      freed := freed s @ [h], num_free_slots := num_free_slots s + n\<rparr>"
    note e = evict_one_ok [OF Suc.prems(1) fr, folded t_def]
    have step: "evict_until num_embeds s = evict_until num_embeds t"
      using False e(2) fr by (simp add: evict_until.simps [of num_embeds s] t_def del: map_of_eq_Some_iff)
    have "k = length (freeable t)" "num_embeds \<le> num_freeable_slots t"
      using Suc.hyps(2) Suc.prems(2) fr by (simp_all add: t_def)
    from Suc.hyps(1) [OF this(1) e(1) this(2)] obtain s' ev where
      s': "evict_until num_embeds t = Inr s'" "enc_ok E s'" "num_embeds \<le> num_free_slots s'"
        "freeable t = ev @ freeable s'" "freed s' = freed t @ map fst ev" "cache_size s' = cache_size t"
        "num_freeable_slots s' = num_freeable_slots t"
        "ev \<noteq> [] \<longrightarrow> num_free_slots s' - snd (last ev) < num_embeds"
        "\<forall>h. map_of (cached s') h = (if h \<in> fst ` set ev then None else map_of (cached t) h)" by blast
    have min: "num_free_slots s' - snd (last ((h, n) # ev)) < num_embeds"
    proof (cases "ev = []")
      case True
      have "num_free_slots s' = num_free_slots t"
        using s'(6,4,7) True enc_okD(6) [OF s'(2)] enc_okD(6) [OF e(1)] by simp
      with True False show ?thesis by (simp add: t_def)
    qed (use s'(8) in simp)
    have mp: "map_of (cached s') q = (if q \<in> fst ` set ((h, n) # ev) then None else map_of (cached s) q)" for q
      using s'(9) by (auto simp: t_def delete_conv')
    have "freeable s = ((h, n) # ev) @ freeable s'" using s'(4) fr by (simp add: t_def)
    with step s'(1,2,3,5,6,7) min mp show ?thesis
      by (intro exI [of _ s'] exI [of _ "(h, n) # ev"]) (simp add: t_def)
  qed
qed

lemma allocate_ok:
  assumes ok: "enc_ok E s" and r: "sized E r" and i: "i < length (mm_features r)"
  defines "h \<equiv> mm_identifier (mm_features r ! i)"
  assumes new: "map_of (cached s) h = None" and room: "E h \<le> num_free_slots s"
  shows "\<exists>s'. allocate r i s = Inr s' \<and> enc_ok E s' \<and> num_free_slots s' = num_free_slots s - E h
     \<and> cache_size s' = cache_size s \<and> map_of (cached s') = (map_of (cached s))(h \<mapsto> {request_id r})"
proof -
  define s' where "s' = s\<lparr>cached := AList.update h {request_id r} (cached s),
      num_free_slots := num_free_slots s - E h, num_freeable_slots := num_freeable_slots s - E h\<rparr>"
  have n: "get_num_encoder_embeds r i = Inr (E h)" using r i by (simp add: sized_def h_def)
  have "E h \<le> num_freeable_slots s" using room freeable_sum_nonneg [OF ok] enc_okD(6) [OF ok] by simp
  then have run: "allocate r i s = Inr s'"
    using n new room i by (simp add: allocate_def mm_hash_of_ok h_def [symmetric] s'_def Let_def)
  have "map_of (freeable s) k = (if map_of (AList.update h {request_id r} (cached s)) k = Some {} then Some (E k) else None)" for k
    using enc_okD(4) [OF ok, of k] new by (auto simp: update_conv' simp del: map_of_eq_Some_iff)
  then have "enc_ok E s'"
    unfolding enc_ok_def using enc_okD(1,2,3,5,6,7) [OF ok] room new distinct_update [of "cached s" h "{request_id r}"]
    by (simp add: s'_def keys_update del: map_of_eq_Some_iff)
  with run show ?thesis by (simp add: s'_def update_conv')
qed

lemma free_encoder_input_ok:
  assumes ok: "enc_ok E s" and r: "sized E r" and i: "i < length (mm_features r)"
  defines "h \<equiv> mm_identifier (mm_features r ! i)"
  shows "\<exists>s'. free_encoder_input r i s = Inr s' \<and> enc_ok E s' \<and> num_free_slots s' = num_free_slots s
     \<and> cache_size s' = cache_size s
     \<and> map_of (cached s') = (map_of (cached s))(h := map_option (\<lambda>refs. refs - {request_id r}) (map_of (cached s) h))"
proof (cases "map_of (cached s) h = None \<or> map_of (cached s) h = Some {}")
  case True
  then have "free_encoder_input r i s = Inr s"
    using i by (auto simp: free_encoder_input_def mm_hash_of_ok h_def [symmetric] simp del: map_of_eq_Some_iff)
  moreover have "map_of (cached s) = (map_of (cached s))(h := map_option (\<lambda>refs. refs - {request_id r}) (map_of (cached s) h))"
    using True by (auto simp: fun_eq_iff simp del: map_of_eq_Some_iff)
  ultimately show ?thesis using ok by (intro exI [of _ s]) simp
next
  case False
  then obtain refs where refs: "map_of (cached s) h = Some refs" "refs \<noteq> {}" by auto
  let ?refs = "refs - {request_id r}"
  have n: "get_num_encoder_embeds r i = Inr (E h)" using r i by (simp add: sized_def h_def)
  define s' where "s' = (if ?refs = {} then s\<lparr>cached := AList.update h ?refs (cached s),
      freeable := AList.update h (E h) (freeable s), num_freeable_slots := num_freeable_slots s + E h\<rparr>
    else s\<lparr>cached := AList.update h ?refs (cached s)\<rparr>)"
  have run: "free_encoder_input r i s = Inr s'"
    using refs n i by (simp add: free_encoder_input_def mm_hash_of_ok h_def [symmetric] s'_def Let_def del: map_of_eq_Some_iff)
  have old: "map_of (freeable s) h = None" using enc_okD(4) [OF ok, of h] refs by simp
  have keys: "map fst (AList.update h ?refs (cached s)) = map fst (cached s)" using refs by (simp add: keys_update)
  have fields: "cached s' = AList.update h ?refs (cached s)" "num_free_slots s' = num_free_slots s" "cache_size s' = cache_size s"
    "freeable s' = (if ?refs = {} then freeable s @ [(h, E h)] else freeable s)"
    "num_freeable_slots s' = num_freeable_slots s + (if ?refs = {} then E h else 0)"
    using update_fresh [OF old, of "E h"] by (simp_all add: s'_def)
  have "map_of (freeable s') k = (if map_of (cached s') k = Some {} then Some (E k) else None)" for k
    using enc_okD(4) [OF ok, of k] old refs
    by (auto simp: fields update_conv' map_add_def simp del: map_of_eq_Some_iff split: option.splits)
  moreover have "h \<notin> fst ` set (freeable s)" using old by (simp add: map_of_eq_None_iff)
  then have "distinct_keys (freeable s')" using enc_okD(2) [OF ok] by (auto simp: fields)
  ultimately have "enc_ok E s'"
    unfolding enc_ok_def using enc_okD(1,3,5,6,7) [OF ok] keys
    by (simp add: fields del: map_of_eq_Some_iff map_map)
  with run refs show ?thesis by (simp add: fields update_conv')
qed


text \<open>
  What \<^verbatim>\<open>can_allocate\<close> decides: the input fits the compute budget and, with what is already
  scheduled, the free and the reclaimable slots. Only unreferenced entries are evicted, oldest
  first, and no more of them than needed.
\<close>

lemma can_allocate_ok:
  assumes ok: "enc_ok E s" and r: "sized E r" and i: "i < length (mm_features r)"
  defines "h \<equiv> mm_identifier (mm_features r ! i)"
  shows "\<exists>s' ev. can_allocate r i budget k s = Inr (s', E h \<le> budget \<and> E h + k \<le> num_freeable_slots s)
     \<and> enc_ok E s' \<and> (E h \<le> budget \<and> E h + k \<le> num_freeable_slots s \<longrightarrow> E h + k \<le> num_free_slots s')
     \<and> freeable s = ev @ freeable s' \<and> freed s' = freed s @ map fst ev \<and> cache_size s' = cache_size s
     \<and> (ev \<noteq> [] \<longrightarrow> num_free_slots s' - snd (last ev) < E h + k)
     \<and> (\<forall>h. map_of (cached s') h = (if h \<in> fst ` set ev then None else map_of (cached s) h))"
proof -
  have n: "get_num_encoder_embeds r i = Inr (E h)" using r i by (simp add: sized_def h_def)
  have le: "num_free_slots s \<le> num_freeable_slots s" using freeable_sum_nonneg [OF ok] enc_okD(6) [OF ok] by simp
  have stay: ?thesis if "can_allocate r i budget k s = Inr (s, E h \<le> budget \<and> E h + k \<le> num_freeable_slots s)"
      "E h \<le> budget \<and> E h + k \<le> num_freeable_slots s \<longrightarrow> E h + k \<le> num_free_slots s"
    using that ok by (intro exI [of _ s] exI [of _ "[]"]) simp
  show ?thesis
  proof (cases "E h \<le> budget \<and> num_free_slots s < E h + k \<and> E h + k \<le> num_freeable_slots s")
    case False
    have "can_allocate r i budget k s = Inr (s, E h \<le> budget \<and> E h + k \<le> num_freeable_slots s)"
      using False n le by (auto simp: can_allocate_def Let_def)
    with False show ?thesis by (intro stay) auto
  next
    case True
    with evict_until_ok [OF ok, of "E h + k"] obtain s' ev where
      ev: "evict_until (E h + k) s = Inr s'" "enc_ok E s'" "E h + k \<le> num_free_slots s'"
        "freeable s = ev @ freeable s'" "freed s' = freed s @ map fst ev" "cache_size s' = cache_size s"
        "ev \<noteq> [] \<longrightarrow> num_free_slots s' - snd (last ev) < E h + k"
        "\<forall>h. map_of (cached s') h = (if h \<in> fst ` set ev then None else map_of (cached s) h)" by blast
    have "can_allocate r i budget k s = Inr (s', True)"
      using True n ev(1) by (simp add: can_allocate_def Let_def)
    with True ev show ?thesis by (intro exI [of _ s'] exI [of _ ev]) simp
  qed
qed

subsection \<open>What the scheduler relies on\<close>

text \<open>
  The contract between \<^verbatim>\<open>can_allocate\<close> and \<^verbatim>\<open>allocate\<close>: a positive answer leaves room for the input
  and for everything already promised, and allocating an input that is not present uses its
  size. The scheduler asks for each input of a batch, adding up the sizes, and allocates later.
\<close>

locale encoder_slots =
  fixes ok :: "'s \<Rightarrow> bool"
    and free_slots :: "'s \<Rightarrow> int"
    and present :: "'s \<Rightarrow> 'k set"
    and key :: "'r \<Rightarrow> nat \<Rightarrow> 'k"
    and size_of :: "'k \<Rightarrow> int"
    and valid :: "'r \<Rightarrow> nat \<Rightarrow> bool"
    and can_alloc :: "'r \<Rightarrow> nat \<Rightarrow> int \<Rightarrow> int \<Rightarrow> 's \<Rightarrow> ('s \<times> bool) result"
    and alloc :: "'r \<Rightarrow> nat \<Rightarrow> 's \<Rightarrow> 's result"
  assumes can_law: "ok s \<Longrightarrow> valid r i \<Longrightarrow> \<exists>s' b. can_alloc r i budget k s = Inr (s', b) \<and> ok s'
        \<and> present s' \<subseteq> present s \<and> (b \<longrightarrow> size_of (key r i) + k \<le> free_slots s')"
    and alloc_law: "ok s \<Longrightarrow> valid r i \<Longrightarrow> key r i \<notin> present s \<Longrightarrow> size_of (key r i) \<le> free_slots s \<Longrightarrow>
      \<exists>s'. alloc r i s = Inr s' \<and> ok s' \<and> present s' \<subseteq> insert (key r i) (present s)
        \<and> free_slots s' = free_slots s - size_of (key r i)"
    and size_nonneg: "ok s \<Longrightarrow> 0 \<le> size_of q"
begin

lemma alloc_batch:
  "ok s \<Longrightarrow> \<forall>i \<in> set is. valid r i \<and> key r i \<notin> present s \<Longrightarrow> distinct (map (key r) is) \<Longrightarrow>
   sum_list (map (\<lambda>i. size_of (key r i)) is) \<le> free_slots s \<Longrightarrow>
   \<exists>s'. foldE (alloc r) is s = Inr s' \<and> ok s'
     \<and> free_slots s' = free_slots s - sum_list (map (\<lambda>i. size_of (key r i)) is)"
proof (induction "is" arbitrary: s)
  case (Cons i "is")
  have "0 \<le> sum_list (map (\<lambda>i. size_of (key r i)) is)"
    using size_nonneg [OF Cons.prems(1)] by (intro sum_list_nonneg) auto
  then have "size_of (key r i) \<le> free_slots s" using Cons.prems(4) by simp
  with Cons.prems alloc_law [of s r i] obtain t where
    t: "alloc r i s = Inr t" "ok t" "present t \<subseteq> insert (key r i) (present s)"
      "free_slots t = free_slots s - size_of (key r i)" by auto
  have "\<exists>s'. foldE (alloc r) is t = Inr s' \<and> ok s'
      \<and> free_slots s' = free_slots t - sum_list (map (\<lambda>i. size_of (key r i)) is)"
  proof (rule Cons.IH [OF t(2)])
    show "\<forall>j \<in> set is. valid r j \<and> key r j \<notin> present t"
    proof
      fix j assume j: "j \<in> set is"
      have "key r i \<notin> key r ` set is" using Cons.prems(3) by simp
      then have "key r j \<noteq> key r i" using j by (metis imageI)
      with j Cons.prems(2) t(3) show "valid r j \<and> key r j \<notin> present t" by auto
    qed
  qed (use Cons.prems(3,4) t(4) in simp_all)
  then obtain s' where "foldE (alloc r) is t = Inr s'" "ok s'"
      "free_slots s' = free_slots t - sum_list (map (\<lambda>i. size_of (key r i)) is)" by blast
  with t show ?case by auto
qed simp

text \<open>A positive answer for the last input, with the others already counted, covers the batch.\<close>

lemma promised_batch:
  assumes "ok s" and "\<forall>j \<in> set (is @ [i]). valid r j \<and> key r j \<notin> present s"
    and "distinct (map (key r) (is @ [i]))"
    and "can_alloc r i budget (sum_list (map (\<lambda>j. size_of (key r j)) is)) s = Inr (s', True)"
  shows "\<exists>s''. foldE (alloc r) (is @ [i]) s' = Inr s'' \<and> ok s''"
proof -
  have "valid r i" using assms(2) by simp
  from can_law [OF assms(1) this, of budget "sum_list (map (\<lambda>j. size_of (key r j)) is)"] assms(4) have
    s': "ok s'" "present s' \<subseteq> present s"
      "size_of (key r i) + sum_list (map (\<lambda>j. size_of (key r j)) is) \<le> free_slots s'" by auto
  have "\<forall>j \<in> set (is @ [i]). valid r j \<and> key r j \<notin> present s'" using assms(2) s'(2) by blast
  moreover have "sum_list (map (\<lambda>j. size_of (key r j)) (is @ [i])) \<le> free_slots s'" using s'(3) by simp
  ultimately show ?thesis using alloc_batch [OF s'(1) _ assms(3)] by blast
qed

end

abbreviation input_key :: "Request \<Rightarrow> nat \<Rightarrow> string" where
  "input_key r i \<equiv> mm_identifier (mm_features r ! i)"

definition ed_can :: "Request \<Rightarrow> nat \<Rightarrow> int \<Rightarrow> int \<Rightarrow> EncoderDecoderCacheManager \<Rightarrow> (EncoderDecoderCacheManager \<times> bool) result" where
  "ed_can r i budget k s = bindE (ed_can_allocate r i budget k s) (\<lambda>b. Inr (s, b))"

interpretation ec: encoder_slots "enc_ok E" num_free_slots "\<lambda>s. dom (map_of (cached s))" input_key E
    "\<lambda>r i. sized E r \<and> i < length (mm_features r)" can_allocate allocate for E
proof (unfold_locales, goal_cases)
  case (1 s r i budget k)
  from 1(2) have r: "sized E r" and i: "i < length (mm_features r)" by simp_all
  from can_allocate_ok [OF 1(1) r i, of budget k] obtain s' and ev :: "(string, int) odict" where
    s': "can_allocate r i budget k s = Inr (s', E (input_key r i) \<le> budget \<and> E (input_key r i) + k \<le> num_freeable_slots s)"
      "enc_ok E s'" "E (input_key r i) \<le> budget \<and> E (input_key r i) + k \<le> num_freeable_slots s \<longrightarrow>
         E (input_key r i) + k \<le> num_free_slots s'"
      "\<forall>h. map_of (cached s') h = (if h \<in> fst ` set ev then None else map_of (cached s) h)"
    by blast
  have "dom (map_of (cached s')) \<subseteq> dom (map_of (cached s))" using s'(4) by (auto simp: dom_def split: if_splits)
  with s' show ?case by blast
next
  case (2 s r i)
  then have "map_of (cached s) (input_key r i) = None" by (simp add: domIff)
  with allocate_ok [OF 2(1) _ _ this 2(4)] 2(2) show ?case by auto
next
  case (3 s q)
  then show ?case by (rule enc_okD)
qed

interpretation ed: encoder_slots "\<lambda>s. \<forall>h. 0 \<le> E h" ed_num_free_slots "\<lambda>s. {}" input_key E
    "\<lambda>r i. sized E r \<and> i < length (mm_features r)" ed_can ed_allocate for E
  by unfold_locales (auto simp: ed_can_def ed_can_allocate_def ed_allocate_def sized_def mm_hash_of_def)

subsection \<open>Reachable caches\<close>

text \<open>
  The calls of the scheduler. It allocates only inputs that are not cached and for which there
  is room (what a positive \<^verbatim>\<open>can_allocate\<close> leaves).
\<close>

inductive enc_step :: "(string \<Rightarrow> int) \<Rightarrow> EncoderCacheManager \<Rightarrow> EncoderCacheManager \<Rightarrow> bool" for E where
  enc_reset: "enc_step E s (encoder_cache_reset s)"
| enc_check: "i < length (mm_features r) \<Longrightarrow> check_and_update_cache r i s = Inr (s', b) \<Longrightarrow> enc_step E s s'"
| enc_can: "sized E r \<Longrightarrow> i < length (mm_features r) \<Longrightarrow> can_allocate r i budget k s = Inr (s', b) \<Longrightarrow> enc_step E s s'"
| enc_alloc: "sized E r \<Longrightarrow> i < length (mm_features r) \<Longrightarrow> map_of (cached s) (input_key r i) = None \<Longrightarrow>
    E (input_key r i) \<le> num_free_slots s \<Longrightarrow> allocate r i s = Inr s' \<Longrightarrow> enc_step E s s'"
| enc_free_input: "sized E r \<Longrightarrow> i < length (mm_features r) \<Longrightarrow> free_encoder_input r i s = Inr s' \<Longrightarrow> enc_step E s s'"
| enc_free: "sized E r \<Longrightarrow> free_request r s = Inr s' \<Longrightarrow> enc_step E s s'"
| enc_freed: "get_freed_mm_hashes s = (s', hs) \<Longrightarrow> enc_step E s s'"

inductive enc_reach :: "(string \<Rightarrow> int) \<Rightarrow> int \<Rightarrow> EncoderCacheManager \<Rightarrow> bool" for E n where
  enc_start: "enc_reach E n (encoder_cache_init n)"
| enc_next: "enc_reach E n s \<Longrightarrow> enc_step E s s' \<Longrightarrow> enc_reach E n s'"

lemma free_loop_ok:
  "enc_ok E s \<Longrightarrow> sized E r \<Longrightarrow> \<forall>i \<in> set is. i < length (mm_features r) \<Longrightarrow>
   \<exists>s'. foldE (free_encoder_input r) is s = Inr s' \<and> enc_ok E s' \<and> cache_size s' = cache_size s
     \<and> num_free_slots s' = num_free_slots s"
proof (induction "is" arbitrary: s)
  case (Cons i "is")
  from free_encoder_input_ok [OF Cons.prems(1,2), of i] Cons.prems(3) obtain t where
    "free_encoder_input r i s = Inr t" "enc_ok E t" "num_free_slots t = num_free_slots s" "cache_size t = cache_size s" by auto
  with Cons.IH [of t] Cons.prems show ?case by auto
qed simp

lemma free_request_ok:
  "enc_ok E s \<Longrightarrow> sized E r \<Longrightarrow> \<exists>s'. free_request r s = Inr s' \<and> enc_ok E s' \<and> cache_size s' = cache_size s
     \<and> num_free_slots s' = num_free_slots s"
  unfolding free_request_def by (rule free_loop_ok) (auto simp: get_cached_input_ids_def)

lemma enc_step_ok:
  assumes "enc_step E s s'" and "enc_ok E s" and "0 \<le> cache_size s"
  shows "enc_ok E s' \<and> cache_size s' = cache_size s"
  using assms(1)
proof cases
  case enc_reset
  then show ?thesis using enc_okD(3) [OF assms(2)] assms(3) by (simp add: encoder_cache_reset_def enc_ok_def)
next
  case (enc_check i r b)
  then show ?thesis using check_and_update_ok [OF assms(2), of i r] by auto
next
  case (enc_can r i budget k b)
  then show ?thesis using can_allocate_ok [OF assms(2), of r i budget k] by auto
next
  case (enc_alloc r i)
  then show ?thesis using allocate_ok [OF assms(2), of r i] by auto
next
  case (enc_free_input r i)
  then show ?thesis using free_encoder_input_ok [OF assms(2), of r i] by auto
next
  case (enc_free r)
  then show ?thesis using free_request_ok [OF assms(2), of r] by auto
next
  case (enc_freed hs)
  then have "s' = s\<lparr>freed := []\<rparr>" by (simp add: get_freed_mm_hashes_def)
  then show ?thesis using assms(2) by (simp add: enc_ok_def)
qed

lemma enc_reach_ok: "enc_reach E n s \<Longrightarrow> 0 \<le> n \<Longrightarrow> \<forall>h. 0 \<le> E h \<Longrightarrow> enc_ok E s \<and> cache_size s = n"
proof (induction rule: enc_reach.induct)
  case enc_start
  then show ?case using enc_init_ok by (auto simp: encoder_cache_init_def)
next
  case (enc_next s s')
  then show ?case using enc_step_ok by auto
qed


subsection \<open>Properties\<close>

text \<open>A request with two images of three and five embeddings.\<close>

definition demo_images :: "MultiModalFeatureSpec list" where
  "demo_images =
     [\<lparr>modality = ''image'', mm_identifier = ''a'', mm_position = \<lparr>offset = 0, length_of = 3, is_embed = None\<rparr>\<rparr>,
      \<lparr>modality = ''image'', mm_identifier = ''b'', mm_position = \<lparr>offset = 3, length_of = 5, is_embed = None\<rparr>\<rparr>]"

definition demo_sizes :: "string \<Rightarrow> int" where
  "demo_sizes h = (if h = ''a'' then 3 else if h = ''b'' then 5 else 0)"

abbreviation demo_mm_request :: Request where
  "demo_mm_request \<equiv> demo_request ''r'' [1, 2, 3, 4, 5, 6, 7, 8] demo_images None None"

lemma demo_sized: "sized demo_sizes demo_mm_request" "length (mm_features demo_mm_request) = 2"
  "\<forall>h. 0 \<le> demo_sizes h" "input_key demo_mm_request 0 = ''a''" "input_key demo_mm_request 1 = ''b''"
  by (auto simp: sized_def demo_request_def demo_images_def demo_sizes_def get_num_encoder_embeds_def
      get_num_embeds_def embeds_cumsum_def less_Suc_eq)

text \<open>
  C24: In every reachable state of the encoder cache the books balance: free slots plus the sizes
  of all cached entries are the cache size, the reclaimable slots are the free slots plus the
  sizes of the freeable entries, the freeable entries are exactly the unreferenced ones, and
  \<open>0 \<le> num_free_slots \<le> num_freeable_slots \<le> cache_size\<close>.
\<close>

theorem encoder_cache_invariant:
  assumes "enc_reach E n s" and "0 \<le> n" and "\<forall>h. 0 \<le> E h"
  shows "num_free_slots s + sum_list (map E (map fst (cached s))) = n
     \<and> num_freeable_slots s = num_free_slots s + sum_list (map snd (freeable s))
     \<and> (\<forall>h. map_of (freeable s) h = (if map_of (cached s) h = Some {} then Some (E h) else None))
     \<and> 0 \<le> num_free_slots s \<and> num_free_slots s \<le> num_freeable_slots s \<and> num_freeable_slots s \<le> n"
proof -
  from enc_reach_ok [OF assms] have ok: "enc_ok E s" and size: "cache_size s = n" by auto
  have "sum_list (map snd (freeable s)) = sum_list (map E (map fst (freeable s)))"
  proof -
    have "snd p = E (fst p)" if "p \<in> set (freeable s)" for p
    proof -
      have "map_of (freeable s) (fst p) = Some (snd p)" using that enc_okD(2) [OF ok] by simp
      then show ?thesis using enc_okD(4) [OF ok, of "fst p"] by (simp del: map_of_eq_Some_iff split: if_splits)
    qed
    then show ?thesis by (simp add: comp_def cong: map_cong)
  qed
  also have "\<dots> = sum E (set (map fst (freeable s)))"
    using enc_okD(2) [OF ok] by (rule sum_list_distinct_conv_sum_set)
  also have "\<dots> \<le> sum E (set (map fst (cached s)))"
  proof (rule sum_mono2)
    show "set (map fst (freeable s)) \<subseteq> set (map fst (cached s))"
    proof
      fix h assume "h \<in> set (map fst (freeable s))"
      then have "map_of (freeable s) h \<noteq> None" by (simp add: map_of_eq_None_iff)
      then have "map_of (cached s) h \<noteq> None" using enc_okD(4) [OF ok, of h] by (simp del: map_of_eq_Some_iff split: if_splits)
      then show "h \<in> set (map fst (cached s))" by (simp add: map_of_eq_None_iff)
    qed
  qed (use assms(3) in auto)
  also have "\<dots> = sum_list (map E (map fst (cached s)))"
    using enc_okD(1) [OF ok] by (rule sum_list_distinct_conv_sum_set [symmetric])
  finally have "sum_list (map snd (freeable s)) \<le> sum_list (map E (map fst (cached s)))" .
  with enc_okD(4-7) [OF ok] freeable_sum_nonneg [OF ok] size show ?thesis
    by (simp del: map_map)
qed

theorem encoder_cache_invariant_witness:
  "\<exists>s. allocate demo_mm_request 1 (encoder_cache_init 10) = Inr s
     \<and> num_free_slots s + sum_list (map demo_sizes (map fst (cached s))) = 10 \<and> num_free_slots s = 5"
proof -
  let ?s = "encoder_cache_init 10" and ?r = "demo_mm_request"
  have i: "1 < length (mm_features ?r)" using demo_sized(2) by simp
  have new: "map_of (cached ?s) (input_key ?r 1) = None" "demo_sizes (input_key ?r 1) \<le> num_free_slots ?s"
    using demo_sized(5) by (simp_all add: encoder_cache_init_def demo_sizes_def)
  from allocate_ok [OF enc_init_ok [OF _ demo_sized(3)] demo_sized(1) i new] obtain s where
    s: "allocate ?r 1 ?s = Inr s" "num_free_slots s = num_free_slots ?s - demo_sizes (input_key ?r 1)" by auto
  have "enc_reach demo_sizes 10 s"
    by (rule enc_next [OF enc_start enc_alloc [OF demo_sized(1) i new s(1)]])
  from encoder_cache_invariant [OF this _ demo_sized(3)]
  have "num_free_slots s + sum_list (map demo_sizes (map fst (cached s))) = 10" by simp
  moreover have "num_free_slots s = 5" using s(2) demo_sized(5) by (simp add: encoder_cache_init_def demo_sizes_def)
  ultimately show ?thesis using s(1) by blast
qed

text \<open>
  \<^verbatim>\<open>can_allocate\<close> never raises. It answers yes exactly when the input fits the compute budget
  and, together with what is already scheduled, the reclaimable slots; a yes leaves enough free
  slots. It evicts the oldest unreferenced entries, reports each as freed, stops as soon as there
  is room, and touches no referenced entry.
\<close>

theorem can_allocate_correct:
  assumes "enc_ok E s" and "sized E r" and "i < length (mm_features r)"
  shows "\<exists>s' ev. can_allocate r i budget k s =
       Inr (s', E (input_key r i) \<le> budget \<and> E (input_key r i) + k \<le> num_freeable_slots s)
     \<and> enc_ok E s' \<and> (E (input_key r i) \<le> budget \<and> E (input_key r i) + k \<le> num_freeable_slots s
          \<longrightarrow> E (input_key r i) + k \<le> num_free_slots s')
     \<and> freeable s = ev @ freeable s' \<and> freed s' = freed s @ map fst ev
     \<and> (ev \<noteq> [] \<longrightarrow> num_free_slots s' - snd (last ev) < E (input_key r i) + k)
     \<and> (\<forall>h refs. map_of (cached s) h = Some refs \<and> refs \<noteq> {} \<longrightarrow> map_of (cached s') h = Some refs)"
proof -
  from can_allocate_ok [OF assms, of budget k] obtain s' ev where
    s': "can_allocate r i budget k s = Inr (s', E (input_key r i) \<le> budget \<and> E (input_key r i) + k \<le> num_freeable_slots s)"
      "enc_ok E s'" "E (input_key r i) \<le> budget \<and> E (input_key r i) + k \<le> num_freeable_slots s
          \<longrightarrow> E (input_key r i) + k \<le> num_free_slots s'"
      "freeable s = ev @ freeable s'" "freed s' = freed s @ map fst ev"
      "ev \<noteq> [] \<longrightarrow> num_free_slots s' - snd (last ev) < E (input_key r i) + k"
      "\<forall>h. map_of (cached s') h = (if h \<in> fst ` set ev then None else map_of (cached s) h)" by blast
  have "map_of (cached s') h = Some refs" if "map_of (cached s) h = Some refs" "refs \<noteq> {}" for h refs
  proof -
    have "map_of (freeable s) h = None" using enc_okD(4) [OF assms(1), of h] that by simp
    then have "h \<notin> fst ` set (freeable s)" by (simp add: map_of_eq_None_iff)
    then have "h \<notin> fst ` set ev" using s'(4) by auto
    then show ?thesis using s'(7) that(1) by (simp del: map_of_eq_Some_iff)
  qed
  with s' show ?thesis by (intro exI [of _ s'] exI [of _ ev]) blast
qed

theorem can_allocate_correct_witness:
  "\<exists>s'. can_allocate demo_mm_request 1 8 0 (encoder_cache_init 10) = Inr (s', True)"
proof -
  have "1 < length (mm_features demo_mm_request)" using demo_sized(2) by simp
  from can_allocate_correct [OF enc_init_ok [OF _ demo_sized(3), of 10] demo_sized(1) this, of 8 0]
  show ?thesis using demo_sized(5) by (auto simp: encoder_cache_init_def demo_sizes_def)
qed

text \<open>
  When \<^verbatim>\<open>can_allocate\<close> has said yes to the last of several different, not yet cached inputs of a
  request, with the sizes of the others passed as already scheduled, then all the later
  \<^verbatim>\<open>allocate\<close> calls succeed: neither of their assertions can fail.
\<close>

theorem promised_inputs_can_be_allocated:
  assumes "enc_ok E s" and "sized E r"
    and "\<forall>j \<in> set (is @ [i]). j < length (mm_features r) \<and> map_of (cached s) (input_key r j) = None"
    and "distinct (map (input_key r) (is @ [i]))"
    and "can_allocate r i budget (sum_list (map (\<lambda>j. E (input_key r j)) is)) s = Inr (s', True)"
  shows "\<exists>s''. foldE (allocate r) (is @ [i]) s' = Inr s'' \<and> enc_ok E s''"
  by (rule ec.promised_batch [OF assms(1) _ assms(4,5)]) (use assms(2,3) in auto)

theorem promised_inputs_can_be_allocated_witness:
  "\<exists>s s''. can_allocate demo_mm_request 1 8 3 (encoder_cache_init 10) = Inr (s, True)
     \<and> foldE (allocate demo_mm_request) ([0] @ [1]) s = Inr s'' \<and> enc_ok demo_sizes s''"
proof -
  let ?r = demo_mm_request and ?s = "encoder_cache_init 10"
  have i: "1 < length (mm_features ?r)" using demo_sized(2) by simp
  have ok: "enc_ok demo_sizes ?s" by (rule enc_init_ok [OF _ demo_sized(3)]) simp
  from can_allocate_ok [OF ok demo_sized(1) i, of 8 3] obtain s where s: "can_allocate ?r 1 8 3 ?s = Inr (s, True)"
    using demo_sized(5) by (auto simp: encoder_cache_init_def demo_sizes_def)
  have "\<exists>s''. foldE (allocate ?r) ([0] @ [1]) s = Inr s'' \<and> enc_ok demo_sizes s''"
    by (rule promised_inputs_can_be_allocated [OF ok demo_sized(1), where budget = 8])
      (use s demo_sized(2,4,5) in \<open>simp_all add: encoder_cache_init_def demo_sizes_def\<close>)
  with s show ?thesis by blast
qed

text \<open>
  The manager for encoder-decoder models does not remember what a request allocated:
  \<^verbatim>\<open>free\<close> adds the sizes of all inputs of the request whether or not they were allocated, so
  freeing a request that never got its slots lifts the free slots above the cache size.
\<close>

theorem encoder_decoder_free_inflates:
  assumes "sized E r"
  shows "ed_free r s = Inr (s\<lparr>ed_num_free_slots :=
     ed_num_free_slots s + sum_list (map (\<lambda>f. E (mm_identifier f)) (mm_features r))\<rparr>)"
proof -
  have "n \<le> length (mm_features r) \<Longrightarrow> foldE (ed_free_encoder_input r) [0..<n] s =
     Inr (s\<lparr>ed_num_free_slots := ed_num_free_slots s + sum_list (map (\<lambda>f. E (mm_identifier f)) (take n (mm_features r)))\<rparr>)" for n
  proof (induction n)
    case (Suc n)
    then have "get_num_encoder_embeds r n = Inr (E (input_key r n))" using assms by (simp add: sized_def)
    with Suc show ?case
      by (simp add: foldE_append ed_free_encoder_input_def take_Suc_conv_app_nth)
  qed simp
  from this [of "length (mm_features r)"] show ?thesis by (simp add: ed_free_def)
qed

theorem encoder_decoder_free_inflates_witness:
  "\<exists>s. ed_free demo_mm_request (ed_init 10) = Inr s \<and> ed_num_free_slots s = 18 \<and> ed_cache_size s = 10"
  using encoder_decoder_free_inflates [OF demo_sized(1), of "ed_init 10"]
  by (simp add: ed_init_def demo_request_def demo_images_def demo_sizes_def)

text \<open>
  The computed budgets are large enough for every single item of every modality, and without
  any modality both are zero; the configuration is rejected exactly when chunking is disabled and
  an item exceeds the batch size.
\<close>

theorem encoder_budget_fits_every_item:
  "(items = [] \<longrightarrow> compute_mm_encoder_budget cfg items = Inr (0, 0))
   \<and> (compute_mm_encoder_budget cfg items = Inl ValueError \<longleftrightarrow>
        disable_chunked_mm_input cfg \<and> (\<exists>n \<in> snd ` set items. n > max_num_batched_tokens cfg))
   \<and> (\<forall>compute space. compute_mm_encoder_budget cfg items = Inr (compute, space) \<longrightarrow>
        (\<forall>n \<in> snd ` set items. n \<le> compute \<and> n \<le> space))"
proof (cases "items = []")
  case True
  then show ?thesis by (simp add: compute_mm_encoder_budget_def)
next
  case False
  have le: "\<forall>n \<in> snd ` set items. n \<le> Max (snd ` set items)" by simp
  have "Max (snd ` set items) > b \<longleftrightarrow> (\<exists>n \<in> snd ` set items. n > b)" for b
    using False by (intro Max_gr_iff) auto
  with False le show ?thesis
    by (auto simp: compute_mm_encoder_budget_def Let_def le_max_iff_disj)
qed

theorem encoder_budget_fits_every_item_witness:
  "compute_mm_encoder_budget
     \<lparr>disable_chunked_mm_input = False, max_num_batched_tokens = 4,
       max_num_encoder_input_tokens = 16, encoder_cache_size = 2\<rparr>
     [(''image'', 3), (''video'', 7)] = Inr (16, 7)
   \<and> (3::int) \<le> 16 \<and> (3::int) \<le> 7 \<and> (7::int) \<le> 16 \<and> (7::int) \<le> 7"
  using encoder_budget_fits_every_item [of "[(''image'', 3), (''video'', 7)]"
      "\<lparr>disable_chunked_mm_input = False, max_num_batched_tokens = 4,
        max_num_encoder_input_tokens = 16, encoder_cache_size = 2\<rparr>"]
  by (simp add: compute_mm_encoder_budget_def)

end
