(* ===== verification/Offload_Lru.thy ===== *)
theory Offload_Lru
  imports Vllm_Prelude
begin

section \<open>Offloading: the CPU backend and the LRU manager\<close>

text \<open>
  \<^verbatim>\<open>vllm/v1/kv_offload\<close>: the block status of \<^verbatim>\<open>backend.py\<close>, the CPU backend of
  \<^verbatim>\<open>backends/cpu.py\<close> and the manager of \<^verbatim>\<open>lru_manager.py\<close>. A block hash is \<open>bytes\<close>. The reference
  count of a status is a C \<open>int32\<close>, so its updates wrap; block numbers are C \<open>int64\<close> and stay far
  below that width, being smaller than the number of blocks. A status is held by one dictionary
  entry only and is modelled as its value. Lists of hashes stand for the iterables.
\<close>

subsection \<open>Block status and backend\<close>

type_synonym block_hash = bytes

definition wrap32 :: "int \<Rightarrow> int" where
  "wrap32 x = (x + 2 ^ 31) mod 2 ^ 32 - 2 ^ 31"

record BlockStatus =
  st_ref_cnt :: int
  st_block_id :: int

definition new_status :: "int \<Rightarrow> BlockStatus" where
  "new_status i = \<lparr>st_ref_cnt = -1, st_block_id = i\<rparr>"

definition is_ready :: "BlockStatus \<Rightarrow> bool" where
  "is_ready b \<longleftrightarrow> st_ref_cnt b \<ge> 0"

definition incr_status :: "BlockStatus \<Rightarrow> BlockStatus" where
  "incr_status b = b\<lparr>st_ref_cnt := wrap32 (st_ref_cnt b + 1)\<rparr>"

definition decr_status :: "BlockStatus \<Rightarrow> BlockStatus" where
  "decr_status b = b\<lparr>st_ref_cnt := wrap32 (st_ref_cnt b - 1)\<rparr>"

record CPUBackend =
  backend_block_size :: int
  num_blocks :: int
  num_allocated_blocks :: int
  allocated_blocks_free_list :: "int list"

definition cpu_backend_init :: "int \<Rightarrow> int \<Rightarrow> CPUBackend" where
  "cpu_backend_init bs n = \<lparr>backend_block_size = bs, num_blocks = n, num_allocated_blocks = 0,
     allocated_blocks_free_list = []\<rparr>"

definition backend_num_free :: "CPUBackend \<Rightarrow> int" where
  "backend_num_free be = int (length (allocated_blocks_free_list be)) + num_blocks be - num_allocated_blocks be"

text \<open>\<^verbatim>\<open>range\<close> of a negative number is empty, and \<^verbatim>\<open>list.pop()\<close> takes the last element.\<close>

definition allocate_fresh :: "CPUBackend \<times> BlockStatus list \<Rightarrow> CPUBackend \<times> BlockStatus list" where
  "allocate_fresh st = (case st of (be, bls) \<Rightarrow>
     (be\<lparr>num_allocated_blocks := num_allocated_blocks be + 1\<rparr>, bls @ [new_status (num_allocated_blocks be)]))"

definition allocate_reused :: "CPUBackend \<times> BlockStatus list \<Rightarrow> (CPUBackend \<times> BlockStatus list) result" where
  "allocate_reused st = (case st of (be, bls) \<Rightarrow>
     if allocated_blocks_free_list be = [] then Inl IndexError
     else Inr (be\<lparr>allocated_blocks_free_list := butlast (allocated_blocks_free_list be)\<rparr>,
               bls @ [new_status (last (allocated_blocks_free_list be))]))"

definition allocate_blocks :: "block_hash list \<Rightarrow> CPUBackend \<Rightarrow> (CPUBackend \<times> BlockStatus list) result" where
  "allocate_blocks hs be =
     (let fresh = min (int (length hs)) (num_blocks be - num_allocated_blocks be);
          reused = int (length hs) - fresh
      in assertE (int (length (allocated_blocks_free_list be)) \<ge> reused)
           (foldE (\<lambda>_. allocate_reused) [0..<nat reused] ((allocate_fresh ^^ nat fresh) (be, []))))"

definition backend_free :: "BlockStatus \<Rightarrow> CPUBackend \<Rightarrow> CPUBackend" where
  "backend_free b be = be\<lparr>allocated_blocks_free_list := allocated_blocks_free_list be @ [st_block_id b]\<rparr>"

definition get_load_store_spec :: "BlockStatus list \<Rightarrow> int list" where
  "get_load_store_spec bls = map st_block_id bls"

abbreviation MEDIUM_CPU :: string where
  "MEDIUM_CPU \<equiv> ''CPU''"

subsection \<open>The LRU manager\<close>

record OffloadingEvent =
  ev_block_hashes :: "block_hash list"
  ev_block_size :: int
  ev_medium :: string
  ev_removed :: bool

record PrepareStoreOutput =
  block_hashes_to_store :: "block_hash list"
  store_spec :: "int list"
  block_hashes_evicted :: "block_hash list"

type_synonym status_dict = "(block_hash, BlockStatus) odict"

record LRUOffloadingManager =
  lru_backend :: CPUBackend
  lru_blocks :: status_dict
  lru_events :: "OffloadingEvent list option"

definition lru_init :: "CPUBackend \<Rightarrow> bool \<Rightarrow> LRUOffloadingManager" where
  "lru_init be evs = \<lparr>lru_backend = be, lru_blocks = [], lru_events = (if evs then Some [] else None)\<rparr>"

definition push_event :: "bool \<Rightarrow> block_hash list \<Rightarrow> CPUBackend \<Rightarrow> OffloadingEvent list option \<Rightarrow> OffloadingEvent list option" where
  "push_event removed hs be evs = (if hs = [] then evs else map_option (\<lambda>l. l @ [\<lparr>ev_block_hashes = hs,
     ev_block_size = backend_block_size be, ev_medium = MEDIUM_CPU, ev_removed = removed\<rparr>]) evs)"

fun lookup_count :: "(block_hash \<Rightarrow> BlockStatus option) \<Rightarrow> block_hash list \<Rightarrow> int" where
  "lookup_count m [] = 0"
| "lookup_count m (h # hs) = (case m h of
     None \<Rightarrow> 0
   | Some b \<Rightarrow> if is_ready b then 1 + lookup_count m hs else 0)"

definition lru_lookup :: "block_hash list \<Rightarrow> LRUOffloadingManager \<Rightarrow> int" where
  "lru_lookup hs s = lookup_count (map_of (lru_blocks s)) hs"

definition lru_load_step :: "block_hash \<Rightarrow> LRUOffloadingManager \<times> BlockStatus list
    \<Rightarrow> (LRUOffloadingManager \<times> BlockStatus list) result" where
  "lru_load_step h st = (case st of (s, bls) \<Rightarrow> case map_of (lru_blocks s) h of
      None \<Rightarrow> Inl KeyError
    | Some b \<Rightarrow> assertE (is_ready b)
        (Inr (s\<lparr>lru_blocks := AList.update h (incr_status b) (lru_blocks s)\<rparr>, bls @ [b])))"

definition lru_prepare_load :: "block_hash list \<Rightarrow> LRUOffloadingManager \<Rightarrow> (LRUOffloadingManager \<times> int list) result" where
  "lru_prepare_load hs s = bindE (foldE lru_load_step hs (s, [])) (\<lambda>(s, bls). Inr (s, get_load_store_spec bls))"

definition lru_touch :: "block_hash list \<Rightarrow> LRUOffloadingManager \<Rightarrow> LRUOffloadingManager result" where
  "lru_touch hs s = foldE (\<lambda>h s. if map_of (lru_blocks s) h \<noteq> None
     then bindE (move_to_end h (lru_blocks s)) (\<lambda>d. Inr (s\<lparr>lru_blocks := d\<rparr>)) else Inr s) (rev hs) s"

definition lru_complete_load :: "block_hash list \<Rightarrow> LRUOffloadingManager \<Rightarrow> LRUOffloadingManager result" where
  "lru_complete_load = foldE (\<lambda>h s. case map_of (lru_blocks s) h of
      None \<Rightarrow> Inl KeyError
    | Some b \<Rightarrow> assertE (st_ref_cnt b > 0)
        (Inr (s\<lparr>lru_blocks := AList.update h (decr_status b) (lru_blocks s)\<rparr>)))"

text \<open>The \<open>for ... else\<close> loop that picks the victims: \<open>None\<close> when the items run out.\<close>

fun select_victims :: "int \<Rightarrow> status_dict \<Rightarrow> block_hash list option" where
  "select_victims n [] = None"
| "select_victims n ((h, b) # rest) =
     (if st_ref_cnt b = 0
      then (if n - 1 = 0 then Some [h] else map_option (Cons h) (select_victims (n - 1) rest))
      else select_victims n rest)"

definition choose_victims :: "int \<Rightarrow> status_dict \<Rightarrow> block_hash list option" where
  "choose_victims n d = (if n > 0 then select_victims n d else Some [])"

definition lru_evict :: "block_hash \<Rightarrow> LRUOffloadingManager \<Rightarrow> LRUOffloadingManager result" where
  "lru_evict h s = (case map_of (lru_blocks s) h of
      None \<Rightarrow> Inl KeyError
    | Some b \<Rightarrow> Inr (s\<lparr>lru_backend := backend_free b (lru_backend s), lru_blocks := AList.delete h (lru_blocks s)\<rparr>))"

definition lru_prepare_store :: "block_hash list \<Rightarrow> LRUOffloadingManager
    \<Rightarrow> (LRUOffloadingManager \<times> PrepareStoreOutput option) result" where
  "lru_prepare_store hs s =
     (let to_store = filter (\<lambda>h. map_of (lru_blocks s) h = None) hs;
          n = int (length to_store) - backend_num_free (lru_backend s)
      in case choose_victims n (lru_blocks s) of
           None \<Rightarrow> Inr (s, None)
         | Some to_evict \<Rightarrow>
             bindE (foldE lru_evict to_evict s) (\<lambda>s.
             let s = s\<lparr>lru_events := push_event True to_evict (lru_backend s) (lru_events s)\<rparr> in
             bindE (allocate_blocks to_store (lru_backend s)) (\<lambda>(be, bls).
               assertE (length bls = length to_store)
                 (Inr (s\<lparr>lru_backend := be,
                        lru_blocks := fold (\<lambda>(h, b). AList.update h b) (zip to_store bls) (lru_blocks s)\<rparr>,
                       Some \<lparr>block_hashes_to_store = to_store, store_spec = get_load_store_spec bls,
                             block_hashes_evicted = to_evict\<rparr>)))))"

definition lru_store_ok :: "block_hash \<Rightarrow> LRUOffloadingManager \<times> block_hash list \<Rightarrow> (LRUOffloadingManager \<times> block_hash list) result" where
  "lru_store_ok h st = (case st of (s, stored) \<Rightarrow> case map_of (lru_blocks s) h of
      None \<Rightarrow> Inl KeyError
    | Some b \<Rightarrow> if is_ready b then Inr (s, stored)
        else Inr (s\<lparr>lru_blocks := AList.update h (b\<lparr>st_ref_cnt := 0\<rparr>) (lru_blocks s)\<rparr>, stored @ [h]))"

definition lru_store_failed :: "block_hash \<Rightarrow> LRUOffloadingManager \<Rightarrow> LRUOffloadingManager result" where
  "lru_store_failed h s = (case map_of (lru_blocks s) h of
      None \<Rightarrow> Inl KeyError
    | Some b \<Rightarrow> if is_ready b then Inr s
        else Inr (s\<lparr>lru_backend := backend_free b (lru_backend s), lru_blocks := AList.delete h (lru_blocks s)\<rparr>))"

definition lru_complete_store :: "block_hash list \<Rightarrow> bool \<Rightarrow> LRUOffloadingManager \<Rightarrow> LRUOffloadingManager result" where
  "lru_complete_store hs success s =
     bindE (if success then foldE lru_store_ok hs (s, [])
            else bindE (foldE lru_store_failed hs s) (\<lambda>s. Inr (s, []))) (\<lambda>(s, stored).
       Inr (s\<lparr>lru_events := push_event False stored (lru_backend s) (lru_events s)\<rparr>))"

definition lru_take_events :: "LRUOffloadingManager \<Rightarrow> LRUOffloadingManager \<times> OffloadingEvent list" where
  "lru_take_events s = (case lru_events s of None \<Rightarrow> (s, []) | Some l \<Rightarrow> (s\<lparr>lru_events := Some []\<rparr>, l))"

subsection \<open>The backend's invariant\<close>

text \<open>
  Every block number below \<^verbatim>\<open>num_allocated_blocks\<close> is either in use (in \<open>used\<close>) or on the free
  list, exactly once.
\<close>

definition backend_ok :: "CPUBackend \<Rightarrow> int list \<Rightarrow> bool" where
  "backend_ok be used \<longleftrightarrow> 0 \<le> num_allocated_blocks be \<and> num_allocated_blocks be \<le> num_blocks be
     \<and> mset used + mset (allocated_blocks_free_list be) = mset [0..num_allocated_blocks be - 1]"

lemma backend_ok_perm: "backend_ok be xs \<Longrightarrow> mset ys = mset xs \<Longrightarrow> backend_ok be ys"
  by (simp add: backend_ok_def)

lemma backend_ok_distinct:
  assumes "backend_ok be used"
  shows "distinct used" and "set used \<subseteq> {0..<num_blocks be}"
    and "backend_num_free be = num_blocks be - int (length used)"
proof -
  have eq: "mset (used @ allocated_blocks_free_list be) = mset [0..num_allocated_blocks be - 1]"
    using assms by (simp add: backend_ok_def)
  then have "distinct (used @ allocated_blocks_free_list be)" using mset_eq_imp_distinct_iff distinct_upto by blast
  then show "distinct used" by simp
  have "set (used @ allocated_blocks_free_list be) = {0..num_allocated_blocks be - 1}"
    using mset_eq_setD [OF eq] by simp
  then have "set used \<subseteq> {0..num_allocated_blocks be - 1}" by auto
  then show "set used \<subseteq> {0..<num_blocks be}" using assms by (force simp: backend_ok_def)
  have "length used + length (allocated_blocks_free_list be) = nat (num_allocated_blocks be)"
    using arg_cong [OF eq, of size] by simp
  moreover have "0 \<le> num_allocated_blocks be" using assms by (simp add: backend_ok_def)
  ultimately have "int (length used) + int (length (allocated_blocks_free_list be)) = num_allocated_blocks be"
    by linarith
  then show "backend_num_free be = num_blocks be - int (length used)" by (simp add: backend_num_free_def)
qed

lemma backend_free_ok: "backend_ok be (st_block_id b # used) \<Longrightarrow> backend_ok (backend_free b be) used"
  by (simp add: backend_ok_def backend_free_def)

lemma fresh_loop:
  "(allocate_fresh ^^ k) (be, bls) = (be\<lparr>num_allocated_blocks := num_allocated_blocks be + int k\<rparr>,
     bls @ map new_status [num_allocated_blocks be..num_allocated_blocks be + int k - 1])"
proof (induction k)
  case (Suc k)
  have "[num_allocated_blocks be..num_allocated_blocks be + int (Suc k) - 1]
      = [num_allocated_blocks be..num_allocated_blocks be + int k - 1] @ [num_allocated_blocks be + int k]"
    by (subst upto_rec2) simp_all
  with Suc show ?case by (simp add: allocate_fresh_def algebra_simps)
qed simp

lemma reused_loop:
  "k \<le> length (allocated_blocks_free_list be) \<Longrightarrow>
   foldE (\<lambda>_. allocate_reused) [0..<k] (be, bls) =
     Inr (be\<lparr>allocated_blocks_free_list := take (length (allocated_blocks_free_list be) - k) (allocated_blocks_free_list be)\<rparr>,
          bls @ map new_status (rev (drop (length (allocated_blocks_free_list be) - k) (allocated_blocks_free_list be))))"
proof (induction k)
  case (Suc k)
  let ?l = "allocated_blocks_free_list be" and ?n = "length (allocated_blocks_free_list be)"
  define m where "m = ?n - Suc k"
  have n: "?n - k = Suc m" "m < ?n" using Suc.prems by (simp_all add: m_def)
  have last: "take (Suc m) ?l = take m ?l @ [?l ! m]" using n by (simp add: take_Suc_conv_app_nth)
  have "drop m ?l = ?l ! m # drop (Suc m) ?l" using n(2) by (rule Cons_nth_drop_Suc [symmetric])
  with Suc last n show ?case
    by (simp add: foldE_append allocate_reused_def m_def [symmetric])
qed simp

lemma allocate_blocks_ok:
  assumes ok: "backend_ok be used" and room: "int (length hs) \<le> backend_num_free be"
  shows "\<exists>be' bls. allocate_blocks hs be = Inr (be', bls) \<and> length bls = length hs
     \<and> (\<forall>b \<in> set bls. st_ref_cnt b = -1) \<and> backend_ok be' (map st_block_id bls @ used)
     \<and> num_blocks be' = num_blocks be \<and> backend_block_size be' = backend_block_size be"
proof -
  define fresh where "fresh = min (int (length hs)) (num_blocks be - num_allocated_blocks be)"
  define reused where "reused = int (length hs) - fresh"
  let ?l = "allocated_blocks_free_list be" and ?a = "num_allocated_blocks be"
  define be1 where "be1 = be\<lparr>num_allocated_blocks := ?a + fresh\<rparr>"
  have f: "0 \<le> fresh" "0 \<le> reused" using ok by (simp_all add: fresh_def reused_def backend_ok_def)
  have r: "reused \<le> int (length ?l)"
    using room ok by (auto simp: reused_def fresh_def backend_num_free_def backend_ok_def min_def)
  let ?k = "length ?l - nat reused"
  define be2 where "be2 = be1\<lparr>allocated_blocks_free_list := take ?k ?l\<rparr>"
  define bls where "bls = map new_status ([?a..?a + fresh - 1] @ rev (drop ?k ?l))"
  have "nat reused \<le> length (allocated_blocks_free_list be1)" using r by (simp add: be1_def)
  from reused_loop [OF this, of "map new_status [?a..?a + fresh - 1]"]
  have run: "allocate_blocks hs be = Inr (be2, bls)"
    using f r fresh_loop [of "nat fresh" be "[]"]
    by (simp add: allocate_blocks_def Let_def fresh_def [symmetric] reused_def [symmetric] be1_def be2_def bls_def)
  have len: "length bls = length hs" using f r by (simp add: bls_def reused_def)
  have ids: "map st_block_id bls = [?a..?a + fresh - 1] @ rev (drop ?k ?l)"
    by (simp add: bls_def new_status_def comp_def)
  have "mset [0..?a + fresh - 1] = mset [0..?a - 1] + mset [?a..?a + fresh - 1]"
    using ok f upto_split1 [of 0 ?a "?a + fresh - 1"]
  proof (cases "fresh = 0")
    case False
    with ok f upto_split1 [of 0 ?a "?a + fresh - 1"] show ?thesis by (simp add: backend_ok_def)
  qed simp
  moreover have "mset ?l = mset (take ?k ?l) + mset (drop ?k ?l)" by (metis append_take_drop_id mset_append)
  ultimately have "backend_ok be2 (map st_block_id bls @ used)"
    using ok f by (simp add: backend_ok_def ids be2_def be1_def fresh_def ac_simps)
  moreover have "\<forall>b \<in> set bls. st_ref_cnt b = -1" by (auto simp: bls_def new_status_def)
  ultimately show ?thesis using run len by (auto simp: be2_def be1_def)
qed


subsection \<open>Dictionaries of block statuses\<close>

definition used_ids :: "status_dict \<Rightarrow> int list" where
  "used_ids d = map (\<lambda>p. st_block_id (snd p)) d"

lemma used_ids_simps [simp]:
  "used_ids [] = []" "used_ids (p # d) = st_block_id (snd p) # used_ids d" "used_ids (d @ d') = used_ids d @ used_ids d'"
  by (simp_all add: used_ids_def)

lemma used_ids_update:
  "map_of d h = Some b \<Longrightarrow> st_block_id b' = st_block_id b \<Longrightarrow>
     used_ids (AList.update h b' d) = used_ids d \<and> map fst (AList.update h b' d) = map fst d"
  by (induction d) (auto split: if_splits)

lemma delete_filter: "AList.delete h d = filter (\<lambda>p. fst p \<noteq> h) d"
  by (induction d) auto

lemma used_ids_delete:
  "distinct_keys d \<Longrightarrow> map_of d h = Some b \<Longrightarrow>
     mset (used_ids d) = add_mset (st_block_id b) (mset (used_ids (AList.delete h d)))"
proof (induction d)
  case (Cons p d)
  show ?case
  proof (cases "fst p = h")
    case True
    then have "map_of d h = None" using Cons.prems(1) by (auto simp: map_of_eq_None_iff)
    then have "AList.delete h (p # d) = d" using True delete_fresh by (cases p) simp
    then show ?thesis using Cons.prems True by (cases p) simp
  next
    case False
    then show ?thesis using Cons by (cases p) simp
  qed
qed simp

lemma move_to_end_ok:
  assumes "distinct_keys d" and "map_of d h = Some b"
  shows "\<exists>d'. move_to_end h d = Inr d' \<and> distinct_keys d' \<and> mset (used_ids d') = mset (used_ids d) \<and> map_of d' = map_of d"
proof -
  let ?d = "AList.delete h d @ [(h, b)]"
  have "distinct_keys ?d" using assms(1) by (auto simp: delete_filter distinct_map_filter)
  moreover have "map_of ?d = map_of d"
    using assms(2) by (auto simp: fun_eq_iff delete_conv' map_add_def split: option.splits)
  moreover have "mset (used_ids ?d) = mset (used_ids d)" using used_ids_delete [OF assms] by simp
  ultimately show ?thesis using assms(2) by (intro exI [of _ ?d]) (simp add: move_to_end_def)
qed

subsection \<open>The invariant of the manager\<close>

definition lru_ok :: "LRUOffloadingManager \<Rightarrow> bool" where
  "lru_ok s \<longleftrightarrow> distinct_keys (lru_blocks s) \<and> backend_ok (lru_backend s) (used_ids (lru_blocks s))"

lemma lru_okD: "lru_ok s \<Longrightarrow> distinct_keys (lru_blocks s)" "lru_ok s \<Longrightarrow> backend_ok (lru_backend s) (used_ids (lru_blocks s))"
  by (simp_all add: lru_ok_def)

lemma lru_update_ok:
  assumes "lru_ok s" and "map_of (lru_blocks s) h = Some b" and "st_block_id b' = st_block_id b"
  shows "lru_ok (s\<lparr>lru_blocks := AList.update h b' (lru_blocks s)\<rparr>)"
  using assms(1) used_ids_update [OF assms(2,3)] by (simp add: lru_ok_def)

lemma lru_evict_ok:
  assumes ok: "lru_ok s" and h: "map_of (lru_blocks s) h = Some b"
  defines "s' \<equiv> s\<lparr>lru_backend := backend_free b (lru_backend s), lru_blocks := AList.delete h (lru_blocks s)\<rparr>"
  shows "lru_ok s'"
proof -
  have "backend_ok (lru_backend s) (st_block_id b # used_ids (AList.delete h (lru_blocks s)))"
    by (rule backend_ok_perm [OF lru_okD(2) [OF ok]]) (use used_ids_delete [OF lru_okD(1) [OF ok] h] in simp)
  then show ?thesis
    using backend_free_ok lru_okD(1) [OF ok] by (simp add: lru_ok_def s'_def distinct_delete)
qed

lemma lru_evict_loop:
  "lru_ok s \<Longrightarrow> distinct ev \<Longrightarrow> set ev \<subseteq> fst ` set (lru_blocks s) \<Longrightarrow>
   \<exists>s'. foldE lru_evict ev s = Inr s' \<and> lru_ok s' \<and> lru_blocks s' = filter (\<lambda>p. fst p \<notin> set ev) (lru_blocks s)
     \<and> lru_events s' = lru_events s \<and> num_blocks (lru_backend s') = num_blocks (lru_backend s)"
proof (induction ev arbitrary: s)
  case (Cons h ev)
  then obtain b where b: "map_of (lru_blocks s) h = Some b" by (auto simp: map_of_eq_None_iff dest: weak_map_of_SomeI)
  define t where "t = s\<lparr>lru_backend := backend_free b (lru_backend s), lru_blocks := AList.delete h (lru_blocks s)\<rparr>"
  have t: "lru_evict h s = Inr t" "lru_ok t" using b lru_evict_ok [OF Cons.prems(1) b] by (simp_all add: lru_evict_def t_def)
  have sub: "set ev \<subseteq> fst ` set (lru_blocks t)"
  proof
    fix x assume x: "x \<in> set ev"
    then have "x \<in> fst ` set (lru_blocks s)" "x \<noteq> h" using Cons.prems(2,3) by auto
    then show "x \<in> fst ` set (lru_blocks t)" by (auto simp: t_def delete_filter image_iff)
  qed
  have "distinct ev" using Cons.prems(2) by simp
  from Cons.IH [OF t(2) this sub] obtain s' where
    s': "foldE lru_evict ev t = Inr s'" "lru_ok s'" "lru_blocks s' = filter (\<lambda>p. fst p \<notin> set ev) (lru_blocks t)"
      "lru_events s' = lru_events t" "num_blocks (lru_backend s') = num_blocks (lru_backend t)" by blast
  have "lru_blocks s' = filter (\<lambda>p. fst p \<notin> set (h # ev)) (lru_blocks s)"
    using s'(3) by (simp add: t_def delete_filter conj_commute)
  with t(1) s' show ?case by (simp add: t_def backend_free_def)
qed simp

lemma length_filter_keys:
  assumes "distinct_keys d" and "distinct ev" and "set ev \<subseteq> fst ` set d"
  shows "length (filter (\<lambda>p. fst p \<notin> set ev) d) + length ev = length d"
proof -
  let ?in = "filter (\<lambda>p. \<not> fst p \<notin> set ev) d"
  have "distinct (map fst ?in)" using assms(1) by (rule distinct_map_filter)
  moreover have "set (map fst ?in) = set ev" using assms(3) by auto
  ultimately have "length (map fst ?in) = length ev" using assms(2) distinct_card by metis
  then show ?thesis using sum_length_filter_compl [of "\<lambda>p. fst p \<notin> set ev" d] by simp
qed

definition evictable :: "status_dict \<Rightarrow> status_dict" where
  "evictable d = filter (\<lambda>p. st_ref_cnt (snd p) = 0) d"

lemma select_victims_eq:
  "0 < n \<Longrightarrow> select_victims n d =
     (if n \<le> int (length (evictable d)) then Some (map fst (take (nat n) (evictable d))) else None)"
proof (induction n d rule: select_victims.induct)
  case (2 n h b rest)
  have Suc: "nat n = Suc (nat (n - 1))" using "2.prems" by simp
  show ?case
  proof (cases "st_ref_cnt b = 0")
    case True
    show ?thesis
    proof (cases "n = 1")
      case True
      with \<open>st_ref_cnt b = 0\<close> show ?thesis by (simp add: evictable_def)
    next
      case False
      with \<open>st_ref_cnt b = 0\<close> 2 Suc show ?thesis by (auto simp: evictable_def)
    qed
  next
    case False
    with 2 show ?thesis by (simp add: evictable_def)
  qed
qed (simp add: evictable_def)

lemma fold_update_fresh:
  "distinct hs \<Longrightarrow> length bls = length hs \<Longrightarrow> \<forall>h \<in> set hs. map_of d h = None \<Longrightarrow>
   fold (\<lambda>(h, b). AList.update h b) (zip hs bls) d = d @ zip hs bls"
proof (induction hs arbitrary: bls d)
  case (Cons h hs)
  then obtain b bs where bls: "bls = b # bs" by (cases bls) auto
  have "fold (\<lambda>(h, b). AList.update h b) (zip hs bs) (d @ [(h, b)]) = (d @ [(h, b)]) @ zip hs bs"
    by (rule Cons.IH) (use Cons.prems bls in \<open>auto simp: map_add_def\<close>)
  with Cons.prems bls show ?case by (simp add: update_fresh)
qed simp

text \<open>The complete effect of \<^verbatim>\<open>prepare_store\<close>.\<close>

lemma lru_prepare_store_ok:
  assumes ok: "lru_ok s" and hs: "distinct hs"
  defines "to_store \<equiv> filter (\<lambda>h. map_of (lru_blocks s) h = None) hs"
  defines "need \<equiv> int (length to_store) - backend_num_free (lru_backend s)"
  defines "victims \<equiv> map fst (take (nat need) (evictable (lru_blocks s)))"
  shows "need > int (length (evictable (lru_blocks s))) \<Longrightarrow> lru_prepare_store hs s = Inr (s, None)"
    and "need \<le> int (length (evictable (lru_blocks s))) \<Longrightarrow>
      \<exists>s' bls. lru_prepare_store hs s = Inr (s', Some \<lparr>block_hashes_to_store = to_store,
             store_spec = map st_block_id bls, block_hashes_evicted = victims\<rparr>)
        \<and> lru_ok s' \<and> length bls = length to_store \<and> (\<forall>b \<in> set bls. st_ref_cnt b = -1)
        \<and> lru_blocks s' = filter (\<lambda>p. fst p \<notin> set victims) (lru_blocks s) @ zip to_store bls
        \<and> num_blocks (lru_backend s') = num_blocks (lru_backend s)"
proof -
  let ?E = "evictable (lru_blocks s)"
  have sel: "choose_victims need (lru_blocks s) = (if need \<le> int (length ?E) then Some victims else None)"
    using select_victims_eq [of need "lru_blocks s"] by (auto simp: choose_victims_def victims_def)
  show "need > int (length ?E) \<Longrightarrow> lru_prepare_store hs s = Inr (s, None)"
    using sel by (simp add: lru_prepare_store_def Let_def to_store_def [symmetric] need_def [symmetric])
  assume fits: "need \<le> int (length ?E)"
  have vd: "distinct victims" "set victims \<subseteq> fst ` set (lru_blocks s)"
  proof -
    have "distinct (map fst ?E)" using lru_okD(1) [OF ok] by (simp add: evictable_def distinct_map_filter)
    then show "distinct victims" by (simp add: victims_def take_map [symmetric])
    show "set victims \<subseteq> fst ` set (lru_blocks s)"
      using set_take_subset [of "nat need" ?E] by (auto simp: victims_def evictable_def)
  qed
  from lru_evict_loop [OF ok this] obtain t where
    t: "foldE lru_evict victims s = Inr t" "lru_ok t" "lru_blocks t = filter (\<lambda>p. fst p \<notin> set victims) (lru_blocks s)"
      "lru_events t = lru_events s" "num_blocks (lru_backend t) = num_blocks (lru_backend s)" by blast
  define u where "u = t\<lparr>lru_events := push_event True victims (lru_backend t) (lru_events t)\<rparr>"
  have u: "lru_backend u = lru_backend t" "lru_blocks u = lru_blocks t" by (simp_all add: u_def)
  have room: "int (length to_store) \<le> backend_num_free (lru_backend u)"
  proof -
    have "length (lru_blocks t) + length victims = length (lru_blocks s)"
      unfolding t(3) by (rule length_filter_keys [OF lru_okD(1) [OF ok] vd])
    moreover have "length victims = nat need" using fits by (simp add: victims_def)
    ultimately show ?thesis
      using backend_ok_distinct(3) [OF lru_okD(2) [OF ok]] backend_ok_distinct(3) [OF lru_okD(2) [OF t(2)]] t(5) u(1)
      by (simp add: need_def used_ids_def)
  qed
  from allocate_blocks_ok [OF _ room, of "used_ids (lru_blocks t)"] lru_okD(2) [OF t(2)] obtain be bls where
    al: "allocate_blocks to_store (lru_backend u) = Inr (be, bls)" "length bls = length to_store"
      "\<forall>b \<in> set bls. st_ref_cnt b = -1" "backend_ok be (map st_block_id bls @ used_ids (lru_blocks t))"
      "num_blocks be = num_blocks (lru_backend u)" by (auto simp: u(1))
  have fresh: "\<forall>h \<in> set to_store. map_of (lru_blocks t) h = None"
    by (auto simp: to_store_def t(3) map_of_eq_None_iff)
  have dist: "distinct to_store" using hs by (simp add: to_store_def)
  have upd: "fold (\<lambda>(h, b). AList.update h b) (zip to_store bls) (lru_blocks t) = lru_blocks t @ zip to_store bls"
    by (rule fold_update_fresh [OF dist al(2) fresh])
  define s' where "s' = u\<lparr>lru_backend := be, lru_blocks := lru_blocks t @ zip to_store bls\<rparr>"
  have run: "lru_prepare_store hs s = Inr (s', Some \<lparr>block_hashes_to_store = to_store,
             store_spec = map st_block_id bls, block_hashes_evicted = victims\<rparr>)"
    using fits sel t(1) al(1) [unfolded u(1)] al(2) upd
    by (simp add: lru_prepare_store_def Let_def to_store_def [symmetric] need_def [symmetric] u_def [symmetric]
        u(2) s'_def get_load_store_spec_def)
  have "used_ids (zip to_store bls) = map st_block_id bls"
  proof -
    have "used_ids (zip to_store bls) = map st_block_id (map snd (zip to_store bls))" by (simp add: used_ids_def)
    then show ?thesis using al(2) by simp
  qed
  then have "backend_ok be (used_ids (lru_blocks t @ zip to_store bls))"
    using backend_ok_perm [OF al(4)] by simp
  moreover have "distinct_keys (lru_blocks t @ zip to_store bls)"
    using lru_okD(1) [OF t(2)] dist fresh al(2) by (auto simp: map_of_eq_None_iff dest: set_zip_leftD)
  ultimately have "lru_ok s'" by (simp add: lru_ok_def s'_def)
  moreover have "num_blocks be = num_blocks (lru_backend s)" using al(5) t(5) u(1) by simp
  ultimately show "\<exists>s' bls. lru_prepare_store hs s = Inr (s', Some \<lparr>block_hashes_to_store = to_store,
             store_spec = map st_block_id bls, block_hashes_evicted = victims\<rparr>)
        \<and> lru_ok s' \<and> length bls = length to_store \<and> (\<forall>b \<in> set bls. st_ref_cnt b = -1)
        \<and> lru_blocks s' = filter (\<lambda>p. fst p \<notin> set victims) (lru_blocks s) @ zip to_store bls
        \<and> num_blocks (lru_backend s') = num_blocks (lru_backend s)"
    using run al(2,3) t(3) by (intro exI [of _ s'] exI [of _ bls]) (simp add: s'_def)
qed


subsection \<open>Loads and completion\<close>

lemma lru_store_ok_step:
  assumes "lru_ok s" and "map_of (lru_blocks s) h = Some b"
  shows "\<exists>s' stored'. lru_store_ok h (s, stored) = Inr (s', stored') \<and> lru_ok s'
     \<and> map_of (lru_blocks s') = (map_of (lru_blocks s))(h \<mapsto> (if is_ready b then b else b\<lparr>st_ref_cnt := 0\<rparr>))
     \<and> num_blocks (lru_backend s') = num_blocks (lru_backend s)"
proof (cases "is_ready b")
  case True
  with assms show ?thesis by (auto simp: lru_store_ok_def fun_upd_idem)
next
  case False
  with assms lru_update_ok [OF assms, of "b\<lparr>st_ref_cnt := 0\<rparr>"] show ?thesis
    by (auto simp: lru_store_ok_def update_conv')
qed

lemma lru_store_ok_loop:
  "lru_ok s \<Longrightarrow> \<forall>h \<in> set hs. map_of (lru_blocks s) h \<noteq> None \<Longrightarrow>
   \<exists>s' stored'. foldE lru_store_ok hs (s, stored) = Inr (s', stored') \<and> lru_ok s'
     \<and> num_blocks (lru_backend s') = num_blocks (lru_backend s)
     \<and> (\<forall>q. map_of (lru_blocks s') q = (if q \<in> set hs
          then map_option (\<lambda>b. if is_ready b then b else b\<lparr>st_ref_cnt := 0\<rparr>) (map_of (lru_blocks s) q)
          else map_of (lru_blocks s) q))"
proof (induction hs arbitrary: s stored)
  case (Cons h hs)
  then obtain b where b: "map_of (lru_blocks s) h = Some b" by auto
  from lru_store_ok_step [OF Cons.prems(1) b, of stored] obtain t st where
    t: "lru_store_ok h (s, stored) = Inr (t, st)" "lru_ok t" "num_blocks (lru_backend t) = num_blocks (lru_backend s)"
      "map_of (lru_blocks t) = (map_of (lru_blocks s))(h \<mapsto> (if is_ready b then b else b\<lparr>st_ref_cnt := 0\<rparr>))" by blast
  have "\<forall>h \<in> set hs. map_of (lru_blocks t) h \<noteq> None" using Cons.prems(2) t(4) by simp
  from Cons.IH [OF t(2) this, of st] obtain s' st' where
    s': "foldE lru_store_ok hs (t, st) = Inr (s', st')" "lru_ok s'" "num_blocks (lru_backend s') = num_blocks (lru_backend t)"
      "\<forall>q. map_of (lru_blocks s') q = (if q \<in> set hs
          then map_option (\<lambda>b. if is_ready b then b else b\<lparr>st_ref_cnt := 0\<rparr>) (map_of (lru_blocks t) q)
          else map_of (lru_blocks t) q)" by blast
  have "map_of (lru_blocks s') q = (if q \<in> set (h # hs)
          then map_option (\<lambda>b. if is_ready b then b else b\<lparr>st_ref_cnt := 0\<rparr>) (map_of (lru_blocks s) q)
          else map_of (lru_blocks s) q)" for q
    using s'(4) t(4) b by (simp add: is_ready_def)
  with t(1,3) s' show ?case by auto
qed simp

lemma lru_complete_store_success:
  assumes "lru_ok s" and "\<forall>h \<in> set hs. map_of (lru_blocks s) h \<noteq> None"
  shows "\<exists>s'. lru_complete_store hs True s = Inr s' \<and> lru_ok s'
     \<and> num_blocks (lru_backend s') = num_blocks (lru_backend s)
     \<and> (\<forall>q. map_of (lru_blocks s') q = (if q \<in> set hs
          then map_option (\<lambda>b. if is_ready b then b else b\<lparr>st_ref_cnt := 0\<rparr>) (map_of (lru_blocks s) q)
          else map_of (lru_blocks s) q))"
  using lru_store_ok_loop [OF assms, of "[]"] by (auto simp: lru_complete_store_def lru_ok_def)

text \<open>Every call that returns keeps the invariant.\<close>

lemma lru_load_ok: "lru_prepare_load hs s = Inr (s', spec) \<Longrightarrow> lru_ok s \<Longrightarrow> lru_ok s' \<and> num_blocks (lru_backend s') = num_blocks (lru_backend s)"
proof -
  assume run: "lru_prepare_load hs s = Inr (s', spec)" and ok: "lru_ok s"
  then obtain bls where "foldE lru_load_step hs (s, []) = Inr (s', bls)" by (auto simp: lru_prepare_load_def elim!: bindE_InrE)
  then have "(\<lambda>(t, bls). lru_ok t \<and> num_blocks (lru_backend t) = num_blocks (lru_backend s)) (s', bls)"
  proof (rule foldE_invariant)
    fix h and t t' :: "LRUOffloadingManager \<times> BlockStatus list"
    assume t: "case t of (t, bls) \<Rightarrow> lru_ok t \<and> num_blocks (lru_backend t) = num_blocks (lru_backend s)"
      and step: "lru_load_step h t = Inr t'"
    obtain u bs where u: "t = (u, bs)" by force
    from step u obtain b where b: "map_of (lru_blocks u) h = Some b"
      "t' = (u\<lparr>lru_blocks := AList.update h (incr_status b) (lru_blocks u)\<rparr>, bs @ [b])"
      by (cases "map_of (lru_blocks u) h") (auto simp: lru_load_step_def)
    then show "case t' of (t, bls) \<Rightarrow> lru_ok t \<and> num_blocks (lru_backend t) = num_blocks (lru_backend s)"
      using t u lru_update_ok [OF _ b(1), of "incr_status b"] by (simp add: incr_status_def)
  qed (simp add: ok)
  then show ?thesis by simp
qed

lemma lru_complete_load_ok: "lru_complete_load hs s = Inr s' \<Longrightarrow> lru_ok s \<Longrightarrow> lru_ok s' \<and> num_blocks (lru_backend s') = num_blocks (lru_backend s)"
proof -
  assume run: "lru_complete_load hs s = Inr s'" and ok: "lru_ok s"
  show ?thesis
  proof (rule foldE_invariant [OF run [unfolded lru_complete_load_def], where P = "\<lambda>t. lru_ok t \<and> num_blocks (lru_backend t) = num_blocks (lru_backend s)"])
    fix h t t'
    assume t: "lru_ok t \<and> num_blocks (lru_backend t) = num_blocks (lru_backend s)"
      and step: "(case map_of (lru_blocks t) h of None \<Rightarrow> Inl KeyError
        | Some b \<Rightarrow> assertE (st_ref_cnt b > 0)
            (Inr (t\<lparr>lru_blocks := AList.update h (decr_status b) (lru_blocks t)\<rparr>))) = Inr t'"
    from step obtain b where "map_of (lru_blocks t) h = Some b"
      "t' = t\<lparr>lru_blocks := AList.update h (decr_status b) (lru_blocks t)\<rparr>"
      by (cases "map_of (lru_blocks t) h") auto
    then show "lru_ok t' \<and> num_blocks (lru_backend t') = num_blocks (lru_backend s)"
      using t lru_update_ok [of t h b "decr_status b"] by (simp add: decr_status_def)
  qed (simp add: ok)
qed

lemma lru_touch_ok:
  "lru_ok s \<Longrightarrow> \<exists>s'. lru_touch hs s = Inr s' \<and> lru_ok s' \<and> map_of (lru_blocks s') = map_of (lru_blocks s)
     \<and> lru_backend s' = lru_backend s"
proof -
  define step where "step = (\<lambda>h (s :: LRUOffloadingManager). if map_of (lru_blocks s) h \<noteq> None
     then bindE (move_to_end h (lru_blocks s)) (\<lambda>d. Inr (s\<lparr>lru_blocks := d\<rparr>)) else Inr s)"
  have "lru_ok s \<Longrightarrow> \<exists>s'. foldE step hs s = Inr s' \<and> lru_ok s' \<and> map_of (lru_blocks s') = map_of (lru_blocks s)
     \<and> lru_backend s' = lru_backend s" for hs and s :: LRUOffloadingManager
  proof (induction hs arbitrary: s)
    case (Cons h hs)
    have "\<exists>t. step h s = Inr t \<and> lru_ok t \<and> map_of (lru_blocks t) = map_of (lru_blocks s) \<and> lru_backend t = lru_backend s"
    proof (cases "map_of (lru_blocks s) h")
      case None
      then show ?thesis using Cons.prems by (simp add: step_def)
    next
      case (Some b)
      from move_to_end_ok [OF lru_okD(1) [OF Cons.prems] Some] obtain d where
        "move_to_end h (lru_blocks s) = Inr d" "distinct_keys d" "mset (used_ids d) = mset (used_ids (lru_blocks s))"
        "map_of d = map_of (lru_blocks s)" by blast
      with Some Cons.prems backend_ok_perm [of "lru_backend s" "used_ids (lru_blocks s)" "used_ids d"] show ?thesis
        by (simp add: step_def lru_ok_def)
    qed
    then obtain t where "step h s = Inr t" "lru_ok t" "map_of (lru_blocks t) = map_of (lru_blocks s)"
      "lru_backend t = lru_backend s" by blast
    with Cons.IH [of t] show ?case by auto
  qed simp
  then show "lru_ok s \<Longrightarrow> ?thesis" unfolding lru_touch_def step_def by blast
qed

lemma lru_complete_store_ok:
  assumes run: "lru_complete_store hs success s = Inr s'" and ok: "lru_ok s"
  shows "lru_ok s' \<and> num_blocks (lru_backend s') = num_blocks (lru_backend s)"
proof -
  let ?P = "\<lambda>t. lru_ok t \<and> num_blocks (lru_backend t) = num_blocks (lru_backend s)"
  have store: "?P t'" if "?P t" "lru_store_ok h (t, st) = Inr (t', st')" for h t t' st st'
  proof -
    from that(2) obtain b where "map_of (lru_blocks t) h = Some b"
      by (cases "map_of (lru_blocks t) h") (auto simp: lru_store_ok_def)
    with lru_store_ok_step [of t h b st] that show ?thesis by auto
  qed
  have fail: "?P t'" if "?P t" "lru_store_failed h t = Inr t'" for h t t'
  proof -
    from that(2) obtain b where b: "map_of (lru_blocks t) h = Some b"
      by (cases "map_of (lru_blocks t) h") (auto simp: lru_store_failed_def)
    with that lru_evict_ok [OF _ b] show ?thesis
      by (auto simp: lru_store_failed_def backend_free_def split: if_splits)
  qed
  from run obtain t st where
    t: "(if success then foldE lru_store_ok hs (s, []) else bindE (foldE lru_store_failed hs s) (\<lambda>s. Inr (s, []))) = Inr (t, st)"
    and s': "s' = t\<lparr>lru_events := push_event False st (lru_backend t) (lru_events t)\<rparr>"
    unfolding lru_complete_store_def by (auto elim!: bindE_InrE)
  have "?P t"
  proof (cases success)
    case True
    with t have "foldE lru_store_ok hs (s, []) = Inr (t, st)" by simp
    then have "(\<lambda>(t, st). ?P t) (t, st)"
    proof (rule foldE_invariant)
      fix h and u u' :: "LRUOffloadingManager \<times> block_hash list"
      assume "case u of (t, st) \<Rightarrow> ?P t" and "lru_store_ok h u = Inr u'"
      then show "case u' of (t, st) \<Rightarrow> ?P t" using store by (cases u; cases u') blast
    qed (simp add: ok)
    then show ?thesis by simp
  next
    case False
    with t have "foldE lru_store_failed hs s = Inr t" by (auto elim!: bindE_InrE)
    then show ?thesis
    proof (rule foldE_invariant)
      fix h u u' assume "?P u" and "lru_store_failed h u = Inr u'"
      then show "?P u'" by (rule fail)
    qed (simp add: ok)
  qed
  then show ?thesis by (simp add: s' lru_ok_def)
qed


subsection \<open>What a manager promises\<close>

text \<open>
  The contract of \<^verbatim>\<open>abstract.py\<close> between the managers and the connector: \<open>lookup\<close> counts the longest
  readable prefix, \<open>prepare_store\<close> reserves blocks that are not readable yet and keeps those
  that are being read, and \<open>complete_store\<close> makes the reserved blocks readable.
\<close>

locale offloading_manager =
  fixes ok :: "'s \<Rightarrow> bool"
    and has :: "'s \<Rightarrow> 'h \<Rightarrow> bool"
    and ready :: "'s \<Rightarrow> 'h \<Rightarrow> bool"
    and busy :: "'s \<Rightarrow> 'h \<Rightarrow> bool"
    and lookup :: "'h list \<Rightarrow> 's \<Rightarrow> int"
    and store :: "'h list \<Rightarrow> 's \<Rightarrow> ('s \<times> 'o option) result"
    and stored :: "'o \<Rightarrow> 'h list"
    and complete :: "'h list \<Rightarrow> bool \<Rightarrow> 's \<Rightarrow> 's result"
  assumes lookup_law: "lookup hs s = int (length (takeWhile (ready s) hs))"
    and store_law: "ok s \<Longrightarrow> distinct hs \<Longrightarrow> store hs s = Inr (s', Some out) \<Longrightarrow>
      ok s' \<and> (\<forall>h \<in> set (stored out). has s' h \<and> \<not> ready s' h)
        \<and> (\<forall>h. ready s h \<and> busy s h \<longrightarrow> ready s' h \<and> busy s' h)"
    and complete_law: "ok s \<Longrightarrow> \<forall>h \<in> set hs. has s h \<Longrightarrow>
      \<exists>s'. complete hs True s = Inr s' \<and> ok s' \<and> (\<forall>h \<in> set hs. ready s' h)"
begin

lemma lookup_all: "\<forall>h \<in> set hs. ready s h \<Longrightarrow> lookup hs s = int (length hs)"
  by (simp add: lookup_law takeWhile_eq_all_conv [THEN iffD2])

lemma store_then_complete:
  assumes "ok s" "distinct hs" and run: "store hs s = Inr (s', Some out)"
  shows "\<exists>s''. complete (stored out) True s' = Inr s'' \<and> ok s'' \<and> lookup (stored out) s'' = int (length (stored out))"
    and "stored out \<noteq> [] \<Longrightarrow> lookup (stored out) s' = 0"
proof -
  note st = store_law [OF assms]
  from complete_law [of s' "stored out"] st obtain s'' where
    s'': "complete (stored out) True s' = Inr s''" "ok s''" "\<forall>h \<in> set (stored out). ready s'' h" by blast
  then show "\<exists>s''. complete (stored out) True s' = Inr s'' \<and> ok s'' \<and> lookup (stored out) s'' = int (length (stored out))"
    using lookup_all by blast
  show "stored out \<noteq> [] \<Longrightarrow> lookup (stored out) s' = 0"
    using st by (cases "stored out") (auto simp: lookup_law)
qed

lemma busy_survives:
  assumes "ok s" "distinct hs" "store hs s = Inr (s', Some out)" and "\<forall>h \<in> set ls. ready s h \<and> busy s h"
  shows "lookup ls s' = int (length ls)"
  using store_law [OF assms(1-3)] assms(4) by (intro lookup_all) blast

end

lemma lookup_count_takeWhile:
  "lookup_count m hs = int (length (takeWhile (\<lambda>h. \<exists>b. m h = Some b \<and> is_ready b) hs))"
  by (induction hs) (auto split: option.splits)

definition lru_ready :: "LRUOffloadingManager \<Rightarrow> block_hash \<Rightarrow> bool" where
  "lru_ready s h \<longleftrightarrow> (\<exists>b. map_of (lru_blocks s) h = Some b \<and> is_ready b)"

definition lru_busy :: "LRUOffloadingManager \<Rightarrow> block_hash \<Rightarrow> bool" where
  "lru_busy s h \<longleftrightarrow> (\<exists>b. map_of (lru_blocks s) h = Some b \<and> st_ref_cnt b \<noteq> 0)"

lemma lru_prepare_store_cases:
  assumes "lru_ok s" "distinct hs" "lru_prepare_store hs s = Inr (s', Some out)"
  obtains victims bls where "lru_ok s'" "block_hashes_evicted out = victims"
    "block_hashes_to_store out = filter (\<lambda>h. map_of (lru_blocks s) h = None) hs"
    "length bls = length (block_hashes_to_store out)" "\<forall>b \<in> set bls. st_ref_cnt b = -1"
    "lru_blocks s' = filter (\<lambda>p. fst p \<notin> set victims) (lru_blocks s) @ zip (block_hashes_to_store out) bls"
    "set victims \<subseteq> fst ` set (evictable (lru_blocks s))" "num_blocks (lru_backend s') = num_blocks (lru_backend s)"
proof -
  let ?ts = "filter (\<lambda>h. map_of (lru_blocks s) h = None) hs"
  let ?n = "int (length ?ts) - backend_num_free (lru_backend s)"
  let ?v = "map fst (take (nat ?n) (evictable (lru_blocks s)))"
  have "\<not> ?n > int (length (evictable (lru_blocks s)))"
    using lru_prepare_store_ok(1) [OF assms(1,2)] assms(3) by auto
  then have "?n \<le> int (length (evictable (lru_blocks s)))" by simp
  from lru_prepare_store_ok(2) [OF assms(1,2) this] assms(3) obtain bls where
    b: "lru_ok s'" "out = \<lparr>block_hashes_to_store = ?ts, store_spec = map st_block_id bls, block_hashes_evicted = ?v\<rparr>"
      "length bls = length ?ts" "\<forall>b \<in> set bls. st_ref_cnt b = -1"
      "lru_blocks s' = filter (\<lambda>p. fst p \<notin> set ?v) (lru_blocks s) @ zip ?ts bls"
      "num_blocks (lru_backend s') = num_blocks (lru_backend s)" by auto
  have "set ?v \<subseteq> fst ` set (evictable (lru_blocks s))" using set_take_subset by fastforce
  with b show ?thesis by (intro that [of ?v bls]) simp_all
qed

text \<open>New entries are not ready; an old entry survives exactly when it is not a victim.\<close>

lemma map_of_after_store:
  fixes victims :: "block_hash list" and d :: status_dict
  assumes "distinct_keys d" and "distinct ts" "length bls = length ts" and "\<forall>h \<in> set ts. map_of d h = None"
  defines "d' \<equiv> filter (\<lambda>p. fst p \<notin> set victims) d @ zip ts bls"
  shows "h \<in> set ts \<Longrightarrow> \<exists>b \<in> set bls. map_of d' h = Some b"
    and "map_of d h = Some b \<Longrightarrow> h \<notin> set victims \<Longrightarrow> map_of d' h = Some b"
proof -
  have keys: "distinct_keys (filter (\<lambda>p. fst p \<notin> set victims) d)" using assms(1) by (rule distinct_map_filter)
  show "map_of d h = Some b \<Longrightarrow> h \<notin> set victims \<Longrightarrow> map_of d' h = Some b"
  proof -
    assume h: "map_of d h = Some b" "h \<notin> set victims"
    then have "(h, b) \<in> set (filter (\<lambda>p. fst p \<notin> set victims) d)" by (auto dest: map_of_SomeD)
    then have "map_of (filter (\<lambda>p. fst p \<notin> set victims) d) h = Some b" using keys by simp
    moreover have "h \<notin> set ts" using h(1) assms(4) by auto
    then have "map_of (zip ts bls) h = None" by (auto simp: map_of_eq_None_iff dest: set_zip_leftD)
    ultimately show ?thesis by (simp add: d'_def map_add_def)
  qed
  assume h: "h \<in> set ts"
  then obtain i where i: "i < length ts" "ts ! i = h" by (auto simp: in_set_conv_nth)
  have "map_of d h = None" using h assms(4) by blast
  then have "map_of (filter (\<lambda>p. fst p \<notin> set victims) d) h = None"
    by (auto simp: map_of_eq_None_iff)
  moreover have "map_of (zip ts bls) h = Some (bls ! i)"
    using map_of_zip_nth [OF assms(3) [symmetric] assms(2)] i assms(3) by auto
  ultimately show "\<exists>b \<in> set bls. map_of d' h = Some b"
    using i assms(3) by (auto simp: d'_def map_add_def)
qed

interpretation lru: offloading_manager lru_ok "\<lambda>s h. map_of (lru_blocks s) h \<noteq> None" lru_ready lru_busy
    lru_lookup lru_prepare_store block_hashes_to_store lru_complete_store
proof (unfold_locales, goal_cases)
  case (1 hs s)
  show ?case by (simp add: lru_lookup_def lookup_count_takeWhile lru_ready_def [abs_def])
next
  case (2 s hs s' out)
  then obtain victims bls where p: "lru_ok s'"
    "block_hashes_to_store out = filter (\<lambda>h. map_of (lru_blocks s) h = None) hs"
    "length bls = length (block_hashes_to_store out)" "\<forall>b \<in> set bls. st_ref_cnt b = -1"
    "lru_blocks s' = filter (\<lambda>p. fst p \<notin> set victims) (lru_blocks s) @ zip (block_hashes_to_store out) bls"
    "set victims \<subseteq> fst ` set (evictable (lru_blocks s))"
    by (rule lru_prepare_store_cases)
  have ts: "distinct (block_hashes_to_store out)" "\<forall>h \<in> set (block_hashes_to_store out). map_of (lru_blocks s) h = None"
    using 2(2) p(2) by simp_all
  note after = map_of_after_store [OF lru_okD(1) [OF 2(1)] ts(1) p(3) ts(2), where victims = victims, folded p(5)]
  have "map_of (lru_blocks s') h \<noteq> None \<and> \<not> lru_ready s' h" if h: "h \<in> set (block_hashes_to_store out)" for h
    using after(1) [OF h] p(4) by (auto simp: lru_ready_def is_ready_def)
  moreover have "lru_ready s' h \<and> lru_busy s' h" if h: "lru_ready s h \<and> lru_busy s h" for h
  proof -
    from h obtain b where b: "map_of (lru_blocks s) h = Some b" "is_ready b" "st_ref_cnt b \<noteq> 0"
      by (auto simp: lru_ready_def lru_busy_def)
    have "h \<notin> fst ` set (evictable (lru_blocks s))"
    proof
      assume "h \<in> fst ` set (evictable (lru_blocks s))"
      then obtain c where c: "(h, c) \<in> set (lru_blocks s)" "st_ref_cnt c = 0" by (auto simp: evictable_def)
      have "map_of (lru_blocks s) h = Some c" using lru_okD(1) [OF 2(1)] c(1) by (rule map_of_is_SomeI)
      with b(1,3) c(2) show False by simp
    qed
    with p(6) have "h \<notin> set victims" by blast
    from after(2) [OF b(1) this] b show ?thesis by (auto simp: lru_ready_def lru_busy_def)
  qed
  ultimately show ?case using p(1) by blast
next
  case (3 s hs)
  from lru_complete_store_success [OF this] 3(2) show ?case
    by (fastforce simp: lru_ready_def is_ready_def)
qed


subsection \<open>Properties of the LRU manager\<close>

inductive lru_step :: "LRUOffloadingManager \<Rightarrow> LRUOffloadingManager \<Rightarrow> bool" where
  lru_do_load: "lru_prepare_load hs s = Inr (s', spec) \<Longrightarrow> lru_step s s'"
| lru_do_touch: "lru_touch hs s = Inr s' \<Longrightarrow> lru_step s s'"
| lru_do_complete_load: "lru_complete_load hs s = Inr s' \<Longrightarrow> lru_step s s'"
| lru_do_store: "distinct hs \<Longrightarrow> lru_prepare_store hs s = Inr (s', out) \<Longrightarrow> lru_step s s'"
| lru_do_complete_store: "lru_complete_store hs success s = Inr s' \<Longrightarrow> lru_step s s'"
| lru_do_take: "lru_take_events s = (s', evs) \<Longrightarrow> lru_step s s'"

inductive lru_reach :: "int \<Rightarrow> LRUOffloadingManager \<Rightarrow> bool" for n where
  lru_start: "lru_reach n (lru_init (cpu_backend_init bs n) evs)"
| lru_next: "lru_reach n s \<Longrightarrow> lru_step s s' \<Longrightarrow> lru_reach n s'"

lemma lru_init_ok: "0 \<le> n \<Longrightarrow> lru_ok (lru_init (cpu_backend_init bs n) evs)"
  by (simp add: lru_ok_def lru_init_def cpu_backend_init_def backend_ok_def)

lemma lru_step_ok:
  assumes "lru_step s s'" and "lru_ok s"
  shows "lru_ok s' \<and> num_blocks (lru_backend s') = num_blocks (lru_backend s)"
  using assms(1)
proof cases
  case (lru_do_load hs spec)
  then show ?thesis using lru_load_ok assms(2) by blast
next
  case (lru_do_touch hs)
  then show ?thesis using lru_touch_ok [OF assms(2), of hs] by auto
next
  case (lru_do_complete_load hs)
  then show ?thesis using lru_complete_load_ok assms(2) by blast
next
  case (lru_do_store hs out)
  show ?thesis
  proof (cases out)
    case (Some x)
    with lru_do_store have "lru_prepare_store hs s = Inr (s', Some x)" by simp
    from lru_prepare_store_cases [OF assms(2) lru_do_store(1) this] show ?thesis by blast
  next
    case None
    then show ?thesis
      using lru_do_store lru_prepare_store_ok [OF assms(2) lru_do_store(1)] assms(2) by fastforce
  qed
next
  case (lru_do_complete_store hs success)
  then show ?thesis using lru_complete_store_ok assms(2) by blast
next
  case (lru_do_take evs)
  then show ?thesis using assms(2) by (auto simp: lru_take_events_def lru_ok_def split: option.splits)
qed

lemma lru_reach_ok: "lru_reach n s \<Longrightarrow> 0 \<le> n \<Longrightarrow> lru_ok s \<and> num_blocks (lru_backend s) = n"
proof (induction rule: lru_reach.induct)
  case (lru_start bs evs)
  then show ?case using lru_init_ok by (simp add: lru_init_def cpu_backend_init_def)
next
  case (lru_next s s')
  then show ?case using lru_step_ok by auto
qed

text \<open>
  C25: In every reachable state of the LRU manager the stored hashes are distinct, no two of them
  share a block of the CPU backend, all block numbers are in range, and the used and the free
  blocks add up to the size of the backend: nothing is lost and nothing is handed out twice.
\<close>

theorem lru_invariant:
  assumes "lru_reach n s" and "0 \<le> n"
  shows "distinct_keys (lru_blocks s) \<and> distinct (used_ids (lru_blocks s))
     \<and> set (used_ids (lru_blocks s)) \<subseteq> {0..<n}
     \<and> backend_num_free (lru_backend s) + int (length (lru_blocks s)) = n"
  using lru_reach_ok [OF assms] backend_ok_distinct [OF lru_okD(2)] by (auto simp: lru_ok_def used_ids_def)

theorem lru_invariant_witness:
  "\<exists>s out. lru_prepare_store [[1], [2]] (lru_init (cpu_backend_init 16 2) True) = Inr (s, out)
     \<and> backend_num_free (lru_backend s) + int (length (lru_blocks s)) = 2"
proof -
  let ?s = "lru_init (cpu_backend_init 16 2) True"
  have d: "distinct [[1 :: 8 word], [2]]" by simp
  have free: "backend_num_free (lru_backend ?s) = 2" "lru_blocks ?s = []"
    by (simp_all add: lru_init_def cpu_backend_init_def backend_num_free_def)
  have ok: "lru_ok ?s" by (rule lru_init_ok) simp
  from lru_prepare_store_ok(2) [OF ok d] free obtain s out where
    s: "lru_prepare_store [[1], [2]] ?s = Inr (s, out)" by auto
  have "lru_reach 2 s" by (rule lru_next [OF lru_start lru_do_store [OF d s]])
  from lru_invariant [OF this] s show ?thesis by auto
qed

text \<open>
  C26: \<^verbatim>\<open>prepare_store\<close> of different hashes never raises. It refuses, changing nothing, exactly when
  the idle blocks are fewer than the blocks missing. Otherwise it evicts exactly as many idle
  blocks as are missing, the least recently used first, never a block in use or not yet
  written, and reserves a block for each new hash.
\<close>

theorem lru_prepare_store_correct:
  assumes "lru_ok s" and "distinct hs"
    and "new = filter (\<lambda>h. map_of (lru_blocks s) h = None) hs"
    and "missing = int (length new) - backend_num_free (lru_backend s)"
    and "idle = filter (\<lambda>p. st_ref_cnt (snd p) = 0) (lru_blocks s)"
  shows "(missing > int (length idle) \<longrightarrow> lru_prepare_store hs s = Inr (s, None))
   \<and> (missing \<le> int (length idle) \<longrightarrow> (\<exists>s' out bls. lru_prepare_store hs s = Inr (s', Some out)
        \<and> block_hashes_to_store out = new \<and> block_hashes_evicted out = map fst (take (nat missing) idle)
        \<and> store_spec out = map st_block_id bls \<and> length bls = length new \<and> lru_ok s'
        \<and> lru_blocks s' = filter (\<lambda>p. fst p \<notin> set (block_hashes_evicted out)) (lru_blocks s) @ zip new bls
        \<and> (\<forall>b \<in> set bls. \<not> is_ready b)))"
proof (intro conjI impI)
  have idle: "idle = evictable (lru_blocks s)" using assms(5) by (simp add: evictable_def)
  show "missing > int (length idle) \<Longrightarrow> lru_prepare_store hs s = Inr (s, None)"
    using lru_prepare_store_ok(1) [OF assms(1,2)] assms(3,4) idle by simp
  assume "missing \<le> int (length idle)"
  with lru_prepare_store_ok(2) [OF assms(1,2)] assms(3,4) idle obtain s' bls where
    "lru_prepare_store hs s = Inr (s', Some \<lparr>block_hashes_to_store = new, store_spec = map st_block_id bls,
        block_hashes_evicted = map fst (take (nat missing) idle)\<rparr>)" "lru_ok s'" "length bls = length new"
    "\<forall>b \<in> set bls. st_ref_cnt b = -1"
    "lru_blocks s' = filter (\<lambda>p. fst p \<notin> set (map fst (take (nat missing) idle))) (lru_blocks s) @ zip new bls"
    by auto
  then show "\<exists>s' out bls. lru_prepare_store hs s = Inr (s', Some out)
        \<and> block_hashes_to_store out = new \<and> block_hashes_evicted out = map fst (take (nat missing) idle)
        \<and> store_spec out = map st_block_id bls \<and> length bls = length new \<and> lru_ok s'
        \<and> lru_blocks s' = filter (\<lambda>p. fst p \<notin> set (block_hashes_evicted out)) (lru_blocks s) @ zip new bls
        \<and> (\<forall>b \<in> set bls. \<not> is_ready b)"
    by (intro exI [of _ s'] exI [of _ "\<lparr>block_hashes_to_store = new, store_spec = map st_block_id bls,
        block_hashes_evicted = map fst (take (nat missing) idle)\<rparr>"] exI [of _ bls]) (auto simp: is_ready_def)
qed

theorem lru_prepare_store_correct_witness:
  "\<exists>s s'. lru_blocks s = [([1], \<lparr>st_ref_cnt = 0, st_block_id = 0\<rparr>), ([2], \<lparr>st_ref_cnt = 1, st_block_id = 1\<rparr>)]
     \<and> lru_prepare_store [[3], [4]] s = Inr (s, None)
     \<and> (\<exists>out. lru_prepare_store [[3]] s = Inr (s', Some out) \<and> block_hashes_evicted out = [[1]])"
proof -
  define s where "s = \<lparr>lru_backend = \<lparr>backend_block_size = 16, num_blocks = 2, num_allocated_blocks = 2,
      allocated_blocks_free_list = []\<rparr>,
    lru_blocks = [([1], \<lparr>st_ref_cnt = 0, st_block_id = 0\<rparr>), ([2], \<lparr>st_ref_cnt = 1, st_block_id = 1\<rparr>)],
    lru_events = None\<rparr>"
  have ok: "lru_ok s" by (simp add: s_def lru_ok_def backend_ok_def upto.simps)
  have f: "backend_num_free (lru_backend s) = 0" by (simp add: s_def backend_num_free_def)
  have b: "lru_blocks s = [([1], \<lparr>st_ref_cnt = 0, st_block_id = 0\<rparr>), ([2], \<lparr>st_ref_cnt = 1, st_block_id = 1\<rparr>)]"
    by (simp add: s_def)
  have d: "distinct [[3 :: 8 word], [4]]" "distinct [[3 :: 8 word]]" by simp_all
  have "lru_prepare_store [[3], [4]] s = Inr (s, None)"
    using lru_prepare_store_correct [OF ok d(1) refl refl refl] f b by simp
  moreover have "\<exists>s' out. lru_prepare_store [[3]] s = Inr (s', Some out) \<and> block_hashes_evicted out = [[1]]"
    using lru_prepare_store_correct [OF ok d(2) refl refl refl] f b by auto
  ultimately show ?thesis using b by blast
qed

text \<open>
  Blocks reserved by \<^verbatim>\<open>prepare_store\<close> cannot be read before \<^verbatim>\<open>complete_store\<close> and all of them can
  be read after it; blocks that are being read stay readable through a store.
\<close>

theorem lru_store_protocol:
  assumes "lru_ok s" and "distinct hs" and "lru_prepare_store hs s = Inr (s', Some out)"
    and "\<forall>h \<in> set loading. lru_ready s h \<and> lru_busy s h"
  shows "(block_hashes_to_store out \<noteq> [] \<longrightarrow> lru_lookup (block_hashes_to_store out) s' = 0)
   \<and> (\<exists>s''. lru_complete_store (block_hashes_to_store out) True s' = Inr s'' \<and> lru_ok s''
        \<and> lru_lookup (block_hashes_to_store out) s'' = int (length (block_hashes_to_store out)))
   \<and> lru_lookup loading s' = int (length loading)"
  using lru.store_then_complete [OF assms(1-3)] lru.busy_survives [OF assms] by blast

theorem lru_store_protocol_witness:
  "\<exists>s' s'' out. lru_prepare_store [[1], [2]] (lru_init (cpu_backend_init 16 2) True) = Inr (s', Some out)
     \<and> lru_complete_store (block_hashes_to_store out) True s' = Inr s''
     \<and> lru_lookup (block_hashes_to_store out) s'' = int (length (block_hashes_to_store out))"
proof -
  let ?s = "lru_init (cpu_backend_init 16 2) True"
  have d: "distinct [[1 :: 8 word], [2]]" by simp
  have ok: "lru_ok ?s" by (rule lru_init_ok) simp
  have free: "backend_num_free (lru_backend ?s) = 2" "lru_blocks ?s = []"
    by (simp_all add: lru_init_def cpu_backend_init_def backend_num_free_def)
  from lru_prepare_store_ok(2) [OF ok d] free obtain s' out where
    s': "lru_prepare_store [[1], [2]] ?s = Inr (s', Some out)" by auto
  have "\<forall>h \<in> set []. lru_ready ?s h \<and> lru_busy ?s h" by simp
  from lru_store_protocol [OF ok d s' this] s' show ?thesis by blast
qed

end
