(* ===== verification/Offload_Arc.thy ===== *)
theory Offload_Arc
  imports Offload_Lru Complex_Main
begin

section \<open>Offloading: the ARC manager\<close>

text \<open>
  \<^verbatim>\<open>vllm/v1/kv_offload/arc_manager.py\<close>, on the same CPU backend. The ghost lists \<^verbatim>\<open>b1\<close> and \<^verbatim>\<open>b2\<close> map
  hashes to \<open>None\<close>, so only their ordered keys are kept. The adaptive target is a Python float;
  here it is a rational number, so rounding of the quotient is not modelled.
\<close>

record ARCOffloadingManager =
  arc_backend :: CPUBackend
  target_t1_size :: rat
  t1 :: status_dict
  t2 :: status_dict
  b1 :: "block_hash list"
  b2 :: "block_hash list"
  arc_events :: "OffloadingEvent list option"
  cache_capacity :: int

definition arc_init :: "CPUBackend \<Rightarrow> bool \<Rightarrow> ARCOffloadingManager" where
  "arc_init be evs = \<lparr>arc_backend = be, target_t1_size = 0, t1 = [], t2 = [], b1 = [], b2 = [],
     arc_events = (if evs then Some [] else None), cache_capacity = backend_num_free be\<rparr>"

text \<open>\<open>self.t1.get(h) or self.t2.get(h)\<close>: a status object is always true.\<close>

definition arc_get :: "ARCOffloadingManager \<Rightarrow> block_hash \<Rightarrow> BlockStatus option" where
  "arc_get s h = (case map_of (t1 s) h of Some b \<Rightarrow> Some b | None \<Rightarrow> map_of (t2 s) h)"

text \<open>Assigning to the reference count of the object found by \<open>arc_get\<close>.\<close>

definition arc_set :: "block_hash \<Rightarrow> BlockStatus \<Rightarrow> ARCOffloadingManager \<Rightarrow> ARCOffloadingManager" where
  "arc_set h b s = (if map_of (t1 s) h \<noteq> None then s\<lparr>t1 := AList.update h b (t1 s)\<rparr>
     else s\<lparr>t2 := AList.update h b (t2 s)\<rparr>)"

definition arc_lookup :: "block_hash list \<Rightarrow> ARCOffloadingManager \<Rightarrow> int" where
  "arc_lookup hs s = lookup_count (arc_get s) hs"

definition arc_load_step :: "block_hash \<Rightarrow> ARCOffloadingManager \<times> BlockStatus list
    \<Rightarrow> (ARCOffloadingManager \<times> BlockStatus list) result" where
  "arc_load_step h st = (case st of (s, bls) \<Rightarrow> case arc_get s h of
      None \<Rightarrow> Inl AssertionError
    | Some b \<Rightarrow> assertE (is_ready b) (Inr (arc_set h (incr_status b) s, bls @ [b])))"

definition arc_prepare_load :: "block_hash list \<Rightarrow> ARCOffloadingManager \<Rightarrow> (ARCOffloadingManager \<times> int list) result" where
  "arc_prepare_load hs s = bindE (foldE arc_load_step hs (s, [])) (\<lambda>(s, bls). Inr (s, get_load_store_spec bls))"

definition ghost_to_end :: "block_hash \<Rightarrow> block_hash list \<Rightarrow> block_hash list" where
  "ghost_to_end h b = removeAll h b @ [h]"

definition arc_touch_step :: "block_hash \<Rightarrow> ARCOffloadingManager \<Rightarrow> ARCOffloadingManager result" where
  "arc_touch_step h s = (case map_of (t1 s) h of
      Some b \<Rightarrow>
        (let s = s\<lparr>t1 := AList.delete h (t1 s)\<rparr> in
         if \<not> is_ready b then bindE (move_to_end h (t1 s)) (\<lambda>d. Inr (s\<lparr>t1 := d\<rparr>))
         else Inr (s\<lparr>t2 := AList.update h b (t2 s)\<rparr>))
    | None \<Rightarrow>
        if map_of (t2 s) h \<noteq> None then bindE (move_to_end h (t2 s)) (\<lambda>d. Inr (s\<lparr>t2 := d\<rparr>))
        else if h \<in> set (b1 s) then
          (let delta = max 1 (of_nat (length (b2 s)) / of_nat (length (b1 s)))
           in Inr (s\<lparr>target_t1_size := min (target_t1_size s + delta) (of_int (cache_capacity s)),
                     b1 := ghost_to_end h (b1 s)\<rparr>))
        else if h \<in> set (b2 s) then
          (let delta = max 1 (of_nat (length (b1 s)) / of_nat (length (b2 s)))
           in Inr (s\<lparr>target_t1_size := max (target_t1_size s - delta) 0,
                     b2 := ghost_to_end h (b2 s)\<rparr>))
        else Inr s)"

definition arc_touch :: "block_hash list \<Rightarrow> ARCOffloadingManager \<Rightarrow> ARCOffloadingManager result" where
  "arc_touch hs = foldE arc_touch_step (rev hs)"

definition arc_complete_load :: "block_hash list \<Rightarrow> ARCOffloadingManager \<Rightarrow> ARCOffloadingManager result" where
  "arc_complete_load = foldE (\<lambda>h s. case arc_get s h of
      None \<Rightarrow> Inl AssertionError
    | Some b \<Rightarrow> assertE (st_ref_cnt b > 0) (Inr (arc_set h (decr_status b) s)))"

definition find_idle :: "status_dict \<Rightarrow> (block_hash \<times> BlockStatus) option" where
  "find_idle d = List.find (\<lambda>p. st_ref_cnt (snd p) = 0) d"

definition add_ghost :: "block_hash \<Rightarrow> block_hash list \<Rightarrow> block_hash list" where
  "add_ghost h b = (if h \<in> set b then b else b @ [h])"

text \<open>\<open>int\<close> of a float truncates towards zero.\<close>

definition int_of_float :: "rat \<Rightarrow> int" where
  "int_of_float x = (if 0 \<le> x then \<lfloor>x\<rfloor> else \<lceil>x\<rceil>)"

definition evict_t1 :: "block_hash \<Rightarrow> BlockStatus \<Rightarrow> ARCOffloadingManager \<Rightarrow> ARCOffloadingManager" where
  "evict_t1 h b s = s\<lparr>t1 := AList.delete h (t1 s), b1 := add_ghost h (b1 s), arc_backend := backend_free b (arc_backend s)\<rparr>"

definition evict_t2 :: "block_hash \<Rightarrow> BlockStatus \<Rightarrow> ARCOffloadingManager \<Rightarrow> ARCOffloadingManager" where
  "evict_t2 h b s = s\<lparr>t2 := AList.delete h (t2 s), b2 := add_ghost h (b2 s), arc_backend := backend_free b (arc_backend s)\<rparr>"

text \<open>The eviction loop, with the state and \<open>None\<close> when it gives up half way.\<close>

fun arc_evict_loop :: "nat \<Rightarrow> block_hash list \<Rightarrow> ARCOffloadingManager \<Rightarrow> ARCOffloadingManager \<times> block_hash list option" where
  "arc_evict_loop 0 to_evict s = (s, Some to_evict)"
| "arc_evict_loop (Suc n) to_evict s =
     (case (if int (length (t1 s)) \<ge> int_of_float (target_t1_size s) then find_idle (t1 s) else None) of
        Some (h, b) \<Rightarrow> arc_evict_loop n (to_evict @ [h]) (evict_t1 h b s)
      | None \<Rightarrow> (case find_idle (t2 s) of
          Some (h, b) \<Rightarrow> arc_evict_loop n (to_evict @ [h]) (evict_t2 h b s)
        | None \<Rightarrow> (s, None)))"

definition trim_ghosts :: "ARCOffloadingManager \<Rightarrow> ARCOffloadingManager" where
  "trim_ghosts s = s\<lparr>b1 := drop (nat (int (length (b1 s)) - cache_capacity s)) (b1 s),
                     b2 := drop (nat (int (length (b2 s)) - cache_capacity s)) (b2 s)\<rparr>"

definition arc_insert :: "block_hash \<times> BlockStatus \<Rightarrow> ARCOffloadingManager \<Rightarrow> ARCOffloadingManager" where
  "arc_insert hb s = s\<lparr>t1 := AList.update (fst hb) (snd hb) (t1 s), b1 := removeAll (fst hb) (b1 s),
     b2 := removeAll (fst hb) (b2 s)\<rparr>"

definition arc_prepare_store :: "block_hash list \<Rightarrow> ARCOffloadingManager
    \<Rightarrow> (ARCOffloadingManager \<times> PrepareStoreOutput option) result" where
  "arc_prepare_store hs s =
     (let to_store = filter (\<lambda>h. map_of (t1 s) h = None \<and> map_of (t2 s) h = None) hs in
      if to_store = [] then Inr (s, Some \<lparr>block_hashes_to_store = [], store_spec = [], block_hashes_evicted = []\<rparr>)
      else case arc_evict_loop (nat (int (length to_store) - backend_num_free (arc_backend s))) [] s of
        (s, None) \<Rightarrow> Inr (s, None)
      | (s, Some to_evict) \<Rightarrow>
          (let s = trim_ghosts s;
               s = s\<lparr>arc_events := push_event True to_evict (arc_backend s) (arc_events s)\<rparr> in
           bindE (allocate_blocks to_store (arc_backend s)) (\<lambda>(be, bls).
             assertE (length bls = length to_store)
               (Inr (fold arc_insert (zip to_store bls) (s\<lparr>arc_backend := be\<rparr>),
                     Some \<lparr>block_hashes_to_store = to_store, store_spec = get_load_store_spec bls,
                           block_hashes_evicted = to_evict\<rparr>)))))"

definition arc_store_ok :: "block_hash \<Rightarrow> ARCOffloadingManager \<times> block_hash list \<Rightarrow> ARCOffloadingManager \<times> block_hash list" where
  "arc_store_ok h st = (case st of (s, stored) \<Rightarrow> case arc_get s h of
      None \<Rightarrow> (s, stored)
    | Some b \<Rightarrow> if is_ready b then (s, stored) else (arc_set h (b\<lparr>st_ref_cnt := 0\<rparr>) s, stored @ [h]))"

definition arc_store_failed :: "block_hash \<Rightarrow> ARCOffloadingManager \<Rightarrow> ARCOffloadingManager" where
  "arc_store_failed h s =
     (let (block, s) = (case map_of (t1 s) h of
            Some b \<Rightarrow> (Some b, s\<lparr>t1 := AList.delete h (t1 s)\<rparr>)
          | None \<Rightarrow> (map_of (t2 s) h, s\<lparr>t2 := AList.delete h (t2 s)\<rparr>))
      in case block of
           None \<Rightarrow> s
         | Some b \<Rightarrow> if is_ready b then s else s\<lparr>arc_backend := backend_free b (arc_backend s)\<rparr>)"

definition arc_complete_store :: "block_hash list \<Rightarrow> bool \<Rightarrow> ARCOffloadingManager \<Rightarrow> ARCOffloadingManager" where
  "arc_complete_store hs success s =
     (let (s, stored) = (if success then fold arc_store_ok hs (s, []) else (fold arc_store_failed hs s, []))
      in s\<lparr>arc_events := push_event False stored (arc_backend s) (arc_events s)\<rparr>)"

definition arc_take_events :: "ARCOffloadingManager \<Rightarrow> ARCOffloadingManager \<times> OffloadingEvent list" where
  "arc_take_events s = (case arc_events s of None \<Rightarrow> (s, []) | Some l \<Rightarrow> (s\<lparr>arc_events := Some []\<rparr>, l))"

subsection \<open>The invariant\<close>

text \<open>
  No hash is in two of the four lists, the blocks of \<^verbatim>\<open>t1\<close> and \<^verbatim>\<open>t2\<close> are the blocks the backend has
  handed out, and the target lies between 0 and the capacity.
\<close>

definition arc_ok :: "ARCOffloadingManager \<Rightarrow> bool" where
  "arc_ok s \<longleftrightarrow> distinct (map fst (t1 s) @ map fst (t2 s) @ b1 s @ b2 s)
     \<and> backend_ok (arc_backend s) (used_ids (t1 s) @ used_ids (t2 s))
     \<and> 0 \<le> target_t1_size s \<and> target_t1_size s \<le> of_int (cache_capacity s)
     \<and> num_blocks (arc_backend s) = cache_capacity s"

lemma arc_ok_events: "arc_ok (s\<lparr>arc_events := e\<rparr>) = arc_ok s"
  by (simp add: arc_ok_def)

lemma arc_init_ok: "0 \<le> n \<Longrightarrow> arc_ok (arc_init (cpu_backend_init bs n) evs)"
  by (simp add: arc_ok_def arc_init_def cpu_backend_init_def backend_ok_def backend_num_free_def)

lemma arc_okD:
  assumes "arc_ok s"
  shows "distinct_keys (t1 s)" "distinct_keys (t2 s)" "distinct (b1 s)" "distinct (b2 s)"
    "fst ` set (t1 s) \<inter> fst ` set (t2 s) = {}" "(set (b1 s) \<union> set (b2 s)) \<inter> (fst ` set (t1 s) \<union> fst ` set (t2 s)) = {}"
    "set (b1 s) \<inter> set (b2 s) = {}" "backend_ok (arc_backend s) (used_ids (t1 s) @ used_ids (t2 s))"
    "0 \<le> target_t1_size s" "target_t1_size s \<le> of_int (cache_capacity s)" "num_blocks (arc_backend s) = cache_capacity s"
  using assms unfolding arc_ok_def by (auto simp del: used_ids_simps)

lemma arc_okI:
  assumes "distinct_keys (t1 s)" "distinct_keys (t2 s)" "distinct (b1 s)" "distinct (b2 s)"
    "fst ` set (t1 s) \<inter> fst ` set (t2 s) = {}" "(set (b1 s) \<union> set (b2 s)) \<inter> (fst ` set (t1 s) \<union> fst ` set (t2 s)) = {}"
    "set (b1 s) \<inter> set (b2 s) = {}" "backend_ok (arc_backend s) (used_ids (t1 s) @ used_ids (t2 s))"
    "0 \<le> target_t1_size s" "target_t1_size s \<le> of_int (cache_capacity s)" "num_blocks (arc_backend s) = cache_capacity s"
  shows "arc_ok s"
  unfolding arc_ok_def using assms by auto

lemma map_of_in_keys: "map_of d h = Some b \<Longrightarrow> h \<in> fst ` set d"
  by (metis map_of_eq_None_iff option.distinct(1))

lemma keys_delete: "fst ` set (AList.delete h d) = fst ` set d - {h}"
  by (auto simp: delete_filter image_iff)

lemma arc_get_eq: "arc_get s = map_of (t2 s) ++ map_of (t1 s)"
  by (simp add: fun_eq_iff arc_get_def map_add_def)

lemma arc_get_cong: "t1 s' = t1 s \<Longrightarrow> t2 s' = t2 s \<Longrightarrow> arc_get s' = arc_get s"
  by (simp add: arc_get_eq)

lemma arc_get_None: "arc_get s h = None \<longleftrightarrow> h \<notin> fst ` set (t1 s) \<and> h \<notin> fst ` set (t2 s)"
proof (cases "map_of (t1 s) h")
  case None
  then show ?thesis by (simp add: arc_get_def map_of_eq_None_iff [symmetric])
next
  case (Some b)
  then show ?thesis using map_of_in_keys [OF Some] by (simp add: arc_get_def)
qed

lemma arc_set_ok:
  assumes ok: "arc_ok s" and get: "arc_get s h = Some b" and id: "st_block_id b' = st_block_id b"
  shows "arc_ok (arc_set h b' s)" and "arc_get (arc_set h b' s) = (arc_get s)(h \<mapsto> b')"
proof -
  consider (one) "map_of (t1 s) h = Some b" | (two) "map_of (t1 s) h = None" "map_of (t2 s) h = Some b"
    using get by (auto simp: arc_get_def split: option.splits)
  then have "arc_ok (arc_set h b' s) \<and> arc_get (arc_set h b' s) = (arc_get s)(h \<mapsto> b')"
  proof cases
    case one
    have "arc_ok (arc_set h b' s)"
      using used_ids_update [OF one id] ok one by (simp add: arc_set_def arc_ok_def del: map_of_eq_Some_iff)
    moreover have "arc_get (arc_set h b' s) x = ((arc_get s)(h \<mapsto> b')) x" for x
      using one by (cases "map_of (t1 s) x") (auto simp: arc_set_def arc_get_def update_conv')
    ultimately show ?thesis by blast
  next
    case two
    have "arc_ok (arc_set h b' s)"
      using used_ids_update [OF two(2) id] ok two by (simp add: arc_set_def arc_ok_def del: map_of_eq_Some_iff)
    moreover have "arc_get (arc_set h b' s) x = ((arc_get s)(h \<mapsto> b')) x" for x
      using two by (cases "map_of (t1 s) x") (auto simp: arc_set_def arc_get_def update_conv')
    ultimately show ?thesis by blast
  qed
  then show "arc_ok (arc_set h b' s)" and "arc_get (arc_set h b' s) = (arc_get s)(h \<mapsto> b')" by simp_all
qed


subsection \<open>Touching\<close>

lemma move_key_ok:
  assumes "distinct_keys d" "map_of d h = Some b" "move_to_end h d = Inr d'"
  shows "distinct_keys d'" "mset (used_ids d') = mset (used_ids d)" "map_of d' = map_of d" "fst ` set d' = fst ` set d"
proof -
  from move_to_end_ok [OF assms(1,2)] assms(3)
  show a: "distinct_keys d'" "mset (used_ids d') = mset (used_ids d)" "map_of d' = map_of d" by auto
  show "fst ` set d' = fst ` set d" using a(3) by (metis dom_map_of_conv_image_fst)
qed

lemma backend_ok_mset: "backend_ok be xs \<Longrightarrow> mset xs = mset ys \<Longrightarrow> backend_ok be ys"
  by (simp add: backend_ok_def)

lemma ghost_to_end_props: "distinct b \<Longrightarrow> h \<in> set b \<Longrightarrow> distinct (ghost_to_end h b) \<and> set (ghost_to_end h b) = set b"
  by (auto simp: ghost_to_end_def distinct_removeAll)

lemma arc_touch_t1_ok:
  assumes ok: "arc_ok s" and h: "map_of (t1 s) h = Some b" and r: "is_ready b"
  defines "s' \<equiv> s\<lparr>t1 := AList.delete h (t1 s), t2 := AList.update h b (t2 s)\<rparr>"
  shows "arc_ok s'" and "arc_get s' = arc_get s"
proof -
  note d = arc_okD [OF ok]
  have h2: "map_of (t2 s) h = None" using d(5) map_of_in_keys [OF h] by (auto simp: map_of_eq_None_iff)
  have upd: "AList.update h b (t2 s) = t2 s @ [(h, b)]" using h2 by (rule update_fresh)
  have keys: "h \<in> fst ` set (t1 s)" using h by (rule map_of_in_keys)
  have m: "mset (used_ids (t1 s) @ used_ids (t2 s)) = mset (used_ids (AList.delete h (t1 s)) @ used_ids (t2 s @ [(h, b)]))"
    using used_ids_delete [OF d(1) h] by simp
  show "arc_ok s'"
  proof (rule arc_okI)
    show "distinct_keys (t1 s')" using d(1) by (simp add: s'_def distinct_delete)
    show "distinct_keys (t2 s')" using d(2) h2 by (simp add: s'_def upd map_of_eq_None_iff)
    show "fst ` set (t1 s') \<inter> fst ` set (t2 s') = {}" using d(5) by (auto simp: s'_def upd keys_delete)
    show "(set (b1 s') \<union> set (b2 s')) \<inter> (fst ` set (t1 s') \<union> fst ` set (t2 s')) = {}"
      using d(6) keys by (auto simp: s'_def upd keys_delete)
    show "backend_ok (arc_backend s') (used_ids (t1 s') @ used_ids (t2 s'))"
      using backend_ok_mset [OF d(8) m] by (simp add: s'_def upd)
  qed (use d in \<open>simp_all add: s'_def\<close>)
  show "arc_get s' = arc_get s"
  proof
    fix x show "arc_get s' x = arc_get s x"
      using h h2 by (cases "map_of (t1 s) x") (auto simp: s'_def arc_get_def delete_conv' update_conv')
  qed
qed

text \<open>Touching a block of \<^verbatim>\<open>t1\<close> that is not ready looks it up after popping it.\<close>

lemma arc_touch_unready:
  assumes "map_of (t1 s) h = Some b" and "\<not> is_ready b"
  shows "arc_touch_step h s = Inl KeyError"
  using assms by (simp add: arc_touch_step_def move_to_end_def delete_conv' Let_def)

lemma arc_touch_step_ok:
  assumes ok: "arc_ok s" and run: "arc_touch_step h s = Inr s'"
  shows "arc_ok s' \<and> arc_get s' = arc_get s"
proof -
  note d = arc_okD [OF ok]
  consider (one) b where "map_of (t1 s) h = Some b" "is_ready b"
    | (two) b where "map_of (t1 s) h = None" "map_of (t2 s) h = Some b"
    | (b1) "map_of (t1 s) h = None" "map_of (t2 s) h = None" "h \<in> set (b1 s)"
    | (b2) "map_of (t1 s) h = None" "map_of (t2 s) h = None" "h \<notin> set (b1 s)" "h \<in> set (b2 s)"
    | (none) "map_of (t1 s) h = None" "map_of (t2 s) h = None" "h \<notin> set (b1 s)" "h \<notin> set (b2 s)"
    using run arc_touch_unready [of s h] by (cases "map_of (t1 s) h"; cases "map_of (t2 s) h") auto
  then show ?thesis
  proof cases
    case (one b)
    then have "s' = s\<lparr>t1 := AList.delete h (t1 s), t2 := AList.update h b (t2 s)\<rparr>"
      using run by (simp add: arc_touch_step_def Let_def)
    then show ?thesis using arc_touch_t1_ok [OF ok one] by simp
  next
    case (two b)
    then obtain e where e: "move_to_end h (t2 s) = Inr e" "s' = s\<lparr>t2 := e\<rparr>"
      using run by (auto simp: arc_touch_step_def simp del: map_of_eq_Some_iff elim!: bindE_InrE)
    note k = move_key_ok [OF d(2) two(2) e(1)]
    have "arc_ok s'"
      by (rule arc_okI)
        (use d k backend_ok_mset [OF d(8), of "used_ids (t1 s) @ used_ids e"] in \<open>simp_all add: e(2)\<close>)
    moreover have "arc_get s' = arc_get s" using k(3) by (simp add: fun_eq_iff e(2) arc_get_def split: option.splits)
    ultimately show ?thesis ..
  next
    case b1
    note g = ghost_to_end_props [OF d(3) b1(3)]
    have s': "s' = s\<lparr>target_t1_size := min (target_t1_size s + max 1 (of_nat (length (b2 s)) / of_nat (length (b1 s)))) (of_int (cache_capacity s)),
        b1 := ghost_to_end h (b1 s)\<rparr>" using run b1 by (simp add: arc_touch_step_def Let_def)
    have "0 \<le> (of_nat (length (b2 s)) :: rat) / of_nat (length (b1 s))" by simp
    then have "arc_ok s'"
      by (intro arc_okI) (use d g in \<open>simp_all add: s' min_def max_def\<close>)
    then show ?thesis using arc_get_cong [of s' s] by (simp add: s')
  next
    case b2
    note g = ghost_to_end_props [OF d(4) b2(4)]
    have s': "s' = s\<lparr>target_t1_size := max (target_t1_size s - max 1 (of_nat (length (b1 s)) / of_nat (length (b2 s)))) 0,
        b2 := ghost_to_end h (b2 s)\<rparr>" using run b2 by (simp add: arc_touch_step_def Let_def)
    have pos: "0 \<le> max 1 ((of_nat (length (b1 s)) :: rat) / of_nat (length (b2 s)))" by simp
    have "arc_ok s'"
    proof (rule arc_okI)
      show "target_t1_size s' \<le> of_int (cache_capacity s')"
        using d(9,10) pos by (simp add: s' max_def)
    qed (use d g in \<open>simp_all add: s'\<close>)
    then show ?thesis using arc_get_cong [of s' s] by (simp add: s')
  next
    case none
    then show ?thesis using run ok by (simp add: arc_touch_step_def)
  qed
qed

lemma arc_touch_ok: "arc_touch hs s = Inr s' \<Longrightarrow> arc_ok s \<Longrightarrow> arc_ok s' \<and> arc_get s' = arc_get s"
  unfolding arc_touch_def
  by (rule foldE_invariant [where P = "\<lambda>t. arc_ok t \<and> arc_get t = arc_get s"]) (auto dest: arc_touch_step_ok)


subsection \<open>Evicting and storing\<close>

lemma find_idle_Some:
  assumes "find_idle d = Some (h, b)" and "distinct_keys d"
  shows "map_of d h = Some b" "st_ref_cnt b = 0"
proof -
  from assms(1) obtain i where i: "i < length d" "st_ref_cnt (snd (d ! i)) = 0" "d ! i = (h, b)"
    unfolding find_idle_def find_Some_iff by metis
  then have "(h, b) \<in> set d \<and> st_ref_cnt (snd (h, b)) = 0" using nth_mem [OF i(1)] by simp
  then show "map_of d h = Some b" "st_ref_cnt b = 0" using assms(2) by simp_all
qed

lemma evict_t1_ok:
  assumes ok: "arc_ok s" and h: "map_of (t1 s) h = Some b"
  shows "arc_ok (evict_t1 h b s)" and "arc_get (evict_t1 h b s) = (arc_get s)(h := None)"
proof -
  note d = arc_okD [OF ok]
  have key: "h \<in> fst ` set (t1 s)" using h by (rule map_of_in_keys)
  then have not: "h \<notin> fst ` set (t2 s)" "h \<notin> set (b1 s)" "h \<notin> set (b2 s)" using d(5,6) by auto
  have "backend_ok (arc_backend s) (st_block_id b # used_ids (AList.delete h (t1 s)) @ used_ids (t2 s))"
    by (rule backend_ok_perm [OF d(8)]) (use used_ids_delete [OF d(1) h] in simp)
  then have "backend_ok (backend_free b (arc_backend s)) (used_ids (AList.delete h (t1 s)) @ used_ids (t2 s))"
    by (rule backend_free_ok)
  then show "arc_ok (evict_t1 h b s)"
    using d not by (intro arc_okI)
      (auto simp: evict_t1_def add_ghost_def keys_delete distinct_delete backend_free_def)
  show "arc_get (evict_t1 h b s) = (arc_get s)(h := None)"
  proof
    have "map_of (t2 s) h = None" using not(1) by (simp add: map_of_eq_None_iff)
    then show "arc_get (evict_t1 h b s) x = ((arc_get s)(h := None)) x" for x
      by (simp add: arc_get_eq evict_t1_def delete_conv' map_add_def split: option.splits)
  qed
qed

lemma evict_t2_ok:
  assumes ok: "arc_ok s" and h: "map_of (t2 s) h = Some b"
  shows "arc_ok (evict_t2 h b s)" and "arc_get (evict_t2 h b s) = (arc_get s)(h := None)"
proof -
  note d = arc_okD [OF ok]
  have key: "h \<in> fst ` set (t2 s)" using h by (rule map_of_in_keys)
  then have not: "h \<notin> fst ` set (t1 s)" "h \<notin> set (b1 s)" "h \<notin> set (b2 s)" using d(5,6) by auto
  have "backend_ok (arc_backend s) (st_block_id b # used_ids (t1 s) @ used_ids (AList.delete h (t2 s)))"
    by (rule backend_ok_perm [OF d(8)]) (use used_ids_delete [OF d(2) h] in simp)
  then have "backend_ok (backend_free b (arc_backend s)) (used_ids (t1 s) @ used_ids (AList.delete h (t2 s)))"
    by (rule backend_free_ok)
  then show "arc_ok (evict_t2 h b s)"
    using d not by (intro arc_okI)
      (auto simp: evict_t2_def add_ghost_def keys_delete distinct_delete backend_free_def)
  show "arc_get (evict_t2 h b s) = (arc_get s)(h := None)"
  proof
    have "map_of (t1 s) h = None" using not(1) by (simp add: map_of_eq_None_iff)
    then show "arc_get (evict_t2 h b s) x = ((arc_get s)(h := None)) x" for x
      by (simp add: arc_get_eq evict_t2_def delete_conv' map_add_def split: option.splits)
  qed
qed

text \<open>Whatever the loop does, it only takes idle blocks.\<close>

lemma arc_evict_loop_ok:
  "arc_ok s \<Longrightarrow> arc_evict_loop n ev s = (s', res) \<Longrightarrow>
   arc_ok s' \<and> (\<exists>new. (\<forall>e. res = Some e \<longrightarrow> e = ev @ new \<and> length new = n)
     \<and> distinct new \<and> (\<forall>h \<in> set new. \<exists>b. arc_get s h = Some b \<and> st_ref_cnt b = 0)
     \<and> (\<forall>h. arc_get s' h = (if h \<in> set new then None else arc_get s h)))
     \<and> arc_events s' = arc_events s \<and> cache_capacity s' = cache_capacity s"
proof (induction n ev s rule: arc_evict_loop.induct)
  case (1 ev s)
  then show ?case by (auto intro: exI [of _ "[]"])
next
  case (2 n ev s)
  note d = arc_okD [OF "2.prems"(1)]
  let ?pick = "if int (length (t1 s)) \<ge> int_of_float (target_t1_size s) then find_idle (t1 s) else None"
  have step: ?case
    if h: "arc_get s h = Some b" "st_ref_cnt b = 0" and t: "arc_ok t" "arc_get t = (arc_get s)(h := None)"
      "arc_events t = arc_events s" "cache_capacity t = cache_capacity s"
      and run: "arc_evict_loop n (ev @ [h]) t = (s', res)"
      and IH: "arc_ok s' \<and> (\<exists>new. (\<forall>e. res = Some e \<longrightarrow> e = (ev @ [h]) @ new \<and> length new = n)
         \<and> distinct new \<and> (\<forall>h \<in> set new. \<exists>b. arc_get t h = Some b \<and> st_ref_cnt b = 0)
         \<and> (\<forall>h. arc_get s' h = (if h \<in> set new then None else arc_get t h)))
         \<and> arc_events s' = arc_events t \<and> cache_capacity s' = cache_capacity t" for h b t
  proof -
    from IH obtain new where new: "\<forall>e. res = Some e \<longrightarrow> e = (ev @ [h]) @ new \<and> length new = n"
      "distinct new" "\<forall>h \<in> set new. \<exists>b. arc_get t h = Some b \<and> st_ref_cnt b = 0"
      "\<forall>h. arc_get s' h = (if h \<in> set new then None else arc_get t h)" by blast
    have "h \<notin> set new" using new(3) t(2) by auto
    then have "(\<forall>e. res = Some e \<longrightarrow> e = ev @ (h # new) \<and> length (h # new) = Suc n)
     \<and> distinct (h # new) \<and> (\<forall>q \<in> set (h # new). \<exists>b. arc_get s q = Some b \<and> st_ref_cnt b = 0)
     \<and> (\<forall>q. arc_get s' q = (if q \<in> set (h # new) then None else arc_get s q))"
      using new h t(2) by (auto split: if_splits)
    moreover have "arc_ok s'" "arc_events s' = arc_events s" "cache_capacity s' = cache_capacity s"
      using IH t(3,4) by simp_all
    ultimately show ?thesis by blast
  qed
  show ?case
  proof (cases ?pick)
    case (Some p)
    obtain h b where p: "p = (h, b)" by force
    have f: "map_of (t1 s) h = Some b" "st_ref_cnt b = 0"
      using find_idle_Some [OF _ d(1)] Some p by (auto split: if_splits)
    have run: "arc_evict_loop n (ev @ [h]) (evict_t1 h b s) = (s', res)" using "2.prems"(2) Some p by simp
    note e = evict_t1_ok [OF "2.prems"(1) f(1)]
    show ?thesis
      by (rule step [OF _ f(2) e _ _ run "2.IH"(2) [OF Some p [symmetric] e(1) run]])
        (use f(1) in \<open>simp_all add: arc_get_def evict_t1_def\<close>)
  next
    case None
    show ?thesis
    proof (cases "find_idle (t2 s)")
      case (Some p)
      obtain h b where p: "p = (h, b)" by force
      have f: "map_of (t2 s) h = Some b" "st_ref_cnt b = 0"
        using find_idle_Some [OF _ d(2)] Some p by auto
      have "map_of (t1 s) h = None" using d(5) map_of_in_keys [OF f(1)] by (auto simp: map_of_eq_None_iff)
      then have g: "arc_get s h = Some b" using f(1) by (simp add: arc_get_def)
      have run: "arc_evict_loop n (ev @ [h]) (evict_t2 h b s) = (s', res)" using "2.prems"(2) None Some p by simp
      note e = evict_t2_ok [OF "2.prems"(1) f(1)]
      show ?thesis
        by (rule step [OF g f(2) e _ _ run "2.IH"(1) [OF None Some p [symmetric] e(1) run]]) (simp_all add: evict_t2_def)
    next
      case none: None
      with None "2.prems" show ?thesis by (auto intro!: exI [of _ "[]"])
    qed
  qed
qed


lemma trim_ghosts_ok:
  assumes "arc_ok s"
  shows "arc_ok (trim_ghosts s)" and "arc_get (trim_ghosts s) = arc_get s"
    and "int (length (b1 (trim_ghosts s))) \<le> cache_capacity s" "int (length (b2 (trim_ghosts s))) \<le> cache_capacity s"
proof -
  note d = arc_okD [OF assms]
  have cap: "0 \<le> cache_capacity s" using d(9,10) by (metis of_int_0_le_iff order_trans)
  have "set (drop i (b1 s)) \<subseteq> set (b1 s)" "set (drop i (b2 s)) \<subseteq> set (b2 s)" for i by (rule set_drop_subset)+
  note sub = this
  show "arc_ok (trim_ghosts s)"
  proof (rule arc_okI)
    show "(set (b1 (trim_ghosts s)) \<union> set (b2 (trim_ghosts s)))
        \<inter> (fst ` set (t1 (trim_ghosts s)) \<union> fst ` set (t2 (trim_ghosts s))) = {}"
      using d(6) sub unfolding trim_ghosts_def by simp blast
    show "set (b1 (trim_ghosts s)) \<inter> set (b2 (trim_ghosts s)) = {}"
      using d(7) sub unfolding trim_ghosts_def by simp blast
  qed (use d in \<open>simp_all add: trim_ghosts_def\<close>)
  show "arc_get (trim_ghosts s) = arc_get s" by (rule arc_get_cong) (simp_all add: trim_ghosts_def)
  show "int (length (b1 (trim_ghosts s))) \<le> cache_capacity s" "int (length (b2 (trim_ghosts s))) \<le> cache_capacity s"
    using cap by (simp_all add: trim_ghosts_def)
qed

lemma arc_insert_fold:
  "\<lbrakk>distinct hs; length bls = length hs; \<forall>h \<in> set hs. map_of (t1 s) h = None\<rbrakk> \<Longrightarrow>
   fold arc_insert (zip hs bls) s = s\<lparr>t1 := t1 s @ zip hs bls,
     b1 := filter (\<lambda>h. h \<notin> set hs) (b1 s), b2 := filter (\<lambda>h. h \<notin> set hs) (b2 s)\<rparr>"
proof (induction hs arbitrary: bls s)
  case (Cons h hs)
  then obtain b bs where bls: "bls = b # bs" by (cases bls) auto
  let ?s = "arc_insert (h, b) s"
  have t: "t1 ?s = t1 s @ [(h, b)]" "b1 ?s = removeAll h (b1 s)" "b2 ?s = removeAll h (b2 s)"
    using Cons.prems(3) by (simp_all add: arc_insert_def update_fresh)
  have "fold arc_insert (zip hs bs) ?s = ?s\<lparr>t1 := t1 ?s @ zip hs bs,
     b1 := filter (\<lambda>h. h \<notin> set hs) (b1 ?s), b2 := filter (\<lambda>h. h \<notin> set hs) (b2 ?s)\<rparr>"
    by (rule Cons.IH) (use Cons.prems bls t in \<open>auto simp: map_add_def\<close>)
  moreover have "filter (\<lambda>h. h \<notin> set hs) (removeAll h b) = filter (\<lambda>x. x \<notin> set (h # hs)) b" for b
    by (simp add: removeAll_filter_not_eq) (rule filter_cong, auto)
  moreover have "?s = s\<lparr>t1 := t1 s @ [(h, b)], b1 := removeAll h (b1 s), b2 := removeAll h (b2 s)\<rparr>"
    using Cons.prems(3) by (simp add: arc_insert_def update_fresh)
  ultimately show ?case unfolding bls by simp
qed simp


text \<open>The effect of a \<^verbatim>\<open>prepare_store\<close> that succeeds, and what is left behind by one that gives up.\<close>

definition arc_stored :: "ARCOffloadingManager \<Rightarrow> block_hash list \<Rightarrow> ARCOffloadingManager \<Rightarrow> PrepareStoreOutput \<Rightarrow> bool" where
  "arc_stored s hs s' out \<longleftrightarrow> block_hashes_to_store out = filter (\<lambda>h. arc_get s h = None) hs
     \<and> length (store_spec out) = length (block_hashes_to_store out)
     \<and> length (block_hashes_evicted out) = nat (int (length (block_hashes_to_store out)) - backend_num_free (arc_backend s))
     \<and> (\<forall>h \<in> set (block_hashes_evicted out). \<exists>b. arc_get s h = Some b \<and> st_ref_cnt b = 0)
     \<and> (\<forall>h \<in> set (block_hashes_to_store out). \<exists>b. map_of (t1 s') h = Some b \<and> st_ref_cnt b = -1)
     \<and> (\<forall>h. h \<notin> set (block_hashes_to_store out) \<longrightarrow>
          arc_get s' h = (if h \<in> set (block_hashes_evicted out) then None else arc_get s h))
     \<and> (block_hashes_to_store out \<noteq> [] \<longrightarrow>
          int (length (b1 s')) \<le> cache_capacity s' \<and> int (length (b2 s')) \<le> cache_capacity s')"

definition arc_gave_up :: "ARCOffloadingManager \<Rightarrow> ARCOffloadingManager \<Rightarrow> bool" where
  "arc_gave_up s s' \<longleftrightarrow> arc_events s' = arc_events s
     \<and> (\<exists>new. (\<forall>h \<in> set new. \<exists>b. arc_get s h = Some b \<and> st_ref_cnt b = 0)
          \<and> (\<forall>h. arc_get s' h = (if h \<in> set new then None else arc_get s h)))"

lemma arc_free_count: "arc_ok s \<Longrightarrow> backend_num_free (arc_backend s) = cache_capacity s - int (length (t1 s) + length (t2 s))"
  using backend_ok_distinct(3) [OF arc_okD(8)] arc_okD(11) by (simp add: used_ids_def)

text \<open>Reserving blocks for fresh hashes when there is room.\<close>

lemma arc_reserve_ok:
  assumes ok: "arc_ok s" and ts: "distinct ts" "\<forall>h \<in> set ts. arc_get s h = None"
    and room: "int (length ts) \<le> backend_num_free (arc_backend s)"
  shows "\<exists>be bls. allocate_blocks ts (arc_backend s) = Inr (be, bls) \<and> length bls = length ts
     \<and> arc_ok (fold arc_insert (zip ts bls) (s\<lparr>arc_backend := be\<rparr>))
     \<and> (\<forall>h \<in> set ts. \<exists>b. map_of (t1 (fold arc_insert (zip ts bls) (s\<lparr>arc_backend := be\<rparr>))) h = Some b \<and> st_ref_cnt b = -1)
     \<and> (\<forall>h. h \<notin> set ts \<longrightarrow> arc_get (fold arc_insert (zip ts bls) (s\<lparr>arc_backend := be\<rparr>)) h = arc_get s h)
     \<and> length (b1 (fold arc_insert (zip ts bls) (s\<lparr>arc_backend := be\<rparr>))) \<le> length (b1 s)
     \<and> length (b2 (fold arc_insert (zip ts bls) (s\<lparr>arc_backend := be\<rparr>))) \<le> length (b2 s)
     \<and> cache_capacity (fold arc_insert (zip ts bls) (s\<lparr>arc_backend := be\<rparr>)) = cache_capacity s"
proof -
  note d = arc_okD [OF ok]
  from allocate_blocks_ok [OF d(8) room] obtain be bls where
    al: "allocate_blocks ts (arc_backend s) = Inr (be, bls)" "length bls = length ts"
      "\<forall>b \<in> set bls. st_ref_cnt b = -1" "backend_ok be (map st_block_id bls @ used_ids (t1 s) @ used_ids (t2 s))"
      "num_blocks be = num_blocks (arc_backend s)" by blast
  have fresh: "\<forall>h \<in> set ts. h \<notin> fst ` set (t1 s) \<and> h \<notin> fst ` set (t2 s)" using ts(2) by (simp add: arc_get_None)
  then have f1: "\<forall>h \<in> set ts. map_of (t1 (s\<lparr>arc_backend := be\<rparr>)) h = None" by (simp add: map_of_eq_None_iff)
  define u where "u = fold arc_insert (zip ts bls) (s\<lparr>arc_backend := be\<rparr>)"
  have u: "u = s\<lparr>arc_backend := be, t1 := t1 s @ zip ts bls, b1 := filter (\<lambda>h. h \<notin> set ts) (b1 s),
      b2 := filter (\<lambda>h. h \<notin> set ts) (b2 s)\<rparr>"
    unfolding u_def using arc_insert_fold [OF ts(1) al(2) f1] by simp
  have keys: "map fst (zip ts bls) = ts" using al(2) by simp
  have keys': "fst ` set (zip ts bls) = set ts" using keys by (metis list.set_map)
  have ids: "used_ids (zip ts bls) = map st_block_id bls"
  proof -
    have "used_ids (zip ts bls) = map st_block_id (map snd (zip ts bls))" by (simp add: used_ids_def)
    then show ?thesis using al(2) by simp
  qed
  have be: "backend_ok be (used_ids (t1 s @ zip ts bls) @ used_ids (t2 s))"
    by (rule backend_ok_perm [OF al(4)]) (simp add: ids)
  have "arc_ok u"
  proof (rule arc_okI)
    show "distinct_keys (t1 u)" using d(1) ts(1) fresh keys keys' by (auto simp: u)
    show "fst ` set (t1 u) \<inter> fst ` set (t2 u) = {}" using d(5) fresh keys' by (auto simp: u image_Un)
    show "(set (b1 u) \<union> set (b2 u)) \<inter> (fst ` set (t1 u) \<union> fst ` set (t2 u)) = {}"
      using d(6) keys' by (auto simp: u image_Un)
    show "set (b1 u) \<inter> set (b2 u) = {}" using d(7) by (auto simp: u)
    show "backend_ok (arc_backend u) (used_ids (t1 u) @ used_ids (t2 u))" using be by (simp add: u)
  qed (use d al(5) in \<open>simp_all add: u\<close>)
  moreover have "\<exists>b. map_of (t1 u) h = Some b \<and> st_ref_cnt b = -1" if h: "h \<in> set ts" for h
  proof -
    have "map_of (t1 s) h = None" using fresh h by (simp add: map_of_eq_None_iff)
    moreover from h obtain i where i: "i < length ts" "ts ! i = h" by (auto simp: in_set_conv_nth)
    have "map_of (zip ts bls) h = Some (bls ! i)"
      using map_of_zip_nth [OF al(2) [symmetric] ts(1)] i al(2) by auto
    ultimately show ?thesis using al(2,3) i by (auto simp: u map_add_def)
  qed
  moreover have "arc_get u h = arc_get s h" if h: "h \<notin> set ts" for h
  proof -
    have "map_of (zip ts bls) h = None" using h keys' by (simp add: map_of_eq_None_iff)
    then show ?thesis by (simp add: u arc_get_eq map_add_def split: option.splits)
  qed
  moreover have "length (b1 u) \<le> length (b1 s)" "length (b2 u) \<le> length (b2 s)" "cache_capacity u = cache_capacity s"
    by (simp_all add: u)
  ultimately show ?thesis using al(1,2) unfolding u_def by blast
qed


lemma arc_prepare_store_ok:
  assumes ok: "arc_ok s" and hs: "distinct hs"
  shows "\<exists>s' res. arc_prepare_store hs s = Inr (s', res) \<and> arc_ok s'
     \<and> (case res of None \<Rightarrow> arc_gave_up s s' | Some out \<Rightarrow> arc_stored s hs s' out)"
proof -
  define ts where "ts = filter (\<lambda>h. map_of (t1 s) h = None \<and> map_of (t2 s) h = None) hs"
  have ts: "ts = filter (\<lambda>h. arc_get s h = None) hs"
    unfolding ts_def by (rule filter_cong) (simp_all add: arc_get_None map_of_eq_None_iff)
  define k where "k = nat (int (length ts) - backend_num_free (arc_backend s))"
  have free0: "0 \<le> backend_num_free (arc_backend s)"
    using arc_okD(8) [OF ok] by (simp add: backend_num_free_def backend_ok_def)
  show ?thesis
  proof (cases "ts = []")
    case True
    then have "arc_stored s hs s \<lparr>block_hashes_to_store = [], store_spec = [], block_hashes_evicted = []\<rparr>"
      using free0 ts by (simp add: arc_stored_def)
    moreover have "arc_prepare_store hs s = Inr (s, Some \<lparr>block_hashes_to_store = [], store_spec = [], block_hashes_evicted = []\<rparr>)"
      using True by (simp add: arc_prepare_store_def ts_def [symmetric])
    ultimately show ?thesis using ok by (intro exI [of _ s] exI [of _ "Some _"]) auto
  next
    case False
    obtain t r where loop: "arc_evict_loop k [] s = (t, r)" by force
    from arc_evict_loop_ok [OF ok loop] obtain new where
      new: "\<forall>e. r = Some e \<longrightarrow> e = [] @ new \<and> length new = k" "distinct new"
        "\<forall>h \<in> set new. \<exists>b. arc_get s h = Some b \<and> st_ref_cnt b = 0"
        "\<forall>h. arc_get t h = (if h \<in> set new then None else arc_get s h)"
      and t: "arc_ok t" "arc_events t = arc_events s" "cache_capacity t = cache_capacity s" by blast
    show ?thesis
    proof (cases r)
      case None
      then have "arc_prepare_store hs s = Inr (t, None)"
        using False loop by (simp add: arc_prepare_store_def ts_def [symmetric] k_def)
      moreover have "arc_gave_up s t" using new(3,4) t(2) unfolding arc_gave_up_def by blast
      ultimately show ?thesis using t(1) by (intro exI [of _ t] exI [of _ None]) simp
    next
      case (Some e)
      with new(1) have e: "r = Some new" "length new = k" by auto
      define u where "u = (trim_ghosts t)\<lparr>arc_events := push_event True new (arc_backend (trim_ghosts t)) (arc_events (trim_ghosts t))\<rparr>"
      note tr = trim_ghosts_ok [OF t(1)]
      have u: "arc_ok u" "arc_get u = arc_get t" "cache_capacity u = cache_capacity s" "arc_backend u = arc_backend t"
          "int (length (b1 u)) \<le> cache_capacity s" "int (length (b2 u)) \<le> cache_capacity s"
        using tr arc_get_cong [of u "trim_ghosts t"] t(3) by (simp_all add: u_def arc_ok_def trim_ghosts_def)
      have ub: "arc_backend u = arc_backend (trim_ghosts t)" by (simp add: u_def)
      have keys: "card (fst ` set (t1 t) \<union> fst ` set (t2 t)) = card (fst ` set (t1 s) \<union> fst ` set (t2 s)) - k"
      proof -
        have dom: "fst ` set (t1 v) \<union> fst ` set (t2 v) = {h. arc_get v h \<noteq> None}" for v
          by (auto simp: arc_get_None)
        have "{h. arc_get t h \<noteq> None} = {h. arc_get s h \<noteq> None} - set new" using new(4) by auto
        moreover have "set new \<subseteq> {h. arc_get s h \<noteq> None}" using new(3) by auto
        ultimately show ?thesis unfolding dom using e(2) distinct_card [OF new(2)] by (simp add: card_Diff_subset)
      qed
      have cnt: "card (fst ` set (t1 v) \<union> fst ` set (t2 v)) = length (t1 v) + length (t2 v)" if "arc_ok v" for v
        using arc_okD(1,2,5) [OF that] distinct_card [of "map fst (t1 v)"] distinct_card [of "map fst (t2 v)"]
        by (simp add: card_Un_disjoint)
      have sub: "set new \<subseteq> fst ` set (t1 s) \<union> fst ` set (t2 s)"
      proof
        fix h assume "h \<in> set new"
        then have "arc_get s h \<noteq> None" using new(3) by auto
        then show "h \<in> fst ` set (t1 s) \<union> fst ` set (t2 s)" by (simp add: arc_get_None)
      qed
      have "k \<le> card (fst ` set (t1 s) \<union> fst ` set (t2 s))"
        using card_mono [OF _ sub] distinct_card [OF new(2)] e(2) by simp
      then have "int (length (t1 t) + length (t2 t)) = int (length (t1 s) + length (t2 s)) - int k"
        using keys cnt [OF ok] cnt [OF t(1)] by simp
      then have room: "int (length ts) \<le> backend_num_free (arc_backend u)"
        using arc_free_count [OF ok] arc_free_count [OF t(1)] t(3) u(4) by (simp add: k_def)
      have fresh: "\<forall>h \<in> set ts. arc_get u h = None" using ts u(2) new(4) by simp
      have dist: "distinct ts" using hs by (simp add: ts_def)
      from arc_reserve_ok [OF u(1) dist fresh room] obtain be bls where
        al: "allocate_blocks ts (arc_backend u) = Inr (be, bls)" "length bls = length ts" and
        v: "arc_ok (fold arc_insert (zip ts bls) (u\<lparr>arc_backend := be\<rparr>))"
          "\<forall>h \<in> set ts. \<exists>b. map_of (t1 (fold arc_insert (zip ts bls) (u\<lparr>arc_backend := be\<rparr>))) h = Some b \<and> st_ref_cnt b = -1"
          "\<forall>h. h \<notin> set ts \<longrightarrow> arc_get (fold arc_insert (zip ts bls) (u\<lparr>arc_backend := be\<rparr>)) h = arc_get u h"
          "length (b1 (fold arc_insert (zip ts bls) (u\<lparr>arc_backend := be\<rparr>))) \<le> length (b1 u)"
          "length (b2 (fold arc_insert (zip ts bls) (u\<lparr>arc_backend := be\<rparr>))) \<le> length (b2 u)"
          "cache_capacity (fold arc_insert (zip ts bls) (u\<lparr>arc_backend := be\<rparr>)) = cache_capacity u" by blast
      let ?out = "\<lparr>block_hashes_to_store = ts, store_spec = get_load_store_spec bls, block_hashes_evicted = new\<rparr>"
      let ?v = "fold arc_insert (zip ts bls) (u\<lparr>arc_backend := be\<rparr>)"
      have "arc_prepare_store hs s = Inr (?v, Some ?out)"
        using False loop e(1) al(1) [unfolded ub] al(2)
        by (simp add: arc_prepare_store_def ts_def [symmetric] k_def u_def [symmetric] Let_def)
      moreover have "arc_stored s hs ?v ?out"
        unfolding arc_stored_def using v u new e(2) ts al(2) by (simp add: k_def get_load_store_spec_def)
      ultimately show ?thesis using v(1) by (intro exI [of _ ?v] exI [of _ "Some ?out"]) simp
    qed
  qed
qed

subsection \<open>Completing a store\<close>

lemma arc_store_ok_loop:
  "arc_ok s \<Longrightarrow> \<exists>s' st'. fold arc_store_ok hs (s, st) = (s', st') \<and> arc_ok s'
     \<and> (\<forall>q. arc_get s' q = (if q \<in> set hs
          then map_option (\<lambda>b. if is_ready b then b else b\<lparr>st_ref_cnt := 0\<rparr>) (arc_get s q) else arc_get s q))"
proof (induction hs arbitrary: s st)
  case (Cons h hs)
  have "\<exists>t st1. arc_store_ok h (s, st) = (t, st1) \<and> arc_ok t
     \<and> arc_get t = (arc_get s)(h := map_option (\<lambda>b. if is_ready b then b else b\<lparr>st_ref_cnt := 0\<rparr>) (arc_get s h))"
  proof (cases "arc_get s h")
    case None
    then show ?thesis using Cons.prems by (simp add: arc_store_ok_def fun_upd_idem)
  next
    case (Some b)
    show ?thesis
    proof (cases "is_ready b")
      case True
      then show ?thesis using Some Cons.prems by (simp add: arc_store_ok_def fun_upd_idem)
    next
      case False
      with arc_set_ok [OF Cons.prems Some, of "b\<lparr>st_ref_cnt := 0\<rparr>"] Some show ?thesis
        by (simp add: arc_store_ok_def)
    qed
  qed
  then obtain t st1 where t: "arc_store_ok h (s, st) = (t, st1)" "arc_ok t"
    "arc_get t = (arc_get s)(h := map_option (\<lambda>b. if is_ready b then b else b\<lparr>st_ref_cnt := 0\<rparr>) (arc_get s h))" by blast
  from Cons.IH [OF t(2), of st1] obtain s' st' where
    s': "fold arc_store_ok hs (t, st1) = (s', st')" "arc_ok s'"
      "\<forall>q. arc_get s' q = (if q \<in> set hs
          then map_option (\<lambda>b. if is_ready b then b else b\<lparr>st_ref_cnt := 0\<rparr>) (arc_get t q) else arc_get t q)" by blast
  have "arc_get s' q = (if q \<in> set (h # hs)
          then map_option (\<lambda>b. if is_ready b then b else b\<lparr>st_ref_cnt := 0\<rparr>) (arc_get s q) else arc_get s q)" for q
    using s'(3) t(3) by (cases "arc_get s h") (auto simp: is_ready_def)
  with t(1) s' show ?case by auto
qed simp

lemma arc_complete_store_success:
  assumes "arc_ok s"
  shows "arc_ok (arc_complete_store hs True s)
     \<and> (\<forall>q. arc_get (arc_complete_store hs True s) q = (if q \<in> set hs
          then map_option (\<lambda>b. if is_ready b then b else b\<lparr>st_ref_cnt := 0\<rparr>) (arc_get s q) else arc_get s q))"
proof -
  from arc_store_ok_loop [OF assms, of hs "[]"] obtain t st where
    t: "fold arc_store_ok hs (s, []) = (t, st)" "arc_ok t"
      "\<forall>q. arc_get t q = (if q \<in> set hs
          then map_option (\<lambda>b. if is_ready b then b else b\<lparr>st_ref_cnt := 0\<rparr>) (arc_get s q) else arc_get s q)" by blast
  let ?u = "arc_complete_store hs True s"
  have u: "?u = t\<lparr>arc_events := push_event False st (arc_backend t) (arc_events t)\<rparr>"
    using t(1) by (simp add: arc_complete_store_def)
  have "arc_get ?u = arc_get t" by (rule arc_get_cong) (simp_all add: u)
  then show ?thesis using t(2,3) by (simp add: u arc_ok_def)
qed

text \<open>A failed store of blocks that are not ready gives their space back.\<close>

lemma arc_store_failed_ok:
  assumes ok: "arc_ok s" and nr: "\<forall>b. arc_get s h = Some b \<longrightarrow> \<not> is_ready b"
  shows "arc_ok (arc_store_failed h s) \<and> arc_get (arc_store_failed h s) = (arc_get s)(h := None)"
proof -
  note d = arc_okD [OF ok]
  consider (one) b where "map_of (t1 s) h = Some b" | (two) b where "map_of (t1 s) h = None" "map_of (t2 s) h = Some b"
    | (none) "map_of (t1 s) h = None" "map_of (t2 s) h = None" by fastforce
  then show ?thesis
  proof cases
    case (one b)
    then have "\<not> is_ready b" using nr by (simp add: arc_get_def)
    then have s': "arc_store_failed h s = (evict_t1 h b s)\<lparr>b1 := b1 s\<rparr>"
      using one by (simp add: arc_store_failed_def evict_t1_def)
    note e = evict_t1_ok [OF ok one]
    have "arc_get (arc_store_failed h s) = arc_get (evict_t1 h b s)" by (rule arc_get_cong) (simp_all add: s')
    moreover have "arc_ok (arc_store_failed h s)"
      using arc_okD [OF e(1)] d(3,6,7) by (intro arc_okI) (auto simp: s' evict_t1_def keys_delete)
    ultimately show ?thesis using e(2) by simp
  next
    case (two b)
    then have "\<not> is_ready b" using nr by (simp add: arc_get_def)
    then have s': "arc_store_failed h s = (evict_t2 h b s)\<lparr>b2 := b2 s\<rparr>"
      using two by (simp add: arc_store_failed_def evict_t2_def)
    note e = evict_t2_ok [OF ok two(2)]
    have "arc_get (arc_store_failed h s) = arc_get (evict_t2 h b s)" by (rule arc_get_cong) (simp_all add: s')
    moreover have "arc_ok (arc_store_failed h s)"
      using arc_okD [OF e(1)] d(4,6,7) by (intro arc_okI) (auto simp: s' evict_t2_def keys_delete)
    ultimately show ?thesis using e(2) by simp
  next
    case none
    then have "arc_store_failed h s = s" by (simp add: arc_store_failed_def delete_fresh)
    then show ?thesis using ok none by (simp add: arc_get_def fun_upd_idem)
  qed
qed


definition arc_ready :: "ARCOffloadingManager \<Rightarrow> block_hash \<Rightarrow> bool" where
  "arc_ready s h \<longleftrightarrow> (\<exists>b. arc_get s h = Some b \<and> is_ready b)"

definition arc_busy :: "ARCOffloadingManager \<Rightarrow> block_hash \<Rightarrow> bool" where
  "arc_busy s h \<longleftrightarrow> (\<exists>b. arc_get s h = Some b \<and> st_ref_cnt b \<noteq> 0)"

interpretation arc: offloading_manager arc_ok "\<lambda>s h. arc_get s h \<noteq> None" arc_ready arc_busy
    arc_lookup arc_prepare_store block_hashes_to_store "\<lambda>hs ok s. Inr (arc_complete_store hs ok s)"
proof (unfold_locales, goal_cases)
  case (1 hs s)
  show ?case by (simp add: arc_lookup_def lookup_count_takeWhile arc_ready_def [abs_def])
next
  case (2 s hs s' out)
  from arc_prepare_store_ok [OF 2(1,2)] 2(3) have st: "arc_ok s'" "arc_stored s hs s' out" by auto
  have "arc_get s' h \<noteq> None \<and> \<not> arc_ready s' h" if h: "h \<in> set (block_hashes_to_store out)" for h
  proof -
    obtain b where "map_of (t1 s') h = Some b" "st_ref_cnt b = -1" using st(2) h unfolding arc_stored_def by blast
    then show ?thesis by (simp add: arc_ready_def arc_get_def is_ready_def)
  qed
  moreover have "arc_ready s' h \<and> arc_busy s' h" if h: "arc_ready s h \<and> arc_busy s h" for h
  proof -
    from h obtain b where b: "arc_get s h = Some b" "is_ready b" "st_ref_cnt b \<noteq> 0"
      by (auto simp: arc_ready_def arc_busy_def)
    then have "h \<notin> set (block_hashes_to_store out)" "h \<notin> set (block_hashes_evicted out)"
      using st(2) by (auto simp: arc_stored_def)
    then have "arc_get s' h = arc_get s h" using st(2) by (simp add: arc_stored_def)
    then show ?thesis using h by (simp add: arc_ready_def arc_busy_def)
  qed
  ultimately show ?case using st(1) by blast
next
  case (3 s hs)
  from arc_complete_store_success [OF 3(1), of hs] 3(2) show ?case
    by (fastforce simp: arc_ready_def is_ready_def)
qed

subsection \<open>Reachable states\<close>

text \<open>
  The calls of the connector. A failed store is only reported for blocks that are not ready, as
  the interface intends; the last section shows why this is needed.
\<close>

inductive arc_step :: "ARCOffloadingManager \<Rightarrow> ARCOffloadingManager \<Rightarrow> bool" where
  arc_do_load: "arc_prepare_load hs s = Inr (s', spec) \<Longrightarrow> arc_step s s'"
| arc_do_touch: "arc_touch hs s = Inr s' \<Longrightarrow> arc_step s s'"
| arc_do_complete_load: "arc_complete_load hs s = Inr s' \<Longrightarrow> arc_step s s'"
| arc_do_store: "distinct hs \<Longrightarrow> arc_prepare_store hs s = Inr (s', out) \<Longrightarrow> arc_step s s'"
| arc_do_complete_store: "arc_complete_store hs True s = s' \<Longrightarrow> arc_step s s'"
| arc_do_fail_store: "\<forall>h \<in> set hs. \<forall>b. arc_get s h = Some b \<longrightarrow> \<not> is_ready b \<Longrightarrow>
    arc_complete_store hs False s = s' \<Longrightarrow> arc_step s s'"
| arc_do_take: "arc_take_events s = (s', evs) \<Longrightarrow> arc_step s s'"

inductive arc_reach :: "int \<Rightarrow> ARCOffloadingManager \<Rightarrow> bool" for n where
  arc_start: "arc_reach n (arc_init (cpu_backend_init bs n) evs)"
| arc_next: "arc_reach n s \<Longrightarrow> arc_step s s' \<Longrightarrow> arc_reach n s'"

lemma arc_load_ok:
  assumes "arc_prepare_load hs s = Inr (s', spec)" and "arc_ok s"
  shows "arc_ok s'"
proof -
  obtain bls where "foldE arc_load_step hs (s, []) = Inr (s', bls)"
    using assms(1) by (auto simp: arc_prepare_load_def elim!: bindE_InrE)
  then have "(\<lambda>(t, bls). arc_ok t) (s', bls)"
  proof (rule foldE_invariant)
    fix h and u u' :: "ARCOffloadingManager \<times> BlockStatus list"
    assume u: "case u of (t, bls) \<Rightarrow> arc_ok t" and step: "arc_load_step h u = Inr u'"
    obtain t bs where t: "u = (t, bs)" by force
    from step t obtain b where b: "arc_get t h = Some b" "u' = (arc_set h (incr_status b) t, bs @ [b])"
      by (cases "arc_get t h") (auto simp: arc_load_step_def)
    then show "case u' of (t, bls) \<Rightarrow> arc_ok t"
      using u t arc_set_ok(1) [OF _ b(1), of "incr_status b"] by (simp add: incr_status_def)
  qed (simp add: assms(2))
  then show ?thesis by simp
qed

lemma arc_complete_load_ok:
  assumes "arc_complete_load hs s = Inr s'" and "arc_ok s"
  shows "arc_ok s'"
  using assms(1) unfolding arc_complete_load_def
proof (rule foldE_invariant)
  fix h t t'
  assume t: "arc_ok t" and step: "(case arc_get t h of None \<Rightarrow> Inl AssertionError
      | Some b \<Rightarrow> assertE (st_ref_cnt b > 0) (Inr (arc_set h (decr_status b) t))) = Inr t'"
  from step obtain b where "arc_get t h = Some b" "t' = arc_set h (decr_status b) t"
    by (cases "arc_get t h") auto
  then show "arc_ok t'" using arc_set_ok(1) [OF t, of h b "decr_status b"] by (simp add: decr_status_def)
qed (rule assms(2))

lemma arc_fail_loop:
  "arc_ok s \<Longrightarrow> \<forall>h \<in> set hs. \<forall>b. arc_get s h = Some b \<longrightarrow> \<not> is_ready b \<Longrightarrow> arc_ok (fold arc_store_failed hs s)"
proof (induction hs arbitrary: s)
  case (Cons h hs)
  from arc_store_failed_ok [OF Cons.prems(1), of h] Cons.prems(2)
  have "arc_ok (arc_store_failed h s)" "arc_get (arc_store_failed h s) = (arc_get s)(h := None)" by auto
  with Cons.IH [of "arc_store_failed h s"] Cons.prems(2) show ?case by auto
qed simp

lemma arc_step_ok:
  assumes "arc_step s s'" and "arc_ok s"
  shows "arc_ok s'"
  using assms(1)
proof cases
  case (arc_do_load hs spec)
  then show ?thesis using arc_load_ok assms(2) by blast
next
  case (arc_do_touch hs)
  then show ?thesis using arc_touch_ok assms(2) by blast
next
  case (arc_do_complete_load hs)
  then show ?thesis using arc_complete_load_ok assms(2) by blast
next
  case (arc_do_store hs out)
  then show ?thesis using arc_prepare_store_ok [OF assms(2), of hs] by auto
next
  case (arc_do_complete_store hs)
  then show ?thesis using arc_complete_store_success [OF assms(2), of hs] by blast
next
  case (arc_do_fail_store hs)
  then show ?thesis using arc_fail_loop [OF assms(2), of hs] by (auto simp: arc_complete_store_def arc_ok_events)
next
  case (arc_do_take evs)
  then show ?thesis using assms(2) by (auto simp: arc_take_events_def arc_ok_events split: option.splits)
qed

lemma arc_reach_ok: "arc_reach n s \<Longrightarrow> 0 \<le> n \<Longrightarrow> arc_ok s"
  by (induction rule: arc_reach.induct) (auto intro: arc_init_ok arc_step_ok)

text \<open>
  C27: In every state that the ARC manager reaches by loads, touches, stores of different hashes, completed
  stores, failed stores of blocks that are not yet ready, and taking events, no hash is in two of the lists
  \<^verbatim>\<open>t1\<close>, \<^verbatim>\<open>t2\<close>, \<^verbatim>\<open>b1\<close>, \<^verbatim>\<open>b2\<close>, no two cached hashes share a block of the backend, used and free blocks add up to the
  capacity, and the adaptive target stays between 0 and the capacity. Reporting a failed store for a block that
  is ready is not among these steps: it loses the block's space for good (\<open>arc_failed_store_leaks\<close>).
\<close>

theorem arc_invariant:
  assumes "arc_reach n s" and "0 \<le> n"
  shows "distinct (map fst (t1 s) @ map fst (t2 s) @ b1 s @ b2 s)
     \<and> distinct (used_ids (t1 s) @ used_ids (t2 s))
     \<and> backend_num_free (arc_backend s) + int (length (t1 s)) + int (length (t2 s)) = cache_capacity s
     \<and> 0 \<le> target_t1_size s \<and> target_t1_size s \<le> of_int (cache_capacity s)"
proof -
  have ok: "arc_ok s" using assms by (rule arc_reach_ok)
  have "distinct (map fst (t1 s) @ map fst (t2 s) @ b1 s @ b2 s)" using ok by (simp add: arc_ok_def)
  then show ?thesis
    using arc_free_count [OF ok] backend_ok_distinct(1) [OF arc_okD(8) [OF ok]] arc_okD(9,10) [OF ok] by simp
qed

theorem arc_invariant_witness:
  "\<exists>s out. arc_prepare_store [[1], [2]] (arc_init (cpu_backend_init 16 2) True) = Inr (s, out)
     \<and> backend_num_free (arc_backend s) + int (length (t1 s)) + int (length (t2 s)) = cache_capacity s"
proof -
  have d: "distinct [[1 :: 8 word], [2]]" by simp
  from arc_prepare_store_ok [OF arc_init_ok d, of 2 16 True] obtain s out where
    s: "arc_prepare_store [[1], [2]] (arc_init (cpu_backend_init 16 2) True) = Inr (s, out)" by auto
  have "arc_reach 2 s" by (rule arc_next [OF arc_start arc_do_store [OF d s]])
  from arc_invariant [OF this] s show ?thesis by auto
qed

lemma arc_demo_store:
  "\<exists>s' out. arc_prepare_store [[1]] (arc_init (cpu_backend_init 16 2) True) = Inr (s', Some out)
     \<and> block_hashes_to_store out = [[1]]"
  by (simp add: arc_prepare_store_def arc_init_def cpu_backend_init_def backend_num_free_def
      allocate_blocks_def allocate_fresh_def trim_ghosts_def Let_def)

text \<open>
  A store into the ARC manager follows the same protocol as into the LRU manager: reserved
  blocks are readable only after \<^verbatim>\<open>complete_store\<close>, blocks being read survive, only idle blocks
  are evicted, as many as are missing, and the ghost lists are bounded by the capacity.
\<close>

theorem arc_store_protocol:
  assumes "arc_ok s" and "distinct hs" and "arc_prepare_store hs s = Inr (s', Some out)"
    and "\<forall>h \<in> set loading. arc_ready s h \<and> arc_busy s h"
  shows "arc_stored s hs s' out
   \<and> (block_hashes_to_store out \<noteq> [] \<longrightarrow> arc_lookup (block_hashes_to_store out) s' = 0)
   \<and> arc_lookup (block_hashes_to_store out) (arc_complete_store (block_hashes_to_store out) True s')
        = int (length (block_hashes_to_store out))
   \<and> arc_lookup loading s' = int (length loading)"
proof -
  have "arc_stored s hs s' out" using arc_prepare_store_ok [OF assms(1,2)] assms(3) by auto
  then show ?thesis
    using arc.store_then_complete [OF assms(1-3)] arc.busy_survives [OF assms] by simp
qed

theorem arc_store_protocol_witness:
  "\<exists>s' out. arc_prepare_store [[1]] (arc_init (cpu_backend_init 16 2) True) = Inr (s', Some out)
     \<and> arc_lookup (block_hashes_to_store out) (arc_complete_store (block_hashes_to_store out) True s') = 1"
proof -
  let ?s = "arc_init (cpu_backend_init 16 2) True"
  have ok: "arc_ok ?s" by (rule arc_init_ok) simp
  have d: "distinct [[1 :: 8 word]]" by simp
  obtain s' out where s': "arc_prepare_store [[1]] ?s = Inr (s', Some out)" "block_hashes_to_store out = [[1]]"
    using arc_demo_store by blast
  have "\<forall>h \<in> set []. arc_ready ?s h \<and> arc_busy ?s h" by simp
  from arc_store_protocol [OF ok d s'(1) this] s' show ?thesis by auto
qed

text \<open>
  Touching the blocks that \<^verbatim>\<open>prepare_store\<close> has just reserved raises \<^verbatim>\<open>KeyError\<close>: the code pops the
  block from \<^verbatim>\<open>t1\<close> and then asks \<^verbatim>\<open>t1\<close> to move it to the end.
\<close>

theorem arc_touch_after_store_raises:
  assumes "arc_ok s" and "distinct hs" and "arc_prepare_store hs s = Inr (s', Some out)"
    and "block_hashes_to_store out \<noteq> []"
  shows "arc_touch (block_hashes_to_store out) s' = Inl KeyError"
proof -
  have st: "arc_stored s hs s' out" using arc_prepare_store_ok [OF assms(1,2)] assms(3) by auto
  obtain h rest where h: "rev (block_hashes_to_store out) = h # rest" using assms(4) by (metis neq_Nil_conv rev_is_Nil_conv)
  then have "h \<in> set (block_hashes_to_store out)" by (metis list.set_intros(1) set_rev)
  then obtain b where "map_of (t1 s') h = Some b" "st_ref_cnt b = -1" using st unfolding arc_stored_def by blast
  then have "map_of (t1 s') h = Some b" "\<not> is_ready b" by (simp_all add: is_ready_def)
  then show ?thesis using arc_touch_unready [of s' h b] by (simp add: arc_touch_def h)
qed

theorem arc_touch_after_store_raises_witness:
  "\<exists>s' out. arc_prepare_store [[1]] (arc_init (cpu_backend_init 16 2) True) = Inr (s', Some out)
     \<and> arc_touch [[1]] s' = Inl KeyError"
proof -
  let ?s = "arc_init (cpu_backend_init 16 2) True"
  have ok: "arc_ok ?s" by (rule arc_init_ok) simp
  have d: "distinct [[1 :: 8 word]]" by simp
  obtain s' out where s': "arc_prepare_store [[1]] ?s = Inr (s', Some out)" "block_hashes_to_store out = [[1]]"
    using arc_demo_store by blast
  from arc_touch_after_store_raises [OF ok d s'(1)] s' show ?thesis by auto
qed

text \<open>
  Reporting a failed store for a block that is ready removes the block from the cache without
  returning its space: the backend is unchanged, so one block of the capacity is lost for good.
\<close>

theorem arc_failed_store_leaks:
  assumes "arc_ok s" and "arc_get s h = Some b" and "is_ready b"
  shows "arc_get (arc_complete_store [h] False s) h = None
   \<and> arc_backend (arc_complete_store [h] False s) = arc_backend s
   \<and> backend_num_free (arc_backend (arc_complete_store [h] False s))
       + int (length (t1 (arc_complete_store [h] False s))) + int (length (t2 (arc_complete_store [h] False s)))
     = cache_capacity s - 1"
proof -
  note d = arc_okD [OF assms(1)]
  let ?u = "arc_complete_store [h] False s"
  consider (one) "map_of (t1 s) h = Some b" | (two) "map_of (t1 s) h = None" "map_of (t2 s) h = Some b"
    using assms(2) by (auto simp: arc_get_def split: option.splits)
  then show ?thesis
  proof cases
    case one
    have u: "t1 ?u = AList.delete h (t1 s)" "t2 ?u = t2 s" "arc_backend ?u = arc_backend s"
      using one assms(3) by (simp_all add: arc_complete_store_def arc_store_failed_def)
    have "int (length (t1 ?u)) = int (length (t1 s)) - 1"
      using arg_cong [OF used_ids_delete [OF d(1) one], of size] by (simp add: u used_ids_def)
    moreover have "arc_get ?u h = None"
      using d(5) map_of_in_keys [OF one] by (auto simp: arc_get_None u keys_delete)
    ultimately show ?thesis using arc_free_count [OF assms(1)] by (simp add: u)
  next
    case two
    have u: "t1 ?u = t1 s" "t2 ?u = AList.delete h (t2 s)" "arc_backend ?u = arc_backend s"
      using two assms(3) by (simp_all add: arc_complete_store_def arc_store_failed_def)
    have "int (length (t2 ?u)) = int (length (t2 s)) - 1"
      using arg_cong [OF used_ids_delete [OF d(2) two(2)], of size] by (simp add: u used_ids_def)
    moreover have "arc_get ?u h = None" using two(1) by (simp add: arc_get_None u keys_delete map_of_eq_None_iff)
    ultimately show ?thesis using arc_free_count [OF assms(1)] by (simp add: u)
  qed
qed

definition leak_state :: ARCOffloadingManager where
  "leak_state = \<lparr>arc_backend = \<lparr>backend_block_size = 16, num_blocks = 2, num_allocated_blocks = 2,
      allocated_blocks_free_list = []\<rparr>, target_t1_size = 2,
    t1 = [([1], \<lparr>st_ref_cnt = 0, st_block_id = 0\<rparr>)], t2 = [([2], \<lparr>st_ref_cnt = 1, st_block_id = 1\<rparr>)],
    b1 = [], b2 = [], arc_events = Some [], cache_capacity = 2\<rparr>"

lemma leak_state_ok: "arc_ok leak_state"
  by (simp add: arc_ok_def leak_state_def backend_ok_def upto.simps)

theorem arc_failed_store_leaks_witness:
  "arc_get (arc_complete_store [[1]] False leak_state) [1] = None
   \<and> arc_backend (arc_complete_store [[1]] False leak_state) = arc_backend leak_state"
  using arc_failed_store_leaks [OF leak_state_ok, of "[1]" "\<lparr>st_ref_cnt = 0, st_block_id = 0\<rparr>"]
  by (simp add: leak_state_def arc_get_def is_ready_def)

text \<open>
  The ARC manager can refuse a store although an idle block would make room: below its target
  size \<^verbatim>\<open>t1\<close> is not searched, and when \<^verbatim>\<open>t2\<close> has no idle block the store is refused. It can also
  evict blocks before it refuses, without reporting them in an event.
\<close>

theorem arc_refuses_with_idle_block:
  "arc_ok leak_state \<and> arc_prepare_store [[3]] leak_state = Inr (leak_state, None)
   \<and> find_idle (t1 leak_state) \<noteq> None
   \<and> (\<exists>s'. arc_prepare_store [[3], [4]] (leak_state\<lparr>target_t1_size := 0\<rparr>) = Inr (s', None)
        \<and> arc_get s' [1] = None \<and> arc_events s' = Some [] \<and> arc_get leak_state [1] \<noteq> None)"
proof (intro conjI)
  have two: "arc_evict_loop 2 = arc_evict_loop (Suc (Suc 0))" by (simp only: numeral_2_eq_2)
  show "arc_prepare_store [[3]] leak_state = Inr (leak_state, None)"
    by (simp add: leak_state_def arc_prepare_store_def backend_num_free_def find_idle_def int_of_float_def Let_def)
  show "\<exists>s'. arc_prepare_store [[3], [4]] (leak_state\<lparr>target_t1_size := 0\<rparr>) = Inr (s', None)
        \<and> arc_get s' [1] = None \<and> arc_events s' = Some [] \<and> arc_get leak_state [1] \<noteq> None"
    by (simp add: leak_state_def arc_prepare_store_def backend_num_free_def find_idle_def int_of_float_def
        evict_t1_def add_ghost_def arc_get_def backend_free_def two Let_def)
  show "find_idle (t1 leak_state) \<noteq> None" by (simp add: leak_state_def find_idle_def)
qed (rule leak_state_ok)

end
