(* ===== verification/Kv_Cache_Spec.thy ===== *)
theory Kv_Cache_Spec
  imports Vllm_Prelude
begin

section \<open>KV cache specifications\<close>

text \<open>
  \<^verbatim>\<open>vllm/v1/kv_cache_interface.py\<close>: what one attention or state-space layer needs of the
  cache. The dataclass hierarchy becomes records that extend each other (\<open>AttentionSpec\<close>,
  \<open>FullAttentionSpec\<close> with the MLA and sink variants, sliding window and chunked
  local attention) and one datatype \<open>KVCacheSpec\<close> whose constructors are the concrete classes.
  The element size \<open>get_dtype_size\<close> that torch reports for a dtype is a field of \<open>torch_dtype\<close>.
  \<open>UniformTypeKVCacheSpecs\<close>, a dictionary of such specs, is a type of its own because no code
  nests one in another; \<open>GroupSpec\<close> is the union of both, what a cache group carries.
  Python's \<open>==\<close> on frozen dataclasses compares classes and fields, as \<open>=\<close> does here.
\<close>

subsection \<open>Data\<close>

record torch_dtype =
  dtype_name :: string
  element_size :: int

record AttentionSpec =
  block_size :: int
  num_kv_heads :: int
  head_size :: int
  dtype :: torch_dtype
  page_size_padded :: "int option"

record FullAttentionSpec = AttentionSpec +
  head_size_v :: int
  sliding_window :: "int option"
  attention_chunk_size :: "int option"

record MLAAttentionSpec = FullAttentionSpec +
  cache_dtype_str :: "string option"

record SinkFullAttentionSpec = FullAttentionSpec +
  sink_len :: "int option"

record ChunkedLocalAttentionSpec = AttentionSpec +
  local_chunk_size :: int

record SlidingWindowSpec = AttentionSpec +
  window_size :: int

record MambaSpec =
  mamba_block_size :: int
  shapes :: "int list list"
  dtypes :: "torch_dtype list"
  mamba_page_size_padded :: "int option"
  mamba_type :: string
  spec_mamba_cache_mode :: string
  num_speculative_blocks :: int

datatype KVCacheSpec =
    FullAttention FullAttentionSpec
  | MLAAttention MLAAttentionSpec
  | SinkFullAttention SinkFullAttentionSpec
  | ChunkedLocalAttention ChunkedLocalAttentionSpec
  | SlidingWindow SlidingWindowSpec
  | Mamba MambaSpec
  | EncoderOnlyAttention AttentionSpec
  | CrossAttention AttentionSpec

record UniformTypeKVCacheSpecs =
  uniform_block_size :: int
  kv_cache_specs :: "(string, KVCacheSpec) odict"

datatype GroupSpec = LayerSpec KVCacheSpec | UniformTypes UniformTypeKVCacheSpecs

text \<open>The parts of \<open>VllmConfig\<close> that the cache configuration reads and writes.\<close>

record VllmConfig =
  max_model_len :: int
  original_max_model_len :: int
  decode_context_parallel_size :: int
  prefill_context_parallel_size :: int
  max_num_batched_tokens :: int
  max_num_encoder_input_tokens :: int
  mamba_cache_mode :: string
  num_gpu_blocks_override :: "int option"
  disable_hybrid_kv_cache_manager :: bool

text \<open>The views of a spec as one of its base classes: \<open>isinstance\<close> and the inherited fields.\<close>

definition full_part :: "KVCacheSpec \<Rightarrow> FullAttentionSpec option" where
  "full_part spec = (case spec of
     FullAttention f \<Rightarrow> Some f
   | MLAAttention a \<Rightarrow> Some (FullAttentionSpec.truncate a)
   | SinkFullAttention a \<Rightarrow> Some (FullAttentionSpec.truncate a)
   | _ \<Rightarrow> None)"

definition attention_part :: "KVCacheSpec \<Rightarrow> AttentionSpec option" where
  "attention_part spec = (case spec of
     FullAttention a \<Rightarrow> Some (AttentionSpec.truncate a)
   | MLAAttention a \<Rightarrow> Some (AttentionSpec.truncate a)
   | SinkFullAttention a \<Rightarrow> Some (AttentionSpec.truncate a)
   | ChunkedLocalAttention a \<Rightarrow> Some (AttentionSpec.truncate a)
   | SlidingWindow a \<Rightarrow> Some (AttentionSpec.truncate a)
   | Mamba _ \<Rightarrow> None
   | EncoderOnlyAttention a \<Rightarrow> Some a
   | CrossAttention a \<Rightarrow> Some a)"

definition is_full :: "KVCacheSpec \<Rightarrow> bool" where
  "is_full spec = (full_part spec \<noteq> None)"

fun is_mla :: "KVCacheSpec \<Rightarrow> bool" where
  "is_mla (MLAAttention _) = True"
| "is_mla _ = False"

definition spec_block_size :: "KVCacheSpec \<Rightarrow> int" where
  "spec_block_size spec = (case spec of
     FullAttention a \<Rightarrow> block_size a
   | MLAAttention a \<Rightarrow> block_size a
   | SinkFullAttention a \<Rightarrow> block_size a
   | ChunkedLocalAttention a \<Rightarrow> block_size a
   | SlidingWindow a \<Rightarrow> block_size a
   | Mamba a \<Rightarrow> mamba_block_size a
   | EncoderOnlyAttention a \<Rightarrow> block_size a
   | CrossAttention a \<Rightarrow> block_size a)"

text \<open>\<^verbatim>\<open>replace(self, block_size=block_size)\<close>.\<close>

definition copy_with_new_block_size :: "KVCacheSpec \<Rightarrow> int \<Rightarrow> KVCacheSpec" where
  "copy_with_new_block_size spec n = (case spec of
     FullAttention a \<Rightarrow> FullAttention (a\<lparr>block_size := n\<rparr>)
   | MLAAttention a \<Rightarrow> MLAAttention (a\<lparr>block_size := n\<rparr>)
   | SinkFullAttention a \<Rightarrow> SinkFullAttention (a\<lparr>block_size := n\<rparr>)
   | ChunkedLocalAttention a \<Rightarrow> ChunkedLocalAttention (a\<lparr>block_size := n\<rparr>)
   | SlidingWindow a \<Rightarrow> SlidingWindow (a\<lparr>block_size := n\<rparr>)
   | Mamba a \<Rightarrow> Mamba (a\<lparr>mamba_block_size := n\<rparr>)
   | EncoderOnlyAttention a \<Rightarrow> EncoderOnlyAttention (a\<lparr>block_size := n\<rparr>)
   | CrossAttention a \<Rightarrow> CrossAttention (a\<lparr>block_size := n\<rparr>))"

text \<open>The constructor with \<^verbatim>\<open>__post_init__\<close>: a missing \<open>head_size_v\<close> is the head size.\<close>

definition FullAttentionSpec_new ::
    "AttentionSpec \<Rightarrow> int option \<Rightarrow> int option \<Rightarrow> int option \<Rightarrow> FullAttentionSpec" where
  "FullAttentionSpec_new a hv window chunk = AttentionSpec.extend a
     (FullAttentionSpec.fields
        (case hv of None \<Rightarrow> head_size a | Some n \<Rightarrow> n) window chunk)"

subsection \<open>Page sizes\<close>

definition attention_page_size :: "'a AttentionSpec_scheme \<Rightarrow> int" where
  "attention_page_size a =
     2 * block_size a * num_kv_heads a * head_size a * element_size (dtype a)"

definition full_attention_page_size :: "'a FullAttentionSpec_scheme \<Rightarrow> int" where
  "full_attention_page_size a =
     block_size a * num_kv_heads a * (head_size a + head_size_v a) * element_size (dtype a)"

definition mla_page_size :: "MLAAttentionSpec \<Rightarrow> int" where
  "mla_page_size a =
     (if cache_dtype_str a = Some ''fp8_ds_mla'' then block_size a * 656
      else block_size a * num_kv_heads a * head_size a * element_size (dtype a))"

definition mamba_page_size :: "MambaSpec \<Rightarrow> int" where
  "mamba_page_size a =
     sum_list (map (\<lambda>(shape, ty). prod_list shape * element_size ty) (zip (shapes a) (dtypes a)))"

definition real_page_size_bytes :: "KVCacheSpec \<Rightarrow> int" where
  "real_page_size_bytes spec = (case spec of
     FullAttention a \<Rightarrow> full_attention_page_size a
   | MLAAttention a \<Rightarrow> mla_page_size a
   | SinkFullAttention a \<Rightarrow> full_attention_page_size a
   | ChunkedLocalAttention a \<Rightarrow> attention_page_size a
   | SlidingWindow a \<Rightarrow> attention_page_size a
   | Mamba a \<Rightarrow> mamba_page_size a
   | EncoderOnlyAttention a \<Rightarrow> attention_page_size a
   | CrossAttention a \<Rightarrow> attention_page_size a)"

definition spec_padded :: "KVCacheSpec \<Rightarrow> int option" where
  "spec_padded spec = (case spec of
     Mamba a \<Rightarrow> mamba_page_size_padded a
   | _ \<Rightarrow> (case attention_part spec of None \<Rightarrow> None | Some a \<Rightarrow> page_size_padded a))"

definition page_size_bytes :: "KVCacheSpec \<Rightarrow> int result" where
  "page_size_bytes spec =
     (let real_page_size = real_page_size_bytes spec in
      case spec_padded spec of
        Some padded \<Rightarrow> assertE (padded \<ge> real_page_size) (Inr padded)
      | None \<Rightarrow> Inr real_page_size)"

subsection \<open>Memory of one request\<close>

definition full_attention_max_memory :: "VllmConfig \<Rightarrow> int \<Rightarrow> int result \<Rightarrow> int result" where
  "full_attention_max_memory cfg bs page =
     (let cp = decode_context_parallel_size cfg * prefill_context_parallel_size cfg;
          len = (if cp > 1 then cdiv (max_model_len cfg) cp else max_model_len cfg) in
      bindE (cdivE len bs) (\<lambda>n. bindE page (\<lambda>sz. Inr (n * sz))))"

definition chunked_local_max_memory ::
    "VllmConfig \<Rightarrow> ChunkedLocalAttentionSpec \<Rightarrow> int result \<Rightarrow> int result" where
  "chunked_local_max_memory cfg a page =
     (let num_tokens = min (local_chunk_size a + max_num_batched_tokens cfg) (max_model_len cfg) in
      bindE (cdivE num_tokens (block_size a)) (\<lambda>n. bindE page (\<lambda>sz. Inr (n * sz))))"

definition sliding_window_max_memory ::
    "VllmConfig \<Rightarrow> SlidingWindowSpec \<Rightarrow> int result \<Rightarrow> int result" where
  "sliding_window_max_memory cfg a page =
     assertE (decode_context_parallel_size cfg = 1)
       (let num_tokens = min (window_size a - 1 + max_num_batched_tokens cfg) (max_model_len cfg) in
        bindE (cdivE num_tokens (block_size a)) (\<lambda>n. bindE page (\<lambda>sz. Inr ((n + 1) * sz))))"

definition mamba_max_memory :: "VllmConfig \<Rightarrow> MambaSpec \<Rightarrow> int result \<Rightarrow> int result" where
  "mamba_max_memory cfg a page =
     (if mamba_cache_mode cfg = ''all'' then
        bindE (cdivE (max_model_len cfg) (mamba_block_size a)) (\<lambda>n. bindE page (\<lambda>sz. Inr (n * sz)))
      else if mamba_cache_mode cfg = ''align'' then
        bindE page (\<lambda>sz. Inr (sz * (2 + num_speculative_blocks a)))
      else bindE page (\<lambda>sz. Inr (sz * (1 + num_speculative_blocks a))))"

definition cross_attention_max_memory :: "VllmConfig \<Rightarrow> AttentionSpec \<Rightarrow> int result \<Rightarrow> int result" where
  "cross_attention_max_memory cfg a page =
     bindE (cdivE (max_num_encoder_input_tokens cfg) (block_size a))
       (\<lambda>n. bindE page (\<lambda>sz. Inr (n * sz)))"

definition max_memory_usage_bytes :: "VllmConfig \<Rightarrow> KVCacheSpec \<Rightarrow> int result" where
  "max_memory_usage_bytes cfg spec =
     (let page = page_size_bytes spec in
      case spec of
        FullAttention a \<Rightarrow> full_attention_max_memory cfg (block_size a) page
      | MLAAttention a \<Rightarrow> full_attention_max_memory cfg (block_size a) page
      | SinkFullAttention a \<Rightarrow> full_attention_max_memory cfg (block_size a) page
      | ChunkedLocalAttention a \<Rightarrow> chunked_local_max_memory cfg a page
      | SlidingWindow a \<Rightarrow> sliding_window_max_memory cfg a page
      | Mamba a \<Rightarrow> mamba_max_memory cfg a page
      | EncoderOnlyAttention a \<Rightarrow> Inr 0
      | CrossAttention a \<Rightarrow> cross_attention_max_memory cfg a page)"

subsection \<open>Merging the specs of a group\<close>

text \<open>
  The sets of window sizes are lists without repetitions here; only their number and, for a
  singleton, its element are read.
\<close>

definition merge_window_sizes :: "int list \<Rightarrow> int option result" where
  "merge_window_sizes window_sizes = (case remdups window_sizes of
     [] \<Rightarrow> Inr None
   | [w] \<Rightarrow> Inr (Some w)
   | _ \<Rightarrow> Inl ValueError)"

text \<open>
  The common body of \<^verbatim>\<open>FullAttentionSpec.merge\<close> and \<^verbatim>\<open>SinkFullAttentionSpec.merge\<close>; \<open>fs\<close> are
  the inherited fields of \<open>specs\<close>. The final loop compares the fields of \<open>AttentionSpec\<close>, to
  which \<open>head_size_v\<close> does not belong.
\<close>

definition merge_full :: "KVCacheSpec list \<Rightarrow> FullAttentionSpec result" where
  "merge_full specs =
     assertE (list_all is_full specs)
       (let fs = List.map_filter full_part specs;
            windows = List.map_filter sliding_window fs;
            chunks = List.map_filter attention_chunk_size fs in
        assertE (\<not> list_ex is_mla specs)
          (bindE (merge_window_sizes windows) (\<lambda>window.
           bindE (merge_window_sizes chunks) (\<lambda>chunk.
           let merged = FullAttentionSpec_new (AttentionSpec.truncate (hd fs))
                          (Some (head_size_v (hd fs))) window chunk in
           assertE (list_all (\<lambda>f. AttentionSpec.truncate f = AttentionSpec.truncate merged) fs)
             (assertE (\<not> (window \<noteq> None \<and> chunk \<noteq> None)) (Inr merged))))))"

definition merge_sink :: "SinkFullAttentionSpec \<Rightarrow> KVCacheSpec list \<Rightarrow> SinkFullAttentionSpec result" where
  "merge_sink first specs = bindE (merge_full specs) (\<lambda>merged.
     Inr (FullAttentionSpec.extend merged (SinkFullAttentionSpec.fields (sink_len first))))"

fun mla_cache_dtype :: "KVCacheSpec \<Rightarrow> string option" where
  "mla_cache_dtype (MLAAttention a) = cache_dtype_str a"
| "mla_cache_dtype _ = None"

definition merge_mla :: "MLAAttentionSpec \<Rightarrow> KVCacheSpec list \<Rightarrow> MLAAttentionSpec result" where
  "merge_mla first specs =
     assertE (list_all is_mla specs)
       (case remdups (map mla_cache_dtype specs) of
          [s] \<Rightarrow> Inr (FullAttentionSpec.extend
                      (FullAttentionSpec_new (AttentionSpec.truncate first) None None None)
                      (MLAAttentionSpec.fields s))
        | _ \<Rightarrow> Inl AssertionError)"

text \<open>\<^verbatim>\<open>KVCacheSpec.merge\<close> of the base class, which the other classes inherit.\<close>

definition merge_equal :: "KVCacheSpec \<Rightarrow> KVCacheSpec list \<Rightarrow> KVCacheSpec result" where
  "merge_equal first specs = assertE (list_all (\<lambda>spec. spec = first) (tl specs)) (Inr first)"

text \<open>The call \<^verbatim>\<open>specs[0].merge(specs)\<close>: the class of the first spec decides.\<close>

definition merge :: "KVCacheSpec list \<Rightarrow> KVCacheSpec result" where
  "merge specs = (case specs of
     [] \<Rightarrow> Inl IndexError
   | first # _ \<Rightarrow>
      (case first of
         FullAttention a \<Rightarrow> bindE (merge_full specs) (\<lambda>f. Inr (FullAttention f))
       | SinkFullAttention a \<Rightarrow> bindE (merge_sink a specs) (\<lambda>f. Inr (SinkFullAttention f))
       | MLAAttention a \<Rightarrow> bindE (merge_mla a specs) (\<lambda>f. Inr (MLAAttention f))
       | _ \<Rightarrow> merge_equal first specs))"

subsection \<open>Layers of one type\<close>

text \<open>
  \<^verbatim>\<open>UniformTypeKVCacheSpecs.is_uniform_type\<close>: \<open>next(iter(...))\<close> raises on an empty dictionary.
\<close>

definition same_type :: "KVCacheSpec \<Rightarrow> KVCacheSpec \<Rightarrow> bool" where
  "same_type one spec = (case (one, spec) of
     (CrossAttention _, CrossAttention _) \<Rightarrow> True
   | (SlidingWindow a, SlidingWindow b) \<Rightarrow> window_size b = window_size a
   | (ChunkedLocalAttention a, ChunkedLocalAttention b) \<Rightarrow> local_chunk_size b = local_chunk_size a
   | (Mamba a, Mamba b) \<Rightarrow> num_speculative_blocks b = num_speculative_blocks a
   | _ \<Rightarrow> is_full one \<and> is_full spec)"

fun is_encoder_only :: "KVCacheSpec \<Rightarrow> bool" where
  "is_encoder_only (EncoderOnlyAttention _) = True"
| "is_encoder_only _ = False"

definition is_uniform_type :: "(string, KVCacheSpec) odict \<Rightarrow> bool result" where
  "is_uniform_type specs =
     (if length (remdups (map (spec_block_size \<circ> snd) specs)) > 1 then Inr False
      else case specs of
        [] \<Rightarrow> Inl StopIteration
      | (_, one_spec) # _ \<Rightarrow>
          if is_encoder_only one_spec then Inl NotImplementedError
          else Inr (list_all (\<lambda>(_, spec). same_type one_spec spec) specs))"

definition from_specs :: "(string, KVCacheSpec) odict \<Rightarrow> UniformTypeKVCacheSpecs option result" where
  "from_specs specs = bindE (is_uniform_type specs) (\<lambda>uniform.
     if uniform then
       (case specs of
          [] \<Rightarrow> Inl StopIteration
        | (_, spec) # _ \<Rightarrow>
            Inr (Some \<lparr>uniform_block_size = spec_block_size spec, kv_cache_specs = specs\<rparr>))
     else Inr None)"

definition uniform_page_size_bytes :: "UniformTypeKVCacheSpecs \<Rightarrow> int result" where
  "uniform_page_size_bytes u =
     bindE (mapE page_size_bytes (map snd (kv_cache_specs u))) (\<lambda>sizes. Inr (sum_list sizes))"

definition max_num_pages :: "VllmConfig \<Rightarrow> KVCacheSpec \<Rightarrow> int result" where
  "max_num_pages cfg spec = bindE (max_memory_usage_bytes cfg spec) (\<lambda>mem.
     bindE (page_size_bytes spec) (\<lambda>page. cdivE mem page))"

definition maxE :: "int list \<Rightarrow> int result" where
  "maxE xs = (if xs = [] then Inl ValueError else Inr (Max (set xs)))"

definition uniform_max_memory_usage_bytes :: "VllmConfig \<Rightarrow> UniformTypeKVCacheSpecs \<Rightarrow> int result" where
  "uniform_max_memory_usage_bytes cfg u =
     bindE (mapE (max_num_pages cfg) (map snd (kv_cache_specs u))) (\<lambda>pages.
     bindE (maxE pages) (\<lambda>n.
     bindE (uniform_page_size_bytes u) (\<lambda>page. Inr (n * page))))"

subsection \<open>Groups\<close>

primrec group_page_size_bytes :: "GroupSpec \<Rightarrow> int result" where
  "group_page_size_bytes (LayerSpec spec) = page_size_bytes spec"
| "group_page_size_bytes (UniformTypes u) = uniform_page_size_bytes u"

primrec group_max_memory_usage_bytes :: "VllmConfig \<Rightarrow> GroupSpec \<Rightarrow> int result" where
  "group_max_memory_usage_bytes cfg (LayerSpec spec) = max_memory_usage_bytes cfg spec"
| "group_max_memory_usage_bytes cfg (UniformTypes u) = uniform_max_memory_usage_bytes cfg u"

primrec group_block_size :: "GroupSpec \<Rightarrow> int" where
  "group_block_size (LayerSpec spec) = spec_block_size spec"
| "group_block_size (UniformTypes u) = uniform_block_size u"

record KVCacheTensor =
  size_bytes :: int
  shared_by :: "string list"

record KVCacheGroupSpec =
  layer_names :: "string list"
  kv_cache_spec :: GroupSpec

record KVCacheConfig =
  num_blocks :: int
  kv_cache_tensors :: "KVCacheTensor list"
  kv_cache_groups :: "KVCacheGroupSpec list"

subsection \<open>Well-formed specs\<close>

text \<open>
  The specs a model runner builds: positive block size and a positive page size that respects
  the padding; a sliding window only without decode context parallelism.
\<close>

definition wf_spec :: "KVCacheSpec \<Rightarrow> bool" where
  "wf_spec spec \<longleftrightarrow> spec_block_size spec > 0
     \<and> (case page_size_bytes spec of Inr page \<Rightarrow> page > 0 | Inl _ \<Rightarrow> False)"

definition serves :: "VllmConfig \<Rightarrow> KVCacheSpec \<Rightarrow> bool" where
  "serves cfg spec \<longleftrightarrow> wf_spec spec
     \<and> (case spec of SlidingWindow _ \<Rightarrow> decode_context_parallel_size cfg = 1 | _ \<Rightarrow> True)"

lemma wf_specE:
  assumes "wf_spec spec"
  obtains page where "page_size_bytes spec = Inr page" "page > 0" "spec_block_size spec > 0"
  using assms by (auto simp: wf_spec_def split: sum.splits)

lemma spec_block_size_simps [simp]:
  "spec_block_size (FullAttention f) = block_size f"
  "spec_block_size (MLAAttention m) = block_size m"
  "spec_block_size (SinkFullAttention s) = block_size s"
  "spec_block_size (ChunkedLocalAttention c) = block_size c"
  "spec_block_size (SlidingWindow w) = block_size w"
  "spec_block_size (Mamba b) = mamba_block_size b"
  "spec_block_size (EncoderOnlyAttention a) = block_size a"
  "spec_block_size (CrossAttention a) = block_size a"
  by (simp_all add: spec_block_size_def)

text \<open>The number of pages of a request, for a page of known size.\<close>

definition pages_needed :: "VllmConfig \<Rightarrow> KVCacheSpec \<Rightarrow> int" where
  "pages_needed cfg spec =
     (let len = max_model_len cfg; batch = max_num_batched_tokens cfg;
          cp = decode_context_parallel_size cfg * prefill_context_parallel_size cfg;
          local = (if cp > 1 then cdiv len cp else len) in
      case spec of
        FullAttention a \<Rightarrow> cdiv local (block_size a)
      | MLAAttention a \<Rightarrow> cdiv local (block_size a)
      | SinkFullAttention a \<Rightarrow> cdiv local (block_size a)
      | ChunkedLocalAttention a \<Rightarrow> cdiv (min (local_chunk_size a + batch) len) (block_size a)
      | SlidingWindow a \<Rightarrow> cdiv (min (window_size a - 1 + batch) len) (block_size a) + 1
      | Mamba a \<Rightarrow>
          (if mamba_cache_mode cfg = ''all'' then cdiv len (mamba_block_size a)
           else if mamba_cache_mode cfg = ''align'' then 2 + num_speculative_blocks a
           else 1 + num_speculative_blocks a)
      | EncoderOnlyAttention a \<Rightarrow> 0
      | CrossAttention a \<Rightarrow> cdiv (max_num_encoder_input_tokens cfg) (block_size a))"

lemmas max_memory_defs = full_attention_max_memory_def chunked_local_max_memory_def
  sliding_window_max_memory_def mamba_max_memory_def cross_attention_max_memory_def

text \<open>The memory of a request is always a whole number of pages.\<close>

lemma max_memory_is_pages:
  assumes "serves cfg spec" and "page_size_bytes spec = Inr page"
  shows "max_memory_usage_bytes cfg spec = Inr (pages_needed cfg spec * page)"
proof -
  have bs: "spec_block_size spec \<noteq> 0" using assms(1) by (auto simp: serves_def wf_spec_def)
  show ?thesis
    using assms bs
    by (cases spec) (simp_all add: serves_def max_memory_usage_bytes_def max_memory_defs
        pages_needed_def Let_def mult.commute)
qed

lemma max_num_pages_eq:
  assumes "serves cfg spec"
  shows "max_num_pages cfg spec = Inr (pages_needed cfg spec)"
proof -
  obtain page where page: "page_size_bytes spec = Inr page" "page > 0"
    using assms by (auto simp: serves_def elim: wf_specE)
  then show ?thesis by (simp add: max_num_pages_def max_memory_is_pages [OF assms])
qed

lemma pages_needed_mono:
  assumes "serves cfg spec" and "max_model_len cfg \<le> l"
  shows "pages_needed cfg spec \<le> pages_needed (cfg\<lparr>max_model_len := l\<rparr>) spec"
proof -
  have bs: "spec_block_size spec > 0" using assms(1) by (auto simp: serves_def wf_spec_def)
  have cdiv_min: "cdiv (min a (max_model_len cfg)) b \<le> cdiv (min a l) b" if "0 < b" for a b
    using that assms(2) by (intro cdiv_mono) auto
  show ?thesis
    using bs assms(2) cdiv_min
    by (cases spec) (simp_all add: pages_needed_def Let_def cdiv_mono)
qed

lemma serves_len [simp]: "serves (cfg\<lparr>max_model_len := l\<rparr>) spec = serves cfg spec"
  by (simp add: serves_def split: KVCacheSpec.split)

text \<open>The memory of a request as a monotone function of the model length.\<close>

lemma max_memory_monotone:
  assumes "serves cfg spec"
  shows "\<exists>g. mono g \<and> (\<forall>l. max_memory_usage_bytes (cfg\<lparr>max_model_len := l\<rparr>) spec = Inr (g l))"
proof -
  obtain page where page: "page_size_bytes spec = Inr page" "page > 0"
    using assms by (auto simp: serves_def elim: wf_specE)
  let ?g = "\<lambda>l. pages_needed (cfg\<lparr>max_model_len := l\<rparr>) spec * page"
  have "pages_needed (cfg\<lparr>max_model_len := k\<rparr>) spec \<le> pages_needed (cfg\<lparr>max_model_len := l\<rparr>) spec"
    if "k \<le> l" for k l
    using pages_needed_mono [of "cfg\<lparr>max_model_len := k\<rparr>" spec l] assms that by simp
  then have "mono ?g" using page(2) by (auto intro!: monoI mult_right_mono)
  then show ?thesis
    using max_memory_is_pages [OF _ page(1)] assms by (intro exI [of _ ?g]) simp
qed

subsection \<open>Scaling the block size\<close>

lemma copy_block_size [simp]: "spec_block_size (copy_with_new_block_size spec n) = n"
  by (cases spec) (simp_all add: copy_with_new_block_size_def)

lemma copy_padded: "spec_padded (copy_with_new_block_size spec n) = spec_padded spec"
  by (cases spec) (simp_all add: copy_with_new_block_size_def spec_padded_def attention_part_def
      AttentionSpec.defs)

fun is_mamba :: "KVCacheSpec \<Rightarrow> bool" where
  "is_mamba (Mamba _) = True"
| "is_mamba _ = False"

lemma copy_real_page_size:
  "real_page_size_bytes (copy_with_new_block_size spec (spec_block_size spec * r)) =
     (if is_mamba spec then real_page_size_bytes spec else real_page_size_bytes spec * r)"
  by (cases spec) (simp_all add: copy_with_new_block_size_def real_page_size_bytes_def
      full_attention_page_size_def attention_page_size_def mla_page_size_def mamba_page_size_def)

text \<open>
  Multiplying the block size multiplies the page of an unpadded attention layer and has no
  effect on the page of a state-space or padded layer, unless the padding becomes too small.
\<close>

lemma copy_page_size:
  assumes "page_size_bytes spec = Inr page"
  shows "page_size_bytes (copy_with_new_block_size spec (spec_block_size spec * r)) =
    (case spec_padded spec of
       None \<Rightarrow> Inr (if is_mamba spec then page else page * r)
     | Some p \<Rightarrow> assertE (is_mamba spec \<or> p \<ge> real_page_size_bytes spec * r) (Inr page))"
  using assms
  by (auto simp: page_size_bytes_def Let_def copy_padded copy_real_page_size assertE_def
      split: option.splits if_splits)

subsection \<open>What a merge checks\<close>

lemma full_part_attention: "full_part spec = Some f \<Longrightarrow> attention_part spec = Some (AttentionSpec.truncate f)"
  by (cases spec) (auto simp: full_part_def attention_part_def FullAttentionSpec.defs
      AttentionSpec.defs)

lemma full_part_page_size:
  assumes "full_part spec = Some f" and "\<not> is_mla spec"
  shows "real_page_size_bytes spec = full_attention_page_size f"
    and "spec_padded spec = page_size_padded f"
  using assms
  by (cases spec; auto simp: full_part_def real_page_size_bytes_def spec_padded_def
      attention_part_def full_attention_page_size_def FullAttentionSpec.defs AttentionSpec.defs)+

lemma merge_full_Inr:
  assumes "merge_full (first # rest) = Inr m"
  shows "\<forall>spec \<in> set (first # rest). \<exists>f. full_part spec = Some f \<and> \<not> is_mla spec
           \<and> AttentionSpec.truncate f = AttentionSpec.truncate m"
    and "\<forall>f. full_part first = Some f \<longrightarrow> head_size_v m = head_size_v f"
proof -
  let ?specs = "first # rest"
  let ?fs = "List.map_filter full_part ?specs"
  have full: "list_all is_full ?specs" and no_mla: "\<not> list_ex is_mla ?specs"
    using assms by (auto simp: merge_full_def Let_def)
  from assms obtain window chunk where
    m: "m = FullAttentionSpec_new (AttentionSpec.truncate (hd ?fs)) (Some (head_size_v (hd ?fs))) window chunk"
    and same: "list_all (\<lambda>f. AttentionSpec.truncate f = AttentionSpec.truncate m) ?fs"
    unfolding merge_full_def Let_def by (auto simp: bindE_Inr_iff)
  show "\<forall>spec \<in> set ?specs. \<exists>f. full_part spec = Some f \<and> \<not> is_mla spec
          \<and> AttentionSpec.truncate f = AttentionSpec.truncate m"
  proof
    fix spec assume spec: "spec \<in> set ?specs"
    with full obtain f where f: "full_part spec = Some f" by (auto simp: is_full_def list_all_iff)
    with spec have "f \<in> set ?fs" by (force simp: List.map_filter_def)
    with same f spec no_mla show "\<exists>f. full_part spec = Some f \<and> \<not> is_mla spec
          \<and> AttentionSpec.truncate f = AttentionSpec.truncate m"
      by (auto simp: list_all_iff list_ex_iff)
  qed
  show "\<forall>f. full_part first = Some f \<longrightarrow> head_size_v m = head_size_v f"
    using m by (auto simp: List.map_filter_def FullAttentionSpec_new_def AttentionSpec.defs
        FullAttentionSpec.defs)
qed

text \<open>A merged spec other than MLA agrees with every layer in the fields of \<open>AttentionSpec\<close>.\<close>

lemma merge_attention_part:
  assumes "merge specs = Inr m" and "\<not> is_mla m" and "spec \<in> set specs"
  shows "attention_part spec = attention_part m \<and> (is_full m \<or> spec = m) \<and> \<not> is_mla spec"
proof -
  obtain first rest where specs: "specs = first # rest"
    using assms(3) by (cases specs) auto
  consider
      (full) a f where "first = FullAttention a" "merge_full specs = Inr f" "m = FullAttention f"
    | (sink) a f where "first = SinkFullAttention a" "merge_full specs = Inr f"
        "m = SinkFullAttention (FullAttentionSpec.extend f (SinkFullAttentionSpec.fields (sink_len a)))"
    | (equal) "\<forall>spec \<in> set specs. spec = m" "\<not> is_full m" "\<not> is_mla m"
    using assms(1,2) specs
    by (cases first)
      (auto simp: merge_def merge_equal_def merge_sink_def bindE_Inr_iff list_all_iff is_full_def
        full_part_def)
  then show ?thesis
  proof cases
    case full
    with merge_full_Inr(1) [of first rest f] specs assms(3)
    obtain g where g: "full_part spec = Some g" "\<not> is_mla spec"
      "AttentionSpec.truncate g = AttentionSpec.truncate f" by auto
    with full(3) full_part_attention [OF g(1)] show ?thesis
      by (simp add: attention_part_def is_full_def full_part_def)
  next
    case sink
    with merge_full_Inr(1) [of first rest f] specs assms(3)
    obtain g where g: "full_part spec = Some g" "\<not> is_mla spec"
      "AttentionSpec.truncate g = AttentionSpec.truncate f" by auto
    with sink(3) full_part_attention [OF g(1)] show ?thesis
      by (simp add: attention_part_def is_full_def full_part_def AttentionSpec.defs
          FullAttentionSpec.defs SinkFullAttentionSpec.defs)
  next
    case equal
    with assms(3) show ?thesis by auto
  qed
qed

lemma full_page_size_eq_iff:
  assumes "full_part spec = Some f" and "full_part m = Some g" and "\<not> is_mla spec" and "\<not> is_mla m"
    and "attention_part spec = attention_part m" and "page_size_padded g = None"
    and "block_size g * num_kv_heads g * element_size (dtype g) \<noteq> 0"
  shows "page_size_bytes spec = page_size_bytes m \<longleftrightarrow> head_size_v f = head_size_v g"
proof -
  have "AttentionSpec.truncate f = AttentionSpec.truncate g"
    using assms(1,2,5) full_part_attention by (metis option.inject)
  then have same: "block_size f = block_size g" "num_kv_heads f = num_kv_heads g"
    "head_size f = head_size g" "dtype f = dtype g" "page_size_padded f = page_size_padded g"
    by (simp_all add: AttentionSpec.defs)
  show ?thesis
    using same assms(6,7) full_part_page_size [OF assms(1,3)] full_part_page_size [OF assms(2,4)]
    by (simp add: page_size_bytes_def full_attention_page_size_def)
qed

lemma merge_mla_iff:
  "(\<exists>m. merge (MLAAttention a # rest) = Inr m) \<longleftrightarrow>
     (\<forall>spec \<in> set rest. \<exists>b. spec = MLAAttention b \<and> cache_dtype_str b = cache_dtype_str a)"
proof -
  have mla: "is_mla spec \<longleftrightarrow> (\<exists>b. spec = MLAAttention b)" for spec by (cases spec) auto
  have single: "(\<exists>s. remdups (x # xs) = [s]) \<longleftrightarrow> (\<forall>y \<in> set xs. y = x)" for x :: "string option" and xs
  proof
    assume "\<exists>s. remdups (x # xs) = [s]"
    then obtain s where "set (x # xs) = {s}" by (metis list.simps(15) set_empty set_remdups)
    then show "\<forall>y \<in> set xs. y = x" by auto
  next
    assume "\<forall>y \<in> set xs. y = x"
    then show "\<exists>s. remdups (x # xs) = [s]" by (induction xs) auto
  qed
  have ex: "(\<exists>m. merge_mla a (MLAAttention a # rest) = Inr m) \<longleftrightarrow>
      list_all is_mla rest \<and> (\<exists>s. remdups (cache_dtype_str a # map mla_cache_dtype rest) = [s])"
    by (auto simp: merge_mla_def assertE_def split: list.split)
  show ?thesis
    unfolding merge_def list.case KVCacheSpec.case
    using ex single [of "cache_dtype_str a" "map mla_cache_dtype rest"]
    by (auto simp: bindE_Inr_iff list_all_iff mla) fastforce+
qed

text \<open>
  What \<^verbatim>\<open>merge\<close> guarantees. A merged spec that is not MLA agrees with every layer in block
  size, KV heads, head size, dtype and padding; for classes other than full attention it equals every
  layer. The head size of the values is not compared: for unpadded full attention layers the
  page size of the merged spec is right for a layer exactly when the value head sizes happen to agree.
  The MLA merge compares nothing but the quantisation name: MLA layers merge exactly when they
  share that name, whatever their block, head and page sizes are.
\<close>

theorem merge_keeps_layout:
  "(merge specs = Inr m \<and> \<not> is_mla m \<and> spec \<in> set specs \<longrightarrow>
      attention_part spec = attention_part m \<and> (is_full m \<or> spec = m)
      \<and> (\<forall>f g. full_part spec = Some f \<and> full_part m = Some g \<and> page_size_padded g = None
            \<and> block_size g * num_kv_heads g * element_size (dtype g) \<noteq> 0 \<longrightarrow>
           (page_size_bytes spec = page_size_bytes m \<longleftrightarrow> head_size_v f = head_size_v g)))
   \<and> ((\<exists>m. merge (MLAAttention a # rest) = Inr m) \<longleftrightarrow>
        (\<forall>spec \<in> set rest. \<exists>b. spec = MLAAttention b \<and> cache_dtype_str b = cache_dtype_str a))"
  using merge_attention_part [of specs m spec] full_page_size_eq_iff [of spec _ m] merge_mla_iff
  by (intro conjI impI allI) (blast | simp)+

definition bf16 :: torch_dtype where
  "bf16 = \<lparr>dtype_name = ''bfloat16'', element_size = 2\<rparr>"

definition full_example :: "int \<Rightarrow> FullAttentionSpec" where
  "full_example v = \<lparr>block_size = 16, num_kv_heads = 8, head_size = 64, dtype = bf16,
     page_size_padded = None, head_size_v = v, sliding_window = None, attention_chunk_size = None\<rparr>"

definition mla_example :: "int \<Rightarrow> MLAAttentionSpec" where
  "mla_example h = \<lparr>block_size = 16, num_kv_heads = 1, head_size = h, dtype = bf16,
     page_size_padded = None, head_size_v = h, sliding_window = None, attention_chunk_size = None,
     cache_dtype_str = None\<rparr>"

lemmas spec_examples = bf16_def full_example_def mla_example_def
lemmas spec_eval = merge_def merge_full_def merge_mla_def merge_equal_def merge_window_sizes_def
  is_full_def full_part_def attention_part_def page_size_bytes_def real_page_size_bytes_def
  spec_padded_def FullAttentionSpec_new_def AttentionSpec.defs FullAttentionSpec.defs
  MLAAttentionSpec.defs List.map_filter_def full_attention_page_size_def attention_page_size_def
  mla_page_size_def Let_def

theorem merge_keeps_layout_witness:
  "merge [FullAttention (full_example 64), FullAttention (full_example 32)] =
     Inr (FullAttention (full_example 64))
   \<and> page_size_bytes (FullAttention (full_example 32)) \<noteq> page_size_bytes (FullAttention (full_example 64))
   \<and> (\<exists>m. merge [MLAAttention (mla_example 576), MLAAttention (mla_example 128)] = Inr m)"
proof -
  have merged: "merge [FullAttention (full_example 64), FullAttention (full_example 32)] =
      Inr (FullAttention (full_example 64))"
    by (simp add: spec_examples spec_eval)
  show ?thesis
    using merged merge_keeps_layout [of "[FullAttention (full_example 64), FullAttention (full_example 32)]"
        "FullAttention (full_example 64)" "FullAttention (full_example 32)"
        "mla_example 576" "[MLAAttention (mla_example 128)]"]
    by (simp add: full_part_def is_full_def) (simp add: spec_examples)
qed

end
