(* ===== verification/Kv_Cache_Config.thy ===== *)
theory Kv_Cache_Config
  imports Complex_Main Kv_Cache_Spec
begin

section \<open>Groups, memory checks and cache configurations\<close>

text \<open>
  The second half of \<^verbatim>\<open>vllm/v1/core/kv_cache_utils.py\<close>: how the specs of all layers of all workers
  become cache groups, how the longest servable context is searched, how many blocks fit, and
  the configuration every worker gets. A dictionary from layer names to specs is an ordered
  dictionary. The configuration object is passed as a value: the searches set
  \<open>max_model_len\<close> only on the copy they evaluate, as the \<open>finally\<close> clause of the source restores it,
  and \<open>auto_fit_max_model_len\<close> returns the changed configuration. Log output is left out; what the
  report computes (and may raise) is kept. The float \<open>1.25 * n\<close> is compared exactly,
  and the concurrency is a rational number.
\<close>

type_synonym layer_specs = "(string, KVCacheSpec) odict"

definition minE :: "int list \<Rightarrow> int result" where
  "minE xs = (if xs = [] then Inl ValueError else Inr (Min (set xs)))"

subsection \<open>Searching the longest context\<close>

text \<open>The loop of both estimates, for a test that may raise.\<close>

function search_loop :: "(int \<Rightarrow> bool result) \<Rightarrow> int \<Rightarrow> int \<Rightarrow> int \<Rightarrow> int result" where
  "search_loop fits left right res =
     (if left \<le> right then
        (let mid = (left + right) div 2 in
         bindE (fits mid) (\<lambda>ok.
           if ok then search_loop fits (mid + 1) right mid
           else search_loop fits left (mid - 1) res))
      else Inr res)"
  by pat_completeness auto
termination
  by (relation "measure (\<lambda>(_, left, right, _). nat (right - left + 1))") auto

declare search_loop.simps [simp del]

text \<open>\<^verbatim>\<open>fits_in_memory\<close> and \<^verbatim>\<open>fits\<close>: the need at a model length against the memory.\<close>

definition fits_in_memory :: "(VllmConfig \<Rightarrow> int result) \<Rightarrow> VllmConfig \<Rightarrow> int \<Rightarrow> int \<Rightarrow> bool result" where
  "fits_in_memory usage cfg available model_len =
     bindE (usage (cfg\<lparr>max_model_len := model_len\<rparr>)) (\<lambda>needed. Inr (needed \<le> available))"

definition search_max_len :: "(VllmConfig \<Rightarrow> int result) \<Rightarrow> VllmConfig \<Rightarrow> int \<Rightarrow> int result" where
  "search_max_len usage cfg available =
     (let fits = fits_in_memory usage cfg available in
      bindE (fits 1) (\<lambda>ok. if ok then search_loop fits 1 (max_model_len cfg) 1 else Inr 0))"

definition total_max_memory_usage_bytes :: "VllmConfig \<Rightarrow> KVCacheSpec list \<Rightarrow> int result" where
  "total_max_memory_usage_bytes cfg specs =
     bindE (mapE (max_memory_usage_bytes cfg) specs) (\<lambda>sizes. Inr (sum_list sizes))"

definition estimate_max_model_len :: "VllmConfig \<Rightarrow> layer_specs \<Rightarrow> int \<Rightarrow> int result" where
  "estimate_max_model_len cfg specs available =
     search_max_len (\<lambda>c. total_max_memory_usage_bytes c (map snd specs)) cfg available"

definition check_enough_memory :: "int \<Rightarrow> int result \<Rightarrow> (int \<Rightarrow> int result) \<Rightarrow> unit result" where
  "check_enough_memory available needed estimate =
     (if available \<le> 0 then Inl ValueError
      else bindE needed (\<lambda>n.
        if n > available then bindE (estimate available) (\<lambda>_. Inl ValueError) else Inr ()))"

definition check_enough_kv_cache_memory :: "VllmConfig \<Rightarrow> layer_specs \<Rightarrow> int \<Rightarrow> unit result" where
  "check_enough_kv_cache_memory cfg specs available =
     (if specs \<noteq> [] then
        check_enough_memory available (total_max_memory_usage_bytes cfg (map snd specs))
          (estimate_max_model_len cfg specs)
      else Inr ())"

subsection \<open>Groups of layers\<close>

definition create_group_spec :: "layer_specs \<Rightarrow> string list \<Rightarrow> KVCacheGroupSpec result" where
  "create_group_spec specs names =
     bindE (mapE (\<lambda>n. of_option KeyError (map_of specs n)) names) (\<lambda>layers.
     bindE (merge layers) (\<lambda>merged.
     Inr \<lparr>layer_names = names, kv_cache_spec = LayerSpec merged\<rparr>))"

definition create_kv_cache_group_specs ::
    "layer_specs \<Rightarrow> string list list \<Rightarrow> KVCacheGroupSpec list result" where
  "create_kv_cache_group_specs specs grouped = mapE (create_group_spec specs) grouped"

text \<open>Only an \<open>AssertionError\<close> of the merge is caught.\<close>

definition is_kv_cache_spec_uniform :: "layer_specs \<Rightarrow> bool result" where
  "is_kv_cache_spec_uniform specs =
     (if specs = [] then Inr True
      else case merge (map snd specs) of
        Inr _ \<Rightarrow> Inr True
      | Inl e \<Rightarrow> if e = AssertionError then Inr False else Inl e)"

definition get_kv_cache_groups_uniform_spec :: "layer_specs \<Rightarrow> KVCacheGroupSpec list result" where
  "get_kv_cache_groups_uniform_spec specs = create_kv_cache_group_specs specs [map fst specs]"

definition get_kv_cache_groups_uniform_type :: "UniformTypeKVCacheSpecs \<Rightarrow> KVCacheGroupSpec list" where
  "get_kv_cache_groups_uniform_type u =
     [\<lparr>layer_names = map fst (kv_cache_specs u), kv_cache_spec = UniformTypes u\<rparr>]"

definition is_kv_cache_page_size_uniform :: "layer_specs \<Rightarrow> bool result" where
  "is_kv_cache_page_size_uniform specs =
     bindE (mapE (page_size_bytes \<circ> snd) specs) (\<lambda>sizes. Inr (length (remdups sizes) = 1))"

definition unify_layer :: "int \<Rightarrow> string \<times> KVCacheSpec \<Rightarrow> (string \<times> KVCacheSpec) result" where
  "unify_layer max_page_size = (\<lambda>(layer_name, layer_spec).
     bindE (page_size_bytes layer_spec) (\<lambda>layer_page_size.
     if layer_page_size = max_page_size then Inr (layer_name, layer_spec)
     else if layer_page_size = 0 then Inl ZeroDivisionError
     else if max_page_size mod layer_page_size \<noteq> 0 then Inl NotImplementedError
     else
       (let ratio = max_page_size div layer_page_size;
            new_spec = copy_with_new_block_size layer_spec (spec_block_size layer_spec * ratio) in
        bindE (page_size_bytes new_spec) (\<lambda>new_page_size.
        assertE (new_page_size = max_page_size) (Inr (layer_name, new_spec))))))"

definition unify_kv_cache_spec_page_size :: "layer_specs \<Rightarrow> layer_specs result" where
  "unify_kv_cache_spec_page_size specs =
     bindE (mapE (page_size_bytes \<circ> snd) specs) (\<lambda>sizes.
     if length (remdups sizes) \<le> 1 then Inr specs
     else bindE (maxE sizes) (\<lambda>max_page_size. mapE (unify_layer max_page_size) specs))"

definition is_kv_cache_type_attention_free :: "layer_specs \<Rightarrow> bool" where
  "is_kv_cache_type_attention_free specs \<longleftrightarrow> specs = []"

text \<open>\<^verbatim>\<open>same_type_layers[layer_spec].append(layer_name)\<close> on a \<open>defaultdict(list)\<close>.\<close>

definition same_type_layers :: "layer_specs \<Rightarrow> (KVCacheSpec, string list) odict" where
  "same_type_layers specs =
     fold (\<lambda>(name, spec). AList.map_default spec [name] (\<lambda>names. names @ [name])) specs []"

text \<open>\<^verbatim>\<open>layers[i::n]\<close>.\<close>

definition stride :: "'a list \<Rightarrow> nat \<Rightarrow> nat \<Rightarrow> 'a list" where
  "stride xs i n = map ((!) xs) (filter (\<lambda>j. i \<le> j \<and> (j - i) mod n = 0) [0..<length xs])"

definition hybrid_group_size :: "int list \<Rightarrow> int result" where
  "hybrid_group_size counts =
     bindE (minE counts) (\<lambda>min_num_layers.
     bindE (maxE counts) (\<lambda>max_num_layers.
     Inr (if 4 * max_num_layers < 5 * min_num_layers then max_num_layers else min_num_layers)))"

definition split_layers :: "int \<Rightarrow> string list \<Rightarrow> string list list" where
  "split_layers group_size layers =
     (let num_groups = nat (cdiv (int (length layers)) group_size) in
      map (\<lambda>i. stride layers i num_groups) [0..<num_groups])"

definition get_kv_cache_groups_uniform_page_size :: "layer_specs \<Rightarrow> KVCacheGroupSpec list result" where
  "get_kv_cache_groups_uniform_page_size specs =
     (let layers = map snd (same_type_layers specs) in
      bindE (hybrid_group_size (map (int \<circ> length) layers)) (\<lambda>group_size.
      create_kv_cache_group_specs specs (concat (map (split_layers group_size) layers))))"

fun to_full_attention :: "KVCacheSpec \<Rightarrow> KVCacheSpec" where
  "to_full_attention (SlidingWindow a) = FullAttention
     (FullAttentionSpec_new (AttentionSpec.truncate a) None (Some (window_size a)) None)"
| "to_full_attention (ChunkedLocalAttention a) = FullAttention
     (FullAttentionSpec_new (AttentionSpec.truncate a) None None (Some (local_chunk_size a)))"
| "to_full_attention spec = spec"

fun is_sliding_or_chunked :: "KVCacheSpec \<Rightarrow> bool" where
  "is_sliding_or_chunked (SlidingWindow _) = True"
| "is_sliding_or_chunked (ChunkedLocalAttention _) = True"
| "is_sliding_or_chunked _ = False"

text \<open>\<^verbatim>\<open>is_kv_cache_spec_uniform(..) or UniformTypeKVCacheSpecs.is_uniform_type(..)\<close>, short-circuit.\<close>

definition one_type :: "layer_specs \<Rightarrow> bool result" where
  "one_type specs =
     bindE (is_kv_cache_spec_uniform specs) (\<lambda>u. if u then Inr True else is_uniform_type specs)"

definition unify_hybrid_kv_cache_specs :: "layer_specs \<Rightarrow> layer_specs result" where
  "unify_hybrid_kv_cache_specs specs =
     bindE (one_type specs) (\<lambda>uniform.
     if uniform then Inr specs
     else
       (let has_full = list_ex (is_full \<circ> snd) specs;
            has_other = list_ex (is_sliding_or_chunked \<circ> snd) specs;
            specs' = (if has_full \<and> has_other
                      then map (\<lambda>(n, spec). (n, to_full_attention spec)) specs else specs) in
        bindE (one_type specs') (\<lambda>uniform'.
        if uniform' then Inr specs' else Inl ValueError)))"

definition get_kv_cache_groups :: "VllmConfig \<Rightarrow> layer_specs \<Rightarrow> KVCacheGroupSpec list result" where
  "get_kv_cache_groups cfg specs0 =
     bindE (if disable_hybrid_kv_cache_manager cfg then unify_hybrid_kv_cache_specs specs0
            else Inr specs0) (\<lambda>specs.
     if is_kv_cache_type_attention_free specs then Inr []
     else bindE (is_kv_cache_spec_uniform specs) (\<lambda>uniform.
       if uniform then get_kv_cache_groups_uniform_spec specs
       else bindE (from_specs specs) (\<lambda>uniform_spec. case uniform_spec of
          Some u \<Rightarrow> Inr (get_kv_cache_groups_uniform_type u)
        | None \<Rightarrow> bindE (unify_kv_cache_spec_page_size specs) get_kv_cache_groups_uniform_page_size)))"

subsection \<open>Blocks and tensors\<close>

definition may_override_num_blocks :: "VllmConfig \<Rightarrow> int \<Rightarrow> int" where
  "may_override_num_blocks cfg n =
     (case num_gpu_blocks_override cfg of Some k \<Rightarrow> k | None \<Rightarrow> n)"

definition get_num_blocks :: "VllmConfig \<Rightarrow> int \<Rightarrow> int \<Rightarrow> int \<Rightarrow> int result" where
  "get_num_blocks cfg num_layers available page_size =
     bindE (floordivE available page_size) (\<lambda>q.
     bindE (floordivE q num_layers) (\<lambda>n. Inr (may_override_num_blocks cfg (max n 0))))"

definition get_uniform_page_size :: "GroupSpec list \<Rightarrow> int result" where
  "get_uniform_page_size specs =
     bindE (mapE group_page_size_bytes specs) (\<lambda>sizes.
     case remdups sizes of [page] \<Rightarrow> Inr page | _ \<Rightarrow> Inl AssertionError)"

definition max_group_len :: "KVCacheGroupSpec list \<Rightarrow> int result" where
  "max_group_len groups = maxE (map (int \<circ> length \<circ> layer_names) groups)"

text \<open>The special case of the source: one group that carries a spec per layer.\<close>

definition uniform_types_group :: "KVCacheGroupSpec list \<Rightarrow> UniformTypeKVCacheSpecs option" where
  "uniform_types_group groups = (case groups of
     [grp] \<Rightarrow> (case kv_cache_spec grp of UniformTypes u \<Rightarrow> Some u | LayerSpec _ \<Rightarrow> None)
   | _ \<Rightarrow> None)"

text \<open>One tensor per position in the groups, shared by one layer of each group.\<close>

definition pool_layers :: "KVCacheGroupSpec list \<Rightarrow> nat \<Rightarrow> string list" where
  "pool_layers groups i =
     map (\<lambda>grp. layer_names grp ! i) (filter (\<lambda>grp. i < length (layer_names grp)) groups)"

definition get_kv_cache_config_from_groups ::
    "VllmConfig \<Rightarrow> KVCacheGroupSpec list \<Rightarrow> int \<Rightarrow> KVCacheConfig result" where
  "get_kv_cache_config_from_groups cfg groups available =
     (if groups = [] then Inr \<lparr>num_blocks = 1, kv_cache_tensors = [], kv_cache_groups = groups\<rparr>
      else case uniform_types_group groups of
        Some u \<Rightarrow>
          bindE (uniform_page_size_bytes u) (\<lambda>page.
          bindE (floordivE available page) (\<lambda>fit.
          let n = may_override_num_blocks cfg fit in
          bindE (mapE (\<lambda>name.
              bindE (of_option KeyError (map_of (kv_cache_specs u) name)) (\<lambda>spec.
              bindE (page_size_bytes spec) (\<lambda>sz.
              Inr \<lparr>size_bytes = sz * n, shared_by = [name]\<rparr>))) (layer_names (hd groups))) (\<lambda>tensors.
          Inr \<lparr>num_blocks = n, kv_cache_tensors = tensors, kv_cache_groups = groups\<rparr>)))
      | None \<Rightarrow>
          bindE (max_group_len groups) (\<lambda>group_size.
          bindE (get_uniform_page_size (map kv_cache_spec groups)) (\<lambda>page.
          assertE (group_size > 0)
            (bindE (get_num_blocks cfg group_size available page) (\<lambda>n.
             Inr \<lparr>num_blocks = n,
                  kv_cache_tensors =
                    map (\<lambda>i. \<lparr>size_bytes = page * n, shared_by = pool_layers groups i\<rparr>)
                      [0..<nat group_size],
                  kv_cache_groups = groups\<rparr>)))))"

subsection \<open>The memory check over groups\<close>

definition max_memory_usage_bytes_from_groups ::
    "KVCacheGroupSpec list \<Rightarrow> VllmConfig \<Rightarrow> int result" where
  "max_memory_usage_bytes_from_groups groups cfg =
     (if groups = [] then Inr 0
      else case uniform_types_group groups of
        Some u \<Rightarrow> total_max_memory_usage_bytes cfg (map snd (kv_cache_specs u))
      | None \<Rightarrow>
          bindE (max_group_len groups) (\<lambda>group_size.
          bindE (get_uniform_page_size (map kv_cache_spec groups)) (\<lambda>page.
          bindE (group_max_memory_usage_bytes cfg (kv_cache_spec (hd groups))) (\<lambda>mem.
          bindE (cdivE mem page) (\<lambda>blocks_needed.
          Inr (group_size * page * blocks_needed))))))"

definition estimate_max_model_len_from_groups ::
    "VllmConfig \<Rightarrow> KVCacheGroupSpec list \<Rightarrow> int \<Rightarrow> int result" where
  "estimate_max_model_len_from_groups cfg groups available =
     search_max_len (max_memory_usage_bytes_from_groups groups) cfg available"

definition auto_fit_max_model_len ::
    "VllmConfig \<Rightarrow> KVCacheGroupSpec list \<Rightarrow> int list \<Rightarrow> VllmConfig result" where
  "auto_fit_max_model_len cfg groups available_memory =
     (if groups = [] then Inr cfg
      else bindE (minE available_memory) (\<lambda>min_available.
        bindE (estimate_max_model_len_from_groups cfg groups min_available) (\<lambda>auto_fit_max.
        if auto_fit_max \<le> 0 then Inl ValueError
        else if auto_fit_max \<ge> max_model_len cfg then Inr cfg
        else Inr (cfg\<lparr>max_model_len := auto_fit_max\<rparr>))))"

definition get_max_concurrency_for_kv_cache_config :: "VllmConfig \<Rightarrow> KVCacheConfig \<Rightarrow> rat result" where
  "get_max_concurrency_for_kv_cache_config cfg c =
     (let groups = kv_cache_groups c in
      bindE (max_group_len groups) (\<lambda>num_layer_per_group.
      bindE (mapE (group_max_memory_usage_bytes cfg) (map kv_cache_spec groups)) (\<lambda>sizes.
      bindE (index_py groups 0) (\<lambda>first.
      bindE (group_page_size_bytes (kv_cache_spec first)) (\<lambda>page.
      bindE (cdivE (num_layer_per_group * sum_list sizes) (page * num_layer_per_group)) (\<lambda>per_request.
      if per_request = 0 then Inl ZeroDivisionError
      else Inr (rat_of_int (num_blocks c) / rat_of_int per_request)))))))"

text \<open>The token capacity and the concurrency that \<^verbatim>\<open>_report_kv_cache_config\<close> logs.\<close>

definition report_kv_cache_config :: "VllmConfig \<Rightarrow> KVCacheConfig \<Rightarrow> (int \<times> rat) result" where
  "report_kv_cache_config cfg c =
     bindE (minE (map (group_block_size \<circ> kv_cache_spec) (kv_cache_groups c))) (\<lambda>min_block_size.
     bindE (floordivE (num_blocks c) (int (length (kv_cache_groups c)))) (\<lambda>q.
     let cp = prefill_context_parallel_size cfg * decode_context_parallel_size cfg;
         num_tokens = q * min_block_size * (if cp > 1 then cp else 1) in
     bindE (get_max_concurrency_for_kv_cache_config cfg c) (\<lambda>concurrency.
     Inr (num_tokens, concurrency))))"

subsection \<open>The configurations of all workers\<close>

definition merge_worker_layer ::
    "string \<times> KVCacheSpec \<Rightarrow> layer_specs \<Rightarrow> layer_specs result" where
  "merge_worker_layer = (\<lambda>(name, spec) merged. case map_of merged name of
     None \<Rightarrow> Inr (AList.update name spec merged)
   | Some old \<Rightarrow> assertE (old = spec) (Inr merged))"

definition merge_worker_specs :: "layer_specs list \<Rightarrow> layer_specs result" where
  "merge_worker_specs workers = foldE (foldE merge_worker_layer) workers []"

definition worker_groups :: "KVCacheGroupSpec list \<Rightarrow> layer_specs \<Rightarrow> KVCacheGroupSpec list" where
  "worker_groups groups specs =
     map (\<lambda>grp. grp\<lparr>layer_names :=
            filter (\<lambda>name. map_of specs name \<noteq> None) (layer_names grp)\<rparr>) groups"

definition worker_config ::
    "VllmConfig \<Rightarrow> KVCacheGroupSpec list \<Rightarrow> layer_specs \<times> int \<Rightarrow> KVCacheConfig result" where
  "worker_config cfg groups = (\<lambda>(specs, available).
     let own = worker_groups groups specs in
     assertE (sum_list (map (length \<circ> layer_names) own) = length specs)
       (get_kv_cache_config_from_groups cfg own available))"

definition shrink_tensor :: "int \<Rightarrow> int \<Rightarrow> KVCacheTensor \<Rightarrow> KVCacheTensor result" where
  "shrink_tensor num_blocks_old n tensor =
     (if num_blocks_old = 0 then Inl ZeroDivisionError
      else assertE (size_bytes tensor mod num_blocks_old = 0)
        (Inr (tensor\<lparr>size_bytes := size_bytes tensor div num_blocks_old * n\<rparr>)))"

definition shrink_config :: "VllmConfig \<Rightarrow> int \<Rightarrow> KVCacheConfig \<Rightarrow> KVCacheConfig result" where
  "shrink_config cfg n c =
     bindE (mapE (shrink_tensor (num_blocks c) n) (kv_cache_tensors c)) (\<lambda>tensors.
     let c' = c\<lparr>num_blocks := n, kv_cache_tensors := tensors\<rparr> in
     if kv_cache_groups c' \<noteq> []
     then bindE (report_kv_cache_config cfg c') (\<lambda>_. Inr c') else Inr c')"

definition get_kv_cache_configs ::
    "VllmConfig \<Rightarrow> layer_specs list \<Rightarrow> int list \<Rightarrow> (VllmConfig \<times> KVCacheConfig list) result" where
  "get_kv_cache_configs cfg0 workers available_memory =
     bindE (merge_worker_specs workers) (\<lambda>merged.
     bindE (get_kv_cache_groups cfg0 merged) (\<lambda>groups.
     bindE (if original_max_model_len cfg0 = - 1
            then auto_fit_max_model_len cfg0 groups available_memory else Inr cfg0) (\<lambda>cfg.
     bindE (if groups \<noteq> [] then
              bindE (minE available_memory) (\<lambda>min_available.
              check_enough_memory min_available (max_memory_usage_bytes_from_groups groups cfg)
                (estimate_max_model_len_from_groups cfg groups))
            else Inr ()) (\<lambda>_.
     bindE (mapE (worker_config cfg groups) (zip workers available_memory)) (\<lambda>configs.
     bindE (minE (map num_blocks configs)) (\<lambda>min_num_blocks.
     bindE (mapE (shrink_config cfg min_num_blocks) configs) (\<lambda>configs'.
     Inr (cfg, configs'))))))))"

definition scheduler_group :: "KVCacheGroupSpec \<Rightarrow> KVCacheGroupSpec result" where
  "scheduler_group grp = (case kv_cache_spec grp of
     LayerSpec _ \<Rightarrow> Inr grp
   | UniformTypes u \<Rightarrow> (case kv_cache_specs u of
        [] \<Rightarrow> Inl StopIteration
      | (_, spec) # _ \<Rightarrow> Inr (grp\<lparr>kv_cache_spec := LayerSpec spec\<rparr>)))"

definition generate_scheduler_kv_cache_config :: "KVCacheConfig list \<Rightarrow> KVCacheConfig result" where
  "generate_scheduler_kv_cache_config configs = (case configs of
     [] \<Rightarrow> Inl IndexError
   | first # _ \<Rightarrow>
      assertE (list_all (\<lambda>c. num_blocks c = num_blocks first) configs)
        (bindE (mapE scheduler_group (kv_cache_groups first)) (\<lambda>groups.
         Inr (first\<lparr>kv_cache_groups := groups\<rparr>))))"

subsection \<open>The search finds the longest context\<close>

lemma search_loop_finds:
  assumes "\<And>l. fits l = Inr (P l)" and "\<And>k l. P l \<Longrightarrow> k \<le> l \<Longrightarrow> P k" and "P 1"
    and "\<forall>l. 1 \<le> l \<and> l < left \<longrightarrow> P l" and "\<forall>l. right < l \<and> l \<le> n \<longrightarrow> \<not> P l"
    and "res = max 1 (left - 1)" and "left \<le> right + 1" and "1 \<le> left" and "right \<le> n" and "1 \<le> n"
  shows "\<exists>r. search_loop fits left right res = Inr r \<and> 1 \<le> r \<and> r \<le> n
           \<and> (\<forall>l. 1 \<le> l \<and> l \<le> n \<longrightarrow> (P l \<longleftrightarrow> l \<le> r))"
  using assms
proof (induction fits left right res rule: search_loop.induct)
  case (1 fits left right res)
  show ?case
  proof (cases "left \<le> right")
    case False
    with "1.prems"(3,5,7,10) have r: "left = right + 1" "1 \<le> right" by (auto simp: not_le)
    with "1.prems"(4,5,6,9) show ?thesis
      by (intro exI [of _ right]) (auto simp: search_loop.simps not_le)
  next
    case True
    define mid where "mid = (left + right) div 2"
    have mid: "left \<le> mid" "mid \<le> right" using True by (auto simp: mid_def)
    show ?thesis
    proof (cases "P mid")
      case True
      have "\<exists>r. search_loop fits (mid + 1) right mid = Inr r \<and> 1 \<le> r \<and> r \<le> n
          \<and> (\<forall>l. 1 \<le> l \<and> l \<le> n \<longrightarrow> (P l \<longleftrightarrow> l \<le> r))"
        by (rule "1.IH"(1) [OF \<open>left \<le> right\<close> mid_def True])
          (use "1.prems" mid True in auto)
      with \<open>left \<le> right\<close> True show ?thesis
        by (subst search_loop.simps) (simp add: "1.prems"(1) flip: mid_def)
    next
      case False
      have "\<not> P l" if "mid - 1 < l" for l
        using that False "1.prems"(2) [of l mid] by (cases "mid \<le> l") auto
      then have "\<exists>r. search_loop fits left (mid - 1) res = Inr r \<and> 1 \<le> r \<and> r \<le> n
          \<and> (\<forall>l. 1 \<le> l \<and> l \<le> n \<longrightarrow> (P l \<longleftrightarrow> l \<le> r))"
        by (intro "1.IH"(2) [OF \<open>left \<le> right\<close> mid_def False])
          (use "1.prems" mid in auto)
      with \<open>left \<le> right\<close> False show ?thesis
        by (subst search_loop.simps) (simp add: "1.prems"(1) flip: mid_def)
    qed
  qed
qed

text \<open>
  What both estimates rely on: the memory need is total and grows with the model length. The
  client's lemma, that the search returns the longest length that fits, is proved once.
\<close>

locale memory_user =
  fixes valid :: "VllmConfig \<Rightarrow> 'a \<Rightarrow> bool"
    and usage :: "'a \<Rightarrow> VllmConfig \<Rightarrow> int result"
  assumes grows: "valid cfg x \<Longrightarrow>
    \<exists>g. mono g \<and> (\<forall>l. usage x (cfg\<lparr>max_model_len := l\<rparr>) = Inr (g l))"
begin

lemma usage_mono:
  assumes "valid cfg x"
  shows "\<exists>g. mono g \<and> usage x cfg = Inr (g (max_model_len cfg))
           \<and> (\<forall>l. usage x (cfg\<lparr>max_model_len := l\<rparr>) = Inr (g l))"
proof -
  obtain g where g: "mono g" "\<And>l. usage x (cfg\<lparr>max_model_len := l\<rparr>) = Inr (g l)"
    using grows [OF assms] by auto
  from g(2) [of "max_model_len cfg"] have "usage x cfg = Inr (g (max_model_len cfg))" by simp
  with g show ?thesis by auto
qed

lemma search_finds_longest:
  assumes "valid cfg x" and "1 \<le> max_model_len cfg"
  shows "\<exists>r. search_max_len (usage x) cfg available = Inr r \<and> 0 \<le> r \<and> r \<le> max_model_len cfg
           \<and> (\<forall>l. 1 \<le> l \<and> l \<le> max_model_len cfg \<longrightarrow>
                fits_in_memory (usage x) cfg available l = Inr (l \<le> r))"
proof -
  obtain g where g: "mono g" "\<And>l. usage x (cfg\<lparr>max_model_len := l\<rparr>) = Inr (g l)"
    using grows [OF assms(1)] by auto
  have fits: "fits_in_memory (usage x) cfg available l = Inr (g l \<le> available)" for l
    by (simp add: fits_in_memory_def g(2))
  have down: "g k \<le> available" if "g l \<le> available" "k \<le> l" for k l
    using monoD [OF g(1) that(2)] that(1) by simp
  show ?thesis
  proof (cases "g 1 \<le> available")
    case True
    have "\<exists>r. search_loop (fits_in_memory (usage x) cfg available) 1 (max_model_len cfg) 1 = Inr r
        \<and> 1 \<le> r \<and> r \<le> max_model_len cfg
        \<and> (\<forall>l. 1 \<le> l \<and> l \<le> max_model_len cfg \<longrightarrow> (g l \<le> available \<longleftrightarrow> l \<le> r))"
      by (rule search_loop_finds) (use fits down True assms(2) in auto)
    with True show ?thesis by (auto simp: search_max_len_def Let_def fits)
  next
    case False
    have "\<not> g l \<le> available" if "1 \<le> l" for l using down [of l 1] False that by auto
    with False assms(2) show ?thesis by (auto simp: search_max_len_def Let_def fits)
  qed
qed

end

lemma total_max_memory_grows:
  assumes "list_all (serves cfg) specs"
  shows "\<exists>g. mono g \<and>
    (\<forall>l. total_max_memory_usage_bytes (cfg\<lparr>max_model_len := l\<rparr>) specs = Inr (g l))"
  using assms
proof (induction specs)
  case Nil
  show ?case by (intro exI [of _ "\<lambda>_. 0"]) (simp add: total_max_memory_usage_bytes_def monoI)
next
  case (Cons spec specs)
  obtain h where h: "mono h" "\<And>l. max_memory_usage_bytes (cfg\<lparr>max_model_len := l\<rparr>) spec = Inr (h l)"
    using max_memory_monotone Cons.prems by force
  obtain g where g: "mono g"
    "\<And>l. total_max_memory_usage_bytes (cfg\<lparr>max_model_len := l\<rparr>) specs = Inr (g l)"
    using Cons by auto
  have "mono (\<lambda>l. h l + g l)" using h(1) g(1) by (simp add: mono_def add_mono)
  moreover have "total_max_memory_usage_bytes (cfg\<lparr>max_model_len := l\<rparr>) (spec # specs) = Inr (h l + g l)" for l
    using g(2) [of l] by (auto simp: total_max_memory_usage_bytes_def h(2) bindE_Inr_iff)
  ultimately show ?case by (intro exI [of _ "\<lambda>l. h l + g l"]) auto
qed

text \<open>Groups a memory check is made for: all layers served, one page size in the general case.\<close>

definition groups_ok :: "VllmConfig \<Rightarrow> KVCacheGroupSpec list \<Rightarrow> bool" where
  "groups_ok cfg groups = (case uniform_types_group groups of
     Some u \<Rightarrow> list_all (serves cfg \<circ> snd) (kv_cache_specs u)
   | None \<Rightarrow> list_all (\<lambda>grp. case kv_cache_spec grp of
        UniformTypes _ \<Rightarrow> False
      | LayerSpec spec \<Rightarrow> serves cfg spec
          \<and> group_page_size_bytes (LayerSpec spec) = group_page_size_bytes (kv_cache_spec (hd groups))) groups)"

lemma remdups_replicate: "n > 0 \<Longrightarrow> remdups (replicate n a) = [a]"
proof (induction n)
  case (Suc n)
  then show ?case by (cases n) auto
qed simp

lemma general_groups:
  assumes "groups_ok cfg groups" and "uniform_types_group groups = None" and "groups \<noteq> []"
  obtains page specs where "page > 0" and "map kv_cache_spec groups = map LayerSpec specs"
    and "list_all (serves cfg) specs" and "\<forall>spec \<in> set specs. page_size_bytes spec = Inr page"
    and "get_uniform_page_size (map kv_cache_spec groups) = Inr page"
    and "specs \<noteq> []" and "kv_cache_spec (hd groups) = LayerSpec (hd specs)"
proof -
  define specs where "specs = map (\<lambda>g. case kv_cache_spec g of LayerSpec s \<Rightarrow> s) groups"
  have ok: "case kv_cache_spec g of UniformTypes _ \<Rightarrow> False | LayerSpec spec \<Rightarrow> serves cfg spec
      \<and> page_size_bytes spec = group_page_size_bytes (kv_cache_spec (hd groups))" if "g \<in> set groups" for g
    using assms(1,2) that by (auto simp: groups_ok_def list_all_iff split: GroupSpec.splits)
  have layer: "kv_cache_spec g = LayerSpec (case kv_cache_spec g of LayerSpec s \<Rightarrow> s)"
    if "g \<in> set groups" for g using ok [OF that] by (cases "kv_cache_spec g") auto
  have map: "map kv_cache_spec groups = map LayerSpec specs"
    using layer by (simp add: specs_def)
  have hd: "kv_cache_spec (hd groups) = LayerSpec (hd specs)"
    using layer [of "hd groups"] assms(3) by (simp add: specs_def hd_map)
  have served: "list_all (serves cfg) specs"
    using ok by (fastforce simp: specs_def list_all_iff split: GroupSpec.splits)
  have ne: "specs \<noteq> []" using assms(3) by (simp add: specs_def)
  then have "wf_spec (hd specs)" using served by (simp add: list_all_iff serves_def)
  then obtain page where page: "page_size_bytes (hd specs) = Inr page" "page > 0"
    by (auto elim: wf_specE)
  have pages: "\<forall>spec \<in> set specs. page_size_bytes spec = Inr page"
    using ok page(1) hd by (fastforce simp: specs_def split: GroupSpec.splits)
  have "mapE group_page_size_bytes (map LayerSpec specs) = Inr (map (\<lambda>_. page) (map LayerSpec specs))"
    using pages by (intro mapE_total) auto
  moreover have "remdups (map (\<lambda>_. page) (map LayerSpec specs)) = [page]"
    using ne remdups_replicate [of "length specs" page] by (simp add: map_replicate_const)
  ultimately have "get_uniform_page_size (map kv_cache_spec groups) = Inr page"
    by (simp add: get_uniform_page_size_def map)
  with that [OF page(2) map served pages _ ne hd] show ?thesis by blast
qed

definition group_size_of :: "KVCacheGroupSpec list \<Rightarrow> int" where
  "group_size_of groups = Max (set (map (int \<circ> length \<circ> layer_names) groups))"

lemma max_group_len_eq: "groups \<noteq> [] \<Longrightarrow> max_group_len groups = Inr (group_size_of groups)"
  by (simp add: max_group_len_def maxE_def group_size_of_def)

lemma group_size_ge: "grp \<in> set groups \<Longrightarrow> int (length (layer_names grp)) \<le> group_size_of groups"
  unfolding group_size_of_def by (rule Max_ge) auto

lemma group_size_nonneg: "groups \<noteq> [] \<Longrightarrow> 0 \<le> group_size_of groups"
  using group_size_ge [of "hd groups" groups] by (auto intro: order_trans [rotated])

lemma group_memory_general:
  assumes "groups_ok cfg groups" and "uniform_types_group groups = None" and "groups \<noteq> []"
    and "get_uniform_page_size (map kv_cache_spec groups) = Inr page"
    and "kv_cache_spec (hd groups) = LayerSpec spec"
  shows "max_memory_usage_bytes_from_groups groups cfg =
           Inr (group_size_of groups * page * pages_needed cfg spec)"
proof -
  obtain page' specs where g: "page' > 0" "list_all (serves cfg) specs"
    "\<forall>s \<in> set specs. page_size_bytes s = Inr page'"
    "get_uniform_page_size (map kv_cache_spec groups) = Inr page'" "specs \<noteq> []"
    "kv_cache_spec (hd groups) = LayerSpec (hd specs)"
    by (rule general_groups [OF assms(1-3)]) blast
  have p: "page' = page" using g(4) assms(4) by simp
  have "hd specs = spec" using g(6) assms(5) by simp
  then have "spec \<in> set specs" using g(5) hd_in_set [of specs] by simp
  then have "serves cfg spec" "page_size_bytes spec = Inr page"
    using g(2,3) p by (auto simp: list_all_iff)
  with max_memory_is_pages [of cfg spec page] assms(2-5) g(1) p show ?thesis
    by (simp add: max_memory_usage_bytes_from_groups_def max_group_len_eq)
qed

lemma groups_ok_len [simp]: "groups_ok (cfg\<lparr>max_model_len := l\<rparr>) groups = groups_ok cfg groups"
  unfolding groups_ok_def comp_def serves_len ..

lemma group_memory_grows:
  assumes "groups_ok cfg groups"
  shows "\<exists>g. mono g \<and>
    (\<forall>l. max_memory_usage_bytes_from_groups groups (cfg\<lparr>max_model_len := l\<rparr>) = Inr (g l))"
proof (cases "groups = []")
  case True
  then show ?thesis
    by (intro exI [of _ "\<lambda>_. 0"]) (simp add: max_memory_usage_bytes_from_groups_def monoI)
next
  case ne: False
  show ?thesis
  proof (cases "uniform_types_group groups")
    case (Some u)
    then have "list_all (serves cfg) (map snd (kv_cache_specs u))"
      using assms by (simp add: groups_ok_def list_all_iff)
    from total_max_memory_grows [OF this] ne Some show ?thesis
      by (simp add: max_memory_usage_bytes_from_groups_def)
  next
    case None
    obtain page specs where g: "page > 0" "list_all (serves cfg) specs" "specs \<noteq> []"
      "get_uniform_page_size (map kv_cache_spec groups) = Inr page"
      "kv_cache_spec (hd groups) = LayerSpec (hd specs)"
      by (rule general_groups [OF assms None ne]) blast
    let ?g = "\<lambda>l. group_size_of groups * page * pages_needed (cfg\<lparr>max_model_len := l\<rparr>) (hd specs)"
    have served: "serves cfg (hd specs)" using g(2,3) by (simp add: list_all_iff)
    have "mono ?g"
    proof (rule monoI)
      fix k l :: int
      assume "k \<le> l"
      then have "pages_needed (cfg\<lparr>max_model_len := k\<rparr>) (hd specs)
          \<le> pages_needed (cfg\<lparr>max_model_len := l\<rparr>) (hd specs)"
        using pages_needed_mono [of "cfg\<lparr>max_model_len := k\<rparr>" "hd specs" l] served by simp
      then show "?g k \<le> ?g l"
        using g(1) group_size_nonneg [OF ne] by (intro mult_left_mono) auto
    qed
    moreover have "max_memory_usage_bytes_from_groups groups (cfg\<lparr>max_model_len := l\<rparr>) = Inr (?g l)" for l
      using group_memory_general [OF _ None ne g(4,5)] assms by simp
    ultimately show ?thesis by (intro exI [of _ ?g]) simp
  qed
qed

interpretation layers: memory_user "\<lambda>cfg (specs :: layer_specs). list_all (serves cfg \<circ> snd) specs"
    "\<lambda>specs cfg. total_max_memory_usage_bytes cfg (map snd specs)"
proof
  fix cfg :: VllmConfig and specs :: layer_specs
  assume "list_all (serves cfg \<circ> snd) specs"
  then show "\<exists>g. mono g \<and> (\<forall>l. total_max_memory_usage_bytes (cfg\<lparr>max_model_len := l\<rparr>) (map snd specs) = Inr (g l))"
    by (intro total_max_memory_grows) (simp add: list_all_iff)
qed

interpretation cgroups: memory_user groups_ok max_memory_usage_bytes_from_groups
  by unfold_locales (rule group_memory_grows)

lemma fits_in_memory_iff:
  "fits_in_memory usage cfg available l = Inr b \<longleftrightarrow>
     (\<exists>need. usage (cfg\<lparr>max_model_len := l\<rparr>) = Inr need \<and> b = (need \<le> available))"
  by (auto simp: fits_in_memory_def bindE_Inr_iff)

text \<open>
  C28: both binary searches end and return the longest servable context. For specs the
  configuration serves and a limit of at least one token, \<open>estimate_max_model_len\<close> returns
  an \<open>r\<close> between 0 and the limit such that a length from 1 to the limit fits into the memory exactly
  when it is at most \<open>r\<close>; and so does \<open>estimate_max_model_len_from_groups\<close> for the memory of the
  groups.
\<close>

theorem estimate_max_model_len_longest:
  assumes "1 \<le> max_model_len cfg"
  shows "(list_all (serves cfg \<circ> snd) specs \<longrightarrow>
      (\<exists>r. estimate_max_model_len cfg specs available = Inr r \<and> 0 \<le> r \<and> r \<le> max_model_len cfg
        \<and> (\<forall>l. 1 \<le> l \<and> l \<le> max_model_len cfg \<longrightarrow>
             (\<exists>need. total_max_memory_usage_bytes (cfg\<lparr>max_model_len := l\<rparr>) (map snd specs) = Inr need
                \<and> (need \<le> available \<longleftrightarrow> l \<le> r)))))
    \<and> (groups_ok cfg groups \<longrightarrow>
      (\<exists>r. estimate_max_model_len_from_groups cfg groups available = Inr r \<and> 0 \<le> r \<and> r \<le> max_model_len cfg
        \<and> (\<forall>l. 1 \<le> l \<and> l \<le> max_model_len cfg \<longrightarrow>
             (\<exists>need. max_memory_usage_bytes_from_groups groups (cfg\<lparr>max_model_len := l\<rparr>) = Inr need
                \<and> (need \<le> available \<longleftrightarrow> l \<le> r)))))"
  unfolding estimate_max_model_len_def estimate_max_model_len_from_groups_def
  using layers.search_finds_longest [of cfg specs available]
    cgroups.search_finds_longest [of cfg groups available] assms
  by (intro conjI impI) (auto simp: fits_in_memory_iff, (metis (no_types, lifting))+)

text \<open>
  Automatic fitting and the memory check agree. For valid groups and workers that all have some
  memory, fitting raises \<open>ValueError\<close> exactly when a single token does not fit into the smallest worker
  memory. Otherwise it lowers \<open>max_model_len\<close> to a positive length for which the subsequent check of
  \<^verbatim>\<open>get_kv_cache_configs\<close> passes, and the check fails for every longer length up to the old limit.
\<close>

theorem auto_fit_max_model_len_passes_check:
  assumes "groups_ok cfg groups" and "groups \<noteq> []" and "1 \<le> max_model_len cfg"
    and "available \<noteq> []" and "0 < Min (set available)"
  shows "(auto_fit_max_model_len cfg groups available = Inl ValueError
           \<and> (\<exists>need. max_memory_usage_bytes_from_groups groups (cfg\<lparr>max_model_len := 1\<rparr>) = Inr need
                \<and> need > Min (set available)))
       \<or> (\<exists>n. auto_fit_max_model_len cfg groups available = Inr (cfg\<lparr>max_model_len := n\<rparr>)
           \<and> 1 \<le> n \<and> n \<le> max_model_len cfg
           \<and> (\<forall>l. 1 \<le> l \<and> l \<le> max_model_len cfg \<longrightarrow>
                check_enough_memory (Min (set available))
                  (max_memory_usage_bytes_from_groups groups (cfg\<lparr>max_model_len := l\<rparr>))
                  (estimate_max_model_len_from_groups (cfg\<lparr>max_model_len := l\<rparr>) groups)
                = (if l \<le> n then Inr () else Inl ValueError)))"
proof -
  let ?m = "Min (set available)"
  let ?need = "\<lambda>l. max_memory_usage_bytes_from_groups groups (cfg\<lparr>max_model_len := l\<rparr>)"
  obtain r where r: "estimate_max_model_len_from_groups cfg groups ?m = Inr r" "0 \<le> r" "r \<le> max_model_len cfg"
    and fit: "\<And>l. 1 \<le> l \<Longrightarrow> l \<le> max_model_len cfg \<Longrightarrow> \<exists>need. ?need l = Inr need \<and> (l \<le> r) = (need \<le> ?m)"
    using cgroups.search_finds_longest [OF assms(1,3), of ?m]
    by (auto simp: estimate_max_model_len_from_groups_def fits_in_memory_iff)
  show ?thesis
  proof (cases "r = 0")
    case True
    then obtain need where need: "?need 1 = Inr need" "\<not> need \<le> ?m" using fit [of 1] assms(3) by auto
    have "auto_fit_max_model_len cfg groups available = Inl ValueError"
      using r(1) True by (simp add: auto_fit_max_model_len_def minE_def assms(2,4))
    with need show ?thesis by (metis not_le)
  next
    case False
    then have fitted: "auto_fit_max_model_len cfg groups available = Inr (cfg\<lparr>max_model_len := r\<rparr>)"
      using r assms(2,4) by (auto simp: auto_fit_max_model_len_def minE_def)
    have "check_enough_memory ?m (?need l) (estimate_max_model_len_from_groups (cfg\<lparr>max_model_len := l\<rparr>) groups)
        = (if l \<le> r then Inr () else Inl ValueError)" if l: "1 \<le> l" "l \<le> max_model_len cfg" for l
    proof -
      obtain need where need: "?need l = Inr need" "(l \<le> r) = (need \<le> ?m)" using fit [OF l] by blast
      obtain e where "estimate_max_model_len_from_groups (cfg\<lparr>max_model_len := l\<rparr>) groups ?m = Inr e"
        using cgroups.search_finds_longest [of "cfg\<lparr>max_model_len := l\<rparr>" groups ?m] assms(1) l(1)
        by (auto simp: estimate_max_model_len_from_groups_def)
      with need assms(5) show ?thesis by (simp add: check_enough_memory_def)
    qed
    with fitted r False show ?thesis by (intro disjI2 exI [of _ r]) simp
  qed
qed

definition cfg_example :: VllmConfig where
  "cfg_example = \<lparr>max_model_len = 1024, original_max_model_len = 1024,
     decode_context_parallel_size = 1, prefill_context_parallel_size = 1,
     max_num_batched_tokens = 64, max_num_encoder_input_tokens = 0, mamba_cache_mode = ''none'',
     num_gpu_blocks_override = None, disable_hybrid_kv_cache_manager = False\<rparr>"

definition window_example :: "int \<Rightarrow> SlidingWindowSpec" where
  "window_example w = \<lparr>block_size = 16, num_kv_heads = 8, head_size = 64, dtype = bf16,
     page_size_padded = None, window_size = w\<rparr>"

definition group_example :: "string list \<Rightarrow> KVCacheSpec \<Rightarrow> KVCacheGroupSpec" where
  "group_example names spec = \<lparr>layer_names = names, kv_cache_spec = LayerSpec spec\<rparr>"

lemmas config_examples = cfg_example_def window_example_def group_example_def spec_examples
lemmas config_eval = serves_def wf_spec_def groups_ok_def uniform_types_group_def

lemma example_pages [simp]:
  "page_size_bytes (FullAttention (full_example 64)) = Inr 32768"
  "page_size_bytes (SlidingWindow (window_example w)) = Inr 32768"
  by (simp_all add: config_examples spec_eval)

lemma example_served [simp]:
  "serves cfg_example (FullAttention (full_example 64))"
  "serves cfg_example (SlidingWindow (window_example w))"
  by (simp_all add: serves_def wf_spec_def) (simp_all add: config_examples)

lemma example_groups_ok:
  "groups_ok cfg_example [group_example [''a''] (FullAttention (full_example 64)),
     group_example [''b''] (SlidingWindow (window_example 64))]"
  by (simp add: groups_ok_def uniform_types_group_def) (simp add: group_example_def)

theorem estimate_max_model_len_longest_witness:
  "(\<exists>r. estimate_max_model_len cfg_example [(''a'', FullAttention (full_example 64))] 524288 = Inr r
      \<and> 0 \<le> r \<and> r \<le> 1024
      \<and> (\<exists>need. total_max_memory_usage_bytes (cfg_example\<lparr>max_model_len := 512\<rparr>)
             [FullAttention (full_example 64)] = Inr need \<and> (need \<le> 524288 \<longleftrightarrow> 512 \<le> r)))
   \<and> (\<exists>r. estimate_max_model_len_from_groups cfg_example
          [group_example [''a''] (FullAttention (full_example 64)),
           group_example [''b''] (SlidingWindow (window_example 64))] 524288 = Inr r
      \<and> 0 \<le> r \<and> r \<le> 1024)"
proof -
  have len: "max_model_len cfg_example = 1024" by (simp add: cfg_example_def)
  show ?thesis
    using estimate_max_model_len_longest [of cfg_example "[(''a'', FullAttention (full_example 64))]"
        524288 "[group_example [''a''] (FullAttention (full_example 64)),
           group_example [''b''] (SlidingWindow (window_example 64))]"] example_groups_ok
    by (simp add: len) fastforce
qed

theorem auto_fit_max_model_len_passes_check_witness:
  "auto_fit_max_model_len cfg_example [group_example [''a''] (FullAttention (full_example 64)),
      group_example [''b''] (SlidingWindow (window_example 64))] [524288, 600000] = Inl ValueError
   \<or> (\<exists>n. auto_fit_max_model_len cfg_example [group_example [''a''] (FullAttention (full_example 64)),
          group_example [''b''] (SlidingWindow (window_example 64))] [524288, 600000]
        = Inr (cfg_example\<lparr>max_model_len := n\<rparr>) \<and> 1 \<le> n \<and> n \<le> 1024)"
  using auto_fit_max_model_len_passes_check [OF example_groups_ok, of "[524288, 600000]"]
  by (auto simp: cfg_example_def)

end
