(* ===== verification/Kv_Cache_Groups.thy ===== *)
theory Kv_Cache_Groups
  imports Kv_Cache_Config
begin

section \<open>Properties of the cache groups and configurations\<close>

text \<open>
  What \<open>Kv_Cache_Config\<close> computes is right: page sizes are unified exactly when that is possible, the
  hybrid grouping puts every layer into exactly one group of bounded size, the tensors of a worker
  fit into its memory and cover every layer once, and all workers agree on the number of blocks.
\<close>

subsection \<open>One page size\<close>

lemma list_all2_eq_map: "list_all2 (\<lambda>x y. f x = Inr y) xs ys \<Longrightarrow> (\<And>x y. x \<in> set xs \<Longrightarrow> f x = Inr y \<Longrightarrow> y = g x) \<Longrightarrow> ys = map g xs"
  by (induction xs ys rule: list_all2_induct) auto

lemma mapE_exists_iff: "(\<exists>ys. mapE f xs = Inr ys) \<longleftrightarrow> (\<forall>x \<in> set xs. \<exists>y. f x = Inr y)"
  by (induction xs) (auto simp: bindE_Inr_iff)

lemma remdups_le_one: "length (remdups xs) \<le> 1 \<longleftrightarrow> (\<forall>x \<in> set xs. \<forall>y \<in> set xs. x = y)"
proof -
  have "length (remdups xs) \<le> Suc 0 \<longleftrightarrow> card (set xs) \<le> Suc 0" by (simp add: length_remdups_card_conv)
  also have "\<dots> \<longleftrightarrow> (\<forall>x \<in> set xs. \<forall>y \<in> set xs. x = y)" by (rule card_le_Suc0_iff_eq) simp
  finally show ?thesis by simp
qed

definition page_of :: "KVCacheSpec \<Rightarrow> int" where
  "page_of spec = (case page_size_bytes spec of Inr page \<Rightarrow> page | Inl _ \<Rightarrow> 0)"

lemma page_of_wf: "wf_spec spec \<Longrightarrow> page_size_bytes spec = Inr (page_of spec) \<and> page_of spec > 0"
  by (auto simp: wf_spec_def page_of_def split: sum.splits)

text \<open>Layers whose page grows with the block size.\<close>

definition scalable :: "KVCacheSpec \<Rightarrow> bool" where
  "scalable spec \<longleftrightarrow> spec_padded spec = None \<and> \<not> is_mamba spec"

definition unified_spec :: "int \<Rightarrow> KVCacheSpec \<Rightarrow> KVCacheSpec" where
  "unified_spec target spec =
     (if page_of spec = target then spec
      else copy_with_new_block_size spec (spec_block_size spec * (target div page_of spec)))"

lemma unify_layer_iff:
  assumes "wf_spec spec"
  shows "unify_layer target (name, spec) = Inr out \<longleftrightarrow>
    (page_of spec = target \<or> page_of spec dvd target \<and> scalable spec) \<and> out = (name, unified_spec target spec)"
proof -
  note page = page_of_wf [OF assms, THEN conjunct1] page_of_wf [OF assms, THEN conjunct2]
  let ?r = "target div page_of spec"
  have cp: "page_size_bytes (copy_with_new_block_size spec (spec_block_size spec * ?r)) =
      (case spec_padded spec of None \<Rightarrow> Inr (if is_mamba spec then page_of spec else page_of spec * ?r)
       | Some p \<Rightarrow> assertE (is_mamba spec \<or> p \<ge> real_page_size_bytes spec * ?r) (Inr (page_of spec)))"
    by (rule copy_page_size [OF page(1)])
  have dvd: "target mod page_of spec = 0 \<longleftrightarrow> page_of spec dvd target" by (simp add: dvd_eq_mod_eq_0)
  have scaled: "page_of spec dvd target \<Longrightarrow> page_of spec * ?r = target" by simp
  show ?thesis
    using page(2) scaled
    by (auto simp: unify_layer_def page(1) Let_def cp dvd unified_spec_def scalable_def bindE_Inr_iff
        split: option.splits if_splits)
qed

lemma unified_page:
  assumes "wf_spec spec" and "page_of spec = target \<or> page_of spec dvd target \<and> scalable spec"
  shows "page_size_bytes (unified_spec target spec) = Inr target"
proof -
  have "unify_layer target (''x'', spec) = Inr (''x'', unified_spec target spec)"
    using unify_layer_iff [OF assms(1)] assms(2) by blast
  then show ?thesis
    using page_of_wf [OF assms(1)]
    by (auto simp: unify_layer_def Let_def unified_spec_def bindE_Inr_iff split: if_splits)
qed

lemma page_sizes_eq:
  assumes "list_all (wf_spec \<circ> snd) specs"
  shows "mapE (page_size_bytes \<circ> snd) specs = Inr (map (page_of \<circ> snd) specs)"
  using assms by (intro mapE_total) (auto simp: list_all_iff page_of_wf)

text \<open>
  \<^verbatim>\<open>unify_kv_cache_spec_page_size\<close> for well-formed specs. It succeeds exactly when every
  layer already has the largest page size or is an unpadded attention layer whose page size divides
  it. Then the layers keep their names and order, every page has the largest size, and a layer that
  had it is unchanged while another differs in its block size only, which grows by the quotient.
\<close>

theorem unify_page_size_correct:
  assumes "list_all (wf_spec \<circ> snd) specs" and "specs \<noteq> []"
  defines "target \<equiv> Max (set (map (page_of \<circ> snd) specs))"
  shows "((\<exists>out. unify_kv_cache_spec_page_size specs = Inr out) \<longleftrightarrow>
            (\<forall>(name, spec) \<in> set specs. page_of spec = target \<or> page_of spec dvd target \<and> scalable spec))
    \<and> (\<forall>out. unify_kv_cache_spec_page_size specs = Inr out \<longrightarrow>
          out = map (\<lambda>(name, spec). (name, unified_spec target spec)) specs
          \<and> (\<forall>(name, spec) \<in> set out. page_size_bytes spec = Inr target))"
proof -
  let ?ok = "\<forall>(name, spec) \<in> set specs. page_of spec = target \<or> page_of spec dvd target \<and> scalable spec"
  let ?out = "map (\<lambda>(name, spec). (name, unified_spec target spec)) specs"
  have wf: "\<And>name spec. (name, spec) \<in> set specs \<Longrightarrow> wf_spec spec" using assms(1) by (auto simp: list_all_iff)
  have iff: "unify_layer target e = Inr r \<longleftrightarrow> (page_of (snd e) = target \<or> page_of (snd e) dvd target \<and> scalable (snd e))
      \<and> r = (case e of (name, spec) \<Rightarrow> (name, unified_spec target spec))" if "e \<in> set specs" for e r
    using unify_layer_iff [of "snd e" target "fst e" r] wf [of "fst e" "snd e"] that by (auto split: prod.splits)
  have run: "unify_kv_cache_spec_page_size specs =
      (if length (remdups (map (page_of \<circ> snd) specs)) \<le> 1 then Inr specs else mapE (unify_layer target) specs)"
    using assms(2) by (simp add: unify_kv_cache_spec_page_size_def page_sizes_eq [OF assms(1)] maxE_def target_def)
  have val: "unify_kv_cache_spec_page_size specs = Inr out \<longleftrightarrow> ?ok \<and> out = ?out" for out
  proof (cases "length (remdups (map (page_of \<circ> snd) specs)) \<le> 1")
    case True
    then have same: "page_of (snd x) = page_of (snd y)" if "x \<in> set specs" "y \<in> set specs" for x y
      using that by (intro iffD1 [OF remdups_le_one, THEN bspec, THEN bspec]) force+
    have "target \<in> set (map (page_of \<circ> snd) specs)" unfolding target_def using assms(2) by (intro Max_in) auto
    then obtain z where z: "z \<in> set specs" "page_of (snd z) = target" by auto
    have "\<forall>x \<in> set specs. page_of (snd x) = target" using same [OF _ z(1)] z(2) by (metis (no_types))
    moreover from this have "?out = specs" by (intro map_idI) (auto simp: unified_spec_def)
    ultimately show ?thesis using True run by (auto split: prod.splits)
  next
    case False
    have ex: "(\<exists>out. mapE (unify_layer target) specs = Inr out) \<longleftrightarrow> ?ok"
      unfolding mapE_exists_iff using iff by (auto split: prod.splits)
    have det: "mapE (unify_layer target) specs = Inr o' \<Longrightarrow> o' = ?out" for o'
      unfolding mapE_Inr_iff by (rule list_all2_eq_map) (use iff in auto)
    have run': "unify_kv_cache_spec_page_size specs = mapE (unify_layer target) specs"
      using False run by simp
    show ?thesis
    proof
      assume "unify_kv_cache_spec_page_size specs = Inr out"
      then have "mapE (unify_layer target) specs = Inr out" by (simp only: run')
      then show "?ok \<and> out = ?out" using ex det [of out] by blast
    next
      assume ok: "?ok \<and> out = ?out"
      then obtain o' where o': "mapE (unify_layer target) specs = Inr o'" using ex by blast
      show "unify_kv_cache_spec_page_size specs = Inr out"
        unfolding run' o' using det [OF o'] ok by (simp only:)
    qed
  qed
  moreover have "?ok \<Longrightarrow> (\<forall>(name, spec) \<in> set ?out. page_size_bytes spec = Inr target)"
    using unified_page wf by fastforce
  ultimately show ?thesis by auto
qed

definition heavy_example :: FullAttentionSpec where
  "heavy_example = (full_example 64)\<lparr>num_kv_heads := 16\<rparr>"

lemma heavy_page: "page_size_bytes (FullAttention heavy_example) = Inr 65536"
  by (simp add: heavy_example_def config_examples spec_eval)

theorem unify_page_size_correct_witness:
  "(\<exists>out. unify_kv_cache_spec_page_size
        [(''a'', FullAttention heavy_example), (''b'', SlidingWindow (window_example 64))] = Inr out)
   \<and> unified_spec 65536 (SlidingWindow (window_example 64)) =
       SlidingWindow ((window_example 64)\<lparr>block_size := 32\<rparr>)"
proof -
  have wf: "wf_spec (FullAttention heavy_example)" "wf_spec (SlidingWindow (window_example 64))"
    by (simp_all add: wf_spec_def heavy_page) (simp_all add: heavy_example_def window_example_def full_example_def)
  have pages: "page_of (FullAttention heavy_example) = 65536" "page_of (SlidingWindow (window_example 64)) = 32768"
    by (simp_all add: page_of_def heavy_page)
  have scal: "scalable (SlidingWindow (window_example 64))"
    by (simp add: scalable_def spec_padded_def attention_part_def window_example_def AttentionSpec.defs)
  have scaled: "unified_spec 65536 (SlidingWindow (window_example 64)) =
      SlidingWindow ((window_example 64)\<lparr>block_size := 32\<rparr>)"
    by (simp add: unified_spec_def pages copy_with_new_block_size_def) (simp add: window_example_def)
  show ?thesis
    using unify_page_size_correct [of "[(''a'', FullAttention heavy_example), (''b'', SlidingWindow (window_example 64))]"]
      wf pages scal scaled by simp
qed

subsection \<open>The hybrid grouping\<close>

lemma stride_mod: "i < n \<Longrightarrow> stride xs i n = map ((!) xs) (filter (\<lambda>j. j mod n = i) [0..<length xs])"
proof -
  assume "i < n"
  then have "i \<le> j \<and> (j - i) mod n = 0 \<longleftrightarrow> j mod n = i" for j
    by (metis add_0 diff_zero le_add_diff_inverse le_trans mod_add_left_eq mod_less mod_less_eq_dividend
        mod_eq_dvd_iff_nat dvd_imp_mod_0 mod_mod_trivial)
  then show ?thesis by (simp add: stride_def)
qed

lemma mset_partition:
  assumes "\<forall>j \<in># M. f j < (n::nat)"
  shows "(\<Sum>i \<leftarrow> [0..<n]. filter_mset (\<lambda>j. f j = i) M) = M"
  using assms
proof (induction M)
  case (add x M)
  have "(\<Sum>i \<leftarrow> [0..<n]. filter_mset (\<lambda>j. f j = i) (add_mset x M)) =
      (\<Sum>i \<leftarrow> [0..<n]. (if f x = i then {#x#} else {#}) + filter_mset (\<lambda>j. f j = i) M)"
    by (intro arg_cong [of _ _ sum_list] map_cong) auto
  also have "\<dots> = (\<Sum>i \<leftarrow> [0..<n]. if f x = i then {#x#} else {#}) + M"
    using add by (simp add: sum_list_addf)
  also have "(\<Sum>i \<leftarrow> [0..<n]. if f x = i then {#x#} else {#}) = {#x#}"
    using add.prems by (simp add: interv_sum_list_conv_sum_set_nat)
  finally show ?case by simp
qed (simp add: sum_list_0)

lemma mset_concat_sum: "mset (concat xss) = (\<Sum>xs \<leftarrow> xss. mset xs)"
  by (induction xss) auto

lemma image_mset_sum_list:
  "image_mset f (\<Sum>i \<leftarrow> xs. g i) = (\<Sum>i \<leftarrow> xs. image_mset f (g i))"
  by (induction xs) auto

lemma stride_partition:
  assumes "0 < n"
  shows "mset (concat (map (\<lambda>i. stride xs i n) [0..<n])) = mset xs"
proof -
  let ?M = "mset [0..<length xs]"
  have "mset (concat (map (\<lambda>i. stride xs i n) [0..<n])) =
      (\<Sum>i \<leftarrow> [0..<n]. image_mset ((!) xs) (filter_mset (\<lambda>j. j mod n = i) ?M))"
    unfolding mset_concat_sum map_map comp_def
    by (intro arg_cong [of _ _ sum_list] map_cong) (auto simp: stride_mod mset_filter)
  also have "\<dots> = image_mset ((!) xs) (\<Sum>i \<leftarrow> [0..<n]. filter_mset (\<lambda>j. j mod n = i) ?M)"
    by (rule image_mset_sum_list [symmetric])
  also have "\<dots> = mset xs"
    using assms mset_partition [of ?M "\<lambda>j. j mod n" n] map_nth [of xs]
    by (simp del: mset_upt flip: mset_map)
  finally show ?thesis .
qed

lemma stride_length:
  assumes "i < n" and "length xs \<le> n * k"
  shows "length (stride xs i n) \<le> k"
proof -
  have "length (stride xs i n) = card {j. j < length xs \<and> j mod n = i}"
    using assms(1) distinct_card [of "filter (\<lambda>j. j mod n = i) [0..<length xs]"]
    by (simp add: stride_mod conj_commute)
  also have "\<dots> \<le> card {..<k}"
  proof (rule card_inj_on_le)
    show "inj_on (\<lambda>j. j div n) {j. j < length xs \<and> j mod n = i}"
      by (rule inj_onI) (metis (mono_tags, lifting) div_mult_mod_eq mem_Collect_eq)
    show "(\<lambda>j. j div n) ` {j. j < length xs \<and> j mod n = i} \<subseteq> {..<k}"
      using assms by (auto simp: less_mult_imp_div_less mult.commute)
  qed simp
  finally show ?thesis by simp
qed

lemma stride_nonempty: "i < n \<Longrightarrow> i < length xs \<Longrightarrow> stride xs i n \<noteq> []"
  by (auto simp: stride_mod filter_empty_conv intro!: bexI [of _ i])

lemma split_layers_correct:
  assumes "layers \<noteq> []" and "0 < gs"
  shows "mset (concat (split_layers gs layers)) = mset layers"
    and "names \<in> set (split_layers gs layers) \<Longrightarrow> names \<noteq> [] \<and> int (length names) \<le> gs \<and> set names \<subseteq> set layers"
proof -
  define n where "n = nat (cdiv (int (length layers)) gs)"
  have pos: "0 < int (length layers)" using assms(1) by simp
  have cd: "int (length layers) \<le> cdiv (int (length layers)) gs * gs"
    using cdiv_bounds(1) [OF assms(2)] by simp
  have "0 < cdiv (int (length layers)) gs"
    using cd pos assms(2) by (metis less_le_trans zero_less_mult_pos2)
  then have n: "0 < n" "int n = cdiv (int (length layers)) gs" by (simp_all add: n_def)
  have le: "length layers \<le> n * nat gs"
    using cd n(2) assms(2) by (metis int_nat_eq less_imp_le of_nat_le_iff of_nat_mult)
  have "cdiv (int (length layers)) gs \<le> int (length layers)"
    using assms(2) pos by (simp add: cdiv_le_iff)
  then have short: "n \<le> length layers" using n(2) by simp
  have split: "split_layers gs layers = map (\<lambda>i. stride layers i n) [0..<n]"
    by (simp add: split_layers_def n_def Let_def)
  show "mset (concat (split_layers gs layers)) = mset layers"
    unfolding split by (rule stride_partition [OF n(1)])
  assume "names \<in> set (split_layers gs layers)"
  then obtain i where i: "i < n" "names = stride layers i n" by (auto simp: split)
  have "set names \<subseteq> set layers" using i(2) by (auto simp: stride_def)
  moreover have "names \<noteq> []" using stride_nonempty [OF i(1), of layers] i short by simp
  moreover have "int (length names) \<le> gs" using stride_length [OF i(1) le] i(2) assms(2) by (simp add: le_nat_iff)
  ultimately show "names \<noteq> [] \<and> int (length names) \<le> gs \<and> set names \<subseteq> set layers" by simp
qed

text \<open>Collecting the layers of equal spec.\<close>

lemma add_layer_mset:
  "mset (concat (map snd (AList.map_default spec [name] (\<lambda>names. names @ [name]) d))) =
     add_mset name (mset (concat (map snd d)))"
  by (induction d) auto

lemma add_layer_mem:
  "(s, names) \<in> set (AList.map_default spec [name] (\<lambda>names. names @ [name]) d) \<Longrightarrow>
     (s, names) \<in> set d \<or> s = spec \<and> (names = [name] \<or> (\<exists>old. (s, old) \<in> set d \<and> names = old @ [name]))"
  by (induction d) (auto split: if_splits)

lemma same_type_layers_correct:
  "mset (concat (map snd (same_type_layers specs))) = mset (map fst specs)
   \<and> (\<forall>(spec, names) \<in> set (same_type_layers specs). names \<noteq> [] \<and> (\<forall>n \<in> set names. (n, spec) \<in> set specs))"
proof (induction specs rule: rev_induct)
  case Nil
  then show ?case by (simp add: same_type_layers_def)
next
  case (snoc e specs)
  obtain name spec where e: "e = (name, spec)" by (cases e)
  have step: "same_type_layers (specs @ [e]) =
      AList.map_default spec [name] (\<lambda>names. names @ [name]) (same_type_layers specs)"
    by (simp add: same_type_layers_def e)
  have "names \<noteq> [] \<and> (\<forall>n \<in> set names. (n, s) \<in> set (specs @ [e]))"
    if "(s, names) \<in> set (same_type_layers (specs @ [e]))" for s names
    using add_layer_mem [OF that [unfolded step]] snoc e by fastforce
  moreover have "mset (concat (map snd (same_type_layers (specs @ [e])))) = mset (map fst (specs @ [e]))"
    unfolding step add_layer_mset using snoc e by simp
  ultimately show ?case by blast
qed

text \<open>Merging copies of one spec is merging it alone.\<close>

lemma merge_replicate: "merge (replicate (Suc k) s) = merge [s]"
proof -
  have mf: "List.map_filter f (replicate n x) = (case f x of None \<Rightarrow> [] | Some y \<Rightarrow> replicate n y)"
    for f :: "'x \<Rightarrow> 'y option" and n x
    by (auto simp: List.map_filter_def filter_replicate split: option.split)
  have windows: "merge_window_sizes (replicate (Suc k) w) = merge_window_sizes [w]" for w
    by (simp add: merge_window_sizes_def remdups_replicate del: replicate_Suc)
  have full: "merge_full (replicate (Suc k) s) = merge_full [s]"
    using windows
    by (cases "full_part s")
      (auto simp: merge_full_def mf list_all_iff list_ex_iff Let_def is_full_def
        simp del: replicate_Suc split: option.split)
  have hd: "replicate (Suc k) s = s # replicate k s" by simp
  show ?thesis
    unfolding merge_def hd list.case full [unfolded hd]
    unfolding merge_sink_def full [unfolded hd]
    by (cases s) (simp_all add: merge_equal_def merge_mla_def list_all_iff remdups_replicate
        flip: replicate_Suc)
qed

lemma create_group_spec_homogeneous:
  assumes "names \<noteq> []" and "\<forall>n \<in> set names. map_of specs n = Some s" and "merge [s] = Inr m"
  shows "create_group_spec specs names = Inr \<lparr>layer_names = names, kv_cache_spec = LayerSpec m\<rparr>"
proof -
  have "mapE (\<lambda>n. of_option KeyError (map_of specs n)) names = Inr (map (\<lambda>_. s) names)"
    using assms(2) by (intro mapE_total) simp
  moreover have "map (\<lambda>_. s) names = replicate (Suc (length names - 1)) s"
    using assms(1) by (simp add: map_replicate_const)
  ultimately show ?thesis
    by (simp add: create_group_spec_def merge_replicate assms(3) del: replicate_Suc)
qed

lemma hybrid_group_size_pos:
  assumes "counts \<noteq> []" and "\<forall>c \<in> set counts. 0 < c"
  obtains gs where "hybrid_group_size counts = Inr gs" and "0 < gs"
proof -
  have "0 < Min (set counts)" "0 < Max (set counts)"
    using assms by (auto simp: Max_gr_iff neq_Nil_conv)
  with assms(1) that show ?thesis by (auto simp: hybrid_group_size_def minE_def maxE_def)
qed

lemma create_homogeneous_groups:
  assumes "\<forall>ns \<in> set names. ns \<noteq> [] \<and> (\<exists>s. (\<forall>n \<in> set ns. map_of specs n = Some s) \<and> merge [s] = Inr s)"
  obtains groups where "create_kv_cache_group_specs specs names = Inr groups"
    and "map layer_names groups = names"
    and "\<forall>grp \<in> set groups. \<exists>s. kv_cache_spec grp = LayerSpec s \<and> (\<forall>n \<in> set (layer_names grp). map_of specs n = Some s)"
proof -
  have grp: "\<exists>s. create_group_spec specs ns = Inr \<lparr>layer_names = ns, kv_cache_spec = LayerSpec s\<rparr>
      \<and> (\<forall>n \<in> set ns. map_of specs n = Some s)" if "ns \<in> set names" for ns
    using assms that create_group_spec_homogeneous by blast
  then obtain groups where run: "mapE (create_group_spec specs) names = Inr groups"
    using mapE_exists_iff [of "create_group_spec specs" names] by blast
  have "map layer_names groups = map (\<lambda>ns. ns) names"
    using run grp unfolding mapE_Inr_iff
    by (induction names groups rule: list_all2_induct) fastforce+
  moreover have "\<exists>s. kv_cache_spec g = LayerSpec s \<and> (\<forall>n \<in> set (layer_names g). map_of specs n = Some s)"
    if "g \<in> set groups" for g
    using mapE_set [OF run, of g] that grp by fastforce
  ultimately show ?thesis using that run by (simp add: create_kv_cache_group_specs_def)
qed

lemma split_all_types:
  assumes "\<forall>ns \<in> set layers. ns \<noteq> []" and "0 < gs"
  shows "mset (concat (concat (map (split_layers gs) layers))) = mset (concat layers)"
  using assms(1) by (induction layers) (auto simp: split_layers_correct(1) [OF _ assms(2)])

text \<open>
  C29: the grouping of a hybrid model. For layers with distinct names whose specs are stable under a
  merge of their own, \<^verbatim>\<open>_get_kv_cache_groups_uniform_page_size\<close> succeeds and partitions the layers:
  every layer is in exactly one group, no group is empty or larger than the group size it chose, and
  the spec of a group is the common spec of all its layers.
\<close>

theorem hybrid_groups_partition_layers:
  assumes "distinct (map fst specs)" and "specs \<noteq> []" and "\<forall>(name, s) \<in> set specs. merge [s] = Inr s"
  shows "\<exists>groups gs. get_kv_cache_groups_uniform_page_size specs = Inr groups
    \<and> hybrid_group_size (map (int \<circ> length) (map snd (same_type_layers specs))) = Inr gs
    \<and> mset (concat (map layer_names groups)) = mset (map fst specs)
    \<and> (\<forall>grp \<in> set groups. layer_names grp \<noteq> [] \<and> int (length (layer_names grp)) \<le> gs
         \<and> (\<exists>s. kv_cache_spec grp = LayerSpec s \<and> (\<forall>n \<in> set (layer_names grp). map_of specs n = Some s)))"
proof -
  let ?types = "same_type_layers specs"
  let ?layers = "map snd ?types"
  have part: "mset (concat ?layers) = mset (map fst specs)"
    and types: "\<And>s ns. (s, ns) \<in> set ?types \<Longrightarrow> ns \<noteq> [] \<and> (\<forall>n \<in> set ns. (n, s) \<in> set specs)"
    using same_type_layers_correct [of specs] by auto
  have "?layers \<noteq> []" using part assms(2) by (cases ?types) auto
  moreover have "\<forall>c \<in> set (map (int \<circ> length) ?layers). 0 < c" using types by auto
  ultimately obtain gs where gs: "hybrid_group_size (map (int \<circ> length) ?layers) = Inr gs" "0 < gs"
    by (metis (no_types, lifting) hybrid_group_size_pos map_is_Nil_conv)
  let ?names = "concat (map (split_layers gs) ?layers)"
  have each: "ns \<noteq> [] \<and> int (length ns) \<le> gs \<and> (\<exists>s. (\<forall>n \<in> set ns. map_of specs n = Some s) \<and> merge [s] = Inr s)"
    if "ns \<in> set ?names" for ns
  proof -
    from that obtain s ls where ls: "(s, ls) \<in> set ?types" "ns \<in> set (split_layers gs ls)" by auto
    note in_specs = types [OF ls(1)]
    then have "\<forall>n \<in> set ls. map_of specs n = Some s" using assms(1) by simp
    moreover have "merge [s] = Inr s" using in_specs assms(3) by (cases ls) auto
    ultimately show ?thesis using split_layers_correct(2) [OF _ gs(2) ls(2)] in_specs by blast
  qed
  obtain groups where groups: "create_kv_cache_group_specs specs ?names = Inr groups" "map layer_names groups = ?names"
      "\<forall>grp \<in> set groups. \<exists>s. kv_cache_spec grp = LayerSpec s \<and> (\<forall>n \<in> set (layer_names grp). map_of specs n = Some s)"
    by (rule create_homogeneous_groups [of ?names specs]) (use each in blast)+
  have run: "get_kv_cache_groups_uniform_page_size specs = Inr groups"
    by (simp only: get_kv_cache_groups_uniform_page_size_def Let_def gs(1) bindE.simps groups(1))
  have mset: "mset (concat (map layer_names groups)) = mset (map fst specs)"
    unfolding groups(2) part [symmetric] using types by (intro split_all_types [OF _ gs(2)]) auto
  have bounded: "layer_names grp \<noteq> [] \<and> int (length (layer_names grp)) \<le> gs" if "grp \<in> set groups" for grp
    using each [of "layer_names grp"] that unfolding groups(2) [symmetric] by auto
  show ?thesis using run gs(1) mset bounded groups(3) by blast
qed

theorem hybrid_groups_partition_layers_witness:
  "\<exists>groups gs. get_kv_cache_groups_uniform_page_size
      [(''a'', FullAttention (full_example 64)), (''b'', SlidingWindow (window_example 64)),
       (''c'', SlidingWindow (window_example 64))] = Inr groups
    \<and> hybrid_group_size [1, 2] = Inr gs
    \<and> mset (concat (map layer_names groups)) = {#''a'', ''b'', ''c''#}"
proof -
  have stable: "merge [FullAttention (full_example 64)] = Inr (FullAttention (full_example 64))"
    "merge [SlidingWindow (window_example 64)] = Inr (SlidingWindow (window_example 64))"
    by (simp_all add: config_examples spec_eval)
  show ?thesis
    using hybrid_groups_partition_layers [of "[(''a'', FullAttention (full_example 64)),
        (''b'', SlidingWindow (window_example 64)), (''c'', SlidingWindow (window_example 64))]"] stable
    by (auto simp: same_type_layers_def)
qed

subsection \<open>Tensors fit into the memory\<close>

lemma pool_layers_Cons:
  "pool_layers (grp # groups) i =
     (if i < length (layer_names grp) then [layer_names grp ! i] else []) @ pool_layers groups i"
  by (simp add: pool_layers_def)

lemma mset_positions:
  assumes "length xs \<le> n"
  shows "(\<Sum>i \<leftarrow> [0..<n]. mset (if i < length xs then [xs ! i] else [])) = mset xs"
  using assms
proof (induction xs rule: rev_induct)
  case (snoc x xs)
  have "(\<Sum>i \<leftarrow> [0..<n]. mset (if i < length (xs @ [x]) then [(xs @ [x]) ! i] else [])) =
      (\<Sum>i \<leftarrow> [0..<n]. mset (if i < length xs then [xs ! i] else []) + (if length xs = i then {#x#} else {#}))"
    by (intro arg_cong [of _ _ sum_list] map_cong) (auto simp: nth_append less_Suc_eq)
  also have "\<dots> = mset xs + (\<Sum>i \<leftarrow> [0..<n]. if length xs = i then {#x#} else {#})"
    using snoc by (simp add: sum_list_addf)
  also have "(\<Sum>i \<leftarrow> [0..<n]. if length xs = i then {#x#} else {#}) = {#x#}"
    using snoc.prems by (simp add: interv_sum_list_conv_sum_set_nat)
  finally show ?case by simp
qed simp

text \<open>The pools of the general case cover every layer of every group once.\<close>

lemma pools_partition:
  assumes "\<forall>grp \<in> set groups. length (layer_names grp) \<le> n"
  shows "mset (concat (map (pool_layers groups) [0..<n])) = mset (concat (map layer_names groups))"
  using assms
proof (induction groups)
  case Nil
  then show ?case by (simp add: pool_layers_def mset_concat_sum comp_def)
next
  case (Cons grp groups)
  have "mset (concat (map (pool_layers (grp # groups)) [0..<n])) =
      (\<Sum>i \<leftarrow> [0..<n]. mset (if i < length (layer_names grp) then [layer_names grp ! i] else [])
         + mset (pool_layers groups i))"
    unfolding mset_concat_sum map_map comp_def
    by (intro arg_cong [of _ _ sum_list] map_cong) (simp_all add: pool_layers_Cons)
  also have "\<dots> = mset (layer_names grp) + mset (concat (map (pool_layers groups) [0..<n]))"
    using Cons.prems by (simp add: sum_list_addf mset_positions mset_concat_sum comp_def)
  finally show ?case using Cons by simp
qed

lemma total_div_le: "0 < b \<Longrightarrow> 0 \<le> a \<Longrightarrow> 0 \<le> s \<Longrightarrow> s \<le> b \<Longrightarrow> s * (a div b) \<le> a" for a b s :: int
proof -
  assume b: "0 < b" and a: "0 \<le> a" and s: "s \<le> b"
  have q: "0 \<le> a div b" using a b by (simp add: pos_imp_zdiv_nonneg_iff)
  have "s * (a div b) \<le> b * (a div b)" using q s by (rule mult_right_mono [rotated])
  also have "\<dots> \<le> a" using b int_le_div_iff [of b "a div b" a] by (simp add: mult.commute)
  finally show ?thesis .
qed

definition covers :: "KVCacheConfig \<Rightarrow> KVCacheGroupSpec list \<Rightarrow> int \<Rightarrow> bool" where
  "covers c groups available \<longleftrightarrow>
     kv_cache_groups c = groups \<and> 0 \<le> num_blocks c
     \<and> sum_list (map size_bytes (kv_cache_tensors c)) \<le> available
     \<and> mset (concat (map shared_by (kv_cache_tensors c))) = mset (concat (map layer_names groups))
     \<and> list_all (\<lambda>t. num_blocks c dvd size_bytes t) (kv_cache_tensors c)"

lemma config_general:
  assumes "groups_ok cfg groups" and "groups \<noteq> []" and "uniform_types_group groups = None"
    and "num_gpu_blocks_override cfg = None" and "0 \<le> available" and "concat (map layer_names groups) \<noteq> []"
  shows "\<exists>c. get_kv_cache_config_from_groups cfg groups available = Inr c \<and> covers c groups available"
proof -
  obtain page where page: "page > 0" "get_uniform_page_size (map kv_cache_spec groups) = Inr page"
    by (rule general_groups [OF assms(1,3,2)]) blast
  define gs where "gs = group_size_of groups"
  obtain grp where "grp \<in> set groups" "layer_names grp \<noteq> []" using assms(6) by auto
  then have pos: "0 < gs"
    unfolding gs_def by (intro less_le_trans [OF _ group_size_ge]) auto
  define n where "n = max (available div page div gs) 0"
  have nn: "n = available div (page * gs)"
    using assms(5) page(1) pos by (simp add: n_def zdiv_zmult2_eq pos_imp_zdiv_nonneg_iff)
  define c where "c = \<lparr>num_blocks = n,
    kv_cache_tensors = map (\<lambda>i. \<lparr>size_bytes = page * n, shared_by = pool_layers groups i\<rparr>) [0..<nat gs],
    kv_cache_groups = groups\<rparr>"
  have run: "get_kv_cache_config_from_groups cfg groups available = Inr c"
    using assms(2-4) page pos
    by (simp add: get_kv_cache_config_from_groups_def max_group_len_eq get_num_blocks_def
        may_override_num_blocks_def c_def n_def flip: gs_def)
  have "sum_list (map size_bytes (kv_cache_tensors c)) = page * gs * n"
    using pos by (simp add: c_def comp_def sum_list_triv)
  also have "\<dots> \<le> available"
    unfolding nn using page(1) pos assms(5) by (intro total_div_le) auto
  finally have total: "sum_list (map size_bytes (kv_cache_tensors c)) \<le> available" .
  have "mset (concat (map (pool_layers groups) [0..<nat gs])) = mset (concat (map layer_names groups))"
    using group_size_ge [of _ groups] pos by (intro pools_partition) (auto simp: gs_def le_nat_iff)
  with run total show ?thesis
    by (auto simp: covers_def c_def comp_def n_def list_all_iff)
qed

lemma sum_pages_le:
  assumes "distinct names" and "distinct (map fst specs)" and "set names \<subseteq> fst ` set specs"
    and "\<forall>(n, s) \<in> set specs. 0 \<le> page_of s"
  shows "sum_list (map (\<lambda>n. page_of (the (map_of specs n))) names) \<le> sum_list (map (page_of \<circ> snd) specs)"
proof -
  let ?f = "\<lambda>n. page_of (the (map_of specs n))"
  have all: "map (page_of \<circ> snd) specs = map ?f (map fst specs)"
    using assms(2) by auto
  have nonneg: "0 \<le> ?f n" if "n \<in> set (map fst specs)" for n
    using that assms(2,4) by auto
  have "sum_list (map ?f names) = sum ?f (set names)"
    using assms(1) by (simp add: sum_list_distinct_conv_sum_set)
  also have "\<dots> \<le> sum ?f (set (map fst specs))"
    using assms(3) nonneg by (intro sum_mono2) auto
  also have "\<dots> = sum_list (map ?f (map fst specs))"
    using assms(2) by (simp only: sum_list_distinct_conv_sum_set)
  finally show ?thesis by (simp only: all)
qed

lemma config_uniform:
  assumes "uniform_types_group groups = Some u" and "list_all (wf_spec \<circ> snd) (kv_cache_specs u)"
    and "distinct (map fst (kv_cache_specs u))"
    and "distinct (layer_names (hd groups))" and "layer_names (hd groups) \<noteq> []"
    and "set (layer_names (hd groups)) \<subseteq> fst ` set (kv_cache_specs u)"
    and "num_gpu_blocks_override cfg = None" and "0 \<le> available"
  shows "\<exists>c. get_kv_cache_config_from_groups cfg groups available = Inr c \<and> covers c groups available"
proof -
  obtain grp where groups: "groups = [grp]" "kv_cache_spec grp = UniformTypes u"
    using assms(1) by (auto simp: uniform_types_group_def split: list.splits GroupSpec.splits)
  let ?specs = "kv_cache_specs u" and ?names = "layer_names grp"
  let ?f = "\<lambda>n. page_of (the (map_of ?specs n))"
  define page where "page = sum_list (map (page_of \<circ> snd) ?specs)"
  have wf: "page_size_bytes s = Inr (page_of s) \<and> 0 < page_of s" if "(n, s) \<in> set ?specs" for n s
    using page_of_wf that assms(2) by (auto simp: list_all_iff)
  have f: "map_of ?specs n = Some (the (map_of ?specs n))" "0 < ?f n"
    "page_size_bytes (the (map_of ?specs n)) = Inr (?f n)" if "n \<in> set ?names" for n
    using that assms(3,6) wf groups(1) by fastforce+
  have upage: "uniform_page_size_bytes u = Inr page"
  proof -
    have "mapE page_size_bytes (map snd ?specs) = Inr (map page_of (map snd ?specs))"
      using wf by (intro mapE_total) auto
    then show ?thesis by (simp add: uniform_page_size_bytes_def page_def)
  qed
  have le: "sum_list (map ?f ?names) \<le> page"
    unfolding page_def using assms(3-6) wf groups(1) by (intro sum_pages_le) (auto intro: less_imp_le)
  have pos_sum: "0 < sum_list (map ?f ?names)"
  proof -
    obtain a rest where names: "?names = a # rest" using assms(5) groups(1) by (cases ?names) auto
    have "0 \<le> sum_list (map ?f rest)"
      by (rule sum_list_nonneg) (use f(2) names in \<open>auto intro: less_imp_le\<close>)
    moreover have "0 < ?f a" using f(2) names by simp
    ultimately show ?thesis using names by simp
  qed
  then have pos: "0 < page" using le by simp
  define n where "n = available div page"
  define c where "c = \<lparr>num_blocks = n, kv_cache_tensors = map (\<lambda>name. \<lparr>size_bytes = ?f name * n, shared_by = [name]\<rparr>) ?names,
    kv_cache_groups = groups\<rparr>"
  have run: "get_kv_cache_config_from_groups cfg groups available = Inr c"
  proof -
    have "mapE (\<lambda>name. bindE (of_option KeyError (map_of ?specs name)) (\<lambda>spec.
        bindE (page_size_bytes spec) (\<lambda>sz. Inr \<lparr>size_bytes = sz * n, shared_by = [name]\<rparr>))) ?names
      = Inr (kv_cache_tensors c)"
      unfolding c_def KVCacheConfig.select_convs
    proof (rule mapE_total)
      fix name
      assume "name \<in> set ?names"
      then obtain s where "map_of ?specs name = Some s" "page_size_bytes s = Inr (?f name)"
        using f(1,3) by metis
      then show "bindE (of_option KeyError (map_of ?specs name)) (\<lambda>spec.
          bindE (page_size_bytes spec) (\<lambda>sz. Inr \<lparr>size_bytes = sz * n, shared_by = [name]\<rparr>))
        = Inr \<lparr>size_bytes = ?f name * n, shared_by = [name]\<rparr>" by simp
    qed
    with assms(1,7) pos upage groups(1) show ?thesis
      by (simp add: get_kv_cache_config_from_groups_def may_override_num_blocks_def c_def flip: n_def)
  qed
  have "sum_list (map size_bytes (kv_cache_tensors c)) = sum_list (map ?f ?names) * n"
    by (simp add: c_def comp_def sum_list_mult_const)
  also have "\<dots> \<le> available"
    unfolding n_def using le pos pos_sum assms(8) by (intro total_div_le) auto
  finally show ?thesis
    using run groups(1) pos assms(8)
    by (auto simp: covers_def c_def comp_def n_def list_all_iff pos_imp_zdiv_nonneg_iff)
qed

text \<open>
  C30: the configuration of one worker. For valid groups with at least one layer and distinct layer names
  (which a per-layer dictionary must contain) \<^verbatim>\<open>get_kv_cache_config_from_groups\<close> succeeds. Without an
  override the tensors it asks for never exceed the memory the worker has, every layer of every group is
  backed by exactly one tensor, the number of blocks is not negative and divides every tensor size.
\<close>

theorem worker_config_fits_memory:
  assumes "groups_ok cfg groups" and "groups \<noteq> []" and "num_gpu_blocks_override cfg = None"
    and "0 \<le> available" and "distinct (concat (map layer_names groups))"
    and "concat (map layer_names groups) \<noteq> []"
    and "\<forall>u. uniform_types_group groups = Some u \<longrightarrow> distinct (map fst (kv_cache_specs u))
           \<and> set (layer_names (hd groups)) \<subseteq> fst ` set (kv_cache_specs u)"
  shows "\<exists>c. get_kv_cache_config_from_groups cfg groups available = Inr c
    \<and> kv_cache_groups c = groups \<and> 0 \<le> num_blocks c
    \<and> sum_list (map size_bytes (kv_cache_tensors c)) \<le> available
    \<and> mset (concat (map shared_by (kv_cache_tensors c))) = mset (concat (map layer_names groups))
    \<and> list_all (\<lambda>t. num_blocks c dvd size_bytes t) (kv_cache_tensors c)"
proof (cases "uniform_types_group groups")
  case None
  with config_general [OF assms(1,2)] assms(3-6) show ?thesis by (simp add: covers_def)
next
  case (Some u)
  then obtain grp where groups: "groups = [grp]"
    by (auto simp: uniform_types_group_def split: list.splits)
  have "list_all (wf_spec \<circ> snd) (kv_cache_specs u)"
    using assms(1) Some by (auto simp: groups_ok_def list_all_iff serves_def)
  with config_uniform [OF Some] assms(3-7) Some groups show ?thesis by (simp add: covers_def)
qed

theorem worker_config_fits_memory_witness:
  "\<exists>c. get_kv_cache_config_from_groups cfg_example [group_example [''a''] (FullAttention (full_example 64)),
       group_example [''b''] (SlidingWindow (window_example 64))] 100000 = Inr c
    \<and> sum_list (map size_bytes (kv_cache_tensors c)) \<le> 100000"
proof -
  have "uniform_types_group [group_example [''a''] (FullAttention (full_example 64)),
       group_example [''b''] (SlidingWindow (window_example 64))] = None"
    by (simp add: uniform_types_group_def)
  then show ?thesis
    using worker_config_fits_memory [OF example_groups_ok, of 100000]
    by (auto simp: cfg_example_def group_example_def)
qed

subsection \<open>The memory check and the blocks of a request\<close>

definition group_pages :: "VllmConfig \<Rightarrow> KVCacheGroupSpec \<Rightarrow> int" where
  "group_pages cfg grp = (case kv_cache_spec grp of LayerSpec s \<Rightarrow> pages_needed cfg s | UniformTypes _ \<Rightarrow> 0)"

text \<open>Every group takes blocks of its own from the one pool.\<close>

definition request_blocks :: "VllmConfig \<Rightarrow> KVCacheGroupSpec list \<Rightarrow> int" where
  "request_blocks cfg groups = sum_list (map (group_pages cfg) groups)"

lemma concurrency_general:
  assumes "groups_ok cfg groups" and "groups \<noteq> []" and "uniform_types_group groups = None"
    and "0 < group_size_of groups" and "kv_cache_groups c = groups" and "request_blocks cfg groups \<noteq> 0"
  shows "get_max_concurrency_for_kv_cache_config cfg c =
    Inr (rat_of_int (num_blocks c) / rat_of_int (request_blocks cfg groups))"
proof -
  obtain page specs where g: "page > 0" "map kv_cache_spec groups = map LayerSpec specs"
    "list_all (serves cfg) specs" "\<forall>s \<in> set specs. page_size_bytes s = Inr page" "specs \<noteq> []"
    "kv_cache_spec (hd groups) = LayerSpec (hd specs)"
    by (rule general_groups [OF assms(1,3,2)]) blast
  define gs where "gs = group_size_of groups"
  have blocks: "request_blocks cfg groups = sum_list (map (pages_needed cfg) specs)"
  proof -
    have "map (group_pages cfg) groups =
        map (case_GroupSpec (pages_needed cfg) (\<lambda>_. 0)) (map kv_cache_spec groups)"
      by (simp add: group_pages_def)
    then show ?thesis by (simp add: g(2) request_blocks_def comp_def)
  qed
  have mem: "mapE (group_max_memory_usage_bytes cfg) (map kv_cache_spec groups) =
      Inr (map (\<lambda>s. pages_needed cfg s * page) specs)"
  proof -
    have "mapE (group_max_memory_usage_bytes cfg) (map LayerSpec ss) = Inr (map (\<lambda>s. pages_needed cfg s * page) ss)"
      if "list_all (serves cfg) ss" "\<forall>s \<in> set ss. page_size_bytes s = Inr page" for ss
      using that by (induction ss) (simp_all add: max_memory_is_pages)
    with g(2-4) show ?thesis by simp
  qed
  have "0 < page * gs" using g(1) assms(4) by (simp add: gs_def)
  moreover have "gs * sum_list (map (\<lambda>s. pages_needed cfg s * page) specs) = request_blocks cfg groups * (page * gs)"
    by (simp add: blocks sum_list_mult_const)
  ultimately have "cdivE (gs * sum_list (map (\<lambda>s. pages_needed cfg s * page) specs)) (page * gs)
      = Inr (request_blocks cfg groups)"
    by (metis cdivE_Inr_iff cdiv_multiple less_irrefl)
  moreover have "index_py groups 0 = Inr (hd groups)"
    using assms(2) by (simp add: index_py_nonneg hd_conv_nth)
  moreover have "page_size_bytes (hd specs) = Inr page" using g(4,5) by simp
  ultimately show ?thesis
    using assms(2,5,6) g(6) mem
    by (simp add: get_max_concurrency_for_kv_cache_config_def max_group_len_eq flip: gs_def)
qed

lemma check_general:
  assumes "groups_ok cfg groups" and "groups \<noteq> []" and "uniform_types_group groups = None"
    and "num_gpu_blocks_override cfg = None" and "0 < available" and "0 < group_size_of groups"
    and "1 \<le> max_model_len cfg" and "get_kv_cache_config_from_groups cfg groups available = Inr c"
  shows "check_enough_memory available (max_memory_usage_bytes_from_groups groups cfg)
      (estimate_max_model_len_from_groups cfg groups) = Inr ()
    \<longleftrightarrow> group_pages cfg (hd groups) \<le> num_blocks c"
proof -
  obtain page specs where g: "page > 0" "get_uniform_page_size (map kv_cache_spec groups) = Inr page"
    "kv_cache_spec (hd groups) = LayerSpec (hd specs)"
    by (rule general_groups [OF assms(1,3,2)]) blast
  define gs where "gs = group_size_of groups"
  define k where "k = pages_needed cfg (hd specs)"
  have need: "max_memory_usage_bytes_from_groups groups cfg = Inr (gs * page * k)"
    using group_memory_general [OF assms(1,3,2) g(2,3)] by (simp add: gs_def k_def)
  have nb: "num_blocks c = max (available div (page * gs)) 0"
    using assms(2-4,6,8) g(1,2)
    by (auto simp: get_kv_cache_config_from_groups_def max_group_len_eq get_num_blocks_def
        may_override_num_blocks_def zdiv_zmult2_eq simp flip: gs_def)
  have pos: "0 < page * gs" using g(1) assms(6) by (simp add: gs_def)
  have "gs * page * k \<le> available \<longleftrightarrow> k \<le> available div (page * gs)"
    using int_le_div_iff [OF pos, of k available] by (simp add: mult.commute mult.left_commute)
  moreover have "0 \<le> available div (page * gs)" using pos assms(5) by (simp add: pos_imp_zdiv_nonneg_iff)
  moreover obtain e where "estimate_max_model_len_from_groups cfg groups available = Inr e"
    using cgroups.search_finds_longest [OF assms(1,7), of available]
    by (auto simp: estimate_max_model_len_from_groups_def)
  moreover have "group_pages cfg (hd groups) = k" by (simp add: group_pages_def g(3) k_def)
  ultimately show ?thesis using assms(5) need nb by (auto simp: check_enough_memory_def)
qed

text \<open>
  What the memory check counts. For valid groups the check of \<^verbatim>\<open>get_kv_cache_configs\<close> passes exactly
  when the pool has enough blocks for the first group of a longest request, while the concurrency reported
  for the same configuration divides the pool by the blocks of all groups. So the check is right for
  one group (the concurrency is then at least 1), and for a hybrid model it lets configurations pass that
  cannot hold a single longest request.
\<close>

theorem memory_check_counts_first_group:
  assumes "groups_ok cfg groups" and "groups \<noteq> []" and "uniform_types_group groups = None"
    and "num_gpu_blocks_override cfg = None" and "0 < available" and "0 < group_size_of groups"
    and "1 \<le> max_model_len cfg" and "get_kv_cache_config_from_groups cfg groups available = Inr c"
    and "0 < request_blocks cfg groups"
  shows "(check_enough_memory available (max_memory_usage_bytes_from_groups groups cfg)
           (estimate_max_model_len_from_groups cfg groups) = Inr ()
         \<longleftrightarrow> group_pages cfg (hd groups) \<le> num_blocks c)
    \<and> get_max_concurrency_for_kv_cache_config cfg c =
         Inr (rat_of_int (num_blocks c) / rat_of_int (request_blocks cfg groups))
    \<and> (length groups = 1 \<longrightarrow>
         (check_enough_memory available (max_memory_usage_bytes_from_groups groups cfg)
            (estimate_max_model_len_from_groups cfg groups) = Inr ()
          \<longleftrightarrow> 1 \<le> rat_of_int (num_blocks c) / rat_of_int (request_blocks cfg groups)))"
proof -
  have groups: "kv_cache_groups c = groups"
    using assms(2,3,8) by (auto simp: get_kv_cache_config_from_groups_def bindE_Inr_iff)
  have one: "request_blocks cfg groups = group_pages cfg (hd groups)" if "length groups = 1"
    using that by (cases groups) (auto simp: request_blocks_def)
  show ?thesis
    using check_general [OF assms(1-8)] concurrency_general [OF assms(1-3,6) groups] assms(9) one
    by (auto simp: le_divide_eq)
qed

definition hybrid_example :: "KVCacheGroupSpec list" where
  "hybrid_example = [group_example [''a''] (FullAttention (full_example 64)),
     group_example [''b''] (SlidingWindow (window_example 64))]"

theorem memory_check_counts_first_group_witness:
  "\<exists>c. get_kv_cache_config_from_groups cfg_example hybrid_example 2097152 = Inr c
    \<and> num_blocks c = 64
    \<and> check_enough_memory 2097152 (max_memory_usage_bytes_from_groups hybrid_example cfg_example)
        (estimate_max_model_len_from_groups cfg_example hybrid_example) = Inr ()
    \<and> get_max_concurrency_for_kv_cache_config cfg_example c = Inr (64 / 73)"
proof -
  have none: "uniform_types_group hybrid_example = None"
    by (simp add: hybrid_example_def uniform_types_group_def)
  have gs: "group_size_of hybrid_example = 1"
    by (simp add: group_size_of_def hybrid_example_def group_example_def)
  have pages: "group_pages cfg_example (hd hybrid_example) = 64" "request_blocks cfg_example hybrid_example = 73"
    by (simp_all add: hybrid_example_def request_blocks_def group_pages_def pages_needed_def cdiv_def config_examples)
  define c where "c = \<lparr>num_blocks = 64, kv_cache_tensors = [\<lparr>size_bytes = 2097152, shared_by = [''a'', ''b'']\<rparr>],
    kv_cache_groups = hybrid_example\<rparr>"
  have "get_uniform_page_size (map kv_cache_spec hybrid_example) = Inr 32768"
    by (simp add: hybrid_example_def get_uniform_page_size_def group_example_def)
  then have run: "get_kv_cache_config_from_groups cfg_example hybrid_example 2097152 = Inr c"
    by (simp add: get_kv_cache_config_from_groups_def none max_group_len_eq gs get_num_blocks_def c_def
        may_override_num_blocks_def cfg_example_def)
      (simp add: hybrid_example_def pool_layers_def group_example_def)
  have "num_gpu_blocks_override cfg_example = None" "1 \<le> max_model_len cfg_example" "num_blocks c = 64"
    "hybrid_example \<noteq> []"
    by (simp_all add: cfg_example_def c_def hybrid_example_def)
  with memory_check_counts_first_group [of cfg_example hybrid_example 2097152 c] run none gs pages
    example_groups_ok [folded hybrid_example_def]
  show ?thesis by simp
qed

subsection \<open>All workers agree\<close>

lemma config_keeps_groups:
  "get_kv_cache_config_from_groups cfg groups available = Inr c \<Longrightarrow> kv_cache_groups c = groups"
  by (auto simp: get_kv_cache_config_from_groups_def bindE_Inr_iff Let_def split: if_splits option.splits)

lemma shrink_config_frame:
  "shrink_config cfg n c = Inr c' \<Longrightarrow> num_blocks c' = n \<and> kv_cache_groups c' = kv_cache_groups c"
  by (auto simp: shrink_config_def bindE_Inr_iff Let_def split: if_splits)

lemma worker_config_groups:
  assumes "worker_config cfg groups (specs, available) = Inr c"
  shows "map kv_cache_spec (kv_cache_groups c) = map kv_cache_spec groups
    \<and> sum_list (map (length \<circ> layer_names) (kv_cache_groups c)) = length specs"
  using assms
  by (auto simp: worker_config_def Let_def worker_groups_def dest!: config_keeps_groups)

lemma uniform_groups_nonempty:
  assumes "get_kv_cache_groups cfg specs = Inr groups" and "grp \<in> set groups"
    and "kv_cache_spec grp = UniformTypes u"
  shows "kv_cache_specs u \<noteq> []"
proof -
  have created: "\<forall>g \<in> set gs. \<exists>s. kv_cache_spec g = LayerSpec s" if "create_kv_cache_group_specs d names = Inr gs" for d names gs
    using mapE_set [OF that [unfolded create_kv_cache_group_specs_def]]
    by (auto simp: create_group_spec_def bindE_Inr_iff)
  have "\<exists>d. from_specs d = Inr (Some u)"
    using assms created
    by (fastforce simp: get_kv_cache_groups_def bindE_Inr_iff get_kv_cache_groups_uniform_spec_def
        get_kv_cache_groups_uniform_type_def get_kv_cache_groups_uniform_page_size_def Let_def
        split: if_splits option.splits)
  then show ?thesis by (auto simp: from_specs_def bindE_Inr_iff split: if_splits list.splits)
qed

lemma scheduler_groups_exist:
  assumes "\<forall>grp \<in> set groups. \<forall>u. kv_cache_spec grp = UniformTypes u \<longrightarrow> kv_cache_specs u \<noteq> []"
  shows "\<exists>gs. mapE scheduler_group groups = Inr gs"
  unfolding mapE_exists_iff using assms
  by (auto simp: scheduler_group_def split: GroupSpec.splits list.splits)

text \<open>
  C31: one allocator for all workers. When \<^verbatim>\<open>get_kv_cache_configs\<close> returns, there is a configuration for each
  worker, all have the same number of blocks and the same group specs in the same order, the groups
  of a worker hold as many layers as the worker has, and the scheduler configuration made from them exists and
  has that number of blocks.
\<close>

theorem workers_get_consistent_configs:
  assumes "get_kv_cache_configs cfg workers available = Inr (cfg', configs)"
  shows "\<exists>n group_specs. configs \<noteq> [] \<and> length configs = min (length workers) (length available)
    \<and> (\<forall>c \<in> set configs. num_blocks c = n \<and> map kv_cache_spec (kv_cache_groups c) = group_specs)
    \<and> (\<forall>i < length configs.
         sum_list (map (length \<circ> layer_names) (kv_cache_groups (configs ! i))) = length (workers ! i))
    \<and> (\<exists>c. generate_scheduler_kv_cache_config configs = Inr c \<and> num_blocks c = n)"
proof -
  from assms obtain merged groups cs n where
    groups: "get_kv_cache_groups cfg merged = Inr groups"
    and cs: "mapE (worker_config cfg' groups) (zip workers available) = Inr cs"
    and n: "minE (map num_blocks cs) = Inr n"
    and shrunk: "mapE (shrink_config cfg' n) cs = Inr configs"
    unfolding get_kv_cache_configs_def bindE_Inr_iff by auto
  have len: "length configs = length cs" "length cs = min (length workers) (length available)"
    using mapE_length [OF shrunk] mapE_length [OF cs] by simp_all
  have ne: "configs \<noteq> []" using n len(1) by (auto simp: minE_def split: if_splits)
  have at: "num_blocks (configs ! i) = n
      \<and> map kv_cache_spec (kv_cache_groups (configs ! i)) = map kv_cache_spec groups
      \<and> sum_list (map (length \<circ> layer_names) (kv_cache_groups (configs ! i))) = length (workers ! i)"
    if "i < length configs" for i
  proof -
    have "shrink_config cfg' n (cs ! i) = Inr (configs ! i)"
      using shrunk that by (auto simp: mapE_Inr_iff list_all2_conv_all_nth)
    moreover have "worker_config cfg' groups (workers ! i, available ! i) = Inr (cs ! i)"
      using cs that len by (auto simp: mapE_Inr_iff list_all2_conv_all_nth)
    ultimately show ?thesis by (auto dest!: shrink_config_frame worker_config_groups)
  qed
  then have all: "num_blocks c = n \<and> map kv_cache_spec (kv_cache_groups c) = map kv_cache_spec groups"
    if "c \<in> set configs" for c using that by (auto simp: in_set_conv_nth)
  obtain first rest where first: "configs = first # rest" using ne by (cases configs) auto
  have "\<exists>gs. mapE scheduler_group (kv_cache_groups first) = Inr gs"
  proof (rule scheduler_groups_exist, intro ballI allI impI)
    fix grp u
    assume "grp \<in> set (kv_cache_groups first)" and "kv_cache_spec grp = UniformTypes u"
    then have "UniformTypes u \<in> set (map kv_cache_spec groups)"
      using all [of first] first by (metis image_eqI list.set_intros(1) set_map)
    then show "kv_cache_specs u \<noteq> []" using uniform_groups_nonempty [OF groups] by force
  qed
  then have "\<exists>c. generate_scheduler_kv_cache_config configs = Inr c \<and> num_blocks c = n"
    using all first by (auto simp: generate_scheduler_kv_cache_config_def list_all_iff)
  with ne len all at show ?thesis by (intro exI [of _ n] exI [of _ "map kv_cache_spec groups"]) auto
qed

lemma example_merge:
  "merge [FullAttention (full_example 64)] = Inr (FullAttention (full_example 64))"
  "merge [FullAttention (full_example 64), FullAttention (full_example 64)] = Inr (FullAttention (full_example 64))"
  by (simp_all add: config_examples spec_eval)

lemma example_pages_needed: "pages_needed cfg_example (FullAttention (full_example 64)) = 64"
  by (simp add: pages_needed_def config_examples cdiv_def)

lemma example_memory:
  "max_memory_usage_bytes cfg_example (FullAttention (full_example 64)) = Inr 2097152"
  using max_memory_is_pages [OF example_served(1) example_pages(1)] by (simp add: example_pages_needed)

lemma example_run:
  "\<exists>configs. get_kv_cache_configs cfg_example [[(''a'', FullAttention (full_example 64))],
      [(''b'', FullAttention (full_example 64))]] [4194304, 5242880] = Inr (cfg_example, configs)"
proof -
  let ?s = "FullAttention (full_example 64)"
  let ?merged = "[(''a'', ?s), (''b'', ?s)]"
  let ?groups = "[\<lparr>layer_names = [''a'', ''b''], kv_cache_spec = LayerSpec ?s\<rparr>]"
  have cfg: "disable_hybrid_kv_cache_manager cfg_example = False" "original_max_model_len cfg_example = 1024"
    "num_gpu_blocks_override cfg_example = None" "prefill_context_parallel_size cfg_example = 1"
    "decode_context_parallel_size cfg_example = 1"
    by (simp_all add: cfg_example_def)
  have merged: "merge_worker_specs [[(''a'', ?s)], [(''b'', ?s)]] = Inr ?merged"
    by (simp add: merge_worker_specs_def merge_worker_layer_def)
  have groups: "get_kv_cache_groups cfg_example ?merged = Inr ?groups"
    by (simp add: get_kv_cache_groups_def cfg is_kv_cache_type_attention_free_def is_kv_cache_spec_uniform_def
        example_merge get_kv_cache_groups_uniform_spec_def create_kv_cache_group_specs_def create_group_spec_def)
  have need: "max_memory_usage_bytes_from_groups ?groups cfg_example = Inr 4194304"
    by (simp add: max_memory_usage_bytes_from_groups_def uniform_types_group_def max_group_len_def maxE_def
        get_uniform_page_size_def example_memory cdiv_def)
  have worker: "\<exists>c. worker_config cfg_example ?groups ([(name, ?s)], available) = Inr c
      \<and> num_blocks c = available div 32768 \<and> kv_cache_tensors c = [\<lparr>size_bytes = 32768 * (available div 32768), shared_by = [name]\<rparr>]
      \<and> kv_cache_groups c = [\<lparr>layer_names = [name], kv_cache_spec = LayerSpec ?s\<rparr>]"
    if "name \<in> {''a'', ''b''}" "0 \<le> available" for name available
    using that
    by (auto simp: worker_config_def worker_groups_def get_kv_cache_config_from_groups_def uniform_types_group_def
        max_group_len_def maxE_def get_uniform_page_size_def get_num_blocks_def may_override_num_blocks_def
        cfg pool_layers_def)
  have shrink: "\<exists>c'. shrink_config cfg_example 128 c = Inr c'"
    if "num_blocks c = k" "0 < k" "kv_cache_tensors c = [\<lparr>size_bytes = 32768 * k, shared_by = [name]\<rparr>]"
      "kv_cache_groups c = [\<lparr>layer_names = [name], kv_cache_spec = LayerSpec ?s\<rparr>]" for c k name
    using that
    by (simp add: shrink_config_def shrink_tensor_def report_kv_cache_config_def minE_def
        get_max_concurrency_for_kv_cache_config_def max_group_len_def maxE_def example_memory index_py_def
        cdiv_def cfg)
  obtain c1 c2 where "worker_config cfg_example ?groups ([(''a'', ?s)], 4194304) = Inr c1"
      "num_blocks c1 = 128" "\<exists>c'. shrink_config cfg_example 128 c1 = Inr c'"
      "worker_config cfg_example ?groups ([(''b'', ?s)], 5242880) = Inr c2"
      "num_blocks c2 = 160" "\<exists>c'. shrink_config cfg_example 128 c2 = Inr c'"
    using worker [of "''a''" 4194304] worker [of "''b''" 5242880] shrink [of _ 128] shrink [of _ 160] by fastforce
  then show ?thesis
    by (auto simp: get_kv_cache_configs_def merged groups cfg minE_def need check_enough_memory_def)
qed

theorem workers_get_consistent_configs_witness:
  "\<exists>configs n. get_kv_cache_configs cfg_example [[(''a'', FullAttention (full_example 64))],
      [(''b'', FullAttention (full_example 64))]] [4194304, 5242880] = Inr (cfg_example, configs)
    \<and> length configs = 2 \<and> num_blocks (configs ! 0) = n \<and> num_blocks (configs ! 1) = n
    \<and> (\<exists>c. generate_scheduler_kv_cache_config configs = Inr c \<and> num_blocks c = n)"
proof -
  obtain configs where run: "get_kv_cache_configs cfg_example [[(''a'', FullAttention (full_example 64))],
      [(''b'', FullAttention (full_example 64))]] [4194304, 5242880] = Inr (cfg_example, configs)"
    using example_run by blast
  show ?thesis using workers_get_consistent_configs [OF run] run by (intro exI [of _ configs]) auto
qed

end
