(* ===== verification/Single_Type_Manager.thy ===== *)
theory Single_Type_Manager
  imports Block_Pool Kv_Cache_Spec
begin

section \<open>Managers for one type of attention\<close>

text \<open>
  \<^verbatim>\<open>vllm/v1/core/single_type_kv_cache_manager.py\<close>: the manager of one cache group, which keeps the
  blocks of every request. The class hierarchy becomes the datatype \<open>manager_class\<close> inside one record;
  a method that a subclass overrides is one definition with a case on the class. The block pool is
  shared by all managers, so every operation takes the pool and returns it. \<open>req_to_blocks\<close> is a
  \<open>defaultdict(list)\<close>: reading a missing request with \<open>[...]\<close> creates an empty entry, as
  \<open>touch_entry\<close> does here. Blocks are addresses; Python compares two block objects
  field by field with the block id first, which for blocks of one pool is comparing addresses.
  \<open>use_int\<close> is the flag of the event encoding that the pool operations take.
\<close>

subsection \<open>Data\<close>

datatype manager_class =
    FullAttentionManager
  | SlidingWindowManager int
  | ChunkedLocalAttentionManager int
  | MambaManager string int
  | CrossAttentionManager
  | SinkFullAttentionManager

record SingleTypeKVCacheManager =
  mgr_class :: manager_class
  mgr_block_size :: int
  mgr_spec :: KVCacheSpec
  mgr_enable_caching :: bool
  req_to_blocks :: "(string, ptr list) odict"
  num_cached_block :: "(string, int) odict"
  kv_cache_group_id :: int
  last_state_block_idx :: "(string, int) odict"
  allocated_block_reqs :: "string set"
  sink_blocks :: "ptr list"

text \<open>\<^verbatim>\<open>self.req_to_blocks.get(request_id, ())\<close> and \<^verbatim>\<open>self.req_to_blocks[request_id]\<close>.\<close>

definition blocks_of :: "SingleTypeKVCacheManager \<Rightarrow> string \<Rightarrow> ptr list" where
  "blocks_of m rid = (case map_of (req_to_blocks m) rid of None \<Rightarrow> [] | Some bs \<Rightarrow> bs)"

definition set_blocks :: "string \<Rightarrow> ptr list \<Rightarrow> SingleTypeKVCacheManager \<Rightarrow> SingleTypeKVCacheManager" where
  "set_blocks rid bs m = m\<lparr>req_to_blocks := AList.update rid bs (req_to_blocks m)\<rparr>"

definition touch_entry :: "string \<Rightarrow> SingleTypeKVCacheManager \<Rightarrow> SingleTypeKVCacheManager" where
  "touch_entry rid m = set_blocks rid (blocks_of m rid) m"

subsection \<open>Construction\<close>

fun spec_manager_map :: "KVCacheSpec \<Rightarrow> manager_class option" where
  "spec_manager_map (FullAttention _) = Some FullAttentionManager"
| "spec_manager_map (MLAAttention _) = Some FullAttentionManager"
| "spec_manager_map (SlidingWindow a) = Some (SlidingWindowManager (window_size a))"
| "spec_manager_map (ChunkedLocalAttention a) = Some (ChunkedLocalAttentionManager (local_chunk_size a))"
| "spec_manager_map (Mamba a) = Some (MambaManager (spec_mamba_cache_mode a) (num_speculative_blocks a))"
| "spec_manager_map (CrossAttention _) = Some CrossAttentionManager"
| "spec_manager_map (SinkFullAttention _) = Some SinkFullAttentionManager"
| "spec_manager_map (EncoderOnlyAttention _) = None"

definition new_manager :: "manager_class \<Rightarrow> KVCacheSpec \<Rightarrow> bool \<Rightarrow> int \<Rightarrow> int \<Rightarrow> int \<Rightarrow> SingleTypeKVCacheManager" where
  "new_manager cls spec caching group_id dcp pcp =
     \<lparr>mgr_class = cls,
      mgr_block_size = (if dcp * pcp > 1 then spec_block_size spec * (dcp * pcp) else spec_block_size spec),
      mgr_spec = spec, mgr_enable_caching = caching, req_to_blocks = [], num_cached_block = [],
      kv_cache_group_id = group_id, last_state_block_idx = [], allocated_block_reqs = {}, sink_blocks = []\<rparr>"

fun spec_sink_len :: "KVCacheSpec \<Rightarrow> int option" where
  "spec_sink_len (SinkFullAttention a) = sink_len a"
| "spec_sink_len _ = None"

text \<open>The constructor of the sink manager takes its blocks straight from the free queue.\<close>

definition init_sink_blocks ::
    "SingleTypeKVCacheManager \<Rightarrow> block_pool \<Rightarrow> (block_pool \<times> SingleTypeKVCacheManager) result" where
  "init_sink_blocks m s = (case spec_sink_len (mgr_spec m) of
     None \<Rightarrow> Inl AssertionError
   | Some len \<Rightarrow>
       if len \<le> 0 then Inl AssertionError
       else if mgr_block_size m = 0 then Inl ZeroDivisionError
       else assertE (len mod mgr_block_size m = 0)
         (bindE (popleft_n (len div mgr_block_size m) s) (\<lambda>(s, bs).
          Inr (s, m\<lparr>sink_blocks := bs\<rparr>))))"

definition get_manager_for_kv_cache_spec ::
    "KVCacheSpec \<Rightarrow> bool \<Rightarrow> int \<Rightarrow> int \<Rightarrow> int \<Rightarrow> block_pool \<Rightarrow> (block_pool \<times> SingleTypeKVCacheManager) result" where
  "get_manager_for_kv_cache_spec spec caching group_id dcp pcp s =
     (case spec_manager_map spec of
        None \<Rightarrow> Inl KeyError
      | Some cls \<Rightarrow>
          (let m = new_manager cls spec caching group_id dcp pcp in
           if cls = SinkFullAttentionManager then init_sink_blocks m s else Inr (s, m)))"

subsection \<open>How much is needed\<close>

definition get_num_evictable_blocks :: "ptr list \<Rightarrow> block_pool \<Rightarrow> int" where
  "get_num_evictable_blocks bs s =
     int (length (filter (\<lambda>p. ref_cnt (heap s p) = 0 \<and> \<not> is_null (heap s p)) bs))"

definition get_num_skipped_tokens :: "SingleTypeKVCacheManager \<Rightarrow> int \<Rightarrow> int result" where
  "get_num_skipped_tokens m num_computed = (case mgr_class m of
     SlidingWindowManager w \<Rightarrow> Inr (max 0 (num_computed - w + 1))
   | ChunkedLocalAttentionManager chunk \<Rightarrow>
       bindE (floordivE num_computed chunk) (\<lambda>q. Inr (q * chunk))
   | MambaManager _ _ \<Rightarrow> Inr (num_computed - 1)
   | _ \<Rightarrow> Inr 0)"

definition base_num_blocks_to_allocate ::
    "SingleTypeKVCacheManager \<Rightarrow> string \<Rightarrow> int \<Rightarrow> ptr list \<Rightarrow> int \<Rightarrow> block_pool \<Rightarrow> int result" where
  "base_num_blocks_to_allocate m rid n_tokens new_computed_blocks total_computed_tokens s =
     bindE (cdivE n_tokens (mgr_block_size m)) (\<lambda>num_required_blocks.
     let num_req_blocks = int (length (blocks_of m rid)) in
     if map_of (num_cached_block m) rid \<noteq> None
     then assertE (new_computed_blocks = []) (Inr (max (num_required_blocks - num_req_blocks) 0))
     else bindE (get_num_skipped_tokens m total_computed_tokens) (\<lambda>num_skipped_tokens.
       let num_local_computed_blocks = int (length new_computed_blocks) + num_req_blocks;
           num_skipped_blocks = num_skipped_tokens div mgr_block_size m;
           num_new_blocks = max (num_required_blocks - max num_skipped_blocks num_local_computed_blocks) 0;
           num_skipped_new_computed_blocks = max 0 (num_skipped_blocks - num_req_blocks)
       in Inr (num_new_blocks
                + get_num_evictable_blocks (slice_from new_computed_blocks num_skipped_new_computed_blocks) s)))"

definition align_num_blocks_to_allocate ::
    "SingleTypeKVCacheManager \<Rightarrow> int \<Rightarrow> string \<Rightarrow> ptr list \<Rightarrow> int \<Rightarrow> block_pool \<Rightarrow> int result" where
  "align_num_blocks_to_allocate m num_speculative rid new_computed_blocks num_tokens_main_model s =
     bindE (cdivE num_tokens_main_model (mgr_block_size m)) (\<lambda>q.
     let num_new_blocks = q + num_speculative - int (length new_computed_blocks)
           - int (length (blocks_of m rid));
         num_new_blocks =
           (if num_new_blocks > 0
            then (if rid \<in> allocated_block_reqs m then 1 else 1 + num_speculative)
            else num_new_blocks)
     in Inr (num_new_blocks + get_num_evictable_blocks new_computed_blocks s))"

text \<open>The method with the override of the Mamba manager. In align mode it also creates the entry.\<close>

definition get_num_blocks_to_allocate ::
    "string \<Rightarrow> int \<Rightarrow> ptr list \<Rightarrow> int \<Rightarrow> int \<Rightarrow> block_pool \<Rightarrow> SingleTypeKVCacheManager
     \<Rightarrow> (SingleTypeKVCacheManager \<times> int) result" where
  "get_num_blocks_to_allocate rid n_tokens new_computed_blocks total_computed_tokens num_tokens_main_model s m =
     (case mgr_class m of
        MambaManager mode num_speculative \<Rightarrow>
          if mode \<noteq> ''align'' then
            bindE (base_num_blocks_to_allocate m rid
              (if num_speculative > 0
               then n_tokens + spec_block_size (mgr_spec m) * num_speculative else n_tokens)
              new_computed_blocks total_computed_tokens s) (\<lambda>n. Inr (m, n))
          else
            bindE (align_num_blocks_to_allocate m num_speculative rid new_computed_blocks
              num_tokens_main_model s) (\<lambda>n. Inr (touch_entry rid m, n))
      | _ \<Rightarrow>
          bindE (base_num_blocks_to_allocate m rid n_tokens new_computed_blocks total_computed_tokens s)
            (\<lambda>n. Inr (m, n)))"

subsection \<open>Allocation\<close>

definition base_allocate_new_computed_blocks ::
    "bool \<Rightarrow> string \<Rightarrow> ptr list \<Rightarrow> int \<Rightarrow> int \<Rightarrow> block_pool \<Rightarrow> SingleTypeKVCacheManager
     \<Rightarrow> (block_pool \<times> SingleTypeKVCacheManager) result" where
  "base_allocate_new_computed_blocks use_int rid new_computed_blocks num_local num_external s m =
     (if map_of (num_cached_block m) rid \<noteq> None
      then assertE (new_computed_blocks = []) (Inr (s, m))
      else assertE (blocks_of m rid = [])
        (let num_total = num_local + num_external in
         bindE (get_num_skipped_tokens m num_total) (\<lambda>num_skipped_tokens.
         bindE (floordivE num_skipped_tokens (mgr_block_size m)) (\<lambda>num_skipped_blocks.
         let new_computed_blocks =
               (if num_skipped_blocks > 0 then slice_from new_computed_blocks num_skipped_blocks
                else new_computed_blocks);
             num_external =
               (if num_skipped_blocks > 0 then min (num_total - num_skipped_tokens) num_external
                else num_external) in
         bindE (if mgr_enable_caching m then touch new_computed_blocks s
                else assertE (new_computed_blocks = []) (Inr s)) (\<lambda>s.
         let req_blocks = replicate (nat num_skipped_blocks) (null_block s) @ new_computed_blocks;
             m = m\<lparr>num_cached_block := AList.update rid (int (length req_blocks)) (num_cached_block m)\<rparr> in
         if num_external > 0 then
           bindE (get_new_blocks use_int (cdiv num_total (mgr_block_size m) - int (length req_blocks)) s)
             (\<lambda>(s, allocated). Inr (s, set_blocks rid (req_blocks @ allocated) m))
         else Inr (s, set_blocks rid req_blocks m))))))"

definition allocate_new_computed_blocks ::
    "bool \<Rightarrow> string \<Rightarrow> ptr list \<Rightarrow> int \<Rightarrow> int \<Rightarrow> block_pool \<Rightarrow> SingleTypeKVCacheManager
     \<Rightarrow> (block_pool \<times> SingleTypeKVCacheManager) result" where
  "allocate_new_computed_blocks use_int rid new_computed_blocks num_local num_external s m =
     (if mgr_class m = CrossAttentionManager
      then assertE (new_computed_blocks = []) (Inr (s, m))
      else base_allocate_new_computed_blocks use_int rid new_computed_blocks num_local num_external s m)"

definition base_allocate_new_blocks ::
    "bool \<Rightarrow> string \<Rightarrow> int \<Rightarrow> block_pool \<Rightarrow> SingleTypeKVCacheManager
     \<Rightarrow> (block_pool \<times> SingleTypeKVCacheManager \<times> ptr list) result" where
  "base_allocate_new_blocks use_int rid n_tokens s m =
     (let req_blocks = blocks_of m rid; m = touch_entry rid m in
      bindE (cdivE n_tokens (mgr_block_size m)) (\<lambda>num_required_blocks.
      let num_new_blocks = num_required_blocks - int (length req_blocks) in
      if num_new_blocks \<le> 0 then Inr (s, m, [])
      else bindE (get_new_blocks use_int num_new_blocks s) (\<lambda>(s, new_blocks).
        Inr (s, set_blocks rid (req_blocks @ new_blocks) m, new_blocks))))"

text \<open>The loop that moves the speculative blocks of the previous step behind the skipped ones.\<close>

fun reuse_loop :: "ptr \<Rightarrow> int \<Rightarrow> int list \<Rightarrow> ptr list \<Rightarrow> ptr list result" where
  "reuse_loop nb num_skipped_blocks [] bs = Inr bs"
| "reuse_loop nb num_skipped_blocks (i # is) bs =
     (if i < num_skipped_blocks
      then bindE (index_py bs i) (\<lambda>p.
        let j = (if i < 0 then nat (int (length bs) + i) else nat i) in
        reuse_loop nb num_skipped_blocks is
          (let bs = bs @ [p] in if i < 0 then bs[j + 1 := nb] else bs[j := nb]))
      else Inr bs)"

definition align_allocate_new_blocks ::
    "bool \<Rightarrow> string \<Rightarrow> int \<Rightarrow> int \<Rightarrow> block_pool \<Rightarrow> SingleTypeKVCacheManager
     \<Rightarrow> (block_pool \<times> SingleTypeKVCacheManager \<times> ptr list) result" where
  "align_allocate_new_blocks use_int rid num_speculative n_tokens s m =
     (let req_blocks = blocks_of m rid; m = touch_entry rid m;
          prev_block_len = int (length req_blocks) in
      bindE (cdivE n_tokens (mgr_block_size m)) (\<lambda>q.
      let num_required_blocks = q + num_speculative in
      if num_required_blocks = prev_block_len then Inr (s, m, [])
      else assertE (num_required_blocks > prev_block_len)
        (let blocks_allocated = (rid \<in> allocated_block_reqs m);
             m = (if blocks_allocated
                  then m\<lparr>last_state_block_idx := AList.update rid (prev_block_len - 1 - num_speculative)
                           (last_state_block_idx m)\<rparr>
                  else if prev_block_len > 0
                  then m\<lparr>last_state_block_idx := AList.update rid (prev_block_len - 1) (last_state_block_idx m)\<rparr>
                  else m);
             num_skipped_blocks = num_required_blocks - num_speculative - 1;
             req_blocks =
               (if prev_block_len < num_skipped_blocks
                then req_blocks @ replicate (nat (num_skipped_blocks - prev_block_len)) (null_block s)
                else req_blocks) in
         bindE (if blocks_allocated
                then reuse_loop (null_block s) num_skipped_blocks
                       [prev_block_len - num_speculative..prev_block_len - 1] req_blocks
                else Inr req_blocks) (\<lambda>req_blocks.
         let num_new_blocks = num_required_blocks - int (length req_blocks) in
         assertE (num_new_blocks \<le> (if blocks_allocated then 1 else num_speculative + 1))
           (bindE (get_new_blocks use_int num_new_blocks s) (\<lambda>(s, new_blocks).
            let req_blocks = req_blocks @ new_blocks in
            Inr (s, set_blocks rid req_blocks
                      (m\<lparr>allocated_block_reqs := insert rid (allocated_block_reqs m)\<rparr>),
                 slice_from req_blocks prev_block_len)))))))"

definition allocate_new_blocks ::
    "bool \<Rightarrow> string \<Rightarrow> int \<Rightarrow> int \<Rightarrow> block_pool \<Rightarrow> SingleTypeKVCacheManager
     \<Rightarrow> (block_pool \<times> SingleTypeKVCacheManager \<times> ptr list) result" where
  "allocate_new_blocks use_int rid n_tokens num_tokens_main_model s m =
     (case mgr_class m of
        MambaManager mode num_speculative \<Rightarrow>
          if mode \<noteq> ''align'' then
            base_allocate_new_blocks use_int rid
              (if num_speculative > 0 then n_tokens + mgr_block_size m * num_speculative else n_tokens) s m
          else align_allocate_new_blocks use_int rid num_speculative num_tokens_main_model s m
      | _ \<Rightarrow> base_allocate_new_blocks use_int rid n_tokens s m)"

subsection \<open>Caching and freeing\<close>

definition cache_blocks ::
    "bool \<Rightarrow> Request \<Rightarrow> int \<Rightarrow> block_pool \<Rightarrow> SingleTypeKVCacheManager
     \<Rightarrow> (block_pool \<times> SingleTypeKVCacheManager) result" where
  "cache_blocks use_int r n_tokens s m =
     (if mgr_class m = CrossAttentionManager then Inl ValueError
      else
        (let rid = request_id r;
             num_cached_blocks = (case map_of (num_cached_block m) rid of None \<Rightarrow> 0 | Some n \<Rightarrow> n) in
         bindE (floordivE n_tokens (mgr_block_size m)) (\<lambda>num_full_blocks.
         if num_cached_blocks \<ge> num_full_blocks then Inr (s, m)
         else bindE (cache_full_blocks use_int r (blocks_of m rid) num_cached_blocks num_full_blocks
                (mgr_block_size m) (kv_cache_group_id m) s) (\<lambda>s.
           Inr (s, (touch_entry rid m)\<lparr>num_cached_block :=
                     AList.update rid num_full_blocks (num_cached_block m)\<rparr>)))))"

definition free_request_blocks ::
    "string \<Rightarrow> block_pool \<Rightarrow> SingleTypeKVCacheManager \<Rightarrow> (block_pool \<times> SingleTypeKVCacheManager) result" where
  "free_request_blocks rid s m =
     (let m = (case mgr_class m of
                 MambaManager mode _ \<Rightarrow>
                   if mode = ''align''
                   then m\<lparr>allocated_block_reqs := allocated_block_reqs m - {rid},
                          last_state_block_idx := AList.delete rid (last_state_block_idx m)\<rparr>
                   else m
               | _ \<Rightarrow> m);
          req_blocks = blocks_of m rid;
          m = m\<lparr>req_to_blocks := AList.delete rid (req_to_blocks m)\<rparr> in
      bindE (free_blocks (rev req_blocks) s) (\<lambda>s.
      Inr (s, m\<lparr>num_cached_block := AList.delete rid (num_cached_block m)\<rparr>)))"

text \<open>
  The loop over \<^verbatim>\<open>range(num_skipped_blocks - 1, -1, -1)\<close>: it stops at the first null block and
  returns the new list and the removed blocks.
\<close>

fun remove_loop :: "ptr \<Rightarrow> nat \<Rightarrow> ptr list \<Rightarrow> ptr list \<times> ptr list" where
  "remove_loop nb 0 bs = (bs, [])"
| "remove_loop nb (Suc i) bs =
     (if bs ! i = nb then (bs, [])
      else let (bs', removed) = remove_loop nb i (bs[i := nb]) in (bs', bs ! i # removed))"

definition base_remove_skipped_blocks ::
    "string \<Rightarrow> int \<Rightarrow> block_pool \<Rightarrow> SingleTypeKVCacheManager \<Rightarrow> (block_pool \<times> SingleTypeKVCacheManager) result" where
  "base_remove_skipped_blocks rid total_computed_tokens s m =
     bindE (get_num_skipped_tokens m total_computed_tokens) (\<lambda>num_skipped_tokens.
     if num_skipped_tokens \<le> 0 then Inr (s, m)
     else bindE (floordivE num_skipped_tokens (mgr_block_size m)) (\<lambda>q.
       let bs = blocks_of m rid;
           num_skipped_blocks = min q (int (length bs));
           (bs', removed) = remove_loop (null_block s) (nat num_skipped_blocks) bs in
       bindE (free_blocks removed s) (\<lambda>s. Inr (s, set_blocks rid bs' m))))"

text \<open>The Mamba override, which in align mode also drops the state block of two steps ago.\<close>

definition remove_skipped_blocks ::
    "string \<Rightarrow> int \<Rightarrow> block_pool \<Rightarrow> SingleTypeKVCacheManager \<Rightarrow> (block_pool \<times> SingleTypeKVCacheManager) result" where
  "remove_skipped_blocks rid num_computed s m =
     bindE (base_remove_skipped_blocks rid num_computed s m) (\<lambda>(s, m).
     case mgr_class m of
       MambaManager mode _ \<Rightarrow>
         if mode \<noteq> ''align'' then Inr (s, m)
         else (case map_of (last_state_block_idx m) rid of
            None \<Rightarrow> Inr (s, m)
          | Some idx \<Rightarrow>
              bindE (cdivE num_computed (mgr_block_size m)) (\<lambda>n.
              if idx < n - 1 then
                bindE (index_py (blocks_of m rid) idx) (\<lambda>p.
                let m = touch_entry rid m; bs = blocks_of m rid;
                    j = (if idx < 0 then nat (int (length bs) + idx) else nat idx) in
                if p \<noteq> null_block s
                then bindE (free_blocks [p] s) (\<lambda>s. Inr (s, set_blocks rid (bs[j := null_block s]) m))
                else Inr (s, m))
              else Inr (s, m)))
     | _ \<Rightarrow> Inr (s, m))"

text \<open>The common prefix of all requests; only full attention counts it.\<close>

definition get_num_common_prefix_blocks ::
    "string \<Rightarrow> block_pool \<Rightarrow> SingleTypeKVCacheManager \<Rightarrow> SingleTypeKVCacheManager \<times> int" where
  "get_num_common_prefix_blocks rid s m =
     (if mgr_class m = FullAttentionManager \<or> mgr_class m = SinkFullAttentionManager
      then (let m = touch_entry rid m in
        (m, int (length (takeWhile (\<lambda>p. ref_cnt (heap s p) = int (length (req_to_blocks m))) (blocks_of m rid)))))
      else (m, 0))"

end
