(* ===== verification/Cache_Hit.thy ===== *)
theory Cache_Hit
  imports Single_Type_Manager
begin

section \<open>Prefix cache lookup\<close>

text \<open>
  \<^verbatim>\<open>find_longest_cache_hit\<close> of the manager classes in
  \<^verbatim>\<open>vllm/v1/core/single_type_kv_cache_manager.py\<close>: given the block hashes of a request, the longest
  prefix whose key-value cache can be reused. Full attention needs every block, a sliding window
  only the last blocks, Mamba only the last one. After the definitions, each search is
  shown to return the longest prefix that its attention type can use, with no hole inside
  the attention window.
\<close>

subsection \<open>Hash sequences\<close>

text \<open>\<^verbatim>\<open>BlockHashList = list[BlockHash] | BlockHashListWithBlockSize\<close>, with indexing and iteration.\<close>

datatype BlockHashList = HashList "bytes list" | ScaledHashes BlockHashListWithBlockSize

fun hashes_index :: "BlockHashList \<Rightarrow> int \<Rightarrow> bytes result" where
  "hashes_index (HashList hs) i = index_py hs i"
| "hashes_index (ScaledHashes l) i = get_value_at l i"

text \<open>The \<open>i\<close>-th step of \<^verbatim>\<open>iter(block_hashes)\<close>; \<open>None\<close> is the end of the iteration.\<close>

fun hashes_next :: "BlockHashList \<Rightarrow> int \<Rightarrow> bytes option result" where
  "hashes_next (HashList hs) i = Inr (if i < int (length hs) then Some (hs ! nat i) else None)"
| "hashes_next (ScaledHashes l) i =
     (if scale_factor l = 0 then Inl ZeroDivisionError
      else if bh_len l < 0 then Inl ValueError
      else if i < bh_len l then bindE (get_value_at l i) (\<lambda>h. Inr (Some h)) else Inr None)"

subsection \<open>Shared loops\<close>

text \<open>
  \<open>computed_blocks\<close> is a tuple with one list per group. The walrus test on the result of
  \<open>get_cached_block\<close> is its truth value, so an empty list counts as a miss.
\<close>

fun hit_of :: "ptr list option \<Rightarrow> ptr list option" where
  "hit_of (Some (p # ps)) = Some (p # ps)"
| "hit_of _ = None"

text \<open>The loop that appends hits from left to right and stops at the first miss.\<close>

fun hits_loop ::
    "(int \<Rightarrow> bytes option result) \<Rightarrow> int list \<Rightarrow> block_pool \<Rightarrow> nat \<Rightarrow> int \<Rightarrow> ptr list list \<Rightarrow> ptr list list result" where
  "hits_loop fetch gids s 0 i computed = Inr computed"
| "hits_loop fetch gids s (Suc n) i computed =
     bindE (fetch i) (\<lambda>h. case h of
       None \<Rightarrow> Inr computed
     | Some bh \<Rightarrow> bindE (get_cached_block bh gids s) (\<lambda>r. case hit_of r of
         None \<Rightarrow> Inr computed
       | Some ps \<Rightarrow> hits_loop fetch gids s n (i + 1) (map2 (\<lambda>c p. c @ [p]) computed ps)))"

definition pop_each :: "ptr list list \<Rightarrow> ptr list list result" where
  "pop_each computed = mapE (\<lambda>c. if c = [] then Inl IndexError else Inr (butlast c)) computed"

declare bindE_cong [fundef_cong]

text \<open>The \<open>while\<close> loop that pops blocks until the hit length is a multiple of \<open>alignment_tokens\<close>.\<close>

function align_loop :: "int \<Rightarrow> int \<Rightarrow> ptr list list \<Rightarrow> ptr list list result" where
  "align_loop bs align [] = (if bs \<noteq> align then Inl IndexError else Inr [])"
| "align_loop bs align (c # cs) =
     (if bs = align then Inr (c # cs)
      else if align = 0 then Inl ZeroDivisionError
      else if int (length c) * bs mod align \<noteq> 0 then bindE (pop_each (c # cs)) (align_loop bs align)
      else Inr (c # cs))"
  by pat_completeness auto
termination
  by (relation "measure (\<lambda>(bs, align, cs). case cs of [] \<Rightarrow> 0 | c # _ \<Rightarrow> length c)")
    (auto simp: pop_each_def bindE_Inr_iff split: if_splits)

text \<open>\<^verbatim>\<open>computed_blocks[0]\<close>.\<close>

definition first_computed :: "ptr list list \<Rightarrow> ptr list result" where
  "first_computed computed = index_py computed 0"

text \<open>The test \<^verbatim>\<open>block_size != alignment_tokens and (i + 1) * block_size % alignment_tokens != 0\<close>.\<close>

definition misaligned :: "int \<Rightarrow> int \<Rightarrow> int \<Rightarrow> bool result" where
  "misaligned bs align n =
     (if bs = align then Inr False
      else if align = 0 then Inl ZeroDivisionError
      else Inr (n * bs mod align \<noteq> 0))"

subsection \<open>The search of each manager\<close>

definition full_find_longest_cache_hit ::
    "BlockHashList \<Rightarrow> int \<Rightarrow> int list \<Rightarrow> block_pool \<Rightarrow> KVCacheSpec \<Rightarrow> bool \<Rightarrow> int \<Rightarrow> int \<Rightarrow> int \<Rightarrow> ptr list list result" where
  "full_find_longest_cache_hit hashes max_length gids s spec use_eagle align dcp pcp =
     assertE (is_full spec \<or> (case spec of ChunkedLocalAttention _ \<Rightarrow> True | _ \<Rightarrow> False))
       (let bs = (if dcp * pcp > 1 then spec_block_size spec * (dcp * pcp) else spec_block_size spec) in
        bindE (floordivE max_length bs) (\<lambda>max_num_blocks.
        if max_num_blocks < 0 then Inl ValueError
        else bindE (hits_loop (hashes_next hashes) gids s (nat max_num_blocks) 0 (replicate (length gids) []))
          (\<lambda>computed.
           bindE (if use_eagle
                  then bindE (first_computed computed) (\<lambda>c. if c \<noteq> [] then pop_each computed else Inr computed)
                  else Inr computed)
             (align_loop bs align))))"

text \<open>The loop over \<^verbatim>\<open>range(max_num_blocks - 1, -1, -1)\<close>: the blocks, the counter and the flag \<open>match_found\<close>.\<close>

fun window_loop ::
    "BlockHashList \<Rightarrow> int list \<Rightarrow> block_pool \<Rightarrow> int \<Rightarrow> int \<Rightarrow> int \<Rightarrow> nat \<Rightarrow> int \<Rightarrow> ptr list list
     \<Rightarrow> (ptr list list \<times> int \<times> bool) result" where
  "window_loop hashes gids s bs align need 0 contiguous computed = Inr (computed, contiguous, False)"
| "window_loop hashes gids s bs align need (Suc i) contiguous computed =
     bindE (hashes_index hashes (int i)) (\<lambda>bh.
     bindE (get_cached_block bh gids s) (\<lambda>r. case hit_of r of
       None \<Rightarrow> window_loop hashes gids s bs align need i 0 computed
     | Some ps \<Rightarrow>
         bindE (if contiguous = 0 then misaligned bs align (int i + 1) else Inr False) (\<lambda>skip.
         if skip then window_loop hashes gids s bs align need i contiguous computed
         else
           (let computed = map2 (\<lambda>c p. c[i := p]) computed ps; contiguous = contiguous + 1 in
            if contiguous \<ge> need
            then Inr (map (take (nat (int i + contiguous))) computed, contiguous, True)
            else window_loop hashes gids s bs align need i contiguous computed))))"

definition window_find_longest_cache_hit ::
    "BlockHashList \<Rightarrow> int \<Rightarrow> int list \<Rightarrow> block_pool \<Rightarrow> KVCacheSpec \<Rightarrow> bool \<Rightarrow> int \<Rightarrow> int \<Rightarrow> int \<Rightarrow> ptr list list result" where
  "window_find_longest_cache_hit hashes max_length gids s spec use_eagle align dcp pcp = (case spec of
     SlidingWindow a \<Rightarrow>
       assertE (dcp = 1) (assertE (pcp = 1)
         (let bs = spec_block_size spec in
          bindE (cdivE (window_size a - 1) bs) (\<lambda>q.
          let need = (if use_eagle then q + 1 else q) in
          bindE (floordivE max_length bs) (\<lambda>max_num_blocks.
          bindE (window_loop hashes gids s bs align need (nat max_num_blocks) 0
                   (replicate (length gids) (replicate (nat max_num_blocks) (null_block s))))
            (\<lambda>(computed, contiguous, match_found).
          bindE (if match_found then Inr computed
                 else align_loop bs align (map (take (nat contiguous)) computed)) (\<lambda>computed.
          if use_eagle
          then bindE (first_computed computed) (\<lambda>c.
            if c \<noteq> [] then assertE (bs = align) (pop_each computed) else Inr computed)
          else Inr computed))))))
   | _ \<Rightarrow> Inl AssertionError)"

definition chunked_find_longest_cache_hit ::
    "BlockHashList \<Rightarrow> int \<Rightarrow> int list \<Rightarrow> block_pool \<Rightarrow> KVCacheSpec \<Rightarrow> bool \<Rightarrow> int \<Rightarrow> int \<Rightarrow> int \<Rightarrow> ptr list list result" where
  "chunked_find_longest_cache_hit hashes max_length gids s spec use_eagle align dcp pcp = (case spec of
     ChunkedLocalAttention a \<Rightarrow>
       assertE (\<not> use_eagle) (assertE (dcp = 1) (assertE (pcp = 1)
         (let bs = spec_block_size spec in
          assertE (bs = align)
            (bindE (floordivE max_length bs) (\<lambda>max_num_blocks.
             bindE (if max_length > 0
                    then bindE (floordivE max_length (local_chunk_size a)) (\<lambda>q. Inr (q * local_chunk_size a))
                    else Inr 0) (\<lambda>start_idx.
             let start_block = start_idx div bs in
             hits_loop (\<lambda>i. bindE (hashes_index hashes i) (\<lambda>h. Inr (Some h))) gids s
               (nat (max_num_blocks - start_block)) start_block
               (replicate (length gids) (replicate (nat start_block) (null_block s)))))))))
   | _ \<Rightarrow> Inl AssertionError)"

fun last_state_loop ::
    "BlockHashList \<Rightarrow> int list \<Rightarrow> block_pool \<Rightarrow> int \<Rightarrow> int \<Rightarrow> nat \<Rightarrow> ptr list list \<Rightarrow> ptr list list result" where
  "last_state_loop hashes gids s bs align 0 computed = Inr computed"
| "last_state_loop hashes gids s bs align (Suc i) computed =
     bindE (hashes_index hashes (int i)) (\<lambda>bh.
     bindE (get_cached_block bh gids s) (\<lambda>r. case hit_of r of
       None \<Rightarrow> last_state_loop hashes gids s bs align i computed
     | Some ps \<Rightarrow>
         bindE (misaligned bs align (int i + 1)) (\<lambda>skip.
         if skip then last_state_loop hashes gids s bs align i computed
         else Inr (map2 (\<lambda>c p. c @ replicate i (null_block s) @ [p]) computed ps))))"

definition mamba_find_longest_cache_hit ::
    "BlockHashList \<Rightarrow> int \<Rightarrow> int list \<Rightarrow> block_pool \<Rightarrow> KVCacheSpec \<Rightarrow> bool \<Rightarrow> int \<Rightarrow> int \<Rightarrow> int \<Rightarrow> ptr list list result" where
  "mamba_find_longest_cache_hit hashes max_length gids s spec use_eagle align dcp pcp = (case spec of
     Mamba _ \<Rightarrow>
       assertE (dcp = 1) (assertE (pcp = 1)
         (let bs = spec_block_size spec in
          bindE (floordivE max_length bs) (\<lambda>max_num_blocks.
          last_state_loop hashes gids s bs align (nat max_num_blocks) (replicate (length gids) []))))
   | _ \<Rightarrow> Inl AssertionError)"

definition cross_find_longest_cache_hit :: "KVCacheSpec \<Rightarrow> ptr list list result" where
  "cross_find_longest_cache_hit spec =
     (case spec of CrossAttention _ \<Rightarrow> Inl NotImplementedError | _ \<Rightarrow> Inl AssertionError)"

text \<open>The class method of each manager class.\<close>

definition find_longest_cache_hit ::
    "manager_class \<Rightarrow> BlockHashList \<Rightarrow> int \<Rightarrow> int list \<Rightarrow> block_pool \<Rightarrow> KVCacheSpec \<Rightarrow> bool \<Rightarrow> int \<Rightarrow> int \<Rightarrow> int
     \<Rightarrow> ptr list list result" where
  "find_longest_cache_hit cls hashes max_length gids s spec use_eagle align dcp pcp = (case cls of
     FullAttentionManager \<Rightarrow> full_find_longest_cache_hit hashes max_length gids s spec use_eagle align dcp pcp
   | SinkFullAttentionManager \<Rightarrow> full_find_longest_cache_hit hashes max_length gids s spec use_eagle align dcp pcp
   | SlidingWindowManager _ \<Rightarrow> window_find_longest_cache_hit hashes max_length gids s spec use_eagle align dcp pcp
   | ChunkedLocalAttentionManager _ \<Rightarrow> chunked_find_longest_cache_hit hashes max_length gids s spec use_eagle align dcp pcp
   | MambaManager _ _ \<Rightarrow> mamba_find_longest_cache_hit hashes max_length gids s spec use_eagle align dcp pcp
   | CrossAttentionManager \<Rightarrow> cross_find_longest_cache_hit spec)"

subsection \<open>Lookup of one hash in all groups\<close>

definition gids_ok :: "int list \<Rightarrow> bool" where
  "gids_ok gids \<longleftrightarrow> gids \<noteq> [] \<and> (\<forall>g \<in> set gids. 0 \<le> g \<and> g < 2 ^ 32)"

text \<open>The blocks that hold the hash, one per group, if every group has one.\<close>

definition hit_at :: "block_pool \<Rightarrow> int list \<Rightarrow> bytes \<Rightarrow> ptr list option" where
  "hit_at s gids bh = (case get_cached_block bh gids s of Inr r \<Rightarrow> hit_of r | Inl _ \<Rightarrow> None)"

definition hit_block :: "block_pool \<Rightarrow> int list \<Rightarrow> bytes list \<Rightarrow> nat \<Rightarrow> nat \<Rightarrow> ptr" where
  "hit_block s gids vs g j = the (hit_at s gids (vs ! j)) ! g"

text \<open>The block is cached for position \<open>j\<close> in every group.\<close>

definition cached_at :: "block_pool \<Rightarrow> int list \<Rightarrow> bytes list \<Rightarrow> nat \<Rightarrow> bool" where
  "cached_at s gids vs j \<longleftrightarrow> j < length vs \<and> (\<forall>g \<in> set gids. \<exists>p key.
     make_block_hash_with_group_id (vs ! j) g = Inr key \<and> block_with_key s key p)"

lemma hit_at_cases:
  assumes "pool_inv s" and "gids_ok gids"
  obtains (miss) r where "get_cached_block bh gids s = Inr r" "hit_of r = None" "hit_at s gids bh = None"
      "\<exists>g \<in> set gids. \<forall>key p. make_block_hash_with_group_id bh g = Inr key \<longrightarrow> \<not> block_with_key s key p"
  | (hit) ps where "get_cached_block bh gids s = Inr (Some ps)" "hit_of (Some ps) = Some ps" "hit_at s gids bh = Some ps"
      "list_all2 (\<lambda>g p. \<exists>key. make_block_hash_with_group_id bh g = Inr key \<and> block_with_key s key p) gids ps"
proof -
  obtain xs where "pool_rel s xs" using assms(1) by (auto simp: pool_inv_def)
  then have "cache_ok s" by (rule pool_relD(3))
  from get_cached_block_ok [OF this] assms(2) obtain r where r: "get_cached_block bh gids s = Inr r" "case r of
      None \<Rightarrow> \<exists>g \<in> set gids. \<exists>key. make_block_hash_with_group_id bh g = Inr key \<and> (\<nexists>p. block_with_key s key p)
    | Some ps \<Rightarrow> list_all2 (\<lambda>g p. \<exists>key. make_block_hash_with_group_id bh g = Inr key \<and> block_with_key s key p) gids ps"
    unfolding gids_ok_def by blast
  show ?thesis
  proof (cases r)
    case None
    with r miss [of None] show ?thesis by (force simp: hit_at_def)
  next
    case (Some ps)
    with r assms(2) have "ps \<noteq> []" by (auto simp: gids_ok_def)
    then have "hit_of (Some ps) = Some ps" by (cases ps) auto
    with Some r hit [of ps] show ?thesis by (simp add: hit_at_def)
  qed
qed

lemma cached_at_hit:
  assumes "pool_inv s" and "gids_ok gids"
  shows "cached_at s gids vs j \<longleftrightarrow> j < length vs \<and> hit_at s gids (vs ! j) \<noteq> None"
  using assms
proof (cases rule: hit_at_cases [where bh = "vs ! j"])
  case (miss r)
  then show ?thesis by (force simp: cached_at_def)
next
  case (hit ps)
  from hit(4) have "\<exists>p key. make_block_hash_with_group_id (vs ! j) g = Inr key \<and> block_with_key s key p" if "g \<in> set gids" for g
    using that by (fastforce simp: list_all2_conv_all_nth in_set_conv_nth)
  with hit(3) show ?thesis by (auto simp: cached_at_def)
qed

lemma hit_block_key:
  assumes "pool_inv s" and "gids_ok gids" and "cached_at s gids vs j" and "g < length gids"
  shows "\<exists>key. make_block_hash_with_group_id (vs ! j) (gids ! g) = Inr key \<and> block_with_key s key (hit_block s gids vs g j)"
  using assms(1,2)
proof (cases rule: hit_at_cases [where bh = "vs ! j"])
  case (miss r)
  with assms(3) show ?thesis by (simp add: cached_at_hit [OF assms(1,2)])
next
  case (hit ps)
  with assms(4) show ?thesis by (auto simp: hit_block_def list_all2_conv_all_nth)
qed

text \<open>The values of a hash sequence.\<close>

definition hash_values :: "BlockHashList \<Rightarrow> bytes list \<Rightarrow> bool" where
  "hash_values hashes vs \<longleftrightarrow> (\<forall>i < length vs. hashes_index hashes (int i) = Inr (vs ! i)
      \<and> hashes_next hashes (int i) = Inr (Some (vs ! i))) \<and> hashes_next hashes (int (length vs)) = Inr None"

lemma hash_values_list [simp]: "hash_values (HashList hs) hs"
  by (simp add: hash_values_def index_py_nonneg)

lemma hash_values_scaled:
  assumes "0 < scale_factor l" and "iter_values l = Inr vs"
  shows "hash_values (ScaledHashes l) vs"
proof -
  have n: "0 \<le> bh_len l" using assms(1) by (simp add: bh_len_def pos_imp_zdiv_nonneg_iff)
  have len: "int (length vs) = bh_len l"
    using mapE_length [OF assms(2) [unfolded iter_values_def]] n by simp
  have "get_value_at l (int i) = Inr (vs ! i)" if "i < length vs" for i
  proof -
    have "list_all2 (\<lambda>i v. get_value_at l i = Inr v) [0..bh_len l - 1] vs"
      using assms(2) by (simp add: iter_values_def mapE_Inr_iff)
    then show ?thesis using that by (simp add: list_all2_conv_all_nth)
  qed
  then show ?thesis using assms(1) n len by (simp add: hash_values_def)
qed

subsection \<open>Grids\<close>

text \<open>One list of \<open>n\<close> blocks per group.\<close>

definition grid :: "nat \<Rightarrow> nat \<Rightarrow> (nat \<Rightarrow> nat \<Rightarrow> ptr) \<Rightarrow> ptr list list" where
  "grid G n f = map (\<lambda>g. map (f g) [0..<n]) [0..<G]"

lemma grid_dims [simp]: "length (grid G n f) = G" "g < G \<Longrightarrow> grid G n f ! g = map (f g) [0..<n]"
  by (simp_all add: grid_def)

lemma grid_cong: "(\<And>g j. g < G \<Longrightarrow> j < n \<Longrightarrow> f g j = f' g j) \<Longrightarrow> grid G n f = grid G n f'"
  by (simp add: grid_def)

lemma grid_nulls: "replicate G (replicate n p) = grid G n (\<lambda>_ _. p)"
  by (simp add: grid_def map_replicate_const)

lemma grid_append:
  assumes "length ps = G" and "\<And>g. g < G \<Longrightarrow> ps ! g = f g n"
  shows "map2 (\<lambda>c p. c @ [p]) (grid G n f) ps = grid G (Suc n) f"
  using assms by (intro nth_equalityI) simp_all

lemma grid_update:
  assumes "length ps = G"
  shows "map2 (\<lambda>c p. c[i := p]) (grid G n f) ps = grid G n (\<lambda>g j. if j = i then ps ! g else f g j)"
  using assms by (intro nth_equalityI) (auto simp: nth_list_update intro!: nth_equalityI)

lemma grid_take: "map (take k) (grid G n f) = grid G (min k n) f"
  by (auto simp: grid_def take_map min_def)

lemma grid_pop: "pop_each (grid G (Suc n) f) = Inr (grid G n f)"
proof -
  have "pop_each (grid G (Suc n) f) = Inr (map butlast (grid G (Suc n) f))"
    unfolding pop_each_def by (rule mapE_total) (auto simp: grid_def)
  also have "map butlast (grid G (Suc n) f) = grid G n f"
    by (intro nth_equalityI) simp_all
  finally show ?thesis .
qed

lemma grid_Suc: "0 < G \<Longrightarrow> grid G n f = map (f 0) [0..<n] # tl (grid G n f)"
  by (simp add: grid_def upt_conv_Cons)

lemma first_grid: "0 < G \<Longrightarrow> first_computed (grid G n f) = Inr (map (f 0) [0..<n])"
  by (simp add: first_computed_def index_py_nonneg)

definition aligned :: "int \<Rightarrow> int \<Rightarrow> nat \<Rightarrow> bool" where
  "aligned bs align n \<longleftrightarrow> bs = align \<or> align dvd int n * bs"

lemma misaligned_eq: "bs = align \<or> align \<noteq> 0 \<Longrightarrow> misaligned bs align (int n) = Inr (\<not> aligned bs align n)"
  by (auto simp: misaligned_def aligned_def dvd_eq_mod_eq_0)

text \<open>The greatest aligned length up to \<open>n\<close>.\<close>

fun align_down :: "int \<Rightarrow> int \<Rightarrow> nat \<Rightarrow> nat" where
  "align_down bs align 0 = 0"
| "align_down bs align (Suc n) = (if aligned bs align (Suc n) then Suc n else align_down bs align n)"

lemma align_down_greatest:
  "align_down bs align n \<le> n \<and> aligned bs align (align_down bs align n)
   \<and> (\<forall>k \<le> n. aligned bs align k \<longrightarrow> k \<le> align_down bs align n)"
  by (induction n) (auto simp: aligned_def le_Suc_eq)

lemma align_down_id: "aligned bs align n \<Longrightarrow> align_down bs align n = n"
  by (cases n) auto

lemma align_loop_grid:
  assumes "0 < G" and "align \<noteq> 0"
  shows "align_loop bs align (grid G n f) = Inr (grid G (align_down bs align n) f)"
proof (induction n)
  case 0
  then show ?case using assms(2) by (subst (1 2) grid_Suc [OF assms(1)]) simp
next
  case (Suc n)
  show ?case
  proof (cases "aligned bs align (Suc n)")
    case True
    then show ?thesis
      by (subst (1 2) grid_Suc [OF assms(1)])
        (auto simp: aligned_def dvd_eq_mod_eq_0 simp flip: of_nat_Suc)
  next
    case False
    then have "align_loop bs align (grid G (Suc n) f) = bindE (pop_each (grid G (Suc n) f)) (align_loop bs align)"
      using assms(2)
      by (subst (1 2) grid_Suc [OF assms(1)]) (simp add: aligned_def dvd_eq_mod_eq_0 del: upt_Suc)
    then show ?thesis using False Suc by (simp add: grid_pop)
  qed
qed

subsection \<open>The loops on grids\<close>

text \<open>How many blocks from \<open>i\<close> on are cached, among the next \<open>n\<close>.\<close>

definition run_from :: "block_pool \<Rightarrow> int list \<Rightarrow> bytes list \<Rightarrow> nat \<Rightarrow> nat \<Rightarrow> nat" where
  "run_from s gids vs i n = length (takeWhile (cached_at s gids vs) [i..<i + n])"

lemma run_from_spec:
  "run_from s gids vs i n \<le> n"
  "j < run_from s gids vs i n \<Longrightarrow> cached_at s gids vs (i + j)"
  "run_from s gids vs i n < n \<Longrightarrow> \<not> cached_at s gids vs (i + run_from s gids vs i n)"
proof -
  show "run_from s gids vs i n \<le> n"
    unfolding run_from_def by (rule order_trans [OF length_takeWhile_le]) simp
  show "cached_at s gids vs (i + j)" if "j < run_from s gids vs i n" for j
  proof -
    have "takeWhile (cached_at s gids vs) [i..<i + n] ! j = i + j"
      using that length_takeWhile_le [of "cached_at s gids vs" "[i..<i + n]"]
      by (simp add: takeWhile_nth run_from_def)
    moreover have "cached_at s gids vs (takeWhile (cached_at s gids vs) [i..<i + n] ! j)"
      using that by (metis nth_mem run_from_def set_takeWhileD)
    ultimately show ?thesis by simp
  qed
  show "\<not> cached_at s gids vs (i + run_from s gids vs i n)" if "run_from s gids vs i n < n"
    using nth_length_takeWhile [of "cached_at s gids vs" "[i..<i + n]"] that by (simp add: run_from_def)
qed

lemma hits_loop_grid:
  assumes inv: "pool_inv s" "gids_ok gids"
    and fetch: "\<And>j. i \<le> j \<Longrightarrow> j < i + n \<Longrightarrow> j \<le> length vs \<Longrightarrow> fetch (int j) = Inr (if j < length vs then Some (vs ! j) else None)"
    and f: "\<And>g j. g < length gids \<Longrightarrow> i \<le> j \<Longrightarrow> f g j = hit_block s gids vs g j" and i: "i \<le> length vs"
  shows "hits_loop fetch gids s n (int i) (grid (length gids) i f)
    = Inr (grid (length gids) (i + run_from s gids vs i n) f)"
  using fetch f i
proof (induction n arbitrary: i)
  case 0
  then show ?case by (simp add: run_from_def)
next
  case (Suc n)
  have up: "[i..<i + Suc n] = i # [Suc i..<Suc i + n]" by (simp add: upt_conv_Cons)
  have next_i: "fetch (int i) = Inr (if i < length vs then Some (vs ! i) else None)" using Suc.prems(1) [of i] Suc.prems(3) by simp
  show ?case
  proof (cases "cached_at s gids vs i")
    case False
    then have "run_from s gids vs i (Suc n) = 0" unfolding run_from_def up by simp
    with inv show ?thesis
    proof (cases rule: hit_at_cases [where bh = "vs ! i"])
      case (miss r)
      with next_i \<open>run_from s gids vs i (Suc n) = 0\<close> show ?thesis by simp
    next
      case (hit ps)
      with False have "\<not> i < length vs" by (simp add: cached_at_hit [OF inv])
      with next_i \<open>run_from s gids vs i (Suc n) = 0\<close> show ?thesis by simp
    qed
  next
    case True
    have run: "run_from s gids vs i (Suc n) = Suc (run_from s gids vs (Suc i) n)"
      using True unfolding run_from_def up by simp
    have i: "i < length vs" using True by (simp add: cached_at_def)
    from inv show ?thesis
    proof (cases rule: hit_at_cases [where bh = "vs ! i"])
      case (miss r)
      with True show ?thesis by (simp add: cached_at_hit [OF inv])
    next
      case (hit ps)
      have len: "length ps = length gids" using hit(4) by (simp add: list_all2_lengthD)
      have "map2 (\<lambda>c p. c @ [p]) (grid (length gids) i f) ps = grid (length gids) (Suc i) f"
        using len Suc.prems(2) hit(3) by (intro grid_append) (simp_all add: hit_block_def)
      moreover have "hits_loop fetch gids s n (int (Suc i)) (grid (length gids) (Suc i) f)
          = Inr (grid (length gids) (Suc i + run_from s gids vs (Suc i) n) f)"
        by (rule Suc.IH) (use Suc.prems i in auto)
      ultimately show ?thesis using next_i i hit(1,2) by (simp add: run ac_simps)
    qed
  qed
qed

text \<open>
  A length \<open>n\<close> is usable by a window that needs the last \<open>need\<close> blocks when it is aligned and those
  blocks are cached.
\<close>

definition window_ok :: "block_pool \<Rightarrow> int list \<Rightarrow> bytes list \<Rightarrow> int \<Rightarrow> int \<Rightarrow> nat \<Rightarrow> nat \<Rightarrow> bool" where
  "window_ok s gids vs bs align need n \<longleftrightarrow> aligned bs align n
     \<and> (\<forall>j < n. n \<le> j + need \<longrightarrow> cached_at s gids vs j)"

lemma window_loop_grid:
  assumes inv: "pool_inv s" "gids_ok gids" and hv: "hash_values hashes vs" and N: "N \<le> length vs"
    and al: "align \<noteq> 0" and need: "need' = nat (max 1 need)" and nc: "nc < need'" "i + nc \<le> N"
    and run: "\<And>j. i \<le> j \<Longrightarrow> j < i + nc \<Longrightarrow> cached_at s gids vs j" "nc > 0 \<Longrightarrow> aligned bs align (i + nc)"
    and no: "\<And>k. i + nc < k \<Longrightarrow> k \<le> N \<Longrightarrow> \<not> window_ok s gids vs bs align need' k"
    and f: "\<And>g j. g < length gids \<Longrightarrow> i \<le> j \<Longrightarrow> j < i + nc \<Longrightarrow> f g j = hit_block s gids vs g j"
      "\<And>g j. g < length gids \<Longrightarrow> f g j = null_block s \<or> cached_at s gids vs j \<and> f g j = hit_block s gids vs g j"
  shows "\<exists>f' k c found. window_loop hashes gids s bs align need i (int nc) (grid (length gids) N f)
      = Inr (grid (length gids) (if found then k else N) f', c, found) \<and> (found \<or> c = int k) \<and> k \<le> N
    \<and> window_ok s gids vs bs align need' k \<and> (\<forall>n. k < n \<and> n \<le> N \<longrightarrow> \<not> window_ok s gids vs bs align need' n)
    \<and> (\<forall>g j. g < length gids \<longrightarrow> j < k \<longrightarrow> k \<le> j + need' \<longrightarrow> f' g j = hit_block s gids vs g j)
    \<and> (\<forall>g j. g < length gids \<longrightarrow> f' g j = null_block s \<or> cached_at s gids vs j \<and> f' g j = hit_block s gids vs g j)"
    (is "\<exists>f' k c found. ?ok i (int nc) f f' k c found")
  using nc run no f
proof (induction i arbitrary: nc f)
  case 0
  have "window_ok s gids vs bs align need' nc"
    using 0(3,4) by (cases "nc > 0") (auto simp: window_ok_def aligned_def)
  with 0 show ?case by (intro exI [of _ f] exI [of _ nc] exI [of _ "int nc"] exI [of _ False]) auto
next
  case (Suc i)
  have idx: "hashes_index hashes (int i) = Inr (vs ! i)" and i: "i < length vs"
    using hv N Suc.prems(2) by (auto simp: hash_values_def)
  from inv show ?case
  proof (cases rule: hit_at_cases [where bh = "vs ! i"])
    case (miss r)
    then have not_i: "\<not> cached_at s gids vs i" by (simp add: cached_at_hit [OF inv])
    have "\<not> window_ok s gids vs bs align need' k" if "i < k" "k \<le> N" for k
    proof (cases "Suc i + nc < k")
      case False
      then have "k \<le> i + need'" using Suc.prems(1) by simp
      with not_i that show ?thesis by (auto simp: window_ok_def)
    qed (use Suc.prems(5) that in blast)
    then have "\<exists>f' k c found. ?ok i (int 0) f f' k c found"
      using Suc.prems need by (intro Suc.IH) auto
    then show ?thesis using idx miss(1,2) by simp
  next
    case (hit ps)
    then have c_i: "cached_at s gids vs i" using i by (simp add: cached_at_hit [OF inv])
    let ?f = "\<lambda>g j. if j = i then ps ! g else f g j"
    have len: "length ps = length gids" using hit(4) by (simp add: list_all2_lengthD)
    have ps: "ps ! g = hit_block s gids vs g i" for g using hit(3) by (simp add: hit_block_def)
    note upd = grid_update [OF len, of i N f]
    have mis: "(if int nc = 0 then misaligned bs align (int i + 1) else Inr False)
        = Inr (nc = 0 \<and> \<not> aligned bs align (Suc i))"
      using misaligned_eq [of bs align "Suc i"] al by (simp add: ac_simps)
    show ?thesis
    proof (cases "nc = 0 \<and> \<not> aligned bs align (Suc i)")
      case True
      have "\<not> window_ok s gids vs bs align need' k" if "i < k" "k \<le> N" for k
        using that True Suc.prems(5) [of k] by (cases "k = Suc i") (auto simp: window_ok_def)
      then have "\<exists>f' k c found. ?ok i (int 0) f f' k c found"
        using Suc.prems need by (intro Suc.IH) auto
      then show ?thesis using idx hit(1,2) True mis by simp
    next
      case False
      have mis': "(if int nc = 0 then misaligned bs align (int i + 1) else Inr False) = Inr False"
        unfolding mis using False by simp
      have hits: "?f g j = hit_block s gids vs g j" if "g < length gids" "i \<le> j" "j < i + Suc nc" for g j
        using that ps Suc.prems(6) [of g j] by (cases "j = i") auto
      have any: "?f g j = null_block s \<or> cached_at s gids vs j \<and> ?f g j = hit_block s gids vs g j"
        if "g < length gids" for g j using ps c_i Suc.prems(7) [OF that, of j] by auto
      have cached: "cached_at s gids vs j" if "i \<le> j" "j < i + Suc nc" for j
        using that c_i Suc.prems(3) [of j] by (cases "j = i") auto
      have al': "aligned bs align (i + Suc nc)" using False Suc.prems(4) by (cases "nc = 0") auto
      show ?thesis
      proof (cases "int nc + 1 \<ge> need")
        case True
        then have need_eq: "need' = Suc nc" using need Suc.prems(1) by simp
        have min: "min (nat (int i + (int nc + 1))) N = i + Suc nc" using Suc.prems(2) by simp
        have w: "window_ok s gids vs bs align need' (i + Suc nc)"
          using cached al' unfolding window_ok_def need_eq by simp
        have "window_loop hashes gids s bs align need (Suc i) (int nc) (grid (length gids) N f)
            = Inr (grid (length gids) (i + Suc nc) ?f, int nc + 1, True)"
          using idx hit(1,2) mis' True by (simp add: Let_def upd grid_take min)
        then show ?thesis
          using w hits any Suc.prems(2,5) need_eq
          by (intro exI [of _ ?f] exI [of _ "i + Suc nc"] exI [of _ "int nc + 1"] exI [of _ True]) auto
      next
        case no_match: False
        have "\<exists>f' k c found. ?ok i (int (Suc nc)) ?f f' k c found"
          by (rule Suc.IH) (use no_match need Suc.prems cached al' hits any in auto)
        then show ?thesis using idx hit(1,2) mis' no_match by (simp add: Let_def upd ac_simps)
      qed
    qed
  qed
qed

subsection \<open>Each search returns the longest usable prefix\<close>

definition full_ok :: "block_pool \<Rightarrow> int list \<Rightarrow> bytes list \<Rightarrow> int \<Rightarrow> int \<Rightarrow> nat \<Rightarrow> bool" where
  "full_ok s gids vs bs align n \<longleftrightarrow> aligned bs align n \<and> (\<forall>j < n. cached_at s gids vs j)"

lemma full_find_grid:
  assumes inv: "pool_inv s" "gids_ok gids" and hv: "hash_values hashes vs" and full: "is_full spec"
    and bs: "0 < spec_block_size spec" and al: "align \<noteq> 0" and L: "0 \<le> max_length"
  defines "m \<equiv> run_from s gids vs 0 (nat (max_length div spec_block_size spec))"
  shows "full_find_longest_cache_hit hashes max_length gids s spec use_eagle align 1 1 =
    Inr (grid (length gids) (align_down (spec_block_size spec) align (if use_eagle then m - 1 else m)) (hit_block s gids vs))"
proof -
  let ?G = "length gids" and ?f = "hit_block s gids vs" and ?bs = "spec_block_size spec"
  have G: "0 < ?G" using inv(2) by (simp add: gids_ok_def)
  have run: "hits_loop (hashes_next hashes) gids s (nat (max_length div ?bs)) 0 (replicate ?G []) = Inr (grid ?G m ?f)"
    using hits_loop_grid [OF inv, where i = 0 and n = "nat (max_length div ?bs)" and fetch = "hashes_next hashes"
        and vs = vs and f = ?f] hv
    by (auto simp: hash_values_def m_def grid_def map_replicate_const)
  have pop: "(if use_eagle then bindE (first_computed (grid ?G m ?f)) (\<lambda>c. if c \<noteq> [] then pop_each (grid ?G m ?f) else Inr (grid ?G m ?f))
      else Inr (grid ?G m ?f)) = Inr (grid ?G (if use_eagle then m - 1 else m) ?f)"
    by (cases m) (simp_all add: first_grid [OF G] grid_pop del: upt_Suc)
  have "0 \<le> max_length div ?bs" using L bs by (simp add: pos_imp_zdiv_nonneg_iff)
  then show ?thesis
    using full bs unfolding full_find_longest_cache_hit_def
    by (simp add: Let_def run pop align_loop_grid [OF G al])
qed

lemma full_find_longest:
  assumes "pool_inv s" "gids_ok gids" "hash_values hashes vs" "is_full spec"
    "0 < spec_block_size spec" "align \<noteq> 0" "0 \<le> max_length"
  obtains n where "full_find_longest_cache_hit hashes max_length gids s spec False align 1 1 =
      Inr (grid (length gids) n (hit_block s gids vs))"
    and "int n * spec_block_size spec \<le> max_length" and "full_ok s gids vs (spec_block_size spec) align n"
    and "\<And>k. int k * spec_block_size spec \<le> max_length \<Longrightarrow> full_ok s gids vs (spec_block_size spec) align k \<Longrightarrow> k \<le> n"
proof -
  let ?bs = "spec_block_size spec" and ?N = "nat (max_length div spec_block_size spec)"
  define m where "m = run_from s gids vs 0 ?N"
  have le: "int k * ?bs \<le> max_length \<longleftrightarrow> k \<le> ?N" for k
    using int_le_div_iff [OF assms(5), of "int k" max_length] assms(5,7)
    by (simp add: le_nat_iff pos_imp_zdiv_nonneg_iff)
  note D = align_down_greatest [of ?bs align m] and R = run_from_spec [where s = s and gids = gids and vs = vs and i = 0 and n = ?N, folded m_def]
  show ?thesis
  proof (rule that [of "align_down ?bs align m"])
    show "full_find_longest_cache_hit hashes max_length gids s spec False align 1 1 =
        Inr (grid (length gids) (align_down ?bs align m) (hit_block s gids vs))"
      using full_find_grid [OF assms, of False] by (simp add: m_def)
    show "int (align_down ?bs align m) * ?bs \<le> max_length" unfolding le using D R(1) by linarith
    show "full_ok s gids vs ?bs align (align_down ?bs align m)" using D R(2) by (auto simp: full_ok_def)
    show "k \<le> align_down ?bs align m" if "int k * ?bs \<le> max_length" "full_ok s gids vs ?bs align k" for k
    proof -
      have "k \<le> m" using that R(3) by (metis le full_ok_def le_less_trans add_0 not_le)
      then show ?thesis using D that(2) by (auto simp: full_ok_def)
    qed
  qed
qed

lemma window_find_longest:
  assumes inv: "pool_inv s" "gids_ok gids" and hv: "hash_values hashes vs" and spec: "spec = SlidingWindow a"
    and bs: "0 < spec_block_size spec" and al: "align \<noteq> 0" "use_eagle \<Longrightarrow> align = spec_block_size spec"
    and N: "N = nat (max_length div spec_block_size spec)" "N \<le> length vs"
    and need: "need = nat (max 1 (cdiv (window_size a - 1) (spec_block_size spec) + (if use_eagle then 1 else 0)))"
  shows "\<exists>f n. window_find_longest_cache_hit hashes max_length gids s spec use_eagle align 1 1 =
      Inr (grid (length gids) (if use_eagle then n - 1 else n) f)
    \<and> n \<le> N \<and> window_ok s gids vs (spec_block_size spec) align need n
    \<and> (\<forall>k \<le> N. window_ok s gids vs (spec_block_size spec) align need k \<longrightarrow> k \<le> n)
    \<and> (\<forall>g j. g < length gids \<longrightarrow> j < n \<longrightarrow> n \<le> j + need \<longrightarrow> f g j = hit_block s gids vs g j)
    \<and> (\<forall>g j. g < length gids \<longrightarrow> f g j = null_block s \<or> cached_at s gids vs j \<and> f g j = hit_block s gids vs g j)"
proof -
  let ?G = "length gids" and ?bs = "spec_block_size spec"
  let ?need = "cdiv (window_size a - 1) ?bs + (if use_eagle then 1 else 0)"
  have G: "0 < ?G" using inv(2) by (simp add: gids_ok_def)
  have "\<exists>f' k c found. window_loop hashes gids s ?bs align ?need N (int 0) (grid ?G N (\<lambda>_ _. null_block s))
      = Inr (grid ?G (if found then k else N) f', c, found) \<and> (found \<or> c = int k) \<and> k \<le> N
    \<and> window_ok s gids vs ?bs align need k \<and> (\<forall>n. k < n \<and> n \<le> N \<longrightarrow> \<not> window_ok s gids vs ?bs align need n)
    \<and> (\<forall>g j. g < ?G \<longrightarrow> j < k \<longrightarrow> k \<le> j + need \<longrightarrow> f' g j = hit_block s gids vs g j)
    \<and> (\<forall>g j. g < ?G \<longrightarrow> f' g j = null_block s \<or> cached_at s gids vs j \<and> f' g j = hit_block s gids vs g j)"
    by (rule window_loop_grid [OF inv hv N(2) al(1) need]) (use need in auto)
  then obtain f n c found where
    w: "window_loop hashes gids s ?bs align ?need N (int 0) (grid ?G N (\<lambda>_ _. null_block s)) =
        Inr (grid ?G (if found then n else N) f, c, found)" "found \<or> c = int n" "n \<le> N"
      "window_ok s gids vs ?bs align need n" "\<forall>k. n < k \<and> k \<le> N \<longrightarrow> \<not> window_ok s gids vs ?bs align need k"
      "\<forall>g j. g < ?G \<longrightarrow> j < n \<longrightarrow> n \<le> j + need \<longrightarrow> f g j = hit_block s gids vs g j"
      "\<forall>g j. g < ?G \<longrightarrow> f g j = null_block s \<or> cached_at s gids vs j \<and> f g j = hit_block s gids vs g j"
    by blast
  have align: "(if found then Inr (grid ?G (if found then n else N) f)
      else align_loop ?bs align (map (take (nat c)) (grid ?G (if found then n else N) f))) = Inr (grid ?G n f)"
  proof (cases found)
    case False
    have "align_down ?bs align n = n" using w(4) by (intro align_down_id) (simp add: window_ok_def)
    with False w(2,3) show ?thesis by (simp add: grid_take align_loop_grid [OF G al(1)])
  qed simp
  have eagle: "(if use_eagle then bindE (first_computed (grid ?G n f)) (\<lambda>c.
        if c \<noteq> [] then assertE (?bs = align) (pop_each (grid ?G n f)) else Inr (grid ?G n f)) else Inr (grid ?G n f))
      = Inr (grid ?G (if use_eagle then n - 1 else n) f)"
    using al(2) by (cases n) (auto simp: first_grid [OF G] grid_pop simp del: upt_Suc)
  have bs': "?bs \<noteq> 0" using bs by simp
  have w0: "window_loop hashes gids s ?bs align ?need N 0 (grid ?G N (\<lambda>_ _. null_block s)) =
      Inr (grid ?G (if found then n else N) f, c, found)"
    using w(1) by (simp only: int_ops(1))
  have q: "(if use_eagle then cdiv (window_size a - 1) ?bs + 1 else cdiv (window_size a - 1) ?bs) = ?need" by simp
  have "window_find_longest_cache_hit hashes max_length gids s spec use_eagle align 1 1 =
      Inr (grid ?G (if use_eagle then n - 1 else n) f)"
    unfolding window_find_longest_cache_hit_def Let_def spec KVCacheSpec.case
    unfolding spec [symmetric] simp_thms assertE_simps(1) div_zero_cases(1,2) [OF bs'] bindE.simps q N(1) [symmetric] grid_nulls
    unfolding w0 bindE.simps prod.case align eagle ..
  then show ?thesis
    using w(3-7) not_le by blast
qed

lemma last_state_loop_grid:
  assumes inv: "pool_inv s" "gids_ok gids" and hv: "hash_values hashes vs" and al: "align \<noteq> 0" and i: "i \<le> length vs"
  shows "\<exists>n. last_state_loop hashes gids s bs align i (replicate (length gids) [])
      = Inr (grid (length gids) n (\<lambda>g j. if Suc j = n then hit_block s gids vs g j else null_block s))
    \<and> n \<le> i \<and> window_ok s gids vs bs align 1 n \<and> (\<forall>k \<le> i. window_ok s gids vs bs align 1 k \<longrightarrow> k \<le> n)"
  using i
proof (induction i)
  case 0
  have "replicate (length gids) [] = grid (length gids) 0 (\<lambda>g j. if Suc j = 0 then hit_block s gids vs g j else null_block s)"
    by (simp add: grid_def map_replicate_const)
  then show ?case by (auto simp: window_ok_def aligned_def intro!: exI [of _ 0])
next
  case (Suc i)
  have idx: "hashes_index hashes (int i) = Inr (vs ! i)" and i: "i < length vs"
    using hv Suc.prems by (auto simp: hash_values_def)
  have mis: "misaligned bs align (int i + 1) = Inr (\<not> aligned bs align (Suc i))"
    using misaligned_eq [of bs align "Suc i"] al by (simp add: ac_simps)
  have ok: "window_ok s gids vs bs align 1 (Suc i) \<longleftrightarrow> aligned bs align (Suc i) \<and> cached_at s gids vs i"
    by (auto simp: window_ok_def less_Suc_eq_le dest: antisym)
  have smaller: ?case if "\<not> window_ok s gids vs bs align 1 (Suc i)"
    "last_state_loop hashes gids s bs align (Suc i) (replicate (length gids) [])
      = last_state_loop hashes gids s bs align i (replicate (length gids) [])"
    using Suc that by (auto simp: le_Suc_eq)
  from inv show ?case
  proof (cases rule: hit_at_cases [where bh = "vs ! i"])
    case (miss r)
    with idx ok show ?thesis by (intro smaller) (simp_all add: cached_at_hit [OF inv])
  next
    case (hit ps)
    show ?thesis
    proof (cases "aligned bs align (Suc i)")
      case False
      with idx hit mis ok show ?thesis by (intro smaller) simp_all
    next
      case True
      have len: "length ps = length gids" using hit(4) by (simp add: list_all2_lengthD)
      have "map2 (\<lambda>c p. c @ replicate i (null_block s) @ [p]) (replicate (length gids) []) ps
          = grid (length gids) (Suc i) (\<lambda>g j. if Suc j = Suc i then hit_block s gids vs g j else null_block s)"
        using len hit(3) by (intro nth_equalityI) (auto simp: hit_block_def nth_append less_Suc_eq intro!: nth_equalityI)
      moreover have "cached_at s gids vs i" using hit(3) i by (simp add: cached_at_hit [OF inv])
      ultimately show ?thesis using True idx hit(1,2) mis ok by (intro exI [of _ "Suc i"]) simp
    qed
  qed
qed

lemma chunked_find_grid:
  assumes inv: "pool_inv s" "gids_ok gids" and hv: "hash_values hashes vs" and spec: "spec = ChunkedLocalAttention a"
    and bs: "0 < spec_block_size spec" and chunk: "0 < local_chunk_size a" and L: "0 \<le> max_length"
    and N: "nat (max_length div spec_block_size spec) \<le> length vs"
  defines "b \<equiv> nat (max_length div local_chunk_size a * local_chunk_size a div spec_block_size spec)"
  shows "chunked_find_longest_cache_hit hashes max_length gids s spec False (spec_block_size spec) 1 1 =
    Inr (grid (length gids) (b + run_from s gids vs b (nat (max_length div spec_block_size spec) - b))
      (\<lambda>g j. if j < b then null_block s else hit_block s gids vs g j))"
    and "b \<le> nat (max_length div spec_block_size spec)"
proof -
  let ?bs = "spec_block_size spec" and ?c = "local_chunk_size a"
  have "max_length div ?c * ?c \<le> max_length" using int_le_div_iff [OF chunk, of "max_length div ?c" max_length] by simp
  then have le: "max_length div ?c * ?c div ?bs \<le> max_length div ?bs" using bs by (rule zdiv_mono1)
  have "0 \<le> max_length div ?c * ?c" using L chunk by (simp add: pos_imp_zdiv_nonneg_iff)
  then have b: "max_length div ?c * ?c div ?bs = int b" using bs by (simp add: b_def pos_imp_zdiv_nonneg_iff)
  show bN: "b \<le> nat (max_length div ?bs)" using le b by linarith
  have cnt: "nat (max_length div ?bs - int b) = nat (max_length div ?bs) - b" by simp
  have start: "(if max_length > 0 then bindE (floordivE max_length ?c) (\<lambda>q. Inr (q * ?c)) else Inr 0)
      = Inr (max_length div ?c * ?c)"
    using chunk L by (cases "max_length = 0") simp_all
  have nulls: "replicate (length gids) (replicate (nat (int b)) (null_block s))
      = grid (length gids) b (\<lambda>g j. if j < b then null_block s else hit_block s gids vs g j)"
    unfolding nat_int grid_nulls by (rule grid_cong) simp
  have loop: "hits_loop (\<lambda>i. bindE (hashes_index hashes i) (\<lambda>h. Inr (Some h))) gids s (nat (max_length div ?bs) - b) (int b)
      (grid (length gids) b (\<lambda>g j. if j < b then null_block s else hit_block s gids vs g j))
    = Inr (grid (length gids) (b + run_from s gids vs b (nat (max_length div ?bs) - b))
        (\<lambda>g j. if j < b then null_block s else hit_block s gids vs g j))"
    by (rule hits_loop_grid [OF inv]) (use hv N bN in \<open>auto simp: hash_values_def\<close>)
  have bs': "?bs \<noteq> 0" using bs by simp
  show "chunked_find_longest_cache_hit hashes max_length gids s spec False ?bs 1 1 =
    Inr (grid (length gids) (b + run_from s gids vs b (nat (max_length div ?bs) - b))
      (\<lambda>g j. if j < b then null_block s else hit_block s gids vs g j))"
    unfolding chunked_find_longest_cache_hit_def Let_def spec KVCacheSpec.case
    unfolding spec [symmetric] simp_thms assertE_simps(1) div_zero_cases(2) [OF bs'] bindE.simps start b cnt nulls loop ..
qed

subsection \<open>No hole inside the attention window\<close>

text \<open>
  Block \<open>j\<close> is attended after \<open>n\<close> computed blocks when it is not wholly inside the tokens that
  \<open>get_num_skipped_tokens\<close> skips.
\<close>

definition attended :: "SingleTypeKVCacheManager \<Rightarrow> int \<Rightarrow> nat \<Rightarrow> nat \<Rightarrow> bool" where
  "attended m bs n j \<longleftrightarrow> (case get_num_skipped_tokens m (int n * bs) of
     Inr k \<Rightarrow> k < (int j + 1) * bs | Inl _ \<Rightarrow> True)"

lemma not_attended:
  "\<not> attended m bs n j \<longleftrightarrow> (\<exists>k. get_num_skipped_tokens m (int n * bs) = Inr k \<and> (int j + 1) * bs \<le> k)"
  by (auto simp: attended_def not_less split: sum.splits)

definition holds_key :: "block_pool \<Rightarrow> bytes \<Rightarrow> int \<Rightarrow> ptr \<Rightarrow> bool" where
  "holds_key s bh g p \<longleftrightarrow> (\<exists>key. make_block_hash_with_group_id bh g = Inr key \<and> block_with_key s key p)"

text \<open>\<open>n\<close> blocks per group, each the null block or a cached block, cached wherever attended.\<close>

definition usable :: "SingleTypeKVCacheManager \<Rightarrow> int \<Rightarrow> block_pool \<Rightarrow> int list \<Rightarrow> bytes list \<Rightarrow> nat \<Rightarrow> ptr list list \<Rightarrow> bool" where
  "usable m bs s gids vs n computed \<longleftrightarrow> length computed = length gids \<and> n \<le> length vs
     \<and> (\<forall>g < length gids. length (computed ! g) = n \<and> (\<forall>j < n.
          computed ! g ! j = null_block s \<and> \<not> attended m bs n j \<or> holds_key s (vs ! j) (gids ! g) (computed ! g ! j)))"

definition search_ok :: "KVCacheSpec \<Rightarrow> bool \<Rightarrow> int \<Rightarrow> bool" where
  "search_ok spec use_eagle align \<longleftrightarrow> 0 < spec_block_size spec \<and> align \<noteq> 0 \<and> (case spec of
     SlidingWindow a \<Rightarrow> use_eagle \<longrightarrow> align = spec_block_size spec
   | ChunkedLocalAttention a \<Rightarrow> \<not> use_eagle \<and> align = spec_block_size spec
       \<and> 0 < local_chunk_size a \<and> spec_block_size spec dvd local_chunk_size a
   | CrossAttention _ \<Rightarrow> False
   | _ \<Rightarrow> True)"

lemma usable_grid:
  assumes "pool_inv s" "gids_ok gids" and "n \<le> length vs"
    and "\<And>g j. g < length gids \<Longrightarrow> j < n \<Longrightarrow> f g j = null_block s \<or> cached_at s gids vs j \<and> f g j = hit_block s gids vs g j"
    and "\<And>g j. g < length gids \<Longrightarrow> j < n \<Longrightarrow> attended m bs n j \<Longrightarrow> cached_at s gids vs j \<and> f g j = hit_block s gids vs g j"
  shows "usable m bs s gids vs n (grid (length gids) n f)"
proof -
  have "f g j = null_block s \<and> \<not> attended m bs n j \<or> holds_key s (vs ! j) (gids ! g) (f g j)"
    if "g < length gids" "j < n" for g j
  proof (cases "cached_at s gids vs j \<and> f g j = hit_block s gids vs g j")
    case True
    with hit_block_key [OF assms(1,2), of vs j g] that show ?thesis by (auto simp: holds_key_def)
  qed (use assms(4,5) [OF that] in blast)
  with assms(3) show ?thesis by (auto simp: usable_def)
qed

lemma attended_window:
  assumes "mgr_class m = SlidingWindowManager w" and "0 < bs" and "attended m bs n j"
  shows "int n \<le> int j + cdiv (w - 1) bs"
proof -
  have "(int n - 1 - int j) * bs < w - 1"
    using assms(1,3) by (simp add: attended_def get_num_skipped_tokens_def algebra_simps)
  then have "int n - 1 - int j < cdiv (w - 1) bs" using cdiv_le_iff [OF assms(2), of "w - 1" "int n - 1 - int j"] by linarith
  then show ?thesis by linarith
qed

lemma attended_mamba:
  "mgr_class m = MambaManager mode k \<Longrightarrow> 0 < bs \<Longrightarrow> attended m bs n j \<Longrightarrow> j < n \<Longrightarrow> Suc j = n"
proof -
  assume "mgr_class m = MambaManager mode k" "0 < bs" "attended m bs n j" "j < n"
  then have "int n * bs - 1 < (int j + 1) * bs" by (simp add: attended_def get_num_skipped_tokens_def)
  then have "int n * bs \<le> (int j + 1) * bs" by linarith
  with \<open>0 < bs\<close> have "int n \<le> int j + 1" by (simp only: mult_le_cancel_right_pos)
  with \<open>j < n\<close> show "Suc j = n" by simp
qed

lemma run_length_le: "i \<le> length vs \<Longrightarrow> i + run_from s gids vs i n \<le> length vs"
  using run_from_spec(2) [where j = "run_from s gids vs i n - 1" and s = s and gids = gids and vs = vs and i = i and n = n]
  by (cases "run_from s gids vs i n") (auto simp: cached_at_def)

lemma attended_chunk:
  assumes m: "mgr_class m = ChunkedLocalAttentionManager c" and bs: "0 < bs" "bs dvd c" and c: "0 < c"
    and n: "L div c * c div bs \<le> int n" "int n * bs \<le> L" and j: "attended m bs n j"
  shows "L div c * c div bs \<le> int j"
proof -
  have start: "L div c * c div bs * bs = L div c * c" using bs(2) by simp
  then have "L div c * c \<le> int n * bs" using n(1) bs(1) by (metis mult_le_cancel_right_pos)
  then have "L div c \<le> int n * bs div c" using int_le_div_iff [OF c] by blast
  then have "L div c * c \<le> int n * bs div c * c" using c by simp
  also have "\<dots> < (int j + 1) * bs" using j m c by (simp add: attended_def get_num_skipped_tokens_def)
  finally have "L div c * c div bs * bs < (int j + 1) * bs" by (simp add: start)
  then have "L div c * c div bs < int j + 1" using bs(1) by (simp only: mult_less_cancel_right_pos)
  then show ?thesis by simp
qed

lemma full_find_usable:
  assumes inv: "pool_inv s" "gids_ok gids" and hv: "hash_values hashes vs" and ok: "search_ok spec use_eagle align"
    and L: "0 \<le> max_length" and cls: "mgr_class m = FullAttentionManager \<or> mgr_class m = SinkFullAttentionManager" "is_full spec"
  shows "\<exists>computed n. full_find_longest_cache_hit hashes max_length gids s spec use_eagle align 1 1 = Inr computed
    \<and> usable m (spec_block_size spec) s gids vs n computed \<and> aligned (spec_block_size spec) align n
    \<and> int n * spec_block_size spec \<le> max_length"
proof -
  let ?bs = "spec_block_size spec" and ?N = "nat (max_length div spec_block_size spec)"
  have bs: "0 < ?bs" "align \<noteq> 0" using ok by (simp_all add: search_ok_def)
  define r where "r = run_from s gids vs 0 ?N"
  define k where "k = (if use_eagle then r - 1 else r)"
  note R = run_from_spec [where s = s and gids = gids and vs = vs and i = 0 and n = ?N, folded r_def]
  note D = align_down_greatest [of ?bs align k]
  have "k \<le> r" by (simp add: k_def)
  with D have le: "align_down ?bs align k \<le> r" by linarith
  have "usable m ?bs s gids vs (align_down ?bs align k) (grid (length gids) (align_down ?bs align k) (hit_block s gids vs))"
    using le R(2) run_length_le [of 0 vs s gids ?N] by (intro usable_grid [OF inv]) (auto simp: r_def)
  moreover have "int (align_down ?bs align k) * ?bs \<le> max_length"
    using int_le_div_iff [OF bs(1), of "int (align_down ?bs align k)" max_length] le R(1) L bs(1)
    by (simp add: le_nat_iff [symmetric] pos_imp_zdiv_nonneg_iff)
  ultimately show ?thesis
    using full_find_grid [OF inv hv cls(2) bs L, of use_eagle] D by (auto simp: k_def r_def)
qed

lemma window_find_usable:
  assumes inv: "pool_inv s" "gids_ok gids" and hv: "hash_values hashes vs" and ok: "search_ok spec use_eagle align"
    and L: "0 \<le> max_length" and N: "nat (max_length div spec_block_size spec) \<le> length vs"
    and spec: "spec = SlidingWindow a" and cls: "mgr_class m = SlidingWindowManager (window_size a)"
  shows "\<exists>computed n. window_find_longest_cache_hit hashes max_length gids s spec use_eagle align 1 1 = Inr computed
    \<and> usable m (spec_block_size spec) s gids vs n computed \<and> aligned (spec_block_size spec) align n
    \<and> int n * spec_block_size spec \<le> max_length"
proof -
  let ?bs = "spec_block_size spec" and ?N = "nat (max_length div spec_block_size spec)"
  have bs: "0 < ?bs" "align \<noteq> 0" "use_eagle \<Longrightarrow> align = ?bs" using ok by (simp_all add: search_ok_def spec)
  define need where "need = nat (max 1 (cdiv (window_size a - 1) ?bs + (if use_eagle then 1 else 0)))"
  obtain f k where w: "window_find_longest_cache_hit hashes max_length gids s spec use_eagle align 1 1 =
      Inr (grid (length gids) (if use_eagle then k - 1 else k) f)" "k \<le> ?N" "window_ok s gids vs ?bs align need k"
    "\<And>g j. g < length gids \<Longrightarrow> j < k \<Longrightarrow> k \<le> j + need \<Longrightarrow> f g j = hit_block s gids vs g j"
    "\<And>g j. g < length gids \<Longrightarrow> f g j = null_block s \<or> cached_at s gids vs j \<and> f g j = hit_block s gids vs g j"
    using window_find_longest [OF inv hv spec bs refl N need_def] by blast
  define n where "n = (if use_eagle then k - 1 else k)"
  have n: "n \<le> k" "n \<le> length vs" using w(2) N by (auto simp: n_def)
  have cached: "cached_at s gids vs j \<and> f g j = hit_block s gids vs g j"
    if "g < length gids" "j < n" "attended m ?bs n j" for g j
  proof -
    have "k \<le> j + need"
      using attended_window [OF cls bs(1) that(3)] that(2)
      by (simp add: need_def n_def max_def split: if_splits)
    then show ?thesis using w(3,4) that n(1) by (auto simp: window_ok_def)
  qed
  have "usable m ?bs s gids vs n (grid (length gids) n f)"
    using n w(5) cached by (intro usable_grid [OF inv]) auto
  moreover have "aligned ?bs align n" using w(3) bs(3) by (auto simp: n_def window_ok_def aligned_def)
  moreover have "int n * ?bs \<le> max_length"
    using int_le_div_iff [OF bs(1), of "int n" max_length] n(1) w(2) L bs(1)
    by (simp add: le_nat_iff [symmetric] pos_imp_zdiv_nonneg_iff)
  ultimately show ?thesis using w(1) by (auto simp: n_def)
qed

lemma mamba_find_usable:
  assumes inv: "pool_inv s" "gids_ok gids" and hv: "hash_values hashes vs" and ok: "search_ok spec use_eagle align"
    and L: "0 \<le> max_length" and N: "nat (max_length div spec_block_size spec) \<le> length vs"
    and spec: "spec = Mamba a" and cls: "mgr_class m = MambaManager mode sp"
  shows "\<exists>computed n. mamba_find_longest_cache_hit hashes max_length gids s spec use_eagle align 1 1 = Inr computed
    \<and> usable m (spec_block_size spec) s gids vs n computed \<and> aligned (spec_block_size spec) align n
    \<and> int n * spec_block_size spec \<le> max_length"
proof -
  let ?bs = "spec_block_size spec" and ?N = "nat (max_length div spec_block_size spec)"
  have bs: "0 < ?bs" "align \<noteq> 0" using ok by (simp_all add: search_ok_def)
  let ?f = "\<lambda>n g j. if Suc j = n then hit_block s gids vs g j else null_block s"
  obtain n where n: "last_state_loop hashes gids s ?bs align ?N (replicate (length gids) []) = Inr (grid (length gids) n (?f n))"
    "n \<le> ?N" "window_ok s gids vs ?bs align 1 n"
    using last_state_loop_grid [OF inv hv bs(2) N, of ?bs] by auto
  have "usable m ?bs s gids vs n (grid (length gids) n (?f n))"
    using n(2,3) N attended_mamba [OF cls bs(1)] by (intro usable_grid [OF inv]) (auto simp: window_ok_def)
  moreover have "int n * ?bs \<le> max_length"
    using int_le_div_iff [OF bs(1), of "int n" max_length] n(2) L bs(1)
    by (simp add: le_nat_iff [symmetric] pos_imp_zdiv_nonneg_iff)
  moreover have "mamba_find_longest_cache_hit hashes max_length gids s spec use_eagle align 1 1 = Inr (grid (length gids) n (?f n))"
    using n(1) bs(1) by (simp add: mamba_find_longest_cache_hit_def spec)
  ultimately show ?thesis using n(3) by (auto simp: window_ok_def)
qed

lemma chunked_find_usable:
  assumes inv: "pool_inv s" "gids_ok gids" and hv: "hash_values hashes vs" and ok: "search_ok spec use_eagle align"
    and L: "0 \<le> max_length" and N: "nat (max_length div spec_block_size spec) \<le> length vs"
    and spec: "spec = ChunkedLocalAttention a" and cls: "mgr_class m = ChunkedLocalAttentionManager (local_chunk_size a)"
  shows "\<exists>computed n. chunked_find_longest_cache_hit hashes max_length gids s spec use_eagle align 1 1 = Inr computed
    \<and> usable m (spec_block_size spec) s gids vs n computed \<and> aligned (spec_block_size spec) align n
    \<and> int n * spec_block_size spec \<le> max_length"
proof -
  let ?bs = "spec_block_size spec" and ?N = "nat (max_length div spec_block_size spec)" and ?c = "local_chunk_size a"
  have o: "0 < ?bs" "\<not> use_eagle" "align = ?bs" "0 < ?c" "?bs dvd ?c" using ok by (simp_all add: search_ok_def spec)
  define b where "b = nat (max_length div ?c * ?c div ?bs)"
  define n where "n = b + run_from s gids vs b (?N - b)"
  let ?f = "\<lambda>g j. if j < b then null_block s else hit_block s gids vs g j"
  note C = chunked_find_grid [OF inv hv spec o(1,4) L N, folded b_def]
  have "0 \<le> max_length div ?c * ?c" using L o(4) by (simp add: pos_imp_zdiv_nonneg_iff)
  then have b: "max_length div ?c * ?c div ?bs = int b" using o(1) by (simp add: b_def pos_imp_zdiv_nonneg_iff)
  have n: "b \<le> n" "n \<le> ?N" "n \<le> length vs"
    using run_from_spec(1) [of s gids vs b "?N - b"] C(2) N by (simp_all add: n_def)
  have nL: "int n * ?bs \<le> max_length"
    using int_le_div_iff [OF o(1), of "int n" max_length] n(2) L o(1)
    by (simp add: le_nat_iff [symmetric] pos_imp_zdiv_nonneg_iff)
  have cached: "cached_at s gids vs j" if "\<not> j < b" "j < n" for j
    using run_from_spec(2) [of "j - b" s gids vs b "?N - b"] that by (simp add: n_def)
  have "\<not> j < b" if "attended m ?bs n j" for j
    using attended_chunk [OF cls o(1,5,4) _ nL that] n(1) b by simp
  then have "usable m ?bs s gids vs n (grid (length gids) n ?f)"
    using n cached by (intro usable_grid [OF inv]) auto
  then show ?thesis using C(1) o(2,3) nL by (auto simp: n_def aligned_def)
qed

lemma find_usable:
  assumes inv: "pool_inv s" "gids_ok gids" and hv: "hash_values hashes vs" and ok: "search_ok spec use_eagle align"
    and L: "0 \<le> max_length" and N: "nat (max_length div spec_block_size spec) \<le> length vs"
    and cls: "spec_manager_map spec = Some (mgr_class m)"
  shows "\<exists>computed n. find_longest_cache_hit (mgr_class m) hashes max_length gids s spec use_eagle align 1 1 = Inr computed
    \<and> usable m (spec_block_size spec) s gids vs n computed \<and> aligned (spec_block_size spec) align n
    \<and> int n * spec_block_size spec \<le> max_length"
proof (cases spec)
  case (SlidingWindow a)
  then have "mgr_class m = SlidingWindowManager (window_size a)" using cls by simp
  with window_find_usable [OF inv hv ok L N SlidingWindow] show ?thesis by (simp add: find_longest_cache_hit_def)
next
  case (ChunkedLocalAttention a)
  then have "mgr_class m = ChunkedLocalAttentionManager (local_chunk_size a)" using cls by simp
  with chunked_find_usable [OF inv hv ok L N ChunkedLocalAttention] show ?thesis by (simp add: find_longest_cache_hit_def)
next
  case (Mamba a)
  then have "mgr_class m = MambaManager (spec_mamba_cache_mode a) (num_speculative_blocks a)" using cls by simp
  with mamba_find_usable [OF inv hv ok L N Mamba] show ?thesis by (simp add: find_longest_cache_hit_def)
next
  case (CrossAttention a)
  with ok show ?thesis by (simp add: search_ok_def)
next
  case (EncoderOnlyAttention a)
  with cls show ?thesis by simp
qed (use cls full_find_usable [OF inv hv ok L, of m] in
  \<open>auto simp: find_longest_cache_hit_def is_full_def full_part_def dest!: sym [of _ "mgr_class m"]\<close>)

subsection \<open>The properties of the lookup\<close>

text \<open>Specs with blocks of two tokens.\<close>

definition demo_full :: FullAttentionSpec where
  "demo_full = \<lparr>block_size = 2, num_kv_heads = 1, head_size = 1, dtype = \<lparr>dtype_name = ''half'', element_size = 2\<rparr>,
     page_size_padded = None, head_size_v = 1, sliding_window = None, attention_chunk_size = None\<rparr>"

definition demo_window :: SlidingWindowSpec where
  "demo_window = \<lparr>block_size = 2, num_kv_heads = 1, head_size = 1, dtype = \<lparr>dtype_name = ''half'', element_size = 2\<rparr>,
     page_size_padded = None, window_size = 3\<rparr>"

text \<open>A pool in which the hashes \<open>[5]\<close> and \<open>[6]\<close> are cached for group 0.\<close>

lemma demo_cached:
  "\<exists>s s'. block_pool_init 4 True 2 True = Inr s
     \<and> cache_full_blocks False ((demo_request ''r'' [1, 2, 3, 4] [] None None)\<lparr>block_hashes := [[5], [6]]\<rparr>)
          [Blk 2, Blk 3] 0 2 2 0 s = Inr s'
     \<and> pool_inv s' \<and> cached_at s' [0] [[5], [6], [7]] 0 \<and> cached_at s' [0] [[5], [6], [7]] 1"
proof -
  obtain s where s: "block_pool_init 4 True 2 True = Inr s" "pool_rel s [Blk 1, Blk 2, Blk 3]" "num_gpu_blocks s = 4"
      "hash_block_size s = 2" "\<forall>p. block_hash (heap s p) = None" "enable_kv_cache_events s"
    using demo_pool by blast
  let ?r = "(demo_request ''r'' [1, 2, 3, 4] [] None None)\<lparr>block_hashes := [[5], [6]]\<rparr>"
  have null: "\<not> is_null (heap s (Blk 2))" "\<not> is_null (heap s (Blk 3))"
    using pool_relD(2) [OF s(2)] s(3) by (simp_all add: static_ok_def)
  have keys: "make_block_hash_with_group_id [5] 0 = Inr [5, 0, 0, 0, 0]" "make_block_hash_with_group_id [6] 0 = Inr [6, 0, 0, 0, 0]"
    by (simp_all add: make_block_hash_with_group_id_def to_bytes4_def upt_rec)
  have up: "[0..1] = [0, 1 :: int]" by (simp add: upto.simps)
  have "\<exists>s'. cache_full_blocks False ?r [Blk 2, Blk 3] 0 2 2 0 s = Inr s'
      \<and> block_hash (heap s' (Blk 2)) = Some [5, 0, 0, 0, 0] \<and> block_hash (heap s' (Blk 3)) = Some [6, 0, 0, 0, 0]"
    using s(4-6) null keys
    by (simp add: cache_full_blocks_def new_block_hashes_def cache_block_step_def set_block_hash_def slice_def slice_from_def
        slice_bound_def index_py_def Let_def up)
  then obtain s' where s': "cache_full_blocks False ?r [Blk 2, Blk 3] 0 2 2 0 s = Inr s'"
    "block_hash (heap s' (Blk 2)) = Some [5, 0, 0, 0, 0]" "block_hash (heap s' (Blk 3)) = Some [6, 0, 0, 0, 0]"
    by blast
  have sub: "set [Blk 2, Blk 3] \<subseteq> set (blocks s)" using s(3) real_in_blocks [of s] by (auto simp: real_blocks_def)
  note ok = cache_full_blocks_ok [OF s'(1) s(2) sub]
  have "real_blocks s' = real_blocks s" using ok same_config_ok(2) by blast
  then have "block_with_key s' [5, 0, 0, 0, 0] (Blk 2)" "block_with_key s' [6, 0, 0, 0, 0] (Blk 3)"
    using s(3) s'(2,3) by (simp_all add: block_with_key_def real_blocks_def)
  then have "cached_at s' [0] [[5], [6], [7]] 0" "cached_at s' [0] [[5], [6], [7]] 1"
    using keys by (auto simp: cached_at_def)
  with s(1) s'(1) ok show ?thesis unfolding pool_inv_def by blast
qed

text \<open>
  C16: A full attention hit is the longest one: the search returns, for every group, a block cached
  under the hash and the group of each position; the hit fits into \<open>max_length\<close>, respects the
  alignment, and no longer aligned prefix is cached in all groups. This is the search without EAGLE and
  without context parallelism (both world sizes 1).
\<close>

theorem full_attention_hit_is_longest:
  assumes "pool_inv s" and "gids_ok gids" and "hash_values hashes vs" and "is_full spec"
    and "0 < spec_block_size spec" and "align \<noteq> 0" and "0 \<le> max_length"
  shows "\<exists>computed n. find_longest_cache_hit FullAttentionManager hashes max_length gids s spec False align 1 1 = Inr computed
    \<and> length computed = length gids
    \<and> (\<forall>g < length gids. length (computed ! g) = n \<and> (\<forall>j < n. holds_key s (vs ! j) (gids ! g) (computed ! g ! j)))
    \<and> int n * spec_block_size spec \<le> max_length \<and> aligned (spec_block_size spec) align n
    \<and> (\<forall>k. int k * spec_block_size spec \<le> max_length \<and> aligned (spec_block_size spec) align k
          \<and> (\<forall>j < k. cached_at s gids vs j) \<longrightarrow> k \<le> n)"
proof -
  obtain n where n: "full_find_longest_cache_hit hashes max_length gids s spec False align 1 1 =
      Inr (grid (length gids) n (hit_block s gids vs))"
    "int n * spec_block_size spec \<le> max_length" "full_ok s gids vs (spec_block_size spec) align n"
    "\<And>k. int k * spec_block_size spec \<le> max_length \<Longrightarrow> full_ok s gids vs (spec_block_size spec) align k \<Longrightarrow> k \<le> n"
    using full_find_longest [OF assms] by metis
  have "holds_key s (vs ! j) (gids ! g) (hit_block s gids vs g j)" if "g < length gids" "j < n" for g j
    using hit_block_key [OF assms(1,2) _ that(1), of vs j] n(3) that(2) by (auto simp: holds_key_def full_ok_def)
  with n show ?thesis
    by (intro exI [of _ "grid (length gids) n (hit_block s gids vs)"] exI [of _ n])
      (auto simp: find_longest_cache_hit_def full_ok_def)
qed

theorem full_attention_hit_is_longest_witness:
  "\<exists>s s' computed. block_pool_init 4 True 2 True = Inr s
     \<and> cache_full_blocks False ((demo_request ''r'' [1, 2, 3, 4] [] None None)\<lparr>block_hashes := [[5], [6]]\<rparr>)
          [Blk 2, Blk 3] 0 2 2 0 s = Inr s'
     \<and> find_longest_cache_hit FullAttentionManager (HashList [[5], [6], [7]]) 6 [0] s'
          (FullAttention demo_full) False 2 1 1 = Inr computed
     \<and> 2 \<le> length (computed ! 0)"
proof -
  obtain s s' where s: "block_pool_init 4 True 2 True = Inr s"
    "cache_full_blocks False ((demo_request ''r'' [1, 2, 3, 4] [] None None)\<lparr>block_hashes := [[5], [6]]\<rparr>)
       [Blk 2, Blk 3] 0 2 2 0 s = Inr s'"
    "pool_inv s'" "cached_at s' [0] [[5], [6], [7]] 0" "cached_at s' [0] [[5], [6], [7]] 1"
    using demo_cached by blast
  have "gids_ok [0]" "is_full (FullAttention demo_full)" "0 < spec_block_size (FullAttention demo_full)"
    by (simp_all add: gids_ok_def is_full_def full_part_def demo_full_def)
  from full_attention_hit_is_longest [OF s(3) this(1) hash_values_list this(2,3), of 2 6 "[[5], [6], [7]]"]
  obtain computed n where c: "find_longest_cache_hit FullAttentionManager (HashList [[5], [6], [7]]) 6 [0] s'
      (FullAttention demo_full) False 2 1 1 = Inr computed" "length (computed ! 0) = n"
    "\<And>k. int k * 2 \<le> 6 \<Longrightarrow> aligned 2 2 k \<Longrightarrow> \<forall>j < k. cached_at s' [0] [[5], [6], [7]] j \<Longrightarrow> k \<le> n"
    by (auto simp: demo_full_def)
  have "2 \<le> n" using s(4,5) by (intro c(3)) (auto simp: aligned_def less_2_cases_iff)
  with s(1,2) c(1,2) show ?thesis by blast
qed

text \<open>
  C17: A sliding window hit is the longest one: the length found is the greatest aligned one within
  \<open>max_length\<close> whose last \<open>cdiv(sliding_window - 1, block_size)\<close> blocks (at least one) are cached in
  every group; those blocks are returned and the positions before them are null or cached. This is the
  search without EAGLE and without context parallelism (both world sizes 1).
\<close>

theorem sliding_window_hit_is_longest:
  assumes "pool_inv s" and "gids_ok gids" and "hash_values hashes vs" and "0 < block_size a" and "align \<noteq> 0"
    and "nat (max_length div block_size a) \<le> length vs"
  shows "\<exists>computed n. find_longest_cache_hit (SlidingWindowManager (window_size a)) hashes max_length gids s
        (SlidingWindow a) False align 1 1 = Inr computed
    \<and> length computed = length gids \<and> n \<le> nat (max_length div block_size a)
    \<and> window_ok s gids vs (block_size a) align (nat (max 1 (cdiv (window_size a - 1) (block_size a)))) n
    \<and> (\<forall>k \<le> nat (max_length div block_size a).
          window_ok s gids vs (block_size a) align (nat (max 1 (cdiv (window_size a - 1) (block_size a)))) k \<longrightarrow> k \<le> n)
    \<and> (\<forall>g < length gids. length (computed ! g) = n \<and> (\<forall>j < n.
          holds_key s (vs ! j) (gids ! g) (computed ! g ! j)
          \<or> computed ! g ! j = null_block s \<and> int j < int n - max 1 (cdiv (window_size a - 1) (block_size a))))"
proof -
  let ?need = "nat (max 1 (cdiv (window_size a - 1) (block_size a)))" and ?N = "nat (max_length div block_size a)"
  have eq: "spec_block_size (SlidingWindow a) = block_size a" by simp
  have "\<exists>f n. window_find_longest_cache_hit hashes max_length gids s (SlidingWindow a) False align 1 1 =
      Inr (grid (length gids) (if False then n - 1 else n) f)
    \<and> n \<le> ?N \<and> window_ok s gids vs (spec_block_size (SlidingWindow a)) align ?need n
    \<and> (\<forall>k \<le> ?N. window_ok s gids vs (spec_block_size (SlidingWindow a)) align ?need k \<longrightarrow> k \<le> n)
    \<and> (\<forall>g j. g < length gids \<longrightarrow> j < n \<longrightarrow> n \<le> j + ?need \<longrightarrow> f g j = hit_block s gids vs g j)
    \<and> (\<forall>g j. g < length gids \<longrightarrow> f g j = null_block s \<or> cached_at s gids vs j \<and> f g j = hit_block s gids vs g j)"
    by (rule window_find_longest [OF assms(1-3) refl _ assms(5)]) (use assms(4,6) in simp_all)
  then obtain f n where w: "window_find_longest_cache_hit hashes max_length gids s (SlidingWindow a) False align 1 1 =
      Inr (grid (length gids) n f)" "n \<le> ?N" "window_ok s gids vs (block_size a) align ?need n"
    "\<And>k. k \<le> ?N \<Longrightarrow> window_ok s gids vs (block_size a) align ?need k \<Longrightarrow> k \<le> n"
    "\<And>g j. g < length gids \<Longrightarrow> j < n \<Longrightarrow> n \<le> j + ?need \<Longrightarrow> f g j = hit_block s gids vs g j"
    "\<And>g j. g < length gids \<Longrightarrow> f g j = null_block s \<or> cached_at s gids vs j \<and> f g j = hit_block s gids vs g j"
    unfolding eq if_False by blast
  have "holds_key s (vs ! j) (gids ! g) (f g j) \<or> f g j = null_block s \<and> int j < int n - max 1 (cdiv (window_size a - 1) (block_size a))"
    if "g < length gids" "j < n" for g j
  proof (cases "cached_at s gids vs j \<and> f g j = hit_block s gids vs g j")
    case True
    with hit_block_key [OF assms(1,2) _ that(1), of vs j] show ?thesis by (auto simp: holds_key_def)
  next
    case False
    then have "\<not> n \<le> j + ?need" using w(3,5) that by (auto simp: window_ok_def)
    with False w(6) [OF that(1), of j] show ?thesis by auto
  qed
  with w show ?thesis
    by (intro exI [of _ "grid (length gids) n f"] exI [of _ n]) (simp add: find_longest_cache_hit_def)
qed

theorem sliding_window_hit_is_longest_witness:
  "\<exists>s s' computed. block_pool_init 4 True 2 True = Inr s
     \<and> cache_full_blocks False ((demo_request ''r'' [1, 2, 3, 4] [] None None)\<lparr>block_hashes := [[5], [6]]\<rparr>)
          [Blk 2, Blk 3] 0 2 2 0 s = Inr s'
     \<and> find_longest_cache_hit (SlidingWindowManager 3) (HashList [[5], [6], [7]]) 6 [0] s'
          (SlidingWindow demo_window) False 2 1 1 = Inr computed
     \<and> 2 \<le> length (computed ! 0)"
proof -
  obtain s s' where s: "block_pool_init 4 True 2 True = Inr s"
    "cache_full_blocks False ((demo_request ''r'' [1, 2, 3, 4] [] None None)\<lparr>block_hashes := [[5], [6]]\<rparr>)
       [Blk 2, Blk 3] 0 2 2 0 s = Inr s'"
    "pool_inv s'" "cached_at s' [0] [[5], [6], [7]] 0" "cached_at s' [0] [[5], [6], [7]] 1"
    using demo_cached by blast
  have d: "window_size demo_window = 3" "block_size demo_window = 2" by (simp_all add: demo_window_def)
  have pre: "gids_ok [0]" "0 < block_size demo_window" "(2 :: int) \<noteq> 0" "nat (6 div block_size demo_window) \<le> length [[5 :: 8 word], [6], [7]]"
    by (simp_all add: gids_ok_def d)
  from sliding_window_hit_is_longest [OF s(3) pre(1) hash_values_list pre(2-4)]
  obtain computed n where c: "find_longest_cache_hit (SlidingWindowManager 3) (HashList [[5], [6], [7]]) 6 [0] s'
      (SlidingWindow demo_window) False 2 1 1 = Inr computed" "length (computed ! 0) = n"
    "\<And>k. k \<le> 3 \<Longrightarrow> window_ok s' [0] [[5], [6], [7]] 2 2 (nat (max 1 (cdiv 2 2))) k \<Longrightarrow> k \<le> n"
    by (auto simp: d)
  have "window_ok s' [0] [[5], [6], [7]] 2 2 (nat (max 1 (cdiv 2 2))) 2"
    using s(4,5) by (auto simp: window_ok_def aligned_def less_2_cases_iff)
  then have "2 \<le> n" by (intro c(3)) simp_all
  with s(1,2) c(1,2) show ?thesis by blast
qed

text \<open>
  C5: A prefix cache hit leaves no hole that the next token would
  read: the search does not raise, the hit is aligned and within \<open>max_length\<close>, and every block
  position is either a block cached under the hash and group of that position, or the null block
  at a position that \<open>get_num_skipped_tokens\<close> skips for the hit length. This holds for full and MLA
  attention, sink full attention, sliding windows, chunked local attention and Mamba, without context parallelism (both world sizes 1)
  and within \<open>search_ok\<close>: sliding windows with EAGLE only if the alignment is the block size, chunked
  local attention only without EAGLE, with the alignment of the block size and with chunks of whole blocks
  (other chunk sizes do leave holes). Cross attention is excluded: its search always raises.
\<close>

theorem cache_hit_covers_attention_window:
  assumes "pool_inv s" and "gids_ok gids" and "hash_values hashes vs" and "search_ok spec use_eagle align"
    and "0 \<le> max_length" and "nat (max_length div spec_block_size spec) \<le> length vs"
    and "spec_manager_map spec = Some (mgr_class m)"
  shows "\<exists>computed n. find_longest_cache_hit (mgr_class m) hashes max_length gids s spec use_eagle align 1 1 = Inr computed
    \<and> int n * spec_block_size spec \<le> max_length \<and> aligned (spec_block_size spec) align n
    \<and> length computed = length gids
    \<and> (\<forall>g < length gids. length (computed ! g) = n \<and> (\<forall>j < n.
         holds_key s (vs ! j) (gids ! g) (computed ! g ! j)
         \<or> computed ! g ! j = null_block s
            \<and> (\<exists>k. get_num_skipped_tokens m (int n * spec_block_size spec) = Inr k \<and> (int j + 1) * spec_block_size spec \<le> k)))"
  using find_usable [OF assms] unfolding usable_def not_attended by blast

theorem cache_hit_covers_attention_window_witness:
  "\<exists>s computed. block_pool_init 4 True 2 True = Inr s
     \<and> find_longest_cache_hit (SlidingWindowManager 3) (HashList [[5], [6], [7]]) 6 [0] s
          (SlidingWindow demo_window) True 2 1 1 = Inr computed \<and> length computed = 1"
proof -
  obtain s where s: "block_pool_init 4 True 2 True = Inr s" "pool_inv s" using demo_pool by blast
  let ?m = "new_manager (SlidingWindowManager 3) (SlidingWindow demo_window) True 0 1 1"
  have pre: "gids_ok [0]" "search_ok (SlidingWindow demo_window) True 2" "(0 :: int) \<le> 6"
    "nat (6 div spec_block_size (SlidingWindow demo_window)) \<le> length [[5 :: 8 word], [6], [7]]"
    "spec_manager_map (SlidingWindow demo_window) = Some (mgr_class ?m)"
    by (simp_all add: gids_ok_def search_ok_def demo_window_def new_manager_def)
  from cache_hit_covers_attention_window [OF s(2) pre(1) hash_values_list pre(2-5)]
  show ?thesis using s(1) by (auto simp: new_manager_def)
qed

end
