(* ===== verification/Coordinator.thy ===== *)
theory Coordinator
  imports Cache_Hit
begin

section \<open>Coordinating the cache groups\<close>

text \<open>
  \<^verbatim>\<open>vllm/v1/core/kv_cache_coordinator.py\<close>: one manager per cache group over a shared block pool, and
  the prefix cache lookup over all groups. The abstract class and its three subclasses are one
  record with a \<open>coordinator_class\<close>. \<open>max_model_len\<close> and the metrics collector are only passed on by
  this class and are left out.
\<close>

subsection \<open>Data\<close>

text \<open>\<^verbatim>\<open>attention_groups\<close>: the spec, the ids of the cache groups with that spec and their manager class.\<close>

type_synonym attention_group = "KVCacheSpec \<times> int list \<times> manager_class"

datatype coordinator_class =
    KVCacheCoordinatorNoPrefixCache
  | UnitaryKVCacheCoordinator KVCacheSpec int int int
  | HybridKVCacheCoordinator int "attention_group list" int

record KVCacheCoordinator =
  coord_class :: coordinator_class
  coord_config :: KVCacheConfig
  coord_enable_caching :: bool
  coord_use_eagle :: bool
  coord_pool :: block_pool
  single_type_managers :: "SingleTypeKVCacheManager list"

subsection \<open>Construction\<close>

fun make_managers ::
    "bool \<Rightarrow> int \<Rightarrow> int \<Rightarrow> int \<Rightarrow> KVCacheGroupSpec list \<Rightarrow> block_pool \<Rightarrow> (block_pool \<times> SingleTypeKVCacheManager list) result" where
  "make_managers caching dcp pcp i [] s = Inr (s, [])"
| "make_managers caching dcp pcp i (g # gs) s = (case kv_cache_spec g of
     UniformTypes _ \<Rightarrow> Inl KeyError
   | LayerSpec spec \<Rightarrow>
       bindE (get_manager_for_kv_cache_spec spec caching i dcp pcp s) (\<lambda>(s, m).
       bindE (make_managers caching dcp pcp (i + 1) gs s) (\<lambda>(s, ms). Inr (s, m # ms))))"

definition coordinator_init ::
    "coordinator_class \<Rightarrow> KVCacheConfig \<Rightarrow> bool \<Rightarrow> bool \<Rightarrow> bool \<Rightarrow> int \<Rightarrow> int \<Rightarrow> int \<Rightarrow> KVCacheCoordinator result" where
  "coordinator_init cls config use_eagle caching evs dcp pcp hbs =
     bindE (block_pool_init (num_blocks config) caching hbs evs) (\<lambda>s.
     bindE (make_managers caching dcp pcp 0 (kv_cache_groups config) s) (\<lambda>(s, ms).
     Inr \<lparr>coord_class = cls, coord_config = config, coord_enable_caching = caching,
          coord_use_eagle = use_eagle, coord_pool = s, single_type_managers = ms\<rparr>))"

definition no_prefix_cache_init ::
    "KVCacheConfig \<Rightarrow> bool \<Rightarrow> bool \<Rightarrow> int \<Rightarrow> int \<Rightarrow> int \<Rightarrow> KVCacheCoordinator result" where
  "no_prefix_cache_init config use_eagle evs dcp pcp hbs =
     coordinator_init KVCacheCoordinatorNoPrefixCache config use_eagle False evs dcp pcp hbs"

text \<open>The managers exist, so every group has a spec of its own when the subclasses read it.\<close>

definition unitary_init ::
    "KVCacheConfig \<Rightarrow> bool \<Rightarrow> bool \<Rightarrow> bool \<Rightarrow> int \<Rightarrow> int \<Rightarrow> int \<Rightarrow> KVCacheCoordinator result" where
  "unitary_init config use_eagle caching evs dcp pcp hbs =
     bindE (coordinator_init KVCacheCoordinatorNoPrefixCache config use_eagle caching evs dcp pcp hbs) (\<lambda>c.
     bindE (index_py (single_type_managers c) 0) (\<lambda>m.
     let spec = mgr_spec m;
         bs = spec_block_size spec;
         bs = (if dcp > 1 then bs * dcp else bs);
         bs = (if pcp > 1 then bs * pcp else bs) in
     assertE (\<not> caching \<or> hbs = bs)
       (assertE (length (kv_cache_groups config) = 1)
         (Inr (c\<lparr>coord_class := UnitaryKVCacheCoordinator spec bs dcp pcp\<rparr>)))))"

text \<open>The inner loop over \<^verbatim>\<open>attention_groups\<close> with its \<open>else\<close> branch, and the outer loop over the groups.\<close>

fun add_attention_group ::
    "KVCacheSpec \<Rightarrow> int \<Rightarrow> manager_class \<Rightarrow> attention_group list \<Rightarrow> attention_group list result" where
  "add_attention_group spec i cls [] = Inr [(spec, [i], cls)]"
| "add_attention_group spec i cls ((spec', gids, cls') # gs) =
     (if spec' = spec then assertE (cls = cls') (Inr ((spec', gids @ [i], cls') # gs))
      else bindE (add_attention_group spec i cls gs) (\<lambda>gs. Inr ((spec', gids, cls') # gs)))"

definition split_groups :: "SingleTypeKVCacheManager list \<Rightarrow> attention_group list result" where
  "split_groups ms = foldE (\<lambda>(i, m). add_attention_group (mgr_spec m) i (mgr_class m))
     (zip [0..int (length ms) - 1] ms) []"

definition lcm_list :: "int list \<Rightarrow> int" where
  "lcm_list xs = foldr lcm xs 1"

definition verify_and_split_kv_cache_groups :: "SingleTypeKVCacheManager list \<Rightarrow> (attention_group list \<times> int) result" where
  "verify_and_split_kv_cache_groups ms =
     bindE (split_groups ms) (\<lambda>groups.
     assertE (length groups > 1)
       (Inr (sort_key (\<lambda>g. \<not> is_full (fst g)) groups, lcm_list (map (spec_block_size \<circ> fst) groups))))"

definition hybrid_init ::
    "KVCacheConfig \<Rightarrow> bool \<Rightarrow> bool \<Rightarrow> bool \<Rightarrow> int \<Rightarrow> int \<Rightarrow> int \<Rightarrow> KVCacheCoordinator result" where
  "hybrid_init config use_eagle caching evs dcp pcp hbs =
     bindE (coordinator_init KVCacheCoordinatorNoPrefixCache config use_eagle caching evs dcp pcp hbs) (\<lambda>c.
     if hbs = 0 \<and> single_type_managers c \<noteq> [] then Inl ZeroDivisionError
     else assertE (list_all (\<lambda>m. spec_block_size (mgr_spec m) mod hbs = 0) (single_type_managers c))
       (assertE (dcp = 1) (assertE (pcp = 1)
         (bindE (verify_and_split_kv_cache_groups (single_type_managers c)) (\<lambda>(groups, l).
          Inr (c\<lparr>coord_class := HybridKVCacheCoordinator hbs groups l\<rparr>))))))"

definition get_kv_cache_coordinator ::
    "KVCacheConfig \<Rightarrow> bool \<Rightarrow> bool \<Rightarrow> bool \<Rightarrow> int \<Rightarrow> int \<Rightarrow> int \<Rightarrow> KVCacheCoordinator result" where
  "get_kv_cache_coordinator config use_eagle caching evs dcp pcp hbs =
     (if \<not> caching then no_prefix_cache_init config use_eagle evs dcp pcp hbs
      else if length (kv_cache_groups config) = 1 then unitary_init config use_eagle caching evs dcp pcp hbs
      else hybrid_init config use_eagle caching evs dcp pcp hbs)"

subsection \<open>Calls to every manager\<close>

text \<open>
  The loop \<^verbatim>\<open>for i, manager in enumerate(self.single_type_managers)\<close>: the managers share the pool and
  are called one after the other; the results are collected.
\<close>

fun each_manager ::
    "(int \<Rightarrow> block_pool \<Rightarrow> SingleTypeKVCacheManager \<Rightarrow> (block_pool \<times> SingleTypeKVCacheManager \<times> 'a) result)
     \<Rightarrow> int \<Rightarrow> block_pool \<Rightarrow> SingleTypeKVCacheManager list
     \<Rightarrow> (block_pool \<times> SingleTypeKVCacheManager list \<times> 'a list) result" where
  "each_manager call i s [] = Inr (s, [], [])"
| "each_manager call i s (m # ms) =
     bindE (call i s m) (\<lambda>(s, m, x).
     bindE (each_manager call (i + 1) s ms) (\<lambda>(s, ms, xs). Inr (s, m # ms, x # xs)))"

definition on_managers ::
    "(int \<Rightarrow> block_pool \<Rightarrow> SingleTypeKVCacheManager \<Rightarrow> (block_pool \<times> SingleTypeKVCacheManager \<times> 'a) result)
     \<Rightarrow> KVCacheCoordinator \<Rightarrow> (KVCacheCoordinator \<times> 'a list) result" where
  "on_managers call c =
     bindE (each_manager call 0 (coord_pool c) (single_type_managers c)) (\<lambda>(s, ms, xs).
     Inr (c\<lparr>coord_pool := s, single_type_managers := ms\<rparr>, xs))"

definition count_call ::
    "string \<Rightarrow> int \<Rightarrow> ptr list list \<Rightarrow> int \<Rightarrow> int \<Rightarrow> int \<Rightarrow> int \<Rightarrow> block_pool \<Rightarrow> SingleTypeKVCacheManager
     \<Rightarrow> (block_pool \<times> SingleTypeKVCacheManager \<times> int) result" where
  "count_call rid n_tokens new_computed_blocks num_encoder_tokens total_computed_tokens num_tokens_main_model i s m =
     bindE (if mgr_class m = CrossAttentionManager
            then get_num_blocks_to_allocate rid num_encoder_tokens [] 0 num_encoder_tokens s m
            else bindE (index_py new_computed_blocks i) (\<lambda>hits.
              get_num_blocks_to_allocate rid n_tokens hits total_computed_tokens num_tokens_main_model s m))
       (\<lambda>(m, n). Inr (s, m, n))"

definition coordinator_get_num_blocks_to_allocate ::
    "string \<Rightarrow> int \<Rightarrow> ptr list list \<Rightarrow> int \<Rightarrow> int \<Rightarrow> int \<Rightarrow> KVCacheCoordinator \<Rightarrow> (KVCacheCoordinator \<times> int) result" where
  "coordinator_get_num_blocks_to_allocate rid n_tokens new_computed_blocks num_encoder_tokens total_computed_tokens
     num_tokens_main_model c =
     bindE (on_managers (count_call rid n_tokens new_computed_blocks num_encoder_tokens total_computed_tokens
              num_tokens_main_model) c)
       (\<lambda>(c, ns). Inr (c, sum_list ns))"

definition computed_call ::
    "bool \<Rightarrow> string \<Rightarrow> ptr list list \<Rightarrow> int \<Rightarrow> int \<Rightarrow> int \<Rightarrow> block_pool \<Rightarrow> SingleTypeKVCacheManager
     \<Rightarrow> (block_pool \<times> SingleTypeKVCacheManager \<times> unit) result" where
  "computed_call use_int rid new_computed_blocks num_local num_external i s m =
     bindE (index_py new_computed_blocks i) (\<lambda>hits.
     bindE (allocate_new_computed_blocks use_int rid hits num_local num_external s m) (\<lambda>(s, m). Inr (s, m, ())))"

definition coordinator_allocate_new_computed_blocks ::
    "bool \<Rightarrow> string \<Rightarrow> ptr list list \<Rightarrow> int \<Rightarrow> int \<Rightarrow> KVCacheCoordinator \<Rightarrow> KVCacheCoordinator result" where
  "coordinator_allocate_new_computed_blocks use_int rid new_computed_blocks num_local num_external c =
     bindE (on_managers (computed_call use_int rid new_computed_blocks num_local num_external) c) (\<lambda>(c, _). Inr c)"

definition new_blocks_call ::
    "bool \<Rightarrow> string \<Rightarrow> int \<Rightarrow> int \<Rightarrow> int \<Rightarrow> int \<Rightarrow> block_pool \<Rightarrow> SingleTypeKVCacheManager
     \<Rightarrow> (block_pool \<times> SingleTypeKVCacheManager \<times> ptr list) result" where
  "new_blocks_call use_int rid n_tokens num_tokens_main_model num_encoder_tokens i s m =
     allocate_new_blocks use_int rid (if mgr_class m = CrossAttentionManager then num_encoder_tokens else n_tokens)
       num_tokens_main_model s m"

definition coordinator_allocate_new_blocks ::
    "bool \<Rightarrow> string \<Rightarrow> int \<Rightarrow> int \<Rightarrow> int \<Rightarrow> KVCacheCoordinator \<Rightarrow> (KVCacheCoordinator \<times> ptr list list) result" where
  "coordinator_allocate_new_blocks use_int rid n_tokens num_tokens_main_model num_encoder_tokens c =
     on_managers (new_blocks_call use_int rid n_tokens num_tokens_main_model num_encoder_tokens) c"

definition cache_call ::
    "bool \<Rightarrow> Request \<Rightarrow> int \<Rightarrow> int \<Rightarrow> block_pool \<Rightarrow> SingleTypeKVCacheManager
     \<Rightarrow> (block_pool \<times> SingleTypeKVCacheManager \<times> unit) result" where
  "cache_call use_int r n i s m = bindE (cache_blocks use_int r n s m) (\<lambda>(s, m). Inr (s, m, ()))"

definition coordinator_cache_blocks :: "bool \<Rightarrow> Request \<Rightarrow> int \<Rightarrow> KVCacheCoordinator \<Rightarrow> KVCacheCoordinator result" where
  "coordinator_cache_blocks use_int r n c = bindE (on_managers (cache_call use_int r n) c) (\<lambda>(c, _). Inr c)"

definition free_call ::
    "string \<Rightarrow> int \<Rightarrow> block_pool \<Rightarrow> SingleTypeKVCacheManager \<Rightarrow> (block_pool \<times> SingleTypeKVCacheManager \<times> unit) result" where
  "free_call rid i s m = bindE (free_request_blocks rid s m) (\<lambda>(s, m). Inr (s, m, ()))"

definition coordinator_free :: "string \<Rightarrow> KVCacheCoordinator \<Rightarrow> KVCacheCoordinator result" where
  "coordinator_free rid c = bindE (on_managers (free_call rid) c) (\<lambda>(c, _). Inr c)"

definition skipped_call ::
    "string \<Rightarrow> int \<Rightarrow> int \<Rightarrow> block_pool \<Rightarrow> SingleTypeKVCacheManager \<Rightarrow> (block_pool \<times> SingleTypeKVCacheManager \<times> unit) result" where
  "skipped_call rid tot i s m = bindE (remove_skipped_blocks rid tot s m) (\<lambda>(s, m). Inr (s, m, ()))"

definition coordinator_remove_skipped_blocks :: "string \<Rightarrow> int \<Rightarrow> KVCacheCoordinator \<Rightarrow> KVCacheCoordinator result" where
  "coordinator_remove_skipped_blocks rid tot c = bindE (on_managers (skipped_call rid tot) c) (\<lambda>(c, _). Inr c)"

definition common_prefix_call ::
    "string \<Rightarrow> int \<Rightarrow> block_pool \<Rightarrow> SingleTypeKVCacheManager \<Rightarrow> (block_pool \<times> SingleTypeKVCacheManager \<times> int) result" where
  "common_prefix_call rid i s m = (let (m, n) = get_num_common_prefix_blocks rid s m in Inr (s, m, n))"

definition coordinator_get_num_common_prefix_blocks ::
    "string \<Rightarrow> KVCacheCoordinator \<Rightarrow> (KVCacheCoordinator \<times> int list) result" where
  "coordinator_get_num_common_prefix_blocks rid c =
     (if coord_class c = KVCacheCoordinatorNoPrefixCache
      then Inr (c, replicate (length (single_type_managers c)) 0)
      else on_managers (common_prefix_call rid) c)"

definition coordinator_get_blocks :: "string \<Rightarrow> KVCacheCoordinator \<Rightarrow> ptr list list" where
  "coordinator_get_blocks rid c = map (\<lambda>m. blocks_of m rid) (single_type_managers c)"

subsection \<open>Lookup over all groups\<close>

definition get_block_hashes :: "int \<Rightarrow> KVCacheSpec \<Rightarrow> bytes list \<Rightarrow> BlockHashList result" where
  "get_block_hashes hbs spec hs =
     (if spec_block_size spec = hbs then Inr (HashList hs)
      else bindE (new_block_hash_list hs hbs (spec_block_size spec)) (\<lambda>l. Inr (ScaledHashes l)))"

text \<open>
  One pass of the \<open>while\<close> loop over \<^verbatim>\<open>self.attention_groups\<close>. It carries \<open>curr_hit_length\<close> and
  \<open>hit_blocks_by_group\<close>.
\<close>

fun hybrid_pass ::
    "int \<Rightarrow> int \<Rightarrow> bytes list \<Rightarrow> bool \<Rightarrow> block_pool \<Rightarrow> attention_group list \<Rightarrow> int \<Rightarrow> ptr list option list
     \<Rightarrow> (int \<times> ptr list option list) result" where
  "hybrid_pass hbs align hs use_eagle s [] cur by_group = Inr (cur, by_group)"
| "hybrid_pass hbs align hs use_eagle s ((spec, gids, cls) # gs) cur by_group =
     bindE (index_py gids 0) (\<lambda>g0.
     bindE (index_py by_group g0) (\<lambda>cached.
     if is_full spec \<and> cached \<noteq> None
     then bindE (floordivE cur (spec_block_size spec)) (\<lambda>n.
       hybrid_pass hbs align hs use_eagle s gs (n * spec_block_size spec) by_group)
     else bindE (get_block_hashes hbs spec hs) (\<lambda>hashes.
       bindE (find_longest_cache_hit cls hashes cur gids s spec use_eagle align 1 1) (\<lambda>hit_blocks.
       bindE (index_py hit_blocks 0) (\<lambda>first.
       hybrid_pass hbs align hs use_eagle s gs (int (length first) * spec_block_size spec)
         (fold (\<lambda>(g, bs) by_group. by_group[nat g := Some bs]) (zip gids hit_blocks) by_group))))))"

partial_function (option) hybrid_loop ::
    "int \<Rightarrow> int \<Rightarrow> bytes list \<Rightarrow> bool \<Rightarrow> block_pool \<Rightarrow> attention_group list \<Rightarrow> bool \<Rightarrow> int \<Rightarrow> ptr list option list
     \<Rightarrow> (int \<times> ptr list option list) result option" where
  [code]: "hybrid_loop hbs align hs use_eagle s groups simple hit_length by_group =
     (case hybrid_pass hbs align hs use_eagle s groups hit_length by_group of
        Inl e \<Rightarrow> Some (Inl e)
      | Inr (cur, by_group) \<Rightarrow>
          if cur \<ge> hit_length then Some (Inr (hit_length, by_group))
          else if simple then Some (Inr (cur, by_group))
          else hybrid_loop hbs align hs use_eagle s groups simple cur by_group)"

definition truncate_full :: "attention_group list \<Rightarrow> int \<Rightarrow> ptr list option list \<Rightarrow> ptr list option list result" where
  "truncate_full groups hit_length by_group = (case groups of
     [] \<Rightarrow> Inl IndexError
   | (spec, gids, cls) # gs \<Rightarrow>
       if is_full spec then
         bindE (floordivE hit_length (spec_block_size spec)) (\<lambda>n.
         foldE (\<lambda>g by_group. bindE (index_py by_group g) (\<lambda>b.
           Inr (by_group[nat g := map_option (\<lambda>blks. take (slice_bound blks n) blks) b]))) gids by_group)
       else Inr by_group)"

definition hybrid_find_longest_cache_hit ::
    "int \<Rightarrow> attention_group list \<Rightarrow> int \<Rightarrow> bytes list \<Rightarrow> int \<Rightarrow> KVCacheCoordinator \<Rightarrow> (ptr list list \<times> int) result option" where
  "hybrid_find_longest_cache_hit hbs groups align hs max_length c =
     (let simple = (length groups = 2 \<and> (case groups of [] \<Rightarrow> False | g # _ \<Rightarrow> is_full (fst g))) in
      case hybrid_loop hbs align hs (coord_use_eagle c) (coord_pool c) groups simple max_length
             (replicate (length (kv_cache_groups (coord_config c))) None) of
        None \<Rightarrow> None
      | Some (Inl e) \<Rightarrow> Some (Inl e)
      | Some (Inr (hit_length, by_group)) \<Rightarrow>
          Some (bindE (truncate_full groups hit_length by_group) (\<lambda>by_group.
            Inr (map (\<lambda>b. case b of None \<Rightarrow> [] | Some blks \<Rightarrow> blks) by_group, hit_length))))"

definition unitary_find_longest_cache_hit ::
    "KVCacheSpec \<Rightarrow> int \<Rightarrow> int \<Rightarrow> int \<Rightarrow> bytes list \<Rightarrow> int \<Rightarrow> KVCacheCoordinator \<Rightarrow> (ptr list list \<times> int) result" where
  "unitary_find_longest_cache_hit spec bs dcp pcp hs max_length c =
     bindE (index_py (single_type_managers c) 0) (\<lambda>m.
     bindE (find_longest_cache_hit (mgr_class m) (HashList hs) max_length [0] (coord_pool c) spec
              (coord_use_eagle c) bs dcp pcp) (\<lambda>hit_blocks.
     bindE (index_py hit_blocks 0) (\<lambda>first. Inr (hit_blocks, int (length first) * bs))))"

text \<open>The method of the three coordinators; \<open>None\<close> would be a search that does not end.\<close>

definition coordinator_find_longest_cache_hit ::
    "bytes list \<Rightarrow> int \<Rightarrow> KVCacheCoordinator \<Rightarrow> (ptr list list \<times> int) result option" where
  "coordinator_find_longest_cache_hit hs max_length c = (case coord_class c of
     KVCacheCoordinatorNoPrefixCache \<Rightarrow> Some (Inr (replicate (length (single_type_managers c)) [], 0))
   | UnitaryKVCacheCoordinator spec bs dcp pcp \<Rightarrow> Some (unitary_find_longest_cache_hit spec bs dcp pcp hs max_length c)
   | HybridKVCacheCoordinator hbs groups align \<Rightarrow> hybrid_find_longest_cache_hit hbs groups align hs max_length c)"

end
