(* ===== verification/Hybrid_Lookup.thy ===== *)
theory Hybrid_Lookup
  imports Coordinator
begin

section \<open>Lookup over several attention types\<close>

text \<open>
  \<^verbatim>\<open>HybridKVCacheCoordinator.find_longest_cache_hit\<close> shortens the hit until every attention type
  accepts its length. Here: the attention groups partition the cache groups, the loop ends, and
  the blocks that are returned fit the length that is returned.
\<close>

subsection \<open>Groups and what is stored for them\<close>

definition group_manager :: "attention_group \<Rightarrow> SingleTypeKVCacheManager" where
  "group_manager grp = new_manager (snd (snd grp)) (fst grp) True 0 1 1"

abbreviation group_size :: "attention_group \<Rightarrow> int" where
  "group_size grp \<equiv> spec_block_size (fst grp)"

abbreviation group_ids :: "attention_group \<Rightarrow> int list" where
  "group_ids grp \<equiv> fst (snd grp)"

definition entry_ids :: "attention_group \<Rightarrow> nat list" where
  "entry_ids grp = map nat (group_ids grp)"

lemma group_manager_class [simp]: "mgr_class (group_manager grp) = snd (snd grp)"
  by (simp add: group_manager_def new_manager_def)

text \<open>
  A group whose search works on the hashes of the request: \<open>vals\<close> gives the hashes at the
  granularity of a spec, \<open>L\<close> is the longest hit asked for, \<open>N\<close> the number of cache groups.
\<close>

definition group_searchable ::
    "int \<Rightarrow> int \<Rightarrow> bytes list \<Rightarrow> bool \<Rightarrow> (KVCacheSpec \<Rightarrow> bytes list) \<Rightarrow> int \<Rightarrow> nat \<Rightarrow> attention_group \<Rightarrow> bool" where
  "group_searchable hbs align hs use_eagle vals L N grp \<longleftrightarrow> (case grp of (spec, gids, cls) \<Rightarrow>
     search_ok spec use_eagle align \<and> gids_ok gids \<and> (\<forall>g \<in> set gids. nat g < N)
     \<and> spec_manager_map spec = Some cls
     \<and> nat (L div spec_block_size spec) \<le> length (vals spec)
     \<and> (\<exists>hashes. get_block_hashes hbs spec hs = Inr hashes \<and> hash_values hashes (vals spec)))"

definition stored :: "ptr list option list \<Rightarrow> int list \<Rightarrow> ptr list list \<Rightarrow> bool" where
  "stored by_group gids computed \<longleftrightarrow> list_all2 (\<lambda>g blks. by_group ! nat g = Some blks) gids computed"

text \<open>A usable hit of \<open>c\<close> tokens is stored for the group; for full attention it may be longer.\<close>

definition covers :: "block_pool \<Rightarrow> (KVCacheSpec \<Rightarrow> bytes list) \<Rightarrow> ptr list option list \<Rightarrow> attention_group \<Rightarrow> int \<Rightarrow> bool" where
  "covers s vals by_group grp c \<longleftrightarrow> (\<exists>computed n. stored by_group (group_ids grp) computed
     \<and> usable (group_manager grp) (group_size grp) s (group_ids grp) (vals (fst grp)) n computed
     \<and> (if is_full (fst grp) then c \<le> int n * group_size grp else c = int n * group_size grp))"

abbreviation store_hits :: "int list \<Rightarrow> ptr list list \<Rightarrow> ptr list option list \<Rightarrow> ptr list option list" where
  "store_hits gids blks by_group \<equiv> fold (\<lambda>(g, bs) by_group. by_group[nat g := Some bs]) (zip gids blks) by_group"

lemma store_hits_frame: "j \<notin> nat ` set gids \<Longrightarrow> store_hits gids blks bg ! j = bg ! j"
proof (induction gids blks arbitrary: bg rule: list_induct2')
  case (4 g gids b blks)
  then have "store_hits gids blks (bg[nat g := Some b]) ! j = bg[nat g := Some b] ! j" by simp
  with 4(2) show ?case by simp
qed simp_all

lemma store_hits_length [simp]: "length (store_hits gids blks bg) = length bg"
  by (induction gids blks arbitrary: bg rule: list_induct2') simp_all

lemma store_hits_stored:
  assumes "length blks = length gids" and "distinct (map nat gids)" and "\<forall>g \<in> set gids. nat g < length bg"
  shows "stored (store_hits gids blks bg) gids blks"
  using assms
proof (induction gids blks arbitrary: bg rule: list_induct2')
  case (4 g gids b blks)
  then have "stored (store_hits gids blks (bg[nat g := Some b])) gids blks" by simp
  moreover have "store_hits gids blks (bg[nat g := Some b]) ! nat g = Some b"
    using 4(3,4) store_hits_frame [of "nat g" gids blks "bg[nat g := Some b]"] by simp
  ultimately show ?case by (simp add: stored_def)
qed (simp_all add: stored_def)

lemma covers_frame:
  assumes "covers s vals bg grp c" and "\<forall>j \<in> set (entry_ids grp). bg' ! j = bg ! j"
  shows "covers s vals bg' grp c"
proof -
  have "stored bg' (group_ids grp) computed" if "stored bg (group_ids grp) computed" for computed
    using that assms(2) unfolding stored_def entry_ids_def by (auto simp: list_all2_conv_all_nth)
  with assms(1) show ?thesis unfolding covers_def by blast
qed

lemma covers_mono: "covers s vals bg grp c \<Longrightarrow> is_full (fst grp) \<Longrightarrow> c' \<le> c \<Longrightarrow> covers s vals bg grp c'"
  unfolding covers_def by (metis order_trans)

text \<open>One search stores a usable hit.\<close>

lemma search_step:
  assumes inv: "pool_inv s" and ok: "group_searchable hbs align hs use_eagle vals L N (spec, gids, cls)"
    and cur: "0 \<le> cur" "cur \<le> L" and bg: "length bg = N" and dis: "distinct (map nat gids)"
    and al: "spec_block_size spec dvd align"
  shows "\<exists>hashes computed c. get_block_hashes hbs spec hs = Inr hashes
    \<and> find_longest_cache_hit cls hashes cur gids s spec use_eagle align 1 1 = Inr computed
    \<and> index_py computed 0 = Inr (computed ! 0) \<and> int (length (computed ! 0)) * spec_block_size spec = c
    \<and> 0 \<le> c \<and> c \<le> cur \<and> align dvd c \<and> covers s vals (store_hits gids computed bg) (spec, gids, cls) c"
proof -
  let ?bs = "spec_block_size spec" and ?m = "group_manager (spec, gids, cls)"
  from ok obtain hashes where h: "get_block_hashes hbs spec hs = Inr hashes" "hash_values hashes (vals spec)"
    by (auto simp: group_searchable_def)
  have o: "search_ok spec use_eagle align" "gids_ok gids" "spec_manager_map spec = Some (mgr_class ?m)"
      "nat (L div ?bs) \<le> length (vals spec)" "\<forall>g \<in> set gids. nat g < length bg"
    using ok bg by (simp_all add: group_searchable_def)
  have bs: "0 < ?bs" using o(1) by (simp add: search_ok_def)
  have "nat (cur div ?bs) \<le> length (vals spec)"
    using o(4) zdiv_mono1 [OF cur(2) bs] by linarith
  from find_usable [OF inv o(2) h(2) o(1) cur(1) this o(3)] obtain computed n where
    f: "find_longest_cache_hit cls hashes cur gids s spec use_eagle align 1 1 = Inr computed"
      "usable ?m ?bs s gids (vals spec) n computed" "aligned ?bs align n" "int n * ?bs \<le> cur"
    by auto
  have len: "length computed = length gids" "0 < length gids" "length (computed ! 0) = n"
    using f(2) o(2) by (auto simp: usable_def gids_ok_def)
  have "covers s vals (store_hits gids computed bg) (spec, gids, cls) (int n * ?bs)"
    using store_hits_stored [OF len(1) dis o(5)] f(2) unfolding covers_def by auto
  moreover have "align dvd int n * ?bs" using f(3) al by (auto simp: aligned_def)
  moreover have "index_py computed 0 = Inr (computed ! 0)" using len by (simp add: index_py_nonneg)
  ultimately show ?thesis using h(1) f(1,4) len(3) bs by (intro exI conjI) auto
qed

subsection \<open>One pass over the groups\<close>

text \<open>
  A pass never raises the length. Every group ends with a hit of at least the final length, at a
  block boundary of its own; if every group is searched, the final length is aligned.
\<close>

definition pass_effect ::
    "block_pool \<Rightarrow> (KVCacheSpec \<Rightarrow> bytes list) \<Rightarrow> int \<Rightarrow> attention_group list \<Rightarrow> int \<Rightarrow> ptr list option list
     \<Rightarrow> int \<Rightarrow> ptr list option list \<Rightarrow> bool" where
  "pass_effect s vals align gs cur bg cur' bg' \<longleftrightarrow> 0 \<le> cur' \<and> cur' \<le> cur \<and> length bg' = length bg
     \<and> (\<forall>j. j \<notin> set (concat (map entry_ids gs)) \<longrightarrow> bg' ! j = bg ! j)
     \<and> (\<forall>grp \<in> set gs. \<exists>c. cur' \<le> c \<and> c \<le> cur \<and> group_size grp dvd c \<and> covers s vals bg' grp c)
     \<and> (if gs = [] then cur' = cur else covers s vals bg' (last gs) cur')
     \<and> ((\<forall>grp \<in> set gs. bg ! hd (entry_ids grp) = None) \<and> (gs = [] \<longrightarrow> align dvd cur) \<longrightarrow> align dvd cur')"

lemma searchable_entries: "group_searchable hbs align hs use_eagle vals L N grp \<Longrightarrow> entry_ids grp \<noteq> []"
  by (cases grp) (simp add: group_searchable_def gids_ok_def entry_ids_def)

lemma pass_effect_Cons:
  assumes rest: "pass_effect s vals align gs cur1 bg1 cur' bg'"
    and own: "covers s vals bg1 grp cur1" "group_size grp dvd cur1" "cur1 \<le> cur" "length bg1 = length bg"
    and frame: "\<forall>j. j \<notin> set (entry_ids grp) \<longrightarrow> bg1 ! j = bg ! j"
    and apart: "set (entry_ids grp) \<inter> set (concat (map entry_ids gs)) = {}" "\<forall>g \<in> set gs. entry_ids g \<noteq> []"
    and al: "bg ! hd (entry_ids grp) = None \<Longrightarrow> align dvd cur1"
  shows "pass_effect s vals align (grp # gs) cur bg cur' bg'"
proof -
  have r: "cur' \<le> cur1" "\<forall>j. j \<notin> set (concat (map entry_ids gs)) \<longrightarrow> bg' ! j = bg1 ! j"
    "\<forall>g \<in> set gs. \<exists>c. cur' \<le> c \<and> c \<le> cur1 \<and> group_size g dvd c \<and> covers s vals bg' g c"
    "(\<forall>g \<in> set gs. bg1 ! hd (entry_ids g) = None) \<and> (gs = [] \<longrightarrow> align dvd cur1) \<longrightarrow> align dvd cur'"
    using rest by (simp_all add: pass_effect_def)
  have hd: "hd (entry_ids g) \<notin> set (entry_ids grp)" if "g \<in> set gs" for g
    using apart that by (auto dest: hd_in_set)
  have "covers s vals bg' grp cur1" using own(1) by (rule covers_frame) (use r(2) apart(1) in auto)
  then have first: "\<exists>c. cur' \<le> c \<and> c \<le> cur \<and> group_size grp dvd c \<and> covers s vals bg' grp c"
    using r(1) own(2,3) by blast
  have others: "\<forall>g \<in> set gs. \<exists>c. cur' \<le> c \<and> c \<le> cur \<and> group_size g dvd c \<and> covers s vals bg' g c"
    using r(3) own(3) by (meson order_trans)
  have final: "covers s vals bg' (last (grp # gs)) cur'"
    using rest \<open>covers s vals bg' grp cur1\<close> by (simp add: pass_effect_def)
  have "align dvd cur'" if none: "\<forall>g \<in> set (grp # gs). bg ! hd (entry_ids g) = None"
    using none al r(4) frame hd by auto
  then show ?thesis
    using rest first others final own(3,4) frame r(2) by (auto simp: pass_effect_def)
qed

lemma hybrid_pass_ok:
  assumes inv: "pool_inv s"
    and "\<forall>grp \<in> set gs. group_searchable hbs align hs use_eagle vals L N grp \<and> group_size grp dvd align"
    and "distinct (concat (map entry_ids gs))" and "length bg = N" and "0 \<le> cur" and "cur \<le> L"
    and "\<forall>grp \<in> set gs. is_full (fst grp) \<and> bg ! hd (entry_ids grp) \<noteq> None \<longrightarrow> covers s vals bg grp cur"
  shows "\<exists>cur' bg'. hybrid_pass hbs align hs use_eagle s gs cur bg = Inr (cur', bg')
    \<and> pass_effect s vals align gs cur bg cur' bg'"
  using assms(2-)
proof (induction gs arbitrary: cur bg)
  case (Cons grp gs)
  obtain spec gids cls where grp: "grp = (spec, gids, cls)" by (cases grp)
  let ?bs = "spec_block_size spec"
  have ok: "group_searchable hbs align hs use_eagle vals L N (spec, gids, cls)" "?bs dvd align"
    using Cons.prems(1) grp by auto
  have ids: "gids \<noteq> []" "\<forall>g \<in> set gids. 0 \<le> g \<and> nat g < N" and bs: "0 < ?bs"
    using ok(1) by (auto simp: group_searchable_def gids_ok_def search_ok_def)
  have ent: "entry_ids grp = map nat gids" by (simp add: entry_ids_def grp)
  have dis: "distinct (map nat gids)" "set (entry_ids grp) \<inter> set (concat (map entry_ids gs)) = {}"
    "distinct (concat (map entry_ids gs))" using Cons.prems(2) ent by auto
  have ne: "\<forall>g \<in> set gs. entry_ids g \<noteq> []" using Cons.prems(1) searchable_entries by auto
  have idx: "index_py gids 0 = Inr (gids ! 0)" "index_py bg (gids ! 0) = Inr (bg ! hd (entry_ids grp))"
    using ids ent Cons.prems(3) by (auto simp: index_py_nonneg hd_conv_nth)
  show ?case
  proof (cases "is_full spec \<and> bg ! hd (entry_ids grp) \<noteq> None")
    case True
    let ?cur = "cur div ?bs * ?bs"
    have q: "0 \<le> ?cur" "?cur \<le> cur"
      using bs Cons.prems(4) pos_mod_sign [OF bs, of cur] div_mult_mod_eq [of cur ?bs]
      by (simp add: pos_imp_zdiv_nonneg_iff, linarith)
    have low: "\<forall>g \<in> set (grp # gs). is_full (fst g) \<and> bg ! hd (entry_ids g) \<noteq> None \<longrightarrow> covers s vals bg g ?cur"
      using Cons.prems(6) covers_mono q(2) by blast
    obtain cur' bg' where r: "hybrid_pass hbs align hs use_eagle s gs ?cur bg = Inr (cur', bg')"
        "pass_effect s vals align gs ?cur bg cur' bg'"
      using Cons.IH [OF _ dis(3) Cons.prems(3) q(1)] Cons.prems(1,5) q(2) low by auto
    have "hybrid_pass hbs align hs use_eagle s (grp # gs) cur bg = Inr (cur', bg')"
      using True idx r(1) bs by (simp add: grp floordivE_def)
    moreover have "covers s vals bg grp ?cur" using low True grp by simp
    ultimately show ?thesis using pass_effect_Cons [OF r(2) _ _ q(2) refl _ dis(2) ne] True grp by auto
  next
    case False
    obtain hashes computed cur1 where f: "get_block_hashes hbs spec hs = Inr hashes"
      "find_longest_cache_hit cls hashes cur gids s spec use_eagle align 1 1 = Inr computed"
      "index_py computed 0 = Inr (computed ! 0)" "int (length (computed ! 0)) * ?bs = cur1"
      "0 \<le> cur1" "cur1 \<le> cur" "align dvd cur1" "covers s vals (store_hits gids computed bg) grp cur1"
      using search_step [OF inv ok(1) Cons.prems(4,5,3) dis(1) ok(2)] grp by auto
    let ?bg = "store_hits gids computed bg"
    have keep: "\<forall>j. j \<notin> set (entry_ids grp) \<longrightarrow> ?bg ! j = bg ! j" using store_hits_frame ent by auto
    have low: "covers s vals ?bg g cur1" if g: "g \<in> set gs" "is_full (fst g)" "?bg ! hd (entry_ids g) \<noteq> None" for g
    proof -
      have "set (entry_ids grp) \<inter> set (entry_ids g) = {}" using g(1) dis(2) by auto
      then have same: "\<forall>j \<in> set (entry_ids g). ?bg ! j = bg ! j" using keep by blast
      then have "bg ! hd (entry_ids g) \<noteq> None" using g(1,3) ne by auto
      then have "covers s vals bg g cur" using Cons.prems(6) g(1,2) by simp
      then have "covers s vals bg g cur1" using g(2) f(6) by (rule covers_mono)
      then show ?thesis using same by (rule covers_frame)
    qed
    obtain cur' bg' where r: "hybrid_pass hbs align hs use_eagle s gs cur1 ?bg = Inr (cur', bg')"
        "pass_effect s vals align gs cur1 ?bg cur' bg'"
      using Cons.IH [OF _ dis(3) _ f(5), of ?bg] Cons.prems(1,3,5) f(6) low by auto
    have "hybrid_pass hbs align hs use_eagle s (grp # gs) cur bg = Inr (cur', bg')"
      using False idx f(1-4) r(1) by (auto simp: grp)
    moreover have "group_size grp dvd cur1" using f(4) grp by auto
    ultimately show ?thesis
      using pass_effect_Cons [OF r(2) f(8) _ f(6) _ keep dis(2) ne] f(7) by auto
  qed
qed (simp add: pass_effect_def)

subsection \<open>The fixed point\<close>

text \<open>Every group accepts the length, which is a multiple of its block size.\<close>

definition accepted :: "block_pool \<Rightarrow> (KVCacheSpec \<Rightarrow> bytes list) \<Rightarrow> attention_group list \<Rightarrow> ptr list option list \<Rightarrow> int \<Rightarrow> bool" where
  "accepted s vals gs by_group h \<longleftrightarrow> (\<forall>grp \<in> set gs. group_size grp dvd h \<and> covers s vals by_group grp h)"

lemma pass_effect_fixed: "pass_effect s vals align gs h bg cur bg' \<Longrightarrow> h \<le> cur \<Longrightarrow> accepted s vals gs bg' h"
  unfolding pass_effect_def accepted_def by (metis order_antisym)

text \<open>A full group followed by another one: the first pass settles the length.\<close>

lemma pass_effect_simple:
  assumes "pass_effect s vals align [g1, g2] h bg cur bg'" and "is_full (fst g1)"
    and "bg ! hd (entry_ids g1) = None" and "bg ! hd (entry_ids g2) = None"
    and "group_size g1 dvd align" and "group_size g2 dvd align"
  shows "accepted s vals [g1, g2] bg' cur"
proof -
  obtain c where c: "cur \<le> c" "covers s vals bg' g1 c" using assms(1) by (auto simp: pass_effect_def)
  have "align dvd cur" "covers s vals bg' g2 cur" using assms(1,3,4) by (simp_all add: pass_effect_def)
  with c assms(2,5,6) covers_mono show ?thesis by (auto simp: accepted_def intro: dvd_trans)
qed

lemma hybrid_loop_ok:
  assumes inv: "pool_inv s" and ok: "\<forall>grp \<in> set gs. group_searchable hbs align hs use_eagle vals L N grp \<and> group_size grp dvd align"
    and dis: "distinct (concat (map entry_ids gs))"
    and "length bg = N" and "0 \<le> h" and "h \<le> L"
    and "\<forall>grp \<in> set gs. is_full (fst grp) \<and> bg ! hd (entry_ids grp) \<noteq> None \<longrightarrow> covers s vals bg grp h"
  shows "\<exists>h' bg'. hybrid_loop hbs align hs use_eagle s gs False h bg = Some (Inr (h', bg'))
    \<and> 0 \<le> h' \<and> h' \<le> h \<and> length bg' = N \<and> accepted s vals gs bg' h'"
  using assms(4-)
proof (induction "nat h" arbitrary: h bg rule: less_induct)
  case less
  obtain cur bg1 where p: "hybrid_pass hbs align hs use_eagle s gs h bg = Inr (cur, bg1)"
      "pass_effect s vals align gs h bg cur bg1"
    using hybrid_pass_ok [OF inv ok dis less.prems] by blast
  note loop = hybrid_loop.simps [of hbs align hs use_eagle s gs False h bg] p(1)
  have e: "0 \<le> cur" "cur \<le> h" "length bg1 = N" using p(2) less.prems(1) by (simp_all add: pass_effect_def)
  show ?case
  proof (cases "h \<le> cur")
    case True
    then show ?thesis using loop pass_effect_fixed [OF p(2)] e less.prems(2) by simp
  next
    case False
    have "covers s vals bg1 g cur" if "g \<in> set gs" "is_full (fst g)" for g
      using p(2) that unfolding pass_effect_def by (meson covers_mono)
    then show ?thesis
      using less.hyps [of cur bg1] loop e less.prems(2,3) False by auto
  qed
qed


subsection \<open>The result\<close>

text \<open>Truncation cuts the lists of the first group, if that is full attention, and nothing else.\<close>

lemma truncate_entries:
  assumes "distinct (map nat gids)" and "\<forall>g \<in> set gids. 0 \<le> g \<and> nat g < length bg"
  shows "\<exists>bg'. foldE (\<lambda>g by_group. bindE (index_py by_group g) (\<lambda>b. Inr (by_group[nat g := map_option trim b]))) gids bg = Inr bg'
    \<and> length bg' = length bg \<and> (\<forall>g \<in> set gids. bg' ! nat g = map_option trim (bg ! nat g))
    \<and> (\<forall>j. j \<notin> nat ` set gids \<longrightarrow> bg' ! j = bg ! j)"
  using assms
proof (induction gids arbitrary: bg)
  case (Cons g gids)
  let ?bg = "bg[nat g := map_option trim (bg ! nat g)]"
  obtain bg' where IH: "foldE (\<lambda>g by_group. bindE (index_py by_group g) (\<lambda>b. Inr (by_group[nat g := map_option trim b]))) gids ?bg = Inr bg'"
    "length bg' = length bg" "\<forall>x \<in> set gids. bg' ! nat x = map_option trim (?bg ! nat x)" "\<forall>j. j \<notin> nat ` set gids \<longrightarrow> bg' ! j = ?bg ! j"
    using Cons.IH [of ?bg] Cons.prems by auto
  have g: "nat g \<notin> nat ` set gids" "0 \<le> g" "nat g < length bg" using Cons.prems by auto
  have "bg' ! nat x = map_option trim (bg ! nat x)" if "x \<in> set gids" for x
    using IH(3) g that by (metis imageI nth_list_update_neq)
  then show ?case using IH g by (intro exI [of _ bg']) (auto simp: index_py_nonneg)
qed simp

abbreviation blocks_needed :: "attention_group \<Rightarrow> int \<Rightarrow> nat" where
  "blocks_needed grp h \<equiv> nat (h div group_size grp)"

definition group_hit :: "block_pool \<Rightarrow> (KVCacheSpec \<Rightarrow> bytes list) \<Rightarrow> ptr list list \<Rightarrow> attention_group \<Rightarrow> int \<Rightarrow> bool" where
  "group_hit s vals res grp h \<longleftrightarrow> usable (group_manager grp) (group_size grp) s (group_ids grp) (vals (fst grp))
     (blocks_needed grp h) (map (\<lambda>g. take (blocks_needed grp h) (res ! nat g)) (group_ids grp))"

lemma full_attends_all: "spec_manager_map spec = Some (mgr_class m) \<Longrightarrow> is_full spec \<Longrightarrow> 0 < bs \<Longrightarrow> attended m bs n j"
  by (cases spec) (auto simp: is_full_def full_part_def attended_def get_num_skipped_tokens_def dest!: sym [of _ "mgr_class m"])

text \<open>Cutting a hit of full attention leaves a usable one.\<close>

lemma usable_take:
  assumes "usable m bs s gids vs n computed" and "spec_manager_map spec = Some (mgr_class m)" and "is_full spec" and "0 < bs" and "k \<le> n"
  shows "usable m bs s gids vs k (map (take k) computed)"
  using assms full_attends_all [OF assms(2-4)] by (auto simp: usable_def)

lemma covers_group_hit:
  assumes cov: "covers s vals bg grp h" and ok: "group_searchable hbs align hs use_eagle vals L N grp" and h: "0 \<le> h" "group_size grp dvd h"
    and res: "\<forall>g \<in> set (group_ids grp). \<forall>blks. bg ! nat g = Some blks \<longrightarrow>
        res ! nat g = blks \<or> is_full (fst grp) \<and> res ! nat g = take (blocks_needed grp h) blks"
  shows "group_hit s vals res grp h
    \<and> (\<not> is_full (fst grp) \<longrightarrow> (\<forall>g \<in> set (group_ids grp). length (res ! nat g) = blocks_needed grp h))"
proof -
  let ?k = "blocks_needed grp h" and ?bs = "group_size grp" and ?ids = "group_ids grp"
  obtain computed n where c: "stored bg ?ids computed"
      "usable (group_manager grp) ?bs s ?ids (vals (fst grp)) n computed"
      "if is_full (fst grp) then h \<le> int n * ?bs else h = int n * ?bs"
    using cov by (auto simp: covers_def)
  have bs: "0 < ?bs" and cls: "spec_manager_map (fst grp) = Some (mgr_class (group_manager grp))"
    using ok by (auto simp: group_searchable_def search_ok_def split: prod.splits)
  have k: "?k \<le> n" "\<not> is_full (fst grp) \<Longrightarrow> ?k = n"
    using c(3) h bs by (auto simp: nat_le_iff split: if_splits elim!: dvdE)
  have len: "length computed = length ?ids" "\<forall>i < length ?ids. length (computed ! i) = n" using c(2) by (simp_all add: usable_def)
  have st: "bg ! nat (?ids ! i) = Some (computed ! i)" if "i < length ?ids" for i
    using c(1) that by (simp add: stored_def list_all2_conv_all_nth)
  have take: "take ?k (res ! nat (?ids ! i)) = take ?k (computed ! i)" if "i < length ?ids" for i
    using res st [OF that] that by fastforce
  then have "map (\<lambda>g. take ?k (res ! nat g)) ?ids = map (take ?k) computed"
    using len(1) by (intro nth_equalityI) auto
  moreover have "usable (group_manager grp) ?bs s ?ids (vals (fst grp)) ?k (map (take ?k) computed)"
  proof (cases "is_full (fst grp)")
    case True
    show ?thesis by (rule usable_take [OF c(2) cls True bs k(1)])
  next
    case False
    then have "map (take ?k) computed = computed" using k(2) len by (intro nth_equalityI) auto
    with c(2) k(2) False show ?thesis by simp
  qed
  moreover have "length (res ! nat g) = ?k" if "\<not> is_full (fst grp)" "g \<in> set ?ids" for g
    using that res st k(2) len(2) by (metis in_set_conv_nth)
  ultimately show ?thesis by (simp add: group_hit_def)
qed

lemma group_hit_length:
  assumes "group_hit s vals res grp h" and "g \<in> set (group_ids grp)"
  shows "length (take (blocks_needed grp h) (res ! nat g)) = blocks_needed grp h"
  using assms by (auto simp: group_hit_def usable_def in_set_conv_nth)

lemma truncate_ok:
  assumes gs: "groups \<noteq> []" and dis: "distinct (concat (map entry_ids groups))"
    and ok: "\<forall>grp \<in> set groups. group_searchable hbs align hs use_eagle vals L N grp \<and> group_size grp dvd align"
    and bg: "length bg = N" "0 \<le> h"
  shows "\<exists>bg'. truncate_full groups h bg = Inr bg' \<and> length bg' = N
    \<and> (\<forall>grp \<in> set groups. \<forall>g \<in> set (group_ids grp). bg' ! nat g =
       (if is_full (fst grp) \<and> grp = hd groups then map_option (take (blocks_needed grp h)) (bg ! nat g) else bg ! nat g))"
proof -
  obtain spec gids cls gs' where gr: "groups = (spec, gids, cls) # gs'" using gs by (cases groups) auto
  have o: "\<forall>g \<in> set gids. 0 \<le> g \<and> nat g < length bg" "0 < spec_block_size spec"
    using ok gr bg by (auto simp: group_searchable_def gids_ok_def search_ok_def)
  have apart: "grp = hd groups \<longleftrightarrow> nat g \<in> nat ` set gids" if "grp \<in> set groups" "g \<in> set (group_ids grp)" for grp g
  proof (cases "grp = hd groups")
    case True
    then show ?thesis using that gr by simp
  next
    case False
    then have "grp \<in> set gs'" using that(1) gr by simp
    moreover have "nat g \<in> set (entry_ids grp)" using that(2) by (simp add: entry_ids_def)
    ultimately have "nat g \<in> set (concat (map entry_ids gs'))" by auto
    moreover have "nat ` set gids \<inter> set (concat (map entry_ids gs')) = {}" using dis gr by (simp add: entry_ids_def)
    ultimately show ?thesis using False by blast
  qed
  show ?thesis
  proof (cases "is_full spec")
    case True
    let ?n = "h div spec_block_size spec"
    have trim: "(\<lambda>blks. take (slice_bound blks ?n) blks) = (take (nat ?n) :: ptr list \<Rightarrow> _)"
    proof
      fix blks :: "ptr list"
      have "0 \<le> ?n" using bg(2) o(2) by (simp add: pos_imp_zdiv_nonneg_iff)
      then show "take (slice_bound blks ?n) blks = take (nat ?n) blks" by (auto simp: slice_bound_def Let_def min_def)
    qed
    have "distinct (map nat gids)" using dis gr by (simp add: entry_ids_def)
    from truncate_entries [OF this o(1), of "take (nat ?n)"] obtain bg' where
      b: "truncate_full groups h bg = Inr bg'" "length bg' = length bg"
        "\<forall>g \<in> set gids. bg' ! nat g = map_option (take (nat ?n)) (bg ! nat g)" "\<forall>j. j \<notin> nat ` set gids \<longrightarrow> bg' ! j = bg ! j"
      using True o(2) gr by (auto simp: truncate_full_def floordivE_def trim)
    have "bg' ! nat g = (if is_full (fst grp) \<and> grp = hd groups then map_option (take (blocks_needed grp h)) (bg ! nat g) else bg ! nat g)"
      if "grp \<in> set groups" "g \<in> set (group_ids grp)" for grp g
      using apart [OF that] that b(3,4) gr True by (cases "grp = hd groups") auto
    with b(1,2) bg(1) show ?thesis by blast
  next
    case False
    then show ?thesis using bg gr by (auto simp: truncate_full_def)
  qed
qed

text \<open>The loop, in the mode the coordinator chooses.\<close>

lemma hybrid_search_ok:
  assumes inv: "pool_inv s" and ok: "\<forall>grp \<in> set groups. group_searchable hbs align hs use_eagle vals L N grp \<and> group_size grp dvd align"
    and dis: "distinct (concat (map entry_ids groups))" and L: "0 \<le> L"
  shows "\<exists>h bg. hybrid_loop hbs align hs use_eagle s groups
      (length groups = 2 \<and> (case groups of [] \<Rightarrow> False | g # _ \<Rightarrow> is_full (fst g))) L (replicate N None) = Some (Inr (h, bg))
    \<and> 0 \<le> h \<and> h \<le> L \<and> length bg = N \<and> accepted s vals groups bg h"
proof -
  let ?bg = "replicate N None :: ptr list option list"
  have none: "?bg ! hd (entry_ids grp) = None" if "grp \<in> set groups" for grp
  proof -
    have g: "group_searchable hbs align hs use_eagle vals L N grp" using ok that by blast
    then have "\<forall>j \<in> set (entry_ids grp). j < N" by (auto simp: group_searchable_def entry_ids_def split: prod.splits)
    then show ?thesis using hd_in_set [OF searchable_entries [OF g]] by simp
  qed
  then have vac: "\<forall>grp \<in> set groups. is_full (fst grp) \<and> ?bg ! hd (entry_ids grp) \<noteq> None \<longrightarrow> covers s vals ?bg grp L"
    by (metis (no_types))
  show ?thesis
  proof (cases "length groups = 2 \<and> (case groups of [] \<Rightarrow> False | g # _ \<Rightarrow> is_full (fst g))")
    case True
    then obtain g1 g2 where g: "groups = [g1, g2]" "is_full (fst g1)"
      by (auto simp: length_Suc_conv numeral_2_eq_2)
    obtain cur bg1 where p: "hybrid_pass hbs align hs use_eagle s groups L ?bg = Inr (cur, bg1)"
        "pass_effect s vals align groups L ?bg cur bg1"
      using hybrid_pass_ok [OF inv ok dis length_replicate L order_refl vac] by blast
    have e: "0 \<le> cur" "cur \<le> L" "length bg1 = N" using p(2) by (simp_all add: pass_effect_def)
    have "accepted s vals groups bg1 cur"
      using pass_effect_simple [OF p(2) [unfolded g(1)] g(2)] none ok g(1) by auto
    then show ?thesis
      using hybrid_loop.simps [of hbs align hs use_eagle s groups True L ?bg] p(1) e True L pass_effect_fixed [OF p(2)]
      by auto
  next
    case False
    then show ?thesis using hybrid_loop_ok [OF inv ok dis length_replicate L order_refl vac] by auto
  qed
qed

lemma hybrid_find_ok:
  assumes inv: "pool_inv (coord_pool c)" and gs: "groups \<noteq> []" and N: "length (kv_cache_groups (coord_config c)) = N"
    and ok: "\<forall>grp \<in> set groups. group_searchable hbs align hs (coord_use_eagle c) vals L N grp \<and> group_size grp dvd align"
    and dis: "distinct (concat (map entry_ids groups))" and L: "0 \<le> L"
  shows "\<exists>res h. hybrid_find_longest_cache_hit hbs groups align hs L c = Some (Inr (res, h))
    \<and> 0 \<le> h \<and> h \<le> L \<and> length res = N
    \<and> (\<forall>grp \<in> set groups. group_size grp dvd h \<and> group_hit (coord_pool c) vals res grp h
         \<and> (\<not> is_full (fst grp) \<or> grp = hd groups \<longrightarrow> (\<forall>g \<in> set (group_ids grp). length (res ! nat g) = blocks_needed grp h)))"
proof -
  let ?simple = "length groups = 2 \<and> (case groups of [] \<Rightarrow> False | g # _ \<Rightarrow> is_full (fst g))"
  obtain h bg where l: "hybrid_loop hbs align hs (coord_use_eagle c) (coord_pool c) groups ?simple L (replicate N None) = Some (Inr (h, bg))"
    "0 \<le> h" "h \<le> L" "length bg = N" "accepted (coord_pool c) vals groups bg h"
    using hybrid_search_ok [OF inv ok dis L] by blast
  obtain bg' where tr: "truncate_full groups h bg = Inr bg'" "length bg' = N"
    "\<forall>grp \<in> set groups. \<forall>g \<in> set (group_ids grp). bg' ! nat g =
       (if is_full (fst grp) \<and> grp = hd groups then map_option (take (blocks_needed grp h)) (bg ! nat g) else bg ! nat g)"
    using truncate_ok [OF gs dis ok l(4,2)] by blast
  let ?res = "map (\<lambda>b. case b of None \<Rightarrow> [] | Some blks \<Rightarrow> blks) bg'"
  have run: "hybrid_find_longest_cache_hit hbs groups align hs L c = Some (Inr (?res, h))"
    unfolding hybrid_find_longest_cache_hit_def Let_def N l(1) using tr(1) by simp
  have "group_size grp dvd h \<and> group_hit (coord_pool c) vals ?res grp h
      \<and> (\<not> is_full (fst grp) \<or> grp = hd groups \<longrightarrow> (\<forall>g \<in> set (group_ids grp). length (?res ! nat g) = blocks_needed grp h))"
    if grp: "grp \<in> set groups" for grp
  proof -
    let ?k = "blocks_needed grp h"
    have sok: "group_searchable hbs align hs (coord_use_eagle c) vals L N grp" using ok grp by blast
    have acc: "group_size grp dvd h" "covers (coord_pool c) vals bg grp h" using l(5) grp by (auto simp: accepted_def)
    have at: "?res ! nat g = (case bg' ! nat g of None \<Rightarrow> [] | Some blks \<Rightarrow> blks)" if "g \<in> set (group_ids grp)" for g
      using that sok tr(2) by (auto simp: group_searchable_def split: prod.splits)
    have cases: "?res ! nat g = blks \<or> is_full (fst grp) \<and> ?res ! nat g = take ?k blks"
      if "g \<in> set (group_ids grp)" "bg ! nat g = Some blks" for g blks
      using at [OF that(1)] tr(3) grp that by (cases "is_full (fst grp) \<and> grp = hd groups") auto
    have cov: "group_hit (coord_pool c) vals ?res grp h"
        "\<not> is_full (fst grp) \<Longrightarrow> \<forall>g \<in> set (group_ids grp). length (?res ! nat g) = ?k"
      using covers_group_hit [OF acc(2) sok l(2) acc(1), of ?res] cases by blast+
    have "length (?res ! nat g) = ?k" if "is_full (fst grp)" "grp = hd groups" "g \<in> set (group_ids grp)" for g
    proof -
      have "?res ! nat g = take ?k (case bg ! nat g of None \<Rightarrow> [] | Some blks \<Rightarrow> blks)"
        using at [OF that(3)] tr(3) grp that by (auto split: option.splits)
      then show ?thesis using group_hit_length [OF cov(1) that(3)] by (metis take_take min.idem)
    qed
    with cov acc(1) show ?thesis by blast
  qed
  with run l(2,3) tr(2) show ?thesis by (intro exI [of _ ?res] exI [of _ h]) simp
qed


subsection \<open>The attention groups partition the cache groups\<close>

definition groups_of :: "SingleTypeKVCacheManager list \<Rightarrow> attention_group list \<Rightarrow> bool" where
  "groups_of ms gs \<longleftrightarrow> distinct (map fst gs) \<and> mset (concat (map group_ids gs)) = mset (map int [0..<length ms])
     \<and> (\<forall>(spec, gids, cls) \<in> set gs. gids \<noteq> [] \<and> (\<forall>g \<in> set gids. mgr_spec (ms ! nat g) = spec \<and> mgr_class (ms ! nat g) = cls))"

lemma add_attention_group_ids:
  "add_attention_group spec i cls gs = Inr gs' \<Longrightarrow> mset (concat (map group_ids gs')) = add_mset i (mset (concat (map group_ids gs)))"
  by (induction gs arbitrary: gs') (auto simp: bindE_Inr_iff assertE_def split: if_splits)

lemma add_attention_group_specs:
  "add_attention_group spec i cls gs = Inr gs' \<Longrightarrow>
     map fst gs' = (if spec \<in> set (map fst gs) then map fst gs else map fst gs @ [spec])"
  by (induction gs arbitrary: gs') (force simp: bindE_Inr_iff assertE_def split: if_splits)+

lemma add_attention_group_elem:
  assumes "add_attention_group spec i cls gs = Inr gs'" and "(spec', gids, cls') \<in> set gs'"
  shows "(spec', gids, cls') \<in> set gs \<or> spec' = spec \<and> cls' = cls \<and> (gids = [i] \<or> (\<exists>gids'. gids = gids' @ [i] \<and> (spec', gids', cls') \<in> set gs))"
  using assms
proof (induction gs arbitrary: gs')
  case (Cons grp gs)
  obtain spec0 gids0 cls0 where grp: "grp = (spec0, gids0, cls0)" by (cases grp)
  show ?case
  proof (cases "spec0 = spec")
    case True
    with Cons.prems grp show ?thesis by (auto simp: assertE_def split: if_splits)
  next
    case False
    then obtain gs1 where gs1: "add_attention_group spec i cls gs = Inr gs1" "gs' = grp # gs1"
      using Cons.prems(1) grp by (auto simp: bindE_Inr_iff)
    then show ?thesis using Cons.IH [OF gs1(1)] Cons.prems(2) by auto
  qed
qed simp

lemma groups_of_add:
  assumes "groups_of ms gs" and "add_attention_group (mgr_spec m) (int (length ms)) (mgr_class m) gs = Inr gs'"
  shows "groups_of (ms @ [m]) gs'"
proof -
  have low: "nat g < length ms" if "(spec, gids, cls) \<in> set gs" "g \<in> set gids" for spec gids cls g
  proof -
    have "g \<in> set (concat (map group_ids gs))" using that by force
    also have "\<dots> = set (map int [0..<length ms])" using assms(1) unfolding groups_of_def by (metis set_mset_mset)
    finally show ?thesis by auto
  qed
  have old: "gids \<noteq> [] \<and> (\<forall>g \<in> set gids. mgr_spec ((ms @ [m]) ! nat g) = spec \<and> mgr_class ((ms @ [m]) ! nat g) = cls)"
    if "(spec, gids, cls) \<in> set gs" for spec gids cls
    using assms(1) low [OF that] that by (auto simp: groups_of_def nth_append)
  have "gids \<noteq> [] \<and> (\<forall>g \<in> set gids. mgr_spec ((ms @ [m]) ! nat g) = spec \<and> mgr_class ((ms @ [m]) ! nat g) = cls)"
    if "(spec, gids, cls) \<in> set gs'" for spec gids cls
    using add_attention_group_elem [OF assms(2) that] old by auto
  then show ?thesis using assms(1) add_attention_group_ids [OF assms(2)] add_attention_group_specs [OF assms(2)]
    by (auto simp: groups_of_def)
qed

lemma split_groups_of:
  assumes "split_groups ms = Inr gs"
  shows "groups_of ms gs"
proof -
  have "groups_of (pre @ ms) gs'"
    if "foldE (\<lambda>(i, m). add_attention_group (mgr_spec m) i (mgr_class m)) (zip [int (length pre)..int (length pre + length ms) - 1] ms) gs = Inr gs'"
      "groups_of pre gs" for pre gs gs'
    using that
  proof (induction ms arbitrary: pre gs)
    case (Cons m ms)
    have "[int (length pre)..int (length pre + length (m # ms)) - 1] =
        int (length pre) # [int (length (pre @ [m]))..int (length (pre @ [m]) + length ms) - 1]"
      by (simp add: upto_rec1 algebra_simps)
    with Cons.prems(1) obtain gs1 where
      "add_attention_group (mgr_spec m) (int (length pre)) (mgr_class m) gs = Inr gs1"
      "foldE (\<lambda>(i, m). add_attention_group (mgr_spec m) i (mgr_class m))
         (zip [int (length (pre @ [m]))..int (length (pre @ [m]) + length ms) - 1] ms) gs1 = Inr gs'"
      by auto
    with Cons.IH [of "pre @ [m]" gs1] groups_of_add [OF Cons.prems(2)] show ?case by simp
  qed simp
  from this [of "[]" "[]" gs] assms show ?thesis by (simp add: split_groups_def groups_of_def)
qed

lemma dvd_lcm_list: "x \<in> set xs \<Longrightarrow> x dvd lcm_list xs"
  by (induction xs) (auto simp: lcm_list_def)

lemma verify_and_split_ok:
  assumes "verify_and_split_kv_cache_groups ms = Inr (groups, align)"
  shows "groups_of ms groups" and "groups \<noteq> []" and "\<forall>grp \<in> set groups. group_size grp dvd align"
proof -
  obtain gs where gs: "split_groups ms = Inr gs" "length gs > 1" "groups = sort_key (\<lambda>g. \<not> is_full (fst g)) gs"
      "align = lcm_list (map (spec_block_size \<circ> fst) gs)"
    using assms by (auto simp: verify_and_split_kv_cache_groups_def assertE_def split: if_splits)
  have "mset (concat (map group_ids groups)) = mset (concat (map group_ids gs))"
    unfolding gs(3) mset_concat sum_mset_sum_list [symmetric] by (simp only: map_map mset_map mset_sort)
  moreover have "distinct (map fst groups) = distinct (map fst gs)"
    unfolding gs(3) by (rule mset_eq_imp_distinct_iff) (simp only: mset_map mset_sort)
  ultimately show "groups_of ms groups" using split_groups_of [OF gs(1)] by (simp add: groups_of_def gs(3))
  show "groups \<noteq> []" using gs(2,3) by (metis length_0_conv length_sort less_nat_zero_code)
  show "\<forall>grp \<in> set groups. group_size grp dvd align" using gs(3,4) by (force intro!: dvd_lcm_list)
qed

lemma groups_of_distinct: "groups_of ms gs \<Longrightarrow> distinct (concat (map entry_ids gs))"
proof -
  assume g: "groups_of ms gs"
  let ?ids = "concat (map group_ids gs)"
  have "distinct ?ids" using g unfolding groups_of_def by (metis distinct_map distinct_upt inj_on_of_nat mset_eq_imp_distinct_iff)
  moreover have "set ?ids = set (map int [0..<length ms])" using g unfolding groups_of_def by (metis set_mset_mset)
  moreover have "concat (map entry_ids gs) = map nat ?ids" by (simp add: entry_ids_def [abs_def] map_concat comp_def)
  ultimately show ?thesis by (auto simp: distinct_map inj_on_def)
qed

lemma groups_of_member:
  assumes "groups_of ms gs" and "i < length ms"
  shows "\<exists>gids. (mgr_spec (ms ! i), gids, mgr_class (ms ! i)) \<in> set gs \<and> int i \<in> set gids"
proof -
  have "int i \<in> set (map int [0..<length ms])" using assms(2) by simp
  then have "int i \<in> set (concat (map group_ids gs))" using assms(1) unfolding groups_of_def by (metis set_mset_mset)
  then obtain spec gids cls where g: "(spec, gids, cls) \<in> set gs" "int i \<in> set gids" by auto
  moreover have "mgr_spec (ms ! nat (int i)) = spec \<and> mgr_class (ms ! nat (int i)) = cls"
    using assms(1) g unfolding groups_of_def by blast
  ultimately show ?thesis by auto
qed

lemma groups_of_same_spec: "groups_of ms gs \<Longrightarrow> grp \<in> set gs \<Longrightarrow> grp' \<in> set gs \<Longrightarrow> fst grp = fst grp' \<Longrightarrow> grp = grp'"
  unfolding groups_of_def distinct_map inj_on_def by blast

subsection \<open>The hashes a group sees\<close>

definition spec_hashes :: "int \<Rightarrow> bytes list \<Rightarrow> KVCacheSpec \<Rightarrow> bytes list" where
  "spec_hashes hbs hs spec = (let f = nat (spec_block_size spec div hbs) in
     if spec_block_size spec = hbs then hs
     else map (\<lambda>i. concat (take f (drop (i * f) hs))) [0..<length hs div f])"

lemma spec_hashes_ok:
  assumes "0 < hbs" and "0 < spec_block_size spec" and "hbs dvd spec_block_size spec" and "L div hbs \<le> int (length hs)"
  shows "\<exists>hashes. get_block_hashes hbs spec hs = Inr hashes \<and> hash_values hashes (spec_hashes hbs hs spec)"
    and "nat (L div spec_block_size spec) \<le> length (spec_hashes hbs hs spec)"
proof -
  let ?bs = "spec_block_size spec" and ?f = "spec_block_size spec div hbs"
  have f: "0 < ?f" "?bs = hbs * ?f" using assms(1-3) by (auto elim!: dvdE simp: zero_less_mult_iff)
  have len: "int (length hs div nat ?f) = int (length hs) div ?f" using f(1) by (simp add: zdiv_int)
  show "\<exists>hashes. get_block_hashes hbs spec hs = Inr hashes \<and> hash_values hashes (spec_hashes hbs hs spec)"
  proof (cases "?bs = hbs")
    case False
    obtain l where l: "new_block_hash_list hs hbs ?bs = Inr l" "bh_len l = int (length hs) div ?f"
      "\<forall>i. 0 \<le> i \<and> i < bh_len l \<longrightarrow> get_value_at l i = Inr (concat (take (nat ?f) (drop (nat (i * ?f)) hs)))"
      using block_hash_list_regroups [of hbs ?bs hs] assms(1-3) by (auto simp: mod_eq_0_iff_dvd)
    have scale: "0 < scale_factor l" using l(1) f(1) assms(1,3) by (auto simp: new_block_hash_list_def assertE_def split: if_splits)
    have "iter_values l = Inr (spec_hashes hbs hs spec)"
      unfolding iter_values_def mapE_Inr_iff
      using False l(2,3) len f(1) by (auto simp: list_all2_conv_all_nth spec_hashes_def Let_def nat_mult_distrib)
    with hash_values_scaled [OF scale] l(1) False show ?thesis by (auto simp: get_block_hashes_def)
  qed (simp add: get_block_hashes_def spec_hashes_def)
  have "L div ?bs = L div hbs div ?f" by (metis f zdiv_zmult2_eq less_imp_le)
  then have "L div ?bs \<le> int (length hs) div ?f" using assms(4) f(1) by (simp add: zdiv_mono1)
  with len show "nat (L div ?bs) \<le> length (spec_hashes hbs hs spec)"
    using f assms(4) by (auto simp: spec_hashes_def Let_def nat_le_iff)
qed

text \<open>What a group promises about one of its cache groups.\<close>

lemma groups_of_ids:
  assumes "groups_of ms gs" and "(spec, gids, cls) \<in> set gs"
  shows "gids \<noteq> []"
    and "\<forall>g \<in> set gids. 0 \<le> g \<and> nat g < length ms \<and> mgr_spec (ms ! nat g) = spec \<and> mgr_class (ms ! nat g) = cls"
proof -
  have "set (concat (map group_ids gs)) = set (map int [0..<length ms])" using assms(1) unfolding groups_of_def by (metis set_mset_mset)
  moreover have "set gids \<subseteq> set (concat (map group_ids gs))" using assms(2) by force
  ultimately have "\<forall>g \<in> set gids. 0 \<le> g \<and> nat g < length ms" by auto
  with assms show "gids \<noteq> []"
      "\<forall>g \<in> set gids. 0 \<le> g \<and> nat g < length ms \<and> mgr_spec (ms ! nat g) = spec \<and> mgr_class (ms ! nat g) = cls"
    by (auto simp: groups_of_def)
qed

lemma skipped_by_class: "mgr_class m = mgr_class m' \<Longrightarrow> get_num_skipped_tokens m = get_num_skipped_tokens m'"
  by (simp add: get_num_skipped_tokens_def fun_eq_iff)

lemma group_hit_entry:
  assumes "group_hit s vals res (mgr_spec m, gids, mgr_class m) h" and "0 \<le> h" and "spec_block_size (mgr_spec m) dvd h" and "int i \<in> set gids"
  shows "nat (h div spec_block_size (mgr_spec m)) \<le> length (res ! i)
    \<and> (\<forall>j < nat (h div spec_block_size (mgr_spec m)). holds_key s (vals (mgr_spec m) ! j) (int i) (res ! i ! j)
        \<or> res ! i ! j = null_block s
           \<and> (\<exists>k. get_num_skipped_tokens m h = Inr k \<and> (int j + 1) * spec_block_size (mgr_spec m) \<le> k))"
proof -
  let ?grp = "(mgr_spec m, gids, mgr_class m)" and ?bs = "spec_block_size (mgr_spec m)"
  obtain x where x: "x < length gids" "gids ! x = int i" using assms(4) by (auto simp: in_set_conv_nth)
  have len: "nat (h div ?bs) \<le> length (res ! i)"
    using group_hit_length [OF assms(1), of "int i"] assms(4) by simp
  have sk: "get_num_skipped_tokens (group_manager ?grp) = get_num_skipped_tokens m" by (rule skipped_by_class) simp
  have each: "res ! i ! j = null_block s \<and> \<not> attended (group_manager ?grp) ?bs (nat (h div ?bs)) j \<or> holds_key s (vals (mgr_spec m) ! j) (int i) (res ! i ! j)"
    if "j < nat (h div ?bs)" for j
  proof -
    let ?take = "map (\<lambda>g. take (nat (h div ?bs)) (res ! nat g)) gids"
    have "?take ! x ! j = res ! i ! j" using x that by simp
    moreover have "?take ! x ! j = null_block s \<and> \<not> attended (group_manager ?grp) ?bs (nat (h div ?bs)) j
        \<or> holds_key s (vals (mgr_spec m) ! j) (gids ! x) (?take ! x ! j)"
      using assms(1) x(1) that unfolding group_hit_def usable_def fst_conv snd_conv by blast
    ultimately show ?thesis using x(2) by simp
  qed
  have "int (nat (h div ?bs)) * ?bs = h" if "j < nat (h div ?bs)" for j
  proof -
    have "0 < h div ?bs" using that by linarith
    then show ?thesis using assms(3) by simp
  qed
  with each len show ?thesis unfolding not_attended sk by metis
qed

subsection \<open>Properties\<close>

text \<open>
  C8: The lookup of the hybrid coordinator ends and returns a length that suits every attention type at once. The
  length is at most the one asked for and a multiple of every block size; every cache group
  gets at least the blocks that the length needs, each with the hash and the group of its
  position, or the null block where the group skips all its tokens at that length. For all groups but
  those of a second full attention spec it is exactly that many blocks. The specs of all groups satisfy
  \<open>search_ok\<close>: positive block sizes, no cross attention, chunked local attention only with chunks of whole
  blocks, without EAGLE and with the alignment of its block size, sliding windows with EAGLE only with
  the alignment of their block size; context parallelism is off.
\<close>

theorem hybrid_lookup_suits_every_group:
  assumes "pool_inv (coord_pool c)" and "coord_class c = HybridKVCacheCoordinator hbs groups align"
    and "verify_and_split_kv_cache_groups (single_type_managers c) = Inr (groups, align)"
    and "length (kv_cache_groups (coord_config c)) = length (single_type_managers c)" and "length (single_type_managers c) < 2 ^ 32"
    and "0 < hbs" and "0 \<le> max_length" and "max_length div hbs \<le> int (length hs)"
    and "\<forall>m \<in> set (single_type_managers c). spec_manager_map (mgr_spec m) = Some (mgr_class m)
        \<and> search_ok (mgr_spec m) (coord_use_eagle c) align \<and> hbs dvd spec_block_size (mgr_spec m)"
  shows "\<exists>res h. coordinator_find_longest_cache_hit hs max_length c = Some (Inr (res, h)) \<and> 0 \<le> h \<and> h \<le> max_length
    \<and> length res = length (single_type_managers c)
    \<and> (\<forall>i < length res. let m = single_type_managers c ! i; bs = spec_block_size (mgr_spec m); n = nat (h div bs) in
        bs dvd h \<and> n \<le> length (res ! i)
        \<and> (\<not> is_full (mgr_spec m) \<or> mgr_spec m = fst (hd groups) \<longrightarrow> length (res ! i) = n)
        \<and> (\<forall>j < n. holds_key (coord_pool c) (spec_hashes hbs hs (mgr_spec m) ! j) (int i) (res ! i ! j)
             \<or> res ! i ! j = null_block (coord_pool c)
                \<and> (\<exists>k. get_num_skipped_tokens m h = Inr k \<and> (int j + 1) * bs \<le> k)))"
proof -
  let ?ms = "single_type_managers c" and ?vals = "spec_hashes hbs hs"
  note g = verify_and_split_ok [OF assms(3)]
  have "group_searchable hbs align hs (coord_use_eagle c) ?vals max_length (length ?ms) grp \<and> group_size grp dvd align"
    if grp: "grp \<in> set groups" for grp
  proof -
    obtain spec gids cls where e: "grp = (spec, gids, cls)" by (cases grp)
    have ids: "gids \<noteq> []" "\<forall>g \<in> set gids. 0 \<le> g \<and> nat g < length ?ms \<and> mgr_spec (?ms ! nat g) = spec \<and> mgr_class (?ms ! nat g) = cls"
      using groups_of_ids [OF g(1)] grp e by blast+
    then have "?ms ! nat (hd gids) \<in> set ?ms" "mgr_spec (?ms ! nat (hd gids)) = spec" "mgr_class (?ms ! nat (hd gids)) = cls" by auto
    with assms(9) have s: "spec_manager_map spec = Some cls" "search_ok spec (coord_use_eagle c) align" "hbs dvd spec_block_size spec"
      by auto
    have bs: "0 < spec_block_size spec" using s(2) by (simp add: search_ok_def)
    have "gids_ok gids" using ids assms(5) by (force simp: gids_ok_def)
    with s ids(2) spec_hashes_ok [OF assms(6) bs s(3) assms(8)] g(3) grp show ?thesis
      by (auto simp: group_searchable_def e)
  qed
  then obtain res h where r: "hybrid_find_longest_cache_hit hbs groups align hs max_length c = Some (Inr (res, h))"
    "0 \<le> h" "h \<le> max_length" "length res = length ?ms"
    "\<forall>grp \<in> set groups. group_size grp dvd h \<and> group_hit (coord_pool c) ?vals res grp h
         \<and> (\<not> is_full (fst grp) \<or> grp = hd groups \<longrightarrow> (\<forall>g \<in> set (group_ids grp). length (res ! nat g) = blocks_needed grp h))"
    using hybrid_find_ok [OF assms(1) g(2) assms(4) _ groups_of_distinct [OF g(1)] assms(7)] by blast
  have "let m = ?ms ! i; bs = spec_block_size (mgr_spec m); n = nat (h div bs) in bs dvd h \<and> n \<le> length (res ! i)
        \<and> (\<not> is_full (mgr_spec m) \<or> mgr_spec m = fst (hd groups) \<longrightarrow> length (res ! i) = n)
        \<and> (\<forall>j < n. holds_key (coord_pool c) (?vals (mgr_spec m) ! j) (int i) (res ! i ! j)
             \<or> res ! i ! j = null_block (coord_pool c)
                \<and> (\<exists>k. get_num_skipped_tokens m h = Inr k \<and> (int j + 1) * bs \<le> k))" if i: "i < length res" for i
  proof -
    obtain gids where grp: "(mgr_spec (?ms ! i), gids, mgr_class (?ms ! i)) \<in> set groups" "int i \<in> set gids"
      using groups_of_member [OF g(1), of i] i r(4) by auto
    have same: "(mgr_spec (?ms ! i), gids, mgr_class (?ms ! i)) = hd groups" if "mgr_spec (?ms ! i) = fst (hd groups)"
      using groups_of_same_spec [OF g(1) grp(1) hd_in_set [OF g(2)]] that by simp
    note all = r(5) [THEN bspec, OF grp(1), unfolded fst_conv snd_conv]
    have hit: "group_hit (coord_pool c) ?vals res (mgr_spec (?ms ! i), gids, mgr_class (?ms ! i)) h"
        "spec_block_size (mgr_spec (?ms ! i)) dvd h" using all by simp_all
    have exact: "\<not> is_full (mgr_spec (?ms ! i)) \<or> mgr_spec (?ms ! i) = fst (hd groups) \<longrightarrow>
          length (res ! i) = nat (h div spec_block_size (mgr_spec (?ms ! i)))"
    proof
      assume "\<not> is_full (mgr_spec (?ms ! i)) \<or> mgr_spec (?ms ! i) = fst (hd groups)"
      with same all have "\<forall>g \<in> set gids. length (res ! nat g) = nat (h div spec_block_size (mgr_spec (?ms ! i)))" by blast
      with grp(2) show "length (res ! i) = nat (h div spec_block_size (mgr_spec (?ms ! i)))" by force
    qed
    show ?thesis using group_hit_entry [OF hit(1) r(2) hit(2) grp(2)] hit(2) exact by (simp add: Let_def)
  qed
  with r assms(2) show ?thesis by (intro exI [of _ res] exI [of _ h]) (simp add: coordinator_find_longest_cache_hit_def)
qed


theorem hybrid_lookup_suits_every_group_witness:
  "\<exists>s c groups res h. block_pool_init 4 True 2 True = Inr s
     \<and> c = \<lparr>coord_class = HybridKVCacheCoordinator 2 groups 2,
         coord_config = \<lparr>num_blocks = 4, kv_cache_tensors = [],
           kv_cache_groups = [\<lparr>layer_names = [''l0''], kv_cache_spec = LayerSpec (FullAttention demo_full)\<rparr>,
             \<lparr>layer_names = [''l1''], kv_cache_spec = LayerSpec (SlidingWindow demo_window)\<rparr>]\<rparr>,
         coord_enable_caching = True, coord_use_eagle = False, coord_pool = s,
         single_type_managers = [new_manager FullAttentionManager (FullAttention demo_full) True 0 1 1,
           new_manager (SlidingWindowManager 3) (SlidingWindow demo_window) True 1 1 1]\<rparr>
     \<and> verify_and_split_kv_cache_groups (single_type_managers c) = Inr (groups, 2)
     \<and> coordinator_find_longest_cache_hit [[5], [6], [7]] 6 c = Some (Inr (res, h)) \<and> h \<le> 6 \<and> length res = 2"
proof -
  obtain s where s: "block_pool_init 4 True 2 True = Inr s" "pool_inv s" using demo_pool by blast
  let ?groups = "[(FullAttention demo_full, [0], FullAttentionManager), (SlidingWindow demo_window, [1], SlidingWindowManager 3)]"
  let ?c = "\<lparr>coord_class = HybridKVCacheCoordinator 2 ?groups 2,
         coord_config = \<lparr>num_blocks = 4, kv_cache_tensors = [],
           kv_cache_groups = [\<lparr>layer_names = [''l0''], kv_cache_spec = LayerSpec (FullAttention demo_full)\<rparr>,
             \<lparr>layer_names = [''l1''], kv_cache_spec = LayerSpec (SlidingWindow demo_window)\<rparr>]\<rparr>,
         coord_enable_caching = True, coord_use_eagle = False, coord_pool = s,
         single_type_managers = [new_manager FullAttentionManager (FullAttention demo_full) True 0 1 1,
           new_manager (SlidingWindowManager 3) (SlidingWindow demo_window) True 1 1 1]\<rparr>"
  have split: "verify_and_split_kv_cache_groups (single_type_managers ?c) = Inr (?groups, 2)"
    by (simp add: verify_and_split_kv_cache_groups_def split_groups_def new_manager_def upto.simps lcm_list_def
        demo_full_def demo_window_def is_full_def full_part_def)
  have "\<forall>m \<in> set (single_type_managers ?c). spec_manager_map (mgr_spec m) = Some (mgr_class m)
      \<and> search_ok (mgr_spec m) (coord_use_eagle ?c) 2 \<and> 2 dvd spec_block_size (mgr_spec m)"
    by (simp add: new_manager_def search_ok_def demo_full_def demo_window_def)
  with hybrid_lookup_suits_every_group [of ?c 2 ?groups 2 6 "[[5], [6], [7]]"] s split
  show ?thesis by auto
qed

end
