(* ===== verification/Manager_Invariant.thy ===== *)
theory Manager_Invariant
  imports Single_Type_Manager
begin

section \<open>Reference counts and block accounting of a manager\<close>

text \<open>
  Lemmas about the managers of \<open>Single_Type_Manager\<close>: what the requests of a manager hold
  agrees with the reference counts of the shared pool, each operation keeps that, and the number
  of blocks announced by \<open>get_num_blocks_to_allocate\<close> is what the two allocation calls then take.
\<close>

subsection \<open>The invariant of a manager\<close>

text \<open>
  \<open>held m p\<close> is how often the requests of the manager list the block. \<open>mgr_rel h s m\<close>: the pool
  invariant holds, requests list blocks of the pool and no ordinary block twice, and the
  reference count of an ordinary block is what this manager holds plus what the others
  hold, \<open>h\<close>.
\<close>

definition held :: "SingleTypeKVCacheManager \<Rightarrow> ptr \<Rightarrow> int" where
  "held m p = sum_list (map (\<lambda>e. int (count_list (snd e) p)) (req_to_blocks m))"

definition blocks_ok :: "block_pool \<Rightarrow> ptr list \<Rightarrow> bool" where
  "blocks_ok s bs \<longleftrightarrow> set bs \<subseteq> set (blocks s) \<and> distinct (filter (\<lambda>p. p \<in> real_blocks s) bs)"

definition mgr_wf :: "block_pool \<Rightarrow> SingleTypeKVCacheManager \<Rightarrow> bool" where
  "mgr_wf s m \<longleftrightarrow> distinct_keys (req_to_blocks m) \<and> (\<forall>e \<in> set (req_to_blocks m). blocks_ok s (snd e))"

definition refs_split :: "(ptr \<Rightarrow> int) \<Rightarrow> block_pool \<Rightarrow> SingleTypeKVCacheManager \<Rightarrow> bool" where
  "refs_split h s m \<longleftrightarrow> (\<forall>p \<in> real_blocks s. 0 \<le> h p \<and> ref_cnt (heap s p) = h p + held m p)"

definition mgr_rel :: "(ptr \<Rightarrow> int) \<Rightarrow> block_pool \<Rightarrow> SingleTypeKVCacheManager \<Rightarrow> bool" where
  "mgr_rel h s m \<longleftrightarrow> pool_inv s \<and> mgr_wf s m \<and> refs_split h s m"

lemma blocks_ok_Nil [simp]: "blocks_ok s []"
  by (simp add: blocks_ok_def)

lemma blocks_ok_config: "same_config s s' \<Longrightarrow> blocks_ok s' bs = blocks_ok s bs"
  by (simp add: blocks_ok_def same_config_ok)

lemma mgr_wf_config: "same_config s s' \<Longrightarrow> mgr_wf s' m = mgr_wf s m"
  by (simp add: mgr_wf_def blocks_ok_config)

lemma blocks_of_ok: "mgr_wf s m \<Longrightarrow> blocks_ok s (blocks_of m rid)"
  by (auto simp: mgr_wf_def blocks_of_def split: option.splits dest!: map_of_SomeD)

lemma held_nonneg: "0 \<le> held m p"
  unfolding held_def by (rule sum_list_nonneg) auto

lemma sum_update_entry:
  assumes "distinct_keys d"
  shows "sum_list (map (\<lambda>e. f (snd e)) (AList.update k v d)) =
    sum_list (map (\<lambda>e. f (snd e)) d) - (case map_of d k of None \<Rightarrow> 0 | Some w \<Rightarrow> f w) + (f v :: int)"
  using assms by (induction d) (auto split: option.splits)

lemma sum_delete_entry:
  assumes "distinct_keys d"
  shows "sum_list (map (\<lambda>e. f (snd e)) (AList.delete k d)) =
    sum_list (map (\<lambda>e. f (snd e)) d) - (case map_of d k of None \<Rightarrow> 0 | Some w \<Rightarrow> (f w :: int))"
  using assms
proof (induction d)
  case (Cons e d)
  show ?case
  proof (cases "fst e = k")
    case True
    with Cons.prems have "map_of d k = None" by (auto simp: map_of_eq_None_iff)
    then show ?thesis using True Cons.prems by (cases e) (auto simp: delete_fresh)
  next
    case False
    with Cons show ?thesis by (cases e) (auto split: option.splits)
  qed
qed simp

lemma held_set_blocks:
  assumes "mgr_wf s m"
  shows "held (set_blocks rid bs m) p = held m p - int (count_list (blocks_of m rid) p) + int (count_list bs p)"
  using sum_update_entry [of "req_to_blocks m" "\<lambda>bs. int (count_list bs p)" rid bs] assms
  by (simp add: held_def set_blocks_def mgr_wf_def blocks_of_def split: option.splits)

lemma held_delete:
  assumes "mgr_wf s m"
  shows "held (m\<lparr>req_to_blocks := AList.delete rid (req_to_blocks m)\<rparr>) p = held m p - int (count_list (blocks_of m rid) p)"
  using sum_delete_entry [of "req_to_blocks m" "\<lambda>bs. int (count_list bs p)" rid] assms
  by (simp add: held_def mgr_wf_def blocks_of_def split: option.splits)

lemma held_ge_count: "mgr_wf s m \<Longrightarrow> int (count_list (blocks_of m rid) p) \<le> held m p"
  using held_delete [of s m rid p] held_nonneg [of "m\<lparr>req_to_blocks := AList.delete rid (req_to_blocks m)\<rparr>" p]
  by linarith

lemma held_cong [simp]:
  "held (m\<lparr>num_cached_block := a\<rparr>) p = held m p"
  "held (m\<lparr>last_state_block_idx := b\<rparr>) p = held m p"
  "held (m\<lparr>allocated_block_reqs := c\<rparr>) p = held m p"
  by (simp_all add: held_def)

lemma mgr_wf_cong [simp]:
  "mgr_wf s (m\<lparr>num_cached_block := a\<rparr>) = mgr_wf s m"
  "mgr_wf s (m\<lparr>last_state_block_idx := b\<rparr>) = mgr_wf s m"
  "mgr_wf s (m\<lparr>allocated_block_reqs := c\<rparr>) = mgr_wf s m"
  by (simp_all add: mgr_wf_def)

lemma mgr_rel_cong [simp]:
  "mgr_rel h s (m\<lparr>num_cached_block := a\<rparr>) = mgr_rel h s m"
  "mgr_rel h s (m\<lparr>last_state_block_idx := b\<rparr>) = mgr_rel h s m"
  "mgr_rel h s (m\<lparr>allocated_block_reqs := c\<rparr>) = mgr_rel h s m"
  by (simp_all add: mgr_rel_def refs_split_def)

lemma blocks_of_cong [simp]:
  "blocks_of (m\<lparr>num_cached_block := a\<rparr>) r = blocks_of m r"
  "blocks_of (m\<lparr>last_state_block_idx := b\<rparr>) r = blocks_of m r"
  "blocks_of (m\<lparr>allocated_block_reqs := c\<rparr>) r = blocks_of m r"
  by (simp_all add: blocks_of_def)

lemma blocks_of_set_blocks [simp]: "blocks_of (set_blocks rid bs m) r = (if r = rid then bs else blocks_of m r)"
  by (simp add: blocks_of_def set_blocks_def update_conv')

lemma blocks_of_touch_entry [simp]: "blocks_of (touch_entry rid m) r = blocks_of m r"
  by (simp add: touch_entry_def)

lemma set_blocks_fields [simp]:
  "mgr_class (set_blocks rid bs m) = mgr_class m" "mgr_block_size (set_blocks rid bs m) = mgr_block_size m"
  "mgr_spec (set_blocks rid bs m) = mgr_spec m" "mgr_enable_caching (set_blocks rid bs m) = mgr_enable_caching m"
  "num_cached_block (set_blocks rid bs m) = num_cached_block m" "kv_cache_group_id (set_blocks rid bs m) = kv_cache_group_id m"
  "allocated_block_reqs (set_blocks rid bs m) = allocated_block_reqs m"
  "last_state_block_idx (set_blocks rid bs m) = last_state_block_idx m"
  by (simp_all add: set_blocks_def)

lemma touch_entry_fields [simp]:
  "mgr_class (touch_entry rid m) = mgr_class m" "mgr_block_size (touch_entry rid m) = mgr_block_size m"
  "mgr_spec (touch_entry rid m) = mgr_spec m" "mgr_enable_caching (touch_entry rid m) = mgr_enable_caching m"
  "num_cached_block (touch_entry rid m) = num_cached_block m" "kv_cache_group_id (touch_entry rid m) = kv_cache_group_id m"
  "allocated_block_reqs (touch_entry rid m) = allocated_block_reqs m"
  "last_state_block_idx (touch_entry rid m) = last_state_block_idx m"
  by (simp_all add: touch_entry_def)

lemma in_update: "e \<in> set (AList.update k v d) \<Longrightarrow> e = (k, v) \<or> e \<in> set d"
  by (induction d) (auto split: if_splits)

lemma set_blocks_wf: "mgr_wf s m \<Longrightarrow> blocks_ok s bs \<Longrightarrow> mgr_wf s (set_blocks rid bs m)"
  by (auto simp: mgr_wf_def set_blocks_def distinct_update dest!: in_update)

lemma touch_entry_rel [simp]: "mgr_rel h s m \<Longrightarrow> mgr_rel h s (touch_entry rid m)"
  by (auto simp: mgr_rel_def touch_entry_def refs_split_def held_set_blocks intro!: set_blocks_wf blocks_of_ok)

text \<open>Changing the blocks of one request together with the reference counts.\<close>

lemma mgr_rel_step:
  assumes "mgr_rel h s m" and "pool_inv s'" and "same_config s s'" and "blocks_ok s bs"
    and "\<And>p. p \<in> real_blocks s \<Longrightarrow> ref_cnt (heap s' p) =
       ref_cnt (heap s p) - int (count_list (blocks_of m rid) p) + int (count_list bs p)"
  shows "mgr_rel h s' (set_blocks rid bs m)"
  using assms set_blocks_wf [of s m bs rid] held_set_blocks [of s m rid bs]
  by (auto simp: mgr_rel_def refs_split_def mgr_wf_config same_config_ok)

lemma count_real: "blocks_ok s bs \<Longrightarrow> p \<in> real_blocks s \<Longrightarrow> int (count_list bs p) = (if p \<in> set bs then 1 else 0)"
proof -
  assume bs: "blocks_ok s bs" and p: "p \<in> real_blocks s"
  have "count_list bs p = count_list (filter (\<lambda>p. p \<in> real_blocks s) bs) p" using p by (induction bs) auto
  also have "int \<dots> = (if p \<in> set bs then 1 else 0)"
    using bs p count_list_distinct [of "filter (\<lambda>p. p \<in> real_blocks s) bs" p] by (simp add: blocks_ok_def)
  finally show ?thesis .
qed

lemma held_pos:
  assumes "mgr_rel h s m" and "p \<in> set (blocks_of m rid)" and "p \<in> real_blocks s"
  shows "0 < ref_cnt (heap s p)"
proof -
  have "0 < count_list (blocks_of m rid) p" using assms(2) by (metis count_list_0_iff gr0I)
  moreover have "0 \<le> h p" "ref_cnt (heap s p) = h p + held m p" "mgr_wf s m"
    using assms by (auto simp: mgr_rel_def refs_split_def)
  ultimately show ?thesis using held_ge_count [of s m rid p] by linarith
qed

definition same_mgr :: "SingleTypeKVCacheManager \<Rightarrow> SingleTypeKVCacheManager \<Rightarrow> bool" where
  "same_mgr m m' \<longleftrightarrow> mgr_class m' = mgr_class m \<and> mgr_block_size m' = mgr_block_size m
     \<and> mgr_spec m' = mgr_spec m \<and> mgr_enable_caching m' = mgr_enable_caching m
     \<and> kv_cache_group_id m' = kv_cache_group_id m"

lemma same_mgr_refl [simp]: "same_mgr m m"
  by (simp add: same_mgr_def)

lemma same_mgr_trans: "same_mgr a b \<Longrightarrow> same_mgr b c \<Longrightarrow> same_mgr a c"
  by (simp add: same_mgr_def)

lemma same_mgr_simps [simp]:
  "same_mgr m (set_blocks rid bs m') = same_mgr m m'" "same_mgr m (touch_entry rid m') = same_mgr m m'"
  "same_mgr m (m'\<lparr>num_cached_block := a\<rparr>) = same_mgr m m'" "same_mgr m (m'\<lparr>req_to_blocks := d\<rparr>) = same_mgr m m'"
  "same_mgr m (m'\<lparr>last_state_block_idx := b\<rparr>) = same_mgr m m'"
  "same_mgr m (m'\<lparr>allocated_block_reqs := c\<rparr>) = same_mgr m m'"
  by (simp_all add: same_mgr_def)

subsection \<open>Freeing\<close>

text \<open>The pool's contract for a list of blocks that a request holds.\<close>

lemma free_held:
  assumes "pool_inv s" and "blocks_ok s bs" and "\<And>p. p \<in> set bs \<Longrightarrow> p \<in> real_blocks s \<Longrightarrow> 0 < ref_cnt (heap s p)"
  shows "\<exists>s'. free_blocks bs s = Inr s' \<and> pool_inv s' \<and> same_config s s'
    \<and> (\<forall>p. ref_cnt (heap s' p) = ref_cnt (heap s p) - int (count_list bs p))
    \<and> (\<forall>p. block_hash (heap s' p) = block_hash (heap s p))"
proof -
  obtain xs where xs: "pool_rel s xs" using assms(1) by (auto simp: pool_inv_def)
  have bs: "set bs \<subseteq> set (blocks s)" "distinct (filter (\<lambda>p. p \<in> real_blocks s) bs)"
    using assms(2) by (simp_all add: blocks_ok_def)
  have "\<forall>p \<in> set bs \<inter> real_blocks s. 0 < ref_cnt (heap s p)" using assms(3) by blast
  from free_blocks_ok [OF xs bs this] show ?thesis by (auto simp: pool_inv_def shifted_def)
qed

text \<open>The only hashes that change are those of freshly allocated blocks, which are dropped when caching is on.\<close>

definition drops_hashes :: "ptr list \<Rightarrow> block_pool \<Rightarrow> block_pool \<Rightarrow> bool" where
  "drops_hashes ps s s' \<longleftrightarrow> (\<forall>p. block_hash (heap s' p) =
     (if p \<in> set ps \<and> enable_caching s then None else block_hash (heap s p)))"

lemma drops_hashes_same [simp]: "drops_hashes [] s s"
  by (simp add: drops_hashes_def)

lemma blocks_ok_rev [simp]: "blocks_ok s (rev bs) = blocks_ok s bs"
  by (simp add: blocks_ok_def rev_filter [symmetric])

lemma count_list_rev [simp]: "count_list (rev xs) x = count_list xs x"
  by (induction xs) (simp_all add: count_list_append)

lemma mgr_rel_delete:
  assumes "mgr_rel h s m" and "pool_inv s'" and "same_config s s'"
    and "\<And>p. p \<in> real_blocks s \<Longrightarrow> ref_cnt (heap s' p) = ref_cnt (heap s p) - int (count_list (blocks_of m rid) p)"
  shows "mgr_rel h s' (m\<lparr>req_to_blocks := AList.delete rid (req_to_blocks m)\<rparr>)"
proof -
  have wf: "mgr_wf s m" using assms(1) by (simp add: mgr_rel_def)
  then have "mgr_wf s (m\<lparr>req_to_blocks := AList.delete rid (req_to_blocks m)\<rparr>)"
    using distinct_delete [of "req_to_blocks m" rid] by (auto simp: mgr_wf_def AList.delete_eq)
  then show ?thesis
    using assms held_delete [OF wf, of rid]
    by (auto simp: mgr_rel_def refs_split_def mgr_wf_config same_config_ok)
qed

lemma free_request_blocks_ok:
  assumes "mgr_rel h s m"
  shows "\<exists>s' m'. free_request_blocks rid s m = Inr (s', m') \<and> mgr_rel h s' m' \<and> same_config s s' \<and> same_mgr m m'
    \<and> (\<forall>r. blocks_of m' r = (if r = rid then [] else blocks_of m r))
    \<and> map_of (num_cached_block m') = (map_of (num_cached_block m))(rid := None) \<and> drops_hashes [] s s'"
proof -
  have ok: "pool_inv s" "blocks_ok s (blocks_of m rid)"
    using assms blocks_of_ok by (auto simp: mgr_rel_def)
  obtain s' where s': "free_blocks (rev (blocks_of m rid)) s = Inr s'" "pool_inv s'" "same_config s s'"
    "\<And>p. ref_cnt (heap s' p) = ref_cnt (heap s p) - int (count_list (blocks_of m rid) p)" "drops_hashes [] s s'"
    using free_held [OF ok(1), of "rev (blocks_of m rid)"] ok(2) held_pos [OF assms] by (auto simp: drops_hashes_def)
  have rel: "mgr_rel h s' (m\<lparr>req_to_blocks := AList.delete rid (req_to_blocks m)\<rparr>)"
    by (rule mgr_rel_delete [OF assms s'(2,3)]) (simp add: s'(4))
  have upd: "m\<lparr>allocated_block_reqs := a, last_state_block_idx := b, req_to_blocks := c, num_cached_block := d\<rparr>
      = m\<lparr>req_to_blocks := c, num_cached_block := d, last_state_block_idx := b, allocated_block_reqs := a\<rparr>" for a b c d
    by simp
  show ?thesis
    using s'(1,3,5) rel
    by (auto simp: free_request_blocks_def Let_def upd blocks_of_def delete_conv' split: manager_class.splits)
qed

subsection \<open>Taking and sharing blocks\<close>

lemma free_number: "pool_inv s \<Longrightarrow> num_free_blocks s = int (card {p \<in> real_blocks s. ref_cnt (heap s p) = 0})"
  using free_count by (auto simp: pool_inv_def)

lemma alloc_held:
  assumes "pool_inv s" and "0 \<le> n" and "n \<le> num_free_blocks s"
  shows "\<exists>s' ps. get_new_blocks use_int n s = Inr (s', ps) \<and> pool_inv s' \<and> same_config s s'
    \<and> length ps = nat n \<and> blocks_ok s ps \<and> set ps \<subseteq> {p \<in> real_blocks s. ref_cnt (heap s p) = 0}
    \<and> (\<forall>p. ref_cnt (heap s' p) = ref_cnt (heap s p) + int (count_list ps p))
    \<and> num_free_blocks s' = num_free_blocks s - n
    \<and> drops_hashes ps s s'"
proof -
  obtain xs where xs: "pool_rel s xs" using assms(1) by (auto simp: pool_inv_def)
  let ?ps = "take (nat n) xs"
  from get_new_blocks_ok [OF xs assms(2,3), of use_int] obtain s' where
    s': "get_new_blocks use_int n s = Inr (s', ?ps)" "pool_rel s' (drop (nat n) xs)" "alloc_effect use_int ?ps s s'"
    by blast
  have d: "distinct ?ps" using fq_rel_distinct [OF pool_relD(1) [OF xs]] by simp
  have sub: "set ?ps \<subseteq> {p \<in> real_blocks s. ref_cnt (heap s p) = 0}"
    using pool_relD(4) [OF xs] set_take_subset [of "nat n" xs] by (auto simp: refs_ok_def)
  then have "blocks_ok s ?ps" using d real_in_blocks [of s] by (auto simp: blocks_ok_def)
  moreover have "num_free_blocks s' = num_free_blocks s - n" "length ?ps = nat n"
    using fq_rel_num [OF pool_relD(1) [OF xs]] fq_rel_num [OF pool_relD(1) [OF s'(2)]] assms(2,3)
    by auto
  ultimately show ?thesis
    using s' sub count_list_distinct [OF d] by (auto simp: alloc_effect_def pool_inv_def drops_hashes_def)
qed

lemma evictable_card:
  assumes "pool_inv s" and "blocks_ok s bs"
  shows "get_num_evictable_blocks bs s = int (card {p \<in> real_blocks s. ref_cnt (heap s p) = 0 \<and> p \<in> set bs})"
proof -
  obtain xs where xs: "pool_rel s xs" using assms(1) by (auto simp: pool_inv_def)
  have sub: "set bs \<subseteq> set (blocks s)" using assms(2) by (simp add: blocks_ok_def)
  have "filter (\<lambda>p. ref_cnt (heap s p) = 0 \<and> \<not> is_null (heap s p)) bs
      = filter (\<lambda>p. ref_cnt (heap s p) = 0) (filter (\<lambda>p. p \<in> real_blocks s) bs)"
    unfolding filter_filter by (rule filter_cong) (use sub in_blocks_null(2) [OF pool_relD(2) [OF xs]] in auto)
  moreover have "distinct (filter (\<lambda>p. ref_cnt (heap s p) = 0) (filter (\<lambda>p. p \<in> real_blocks s) bs))"
    by (rule distinct_filter) (use assms(2) in \<open>simp add: blocks_ok_def\<close>)
  ultimately show ?thesis
    unfolding get_num_evictable_blocks_def by (subst distinct_card [symmetric]) (auto intro!: arg_cong [of _ _ card])
qed

lemma touch_held:
  assumes "pool_inv s" and "blocks_ok s bs"
  shows "\<exists>s'. touch bs s = Inr s' \<and> pool_inv s' \<and> same_config s s'
    \<and> (\<forall>p. ref_cnt (heap s' p) = ref_cnt (heap s p) + int (count_list bs p))
    \<and> num_free_blocks s' = num_free_blocks s - get_num_evictable_blocks bs s
    \<and> (\<forall>p. block_hash (heap s' p) = block_hash (heap s p))"
proof -
  obtain xs where xs: "pool_rel s xs" using assms(1) by (auto simp: pool_inv_def)
  have sub: "set bs \<subseteq> set (blocks s)" using assms(2) by (simp add: blocks_ok_def)
  obtain s' where s': "touch bs s = Inr s'" "pool_inv s'" "same_config s s'"
      "\<And>p. ref_cnt (heap s' p) = ref_cnt (heap s p) + int (count_list bs p)"
      "\<And>p. block_hash (heap s' p) = block_hash (heap s p)"
    using touch_ok [OF xs sub] by (auto simp: pool_inv_def shifted_def)
  let ?F = "{p \<in> real_blocks s. ref_cnt (heap s p) = 0}"
  let ?E = "{p \<in> real_blocks s. ref_cnt (heap s p) = 0 \<and> p \<in> set bs}"
  have nonneg: "0 \<le> ref_cnt (heap s p)" if "p \<in> real_blocks s" for p
    using pool_relD(4) [OF xs] that by (simp add: refs_ok_def)
  have "ref_cnt (heap s' p) = 0 \<longleftrightarrow> ref_cnt (heap s p) = 0 \<and> p \<notin> set bs" if "p \<in> real_blocks s" for p
    using s'(4) [of p] count_real [OF assms(2) that] nonneg [OF that] by (simp split: if_splits)
  then have "{p \<in> real_blocks s'. ref_cnt (heap s' p) = 0} = ?F - ?E"
    unfolding same_config_ok(2) [OF s'(3)] by blast
  then have "num_free_blocks s' = int (card ?F) - int (card ?E)"
    using free_number [OF s'(2)] card_mono [of ?F ?E] by (simp add: card_Diff_subset of_nat_diff Collect_mono_iff)
  then show ?thesis
    using s' free_number [OF assms(1)] evictable_card [OF assms] by auto
qed

lemma blocks_ok_append:
  "blocks_ok s (as @ bs) \<longleftrightarrow> blocks_ok s as \<and> blocks_ok s bs \<and> set as \<inter> set bs \<inter> real_blocks s = {}"
  by (auto simp: blocks_ok_def)

lemma null_not_real: "pool_inv s \<Longrightarrow> null_block s \<notin> real_blocks s \<and> null_block s \<in> set (blocks s)"
proof -
  assume "pool_inv s"
  then obtain xs where "pool_rel s xs" by (auto simp: pool_inv_def)
  then have "static_ok s" by (rule pool_relD(2))
  then show ?thesis using in_blocks [of s "Blk 0"] by (auto simp: static_ok_def real_blocks_def)
qed

lemma blocks_ok_nulls: "pool_inv s \<Longrightarrow> blocks_ok s (replicate k (null_block s))"
  using null_not_real [of s] by (auto simp: blocks_ok_def)

lemma count_nulls: "pool_inv s \<Longrightarrow> p \<in> real_blocks s \<Longrightarrow> count_list (replicate k (null_block s)) p = 0"
  using null_not_real [of s] by (auto simp: count_list_0_iff)

text \<open>Growing the list of a request by fresh blocks.\<close>

lemma extend_request:
  assumes rel: "mgr_rel h s m" and n: "0 \<le> n" "n \<le> num_free_blocks s"
  shows "\<exists>s' new. get_new_blocks use_int n s = Inr (s', new) \<and> length new = nat n
    \<and> mgr_rel h s' (set_blocks rid (blocks_of m rid @ new) m) \<and> same_config s s'
    \<and> set new \<subseteq> {p \<in> real_blocks s. ref_cnt (heap s p) = 0}
    \<and> num_free_blocks s' = num_free_blocks s - n \<and> (\<forall>p. ref_cnt (heap s p) \<le> ref_cnt (heap s' p))
    \<and> drops_hashes new s s'"
proof -
  have inv: "pool_inv s" "mgr_wf s m" using rel by (simp_all add: mgr_rel_def)
  obtain s' new where a: "get_new_blocks use_int n s = Inr (s', new)" "pool_inv s'" "same_config s s'"
      "length new = nat n" "blocks_ok s new" "set new \<subseteq> {p \<in> real_blocks s. ref_cnt (heap s p) = 0}"
      "\<And>p. ref_cnt (heap s' p) = ref_cnt (heap s p) + int (count_list new p)"
      "num_free_blocks s' = num_free_blocks s - n"
      "drops_hashes new s s'"
    using alloc_held [OF inv(1) n, of use_int] by blast
  have "set (blocks_of m rid) \<inter> set new \<inter> real_blocks s = {}"
    using a(6) held_pos [OF rel] by force
  then have "blocks_ok s (blocks_of m rid @ new)"
    using blocks_of_ok [OF inv(2)] a(5) by (simp add: blocks_ok_append)
  then have "mgr_rel h s' (set_blocks rid (blocks_of m rid @ new) m)"
    using a(7) by (intro mgr_rel_step [OF rel a(2,3)]) (simp_all add: count_list_append)
  moreover have "\<forall>p. ref_cnt (heap s p) \<le> ref_cnt (heap s' p)" by (simp add: a(7))
  ultimately show ?thesis using a by blast
qed

lemma base_allocate_new_blocks_ok:
  fixes rid and n_tokens :: int
  assumes rel: "mgr_rel h s m" and bs: "mgr_block_size m > 0"
  defines "need \<equiv> cdiv n_tokens (mgr_block_size m) - int (length (blocks_of m rid))"
  shows "if need \<le> num_free_blocks s \<or> need \<le> 0
    then \<exists>s' m' new. base_allocate_new_blocks use_int rid n_tokens s m = Inr (s', m', new) \<and> mgr_rel h s' m'
      \<and> same_config s s' \<and> same_mgr m m' \<and> num_cached_block m' = num_cached_block m
      \<and> allocated_block_reqs m' = allocated_block_reqs m
      \<and> (\<forall>r. blocks_of m' r = (if r = rid then blocks_of m r @ new else blocks_of m r))
      \<and> int (length new) = max need 0 \<and> num_free_blocks s' = num_free_blocks s - max need 0
      \<and> set new \<subseteq> {p \<in> real_blocks s. ref_cnt (heap s p) = 0} \<and> drops_hashes new s s'
    else base_allocate_new_blocks use_int rid n_tokens s m = Inl ValueError"
proof (cases "need \<le> 0")
  case True
  then show ?thesis
    using rel bs by (auto simp: base_allocate_new_blocks_def Let_def need_def)
next
  case False
  have te: "mgr_rel h s (touch_entry rid m)" using rel by simp
  show ?thesis
  proof (cases "need \<le> num_free_blocks s")
    case True
    from extend_request [OF te _ True, of use_int rid] False obtain s' new where
      "get_new_blocks use_int need s = Inr (s', new)" "length new = nat need"
      "mgr_rel h s' (set_blocks rid (blocks_of m rid @ new) (touch_entry rid m))" "same_config s s'"
      "set new \<subseteq> {p \<in> real_blocks s. ref_cnt (heap s p) = 0}" "num_free_blocks s' = num_free_blocks s - need"
      "drops_hashes new s s'"
      by auto
    with True False bs show ?thesis
      by (auto simp: base_allocate_new_blocks_def Let_def need_def)
  next
    case no: False
    with False bs show ?thesis
      by (simp add: base_allocate_new_blocks_def Let_def need_def get_new_blocks_error)
  qed
qed

subsection \<open>Skipped blocks\<close>

lemma distinct_filter_count: "distinct (filter P xs) \<longleftrightarrow> (\<forall>x. P x \<longrightarrow> count_list xs x \<le> 1)"
proof (induction xs)
  case (Cons a xs)
  have "count_list xs a = 0 \<longleftrightarrow> a \<notin> set xs" by (simp add: count_list_0_iff)
  with Cons show ?case by (auto simp: le_Suc_eq)
qed simp

lemma blocks_ok_count:
  "blocks_ok s bs \<longleftrightarrow> set bs \<subseteq> set (blocks s) \<and> (\<forall>p \<in> real_blocks s. count_list bs p \<le> 1)"
  by (auto simp: blocks_ok_def distinct_filter_count)

lemma count_list_update:
  "i < length xs \<Longrightarrow> count_list (xs[i := v]) p + (if xs ! i = p then 1 else 0) = count_list xs p + (if v = p then 1 else 0)"
proof (induction xs arbitrary: i)
  case (Cons x xs)
  show ?case
  proof (cases i)
    case (Suc j)
    with Cons.IH [of j] Cons.prems show ?thesis by auto
  qed auto
qed simp

lemma remove_loop_ok:
  assumes "i \<le> length bs" and "remove_loop nb i bs = (bs', removed)"
  shows "length bs' = length bs \<and> set bs' \<subseteq> insert nb (set bs) \<and> set removed \<subseteq> set bs
    \<and> (\<forall>p. p \<noteq> nb \<longrightarrow> count_list bs p = count_list bs' p + count_list removed p) \<and> nb \<notin> set removed
    \<and> (\<forall>j < length bs. bs' ! j = bs ! j \<or> j < i \<and> bs' ! j = nb)"
  using assms
proof (induction i arbitrary: bs bs' removed)
  case (Suc i)
  show ?case
  proof (cases "bs ! i = nb")
    case True
    with Suc.prems show ?thesis by auto
  next
    case False
    from Suc.prems(2) False obtain removed' where
      r: "remove_loop nb i (bs[i := nb]) = (bs', removed')" "removed = bs ! i # removed'"
      by (auto split: prod.splits)
    have IH: "length bs' = length bs \<and> set bs' \<subseteq> insert nb (set (bs[i := nb])) \<and> set removed' \<subseteq> set (bs[i := nb])
      \<and> (\<forall>p. p \<noteq> nb \<longrightarrow> count_list (bs[i := nb]) p = count_list bs' p + count_list removed' p) \<and> nb \<notin> set removed'
      \<and> (\<forall>j < length bs. bs' ! j = bs[i := nb] ! j \<or> j < i \<and> bs' ! j = nb)"
      using Suc.IH [OF _ r(1)] Suc.prems(1) by simp
    have sub: "set (bs[i := nb]) \<subseteq> insert nb (set bs)" by (rule set_update_subset_insert)
    have "count_list bs p = count_list bs' p + count_list removed p" if "p \<noteq> nb" for p
      using IH count_list_update [of i bs nb p] Suc.prems(1) that r(2) by (auto split: if_splits)
    moreover have "set removed \<subseteq> set bs" using IH sub r(2) Suc.prems(1) by auto
    moreover have "bs' ! j = bs ! j \<or> j < Suc i \<and> bs' ! j = nb" if "j < length bs" for j
      using IH that by (cases "j = i") (auto simp: nth_list_update)
    ultimately show ?thesis using IH sub r(2) False by auto
  qed
qed auto

lemma free_number_mono:
  assumes "pool_inv s" and "pool_inv s'" and "same_config s s'"
    and "\<And>p. p \<in> real_blocks s \<Longrightarrow> ref_cnt (heap s' p) \<le> ref_cnt (heap s p)"
  shows "num_free_blocks s \<le> num_free_blocks s'"
proof -
  have nonneg: "0 \<le> ref_cnt (heap s' p)" if "p \<in> real_blocks s" for p
    using assms(2,3) that by (auto simp: pool_inv_def pool_rel_def refs_ok_def same_config_ok)
  have "{p \<in> real_blocks s. ref_cnt (heap s p) = 0} \<subseteq> {p \<in> real_blocks s'. ref_cnt (heap s' p) = 0}"
  proof
    fix p
    assume p: "p \<in> {p \<in> real_blocks s. ref_cnt (heap s p) = 0}"
    then have "ref_cnt (heap s' p) = 0" using assms(4) [of p] nonneg [of p] by auto
    with p show "p \<in> {p \<in> real_blocks s'. ref_cnt (heap s' p) = 0}" by (simp add: same_config_ok [OF assms(3)])
  qed
  then show ?thesis
    unfolding free_number [OF assms(1)] free_number [OF assms(2)] by (simp add: card_mono)
qed

text \<open>Replacing held blocks by the null block and freeing them.\<close>

lemma drop_blocks:
  assumes rel: "mgr_rel h s m" and len: "set bs' \<subseteq> insert (null_block s) (set (blocks_of m rid))"
    and rem: "set removed \<subseteq> set (blocks_of m rid)"
    and cnt: "\<And>p. p \<noteq> null_block s \<Longrightarrow> count_list (blocks_of m rid) p = count_list bs' p + count_list removed p"
  shows "\<exists>s'. free_blocks removed s = Inr s' \<and> mgr_rel h s' (set_blocks rid bs' m) \<and> same_config s s'
    \<and> num_free_blocks s \<le> num_free_blocks s' \<and> (\<forall>p. block_hash (heap s' p) = block_hash (heap s p))"
proof -
  have inv: "pool_inv s" "mgr_wf s m" using rel by (simp_all add: mgr_rel_def)
  note nb = null_not_real [OF inv(1)] and old = blocks_of_ok [OF inv(2), of rid]
  have le: "count_list bs' p \<le> 1" "count_list removed p \<le> 1" if "p \<in> real_blocks s" for p
    using cnt [of p] old that nb by (fastforce simp: blocks_ok_count)+
  have ok: "blocks_ok s bs'" "blocks_ok s removed"
    using old nb len rem le by (auto simp: blocks_ok_count)
  obtain s' where s': "free_blocks removed s = Inr s'" "pool_inv s'" "same_config s s'"
      "\<And>p. ref_cnt (heap s' p) = ref_cnt (heap s p) - int (count_list removed p)"
      "\<And>p. block_hash (heap s' p) = block_hash (heap s p)"
    using free_held [OF inv(1) ok(2)] held_pos [OF rel] rem by blast
  have "ref_cnt (heap s' p) = ref_cnt (heap s p) - int (count_list (blocks_of m rid) p) + int (count_list bs' p)"
    if "p \<in> real_blocks s" for p
    using s'(4) cnt [of p] that nb by fastforce
  then have "mgr_rel h s' (set_blocks rid bs' m)" by (rule mgr_rel_step [OF rel s'(2,3) ok(1)])
  moreover have "num_free_blocks s \<le> num_free_blocks s'"
    by (rule free_number_mono [OF inv(1) s'(2,3)]) (simp add: s'(4))
  ultimately show ?thesis using s' by blast
qed

lemma base_remove_skipped_blocks_ok:
  assumes rel: "mgr_rel h s m" and bs: "mgr_block_size m > 0" and k: "get_num_skipped_tokens m tot = Inr k"
  shows "\<exists>s' m'. base_remove_skipped_blocks rid tot s m = Inr (s', m') \<and> mgr_rel h s' m' \<and> same_config s s'
    \<and> same_mgr m m' \<and> num_cached_block m' = num_cached_block m \<and> allocated_block_reqs m' = allocated_block_reqs m
    \<and> last_state_block_idx m' = last_state_block_idx m \<and> num_free_blocks s \<le> num_free_blocks s'
    \<and> (\<forall>p. block_hash (heap s' p) = block_hash (heap s p))
    \<and> (\<forall>r. r \<noteq> rid \<longrightarrow> blocks_of m' r = blocks_of m r) \<and> length (blocks_of m' rid) = length (blocks_of m rid)
    \<and> (\<forall>j < length (blocks_of m rid). blocks_of m' rid ! j = blocks_of m rid ! j
          \<or> (int j + 1) * mgr_block_size m \<le> k \<and> blocks_of m' rid ! j = null_block s)"
proof (cases "k \<le> 0")
  case True
  then show ?thesis using rel k by (auto simp: base_remove_skipped_blocks_def)
next
  case False
  let ?q = "k div mgr_block_size m" and ?old = "blocks_of m rid"
  let ?i = "nat (min ?q (int (length ?old)))"
  obtain bs' removed where r: "remove_loop (null_block s) ?i ?old = (bs', removed)" by fastforce
  have i: "?i \<le> length ?old" by simp
  note R = remove_loop_ok [OF i r]
  obtain s' where s': "free_blocks removed s = Inr s'" "mgr_rel h s' (set_blocks rid bs' m)" "same_config s s'"
      "num_free_blocks s \<le> num_free_blocks s'" "\<forall>p. block_hash (heap s' p) = block_hash (heap s p)"
    using drop_blocks [OF rel, of bs' rid removed] R by blast
  have "(int j + 1) * mgr_block_size m \<le> k" if "j < ?i" for j
  proof -
    have "int j + 1 \<le> ?q" using that by linarith
    then show ?thesis using int_le_div_iff [OF bs] by blast
  qed
  then show ?thesis
    using k False bs r s' R by (auto simp: base_remove_skipped_blocks_def Let_def)
qed

subsection \<open>Hits of the prefix cache\<close>

text \<open>The number of whole blocks before the attention window, and the hits inside it.\<close>

definition skip_count :: "SingleTypeKVCacheManager \<Rightarrow> int \<Rightarrow> int" where
  "skip_count m n = (case get_num_skipped_tokens m n of Inr k \<Rightarrow> max 0 (k div mgr_block_size m) | Inl _ \<Rightarrow> 0)"

definition kept_hits :: "SingleTypeKVCacheManager \<Rightarrow> int \<Rightarrow> ptr list \<Rightarrow> ptr list" where
  "kept_hits m n hits = drop (nat (skip_count m n)) hits"

text \<open>Blocks for tokens that a connector loads, after the skipped blocks and the hits.\<close>

definition external_blocks :: "SingleTypeKVCacheManager \<Rightarrow> int \<Rightarrow> int \<Rightarrow> ptr list \<Rightarrow> int" where
  "external_blocks m num_local num_external hits =
     (let n = num_local + num_external; k = (case get_num_skipped_tokens m n of Inr k \<Rightarrow> k | Inl _ \<Rightarrow> 0);
          ext = (if skip_count m n > 0 then min (n - k) num_external else num_external) in
      if ext > 0 then cdiv n (mgr_block_size m) - skip_count m n - int (length (kept_hits m n hits)) else 0)"

lemma blocks_ok_drop: "blocks_ok s bs \<Longrightarrow> blocks_ok s (drop k bs)"
  using blocks_ok_append [of s "take k bs" "drop k bs"] by simp

lemma new_computed_ok:
  assumes rel: "mgr_rel h s m" and bs: "mgr_block_size m > 0"
    and k: "get_num_skipped_tokens m (num_local + num_external) = Inr k"
    and new: "map_of (num_cached_block m) rid = None" "blocks_of m rid = []"
    and hits: "blocks_ok s hits" "mgr_enable_caching m \<or> kept_hits m (num_local + num_external) hits = []"
    and room: "0 \<le> external_blocks m num_local num_external hits"
  shows "if external_blocks m num_local num_external hits
         \<le> num_free_blocks s - get_num_evictable_blocks (kept_hits m (num_local + num_external) hits) s
    then \<exists>s' m' ext. base_allocate_new_computed_blocks use_int rid hits num_local num_external s m = Inr (s', m')
    \<and> mgr_rel h s' m' \<and> same_config s s' \<and> same_mgr m m' \<and> allocated_block_reqs m' = allocated_block_reqs m
    \<and> blocks_of m' rid = replicate (nat (skip_count m (num_local + num_external))) (null_block s)
         @ kept_hits m (num_local + num_external) hits @ ext
    \<and> int (length ext) = external_blocks m num_local num_external hits
    \<and> (\<forall>r. r \<noteq> rid \<longrightarrow> blocks_of m' r = blocks_of m r)
    \<and> map_of (num_cached_block m') = (map_of (num_cached_block m))
         (rid \<mapsto> skip_count m (num_local + num_external) + int (length (kept_hits m (num_local + num_external) hits)))
    \<and> (\<forall>p. ref_cnt (heap s p) \<le> ref_cnt (heap s' p))
    \<and> set ext \<subseteq> {p \<in> real_blocks s. ref_cnt (heap s p) = 0} \<and> drops_hashes ext s s'
    \<and> num_free_blocks s' = num_free_blocks s - get_num_evictable_blocks (kept_hits m (num_local + num_external) hits) s
         - external_blocks m num_local num_external hits
    else base_allocate_new_computed_blocks use_int rid hits num_local num_external s m = Inl ValueError"
proof -
  let ?n = "num_local + num_external"
  have bs': "mgr_block_size m \<noteq> 0" using bs by simp
  define q where "q = k div mgr_block_size m"
  have q: "skip_count m ?n = max 0 q" by (simp add: skip_count_def k q_def)
  define kept where "kept = kept_hits m ?n hits"
  have kept: "(if q > 0 then slice_from hits q else hits) = kept"
    by (simp add: kept_def kept_hits_def q slice_from_nonneg)
  have kept_ok: "blocks_ok s kept" "mgr_enable_caching m \<or> kept = []"
    using hits by (auto simp: kept_def kept_hits_def blocks_ok_drop)
  have inv: "pool_inv s" "mgr_wf s m" using rel by (simp_all add: mgr_rel_def)
  obtain t where t: "(if mgr_enable_caching m then touch kept s else assertE (kept = []) (Inr s)) = Inr t"
      "pool_inv t" "same_config s t" "\<And>p. ref_cnt (heap t p) = ref_cnt (heap s p) + int (count_list kept p)"
      "num_free_blocks t = num_free_blocks s - get_num_evictable_blocks kept s" "drops_hashes [] s t"
  proof (cases "mgr_enable_caching m")
    case True
    with touch_held [OF inv(1) kept_ok(1)] that show ?thesis by (auto simp: drops_hashes_def)
  next
    case False
    with kept_ok(2) inv(1) that [of s] show ?thesis by (simp add: get_num_evictable_blocks_def)
  qed
  have null: "null_block t = null_block s" using t(3) by (simp add: same_config_def)
  define req where "req = replicate (nat q) (null_block s) @ kept"
  have len: "int (length req) = skip_count m ?n + int (length kept)" by (simp add: req_def q)
  have "blocks_ok s req"
    using kept_ok(1) blocks_ok_nulls [OF inv(1)] null_not_real [OF inv(1)]
    by (auto simp: req_def blocks_ok_append)
  moreover have "count_list req p = count_list kept p" if "p \<in> real_blocks s" for p
    using count_nulls [OF inv(1) that] by (simp add: req_def count_list_append)
  ultimately have rel_t: "mgr_rel h t (set_blocks rid req m)"
    using t(4) new(2) by (intro mgr_rel_step [OF rel t(2,3)]) simp_all
  define ext where "ext = (if q > 0 then min (?n - k) num_external else num_external)"
  have need: "external_blocks m num_local num_external hits =
      (if ext > 0 then cdiv ?n (mgr_block_size m) - int (length req) else 0)"
    by (auto simp: external_blocks_def Let_def k ext_def q len simp flip: kept_def)
  let ?m = "m\<lparr>num_cached_block := AList.update rid (int (length req)) (num_cached_block m)\<rparr>"
  have run: "base_allocate_new_computed_blocks use_int rid hits num_local num_external s m =
      (if ext > 0 then
         bindE (get_new_blocks use_int (cdiv ?n (mgr_block_size m) - int (length req)) t)
           (\<lambda>(s, allocated). Inr (s, set_blocks rid (req @ allocated) ?m))
       else Inr (t, set_blocks rid req ?m))"
    unfolding base_allocate_new_computed_blocks_def new Let_def k bindE.simps div_zero_cases(2) [OF bs']
      q_def [symmetric] kept ext_def [symmetric] t(1) null req_def [symmetric] by simp
  have frame: "map_of (AList.update rid (int (length req)) (num_cached_block m)) = (map_of (num_cached_block m))
      (rid \<mapsto> skip_count m ?n + int (length kept))" by (simp add: update_conv' len)
  show ?thesis
  proof (cases "ext > 0")
    case False
    have "mgr_rel h t (set_blocks rid req ?m)" using rel_t by (simp add: set_blocks_def mgr_rel_def mgr_wf_def refs_split_def held_def)
    moreover have "0 \<le> num_free_blocks t" using free_number [OF t(2)] by simp
    then have "external_blocks m num_local num_external hits \<le> num_free_blocks s - get_num_evictable_blocks kept s"
      using t(5) need False by simp
    ultimately show ?thesis
      using False run t(3-6) need frame q unfolding kept_def [symmetric]
      by (subst if_P) (assumption, intro exI [of _ t] exI [of _ "set_blocks rid req ?m"] exI [of _ "[]"], simp add: req_def)
  next
    case True
    let ?need = "cdiv ?n (mgr_block_size m) - int (length req)"
    have nonneg: "0 \<le> ?need" using room need True by (simp flip: kept_def)
    have iff: "external_blocks m num_local num_external hits
        \<le> num_free_blocks s - get_num_evictable_blocks (kept_hits m ?n hits) s \<longleftrightarrow> ?need \<le> num_free_blocks t"
      using need True t(5) by (simp flip: kept_def)
    show ?thesis
    proof (cases "?need \<le> num_free_blocks t")
      case False
      with True run show ?thesis unfolding iff by (simp add: get_new_blocks_error)
    next
      case fits: True
      from extend_request [OF rel_t nonneg fits, of use_int rid] obtain u new where
        u: "get_new_blocks use_int ?need t = Inr (u, new)" "int (length new) = ?need"
          "mgr_rel h u (set_blocks rid (req @ new) (set_blocks rid req m))" "same_config t u"
          "num_free_blocks u = num_free_blocks t - ?need" "\<forall>p. ref_cnt (heap t p) \<le> ref_cnt (heap u p)"
          "set new \<subseteq> {p \<in> real_blocks t. ref_cnt (heap t p) = 0}" "drops_hashes new t u"
        using nonneg by auto
      have fresh: "set new \<subseteq> {p \<in> real_blocks s. ref_cnt (heap s p) = 0}"
      proof
        fix p assume "p \<in> set new"
        then have p: "p \<in> real_blocks s" "ref_cnt (heap t p) = 0" using u(7) same_config_ok(2) [OF t(3)] by auto
        moreover have "0 \<le> ref_cnt (heap s p)" using inv(1) p(1) by (auto simp: pool_inv_def pool_rel_def refs_ok_def)
        ultimately show "p \<in> {p \<in> real_blocks s. ref_cnt (heap s p) = 0}" using t(4) [of p] by simp
      qed
      have drops: "drops_hashes new s u" using t(3,6) u(8) by (simp add: drops_hashes_def same_config_def)
      have twice: "set_blocks rid a (set_blocks rid b m') = set_blocks rid a m'" for a b m'
        by (simp add: set_blocks_def update_last)
      have "mgr_rel h u (set_blocks rid (req @ new) ?m)"
        using u(3) by (simp add: twice set_blocks_def mgr_rel_def mgr_wf_def refs_split_def held_def)
      moreover have "\<forall>p. ref_cnt (heap s p) \<le> ref_cnt (heap u p)"
        using u(6) t(4) by (metis add_increasing2 of_nat_0_le_iff order_refl order_trans)
      moreover have "num_free_blocks u = num_free_blocks s - get_num_evictable_blocks (kept_hits m ?n hits) s
          - external_blocks m num_local num_external hits"
        using u(5) t(5) need True by (simp flip: kept_def)
      ultimately show ?thesis
        using fits True run u(1,2) need frame fresh drops same_config_trans [OF t(3) u(4)] q unfolding iff
        by (subst if_P) (assumption, intro exI [of _ u] exI [of _ "set_blocks rid (req @ new) ?m"] exI [of _ new],
            simp add: req_def flip: kept_def)
    qed
  qed
qed

subsection \<open>Caching\<close>

lemma cache_blocks_ok:
  assumes rel: "mgr_rel h s m" and run: "cache_blocks use_int r n_tokens s m = Inr (s', m')"
  shows "mgr_rel h s' m' \<and> same_config s s' \<and> same_mgr m m' \<and> (\<forall>q. blocks_of m' q = blocks_of m q)
    \<and> num_free_blocks s' = num_free_blocks s \<and> allocated_block_reqs m' = allocated_block_reqs m"
proof (cases "(case map_of (num_cached_block m) (request_id r) of None \<Rightarrow> 0 | Some n \<Rightarrow> n) \<ge> n_tokens div mgr_block_size m")
  case True
  with rel run show ?thesis
    by (auto simp: cache_blocks_def Let_def bindE_Inr_iff floordivE_Inr_iff split: if_splits)
next
  case False
  let ?m = "(touch_entry (request_id r) m)\<lparr>num_cached_block :=
      AList.update (request_id r) (n_tokens div mgr_block_size m) (num_cached_block m)\<rparr>"
  from run False obtain nc where
    c: "cache_full_blocks use_int r (blocks_of m (request_id r)) nc (n_tokens div mgr_block_size m)
          (mgr_block_size m) (kv_cache_group_id m) s = Inr s'" and m': "m' = ?m"
    by (auto simp: cache_blocks_def Let_def bindE_Inr_iff floordivE_Inr_iff split: if_splits)
  obtain xs where xs: "pool_rel s xs" using rel by (auto simp: mgr_rel_def pool_inv_def)
  have sub: "set (blocks_of m (request_id r)) \<subseteq> set (blocks s)"
    using rel blocks_of_ok by (auto simp: mgr_rel_def blocks_ok_def)
  from cache_full_blocks_ok [OF c xs sub] have
    p: "pool_rel s' xs" "same_config s s'" "\<And>q. ref_cnt (heap s' q) = ref_cnt (heap s q)" by auto
  have inv: "pool_inv s" "pool_inv s'" using xs p(1) by (auto simp: pool_inv_def)
  have "mgr_rel h s' (set_blocks (request_id r) (blocks_of m (request_id r)) m)"
    using rel blocks_of_ok by (intro mgr_rel_step [OF rel inv(2) p(2)]) (auto simp: p(3) mgr_rel_def)
  then have "mgr_rel h s' m'" unfolding m' mgr_rel_cong touch_entry_def .
  moreover have "num_free_blocks s' = num_free_blocks s"
    using free_number [OF inv(1)] free_number [OF inv(2)] by (simp add: p(3) same_config_ok [OF p(2)])
  ultimately show ?thesis using p(2) m' by simp
qed

subsection \<open>What was counted is enough\<close>

text \<open>Window sizes and chunk sizes that make sense.\<close>

definition class_ok :: "SingleTypeKVCacheManager \<Rightarrow> bool" where
  "class_ok m \<longleftrightarrow> mgr_block_size m > 0 \<and> (case mgr_class m of
     SlidingWindowManager w \<Rightarrow> w > 0
   | ChunkedLocalAttentionManager c \<Rightarrow> c > 0
   | MambaManager mode spec \<Rightarrow> mode \<noteq> ''align'' \<and> mgr_block_size m = spec_block_size (mgr_spec m) \<and> spec \<ge> 0
   | SinkFullAttentionManager \<Rightarrow> False
   | _ \<Rightarrow> True)"

lemma skipped_tokens_ok:
  assumes "class_ok m" and "0 \<le> n"
  obtains k where "get_num_skipped_tokens m n = Inr k" and "k \<le> n"
proof (cases "mgr_class m")
  case (ChunkedLocalAttentionManager c)
  then have c: "0 < c" using assms(1) by (simp add: class_ok_def)
  then have "n div c * c \<le> n" using int_le_div_iff [of c "n div c" n] by simp
  with that ChunkedLocalAttentionManager c show ?thesis by (simp add: get_num_skipped_tokens_def)
qed (use that assms in \<open>auto simp: get_num_skipped_tokens_def class_ok_def\<close>)

lemma skip_count_le:
  assumes "class_ok m" and "0 \<le> n"
  shows "0 \<le> skip_count m n" and "skip_count m n \<le> cdiv n (mgr_block_size m)"
proof -
  have bs: "0 < mgr_block_size m" using assms(1) by (simp add: class_ok_def)
  obtain k where k: "get_num_skipped_tokens m n = Inr k" "k \<le> n" by (rule skipped_tokens_ok [OF assms])
  show "0 \<le> skip_count m n" by (simp add: skip_count_def k(1))
  have "k div mgr_block_size m * mgr_block_size m \<le> n"
    using int_le_div_iff [OF bs, of "k div mgr_block_size m" k] k(2) by simp
  also have "n \<le> cdiv n (mgr_block_size m) * mgr_block_size m" using cdiv_bounds(1) [OF bs] .
  finally have "k div mgr_block_size m \<le> cdiv n (mgr_block_size m)" using bs by (simp add: mult_le_cancel_right)
  with cdiv_nonneg [OF bs assms(2)] show "skip_count m n \<le> cdiv n (mgr_block_size m)"
    by (simp add: skip_count_def k(1))
qed

lemma length_kept: "int (length (kept_hits m n hits)) + skip_count m n = max (skip_count m n) (int (length hits))"
  if "0 \<le> skip_count m n"
  using that by (auto simp: kept_hits_def)

lemma base_count_new:
  assumes ok: "class_ok m" and "0 \<le> n" and "map_of (num_cached_block m) rid = None" and "blocks_of m rid = []"
  shows "base_num_blocks_to_allocate m rid n_tokens hits n s =
    Inr (max (cdiv n_tokens (mgr_block_size m) - max (skip_count m n) (int (length hits))) 0
         + get_num_evictable_blocks (kept_hits m n hits) s)"
proof -
  have bs: "mgr_block_size m \<noteq> 0" using ok by (simp add: class_ok_def)
  obtain k where k: "get_num_skipped_tokens m n = Inr k" by (rule skipped_tokens_ok [OF ok assms(2)])
  show ?thesis
    using bs assms(3,4)
    by (simp add: base_num_blocks_to_allocate_def k Let_def skip_count_def kept_hits_def slice_from_nonneg
        max.assoc [symmetric] max.commute [of 0])
qed

definition slot_tokens :: "SingleTypeKVCacheManager \<Rightarrow> int \<Rightarrow> int" where
  "slot_tokens m n = (case mgr_class m of MambaManager _ sp \<Rightarrow> n + mgr_block_size m * sp | _ \<Rightarrow> n)"

lemma class_ok_calls:
  assumes "class_ok m"
  shows "get_num_blocks_to_allocate rid n_tokens hits tot main s m =
      bindE (base_num_blocks_to_allocate m rid (slot_tokens m n_tokens) hits tot s) (\<lambda>n. Inr (m, n))"
    and "allocate_new_blocks use_int rid n_tokens main s m =
      base_allocate_new_blocks use_int rid (slot_tokens m n_tokens) s m"
  using assms
  by (auto simp: get_num_blocks_to_allocate_def allocate_new_blocks_def slot_tokens_def class_ok_def
      split: manager_class.splits)

lemma same_mgr_class:
  assumes "same_mgr m m'"
  shows "class_ok m' = class_ok m" "slot_tokens m' n = slot_tokens m n"
  using assms by (simp_all add: same_mgr_def class_ok_def slot_tokens_def cong: manager_class.case_cong)

lemma slot_tokens_ge: "class_ok m \<Longrightarrow> n \<le> slot_tokens m n"
  by (auto simp: slot_tokens_def class_ok_def split: manager_class.splits)

lemma external_blocks_bounds:
  assumes ok: "class_ok m" and n: "0 \<le> num_local" "0 \<le> num_external" "int (length hits) * mgr_block_size m \<le> num_local"
    and le: "num_local + num_external \<le> n_tokens"
  defines "ext \<equiv> external_blocks m num_local num_external hits"
    and "filled \<equiv> max (skip_count m (num_local + num_external)) (int (length hits))"
  shows "0 \<le> ext" and "ext + max (cdiv n_tokens (mgr_block_size m) - (filled + ext)) 0 = max (cdiv n_tokens (mgr_block_size m) - filled) 0"
proof -
  have bs: "0 < mgr_block_size m" using ok by (simp add: class_ok_def)
  let ?n = "num_local + num_external"
  have nn: "0 \<le> ?n" using n by simp
  have "int (length hits) * mgr_block_size m \<le> cdiv ?n (mgr_block_size m) * mgr_block_size m"
    using cdiv_bounds(1) [OF bs, of ?n] n by linarith
  then have "int (length hits) \<le> cdiv ?n (mgr_block_size m)" using bs by (simp add: mult_le_cancel_right)
  then have filled: "filled \<le> cdiv ?n (mgr_block_size m)"
    using skip_count_le(2) [OF ok nn] by (simp add: filled_def)
  have ext: "ext = 0 \<or> ext = cdiv ?n (mgr_block_size m) - filled"
    using length_kept [OF skip_count_le(1) [OF ok nn], of hits]
    by (auto simp: ext_def external_blocks_def Let_def filled_def)
  then show "0 \<le> ext" using filled by auto
  have "cdiv ?n (mgr_block_size m) \<le> cdiv n_tokens (mgr_block_size m)" using le by (rule cdiv_mono [OF bs])
  with ext filled show "ext + max (cdiv n_tokens (mgr_block_size m) - (filled + ext)) 0 = max (cdiv n_tokens (mgr_block_size m) - filled) 0"
    by auto
qed

lemma evictable_nonneg: "0 \<le> get_num_evictable_blocks bs s"
  by (simp add: get_num_evictable_blocks_def)

end
