(* ===== verification/Coordinator_Invariant.thy ===== *)
theory Coordinator_Invariant
  imports Coordinator Manager_Invariant
begin

section \<open>What every call to the managers keeps\<close>

text \<open>
  The managers of a coordinator share one pool. \<open>coord_rel\<close> says that the reference counts of the pool are
  exactly what all managers hold together. The locale \<open>manager_call\<close> is the contract of a call that
  the coordinator sends to each manager in turn; its lemma carries the contract over the
  loop, and each call of the coordinator is an interpretation.
\<close>

subsection \<open>The invariant of all managers\<close>

text \<open>
  The reference count of an ordinary block is what the managers hold together, plus \<open>h\<close> for the
  managers a loop has already passed.
\<close>

definition all_held :: "SingleTypeKVCacheManager list \<Rightarrow> ptr \<Rightarrow> int" where
  "all_held ms p = sum_list (map (\<lambda>m. held m p) ms)"

definition coord_rel :: "(ptr \<Rightarrow> int) \<Rightarrow> block_pool \<Rightarrow> SingleTypeKVCacheManager list \<Rightarrow> bool" where
  "coord_rel h s ms \<longleftrightarrow> pool_inv s \<and> (\<forall>m \<in> set ms. mgr_wf s m)
     \<and> (\<forall>p \<in> real_blocks s. 0 \<le> h p \<and> ref_cnt (heap s p) = h p + all_held ms p)"

lemma all_held_simps [simp]: "all_held [] p = 0" "all_held (m # ms) p = held m p + all_held ms p"
  by (simp_all add: all_held_def)

lemma all_held_nonneg: "0 \<le> all_held ms p"
  unfolding all_held_def by (rule sum_list_nonneg) (auto simp: held_nonneg)

lemma coord_rel_Cons:
  "coord_rel h s (m # ms) \<longleftrightarrow> mgr_rel (\<lambda>p. h p + all_held ms p) s m \<and> (\<forall>m \<in> set ms. mgr_wf s m)
     \<and> (\<forall>p \<in> real_blocks s. 0 \<le> h p)"
  using all_held_nonneg by (fastforce simp: coord_rel_def mgr_rel_def refs_split_def algebra_simps)

text \<open>Passing one manager: what it holds joins \<open>h\<close>, and back.\<close>

lemma coord_rel_pass:
  assumes "coord_rel h s (m # ms)" and "mgr_rel (\<lambda>p. h p + all_held ms p) s' m'" and "same_config s s'"
  shows "coord_rel (\<lambda>p. h p + held m' p) s' ms"
  using assms held_nonneg [of m']
  by (auto simp: coord_rel_def mgr_rel_def refs_split_def mgr_wf_config same_config_ok algebra_simps)

lemma coord_rel_join:
  assumes "coord_rel (\<lambda>p. h p + held m p) s ms" and "mgr_wf s m" and "\<forall>p \<in> real_blocks s. 0 \<le> h p"
  shows "coord_rel h s (m # ms)"
  using assms by (auto simp: coord_rel_def algebra_simps)

subsection \<open>Calls to every manager\<close>

text \<open>
  The contract of a call that the coordinator sends to each manager: under \<open>ready\<close>, which depends
  only on the fixed part of the pool, it keeps the reference counts exact and changes the
  manager as \<open>effect\<close> says.
\<close>

locale manager_call =
  fixes call :: "int \<Rightarrow> block_pool \<Rightarrow> SingleTypeKVCacheManager \<Rightarrow> (block_pool \<times> SingleTypeKVCacheManager \<times> 'a) result"
    and ready :: "int \<Rightarrow> block_pool \<Rightarrow> SingleTypeKVCacheManager \<Rightarrow> bool"
    and effect :: "block_pool \<Rightarrow> SingleTypeKVCacheManager \<Rightarrow> SingleTypeKVCacheManager \<Rightarrow> bool"
  assumes ready_config: "same_config s s' \<Longrightarrow> ready i s' m = ready i s m"
    and effect_config: "same_config s s' \<Longrightarrow> effect s' m m' = effect s m m'"
    and keeps: "mgr_rel h s m \<Longrightarrow> ready i s m \<Longrightarrow> call i s m = Inr (s', m', x) \<Longrightarrow>
      mgr_rel h s' m' \<and> same_config s s' \<and> same_mgr m m' \<and> effect s m m'"
begin

lemma each_keeps:
  assumes "coord_rel h s ms" and "\<And>k. k < length ms \<Longrightarrow> ready (i + int k) s (ms ! k)"
    and "each_manager call i s ms = Inr (s', ms', xs)"
  shows "coord_rel h s' ms' \<and> same_config s s' \<and> list_all2 same_mgr ms ms' \<and> list_all2 (effect s) ms ms'
    \<and> length xs = length ms"
  using assms
proof (induction ms arbitrary: h s i s' ms' xs)
  case (Cons m ms)
  from Cons.prems(3) obtain s1 m' x ms2 xs2 where c: "call i s m = Inr (s1, m', x)"
      "each_manager call (i + 1) s1 ms = Inr (s', ms2, xs2)" "ms' = m' # ms2" "xs = x # xs2"
    by (auto simp: bindE_Inr_iff split: prod.splits)
  have rel: "mgr_rel (\<lambda>p. h p + all_held ms p) s m" using Cons.prems(1) by (simp add: coord_rel_Cons)
  have k: "mgr_rel (\<lambda>p. h p + all_held ms p) s1 m'" "same_config s s1" "same_mgr m m'" "effect s m m'"
    using keeps [OF rel _ c(1)] Cons.prems(2) [of 0] by auto
  have rest: "coord_rel (\<lambda>p. h p + held m' p) s' ms2" "same_config s1 s'" "list_all2 same_mgr ms ms2"
      "list_all2 (effect s1) ms ms2" "length xs2 = length ms"
    using Cons.IH [OF coord_rel_pass [OF Cons.prems(1) k(1,2)] _ c(2)] Cons.prems(2) [of "Suc _"]
    by (auto simp: ready_config [OF k(2)] ac_simps)
  have "mgr_wf s' m'" using k(1) rest(2) by (simp add: mgr_rel_def mgr_wf_config)
  then have "coord_rel h s' (m' # ms2)"
    using coord_rel_join [OF rest(1)] Cons.prems(1) same_config_trans [OF k(2) rest(2)]
    by (auto simp: coord_rel_def same_config_ok)
  moreover have "list_all2 (effect s) ms ms2" using rest(4) effect_config [OF k(2)] by (auto elim!: list_all2_mono)
  ultimately show ?case
    using rest(3,5) k(3,4) c(3,4) same_config_trans [OF k(2) rest(2)] by simp
qed auto

end

locale total_manager_call = manager_call call ready effect
  for call :: "int \<Rightarrow> block_pool \<Rightarrow> SingleTypeKVCacheManager \<Rightarrow> (block_pool \<times> SingleTypeKVCacheManager \<times> 'a) result"
    and ready effect +
  assumes total_call: "mgr_rel h s m \<Longrightarrow> ready i s m \<Longrightarrow> \<exists>s' m' x. call i s m = Inr (s', m', x)"
begin

lemma each_total:
  assumes "coord_rel h s ms" and "\<And>k. k < length ms \<Longrightarrow> ready (i + int k) s (ms ! k)"
  shows "\<exists>s' ms' xs. each_manager call i s ms = Inr (s', ms', xs)"
  using assms
proof (induction ms arbitrary: h s i)
  case (Cons m ms)
  have rel: "mgr_rel (\<lambda>p. h p + all_held ms p) s m" using Cons.prems(1) by (simp add: coord_rel_Cons)
  obtain s1 m' x where c: "call i s m = Inr (s1, m', x)" using total_call [OF rel, of i] Cons.prems(2) [of 0] by auto
  have k: "mgr_rel (\<lambda>p. h p + all_held ms p) s1 m'" "same_config s s1"
    using keeps [OF rel _ c] Cons.prems(2) [of 0] by auto
  have "\<exists>s' ms' xs. each_manager call (i + 1) s1 ms = Inr (s', ms', xs)"
    using Cons.IH [OF coord_rel_pass [OF Cons.prems(1) k]] Cons.prems(2) [of "Suc _"]
    by (auto simp: ready_config [OF k(2)] ac_simps)
  with c show ?case by auto
qed simp

end

subsection \<open>The calls of the coordinator\<close>

lemma count_call_keeps:
  assumes "class_ok m" and "count_call rid n hits enc tot main i s m = Inr (s', m', x)"
  shows "s' = s \<and> m' = m"
  using assms by (auto simp: count_call_def class_ok_calls(1) bindE_Inr_iff split: if_splits)

interpretation counting: manager_call "count_call rid n hits enc tot main" "\<lambda>i s m. class_ok m" "\<lambda>s m m'. m' = m"
  for rid n hits enc tot main
proof
  fix h s m i s' m' x
  assume "mgr_rel h s m" "class_ok m" "count_call rid n hits enc tot main i s m = Inr (s', m', x)"
  with count_call_keeps [of m rid n hits enc tot main i s s' m' x]
  show "mgr_rel h s' m' \<and> same_config s s' \<and> same_mgr m m' \<and> m' = m" by simp
qed simp_all

definition same_others :: "string \<Rightarrow> SingleTypeKVCacheManager \<Rightarrow> SingleTypeKVCacheManager \<Rightarrow> bool" where
  "same_others rid m m' \<longleftrightarrow> (\<forall>r. r \<noteq> rid \<longrightarrow> blocks_of m' r = blocks_of m r)"

lemma same_others_refl [simp]: "same_others rid m m"
  by (simp add: same_others_def)

definition hits_ready :: "ptr list list \<Rightarrow> int \<Rightarrow> int \<Rightarrow> int \<Rightarrow> block_pool \<Rightarrow> SingleTypeKVCacheManager \<Rightarrow> bool" where
  "hits_ready hits num_local num_external i s m \<longleftrightarrow> class_ok m \<and> 0 \<le> i \<and> i < int (length hits)
     \<and> blocks_ok s (hits ! nat i) \<and> int (length (hits ! nat i)) * mgr_block_size m \<le> num_local
     \<and> 0 \<le> num_local \<and> 0 \<le> num_external"

text \<open>A call leaves the request alone, or gives it hits and then fresh blocks.\<close>

definition new_entry :: "string \<Rightarrow> block_pool \<Rightarrow> block_pool \<Rightarrow> SingleTypeKVCacheManager \<Rightarrow> SingleTypeKVCacheManager \<Rightarrow> bool" where
  "new_entry rid s s' m m' \<longleftrightarrow> same_others rid m m' \<and> (\<exists>pre ext. blocks_of m' rid = pre @ ext
     \<and> map_of (num_cached_block m') = (map_of (num_cached_block m))(rid \<mapsto> int (length pre))
     \<and> set ext \<subseteq> {p \<in> real_blocks s. ref_cnt (heap s p) = 0} \<and> drops_hashes ext s s')"

lemma computed_call_shape:
  assumes rel: "mgr_rel h s m" and ready: "hits_ready hits num_local num_external i s m"
    and run: "computed_call use_int rid hits num_local num_external i s m = Inr (s', m', x)"
  shows "s' = s \<and> m' = m \<or> mgr_rel h s' m' \<and> same_config s s' \<and> same_mgr m m' \<and> new_entry rid s s' m m'"
proof -
  let ?h = "hits ! nat i" and ?n = "num_local + num_external"
  have o: "class_ok m" "blocks_ok s ?h" "int (length ?h) * mgr_block_size m \<le> num_local" "0 \<le> num_local" "0 \<le> num_external"
    and i: "0 \<le> i" "i < int (length hits)" using ready by (simp_all add: hits_ready_def)
  have bs: "0 < mgr_block_size m" using o(1) by (simp add: class_ok_def)
  have run': "allocate_new_computed_blocks use_int rid ?h num_local num_external s m = Inr (s', m')"
    using run i by (auto simp: computed_call_def index_py_nonneg bindE_Inr_iff split: if_splits)
  show ?thesis
  proof (cases "mgr_class m = CrossAttentionManager \<or> map_of (num_cached_block m) rid \<noteq> None")
    case True
    then show ?thesis
      using run' by (auto simp: allocate_new_computed_blocks_def base_allocate_new_computed_blocks_def split: if_splits)
  next
    case False
    then have run2: "base_allocate_new_computed_blocks use_int rid ?h num_local num_external s m = Inr (s', m')"
      and cached: "map_of (num_cached_block m) rid = None"
      using run' by (auto simp: allocate_new_computed_blocks_def)
    have nn: "0 \<le> ?n" using o(4,5) by simp
    obtain k where k: "get_num_skipped_tokens m ?n = Inr k" by (rule skipped_tokens_ok [OF o(1) nn])
    have kept: "(if k div mgr_block_size m > 0 then slice_from ?h (k div mgr_block_size m) else ?h) = kept_hits m ?n ?h"
      by (auto simp: kept_hits_def skip_count_def k slice_from_nonneg)
    have none: "blocks_of m rid = []" and en: "mgr_enable_caching m \<or> kept_hits m ?n ?h = []"
      using run2 cached bs
      by (auto simp: base_allocate_new_computed_blocks_def k Let_def kept bindE_Inr_iff split: if_splits)
    have ext: "0 \<le> external_blocks m num_local num_external ?h"
      by (rule external_blocks_bounds(1) [OF o(1,4,5,3) order_refl])
    have skip: "0 \<le> skip_count m ?n" by (simp add: skip_count_def split: sum.split)
    let ?pre = "replicate (nat (skip_count m ?n)) (null_block s) @ kept_hits m ?n ?h"
    have len: "int (length ?pre) = skip_count m ?n + int (length (kept_hits m ?n ?h))" using skip by simp
    from new_computed_ok [OF rel bs k cached none o(2) en ext, of use_int] run2 obtain ext where
      e: "mgr_rel h s' m'" "same_config s s'" "same_mgr m m'" "blocks_of m' rid = ?pre @ ext" "\<forall>r. r \<noteq> rid \<longrightarrow> blocks_of m' r = blocks_of m r"
        "map_of (num_cached_block m') = (map_of (num_cached_block m))(rid \<mapsto> skip_count m ?n + int (length (kept_hits m ?n ?h)))"
        "set ext \<subseteq> {p \<in> real_blocks s. ref_cnt (heap s p) = 0}" "drops_hashes ext s s'"
      by (auto split: if_splits)
    then have "new_entry rid s s' m m'" unfolding new_entry_def same_others_def len [symmetric] by blast
    with e(1-3) show ?thesis by blast
  qed
qed

lemma computed_call_keeps:
  assumes "mgr_rel h s m" and "hits_ready hits num_local num_external i s m"
    and "computed_call use_int rid hits num_local num_external i s m = Inr (s', m', x)"
  shows "mgr_rel h s' m' \<and> same_config s s' \<and> same_mgr m m' \<and> same_others rid m m'"
  using computed_call_shape [OF assms] assms(1) by (auto simp: new_entry_def)

interpretation computed: manager_call "computed_call use_int rid hits num_local num_external"
  "hits_ready hits num_local num_external" "\<lambda>s. same_others rid"
  for use_int rid hits num_local num_external
proof
  show "hits_ready hits num_local num_external i s' m = hits_ready hits num_local num_external i s m"
    if "same_config s s'" for s s' i m
    using that by (simp add: hits_ready_def blocks_ok_config)
qed (use computed_call_keeps in blast)+

definition appended :: "string \<Rightarrow> SingleTypeKVCacheManager \<Rightarrow> SingleTypeKVCacheManager \<Rightarrow> bool" where
  "appended rid m m' \<longleftrightarrow> num_cached_block m' = num_cached_block m
     \<and> (\<exists>out. \<forall>r. blocks_of m' r = (if r = rid then blocks_of m r @ out else blocks_of m r))"

lemma new_blocks_call_keeps:
  assumes rel: "mgr_rel h s m" and ok: "class_ok m"
    and run: "new_blocks_call use_int rid n main enc i s m = Inr (s', m', out)"
  shows "mgr_rel h s' m' \<and> same_config s s' \<and> same_mgr m m' \<and> appended rid m m'"
proof -
  let ?n = "if mgr_class m = CrossAttentionManager then enc else n"
  have bs: "0 < mgr_block_size m" using ok by (simp add: class_ok_def)
  have "base_allocate_new_blocks use_int rid (slot_tokens m ?n) s m = Inr (s', m', out)"
    using run by (simp add: new_blocks_call_def class_ok_calls(2) [OF ok])
  with base_allocate_new_blocks_ok [OF rel bs, of "slot_tokens m ?n" rid use_int] show ?thesis
    by (fastforce simp: appended_def split: if_splits)
qed

interpretation allocating: manager_call "new_blocks_call use_int rid n main enc" "\<lambda>i s m. class_ok m" "\<lambda>s. appended rid"
  for use_int rid n main enc
  by unfold_locales (use new_blocks_call_keeps in blast)+

definition same_blocks :: "SingleTypeKVCacheManager \<Rightarrow> SingleTypeKVCacheManager \<Rightarrow> bool" where
  "same_blocks m m' \<longleftrightarrow> (\<forall>r. blocks_of m' r = blocks_of m r)"

lemma cache_call_keeps:
  assumes "mgr_rel h s m" and "cache_call use_int r n i s m = Inr (s', m', x)"
  shows "mgr_rel h s' m' \<and> same_config s s' \<and> same_mgr m m' \<and> same_blocks m m'"
  using assms cache_blocks_ok [of h s m use_int r n s' m']
  by (auto simp: cache_call_def bindE_Inr_iff same_blocks_def split: prod.splits)

interpretation caching: manager_call "cache_call use_int r n" "\<lambda>i s m. True" "\<lambda>s. same_blocks"
  for use_int r n
  by unfold_locales (use cache_call_keeps in blast)+

definition released :: "string \<Rightarrow> SingleTypeKVCacheManager \<Rightarrow> SingleTypeKVCacheManager \<Rightarrow> bool" where
  "released rid m m' \<longleftrightarrow> (\<forall>r. blocks_of m' r = (if r = rid then [] else blocks_of m r))
     \<and> map_of (num_cached_block m') = (map_of (num_cached_block m))(rid := None)"

interpretation freeing: total_manager_call "free_call rid" "\<lambda>i s m. True" "\<lambda>s. released rid"
  for rid
proof
  show "mgr_rel h s' m' \<and> same_config s s' \<and> same_mgr m m' \<and> released rid m m'"
    if "mgr_rel h s m" "free_call rid i s m = Inr (s', m', x)" for h s m i s' m' x
    using free_request_blocks_ok [OF that(1), of rid] that(2) by (auto simp: free_call_def released_def)
  show "\<exists>s' m' x. free_call rid i s m = Inr (s', m', x)" if "mgr_rel h s m" for h s m i
    using free_request_blocks_ok [OF that, of rid] by (auto simp: free_call_def)
qed simp_all

text \<open>
  The effect of dropping skipped blocks: only whole blocks before the attention window become the
  null block.
\<close>

definition window_kept :: "string \<Rightarrow> int \<Rightarrow> ptr \<Rightarrow> SingleTypeKVCacheManager \<Rightarrow> SingleTypeKVCacheManager \<Rightarrow> bool" where
  "window_kept rid tot nb m m' \<longleftrightarrow> num_cached_block m' = num_cached_block m \<and> same_others rid m m'
     \<and> length (blocks_of m' rid) = length (blocks_of m rid)
     \<and> (\<forall>j < length (blocks_of m rid). blocks_of m' rid ! j = blocks_of m rid ! j
          \<or> (\<exists>k. get_num_skipped_tokens m tot = Inr k \<and> (int j + 1) * mgr_block_size m \<le> k) \<and> blocks_of m' rid ! j = nb)"

lemma skipped_call_ok:
  assumes "mgr_rel h s m" and ok: "class_ok m" and "0 \<le> tot"
  shows "\<exists>s' m'. skipped_call rid tot i s m = Inr (s', m', ()) \<and> mgr_rel h s' m' \<and> same_config s s' \<and> same_mgr m m'
    \<and> window_kept rid tot (null_block s) m m' \<and> num_free_blocks s \<le> num_free_blocks s'"
proof -
  have bs: "0 < mgr_block_size m" using ok by (simp add: class_ok_def)
  obtain k where k: "get_num_skipped_tokens m tot = Inr k" by (rule skipped_tokens_ok [OF ok assms(3)])
  from base_remove_skipped_blocks_ok [OF assms(1) bs k, of rid] obtain s' m' where
    b: "base_remove_skipped_blocks rid tot s m = Inr (s', m')" "mgr_rel h s' m'" "same_config s s'" "same_mgr m m'"
      "window_kept rid tot (null_block s) m m'" "num_free_blocks s \<le> num_free_blocks s'"
    by (auto simp: window_kept_def same_others_def k)
  have "class_ok m'" using ok same_mgr_class(1) [OF b(4)] by simp
  then have "remove_skipped_blocks rid tot s m = Inr (s', m')"
    using b(1) by (auto simp: remove_skipped_blocks_def class_ok_def split: manager_class.splits)
  with b show ?thesis by (auto simp: skipped_call_def)
qed

interpretation skipping: total_manager_call "skipped_call rid tot" "\<lambda>i s m. class_ok m \<and> 0 \<le> tot"
  "\<lambda>s. window_kept rid tot (null_block s)"
  for rid tot
proof
  show "window_kept rid tot (null_block s') m m' = window_kept rid tot (null_block s) m m'" if "same_config s s'" for s s' m m'
    using that by (simp add: same_config_def)
  show "mgr_rel h s' m' \<and> same_config s s' \<and> same_mgr m m' \<and> window_kept rid tot (null_block s) m m'"
    if "mgr_rel h s m" "class_ok m \<and> 0 \<le> tot" "skipped_call rid tot i s m = Inr (s', m', x)" for h s m i s' m' x
    using skipped_call_ok [OF that(1), of tot rid i] that(2,3) by auto
  show "\<exists>s' m' x. skipped_call rid tot i s m = Inr (s', m', x)" if "mgr_rel h s m" "class_ok m \<and> 0 \<le> tot" for h s m i
    using skipped_call_ok [OF that(1), of tot rid i] that(2) by auto
qed simp_all

interpretation prefixing: total_manager_call "common_prefix_call rid" "\<lambda>i s m. True" "\<lambda>s. same_blocks"
  for rid
proof
  show "mgr_rel h s' m' \<and> same_config s s' \<and> same_mgr m m' \<and> same_blocks m m'"
    if "mgr_rel h s m" "common_prefix_call rid i s m = Inr (s', m', x)" for h s m i s' m' x
    using that by (auto simp: common_prefix_call_def get_num_common_prefix_blocks_def Let_def same_blocks_def split: if_splits)
qed (simp_all add: common_prefix_call_def Let_def split: prod.splits)

end
