(* ===== verification/Kv_Cache_Manager.thy ===== *)
theory Kv_Cache_Manager
  imports Coordinator
begin

section \<open>The key-value cache manager\<close>

text \<open>
  \<^verbatim>\<open>vllm/v1/core/kv_cache_manager.py\<close>: the interface through which the scheduler looks up, allocates and
  frees key-value cache. The logic of \<open>allocate_slots\<close> is here; the rest forwards to the
  coordinator and the block pool.
\<close>

subsection \<open>The interface to the scheduler\<close>

text \<open>
  \<^verbatim>\<open>KVCacheBlocks\<close>. The manager compares the tuple inside with that of its preconstructed empty
  object by identity, so that object is a constructor of its own.
\<close>

datatype kv_blocks = EmptyKVCacheBlocks nat | SomeKVCacheBlocks "ptr list list"

fun group_blocks :: "kv_blocks \<Rightarrow> ptr list list" where
  "group_blocks (EmptyKVCacheBlocks n) = replicate n []"
| "group_blocks (SomeKVCacheBlocks bs) = bs"

definition add_kv_blocks :: "kv_blocks \<Rightarrow> kv_blocks \<Rightarrow> kv_blocks" where
  "add_kv_blocks a b = SomeKVCacheBlocks (map2 (@) (group_blocks a) (group_blocks b))"

definition get_block_ids :: "bool \<Rightarrow> store \<Rightarrow> kv_blocks \<Rightarrow> int list list option" where
  "get_block_ids allow_none h b =
     (if allow_none \<and> list_all (\<lambda>g. g = []) (group_blocks b) then None
      else Some (map (map (\<lambda>p. block_id (h p))) (group_blocks b)))"

definition get_unhashed_block_ids :: "store \<Rightarrow> kv_blocks \<Rightarrow> int list result" where
  "get_unhashed_block_ids h b =
     assertE (length (group_blocks b) = 1)
       (Inr (map (\<lambda>p. block_id (h p)) (filter (\<lambda>p. block_hash (h p) = None) (hd (group_blocks b)))))"

definition new_empty :: "kv_blocks \<Rightarrow> kv_blocks" where
  "new_empty b = SomeKVCacheBlocks (replicate (length (group_blocks b)) [])"

subsection \<open>State\<close>

text \<open>\<^verbatim>\<open>PrefixCacheStats\<close> of \<^verbatim>\<open>vllm/v1/metrics/stats.py\<close>, as far as the manager writes it.\<close>

record PrefixCacheStats =
  stats_reset :: bool
  stats_requests :: int
  stats_queries :: int
  stats_hits :: int
  preempted_requests :: int
  preempted_queries :: int
  preempted_hits :: int

definition new_stats :: PrefixCacheStats where
  "new_stats = \<lparr>stats_reset = False, stats_requests = 0, stats_queries = 0, stats_hits = 0,
     preempted_requests = 0, preempted_queries = 0, preempted_hits = 0\<rparr>"

definition record_stats :: "int \<Rightarrow> int \<Rightarrow> bool \<Rightarrow> PrefixCacheStats \<Rightarrow> PrefixCacheStats" where
  "record_stats n hits preempted st =
     (if preempted
      then st\<lparr>preempted_requests := preempted_requests st + 1, preempted_queries := preempted_queries st + n,
              preempted_hits := preempted_hits st + hits\<rparr>
      else st\<lparr>stats_requests := stats_requests st + 1, stats_queries := stats_queries st + n,
              stats_hits := stats_hits st + hits\<rparr>)"

record KVCacheManager =
  kvm_max_model_len :: int
  kvm_enable_caching :: bool
  log_stats :: bool
  prefix_cache_stats :: "PrefixCacheStats option"
  coordinator :: KVCacheCoordinator
  num_kv_cache_groups :: nat

definition kv_cache_manager_init ::
    "KVCacheConfig \<Rightarrow> int \<Rightarrow> int \<Rightarrow> bool \<Rightarrow> bool \<Rightarrow> bool \<Rightarrow> bool \<Rightarrow> int \<Rightarrow> int \<Rightarrow> KVCacheManager result" where
  "kv_cache_manager_init config max_len hbs caching use_eagle stats evs dcp pcp =
     bindE (get_kv_cache_coordinator config use_eagle caching evs dcp pcp hbs) (\<lambda>c.
     Inr \<lparr>kvm_max_model_len = max_len, kvm_enable_caching = caching, log_stats = stats,
          prefix_cache_stats = (if stats then Some new_stats else None), coordinator = c,
          num_kv_cache_groups = length (kv_cache_groups config)\<rparr>)"

definition empty_kv_cache_blocks :: "KVCacheManager \<Rightarrow> kv_blocks" where
  "empty_kv_cache_blocks k = EmptyKVCacheBlocks (num_kv_cache_groups k)"

definition create_kv_cache_blocks :: "ptr list list \<Rightarrow> KVCacheManager \<Rightarrow> kv_blocks" where
  "create_kv_cache_blocks bs k = (if list_ex (\<lambda>b. b \<noteq> []) bs then SomeKVCacheBlocks bs else empty_kv_cache_blocks k)"

subsection \<open>Operations\<close>

definition usage :: "KVCacheManager \<Rightarrow> rat" where
  "usage k = get_usage (coord_pool (coordinator k))"

definition make_prefix_cache_stats :: "KVCacheManager \<Rightarrow> KVCacheManager \<times> PrefixCacheStats option" where
  "make_prefix_cache_stats k =
     (if \<not> log_stats k then (k, None)
      else (k\<lparr>prefix_cache_stats := Some new_stats\<rparr>, prefix_cache_stats k))"

definition get_computed_blocks ::
    "Request \<Rightarrow> KVCacheManager \<Rightarrow> (KVCacheManager \<times> kv_blocks \<times> int) result option" where
  "get_computed_blocks r k =
     (if \<not> kvm_enable_caching k \<or> skip_reading_prefix_cache r then Some (Inr (k, empty_kv_cache_blocks k, 0))
      else case coordinator_find_longest_cache_hit (block_hashes r) (num_tokens r - 1) (coordinator k) of
        None \<Rightarrow> None
      | Some res \<Rightarrow> Some (bindE res (\<lambda>(computed_blocks, n).
          bindE (if log_stats k
                 then (case prefix_cache_stats k of
                     None \<Rightarrow> Inl AssertionError
                   | Some st \<Rightarrow> Inr (k\<lparr>prefix_cache_stats :=
                       Some (record_stats (num_tokens r) n (num_preemptions r > 0) st)\<rparr>))
                 else Inr k) (\<lambda>k. Inr (k, create_kv_cache_blocks computed_blocks k, n)))))"

text \<open>
  The last two stages of \<^verbatim>\<open>allocate_slots\<close>, after the check for free blocks: the prefix cache hits, the
  new blocks, and the caching of full blocks up to the tokens that are final.
\<close>

definition commit_slots ::
    "bool \<Rightarrow> Request \<Rightarrow> kv_blocks \<Rightarrow> int \<Rightarrow> int \<Rightarrow> int \<Rightarrow> int \<Rightarrow> int \<Rightarrow> bool \<Rightarrow> KVCacheManager \<Rightarrow> KVCacheCoordinator
     \<Rightarrow> (KVCacheManager \<times> kv_blocks option) result" where
  "commit_slots use_int r given num_local num_external need_slot main_model num_encoder_tokens delay_cache_blocks k c =
     bindE (if given \<noteq> empty_kv_cache_blocks k \<or> num_external > 0
            then coordinator_allocate_new_computed_blocks use_int (request_id r) (group_blocks given) num_local num_external c
            else Inr c) (\<lambda>c.
     bindE (coordinator_allocate_new_blocks use_int (request_id r) need_slot main_model num_encoder_tokens c)
       (\<lambda>(c, new_blocks).
     if \<not> kvm_enable_caching k \<or> delay_cache_blocks
     then Inr (k\<lparr>coordinator := c\<rparr>, Some (create_kv_cache_blocks new_blocks k))
     else
       bindE (coordinator_cache_blocks use_int r (min main_model (num_tokens r)) c) (\<lambda>c.
       Inr (k\<lparr>coordinator := c\<rparr>, Some (create_kv_cache_blocks new_blocks k)))))"

text \<open>
  \<^verbatim>\<open>allocate_slots\<close>. The first component of the result is the new state; \<open>None\<close> in the second is the
  \<open>None\<close> that tells the scheduler that there are not enough free blocks.
\<close>

definition allocate_slots ::
    "bool \<Rightarrow> Request \<Rightarrow> int \<Rightarrow> int \<Rightarrow> kv_blocks option \<Rightarrow> int \<Rightarrow> int \<Rightarrow> bool \<Rightarrow> int \<Rightarrow> KVCacheManager
     \<Rightarrow> (KVCacheManager \<times> kv_blocks option) result" where
  "allocate_slots use_int r num_new_tokens num_new_computed new_computed_blocks num_lookahead num_external
     delay_cache_blocks num_encoder_tokens k =
     (if num_new_tokens = 0 \<and> num_external = 0 then Inl ValueError
      else
        (let given = (case new_computed_blocks of None \<Rightarrow> empty_kv_cache_blocks k | Some b \<Rightarrow> b);
             num_local = num_computed_tokens r + num_new_computed;
             total_computed = min (num_local + num_external) (kvm_max_model_len k);
             main_model = total_computed + num_new_tokens;
             need_slot = min (main_model + num_lookahead) (kvm_max_model_len k) in
         bindE (coordinator_remove_skipped_blocks (request_id r) total_computed (coordinator k)) (\<lambda>c.
         bindE (coordinator_get_num_blocks_to_allocate (request_id r) need_slot (group_blocks given) num_encoder_tokens
                  (num_local + num_external) main_model c) (\<lambda>(c, num_blocks_to_allocate).
         if num_blocks_to_allocate > get_num_free_blocks (coord_pool c) then Inr (k\<lparr>coordinator := c\<rparr>, None)
         else commit_slots use_int r given num_local num_external need_slot main_model num_encoder_tokens
                delay_cache_blocks k c))))"

definition kvm_free :: "Request \<Rightarrow> KVCacheManager \<Rightarrow> KVCacheManager result" where
  "kvm_free r k = bindE (coordinator_free (request_id r) (coordinator k)) (\<lambda>c. Inr (k\<lparr>coordinator := c\<rparr>))"

definition kvm_remove_skipped_blocks :: "string \<Rightarrow> int \<Rightarrow> KVCacheManager \<Rightarrow> KVCacheManager result" where
  "kvm_remove_skipped_blocks rid tot k =
     bindE (coordinator_remove_skipped_blocks rid tot (coordinator k)) (\<lambda>c. Inr (k\<lparr>coordinator := c\<rparr>))"

definition set_pool :: "block_pool \<Rightarrow> KVCacheManager \<Rightarrow> KVCacheManager" where
  "set_pool s k = k\<lparr>coordinator := (coordinator k)\<lparr>coord_pool := s\<rparr>\<rparr>"

definition kvm_evict_blocks :: "bool \<Rightarrow> int list \<Rightarrow> KVCacheManager \<Rightarrow> KVCacheManager result" where
  "kvm_evict_blocks use_int ids k =
     bindE (evict_blocks use_int ids (coord_pool (coordinator k))) (\<lambda>s. Inr (set_pool s k))"

definition kvm_reset_prefix_cache :: "KVCacheManager \<Rightarrow> (KVCacheManager \<times> bool) result" where
  "kvm_reset_prefix_cache k =
     (let (s, ok) = reset_prefix_cache (coord_pool (coordinator k)); k = set_pool s k in
      if \<not> ok then Inr (k, False)
      else if log_stats k then
        (case prefix_cache_stats k of
           None \<Rightarrow> Inl AssertionError
         | Some st \<Rightarrow> Inr (k\<lparr>prefix_cache_stats := Some (st\<lparr>stats_reset := True\<rparr>)\<rparr>, True))
      else Inr (k, True))"

definition kvm_get_num_common_prefix_blocks :: "string \<Rightarrow> KVCacheManager \<Rightarrow> (KVCacheManager \<times> int list) result" where
  "kvm_get_num_common_prefix_blocks rid k =
     bindE (coordinator_get_num_common_prefix_blocks rid (coordinator k)) (\<lambda>(c, ns). Inr (k\<lparr>coordinator := c\<rparr>, ns))"

definition kvm_take_events :: "KVCacheManager \<Rightarrow> KVCacheManager \<times> KVCacheEvent list" where
  "kvm_take_events k = (let (s, evs) = take_events (coord_pool (coordinator k)) in (set_pool s k, evs))"

definition get_blocks :: "string \<Rightarrow> KVCacheManager \<Rightarrow> kv_blocks" where
  "get_blocks rid k = create_kv_cache_blocks (coordinator_get_blocks rid (coordinator k)) k"

definition kvm_get_block_ids :: "string \<Rightarrow> KVCacheManager \<Rightarrow> int list list option" where
  "kvm_get_block_ids rid k = get_block_ids False (heap (coord_pool (coordinator k))) (get_blocks rid k)"

definition kvm_cache_blocks :: "bool \<Rightarrow> Request \<Rightarrow> int \<Rightarrow> KVCacheManager \<Rightarrow> KVCacheManager result" where
  "kvm_cache_blocks use_int r n k =
     (if kvm_enable_caching k
      then bindE (coordinator_cache_blocks use_int r n (coordinator k)) (\<lambda>c. Inr (k\<lparr>coordinator := c\<rparr>))
      else Inr k)"

end
