(* ===== verification/Kv_Manager_Invariant.thy ===== *)
theory Kv_Manager_Invariant
  imports Coordinator_Invariant Kv_Cache_Manager
begin

section \<open>The invariant of the cache manager over all histories\<close>

text \<open>
  The contract of the calls is lifted to coordinator and cache manager; a step relation collects
  all operations of the cache manager, and every reachable state satisfies the invariant.
\<close>

subsection \<open>The invariant of the cache manager\<close>

definition kvm_pool :: "KVCacheManager \<Rightarrow> block_pool" where
  "kvm_pool k = coord_pool (coordinator k)"

definition kvm_managers :: "KVCacheManager \<Rightarrow> SingleTypeKVCacheManager list" where
  "kvm_managers k = single_type_managers (coordinator k)"

definition coord_inv :: "KVCacheCoordinator \<Rightarrow> bool" where
  "coord_inv c \<longleftrightarrow> coord_rel (\<lambda>_. 0) (coord_pool c) (single_type_managers c)
     \<and> (\<forall>m \<in> set (single_type_managers c). class_ok m)"

text \<open>What no operation changes: the fixed part of the pool and of every manager.\<close>

definition same_coord :: "KVCacheCoordinator \<Rightarrow> KVCacheCoordinator \<Rightarrow> bool" where
  "same_coord c c' \<longleftrightarrow> same_config (coord_pool c) (coord_pool c')
     \<and> list_all2 same_mgr (single_type_managers c) (single_type_managers c')
     \<and> coord_class c' = coord_class c \<and> coord_config c' = coord_config c"

lemma same_coord_refl [simp]: "same_coord c c"
  by (simp add: same_coord_def list_all2_refl)

lemma same_coord_trans: "same_coord a b \<Longrightarrow> same_coord b c \<Longrightarrow> same_coord a c"
  by (auto simp: same_coord_def intro: same_config_trans list_all2_trans [of same_mgr same_mgr same_mgr] same_mgr_trans)

lemma class_ok_all2:
  "list_all2 same_mgr ms ms' \<Longrightarrow> \<forall>m \<in> set ms. class_ok m \<Longrightarrow> \<forall>m \<in> set ms'. class_ok m"
  by (fastforce simp: list_all2_conv_all_nth in_set_conv_nth dest: same_mgr_class(1))

context manager_call
begin

lemma on_managers_keeps:
  assumes "coord_inv c"
    and "\<And>j. j < length (single_type_managers c) \<Longrightarrow> ready (int j) (coord_pool c) (single_type_managers c ! j)"
    and "on_managers call c = Inr (c', xs)"
  shows "coord_inv c' \<and> same_coord c c' \<and> length xs = length (single_type_managers c)
    \<and> list_all2 (effect (coord_pool c)) (single_type_managers c) (single_type_managers c')"
proof -
  from assms(3) obtain s' ms' where r: "each_manager call 0 (coord_pool c) (single_type_managers c) = Inr (s', ms', xs)"
      "c' = c\<lparr>coord_pool := s', single_type_managers := ms'\<rparr>"
    by (auto simp: on_managers_def bindE_Inr_iff)
  have "coord_rel (\<lambda>_. 0) (coord_pool c) (single_type_managers c)" using assms(1) by (simp add: coord_inv_def)
  from each_keeps [OF this _ r(1)] assms(1,2) class_ok_all2 [of "single_type_managers c" ms'] show ?thesis
    by (simp add: r(2) coord_inv_def same_coord_def)
qed

end

context total_manager_call
begin

lemma on_managers_total:
  assumes "coord_inv c"
    and "\<And>j. j < length (single_type_managers c) \<Longrightarrow> ready (int j) (coord_pool c) (single_type_managers c ! j)"
  shows "\<exists>c' xs. on_managers call c = Inr (c', xs)"
  using each_total [of "\<lambda>_. 0" "coord_pool c" "single_type_managers c" 0] assms
  by (auto simp: on_managers_def coord_inv_def)

end

definition kvm_inv :: "KVCacheManager \<Rightarrow> bool" where
  "kvm_inv k \<longleftrightarrow> coord_inv (coordinator k)"

text \<open>A request to allocate that the scheduler may make: the given blocks are cached blocks that fit the tokens.\<close>

definition request_fits :: "KVCacheManager \<Rightarrow> ptr list list \<Rightarrow> int \<Rightarrow> int \<Rightarrow> bool" where
  "request_fits k hits num_local num_external \<longleftrightarrow> 0 \<le> num_local \<and> 0 \<le> num_external \<and> 0 \<le> kvm_max_model_len k
     \<and> length hits = length (kvm_managers k)
     \<and> (\<forall>i < length hits. blocks_ok (kvm_pool k) (hits ! i)
          \<and> int (length (hits ! i)) * mgr_block_size (kvm_managers k ! i) \<le> num_local)"

lemma hits_ready_fits:
  assumes "request_fits k hits num_local num_external" and "coord_inv (coordinator k)" and "same_coord (coordinator k) c"
    and "coord_inv c" and "j < length (single_type_managers c)"
  shows "hits_ready hits num_local num_external (int j) (coord_pool c) (single_type_managers c ! j)"
proof -
  have "same_mgr (kvm_managers k ! j) (single_type_managers c ! j)" "length (kvm_managers k) = length (single_type_managers c)"
    using assms(3,5) by (auto simp: same_coord_def kvm_managers_def list_all2_conv_all_nth)
  moreover have "same_config (kvm_pool k) (coord_pool c)" using assms(3) by (simp add: same_coord_def kvm_pool_def)
  ultimately show ?thesis
    using assms(1,4,5) by (auto simp: hits_ready_def request_fits_def coord_inv_def blocks_ok_config same_mgr_def)
qed

lemma skipped_keeps:
  assumes "coord_inv c" and "0 \<le> tot" and "coordinator_remove_skipped_blocks rid tot c = Inr c'"
  shows "coord_inv c' \<and> same_coord c c'"
  using assms skipping.on_managers_keeps [OF assms(1), of tot rid c']
  by (auto simp: coordinator_remove_skipped_blocks_def bindE_Inr_iff coord_inv_def)

lemma counting_keeps:
  assumes "coord_inv c" and "coordinator_get_num_blocks_to_allocate rid n hits enc tot main c = Inr (c', num)"
  shows "coord_inv c' \<and> same_coord c c'"
  using assms counting.on_managers_keeps [OF assms(1), of rid n hits enc tot main c']
  by (auto simp: coordinator_get_num_blocks_to_allocate_def bindE_Inr_iff coord_inv_def)

lemma caching_keeps:
  assumes "coord_inv c" and "coordinator_cache_blocks use_int r n c = Inr c'"
  shows "coord_inv c' \<and> same_coord c c'"
  using assms caching.on_managers_keeps [OF assms(1), of use_int r n c']
  by (auto simp: coordinator_cache_blocks_def bindE_Inr_iff)

lemma freeing_keeps:
  assumes "coord_inv c"
  shows "\<exists>c'. coordinator_free rid c = Inr c' \<and> coord_inv c' \<and> same_coord c c'
    \<and> list_all2 (released rid) (single_type_managers c) (single_type_managers c')"
  using freeing.on_managers_total [OF assms, of rid] freeing.on_managers_keeps [OF assms, of rid]
  by (fastforce simp: coordinator_free_def)

lemma commit_keeps:
  assumes inv: "coord_inv (coordinator k)" "coord_inv c" "same_coord (coordinator k) c"
    and fits: "request_fits k (group_blocks given) num_local num_external"
    and run: "commit_slots use_int r given num_local num_external need main enc delay k c = Inr (k', res)"
  shows "kvm_inv k' \<and> same_coord (coordinator k) (coordinator k')"
proof -
  from run obtain c3 where
    c3: "(if given \<noteq> empty_kv_cache_blocks k \<or> num_external > 0
          then coordinator_allocate_new_computed_blocks use_int (request_id r) (group_blocks given) num_local num_external c
          else Inr c) = Inr c3"
    unfolding commit_slots_def by (auto simp: bindE_Inr_iff)
  from run c3 obtain c4 new where
    c4: "coordinator_allocate_new_blocks use_int (request_id r) need main enc c3 = Inr (c4, new)"
    and c5: "coordinator k' = c4 \<or> coordinator_cache_blocks use_int r (min main (num_tokens r)) c4 = Inr (coordinator k')"
    unfolding commit_slots_def c3 by (auto simp: bindE_Inr_iff split: if_splits)
  have k3: "coord_inv c3 \<and> same_coord (coordinator k) c3"
    using c3 inv computed.on_managers_keeps [OF inv(2), of "group_blocks given" num_local num_external use_int "request_id r"]
      hits_ready_fits [OF fits inv(1) inv(3,2)]
    by (auto simp: coordinator_allocate_new_computed_blocks_def bindE_Inr_iff split: if_splits intro: same_coord_trans)
  then have k4: "coord_inv c4 \<and> same_coord (coordinator k) c4"
    using c4 allocating.on_managers_keeps [of c3 use_int "request_id r" need main enc c4 new]
    by (auto simp: coordinator_allocate_new_blocks_def coord_inv_def intro: same_coord_trans)
  show ?thesis
  proof (cases "coordinator k' = c4")
    case False
    with c5 k4 caching_keeps [of c4 use_int r "min main (num_tokens r)" "coordinator k'"] show ?thesis
      by (auto simp: kvm_inv_def intro: same_coord_trans)
  qed (use k4 in \<open>simp add: kvm_inv_def\<close>)
qed

lemma allocate_slots_keeps:
  assumes inv: "kvm_inv k"
    and fits: "request_fits k (group_blocks (case given of None \<Rightarrow> empty_kv_cache_blocks k | Some b \<Rightarrow> b))
      (num_computed_tokens r + num_new_computed) num_external"
    and run: "allocate_slots use_int r n num_new_computed given lookahead num_external delay enc k = Inr (k', res)"
  shows "kvm_inv k' \<and> same_coord (coordinator k) (coordinator k')"
proof -
  define g where "g = (case given of None \<Rightarrow> empty_kv_cache_blocks k | Some b \<Rightarrow> b)"
  let ?local = "num_computed_tokens r + num_new_computed"
  define tot where "tot = min (?local + num_external) (kvm_max_model_len k)"
  define need where "need = min (tot + n + lookahead) (kvm_max_model_len k)"
  have tot: "0 \<le> tot" using fits by (simp add: request_fits_def tot_def)
  have inv0: "coord_inv (coordinator k)" using inv by (simp add: kvm_inv_def)
  from run obtain c1 c2 num where
    c1: "coordinator_remove_skipped_blocks (request_id r) tot (coordinator k) = Inr c1"
    and c2: "coordinator_get_num_blocks_to_allocate (request_id r) need (group_blocks g) enc (?local + num_external) (tot + n) c1
        = Inr (c2, num)"
    and rest: "k' = k\<lparr>coordinator := c2\<rparr>
       \<or> commit_slots use_int r g ?local num_external need (tot + n) enc delay k c2 = Inr (k', res)"
    unfolding allocate_slots_def Let_def g_def [symmetric] tot_def [symmetric] need_def [symmetric]
    by (auto simp: bindE_Inr_iff split: if_splits)
  have k2: "coord_inv c2 \<and> same_coord (coordinator k) c2"
    using counting_keeps [OF _ c2] skipped_keeps [OF inv0 tot c1] by (auto intro: same_coord_trans)
  from rest show ?thesis
    using k2 commit_keeps [OF inv0 _ _ fits [folded g_def]] by (auto simp: kvm_inv_def)
qed

subsection \<open>Reachable states\<close>

text \<open>One call of the scheduler or the engine on the cache manager.\<close>

inductive kvm_step :: "bool \<Rightarrow> KVCacheManager \<Rightarrow> KVCacheManager \<Rightarrow> bool" for use_int where
  step_lookup: "get_computed_blocks r k = Some (Inr (k', b, n)) \<Longrightarrow> kvm_step use_int k k'"
| step_allocate: "request_fits k (group_blocks (case given of None \<Rightarrow> empty_kv_cache_blocks k | Some b \<Rightarrow> b))
      (num_computed_tokens r + new_computed) num_external \<Longrightarrow>
    allocate_slots use_int r n new_computed given lookahead num_external delay enc k = Inr (k', res) \<Longrightarrow> kvm_step use_int k k'"
| step_free: "kvm_free r k = Inr k' \<Longrightarrow> kvm_step use_int k k'"
| step_skip: "0 \<le> tot \<Longrightarrow> kvm_remove_skipped_blocks rid tot k = Inr k' \<Longrightarrow> kvm_step use_int k k'"
| step_cache: "kvm_cache_blocks use_int r n k = Inr k' \<Longrightarrow> kvm_step use_int k k'"
| step_evict: "kvm_evict_blocks use_int ids k = Inr k' \<Longrightarrow> kvm_step use_int k k'"
| step_reset: "kvm_reset_prefix_cache k = Inr (k', ok) \<Longrightarrow> kvm_step use_int k k'"
| step_common: "kvm_get_num_common_prefix_blocks rid k = Inr (k', ns) \<Longrightarrow> kvm_step use_int k k'"
| step_events: "kvm_take_events k = (k', evs) \<Longrightarrow> kvm_step use_int k k'"
| step_stats: "make_prefix_cache_stats k = (k', st) \<Longrightarrow> kvm_step use_int k k'"

inductive kvm_reach :: "bool \<Rightarrow> KVCacheManager \<Rightarrow> bool" for use_int where
  kvm_start: "kv_cache_manager_init config max_len hbs caching use_eagle stats evs dcp pcp = Inr k \<Longrightarrow>
    \<forall>m \<in> set (kvm_managers k). class_ok m \<Longrightarrow> kvm_reach use_int k"
| kvm_next: "kvm_reach use_int k \<Longrightarrow> kvm_step use_int k k' \<Longrightarrow> kvm_reach use_int k'"

lemma make_managers_fresh:
  assumes "make_managers caching dcp pcp i gs s = Inr (s', ms)" and "\<forall>m \<in> set ms. class_ok m"
  shows "s' = s \<and> (\<forall>m \<in> set ms. req_to_blocks m = [] \<and> num_cached_block m = [])"
  using assms
proof (induction gs arbitrary: i s s' ms)
  case (Cons g gs)
  then obtain spec s1 m ms' where
    c: "get_manager_for_kv_cache_spec spec caching i dcp pcp s = Inr (s1, m)"
      "make_managers caching dcp pcp (i + 1) gs s1 = Inr (s', ms')" "ms = m # ms'"
    by (auto simp: bindE_Inr_iff split: GroupSpec.splits)
  have "class_ok m" using Cons.prems(2) c(3) by simp
  then have "mgr_class m \<noteq> SinkFullAttentionManager" by (auto simp: class_ok_def)
  then have "s1 = s \<and> req_to_blocks m = [] \<and> num_cached_block m = []"
    using c(1) by (auto simp: get_manager_for_kv_cache_spec_def new_manager_def init_sink_blocks_def bindE_Inr_iff
        Let_def split: option.splits if_splits)
  with Cons.IH [OF c(2)] Cons.prems(2) c(3) show ?case by auto
qed auto

lemma coordinator_init_inv:
  assumes "coordinator_init cls config use_eagle caching evs dcp pcp hbs = Inr c"
    and "\<forall>m \<in> set (single_type_managers c). class_ok m"
  shows "coord_inv c"
proof -
  from assms(1) obtain s s' ms where i: "block_pool_init (num_blocks config) caching hbs evs = Inr s"
      "make_managers caching dcp pcp 0 (kv_cache_groups config) s = Inr (s', ms)"
      "coord_pool c = s'" "single_type_managers c = ms"
    by (auto simp: coordinator_init_def bindE_Inr_iff)
  have fresh: "s' = s" "\<And>m. m \<in> set ms \<Longrightarrow> req_to_blocks m = []"
    using make_managers_fresh [OF i(2)] assms(2) i(4) by auto
  have "0 < num_blocks config" using i(1) by (simp add: block_pool_init_def)
  from block_pool_init_rel [OF this, of caching hbs evs] i(1) have s: "pool_inv s" "\<And>p. ref_cnt (heap s p) = 0"
    by (auto simp: pool_inv_def)
  have "all_held ms p = 0" for p
    using fresh(2) by (induction ms) (auto simp: held_def)
  moreover have "\<forall>m \<in> set ms. mgr_wf s m" using fresh(2) by (simp add: mgr_wf_def)
  ultimately show ?thesis using s assms(2) i(3,4) fresh(1) by (simp add: coord_inv_def coord_rel_def)
qed

lemma get_coordinator_base:
  assumes "get_kv_cache_coordinator config use_eagle caching evs dcp pcp hbs = Inr c"
  shows "\<exists>cls caching' c0. coordinator_init cls config use_eagle caching' evs dcp pcp hbs = Inr c0
    \<and> coord_pool c = coord_pool c0 \<and> single_type_managers c = single_type_managers c0"
  using assms
  by (auto simp: get_kv_cache_coordinator_def no_prefix_cache_init_def unitary_init_def hybrid_init_def bindE_Inr_iff
      Let_def split: if_splits) metis+

lemma kvm_init_inv:
  assumes "kv_cache_manager_init config max_len hbs caching use_eagle stats evs dcp pcp = Inr k"
    and "\<forall>m \<in> set (kvm_managers k). class_ok m"
  shows "kvm_inv k"
proof -
  from assms(1) have c: "get_kv_cache_coordinator config use_eagle caching evs dcp pcp hbs = Inr (coordinator k)"
    by (auto simp: kv_cache_manager_init_def bindE_Inr_iff)
  then obtain cls c0 caching' where "coordinator_init cls config use_eagle caching' evs dcp pcp hbs = Inr c0"
      "coord_pool (coordinator k) = coord_pool c0" "single_type_managers (coordinator k) = single_type_managers c0"
    using get_coordinator_base by blast
  with coordinator_init_inv [OF this(1)] assms(2) show ?thesis
    by (simp add: kvm_inv_def coord_inv_def kvm_managers_def)
qed

text \<open>Changing the pool without touching reference counts.\<close>

lemma set_pool_inv:
  assumes "kvm_inv k" and "pool_inv s" and "same_config (kvm_pool k) s" and "\<And>p. ref_cnt (heap s p) = ref_cnt (heap (kvm_pool k) p)"
  shows "kvm_inv (set_pool s k)"
  using assms by (auto simp: kvm_inv_def coord_inv_def coord_rel_def set_pool_def kvm_pool_def mgr_wf_config same_config_ok)

lemma common_prefix_keeps:
  assumes "coord_inv c" and "coordinator_get_num_common_prefix_blocks rid c = Inr (c', ns)"
  shows "coord_inv c'"
  using assms prefixing.on_managers_keeps [OF assms(1), of rid c' ns]
  by (auto simp: coordinator_get_num_common_prefix_blocks_def split: if_splits)

lemma kvm_step_inv:
  assumes "kvm_step use_int k k'" and "kvm_inv k"
  shows "kvm_inv k'"
  using assms
proof (induction rule: kvm_step.induct)
  case (step_lookup r k k' b n)
  then have "coordinator k' = coordinator k"
    by (auto simp: get_computed_blocks_def bindE_Inr_iff split: if_splits option.splits)
  with step_lookup show ?case by (simp add: kvm_inv_def)
next
  case (step_allocate k given r new_computed num_external n lookahead delay enc k' res)
  then show ?case using allocate_slots_keeps by blast
next
  case (step_free r k k')
  then show ?case using freeing_keeps [of "coordinator k" "request_id r"] by (auto simp: kvm_free_def kvm_inv_def)
next
  case (step_skip tot rid k k')
  then show ?case using skipped_keeps [of "coordinator k" tot rid]
    by (auto simp: kvm_remove_skipped_blocks_def kvm_inv_def bindE_Inr_iff)
next
  case (step_cache r n k k')
  then show ?case using caching_keeps [of "coordinator k" use_int r n]
    by (auto simp: kvm_cache_blocks_def kvm_inv_def bindE_Inr_iff split: if_splits)
next
  case (step_evict ids k k')
  then obtain s where s: "evict_blocks use_int ids (kvm_pool k) = Inr s" "k' = set_pool s k"
    by (auto simp: kvm_evict_blocks_def bindE_Inr_iff kvm_pool_def)
  obtain xs where "pool_rel (kvm_pool k) xs"
    using step_evict by (auto simp: kvm_inv_def coord_inv_def coord_rel_def pool_inv_def kvm_pool_def)
  from evict_blocks_ok [OF this s(1)] show ?case
    unfolding s(2) using step_evict by (intro set_pool_inv) (auto simp: pool_inv_def)
next
  case (step_reset k k' ok)
  obtain xs where xs: "pool_rel (kvm_pool k) xs"
    using step_reset by (auto simp: kvm_inv_def coord_inv_def coord_rel_def pool_inv_def kvm_pool_def)
  have "kvm_inv (set_pool (fst (reset_prefix_cache (kvm_pool k))) k)"
    using reset_prefix_cache_ok(4) [OF xs] step_reset(2) by (intro set_pool_inv) (auto simp: pool_inv_def)
  moreover have "coordinator k' = coordinator (set_pool (fst (reset_prefix_cache (kvm_pool k))) k)"
    using step_reset(1)
    by (auto simp: kvm_reset_prefix_cache_def Let_def kvm_pool_def split: prod.splits if_splits option.splits)
  ultimately show ?case by (simp add: kvm_inv_def)
next
  case (step_common rid k k' ns)
  then show ?case using common_prefix_keeps [of "coordinator k" rid]
    by (auto simp: kvm_get_num_common_prefix_blocks_def kvm_inv_def bindE_Inr_iff)
next
  case (step_events k k' evs)
  then obtain s where s: "take_events (kvm_pool k) = (s, evs)" "k' = set_pool s k"
    by (auto simp: kvm_take_events_def kvm_pool_def split: prod.splits)
  note t = take_events_ok [OF s(1)]
  have "heap s = heap (kvm_pool k)" using s(1) by (auto simp: take_events_def split: if_splits)
  with t step_events(2) show ?case
    unfolding s(2) by (intro set_pool_inv) (auto simp: kvm_inv_def coord_inv_def coord_rel_def pool_inv_def kvm_pool_def)
next
  case (step_stats k k' st)
  then show ?case by (auto simp: make_prefix_cache_stats_def kvm_inv_def split: if_splits)
qed

lemma kvm_reach_inv: "kvm_reach use_int k \<Longrightarrow> kvm_inv k"
  by (induction rule: kvm_reach.induct) (auto intro: kvm_init_inv kvm_step_inv)

end
