(* ===== verification/Fresh_Blocks.thy ===== *)
theory Fresh_Blocks
  imports Kv_Manager_Invariant
begin

section \<open>Blocks that are not cached yet\<close>

text \<open>
  \<^verbatim>\<open>cache_full_blocks\<close> asserts that the blocks it caches carry no hash. Here is why that holds: the blocks of
  a request behind its \<^verbatim>\<open>num_cached_block\<close> were handed out as free blocks, have no hash, and
  are in that position of no other request of any group.
\<close>

subsection \<open>What caching changes in the pool\<close>

lemma cache_block_step_frame:
  assumes "cache_block_step use_int g hs (i, p) (s, acc) = Inr (s', acc')" and "q \<noteq> p"
  shows "block_hash (heap s' q) = block_hash (heap s q)"
  using assms by (auto simp: cache_block_step_def set_block_hash_def assertE_def bindE_Inr_iff split: if_splits)

lemma cache_full_blocks_frame:
  assumes run: "cache_full_blocks use_int r bls nc nf bs g s = Inr s'" and q: "q \<notin> set (slice bls nc nf)"
  shows "block_hash (heap s' q) = block_hash (heap s q)"
proof (cases "nc \<ge> nf")
  case True
  with run show ?thesis by (simp add: cache_full_blocks_def)
next
  case False
  let ?ps = "slice bls nc nf"
  let ?ips = "zip [0..int (length ?ps) - 1] ?ps"
  from run False obtain hs t acc where
    loop: "foldE (cache_block_step use_int g hs) ?ips (s, []) = Inr (t, acc)" and t: "heap s' = heap t"
    unfolding cache_full_blocks_def Let_def by (auto simp: bindE_Inr_iff assertE_def split: if_splits)
  have "(\<lambda>(u, acc). block_hash (heap u q) = block_hash (heap s q)) (t, acc)"
  proof (rule foldE_invariant [OF loop])
    fix ip and u u' :: "block_pool \<times> ExternalBlockHash list"
    assume ip: "ip \<in> set ?ips" and u: "(\<lambda>(u, acc). block_hash (heap u q) = block_hash (heap s q)) u"
      and step: "cache_block_step use_int g hs ip u = Inr u'"
    obtain i p v a v' a' where e: "ip = (i, p)" "u = (v, a)" "u' = (v', a')" by (metis surj_pair)
    have "p \<in> set ?ps" using ip e(1) by (auto dest: set_zip_rightD)
    then have "q \<noteq> p" using q by blast
    with cache_block_step_frame [of use_int g hs i p v a v' a' q] step u e
    show "(\<lambda>(u, acc). block_hash (heap u q) = block_hash (heap s q)) u'" by simp
  qed simp
  with t show ?thesis by simp
qed

text \<open>The hashes that \<open>new_block_hashes\<close> computes are there when the request has hashed its tokens.\<close>

lemma new_block_hashes_total:
  assumes "0 < hash_block_size s" and "hash_block_size s dvd bs" and "0 < bs" and "0 \<le> nc" and "nc < nf"
    and "nf * bs \<le> int (length (block_hashes r)) * hash_block_size s"
  shows "\<exists>hs parent. new_block_hashes r nc bs s = Inr (hs, parent) \<and> nf \<le> nc + int (length hs)
    \<and> (nc \<noteq> 0 \<longrightarrow> (\<exists>h. parent = Inr h)) \<and> nf \<le> int (length (block_hashes r))"
proof -
  let ?hbs = "hash_block_size s" and ?n = "int (length (block_hashes r))"
  let ?f = "bs div ?hbs"
  have f: "0 < ?f" "bs = ?f * ?hbs" using assms(1-3) by (auto elim!: dvdE simp: zero_less_mult_iff)
  have "nf * ?f * ?hbs \<le> ?n * ?hbs" using assms(6) f(2) by (metis mult.assoc)
  then have mul: "nf * ?f \<le> ?n" using assms(1) by simp
  then have le: "nf \<le> ?n div ?f" using int_le_div_iff [OF f(1)] by blast
  have "nf * 1 \<le> nf * ?f" using f(1) assms(4,5) by (intro mult_left_mono) linarith+
  with mul have n: "nf \<le> ?n" by simp
  show ?thesis
  proof (cases "bs = ?hbs")
    case True
    with n assms(4,5) show ?thesis by (auto simp: new_block_hashes_def slice_from_nonneg index_py_nonneg)
  next
    case False
    obtain l where l: "new_block_hash_list (block_hashes r) ?hbs bs = Inr l" "bh_len l = ?n div ?f"
      "\<forall>i. 0 \<le> i \<and> i < bh_len l \<longrightarrow> (\<exists>h. get_value_at l i = Inr h)"
      using block_hash_list_regroups [OF assms(1,3), of "block_hashes r"] assms(2) by (auto simp: mod_eq_0_iff_dvd)
    have "get_value_at l i = Inr (projr (get_value_at l i))" if "i \<in> set [nc..bh_len l - 1]" for i
    proof -
      have "0 \<le> i \<and> i < bh_len l" using that assms(4) by simp
      with l(3) obtain h where "get_value_at l i = Inr h" by blast
      then show ?thesis by simp
    qed
    then have hs: "get_values_from l nc = Inr (map (\<lambda>i. projr (get_value_at l i)) [nc..bh_len l - 1])"
      using l(2) le assms(5) by (simp add: get_values_from_def mapE_Inr_iff list_all2_conv_all_nth min_def)
    with False l le n assms(1,2,4,5) show ?thesis
      by (auto simp: new_block_hashes_def mod_eq_0_iff_dvd)
  qed
qed

lemma cache_full_blocks_total:
  assumes rel: "pool_rel s xs" and sub: "set bls \<subseteq> set (blocks s)" and g: "0 \<le> g" "g < 2 ^ 32"
    and dist: "distinct (filter (\<lambda>p. p \<in> real_blocks s) bls)"
    and none: "\<forall>p \<in> set (drop (nat nc) bls) \<inter> real_blocks s. block_hash (heap s p) = None"
    and hb: "0 < hash_block_size s" "hash_block_size s dvd bs" "0 < bs" "0 \<le> nc"
    and room: "nf * bs \<le> int (length (block_hashes r)) * hash_block_size s"
  shows "\<exists>s'. cache_full_blocks use_int r bls nc nf bs g s = Inr s'"
proof (cases "nc \<ge> nf")
  case True
  then show ?thesis by (simp add: cache_full_blocks_def)
next
  case False
  let ?ps = "slice bls nc nf"
  have ps: "?ps = drop (nat nc) (take (nat nf) bls)" using False hb(4) by (simp add: slice_nonneg)
  obtain hs parent where hs: "new_block_hashes r nc bs s = Inr (hs, parent)" "nf \<le> nc + int (length hs)"
      "nc \<noteq> 0 \<Longrightarrow> \<exists>h. parent = Inr h" "nf \<le> int (length (block_hashes r))"
    using new_block_hashes_total [OF hb _ room] False by auto
  note R = pool_relD [OF rel]
  have sub': "set ?ps \<subseteq> set (blocks s)" using set_slice [of bls nc nf] sub by blast
  have "set ?ps \<subseteq> set (drop (nat nc) bls)" unfolding ps drop_take by (rule set_take_subset)
  moreover have "block_hash (heap s p) = None" if "p \<in> set (blocks s)" "p \<notin> real_blocks s" for p
    using that R(3) in_blocks [OF R(2)] by (auto simp: cache_ok_def)
  ultimately have none': "\<forall>p \<in> set ?ps. block_hash (heap s p) = None" using none sub' by blast
  have "take (nat nc) bls @ ?ps @ drop (nat nf - nat nc) (drop (nat nc) bls) = bls"
    unfolding ps drop_take by (metis append_take_drop_id)
  with dist have dist': "distinct (filter (\<lambda>p. p \<in> real_blocks s) ?ps)" by (metis distinct_append filter_append)
  have "length ?ps \<le> nat nf - nat nc" by (simp add: ps)
  then have len: "nat 0 + length ?ps \<le> length hs" using hs(2) hb(4) by linarith
  from cache_loop_total [OF R(2,3) sub' g dist' none' order_refl len, of use_int "[]"] obtain t acc where
    t: "foldE (cache_block_step use_int g hs) (zip [0..int (length ?ps) - 1] ?ps) (s, []) = Inr (t, acc)" by auto
  show ?thesis
  proof (cases "nc = 0")
    case True
    with False hs(1,4) t show ?thesis by (auto simp: cache_full_blocks_def Let_def)
  next
    case nz: False
    with hs(3) obtain h where "parent = Inr h" by blast
    with False nz hs(1,4) t show ?thesis by (auto simp: cache_full_blocks_def Let_def)
  qed
qed

subsection \<open>Which blocks are fresh\<close>

definition cached_upto :: "SingleTypeKVCacheManager \<Rightarrow> string \<Rightarrow> int" where
  "cached_upto m rid = (case map_of (num_cached_block m) rid of None \<Rightarrow> 0 | Some n \<Rightarrow> n)"

definition fresh_part :: "SingleTypeKVCacheManager \<Rightarrow> string \<Rightarrow> ptr list" where
  "fresh_part m rid = drop (nat (cached_upto m rid)) (blocks_of m rid)"

definition fresh :: "SingleTypeKVCacheManager \<Rightarrow> ptr \<Rightarrow> bool" where
  "fresh m p \<longleftrightarrow> (\<exists>rid. p \<in> set (fresh_part m rid))"

text \<open>
  One manager, among others that hold the blocks of \<open>F\<close> as fresh: no block is fresh twice, and fresh
  blocks have no hash.
\<close>

definition fresh_rel :: "(ptr \<Rightarrow> bool) \<Rightarrow> block_pool \<Rightarrow> SingleTypeKVCacheManager \<Rightarrow> bool" where
  "fresh_rel F s m \<longleftrightarrow> (\<forall>rid. 0 \<le> cached_upto m rid)
     \<and> (\<forall>p \<in> real_blocks s. \<forall>r r'. p \<in> set (fresh_part m r) \<longrightarrow> p \<in> set (fresh_part m r') \<longrightarrow> r = r')
     \<and> (\<forall>p \<in> real_blocks s. fresh m p \<longrightarrow> \<not> F p)
     \<and> (\<forall>p \<in> real_blocks s. F p \<or> fresh m p \<longrightarrow> block_hash (heap s p) = None)"

text \<open>How \<open>fresh_rel\<close> survives a change: what becomes fresh was free, and only blocks that are not fresh get a hash.\<close>

lemma fresh_rel_step:
  assumes rel: "fresh_rel F s m" and cfg: "same_config s s'" and nn: "0 \<le> cached_upto m' rid"
    and others: "\<And>r. r \<noteq> rid \<Longrightarrow> fresh_part m' r = fresh_part m r"
    and own: "\<And>p. p \<in> real_blocks s \<Longrightarrow> p \<in> set (fresh_part m' rid) \<Longrightarrow>
        p \<in> set (fresh_part m rid) \<or> \<not> F p \<and> \<not> fresh m p \<and> block_hash (heap s' p) = None"
    and upto: "\<And>r. r \<noteq> rid \<Longrightarrow> cached_upto m' r = cached_upto m r"
    and hash: "\<And>p. p \<in> real_blocks s \<Longrightarrow> F p \<or> fresh m' p \<Longrightarrow>
        block_hash (heap s' p) = block_hash (heap s p) \<or> block_hash (heap s' p) = None"
  shows "fresh_rel F s' m'"
proof -
  have old: "\<And>r. 0 \<le> cached_upto m r"
    "\<And>p r r'. p \<in> real_blocks s \<Longrightarrow> p \<in> set (fresh_part m r) \<Longrightarrow> p \<in> set (fresh_part m r') \<Longrightarrow> r = r'"
    "\<And>p. p \<in> real_blocks s \<Longrightarrow> fresh m p \<Longrightarrow> \<not> F p"
    "\<And>p. p \<in> real_blocks s \<Longrightarrow> F p \<or> fresh m p \<Longrightarrow> block_hash (heap s p) = None"
    using rel by (auto simp: fresh_rel_def)
  have part: "p \<in> set (fresh_part m r) \<or> r = rid \<and> \<not> F p \<and> \<not> fresh m p \<and> block_hash (heap s' p) = None"
    if "p \<in> real_blocks s" "p \<in> set (fresh_part m' r)" for p r
    using that others own by (cases "r = rid") auto
  have "0 \<le> cached_upto m' r" for r using old(1) nn upto by (cases "r = rid") auto
  moreover have "r = r'" if "p \<in> real_blocks s" "p \<in> set (fresh_part m' r)" "p \<in> set (fresh_part m' r')" for p r r'
    using part [OF that(1,2)] part [OF that(1,3)] old(2) [OF that(1)] unfolding fresh_def by blast
  moreover have "\<not> F p" if "p \<in> real_blocks s" "fresh m' p" for p
    using that part old(3) unfolding fresh_def by blast
  moreover have "block_hash (heap s' p) = None" if "p \<in> real_blocks s" "F p \<or> fresh m' p" for p
    using that part old(4) hash unfolding fresh_def by metis
  ultimately show ?thesis unfolding fresh_rel_def same_config_ok(2) [OF cfg] by blast
qed

subsection \<open>Each call of the coordinator\<close>

lemma free_not_fresh:
  assumes rel: "mgr_rel h s m" and F: "\<forall>p \<in> real_blocks s. F p \<longrightarrow> 0 < h p"
    and p: "p \<in> real_blocks s" "ref_cnt (heap s p) = 0"
  shows "\<not> F p \<and> \<not> fresh m p"
proof -
  have "p \<notin> set (blocks_of m r)" for r using held_pos [OF rel _ p(1)] p(2) by force
  then have "\<not> fresh m p" unfolding fresh_def fresh_part_def using in_set_dropD by metis
  moreover have "0 \<le> h p" "0 \<le> held m p" "ref_cnt (heap s p) = h p + held m p"
    using rel p(1) held_nonneg by (auto simp: mgr_rel_def refs_split_def)
  ultimately show ?thesis using F p by force
qed

lemma computed_call_fresh:
  assumes rel: "mgr_rel h s m" and ready: "hits_ready hits num_local num_external i s m"
    and F: "\<forall>p \<in> real_blocks s. F p \<longrightarrow> 0 < h p" and en: "enable_caching s" and fr: "fresh_rel F s m"
    and run: "computed_call use_int rid hits num_local num_external i s m = Inr (s', m', x)"
  shows "fresh_rel F s' m'"
proof (cases "s' = s \<and> m' = m")
  case False
  with computed_call_shape [OF rel ready run] obtain pre ext where
    e: "mgr_rel h s' m'" "same_config s s'" "same_others rid m m'" "blocks_of m' rid = pre @ ext"
      "map_of (num_cached_block m') = (map_of (num_cached_block m))(rid \<mapsto> int (length pre))"
      "set ext \<subseteq> {p \<in> real_blocks s. ref_cnt (heap s p) = 0}" "drops_hashes ext s s'"
    by (auto simp: new_entry_def)
  have upto: "cached_upto m' r = (if r = rid then int (length pre) else cached_upto m r)" for r
    by (simp add: cached_upto_def e(5))
  show ?thesis
  proof (rule fresh_rel_step [OF fr e(2), of m' rid])
    fix p assume p: "p \<in> real_blocks s" "p \<in> set (fresh_part m' rid)"
    then have "p \<in> set ext" by (simp add: fresh_part_def upto e(4))
    with free_not_fresh [OF rel F p(1)] e(6,7) en
    show "p \<in> set (fresh_part m rid) \<or> \<not> F p \<and> \<not> fresh m p \<and> block_hash (heap s' p) = None"
      by (auto simp: drops_hashes_def)
  qed (use e(3,7) in \<open>auto simp: upto fresh_part_def same_others_def drops_hashes_def\<close>)
qed (use fr in simp)

lemma new_blocks_call_fresh:
  assumes rel: "mgr_rel h s m" and ok: "class_ok m"
    and F: "\<forall>p \<in> real_blocks s. F p \<longrightarrow> 0 < h p" and en: "enable_caching s" and fr: "fresh_rel F s m"
    and run: "new_blocks_call use_int rid n main enc i s m = Inr (s', m', out)"
  shows "fresh_rel F s' m'"
proof -
  let ?n = "if mgr_class m = CrossAttentionManager then enc else n"
  have bs: "0 < mgr_block_size m" using ok by (simp add: class_ok_def)
  have "base_allocate_new_blocks use_int rid (slot_tokens m ?n) s m = Inr (s', m', out)"
    using run by (simp add: new_blocks_call_def class_ok_calls(2) [OF ok])
  with base_allocate_new_blocks_ok [OF rel bs, of "slot_tokens m ?n" rid use_int]
  have e: "same_config s s'" "num_cached_block m' = num_cached_block m"
      "\<And>r. blocks_of m' r = (if r = rid then blocks_of m r @ out else blocks_of m r)"
      "set out \<subseteq> {p \<in> real_blocks s. ref_cnt (heap s p) = 0}" "drops_hashes out s s'"
    by (fastforce split: if_splits)+
  have upto: "cached_upto m' r = cached_upto m r" for r by (simp add: cached_upto_def e(2))
  show ?thesis
  proof (rule fresh_rel_step [OF fr e(1), of m' rid])
    show "0 \<le> cached_upto m' rid" using fr by (simp add: fresh_rel_def upto)
    fix p assume p: "p \<in> real_blocks s" "p \<in> set (fresh_part m' rid)"
    then have "p \<in> set (fresh_part m rid) \<or> p \<in> set out" using in_set_dropD by (fastforce simp: fresh_part_def upto e(3))
    with free_not_fresh [OF rel F p(1)] e(4,5) en
    show "p \<in> set (fresh_part m rid) \<or> \<not> F p \<and> \<not> fresh m p \<and> block_hash (heap s' p) = None"
      by (auto simp: drops_hashes_def)
  qed (use e(3,5) in \<open>auto simp: upto fresh_part_def drops_hashes_def\<close>)
qed

lemma cache_call_fresh:
  assumes rel: "mgr_rel h s m" and fr: "fresh_rel F s m" and run: "cache_call use_int r n i s m = Inr (s', m', x)"
  shows "fresh_rel F s' m'"
proof -
  let ?rid = "request_id r" and ?nf = "n div mgr_block_size m"
  let ?bs = "blocks_of m (request_id r)"
  have keep: "same_config s s'" "\<And>q. blocks_of m' q = blocks_of m q"
    using cache_call_keeps [OF rel run] by (simp_all add: same_blocks_def)
  have nc: "0 \<le> cached_upto m q" for q using fr by (simp add: fresh_rel_def)
  show ?thesis
  proof (cases "cached_upto m ?rid \<ge> ?nf")
    case True
    then have "s' = s \<and> m' = m"
      using run by (auto simp: cache_call_def cache_blocks_def Let_def bindE_Inr_iff floordivE_Inr_iff cached_upto_def split: if_splits)
    with fr show ?thesis by simp
  next
    case False
    then have c: "cache_full_blocks use_int r ?bs (cached_upto m ?rid) ?nf (mgr_block_size m) (kv_cache_group_id m) s = Inr s'"
      and m': "num_cached_block m' = AList.update ?rid ?nf (num_cached_block m)"
      using run by (auto simp: cache_call_def cache_blocks_def Let_def bindE_Inr_iff floordivE_Inr_iff cached_upto_def split: if_splits)
    have upto: "cached_upto m' q = (if q = ?rid then ?nf else cached_upto m q)" for q
      by (simp add: cached_upto_def m' update_conv')
    let ?ps = "slice ?bs (cached_upto m ?rid) ?nf"
    have nf: "0 \<le> ?nf" "nat (cached_upto m ?rid) \<le> nat ?nf" using nc [of ?rid] False by simp_all
    have ps: "?ps = drop (nat (cached_upto m ?rid)) (take (nat ?nf) ?bs)" using nc [of ?rid] nf(1) by (simp add: slice_nonneg)
    have now: "p \<notin> set ?ps" if p: "p \<in> real_blocks s" "F p \<or> fresh m' p" for p
    proof
      assume in_ps: "p \<in> set ?ps"
      then have mine: "p \<in> set (fresh_part m ?rid)" unfolding ps fresh_part_def drop_take by (rule in_set_takeD)
      then have "\<not> F p" using fr p(1) unfolding fresh_rel_def fresh_def by blast
      with p(2) obtain q where q: "p \<in> set (fresh_part m' q)" by (auto simp: fresh_def)
      show False
      proof (cases "q = ?rid")
        case True
        have "p \<in> set (drop (nat ?nf) ?bs)" using q True by (simp add: fresh_part_def upto keep(2))
        moreover have "p \<in> set (take (nat ?nf) ?bs)" using in_ps unfolding ps by (rule in_set_dropD)
        moreover have "blocks_ok s (take (nat ?nf) ?bs @ drop (nat ?nf) ?bs)"
          using rel blocks_of_ok by (simp add: mgr_rel_def)
        ultimately show False using p(1) unfolding blocks_ok_append by blast
      next
        case False
        then have "p \<in> set (fresh_part m q)" using q by (simp add: fresh_part_def upto keep(2))
        with mine False show False using fr p(1) unfolding fresh_rel_def by blast
      qed
    qed
    show ?thesis
    proof (rule fresh_rel_step [OF fr keep(1), of m' ?rid])
      show "p \<in> set (fresh_part m ?rid) \<or> \<not> F p \<and> \<not> fresh m p \<and> block_hash (heap s' p) = None"
        if "p \<in> set (fresh_part m' ?rid)" for p
        using that set_drop_subset_set_drop [OF nf(2), of ?bs] by (auto simp: fresh_part_def upto keep(2))
    qed (use nf(1) now cache_full_blocks_frame [OF c] in \<open>auto simp: upto fresh_part_def keep(2)\<close>)
  qed
qed

lemma free_call_fresh:
  assumes rel: "mgr_rel h s m" and fr: "fresh_rel F s m" and run: "free_call rid i s m = Inr (s', m', x)"
  shows "fresh_rel F s' m'"
proof -
  from free_request_blocks_ok [OF rel, of rid] run
  have e: "same_config s s'" "\<And>r. blocks_of m' r = (if r = rid then [] else blocks_of m r)"
    "map_of (num_cached_block m') = (map_of (num_cached_block m))(rid := None)" "drops_hashes [] s s'"
    by (auto simp: free_call_def)
  have upto: "cached_upto m' r = (if r = rid then 0 else cached_upto m r)" for r
    by (simp add: cached_upto_def e(3))
  show ?thesis
    by (rule fresh_rel_step [OF fr e(1), of m' rid]) (use e(2,4) in \<open>auto simp: upto fresh_part_def drops_hashes_def\<close>)
qed

lemma skipped_call_fresh:
  assumes rel: "mgr_rel h s m" and ok: "class_ok m" "0 \<le> tot" and fr: "fresh_rel F s m"
    and run: "skipped_call rid tot i s m = Inr (s', m', x)"
  shows "fresh_rel F s' m'"
proof -
  have bs: "0 < mgr_block_size m" using ok by (simp add: class_ok_def)
  obtain k where k: "get_num_skipped_tokens m tot = Inr k" by (rule skipped_tokens_ok [OF ok])
  from base_remove_skipped_blocks_ok [OF rel bs k, of rid] obtain s1 m1 where
    b: "base_remove_skipped_blocks rid tot s m = Inr (s1, m1)" "same_config s s1" "same_mgr m m1"
      "num_cached_block m1 = num_cached_block m" "\<forall>p. block_hash (heap s1 p) = block_hash (heap s p)"
      "\<forall>r. r \<noteq> rid \<longrightarrow> blocks_of m1 r = blocks_of m r" "length (blocks_of m1 rid) = length (blocks_of m rid)"
      "\<forall>j < length (blocks_of m rid). blocks_of m1 rid ! j = blocks_of m rid ! j \<or> blocks_of m1 rid ! j = null_block s"
    by blast
  have "class_ok m1" using ok(1) same_mgr_class(1) [OF b(3)] by simp
  then have "remove_skipped_blocks rid tot s m = Inr (s1, m1)"
    using b(1) by (auto simp: remove_skipped_blocks_def class_ok_def split: manager_class.splits)
  then have e: "s' = s1" "m' = m1" using run by (auto simp: skipped_call_def)
  have upto: "cached_upto m1 r = cached_upto m r" for r by (simp add: cached_upto_def b(4))
  have nb: "null_block s \<notin> real_blocks s" using rel null_not_real by (simp add: mgr_rel_def)
  show ?thesis
  proof (rule fresh_rel_step [OF fr, of s' m' rid])
    show "0 \<le> cached_upto m' rid" using fr by (simp add: fresh_rel_def upto e)
    fix p assume p: "p \<in> real_blocks s" "p \<in> set (fresh_part m' rid)"
    then obtain j where j: "j < length (fresh_part m' rid)" "p = fresh_part m' rid ! j" by (metis in_set_conv_nth)
    let ?j = "nat (cached_upto m rid) + j"
    have l: "?j < length (blocks_of m rid)" using j(1) b(7) unfolding e fresh_part_def upto by simp
    have "p = blocks_of m1 rid ! ?j" using j b(7) unfolding e fresh_part_def upto by simp
    then have "p = blocks_of m rid ! ?j" using b(8) l p(1) nb by metis
    also have "\<dots> = fresh_part m rid ! j" using l by (simp add: fresh_part_def)
    finally have "p = fresh_part m rid ! j" .
    moreover have "j < length (fresh_part m rid)" using l by (simp add: fresh_part_def)
    ultimately have "p \<in> set (fresh_part m rid)" by (metis nth_mem)
    then show "p \<in> set (fresh_part m rid) \<or> \<not> F p \<and> \<not> fresh m p \<and> block_hash (heap s' p) = None" ..
  qed (use b(2,5,6) e in \<open>auto simp: upto fresh_part_def\<close>)
qed

lemma same_blocks_fresh:
  assumes "fresh_rel F s m" and "same_blocks m m'" and "num_cached_block m' = num_cached_block m"
  shows "fresh_rel F s m'"
proof -
  have "fresh_part m' = fresh_part m" "cached_upto m' = cached_upto m"
    using assms(2,3) by (auto simp: fresh_part_def cached_upto_def same_blocks_def fun_eq_iff)
  then show ?thesis using assms(1) by (simp add: fresh_rel_def fresh_def)
qed

subsection \<open>All managers together\<close>

definition any_fresh :: "SingleTypeKVCacheManager list \<Rightarrow> ptr \<Rightarrow> bool" where
  "any_fresh ms p \<longleftrightarrow> (\<exists>m \<in> set ms. fresh m p)"

fun fresh_all :: "(ptr \<Rightarrow> bool) \<Rightarrow> block_pool \<Rightarrow> SingleTypeKVCacheManager list \<Rightarrow> bool" where
  "fresh_all F s [] \<longleftrightarrow> (\<forall>p \<in> real_blocks s. F p \<longrightarrow> block_hash (heap s p) = None)"
| "fresh_all F s (m # ms) \<longleftrightarrow> fresh_rel (\<lambda>p. F p \<or> any_fresh ms p) s m \<and> fresh_all F s ms"

lemma any_fresh_simps [simp]: "\<not> any_fresh [] p" "any_fresh (m # ms) p \<longleftrightarrow> fresh m p \<or> any_fresh ms p"
  by (auto simp: any_fresh_def)

lemma fresh_relD:
  assumes "fresh_rel F s m" and "p \<in> real_blocks s"
  shows "fresh m p \<Longrightarrow> \<not> F p" and "F p \<or> fresh m p \<Longrightarrow> block_hash (heap s p) = None"
  using assms by (auto simp: fresh_rel_def)

text \<open>Replacing the set of others and the hashes.\<close>

lemma fresh_rel_change:
  assumes "fresh_rel F s m" and "same_config s s'" and "\<And>p. p \<in> real_blocks s \<Longrightarrow> fresh m p \<Longrightarrow> \<not> G p"
    and "\<And>p. p \<in> real_blocks s \<Longrightarrow> G p \<or> fresh m p \<Longrightarrow> block_hash (heap s' p) = None"
  shows "fresh_rel G s' m"
  using assms(1,3,4) unfolding fresh_rel_def same_config_ok(2) [OF assms(2)] by blast

lemma fresh_all_change:
  assumes "fresh_all F s ms" and "same_config s s'" and "\<And>p. p \<in> real_blocks s \<Longrightarrow> any_fresh ms p \<Longrightarrow> \<not> G p"
    and "\<And>p. p \<in> real_blocks s \<Longrightarrow> G p \<or> any_fresh ms p \<Longrightarrow> block_hash (heap s' p) = None"
  shows "fresh_all G s' ms"
  using assms(1,3,4)
proof (induction ms)
  case (Cons m ms)
  have rel: "fresh_rel (\<lambda>p. F p \<or> any_fresh ms p) s m" using Cons.prems(1) by simp
  have "fresh_rel (\<lambda>p. G p \<or> any_fresh ms p) s' m"
    by (rule fresh_rel_change [OF rel assms(2)]) (use fresh_relD(1) [OF rel] Cons.prems(2,3) in auto)
  moreover have "fresh_all G s' ms" by (rule Cons.IH) (use Cons.prems in auto)
  ultimately show ?case by simp
qed (simp add: same_config_ok [OF assms(2)])

lemma fresh_allD:
  assumes "fresh_all F s ms" and "p \<in> real_blocks s"
  shows "F p \<or> any_fresh ms p \<Longrightarrow> block_hash (heap s p) = None" and "any_fresh ms p \<Longrightarrow> \<not> F p"
  using assms by (induction ms) (auto dest: fresh_relD)

lemma any_fresh_held: "coord_rel h s ms \<Longrightarrow> p \<in> real_blocks s \<Longrightarrow> any_fresh ms p \<Longrightarrow> 0 < all_held ms p"
proof (induction ms arbitrary: h)
  case (Cons m ms)
  have wf: "mgr_wf s m" "coord_rel (\<lambda>p. h p + held m p) s ms"
    using Cons.prems(1) held_nonneg by (auto simp: coord_rel_def algebra_simps)
  show ?case
  proof (cases "fresh m p")
    case True
    then obtain r where "p \<in> set (blocks_of m r)" unfolding fresh_def fresh_part_def by (metis in_set_dropD)
    then have "0 < count_list (blocks_of m r) p" by (metis count_list_0_iff gr0I)
    with held_ge_count [OF wf(1), of r p] all_held_nonneg [of ms p] show ?thesis by simp
  next
    case False
    with Cons.IH [OF wf(2)] Cons.prems held_nonneg [of m p] show ?thesis by simp
  qed
qed simp

text \<open>A call that keeps fresh blocks fresh, and the loop over the managers.\<close>

locale fresh_call = manager_call call ready effect
  for call :: "int \<Rightarrow> block_pool \<Rightarrow> SingleTypeKVCacheManager \<Rightarrow> (block_pool \<times> SingleTypeKVCacheManager \<times> 'a) result"
    and ready effect +
  assumes keeps_fresh: "mgr_rel h s m \<Longrightarrow> ready i s m \<Longrightarrow> \<forall>p \<in> real_blocks s. F p \<longrightarrow> 0 < h p \<Longrightarrow> enable_caching s \<Longrightarrow>
      fresh_rel F s m \<Longrightarrow> call i s m = Inr (s', m', x) \<Longrightarrow> fresh_rel F s' m'"
begin

text \<open>After the call of the first manager, its fresh blocks join those of the others.\<close>

lemma pass_fresh:
  assumes rel0: "coord_rel h s (m # ms)" and ready: "ready i s m" and F: "\<forall>p \<in> real_blocks s. F p \<longrightarrow> 0 < h p"
    and en: "enable_caching s" and fr: "fresh_all F s (m # ms)" and run: "call i s m = Inr (s1, m', x)"
  shows "fresh_rel (\<lambda>p. F p \<or> any_fresh ms p) s1 m'" and "fresh_all (\<lambda>p. F p \<or> fresh m' p) s1 ms"
    and "\<forall>p \<in> real_blocks s1. F p \<or> fresh m' p \<longrightarrow> 0 < h p + held m' p" and "enable_caching s1"
    and "coord_rel (\<lambda>p. h p + held m' p) s1 ms" and "same_config s s1"
proof -
  have rel: "mgr_rel (\<lambda>p. h p + all_held ms p) s m" using rel0 by (simp add: coord_rel_Cons)
  have k: "mgr_rel (\<lambda>p. h p + all_held ms p) s1 m'" "same_config s s1" using keeps [OF rel ready run] by auto
  have sub: "coord_rel (\<lambda>p. h p + held m p) s ms"
    using rel0 held_nonneg by (auto simp: coord_rel_def algebra_simps)
  have hn: "0 \<le> h p" if "p \<in> real_blocks s" for p using rel0 that by (simp add: coord_rel_def)
  have "\<forall>p \<in> real_blocks s. F p \<or> any_fresh ms p \<longrightarrow> 0 < h p + all_held ms p"
    using F any_fresh_held [OF sub] hn all_held_nonneg [of ms] by (metis add_nonneg_pos add_pos_nonneg)
  from keeps_fresh [OF rel ready this en _ run] fr
  show own: "fresh_rel (\<lambda>p. F p \<or> any_fresh ms p) s1 m'" by simp
  show "fresh_all (\<lambda>p. F p \<or> fresh m' p) s1 ms"
  proof (rule fresh_all_change [OF _ k(2)])
    show "fresh_all F s ms" using fr by simp
    fix p assume p: "p \<in> real_blocks s"
    then have p': "p \<in> real_blocks s1" by (simp add: same_config_ok [OF k(2)])
    show "\<not> (F p \<or> fresh m' p)" if "any_fresh ms p"
      using that fresh_relD(1) [OF own p'] fresh_allD(2) [OF _ p, of F ms] fr by auto
    show "block_hash (heap s1 p) = None" if "(F p \<or> fresh m' p) \<or> any_fresh ms p"
      using that fresh_relD(2) [OF own p'] by blast
  qed
  show "\<forall>p \<in> real_blocks s1. F p \<or> fresh m' p \<longrightarrow> 0 < h p + held m' p"
  proof (intro ballI impI)
    fix p assume p: "p \<in> real_blocks s1" "F p \<or> fresh m' p"
    have "coord_rel (\<lambda>p. h p + all_held ms p) s1 [m']"
      using k(1) rel0 all_held_nonneg same_config_ok(2) [OF k(2)]
      by (auto simp: coord_rel_def mgr_rel_def refs_split_def algebra_simps)
    then have "fresh m' p \<Longrightarrow> 0 < held m' p" using any_fresh_held [of _ s1 "[m']" p] p(1) by simp
    then show "0 < h p + held m' p"
      using p F hn held_nonneg [of m' p] same_config_ok(2) [OF k(2)] by (metis add_nonneg_pos add_pos_nonneg)
  qed
  show "enable_caching s1" using en k(2) by (simp add: same_config_def)
  show "coord_rel (\<lambda>p. h p + held m' p) s1 ms" by (rule coord_rel_pass [OF rel0 k])
  show "same_config s s1" by (rule k(2))
qed

lemma each_fresh:
  assumes "coord_rel h s ms" and "\<And>k. k < length ms \<Longrightarrow> ready (i + int k) s (ms ! k)"
    and "\<forall>p \<in> real_blocks s. F p \<longrightarrow> 0 < h p" and "enable_caching s" and "fresh_all F s ms"
    and "each_manager call i s ms = Inr (s', ms', xs)"
  shows "fresh_all F s' ms'"
  using assms
proof (induction ms arbitrary: h F s i s' ms' xs)
  case (Cons m ms)
  from Cons.prems(6) obtain s1 m' x ms2 xs2 where c: "call i s m = Inr (s1, m', x)"
      "each_manager call (i + 1) s1 ms = Inr (s', ms2, xs2)" "ms' = m' # ms2"
    by (auto simp: bindE_Inr_iff split: prod.splits)
  have ready: "ready i s m" using Cons.prems(2) [of 0] by simp
  note own = pass_fresh [OF Cons.prems(1) ready Cons.prems(3-5) c(1)]
  have ready': "ready (i + 1 + int k) s1 (ms ! k)" if "k < length ms" for k
    using Cons.prems(2) [of "Suc k"] that by (auto simp: ready_config [OF own(6)] ac_simps)
  have rest: "fresh_all (\<lambda>p. F p \<or> fresh m' p) s' ms2" by (rule Cons.IH [OF own(5) ready' own(3,4,2) c(2)])
  have cfg: "same_config s1 s'" using each_keeps [OF own(5) ready' c(2)] by simp
  have "fresh_rel (\<lambda>p. F p \<or> any_fresh ms2 p) s' m'"
  proof (rule fresh_rel_change [OF own(1) cfg])
    fix p assume "p \<in> real_blocks s1"
    then have p: "p \<in> real_blocks s1" "p \<in> real_blocks s'" by (simp_all add: same_config_ok [OF cfg])
    show "\<not> (F p \<or> any_fresh ms2 p)" if "fresh m' p"
      using that fresh_relD(1) [OF own(1) p(1)] fresh_allD(2) [OF rest p(2)] by blast
    show "block_hash (heap s' p) = None" if "(F p \<or> any_fresh ms2 p) \<or> fresh m' p"
      using that fresh_allD(1) [OF rest p(2)] by blast
  qed
  moreover have "fresh_all F s' ms2"
    by (rule fresh_all_change [OF rest]) (use fresh_allD [OF rest] in auto)
  ultimately show ?case using c(3) by simp
qed auto

end

interpretation computed_fresh: fresh_call "computed_call use_int rid hits num_local num_external"
  "hits_ready hits num_local num_external" "\<lambda>s. same_others rid"
  for use_int rid hits num_local num_external
  by unfold_locales (rule computed_call_fresh)

interpretation allocating_fresh: fresh_call "new_blocks_call use_int rid n main enc" "\<lambda>i s m. class_ok m" "\<lambda>s. appended rid"
  for use_int rid n main enc
  by unfold_locales (rule new_blocks_call_fresh)

interpretation caching_fresh: fresh_call "cache_call use_int r n" "\<lambda>i s m. True" "\<lambda>s. same_blocks"
  for use_int r n
  by unfold_locales (rule cache_call_fresh)

interpretation freeing_fresh: fresh_call "free_call rid" "\<lambda>i s m. True" "\<lambda>s. released rid"
  for rid
  by unfold_locales (rule free_call_fresh)

interpretation skipping_fresh: fresh_call "skipped_call rid tot" "\<lambda>i s m. class_ok m \<and> 0 \<le> tot"
  "\<lambda>s. window_kept rid tot (null_block s)"
  for rid tot
  by unfold_locales (blast intro: skipped_call_fresh)

interpretation counting_fresh: fresh_call "count_call rid n hits enc tot main" "\<lambda>i s m. class_ok m" "\<lambda>s m m'. m' = m"
  for rid n hits enc tot main
  by unfold_locales (use count_call_keeps in blast)

interpretation prefixing_fresh: fresh_call "common_prefix_call rid" "\<lambda>i s m. True" "\<lambda>s. same_blocks"
  for rid
proof
  fix h s m i F s' m' x
  assume "fresh_rel F s m" and run: "common_prefix_call rid i s m = Inr (s', m', x)"
  moreover have "s' = s" "same_blocks m m'" "num_cached_block m' = num_cached_block m"
    using run by (auto simp: common_prefix_call_def get_num_common_prefix_blocks_def Let_def same_blocks_def split: if_splits)
  ultimately show "fresh_rel F s' m'" using same_blocks_fresh by blast
qed

subsection \<open>The coordinator and the cache manager\<close>

definition fresh_coord :: "KVCacheCoordinator \<Rightarrow> bool" where
  "fresh_coord c \<longleftrightarrow> (enable_caching (coord_pool c) \<longrightarrow> fresh_all (\<lambda>_. False) (coord_pool c) (single_type_managers c))"

context fresh_call
begin

lemma on_managers_fresh:
  assumes inv: "coord_inv c" and ready: "\<And>k. k < length (single_type_managers c) \<Longrightarrow> ready (int k) (coord_pool c) (single_type_managers c ! k)"
    and fr: "fresh_coord c" and run: "on_managers call c = Inr (c', xs)"
  shows "fresh_coord c'"
proof -
  have rel: "coord_rel (\<lambda>_. 0) (coord_pool c) (single_type_managers c)" using inv by (simp add: coord_inv_def)
  obtain s' ms' where e: "each_manager call 0 (coord_pool c) (single_type_managers c) = Inr (s', ms', xs)"
      "c' = c\<lparr>coord_pool := s', single_type_managers := ms'\<rparr>"
    using run by (auto simp: on_managers_def bindE_Inr_iff split: prod.splits)
  have "same_config (coord_pool c) s'" using each_keeps [OF rel _ e(1)] ready by simp
  then show ?thesis
    using each_fresh [OF rel _ _ _ _ e(1), of "\<lambda>_. False"] ready fr e(2) by (auto simp: fresh_coord_def same_config_def)
qed

end

lemma caching_fresh_coord:
  "coord_inv c \<Longrightarrow> fresh_coord c \<Longrightarrow> coordinator_cache_blocks use_int r n c = Inr c' \<Longrightarrow> fresh_coord c'"
  using caching_fresh.on_managers_fresh [of c use_int r n c']
  by (auto simp: coordinator_cache_blocks_def bindE_Inr_iff)

lemma commit_fresh:
  assumes inv: "coord_inv (coordinator k)" "coord_inv c" "same_coord (coordinator k) c" "fresh_coord c"
    and fits: "request_fits k (group_blocks given) num_local num_external"
    and run: "commit_slots use_int r given num_local num_external need main enc delay k c = Inr (k', res)"
  shows "fresh_coord (coordinator k')"
proof -
  from run obtain c3 where
    c3: "(if given \<noteq> empty_kv_cache_blocks k \<or> num_external > 0
          then coordinator_allocate_new_computed_blocks use_int (request_id r) (group_blocks given) num_local num_external c
          else Inr c) = Inr c3"
    unfolding commit_slots_def by (auto simp: bindE_Inr_iff)
  from run c3 obtain c4 new where
    c4: "coordinator_allocate_new_blocks use_int (request_id r) need main enc c3 = Inr (c4, new)"
    and c5: "coordinator k' = c4 \<or> coordinator_cache_blocks use_int r (min main (num_tokens r)) c4 = Inr (coordinator k')"
    unfolding commit_slots_def c3 by (auto simp: bindE_Inr_iff split: if_splits)
  have k3: "coord_inv c3 \<and> fresh_coord c3"
    using c3 inv computed.on_managers_keeps [OF inv(2), of "group_blocks given" num_local num_external use_int "request_id r"]
      computed_fresh.on_managers_fresh [OF inv(2), of "group_blocks given" num_local num_external use_int "request_id r"]
      hits_ready_fits [OF fits inv(1) inv(3,2)]
    by (auto simp: coordinator_allocate_new_computed_blocks_def bindE_Inr_iff split: if_splits)
  then have k4: "coord_inv c4 \<and> fresh_coord c4"
    using c4 allocating.on_managers_keeps [of c3 use_int "request_id r" need main enc c4 new]
      allocating_fresh.on_managers_fresh [of c3 use_int "request_id r" need main enc c4 new]
    by (auto simp: coordinator_allocate_new_blocks_def coord_inv_def)
  with c5 caching_fresh_coord show ?thesis by blast
qed

lemma skipped_fresh_coord:
  "coord_inv c \<Longrightarrow> 0 \<le> tot \<Longrightarrow> fresh_coord c \<Longrightarrow> coordinator_remove_skipped_blocks rid tot c = Inr c' \<Longrightarrow> fresh_coord c'"
  using skipping_fresh.on_managers_fresh [of c tot rid c']
  by (auto simp: coordinator_remove_skipped_blocks_def bindE_Inr_iff coord_inv_def)

lemma counting_fresh_coord:
  "coord_inv c \<Longrightarrow> fresh_coord c \<Longrightarrow> coordinator_get_num_blocks_to_allocate rid n hits enc tot main c = Inr (c', num) \<Longrightarrow> fresh_coord c'"
  using counting_fresh.on_managers_fresh [of c rid n hits enc tot main c']
  by (auto simp: coordinator_get_num_blocks_to_allocate_def bindE_Inr_iff coord_inv_def)

lemma allocate_slots_fresh:
  assumes inv: "kvm_inv k" "fresh_coord (coordinator k)"
    and fits: "request_fits k (group_blocks (case given of None \<Rightarrow> empty_kv_cache_blocks k | Some b \<Rightarrow> b))
      (num_computed_tokens r + num_new_computed) num_external"
    and run: "allocate_slots use_int r n num_new_computed given lookahead num_external delay enc k = Inr (k', res)"
  shows "fresh_coord (coordinator k')"
proof -
  define g where "g = (case given of None \<Rightarrow> empty_kv_cache_blocks k | Some b \<Rightarrow> b)"
  let ?local = "num_computed_tokens r + num_new_computed"
  define tot where "tot = min (?local + num_external) (kvm_max_model_len k)"
  define need where "need = min (tot + n + lookahead) (kvm_max_model_len k)"
  have tot: "0 \<le> tot" using fits by (simp add: request_fits_def tot_def)
  have inv0: "coord_inv (coordinator k)" using inv by (simp add: kvm_inv_def)
  from run obtain c1 c2 num where
    c1: "coordinator_remove_skipped_blocks (request_id r) tot (coordinator k) = Inr c1"
    and c2: "coordinator_get_num_blocks_to_allocate (request_id r) need (group_blocks g) enc (?local + num_external) (tot + n) c1
        = Inr (c2, num)"
    and rest: "k' = k\<lparr>coordinator := c2\<rparr>
       \<or> commit_slots use_int r g ?local num_external need (tot + n) enc delay k c2 = Inr (k', res)"
    unfolding allocate_slots_def Let_def g_def [symmetric] tot_def [symmetric] need_def [symmetric]
    by (auto simp: bindE_Inr_iff split: if_splits)
  have i1: "coord_inv c1" "same_coord (coordinator k) c1" using skipped_keeps [OF inv0 tot c1] by simp_all
  have k2: "coord_inv c2 \<and> same_coord (coordinator k) c2"
    using counting_keeps [OF i1(1) c2] i1(2) by (auto intro: same_coord_trans)
  have "fresh_coord c2" using counting_fresh_coord [OF i1(1) skipped_fresh_coord [OF inv0 tot inv(2) c1] c2] .
  with rest show ?thesis using k2 commit_fresh [OF inv0 _ _ _ fits [folded g_def]] by auto
qed

text \<open>Dropping hashes, and keeping the managers, keeps the invariant.\<close>

lemma fresh_coord_drop:
  assumes "fresh_coord c" and "same_config (coord_pool c) s"
    and "\<And>p. p \<in> real_blocks (coord_pool c) \<Longrightarrow> block_hash (heap s p) = block_hash (heap (coord_pool c) p) \<or> block_hash (heap s p) = None"
  shows "fresh_coord (c\<lparr>coord_pool := s\<rparr>)"
proof -
  have "fresh_all (\<lambda>_. False) s (single_type_managers c)" if f: "fresh_all (\<lambda>_. False) (coord_pool c) (single_type_managers c)"
    by (rule fresh_all_change [OF f assms(2)]) (use assms(3) fresh_allD [OF f] in metis)+
  with assms(1,2) show ?thesis by (auto simp: fresh_coord_def same_config_def)
qed

lemma evict_blocks_frame:
  assumes "evict_blocks use_int ids s = Inr s'"
  shows "block_hash (heap s' p) = block_hash (heap s p) \<or> block_hash (heap s' p) = None"
proof (rule foldE_invariant [OF assms [unfolded evict_blocks_def]])
  fix bid t t'
  assume t: "block_hash (heap t p) = block_hash (heap s p) \<or> block_hash (heap t p) = None"
    and step: "assertE (bid < int (length (blocks t)))
      (bindE (index_py (blocks t) bid) (\<lambda>q. Inr (fst (maybe_evict_cached_block use_int q t)))) = Inr t'"
  then obtain q where "t' = fst (maybe_evict_cached_block use_int q t)" by (auto simp: assertE_def bindE_Inr_iff split: if_splits)
  then have "block_hash (heap t' p) = block_hash (heap t p) \<or> block_hash (heap t' p) = None"
    by (auto simp: maybe_evict_cached_block_def reset_hash_def Let_def split: option.splits prod.splits)
  with t show "block_hash (heap t' p) = block_hash (heap s p) \<or> block_hash (heap t' p) = None" by auto
qed simp

subsection \<open>Every reachable state\<close>

definition kvm_fresh :: "KVCacheManager \<Rightarrow> bool" where
  "kvm_fresh k \<longleftrightarrow> fresh_coord (coordinator k) \<and> (kvm_enable_caching k \<longrightarrow> enable_caching (kvm_pool k))"

lemma same_coord_pool: "same_config (coord_pool c) s \<Longrightarrow> same_coord c (c\<lparr>coord_pool := s\<rparr>)"
  by (simp add: same_coord_def list_all2_refl)

lemma commit_fields: "commit_slots use_int r given l e need main enc delay k c = Inr (k', res) \<Longrightarrow>
    kvm_enable_caching k' = kvm_enable_caching k"
  by (auto simp: commit_slots_def bindE_Inr_iff split: if_splits)

lemma allocate_fields: "allocate_slots use_int r n nc given look e delay enc k = Inr (k', res) \<Longrightarrow>
    kvm_enable_caching k' = kvm_enable_caching k"
  by (auto simp: allocate_slots_def Let_def bindE_Inr_iff dest: commit_fields split: if_splits)

lemma same_coord_caching: "same_coord c c' \<Longrightarrow> enable_caching (coord_pool c') = enable_caching (coord_pool c)"
  by (simp add: same_coord_def same_config_def)

lemma kvm_pool_ok:
  assumes "kvm_inv k"
  obtains xs where "pool_rel (kvm_pool k) xs"
  using assms by (auto simp: kvm_inv_def coord_inv_def coord_rel_def pool_inv_def kvm_pool_def)

lemma kvm_step_fresh:
  assumes "kvm_step use_int k k'" and "kvm_inv k" and "kvm_fresh k"
  shows "kvm_fresh k' \<and> same_coord (coordinator k) (coordinator k') \<and> kvm_enable_caching k' = kvm_enable_caching k"
proof -
  have inv: "coord_inv (coordinator k)" and fr: "fresh_coord (coordinator k)" using assms(2,3) by (simp_all add: kvm_inv_def kvm_fresh_def)
  have "fresh_coord (coordinator k') \<and> same_coord (coordinator k) (coordinator k') \<and> kvm_enable_caching k' = kvm_enable_caching k"
    using assms(1)
  proof cases
    case (step_lookup r b n)
    then have "coordinator k' = coordinator k" "kvm_enable_caching k' = kvm_enable_caching k"
      by (auto simp: get_computed_blocks_def bindE_Inr_iff split: if_splits option.splits)
    with fr show ?thesis by simp
  next
    case (step_allocate given r new_computed num_external n lookahead delay enc res)
    then show ?thesis
      using allocate_slots_keeps [OF assms(2) step_allocate] allocate_slots_fresh [OF assms(2) fr step_allocate]
        allocate_fields [OF step_allocate(2)] by simp
  next
    case (step_free r)
    then obtain c where c: "coordinator_free (request_id r) (coordinator k) = Inr c" "k' = k\<lparr>coordinator := c\<rparr>"
      by (auto simp: kvm_free_def bindE_Inr_iff)
    with freeing_keeps [OF inv, of "request_id r"] freeing_fresh.on_managers_fresh [OF inv _ fr, of "request_id r"]
    show ?thesis by (auto simp: coordinator_free_def bindE_Inr_iff)
  next
    case (step_skip tot rid)
    then show ?thesis using skipped_keeps [OF inv] skipped_fresh_coord [OF inv _ fr]
      by (auto simp: kvm_remove_skipped_blocks_def bindE_Inr_iff)
  next
    case (step_cache r n)
    then show ?thesis using caching_keeps [OF inv] caching_fresh_coord [OF inv fr] fr
      by (auto simp: kvm_cache_blocks_def bindE_Inr_iff split: if_splits)
  next
    case (step_evict ids)
    then obtain s where s: "evict_blocks use_int ids (kvm_pool k) = Inr s" "k' = set_pool s k"
      by (auto simp: kvm_evict_blocks_def bindE_Inr_iff kvm_pool_def)
    obtain xs where "pool_rel (kvm_pool k) xs" using kvm_pool_ok [OF assms(2)] by blast
    then have cfg: "same_config (coord_pool (coordinator k)) s" using evict_blocks_ok [OF _ s(1)] by (simp add: kvm_pool_def)
    from fresh_coord_drop [OF fr cfg] evict_blocks_frame [OF s(1)] show ?thesis
      using same_coord_pool [OF cfg] by (auto simp: s(2) set_pool_def kvm_pool_def)
  next
    case (step_reset ok)
    let ?s = "fst (reset_prefix_cache (kvm_pool k))"
    obtain xs where xs: "pool_rel (kvm_pool k) xs" using kvm_pool_ok [OF assms(2)] by blast
    have cfg: "same_config (coord_pool (coordinator k)) ?s" using reset_prefix_cache_ok(4) [OF xs] by (simp add: kvm_pool_def)
    have "block_hash (heap ?s p) = block_hash (heap (coord_pool (coordinator k)) p) \<or> block_hash (heap ?s p) = None" for p
      using reset_prefix_cache_ok(2) [OF xs] reset_prefix_cache_ok(3) [OF xs, of p] by (cases "snd (reset_prefix_cache (kvm_pool k))") (auto simp: kvm_pool_def)
    note dropped = fresh_coord_drop [OF fr cfg this]
    have "coordinator k' = (coordinator k)\<lparr>coord_pool := ?s\<rparr>" "kvm_enable_caching k' = kvm_enable_caching k"
      using step_reset
      by (auto simp: kvm_reset_prefix_cache_def Let_def kvm_pool_def set_pool_def split: prod.splits if_splits option.splits)
    with dropped same_coord_pool [OF cfg] show ?thesis by simp
  next
    case (step_common rid ns)
    then show ?thesis using prefixing.on_managers_keeps [OF inv] prefixing_fresh.on_managers_fresh [OF inv _ fr] fr
      by (auto simp: kvm_get_num_common_prefix_blocks_def coordinator_get_num_common_prefix_blocks_def bindE_Inr_iff split: if_splits)
  next
    case (step_events evs)
    then obtain s where s: "take_events (kvm_pool k) = (s, evs)" "k' = set_pool s k"
      by (auto simp: kvm_take_events_def kvm_pool_def split: prod.splits)
    have "heap s = heap (kvm_pool k)" using s(1) by (auto simp: take_events_def split: if_splits)
    with fresh_coord_drop [OF fr, of s] take_events_ok(2) [OF s(1)] same_coord_pool [of "coordinator k" s] show ?thesis
      by (simp add: s(2) set_pool_def kvm_pool_def)
  next
    case (step_stats st)
    then show ?thesis using fr by (auto simp: make_prefix_cache_stats_def split: if_splits)
  qed
  with assms(3) show ?thesis by (auto simp: kvm_fresh_def kvm_pool_def same_coord_caching)
qed

lemma get_coordinator_caching:
  assumes "get_kv_cache_coordinator config use_eagle caching evs dcp pcp hbs = Inr c"
  shows "\<exists>cls caching' c0. coordinator_init cls config use_eagle caching' evs dcp pcp hbs = Inr c0
    \<and> coord_pool c = coord_pool c0 \<and> single_type_managers c = single_type_managers c0 \<and> (caching \<longrightarrow> caching')"
  using assms
  by (auto simp: get_kv_cache_coordinator_def no_prefix_cache_init_def unitary_init_def hybrid_init_def bindE_Inr_iff
      Let_def split: if_splits) metis+

lemma kvm_init_fresh:
  assumes "kv_cache_manager_init config max_len hbs caching use_eagle stats evs dcp pcp = Inr k"
    and "\<forall>m \<in> set (kvm_managers k). class_ok m"
  shows "kvm_fresh k"
proof -
  from assms(1) have c: "get_kv_cache_coordinator config use_eagle caching evs dcp pcp hbs = Inr (coordinator k)"
      and kc: "kvm_enable_caching k = caching"
    by (auto simp: kv_cache_manager_init_def bindE_Inr_iff)
  then obtain cls c0 caching' where c0: "coordinator_init cls config use_eagle caching' evs dcp pcp hbs = Inr c0"
      "coord_pool (coordinator k) = coord_pool c0" "single_type_managers (coordinator k) = single_type_managers c0"
      "caching \<longrightarrow> caching'"
    using get_coordinator_caching by blast
  from c0(1) obtain s s' ms where i: "block_pool_init (num_blocks config) caching' hbs evs = Inr s"
      "make_managers caching' dcp pcp 0 (kv_cache_groups config) s = Inr (s', ms)" "coord_pool c0 = s'" "single_type_managers c0 = ms"
    by (auto simp: coordinator_init_def bindE_Inr_iff)
  have ms: "s' = s" "\<And>m. m \<in> set ms \<Longrightarrow> req_to_blocks m = [] \<and> num_cached_block m = []"
    using make_managers_fresh [OF i(2)] assms(2) i(4) c0(3) by (auto simp: kvm_managers_def)
  have none: "\<not> fresh m p" "fresh_rel (\<lambda>_. False) s m" if "m \<in> set ms" for m p
    using ms(2) [OF that] by (simp_all add: fresh_rel_def fresh_def fresh_part_def cached_upto_def blocks_of_def)
  then have "\<not> any_fresh ms p" for p by (simp add: any_fresh_def)
  have "fresh_all (\<lambda>_. False) s ms'" if "set ms' \<subseteq> set ms" for ms'
    using that
  proof (induction ms')
    case (Cons m ms')
    have "\<not> any_fresh ms' p" for p using Cons.prems none(1) by (auto simp: any_fresh_def)
    with Cons none(2) show ?case by simp
  qed simp
  then have "fresh_coord (coordinator k)" using c0(2,3) i(3,4) ms(1) by (simp add: fresh_coord_def)
  moreover have "enable_caching s = caching'"
  proof -
    have "0 < num_blocks config" using i(1) by (simp add: block_pool_init_def assertE_def split: if_splits)
    from block_pool_init_rel [OF this, of caching' hbs evs] i(1) show ?thesis by auto
  qed
  ultimately show ?thesis using c0(2,4) i(3) ms(1) kc by (simp add: kvm_fresh_def kvm_pool_def)
qed

lemma kvm_reach_fresh: "kvm_reach use_int k \<Longrightarrow> kvm_fresh k"
  by (induction rule: kvm_reach.induct) (use kvm_init_fresh kvm_step_fresh kvm_reach_inv in blast)+

subsection \<open>Caching does not raise\<close>

text \<open>
  What caching the tokens of a request asks of a cache group: its block size is made of hash blocks, its
  id has four bytes, and all full hash blocks of the request are hashed.
\<close>

definition cacheable :: "Request \<Rightarrow> block_pool \<Rightarrow> SingleTypeKVCacheManager \<Rightarrow> bool" where
  "cacheable r s m \<longleftrightarrow> mgr_class m \<noteq> CrossAttentionManager \<and> 0 < mgr_block_size m
     \<and> 0 \<le> kv_cache_group_id m \<and> kv_cache_group_id m < 2 ^ 32
     \<and> 0 < hash_block_size s \<and> hash_block_size s dvd mgr_block_size m
     \<and> num_tokens r div hash_block_size s \<le> int (length (block_hashes r))"

lemma cacheable_config: "same_config s s' \<Longrightarrow> same_mgr m m' \<Longrightarrow> cacheable r s' m' = cacheable r s m"
  by (simp add: cacheable_def same_config_def same_mgr_def)

lemma cache_call_total:
  assumes rel: "mgr_rel h s m" and fr: "fresh_rel F s m" and ok: "cacheable r s m" and n: "n \<le> num_tokens r"
  shows "\<exists>s' m' x. cache_call use_int r n i s m = Inr (s', m', x)"
proof -
  let ?bs = "mgr_block_size m" and ?hbs = "hash_block_size s" and ?rid = "request_id r"
  have o: "mgr_class m \<noteq> CrossAttentionManager" "0 < ?bs" "0 \<le> kv_cache_group_id m" "kv_cache_group_id m < 2 ^ 32"
    "0 < ?hbs" "?hbs dvd ?bs" "num_tokens r div ?hbs \<le> int (length (block_hashes r))"
    using ok by (simp_all add: cacheable_def)
  obtain xs where xs: "pool_rel s xs" using rel by (auto simp: mgr_rel_def pool_inv_def)
  have blk: "blocks_ok s (blocks_of m ?rid)" using rel blocks_of_ok by (simp add: mgr_rel_def)
  obtain f where f: "?bs = ?hbs * f" using o(6) by (elim dvdE)
  have "n div ?bs * f * ?hbs \<le> num_tokens r"
  proof -
    have "n div ?bs * ?bs \<le> n" using int_le_div_iff [OF o(2), of "n div ?bs" n] by simp
    then show ?thesis using n f by (simp add: ac_simps)
  qed
  then have "n div ?bs * f \<le> num_tokens r div ?hbs" using int_le_div_iff [OF o(5)] by blast
  then have "n div ?bs * f * ?hbs \<le> int (length (block_hashes r)) * ?hbs" using o(5,7) by (intro mult_right_mono) auto
  then have room: "n div ?bs * ?bs \<le> int (length (block_hashes r)) * ?hbs" by (simp add: f ac_simps)
  have fresh: "\<forall>p \<in> set (drop (nat (cached_upto m ?rid)) (blocks_of m ?rid)) \<inter> real_blocks s. block_hash (heap s p) = None"
    using fr unfolding fresh_rel_def fresh_def fresh_part_def by blast
  have "0 \<le> cached_upto m ?rid" using fr by (simp add: fresh_rel_def)
  from cache_full_blocks_total [OF xs _ o(3,4) _ fresh o(5,6,2) this room] blk obtain s' where
    "cache_full_blocks use_int r (blocks_of m ?rid) (cached_upto m ?rid) (n div ?bs) ?bs (kv_cache_group_id m) s = Inr s'"
    by (auto simp: blocks_ok_def)
  then show ?thesis using o(1,2) by (simp add: cache_call_def cache_blocks_def Let_def cached_upto_def floordivE_def)
qed

lemma cache_each_total:
  assumes "coord_rel h s ms" and "\<forall>m \<in> set ms. cacheable r s m" and "n \<le> num_tokens r"
    and "\<forall>p \<in> real_blocks s. F p \<longrightarrow> 0 < h p" and "enable_caching s" and "fresh_all F s ms"
  shows "\<exists>s' ms' xs. each_manager (cache_call use_int r n) i s ms = Inr (s', ms', xs)"
  using assms
proof (induction ms arbitrary: h F s i)
  case (Cons m ms)
  have rel: "mgr_rel (\<lambda>p. h p + all_held ms p) s m" using Cons.prems(1) by (simp add: coord_rel_Cons)
  obtain s1 m' x where c: "cache_call use_int r n i s m = Inr (s1, m', x)"
    using cache_call_total [OF rel _ _ Cons.prems(3)] Cons.prems(2,6) by fastforce
  note own = caching_fresh.pass_fresh [OF Cons.prems(1) TrueI Cons.prems(4-6) c]
  have "\<forall>m \<in> set ms. cacheable r s1 m" using Cons.prems(2) cacheable_config [OF own(6) same_mgr_refl] by simp
  from Cons.IH [OF own(5) this Cons.prems(3) own(3,4,2), of "i + 1"] obtain s' ms' xs where
    "each_manager (cache_call use_int r n) (i + 1) s1 ms = Inr (s', ms', xs)" by blast
  with c show ?case by simp
qed simp

lemma cache_all:
  assumes inv: "coord_inv c" and fr: "fresh_coord c" and en: "enable_caching (coord_pool c)"
    and ok: "\<forall>m \<in> set (single_type_managers c). cacheable r (coord_pool c) m" and n: "n \<le> num_tokens r"
  shows "\<exists>c'. coordinator_cache_blocks use_int r n c = Inr c' \<and> coord_inv c' \<and> same_coord c c'
    \<and> list_all2 same_blocks (single_type_managers c) (single_type_managers c')"
proof -
  have rel: "coord_rel (\<lambda>_. 0) (coord_pool c) (single_type_managers c)" using inv by (simp add: coord_inv_def)
  have "fresh_all (\<lambda>_. False) (coord_pool c) (single_type_managers c)" using fr en by (simp add: fresh_coord_def)
  from cache_each_total [OF rel ok n _ en this, of use_int 0] obtain c' xs where
    run: "on_managers (cache_call use_int r n) c = Inr (c', xs)" by (auto simp: on_managers_def)
  with caching.on_managers_keeps [OF inv TrueI run] show ?thesis by (auto simp: coordinator_cache_blocks_def)
qed
end
