(* ===== verification/Kv_Allocation.thy ===== *)
theory Kv_Allocation
  imports Fresh_Blocks
begin

section \<open>Allocation of slots\<close>

text \<open>
  \<open>allocate_slots\<close> first counts the blocks it needs, compares with the free blocks, and then allocates in
  two stages. Here the count is shown to equal what the stages take (at least, when hits are
  shared between groups), so that nothing raises after the check. The properties of the cache
  manager follow, and a case in which two groups end up with the same block.
\<close>

subsection \<open>Counted blocks are enough for all groups\<close>

lemma base_count_more:
  assumes ok: "class_ok m" and tot: "0 \<le> tot"
    and running: "map_of (num_cached_block m) rid \<noteq> None \<or> skip_count m tot \<le> int (length (blocks_of m rid))"
  shows "base_num_blocks_to_allocate m rid n_tokens [] tot s =
    Inr (max (cdiv n_tokens (mgr_block_size m) - int (length (blocks_of m rid))) 0)"
proof -
  let ?bs = "mgr_block_size m"
  have bs: "0 < ?bs" using ok by (simp add: class_ok_def)
  obtain sk where sk: "get_num_skipped_tokens m tot = Inr sk" by (rule skipped_tokens_ok [OF ok tot])
  show ?thesis
  proof (cases "map_of (num_cached_block m) rid = None")
    case True
    with running have "max (sk div ?bs) (int (length (blocks_of m rid))) = int (length (blocks_of m rid))"
      by (simp add: skip_count_def sk)
    with bs True sk show ?thesis
      by (simp add: base_num_blocks_to_allocate_def Let_def get_num_evictable_blocks_def slice_from_def cdivE_def)
  qed (use bs in \<open>auto simp: base_num_blocks_to_allocate_def Let_def cdivE_def\<close>)
qed

definition group_tokens :: "int \<Rightarrow> int \<Rightarrow> SingleTypeKVCacheManager \<Rightarrow> int" where
  "group_tokens n enc m = slot_tokens m (if mgr_class m = CrossAttentionManager then enc else n)"

text \<open>How many blocks the request still lacks in one group.\<close>

definition missing :: "string \<Rightarrow> int \<Rightarrow> int \<Rightarrow> SingleTypeKVCacheManager \<Rightarrow> int" where
  "missing rid n enc m = max (cdiv (group_tokens n enc m) (mgr_block_size m) - int (length (blocks_of m rid))) 0"

lemma missing_nonneg: "0 \<le> sum_list (map (missing rid n enc) ms)"
  by (rule sum_list_nonneg) (auto simp: missing_def)

lemma allocate_each:
  assumes "coord_rel h s ms" and "\<forall>m \<in> set ms. class_ok m"
    and "sum_list (map (missing rid n enc) ms) \<le> num_free_blocks s"
  shows "\<exists>s' ms' outs. each_manager (new_blocks_call use_int rid n main enc) i s ms = Inr (s', ms', outs)
    \<and> list_all2 (\<lambda>m m'. cdiv (group_tokens n enc m) (mgr_block_size m) \<le> int (length (blocks_of m' rid))) ms ms'"
  using assms
proof (induction ms arbitrary: h s i)
  case (Cons m ms)
  have ok: "class_ok m" and bs: "0 < mgr_block_size m" using Cons.prems(2) by (simp_all add: class_ok_def)
  have rel: "mgr_rel (\<lambda>p. h p + all_held ms p) s m" using Cons.prems(1) by (simp add: coord_rel_Cons)
  let ?T = "group_tokens n enc m"
  have room: "cdiv ?T (mgr_block_size m) - int (length (blocks_of m rid)) \<le> num_free_blocks s
      \<or> cdiv ?T (mgr_block_size m) - int (length (blocks_of m rid)) \<le> 0"
    using Cons.prems(3) missing_nonneg [of rid n enc ms] by (auto simp: missing_def [of rid n enc m])
  obtain s1 m1 out where a: "base_allocate_new_blocks use_int rid ?T s m = Inr (s1, m1, out)"
      "mgr_rel (\<lambda>p. h p + all_held ms p) s1 m1" "same_config s s1" "num_free_blocks s1 = num_free_blocks s - missing rid n enc m"
      "cdiv ?T (mgr_block_size m) \<le> int (length (blocks_of m1 rid))"
    using base_allocate_new_blocks_ok [OF rel bs, of ?T rid use_int] room by (auto simp: missing_def [of rid n enc m])
  have "sum_list (map (missing rid n enc) ms) \<le> num_free_blocks s1" using Cons.prems(3) a(4) by simp
  from Cons.IH [OF coord_rel_pass [OF Cons.prems(1) a(2,3)] _ this, where i = "i + 1"] Cons.prems(2) obtain s' ms' outs where
    "each_manager (new_blocks_call use_int rid n main enc) (i + 1) s1 ms = Inr (s', ms', outs)"
    "list_all2 (\<lambda>m m'. cdiv (group_tokens n enc m) (mgr_block_size m) \<le> int (length (blocks_of m' rid))) ms ms'"
    by auto
  moreover have "new_blocks_call use_int rid n main enc i s m = Inr (s1, m1, out)"
    using a(1) by (simp add: new_blocks_call_def class_ok_calls(2) [OF ok] group_tokens_def)
  ultimately show ?case using a(5) by auto
qed auto

text \<open>What the hits and the externally computed tokens cost in one group.\<close>

definition hit_cost :: "int \<Rightarrow> int \<Rightarrow> block_pool \<Rightarrow> SingleTypeKVCacheManager \<Rightarrow> ptr list \<Rightarrow> int" where
  "hit_cost num_local num_external s m hits = (if mgr_class m = CrossAttentionManager then 0
     else external_blocks m num_local num_external hits
       + get_num_evictable_blocks (kept_hits m (num_local + num_external) hits) s)"

definition fresh_request :: "string \<Rightarrow> int \<Rightarrow> int \<Rightarrow> block_pool \<Rightarrow> SingleTypeKVCacheManager \<Rightarrow> ptr list \<Rightarrow> bool" where
  "fresh_request rid num_local num_external s m hits \<longleftrightarrow>
     blocks_ok s hits \<and> int (length hits) * mgr_block_size m \<le> num_local
     \<and> (if mgr_class m = CrossAttentionManager then hits = []
        else map_of (num_cached_block m) rid = None \<and> blocks_of m rid = [] \<and> (mgr_enable_caching m \<or> hits = []))"

lemma length_filter_mono:
  "(\<And>x. x \<in> set xs \<Longrightarrow> P x \<Longrightarrow> Q x) \<Longrightarrow> length (filter P xs) \<le> length (filter Q xs)"
  by (induction xs) (auto simp: le_SucI)

lemma evictable_mono:
  assumes "same_config s s'" and "\<And>p. ref_cnt (heap s p) \<le> ref_cnt (heap s' p)"
    and "pool_inv s" and "blocks_ok s bs"
  shows "get_num_evictable_blocks bs s' \<le> get_num_evictable_blocks bs s"
proof -
  have nonneg: "0 \<le> ref_cnt (heap s p)" if "p \<in> real_blocks s" for p
    using assms(3) that by (auto simp: pool_inv_def pool_rel_def refs_ok_def)
  have sub: "p \<in> set bs \<Longrightarrow> \<not> is_null (heap s p) \<Longrightarrow> p \<in> real_blocks s" for p
    using assms(3,4) in_blocks_null(2) [of s p] by (auto simp: pool_inv_def pool_rel_def blocks_ok_def)
  have "length (filter (\<lambda>p. ref_cnt (heap s' p) = 0 \<and> \<not> is_null (heap s' p)) bs)
      \<le> length (filter (\<lambda>p. ref_cnt (heap s p) = 0 \<and> \<not> is_null (heap s p)) bs)"
  proof (rule length_filter_mono)
    fix p
    assume p: "p \<in> set bs" "ref_cnt (heap s' p) = 0 \<and> \<not> is_null (heap s' p)"
    then have "p \<in> real_blocks s" using assms(1) sub by (auto simp: same_config_def)
    then show "ref_cnt (heap s p) = 0 \<and> \<not> is_null (heap s p)"
      using nonneg [of p] assms(2) [of p] p assms(1) by (auto simp: same_config_def)
  qed
  then show ?thesis by (simp add: get_num_evictable_blocks_def)
qed

lemma hit_cost_mono:
  assumes "same_config s s'" and "\<And>p. ref_cnt (heap s p) \<le> ref_cnt (heap s' p)" and "pool_inv s"
    and "list_all2 (fresh_request rid num_local num_external s) ms hits"
  shows "sum_list (map2 (hit_cost num_local num_external s') ms hits)
    \<le> sum_list (map2 (hit_cost num_local num_external s) ms hits)"
  using assms(4)
proof (induction rule: list_all2_induct)
  case (Cons m ms h hs)
  have "blocks_ok s (kept_hits m (num_local + num_external) h)"
    using Cons.hyps(1) by (auto simp: fresh_request_def kept_hits_def intro: blocks_ok_drop)
  from evictable_mono [OF assms(1-3) this] Cons.IH show ?case by (simp add: hit_cost_def)
qed simp

lemma hit_cost_nonneg:
  assumes "\<forall>m \<in> set ms. class_ok m" and "0 \<le> num_local" "0 \<le> num_external"
    and "list_all2 (fresh_request rid num_local num_external s) ms hits"
  shows "0 \<le> sum_list (map2 (hit_cost num_local num_external t) ms hits)"
  using assms(4,1)
proof (induction rule: list_all2_induct)
  case (Cons m ms h hs)
  then have "0 \<le> hit_cost num_local num_external t m h"
    using external_blocks_bounds(1) [of m num_local num_external h "num_local + num_external"] assms(2,3)
      evictable_nonneg [of "kept_hits m (num_local + num_external) h" t]
    by (simp add: hit_cost_def fresh_request_def)
  with Cons show ?case by simp
qed simp

text \<open>The blocks of a new request in one group before its new tokens get theirs.\<close>

definition prefix_length :: "string \<Rightarrow> int \<Rightarrow> int \<Rightarrow> SingleTypeKVCacheManager \<Rightarrow> ptr list \<Rightarrow> int" where
  "prefix_length rid num_local num_external m hits = (if mgr_class m = CrossAttentionManager then int (length (blocks_of m rid))
     else max (skip_count m (num_local + num_external)) (int (length hits)) + external_blocks m num_local num_external hits)"

lemma computed_each:
  assumes "coord_rel h s ms" and "\<forall>m \<in> set ms. class_ok m" and n: "0 \<le> num_local" "0 \<le> num_external"
    and "list_all2 (fresh_request rid num_local num_external s) ms (drop i hits)"
    and "sum_list (map2 (hit_cost num_local num_external s) ms (drop i hits)) \<le> num_free_blocks s"
  shows "\<exists>s' ms' us. each_manager (computed_call use_int rid hits num_local num_external) (int i) s ms = Inr (s', ms', us)
    \<and> num_free_blocks s - sum_list (map2 (hit_cost num_local num_external s) ms (drop i hits)) \<le> num_free_blocks s'
    \<and> list_all2 (\<lambda>(m, hits) m'. same_mgr m m' \<and> int (length (blocks_of m' rid)) = prefix_length rid num_local num_external m hits)
        (zip ms (drop i hits)) ms'"
  using assms(1,2,5,6)
proof (induction ms arbitrary: h s i)
  case (Cons m ms)
  have i: "i < length hits"
    using Cons.prems(3) by (auto simp: list_all2_Cons1 drop_eq_Nil2 not_le [symmetric])
  then have d: "drop i hits = hits ! i # drop (Suc i) hits" by (simp add: Cons_nth_drop_Suc)
  let ?h = "hits ! i" and ?n = "num_local + num_external"
  have fr: "fresh_request rid num_local num_external s m ?h"
      and frs: "list_all2 (fresh_request rid num_local num_external s) ms (drop (Suc i) hits)"
    using Cons.prems(3) unfolding d by simp_all
  have ok: "class_ok m" and bs: "0 < mgr_block_size m" and oks: "\<forall>m \<in> set ms. class_ok m"
    using Cons.prems(2) by (simp_all add: class_ok_def)
  have rel: "mgr_rel (\<lambda>p. h p + all_held ms p) s m" using Cons.prems(1) by (simp add: coord_rel_Cons)
  have inv: "pool_inv s" using rel by (simp add: mgr_rel_def)
  let ?rest = "sum_list (map2 (hit_cost num_local num_external s) ms (drop (Suc i) hits))"
  have rest0: "0 \<le> ?rest" by (rule hit_cost_nonneg [OF oks n frs])
  have budget: "hit_cost num_local num_external s m ?h + ?rest \<le> num_free_blocks s"
    using Cons.prems(4) unfolding d by simp
  have idx: "index_py hits (int i) = Inr ?h" using i by (simp add: index_py_nonneg)
  obtain s1 m1 where a: "computed_call use_int rid hits num_local num_external (int i) s m = Inr (s1, m1, ())"
    "mgr_rel (\<lambda>p. h p + all_held ms p) s1 m1" "same_config s s1" "same_mgr m m1"
    "int (length (blocks_of m1 rid)) = prefix_length rid num_local num_external m ?h"
    "\<forall>p. ref_cnt (heap s p) \<le> ref_cnt (heap s1 p)" "num_free_blocks s1 = num_free_blocks s - hit_cost num_local num_external s m ?h"
  proof (cases "mgr_class m = CrossAttentionManager")
    case True
    with fr idx rel that [of s m] show ?thesis
      by (simp add: computed_call_def allocate_new_computed_blocks_def fresh_request_def prefix_length_def hit_cost_def)
  next
    case False
    have nn: "0 \<le> ?n" using n by simp
    obtain sk where sk: "get_num_skipped_tokens m ?n = Inr sk" by (rule skipped_tokens_ok [OF ok nn])
    have f: "map_of (num_cached_block m) rid = None" "blocks_of m rid = []" "blocks_ok s ?h"
      "mgr_enable_caching m \<or> kept_hits m ?n ?h = []" "int (length ?h) * mgr_block_size m \<le> num_local"
      using fr False by (auto simp: fresh_request_def kept_hits_def)
    have ext: "0 \<le> external_blocks m num_local num_external ?h"
      by (rule external_blocks_bounds(1) [OF ok n f(5) order_refl])
    have room: "external_blocks m num_local num_external ?h
         \<le> num_free_blocks s - get_num_evictable_blocks (kept_hits m ?n ?h) s"
      using budget rest0 False by (simp add: hit_cost_def)
    obtain s1 m1 es where b: "base_allocate_new_computed_blocks use_int rid ?h num_local num_external s m = Inr (s1, m1)"
      "mgr_rel (\<lambda>p. h p + all_held ms p) s1 m1" "same_config s s1" "same_mgr m m1"
      "blocks_of m1 rid = replicate (nat (skip_count m ?n)) (null_block s) @ kept_hits m ?n ?h @ es"
      "int (length es) = external_blocks m num_local num_external ?h" "\<forall>p. ref_cnt (heap s p) \<le> ref_cnt (heap s1 p)"
      "num_free_blocks s1 = num_free_blocks s - hit_cost num_local num_external s m ?h"
      using new_computed_ok [OF rel bs sk f(1-4) ext, of use_int] room False by (auto simp: hit_cost_def)
    have "int (length (blocks_of m1 rid)) = prefix_length rid num_local num_external m ?h"
      using length_kept [OF skip_count_le(1) [OF ok nn], of ?h] skip_count_le(1) [OF ok nn] b(5,6) False
      by (simp add: prefix_length_def)
    with b False idx that [of s1 m1] show ?thesis
      by (simp add: computed_call_def allocate_new_computed_blocks_def)
  qed
  have frs1: "list_all2 (fresh_request rid num_local num_external s1) ms (drop (Suc i) hits)"
    using frs by (rule list_all2_mono) (auto simp: fresh_request_def blocks_ok_config [OF a(3)] split: if_splits)
  have mono: "sum_list (map2 (hit_cost num_local num_external s1) ms (drop (Suc i) hits)) \<le> ?rest"
    using hit_cost_mono [OF a(3) _ inv frs] a(6) by blast
  from Cons.IH [OF coord_rel_pass [OF Cons.prems(1) a(2,3)] oks frs1] budget mono a(7) obtain s' ms' us where
    r: "each_manager (computed_call use_int rid hits num_local num_external) (int (Suc i)) s1 ms = Inr (s', ms', us)"
      "num_free_blocks s1 - sum_list (map2 (hit_cost num_local num_external s1) ms (drop (Suc i) hits)) \<le> num_free_blocks s'"
      "list_all2 (\<lambda>(m, hits) m'. same_mgr m m' \<and> int (length (blocks_of m' rid)) = prefix_length rid num_local num_external m hits)
        (zip ms (drop (Suc i) hits)) ms'"
    by auto
  have "each_manager (computed_call use_int rid hits num_local num_external) (int i) s (m # ms) = Inr (s', m1 # ms', () # us)"
    using a(1) r(1) by (simp add: ac_simps)
  moreover have "num_free_blocks s - sum_list (map2 (hit_cost num_local num_external s) (m # ms) (drop i hits)) \<le> num_free_blocks s'"
    unfolding d using r(2) mono a(7) by simp
  moreover have "list_all2 (\<lambda>(m, hits) m'. same_mgr m m' \<and> int (length (blocks_of m' rid)) = prefix_length rid num_local num_external m hits)
        (zip (m # ms) (drop i hits)) (m1 # ms')"
    unfolding d using r(3) a(4,5) by simp
  ultimately show ?case by blast
qed auto

definition later_blocks :: "string \<Rightarrow> int \<Rightarrow> int \<Rightarrow> int \<Rightarrow> int \<Rightarrow> SingleTypeKVCacheManager \<Rightarrow> ptr list \<Rightarrow> int" where
  "later_blocks rid num_local num_external n enc m hits =
     max (cdiv (group_tokens n enc m) (mgr_block_size m) - prefix_length rid num_local num_external m hits) 0"

text \<open>The count of a group is what its hits cost plus what its new tokens need.\<close>

lemma count_call_fresh:
  assumes ok: "class_ok m" and n: "0 \<le> num_local" "0 \<le> num_external" "num_local + num_external \<le> n_tokens"
    and fr: "fresh_request rid num_local num_external s m (hits ! i)" and i: "i < length hits"
  shows "count_call rid n_tokens hits enc (num_local + num_external) main (int i) s m =
    Inr (s, m, hit_cost num_local num_external s m (hits ! i) + later_blocks rid num_local num_external n_tokens enc m (hits ! i))"
proof (cases "mgr_class m = CrossAttentionManager")
  case True
  have "skip_count m 0 \<le> int (length (blocks_of m rid))"
    using True by (simp add: skip_count_def get_num_skipped_tokens_def)
  from base_count_more [OF ok order_refl, of rid "slot_tokens m enc" s] this True show ?thesis
    by (simp add: count_call_def class_ok_calls(1) [OF ok] hit_cost_def later_blocks_def prefix_length_def group_tokens_def)
next
  case False
  let ?h = "hits ! i" and ?T = "slot_tokens m n_tokens"
  have nn: "0 \<le> num_local + num_external" using n by simp
  have f: "map_of (num_cached_block m) rid = None" "blocks_of m rid = []" "int (length ?h) * mgr_block_size m \<le> num_local"
    using fr False by (auto simp: fresh_request_def)
  have T: "num_local + num_external \<le> ?T" using n(3) slot_tokens_ge [OF ok, of n_tokens] by simp
  have idx: "index_py hits (int i) = Inr ?h" using i by (simp add: index_py_nonneg)
  have "count_call rid n_tokens hits enc (num_local + num_external) main (int i) s m =
      Inr (s, m, max (cdiv ?T (mgr_block_size m) - max (skip_count m (num_local + num_external)) (int (length ?h))) 0
         + get_num_evictable_blocks (kept_hits m (num_local + num_external) ?h) s)"
    using False idx by (simp add: count_call_def class_ok_calls(1) [OF ok] base_count_new [OF ok nn f(1,2)])
  with external_blocks_bounds(2) [OF ok n(1,2) f(3) T] False show ?thesis
    by (simp add: hit_cost_def later_blocks_def prefix_length_def group_tokens_def)
qed

lemma count_each_fresh:
  assumes "\<forall>m \<in> set ms. class_ok m" and n: "0 \<le> num_local" "0 \<le> num_external" "num_local + num_external \<le> n_tokens"
    and "list_all2 (fresh_request rid num_local num_external s) ms (drop i hits)"
  shows "each_manager (count_call rid n_tokens hits enc (num_local + num_external) main) (int i) s ms =
    Inr (s, ms, map2 (\<lambda>m h. hit_cost num_local num_external s m h + later_blocks rid num_local num_external n_tokens enc m h)
      ms (drop i hits))"
  using assms(1,5)
proof (induction ms arbitrary: i)
  case (Cons m ms)
  have i: "i < length hits"
    using Cons.prems(2) by (auto simp: list_all2_Cons1 drop_eq_Nil2 not_le [symmetric])
  then have d: "drop i hits = hits ! i # drop (Suc i) hits" by (simp add: Cons_nth_drop_Suc)
  have fr: "fresh_request rid num_local num_external s m (hits ! i)"
      and frs: "list_all2 (fresh_request rid num_local num_external s) ms (drop (Suc i) hits)"
    using Cons.prems(2) unfolding d by simp_all
  have ok: "class_ok m" and oks: "\<forall>m \<in> set ms. class_ok m" using Cons.prems(1) by simp_all
  from Cons.IH [OF oks frs] count_call_fresh [OF ok n fr i, of enc main] show ?case
    unfolding d by (simp add: ac_simps)
qed simp

definition has_slots :: "string \<Rightarrow> int \<Rightarrow> SingleTypeKVCacheManager \<Rightarrow> bool" where
  "has_slots rid tot m \<longleftrightarrow> mgr_class m = CrossAttentionManager \<or> map_of (num_cached_block m) rid \<noteq> None
     \<or> skip_count m tot \<le> int (length (blocks_of m rid))"

lemma count_each_running:
  assumes "\<forall>m \<in> set ms. class_ok m \<and> has_slots rid tot m" and tot: "0 \<le> tot" and "i + length ms \<le> N"
  shows "each_manager (count_call rid n_tokens (replicate N []) enc tot main) (int i) s ms =
    Inr (s, ms, map (missing rid n_tokens enc) ms)"
  using assms(1,3)
proof (induction ms arbitrary: i)
  case (Cons m ms)
  have ok: "class_ok m" "has_slots rid tot m" using Cons.prems(1) by simp_all
  have idx: "index_py (replicate N ([] :: ptr list)) (int i) = Inr []" using Cons.prems(2) by (simp add: index_py_nonneg)
  have "count_call rid n_tokens (replicate N []) enc tot main (int i) s m = Inr (s, m, missing rid n_tokens enc m)"
  proof (cases "mgr_class m = CrossAttentionManager")
    case True
    have "skip_count m 0 \<le> int (length (blocks_of m rid))"
      using True by (simp add: skip_count_def get_num_skipped_tokens_def)
    from base_count_more [OF ok(1) order_refl, of rid "slot_tokens m enc" s] this True show ?thesis
      by (simp add: count_call_def class_ok_calls(1) [OF ok(1)] missing_def group_tokens_def)
  next
    case False
    with ok(2) base_count_more [OF ok(1) tot, of rid "slot_tokens m n_tokens" s] idx show ?thesis
      by (simp add: count_call_def class_ok_calls(1) [OF ok(1)] missing_def group_tokens_def has_slots_def)
  qed
  moreover have "each_manager (count_call rid n_tokens (replicate N []) enc tot main) (int (Suc i)) s ms =
      Inr (s, ms, map (missing rid n_tokens enc) ms)"
    by (rule Cons.IH) (use Cons.prems in auto)
  ultimately show ?case by (simp add: ac_simps)
qed simp

lemma group_tokens_same: "same_mgr m m' \<Longrightarrow> group_tokens n enc m' = group_tokens n enc m"
  by (simp add: group_tokens_def same_mgr_class(2)) (simp add: same_mgr_def)

text \<open>After the hits are in place, the new tokens need what was counted for them.\<close>

lemma later_missing:
  assumes "list_all2 (\<lambda>(m, hits) m'. same_mgr m m' \<and> int (length (blocks_of m' rid)) = prefix_length rid num_local num_external m hits)
      (zip ms hits) ms'" and "length hits = length ms"
  shows "map (missing rid n enc) ms' = map2 (later_blocks rid num_local num_external n enc) ms hits"
proof (rule nth_equalityI)
  have len: "length ms' = length ms" using list_all2_lengthD [OF assms(1)] assms(2) by simp
  then show "length (map (missing rid n enc) ms') = length (map2 (later_blocks rid num_local num_external n enc) ms hits)"
    using assms(2) by simp
  fix i
  assume "i < length (map (missing rid n enc) ms')"
  then have i: "i < length ms" "i < length ms'" "i < length hits" using len assms(2) by simp_all
  have "same_mgr (ms ! i) (ms' ! i)" "int (length (blocks_of (ms' ! i) rid)) = prefix_length rid num_local num_external (ms ! i) (hits ! i)"
    using list_all2_nthD [OF assms(1), of i] i by auto
  then have "missing rid n enc (ms' ! i) = later_blocks rid num_local num_external n enc (ms ! i) (hits ! i)"
    unfolding missing_def later_blocks_def by (simp add: group_tokens_same) (simp add: same_mgr_def)
  with i show "map (missing rid n enc) ms' ! i = map2 (later_blocks rid num_local num_external n enc) ms hits ! i" by simp
qed

lemma sum_list_map2_add:
  "length xs = length ys \<Longrightarrow> sum_list (map2 (\<lambda>x y. f x y + g x y) xs ys) = sum_list (map2 f xs ys) + sum_list (map2 (g :: _ \<Rightarrow> _ \<Rightarrow> int) xs ys)"
  by (induction xs ys rule: list_induct2) auto

definition enough_slots :: "string \<Rightarrow> int \<Rightarrow> int \<Rightarrow> SingleTypeKVCacheManager \<Rightarrow> bool" where
  "enough_slots rid n enc m \<longleftrightarrow> group_tokens n enc m \<le> int (length (blocks_of m rid)) * mgr_block_size m"

lemma allocate_all:
  assumes inv: "coord_inv c" and room: "sum_list (map (missing rid n enc) (single_type_managers c)) \<le> num_free_blocks (coord_pool c)"
  shows "\<exists>c' new. coordinator_allocate_new_blocks use_int rid n main enc c = Inr (c', new) \<and> coord_inv c' \<and> same_coord c c'
    \<and> list_all2 (same_others rid) (single_type_managers c) (single_type_managers c')
    \<and> (\<forall>m \<in> set (single_type_managers c'). enough_slots rid n enc m)"
proof -
  let ?ms = "single_type_managers c"
  have rel: "coord_rel (\<lambda>_. 0) (coord_pool c) ?ms" "\<forall>m \<in> set ?ms. class_ok m" using inv by (simp_all add: coord_inv_def)
  obtain s' ms' outs where a: "each_manager (new_blocks_call use_int rid n main enc) 0 (coord_pool c) ?ms = Inr (s', ms', outs)"
    "list_all2 (\<lambda>m m'. cdiv (group_tokens n enc m) (mgr_block_size m) \<le> int (length (blocks_of m' rid))) ?ms ms'"
    using allocate_each [OF rel room, of use_int main 0] by blast
  let ?c = "c\<lparr>coord_pool := s', single_type_managers := ms'\<rparr>"
  have run: "on_managers (new_blocks_call use_int rid n main enc) c = Inr (?c, outs)" using a(1) by (simp add: on_managers_def)
  have k: "coord_inv ?c" "same_coord c ?c" "list_all2 (appended rid) ?ms ms'"
    using allocating.on_managers_keeps [OF inv _ run] rel(2) by auto
  have "enough_slots rid n enc (ms' ! i)" if "i < length ms'" for i
  proof -
    have i: "i < length ?ms" using that list_all2_lengthD [OF a(2)] by simp
    have s: "same_mgr (?ms ! i) (ms' ! i)" using k(2) i by (auto simp: same_coord_def list_all2_conv_all_nth)
    have "cdiv (group_tokens n enc (?ms ! i)) (mgr_block_size (?ms ! i)) \<le> int (length (blocks_of (ms' ! i) rid))"
      using list_all2_nthD [OF a(2), of i] i by simp
    moreover have "0 < mgr_block_size (?ms ! i)" using rel(2) i by (simp add: class_ok_def)
    ultimately show ?thesis
      using s by (simp add: enough_slots_def group_tokens_same cdiv_le_iff) (simp add: same_mgr_def)
  qed
  then have "\<forall>m \<in> set ms'. enough_slots rid n enc m" by (auto simp: in_set_conv_nth)
  moreover have "list_all2 (same_others rid) ?ms ms'"
    using k(3) by (rule list_all2_mono) (auto simp: appended_def same_others_def)
  ultimately show ?thesis using run k(1,2) by (auto simp: coordinator_allocate_new_blocks_def)
qed

text \<open>The stage for the prefix cache hits and externally computed tokens.\<close>

lemma compute_all:
  assumes inv: "coord_inv c" and n: "0 \<le> num_local" "0 \<le> num_external"
    and fresh: "list_all2 (fresh_request rid num_local num_external (coord_pool c)) (single_type_managers c) hits"
    and room: "sum_list (map2 (hit_cost num_local num_external (coord_pool c)) (single_type_managers c) hits)
        + sum_list (map2 (later_blocks rid num_local num_external nt enc) (single_type_managers c) hits)
      \<le> num_free_blocks (coord_pool c)"
  shows "\<exists>c'. coordinator_allocate_new_computed_blocks use_int rid hits num_local num_external c = Inr c' \<and> coord_inv c'
    \<and> same_coord c c' \<and> list_all2 (same_others rid) (single_type_managers c) (single_type_managers c')
    \<and> sum_list (map (missing rid nt enc) (single_type_managers c')) \<le> num_free_blocks (coord_pool c')
    \<and> (fresh_coord c \<longrightarrow> fresh_coord c')"
proof -
  let ?ms = "single_type_managers c" and ?s = "coord_pool c"
  have rel: "coord_rel (\<lambda>_. 0) ?s ?ms" "\<forall>m \<in> set ?ms. class_ok m" using inv by (simp_all add: coord_inv_def)
  have len: "length hits = length ?ms" using list_all2_lengthD [OF fresh] by simp
  have "0 \<le> sum_list (map2 (later_blocks rid num_local num_external nt enc) ?ms hits)"
    by (rule sum_list_nonneg) (auto simp: later_blocks_def)
  then have cost: "sum_list (map2 (hit_cost num_local num_external ?s) ?ms (drop 0 hits)) \<le> num_free_blocks ?s"
    using room by simp
  obtain s' ms' us where a: "each_manager (computed_call use_int rid hits num_local num_external) 0 ?s ?ms = Inr (s', ms', us)"
    "num_free_blocks ?s - sum_list (map2 (hit_cost num_local num_external ?s) ?ms hits) \<le> num_free_blocks s'"
    "list_all2 (\<lambda>(m, hits) m'. same_mgr m m' \<and> int (length (blocks_of m' rid)) = prefix_length rid num_local num_external m hits)
        (zip ?ms hits) ms'"
    using computed_each [OF rel n _ cost, of rid use_int] fresh by auto
  let ?c = "c\<lparr>coord_pool := s', single_type_managers := ms'\<rparr>"
  have run: "on_managers (computed_call use_int rid hits num_local num_external) c = Inr (?c, us)"
    using a(1) by (simp add: on_managers_def)
  have ready: "hits_ready hits num_local num_external (int j) ?s (?ms ! j)" if "j < length ?ms" for j
    using that list_all2_nthD [OF fresh that] rel(2) n len by (auto simp: hits_ready_def fresh_request_def)
  have k: "coord_inv ?c" "same_coord c ?c" "list_all2 (same_others rid) ?ms ms'"
    using computed.on_managers_keeps [OF inv ready run] by auto
  have "sum_list (map (missing rid nt enc) ms') \<le> num_free_blocks s'"
    unfolding later_missing [OF a(3) len] using room a(2) by linarith
  moreover have "fresh_coord c \<Longrightarrow> fresh_coord ?c" using computed_fresh.on_managers_fresh [OF inv ready _ run] by blast
  ultimately show ?thesis using run k by (auto simp: coordinator_allocate_new_computed_blocks_def)
qed

text \<open>The caching stage runs when it is skipped, or when its blocks are fresh and its tokens hashed.\<close>

definition commits :: "bool \<Rightarrow> KVCacheManager \<Rightarrow> Request \<Rightarrow> KVCacheCoordinator \<Rightarrow> bool" where
  "commits delay k r c \<longleftrightarrow> delay \<or> \<not> kvm_enable_caching k
     \<or> fresh_coord c \<and> enable_caching (coord_pool c) \<and> (\<forall>m \<in> set (single_type_managers c). cacheable r (coord_pool c) m)"

lemma all_cacheable_same:
  "list_all2 same_mgr ms ms' \<Longrightarrow> same_config s s' \<Longrightarrow> \<forall>m \<in> set ms. cacheable r s m \<Longrightarrow> \<forall>m \<in> set ms'. cacheable r s' m"
proof (induction rule: list_all2_induct)
  case (Cons m ms m' ms')
  then show ?case using cacheable_config [of s s' m m' r] by simp
qed simp

lemma commits_same:
  assumes c: "commits delay k r c" and same: "same_coord c c'" and fr: "fresh_coord c \<Longrightarrow> fresh_coord c'"
  shows "commits delay k r c'"
proof (cases "delay \<or> \<not> kvm_enable_caching k")
  case False
  with c have o: "fresh_coord c" "enable_caching (coord_pool c)" "\<forall>m \<in> set (single_type_managers c). cacheable r (coord_pool c) m"
    by (simp_all add: commits_def)
  have st: "same_config (coord_pool c) (coord_pool c')" "list_all2 same_mgr (single_type_managers c) (single_type_managers c')"
    using same by (simp_all add: same_coord_def)
  have "enable_caching (coord_pool c')" using o(2) st(1) by (simp add: same_config_def)
  then show ?thesis using fr [OF o(1)] all_cacheable_same [OF st(2,1) o(3)] by (simp add: commits_def)
qed (auto simp: commits_def)

lemma same_blocks_slots:
  assumes "same_blocks m m'" and "same_mgr m m'"
  shows "enough_slots rid n enc m' = enough_slots rid n enc m"
  using group_tokens_same [OF assms(2), of n enc] assms unfolding enough_slots_def same_blocks_def same_mgr_def by metis

lemma commit_total:
  assumes inv: "coord_inv c"
    and stage: "(if given \<noteq> empty_kv_cache_blocks k \<or> num_external > 0
        then coordinator_allocate_new_computed_blocks use_int (request_id r) (group_blocks given) num_local num_external c
        else Inr c) = Inr c3" "coord_inv c3" "same_coord c c3"
      "list_all2 (same_others (request_id r)) (single_type_managers c) (single_type_managers c3)"
      "sum_list (map (missing (request_id r) need enc) (single_type_managers c3)) \<le> num_free_blocks (coord_pool c3)"
    and delay: "commits delay k r c3"
  shows "\<exists>k' b. commit_slots use_int r given num_local num_external need main enc delay k c = Inr (k', Some b)
    \<and> kvm_inv k' \<and> same_coord c (coordinator k')
    \<and> list_all2 (same_others (request_id r)) (single_type_managers c) (kvm_managers k')
    \<and> (\<forall>m \<in> set (kvm_managers k'). enough_slots (request_id r) need enc m)"
proof -
  obtain c4 new where a: "coordinator_allocate_new_blocks use_int (request_id r) need main enc c3 = Inr (c4, new)"
    "coord_inv c4" "same_coord c3 c4" "list_all2 (same_others (request_id r)) (single_type_managers c3) (single_type_managers c4)"
    "\<forall>m \<in> set (single_type_managers c4). enough_slots (request_id r) need enc m"
    using allocate_all [OF stage(2,5), of use_int main] by blast
  have others: "list_all2 (same_others (request_id r)) (single_type_managers c) (single_type_managers c4)"
    by (rule list_all2_trans [OF _ stage(4) a(4)]) (simp add: same_others_def)
  show ?thesis
  proof (cases "delay \<or> \<not> kvm_enable_caching k")
    case True
    then have "commit_slots use_int r given num_local num_external need main enc delay k c =
        Inr (k\<lparr>coordinator := c4\<rparr>, Some (create_kv_cache_blocks new k))"
      unfolding commit_slots_def stage(1) using a(1) by auto
    then show ?thesis
      using others a(2,3,5) stage(3) by (auto simp: kvm_inv_def kvm_managers_def intro: same_coord_trans)
  next
    case False
    have "class_ok (single_type_managers c3 ! j)" if "j < length (single_type_managers c3)" for j
      using stage(2) that by (simp add: coord_inv_def)
    then have "fresh_coord c4" if "fresh_coord c3"
      using allocating_fresh.on_managers_fresh [OF stage(2) _ that] a(1) by (simp add: coordinator_allocate_new_blocks_def)
    then have "commits delay k r c4" using commits_same [OF delay a(3)] by blast
    with False have ok: "fresh_coord c4" "enable_caching (coord_pool c4)"
        "\<forall>m \<in> set (single_type_managers c4). cacheable r (coord_pool c4) m" by (simp_all add: commits_def)
    from cache_all [OF a(2) ok, of "min main (num_tokens r)" use_int] obtain c5 where
      c5: "coordinator_cache_blocks use_int r (min main (num_tokens r)) c4 = Inr c5" "coord_inv c5" "same_coord c4 c5"
        "list_all2 same_blocks (single_type_managers c4) (single_type_managers c5)" by auto
    have run: "commit_slots use_int r given num_local num_external need main enc delay k c =
        Inr (k\<lparr>coordinator := c5\<rparr>, Some (create_kv_cache_blocks new k))"
      unfolding commit_slots_def stage(1) using False a(1) c5(1) by simp
    have "list_all2 (same_others (request_id r)) (single_type_managers c) (single_type_managers c5)"
      by (rule list_all2_trans [OF _ others c5(4)]) (simp add: same_others_def same_blocks_def)
    moreover have "enough_slots (request_id r) need enc m" if "m \<in> set (single_type_managers c5)" for m
      using that a(5) c5(3,4) same_blocks_slots [of _ m]
      by (fastforce simp: same_coord_def list_all2_conv_all_nth in_set_conv_nth)
    ultimately show ?thesis
      using run c5(2) same_coord_trans [OF same_coord_trans [OF stage(3) a(3)] c5(3)]
      by (auto simp: kvm_inv_def kvm_managers_def)
  qed
qed

lemma skip_all:
  assumes inv: "coord_inv c" and tot: "0 \<le> tot"
  shows "\<exists>c'. coordinator_remove_skipped_blocks rid tot c = Inr c' \<and> coord_inv c' \<and> same_coord c c'
    \<and> list_all2 (window_kept rid tot (null_block (coord_pool c))) (single_type_managers c) (single_type_managers c')"
proof -
  have ready: "class_ok (single_type_managers c ! j) \<and> 0 \<le> tot" if "j < length (single_type_managers c)" for j
    using inv tot that by (simp add: coord_inv_def)
  obtain c' us where run: "on_managers (skipped_call rid tot) c = Inr (c', us)"
    using skipping.on_managers_total [OF inv ready] by blast
  with skipping.on_managers_keeps [OF inv ready run] show ?thesis
    by (auto simp: coordinator_remove_skipped_blocks_def)
qed

text \<open>Dropping skipped blocks does not change what the count of a request depends on.\<close>

lemma window_kept_request:
  assumes "window_kept rid tot nb m m'" and "same_mgr m m'" and "same_config s s'"
  shows "fresh_request rid num_local num_external s' m' hits = fresh_request rid num_local num_external s m hits"
    and "has_slots rid n m' = has_slots rid n m"
proof -
  have "length (blocks_of m' rid) = length (blocks_of m rid)" using assms(1) by (simp add: window_kept_def)
  have eq: "mgr_class m' = mgr_class m" "mgr_block_size m' = mgr_block_size m" using assms(2) by (simp_all add: same_mgr_def)
  have sk: "skip_count m' n = skip_count m n" for n
    unfolding skip_count_def get_num_skipped_tokens_def eq ..
  from \<open>length (blocks_of m' rid) = length (blocks_of m rid)\<close> have "blocks_of m' rid = [] \<longleftrightarrow> blocks_of m rid = []" by (metis length_0_conv)
  then show "fresh_request rid num_local num_external s' m' hits = fresh_request rid num_local num_external s m hits"
    using assms by (auto simp: fresh_request_def window_kept_def same_mgr_def blocks_ok_config)
  show "has_slots rid n m' = has_slots rid n m"
    using assms(1,2) sk by (simp add: has_slots_def window_kept_def same_mgr_def)
qed

text \<open>
  What the scheduler asks for: a new request, with its prefix cache hits or externally computed
  tokens, or a request whose computed tokens have slots already.
\<close>

definition request_ready :: "KVCacheManager \<Rightarrow> string \<Rightarrow> kv_blocks \<Rightarrow> int \<Rightarrow> int \<Rightarrow> bool" where
  "request_ready k rid given num_local num_external \<longleftrightarrow>
     (if given \<noteq> empty_kv_cache_blocks k \<or> num_external > 0
      then list_all2 (fresh_request rid num_local num_external (kvm_pool k)) (kvm_managers k) (group_blocks given)
      else \<forall>m \<in> set (kvm_managers k). has_slots rid num_local m)"

text \<open>
  What one group needs, written out: blocks for the tokens that neither the blocks of the request nor
  the hits (or, for a new request, the positions before the attention window) cover, and
  one free block for each hit inside the window that nobody references, because using it
  takes it out of the free queue. For a new request with hits \<open>tot\<close> counts the tokens of the hits.
\<close>

definition blocks_needed :: "string \<Rightarrow> int \<Rightarrow> int \<Rightarrow> int \<Rightarrow> block_pool \<Rightarrow> SingleTypeKVCacheManager \<Rightarrow> ptr list \<Rightarrow> int" where
  "blocks_needed rid n enc tot s m hits =
     max (cdiv (group_tokens n enc m) (mgr_block_size m)
          - (if map_of (num_cached_block m) rid = None \<and> blocks_of m rid = []
             then max (skip_count m tot) (int (length hits)) else int (length (blocks_of m rid)))) 0
     + int (length (filter (\<lambda>p. ref_cnt (heap s p) = 0 \<and> \<not> is_null (heap s p)) (drop (nat (skip_count m tot)) hits)))"

definition all_blocks_needed :: "string \<Rightarrow> int \<Rightarrow> int \<Rightarrow> int \<Rightarrow> KVCacheManager \<Rightarrow> ptr list list \<Rightarrow> int" where
  "all_blocks_needed rid n enc tot k hits =
     sum_list (map2 (blocks_needed rid n enc tot (kvm_pool k)) (kvm_managers k) hits)"

lemma blocks_needed_fresh:
  assumes ok: "class_ok m" and n: "0 \<le> num_local" "0 \<le> num_external" "num_local + num_external \<le> n_tokens"
    and fr: "fresh_request rid num_local num_external s m hits"
  shows "blocks_needed rid n_tokens enc (num_local + num_external) s m hits
    = hit_cost num_local num_external s m hits + later_blocks rid num_local num_external n_tokens enc m hits"
proof (cases "mgr_class m = CrossAttentionManager")
  case True
  with fr show ?thesis
    by (simp add: blocks_needed_def hit_cost_def later_blocks_def prefix_length_def fresh_request_def skip_count_def
        get_num_skipped_tokens_def)
next
  case False
  have f: "map_of (num_cached_block m) rid = None" "blocks_of m rid = []" "int (length hits) * mgr_block_size m \<le> num_local"
    using fr False by (auto simp: fresh_request_def)
  have "num_local + num_external \<le> slot_tokens m n_tokens" using n(3) slot_tokens_ge [OF ok, of n_tokens] by simp
  from external_blocks_bounds(2) [OF ok n(1,2) f(3) this] False f(1,2) show ?thesis
    by (simp add: blocks_needed_def hit_cost_def later_blocks_def prefix_length_def group_tokens_def
        get_num_evictable_blocks_def kept_hits_def)
qed

lemma all_blocks_needed_fresh:
  assumes "\<forall>m \<in> set ms. class_ok m" and "0 \<le> num_local" "0 \<le> num_external" "num_local + num_external \<le> n_tokens"
    and "list_all2 (fresh_request rid num_local num_external s) ms hits"
  shows "sum_list (map2 (blocks_needed rid n_tokens enc (num_local + num_external) s) ms hits)
    = sum_list (map2 (hit_cost num_local num_external s) ms hits)
      + sum_list (map2 (later_blocks rid num_local num_external n_tokens enc) ms hits)"
  using assms(5,1)
proof (induction rule: list_all2_induct)
  case (Cons m ms h hs)
  then show ?case using blocks_needed_fresh [OF _ assms(2-4) Cons.hyps(1)] by simp
qed simp

lemma blocks_needed_running:
  assumes "class_ok m" and "has_slots rid tot m"
  shows "blocks_needed rid n enc tot s m [] = missing rid n enc m"
proof -
  have "0 \<le> skip_count m tot" by (simp add: skip_count_def split: sum.splits)
  with assms(2) show ?thesis
    by (auto simp: blocks_needed_def missing_def has_slots_def skip_count_def get_num_skipped_tokens_def)
qed

lemma all_blocks_needed_running:
  assumes "\<forall>m \<in> set ms. class_ok m \<and> has_slots rid tot m"
  shows "sum_list (map2 (blocks_needed rid n enc tot s) ms (replicate (length ms) [])) = sum_list (map (missing rid n enc) ms)"
  using assms by (induction ms) (simp_all add: blocks_needed_running)

lemma count_and_commit:
  assumes inv: "coord_inv c" and n: "0 \<le> num_local" "0 \<le> num_external" "num_local + num_external \<le> need"
    and len: "length (group_blocks given) = length (single_type_managers c)"
    and ready: "if given \<noteq> empty_kv_cache_blocks k \<or> num_external > 0
      then list_all2 (fresh_request (request_id r) num_local num_external (coord_pool c)) (single_type_managers c) (group_blocks given)
      else \<forall>m \<in> set (single_type_managers c). has_slots (request_id r) num_local m"
    and delay: "commits delay k r c"
    and num_def: "num = sum_list (map2 (blocks_needed (request_id r) need enc (num_local + num_external) (coord_pool c))
      (single_type_managers c) (group_blocks given))"
  shows "coordinator_get_num_blocks_to_allocate (request_id r) need (group_blocks given) enc (num_local + num_external) main c
      = Inr (c, num)
    \<and> (num \<le> num_free_blocks (coord_pool c) \<longrightarrow>
       (\<exists>k' b. commit_slots use_int r given num_local num_external need main enc delay k c = Inr (k', Some b)
        \<and> kvm_inv k' \<and> same_coord c (coordinator k')
        \<and> list_all2 (same_others (request_id r)) (single_type_managers c) (kvm_managers k')
        \<and> (\<forall>m \<in> set (kvm_managers k'). enough_slots (request_id r) need enc m)))"
proof (cases "given \<noteq> empty_kv_cache_blocks k \<or> num_external > 0")
  case True
  let ?ms = "single_type_managers c" and ?hits = "group_blocks given"
  let ?cost = "hit_cost num_local num_external (coord_pool c)" and ?later = "later_blocks (request_id r) num_local num_external need enc"
  have fresh: "list_all2 (fresh_request (request_id r) num_local num_external (coord_pool c)) ?ms (drop 0 ?hits)"
    using ready True by simp
  have ok: "\<forall>m \<in> set ?ms. class_ok m" using inv by (simp add: coord_inv_def)
  have cnt: "coordinator_get_num_blocks_to_allocate (request_id r) need ?hits enc (num_local + num_external) main c
      = Inr (c, sum_list (map2 ?cost ?ms ?hits) + sum_list (map2 ?later ?ms ?hits))"
    using count_each_fresh [OF ok n fresh, of enc main] len
    by (simp add: coordinator_get_num_blocks_to_allocate_def on_managers_def sum_list_map2_add)
  have num: "num = sum_list (map2 ?cost ?ms ?hits) + sum_list (map2 ?later ?ms ?hits)"
    unfolding num_def by (rule all_blocks_needed_fresh [OF ok n]) (use fresh in simp)
  show ?thesis unfolding num
  proof (rule conjI, rule cnt, rule impI)
    assume "sum_list (map2 ?cost ?ms ?hits) + sum_list (map2 ?later ?ms ?hits) \<le> num_free_blocks (coord_pool c)"
    from compute_all [OF inv n(1,2) _ this, of use_int] fresh obtain c3 where
      "coordinator_allocate_new_computed_blocks use_int (request_id r) ?hits num_local num_external c = Inr c3" "coord_inv c3"
      "same_coord c c3" "list_all2 (same_others (request_id r)) ?ms (single_type_managers c3)"
      "sum_list (map (missing (request_id r) need enc) (single_type_managers c3)) \<le> num_free_blocks (coord_pool c3)"
      "fresh_coord c \<longrightarrow> fresh_coord c3"
      by auto
    moreover from this have "commits delay k r c3" using commits_same [OF delay] by blast
    ultimately show "\<exists>k' b. commit_slots use_int r given num_local num_external need main enc delay k c = Inr (k', Some b)
        \<and> kvm_inv k' \<and> same_coord c (coordinator k')
        \<and> list_all2 (same_others (request_id r)) ?ms (kvm_managers k')
        \<and> (\<forall>m \<in> set (kvm_managers k'). enough_slots (request_id r) need enc m)"
      using True commit_total [OF inv, of given k num_external use_int r num_local c3 need enc delay main] by simp
  qed
next
  case False
  let ?ms = "single_type_managers c"
  have hits: "group_blocks given = replicate (length ?ms) []" using False len by (simp add: empty_kv_cache_blocks_def)
  have ok: "\<forall>m \<in> set ?ms. class_ok m \<and> has_slots (request_id r) (num_local + num_external) m"
    using inv ready False n(2) by (auto simp: coord_inv_def)
  have tot: "0 \<le> num_local + num_external" using n by simp
  have cnt: "coordinator_get_num_blocks_to_allocate (request_id r) need (group_blocks given) enc (num_local + num_external) main c
      = Inr (c, sum_list (map (missing (request_id r) need enc) ?ms))"
    using count_each_running [OF ok tot, of 0 "length ?ms" need enc main "coord_pool c"]
    by (simp add: coordinator_get_num_blocks_to_allocate_def on_managers_def hits)
  have num: "num = sum_list (map (missing (request_id r) need enc) ?ms)"
    unfolding num_def hits by (rule all_blocks_needed_running [OF ok])
  show ?thesis unfolding num
  proof (rule conjI, rule cnt, rule impI)
    assume room: "sum_list (map (missing (request_id r) need enc) ?ms) \<le> num_free_blocks (coord_pool c)"
    show "\<exists>k' b. commit_slots use_int r given num_local num_external need main enc delay k c = Inr (k', Some b)
        \<and> kvm_inv k' \<and> same_coord c (coordinator k')
        \<and> list_all2 (same_others (request_id r)) ?ms (kvm_managers k')
        \<and> (\<forall>m \<in> set (kvm_managers k'). enough_slots (request_id r) need enc m)"
      by (rule commit_total [OF inv _ inv _ _ room delay]) (use False in \<open>auto intro: list_all2_refl\<close>)
  qed
qed

lemma allocate_slots_total:
  fixes hits :: "kv_blocks option" and r :: Request and new_computed :: int
  assumes inv: "kvm_inv k" and n: "0 \<le> n" "0 \<le> lookahead" "n \<noteq> 0 \<or> num_external \<noteq> 0"
  defines "given \<equiv> case hits of None \<Rightarrow> empty_kv_cache_blocks k | Some b \<Rightarrow> b"
    and "num_local \<equiv> num_computed_tokens r + new_computed"
    and "need \<equiv> min (num_computed_tokens r + new_computed + num_external + n + lookahead) (kvm_max_model_len k)"
  assumes fits: "request_fits k (group_blocks given) num_local num_external"
    and max: "num_local + num_external \<le> kvm_max_model_len k"
    and ready: "request_ready k (request_id r) given num_local num_external"
    and delay: "delay \<or> \<not> kvm_enable_caching k \<or> kvm_fresh k \<and> (\<forall>m \<in> set (kvm_managers k). cacheable r (kvm_pool k) m)"
  shows "\<exists>k' res. allocate_slots use_int r n new_computed hits lookahead num_external delay enc k = Inr (k', res)
    \<and> kvm_inv k' \<and> same_coord (coordinator k) (coordinator k')
    \<and> list_all2 (same_others (request_id r)) (kvm_managers k) (kvm_managers k')
    \<and> (\<exists>kr. kvm_remove_skipped_blocks (request_id r) (num_local + num_external) k = Inr kr
        \<and> (res = None \<longleftrightarrow> get_num_free_blocks (kvm_pool kr)
             < all_blocks_needed (request_id r) need enc (num_local + num_external) kr (group_blocks given))
        \<and> (res = None \<longrightarrow> k' = kr))
    \<and> (res = None \<longrightarrow> list_all2 (window_kept (request_id r) (num_local + num_external) (null_block (kvm_pool k)))
         (kvm_managers k) (kvm_managers k'))
    \<and> (res \<noteq> None \<longrightarrow> (\<forall>m \<in> set (kvm_managers k'). enough_slots (request_id r) need enc m))"
proof -
  let ?rid = "request_id r" and ?tot = "num_local + num_external"
  have need_def: "need = min (?tot + n + lookahead) (kvm_max_model_len k)" by (simp add: need_def num_local_def)
  have f: "0 \<le> num_local" "0 \<le> num_external" "length (group_blocks given) = length (kvm_managers k)"
    using fits by (simp_all add: request_fits_def)
  have tot: "0 \<le> ?tot" "?tot \<le> need" using f max n by (simp_all add: need_def)
  have inv0: "coord_inv (coordinator k)" using inv by (simp add: kvm_inv_def)
  obtain c where c: "coordinator_remove_skipped_blocks ?rid ?tot (coordinator k) = Inr c" "coord_inv c" "same_coord (coordinator k) c"
    "list_all2 (window_kept ?rid ?tot (null_block (kvm_pool k))) (kvm_managers k) (single_type_managers c)"
    using skip_all [OF inv0 tot(1), of ?rid] by (auto simp: kvm_pool_def kvm_managers_def)
  have eq: "fresh_request ?rid num_local num_external (coord_pool c) (single_type_managers c ! i) h
        = fresh_request ?rid num_local num_external (kvm_pool k) (kvm_managers k ! i) h"
      "has_slots ?rid num_local (single_type_managers c ! i) = has_slots ?rid num_local (kvm_managers k ! i)"
    if "i < length (kvm_managers k)" for i h
    using window_kept_request [OF list_all2_nthD [OF c(4) that]] c(3) that
    by (auto simp: same_coord_def kvm_pool_def kvm_managers_def list_all2_conv_all_nth)
  have len: "length (single_type_managers c) = length (kvm_managers k)" using list_all2_lengthD [OF c(4)] by simp
  have "commits delay k r (coordinator k)" using delay by (auto simp: commits_def kvm_fresh_def kvm_pool_def kvm_managers_def)
  then have commits: "commits delay k r c" using commits_same [OF _ c(3)] skipped_fresh_coord [OF inv0 tot(1) _ c(1)] by blast
  define num where "num = sum_list (map2 (blocks_needed ?rid need enc ?tot (coord_pool c)) (single_type_managers c) (group_blocks given))"
  have "if given \<noteq> empty_kv_cache_blocks k \<or> num_external > 0
      then list_all2 (fresh_request ?rid num_local num_external (coord_pool c)) (single_type_managers c) (group_blocks given)
      else \<forall>m \<in> set (single_type_managers c). has_slots ?rid num_local m"
    using ready eq len by (auto simp: request_ready_def list_all2_conv_all_nth all_set_conv_all_nth)
  from count_and_commit [OF c(2) f(1,2) tot(2) _ this commits num_def, of "?tot + n" use_int] len f(3) have
    num: "coordinator_get_num_blocks_to_allocate ?rid need (group_blocks given) enc ?tot (?tot + n) c = Inr (c, num)"
    "num \<le> num_free_blocks (coord_pool c) \<Longrightarrow>
       (\<exists>k' b. commit_slots use_int r given num_local num_external need (?tot + n) enc delay k c = Inr (k', Some b)
        \<and> kvm_inv k' \<and> same_coord c (coordinator k')
        \<and> list_all2 (same_others ?rid) (single_type_managers c) (kvm_managers k')
        \<and> (\<forall>m \<in> set (kvm_managers k'). enough_slots ?rid need enc m))"
    by auto
  have min: "min ?tot (kvm_max_model_len k) = ?tot" using max by simp
  have run: "allocate_slots use_int r n new_computed hits lookahead num_external delay enc k =
      (if num > num_free_blocks (coord_pool c) then Inr (k\<lparr>coordinator := c\<rparr>, None)
       else commit_slots use_int r given num_local num_external need (?tot + n) enc delay k c)"
    using n(3) unfolding allocate_slots_def Let_def given_def [symmetric] num_local_def [symmetric] min need_def [symmetric] c(1)
      bindE.simps num(1) prod.case get_num_free_blocks_def by auto
  have others: "list_all2 (same_others ?rid) (kvm_managers k) (single_type_managers c)"
    using c(4) by (rule list_all2_mono) (simp add: window_kept_def)
  have released: "kvm_remove_skipped_blocks ?rid ?tot k = Inr (k\<lparr>coordinator := c\<rparr>)"
    using c(1) by (simp add: kvm_remove_skipped_blocks_def)
  have demand: "all_blocks_needed ?rid need enc ?tot (k\<lparr>coordinator := c\<rparr>) (group_blocks given) = num"
    "get_num_free_blocks (kvm_pool (k\<lparr>coordinator := c\<rparr>)) = num_free_blocks (coord_pool c)"
    by (simp_all add: all_blocks_needed_def num_def kvm_pool_def kvm_managers_def get_num_free_blocks_def)
  show ?thesis
  proof (cases "num > num_free_blocks (coord_pool c)")
    case True
    with run c(2-4) others released demand show ?thesis by (simp add: kvm_inv_def kvm_managers_def)
  next
    case False
    then obtain k' b where k': "commit_slots use_int r given num_local num_external need (?tot + n) enc delay k c = Inr (k', Some b)"
      "kvm_inv k'" "same_coord c (coordinator k')" "list_all2 (same_others ?rid) (single_type_managers c) (kvm_managers k')"
      "\<forall>m \<in> set (kvm_managers k'). enough_slots ?rid need enc m"
      using num(2) by auto
    have "list_all2 (same_others ?rid) (kvm_managers k) (kvm_managers k')"
      by (rule list_all2_trans [OF _ others k'(4)]) (simp add: same_others_def)
    with run False k' same_coord_trans [OF c(3) k'(3)] released demand show ?thesis by simp
  qed
qed

subsection \<open>The properties of the cache manager\<close>

text \<open>A manager with one full attention group over three ordinary blocks of two tokens, without prefix caching.\<close>

definition demo_config :: KVCacheConfig where
  "demo_config = \<lparr>num_blocks = 4, kv_cache_tensors = [],
     kv_cache_groups = [\<lparr>layer_names = [''a''], kv_cache_spec = LayerSpec (FullAttention demo_full)\<rparr>]\<rparr>"

lemma demo_kvm:
  "\<exists>k. kv_cache_manager_init demo_config 8 2 False False False True 1 1 = Inr k \<and> kvm_reach False k \<and> kvm_inv k
     \<and> kvm_managers k = [new_manager FullAttentionManager (FullAttention demo_full) False 0 1 1]
     \<and> num_free_blocks (kvm_pool k) = 3 \<and> num_kv_cache_groups k = 1 \<and> kvm_max_model_len k = 8 \<and> \<not> kvm_enable_caching k
     \<and> (\<forall>p. ref_cnt (heap (kvm_pool k) p) = 0)"
proof -
  have up: "map Blk [1..<nat 4] = [Blk 1, Blk 2, Blk 3]" by (simp add: upt_rec)
  obtain s where s: "block_pool_init 4 False 2 True = Inr s" "pool_rel s [Blk 1, Blk 2, Blk 3]" "\<forall>p. ref_cnt (heap s p) = 0"
    using block_pool_init_rel [of 4 False 2 True] unfolding up by auto
  have free: "num_free_blocks s = 3" using fq_rel_num [OF pool_relD(1) [OF s(2)]] by simp
  define k where "k = \<lparr>kvm_max_model_len = 8, kvm_enable_caching = False, log_stats = False, prefix_cache_stats = None,
     coordinator = \<lparr>coord_class = KVCacheCoordinatorNoPrefixCache, coord_config = demo_config, coord_enable_caching = False,
       coord_use_eagle = False, coord_pool = s,
       single_type_managers = [new_manager FullAttentionManager (FullAttention demo_full) False 0 1 1]\<rparr>,
     num_kv_cache_groups = 1\<rparr>"
  have init: "kv_cache_manager_init demo_config 8 2 False False False True 1 1 = Inr k"
    using s(1)
    by (simp add: kv_cache_manager_init_def get_kv_cache_coordinator_def no_prefix_cache_init_def coordinator_init_def
        demo_config_def get_manager_for_kv_cache_spec_def k_def)
  have ok: "\<forall>m \<in> set (kvm_managers k). class_ok m"
    by (simp add: k_def kvm_managers_def class_ok_def new_manager_def demo_full_def)
  from init ok kvm_init_inv [OF init ok] kvm_start [OF init ok, of False] s(3) free show ?thesis
    by (intro exI [of _ k]) (simp add: k_def kvm_managers_def kvm_pool_def)
qed

text \<open>
  C1: In every state the cache manager can reach, whatever lookups, allocations, frees, evictions and
  resets came before, the reference count of an ordinary block is the number of times that the
  requests of all groups list it (requests share blocks); one request never lists an ordinary block
  twice in one group; the free queue can be walked, lists every block that nobody lists exactly once
  and no other block, and its counter is its length; and once nobody lists an ordinary block, all blocks
  are free again and the prefix cache can be reset, so no block is lost. The reachable states are those of
  a manager all of whose groups satisfy \<open>class_ok\<close>: positive block, window and chunk sizes, no attention
  sinks, and no Mamba group in \<open>align\<close> mode.
\<close>

theorem kv_manager_invariant:
  assumes "kvm_reach use_int k"
  shows "(\<forall>p \<in> real_blocks (kvm_pool k). ref_cnt (heap (kvm_pool k) p) = all_held (kvm_managers k) p)
    \<and> (\<forall>m \<in> set (kvm_managers k). \<forall>rid. distinct (filter (\<lambda>p. p \<in> real_blocks (kvm_pool k)) (blocks_of m rid)))
    \<and> get_num_free_blocks (kvm_pool k) = int (card {p \<in> real_blocks (kvm_pool k). all_held (kvm_managers k) p = 0})
    \<and> (\<exists>xs. get_all_free_blocks (kvm_pool k) = Some (Inr xs) \<and> distinct xs
        \<and> set xs = {p \<in> real_blocks (kvm_pool k). all_held (kvm_managers k) p = 0}
        \<and> get_num_free_blocks (kvm_pool k) = int (length xs))
    \<and> ((\<forall>p \<in> real_blocks (kvm_pool k). all_held (kvm_managers k) p = 0) \<longrightarrow>
         get_num_free_blocks (kvm_pool k) = num_gpu_blocks (kvm_pool k) - 1 \<and> snd (reset_prefix_cache (kvm_pool k)))"
proof -
  let ?s = "kvm_pool k" and ?ms = "kvm_managers k"
  have rel: "coord_rel (\<lambda>_. 0) ?s ?ms" using kvm_reach_inv [OF assms] by (simp add: kvm_inv_def coord_inv_def kvm_pool_def kvm_managers_def)
  then have refs: "\<forall>p \<in> real_blocks ?s. ref_cnt (heap ?s p) = all_held ?ms p" and inv: "pool_inv ?s" and wf: "\<forall>m \<in> set ?ms. mgr_wf ?s m"
    by (simp_all add: coord_rel_def)
  obtain xs where xs: "pool_rel ?s xs" using inv by (auto simp: pool_inv_def)
  have free: "num_free_blocks ?s = int (card {p \<in> real_blocks ?s. all_held ?ms p = 0})"
    unfolding free_number [OF inv] by (rule arg_cong [of _ _ "\<lambda>A. int (card A)"]) (use refs in auto)
  have queue: "\<exists>xs. get_all_free_blocks ?s = Some (Inr xs) \<and> distinct xs
      \<and> set xs = {p \<in> real_blocks ?s. all_held ?ms p = 0} \<and> num_free_blocks ?s = int (length xs)"
    using pool_inv_spelled [OF inv] refs by (auto simp: get_num_free_blocks_def)
  have none: "num_free_blocks ?s = num_gpu_blocks ?s - 1 \<and> snd (reset_prefix_cache ?s)"
    if "\<forall>p \<in> real_blocks ?s. all_held ?ms p = 0"
  proof -
    have "{p \<in> real_blocks ?s. all_held ?ms p = 0} = real_blocks ?s" using that by blast
    then show ?thesis
      using free card_real_blocks [OF pool_relD(2) [OF xs]] reset_prefix_cache_ok(1) [OF xs] that refs by simp
  qed
  show ?thesis
    unfolding get_num_free_blocks_def
    using refs wf free none blocks_of_ok by (intro conjI queue) (auto simp: blocks_ok_def)
qed

theorem kv_manager_invariant_witness:
  "\<exists>k. kv_cache_manager_init demo_config 8 2 False False False True 1 1 = Inr k
     \<and> (\<exists>xs. get_all_free_blocks (kvm_pool k) = Some (Inr xs) \<and> distinct xs
        \<and> set xs = {p \<in> real_blocks (kvm_pool k). all_held (kvm_managers k) p = 0})"
proof -
  obtain k where "kv_cache_manager_init demo_config 8 2 False False False True 1 1 = Inr k" "kvm_reach False k"
    using demo_kvm by blast
  with kv_manager_invariant [of False k] show ?thesis by blast
qed

text \<open>
  C4: \<^verbatim>\<open>allocate_slots\<close> keeps its promise. The state is reachable (so no group has attention sinks or
  Mamba's \<open>align\<close> mode); the request is either new, with its prefix cache hits and externally computed
  tokens and no blocks yet, or it has slots for its computed tokens (\<open>request_ready\<close>); hits and counts are
  those of a lookup, one list of real blocks per group, and do not exceed the maximal model length
  (\<open>request_fits\<close>); and unless caching is off or delayed, the full blocks of the request are hashed
  (\<open>cacheable\<close>). The call asks for new or external tokens, as it must. Then it never raises. It first releases the blocks before the attention window;
  it returns \<open>None\<close> exactly when the number of blocks that all groups then need exceeds the number of
  free blocks, and then nothing else has changed. Otherwise the request
  has, in every group, slots for all its tokens including lookahead (for cross attention, the
  encoder tokens): the blocks counted before the check are enough for every later stage. The blocks of
  other requests are never touched.
\<close>

theorem allocate_slots_correct:
  assumes "kvm_reach use_int k" and "0 \<le> n" and "0 \<le> lookahead" and "n \<noteq> 0 \<or> num_external \<noteq> 0"
    and "given = (case hits of None \<Rightarrow> empty_kv_cache_blocks k | Some b \<Rightarrow> b)"
    and "num_local = num_computed_tokens r + new_computed"
    and "request_fits k (group_blocks given) num_local num_external"
    and "num_local + num_external \<le> kvm_max_model_len k"
    and "request_ready k (request_id r) given num_local num_external"
    and "delay \<or> \<not> kvm_enable_caching k \<or> (\<forall>m \<in> set (kvm_managers k). cacheable r (kvm_pool k) m)"
    and "need = min (num_local + num_external + n + lookahead) (kvm_max_model_len k)"
  shows "\<exists>k' res. allocate_slots use_int r n new_computed hits lookahead num_external delay enc k = Inr (k', res)
    \<and> kvm_reach use_int k' \<and> list_all2 (same_others (request_id r)) (kvm_managers k) (kvm_managers k')
    \<and> (\<exists>kr. kvm_remove_skipped_blocks (request_id r) (num_local + num_external) k = Inr kr
        \<and> (res = None \<longleftrightarrow> get_num_free_blocks (kvm_pool kr)
             < all_blocks_needed (request_id r) need enc (num_local + num_external) kr (group_blocks given))
        \<and> (res = None \<longrightarrow> k' = kr))
    \<and> (res = None \<longrightarrow> list_all2 (window_kept (request_id r) (num_local + num_external) (null_block (kvm_pool k)))
         (kvm_managers k) (kvm_managers k'))
    \<and> (res \<noteq> None \<longrightarrow> (\<forall>m \<in> set (kvm_managers k'). enough_slots (request_id r) need enc m))"
proof -
  have "delay \<or> \<not> kvm_enable_caching k \<or> kvm_fresh k \<and> (\<forall>m \<in> set (kvm_managers k). cacheable r (kvm_pool k) m)"
    using assms(10) kvm_reach_fresh [OF assms(1)] by blast
  note total = allocate_slots_total [OF kvm_reach_inv [OF assms(1)] assms(2-4), where hits = hits and r = r
      and new_computed = new_computed, folded assms(5,6), OF assms(7-9) this, of use_int enc, folded assms(11)]
  note step = kvm_next [OF assms(1) step_allocate [where given = hits and k = k and r = r, folded assms(5)]]
  from total show ?thesis using step [OF assms(7) [unfolded assms(6)]] by blast
qed

theorem allocate_slots_correct_witness:
  "\<exists>k k' res. kv_cache_manager_init demo_config 8 2 False False False True 1 1 = Inr k
     \<and> allocate_slots False (demo_request ''r'' [1, 2, 3] [] None None) 3 0 None 0 0 False 0 k = Inr (k', res)
     \<and> kvm_reach False k'"
proof -
  obtain k where k: "kv_cache_manager_init demo_config 8 2 False False False True 1 1 = Inr k" "kvm_reach False k"
    "kvm_managers k = [new_manager FullAttentionManager (FullAttention demo_full) False 0 1 1]" "num_kv_cache_groups k = 1"
    "kvm_max_model_len k = 8" "\<not> kvm_enable_caching k"
    using demo_kvm by blast
  let ?r = "demo_request ''r'' [1, 2, 3] [] None None"
  have d: "num_computed_tokens ?r = 0" "request_id ?r = ''r''" by (simp_all add: demo_request_def)
  have fits: "request_fits k (group_blocks (empty_kv_cache_blocks k)) 0 0"
    using k(3-5) by (simp add: request_fits_def empty_kv_cache_blocks_def)
  have ready: "request_ready k (request_id ?r) (empty_kv_cache_blocks k) 0 0"
    using k(3) by (simp add: request_ready_def has_slots_def skip_count_def get_num_skipped_tokens_def new_manager_def)
  from allocate_slots_correct [OF k(2), of 3 0 0 "empty_kv_cache_blocks k" None 0 ?r 0 False 3 0] fits ready k(1,5,6) d
  show ?thesis by auto
qed

text \<open>
  C9: Releasing the blocks that attention skips never drops a block that is still read: in any reachable
  state the call succeeds in every group, lists keep their length, and a position changes only to the
  null block and only if all its tokens are among those that \<open>get_num_skipped_tokens\<close> of
  that group skips; other requests keep their blocks and no free block is lost.
\<close>

theorem remove_skipped_blocks_keeps_window:
  assumes "kvm_reach use_int k" and "0 \<le> tot"
  shows "\<exists>k'. kvm_remove_skipped_blocks rid tot k = Inr k' \<and> kvm_reach use_int k'
    \<and> list_all2 (\<lambda>m m'. (\<forall>q. q \<noteq> rid \<longrightarrow> blocks_of m' q = blocks_of m q)
        \<and> length (blocks_of m' rid) = length (blocks_of m rid)
        \<and> (\<forall>j < length (blocks_of m rid). blocks_of m' rid ! j = blocks_of m rid ! j
             \<or> blocks_of m' rid ! j = null_block (kvm_pool k)
                \<and> (\<exists>sk. get_num_skipped_tokens m tot = Inr sk \<and> (int j + 1) * mgr_block_size m \<le> sk)))
      (kvm_managers k) (kvm_managers k')"
proof -
  have inv: "coord_inv (coordinator k)" using kvm_reach_inv [OF assms(1)] by (simp add: kvm_inv_def)
  obtain c where c: "coordinator_remove_skipped_blocks rid tot (coordinator k) = Inr c"
    "list_all2 (window_kept rid tot (null_block (kvm_pool k))) (kvm_managers k) (single_type_managers c)"
    using skip_all [OF inv assms(2), of rid] by (auto simp: kvm_pool_def kvm_managers_def)
  have run: "kvm_remove_skipped_blocks rid tot k = Inr (k\<lparr>coordinator := c\<rparr>)"
    using c(1) by (simp add: kvm_remove_skipped_blocks_def)
  have "kvm_reach use_int (k\<lparr>coordinator := c\<rparr>)"
    by (rule kvm_next [OF assms(1) step_skip [OF assms(2) run]])
  moreover have "list_all2 (\<lambda>m m'. (\<forall>q. q \<noteq> rid \<longrightarrow> blocks_of m' q = blocks_of m q)
        \<and> length (blocks_of m' rid) = length (blocks_of m rid)
        \<and> (\<forall>j < length (blocks_of m rid). blocks_of m' rid ! j = blocks_of m rid ! j
             \<or> blocks_of m' rid ! j = null_block (kvm_pool k)
                \<and> (\<exists>sk. get_num_skipped_tokens m tot = Inr sk \<and> (int j + 1) * mgr_block_size m \<le> sk)))
      (kvm_managers k) (single_type_managers c)"
    using c(2) by (rule list_all2_mono) (unfold window_kept_def same_others_def, blast)
  ultimately show ?thesis using run by (simp add: kvm_managers_def)
qed

theorem remove_skipped_blocks_keeps_window_witness:
  "\<exists>k k'. kv_cache_manager_init demo_config 8 2 False False False True 1 1 = Inr k
     \<and> kvm_remove_skipped_blocks ''r'' 4 k = Inr k' \<and> kvm_reach False k'"
proof -
  obtain k where "kv_cache_manager_init demo_config 8 2 False False False True 1 1 = Inr k" "kvm_reach False k"
    using demo_kvm by blast
  with remove_skipped_blocks_keeps_window [of False k 4 "''r''"] show ?thesis by auto
qed

subsection \<open>Hits of a later group can be handed out to an earlier one\<close>

text \<open>A new request in a group that skips nothing: hits, then one block for external tokens.\<close>

lemma computed_trace:
  assumes rel: "pool_rel s xs" and bs: "0 < mgr_block_size m" and cls: "mgr_class m = FullAttentionManager"
    and new: "map_of (num_cached_block m) rid = None" "blocks_of m rid = []" and en: "mgr_enable_caching m"
    and p: "p \<in> real_blocks s" and xs: "filter (\<lambda>q. q \<noteq> p) xs = y # ys"
    and hit: "i < length hits" "hits ! i = [p]"
  shows "\<exists>s' m'. computed_call use_int rid hits (mgr_block_size m) (mgr_block_size m) (int i) s m = Inr (s', m', ())
    \<and> pool_rel s' ys \<and> same_config s s' \<and> same_others rid m m' \<and> blocks_of m' rid = [p, y]"
proof -
  let ?bs = "mgr_block_size m"
  have sub: "set [p] \<subseteq> set (blocks s)" using p real_in_blocks by auto
  obtain t where t: "touch [p] s = Inr t" "pool_rel t (y # ys)" "same_config s t"
    using touch_ok [OF rel sub] xs by (auto simp: shifted_def)
  have "1 \<le> num_free_blocks t" using fq_rel_num [OF pool_relD(1) [OF t(2)]] by simp
  then obtain u where u: "get_new_blocks use_int 1 t = Inr (u, [y])" "pool_rel u ys" "same_config t u"
    using get_new_blocks_ok [OF t(2), of 1 use_int] by (auto simp: alloc_effect_def)
  have two: "cdiv (2 * ?bs) ?bs = 2" using cdiv_multiple [OF bs, of 2] .
  have run: "base_allocate_new_computed_blocks use_int rid [p] ?bs ?bs s m =
      Inr (u, set_blocks rid [p, y] (m\<lparr>num_cached_block := AList.update rid 1 (num_cached_block m)\<rparr>))"
    using new en bs t(1) u(1) two
    by (simp add: base_allocate_new_computed_blocks_def get_num_skipped_tokens_def cls Let_def floordivE_def)
  have idx: "index_py hits (int i) = Inr [p]" using hit by (simp add: index_py_nonneg)
  have "computed_call use_int rid hits ?bs ?bs (int i) s m =
      Inr (u, set_blocks rid [p, y] (m\<lparr>num_cached_block := AList.update rid 1 (num_cached_block m)\<rparr>), ())"
    using run idx by (simp add: computed_call_def allocate_new_computed_blocks_def cls)
  with u(2) same_config_trans [OF t(3) u(3)] show ?thesis by (auto simp: same_others_def)
qed

text \<open>
  With two groups and tokens that a connector loads, the coordinator can give a block to both groups. Let
  the hit of the second group be the next block in the eviction order. While the first group takes a
  block for its external tokens, the hit of the second group has no reference yet, so it is that block:
  it loses its cached content, becomes a block of the first group, and is then
  put into the list of the second group as well.
\<close>

theorem external_tokens_take_hit_of_next_group:
  assumes "pool_rel (coord_pool c) (p # xs)" and "single_type_managers c = [m1, m2]"
    and "mgr_class m1 = FullAttentionManager" and "mgr_class m2 = FullAttentionManager"
    and "0 < mgr_block_size m1" and "mgr_block_size m2 = mgr_block_size m1"
    and "mgr_enable_caching m1" and "mgr_enable_caching m2"
    and "map_of (num_cached_block m1) rid = None" and "blocks_of m1 rid = []"
    and "map_of (num_cached_block m2) rid = None" and "blocks_of m2 rid = []"
    and "q \<in> real_blocks (coord_pool c)" and "q \<noteq> p" and "filter (\<lambda>x. x \<noteq> q) xs = y # ys"
  shows "\<exists>c' m1' m2'. coordinator_allocate_new_computed_blocks use_int rid [[q], [p]] (mgr_block_size m1) (mgr_block_size m1) c = Inr c'
    \<and> single_type_managers c' = [m1', m2'] \<and> blocks_of m1' rid = [q, p] \<and> blocks_of m2' rid = [p, y]"
proof -
  let ?bs = "mgr_block_size m1" and ?hits = "[[q], [p]]"
  have xs: "filter (\<lambda>x. x \<noteq> q) (p # xs) = p # y # ys" using assms(14,15) by auto
  obtain s1 m1' where a: "computed_call use_int rid ?hits ?bs ?bs (int 0) (coord_pool c) m1 = Inr (s1, m1', ())"
    "pool_rel s1 (y # ys)" "same_config (coord_pool c) s1" "blocks_of m1' rid = [q, p]"
    using computed_trace [OF assms(1,5,3,9,10,7,13) xs, of 0 ?hits use_int] by auto
  have "p \<in> set (p # xs)" by simp
  then have "p \<in> real_blocks (coord_pool c)" using pool_relD(4) [OF assms(1)] unfolding refs_ok_def by blast
  then have p: "p \<in> real_blocks s1" using same_config_ok(2) [OF a(3)] by simp
  have "distinct (p # xs)" using fq_rel_distinct [OF pool_relD(1) [OF assms(1)]] .
  then have "p \<notin> set (y # ys)" using assms(15) by (metis distinct.simps(2) filter_is_subset subsetD)
  then have ys: "filter (\<lambda>x. x \<noteq> p) (y # ys) = y # ys" by (auto intro!: filter_True)
  have bs2: "0 < mgr_block_size m2" using assms(5,6) by simp
  obtain s2 m2' where b: "computed_call use_int rid ?hits ?bs ?bs (int 1) s1 m2 = Inr (s2, m2', ())" "blocks_of m2' rid = [p, y]"
    using computed_trace [OF a(2) bs2 assms(4,11,12,8) p ys, of 1 ?hits use_int] assms(6) by auto
  show ?thesis
    using a(1,4) b assms(2)
    by (simp add: coordinator_allocate_new_computed_blocks_def on_managers_def)
qed

theorem external_tokens_take_hit_of_next_group_witness:
  "\<exists>s c c' m1' m2'. block_pool_init 5 True 2 True = Inr s
     \<and> c = \<lparr>coord_class = KVCacheCoordinatorNoPrefixCache, coord_config = demo_config, coord_enable_caching = True,
         coord_use_eagle = False, coord_pool = s,
         single_type_managers = [new_manager FullAttentionManager (FullAttention demo_full) True 0 1 1,
           new_manager FullAttentionManager (FullAttention demo_full) True 1 1 1]\<rparr>
     \<and> coordinator_allocate_new_computed_blocks False ''r'' [[Blk 2], [Blk 1]] 2 2 c = Inr c'
     \<and> single_type_managers c' = [m1', m2'] \<and> blocks_of m1' ''r'' = [Blk 2, Blk 1] \<and> blocks_of m2' ''r'' = [Blk 1, Blk 3]"
proof -
  have up: "map Blk [1..<nat 5] = [Blk 1, Blk 2, Blk 3, Blk 4]" by (simp add: upt_rec)
  obtain s where s: "block_pool_init 5 True 2 True = Inr s" "pool_rel s [Blk 1, Blk 2, Blk 3, Blk 4]" "num_gpu_blocks s = 5"
    using block_pool_init_rel [of 5 True 2 True] unfolding up by auto
  let ?m = "\<lambda>i. new_manager FullAttentionManager (FullAttention demo_full) True i 1 1"
  let ?c = "\<lparr>coord_class = KVCacheCoordinatorNoPrefixCache, coord_config = demo_config, coord_enable_caching = True,
         coord_use_eagle = False, coord_pool = s, single_type_managers = [?m 0, ?m 1]\<rparr>"
  have m: "mgr_class (?m i) = FullAttentionManager" "mgr_block_size (?m i) = 2" "mgr_enable_caching (?m i)"
      "map_of (num_cached_block (?m i)) ''r'' = None" "blocks_of (?m i) ''r'' = []" for i
    by (simp_all add: new_manager_def demo_full_def blocks_of_def)
  have "Blk 2 \<in> real_blocks s" using s(3) by (simp add: real_blocks_def)
  with external_tokens_take_hit_of_next_group [of ?c "Blk 1" "[Blk 2, Blk 3, Blk 4]" "?m 0" "?m 1" "''r''" "Blk 2" "Blk 3" "[Blk 4]" False]
    s(1,2) m show ?thesis by auto
qed

end
