(* ===== verification/Scheduler_State.thy ===== *)
theory Scheduler_State
  imports Kv_Cache_Manager Request_Queue Encoder_Cache "HOL-Library.Product_Lexorder"
begin

section \<open>The scheduler: settings, state and the operations on single requests\<close>

text \<open>
  The parts of \<^verbatim>\<open>vllm/v1/core/sched/scheduler.py\<close> that the scheduling step and the processing of
  model outputs share. Requests are objects that the dictionary \<^verbatim>\<open>requests\<close> and both queues share:
  the model keeps a store \<open>objects\<close> from request id to the current value, and a reference is the
  id. That is enough because the dictionary holds one object per id and a request whose id was
  removed from it is in no queue.

  The connectors (\<^verbatim>\<open>KVConnectorBase_V1\<close>, \<^verbatim>\<open>ECConnectorBase\<close>) and the structured output manager are interfaces to
  other subsystems. They are records of functions on one state of type \<open>'e\<close>, given to each
  operation that calls them. The store is not changed by these calls. Log probabilities, trace headers,
  performance statistics and log lines are left out. Wall-clock times are arguments.
\<close>

subsection \<open>The two encoder cache managers\<close>

datatype encoder_manager = DecoderOnly EncoderCacheManager | EncoderDecoder EncoderDecoderCacheManager

fun enc_check_and_update_cache :: "Request \<Rightarrow> nat \<Rightarrow> encoder_manager \<Rightarrow> (encoder_manager \<times> bool) result" where
  "enc_check_and_update_cache r i (DecoderOnly s) =
     bindE (check_and_update_cache r i s) (\<lambda>(s, b). Inr (DecoderOnly s, b))"
| "enc_check_and_update_cache r i (EncoderDecoder s) = Inr (EncoderDecoder s, ed_check_and_update_cache r i s)"

fun enc_can_allocate :: "Request \<Rightarrow> nat \<Rightarrow> int \<Rightarrow> int \<Rightarrow> encoder_manager \<Rightarrow> (encoder_manager \<times> bool) result" where
  "enc_can_allocate r i budget scheduled (DecoderOnly s) =
     bindE (can_allocate r i budget scheduled s) (\<lambda>(s, b). Inr (DecoderOnly s, b))"
| "enc_can_allocate r i budget scheduled (EncoderDecoder s) =
     bindE (ed_can_allocate r i budget scheduled s) (\<lambda>b. Inr (EncoderDecoder s, b))"

fun enc_allocate :: "Request \<Rightarrow> nat \<Rightarrow> encoder_manager \<Rightarrow> encoder_manager result" where
  "enc_allocate r i (DecoderOnly s) = bindE (allocate r i s) (\<lambda>s. Inr (DecoderOnly s))"
| "enc_allocate r i (EncoderDecoder s) = bindE (ed_allocate r i s) (\<lambda>s. Inr (EncoderDecoder s))"

fun enc_free_encoder_input :: "Request \<Rightarrow> nat \<Rightarrow> encoder_manager \<Rightarrow> encoder_manager result" where
  "enc_free_encoder_input r i (DecoderOnly s) = bindE (free_encoder_input r i s) (\<lambda>s. Inr (DecoderOnly s))"
| "enc_free_encoder_input r i (EncoderDecoder s) = bindE (ed_free_encoder_input r i s) (\<lambda>s. Inr (EncoderDecoder s))"

fun enc_free :: "Request \<Rightarrow> encoder_manager \<Rightarrow> encoder_manager result" where
  "enc_free r (DecoderOnly s) = bindE (free_request r s) (\<lambda>s. Inr (DecoderOnly s))"
| "enc_free r (EncoderDecoder s) = bindE (ed_free r s) (\<lambda>s. Inr (EncoderDecoder s))"

fun enc_get_cached_input_ids :: "Request \<Rightarrow> encoder_manager \<Rightarrow> nat list" where
  "enc_get_cached_input_ids r (DecoderOnly s) = get_cached_input_ids r s"
| "enc_get_cached_input_ids r (EncoderDecoder s) = ed_get_cached_input_ids r"

fun enc_get_freed_mm_hashes :: "encoder_manager \<Rightarrow> encoder_manager \<times> string list" where
  "enc_get_freed_mm_hashes (DecoderOnly s) = (let (s, hs) = get_freed_mm_hashes s in (DecoderOnly s, hs))"
| "enc_get_freed_mm_hashes (EncoderDecoder s) = (let (s, hs) = ed_get_freed_mm_hashes s in (EncoderDecoder s, hs))"

fun enc_reset :: "encoder_manager \<Rightarrow> encoder_manager" where
  "enc_reset (DecoderOnly s) = DecoderOnly (encoder_cache_reset s)"
| "enc_reset (EncoderDecoder s) = EncoderDecoder (ed_reset s)"

subsection \<open>Settings\<close>

text \<open>
  What the constructor takes from the configuration and never changes. \<open>mm_budget\<close> holds the encoder
  compute budget, the encoder cache size and the largest item of each modality; \<open>speculative\<close> the number of
  speculative tokens and whether the method is EAGLE or a draft model. The flag \<open>async_class\<close>
  tells the subclass \<^verbatim>\<open>AsyncScheduler\<close>.
\<close>

record scheduler_settings =
  policy :: SchedulingPolicy
  max_num_running_reqs :: int
  max_num_scheduled_tokens :: int
  model_len :: int
  long_prefill_token_threshold :: int
  enable_chunked_prefill :: bool
  no_chunked_mm_input :: bool
  async_scheduling :: bool
  async_class :: bool
  mm_budget :: "(int \<times> int \<times> (string, int) odict) option"
  is_encoder_decoder :: bool
  speculative :: "(int \<times> bool \<times> bool) option"
  kv_config :: KVCacheConfig
  sched_block_size :: int
  cache_block_size :: int
  mamba_mode :: string
  max_loras :: "int option"
  stats_on :: bool
  use_pp :: bool
  use_v2_model_runner :: bool
  recompute_kv_load_failures :: bool
  return_routed_experts :: bool
  use_int_hashes :: bool
  request_hasher :: "block_hasher option"

definition encoder_compute_limit :: "scheduler_settings \<Rightarrow> int" where
  "encoder_compute_limit cfg = (case mm_budget cfg of None \<Rightarrow> 0 | Some (compute, _, _) \<Rightarrow> compute)"

definition encoder_cache_limit :: "scheduler_settings \<Rightarrow> int" where
  "encoder_cache_limit cfg = (case mm_budget cfg of None \<Rightarrow> 0 | Some (_, slots, _) \<Rightarrow> slots)"

definition num_encoder_max_input_tokens :: "scheduler_settings \<Rightarrow> int" where
  "num_encoder_max_input_tokens cfg = (case mm_budget cfg of
     None \<Rightarrow> 0
   | Some (_, _, items) \<Rightarrow> if items = [] then 0 else Max (set (map snd items)))"

definition with_eagle :: "scheduler_settings \<Rightarrow> bool" where
  "with_eagle cfg = (case speculative cfg of None \<Rightarrow> False | Some (_, eagle, _) \<Rightarrow> eagle)"

definition num_spec_tokens :: "scheduler_settings \<Rightarrow> int" where
  "num_spec_tokens cfg = (case speculative cfg of None \<Rightarrow> 0 | Some (n, _, _) \<Rightarrow> n)"

definition num_lookahead_tokens :: "scheduler_settings \<Rightarrow> int" where
  "num_lookahead_tokens cfg = (case speculative cfg of
     None \<Rightarrow> 0 | Some (n, eagle, draft) \<Rightarrow> if eagle \<or> draft then n else 0)"

definition has_mamba_layers :: "KVCacheConfig \<Rightarrow> bool" where
  "has_mamba_layers c \<longleftrightarrow> list_ex (\<lambda>g. case kv_cache_spec g of LayerSpec (Mamba _) \<Rightarrow> True | _ \<Rightarrow> False) (kv_cache_groups c)"

definition need_mamba_block_aligned_split :: "scheduler_settings \<Rightarrow> bool" where
  "need_mamba_block_aligned_split cfg \<longleftrightarrow> has_mamba_layers (kv_config cfg) \<and> mamba_mode cfg = ''align''"

subsection \<open>What a step tells the workers\<close>

text \<open>\<^verbatim>\<open>vllm/v1/core/sched/output.py\<close>. The metadata of the connectors is opaque and left out.\<close>

record NewRequestData =
  new_req_id :: string
  new_prompt_token_ids :: "int list option"
  new_mm_features :: "MultiModalFeatureSpec list"
  new_sampling_params :: "SamplingParams option"
  new_pooling_params :: "PoolingParams option"
  new_req_block_ids :: "int list list"
  new_req_computed_tokens :: int
  new_lora_request :: "LoRARequest option"
  new_prompt_embeds :: "bytes list option"
  prefill_token_ids :: "int list option"

definition new_request_data :: "Request \<Rightarrow> int list list \<Rightarrow> int list option \<Rightarrow> NewRequestData" where
  "new_request_data r ids prefill =
     \<lparr>new_req_id = request_id r, new_prompt_token_ids = prompt_token_ids r, new_mm_features = mm_features r,
      new_sampling_params = sampling_params r, new_pooling_params = pooling_params r, new_req_block_ids = ids,
      new_req_computed_tokens = num_computed_tokens r, new_lora_request = lora_request r,
      new_prompt_embeds = prompt_embeds r, prefill_token_ids = prefill\<rparr>"

record CachedRequestData =
  req_ids :: "string list"
  resumed_req_ids :: "string list"
  new_token_ids :: "int list list"
  all_token_ids_of :: "(string, int list) odict"
  new_block_ids :: "int list list option list"
  req_computed_tokens :: "int list"
  req_output_tokens :: "int list"

definition empty_cached_request_data :: CachedRequestData where
  "empty_cached_request_data = \<lparr>req_ids = [], resumed_req_ids = [], new_token_ids = [], all_token_ids_of = [],
     new_block_ids = [], req_computed_tokens = [], req_output_tokens = []\<rparr>"

definition is_context_phase :: "string \<Rightarrow> CachedRequestData \<Rightarrow> bool" where
  "is_context_phase rid d \<longleftrightarrow> map_of (rev (zip (req_ids d) (req_output_tokens d))) rid = Some 0"

record SchedulerOutput =
  scheduled_new_data :: "NewRequestData list"
  scheduled_cached_reqs :: CachedRequestData
  out_num_scheduled_tokens :: "(string, int) odict"
  total_num_scheduled_tokens :: int
  out_spec_decode_tokens :: "(string, int list) odict"
  out_encoder_inputs :: "(string, nat list) odict"
  num_common_prefix_blocks :: "int list"
  out_finished_req_ids :: "string set"
  free_encoder_mm_hashes :: "string list"
  preempted_req_ids :: "string list"
  has_structured_output_requests :: bool
  pending_structured_output_tokens :: bool
  num_invalid_spec_tokens :: "(string, int) odict option"

record KVConnectorOutput =
  finished_sending :: "string list"
  finished_recving :: "string list"
  invalid_block_ids :: "int list"

subsection \<open>The services of other subsystems\<close>

type_synonym kv_params = "(string, string) odict option"

record 'e kv_connector =
  supports_hma :: bool
  get_num_new_matched_tokens :: "Request \<Rightarrow> int \<Rightarrow> 'e \<Rightarrow> 'e \<times> int option \<times> bool"
  update_state_after_alloc :: "Request \<Rightarrow> kv_blocks \<Rightarrow> int \<Rightarrow> 'e \<Rightarrow> 'e"
  build_connector_meta :: "SchedulerOutput \<Rightarrow> 'e \<Rightarrow> 'e"
  update_connector_output :: "KVConnectorOutput \<Rightarrow> 'e \<Rightarrow> 'e"
  request_finished :: "Request \<Rightarrow> int list \<Rightarrow> 'e \<Rightarrow> 'e \<times> bool \<times> kv_params"
  request_finished_all_groups :: "Request \<Rightarrow> int list list \<Rightarrow> 'e \<Rightarrow> 'e \<times> bool \<times> kv_params"
  connector_take_events :: "'e \<Rightarrow> 'e \<times> KVCacheEvent list"
  connector_reset_cache :: "'e \<Rightarrow> 'e \<times> bool option"

record 'e ec_connector =
  has_cache_item :: "string \<Rightarrow> 'e \<Rightarrow> bool"
  ec_update_state_after_alloc :: "Request \<Rightarrow> nat \<Rightarrow> 'e \<Rightarrow> 'e"
  ec_build_connector_meta :: "SchedulerOutput \<Rightarrow> 'e \<Rightarrow> 'e"

record 'e structured_output =
  grammar_ready :: "Request \<Rightarrow> 'e \<Rightarrow> bool"
  should_advance :: "Request \<Rightarrow> 'e \<Rightarrow> 'e \<times> bool"
  accept_tokens :: "Request \<Rightarrow> int list \<Rightarrow> 'e \<Rightarrow> 'e \<times> bool"
  validate_tokens :: "Request \<Rightarrow> int list \<Rightarrow> 'e \<Rightarrow> int list"
  grammar_bitmask :: "string list \<Rightarrow> (string, int list) odict \<Rightarrow> 'e \<Rightarrow> int list list"

record 'e services =
  connector :: "'e kv_connector option"
  ec_conn :: "'e ec_connector option"
  structured_output_manager :: "'e structured_output"

subsection \<open>State\<close>

text \<open>
  \<open>requests\<close> lists the keys of the dictionary in insertion order. Sets of ids stay sets: the code
  only adds, removes and tests ids, and hands them on as sets.
\<close>

record 'e Scheduler =
  objects :: "string \<Rightarrow> Request"
  requests :: "string list"
  waiting :: "string RequestQueue"
  running :: "string list"
  finished_req_ids :: "string set"
  finished_req_ids_dict :: "(int, string set) odict option"
  prev_step_scheduled_req_ids :: "string set"
  num_waiting_for_streaming_input :: int
  finished_recving_kv_req_ids :: "string set"
  failed_recving_kv_req_ids :: "string set"
  encoder_cache_manager :: encoder_manager
  kv_cache_manager :: KVCacheManager
  connector_prefix_cache_stats :: "PrefixCacheStats option"
  external :: 'e

text \<open>The constructor. The store of a new scheduler is arbitrary, as no id is in the dictionary.\<close>

definition scheduler_init ::
    "scheduler_settings \<Rightarrow> (string \<Rightarrow> Request) \<Rightarrow> int option \<Rightarrow> bool \<Rightarrow> bool \<Rightarrow> int \<Rightarrow> int \<Rightarrow> bool \<Rightarrow> 'e services \<Rightarrow> 'e
     \<Rightarrow> 'e Scheduler result" where
  "scheduler_init cfg store gpu_blocks caching kv_events dcp pcp finished_sets sv e =
     assertE (connector sv \<noteq> None \<longrightarrow> \<not> is_encoder_decoder cfg)
     (assertE (case gpu_blocks of None \<Rightarrow> False | Some n \<Rightarrow> n > 0)
     (assertE (is_encoder_decoder cfg \<longrightarrow> (case mm_budget cfg of None \<Rightarrow> False | Some (_, _, items) \<Rightarrow> length items \<le> 1))
     (bindE (kv_cache_manager_init (kv_config cfg) (model_len cfg) (sched_block_size cfg) caching (with_eagle cfg)
          (stats_on cfg) kv_events dcp pcp) (\<lambda>k.
      assertE (return_routed_experts cfg \<longrightarrow> dcp = 1 \<and> pcp = 1 \<and> kv_cache_groups (kv_config cfg) \<noteq> [])
      (Inr \<lparr>objects = store, requests = [], waiting = create_request_queue (policy cfg), running = [],
        finished_req_ids = {}, finished_req_ids_dict = (if finished_sets then Some [] else None),
        prev_step_scheduled_req_ids = {}, num_waiting_for_streaming_input = 0,
        finished_recving_kv_req_ids = {}, failed_recving_kv_req_ids = {},
        encoder_cache_manager =
          (if is_encoder_decoder cfg then EncoderDecoder (ed_init (encoder_cache_limit cfg))
           else DecoderOnly (encoder_cache_init (encoder_cache_limit cfg))),
        kv_cache_manager = k,
        connector_prefix_cache_stats = (if connector sv \<noteq> None \<and> stats_on cfg then Some new_stats else None),
        external = e\<rparr>)))))"

definition get_request :: "string \<Rightarrow> 'e Scheduler \<Rightarrow> Request option" where
  "get_request rid s = (if rid \<in> set (requests s) then Some (objects s rid) else None)"

definition modify_request :: "string \<Rightarrow> (Request \<Rightarrow> Request) \<Rightarrow> 'e Scheduler \<Rightarrow> 'e Scheduler" where
  "modify_request rid f s = s\<lparr>objects := (objects s)(rid := f (objects s rid))\<rparr>"

definition is_finished :: "Request \<Rightarrow> bool" where
  "is_finished r \<longleftrightarrow> status_is_finished (status r)"

definition block_ids_of :: "kv_blocks \<Rightarrow> 'e Scheduler \<Rightarrow> int list list result" where
  "block_ids_of b s = of_option TypeError (get_block_ids False (heap (coord_pool (coordinator (kv_cache_manager s)))) b)"

definition log_event :: "scheduler_settings \<Rightarrow> EngineCoreEventType \<Rightarrow> rat \<Rightarrow> Request \<Rightarrow> Request" where
  "log_event cfg e now r = (if stats_on cfg then record_event e now r else r)"

lemma log_event_simps [simp]:
  "status (log_event cfg e now r) = status r" "request_id (log_event cfg e now r) = request_id r"
  "resumable (log_event cfg e now r) = resumable r" "num_computed_tokens (log_event cfg e now r) = num_computed_tokens r"
  by (simp_all add: log_event_def record_event_def)

subsection \<open>How many tokens to schedule\<close>

text \<open>\<^verbatim>\<open>_mamba_block_aligned_split\<close>.\<close>

definition mamba_block_aligned_split :: "scheduler_settings \<Rightarrow> Request \<Rightarrow> int \<Rightarrow> int \<Rightarrow> int \<Rightarrow> int result" where
  "mamba_block_aligned_split cfg r num_new num_local num_external =
     assertE (num_external = 0)
       (if num_output_tokens r = 0 then
          (let block_size = cache_block_size cfg in
           if block_size = 0 then Inl ZeroDivisionError
           else
             (let last_pos = num_prompt_tokens r - num_prompt_tokens r mod block_size;
                  last_pos = (if with_eagle cfg then max (last_pos - block_size) 0 else last_pos);
                  computed = num_computed_tokens r + num_local + num_external;
                  computed_after = computed + num_new in
              Inr (if computed_after < last_pos then num_new div block_size * block_size
                   else if computed < last_pos \<and> last_pos < computed_after then last_pos - computed
                   else num_new)))
        else Inr num_new)"

text \<open>
  \<^verbatim>\<open>_try_schedule_encoder_inputs\<close>. The local variables of the loop: the tokens to schedule, the
  budget, the identifiers taken in this call, their embeddings, the inputs to compute and
  those to load from the other cache.
\<close>

record encoder_plan =
  plan_tokens :: int
  plan_budget :: int
  mm_hashes_to_schedule :: "string list"
  num_embeds_to_schedule :: int
  encoder_inputs_to_schedule :: "nat list"
  external_load_encoder_input :: "nat list"

definition encoder_input_step ::
    "scheduler_settings \<Rightarrow> (string \<Rightarrow> bool) \<Rightarrow> Request \<Rightarrow> int \<Rightarrow> int \<Rightarrow> nat \<Rightarrow> MultiModalFeatureSpec
     \<Rightarrow> encoder_manager \<Rightarrow> encoder_plan \<Rightarrow> (encoder_manager \<times> encoder_plan \<times> bool) result" where
  "encoder_input_step cfg remote r computed shift i f m p =
     (let start = offset (mm_position f); n = length_of (mm_position f); h = mm_identifier f in
      bindE (get_num_embeds (mm_position f)) (\<lambda>embeds.
      if start \<ge> computed + plan_tokens p + shift then Inr (m, p, False)
      else if is_encoder_decoder cfg \<and> computed > 0 then assertE (start = 0) (Inr (m, p, True))
      else if start + n \<le> computed then Inr (m, p, True)
      else
        bindE (if is_encoder_decoder cfg then Inr (m, False)
               else if h \<in> set (mm_hashes_to_schedule p) then Inr (m, True)
               else enc_check_and_update_cache r i m) (\<lambda>(m, present).
        if present then Inr (m, p, True)
        else if no_chunked_mm_input cfg \<and> computed < start \<and> computed + plan_tokens p < start + n
        then Inr (m, p\<lparr>plan_tokens := start - computed\<rparr>, False)
        else bindE (enc_can_allocate r i (plan_budget p) (num_embeds_to_schedule p) m) (\<lambda>(m, fits).
        if \<not> fits
        then Inr (m, p\<lparr>plan_tokens := (if computed + shift < start then start - (computed + shift) else 0)\<rparr>, False)
        else bindE (get_embeds_indices_in_range (mm_position f) (max 0 (computed - start))
                      (min n (computed + plan_tokens p - start))) (\<lambda>(first, last_end).
        if last_end - first = 0 then Inr (m, p, True)
        else if remote h
        then Inr (m, p\<lparr>mm_hashes_to_schedule := mm_hashes_to_schedule p @ [h],
                       external_load_encoder_input := external_load_encoder_input p @ [i],
                       num_embeds_to_schedule := num_embeds_to_schedule p + embeds\<rparr>, True)
        else Inr (m, p\<lparr>num_embeds_to_schedule := num_embeds_to_schedule p + embeds,
                       plan_budget := plan_budget p - embeds,
                       mm_hashes_to_schedule := mm_hashes_to_schedule p @ [h],
                       encoder_inputs_to_schedule := encoder_inputs_to_schedule p @ [i]\<rparr>, True))))))"

primrec encoder_input_loop ::
    "scheduler_settings \<Rightarrow> (string \<Rightarrow> bool) \<Rightarrow> Request \<Rightarrow> int \<Rightarrow> int \<Rightarrow> (nat \<times> MultiModalFeatureSpec) list
     \<Rightarrow> encoder_manager \<Rightarrow> encoder_plan \<Rightarrow> (encoder_manager \<times> encoder_plan) result" where
  "encoder_input_loop cfg remote r computed shift [] m p = Inr (m, p)"
| "encoder_input_loop cfg remote r computed shift (x # fs) m p =
     bindE (encoder_input_step cfg remote r computed shift (fst x) (snd x) m p) (\<lambda>(m, p, go).
     if go then encoder_input_loop cfg remote r computed shift fs m p else Inr (m, p))"

definition no_encoder_plan :: "int \<Rightarrow> int \<Rightarrow> encoder_plan" where
  "no_encoder_plan num_new budget = \<lparr>plan_tokens = num_new, plan_budget = budget, mm_hashes_to_schedule = [],
     num_embeds_to_schedule = 0, encoder_inputs_to_schedule = [], external_load_encoder_input = []\<rparr>"

definition remote_item :: "'e services \<Rightarrow> 'e \<Rightarrow> string \<Rightarrow> bool" where
  "remote_item sv e h = (case ec_conn sv of None \<Rightarrow> False | Some c \<Rightarrow> has_cache_item c h e)"

definition try_schedule_encoder_inputs ::
    "scheduler_settings \<Rightarrow> (string \<Rightarrow> bool) \<Rightarrow> Request \<Rightarrow> int \<Rightarrow> int \<Rightarrow> int \<Rightarrow> int \<Rightarrow> encoder_manager
     \<Rightarrow> (encoder_manager \<times> encoder_plan) result" where
  "try_schedule_encoder_inputs cfg remote r computed num_new budget shift m =
     (if num_new = 0 \<or> \<not> has_encoder_inputs r then Inr (m, no_encoder_plan num_new budget)
      else assertE (length (mm_features r) > 0)
        (encoder_input_loop cfg remote r computed shift (enumerate 0 (mm_features r)) m (no_encoder_plan num_new budget)))"

subsection \<open>Preemption and release\<close>

text \<open>\<^verbatim>\<open>_preempt_request\<close>; the caller has taken the request out of \<open>running\<close>.\<close>

definition preempt_request :: "scheduler_settings \<Rightarrow> rat \<Rightarrow> string \<Rightarrow> 'e Scheduler \<Rightarrow> 'e Scheduler result" where
  "preempt_request cfg now rid s =
     assertE (status (objects s rid) = RUNNING)
       (bindE (kvm_free (objects s rid) (kv_cache_manager s)) (\<lambda>k.
        bindE (enc_free (objects s rid) (encoder_cache_manager s)) (\<lambda>m.
        let s = s\<lparr>kv_cache_manager := k, encoder_cache_manager := m\<rparr>;
            s = modify_request rid (\<lambda>r. log_event cfg EVENT_PREEMPTED now
                  (r\<lparr>status := PREEMPTED, num_computed_tokens := 0, spec_token_ids := [],
                     num_preemptions := num_preemptions r + 1\<rparr>)) s
        in Inr (s\<lparr>waiting := prepend_request (objects s) rid (waiting s)\<rparr>))))"

text \<open>\<^verbatim>\<open>_connector_finished\<close>: whether the connector keeps the blocks, and the transfer parameters.\<close>

definition connector_finished :: "'e services \<Rightarrow> string \<Rightarrow> 'e Scheduler \<Rightarrow> ('e Scheduler \<times> bool \<times> kv_params) result" where
  "connector_finished sv rid s = (case connector sv of
     None \<Rightarrow> Inr (s, False, None)
   | Some c \<Rightarrow>
       bindE (kvm_remove_skipped_blocks rid (num_tokens (objects s rid)) (kv_cache_manager s)) (\<lambda>k.
       let s = s\<lparr>kv_cache_manager := k\<rparr> in
       bindE (block_ids_of (get_blocks rid k) s) (\<lambda>ids.
       if \<not> supports_hma c
       then assertE (num_kv_cache_groups k = 1)
         (let (e, res) = request_finished c (objects s rid) (hd ids) (external s) in Inr (s\<lparr>external := e\<rparr>, res))
       else (let (e, res) = request_finished_all_groups c (objects s rid) ids (external s) in
             Inr (s\<lparr>external := e\<rparr>, res)))))"

definition free_blocks_of :: "string \<Rightarrow> 'e Scheduler \<Rightarrow> 'e Scheduler result" where
  "free_blocks_of rid s =
     assertE (is_finished (objects s rid))
       (bindE (kvm_free (objects s rid) (kv_cache_manager s)) (\<lambda>k.
        if rid \<in> set (requests s) then Inr (s\<lparr>kv_cache_manager := k, requests := remove1 rid (requests s)\<rparr>)
        else Inl KeyError))"

text \<open>\<^verbatim>\<open>_free_request\<close>.\<close>

definition add_finished_id :: "int \<Rightarrow> string \<Rightarrow> (int, string set) odict \<Rightarrow> (int, string set) odict" where
  "add_finished_id client rid d =
     AList.update client (insert rid (case map_of d client of None \<Rightarrow> {} | Some ids \<Rightarrow> ids)) d"

definition release_request ::
    "'e services \<Rightarrow> string \<Rightarrow> bool \<Rightarrow> 'e Scheduler \<Rightarrow> ('e Scheduler \<times> kv_params) result" where
  "release_request sv rid delay s =
     assertE (is_finished (objects s rid))
       (bindE (connector_finished sv rid s) (\<lambda>(s, connector_delay, params).
        bindE (enc_free (objects s rid) (encoder_cache_manager s)) (\<lambda>m.
        let s = s\<lparr>encoder_cache_manager := m, finished_req_ids := insert rid (finished_req_ids s),
                  finished_req_ids_dict :=
                    map_option (add_finished_id (client_index (objects s rid)) rid) (finished_req_ids_dict s)\<rparr>
        in bindE (if delay \<or> connector_delay then Inr s else free_blocks_of rid s) (\<lambda>s. Inr (s, params)))))"

text \<open>
  \<^verbatim>\<open>finish_requests\<close>. The set of ids is a list without repetition, in the order in which the set is
  iterated. The first pass collects, the second frees.
\<close>

definition finish_collect :: "string \<Rightarrow> 'e Scheduler \<times> string list \<times> string list \<times> string list
    \<Rightarrow> 'e Scheduler \<times> string list \<times> string list \<times> string list" where
  "finish_collect rid = (\<lambda>(s, valid, from_running, from_waiting). case get_request rid s of
      None \<Rightarrow> (s, valid, from_running, from_waiting)
    | Some r \<Rightarrow>
        if is_finished r then (s, valid, from_running, from_waiting)
        else if status r = RUNNING then (s, valid @ [rid], from_running @ [rid], from_waiting)
        else ((if status r = WAITING_FOR_STREAMING_REQ
               then s\<lparr>num_waiting_for_streaming_input := num_waiting_for_streaming_input s - 1\<rparr> else s),
              valid @ [rid], from_running, from_waiting @ [rid]))"

definition finish_one :: "'e services \<Rightarrow> RequestStatus \<Rightarrow> string \<Rightarrow> 'e Scheduler \<Rightarrow> 'e Scheduler result" where
  "finish_one sv st rid s =
     (let (s, delay) =
        (if status (objects s rid) = WAITING_FOR_REMOTE_KVS
         then (s\<lparr>finished_recving_kv_req_ids := finished_recving_kv_req_ids s - {rid},
                 failed_recving_kv_req_ids := failed_recving_kv_req_ids s - {rid}\<rparr>,
               rid \<notin> finished_recving_kv_req_ids s)
         else (s, False));
          s = modify_request rid (\<lambda>r. r\<lparr>status := st\<rparr>) s
      in bindE (release_request sv rid delay s) (\<lambda>(s, _). Inr s))"

definition finish_requests ::
    "'e services \<Rightarrow> string list \<Rightarrow> RequestStatus \<Rightarrow> 'e Scheduler \<Rightarrow> 'e Scheduler result" where
  "finish_requests sv ids st s =
     assertE (status_is_finished st)
       (let (s, valid, from_running, from_waiting) = fold finish_collect ids (s, [], [], []);
            s = (if from_running \<noteq> [] then s\<lparr>running := remove_all_items (running s) from_running\<rparr> else s);
            s = (if from_waiting \<noteq> [] then s\<lparr>waiting := remove_requests (objects s) from_waiting (waiting s)\<rparr> else s)
        in foldE (finish_one sv st) valid s)"

subsection \<open>New requests and streaming sessions\<close>

text \<open>\<^verbatim>\<open>_update_request_as_session\<close> on the request alone, then with the scheduler's counter.\<close>

definition shift_feature :: "int \<Rightarrow> MultiModalFeatureSpec \<Rightarrow> MultiModalFeatureSpec" where
  "shift_feature base f = f\<lparr>mm_position := (mm_position f)\<lparr>offset := offset (mm_position f) + base\<rparr>\<rparr>"

definition session_update :: "scheduler_settings \<Rightarrow> StreamingUpdate \<Rightarrow> Request \<Rightarrow> Request result" where
  "session_update cfg u r =
     (let n = num_computed_tokens r;
          kept_output_tokens = slice (all_token_ids r) (num_prompt_tokens r) n;
          r = r\<lparr>all_token_ids := take (slice_bound (all_token_ids r) n) (all_token_ids r), output_token_ids := []\<rparr>
      in (case prompt_token_ids r of
            None \<Rightarrow> Inl AssertionError
          | Some prompt \<Rightarrow>
             (let new_tokens = (case su_prompt_token_ids u of None \<Rightarrow> [] | Some ts \<Rightarrow> ts);
                  features = (case su_mm_features u of None \<Rightarrow> [] | Some fs \<Rightarrow> map (shift_feature (num_tokens r)) fs);
                  prompt = prompt @ kept_output_tokens @ new_tokens;
                  r = r\<lparr>mm_features := mm_features r @ features, all_token_ids := all_token_ids r @ new_tokens,
                        prompt_token_ids := Some prompt\<rparr>
              in bindE (case request_hasher cfg of
                     None \<Rightarrow> Inr r
                   | Some f \<Rightarrow> bindE (f r) (\<lambda>hs. Inr (r\<lparr>block_hashes := block_hashes r @ hs\<rparr>))) (\<lambda>r.
                 Inr (r\<lparr>num_prompt_tokens := int (length prompt), arrival_time := su_arrival_time u,
                        sampling_params := su_sampling_params u\<rparr>)))))"

definition update_request_as_session ::
    "scheduler_settings \<Rightarrow> rat \<Rightarrow> string \<Rightarrow> StreamingUpdate \<Rightarrow> 'e Scheduler \<Rightarrow> 'e Scheduler result" where
  "update_request_as_session cfg now rid u s =
     bindE (session_update cfg u (objects s rid)) (\<lambda>r.
     let s = (if status r = WAITING_FOR_STREAMING_REQ
              then s\<lparr>num_waiting_for_streaming_input := num_waiting_for_streaming_input s - 1\<rparr> else s)
     in Inr (modify_request rid (\<lambda>_. log_event cfg QUEUED now (r\<lparr>status := WAITING\<rparr>)) s))"

text \<open>\<^verbatim>\<open>add_request\<close> of the scheduler.\<close>

definition scheduler_add_request ::
    "scheduler_settings \<Rightarrow> 'e services \<Rightarrow> rat \<Rightarrow> Request \<Rightarrow> 'e Scheduler \<Rightarrow> 'e Scheduler result" where
  "scheduler_add_request cfg sv now r s =
     (let rid = request_id r in
      case get_request rid s of
        Some existing \<Rightarrow>
          (let update = streaming_update_from_request r in
           if status existing \<noteq> WAITING_FOR_STREAMING_REQ
           then (case streaming_queue existing of
               None \<Rightarrow> Inl AssertionError
             | Some q \<Rightarrow> Inr (modify_request rid (\<lambda>x. x\<lparr>streaming_queue := Some (q @ [update])\<rparr>) s))
           else (case update of
               Some u \<Rightarrow> update_request_as_session cfg now rid u s
             | None \<Rightarrow> finish_requests sv [rid] FINISHED_ABORTED s))
      | None \<Rightarrow>
          (let s = modify_request rid (\<lambda>_. if resumable r then r\<lparr>streaming_queue := Some []\<rparr> else r) s;
               s = s\<lparr>waiting := add_request (objects s) rid (waiting s), requests := requests s @ [rid]\<rparr>
           in Inr (modify_request rid (log_event cfg QUEUED now) s)))"

text \<open>\<^verbatim>\<open>_handle_stopped_request\<close>: whether the request is finished.\<close>

definition handle_stopped_request ::
    "scheduler_settings \<Rightarrow> rat \<Rightarrow> string \<Rightarrow> 'e Scheduler \<Rightarrow> ('e Scheduler \<times> bool) result" where
  "handle_stopped_request cfg now rid s =
     (let r = objects s rid;
          requeue = (\<lambda>s. Inr (s\<lparr>waiting := add_request (objects s) rid (waiting s)\<rparr>, False)) in
      if \<not> resumable r then Inr (s, True)
      else (case streaming_queue r of
          Some (update # q) \<Rightarrow>
            (let s = modify_request rid (\<lambda>x. x\<lparr>streaming_queue := Some q\<rparr>) s in
             case update of
               None \<Rightarrow> Inr (s, True)
             | Some u \<Rightarrow> bindE (update_request_as_session cfg now rid u s) requeue)
        | _ \<Rightarrow> requeue ((modify_request rid (\<lambda>x. x\<lparr>status := WAITING_FOR_STREAMING_REQ\<rparr>) s)
                  \<lparr>num_waiting_for_streaming_input := num_waiting_for_streaming_input s + 1\<rparr>)))"

subsection \<open>Counters and resets\<close>

definition get_request_counts :: "'e Scheduler \<Rightarrow> nat \<times> nat" where
  "get_request_counts s = (length (running s), len_requests (waiting s))"

definition get_num_unfinished_requests :: "'e Scheduler \<Rightarrow> int" where
  "get_num_unfinished_requests s =
     int (len_requests (waiting s)) - num_waiting_for_streaming_input s + int (length (running s))"

definition has_finished_requests :: "'e Scheduler \<Rightarrow> bool" where
  "has_finished_requests s \<longleftrightarrow> finished_req_ids s \<noteq> {}"

definition reset_connector_cache :: "scheduler_settings \<Rightarrow> 'e services \<Rightarrow> 'e Scheduler \<Rightarrow> ('e Scheduler \<times> bool) result" where
  "reset_connector_cache cfg sv s = (case connector sv of
     None \<Rightarrow> Inr (s, False)
   | Some c \<Rightarrow>
      (let (e, res) = connector_reset_cache c (external s); s = s\<lparr>external := e\<rparr> in
       if res = Some False then Inr (s, False)
       else if stats_on cfg
       then (case connector_prefix_cache_stats s of
           None \<Rightarrow> Inl AssertionError
         | Some st \<Rightarrow> Inr (s\<lparr>connector_prefix_cache_stats := Some (st\<lparr>stats_reset := True\<rparr>)\<rparr>, True))
       else Inr (s, True)))"

text \<open>The loop of \<^verbatim>\<open>reset_prefix_cache\<close> that preempts every running request, the last one first.\<close>

primrec preempt_all :: "scheduler_settings \<Rightarrow> rat \<Rightarrow> string list \<Rightarrow> 'e Scheduler \<Rightarrow> 'e Scheduler result" where
  "preempt_all cfg now [] s = Inr s"
| "preempt_all cfg now (rid # rids) s =
     bindE (preempt_request cfg now rid (s\<lparr>running := butlast (running s)\<rparr>)) (\<lambda>s.
     preempt_all cfg now rids
       (modify_request rid (\<lambda>r. r\<lparr>num_output_placeholders := 0, discard_latest_async_tokens := True\<rparr>) s))"

definition scheduler_reset_prefix_cache ::
    "scheduler_settings \<Rightarrow> 'e services \<Rightarrow> rat \<Rightarrow> bool \<Rightarrow> bool \<Rightarrow> 'e Scheduler \<Rightarrow> ('e Scheduler \<times> bool) result" where
  "scheduler_reset_prefix_cache cfg sv now reset_running reset_connector s =
     bindE (if reset_running
            then bindE (preempt_all cfg now (rev (running s)) s) (\<lambda>s. Inr (s\<lparr>prev_step_scheduled_req_ids := {}\<rparr>))
            else Inr s) (\<lambda>s.
     bindE (kvm_reset_prefix_cache (kv_cache_manager s)) (\<lambda>(k, ok).
     let s = s\<lparr>kv_cache_manager := k\<rparr> in
     if reset_running \<and> \<not> ok then Inl RuntimeError
     else if reset_connector
     then bindE (reset_connector_cache cfg sv s) (\<lambda>(s, conn_ok). Inr (s, conn_ok \<and> ok))
     else Inr (s, ok)))"

definition reset_encoder_cache :: "'e Scheduler \<Rightarrow> 'e Scheduler" where
  "reset_encoder_cache s = s\<lparr>encoder_cache_manager := enc_reset (encoder_cache_manager s)\<rparr>"

end
