(* ===== verification/Scheduler.thy ===== *)
theory Scheduler
  imports Scheduler_State
begin

section \<open>The scheduling step\<close>

text \<open>
  \<^verbatim>\<open>Scheduler.schedule\<close> of \<^verbatim>\<open>vllm/v1/core/sched/scheduler.py\<close>: first the running requests get tokens, with
  preemption when blocks are short, then the waiting requests are admitted; the rest builds the
  output for the workers. The local variables of the method are the record \<open>step_plan\<close>. A loop
  body returns a flag that tells whether the loop goes on.
\<close>

record step_plan =
  scheduled_new_reqs :: "string list"
  scheduled_resumed_reqs :: "string list"
  scheduled_running_reqs :: "string list"
  preempted_reqs :: "string list"
  req_to_new_blocks :: "(string, kv_blocks) odict"
  num_scheduled_tokens :: "(string, int) odict"
  token_budget :: int
  scheduled_encoder_inputs :: "(string, nat list) odict"
  encoder_compute_budget :: int
  scheduled_spec_decode_tokens :: "(string, int list) odict"
  scheduled_loras :: "int set"
  skipped_waiting_requests :: "string RequestQueue"

definition new_plan :: "scheduler_settings \<Rightarrow> step_plan" where
  "new_plan cfg = \<lparr>scheduled_new_reqs = [], scheduled_resumed_reqs = [], scheduled_running_reqs = [],
     preempted_reqs = [], req_to_new_blocks = [], num_scheduled_tokens = [],
     token_budget = max_num_scheduled_tokens cfg, scheduled_encoder_inputs = [],
     encoder_compute_budget = encoder_compute_limit cfg, scheduled_spec_decode_tokens = [],
     scheduled_loras = {}, skipped_waiting_requests = create_request_queue (policy cfg)\<rparr>"

subsection \<open>Preemption\<close>

text \<open>\<^verbatim>\<open>max\<close> with a key returns the first greatest element and raises on an empty list.\<close>

fun max_by :: "('a \<Rightarrow> 'k :: linorder) \<Rightarrow> 'a list \<Rightarrow> 'a result" where
  "max_by key [] = Inl ValueError"
| "max_by key (x # xs) = Inr (foldl (\<lambda>best y. if key y > key best then y else best) x xs)"

definition preemption_key :: "(string \<Rightarrow> Request) \<Rightarrow> string \<Rightarrow> int \<times> rat" where
  "preemption_key st rid = (priority (st rid), arrival_time (st rid))"

text \<open>
  The victim, taken out of \<open>running\<close>. Under the priority policy it may have tokens in this step
  already; then its share is given back and the index moves with it.
\<close>

definition choose_victim ::
    "scheduler_settings \<Rightarrow> 'e Scheduler \<Rightarrow> step_plan \<Rightarrow> int \<Rightarrow> ('e Scheduler \<times> step_plan \<times> int \<times> string) result" where
  "choose_victim cfg s p i = (case policy cfg of
     PRIORITY \<Rightarrow>
       bindE (max_by (preemption_key (objects s)) (running s)) (\<lambda>v.
       let s = s\<lparr>running := remove1 v (running s)\<rparr> in
       if v \<in> set (scheduled_running_reqs p)
       then
         bindE (of_option KeyError (map_of (num_scheduled_tokens p) v)) (\<lambda>n.
         bindE (of_option KeyError (map_of (req_to_new_blocks p) v)) (\<lambda>_.
         bindE (case map_of (scheduled_encoder_inputs p) v of
              None \<Rightarrow> Inr 0
            | Some is \<Rightarrow> bindE (mapE (get_num_encoder_embeds (objects s v)) is) (\<lambda>ns. Inr (sum_list ns))) (\<lambda>embeds.
         Inr (s, p\<lparr>scheduled_running_reqs := remove1 v (scheduled_running_reqs p),
                   token_budget := token_budget p + n,
                   num_scheduled_tokens := AList.delete v (num_scheduled_tokens p),
                   req_to_new_blocks := AList.delete v (req_to_new_blocks p),
                   scheduled_spec_decode_tokens := AList.delete v (scheduled_spec_decode_tokens p),
                   scheduled_encoder_inputs := AList.delete v (scheduled_encoder_inputs p),
                   encoder_compute_budget := encoder_compute_budget p + embeds\<rparr>, i - 1, v))))
       else Inr (s, p, i, v))
   | FCFS \<Rightarrow>
       (if running s = [] then Inl IndexError
        else Inr (s\<lparr>running := butlast (running s)\<rparr>, p, i, last (running s))))"

lemma max_by_mem: "max_by key xs = Inr v \<Longrightarrow> v \<in> set xs"
proof (cases xs)
  case (Cons x xs')
  have "foldl (\<lambda>best y. if key y > key best then y else best) x xs' \<in> insert x (set xs')"
    by (induction xs' arbitrary: x) auto
  then show "max_by key xs = Inr v \<Longrightarrow> v \<in> set xs" using Cons by auto
qed simp

lemma choose_victim_shape:
  assumes "choose_victim cfg s p i = Inr (s', p', i', v)"
  shows "v \<in> set (running s) \<and> s' = s\<lparr>running := running s'\<rparr> \<and> mset (running s) = add_mset v (mset (running s'))
    \<and> (i' = i \<and> p' = p \<or> i' = i - 1)"
proof (cases "policy cfg")
  case FCFS
  then have "running s \<noteq> []" "s' = s\<lparr>running := butlast (running s)\<rparr>" "v = last (running s)" "i' = i" "p' = p"
    using assms by (auto simp: choose_victim_def split: if_splits)
  moreover from this have "mset (running s) = add_mset v (mset (butlast (running s)))"
    by (metis add_mset_add_single append_butlast_last_id mset_append mset_single_iff_right)
  ultimately show ?thesis by simp
next
  case PRIORITY
  then have v: "v \<in> set (running s)" and s': "s' = s\<lparr>running := remove1 v (running s)\<rparr>" and i: "i' = i \<and> p' = p \<or> i' = i - 1"
    using assms by (auto simp: choose_victim_def bindE_Inr_iff Let_def dest: max_by_mem split: if_splits)
  then show ?thesis by simp
qed

lemma choose_victim_running:
  assumes "choose_victim cfg s p i = Inr (s', p', i', v)"
  shows "int (length (running s')) = int (length (running s)) - 1"
    and "i' \<le> i" and "int (length (running s')) - i' \<le> int (length (running s)) - i"
proof -
  have c: "mset (running s) = add_mset v (mset (running s'))" "i' = i \<or> i' = i - 1"
    using choose_victim_shape [OF assms] by auto
  have "length (running s) = Suc (length (running s'))" using arg_cong [OF c(1), of size] by simp
  with c(2) show "int (length (running s')) = int (length (running s)) - 1" "i' \<le> i"
    "int (length (running s')) - i' \<le> int (length (running s)) - i" by auto
qed

lemma preempt_request_running: "preempt_request cfg now v s = Inr s' \<Longrightarrow> running s' = running s"
  by (auto simp: preempt_request_def bindE_Inr_iff Let_def modify_request_def)

text \<open>The \<^verbatim>\<open>while True\<close> loop: allocate slots, preempting until it works or the request itself is the victim.\<close>

function preempt_loop ::
    "scheduler_settings \<Rightarrow> rat \<Rightarrow> string \<Rightarrow> int \<Rightarrow> 'e Scheduler \<Rightarrow> step_plan \<Rightarrow> int
     \<Rightarrow> ('e Scheduler \<times> step_plan \<times> int \<times> kv_blocks option) result" where
  "preempt_loop cfg now rid n s p i =
     bindE (allocate_slots (use_int_hashes cfg) (objects s rid) n 0 None (num_lookahead_tokens cfg) 0 False 0
              (kv_cache_manager s)) (\<lambda>(k, new_blocks).
     let s = s\<lparr>kv_cache_manager := k\<rparr> in
     if new_blocks \<noteq> None then Inr (s, p, i, new_blocks)
     else
       bindE (choose_victim cfg s p i) (\<lambda>(s, p, i, victim).
       bindE (preempt_request cfg now victim s) (\<lambda>s.
       let p = p\<lparr>preempted_reqs := preempted_reqs p @ [victim]\<rparr> in
       if victim = rid then Inr (s, p, i, None) else preempt_loop cfg now rid n s p i)))"
  by pat_completeness auto

termination
  by (relation "measure (\<lambda>(cfg, now, rid, n, s, p, i). length (running s))")
    (auto dest!: preempt_request_running choose_victim_running(1))

declare preempt_loop.simps [simp del]

subsection \<open>The running requests\<close>

text \<open>
  With asynchronous scheduling a request whose pending output certainly ends it gets no further step.
\<close>

definition output_is_pending_end :: "Request \<Rightarrow> bool" where
  "output_is_pending_end r \<longleftrightarrow> num_output_placeholders r > 0
     \<and> num_computed_tokens r + 2 - num_output_placeholders r \<ge> num_prompt_tokens r + max_tokens r"

definition cap_prefill :: "scheduler_settings \<Rightarrow> int \<Rightarrow> int" where
  "cap_prefill cfg n =
     (if 0 < long_prefill_token_threshold cfg \<and> long_prefill_token_threshold cfg < n
      then long_prefill_token_threshold cfg else n)"

definition running_request_tokens :: "scheduler_settings \<Rightarrow> int \<Rightarrow> Request \<Rightarrow> int" where
  "running_request_tokens cfg budget r =
     min (min (cap_prefill cfg (num_tokens_with_spec r + num_output_placeholders r - num_computed_tokens r)) budget)
       (model_len cfg - 1 - num_computed_tokens r)"

text \<open>The draft tokens that fit into the scheduled tokens; the others are dropped.\<close>

definition scheduled_spec_tokens :: "int \<Rightarrow> Request \<Rightarrow> int list option" where
  "scheduled_spec_tokens n r =
     (if spec_token_ids r = [] then None
      else let k = n + num_computed_tokens r - num_tokens r - num_output_placeholders r in
        if k > 0
        then Some (if int (length (spec_token_ids r)) > k then take (nat k) (spec_token_ids r) else spec_token_ids r)
        else None)"

text \<open>The encoder inputs of a scheduled request enter the encoder cache.\<close>

definition enter_encoder_inputs ::
    "'e services \<Rightarrow> string \<Rightarrow> encoder_plan \<Rightarrow> 'e Scheduler \<Rightarrow> step_plan \<Rightarrow> ('e Scheduler \<times> step_plan) result" where
  "enter_encoder_inputs sv rid ep s p =
     (let r = objects s rid in
      bindE (foldE (enc_allocate r) (encoder_inputs_to_schedule ep) (encoder_cache_manager s)) (\<lambda>m.
      bindE (foldE (enc_allocate r) (external_load_encoder_input ep) m) (\<lambda>m.
      let e = (case ec_conn sv of
                 None \<Rightarrow> external s
               | Some c \<Rightarrow> fold (ec_update_state_after_alloc c r) (external_load_encoder_input ep) (external s));
          p = (if encoder_inputs_to_schedule ep = [] then p
               else p\<lparr>scheduled_encoder_inputs :=
                        AList.update rid (encoder_inputs_to_schedule ep) (scheduled_encoder_inputs p),
                      encoder_compute_budget := plan_budget ep\<rparr>)
      in Inr (s\<lparr>encoder_cache_manager := m, external := e\<rparr>, p))))"

definition commit_running ::
    "'e services \<Rightarrow> string \<Rightarrow> int \<Rightarrow> encoder_plan \<Rightarrow> kv_blocks \<Rightarrow> 'e Scheduler \<Rightarrow> step_plan \<Rightarrow> int
     \<Rightarrow> ('e Scheduler \<times> step_plan \<times> int \<times> bool) result" where
  "commit_running sv rid n ep new_blocks s p i =
     (let p = p\<lparr>scheduled_running_reqs := scheduled_running_reqs p @ [rid],
                req_to_new_blocks := AList.update rid new_blocks (req_to_new_blocks p),
                num_scheduled_tokens := AList.update rid n (num_scheduled_tokens p),
                token_budget := token_budget p - n\<rparr>;
          p = (case scheduled_spec_tokens n (objects s rid) of
                 None \<Rightarrow> p
               | Some ts \<Rightarrow> p\<lparr>scheduled_spec_decode_tokens := AList.update rid ts (scheduled_spec_decode_tokens p)\<rparr>);
          s = modify_request rid (\<lambda>r. r\<lparr>spec_token_ids := []\<rparr>) s
      in bindE (enter_encoder_inputs sv rid ep s p) (\<lambda>(s, p). Inr (s, p, i + 1, True)))"

text \<open>The encoder inputs and the final number of tokens of a running request.\<close>

definition running_encoder_plan ::
    "scheduler_settings \<Rightarrow> 'e services \<Rightarrow> 'e Scheduler \<Rightarrow> step_plan \<Rightarrow> Request \<Rightarrow> (encoder_manager \<times> encoder_plan) result" where
  "running_encoder_plan cfg sv s p r =
     (let n = running_request_tokens cfg (token_budget p) r in
      if has_encoder_inputs r
      then try_schedule_encoder_inputs cfg (remote_item sv (external s)) r (num_computed_tokens r) n
        (encoder_compute_budget p) (if with_eagle cfg then 1 else 0) (encoder_cache_manager s)
      else Inr (encoder_cache_manager s, no_encoder_plan n (encoder_compute_budget p)))"

definition running_split :: "scheduler_settings \<Rightarrow> Request \<Rightarrow> encoder_plan \<Rightarrow> int result" where
  "running_split cfg r ep =
     (if need_mamba_block_aligned_split cfg then mamba_block_aligned_split cfg r (plan_tokens ep) 0 0
      else Inr (plan_tokens ep))"

text \<open>The body of the first loop: request number \<open>i\<close> of \<open>running\<close>.\<close>

definition schedule_running_one ::
    "scheduler_settings \<Rightarrow> 'e services \<Rightarrow> rat \<Rightarrow> 'e Scheduler \<Rightarrow> step_plan \<Rightarrow> int
     \<Rightarrow> ('e Scheduler \<times> step_plan \<times> int \<times> bool) result" where
  "schedule_running_one cfg sv now s p i =
     bindE (index_py (running s) i) (\<lambda>rid.
     let r = objects s rid in
     if output_is_pending_end r then Inr (s, p, i + 1, True)
     else
       bindE (running_encoder_plan cfg sv s p r) (\<lambda>(m, ep).
       let s = s\<lparr>encoder_cache_manager := m\<rparr> in
       bindE (running_split cfg r ep) (\<lambda>n.
       if n = 0 then Inr (s, p, i + 1, True)
       else
         bindE (preempt_loop cfg now rid n s p i) (\<lambda>(s, p, i, new_blocks). case new_blocks of
           None \<Rightarrow> Inr (s, p, i, False)
         | Some b \<Rightarrow> commit_running sv rid n ep b s p i))))"

lemma preempt_loop_rule:
  assumes "preempt_loop cfg now rid n s p i = Inr (s', p', i', b)" and "P s p i"
    and "\<And>s p i k res. P s p i \<Longrightarrow> allocate_slots (use_int_hashes cfg) (objects s rid) n 0 None
        (num_lookahead_tokens cfg) 0 False 0 (kv_cache_manager s) = Inr (k, res) \<Longrightarrow> P (s\<lparr>kv_cache_manager := k\<rparr>) p i"
    and "\<And>s p i s1 p1 i1 v s2. P s p i \<Longrightarrow> choose_victim cfg s p i = Inr (s1, p1, i1, v) \<Longrightarrow>
        preempt_request cfg now v s1 = Inr s2 \<Longrightarrow>
        (if v = rid then Q else P) s2 (p1\<lparr>preempted_reqs := preempted_reqs p1 @ [v]\<rparr>) i1"
  shows "(if b = None then Q else P) s' p' i'"
  using assms(1,2)
proof (induction "length (running s)" arbitrary: s p i rule: less_induct)
  case less
  from less.prems(1) obtain k res where k: "allocate_slots (use_int_hashes cfg) (objects s rid) n 0 None
      (num_lookahead_tokens cfg) 0 False 0 (kv_cache_manager s) = Inr (k, res)"
    by (subst (asm) preempt_loop.simps) (auto elim: bindE_InrE)
  let ?s = "s\<lparr>kv_cache_manager := k\<rparr>"
  have P: "P ?s p i" using assms(3) [OF less.prems(2) k] .
  show ?case
  proof (cases res)
    case (Some r)
    then have "s' = ?s \<and> p' = p \<and> i' = i \<and> b = Some r"
      using less.prems(1) k by (subst (asm) preempt_loop.simps) simp
    with P show ?thesis by simp
  next
    case None
    from less.prems(1) k None obtain s1 p1 i1 v s2 where v: "choose_victim cfg ?s p i = Inr (s1, p1, i1, v)"
      "preempt_request cfg now v s1 = Inr s2" and
      go: "(if v = rid then Inr (s2, p1\<lparr>preempted_reqs := preempted_reqs p1 @ [v]\<rparr>, i1, None)
        else preempt_loop cfg now rid n s2 (p1\<lparr>preempted_reqs := preempted_reqs p1 @ [v]\<rparr>) i1) = Inr (s', p', i', b)"
      by (subst (asm) preempt_loop.simps) (auto simp: Let_def elim!: bindE_InrE)
    have l: "length (running s2) < length (running s)"
      using choose_victim_running(1) [OF v(1)] preempt_request_running [OF v(2)] by simp
    note next_P = assms(4) [OF P v]
    show ?thesis
    proof (cases "v = rid")
      case True
      with go next_P show ?thesis by auto
    next
      case False
      with go next_P less.hyps [OF l] show ?thesis by simp
    qed
  qed
qed

lemma preempt_loop_running:
  assumes "preempt_loop cfg now rid n s p i = Inr (s', p', i', b)"
  shows "i' \<le> i" and "int (length (running s')) - i' \<le> int (length (running s)) - i"
proof -
  let ?P = "\<lambda>t q j. j \<le> i \<and> int (length (running t)) - j \<le> int (length (running s)) - i"
  have "(if b = None then ?P else ?P) s' p' i'"
    by (rule preempt_loop_rule [OF assms]) (use choose_victim_running preempt_request_running in fastforce)+
  then show "i' \<le> i" "int (length (running s')) - i' \<le> int (length (running s)) - i" by (auto split: if_splits)
qed

text \<open>The three ways in which the body of the loop ends.\<close>

lemma schedule_running_one_cases:
  assumes "schedule_running_one cfg sv now s p i = Inr (s', p', i', go)"
  obtains (ended) "s' = s" "p' = p" "i' = i + 1" "go"
  | (skipped) rid m ep where "index_py (running s) i = Inr rid"
      "running_encoder_plan cfg sv s p (objects s rid) = Inr (m, ep)" "running_split cfg (objects s rid) ep = Inr 0"
      "s' = s\<lparr>encoder_cache_manager := m\<rparr>" "p' = p" "i' = i + 1" "go"
  | (stuck) rid m ep n where "index_py (running s) i = Inr rid"
      "running_encoder_plan cfg sv s p (objects s rid) = Inr (m, ep)" "running_split cfg (objects s rid) ep = Inr n" "n \<noteq> 0"
      "preempt_loop cfg now rid n (s\<lparr>encoder_cache_manager := m\<rparr>) p i = Inr (s', p', i', None)" "\<not> go"
  | (scheduled) rid m ep n s1 p1 i1 b where "index_py (running s) i = Inr rid"
      "running_encoder_plan cfg sv s p (objects s rid) = Inr (m, ep)" "running_split cfg (objects s rid) ep = Inr n" "n \<noteq> 0"
      "preempt_loop cfg now rid n (s\<lparr>encoder_cache_manager := m\<rparr>) p i = Inr (s1, p1, i1, Some b)"
      "commit_running sv rid n ep b s1 p1 i1 = Inr (s', p', i', go)"
proof -
  from assms obtain rid where rid: "index_py (running s) i = Inr rid"
    by (auto simp: schedule_running_one_def elim: bindE_InrE)
  note u = assms [unfolded schedule_running_one_def rid bindE.simps Let_def]
  show thesis
  proof (cases "output_is_pending_end (objects s rid)")
    case True
    with u ended show thesis by simp
  next
    case False
    with u obtain m ep n where m: "running_encoder_plan cfg sv s p (objects s rid) = Inr (m, ep)"
      "running_split cfg (objects s rid) ep = Inr n" and
      run: "(if n = 0 then Inr (s\<lparr>encoder_cache_manager := m\<rparr>, p, i + 1, True)
        else bindE (preempt_loop cfg now rid n (s\<lparr>encoder_cache_manager := m\<rparr>) p i) (\<lambda>(s, p, i, new_blocks). case new_blocks of
           None \<Rightarrow> Inr (s, p, i, False)
         | Some b \<Rightarrow> commit_running sv rid n ep b s p i)) = Inr (s', p', i', go)"
      by (auto elim!: bindE_InrE)
    show thesis
    proof (cases "n = 0")
      case True
      with run skipped [OF rid m(1)] m(2) show thesis by simp
    next
      case False
      with run obtain s1 p1 i1 res where l: "preempt_loop cfg now rid n (s\<lparr>encoder_cache_manager := m\<rparr>) p i = Inr (s1, p1, i1, res)"
        and c: "(case res of None \<Rightarrow> Inr (s1, p1, i1, False) | Some b \<Rightarrow> commit_running sv rid n ep b s1 p1 i1) = Inr (s', p', i', go)"
        by (auto elim!: bindE_InrE)
      show thesis
      proof (cases res)
        case None
        with stuck [OF rid m False] l c show thesis by simp
      next
        case (Some b)
        with scheduled [OF rid m False] l c show thesis by simp
      qed
    qed
  qed
qed

lemma commit_running_shape:
  assumes "commit_running sv rid n ep b s p i = Inr (s', p', i', go)"
  shows "running s' = running s \<and> i' = i + 1 \<and> go"
  using assms by (auto simp: commit_running_def enter_encoder_inputs_def modify_request_def Let_def elim!: bindE_InrE)

lemma schedule_running_one_progress:
  assumes "schedule_running_one cfg sv now s p i = Inr (s', p', i', True)"
  shows "int (length (running s')) - i' < int (length (running s)) - i"
  using assms
proof (cases rule: schedule_running_one_cases)
  case (scheduled rid m ep n s1 p1 i1 b)
  with preempt_loop_running(2) [OF scheduled(5)] commit_running_shape [OF scheduled(6)] show ?thesis by simp
qed simp_all

function running_loop ::
    "scheduler_settings \<Rightarrow> 'e services \<Rightarrow> rat \<Rightarrow> 'e Scheduler \<Rightarrow> step_plan \<Rightarrow> int \<Rightarrow> ('e Scheduler \<times> step_plan) result" where
  "running_loop cfg sv now s p i =
     (if i < int (length (running s)) \<and> token_budget p > 0
      then bindE (schedule_running_one cfg sv now s p i) (\<lambda>(s, p, i, go).
             if go then running_loop cfg sv now s p i else Inr (s, p))
      else Inr (s, p))"
  by pat_completeness auto
termination
  by (relation "measure (\<lambda>(cfg, sv, now, s, p, i). nat (int (length (running s)) - i))")
    (auto dest!: schedule_running_one_progress)

declare running_loop.simps [simp del]

text \<open>The adapters that the running requests use, and the limit on their number.\<close>

definition adapter_id :: "Request \<Rightarrow> int option" where
  "adapter_id r = map_option lora_int_id (lora_request r)"

definition record_loras :: "scheduler_settings \<Rightarrow> 'e Scheduler \<Rightarrow> step_plan \<Rightarrow> step_plan result" where
  "record_loras cfg s p = (case max_loras cfg of
     None \<Rightarrow> Inr p
   | Some limit \<Rightarrow>
       (let ids = set (filter (\<lambda>a. a > 0) (List.map_filter (\<lambda>rid. adapter_id (objects s rid)) (scheduled_running_reqs p))) in
        assertE (int (card ids) \<le> limit) (Inr (p\<lparr>scheduled_loras := ids\<rparr>))))"

subsection \<open>The waiting requests\<close>

text \<open>\<^verbatim>\<open>_update_waiting_for_remote_kv\<close>: whether the transfer is complete.\<close>

definition update_waiting_for_remote_kv ::
    "scheduler_settings \<Rightarrow> 'e services \<Rightarrow> string \<Rightarrow> 'e Scheduler \<Rightarrow> ('e Scheduler \<times> bool) result" where
  "update_waiting_for_remote_kv cfg sv rid s =
     assertE (connector sv \<noteq> None)
       (let r = objects s rid; k = kv_cache_manager s; use_int = use_int_hashes cfg in
        if rid \<notin> finished_recving_kv_req_ids s then Inr (s, False)
        else
          bindE (if rid \<in> failed_recving_kv_req_ids s
                 then bindE (if num_computed_tokens r \<noteq> 0 then kvm_cache_blocks use_int r (num_computed_tokens r) k
                             else kvm_free r k) (\<lambda>k.
                   Inr (s\<lparr>kv_cache_manager := k, failed_recving_kv_req_ids := failed_recving_kv_req_ids s - {rid}\<rparr>))
                 else bindE (block_ids_of (get_blocks rid k) s) (\<lambda>groups. case groups of
                   [ids] \<Rightarrow>
                     (let n = min (int (length ids) * sched_block_size cfg) (num_tokens r);
                          n = (if n = num_tokens r then n - 1 else n)
                      in bindE (kvm_cache_blocks use_int r n k) (\<lambda>k.
                           Inr (modify_request rid (\<lambda>r. r\<lparr>num_computed_tokens := n\<rparr>) (s\<lparr>kv_cache_manager := k\<rparr>))))
                 | _ \<Rightarrow> Inl ValueError)) (\<lambda>s.
          Inr (s\<lparr>finished_recving_kv_req_ids := finished_recving_kv_req_ids s - {rid}\<rparr>, True)))"

text \<open>The checks of the status of the first waiting request: \<open>False\<close> means that it is skipped.\<close>

definition remote_kv_check ::
    "scheduler_settings \<Rightarrow> 'e services \<Rightarrow> string \<Rightarrow> 'e Scheduler \<Rightarrow> ('e Scheduler \<times> bool) result" where
  "remote_kv_check cfg sv rid s =
     (if status (objects s rid) = WAITING_FOR_REMOTE_KVS
      then bindE (update_waiting_for_remote_kv cfg sv rid s) (\<lambda>(s, is_ready).
             if is_ready
             then Inr (modify_request rid
                    (\<lambda>r. r\<lparr>status := (if num_preemptions r \<noteq> 0 then PREEMPTED else WAITING)\<rparr>) s, True)
             else Inr (s, False))
      else Inr (s, True))"

definition waiting_request_ready ::
    "scheduler_settings \<Rightarrow> 'e services \<Rightarrow> string \<Rightarrow> 'e Scheduler \<Rightarrow> ('e Scheduler \<times> bool) result" where
  "waiting_request_ready cfg sv rid s =
     bindE (remote_kv_check cfg sv rid s) (\<lambda>(s, is_ready).
     if \<not> is_ready then Inr (s, False)
     else
       (let r = objects s rid in
        if status r = WAITING_FOR_FSM
        then (if use_structured_output r \<and> grammar_ready (structured_output_manager sv) r (external s)
              then Inr (modify_request rid (\<lambda>r. r\<lparr>status := WAITING\<rparr>) s, True)
              else Inr (s, False))
        else if status r = WAITING_FOR_STREAMING_REQ
        then assertE (streaming_queue r = None \<or> streaming_queue r = Some []) (Inr (s, False))
        else Inr (s, True)))"

definition exceeds_max_loras :: "scheduler_settings \<Rightarrow> step_plan \<Rightarrow> Request \<Rightarrow> bool" where
  "exceeds_max_loras cfg p r = (case max_loras cfg of
     None \<Rightarrow> False
   | Some limit \<Rightarrow> (case adapter_id r of
       None \<Rightarrow> False
     | Some a \<Rightarrow> int (card (scheduled_loras p)) = limit \<and> a \<notin> scheduled_loras p))"

definition skip_waiting ::
    "string \<Rightarrow> 'e Scheduler \<Rightarrow> step_plan \<Rightarrow> ('e Scheduler \<times> step_plan \<times> bool) result" where
  "skip_waiting rid s p =
     bindE (pop_request (objects s) (waiting s)) (\<lambda>(q, _).
     Inr (s\<lparr>waiting := q\<rparr>,
          p\<lparr>skipped_waiting_requests := prepend_request (objects s) rid (skipped_waiting_requests p)\<rparr>, True))"

text \<open>
  The tokens that are computed already: blocks of the prefix cache, their tokens, the tokens
  of the connector, whether those arrive asynchronously, and all of them together. \<open>None\<close> when
  the connector cannot tell yet.
\<close>

record cached_prefix =
  new_computed_blocks :: kv_blocks
  num_local_computed :: int
  num_external_computed :: int
  load_kv_async :: bool
  total_computed :: int
  prefix_cache_queries :: int

definition find_cached_prefix ::
    "scheduler_settings \<Rightarrow> 'e services \<Rightarrow> string \<Rightarrow> 'e Scheduler \<Rightarrow> ('e Scheduler \<times> cached_prefix option) result" where
  "find_cached_prefix cfg sv rid s =
     (let r = objects s rid in
      if num_computed_tokens r = 0
      then bindE (of_run (get_computed_blocks r (kv_cache_manager s))) (\<lambda>(k, blocks, n).
        let s = s\<lparr>kv_cache_manager := k\<rparr> in
        case connector sv of
          None \<Rightarrow> Inr (s, Some \<lparr>new_computed_blocks = blocks, num_local_computed = n, num_external_computed = 0,
            load_kv_async = False, total_computed = n, prefix_cache_queries = 0\<rparr>)
        | Some c \<Rightarrow>
           (let (e, ext, async) = get_num_new_matched_tokens c r n (external s);
                s = s\<lparr>external := e\<rparr>
            in case ext of
                 None \<Rightarrow> Inr (s, None)
               | Some t \<Rightarrow> Inr (modify_request rid (\<lambda>r. r\<lparr>num_external_computed_tokens := t\<rparr>) s,
                   Some \<lparr>new_computed_blocks = blocks, num_local_computed = n, num_external_computed = t,
                     load_kv_async = async, total_computed = n + t, prefix_cache_queries = num_tokens r - n\<rparr>)))
      else Inr (s, Some \<lparr>new_computed_blocks = empty_kv_cache_blocks (kv_cache_manager s), num_local_computed = 0,
             num_external_computed = 0, load_kv_async = False, total_computed = num_computed_tokens r,
             prefix_cache_queries = 0\<rparr>))"

text \<open>The number of new tokens, with the encoder inputs; \<open>None\<close> ends the loop.\<close>

definition waiting_request_tokens ::
    "scheduler_settings \<Rightarrow> 'e services \<Rightarrow> 'e Scheduler \<Rightarrow> step_plan \<Rightarrow> Request \<Rightarrow> cached_prefix
     \<Rightarrow> (encoder_manager \<times> encoder_plan option) result" where
  "waiting_request_tokens cfg sv s p r c =
     (let m = encoder_cache_manager s; budget = encoder_compute_budget p in
      if load_kv_async c
      then assertE (num_external_computed c > 0) (Inr (m, Some (no_encoder_plan 0 budget)))
      else
        (let n = cap_prefill cfg (num_tokens r - total_computed c) in
         if \<not> enable_chunked_prefill cfg \<and> n > token_budget p then Inr (m, None)
         else
           (let n = min n (token_budget p) in
            assertE (n > 0)
              (if has_encoder_inputs r
               then bindE (try_schedule_encoder_inputs cfg (remote_item sv (external s)) r (total_computed c) n budget
                        (if with_eagle cfg then 1 else 0) m) (\<lambda>(m, ep).
                    Inr (m, if plan_tokens ep = 0 then None else Some ep))
               else Inr (m, Some (no_encoder_plan n budget))))))"

definition waiting_split :: "scheduler_settings \<Rightarrow> Request \<Rightarrow> cached_prefix \<Rightarrow> encoder_plan option \<Rightarrow> (encoder_plan \<times> int) option result" where
  "waiting_split cfg r c ep = (case ep of
     None \<Rightarrow> Inr None
   | Some ep \<Rightarrow>
       if need_mamba_block_aligned_split cfg
       then bindE (mamba_block_aligned_split cfg r (plan_tokens ep) (num_local_computed c) (num_external_computed c)) (\<lambda>n.
            Inr (if n = 0 then None else Some (ep, n)))
       else Inr (Some (ep, plan_tokens ep)))"

text \<open>
  What follows the allocation for the first waiting request. The request that \<^verbatim>\<open>pop_request\<close> returns is the
  one that was peeked at.
\<close>

definition tell_connector ::
    "'e services \<Rightarrow> string \<Rightarrow> cached_prefix \<Rightarrow> 'e Scheduler \<Rightarrow> 'e Scheduler" where
  "tell_connector sv rid c s = (case connector sv of
     None \<Rightarrow> s
   | Some conn \<Rightarrow>
       (let r = objects s rid;
            e = update_state_after_alloc conn r (get_blocks rid (kv_cache_manager s)) (num_external_computed c) (external s)
        in s\<lparr>external := e,
             connector_prefix_cache_stats :=
               (if prefix_cache_queries c \<noteq> 0
                then map_option (record_stats (prefix_cache_queries c) (num_external_computed c) (num_preemptions r > 0))
                       (connector_prefix_cache_stats s)
                else connector_prefix_cache_stats s)\<rparr>))"

definition list_admitted :: "string \<Rightarrow> RequestStatus \<Rightarrow> step_plan \<Rightarrow> step_plan result" where
  "list_admitted rid st p = (case st of
     WAITING \<Rightarrow> Inr (p\<lparr>scheduled_new_reqs := scheduled_new_reqs p @ [rid]\<rparr>)
   | PREEMPTED \<Rightarrow> Inr (p\<lparr>scheduled_resumed_reqs := scheduled_resumed_reqs p @ [rid]\<rparr>)
   | _ \<Rightarrow> Inl RuntimeError)"

definition book_admitted :: "scheduler_settings \<Rightarrow> string \<Rightarrow> Request \<Rightarrow> int \<Rightarrow> kv_blocks \<Rightarrow> step_plan \<Rightarrow> step_plan" where
  "book_admitted cfg rid r n b p =
     p\<lparr>scheduled_loras := (case (max_loras cfg, adapter_id r) of
         (Some _, Some a) \<Rightarrow> insert a (scheduled_loras p) | _ \<Rightarrow> scheduled_loras p),
       req_to_new_blocks := AList.update rid b (req_to_new_blocks p),
       num_scheduled_tokens := AList.update rid n (num_scheduled_tokens p),
       token_budget := token_budget p - n\<rparr>"

definition start_request :: "cached_prefix \<Rightarrow> Request \<Rightarrow> Request" where
  "start_request c r = r\<lparr>status := RUNNING, num_computed_tokens := total_computed c,
     num_cached_tokens := (if num_cached_tokens r < 0 then total_computed c else num_cached_tokens r)\<rparr>"

definition commit_waiting ::
    "scheduler_settings \<Rightarrow> 'e services \<Rightarrow> rat \<Rightarrow> string \<Rightarrow> int \<Rightarrow> encoder_plan \<Rightarrow> cached_prefix \<Rightarrow> 'e Scheduler \<Rightarrow> step_plan
     \<Rightarrow> ('e Scheduler \<times> step_plan \<times> bool) result" where
  "commit_waiting cfg sv now rid n ep c s p =
     bindE (pop_request (objects s) (waiting s)) (\<lambda>(q, _).
     let s = s\<lparr>waiting := q\<rparr> in
     if load_kv_async c
     then Inr (modify_request rid (\<lambda>r. r\<lparr>status := WAITING_FOR_REMOTE_KVS\<rparr>) s,
               p\<lparr>skipped_waiting_requests := prepend_request (objects s) rid (skipped_waiting_requests p)\<rparr>, True)
     else
       (let s = modify_request rid (log_event cfg SCHEDULED now) (s\<lparr>running := running s @ [rid]\<rparr>) in
        bindE (list_admitted rid (status (objects s rid)) p) (\<lambda>p.
        bindE (enter_encoder_inputs sv rid ep (modify_request rid (start_request c) s)
                 (book_admitted cfg rid (objects s rid) n (get_blocks rid (kv_cache_manager s)) p)) (\<lambda>(s, p).
        Inr (s, p, True)))))"

definition admission_slots ::
    "scheduler_settings \<Rightarrow> Request \<Rightarrow> int \<Rightarrow> cached_prefix \<Rightarrow> KVCacheManager \<Rightarrow> (KVCacheManager \<times> kv_blocks option) result" where
  "admission_slots cfg r n c k =
     allocate_slots (use_int_hashes cfg) r n (num_local_computed c) (Some (new_computed_blocks c))
       (if num_computed_tokens r = 0 then 0 else num_lookahead_tokens cfg) (num_external_computed c) (load_kv_async c)
       (if is_encoder_decoder cfg \<and> has_encoder_inputs r then num_encoder_max_input_tokens cfg else 0) k"

definition admit_waiting ::
    "scheduler_settings \<Rightarrow> 'e services \<Rightarrow> rat \<Rightarrow> string \<Rightarrow> int \<Rightarrow> encoder_plan \<Rightarrow> cached_prefix \<Rightarrow> 'e Scheduler \<Rightarrow> step_plan
     \<Rightarrow> ('e Scheduler \<times> step_plan \<times> bool) result" where
  "admit_waiting cfg sv now rid n ep c s p =
     bindE (admission_slots cfg (objects s rid) n c (kv_cache_manager s)) (\<lambda>(k, new_blocks).
     let r = objects s rid; s = s\<lparr>kv_cache_manager := k\<rparr> in
     if new_blocks = None
     then bindE (if has_encoder_inputs r then enc_free r (encoder_cache_manager s) else Inr (encoder_cache_manager s)) (\<lambda>m.
            Inr (s\<lparr>encoder_cache_manager := m\<rparr>, p, False))
     else commit_waiting cfg sv now rid n ep c (tell_connector sv rid c s) p)"

text \<open>The body of the second loop.\<close>

definition schedule_waiting_one ::
    "scheduler_settings \<Rightarrow> 'e services \<Rightarrow> rat \<Rightarrow> 'e Scheduler \<Rightarrow> step_plan \<Rightarrow> ('e Scheduler \<times> step_plan \<times> bool) result" where
  "schedule_waiting_one cfg sv now s p =
     bindE (peek_request (waiting s)) (\<lambda>rid.
     bindE (waiting_request_ready cfg sv rid s) (\<lambda>(s, is_ready).
     if \<not> is_ready \<or> exceeds_max_loras cfg p (objects s rid) then skip_waiting rid s p
     else
       bindE (find_cached_prefix cfg sv rid s) (\<lambda>(s, found). case found of
         None \<Rightarrow> skip_waiting rid s p
       | Some c \<Rightarrow>
           bindE (waiting_request_tokens cfg sv s p (objects s rid) c) (\<lambda>(m, ep).
           let s = s\<lparr>encoder_cache_manager := m\<rparr> in
           bindE (waiting_split cfg (objects s rid) c ep) (\<lambda>split. case split of
             None \<Rightarrow> Inr (s, p, False)
           | Some (ep, n) \<Rightarrow> admit_waiting cfg sv now rid n ep c s p)))))"

subsection \<open>The second loop ends\<close>

text \<open>What the checks and lookups for one request leave alone: the queues, the dictionary and other requests.\<close>

definition same_queues :: "string \<Rightarrow> 'e Scheduler \<Rightarrow> 'e Scheduler \<Rightarrow> bool" where
  "same_queues rid s s' \<longleftrightarrow> waiting s' = waiting s \<and> running s' = running s \<and> requests s' = requests s
     \<and> finished_req_ids s' = finished_req_ids s \<and> (\<forall>x. x \<noteq> rid \<longrightarrow> objects s' x = objects s x)
     \<and> request_id (objects s' rid) = request_id (objects s rid)"

lemma same_queues_refl [simp]: "same_queues rid s s"
  by (simp add: same_queues_def)

lemma same_queues_trans: "same_queues rid a b \<Longrightarrow> same_queues rid b c \<Longrightarrow> same_queues rid a c"
  by (simp add: same_queues_def)

lemma modify_request_simps [simp]:
  "waiting (modify_request rid f s) = waiting s" "running (modify_request rid f s) = running s"
  "requests (modify_request rid f s) = requests s" "finished_req_ids (modify_request rid f s) = finished_req_ids s"
  "kv_cache_manager (modify_request rid f s) = kv_cache_manager s"
  "encoder_cache_manager (modify_request rid f s) = encoder_cache_manager s"
  "external (modify_request rid f s) = external s"
  "objects (modify_request rid f s) rid = f (objects s rid)"
  "x \<noteq> rid \<Longrightarrow> objects (modify_request rid f s) x = objects s x"
  by (simp_all add: modify_request_def)

lemma update_waiting_for_remote_kv_frame:
  "update_waiting_for_remote_kv cfg sv rid s = Inr (s', b) \<Longrightarrow> same_queues rid s s'"
  by (auto simp: update_waiting_for_remote_kv_def same_queues_def Let_def elim!: bindE_InrE split: if_splits list.splits)

lemma waiting_request_ready_frame:
  assumes "waiting_request_ready cfg sv rid s = Inr (s', b)"
  shows "same_queues rid s s'"
proof -
  from assms obtain s1 ok where s1: "remote_kv_check cfg sv rid s = Inr (s1, ok)"
    and rest: "same_queues rid s1 s'"
    by (auto simp: waiting_request_ready_def same_queues_def Let_def elim!: bindE_InrE split: if_splits)
  have "same_queues rid s s1"
    using s1 by (auto simp: remote_kv_check_def same_queues_def elim!: bindE_InrE split: if_splits
        dest!: update_waiting_for_remote_kv_frame)
  with rest same_queues_trans show ?thesis by blast
qed

lemma find_cached_prefix_frame:
  "find_cached_prefix cfg sv rid s = Inr (s', c) \<Longrightarrow> same_queues rid s s'"
  by (auto simp: find_cached_prefix_def same_queues_def Let_def elim!: bindE_InrE split: if_splits option.splits prod.splits)

text \<open>The ways in which the body of the loop ends.\<close>

lemma schedule_waiting_one_cases:
  assumes "schedule_waiting_one cfg sv now s p = Inr (s', p', go)"
  obtains (skipped) rid s1 s0 ok where "peek_request (waiting s) = Inr rid" "same_queues rid s s1"
      "skip_waiting rid s1 p = Inr (s', p', go)" "waiting_request_ready cfg sv rid s = Inr (s0, ok)"
      "s1 = s0 \<or> (\<exists>found. find_cached_prefix cfg sv rid s0 = Inr (s1, found))"
  | (stopped) rid s1 s2 c m ep where "peek_request (waiting s) = Inr rid"
      "waiting_request_ready cfg sv rid s = Inr (s1, True)" "find_cached_prefix cfg sv rid s1 = Inr (s2, Some c)"
      "waiting_request_tokens cfg sv s2 p (objects s2 rid) c = Inr (m, ep)"
      "s' = s2\<lparr>encoder_cache_manager := m\<rparr>" "p' = p" "\<not> go"
  | (admitted) rid s1 s2 c m ep ep' n where "peek_request (waiting s) = Inr rid"
      "waiting_request_ready cfg sv rid s = Inr (s1, True)" "find_cached_prefix cfg sv rid s1 = Inr (s2, Some c)"
      "waiting_request_tokens cfg sv s2 p (objects s2 rid) c = Inr (m, ep)"
      "waiting_split cfg (objects s2 rid) c ep = Inr (Some (ep', n))"
      "admit_waiting cfg sv now rid n ep' c (s2\<lparr>encoder_cache_manager := m\<rparr>) p = Inr (s', p', go)"
proof -
  from assms obtain rid s1 ok where r: "peek_request (waiting s) = Inr rid" "waiting_request_ready cfg sv rid s = Inr (s1, ok)"
    by (auto simp: schedule_waiting_one_def elim!: bindE_InrE)
  note u = assms [unfolded schedule_waiting_one_def r bindE.simps prod.case]
  note f1 = waiting_request_ready_frame [OF r(2)]
  show thesis
  proof (cases "\<not> ok \<or> exceeds_max_loras cfg p (objects s1 rid)")
    case True
    then show thesis using u skipped [OF r(1) f1] r(2) by simp
  next
    case False
    with u obtain s2 found where s2: "find_cached_prefix cfg sv rid s1 = Inr (s2, found)" by (auto elim!: bindE_InrE)
    note f2 = same_queues_trans [OF f1 find_cached_prefix_frame [OF s2]]
    show thesis
    proof (cases found)
      case None
      then show thesis using u False s2 skipped [OF r(1) f2 _ r(2)] by simp
    next
      case (Some c)
      with u False s2 obtain m ep split where w: "waiting_request_tokens cfg sv s2 p (objects s2 rid) c = Inr (m, ep)"
        "waiting_split cfg (objects s2 rid) c ep = Inr split" and
        c: "(case split of None \<Rightarrow> Inr (s2\<lparr>encoder_cache_manager := m\<rparr>, p, False)
           | Some (ep, n) \<Rightarrow> admit_waiting cfg sv now rid n ep c (s2\<lparr>encoder_cache_manager := m\<rparr>) p) = Inr (s', p', go)"
        by (auto simp: Let_def elim!: bindE_InrE)
      have ok: "ok = True" using False by simp
      show thesis
      proof (cases split)
        case None
        with c stopped [OF r(1) _ _ w(1)] r(2) s2 Some ok show thesis by simp
      next
        case (Some en)
        then obtain ep' n where "split = Some (ep', n)" by (cases en) simp
        with c admitted [OF r(1) _ _ w(1)] r(2) s2 \<open>found = Some c\<close> ok w(2) show thesis by simp
      qed
    qed
  qed
qed

text \<open>An admission that goes on has taken the request from the queue.\<close>

lemma commit_waiting_queue:
  assumes "commit_waiting cfg sv now rid n ep c s p = Inr (s', p', go)"
  shows "\<exists>x. pop_request (objects s) (waiting s) = Inr (waiting s', x)"
  using assms
  by (auto simp: commit_waiting_def enter_encoder_inputs_def Let_def elim!: bindE_InrE split: if_splits)

lemma admit_waiting_queue:
  assumes "admit_waiting cfg sv now rid n ep c s p = Inr (s', p', True)"
  shows "\<exists>x. pop_request (objects s) (waiting s) = Inr (waiting s', x)"
proof -
  from assms obtain k where "commit_waiting cfg sv now rid n ep c (tell_connector sv rid c (s\<lparr>kv_cache_manager := k\<rparr>)) p = Inr (s', p', True)"
    by (auto simp: admit_waiting_def Let_def elim!: bindE_InrE split: if_splits)
  from commit_waiting_queue [OF this] show ?thesis by (auto simp: tell_connector_def Let_def split: option.splits)
qed

lemma schedule_waiting_one_progress:
  assumes "schedule_waiting_one cfg sv now s p = Inr (s', p', True)"
  shows "size (queue_bag (waiting s')) < size (queue_bag (waiting s))"
  using assms
proof (cases rule: schedule_waiting_one_cases)
  case (skipped rid s1)
  then obtain x where "pop_request (objects s1) (waiting s) = Inr (waiting s', x)"
    by (auto simp: skip_waiting_def same_queues_def elim!: bindE_InrE)
  from bag_pop_request [OF this] show ?thesis by simp
next
  case (admitted rid s1 s2 c m ep ep' n)
  have "waiting s2 = waiting s"
    using waiting_request_ready_frame [OF admitted(2)] find_cached_prefix_frame [OF admitted(3)] by (simp add: same_queues_def)
  with admit_waiting_queue [OF admitted(6)] obtain x where "pop_request (objects s2) (waiting s) = Inr (waiting s', x)" by auto
  from bag_pop_request [OF this] show ?thesis by simp
qed simp

function waiting_loop ::
    "scheduler_settings \<Rightarrow> 'e services \<Rightarrow> rat \<Rightarrow> 'e Scheduler \<Rightarrow> step_plan \<Rightarrow> ('e Scheduler \<times> step_plan) result" where
  "waiting_loop cfg sv now s p =
     (if has_requests (waiting s) \<and> token_budget p > 0
      then if int (length (running s)) = max_num_running_reqs cfg then Inr (s, p)
           else bindE (schedule_waiting_one cfg sv now s p) (\<lambda>(s, p, go).
                  if go then waiting_loop cfg sv now s p else Inr (s, p))
      else Inr (s, p))"
  by pat_completeness auto
termination
  by (relation "measure (\<lambda>(cfg, sv, now, s, p). size (queue_bag (waiting s)))")
    (auto dest!: schedule_waiting_one_progress)

declare waiting_loop.simps [simp del]

subsection \<open>The output of the step\<close>

definition lookup_blocks :: "string \<Rightarrow> step_plan \<Rightarrow> kv_blocks result" where
  "lookup_blocks rid p = of_option KeyError (map_of (req_to_new_blocks p) rid)"

definition make_new_request_data ::
    "scheduler_settings \<Rightarrow> 'e Scheduler \<Rightarrow> step_plan \<Rightarrow> string list \<Rightarrow> NewRequestData list result" where
  "make_new_request_data cfg s p rids =
     mapE (\<lambda>rid. bindE (lookup_blocks rid p) (\<lambda>b. bindE (block_ids_of b s) (\<lambda>ids.
       Inr (new_request_data (objects s rid) ids
              (if use_v2_model_runner cfg then Some (all_token_ids (objects s rid)) else None))))) rids"

text \<open>\<^verbatim>\<open>_make_cached_request_data\<close>: the new tokens are only sent with pipeline parallelism.\<close>

definition pp_token_ids :: "step_plan \<Rightarrow> string \<Rightarrow> Request \<Rightarrow> int list result" where
  "pp_token_ids p rid r =
     bindE (of_option KeyError (map_of (num_scheduled_tokens p) rid)) (\<lambda>n.
     let spec = (case map_of (scheduled_spec_decode_tokens p) rid of None \<Rightarrow> [] | Some ts \<Rightarrow> ts);
         k = n - int (length spec)
     in Inr (slice (all_token_ids r) (num_computed_tokens r) (num_computed_tokens r + k)))"

definition make_cached_request_data ::
    "scheduler_settings \<Rightarrow> 'e Scheduler \<Rightarrow> step_plan \<Rightarrow> string list \<Rightarrow> string list \<Rightarrow> CachedRequestData result" where
  "make_cached_request_data cfg s p running_ids resumed_ids =
     (let ids = running_ids @ resumed_ids; prev = prev_step_scheduled_req_ids s; req = objects s in
      bindE (if use_pp cfg \<and> \<not> async_scheduling cfg then mapE (\<lambda>rid. pp_token_ids p rid (req rid)) ids else Inr []) (\<lambda>tokens.
      assertE (\<forall>rid \<in> set resumed_ids. rid \<notin> prev)
        (bindE (mapE (\<lambda>rid. bindE (lookup_blocks rid p) (\<lambda>b.
             Inr (get_block_ids True (heap (coord_pool (coordinator (kv_cache_manager s)))) b))) ids) (\<lambda>blocks.
         Inr \<lparr>req_ids = ids, resumed_req_ids = resumed_ids, new_token_ids = tokens,
              all_token_ids_of =
                fold (\<lambda>rid. AList.update rid (all_token_ids (req rid))) (filter (\<lambda>rid. rid \<notin> prev) ids) [],
              new_block_ids = blocks,
              req_computed_tokens = map (\<lambda>rid. num_computed_tokens (req rid)) ids,
              req_output_tokens = map (\<lambda>rid. num_output_tokens (req rid) + num_output_placeholders (req rid)) ids\<rparr>))))"

text \<open>The constraints that the method asserts after its two loops.\<close>

definition step_constraints :: "scheduler_settings \<Rightarrow> 'e Scheduler \<Rightarrow> step_plan \<Rightarrow> bool" where
  "step_constraints cfg s p \<longleftrightarrow>
     sum_list (map snd (num_scheduled_tokens p)) \<le> max_num_scheduled_tokens cfg
     \<and> token_budget p \<ge> 0
     \<and> int (length (running s)) \<le> max_num_running_reqs cfg
     \<and> length (scheduled_new_reqs p) + length (scheduled_resumed_reqs p) + length (scheduled_running_reqs p)
       \<le> length (running s)"

definition common_prefix :: "scheduler_settings \<Rightarrow> 'e Scheduler \<Rightarrow> ('e Scheduler \<times> int list) result" where
  "common_prefix cfg s = (case running s of
     [] \<Rightarrow> Inr (s, replicate (length (kv_cache_groups (kv_config cfg))) 0)
   | rid # _ \<Rightarrow> bindE (kvm_get_num_common_prefix_blocks rid (kv_cache_manager s)) (\<lambda>(k, ns).
       Inr (s\<lparr>kv_cache_manager := k\<rparr>, ns)))"

definition build_output ::
    "scheduler_settings \<Rightarrow> 'e services \<Rightarrow> 'e Scheduler \<Rightarrow> step_plan \<Rightarrow> ('e Scheduler \<times> SchedulerOutput) result" where
  "build_output cfg sv s p =
     bindE (common_prefix cfg s) (\<lambda>(s, prefixes).
     let (fresh, resumed) =
           (if use_v2_model_runner cfg then (scheduled_new_reqs p @ scheduled_resumed_reqs p, [])
            else (scheduled_new_reqs p, scheduled_resumed_reqs p)) in
     bindE (make_new_request_data cfg s p fresh) (\<lambda>new_data.
     bindE (make_cached_request_data cfg s p (scheduled_running_reqs p) resumed) (\<lambda>cached.
     let (m, hashes) = enc_get_freed_mm_hashes (encoder_cache_manager s);
         out = \<lparr>scheduled_new_data = new_data, scheduled_cached_reqs = cached,
           out_num_scheduled_tokens = num_scheduled_tokens p,
           total_num_scheduled_tokens = sum_list (map snd (num_scheduled_tokens p)),
           out_spec_decode_tokens = scheduled_spec_decode_tokens p, out_encoder_inputs = scheduled_encoder_inputs p,
           num_common_prefix_blocks = prefixes, out_finished_req_ids = finished_req_ids s,
           free_encoder_mm_hashes = hashes, preempted_req_ids = remdups (preempted_reqs p),
           has_structured_output_requests = False, pending_structured_output_tokens = False,
           num_invalid_spec_tokens = None\<rparr>;
         e = (case connector sv of None \<Rightarrow> external s | Some c \<Rightarrow> build_connector_meta c out (external s));
         e = (case ec_conn sv of None \<Rightarrow> e | Some c \<Rightarrow> ec_build_connector_meta c out e)
     in Inr (s\<lparr>prev_step_scheduled_req_ids := set (map fst (num_scheduled_tokens p)), encoder_cache_manager := m,
               external := e\<rparr>, out))))"

subsection \<open>After the step\<close>

text \<open>\<^verbatim>\<open>_free_encoder_inputs\<close>: encoder outputs that the decoder has consumed.\<close>

definition free_encoder_inputs ::
    "scheduler_settings \<Rightarrow> Request \<Rightarrow> encoder_manager \<Rightarrow> encoder_manager result" where
  "free_encoder_inputs cfg r m =
     foldE (\<lambda>i m.
       let pos = mm_position (mm_features r ! i) in
       if (is_encoder_decoder cfg \<and> num_computed_tokens r > 0) \<or> offset pos + length_of pos \<le> num_computed_tokens r
       then enc_free_encoder_input r i m else Inr m) (enc_get_cached_input_ids r m) m"

definition advance_request ::
    "scheduler_settings \<Rightarrow> string \<times> int \<Rightarrow> 'e Scheduler \<times> SchedulerOutput \<Rightarrow> ('e Scheduler \<times> SchedulerOutput) result" where
  "advance_request cfg = (\<lambda>(rid, n) (s, out).
     if rid \<notin> set (requests s) then Inl KeyError
     else
       (let s = modify_request rid (\<lambda>r. r\<lparr>num_computed_tokens := num_computed_tokens r + n,
              is_prefill_chunk := num_computed_tokens r + n < num_tokens r + num_output_placeholders r\<rparr>) s;
            r = objects s rid;
            out = out\<lparr>has_structured_output_requests := has_structured_output_requests out \<or> use_structured_output r\<rparr>
        in bindE (if has_encoder_inputs r then free_encoder_inputs cfg r (encoder_cache_manager s)
                  else Inr (encoder_cache_manager s)) (\<lambda>m.
           Inr (s\<lparr>encoder_cache_manager := m\<rparr>, out))))"

text \<open>\<^verbatim>\<open>AsyncScheduler._update_after_schedule\<close> adds the placeholders of the tokens that are not known yet.\<close>

definition add_placeholders ::
    "scheduler_settings \<Rightarrow> string \<times> int \<Rightarrow> 'e Scheduler \<times> SchedulerOutput \<Rightarrow> ('e Scheduler \<times> SchedulerOutput) result" where
  "add_placeholders cfg = (\<lambda>(rid, _) (s, out).
     if rid \<notin> set (requests s) then Inl KeyError
     else
       (let r = objects s rid in
        if is_prefill_chunk r then Inr (s, out)
        else
          (let spec = (case map_of (out_spec_decode_tokens out) rid of None \<Rightarrow> [] | Some ts \<Rightarrow> ts) in
           Inr (modify_request rid (\<lambda>r. r\<lparr>num_output_placeholders := num_output_placeholders r + 1 + int (length spec),
                    spec_token_ids := replicate (nat (num_spec_tokens cfg)) (-1)\<rparr>) s,
                out\<lparr>pending_structured_output_tokens := pending_structured_output_tokens out
                      \<or> (use_structured_output r \<and> num_output_placeholders r > 0)\<rparr>))))"

definition update_after_schedule ::
    "scheduler_settings \<Rightarrow> 'e Scheduler \<Rightarrow> SchedulerOutput \<Rightarrow> ('e Scheduler \<times> SchedulerOutput) result" where
  "update_after_schedule cfg s out =
     bindE (foldE (advance_request cfg) (out_num_scheduled_tokens out) (s, out)) (\<lambda>(s, out).
     let s = s\<lparr>finished_req_ids := {}\<rparr> in
     if async_class cfg then foldE (add_placeholders cfg) (out_num_scheduled_tokens out) (s, out) else Inr (s, out))"

subsection \<open>The whole step\<close>

text \<open>The two loops, and the skipped requests put back in front of the queue.\<close>

definition plan_step ::
    "scheduler_settings \<Rightarrow> 'e services \<Rightarrow> rat \<Rightarrow> 'e Scheduler \<Rightarrow> ('e Scheduler \<times> step_plan) result" where
  "plan_step cfg sv now s =
     bindE (running_loop cfg sv now s (new_plan cfg) 0) (\<lambda>(s, p).
     bindE (record_loras cfg s p) (\<lambda>p.
     bindE (if preempted_reqs p = [] then waiting_loop cfg sv now s p else Inr (s, p)) (\<lambda>(s, p).
     if has_requests (skipped_waiting_requests p)
     then bindE (prepend_requests (objects s) (skipped_waiting_requests p) (waiting s)) (\<lambda>q. Inr (s\<lparr>waiting := q\<rparr>, p))
     else Inr (s, p))))"

definition schedule ::
    "scheduler_settings \<Rightarrow> 'e services \<Rightarrow> rat \<Rightarrow> 'e Scheduler \<Rightarrow> ('e Scheduler \<times> SchedulerOutput) result" where
  "schedule cfg sv now s =
     bindE (plan_step cfg sv now s) (\<lambda>(s, p).
     assertE (step_constraints cfg s p)
       (bindE (build_output cfg sv s p) (\<lambda>(s, out). update_after_schedule cfg s out)))"

end
