(* ===== verification/Scheduler_Invariant.thy ===== *)
theory Scheduler_Invariant
  imports Scheduler
begin

section \<open>What a scheduling step keeps\<close>

text \<open>
  The accounting of the two loops: the token budget, the tables of the step, and the requests, none of
  which is lost or listed twice. The invariants of the loops are \<open>running_ok\<close> and \<open>waiting_ok\<close>.
\<close>

subsection \<open>How many tokens a request gets\<close>

lemma mamba_split_bounds:
  assumes "mamba_block_aligned_split cfg r n num_local num_external = Inr n'" and "0 \<le> n" and "0 < cache_block_size cfg"
  shows "0 \<le> n' \<and> n' \<le> n"
proof -
  have "0 \<le> n div cache_block_size cfg * cache_block_size cfg" "n div cache_block_size cfg * cache_block_size cfg \<le> n"
    using assms(2,3) int_le_div_iff [OF assms(3), of "n div cache_block_size cfg" n] by (simp_all add: pos_imp_zdiv_nonneg_iff)
  with assms show ?thesis by (auto simp: mamba_block_aligned_split_def Let_def split: if_splits)
qed

lemma encoder_step_bounds:
  assumes "encoder_input_step cfg remote r computed shift i f m p = Inr (m', p', go)" and "0 \<le> shift" "shift \<le> 1"
    and "0 \<le> plan_tokens p"
  shows "0 \<le> plan_tokens p' \<and> plan_tokens p' \<le> plan_tokens p"
  using assms by (auto simp: encoder_input_step_def Let_def elim!: bindE_InrE split: if_splits)

lemma encoder_loop_bounds:
  "encoder_input_loop cfg remote r computed shift fs m p = Inr (m', p') \<Longrightarrow> 0 \<le> shift \<Longrightarrow> shift \<le> 1 \<Longrightarrow>
   0 \<le> plan_tokens p \<Longrightarrow> 0 \<le> plan_tokens p' \<and> plan_tokens p' \<le> plan_tokens p"
proof (induction fs arbitrary: m p)
  case (Cons x fs)
  then obtain m1 p1 go where s: "encoder_input_step cfg remote r computed shift (fst x) (snd x) m p = Inr (m1, p1, go)"
    and rest: "(if go then encoder_input_loop cfg remote r computed shift fs m1 p1 else Inr (m1, p1)) = Inr (m', p')"
    by (auto elim!: bindE_InrE)
  from encoder_step_bounds [OF s Cons.prems(2-4)] rest Cons.IH Cons.prems(2,3) show ?case
    by (cases go) fastforce+
qed simp

lemma encoder_plan_bounds:
  assumes "try_schedule_encoder_inputs cfg remote r computed n budget (if e then 1 else 0) m = Inr (m', p')" and "0 \<le> n"
  shows "0 \<le> plan_tokens p' \<and> plan_tokens p' \<le> n"
  using assms encoder_loop_bounds [of cfg remote r computed "if e then 1 else 0" "enumerate 0 (mm_features r)" m "no_encoder_plan n budget" m' p']
  by (auto simp: try_schedule_encoder_inputs_def no_encoder_plan_def split: if_splits)

text \<open>A request whose computed tokens do not exceed its tokens or the context of the model.\<close>

definition tokens_ready :: "scheduler_settings \<Rightarrow> Request \<Rightarrow> bool" where
  "tokens_ready cfg r \<longleftrightarrow> num_computed_tokens r \<le> num_tokens r + num_output_placeholders r
     \<and> num_computed_tokens r \<le> model_len cfg - 1"

lemma running_tokens_bounds:
  assumes "tokens_ready cfg r" and "0 \<le> budget"
  shows "0 \<le> running_request_tokens cfg budget r \<and> running_request_tokens cfg budget r \<le> budget"
  using assms by (auto simp: running_request_tokens_def tokens_ready_def cap_prefill_def num_tokens_with_spec_def num_tokens_def)

lemma running_plan_bounds:
  assumes "running_encoder_plan cfg sv s p r = Inr (m, ep)" and n: "0 \<le> running_request_tokens cfg (token_budget p) r"
  shows "0 \<le> plan_tokens ep \<and> plan_tokens ep \<le> running_request_tokens cfg (token_budget p) r"
proof (cases "has_encoder_inputs r")
  case True
  then show ?thesis using assms(1) encoder_plan_bounds [OF _ n] by (simp add: running_encoder_plan_def)
next
  case False
  then show ?thesis using assms by (auto simp: running_encoder_plan_def no_encoder_plan_def)
qed

lemma running_share_bounds:
  assumes "running_encoder_plan cfg sv s p r = Inr (m, ep)" and "running_split cfg r ep = Inr n"
    and "tokens_ready cfg r" and "0 \<le> token_budget p" and bs: "need_mamba_block_aligned_split cfg \<Longrightarrow> 0 < cache_block_size cfg"
  shows "0 \<le> n \<and> n \<le> token_budget p"
proof -
  have b: "0 \<le> plan_tokens ep" "plan_tokens ep \<le> token_budget p"
    using running_plan_bounds [OF assms(1)] running_tokens_bounds [OF assms(3,4)] by auto
  show ?thesis
  proof (cases "need_mamba_block_aligned_split cfg")
    case True
    then have "mamba_block_aligned_split cfg r (plan_tokens ep) 0 0 = Inr n" using assms(2) by (simp add: running_split_def)
    from mamba_split_bounds [OF this b(1) bs [OF True]] b show ?thesis by simp
  next
    case False
    then show ?thesis using assms(2) b by (simp add: running_split_def)
  qed
qed

lemma waiting_share_bounds:
  assumes "waiting_request_tokens cfg sv s p r c = Inr (m, ep)" and "waiting_split cfg r c ep = Inr (Some (ep', n))"
    and "\<not> load_kv_async c" and bs: "need_mamba_block_aligned_split cfg \<Longrightarrow> 0 < cache_block_size cfg"
  shows "0 < n \<and> n \<le> token_budget p"
proof -
  let ?n = "min (cap_prefill cfg (num_tokens r - total_computed c)) (token_budget p)"
  have ep: "ep = Some ep'" using assms(2) by (auto simp: waiting_split_def elim!: bindE_InrE split: option.splits if_splits)
  have pos: "0 < ?n" using assms(1,3) ep by (auto simp: waiting_request_tokens_def Let_def split: if_splits)
  have b: "0 \<le> plan_tokens ep'" "plan_tokens ep' \<le> ?n" "plan_tokens ep' \<noteq> 0"
  proof -
    have "0 \<le> plan_tokens ep' \<and> plan_tokens ep' \<le> ?n \<and> plan_tokens ep' \<noteq> 0"
    proof (cases "has_encoder_inputs r")
      case True
      then obtain m1 where "try_schedule_encoder_inputs cfg (remote_item sv (external s)) r (total_computed c) ?n
          (encoder_compute_budget p) (if with_eagle cfg then 1 else 0) (encoder_cache_manager s) = Inr (m1, ep')" "plan_tokens ep' \<noteq> 0"
        using assms(1,3) ep by (auto simp: waiting_request_tokens_def Let_def elim!: bindE_InrE split: if_splits)
      with encoder_plan_bounds [OF this(1)] pos show ?thesis by simp
    next
      case False
      then show ?thesis using assms(1,3) ep pos
        by (auto simp: waiting_request_tokens_def no_encoder_plan_def Let_def split: if_splits)
    qed
    then show "0 \<le> plan_tokens ep'" "plan_tokens ep' \<le> ?n" "plan_tokens ep' \<noteq> 0" by simp_all
  qed
  show ?thesis
  proof (cases "need_mamba_block_aligned_split cfg")
    case True
    then have "mamba_block_aligned_split cfg r (plan_tokens ep') (num_local_computed c) (num_external_computed c) = Inr n" "n \<noteq> 0"
      using assms(2) ep by (auto simp: waiting_split_def elim!: bindE_InrE split: if_splits)
    with mamba_split_bounds [OF this(1) b(1) bs [OF True]] b pos show ?thesis by auto
  next
    case False
    then show ?thesis using assms(2) ep b pos by (auto simp: waiting_split_def)
  qed
qed

subsection \<open>The loop over the running requests\<close>

text \<open>
  The tables of a step: every scheduled request has its tokens and blocks, and the tokens add up.
  \<open>R\<close> says that the running requests were ready when the step began; then the shares are positive and the
  budget does not become negative. The rest holds for all requests.
\<close>

definition accounted :: "bool \<Rightarrow> scheduler_settings \<Rightarrow> step_plan \<Rightarrow> bool" where
  "accounted R cfg p \<longleftrightarrow> (R \<longrightarrow> 0 \<le> token_budget p \<and> (\<forall>n \<in> set (map snd (num_scheduled_tokens p)). 0 < n))
     \<and> token_budget p + sum_list (map snd (num_scheduled_tokens p)) = max_num_scheduled_tokens cfg
     \<and> distinct_keys (num_scheduled_tokens p)
     \<and> set (map fst (num_scheduled_tokens p))
       = set (scheduled_new_reqs p) \<union> set (scheduled_resumed_reqs p) \<union> set (scheduled_running_reqs p)
     \<and> set (map fst (num_scheduled_tokens p)) \<subseteq> set (map fst (req_to_new_blocks p))"

definition running_ok ::
    "bool \<Rightarrow> scheduler_settings \<Rightarrow> string multiset \<Rightarrow> 'e Scheduler \<Rightarrow> step_plan \<Rightarrow> int \<Rightarrow> bool" where
  "running_ok R cfg M s p i \<longleftrightarrow> accounted R cfg p \<and> 0 \<le> i \<and> mset (running s) + queue_bag (waiting s) = M
     \<and> int (length (running s)) \<le> max_num_running_reqs cfg \<and> distinct (scheduled_running_reqs p) \<and> set (scheduled_running_reqs p) \<subseteq> set (take (nat i) (running s))
     \<and> scheduled_new_reqs p = [] \<and> scheduled_resumed_reqs p = [] \<and> queue_bag (skipped_waiting_requests p) = {#}
     \<and> (\<forall>rid \<in> set (running s). (R \<longrightarrow> tokens_ready cfg (objects s rid)) \<and> status (objects s rid) = RUNNING)
     \<and> (\<forall>v \<in> set (preempted_reqs p). v \<in># queue_bag (waiting s) \<and> status (objects s v) = PREEMPTED
          \<and> num_computed_tokens (objects s v) = 0)"

lemma accounted_preempted [simp]: "accounted R cfg (p\<lparr>preempted_reqs := x\<rparr>) = accounted R cfg p"
  by (simp add: accounted_def)

definition one_of_each :: "'a multiset \<Rightarrow> bool" where
  "one_of_each M \<longleftrightarrow> (\<forall>x. count M x \<le> 1)"

lemma one_of_each_distinct: "one_of_each (mset xs + N) \<Longrightarrow> distinct xs \<and> (\<forall>x \<in> set xs. x \<notin># N)"
  unfolding one_of_each_def
proof (induction xs)
  case (Cons x xs)
  then have "\<forall>y. count (mset xs + N) y \<le> 1" by (metis (no_types) add_mset_add_mset_same_iff count_add_mset le_SucI mset.simps(2) nat_le_linear not_less_eq_eq union_mset_add_mset_left)
  with Cons.IH have ih: "distinct xs" "\<forall>x \<in> set xs. x \<notin># N" by auto
  have "count (mset xs) x + count N x = 0" using Cons.prems by (auto dest: spec [of _ x])
  then have "x \<notin> set xs" "x \<notin># N" by (simp_all add: not_in_iff)
  with ih show ?case by simp
qed simp

lemma take_remove1:
  "distinct xs \<Longrightarrow> set (take n xs) - {x} \<subseteq> set (take n (remove1 x xs))"
  "distinct xs \<Longrightarrow> x \<in> set (take n xs) \<Longrightarrow> set (take n xs) - {x} \<subseteq> set (take (n - 1) (remove1 x xs))"
proof (induction xs arbitrary: n)
  case (Cons y xs)
  {
    case 1
    then show ?case using Cons.IH(1) set_take_subset_set_take [of "n - 1" n xs] by (cases n) auto
  next
    case 2
    show ?case
    proof (cases "x = y")
      case True
      with 2 show ?thesis by (cases n) auto
    next
      case False
      with 2 obtain k where n: "n = Suc k" "x \<in> set (take k xs)" by (cases n) auto
      then have "k \<noteq> 0" by (cases k) auto
      then obtain j where k: "k = Suc j" by (cases k) auto
      have "set (take k xs) - {x} \<subseteq> set (take j (remove1 x xs))" using Cons.IH(2) [OF _ n(2)] 2(1) k by simp
      with n False k show ?thesis by auto
    qed
  }
qed simp_all

lemma remove1_last: "distinct xs \<Longrightarrow> xs \<noteq> [] \<Longrightarrow> remove1 (last xs) xs = butlast xs"
  by (cases xs rule: rev_cases) (auto simp: remove1_append)

text \<open>The victim of a preemption leaves \<open>running\<close>; its share of the step, if any, is given back.\<close>

lemma choose_victim_tables:
  assumes "choose_victim cfg s p i = Inr (s', p', i', v)" and "distinct (running s)"
  shows "running s' = remove1 v (running s)"
    and "v \<in> set (scheduled_running_reqs p) \<and> policy cfg = PRIORITY \<and> i' = i - 1
          \<and> (\<exists>n embeds. map_of (num_scheduled_tokens p) v = Some n
            \<and> p' = p\<lparr>scheduled_running_reqs := remove1 v (scheduled_running_reqs p),
                   token_budget := token_budget p + n,
                   num_scheduled_tokens := AList.delete v (num_scheduled_tokens p),
                   req_to_new_blocks := AList.delete v (req_to_new_blocks p),
                   scheduled_spec_decode_tokens := AList.delete v (scheduled_spec_decode_tokens p),
                   scheduled_encoder_inputs := AList.delete v (scheduled_encoder_inputs p),
                   encoder_compute_budget := encoder_compute_budget p + embeds\<rparr>)
      \<or> (v \<notin> set (scheduled_running_reqs p) \<or> policy cfg = FCFS) \<and> i' = i \<and> p' = p"
proof -
  show "running s' = remove1 v (running s)"
  proof (cases "policy cfg")
    case FCFS
    then have "running s \<noteq> []" "running s' = butlast (running s)" "v = last (running s)"
      using assms(1) by (auto simp: choose_victim_def split: if_splits)
    then show ?thesis using remove1_last [OF assms(2)] by simp
  next
    case PRIORITY
    then show ?thesis using assms(1) by (auto simp: choose_victim_def Let_def elim!: bindE_InrE split: if_splits)
  qed
  show "v \<in> set (scheduled_running_reqs p) \<and> policy cfg = PRIORITY \<and> i' = i - 1
          \<and> (\<exists>n embeds. map_of (num_scheduled_tokens p) v = Some n
            \<and> p' = p\<lparr>scheduled_running_reqs := remove1 v (scheduled_running_reqs p),
                   token_budget := token_budget p + n,
                   num_scheduled_tokens := AList.delete v (num_scheduled_tokens p),
                   req_to_new_blocks := AList.delete v (req_to_new_blocks p),
                   scheduled_spec_decode_tokens := AList.delete v (scheduled_spec_decode_tokens p),
                   scheduled_encoder_inputs := AList.delete v (scheduled_encoder_inputs p),
                   encoder_compute_budget := encoder_compute_budget p + embeds\<rparr>)
      \<or> (v \<notin> set (scheduled_running_reqs p) \<or> policy cfg = FCFS) \<and> i' = i \<and> p' = p"
  proof (cases "policy cfg = PRIORITY \<and> v \<in> set (scheduled_running_reqs p)")
    case True
    then show ?thesis using assms(1) by (auto simp: choose_victim_def Let_def bindE_Inr_iff split: if_splits)
  next
    case False
    then show ?thesis using assms(1)
      by (cases "policy cfg") (auto simp: choose_victim_def Let_def elim!: bindE_InrE split: if_splits)
  qed
qed

lemma preempt_request_ok:
  assumes "preempt_request cfg now v s = Inr s'"
  shows "status (objects s v) = RUNNING" and "running s' = running s" and "queue_bag (waiting s') = add_mset v (queue_bag (waiting s))"
    and "x \<noteq> v \<Longrightarrow> objects s' x = objects s x" and "requests s' = requests s"
    and "status (objects s' v) = PREEMPTED" "num_computed_tokens (objects s' v) = 0"
  using assms
  by (auto simp: preempt_request_def Let_def log_event_def record_event_def elim!: bindE_InrE)

lemma accounted_victim:
  assumes "accounted R cfg p" and "distinct (scheduled_running_reqs p)" and "scheduled_new_reqs p = []" "scheduled_resumed_reqs p = []"
    and "map_of (num_scheduled_tokens p) v = Some n" and v: "v \<in> set (scheduled_running_reqs p)"
  shows "accounted R cfg (p\<lparr>scheduled_running_reqs := remove1 v (scheduled_running_reqs p), token_budget := token_budget p + n,
      num_scheduled_tokens := AList.delete v (num_scheduled_tokens p), req_to_new_blocks := AList.delete v (req_to_new_blocks p),
      scheduled_spec_decode_tokens := sd, scheduled_encoder_inputs := ei, encoder_compute_budget := eb\<rparr>)"
proof -
  have d: "distinct_keys (num_scheduled_tokens p)" using assms(1) by (simp add: accounted_def)
  have sum: "sum_list (map snd (AList.delete v (num_scheduled_tokens p))) = sum_list (map snd (num_scheduled_tokens p)) - n"
    using sum_delete [OF d assms(5), of snd] by simp
  have "(v, n) \<in> set (num_scheduled_tokens p)" using assms(5) by (rule map_of_SomeD)
  then have n: "R \<Longrightarrow> 0 < n" using assms(1) by (force simp: accounted_def)
  have sub: "set (AList.delete v (num_scheduled_tokens p)) \<subseteq> set (num_scheduled_tokens p)" by (auto simp: AList.delete_eq)
  have keys: "map fst (AList.delete v (num_scheduled_tokens p)) = removeAll v (map fst (num_scheduled_tokens p))"
    "map fst (AList.delete v (req_to_new_blocks p)) = removeAll v (map fst (req_to_new_blocks p))"
    by (simp_all add: delete_keys)
  have "R \<longrightarrow> (\<forall>m \<in> set (map snd (AList.delete v (num_scheduled_tokens p))). 0 < m)"
    using assms(1) sub by (auto simp: accounted_def)
  moreover have "R \<longrightarrow> 0 \<le> token_budget p + n"
  proof
    assume R
    with n have "0 < n" .
    with assms(1) \<open>R\<close> show "0 \<le> token_budget p + n" by (simp add: accounted_def)
  qed
  ultimately have pos: "R \<longrightarrow> 0 \<le> token_budget p + n \<and> (\<forall>m \<in> set (map snd (AList.delete v (num_scheduled_tokens p))). 0 < m)"
    by blast
  show ?thesis using assms(1-4) sum d set_remove1_eq [OF assms(2), of v]
    unfolding accounted_def
    by (intro conjI) (use pos in simp, simp_all add: keys distinct_removeAll del: set_map, blast)
qed

lemma running_ok_victim:
  assumes M: "one_of_each M" and ok: "running_ok R cfg M s p i" and v: "choose_victim cfg s p i = Inr (s1, p1, i1, v)"
    and pr: "preempt_request cfg now v s1 = Inr s2"
    and tail: "policy cfg = FCFS \<Longrightarrow> v \<notin> set (take (nat i) (running s))"
  shows "running_ok R cfg M s2 (p1\<lparr>preempted_reqs := preempted_reqs p1 @ [v]\<rparr>) i1"
proof -
  note r = ok [unfolded running_ok_def]
  have d: "distinct (running s)" "\<forall>x \<in> set (running s). x \<notin># queue_bag (waiting s)"
    using one_of_each_distinct [of "running s" "queue_bag (waiting s)"] M r by auto
  note t = choose_victim_tables [OF v d(1)]
  have vm: "v \<in> set (running s)" "s1 = s\<lparr>running := remove1 v (running s)\<rparr>"
    using choose_victim_shape [OF v] t(1) by auto
  note q = preempt_request_ok [OF pr]
  have s2: "running s2 = remove1 v (running s)" "queue_bag (waiting s2) = add_mset v (queue_bag (waiting s))"
    "\<And>x. x \<noteq> v \<Longrightarrow> objects s2 x = objects s x"
    using q vm by simp_all
  have bag: "mset (running s2) + queue_bag (waiting s2) = M"
  proof -
    have "mset (running s) = add_mset v (mset (running s2))" using s2(1) vm(1) by simp
    then show ?thesis using r s2(2) by simp
  qed
  have len: "int (length (running s2)) \<le> max_num_running_reqs cfg"
    using r vm(1) by (auto simp: s2(1) length_remove1)
  have rest: "\<forall>rid \<in> set (running s2). (R \<longrightarrow> tokens_ready cfg (objects s2 rid)) \<and> status (objects s2 rid) = RUNNING"
    using r s2(1,3) d(1) by auto
  have pre: "\<forall>x \<in> set (preempted_reqs p @ [v]). x \<in># queue_bag (waiting s2) \<and> status (objects s2 x) = PREEMPTED
      \<and> num_computed_tokens (objects s2 x) = 0"
  proof
    fix x assume x: "x \<in> set (preempted_reqs p @ [v])"
    show "x \<in># queue_bag (waiting s2) \<and> status (objects s2 x) = PREEMPTED \<and> num_computed_tokens (objects s2 x) = 0"
    proof (cases "x = v")
      case True
      with q(6,7) s2(2) show ?thesis by simp
    next
      case False
      with x r s2(2,3) show ?thesis by simp
    qed
  qed
  have sub: "set (scheduled_running_reqs p) \<subseteq> set (take (nat i) (running s))" using r by blast
  from t(2) show ?thesis
  proof
    assume a: "(v \<notin> set (scheduled_running_reqs p) \<or> policy cfg = FCFS) \<and> i1 = i \<and> p1 = p"
    have v_out: "v \<notin> set (scheduled_running_reqs p)" using a tail sub by blast
    have "set (scheduled_running_reqs p) \<subseteq> set (take (nat i1) (running s2))"
      unfolding s2(1) using take_remove1(1) [OF d(1), of "nat i" v] sub v_out a by auto
    then show ?thesis using r bag len rest pre a by (simp add: running_ok_def)
  next
    assume a: "v \<in> set (scheduled_running_reqs p) \<and> policy cfg = PRIORITY \<and> i1 = i - 1 \<and>
      (\<exists>n embeds. map_of (num_scheduled_tokens p) v = Some n
            \<and> p1 = p\<lparr>scheduled_running_reqs := remove1 v (scheduled_running_reqs p),
                   token_budget := token_budget p + n,
                   num_scheduled_tokens := AList.delete v (num_scheduled_tokens p),
                   req_to_new_blocks := AList.delete v (req_to_new_blocks p),
                   scheduled_spec_decode_tokens := AList.delete v (scheduled_spec_decode_tokens p),
                   scheduled_encoder_inputs := AList.delete v (scheduled_encoder_inputs p),
                   encoder_compute_budget := encoder_compute_budget p + embeds\<rparr>)"
    then obtain n embeds where n: "map_of (num_scheduled_tokens p) v = Some n" and
      p1: "p1 = p\<lparr>scheduled_running_reqs := remove1 v (scheduled_running_reqs p),
                   token_budget := token_budget p + n,
                   num_scheduled_tokens := AList.delete v (num_scheduled_tokens p),
                   req_to_new_blocks := AList.delete v (req_to_new_blocks p),
                   scheduled_spec_decode_tokens := AList.delete v (scheduled_spec_decode_tokens p),
                   scheduled_encoder_inputs := AList.delete v (scheduled_encoder_inputs p),
                   encoder_compute_budget := encoder_compute_budget p + embeds\<rparr>" by blast
    have acc: "accounted R cfg p1" unfolding p1
      by (rule accounted_victim) (use r n a in blast)+
    have v_in: "v \<in> set (take (nat i) (running s))" using a sub by blast
    then have "0 < i" by (cases "nat i") auto
    then have i1: "nat i1 = nat i - 1" "0 \<le> i1" using a by auto
    have "set (remove1 v (scheduled_running_reqs p)) \<subseteq> set (take (nat i1) (running s2))"
      unfolding s2(1) i1(1) using take_remove1(2) [OF d(1) v_in] sub r by (auto simp: set_remove1_eq)
    with r bag len rest pre acc i1(2) show ?thesis unfolding running_ok_def by (intro conjI) (simp_all add: p1)
  qed
qed

text \<open>
  The request in work stands at the index, or before it after a preemption, and has no tokens yet. With the
  first-come-first-served policy it stands exactly there.
\<close>

definition in_work :: "scheduler_settings \<Rightarrow> string \<Rightarrow> 'e Scheduler \<Rightarrow> step_plan \<Rightarrow> int \<Rightarrow> bool" where
  "in_work cfg rid s p i \<longleftrightarrow> rid \<in> set (take (Suc (nat i)) (running s)) \<and> rid \<notin> set (scheduled_running_reqs p)
     \<and> (policy cfg = FCFS \<longrightarrow> nat i < length (running s) \<and> running s ! nat i = rid)"

lemma index_take: "index_py xs i = Inr x \<Longrightarrow> 0 \<le> i \<Longrightarrow> nat i < length xs \<and> xs ! nat i = x"
  by (auto simp: index_py_def split: if_splits)

lemma last_not_before: "distinct xs \<Longrightarrow> n < length xs \<Longrightarrow> last xs \<notin> set (take n xs)"
  by (cases xs rule: rev_cases) (auto dest: in_set_takeD)

lemma in_work_victim:
  assumes d: "distinct (running s)" and w: "in_work cfg rid s p i" and i: "0 \<le> i"
    and sub: "set (scheduled_running_reqs p) \<subseteq> set (take (nat i) (running s))"
    and v: "choose_victim cfg s p i = Inr (s1, p1, i1, v)" and ne: "v \<noteq> rid" and run: "running s2 = running s1"
  shows "in_work cfg rid s2 (p1\<lparr>preempted_reqs := x\<rparr>) i1" and "policy cfg = FCFS \<Longrightarrow> v \<notin> set (take (nat i) (running s))"
proof -
  note t = choose_victim_tables [OF v d]
  have rid: "rid \<in> set (take (Suc (nat i)) (running s))" "rid \<notin> set (scheduled_running_reqs p)" using w by (simp_all add: in_work_def)
  have v_last: "v = last (running s) \<and> running s1 = butlast (running s)" if "policy cfg = FCFS"
    using v that by (auto simp: choose_victim_def split: if_splits)
  show tail: "v \<notin> set (take (nat i) (running s))" if "policy cfg = FCFS"
    using last_not_before [OF d] v_last [OF that] w that by (simp add: in_work_def)
  have fcfs: "nat i1 < length (running s2) \<and> running s2 ! nat i1 = rid" if f: "policy cfg = FCFS"
  proof -
    have at: "nat i < length (running s)" "running s ! nat i = rid" using w f by (simp_all add: in_work_def)
    have "running s ! nat i \<noteq> last (running s)" using ne v_last [OF f] at by simp
    then have "nat i \<noteq> length (running s) - 1" using at(1) by (metis last_conv_nth length_greater_0_conv less_nat_zero_code list.size(3))
    moreover have "i1 = i" using t(2) f by auto
    ultimately show ?thesis using at v_last [OF f] run by (simp add: nth_butlast)
  qed
  have "rid \<in> set (take (Suc (nat i1)) (running s2)) \<and> rid \<notin> set (scheduled_running_reqs p1)"
    using t(2)
  proof
    assume "(v \<notin> set (scheduled_running_reqs p) \<or> policy cfg = FCFS) \<and> i1 = i \<and> p1 = p"
    then show ?thesis using take_remove1(1) [OF d, of "Suc (nat i)" v] rid ne run t(1) by auto
  next
    assume a: "v \<in> set (scheduled_running_reqs p) \<and> policy cfg = PRIORITY \<and> i1 = i - 1
          \<and> (\<exists>n embeds. map_of (num_scheduled_tokens p) v = Some n
            \<and> p1 = p\<lparr>scheduled_running_reqs := remove1 v (scheduled_running_reqs p),
                   token_budget := token_budget p + n,
                   num_scheduled_tokens := AList.delete v (num_scheduled_tokens p),
                   req_to_new_blocks := AList.delete v (req_to_new_blocks p),
                   scheduled_spec_decode_tokens := AList.delete v (scheduled_spec_decode_tokens p),
                   scheduled_encoder_inputs := AList.delete v (scheduled_encoder_inputs p),
                   encoder_compute_budget := encoder_compute_budget p + embeds\<rparr>)"
    have v_in: "v \<in> set (take (nat i) (running s))" using a sub by blast
    then have "0 < i" by (cases "nat i") auto
    then have i1: "Suc (nat i1) = Suc (nat i) - 1" using a by auto
    have v_in': "v \<in> set (take (Suc (nat i)) (running s))" using v_in by (meson set_take_subset_set_take le_SucI le_refl subsetD)
    have "rid \<in> set (take (Suc (nat i1)) (running s2))"
      unfolding i1 run t(1) using take_remove1(2) [OF d v_in'] rid(1) ne by blast
    moreover have "rid \<notin> set (scheduled_running_reqs p1)" using a rid(2) by (auto dest: notin_set_remove1)
    ultimately show ?thesis by simp
  qed
  then show "in_work cfg rid s2 (p1\<lparr>preempted_reqs := x\<rparr>) i1" using fcfs by (simp add: in_work_def)
qed

lemma running_ok_parts:
  assumes "one_of_each M" and "running_ok R cfg M s p i"
  shows "distinct (running s)" and "0 \<le> i" and "set (scheduled_running_reqs p) \<subseteq> set (take (nat i) (running s))"
    and "accounted R cfg p"
  using assms one_of_each_distinct [of "running s" "queue_bag (waiting s)"] by (auto simp: running_ok_def)

lemma running_ok_managers [simp]:
  "running_ok R cfg M (s\<lparr>kv_cache_manager := k\<rparr>) p i = running_ok R cfg M s p i"
  "running_ok R cfg M (s\<lparr>encoder_cache_manager := m\<rparr>) p i = running_ok R cfg M s p i"
  "in_work cfg rid (s\<lparr>kv_cache_manager := k\<rparr>) p i = in_work cfg rid s p i"
  "in_work cfg rid (s\<lparr>encoder_cache_manager := m\<rparr>) p i = in_work cfg rid s p i"
  by (simp_all add: running_ok_def in_work_def)

lemma preempt_loop_ok:
  assumes M: "one_of_each M" and ok: "running_ok R cfg M s p i" and w: "in_work cfg rid s p i"
    and run: "preempt_loop cfg now rid n s p i = Inr (s', p', i', b)"
    and budget: "R \<longrightarrow> n \<le> token_budget p"
  shows "running_ok R cfg M s' p' i' \<and> (b \<noteq> None \<longrightarrow> in_work cfg rid s' p' i' \<and> (R \<longrightarrow> n \<le> token_budget p'))"
proof -
  let ?P = "\<lambda>s p i. running_ok R cfg M s p i \<and> in_work cfg rid s p i \<and> (R \<longrightarrow> n \<le> token_budget p)"
  let ?Q = "\<lambda>s p i. running_ok R cfg M s p i"
  have "(if b = None then ?Q else ?P) s' p' i'"
  proof (rule preempt_loop_rule [OF run])
    show "?P s p i" using ok w budget by simp
  next
    fix s p i k res
    assume "?P s p i"
    then show "?P (s\<lparr>kv_cache_manager := k\<rparr>) p i" by simp
  next
    fix s p i s1 p1 i1 v s2
    assume P: "?P s p i" and v: "choose_victim cfg s p i = Inr (s1, p1, i1, v)" and pr: "preempt_request cfg now v s1 = Inr s2"
    have "running_ok R cfg M s p i" using P by simp
    note parts = running_ok_parts [OF M this]
    have tail: "v \<notin> set (take (nat i) (running s))" if f: "policy cfg = FCFS"
    proof -
      have "v = last (running s)" using v f by (auto simp: choose_victim_def split: if_splits)
      then show ?thesis using last_not_before [OF parts(1)] P f by (simp add: in_work_def)
    qed
    have ok2: "running_ok R cfg M s2 (p1\<lparr>preempted_reqs := preempted_reqs p1 @ [v]\<rparr>) i1"
      using running_ok_victim [OF M _ v pr tail] P by simp
    have "R \<longrightarrow> n \<le> token_budget p1"
    proof -
      from choose_victim_tables(2) [OF v parts(1)] consider m where "map_of (num_scheduled_tokens p) v = Some m" "token_budget p1 = token_budget p + m"
        | "p1 = p" by auto
      then show ?thesis
      proof cases
        case 1
        then have "R \<longrightarrow> 0 < m" using parts(4) by (force simp: accounted_def dest: map_of_SomeD)
        with 1 P show ?thesis by auto
      next
        case 2
        with P show ?thesis by simp
      qed
    qed
    then show "(if v = rid then ?Q else ?P) s2 (p1\<lparr>preempted_reqs := preempted_reqs p1 @ [v]\<rparr>) i1"
      using ok2 in_work_victim(1) [OF parts(1) _ parts(2,3) v _ preempt_request_ok(2) [OF pr], of rid] P
      by (cases "v = rid") simp_all
  qed
  then show ?thesis by (auto split: if_splits)
qed

lemma enter_encoder_inputs_ok:
  assumes "enter_encoder_inputs sv rid ep s p = Inr (s', p')"
  shows "\<exists>m e. s' = s\<lparr>encoder_cache_manager := m, external := e\<rparr>"
    and "\<exists>ei eb. p' = p\<lparr>scheduled_encoder_inputs := ei, encoder_compute_budget := eb\<rparr>"
  using assms by (auto simp: enter_encoder_inputs_def Let_def elim!: bindE_InrE split: if_splits)
    (metis step_plan.surjective step_plan.update_convs(8,9))

lemma accounted_commit:
  assumes "accounted R cfg p" and "rid \<notin> set (map fst (num_scheduled_tokens p))" and "R \<longrightarrow> 0 < n" and "R \<longrightarrow> n \<le> token_budget p"
    and "token_budget p' = token_budget p - n" and "num_scheduled_tokens p' = AList.update rid n (num_scheduled_tokens p)"
    and "set (scheduled_new_reqs p') \<union> set (scheduled_resumed_reqs p') \<union> set (scheduled_running_reqs p')
      = insert rid (set (scheduled_new_reqs p) \<union> set (scheduled_resumed_reqs p) \<union> set (scheduled_running_reqs p))"
    and "req_to_new_blocks p' = AList.update rid b (req_to_new_blocks p)"
  shows "accounted R cfg p'"
proof -
  have "map_of (num_scheduled_tokens p) rid = None" using assms(2) by (simp add: map_of_eq_None_iff)
  then have "num_scheduled_tokens p' = num_scheduled_tokens p @ [(rid, n)]" using assms(6) update_fresh by metis
  then show ?thesis using assms by (auto simp: accounted_def dom_update)
qed

lemma running_ok_commit:
  assumes M: "one_of_each M" and ok: "running_ok R cfg M s p i" and w: "in_work cfg rid s p i"
    and c: "commit_running sv rid n ep b s p i = Inr (s', p', i', go)" and n: "R \<longrightarrow> 0 < n" "R \<longrightarrow> n \<le> token_budget p"
  shows "running_ok R cfg M s' p' i'"
proof -
  let ?s = "modify_request rid (\<lambda>r. r\<lparr>spec_token_ids := []\<rparr>) s"
  from c obtain p0 sd where
    e: "enter_encoder_inputs sv rid ep ?s p0 = Inr (s', p')" "i' = i + 1" and
    p0: "p0 = p\<lparr>scheduled_running_reqs := scheduled_running_reqs p @ [rid],
                req_to_new_blocks := AList.update rid b (req_to_new_blocks p),
                num_scheduled_tokens := AList.update rid n (num_scheduled_tokens p),
                token_budget := token_budget p - n, scheduled_spec_decode_tokens := sd\<rparr>"
  proof -
    define q where "q = p\<lparr>scheduled_running_reqs := scheduled_running_reqs p @ [rid],
                req_to_new_blocks := AList.update rid b (req_to_new_blocks p),
                num_scheduled_tokens := AList.update rid n (num_scheduled_tokens p),
                token_budget := token_budget p - n\<rparr>"
    define q' where "q' = (case scheduled_spec_tokens n (objects s rid) of
                 None \<Rightarrow> q
               | Some ts \<Rightarrow> q\<lparr>scheduled_spec_decode_tokens := AList.update rid ts (scheduled_spec_decode_tokens q)\<rparr>)"
    have "enter_encoder_inputs sv rid ep ?s q' = Inr (s', p') \<and> i' = i + 1"
      using c unfolding commit_running_def Let_def q_def [symmetric] q'_def [symmetric] by (auto elim!: bindE_InrE)
    moreover have "q' = q\<lparr>scheduled_spec_decode_tokens := scheduled_spec_decode_tokens q'\<rparr>"
      by (simp add: q'_def split: option.split)
    ultimately show thesis using that [of q' "scheduled_spec_decode_tokens q'"] by (simp add: q_def)
  qed
  from enter_encoder_inputs_ok [OF e(1)] obtain m x ei eb where
    s': "s' = ?s\<lparr>encoder_cache_manager := m, external := x\<rparr>" and
    p': "p' = p0\<lparr>scheduled_encoder_inputs := ei, encoder_compute_budget := eb\<rparr>" by blast
  note r = ok [unfolded running_ok_def]
  have keys: "set (map fst (num_scheduled_tokens p)) = set (scheduled_running_reqs p)" using r by (simp add: accounted_def)
  have fresh: "rid \<notin> set (scheduled_running_reqs p)" using w by (simp add: in_work_def)
  have acc: "accounted R cfg p'"
    by (rule accounted_commit [of R cfg p rid n _ b]) (use r keys fresh n in \<open>simp_all add: p' p0\<close>)
  have "set (take (nat i) (running s)) \<subseteq> set (take (nat (i + 1)) (running s))"
    using set_take_subset_set_take [of "nat i" "nat (i + 1)" "running s"] by simp
  moreover have "nat (i + 1) = Suc (nat i)" using running_ok_parts(2) [OF M ok] by simp
  ultimately have pos: "set (scheduled_running_reqs p @ [rid]) \<subseteq> set (take (nat (i + 1)) (running s))"
    using r w by (auto simp: in_work_def)
  have "tokens_ready cfg (r\<lparr>spec_token_ids := []\<rparr>) = tokens_ready cfg r" for r
    by (simp add: tokens_ready_def num_tokens_def)
  then have "\<forall>x \<in> set (running s). (R \<longrightarrow> tokens_ready cfg (objects s' x)) \<and> status (objects s' x) = RUNNING"
    using r by (auto simp: s' modify_request_def)
  moreover have "\<forall>v \<in> set (preempted_reqs p'). v \<in># queue_bag (waiting s') \<and> status (objects s' v) = PREEMPTED
          \<and> num_computed_tokens (objects s' v) = 0"
    using r by (auto simp: s' p' p0 modify_request_def)
  ultimately show ?thesis
    using r acc pos fresh e(2) unfolding running_ok_def by (intro conjI) (simp_all add: s' p' p0)
qed

lemma running_ok_next:
  assumes "running_ok R cfg M s p i"
  shows "running_ok R cfg M s p (i + 1)"
proof -
  have "set (take (nat i) (running s)) \<subseteq> set (take (nat (i + 1)) (running s))"
    by (rule set_take_subset_set_take) simp
  with assms show ?thesis by (auto simp: running_ok_def)
qed

lemma schedule_running_one_ok:
  assumes M: "one_of_each M" and ok: "running_ok R cfg M s p i" and bs: "need_mamba_block_aligned_split cfg \<Longrightarrow> 0 < cache_block_size cfg"
    and run: "schedule_running_one cfg sv now s p i = Inr (s', p', i', go)"
  shows "running_ok R cfg M s' p' i'"
proof -
  note parts = running_ok_parts [OF M ok]
  have work: "in_work cfg rid s p i" if "index_py (running s) i = Inr rid" for rid
  proof -
    have at: "nat i < length (running s)" "running s ! nat i = rid" using index_take [OF that parts(2)] by simp_all
    then have "rid \<in> set (take (Suc (nat i)) (running s))" by (auto simp: in_set_conv_nth)
    moreover have "rid \<notin> set (take (nat i) (running s))"
      using parts(1) at by (auto simp: in_set_conv_nth nth_eq_iff_index_eq)
    ultimately show ?thesis using at parts(3) by (auto simp: in_work_def)
  qed
  have share: "0 \<le> n \<and> n \<le> token_budget p"
    if "index_py (running s) i = Inr rid" "running_encoder_plan cfg sv s p (objects s rid) = Inr (m, ep)"
      "running_split cfg (objects s rid) ep = Inr n" R for rid m ep n
  proof -
    have "rid \<in> set (running s)" using index_take [OF that(1) parts(2)] by auto
    then have "tokens_ready cfg (objects s rid)" using ok that(4) by (simp add: running_ok_def)
    from running_share_bounds [OF that(2,3) this _ bs] parts(4) that(4) show ?thesis by (simp add: accounted_def)
  qed
  from run show ?thesis
  proof (cases rule: schedule_running_one_cases)
    case ended
    with running_ok_next [OF ok] show ?thesis by simp
  next
    case (skipped rid m ep)
    with running_ok_next [OF ok] show ?thesis by simp
  next
    case (stuck rid m ep n)
    have "R \<longrightarrow> n \<le> token_budget p" using share [OF stuck(1-3)] by simp
    with preempt_loop_ok [OF M _ _ stuck(5) this] ok work [OF stuck(1)] show ?thesis by simp
  next
    case (scheduled rid m ep n s1 p1 i1 b)
    have n: "R \<longrightarrow> 0 < n" "R \<longrightarrow> n \<le> token_budget p" using share [OF scheduled(1-3)] scheduled(4) by auto
    from preempt_loop_ok [OF M _ _ scheduled(5) n(2)] ok work [OF scheduled(1)]
    have "running_ok R cfg M s1 p1 i1" "in_work cfg rid s1 p1 i1" "R \<longrightarrow> n \<le> token_budget p1" by simp_all
    then show ?thesis using running_ok_commit [OF M _ _ scheduled(6) n(1)] by blast
  qed
qed

lemma running_loop_rule:
  assumes "running_loop cfg sv now s p i = Inr (s', p')" and "P s p i"
    and "\<And>s p i s1 p1 i1 go. P s p i \<Longrightarrow> schedule_running_one cfg sv now s p i = Inr (s1, p1, i1, go) \<Longrightarrow> P s1 p1 i1"
  shows "\<exists>i'. P s' p' i'"
  using assms(1,2)
proof (induction "nat (int (length (running s)) - i)" arbitrary: s p i rule: less_induct)
  case less
  show ?case
  proof (cases "i < int (length (running s)) \<and> token_budget p > 0")
    case False
    with less.prems show ?thesis by (subst (asm) running_loop.simps) auto
  next
    case True
    with less.prems(1) obtain s1 p1 i1 go where s1: "schedule_running_one cfg sv now s p i = Inr (s1, p1, i1, go)"
      and rest: "(if go then running_loop cfg sv now s1 p1 i1 else Inr (s1, p1)) = Inr (s', p')"
      by (subst (asm) running_loop.simps) (auto elim!: bindE_InrE)
    note P = assms(3) [OF less.prems(2) s1]
    show ?thesis
    proof (cases go)
      case False
      with rest P show ?thesis by auto
    next
      case go: True
      then have "nat (int (length (running s1)) - i1) < nat (int (length (running s)) - i)"
        using schedule_running_one_progress [of cfg sv now s p i s1 p1 i1] s1 True by simp
      from less.hyps [OF this _ P] rest go show ?thesis by simp
    qed
  qed
qed

lemma running_loop_ok:
  assumes M: "one_of_each M" and bs: "need_mamba_block_aligned_split cfg \<Longrightarrow> 0 < cache_block_size cfg"
    and run: "running_loop cfg sv now s p i = Inr (s', p')" and ok: "running_ok R cfg M s p i"
  shows "\<exists>i'. running_ok R cfg M s' p' i'"
  by (rule running_loop_rule [where P = "running_ok R cfg M", OF run ok]) (rule schedule_running_one_ok [OF M _ bs])

subsection \<open>The loop over the waiting requests\<close>

lemma accounted_loras [simp]: "accounted R cfg (p\<lparr>scheduled_loras := x\<rparr>) = accounted R cfg p"
  by (simp add: accounted_def)

definition waiting_ok :: "bool \<Rightarrow> scheduler_settings \<Rightarrow> string multiset \<Rightarrow> 'e Scheduler \<Rightarrow> step_plan \<Rightarrow> bool" where
  "waiting_ok R cfg M s p \<longleftrightarrow> accounted R cfg p
     \<and> mset (running s) + queue_bag (waiting s) + queue_bag (skipped_waiting_requests p) = M
     \<and> distinct (scheduled_new_reqs p @ scheduled_resumed_reqs p @ scheduled_running_reqs p)
     \<and> set (scheduled_new_reqs p @ scheduled_resumed_reqs p @ scheduled_running_reqs p) \<subseteq> set (running s)
     \<and> int (length (running s)) \<le> max_num_running_reqs cfg
     \<and> (\<forall>rid \<in> set (running s). status (objects s rid) = RUNNING) \<and> preempted_reqs p = []"

lemma waiting_ok_frame:
  assumes "waiting_ok R cfg M s p" and "same_queues rid s s'" and "one_of_each M" and "rid \<in># queue_bag (waiting s)"
  shows "waiting_ok R cfg M s' p"
proof -
  have "one_of_each (mset (running s) + (queue_bag (waiting s) + queue_bag (skipped_waiting_requests p)))"
    using assms(1,3) by (simp add: waiting_ok_def add.assoc)
  then have "rid \<notin> set (running s)" using one_of_each_distinct assms(4) by (metis union_iff)
  then show ?thesis using assms(1,2) by (auto simp: waiting_ok_def same_queues_def)
qed

lemma waiting_ok_managers [simp]:
  "waiting_ok R cfg M (s\<lparr>kv_cache_manager := k\<rparr>) p = waiting_ok R cfg M s p"
  "waiting_ok R cfg M (s\<lparr>encoder_cache_manager := m\<rparr>) p = waiting_ok R cfg M s p"
  "waiting_ok R cfg M (s\<lparr>external := e\<rparr>) p = waiting_ok R cfg M s p"
  "waiting_ok R cfg M (tell_connector sv rid c s) p = waiting_ok R cfg M s p"
  by (simp_all add: waiting_ok_def tell_connector_def Let_def split: option.split)

lemma tell_connector_simps [simp]:
  "waiting (tell_connector sv rid c s) = waiting s" "running (tell_connector sv rid c s) = running s"
  "objects (tell_connector sv rid c s) = objects s" "kv_cache_manager (tell_connector sv rid c s) = kv_cache_manager s"
  "encoder_cache_manager (tell_connector sv rid c s) = encoder_cache_manager s" "requests (tell_connector sv rid c s) = requests s"
  by (simp_all add: tell_connector_def Let_def split: option.split)

lemma skip_waiting_ok:
  assumes ok: "waiting_ok R cfg M s p" and rid: "peek_request (waiting s) = Inr rid" and run: "skip_waiting rid s p = Inr (s', p', go)"
  shows "waiting_ok R cfg M s' p'"
proof -
  from run obtain q x where q: "pop_request (objects s) (waiting s) = Inr (q, x)" "s' = s\<lparr>waiting := q\<rparr>"
    "p' = p\<lparr>skipped_waiting_requests := prepend_request (objects s) rid (skipped_waiting_requests p)\<rparr>"
    by (auto simp: skip_waiting_def elim!: bindE_InrE)
  from bag_pop_request [OF q(1)] rid have "queue_bag (waiting s) = add_mset rid (queue_bag q)" by simp
  then show ?thesis using ok by (auto simp: waiting_ok_def accounted_def q(2,3))
qed

text \<open>What an admission does to the tables: the request joins \<open>running\<close>, or the skipped ones if its blocks arrive later.\<close>

lemma commit_waiting_shape:
  assumes "commit_waiting cfg sv now rid n ep c s p = Inr (s', p', go)"
  obtains (async) q x where "load_kv_async c" "pop_request (objects s) (waiting s) = Inr (q, x)"
      "s' = modify_request rid (\<lambda>r. r\<lparr>status := WAITING_FOR_REMOTE_KVS\<rparr>) (s\<lparr>waiting := q\<rparr>)"
      "p' = p\<lparr>skipped_waiting_requests := prepend_request (objects s) rid (skipped_waiting_requests p)\<rparr>" "go"
  | (sync) q x p1 ei eb m e where "\<not> load_kv_async c" "pop_request (objects s) (waiting s) = Inr (q, x)"
      "list_admitted rid (status (objects s rid)) p = Inr p1"
      "s' = (modify_request rid (start_request c) (modify_request rid (log_event cfg SCHEDULED now)
               (s\<lparr>waiting := q, running := running s @ [rid]\<rparr>)))\<lparr>encoder_cache_manager := m, external := e\<rparr>"
      "p' = (book_admitted cfg rid (log_event cfg SCHEDULED now (objects s rid)) n (get_blocks rid (kv_cache_manager s)) p1)
              \<lparr>scheduled_encoder_inputs := ei, encoder_compute_budget := eb\<rparr>" "go"
proof -
  from assms obtain q x where q: "pop_request (objects s) (waiting s) = Inr (q, x)" by (auto simp: commit_waiting_def elim!: bindE_InrE)
  note u = assms [unfolded commit_waiting_def q bindE.simps prod.case]
  show thesis
  proof (cases "load_kv_async c")
    case True
    with u async [OF True q] show thesis by simp
  next
    case False
    let ?s1 = "modify_request rid (log_event cfg SCHEDULED now) (s\<lparr>waiting := q, running := running s @ [rid]\<rparr>)"
    have st: "status (objects ?s1 rid) = status (objects s rid)" by (simp add: log_event_def record_event_def)
    from u False obtain p1 where p1: "list_admitted rid (status (objects s rid)) p = Inr p1" and
      e: "enter_encoder_inputs sv rid ep (modify_request rid (start_request c) ?s1)
           (book_admitted cfg rid (objects ?s1 rid) n (get_blocks rid (kv_cache_manager ?s1)) p1) = Inr (s', p')" "go"
      using st by (auto simp: Let_def elim!: bindE_InrE)
    from enter_encoder_inputs_ok [OF e(1)] sync [OF False q p1] e(2) show thesis by auto
  qed
qed

lemma list_admitted_shape:
  assumes "list_admitted rid st p = Inr p1"
  obtains new resumed where "st = WAITING \<and> new = [rid] \<and> resumed = [] \<or> st = PREEMPTED \<and> new = [] \<and> resumed = [rid]"
    "p1 = p\<lparr>scheduled_new_reqs := scheduled_new_reqs p @ new, scheduled_resumed_reqs := scheduled_resumed_reqs p @ resumed\<rparr>"
  using assms by (cases st) (auto simp: list_admitted_def)

lemma commit_waiting_ok:
  assumes ok: "waiting_ok R cfg M s p" and M: "one_of_each M" and rid: "peek_request (waiting s) = Inr rid"
    and n: "\<not> load_kv_async c \<Longrightarrow> 0 < n \<and> n \<le> token_budget p" and room: "int (length (running s)) < max_num_running_reqs cfg"
    and run: "commit_waiting cfg sv now rid n ep c s p = Inr (s', p', go)"
  shows "waiting_ok R cfg M s' p'"
  using run
proof (cases rule: commit_waiting_shape)
  case (async q x)
  from bag_pop_request [OF async(2)] rid have b: "queue_bag (waiting s) = add_mset rid (queue_bag q)" by simp
  then have "same_queues rid s (s'\<lparr>waiting := waiting s\<rparr>)" using async(3) by (simp add: same_queues_def)
  then have "waiting_ok R cfg M (s'\<lparr>waiting := waiting s\<rparr>) p" using waiting_ok_frame [OF ok _ M] b by simp
  then show ?thesis using b by (auto simp: waiting_ok_def accounted_def async(3,4))
next
  case (sync q x p1 ei eb m e)
  from list_admitted_shape [OF sync(3)] obtain new resumed where
    nr: "status (objects s rid) = WAITING \<and> new = [rid] \<and> resumed = [] \<or> status (objects s rid) = PREEMPTED \<and> new = [] \<and> resumed = [rid]"
    "p1 = p\<lparr>scheduled_new_reqs := scheduled_new_reqs p @ new, scheduled_resumed_reqs := scheduled_resumed_reqs p @ resumed\<rparr>" .
  obtain ls where p': "p' = p\<lparr>scheduled_new_reqs := scheduled_new_reqs p @ new, scheduled_resumed_reqs := scheduled_resumed_reqs p @ resumed,
      scheduled_loras := ls, req_to_new_blocks := AList.update rid (get_blocks rid (kv_cache_manager s)) (req_to_new_blocks p),
      num_scheduled_tokens := AList.update rid n (num_scheduled_tokens p), token_budget := token_budget p - n,
      scheduled_encoder_inputs := ei, encoder_compute_budget := eb\<rparr>"
    by (simp add: sync(5) nr(2) book_admitted_def)
  from bag_pop_request [OF sync(2)] rid have b: "queue_bag (waiting s) = add_mset rid (queue_bag q)" by simp
  have "one_of_each (mset (running s) + (queue_bag (waiting s) + queue_bag (skipped_waiting_requests p)))"
    using ok M by (simp add: waiting_ok_def add.assoc)
  then have fresh: "rid \<notin> set (running s)" using one_of_each_distinct b by (metis union_single_eq_member union_iff)
  note r = ok [unfolded waiting_ok_def]
  have keys: "set (map fst (num_scheduled_tokens p)) \<subseteq> set (running s)" using r by (auto simp: accounted_def)
  have acc: "accounted R cfg p'"
    by (rule accounted_commit [of R cfg p rid n _ "get_blocks rid (kv_cache_manager s)"])
      (use r keys fresh n sync(1) nr(1) in \<open>auto simp: p'\<close>)
  have stat: "\<forall>x \<in> set (running s'). status (objects s' x) = RUNNING"
    using r by (auto simp: sync(4) modify_request_def start_request_def)
  show ?thesis
    unfolding waiting_ok_def
  proof (intro conjI)
    show "mset (running s') + queue_bag (waiting s') + queue_bag (skipped_waiting_requests p') = M"
      using r b by (simp add: sync(4) p')
    show "distinct (scheduled_new_reqs p' @ scheduled_resumed_reqs p' @ scheduled_running_reqs p')"
      using r fresh nr(1) by (auto simp: p')
    show "set (scheduled_new_reqs p' @ scheduled_resumed_reqs p' @ scheduled_running_reqs p') \<subseteq> set (running s')"
      using r nr(1) by (auto simp: sync(4) p')
    show "int (length (running s')) \<le> max_num_running_reqs cfg" using room by (simp add: sync(4))
    show "preempted_reqs p' = []" using r by (simp add: p')
  qed (use acc stat in simp_all)
qed

lemma admit_waiting_cases:
  assumes "admit_waiting cfg sv now rid n ep c s p = Inr (s', p', go)"
  obtains (full) k m where "admission_slots cfg (objects s rid) n c (kv_cache_manager s) = Inr (k, None)"
      "s' = s\<lparr>kv_cache_manager := k, encoder_cache_manager := m\<rparr>" "p' = p" "\<not> go"
  | (admitted) k b where "admission_slots cfg (objects s rid) n c (kv_cache_manager s) = Inr (k, Some b)"
      "commit_waiting cfg sv now rid n ep c (tell_connector sv rid c (s\<lparr>kv_cache_manager := k\<rparr>)) p = Inr (s', p', go)"
proof -
  from assms obtain k b where k: "admission_slots cfg (objects s rid) n c (kv_cache_manager s) = Inr (k, b)"
    "(if b = None
         then bindE (if has_encoder_inputs (objects s rid)
                     then enc_free (objects s rid) (encoder_cache_manager (s\<lparr>kv_cache_manager := k\<rparr>))
                     else Inr (encoder_cache_manager (s\<lparr>kv_cache_manager := k\<rparr>)))
                (\<lambda>m. Inr (s\<lparr>kv_cache_manager := k, encoder_cache_manager := m\<rparr>, p, False))
         else commit_waiting cfg sv now rid n ep c (tell_connector sv rid c (s\<lparr>kv_cache_manager := k\<rparr>)) p) = Inr (s', p', go)"
    by (auto simp: admit_waiting_def Let_def elim!: bindE_InrE)
  show thesis
  proof (cases b)
    case None
    with k(2) obtain m where "s' = s\<lparr>kv_cache_manager := k, encoder_cache_manager := m\<rparr>" "p' = p" "\<not> go"
      by (auto elim!: bindE_InrE)
    with full k(1) None show thesis by blast
  next
    case (Some b')
    with k admitted show thesis by simp
  qed
qed

lemma schedule_waiting_one_ok:
  assumes M: "one_of_each M" and ok: "waiting_ok R cfg M s p"
    and bs: "need_mamba_block_aligned_split cfg \<Longrightarrow> 0 < cache_block_size cfg"
    and room: "int (length (running s)) < max_num_running_reqs cfg"
    and run: "schedule_waiting_one cfg sv now s p = Inr (s', p', go)"
  shows "waiting_ok R cfg M s' p'"
proof -
  have queued: "rid \<in># queue_bag (waiting s)" if "peek_request (waiting s) = Inr rid" for rid
    using pop_request_returns [OF that, of "objects s"] bag_pop_request by (metis union_single_eq_member)
  from run show ?thesis
  proof (cases rule: schedule_waiting_one_cases)
    case (skipped rid s1)
    have "waiting_ok R cfg M s1 p" using waiting_ok_frame [OF ok skipped(2) M queued [OF skipped(1)]] .
    moreover have "peek_request (waiting s1) = Inr rid" using skipped(1,2) by (simp add: same_queues_def)
    ultimately show ?thesis using skip_waiting_ok [OF _ _ skipped(3)] by blast
  next
    case (stopped rid s1 s2 c m ep)
    have "same_queues rid s s2"
      using same_queues_trans waiting_request_ready_frame [OF stopped(2)] find_cached_prefix_frame [OF stopped(3)] by blast
    from waiting_ok_frame [OF ok this M queued [OF stopped(1)]] stopped(5,6) show ?thesis by simp
  next
    case (admitted rid s1 s2 c m ep ep' n)
    have f: "same_queues rid s s2"
      using same_queues_trans waiting_request_ready_frame [OF admitted(2)] find_cached_prefix_frame [OF admitted(3)] by blast
    have ok2: "waiting_ok R cfg M s2 p" using waiting_ok_frame [OF ok f M queued [OF admitted(1)]] .
    have n: "0 < n \<and> n \<le> token_budget p" if "\<not> load_kv_async c"
      using waiting_share_bounds [OF admitted(4,5) that bs] .
    from admitted(6) show ?thesis
    proof (cases rule: admit_waiting_cases)
      case (full k m')
      with ok2 show ?thesis by simp
    next
      case (admitted k b)
      show ?thesis
        by (rule commit_waiting_ok [OF _ M _ n _ admitted(2)]) (use ok2 f room \<open>peek_request (waiting s) = Inr rid\<close> in \<open>simp_all add: same_queues_def\<close>)
    qed
  qed
qed

lemma waiting_loop_rule:
  assumes "waiting_loop cfg sv now s p = Inr (s', p')" and "P s p"
    and "\<And>s p s1 p1 go. P s p \<Longrightarrow> int (length (running s)) \<noteq> max_num_running_reqs cfg \<Longrightarrow> 0 < token_budget p \<Longrightarrow>
      schedule_waiting_one cfg sv now s p = Inr (s1, p1, go) \<Longrightarrow> P s1 p1"
  shows "P s' p'"
  using assms(1,2)
proof (induction "size (queue_bag (waiting s))" arbitrary: s p rule: less_induct)
  case less
  show ?case
  proof (cases "has_requests (waiting s) \<and> token_budget p > 0 \<and> int (length (running s)) \<noteq> max_num_running_reqs cfg")
    case False
    with less.prems show ?thesis by (subst (asm) waiting_loop.simps) (auto split: if_splits)
  next
    case True
    with less.prems(1) obtain s1 p1 go where s1: "schedule_waiting_one cfg sv now s p = Inr (s1, p1, go)"
      and rest: "(if go then waiting_loop cfg sv now s1 p1 else Inr (s1, p1)) = Inr (s', p')"
      by (subst (asm) waiting_loop.simps) (auto elim!: bindE_InrE)
    have P: "P s1 p1" using assms(3) [OF less.prems(2) _ _ s1] True by blast
    show ?thesis
    proof (cases go)
      case False
      with rest P show ?thesis by simp
    next
      case go: True
      with schedule_waiting_one_progress s1 less.hyps [OF _ _ P] rest show ?thesis by fastforce
    qed
  qed
qed

lemma waiting_loop_ok:
  assumes M: "one_of_each M" and bs: "need_mamba_block_aligned_split cfg \<Longrightarrow> 0 < cache_block_size cfg"
    and run: "waiting_loop cfg sv now s p = Inr (s', p')" and ok: "waiting_ok R cfg M s p"
  shows "waiting_ok R cfg M s' p'"
proof (rule waiting_loop_rule [where P = "waiting_ok R cfg M", OF run ok])
  fix s p s1 p1 go
  assume a: "waiting_ok R cfg M s p" "int (length (running s)) \<noteq> max_num_running_reqs cfg"
    "schedule_waiting_one cfg sv now s p = Inr (s1, p1, go)"
  then have "int (length (running s)) < max_num_running_reqs cfg" by (auto simp: waiting_ok_def)
  with schedule_waiting_one_ok [OF M a(1) bs _ a(3)] show "waiting_ok R cfg M s1 p1" by blast
qed

subsection \<open>The whole step\<close>

text \<open>
  A state in which a step may begin: no request is listed twice, and the listed running ones are running.
  \<open>step_ready\<close> asks in addition that the running requests are ready for more tokens.
\<close>

definition step_listed :: "scheduler_settings \<Rightarrow> 'e Scheduler \<Rightarrow> bool" where
  "step_listed cfg s \<longleftrightarrow> one_of_each (mset (running s) + queue_bag (waiting s))
     \<and> (\<forall>rid \<in> set (running s). status (objects s rid) = RUNNING)
     \<and> int (length (running s)) \<le> max_num_running_reqs cfg \<and> 0 \<le> max_num_scheduled_tokens cfg
     \<and> (need_mamba_block_aligned_split cfg \<longrightarrow> 0 < cache_block_size cfg)"

definition step_ready :: "scheduler_settings \<Rightarrow> 'e Scheduler \<Rightarrow> bool" where
  "step_ready cfg s \<longleftrightarrow> step_listed cfg s \<and> (\<forall>rid \<in> set (running s). tokens_ready cfg (objects s rid))"

lemma running_ok_start:
  "step_listed cfg s \<Longrightarrow> (R \<Longrightarrow> step_ready cfg s) \<Longrightarrow>
   running_ok R cfg (mset (running s) + queue_bag (waiting s)) s (new_plan cfg) 0"
  by (auto simp: running_ok_def step_ready_def step_listed_def accounted_def new_plan_def)

text \<open>What holds between the loops, and at the end.\<close>

definition step_done :: "bool \<Rightarrow> scheduler_settings \<Rightarrow> 'e Scheduler \<Rightarrow> 'e Scheduler \<Rightarrow> step_plan \<Rightarrow> bool" where
  "step_done R cfg s0 s p \<longleftrightarrow> accounted R cfg p
     \<and> mset (running s) + queue_bag (waiting s) = mset (running s0) + queue_bag (waiting s0)
     \<and> distinct (scheduled_new_reqs p @ scheduled_resumed_reqs p @ scheduled_running_reqs p)
     \<and> set (scheduled_new_reqs p @ scheduled_resumed_reqs p @ scheduled_running_reqs p) \<subseteq> set (running s)
     \<and> int (length (running s)) \<le> max_num_running_reqs cfg
     \<and> (\<forall>rid \<in> set (running s). status (objects s rid) = RUNNING)
     \<and> (\<forall>v \<in> set (preempted_reqs p). v \<in># queue_bag (waiting s) \<and> status (objects s v) = PREEMPTED
          \<and> num_computed_tokens (objects s v) = 0)"

lemma prepend_skipped:
  assumes "(if has_requests (skipped_waiting_requests p)
     then bindE (prepend_requests (objects s) (skipped_waiting_requests p) (waiting s)) (\<lambda>q. Inr (s\<lparr>waiting := q\<rparr>, p))
     else Inr (s, p)) = Inr (s', p')"
  shows "p' = p \<and> (\<exists>q. s' = s\<lparr>waiting := q\<rparr> \<and> queue_bag q = queue_bag (waiting s) + queue_bag (skipped_waiting_requests p))"
proof (cases "has_requests (skipped_waiting_requests p)")
  case True
  obtain q where "prepend_requests (objects s) (skipped_waiting_requests p) (waiting s) = Inr q"
    "queue_bag q = queue_bag (waiting s) + queue_bag (skipped_waiting_requests p)" using bag_prepend_requests by blast
  with True assms show ?thesis by auto
next
  case False
  then have "queue_bag (skipped_waiting_requests p) = {#}" by (simp add: has_requests_def len_requests_bag)
  with False assms show ?thesis by (intro conjI exI [of _ "waiting s"]) auto
qed

lemma plan_step_done:
  assumes listed: "step_listed cfg s" and ready: "R \<Longrightarrow> step_ready cfg s" and run: "plan_step cfg sv now s = Inr (s', p)"
  shows "step_done R cfg s s' p"
proof -
  let ?M = "mset (running s) + queue_bag (waiting s)"
  have M: "one_of_each ?M" and bs: "need_mamba_block_aligned_split cfg \<Longrightarrow> 0 < cache_block_size cfg"
    using listed by (simp_all add: step_listed_def)
  from run obtain s1 p1 p2 s2 p3 where r: "running_loop cfg sv now s (new_plan cfg) 0 = Inr (s1, p1)"
    "record_loras cfg s1 p1 = Inr p2"
    "(if preempted_reqs p2 = [] then waiting_loop cfg sv now s1 p2 else Inr (s1, p2)) = Inr (s2, p3)" and
    e: "(if has_requests (skipped_waiting_requests p3)
     then bindE (prepend_requests (objects s2) (skipped_waiting_requests p3) (waiting s2)) (\<lambda>q. Inr (s2\<lparr>waiting := q\<rparr>, p3))
     else Inr (s2, p3)) = Inr (s', p)"
    unfolding plan_step_def by (elim bindE_InrE) (auto elim!: bindE_InrE)
  from running_loop_ok [OF M bs r(1) running_ok_start [OF listed ready]] obtain i where ok1: "running_ok R cfg ?M s1 p1 i" by blast
  have "p2 = p1\<lparr>scheduled_loras := scheduled_loras p2\<rparr>"
    using r(2) by (cases "max_loras cfg") (auto simp: record_loras_def Let_def)
  then obtain ls where p2: "p2 = p1\<lparr>scheduled_loras := ls\<rparr>" by blast
  show ?thesis
  proof (cases "preempted_reqs p1 = []")
    case False
    then have eq: "s2 = s1" "p3 = p2" using r(3) by (simp_all add: p2)
    have skip: "queue_bag (skipped_waiting_requests p3) = {#}" using ok1 by (simp add: running_ok_def eq p2)
    have "set (scheduled_running_reqs p1) \<subseteq> set (running s1)"
      using running_ok_parts(3) [OF M ok1] by (auto dest: in_set_takeD)
    with prepend_skipped [OF e] ok1 skip show ?thesis
      by (auto simp: step_done_def running_ok_def eq p2)
  next
    case True
    then have "set (scheduled_running_reqs p1) \<subseteq> set (running s1)" "waiting_loop cfg sv now s1 p2 = Inr (s2, p3)"
      using running_ok_parts(3) [OF M ok1] r(3) by (auto simp: p2 dest: in_set_takeD)
    then have "waiting_ok R cfg ?M s1 p2" using ok1 True by (simp add: running_ok_def waiting_ok_def p2)
    from waiting_loop_ok [OF M bs \<open>waiting_loop cfg sv now s1 p2 = Inr (s2, p3)\<close> this] have "waiting_ok R cfg ?M s2 p3" .
    with prepend_skipped [OF e] show ?thesis by (auto simp: step_done_def waiting_ok_def ac_simps)
  qed
qed

text \<open>The asserts at the end of the step hold.\<close>

lemma step_done_constraints:
  assumes "step_done True cfg s0 s p"
  shows "step_constraints cfg s p"
proof -
  have d: "distinct (scheduled_new_reqs p @ scheduled_resumed_reqs p @ scheduled_running_reqs p)"
    "set (scheduled_new_reqs p @ scheduled_resumed_reqs p @ scheduled_running_reqs p) \<subseteq> set (running s)"
    using assms by (simp_all add: step_done_def)
  have "length (scheduled_new_reqs p @ scheduled_resumed_reqs p @ scheduled_running_reqs p)
      = card (set (scheduled_new_reqs p @ scheduled_resumed_reqs p @ scheduled_running_reqs p))"
    using distinct_card [OF d(1)] by simp
  also have "\<dots> \<le> card (set (running s))" by (rule card_mono [OF _ d(2)]) simp
  also have "\<dots> \<le> length (running s)" by (rule card_length)
  finally show ?thesis using assms by (simp add: step_constraints_def step_done_def accounted_def)
qed

end
