(* ===== verification/Scheduler_Queues.thy ===== *)
theory Scheduler_Queues
  imports Scheduler_Invariant
begin

section \<open>Where the requests are\<close>

text \<open>
  Every unfinished request of the dictionary \<open>requests\<close> is in exactly one place: in \<open>running\<close> if its status is
  \<open>RUNNING\<close>, otherwise in the waiting queue. \<open>placed X s\<close> states this with the bag \<open>X\<close> of requests that
  a loop holds in its hands; between two operations it is empty. The theory covers requests without
  streaming input: the entry of a streaming session in a queue can be lost, see \<open>Scheduler_Reachable\<close>.
\<close>

subsection \<open>The invariant\<close>

definition unfinished :: "'e Scheduler \<Rightarrow> string \<Rightarrow> bool" where
  "unfinished s rid \<longleftrightarrow> rid \<in> set (requests s) \<and> \<not> is_finished (objects s rid)"

definition waiting_status :: "RequestStatus \<Rightarrow> bool" where
  "waiting_status st \<longleftrightarrow> st \<in> {WAITING, WAITING_FOR_FSM, WAITING_FOR_REMOTE_KVS, PREEMPTED}"

definition placed :: "string multiset \<Rightarrow> 'e Scheduler \<Rightarrow> bool" where
  "placed X s \<longleftrightarrow> distinct (requests s)
     \<and> mset (running s) + queue_bag (waiting s) + X = mset (filter (unfinished s) (requests s))
     \<and> (\<forall>rid \<in> set (running s). status (objects s rid) = RUNNING)
     \<and> (\<forall>rid. rid \<in># queue_bag (waiting s) + X \<longrightarrow> waiting_status (status (objects s rid)))
     \<and> (\<forall>rid \<in> set (requests s). request_id (objects s rid) = rid \<and> \<not> resumable (objects s rid))
     \<and> num_waiting_for_streaming_input s = 0"

lemma waiting_status_simps [simp]:
  "waiting_status WAITING" "waiting_status WAITING_FOR_FSM" "waiting_status WAITING_FOR_REMOTE_KVS" "waiting_status PREEMPTED"
  "\<not> waiting_status RUNNING" "\<not> waiting_status WAITING_FOR_STREAMING_REQ"
  by (simp_all add: waiting_status_def)

lemma waiting_not_finished: "waiting_status st \<Longrightarrow> \<not> status_is_finished st"
  by (auto simp: waiting_status_def status_is_finished_def)

lemma running_not_finished [simp]: "\<not> status_is_finished RUNNING"
  by (simp add: status_is_finished_def)

text \<open>The same with sets, for the operations that remove many requests at once.\<close>

lemma mset_filter_distinct:
  assumes "distinct rids"
  shows "M = mset (filter P rids) \<longleftrightarrow> one_of_each M \<and> (\<forall>x. x \<in># M \<longleftrightarrow> x \<in> set rids \<and> P x)"
proof
  assume "M = mset (filter P rids)"
  with assms show "one_of_each M \<and> (\<forall>x. x \<in># M \<longleftrightarrow> x \<in> set rids \<and> P x)"
    by (auto simp: one_of_each_def distinct_count_atmost_1)
next
  assume r: "one_of_each M \<and> (\<forall>x. x \<in># M \<longleftrightarrow> x \<in> set rids \<and> P x)"
  show "M = mset (filter P rids)"
  proof (rule multiset_eqI)
    fix x
    have "count M x = (if x \<in># M then 1 else 0)"
      using r by (auto simp: one_of_each_def not_in_iff intro: le_antisym simp: Suc_le_eq)
    moreover have "count (mset (filter P rids)) x = (if x \<in> set rids \<and> P x then 1 else 0)"
      using distinct_filter [OF assms, of P] distinct_count_atmost_1 [of "filter P rids"]
      by (simp only: set_filter mem_Collect_eq)
    ultimately show "count M x = count (mset (filter P rids)) x" using r by simp
  qed
qed

lemma placed_sets:
  "placed X s \<longleftrightarrow> distinct (requests s)
     \<and> one_of_each (mset (running s) + queue_bag (waiting s) + X)
     \<and> (\<forall>rid. rid \<in> set (running s) \<or> rid \<in># queue_bag (waiting s) + X \<longleftrightarrow> unfinished s rid)
     \<and> (\<forall>rid \<in> set (running s). status (objects s rid) = RUNNING)
     \<and> (\<forall>rid. rid \<in># queue_bag (waiting s) + X \<longrightarrow> waiting_status (status (objects s rid)))
     \<and> (\<forall>rid \<in> set (requests s). request_id (objects s rid) = rid \<and> \<not> resumable (objects s rid))
     \<and> num_waiting_for_streaming_input s = 0"
proof -
  have "mset (running s) + queue_bag (waiting s) + X = mset (filter (unfinished s) (requests s))
      \<longleftrightarrow> one_of_each (mset (running s) + queue_bag (waiting s) + X)
        \<and> (\<forall>rid. rid \<in> set (running s) \<or> rid \<in># queue_bag (waiting s) + X \<longleftrightarrow> unfinished s rid)"
    if "distinct (requests s)"
    by (simp only: mset_filter_distinct [OF that] union_iff set_mset_mset)
      (auto simp: unfinished_def)
  then show ?thesis unfolding placed_def by blast
qed

text \<open>Operations that change neither queues nor statuses.\<close>

definition same_places :: "'e Scheduler \<Rightarrow> 'e Scheduler \<Rightarrow> bool" where
  "same_places s s' \<longleftrightarrow> waiting s' = waiting s \<and> running s' = running s \<and> requests s' = requests s
     \<and> num_waiting_for_streaming_input s' = num_waiting_for_streaming_input s
     \<and> (\<forall>x. status (objects s' x) = status (objects s x) \<and> request_id (objects s' x) = request_id (objects s x)
          \<and> resumable (objects s' x) = resumable (objects s x))"

lemma same_places_refl [simp]: "same_places s s"
  by (simp add: same_places_def)

lemma same_places_trans [trans]: "same_places a b \<Longrightarrow> same_places b c \<Longrightarrow> same_places a c"
  by (simp add: same_places_def)

lemma same_places_fields [simp]:
  "same_places s (s\<lparr>kv_cache_manager := k\<rparr>)" "same_places s (s\<lparr>encoder_cache_manager := m\<rparr>)"
  "same_places s (s\<lparr>external := e\<rparr>)" "same_places s (s\<lparr>finished_req_ids := ids\<rparr>)"
  "same_places s (s\<lparr>prev_step_scheduled_req_ids := ids\<rparr>)" "same_places s (s\<lparr>connector_prefix_cache_stats := st\<rparr>)"
  by (simp_all add: same_places_def)

lemma same_places_modify:
  "status (f (objects s rid)) = status (objects s rid) \<Longrightarrow> request_id (f (objects s rid)) = request_id (objects s rid)
   \<Longrightarrow> resumable (f (objects s rid)) = resumable (objects s rid) \<Longrightarrow> same_places s (modify_request rid f s)"
  by (simp add: same_places_def modify_request_def)

lemma placed_same: "placed X s \<Longrightarrow> same_places s s' \<Longrightarrow> placed X s'"
  by (simp add: placed_sets same_places_def unfinished_def is_finished_def)

text \<open>A waiting request may change to another waiting status.\<close>

lemma placed_restatus:
  assumes "placed X s" and "rid \<in># queue_bag (waiting s) + X" and "waiting_status st"
  shows "placed X (modify_request rid (\<lambda>r. r\<lparr>status := st\<rparr>) s)"
proof -
  have "one_of_each (mset (running s) + (queue_bag (waiting s) + X))" using assms(1) by (simp add: placed_sets add.assoc)
  then have "rid \<notin> set (running s)" using one_of_each_distinct assms(2) by metis
  moreover have "unfinished s rid" using assms(1,2) unfolding placed_sets by blast
  ultimately show ?thesis using assms waiting_not_finished
    by (auto simp: placed_sets modify_request_def unfinished_def is_finished_def)
qed

subsection \<open>The scheduling step\<close>

lemma one_of_each_add: "one_of_each (add_mset x M) \<Longrightarrow> x \<notin># M"
  using one_of_each_distinct [of "[x]" M] by simp

lemma placed_preempt:
  assumes "placed X s" and "preempt_request cfg now v (s\<lparr>running := rs\<rparr>) = Inr s'" and "mset (running s) = add_mset v (mset rs)"
  shows "placed X s'"
proof -
  have v: "v \<in> set (running s)" using assms(3) by (metis set_mset_add_mset_insert set_mset_mset insertI1)
  from assms(2) obtain r where o: "objects s' = (objects s)(v := r)" "status r = PREEMPTED"
    "request_id r = request_id (objects s v)" "resumable r = resumable (objects s v)"
    "running s' = rs" "requests s' = requests s" "num_waiting_for_streaming_input s' = num_waiting_for_streaming_input s"
    "queue_bag (waiting s') = add_mset v (queue_bag (waiting s))"
    by (auto simp: preempt_request_def Let_def modify_request_def elim!: bindE_InrE)
  have one: "one_of_each (add_mset v (mset rs + queue_bag (waiting s) + X))"
    using assms(1,3) by (simp add: placed_sets)
  have "set (running s) = insert v (set rs)" using arg_cong [OF assms(3), of set_mset] by simp
  moreover have "one_of_each (mset rs + add_mset v (queue_bag (waiting s) + X))"
    using assms(1,3) by (simp add: placed_sets add.assoc)
  then have "v \<notin> set rs" using one_of_each_distinct by (metis union_single_eq_member add_mset_add_single union_iff)
  ultimately show ?thesis
    using assms(1) one v waiting_not_finished [of PREEMPTED]
    unfolding placed_sets unfinished_def is_finished_def by (auto simp: o)
qed

lemma placed_victim:
  assumes "placed X s" and "choose_victim cfg s p i = Inr (s1, p1, i1, v)" and "preempt_request cfg now v s1 = Inr s2"
  shows "placed X s2"
proof -
  from choose_victim_shape [OF assms(2)] obtain rs where "s1 = s\<lparr>running := rs\<rparr>" "mset (running s) = add_mset v (mset rs)"
    by (metis Scheduler.select_convs(4) Scheduler.surjective Scheduler.update_convs(4))
  with placed_preempt [OF assms(1)] assms(3) show ?thesis by blast
qed

lemma placed_enter:
  "placed X s \<Longrightarrow> enter_encoder_inputs sv rid ep s p = Inr (s', p') \<Longrightarrow> placed X s'"
  by (erule placed_same) (auto simp: enter_encoder_inputs_def same_places_def Let_def elim!: bindE_InrE)

lemma placed_commit_running:
  assumes "placed X s" and "commit_running sv rid n ep b s p i = Inr (s', p', i', go)"
  shows "placed X s'"
proof -
  have "placed X (modify_request rid (\<lambda>r. r\<lparr>spec_token_ids := []\<rparr>) s)"
    by (rule placed_same [OF assms(1) same_places_modify]) simp_all
  with placed_enter assms(2) show ?thesis by (auto simp: commit_running_def Let_def elim!: bindE_InrE)
qed

lemma placed_preempt_loop:
  assumes "preempt_loop cfg now rid n s p i = Inr (s', p', i', b)" and "placed X s"
  shows "placed X s'"
proof -
  have "(if b = None then \<lambda>s (p :: step_plan) (i :: int). placed X s else (\<lambda>s p i. placed X s)) s' p' i'"
    by (rule preempt_loop_rule [OF assms(1), where P = "\<lambda>s p i. placed X s"])
      (use assms(2) placed_victim in \<open>auto intro: placed_same\<close>)
  then show ?thesis by (simp split: if_splits)
qed

lemma placed_running_loop:
  assumes "running_loop cfg sv now s p i = Inr (s', p')" and "placed X s"
  shows "placed X s'"
proof -
  have "placed X s1" if "placed X s" "schedule_running_one cfg sv now s p i = Inr (s1, p1, i1, go)"
    for s p i s1 p1 i1 go
    using that(2)
  proof (cases rule: schedule_running_one_cases)
    case (skipped rid m ep)
    then show ?thesis using placed_same [OF that(1)] by simp
  next
    case (stuck rid m ep n)
    then show ?thesis using placed_preempt_loop placed_same [OF that(1)] by (metis same_places_fields(2))
  next
    case (scheduled rid m ep n s1 p1 i1 b)
    then show ?thesis using placed_commit_running placed_preempt_loop placed_same [OF that(1)]
      by (metis same_places_fields(2))
  qed (use that(1) in simp)
  with running_loop_rule [where P = "\<lambda>s p i. placed X s", OF assms] show ?thesis by blast
qed

text \<open>The second loop holds the skipped requests.\<close>

abbreviation placed_plan :: "'e Scheduler \<Rightarrow> step_plan \<Rightarrow> bool" where
  "placed_plan s p \<equiv> placed (queue_bag (skipped_waiting_requests p)) s"

lemma placed_remote_kv:
  "update_waiting_for_remote_kv cfg sv rid s = Inr (s', b) \<Longrightarrow> placed X s \<Longrightarrow> placed X s'"
  by (rule placed_same)
    (auto simp: update_waiting_for_remote_kv_def same_places_def modify_request_def Let_def
      elim!: bindE_InrE split: if_splits list.splits)

lemma placed_ready:
  assumes "waiting_request_ready cfg sv rid s = Inr (s', b)" and "placed X s" and q: "rid \<in># queue_bag (waiting s)"
  shows "placed X s'"
proof -
  from assms(1) obtain s1 ok where s1: "remote_kv_check cfg sv rid s = Inr (s1, ok)"
    and rest: "s' = s1 \<or> s' = modify_request rid (\<lambda>r. r\<lparr>status := WAITING\<rparr>) s1"
    by (auto simp: waiting_request_ready_def Let_def elim!: bindE_InrE split: if_splits)
  from s1 obtain s0 st where s0: "s0 = s \<or> (\<exists>b. update_waiting_for_remote_kv cfg sv rid s = Inr (s0, b))" "waiting_status st"
    "s1 = s0 \<or> s1 = modify_request rid (\<lambda>r. r\<lparr>status := st\<rparr>) s0"
  proof (cases "status (objects s rid) = WAITING_FOR_REMOTE_KVS")
    case True
    with s1 obtain t where t: "update_waiting_for_remote_kv cfg sv rid s = Inr (t, ok)"
      "s1 = t \<or> s1 = modify_request rid (\<lambda>r. r\<lparr>status := (if num_preemptions r \<noteq> 0 then PREEMPTED else WAITING)\<rparr>) t"
      by (auto simp: remote_kv_check_def elim!: bindE_InrE split: if_splits)
    have "modify_request rid (\<lambda>r. r\<lparr>status := (if num_preemptions r \<noteq> 0 then PREEMPTED else WAITING)\<rparr>) t
      = modify_request rid (\<lambda>r. r\<lparr>status := (if num_preemptions (objects t rid) \<noteq> 0 then PREEMPTED else WAITING)\<rparr>) t"
      by (simp add: modify_request_def)
    with t that [of t "if num_preemptions (objects t rid) \<noteq> 0 then PREEMPTED else WAITING"] show thesis by auto
  next
    case False
    with s1 that [of s WAITING] show thesis by (auto simp: remote_kv_check_def)
  qed
  have p0: "placed X s0" using s0(1) assms(2) placed_remote_kv by blast
  have "same_queues rid s s0" using s0(1) update_waiting_for_remote_kv_frame same_queues_refl by blast
  then have "waiting s0 = waiting s" by (simp add: same_queues_def)
  then have "rid \<in># queue_bag (waiting s0) + X" using q by simp
  then have p1: "placed X s1" "rid \<in># queue_bag (waiting s1) + X" using s0(2,3) placed_restatus [OF p0] p0 by auto
  from rest placed_restatus [OF p1, of WAITING] p1(1) show ?thesis by auto
qed

lemma placed_find:
  "find_cached_prefix cfg sv rid s = Inr (s', c) \<Longrightarrow> placed X s \<Longrightarrow> placed X s'"
  by (rule placed_same)
    (auto simp: find_cached_prefix_def same_places_def modify_request_def Let_def
      elim!: bindE_InrE split: if_splits option.splits prod.splits)

lemma placed_skip:
  assumes "skip_waiting rid s p = Inr (s', p', go)" and "peek_request (waiting s) = Inr rid" and "placed_plan s p"
  shows "placed_plan s' p'"
proof -
  from assms(1) obtain q x where q: "pop_request (objects s) (waiting s) = Inr (q, x)" "s' = s\<lparr>waiting := q\<rparr>"
    "p' = p\<lparr>skipped_waiting_requests := prepend_request (objects s) rid (skipped_waiting_requests p)\<rparr>"
    by (auto simp: skip_waiting_def elim!: bindE_InrE)
  from bag_pop_request [OF q(1)] assms(2) have "queue_bag (waiting s) = add_mset rid (queue_bag q)" by simp
  then show ?thesis using assms(3) by (auto simp: placed_def unfinished_def q(2,3))
qed

lemma placed_start:
  assumes "placed X s" and "queue_bag (waiting s) = add_mset rid (queue_bag q)"
  shows "placed X (modify_request rid (start_request c) (modify_request rid (log_event cfg e now)
    (s\<lparr>waiting := q, running := running s @ [rid]\<rparr>)))"
proof -
  have "one_of_each (mset (running s) + (queue_bag (waiting s) + X))" using assms(1) by (simp add: placed_sets add.assoc)
  then have "rid \<notin> set (running s)" using one_of_each_distinct assms(2) by (metis union_single_eq_member union_iff)
  moreover have "one_of_each (mset [rid] + (queue_bag q + (mset (running s) + X)))"
    using assms by (simp add: placed_sets add_ac)
  then have "rid \<notin># queue_bag q + X" by (auto dest!: one_of_each_add)
  moreover have "unfinished s rid" using assms unfolding placed_sets by (metis union_single_eq_member union_iff)
  ultimately show ?thesis using assms
    unfolding placed_sets unfinished_def is_finished_def modify_request_def start_request_def log_event_def record_event_def
    by auto
qed

lemma placed_commit_waiting:
  assumes "commit_waiting cfg sv now rid n ep c s p = Inr (s', p', go)" and "peek_request (waiting s) = Inr rid"
    and ok: "placed_plan s p"
  shows "placed_plan s' p'"
  using assms(1)
proof (cases rule: commit_waiting_shape)
  case (async q x)
  from bag_pop_request [OF async(2)] assms(2) have b: "queue_bag (waiting s) = add_mset rid (queue_bag q)" by simp
  then have "placed_plan (s\<lparr>waiting := q\<rparr>) (p\<lparr>skipped_waiting_requests := prepend_request (objects s) rid (skipped_waiting_requests p)\<rparr>)"
    using ok by (auto simp: placed_def unfinished_def)
  from placed_restatus [OF this, of rid WAITING_FOR_REMOTE_KVS] show ?thesis by (simp add: async(3,4))
next
  case (sync q x p1 ei eb m e)
  from bag_pop_request [OF sync(2)] assms(2) have b: "queue_bag (waiting s) = add_mset rid (queue_bag q)" by simp
  from sync(3) have "skipped_waiting_requests p1 = skipped_waiting_requests p"
    by (elim list_admitted_shape) simp
  then have k: "skipped_waiting_requests p' = skipped_waiting_requests p" by (simp add: sync(5) book_admitted_def)
  note placed_start [OF ok b, of c cfg SCHEDULED now]
  then show ?thesis unfolding k sync(4) by (rule placed_same) (simp add: same_places_def)
qed

lemma placed_waiting_one:
  assumes "schedule_waiting_one cfg sv now s p = Inr (s', p', go)" and ok: "placed_plan s p"
  shows "placed_plan s' p'"
proof -
  have queued: "rid \<in># queue_bag (waiting s)" if "peek_request (waiting s) = Inr rid" for rid
    using pop_request_returns [OF that, of "objects s"] bag_pop_request by (metis union_single_eq_member)
  from assms(1) show ?thesis
  proof (cases rule: schedule_waiting_one_cases)
    case (skipped rid s1 s0 b)
    have "placed_plan s0 p" by (rule placed_ready [OF skipped(4) ok queued [OF skipped(1)]])
    with skipped(5) placed_find have p1: "placed_plan s1 p" by blast
    have "peek_request (waiting s1) = Inr rid" using skipped(1,2) by (simp add: same_queues_def)
    with placed_skip [OF skipped(3) _ p1] show ?thesis by simp
  next
    case (stopped rid s1 s2 c m ep)
    have "placed_plan s2 p" using placed_find [OF stopped(3) placed_ready [OF stopped(2) ok queued [OF stopped(1)]]] .
    then show ?thesis unfolding stopped(5,6) by (rule placed_same) simp
  next
    case (admitted rid s1 s2 c m ep ep' n)
    have p2: "placed_plan s2 p" using placed_find [OF admitted(3) placed_ready [OF admitted(2) ok queued [OF admitted(1)]]] .
    have "waiting s2 = waiting s"
      using waiting_request_ready_frame [OF admitted(2)] find_cached_prefix_frame [OF admitted(3)] by (simp add: same_queues_def)
    then have w: "peek_request (waiting s2) = Inr rid" using admitted(1) by simp
    from admitted(6) show ?thesis
    proof (cases rule: admit_waiting_cases)
      case (full k m')
      show ?thesis unfolding full(2,3) by (rule placed_same [OF p2]) (simp add: same_places_def)
    next
      case (admitted k b)
      have "placed_plan (tell_connector sv rid c (s2\<lparr>encoder_cache_manager := m, kv_cache_manager := k\<rparr>)) p"
        by (rule placed_same [OF p2]) (simp add: same_places_def tell_connector_def Let_def split: option.split)
      with placed_commit_waiting [OF admitted(2)] w show ?thesis by simp
    qed
  qed
qed

lemma placed_waiting_loop:
  assumes "waiting_loop cfg sv now s p = Inr (s', p')" and "placed_plan s p"
  shows "placed_plan s' p'"
  by (rule waiting_loop_rule [where P = placed_plan, OF assms]) (rule placed_waiting_one)

lemma skipped_in_running_loop:
  assumes "running_loop cfg sv now s p i = Inr (s', p')"
  shows "skipped_waiting_requests p' = skipped_waiting_requests p"
proof -
  let ?k = "\<lambda>q. skipped_waiting_requests q = skipped_waiting_requests p"
  have victim: "skipped_waiting_requests p1 = skipped_waiting_requests q" if "choose_victim cfg s q i = Inr (s1, p1, i1, v)" for s q i s1 p1 i1 v
    using that by (auto simp: choose_victim_def Let_def elim!: bindE_InrE split: SchedulingPolicy.splits if_splits)
  have loop: "?k p1" if "?k q" "preempt_loop cfg now rid n s q i = Inr (s1, p1, i1, b)" for rid n s q i s1 p1 i1 b
  proof -
    have "(if b = None then \<lambda>s q i. ?k q else (\<lambda>s q i. ?k q)) s1 p1 i1"
      by (rule preempt_loop_rule [OF that(2), where P = "\<lambda>s q i. ?k q"]) (auto simp: that(1) dest!: victim)
    then show ?thesis by (simp split: if_splits)
  qed
  have commit: "?k p1" if "?k q" "commit_running sv rid n ep b s q i = Inr (s1, p1, i1, go)" for rid n ep b s q i s1 p1 i1 go
    using that by (auto simp: commit_running_def enter_encoder_inputs_def Let_def elim!: bindE_InrE split: option.splits if_splits)
  have "?k p1" if "?k q" "schedule_running_one cfg sv now s q i = Inr (s1, p1, i1, go)" for s q i s1 p1 i1 go
    using that(2) by (cases rule: schedule_running_one_cases) (use that(1) loop commit in blast)+
  with running_loop_rule [OF assms, where P = "\<lambda>s q i. ?k q"] show ?thesis by blast
qed

lemma placed_plan_step:
  assumes "plan_step cfg sv now s = Inr (s', p)" and "placed {#} s"
  shows "placed {#} s'"
proof -
  from assms(1) obtain s1 p1 p2 s2 p3 where r: "running_loop cfg sv now s (new_plan cfg) 0 = Inr (s1, p1)"
    "record_loras cfg s1 p1 = Inr p2"
    "(if preempted_reqs p2 = [] then waiting_loop cfg sv now s1 p2 else Inr (s1, p2)) = Inr (s2, p3)" and
    e: "(if has_requests (skipped_waiting_requests p3)
     then bindE (prepend_requests (objects s2) (skipped_waiting_requests p3) (waiting s2)) (\<lambda>q. Inr (s2\<lparr>waiting := q\<rparr>, p3))
     else Inr (s2, p3)) = Inr (s', p)"
    unfolding plan_step_def by (elim bindE_InrE) (auto elim!: bindE_InrE)
  have "skipped_waiting_requests p2 = skipped_waiting_requests p1"
    using r(2) by (auto simp: record_loras_def Let_def split: option.splits)
  then have "queue_bag (skipped_waiting_requests p2) = {#}"
    using skipped_in_running_loop [OF r(1)] by (simp add: new_plan_def)
  with placed_running_loop [OF r(1) assms(2)] have "placed_plan s1 p2" by simp
  with r(3) placed_waiting_loop have "placed_plan s2 p3" by (auto split: if_splits)
  then show ?thesis using prepend_skipped [OF e]
    by (auto simp: placed_def unfinished_def add_ac)
qed

lemma same_places_fold:
  assumes "foldE f xs (s, x) = Inr (s', x')"
    and "\<And>y s x s' x'. y \<in> set xs \<Longrightarrow> f y (s, x) = Inr (s', x') \<Longrightarrow> same_places s s'"
  shows "same_places s s'"
  using assms
proof (induction xs arbitrary: s x)
  case (Cons y ys)
  then obtain s1 x1 where "f y (s, x) = Inr (s1, x1)" "foldE f ys (s1, x1) = Inr (s', x')" by (auto elim!: bindE_InrE)
  with Cons same_places_trans show ?case by (metis list.set_intros)
qed simp

lemma placed_after_schedule:
  assumes "update_after_schedule cfg s out = Inr (s', out')"
  shows "same_places s s'"
proof -
  from assms obtain s1 o1 where f: "foldE (advance_request cfg) (out_num_scheduled_tokens out) (s, out) = Inr (s1, o1)"
    "(if async_class cfg then foldE (add_placeholders cfg) (out_num_scheduled_tokens o1) (s1\<lparr>finished_req_ids := {}\<rparr>, o1)
      else Inr (s1\<lparr>finished_req_ids := {}\<rparr>, o1)) = Inr (s', out')"
    by (auto simp: update_after_schedule_def Let_def elim!: bindE_InrE)
  have "same_places s s1"
    by (rule same_places_fold [OF f(1)])
      (auto simp: advance_request_def same_places_def modify_request_def Let_def elim!: bindE_InrE split: if_splits)
  also have "same_places s1 (s1\<lparr>finished_req_ids := {}\<rparr>)" by simp
  also have "same_places (s1\<lparr>finished_req_ids := {}\<rparr>) s'"
  proof (cases "async_class cfg")
    case True
    with f(2) have "foldE (add_placeholders cfg) (out_num_scheduled_tokens o1) (s1\<lparr>finished_req_ids := {}\<rparr>, o1) = Inr (s', out')"
      by simp
    then show ?thesis
      by (rule same_places_fold)
        (auto simp: add_placeholders_def same_places_def modify_request_def Let_def split: if_splits)
  next
    case False
    with f(2) show ?thesis by simp
  qed
  finally show ?thesis .
qed

lemma same_places_build:
  "build_output cfg sv s p = Inr (s', out) \<Longrightarrow> same_places s s'"
  by (auto simp: build_output_def common_prefix_def same_places_def Let_def elim!: bindE_InrE
      split: prod.splits list.splits)

lemma placed_schedule:
  assumes "schedule cfg sv now s = Inr (s', out)" and "placed {#} s"
  shows "placed {#} s'"
proof -
  from assms(1) obtain s1 p s2 o2 where r: "plan_step cfg sv now s = Inr (s1, p)" "build_output cfg sv s1 p = Inr (s2, o2)"
    "update_after_schedule cfg s2 o2 = Inr (s', out)"
    by (auto simp: schedule_def elim!: bindE_InrE)
  from placed_plan_step [OF r(1) assms(2)] same_places_trans [OF same_places_build [OF r(2)] placed_after_schedule [OF r(3)]]
  show ?thesis by (rule placed_same)
qed

end
