(* ===== verification/Scheduler_Output.thy ===== *)
theory Scheduler_Output
  imports Scheduler
begin

section \<open>Processing the output of the model\<close>

text \<open>
  \<^verbatim>\<open>Scheduler.update_from_output\<close> of \<^verbatim>\<open>vllm/v1/core/sched/scheduler.py\<close> with the methods it calls: new
  tokens and stop conditions, finished and continuing requests, failed transfers of key-value blocks, and
  the draft tokens of speculative decoding. Log probabilities, counts of NaN values and the statistics
  of workers and connectors, which the scheduler only passes on, are left out. A pooler output is a byte string.
\<close>

record ModelRunnerOutput =
  req_id_to_index :: "(string, nat) odict"
  sampled_token_ids :: "int list list"
  pooler_output :: "bytes option list"
  kv_connector_output :: "KVConnectorOutput option"

record EngineCoreOutput =
  eco_request_id :: string
  eco_new_token_ids :: "int list"
  eco_pooling_output :: "bytes option"
  eco_finish_reason :: "FinishReason option"
  eco_stop_reason :: "int option"
  eco_events :: "(EngineCoreEventType \<times> rat) list option"
  eco_kv_transfer_params :: kv_params
  eco_num_cached_tokens :: int
  eco_num_external_computed_tokens :: int
  eco_routed_experts :: "int list option"

record SpecDecodingStats =
  stat_num_spec_tokens :: int
  num_drafts :: int
  num_draft_tokens :: int
  num_accepted_tokens :: int
  num_accepted_tokens_per_pos :: "int list"

record SchedulerStats =
  num_running_reqs :: nat
  num_waiting_reqs :: nat
  kv_cache_usage :: rat
  encoder_cache_usage :: rat
  sched_prefix_cache_stats :: PrefixCacheStats
  sched_connector_stats :: "PrefixCacheStats option"
  spec_decoding_stats :: "SpecDecodingStats option"

record EngineCoreOutputs =
  core_outputs :: "EngineCoreOutput list"
  finished_requests :: "string set option"
  scheduler_stats :: "SchedulerStats option"

text \<open>A request that is still there and not finished.\<close>

definition live_request :: "string \<Rightarrow> 'e Scheduler \<Rightarrow> Request option" where
  "live_request rid s = (case get_request rid s of Some r \<Rightarrow> if is_finished r then None else Some r | None \<Rightarrow> None)"

subsection \<open>New tokens of one request\<close>

text \<open>\<^verbatim>\<open>_update_request_with_output\<close>: append one by one, stop at the first that ends the request.\<close>

fun append_until_stop ::
    "scheduler_settings \<Rightarrow> int list \<Rightarrow> Request \<Rightarrow> (Request \<times> int list \<times> bool) result" where
  "append_until_stop cfg [] r = Inr (r, [], False)"
| "append_until_stop cfg (t # ts) r =
     bindE (append_output_token_ids (request_hasher cfg) [t] r) (\<lambda>r.
     bindE (check_stop r (model_len cfg)) (\<lambda>(r, stopped).
     if stopped then Inr (r, [t], True)
     else bindE (append_until_stop cfg ts r) (\<lambda>(r, kept, stopped). Inr (r, t # kept, stopped))))"

text \<open>With the override of \<^verbatim>\<open>AsyncScheduler\<close>.\<close>

definition update_request_with_output ::
    "scheduler_settings \<Rightarrow> string \<Rightarrow> int list \<Rightarrow> 'e Scheduler \<Rightarrow> ('e Scheduler \<times> int list \<times> bool) result" where
  "update_request_with_output cfg rid tokens s =
     (let r = objects s rid in
      if async_class cfg \<and> discard_latest_async_tokens r
      then Inr (modify_request rid (\<lambda>r. r\<lparr>discard_latest_async_tokens := False\<rparr>) s, [], False)
      else
        bindE (append_until_stop cfg tokens r) (\<lambda>(r', kept, stopped).
        if \<not> async_class cfg then Inr (modify_request rid (\<lambda>_. r') s, kept, stopped)
        else
          (let r' = r'\<lparr>num_output_placeholders := num_output_placeholders r' - int (length kept)\<rparr> in
           assertE (num_output_placeholders r' \<ge> 0)
             (bindE (if status r = RUNNING
                     then kvm_cache_blocks (use_int_hashes cfg) r' (num_computed_tokens r' - num_output_placeholders r')
                            (kv_cache_manager s)
                     else Inr (kv_cache_manager s)) (\<lambda>k.
              Inr (modify_request rid (\<lambda>_. r') (s\<lparr>kv_cache_manager := k\<rparr>), kept, stopped))))))"

text \<open>Rejected draft tokens are taken back from the computed tokens and the placeholders.\<close>

definition reject_drafts :: "int list option \<Rightarrow> int list \<Rightarrow> Request \<Rightarrow> Request" where
  "reject_drafts scheduled generated r = (case scheduled of
     None \<Rightarrow> r
   | Some drafts \<Rightarrow>
       if drafts = [] \<or> generated = [] then r
       else
         (let rejected = int (length drafts) - (int (length generated) - 1) in
          r\<lparr>num_computed_tokens := (if num_computed_tokens r > 0 then num_computed_tokens r - rejected
                                     else num_computed_tokens r),
            num_output_placeholders := (if num_output_placeholders r > 0 then num_output_placeholders r - rejected
                                     else num_output_placeholders r)\<rparr>))"

text \<open>\<^verbatim>\<open>_get_routed_experts\<close>: the slots of the tokens, which index the buffer of the reader.\<close>

definition get_routed_experts :: "scheduler_settings \<Rightarrow> string \<Rightarrow> 'e Scheduler \<Rightarrow> int list option result" where
  "get_routed_experts cfg rid s =
     (if \<not> return_routed_experts cfg then Inr None
      else bindE (block_ids_of (get_blocks rid (kv_cache_manager s)) s) (\<lambda>groups.
        bindE (index_py groups 0) (\<lambda>ids.
        let bs = sched_block_size cfg;
            slot_mapping = concat (map (\<lambda>b. map (\<lambda>i. i + b * bs) [0..bs - 1]) ids);
            n = num_tokens (objects s rid) - 1
        in Inr (Some (take (slice_bound slot_mapping n) slot_mapping)))))"

subsection \<open>One request of the output\<close>

text \<open>The local variables of the loop: outputs per client, and the stopped requests by their old status.\<close>

record output_plan =
  core_outs :: "(int, EngineCoreOutput list) odict"
  stopped_running_reqs :: "string list"
  stopped_preempted_reqs :: "string list"
  spec_stats :: "SpecDecodingStats option"

definition new_output_plan :: output_plan where
  "new_output_plan = \<lparr>core_outs = [], stopped_running_reqs = [], stopped_preempted_reqs = [], spec_stats = None\<rparr>"

definition append_output :: "int \<Rightarrow> EngineCoreOutput \<Rightarrow> (int, EngineCoreOutput list) odict \<Rightarrow> (int, EngineCoreOutput list) odict" where
  "append_output client eo d =
     AList.update client ((case map_of d client of None \<Rightarrow> [] | Some os \<Rightarrow> os) @ [eo]) d"

text \<open>A stopped request: its finish reason is read before a session continues.\<close>

definition stop_request ::
    "scheduler_settings \<Rightarrow> 'e services \<Rightarrow> rat \<Rightarrow> string \<Rightarrow> RequestStatus \<Rightarrow> 'e Scheduler \<Rightarrow> output_plan
     \<Rightarrow> ('e Scheduler \<times> output_plan \<times> FinishReason option \<times> int list option \<times> kv_params) result" where
  "stop_request cfg sv now rid status_before s q =
     bindE (get_routed_experts cfg rid s) (\<lambda>experts.
     let reason = finished_reason_map (status (objects s rid)) in
     bindE (handle_stopped_request cfg now rid s) (\<lambda>(s, finished).
     bindE (if finished then release_request sv rid False s else Inr (s, None)) (\<lambda>(s, params).
     let q = (if status_before = RUNNING
              then q\<lparr>stopped_running_reqs := List.insert rid (stopped_running_reqs q)\<rparr>
              else q\<lparr>stopped_preempted_reqs := List.insert rid (stopped_preempted_reqs q)\<rparr>)
     in Inr (s, q, reason, experts, params))))"

definition advance_grammar :: "'e services \<Rightarrow> string \<Rightarrow> int list \<Rightarrow> 'e Scheduler \<Rightarrow> 'e Scheduler result" where
  "advance_grammar sv rid tokens s =
     (if tokens = [] then Inr s
      else
        (let so = structured_output_manager sv; r = objects s rid; (e, go) = should_advance so r (external s) in
         if \<not> go then Inr (s\<lparr>external := e\<rparr>)
         else assertE (use_structured_output r \<and> grammar_ready so r e)
           (Inr (s\<lparr>external := fst (accept_tokens so r tokens e)\<rparr>))))"

text \<open>New tokens, or the result of pooling, which ends the request.\<close>

definition take_output ::
    "scheduler_settings \<Rightarrow> string \<Rightarrow> int list \<Rightarrow> bytes option \<Rightarrow> 'e Scheduler \<Rightarrow> ('e Scheduler \<times> int list \<times> bool) result" where
  "take_output cfg rid generated pooled s =
     (if generated \<noteq> [] then update_request_with_output cfg rid generated s
      else if pooling_params (objects s rid) \<noteq> None \<and> pooled \<noteq> None
      then Inr (modify_request rid (\<lambda>r. r\<lparr>status := FINISHED_STOPPED\<rparr>) s, generated, True)
      else Inr (s, generated, False))"

text \<open>The entry for the client, if there is anything to say.\<close>

definition emit_output ::
    "string \<Rightarrow> int list \<Rightarrow> bytes option \<Rightarrow> bool \<Rightarrow> FinishReason option \<Rightarrow> int list option \<Rightarrow> kv_params
     \<Rightarrow> 'e Scheduler \<Rightarrow> output_plan \<Rightarrow> 'e Scheduler \<times> output_plan" where
  "emit_output rid tokens pooled stopped reason experts params s q =
     (if tokens \<noteq> [] \<or> pooled \<noteq> None \<or> (params \<noteq> None \<and> params \<noteq> Some []) \<or> stopped
      then
        (let (r, evs) = take_request_events (objects s rid);
             eo = \<lparr>eco_request_id = rid, eco_new_token_ids = tokens, eco_pooling_output = pooled,
               eco_finish_reason = reason, eco_stop_reason = stop_reason r, eco_events = evs,
               eco_kv_transfer_params = params, eco_num_cached_tokens = num_cached_tokens r,
               eco_num_external_computed_tokens = num_external_computed_tokens r, eco_routed_experts = experts\<rparr>
         in (modify_request rid (\<lambda>_. r) s, q\<lparr>core_outs := append_output (client_index r) eo (core_outs q)\<rparr>))
      else (s, q))"

text \<open>\<^verbatim>\<open>SpecDecodingStats\<close> and \<^verbatim>\<open>make_spec_decoding_stats\<close>.\<close>

definition new_spec_stats :: "int \<Rightarrow> SpecDecodingStats" where
  "new_spec_stats n = \<lparr>stat_num_spec_tokens = n, num_drafts = 0, num_draft_tokens = 0, num_accepted_tokens = 0,
     num_accepted_tokens_per_pos = replicate (nat n) 0\<rparr>"

definition observe_draft :: "int \<Rightarrow> int \<Rightarrow> SpecDecodingStats \<Rightarrow> SpecDecodingStats result" where
  "observe_draft drafts accepted st =
     assertE (accepted \<le> stat_num_spec_tokens st)
       (if accepted > int (length (num_accepted_tokens_per_pos st)) then Inl IndexError
        else Inr (st\<lparr>num_drafts := num_drafts st + 1, num_draft_tokens := num_draft_tokens st + drafts,
               num_accepted_tokens := num_accepted_tokens st + accepted,
               num_accepted_tokens_per_pos :=
                 map (\<lambda>n. n + 1) (take (nat accepted) (num_accepted_tokens_per_pos st))
                 @ drop (nat accepted) (num_accepted_tokens_per_pos st)\<rparr>))"

definition make_spec_decoding_stats ::
    "scheduler_settings \<Rightarrow> SpecDecodingStats option \<Rightarrow> int \<Rightarrow> int \<Rightarrow> (string, int) odict option \<Rightarrow> string
     \<Rightarrow> SpecDecodingStats option result" where
  "make_spec_decoding_stats cfg st drafts accepted invalid rid =
     (if \<not> stats_on cfg \<or> drafts = 0 then Inr None
      else
        (let st = (case st of None \<Rightarrow> new_spec_stats (num_spec_tokens cfg) | Some st \<Rightarrow> st);
             bad = (case invalid of None \<Rightarrow> 0 | Some d \<Rightarrow> (case map_of d rid of None \<Rightarrow> 0 | Some n \<Rightarrow> n))
         in bindE (observe_draft (drafts - bad) accepted st) (\<lambda>st. Inr (Some st))))"

text \<open>The statistics of one request, if it had draft tokens.\<close>

definition count_drafts ::
    "scheduler_settings \<Rightarrow> SchedulerOutput \<Rightarrow> string \<Rightarrow> int list \<Rightarrow> output_plan \<Rightarrow> output_plan result" where
  "count_drafts cfg out rid generated q = (case map_of (out_spec_decode_tokens out) rid of
     None \<Rightarrow> Inr q
   | Some drafts \<Rightarrow>
       if drafts = [] \<or> generated = [] then Inr q
       else bindE (make_spec_decoding_stats cfg (spec_stats q) (int (length drafts)) (int (length generated) - 1)
                (num_invalid_spec_tokens out) rid) (\<lambda>st. Inr (q\<lparr>spec_stats := st\<rparr>)))"

definition process_output ::
    "scheduler_settings \<Rightarrow> 'e services \<Rightarrow> rat \<Rightarrow> SchedulerOutput \<Rightarrow> ModelRunnerOutput \<Rightarrow> string list \<Rightarrow> string \<times> int
     \<Rightarrow> 'e Scheduler \<times> output_plan \<Rightarrow> ('e Scheduler \<times> output_plan) result" where
  "process_output cfg sv now out mo failed = (\<lambda>(rid, n) (s, q).
     assertE (n > 0)
       (if rid \<in> set failed \<or> live_request rid s = None then Inr (s, q)
        else
          bindE (of_option KeyError (map_of (req_id_to_index mo) rid)) (\<lambda>idx.
          bindE (if sampled_token_ids mo = [] then Inr [] else index_py (sampled_token_ids mo) (int idx)) (\<lambda>generated.
          let s = modify_request rid (reject_drafts (map_of (out_spec_decode_tokens out) rid) generated) s in
          bindE (count_drafts cfg out rid generated q) (\<lambda>q.
          bindE (if pooler_output mo = [] then Inr None else index_py (pooler_output mo) (int idx)) (\<lambda>pooled.
          bindE (take_output cfg rid generated pooled s) (\<lambda>(s', tokens, stopped).
          bindE (if stopped then stop_request cfg sv now rid (status (objects s rid)) s' q
                 else Inr (s', q, None, None, None)) (\<lambda>(s, q, reason, experts, params).
          bindE (advance_grammar sv rid tokens s) (\<lambda>s.
          Inr (emit_output rid tokens pooled stopped reason experts params s q))))))))))"

subsection \<open>Failed transfers of key-value blocks\<close>

text \<open>
  \<^verbatim>\<open>_update_requests_with_invalid_blocks\<close>: what the scan over all requests collects, and the loop over the
  blocks of one request. Each request is cut at its first invalid block that no earlier request recomputes.
\<close>

record invalid_scan =
  affected_req_ids :: "string list"
  total_affected_tokens :: int
  blocks_to_evict :: "int set"
  marked_invalid_block_ids :: "int set"

fun scan_blocks ::
    "int \<Rightarrow> int list \<Rightarrow> bool \<Rightarrow> int \<Rightarrow> int list \<Rightarrow> (nat \<times> int) list \<Rightarrow> Request \<times> bool \<times> bool \<times> invalid_scan
     \<Rightarrow> Request \<times> bool \<times> bool \<times> invalid_scan" where
  "scan_blocks bs invalid evict computed ids [] (r, is_affected, marked, a) = (r, is_affected, marked, a)"
| "scan_blocks bs invalid evict computed ids ((idx, b) # rest) (r, is_affected, marked, a) =
     (if b \<notin> set invalid then scan_blocks bs invalid evict computed ids rest (r, is_affected, marked, a)
      else if b \<in> marked_invalid_block_ids a then scan_blocks bs invalid evict computed ids rest (r, True, marked, a)
      else
        (let a = a\<lparr>marked_invalid_block_ids := insert b (marked_invalid_block_ids a)\<rparr> in
         if marked then scan_blocks bs invalid evict computed ids rest (r, True, marked, a)
         else
           (let cut = int idx * bs; lost = computed - cut in
            scan_blocks bs invalid evict computed ids rest
              (r\<lparr>num_computed_tokens := cut, num_external_computed_tokens := num_external_computed_tokens r - lost\<rparr>,
               True, True,
               a\<lparr>total_affected_tokens := total_affected_tokens a + lost,
                 blocks_to_evict := (if evict then blocks_to_evict a \<union> set (drop idx ids) else blocks_to_evict a)\<rparr>))))"

definition scan_request ::
    "scheduler_settings \<Rightarrow> int list \<Rightarrow> bool \<Rightarrow> string \<Rightarrow> 'e Scheduler \<times> invalid_scan \<Rightarrow> ('e Scheduler \<times> invalid_scan) result" where
  "scan_request cfg invalid evict rid = (\<lambda>(s, a).
     bindE (block_ids_of (get_blocks rid (kv_cache_manager s)) s) (\<lambda>groups. case groups of
       [ids] \<Rightarrow>
         (let r = objects s rid; bs = sched_block_size cfg;
              computed =
                (if status r = WAITING_FOR_REMOTE_KVS
                 then (if rid \<in> failed_recving_kv_req_ids s then num_computed_tokens r else int (length ids) * bs)
                 else num_cached_tokens r)
          in bindE (floordivE (computed + bs - 1) bs) (\<lambda>num_blocks.
             let (r, is_affected, marked, a) =
                   scan_blocks bs invalid evict computed ids (zip [0..<nat num_blocks] ids) (r, False, False, a);
                 (r, a) =
                   (if is_affected \<and> \<not> marked
                    then (r\<lparr>num_computed_tokens := num_cached_tokens r\<rparr>,
                          a\<lparr>total_affected_tokens :=
                              total_affected_tokens a + (num_computed_tokens r - num_cached_tokens r)\<rparr>)
                    else (r, a));
                 a = (if is_affected then a\<lparr>affected_req_ids := List.insert rid (affected_req_ids a)\<rparr> else a)
             in Inr (modify_request rid (\<lambda>_. r) s, a)))
     | _ \<Rightarrow> Inl ValueError))"

definition update_requests_with_invalid_blocks ::
    "scheduler_settings \<Rightarrow> string list \<Rightarrow> int list \<Rightarrow> bool \<Rightarrow> 'e Scheduler \<Rightarrow> ('e Scheduler \<times> invalid_scan) result" where
  "update_requests_with_invalid_blocks cfg rids invalid evict s =
     foldE (scan_request cfg invalid evict) rids
       (s, \<lparr>affected_req_ids = [], total_affected_tokens = 0, blocks_to_evict = {}, marked_invalid_block_ids = {}\<rparr>)"

text \<open>\<^verbatim>\<open>_handle_invalid_blocks\<close>: the requests to skip in the output. A set of block ids is iterated in ascending order.\<close>

definition handle_invalid_blocks ::
    "scheduler_settings \<Rightarrow> int list \<Rightarrow> 'e Scheduler \<Rightarrow> ('e Scheduler \<times> string list) result" where
  "handle_invalid_blocks cfg invalid s =
     bindE (iter_requests (objects s) (waiting s)) (\<lambda>ws.
     let async_load = filter (\<lambda>rid. status (objects s rid) = WAITING_FOR_REMOTE_KVS) ws in
     bindE (update_requests_with_invalid_blocks cfg async_load invalid False s) (\<lambda>(s, async_scan).
     bindE (update_requests_with_invalid_blocks cfg (running s) invalid True s) (\<lambda>(s, sync_scan).
     let async_failed = affected_req_ids async_scan; sync_failed = affected_req_ids sync_scan in
     if async_failed = [] \<and> sync_failed = [] then Inr (s, [])
     else
       bindE (if blocks_to_evict sync_scan \<noteq> {} \<and> \<not> recompute_kv_load_failures cfg
              then kvm_evict_blocks (use_int_hashes cfg) (sorted_list_of_set (blocks_to_evict sync_scan)) (kv_cache_manager s)
              else Inr (kv_cache_manager s)) (\<lambda>k.
       let s = s\<lparr>kv_cache_manager := k\<rparr> in
       if \<not> recompute_kv_load_failures cfg then Inr (s, List.union async_failed sync_failed)
       else Inr (s\<lparr>failed_recving_kv_req_ids := failed_recving_kv_req_ids s \<union> set async_failed\<rparr>, sync_failed)))))"

text \<open>\<^verbatim>\<open>_update_from_kv_xfer_finished\<close>.\<close>

definition finish_recving :: "string \<Rightarrow> 'e Scheduler \<Rightarrow> 'e Scheduler result" where
  "finish_recving rid s = (case get_request rid s of
     None \<Rightarrow> Inl AssertionError
   | Some r \<Rightarrow>
       if status r = WAITING_FOR_REMOTE_KVS
       then Inr (s\<lparr>finished_recving_kv_req_ids := insert rid (finished_recving_kv_req_ids s)\<rparr>)
       else assertE (is_finished r) (free_blocks_of rid s))"

definition finish_sending :: "string \<Rightarrow> 'e Scheduler \<Rightarrow> 'e Scheduler result" where
  "finish_sending rid s = assertE (get_request rid s \<noteq> None) (free_blocks_of rid s)"

definition update_from_kv_xfer_finished ::
    "'e services \<Rightarrow> KVConnectorOutput \<Rightarrow> 'e Scheduler \<Rightarrow> 'e Scheduler result" where
  "update_from_kv_xfer_finished sv ko s =
     (let s = (case connector sv of None \<Rightarrow> s | Some c \<Rightarrow> s\<lparr>external := update_connector_output c ko (external s)\<rparr>) in
      bindE (foldE finish_recving (finished_recving ko) s) (foldE finish_sending (finished_sending ko)))"

subsection \<open>Statistics\<close>

definition get_encoder_cache_usage :: "'e Scheduler \<Rightarrow> rat" where
  "get_encoder_cache_usage s =
     (let (size, free) = (case encoder_cache_manager s of
          DecoderOnly m \<Rightarrow> (cache_size m, num_free_slots m) | EncoderDecoder m \<Rightarrow> (ed_cache_size m, ed_num_free_slots m))
      in if size = 0 then 0 else of_int (size - free) / of_int size)"

definition make_stats :: "scheduler_settings \<Rightarrow> SpecDecodingStats option \<Rightarrow> 'e Scheduler \<Rightarrow> ('e Scheduler \<times> SchedulerStats option) result" where
  "make_stats cfg spec s =
     (if \<not> stats_on cfg then Inr (s, None)
      else
        (let (k, st) = make_prefix_cache_stats (kv_cache_manager s) in
         bindE (of_option AssertionError st) (\<lambda>st.
         Inr (s\<lparr>kv_cache_manager := k,
                connector_prefix_cache_stats := map_option (\<lambda>_. new_stats) (connector_prefix_cache_stats s)\<rparr>,
              Some \<lparr>num_running_reqs = length (running s), num_waiting_reqs = len_requests (waiting s),
                kv_cache_usage = usage k, encoder_cache_usage = get_encoder_cache_usage s,
                sched_prefix_cache_stats = st, sched_connector_stats = connector_prefix_cache_stats s,
                spec_decoding_stats = spec\<rparr>))))"

subsection \<open>The whole output\<close>

definition remove_stopped :: "'e Scheduler \<Rightarrow> output_plan \<Rightarrow> 'e Scheduler" where
  "remove_stopped s q =
     (let s = (if stopped_running_reqs q \<noteq> []
               then s\<lparr>running := remove_all_items (running s) (stopped_running_reqs q)\<rparr> else s)
      in if stopped_preempted_reqs q \<noteq> []
         then s\<lparr>waiting := remove_requests (objects s) (stopped_preempted_reqs q) (waiting s)\<rparr> else s)"

text \<open>With the policy \<^verbatim>\<open>fail\<close>, the requests with failed loads end with an error.\<close>

definition fail_output :: "string \<Rightarrow> 'e Scheduler \<times> output_plan \<Rightarrow> 'e Scheduler \<times> output_plan" where
  "fail_output rid = (\<lambda>(s, q).
     let (r, evs) = take_request_events (objects s rid);
         eo = \<lparr>eco_request_id = rid, eco_new_token_ids = [], eco_pooling_output = None,
           eco_finish_reason = finished_reason_map (status r), eco_stop_reason = None, eco_events = evs,
           eco_kv_transfer_params = None, eco_num_cached_tokens = num_cached_tokens r,
           eco_num_external_computed_tokens = 0, eco_routed_experts = None\<rparr>
     in (modify_request rid (\<lambda>_. r) s, q\<lparr>core_outs := append_output (client_index r) eo (core_outs q)\<rparr>))"

definition fail_requests ::
    "scheduler_settings \<Rightarrow> 'e services \<Rightarrow> string list \<Rightarrow> 'e Scheduler \<Rightarrow> output_plan \<Rightarrow> ('e Scheduler \<times> output_plan) result" where
  "fail_requests cfg sv failed s q =
     (if failed = [] \<or> recompute_kv_load_failures cfg then Inr (s, q)
      else if \<not> set failed \<subseteq> set (requests s) then Inl KeyError
      else bindE (finish_requests sv failed FINISHED_ERROR s) (\<lambda>s. Inr (fold fail_output failed (s, q))))"

text \<open>The outputs per client, with the ids that finished since the last call and the statistics.\<close>

definition add_finished_sets ::
    "(int, string set) odict \<Rightarrow> (int, EngineCoreOutputs) odict \<Rightarrow> (int, EngineCoreOutputs) odict" where
  "add_finished_sets d outs =
     fold (\<lambda>(client, ids) outs. AList.update client
             (case map_of outs client of
                Some eco \<Rightarrow> eco\<lparr>finished_requests := Some ids\<rparr>
              | None \<Rightarrow> \<lparr>core_outputs = [], finished_requests = Some ids, scheduler_stats = None\<rparr>) outs) d outs"

definition add_stats :: "SchedulerStats option \<Rightarrow> (int, EngineCoreOutputs) odict \<Rightarrow> (int, EngineCoreOutputs) odict" where
  "add_stats st outs = (case st of
     None \<Rightarrow> outs
   | Some _ \<Rightarrow> (case outs of
       [] \<Rightarrow> [(0, \<lparr>core_outputs = [], finished_requests = None, scheduler_stats = st\<rparr>)]
     | (client, eco) # rest \<Rightarrow> (client, eco\<lparr>scheduler_stats := st\<rparr>) # rest))"

definition take_all_events :: "'e services \<Rightarrow> 'e Scheduler \<Rightarrow> 'e Scheduler \<times> KVCacheEvent list" where
  "take_all_events sv s =
     (let (k, evs) = kvm_take_events (kv_cache_manager s); s = s\<lparr>kv_cache_manager := k\<rparr> in
      case connector sv of
        None \<Rightarrow> (s, evs)
      | Some c \<Rightarrow> (let (e, more) = connector_take_events c (external s) in (s\<lparr>external := e\<rparr>, evs @ more)))"

text \<open>The result also holds the events that are published.\<close>

definition update_from_output ::
    "scheduler_settings \<Rightarrow> 'e services \<Rightarrow> rat \<Rightarrow> SchedulerOutput \<Rightarrow> ModelRunnerOutput \<Rightarrow> 'e Scheduler
     \<Rightarrow> ('e Scheduler \<times> (int, EngineCoreOutputs) odict \<times> KVCacheEvent list) result" where
  "update_from_output cfg sv now out mo s =
     bindE (case kv_connector_output mo of
         None \<Rightarrow> Inr (s, [])
       | Some ko \<Rightarrow> if invalid_block_ids ko \<noteq> [] then handle_invalid_blocks cfg (invalid_block_ids ko) s
                    else Inr (s, [])) (\<lambda>(s, failed).
     bindE (foldE (process_output cfg sv now out mo failed) (out_num_scheduled_tokens out)
              (s, new_output_plan)) (\<lambda>(s, q).
     bindE (fail_requests cfg sv failed (remove_stopped s q) q) (\<lambda>(s, q).
     bindE (case kv_connector_output mo of None \<Rightarrow> Inr s | Some ko \<Rightarrow> update_from_kv_xfer_finished sv ko s) (\<lambda>s.
     let (s, evs) = take_all_events sv s;
         outs = map (\<lambda>(client, os). (client, \<lparr>core_outputs = os, finished_requests = None, scheduler_stats = None\<rparr>))
                  (core_outs q);
         outs = (case finished_req_ids_dict s of None \<Rightarrow> outs | Some d \<Rightarrow> add_finished_sets d outs);
         s = s\<lparr>finished_req_ids_dict := map_option (\<lambda>_. []) (finished_req_ids_dict s)\<rparr>
     in bindE (make_stats cfg (spec_stats q) s) (\<lambda>(s, st). Inr (s, add_stats st outs, evs))))))"

subsection \<open>Draft tokens\<close>

text \<open>\<^verbatim>\<open>update_draft_token_ids\<close>.\<close>

definition update_draft_one :: "'e services \<Rightarrow> string \<times> int list \<Rightarrow> 'e Scheduler \<Rightarrow> 'e Scheduler" where
  "update_draft_one sv = (\<lambda>(rid, drafts) s. case live_request rid s of
     None \<Rightarrow> s
   | Some r \<Rightarrow>
       if is_prefill_chunk r then modify_request rid (\<lambda>r. r\<lparr>spec_token_ids := []\<rparr>) s
       else
         (let so = structured_output_manager sv; (e, go) = should_advance so r (external s);
              s = s\<lparr>external := e\<rparr>;
              drafts = (if go then validate_tokens so r drafts e else drafts)
          in modify_request rid (\<lambda>r. r\<lparr>spec_token_ids := drafts\<rparr>) s))"

definition update_draft_token_ids :: "'e services \<Rightarrow> string list \<Rightarrow> int list list \<Rightarrow> 'e Scheduler \<Rightarrow> 'e Scheduler" where
  "update_draft_token_ids sv rids drafts s = fold (update_draft_one sv) (zip rids drafts) s"

text \<open>\<^verbatim>\<open>update_draft_token_ids_in_output\<close>: drafts are cut and padded to the placeholders of the output.\<close>

definition draft_in_output ::
    "'e services \<Rightarrow> string \<times> int list
     \<Rightarrow> 'e Scheduler \<times> (string, int list) odict \<times> (string, int) odict
     \<Rightarrow> ('e Scheduler \<times> (string, int list) odict \<times> (string, int) odict) result" where
  "draft_in_output sv = (\<lambda>(rid, drafts) (s, spec, invalid). case live_request rid s of
     None \<Rightarrow> Inr (s, spec, invalid)
   | Some r \<Rightarrow> (case map_of spec rid of
       None \<Rightarrow> Inr (s, spec, invalid)
     | Some placeholders \<Rightarrow>
         if placeholders = [] then Inr (s, spec, invalid)
         else
           (let so = structured_output_manager sv; (e, go) = should_advance so r (external s);
                s = s\<lparr>external := e\<rparr>;
                drafts = take (length placeholders) drafts
            in bindE (if go then assertE (use_structured_output r \<and> grammar_ready so r e) (Inr (validate_tokens so r drafts e))
                      else Inr drafts) (\<lambda>drafts.
               let missing = int (length placeholders) - int (length drafts) in
               Inr (s, AList.update rid (drafts @ replicate (nat missing) (-1)) spec,
                    if missing \<noteq> 0 then AList.update rid missing invalid else invalid)))))"

definition update_draft_token_ids_in_output ::
    "'e services \<Rightarrow> string list \<Rightarrow> int list list \<Rightarrow> SchedulerOutput \<Rightarrow> 'e Scheduler
     \<Rightarrow> ('e Scheduler \<times> SchedulerOutput) result" where
  "update_draft_token_ids_in_output sv rids drafts out s =
     bindE (foldE (draft_in_output sv) (zip rids drafts) (s, out_spec_decode_tokens out, [])) (\<lambda>(s, spec, invalid).
     Inr (s, out\<lparr>out_spec_decode_tokens := spec, num_invalid_spec_tokens := Some invalid\<rparr>))"

text \<open>\<^verbatim>\<open>get_grammar_bitmask\<close>.\<close>

definition get_grammar_bitmask ::
    "'e services \<Rightarrow> SchedulerOutput \<Rightarrow> 'e Scheduler \<Rightarrow> (string list \<times> int list list) option" where
  "get_grammar_bitmask sv out s =
     (let ids = filter (\<lambda>rid. case get_request rid s of None \<Rightarrow> False | Some r \<Rightarrow> use_structured_output r)
                  (map fst (out_num_scheduled_tokens out)) in
      if ids = [] then None
      else Some (ids, grammar_bitmask (structured_output_manager sv) ids (out_spec_decode_tokens out) (external s)))"

end
