(* ===== verification/Scheduler_Reachable.thy ===== *)
theory Scheduler_Reachable
  imports Scheduler_Queues Scheduler_Output
begin

section \<open>Requests are never lost\<close>

text \<open>
  New requests, finished requests, the processing of outputs and the resets, on top of
  \<open>Scheduler_Queues\<close>; then the step relation over all methods of the scheduler and its invariant.
\<close>

subsection \<open>New and finished requests\<close>

lemma placed_listed: "placed X s \<Longrightarrow> rid \<in> set (running s) \<or> rid \<in># queue_bag (waiting s) + X \<longleftrightarrow> unfinished s rid"
  by (simp only: placed_sets)

lemma placed_status:
  assumes "placed X s" and "unfinished s rid"
  shows "rid \<in> set (running s) \<and> status (objects s rid) = RUNNING
    \<or> rid \<in># queue_bag (waiting s) + X \<and> waiting_status (status (objects s rid))"
proof -
  have "rid \<in> set (running s) \<or> rid \<in># queue_bag (waiting s) + X" using assms by (simp only: placed_sets)
  then show ?thesis using assms(1) by (auto simp: placed_def)
qed

definition fresh_request :: "Request \<Rightarrow> bool" where
  "fresh_request r \<longleftrightarrow> \<not> resumable r \<and> (status r = WAITING \<or> status r = WAITING_FOR_FSM)"

lemma placed_add:
  assumes "scheduler_add_request cfg sv now r s = Inr s'" and "fresh_request r" and "placed {#} s"
  shows "placed {#} s'"
proof (cases "request_id r \<in> set (requests s)")
  case True
  then have g: "get_request (request_id r) s = Some (objects s (request_id r))" by (simp add: get_request_def)
  have st: "status (objects s (request_id r)) \<noteq> WAITING_FOR_STREAMING_REQ"
  proof
    assume a: "status (objects s (request_id r)) = WAITING_FOR_STREAMING_REQ"
    then have "unfinished s (request_id r)" using True by (simp add: unfinished_def is_finished_def status_is_finished_def)
    from placed_status [OF assms(3) this] a show False by auto
  qed
  have run: "(case streaming_queue (objects s (request_id r)) of None \<Rightarrow> Inl AssertionError
     | Some q \<Rightarrow> Inr (modify_request (request_id r)
         (\<lambda>x. x\<lparr>streaming_queue := Some (q @ [streaming_update_from_request r])\<rparr>) s)) = Inr s'"
    using assms(1) g st by (simp add: scheduler_add_request_def Let_def)
  show ?thesis
  proof (cases "streaming_queue (objects s (request_id r))")
    case None
    with run show ?thesis by simp
  next
    case (Some q)
    then have e: "s' = modify_request (request_id r) (\<lambda>x. x\<lparr>streaming_queue := Some (q @ [streaming_update_from_request r])\<rparr>) s"
      using run by simp
    show ?thesis unfolding e by (rule placed_same [OF assms(3) same_places_modify]) simp_all
  qed
next
  case False
  let ?rid = "request_id r"
  have u: "\<not> unfinished s ?rid" using False by (simp add: unfinished_def)
  then have out: "?rid \<notin> set (running s)" "?rid \<notin># queue_bag (waiting s)"
    using assms(3) unfolding placed_sets by auto
  from assms(1,2) False have "s' = modify_request ?rid (log_event cfg QUEUED now)
      ((modify_request ?rid (\<lambda>_. r) s)\<lparr>waiting := add_request (objects (modify_request ?rid (\<lambda>_. r) s)) ?rid (waiting s),
         requests := requests s @ [?rid]\<rparr>)"
    by (simp add: scheduler_add_request_def get_request_def fresh_request_def Let_def)
  then have s': "running s' = running s" "queue_bag (waiting s') = add_mset ?rid (queue_bag (waiting s))"
    "requests s' = requests s @ [?rid]" "num_waiting_for_streaming_input s' = num_waiting_for_streaming_input s"
    "objects s' = (objects s)(?rid := log_event cfg QUEUED now r)"
    by (simp_all add: modify_request_def)
  have "one_of_each (add_mset ?rid (mset (running s) + queue_bag (waiting s)))"
    using assms(3) out by (auto simp: placed_sets one_of_each_def not_in_iff)
  moreover have "waiting_status (status r)" "\<not> status_is_finished (status r)"
    using assms(2) waiting_not_finished by (auto simp: fresh_request_def)
  ultimately show ?thesis using assms(2,3) False out
    unfolding placed_sets unfinished_def is_finished_def fresh_request_def by (auto simp: s')
qed

text \<open>Requests that end leave the queues; they stay in the dictionary only as finished ones.\<close>

lemma placed_removed:
  assumes ok: "placed {#} s" and d: "distinct (requests s')" and sub: "set (requests s') \<subseteq> set (requests s)"
    and run: "mset (running s') = filter_mset (\<lambda>x. x \<notin> G) (mset (running s))"
    and wait: "queue_bag (waiting s') = filter_mset (\<lambda>x. x \<notin> G) (queue_bag (waiting s))"
    and rest: "\<And>x. x \<notin> G \<Longrightarrow> status (objects s' x) = status (objects s x) \<and> (x \<in> set (requests s') \<longleftrightarrow> x \<in> set (requests s))"
    and over: "\<And>x. x \<in> G \<Longrightarrow> x \<in> set (requests s') \<Longrightarrow> is_finished (objects s' x)"
    and names: "\<And>x. request_id (objects s' x) = request_id (objects s x) \<and> resumable (objects s' x) = resumable (objects s x)"
    and streams: "num_waiting_for_streaming_input s' = num_waiting_for_streaming_input s"
  shows "placed {#} s'"
proof -
  have members: "x \<in> set (running s') \<longleftrightarrow> x \<in> set (running s) \<and> x \<notin> G" for x
    using arg_cong [OF run, of set_mset] by auto
  have "one_of_each (filter_mset (\<lambda>x. x \<notin> G) (mset (running s) + queue_bag (waiting s)))"
    using ok by (auto simp: placed_sets one_of_each_def)
  then have one: "one_of_each (mset (running s') + queue_bag (waiting s'))" using run wait by simp
  have all: "x \<in> set (running s') \<or> x \<in># queue_bag (waiting s') \<longleftrightarrow> unfinished s' x" for x
  proof (cases "x \<in> G")
    case True
    then show ?thesis using over [OF True] by (auto simp: members wait unfinished_def)
  next
    case False
    have "x \<in> set (running s) \<or> x \<in># queue_bag (waiting s) \<longleftrightarrow> unfinished s x" using ok by (simp add: placed_sets)
    then show ?thesis using False rest [OF False] by (simp add: members wait unfinished_def is_finished_def)
  qed
  have run_ok: "status (objects s' x) = RUNNING" if "x \<in> set (running s')" for x
    using that ok rest [of x] by (simp add: members placed_def)
  have wait_ok: "waiting_status (status (objects s' x))" if "x \<in># queue_bag (waiting s')" for x
    using that ok rest [of x] by (simp add: wait placed_def)
  show ?thesis using d sub ok one all run_ok wait_ok names streams
    by (auto simp: placed_sets)
qed

lemma release_shape:
  assumes "release_request sv rid delay s = Inr (s', params)"
  shows "is_finished (objects s rid) \<and> running s' = running s \<and> waiting s' = waiting s \<and> objects s' = objects s
    \<and> num_waiting_for_streaming_input s' = num_waiting_for_streaming_input s
    \<and> (requests s' = requests s \<or> requests s' = remove1 rid (requests s))"
  using assms
  by (auto simp: release_request_def connector_finished_def free_blocks_of_def Let_def elim!: bindE_InrE
      split: option.splits if_splits prod.splits)

lemma placed_free_blocks:
  assumes "free_blocks_of rid s = Inr s'" and ok: "placed {#} s"
  shows "placed {#} s'"
proof -
  from assms(1) have s': "is_finished (objects s rid)" "requests s' = remove1 rid (requests s)" "running s' = running s"
    "waiting s' = waiting s" "objects s' = objects s" "num_waiting_for_streaming_input s' = num_waiting_for_streaming_input s"
    by (auto simp: free_blocks_of_def elim!: bindE_InrE split: if_splits)
  have "\<not> unfinished s rid" using s'(1) by (simp add: unfinished_def)
  then have "rid \<notin> set (running s)" "rid \<notin># queue_bag (waiting s)" 
    using placed_listed [OF ok, of rid] by simp_all
  then have "filter_mset (\<lambda>x. x \<notin> {rid}) (mset (running s)) = mset (running s)"
    "filter_mset (\<lambda>x. x \<notin> {rid}) (queue_bag (waiting s)) = queue_bag (waiting s)"
    by (auto simp: filter_mset_eq_conv)
  moreover have "distinct (requests s)" using ok by (simp add: placed_def)
  ultimately show ?thesis using s'
    by (intro placed_removed [OF ok, where G = "{rid}"]) (auto dest: notin_set_remove1)
qed

text \<open>The second pass of \<^verbatim>\<open>finish_requests\<close>, over requests that have left the queues.\<close>

lemma finish_one_shape:
  assumes "finish_one sv st rid s = Inr s'"
  shows "running s' = running s \<and> waiting s' = waiting s \<and> objects s' = (objects s)(rid := (objects s rid)\<lparr>status := st\<rparr>)
    \<and> num_waiting_for_streaming_input s' = num_waiting_for_streaming_input s
    \<and> (requests s' = requests s \<or> requests s' = remove1 rid (requests s))"
proof -
  let ?held = "s\<lparr>finished_recving_kv_req_ids := finished_recving_kv_req_ids s - {rid},
    failed_recving_kv_req_ids := failed_recving_kv_req_ids s - {rid}\<rparr>"
  obtain s1 delay where "s1 = s \<or> s1 = ?held" "\<exists>params. release_request sv rid delay
    (modify_request rid (\<lambda>r. r\<lparr>status := st\<rparr>) s1) = Inr (s', params)"
  proof (cases "status (objects s rid) = WAITING_FOR_REMOTE_KVS")
    case True
    with assms that [of ?held "rid \<notin> finished_recving_kv_req_ids s"] show thesis
      by (auto simp: finish_one_def Let_def elim!: bindE_InrE)
  next
    case False
    with assms that [of s False] show thesis by (auto simp: finish_one_def Let_def elim!: bindE_InrE)
  qed
  then obtain params where "running s1 = running s" "waiting s1 = waiting s" "requests s1 = requests s"
    "num_waiting_for_streaming_input s1 = num_waiting_for_streaming_input s" "objects s1 = objects s"
    "release_request sv rid delay (modify_request rid (\<lambda>r. r\<lparr>status := st\<rparr>) s1) = Inr (s', params)"
    by auto
  with release_shape [OF this(6)] show ?thesis by (simp add: modify_request_def)
qed

lemma finish_all_shape:
  assumes "foldE (finish_one sv st) rids s = Inr s'" and "distinct (requests s)"
  shows "running s' = running s \<and> waiting s' = waiting s
    \<and> num_waiting_for_streaming_input s' = num_waiting_for_streaming_input s
    \<and> distinct (requests s') \<and> set (requests s') \<subseteq> set (requests s)
    \<and> (\<forall>x. request_id (objects s' x) = request_id (objects s x) \<and> resumable (objects s' x) = resumable (objects s x)
         \<and> (x \<in> set rids \<longrightarrow> status (objects s' x) = st)
         \<and> (x \<notin> set rids \<longrightarrow> objects s' x = objects s x \<and> (x \<in> set (requests s') \<longleftrightarrow> x \<in> set (requests s))))"
  using assms
proof (induction rids arbitrary: s)
  case (Cons rid rids)
  then obtain s1 where s1: "finish_one sv st rid s = Inr s1" "foldE (finish_one sv st) rids s1 = Inr s'" by (auto elim!: bindE_InrE)
  note f = finish_one_shape [OF s1(1)]
  then have "distinct (requests s1)" "set (requests s1) \<subseteq> set (requests s)"
    "\<And>x. x \<noteq> rid \<Longrightarrow> x \<in> set (requests s1) \<longleftrightarrow> x \<in> set (requests s)"
    using Cons.prems(2) by (auto dest: notin_set_remove1)
  with Cons.IH [OF s1(2)] f show ?case by (cases "rid \<in> set rids") auto
qed simp

lemma finish_collect_shape:
  assumes "fold finish_collect rids (s, v, fr, fw) = (s', v', fr', fw')"
  shows "running s' = running s \<and> waiting s' = waiting s \<and> objects s' = objects s \<and> requests s' = requests s
    \<and> set v' = set v \<union> {x \<in> set rids. unfinished s x}
    \<and> set fr' = set fr \<union> {x \<in> set rids. unfinished s x \<and> status (objects s x) = RUNNING}
    \<and> set fw' = set fw \<union> {x \<in> set rids. unfinished s x \<and> status (objects s x) \<noteq> RUNNING}
    \<and> ((\<forall>x \<in> set rids. unfinished s x \<longrightarrow> status (objects s x) \<noteq> WAITING_FOR_STREAMING_REQ)
        \<longrightarrow> num_waiting_for_streaming_input s' = num_waiting_for_streaming_input s)"
  using assms
proof (induction rids arbitrary: s v fr fw)
  case (Cons rid rids)
  obtain s1 v1 fr1 fw1 where one: "finish_collect rid (s, v, fr, fw) = (s1, v1, fr1, fw1)" by (cases "finish_collect rid (s, v, fr, fw)")
  then have c: "running s1 = running s" "waiting s1 = waiting s" "objects s1 = objects s" "requests s1 = requests s"
    "set v1 = set v \<union> {x. x = rid \<and> unfinished s x}"
    "set fr1 = set fr \<union> {x. x = rid \<and> unfinished s x \<and> status (objects s x) = RUNNING}"
    "set fw1 = set fw \<union> {x. x = rid \<and> unfinished s x \<and> status (objects s x) \<noteq> RUNNING}"
    "unfinished s rid \<longrightarrow> status (objects s rid) \<noteq> WAITING_FOR_STREAMING_REQ \<Longrightarrow> num_waiting_for_streaming_input s1 = num_waiting_for_streaming_input s"
    by (auto simp: finish_collect_def get_request_def unfinished_def split: if_splits)
  have u: "unfinished s1 = unfinished s" using c(3,4) by (simp add: unfinished_def fun_eq_iff)
  from Cons.prems one have "fold finish_collect rids (s1, v1, fr1, fw1) = (s', v', fr', fw')" by simp
  from Cons.IH [OF this, unfolded u c(3)] c(1-7) show ?case using c(8) by auto
qed auto

lemma set_remove_all [simp]: "distinct xs \<Longrightarrow> mset (remove_all_items xs items) = filter_mset (\<lambda>x. x \<notin> set items) (mset xs)"
proof -
  assume d: "distinct xs"
  have "remove_all_items xs items = filter (\<lambda>x. x \<notin> set items) xs"
    using d by (auto simp: remove_all_items_def distinct_remove1_removeAll removeAll_filter_not_eq length_Suc_conv
        intro!: filter_cong)
  then show ?thesis by simp
qed

lemma placed_distinct: "placed X s \<Longrightarrow> distinct (running s)"
  using one_of_each_distinct [of "running s" "queue_bag (waiting s) + X"] by (simp add: placed_sets add.assoc)

lemma placed_finish:
  assumes "finish_requests sv rids st s = Inr s'" and ok: "placed {#} s"
  shows "placed {#} s'"
proof -
  obtain s1 v fr fw where c: "fold finish_collect rids (s, [], [], []) = (s1, v, fr, fw)" by (cases "fold finish_collect rids (s, [], [], [])")
  note f = finish_collect_shape [OF c]
  let ?s2 = "if fr \<noteq> [] then s1\<lparr>running := remove_all_items (running s1) fr\<rparr> else s1"
  let ?s3 = "if fw \<noteq> [] then ?s2\<lparr>waiting := remove_requests (objects ?s2) fw (waiting ?s2)\<rparr> else ?s2"
  from assms(1) c have fin: "status_is_finished st" "foldE (finish_one sv st) v ?s3 = Inr s'"
    by (simp_all add: finish_requests_def Let_def)
  have s3: "requests ?s3 = requests s" "objects ?s3 = objects s"
    "num_waiting_for_streaming_input ?s3 = num_waiting_for_streaming_input s1" using f by simp_all
  have d: "distinct (running s)" using placed_distinct [OF ok] .
  have q: "running ?s3 = remove_all_items (running s) fr"
    "waiting ?s3 = (if fw \<noteq> [] then remove_requests (objects s) fw (waiting s) else waiting s)"
    using f by (simp_all add: remove_all_items_def)
  have "mset (running ?s3) = filter_mset (\<lambda>x. x \<notin> set fr) (mset (running s))"
    unfolding q(1) by (rule set_remove_all [OF d])
  also have "\<dots> = filter_mset (\<lambda>x. x \<notin> set v) (mset (running s))"
  proof (rule filter_mset_cong [OF refl])
    fix x assume "x \<in># mset (running s)"
    then have "status (objects s x) = RUNNING" using ok by (simp add: placed_def)
    with f show "(x \<notin> set fr) = (x \<notin> set v)" by auto
  qed
  finally have run: "mset (running ?s3) = filter_mset (\<lambda>x. x \<notin> set v) (mset (running s))" .
  have "queue_bag (waiting ?s3) = filter_mset (\<lambda>x. x \<notin> set fw) (queue_bag (waiting s))"
    unfolding q(2) by simp
  also have "\<dots> = filter_mset (\<lambda>x. x \<notin> set v) (queue_bag (waiting s))"
  proof (rule filter_mset_cong [OF refl])
    fix x assume "x \<in># queue_bag (waiting s)"
    then have "status (objects s x) \<noteq> RUNNING" using ok by (auto simp: placed_def)
    with f show "(x \<notin> set fw) = (x \<notin> set v)" by auto
  qed
  finally have wait: "queue_bag (waiting ?s3) = filter_mset (\<lambda>x. x \<notin> set v) (queue_bag (waiting s))" .
  have dr: "distinct (requests ?s3)" using ok s3 by (simp add: placed_def)
  note a = finish_all_shape [OF fin(2) dr]
  have streams: "num_waiting_for_streaming_input s1 = num_waiting_for_streaming_input s"
    using f placed_status [OF ok] by fastforce
  show ?thesis
    by (rule placed_removed [OF ok, where G = "set v"])
      (use a run wait s3 fin(1) streams in \<open>auto simp: is_finished_def\<close>)
qed

subsection \<open>The output of the model\<close>

lemma append_tokens_keep:
  "append_output_token_ids f ts r = Inr r' \<Longrightarrow> status r' = status r \<and> request_id r' = request_id r \<and> resumable r' = resumable r"
  by (auto simp: append_output_token_ids_def Let_def elim!: bindE_InrE split: option.splits)

lemma check_stop_keep:
  "check_stop r n = Inr (r', b) \<Longrightarrow> request_id r' = request_id r \<and> resumable r' = resumable r
     \<and> (if b then is_finished r' else status r' = status r)"
  by (auto simp: check_stop_def is_finished_def status_is_finished_def Let_def elim!: bindE_InrE split: option.splits if_splits)

lemma append_until_stop_keep:
  "append_until_stop cfg ts r = Inr (r', kept, b) \<Longrightarrow> request_id r' = request_id r \<and> resumable r' = resumable r
     \<and> (if b then is_finished r' else status r' = status r)"
proof (induction ts arbitrary: r r' kept b)
  case (Cons t ts)
  then obtain r1 r2 st where r: "append_output_token_ids (request_hasher cfg) [t] r = Inr r1" "check_stop r1 (model_len cfg) = Inr (r2, st)"
    and rest: "(if st then Inr (r2, [t], True)
       else bindE (append_until_stop cfg ts r2) (\<lambda>(r, kept, stopped). Inr (r, t # kept, stopped))) = Inr (r', kept, b)"
    by (auto elim!: bindE_InrE)
  note k = append_tokens_keep [OF r(1)] check_stop_keep [OF r(2)]
  show ?case
  proof (cases st)
    case True
    with rest k show ?thesis by simp
  next
    case False
    with rest obtain kept' where "append_until_stop cfg ts r2 = Inr (r', kept', b)" by (auto elim!: bindE_InrE)
    from Cons.IH [OF this] k False show ?thesis by simp
  qed
qed simp

text \<open>The queues stay, and of the requests only \<open>rid\<close> is touched: it is finished exactly if \<open>b\<close> says so.\<close>

definition touched :: "string \<Rightarrow> bool \<Rightarrow> 'e Scheduler \<Rightarrow> 'e Scheduler \<Rightarrow> bool" where
  "touched rid b s s' \<longleftrightarrow> running s' = running s \<and> waiting s' = waiting s \<and> requests s' = requests s
    \<and> num_waiting_for_streaming_input s' = num_waiting_for_streaming_input s
    \<and> (\<forall>x. request_id (objects s' x) = request_id (objects s x) \<and> resumable (objects s' x) = resumable (objects s x)
         \<and> (x \<noteq> rid \<longrightarrow> objects s' x = objects s x))
    \<and> (if b then is_finished (objects s' rid) else status (objects s' rid) = status (objects s rid))"

lemma touched_modify:
  "(if b then is_finished (f (objects s rid)) else status (f (objects s rid)) = status (objects s rid)) \<Longrightarrow>
   request_id (f (objects s rid)) = request_id (objects s rid) \<Longrightarrow> resumable (f (objects s rid)) = resumable (objects s rid) \<Longrightarrow>
   touched rid b s (modify_request rid f (s\<lparr>kv_cache_manager := k\<rparr>))"
  by (simp add: touched_def modify_request_def split: if_splits)

lemma update_output_keep:
  assumes "update_request_with_output cfg rid ts s = Inr (s', kept, b)"
  shows "touched rid b s s'"
proof (cases "async_class cfg \<and> discard_latest_async_tokens (objects s rid)")
  case True
  with assms have "s' = modify_request rid (\<lambda>r. r\<lparr>discard_latest_async_tokens := False\<rparr>) (s\<lparr>kv_cache_manager := kv_cache_manager s\<rparr>)" "\<not> b"
    by (simp_all add: update_request_with_output_def)
  then show ?thesis using touched_modify [of False "\<lambda>r. r\<lparr>discard_latest_async_tokens := False\<rparr>" s rid "kv_cache_manager s"] by simp
next
  case False
  with assms obtain r' where a: "append_until_stop cfg ts (objects s rid) = Inr (r', kept, b)"
    and s': "\<exists>n k. s' = modify_request rid (\<lambda>_. r'\<lparr>num_output_placeholders := n\<rparr>) (s\<lparr>kv_cache_manager := k\<rparr>)"
  proof -
    from False assms obtain r' kept' b' where a: "append_until_stop cfg ts (objects s rid) = Inr (r', kept', b')"
      and rest: "(if \<not> async_class cfg then Inr (modify_request rid (\<lambda>_. r') s, kept', b')
        else
          (let r' = r'\<lparr>num_output_placeholders := num_output_placeholders r' - int (length kept')\<rparr> in
           assertE (num_output_placeholders r' \<ge> 0)
             (bindE (if status (objects s rid) = RUNNING
                     then kvm_cache_blocks (use_int_hashes cfg) r' (num_computed_tokens r' - num_output_placeholders r')
                            (kv_cache_manager s)
                     else Inr (kv_cache_manager s)) (\<lambda>k.
              Inr (modify_request rid (\<lambda>_. r') (s\<lparr>kv_cache_manager := k\<rparr>), kept', b'))))) = Inr (s', kept, b)"
      unfolding update_request_with_output_def Let_def by (auto elim!: bindE_InrE)
    have "b' = b \<and> kept' = kept" using rest by (auto simp: Let_def elim!: bindE_InrE split: if_splits)
    moreover have "\<exists>n k. s' = modify_request rid (\<lambda>_. r'\<lparr>num_output_placeholders := n\<rparr>) (s\<lparr>kv_cache_manager := k\<rparr>)"
    proof (cases "async_class cfg")
      case True
      then show ?thesis using rest by (auto simp: Let_def elim!: bindE_InrE)
    next
      case False
      then have "s' = modify_request rid (\<lambda>_. r'\<lparr>num_output_placeholders := num_output_placeholders r'\<rparr>) (s\<lparr>kv_cache_manager := kv_cache_manager s\<rparr>)"
        using rest by simp
      then show ?thesis by blast
    qed
    ultimately show thesis using that a by blast
  qed
  from s' obtain n k where e: "s' = modify_request rid (\<lambda>_. r'\<lparr>num_output_placeholders := n\<rparr>) (s\<lparr>kv_cache_manager := k\<rparr>)" by blast
  show ?thesis unfolding e
    by (rule touched_modify) (use append_until_stop_keep [OF a] in \<open>auto simp: is_finished_def split: if_splits\<close>)
qed

text \<open>Between the first and the last request of an output, the stopped ones are still in the queues.\<close>

definition stopped_since :: "'e Scheduler \<Rightarrow> 'e Scheduler \<times> output_plan \<Rightarrow> bool" where
  "stopped_since s0 = (\<lambda>(s, q). let G = set (stopped_running_reqs q) \<union> set (stopped_preempted_reqs q) in
     running s = running s0 \<and> waiting s = waiting s0 \<and> num_waiting_for_streaming_input s = num_waiting_for_streaming_input s0
     \<and> distinct (requests s) \<and> set (requests s) \<subseteq> set (requests s0)
     \<and> set (stopped_running_reqs q) \<subseteq> set (running s0) \<and> set (stopped_preempted_reqs q) \<subseteq> set_mset (queue_bag (waiting s0))
     \<and> (\<forall>x. request_id (objects s x) = request_id (objects s0 x) \<and> resumable (objects s x) = resumable (objects s0 x)
          \<and> (x \<in> G \<longrightarrow> x \<in> set (requests s) \<longrightarrow> is_finished (objects s x))
          \<and> (x \<notin> G \<longrightarrow> status (objects s x) = status (objects s0 x) \<and> (x \<in> set (requests s) \<longleftrightarrow> x \<in> set (requests s0)))))"

lemma stopped_since_same:
  "stopped_since s0 (s, q) \<Longrightarrow> same_places s s' \<Longrightarrow> stopped_since s0 (s', q\<lparr>core_outs := d\<rparr>)"
  by (simp add: stopped_since_def same_places_def is_finished_def)

lemma stop_request_shape:
  assumes "stop_request cfg sv now rid st s q = Inr (s', q', reason, experts, params)" and "\<not> resumable (objects s rid)"
  shows "running s' = running s \<and> waiting s' = waiting s \<and> objects s' = objects s
    \<and> num_waiting_for_streaming_input s' = num_waiting_for_streaming_input s
    \<and> (requests s' = requests s \<or> requests s' = remove1 rid (requests s)) \<and> is_finished (objects s rid)
    \<and> q' = (if st = RUNNING then q\<lparr>stopped_running_reqs := List.insert rid (stopped_running_reqs q)\<rparr>
            else q\<lparr>stopped_preempted_reqs := List.insert rid (stopped_preempted_reqs q)\<rparr>)"
proof -
  have "handle_stopped_request cfg now rid s = Inr (s, True)" using assms(2) by (simp add: handle_stopped_request_def Let_def)
  with assms(1) obtain params' where "release_request sv rid False s = Inr (s', params')"
    "q' = (if st = RUNNING then q\<lparr>stopped_running_reqs := List.insert rid (stopped_running_reqs q)\<rparr>
            else q\<lparr>stopped_preempted_reqs := List.insert rid (stopped_preempted_reqs q)\<rparr>)"
    by (auto simp: stop_request_def Let_def elim!: bindE_InrE)
  with release_shape [OF this(1)] show ?thesis by blast
qed

lemma advance_grammar_same: "advance_grammar sv rid ts s = Inr s' \<Longrightarrow> same_places s s'"
  by (auto simp: advance_grammar_def Let_def split: if_splits prod.splits)

lemma reject_drafts_keep [simp]:
  "status (reject_drafts d g r) = status r" "request_id (reject_drafts d g r) = request_id r"
  "resumable (reject_drafts d g r) = resumable r"
  by (simp_all add: reject_drafts_def Let_def split: option.split)

text \<open>The ways in which one request of the output is treated.\<close>

lemma take_output_keep:
  assumes "take_output cfg rid ts pooled s = Inr (s', kept, b)"
  shows "touched rid b s s'"
proof (cases "ts = []")
  case True
  with assms have "s' = modify_request rid (\<lambda>r. r\<lparr>status := FINISHED_STOPPED\<rparr>) s \<and> b \<or> s' = s \<and> \<not> b"
    by (auto simp: take_output_def split: if_splits)
  then show ?thesis by (elim disjE conjE) (simp_all add: touched_def modify_request_def is_finished_def status_is_finished_def)
next
  case False
  with assms update_output_keep show ?thesis by (simp add: take_output_def)
qed

lemma emit_output_keep:
  assumes "emit_output rid ts pooled b reason experts params s q = (s', q')"
  shows "same_places s s' \<and> stopped_running_reqs q' = stopped_running_reqs q \<and> stopped_preempted_reqs q' = stopped_preempted_reqs q"
proof -
  have "same_places s (modify_request rid (\<lambda>_. fst (take_request_events (objects s rid))) s)"
    by (rule same_places_modify) (simp_all add: take_request_events_def)
  with assms show ?thesis by (auto simp: emit_output_def Let_def split: if_splits prod.splits)
qed

lemma process_output_cases:
  assumes "process_output cfg sv now out mo failed (rid, n) (s, q) = Inr (s', q')"
  obtains (ignored) "s' = s" "q' = q"
  | (handled) s1 q0 s2 s3 s4 q4 ts pooled kept b x y z where "rid \<in> set (requests s)" "\<not> is_finished (objects s rid)" "same_places s s1" "\<exists>st. q0 = q\<lparr>spec_stats := st\<rparr>"
      "take_output cfg rid ts pooled s1 = Inr (s2, kept, b)"
      "(if b then stop_request cfg sv now rid (status (objects s rid)) s2 q0 else Inr (s2, q0, None, None, None)) = Inr (s3, q4, x, y, z)"
      "same_places s3 s4" "emit_output rid kept pooled b x y z s4 q4 = (s', q')"
proof (cases "rid \<in> set failed \<or> live_request rid s = None")
  case True
  with assms have "s' = s" "q' = q" by (simp_all add: process_output_def)
  with ignored show thesis .
next
  case False
  then have live: "rid \<in> set (requests s)" "\<not> is_finished (objects s rid)"
    by (auto simp: live_request_def get_request_def split: if_splits)
  from assms False obtain generated pooled q0 s2 kept b s3 q4 x y z s4 where
    c: "count_drafts cfg out rid generated q = Inr q0" and
    r: "take_output cfg rid generated pooled (modify_request rid (reject_drafts (map_of (out_spec_decode_tokens out) rid) generated) s)
        = Inr (s2, kept, b)"
      "(if b then stop_request cfg sv now rid
          (status (objects (modify_request rid (reject_drafts (map_of (out_spec_decode_tokens out) rid) generated) s) rid)) s2 q0
        else Inr (s2, q0, None, None, None)) = Inr (s3, q4, x, y, z)"
      "advance_grammar sv rid kept s3 = Inr s4" "emit_output rid kept pooled b x y z s4 q4 = (s', q')"
    unfolding process_output_def Let_def by (auto elim!: bindE_InrE)
  have stats: "\<exists>st. q0 = q\<lparr>spec_stats := st\<rparr>"
    using c by (cases q) (auto simp: count_drafts_def elim!: bindE_InrE split: option.splits if_splits)
  have "same_places s (modify_request rid (reject_drafts (map_of (out_spec_decode_tokens out) rid) generated) s)"
    by (rule same_places_modify) simp_all
  from handled [OF live this stats r(1) r(2) [unfolded modify_request_simps reject_drafts_keep] advance_grammar_same [OF r(3)] r(4)] show thesis .
qed

lemma stopped_since_start: "distinct (requests s) \<Longrightarrow> stopped_since s (s, new_output_plan)"
  by (simp add: stopped_since_def new_output_plan_def)

lemma stopped_since_emit:
  assumes "stopped_since s0 (s, q)" and "same_places s s1" and "emit_output rid kept pooled b x y z s1 q = (s', q')"
  shows "stopped_since s0 (s', q')"
proof -
  from emit_output_keep [OF assms(3)] have "same_places s s'" "stopped_running_reqs q' = stopped_running_reqs q"
    "stopped_preempted_reqs q' = stopped_preempted_reqs q" using same_places_trans [OF assms(2)] by auto
  with assms(1) show ?thesis by (simp add: stopped_since_def same_places_def is_finished_def)
qed

lemma stopped_since_stop:
  assumes "stopped_since s0 (s, q)" and "requests s' = requests s \<or> requests s' = remove1 rid (requests s)"
    and "rid \<in> set (stopped_running_reqs q') \<and> rid \<in> set (running s0)
      \<or> rid \<in> set (stopped_preempted_reqs q') \<and> rid \<in># queue_bag (waiting s0)"
    and "set (stopped_running_reqs q') - {rid} = set (stopped_running_reqs q) - {rid}
      \<and> set (stopped_preempted_reqs q') - {rid} = set (stopped_preempted_reqs q) - {rid}"
    and "rid \<notin> set (stopped_running_reqs q') \<or> rid \<notin> set (stopped_preempted_reqs q')"
    and "is_finished (objects s' rid)" and "running s' = running s" and "waiting s' = waiting s"
    and "num_waiting_for_streaming_input s' = num_waiting_for_streaming_input s"
    and "\<forall>x. request_id (objects s' x) = request_id (objects s x) \<and> resumable (objects s' x) = resumable (objects s x)
      \<and> (x \<noteq> rid \<longrightarrow> objects s' x = objects s x)"
  shows "stopped_since s0 (s', q')"
proof -
  let ?G = "\<lambda>q. set (stopped_running_reqs q) \<union> set (stopped_preempted_reqs q)"
  have G: "x \<in> ?G q' \<longleftrightarrow> x = rid \<or> x \<in> ?G q" for x using assms(3,4) by blast
  note i = assms(1) [unfolded stopped_since_def Let_def prod.case]
  have same: "running s = running s0" "waiting s = waiting s0" "set (requests s) \<subseteq> set (requests s0)"
    "num_waiting_for_streaming_input s = num_waiting_for_streaming_input s0" "set (stopped_running_reqs q) \<subseteq> set (running s0)"
    "set (stopped_preempted_reqs q) \<subseteq> set_mset (queue_bag (waiting s0))" "distinct (requests s)" using i by simp_all
  have sub: "set (stopped_running_reqs q') \<subseteq> set (running s0)" "set (stopped_preempted_reqs q') \<subseteq> set_mset (queue_bag (waiting s0))"
    using same(5,6) assms(3-5) by blast+
  have d: "distinct (requests s')" "set (requests s') \<subseteq> set (requests s)"
    "\<And>x. x \<noteq> rid \<Longrightarrow> x \<in> set (requests s') \<longleftrightarrow> x \<in> set (requests s)"
    using assms(2) same(7) by (auto dest: notin_set_remove1)
  have "request_id (objects s' x) = request_id (objects s0 x) \<and> resumable (objects s' x) = resumable (objects s0 x)
      \<and> (x \<in> ?G q' \<longrightarrow> x \<in> set (requests s') \<longrightarrow> is_finished (objects s' x))
      \<and> (x \<notin> ?G q' \<longrightarrow> status (objects s' x) = status (objects s0 x) \<and> (x \<in> set (requests s') \<longleftrightarrow> x \<in> set (requests s0)))" (is "?each x") for x
  proof (cases "x = rid")
    case True
    then show ?thesis using i assms(6,10) G by auto
  next
    case False
    then show ?thesis using i assms(10) d(3) [OF False] G [of x] by auto
  qed
  then have each: "\<forall>x. ?each x" by blast
  show ?thesis unfolding stopped_since_def Let_def prod.case
    by (intro conjI each sub d(1)) (use assms(7-9) same d(2) in auto)
qed

lemma stopped_since_process:
  assumes ok: "placed {#} s0" and inv: "stopped_since s0 (s, q)"
    and run: "process_output cfg sv now out mo failed (rid, n) (s, q) = Inr (s', q')"
  shows "stopped_since s0 (s', q')"
  using run
proof (cases rule: process_output_cases)
  case ignored
  with inv show ?thesis by simp
next
  case (handled s1 q0 s2 s3 s4 q4 ts pooled kept b x y z)
  let ?G = "set (stopped_running_reqs q) \<union> set (stopped_preempted_reqs q)"
  have G: "rid \<notin> ?G" using handled(1,2) inv by (auto simp: stopped_since_def Let_def)
  then have live: "unfinished s0 rid" "status (objects s0 rid) = status (objects s rid)"
    using handled(1,2) inv by (simp_all add: stopped_since_def Let_def unfinished_def is_finished_def)
  have plain: "\<not> resumable (objects s0 rid)" using ok live(1) by (simp add: placed_def unfinished_def)
  have q0: "stopped_running_reqs q0 = stopped_running_reqs q" "stopped_preempted_reqs q0 = stopped_preempted_reqs q"
    using handled(4) by auto
  have one: "stopped_since s0 (s1, q0)"
    using inv handled(3) q0 by (simp add: stopped_since_def same_places_def is_finished_def)
  note t = take_output_keep [OF handled(5), unfolded touched_def]
  show ?thesis
  proof (cases b)
    case False
    with handled(6) have e: "s3 = s2" "q4 = q0" by simp_all
    have "same_places s1 s2" using t False unfolding same_places_def by (metis (full_types))
    with e handled(7) have "same_places s1 s4" using same_places_trans by blast
    from stopped_since_emit [OF one this] handled(8) e show ?thesis by simp
  next
    case True
    with handled(6) have stop: "stop_request cfg sv now rid (status (objects s rid)) s2 q0 = Inr (s3, q4, x, y, z)" by simp
    have "\<not> resumable (objects s2 rid)" using plain one t by (simp add: stopped_since_def Let_def)
    note st = stop_request_shape [OF stop this]
    have "stopped_since s0 (s3, q4)"
    proof (rule stopped_since_stop [OF one])
      show "requests s3 = requests s1 \<or> requests s3 = remove1 rid (requests s1)" using st t by auto
      show "rid \<in> set (stopped_running_reqs q4) \<and> rid \<in> set (running s0)
        \<or> rid \<in> set (stopped_preempted_reqs q4) \<and> rid \<in># queue_bag (waiting s0)"
        using st placed_status [OF ok live(1)] live(2) by auto
      show "set (stopped_running_reqs q4) - {rid} = set (stopped_running_reqs q0) - {rid}
        \<and> set (stopped_preempted_reqs q4) - {rid} = set (stopped_preempted_reqs q0) - {rid}"
        using st by auto
      show "rid \<notin> set (stopped_running_reqs q4) \<or> rid \<notin> set (stopped_preempted_reqs q4)" using st G q0 by auto
    qed (use st t True in auto)
    from stopped_since_emit [OF this handled(7,8)] show ?thesis .
  qed
qed

lemma placed_remove_stopped:
  assumes ok: "placed {#} s0" and inv: "stopped_since s0 (s, q)"
  shows "placed {#} (remove_stopped s q)"
proof -
  let ?R = "set (stopped_running_reqs q)" and ?P = "set (stopped_preempted_reqs q)"
  note i = inv [unfolded stopped_since_def Let_def prod.case]
  have same: "running s = running s0" "waiting s = waiting s0" "set (requests s) \<subseteq> set (requests s0)"
    "num_waiting_for_streaming_input s = num_waiting_for_streaming_input s0" "?R \<subseteq> set (running s0)"
    "?P \<subseteq> set_mset (queue_bag (waiting s0))" "distinct (requests s)" using i by simp_all
  have each: "request_id (objects s x) = request_id (objects s0 x) \<and> resumable (objects s x) = resumable (objects s0 x)
    \<and> (x \<in> ?R \<union> ?P \<longrightarrow> x \<in> set (requests s) \<longrightarrow> is_finished (objects s x))
    \<and> (x \<notin> ?R \<union> ?P \<longrightarrow> status (objects s x) = status (objects s0 x) \<and> (x \<in> set (requests s) \<longleftrightarrow> x \<in> set (requests s0)))" for x
    using i by simp
  have apart: "\<forall>x \<in> set (running s0). x \<notin># queue_bag (waiting s0)" and d: "distinct (running s0)"
    using ok one_of_each_distinct [of "running s0" "queue_bag (waiting s0)"] by (simp_all add: placed_sets)
  let ?s = "remove_stopped s q"
  have u: "running ?s = remove_all_items (running s0) (stopped_running_reqs q)" "requests ?s = requests s" "objects ?s = objects s"
    "num_waiting_for_streaming_input ?s = num_waiting_for_streaming_input s"
    "queue_bag (waiting ?s) = filter_mset (\<lambda>x. x \<notin> ?P) (queue_bag (waiting s0))"
    using same(1,2) by (simp_all add: remove_stopped_def remove_all_items_def)
  have run: "mset (running ?s) = filter_mset (\<lambda>x. x \<notin> ?R \<union> ?P) (mset (running s0))"
    unfolding u(1) set_remove_all [OF d] using apart same(6) by (intro filter_mset_cong) auto
  have wait: "queue_bag (waiting ?s) = filter_mset (\<lambda>x. x \<notin> ?R \<union> ?P) (queue_bag (waiting s0))"
    unfolding u(5) using apart same(5) by (intro filter_mset_cong) auto
  show ?thesis
  proof (rule placed_removed [OF ok _ _ run wait])
    fix x assume "x \<in> ?R \<union> ?P" "x \<in> set (requests ?s)"
    then show "is_finished (objects ?s x)" using each [of x] u by simp
  next
    fix x assume "x \<notin> ?R \<union> ?P"
    then show "status (objects ?s x) = status (objects s0 x) \<and> (x \<in> set (requests ?s) \<longleftrightarrow> x \<in> set (requests s0))"
      using each [of x] u by simp
  qed (use u same(3,4,7) each in simp_all)
qed

lemma fail_output_same: "fail_output rid (s, q) = (s', q') \<Longrightarrow> same_places s s'"
proof -
  assume a: "fail_output rid (s, q) = (s', q')"
  have "same_places s (modify_request rid (\<lambda>_. fst (take_request_events (objects s rid))) s)"
    by (rule same_places_modify) (simp_all add: take_request_events_def)
  with a show ?thesis by (auto simp: fail_output_def Let_def split: prod.splits)
qed

lemma fail_outputs_same: "fold fail_output rids (s, q) = (s', q') \<Longrightarrow> same_places s s'"
proof (induction rids arbitrary: s q)
  case (Cons rid rids)
  obtain s1 q1 where "fail_output rid (s, q) = (s1, q1)" by (cases "fail_output rid (s, q)")
  with Cons fail_output_same same_places_trans show ?case by (metis fold_simps(2))
qed simp

lemma placed_fail:
  assumes "fail_requests cfg sv failed s q = Inr (s', q')" and "placed {#} s"
  shows "placed {#} s'"
proof (cases "failed = [] \<or> recompute_kv_load_failures cfg")
  case True
  with assms show ?thesis by (auto simp: fail_requests_def)
next
  case False
  with assms(1) obtain s1 where "finish_requests sv failed FINISHED_ERROR s = Inr s1" "fold fail_output failed (s1, q) = (s', q')"
    by (auto simp: fail_requests_def elim!: bindE_InrE split: if_splits)
  with placed_finish assms(2) fail_outputs_same placed_same show ?thesis by blast
qed

lemma scan_blocks_keep:
  "scan_blocks bs invalid evict computed ids xs (r, a, b, c) = (r', a', b', c') \<Longrightarrow>
   status r' = status r \<and> request_id r' = request_id r \<and> resumable r' = resumable r"
proof (induction xs arbitrary: r a b c)
  case (Cons x xs)
  obtain i blk where "x = (i, blk)" by (cases x)
  with Cons.prems Cons.IH show ?case by (fastforce simp: Let_def split: if_splits)
qed simp

lemma scan_request_same:
  assumes "scan_request cfg invalid evict rid (s, a) = Inr (s', a')"
  shows "same_places s s'"
proof -
  from assms obtain ids where ids: "block_ids_of (get_blocks rid (kv_cache_manager s)) s = Inr [ids]"
    by (auto simp: scan_request_def elim!: bindE_InrE split: list.splits)
  let ?bs = "sched_block_size cfg"
  let ?n = "if status (objects s rid) = WAITING_FOR_REMOTE_KVS
    then (if rid \<in> failed_recving_kv_req_ids s then num_computed_tokens (objects s rid) else int (length ids) * ?bs)
    else num_cached_tokens (objects s rid)"
  obtain r1 b1 m1 a1 where scan: "scan_blocks ?bs invalid evict ?n ids (zip [0..<nat ((?n + ?bs - 1) div ?bs)] ids)
      (objects s rid, False, False, a) = (r1, b1, m1, a1)"
    by (cases "scan_blocks ?bs invalid evict ?n ids (zip [0..<nat ((?n + ?bs - 1) div ?bs)] ids) (objects s rid, False, False, a)")
  have "s' = modify_request rid (\<lambda>_. if b1 \<and> \<not> m1 then r1\<lparr>num_computed_tokens := num_cached_tokens r1\<rparr> else r1) s"
    using assms scan by (auto simp: scan_request_def ids floordivE_Inr_iff Let_def elim!: bindE_InrE split: if_splits)
  then show ?thesis using scan_blocks_keep [OF scan] by (auto intro!: same_places_modify)
qed

lemma handle_invalid_same:
  assumes "handle_invalid_blocks cfg invalid s = Inr (s', ids)"
  shows "same_places s s'"
proof -
  have scans: "same_places s s1" if "update_requests_with_invalid_blocks cfg rids invalid e s = Inr (s1, a)" for rids e s s1 a
    using that unfolding update_requests_with_invalid_blocks_def by (rule same_places_fold) (rule scan_request_same)
  from assms obtain rids s1 a1 s2 a2 where s12: "update_requests_with_invalid_blocks cfg rids invalid False s = Inr (s1, a1)"
    "update_requests_with_invalid_blocks cfg (running s1) invalid True s1 = Inr (s2, a2)"
    and s': "same_places s2 s'"
  proof -
    from assms obtain ws s1 a1 s2 a2 where r: "iter_requests (objects s) (waiting s) = Inr ws"
      "update_requests_with_invalid_blocks cfg (filter (\<lambda>rid. status (objects s rid) = WAITING_FOR_REMOTE_KVS) ws) invalid False s = Inr (s1, a1)"
      "update_requests_with_invalid_blocks cfg (running s1) invalid True s1 = Inr (s2, a2)"
      by (auto simp: handle_invalid_blocks_def Let_def elim!: bindE_InrE)
    with assms have "same_places s2 s'"
      by (auto simp: handle_invalid_blocks_def same_places_def Let_def elim!: bindE_InrE split: if_splits)
    with that r show thesis by blast
  qed
  show ?thesis by (rule same_places_trans [OF same_places_trans [OF scans [OF s12(1)] scans [OF s12(2)]] s'])
qed

lemma placed_transfer_finished:
  assumes "update_from_kv_xfer_finished sv ko s = Inr s'" and "placed {#} s"
  shows "placed {#} s'"
proof -
  define s0 where "s0 = (case connector sv of None \<Rightarrow> s | Some c \<Rightarrow> s\<lparr>external := update_connector_output c ko (external s)\<rparr>)"
  from assms(1) obtain s1 where s: "foldE finish_recving (finished_recving ko) s0 = Inr s1"
    "foldE finish_sending (finished_sending ko) s1 = Inr s'"
    unfolding update_from_kv_xfer_finished_def Let_def s0_def by (elim bindE_InrE)
  have "placed {#} s0" unfolding s0_def using assms(2) placed_same [OF assms(2)] by (simp split: option.split)
  have "placed {#} s1"
  proof (rule foldE_invariant [OF s(1), where P = "placed {#}"])
    fix x t t'
    assume a: "placed {#} t" "finish_recving x t = Inr t'"
    from a(2) have "free_blocks_of x t = Inr t' \<or> t' = t\<lparr>finished_recving_kv_req_ids := insert x (finished_recving_kv_req_ids t)\<rparr>"
      by (auto simp: finish_recving_def split: option.splits if_splits)
    moreover have "same_places t (t\<lparr>finished_recving_kv_req_ids := insert x (finished_recving_kv_req_ids t)\<rparr>)"
      by (simp add: same_places_def)
    ultimately show "placed {#} t'" using placed_free_blocks a(1) placed_same by blast
  qed fact
  then show ?thesis
    by (rule foldE_invariant [OF s(2), where P = "placed {#}"]) (auto simp: finish_sending_def intro: placed_free_blocks)
qed

lemma take_all_events_same: "take_all_events sv s = (s', evs) \<Longrightarrow> same_places s s'"
  by (auto simp: take_all_events_def same_places_def Let_def split: option.splits prod.splits)

lemma make_stats_same: "make_stats cfg spec s = Inr (s', st) \<Longrightarrow> same_places s s'"
  by (auto simp: make_stats_def same_places_def Let_def elim!: bindE_InrE split: if_splits prod.splits)

lemma placed_update_from_output:
  assumes "update_from_output cfg sv now out mo s = Inr (s', outs, evs)" and ok: "placed {#} s"
  shows "placed {#} s'"
proof -
  from assms(1) obtain s1 failed s2 q2 s3 q3 s4 s5 evs' st where r:
    "(case kv_connector_output mo of None \<Rightarrow> Inr (s, [])
       | Some ko \<Rightarrow> if invalid_block_ids ko \<noteq> [] then handle_invalid_blocks cfg (invalid_block_ids ko) s else Inr (s, [])) = Inr (s1, failed)"
    "foldE (process_output cfg sv now out mo failed) (out_num_scheduled_tokens out)
              (s1, new_output_plan) = Inr (s2, q2)"
    "fail_requests cfg sv failed (remove_stopped s2 q2) q2 = Inr (s3, q3)"
    "(case kv_connector_output mo of None \<Rightarrow> Inr s3 | Some ko \<Rightarrow> update_from_kv_xfer_finished sv ko s3) = Inr s4"
    "take_all_events sv s4 = (s5, evs')"
    "make_stats cfg (spec_stats q3) (s5\<lparr>finished_req_ids_dict := map_option (\<lambda>_. []) (finished_req_ids_dict s5)\<rparr>) = Inr (s', st)"
    unfolding update_from_output_def Let_def by (auto elim!: bindE_InrE split: prod.splits)
  have "same_places s s1" using r(1) handle_invalid_same by (auto split: option.splits if_splits)
  with ok have ok1: "placed {#} s1" by (rule placed_same)
  have "stopped_since s1 (s2, q2)"
  proof (rule foldE_invariant [OF r(2), where P = "stopped_since s1"])
    show "stopped_since s1 (s1, new_output_plan)"
      using ok1 by (intro stopped_since_start) (simp add: placed_def)
  qed (use stopped_since_process [OF ok1] in auto)
  from placed_remove_stopped [OF ok1 this] have "placed {#} (remove_stopped s2 q2)" .
  then have "placed {#} s3" using placed_fail [OF r(3)] by blast
  then have "placed {#} s4" using r(4) placed_transfer_finished by (auto split: option.splits)
  moreover have "same_places s4 s5" using take_all_events_same [OF r(5)] .
  moreover have "same_places s5 (s5\<lparr>finished_req_ids_dict := map_option (\<lambda>_. []) (finished_req_ids_dict s5)\<rparr>)" by (simp add: same_places_def)
  ultimately show ?thesis using make_stats_same [OF r(6)] placed_same by blast
qed

subsection \<open>Resets and draft tokens\<close>

lemma placed_preempt_all:
  assumes "preempt_all cfg now (rev (running s)) s = Inr s'" and "placed {#} s"
  shows "placed {#} s'"
proof -
  have "placed {#} s'" if "preempt_all cfg now (rev rs) s = Inr s'" "running s = rs" "placed {#} s" for rs and s s' :: "'a Scheduler"
    using that
  proof (induction rs arbitrary: s rule: rev_induct)
    case (snoc v rs)
    then obtain s1 where s1: "preempt_request cfg now v (s\<lparr>running := rs\<rparr>) = Inr s1"
      "preempt_all cfg now (rev rs) (modify_request v (\<lambda>r. r\<lparr>num_output_placeholders := 0, discard_latest_async_tokens := True\<rparr>) s1) = Inr s'"
      by (auto elim!: bindE_InrE)
    let ?s1 = "modify_request v (\<lambda>r. r\<lparr>num_output_placeholders := 0, discard_latest_async_tokens := True\<rparr>) s1"
    have "placed {#} s1" using placed_preempt [OF snoc.prems(3) s1(1)] snoc.prems(2) by simp
    then have "placed {#} ?s1" by (rule placed_same [OF _ same_places_modify]) simp_all
    moreover have "running ?s1 = rs" using preempt_request_running [OF s1(1)] by simp
    ultimately show ?case using snoc.IH [OF s1(2)] by simp
  qed simp
  from this [OF assms(1) refl assms(2)] show ?thesis .
qed

lemma placed_reset_prefix_cache:
  assumes "scheduler_reset_prefix_cache cfg sv now b c s = Inr (s', ok)" and "placed {#} s"
  shows "placed {#} s'"
proof -
  from assms(1) obtain s1 k fine where r: "(if b then bindE (preempt_all cfg now (rev (running s)) s) (\<lambda>s. Inr (s\<lparr>prev_step_scheduled_req_ids := {}\<rparr>))
      else Inr s) = Inr s1"
    "(if b \<and> \<not> fine then Inl RuntimeError
      else if c then bindE (reset_connector_cache cfg sv (s1\<lparr>kv_cache_manager := k\<rparr>)) (\<lambda>(s, conn_ok). Inr (s, conn_ok \<and> fine))
      else Inr (s1\<lparr>kv_cache_manager := k\<rparr>, fine)) = Inr (s', ok)"
    unfolding scheduler_reset_prefix_cache_def Let_def by (auto elim!: bindE_InrE)
  have "placed {#} s1"
  proof (cases b)
    case True
    with r(1) obtain s0 where "preempt_all cfg now (rev (running s)) s = Inr s0" "s1 = s0\<lparr>prev_step_scheduled_req_ids := {}\<rparr>"
      by (auto elim!: bindE_InrE)
    with placed_preempt_all [OF _ assms(2)] placed_same same_places_fields(5) show ?thesis by blast
  next
    case False
    with r(1) assms(2) show ?thesis by simp
  qed
  moreover have "same_places s1 s'"
    using r(2) by (auto simp: reset_connector_cache_def same_places_def Let_def elim!: bindE_InrE
        split: if_splits option.splits prod.splits)
  ultimately show ?thesis by (rule placed_same)
qed

lemma update_drafts_same: "same_places s (update_draft_token_ids sv rids drafts s)"
proof -
  have one: "same_places s (update_draft_one sv x s)" for x and s :: "'a Scheduler"
  proof (cases x)
    case (Pair rid ts)
    show ?thesis
    proof (cases "live_request rid s")
      case (Some r)
      then show ?thesis by (auto simp: update_draft_one_def Pair Let_def modify_request_def same_places_def split: prod.split)
    qed (simp add: update_draft_one_def Pair)
  qed
  have "same_places s (fold (update_draft_one sv) xs s)" for xs and s :: "'a Scheduler"
  proof (induction xs arbitrary: s)
    case (Cons x xs)
    show ?case using same_places_trans [OF one Cons.IH] by simp
  qed simp
  then show ?thesis by (simp add: update_draft_token_ids_def)
qed

lemma drafts_in_output_same:
  assumes "update_draft_token_ids_in_output sv rids drafts out s = Inr (s', out')"
  shows "same_places s s'"
proof -
  from assms obtain x where "foldE (draft_in_output sv) (zip rids drafts) (s, out_spec_decode_tokens out, []) = Inr (s', x)"
    by (auto simp: update_draft_token_ids_in_output_def elim!: bindE_InrE)
  then show ?thesis
    by (rule same_places_fold)
      (auto simp: draft_in_output_def same_places_def Let_def elim!: bindE_InrE split: option.splits if_splits prod.splits)
qed

subsection \<open>Reachable states\<close>

text \<open>
  One step is one call of a method that the engine uses. Requests enter with the status that the
  constructor of \<^verbatim>\<open>Request\<close> gives them.
\<close>

inductive sched_step :: "scheduler_settings \<Rightarrow> 'e services \<Rightarrow> 'e Scheduler \<Rightarrow> 'e Scheduler \<Rightarrow> bool" for cfg sv where
  step_add: "fresh_request r \<Longrightarrow> scheduler_add_request cfg sv now r s = Inr s' \<Longrightarrow> sched_step cfg sv s s'"
| step_schedule: "schedule cfg sv now s = Inr (s', out) \<Longrightarrow> sched_step cfg sv s s'"
| step_output: "update_from_output cfg sv now out mo s = Inr (s', outs, evs) \<Longrightarrow> sched_step cfg sv s s'"
| step_finish: "finish_requests sv rids st s = Inr s' \<Longrightarrow> sched_step cfg sv s s'"
| step_drafts: "sched_step cfg sv s (update_draft_token_ids sv rids drafts s)"
| step_drafts_in_output: "update_draft_token_ids_in_output sv rids drafts out s = Inr (s', out') \<Longrightarrow> sched_step cfg sv s s'"
| step_reset_prefix: "scheduler_reset_prefix_cache cfg sv now running_too connector_too s = Inr (s', ok) \<Longrightarrow> sched_step cfg sv s s'"
| step_reset_connector: "reset_connector_cache cfg sv s = Inr (s', ok) \<Longrightarrow> sched_step cfg sv s s'"
| step_reset_encoder: "sched_step cfg sv s (reset_encoder_cache s)"
| step_make_stats: "make_stats cfg spec s = Inr (s', st) \<Longrightarrow> sched_step cfg sv s s'"

inductive sched_reach :: "scheduler_settings \<Rightarrow> 'e services \<Rightarrow> 'e Scheduler \<Rightarrow> bool" for cfg sv where
  sched_start: "scheduler_init cfg store gpu_blocks caching kv_events dcp pcp finished_sets sv e = Inr s \<Longrightarrow> sched_reach cfg sv s"
| sched_next: "sched_reach cfg sv s \<Longrightarrow> sched_step cfg sv s s' \<Longrightarrow> sched_reach cfg sv s'"

lemma placed_step: "sched_step cfg sv s s' \<Longrightarrow> placed {#} s \<Longrightarrow> placed {#} s'"
proof (induction rule: sched_step.induct)
  case (step_drafts s rids drafts)
  then show ?case using update_drafts_same placed_same by blast
next
  case (step_drafts_in_output rids drafts out s s' out')
  then show ?case using drafts_in_output_same placed_same by blast
next
  case (step_reset_connector s s' ok)
  have "same_places s s'" using step_reset_connector.hyps
    by (auto simp: reset_connector_cache_def same_places_def Let_def split: if_splits option.splits prod.splits)
  then show ?case using step_reset_connector.prems placed_same by blast
next
  case (step_reset_encoder s)
  then show ?case by (auto simp: reset_encoder_cache_def intro: placed_same)
next
  case (step_make_stats spec s s' st)
  then show ?case using make_stats_same placed_same by blast
qed (blast intro: placed_add placed_schedule placed_update_from_output placed_finish placed_reset_prefix_cache)+

lemma placed_init: "scheduler_init cfg store gpu_blocks caching kv_events dcp pcp finished_sets sv e = Inr s \<Longrightarrow> placed {#} s"
  by (auto simp: scheduler_init_def placed_def elim!: bindE_InrE)

lemma sched_reach_placed: "sched_reach cfg sv s \<Longrightarrow> placed {#} s"
proof (induction rule: sched_reach.induct)
  case (sched_start store gpu_blocks caching kv_events dcp pcp finished_sets e s)
  then show ?case by (rule placed_init)
next
  case (sched_next s s')
  then show ?case using placed_step by blast
qed

end
