(* ===== verification/Scheduler_Properties.thy ===== *)
theory Scheduler_Properties
  imports Kv_Allocation Scheduler_Reachable
begin

section \<open>Properties of the scheduler\<close>

text \<open>
  The properties of the scheduling step and of the processing of outputs, with runs on a small
  scheduler: four blocks of two tokens, at most two running requests and four tokens per step.
\<close>

subsection \<open>A small scheduler\<close>

definition demo_settings :: scheduler_settings where
  "demo_settings = \<lparr>policy = FCFS, max_num_running_reqs = 2, max_num_scheduled_tokens = 4, model_len = 8,
     long_prefill_token_threshold = 0, enable_chunked_prefill = True, no_chunked_mm_input = False,
     async_scheduling = False, async_class = False, mm_budget = None, is_encoder_decoder = False, speculative = None,
     kv_config = demo_config, sched_block_size = 2, cache_block_size = 2, mamba_mode = ''none'', max_loras = None,
     stats_on = False, use_pp = False, use_v2_model_runner = False, recompute_kv_load_failures = True,
     return_routed_experts = False, use_int_hashes = False, request_hasher = None\<rparr>"

definition demo_services :: "unit services" where
  "demo_services = \<lparr>connector = None, ec_conn = None, structured_output_manager =
     \<lparr>grammar_ready = (\<lambda>_ _. False), should_advance = (\<lambda>_ e. (e, False)), accept_tokens = (\<lambda>_ _ e. (e, True)),
      validate_tokens = (\<lambda>_ ts _. ts), grammar_bitmask = (\<lambda>_ _ _. [])\<rparr>\<rparr>"

definition demo_text :: "string \<Rightarrow> int list \<Rightarrow> Request" where
  "demo_text rid ts = demo_request rid ts [] None None"

text \<open>The scheduler after its constructor and after two requests have entered.\<close>

definition demo_started :: "unit Scheduler result" where
  "demo_started = scheduler_init demo_settings (\<lambda>_. demo_text '''' []) (Some 4) False True 1 1 False demo_services ()"

definition demo_waiting :: "unit Scheduler result" where
  "demo_waiting = bindE demo_started (\<lambda>s.
     bindE (scheduler_add_request demo_settings demo_services 0 (demo_text ''a'' [1, 2, 3]) s)
       (scheduler_add_request demo_settings demo_services 0 (demo_text ''b'' [4, 5])))"

lemma demo_reach: "demo_waiting = Inr s \<Longrightarrow> sched_reach demo_settings demo_services s"
proof -
  assume "demo_waiting = Inr s"
  then obtain s0 s1 where s: "demo_started = Inr s0"
    "scheduler_add_request demo_settings demo_services 0 (demo_text ''a'' [1, 2, 3]) s0 = Inr s1"
    "scheduler_add_request demo_settings demo_services 0 (demo_text ''b'' [4, 5]) s1 = Inr s"
    by (auto simp: demo_waiting_def elim!: bindE_InrE)
  have f: "fresh_request (demo_text rid ts)" for rid ts by (simp add: fresh_request_def demo_text_def demo_request_def)
  show ?thesis
    using sched_next [OF sched_next [OF sched_start [OF s(1) [unfolded demo_started_def]] step_add [OF f s(2)]] step_add [OF f s(3)]] .
qed

text \<open>Reachable states fulfil what a step asks of the lists.\<close>

lemma reach_step_listed:
  assumes "sched_reach cfg sv s" and "int (length (running s)) \<le> max_num_running_reqs cfg"
    and "0 \<le> max_num_scheduled_tokens cfg" and "need_mamba_block_aligned_split cfg \<longrightarrow> 0 < cache_block_size cfg"
  shows "step_listed cfg s"
  using sched_reach_placed [OF assms(1)] assms(2-4) by (auto simp: step_listed_def placed_sets)

text \<open>
  C3: One scheduling step shares out the token budget and loses no request, with preemption or without and with
  any connector. The step starts with no request listed twice, all listed running requests \<open>RUNNING\<close> (both hold in
  every reachable state) and at most \<^verbatim>\<open>max_num_running_reqs\<close> of them; the budget is not negative, and the block size
  is positive where Mamba needs aligned splits. Then the shares and the
  remaining budget add up to \<^verbatim>\<open>max_num_scheduled_tokens\<close>, each share belongs to one running request,
  at most \<^verbatim>\<open>max_num_running_reqs\<close> requests run, the running and waiting requests together are the same as
  before, and every preempted request waits with no computed tokens. If in addition every running request is
  ready for more tokens (its computed tokens exceed neither its tokens with the pending ones nor
  \<^verbatim>\<open>max_model_len - 1\<close>), then all shares are positive, they add up to at most the budget, and
  the asserts at the end of the step hold. Without this readiness a share can be -1:
  \<open>pending_full_prompt_gets_negative_share\<close>.
\<close>

theorem scheduling_step_shares_budget:
  assumes "step_listed cfg s" and "plan_step cfg sv now s = Inr (s', p)"
  shows "sum_list (map snd (num_scheduled_tokens p)) + token_budget p = max_num_scheduled_tokens cfg
    \<and> distinct_keys (num_scheduled_tokens p)
    \<and> (\<forall>rid n. map_of (num_scheduled_tokens p) rid = Some n \<longrightarrow> rid \<in> set (running s'))
    \<and> int (length (running s')) \<le> max_num_running_reqs cfg
    \<and> mset (running s') + queue_bag (waiting s') = mset (running s) + queue_bag (waiting s)
    \<and> (\<forall>rid \<in> set (preempted_reqs p). rid \<in># queue_bag (waiting s') \<and> status (objects s' rid) = PREEMPTED
         \<and> num_computed_tokens (objects s' rid) = 0)
    \<and> ((\<forall>rid \<in> set (running s). tokens_ready cfg (objects s rid)) \<longrightarrow>
         (\<forall>rid n. map_of (num_scheduled_tokens p) rid = Some n \<longrightarrow> 0 < n)
       \<and> sum_list (map snd (num_scheduled_tokens p)) \<le> max_num_scheduled_tokens cfg
       \<and> step_constraints cfg s' p)"
proof -
  define R where "R \<longleftrightarrow> (\<forall>rid \<in> set (running s). tokens_ready cfg (objects s rid))"
  have ready: "R \<Longrightarrow> step_ready cfg s" using assms(1) by (simp add: R_def step_ready_def)
  have d: "step_done R cfg s s' p" by (rule plan_step_done [OF assms(1) _ assms(2)]) (rule ready)
  note r = d [unfolded step_done_def accounted_def]
  have share: "(R \<longrightarrow> 0 < n) \<and> rid \<in> set (running s')" if n: "map_of (num_scheduled_tokens p) rid = Some n" for rid n
  proof -
    from map_of_SomeD [OF n] have "n \<in> set (map snd (num_scheduled_tokens p))" "rid \<in> set (map fst (num_scheduled_tokens p))" by force+
    with r show ?thesis by auto
  qed
  have end_ok: "step_constraints cfg s' p" if R
    using plan_step_done [OF assms(1) _ assms(2), of True] ready [OF that] by (blast intro: step_done_constraints)
  show ?thesis
    unfolding R_def [symmetric] using share end_ok r by (auto simp: step_constraints_def)
qed

theorem scheduling_step_shares_budget_witness:
  "\<exists>s s' p. demo_waiting = Inr s \<and> step_ready demo_settings s \<and> plan_step demo_settings demo_services 0 s = Inr (s', p)
     \<and> num_scheduled_tokens p = [(''a'', 3), (''b'', 1)] \<and> token_budget p = 0 \<and> step_constraints demo_settings s' p
     \<and> mset (running s') + queue_bag (waiting s') = {#''a'', ''b''#}"
proof -
  have "(case demo_waiting of Inl _ \<Rightarrow> False | Inr s \<Rightarrow> running s = [] \<and> waiting s = FCFSRequestQueue [''a'', ''b'']
     \<and> (case plan_step demo_settings demo_services 0 s of Inl _ \<Rightarrow> False
        | Inr (s', p) \<Rightarrow> num_scheduled_tokens p = [(''a'', 3), (''b'', 1)]))"
    by code_simp
  then obtain s s' p where s: "demo_waiting = Inr s" "running s = []" "waiting s = FCFSRequestQueue [''a'', ''b'']"
    "plan_step demo_settings demo_services 0 s = Inr (s', p)" "num_scheduled_tokens p = [(''a'', 3), (''b'', 1)]"
    by (auto split: sum.splits)
  have ready: "step_ready demo_settings s"
    using s(2,3) by (simp add: step_ready_def step_listed_def demo_settings_def one_of_each_def need_mamba_block_aligned_split_def)
  then have listed: "step_listed demo_settings s" and all: "\<forall>rid \<in> set (running s). tokens_ready demo_settings (objects s rid)"
    by (simp_all add: step_ready_def)
  note step = scheduling_step_shares_budget [OF listed s(4)]
  have "token_budget p = 0" using step s(5) by (simp add: demo_settings_def)
  moreover have "step_constraints demo_settings s' p" using step all by blast
  moreover have "mset (running s') + queue_bag (waiting s') = {#''a'', ''b''#}" using step s(2,3) by simp
  ultimately show ?thesis using s(1,4,5) ready by blast
qed

text \<open>
  C2: No request is lost or listed twice. In every state that the scheduler reaches through its methods, whatever
  the model, the connectors and the clients do (without streaming input): each unfinished request of the
  dictionary is in exactly one place, in \<open>running\<close> if its status is \<open>RUNNING\<close> and in the waiting queue
  otherwise, and \<^verbatim>\<open>get_num_unfinished_requests\<close> counts them.
\<close>

theorem requests_never_lost:
  assumes "sched_reach cfg sv s"
  shows "distinct (requests s) \<and> distinct (running s)
    \<and> (\<forall>rid. unfinished s rid \<longleftrightarrow> rid \<in> set (running s) \<or> rid \<in># queue_bag (waiting s))
    \<and> (\<forall>rid. count (mset (running s)) rid + count (queue_bag (waiting s)) rid \<le> 1)
    \<and> (\<forall>rid. rid \<in> set (running s) \<longleftrightarrow> unfinished s rid \<and> status (objects s rid) = RUNNING)
    \<and> (\<forall>rid. rid \<in># queue_bag (waiting s) \<longleftrightarrow> unfinished s rid \<and> waiting_status (status (objects s rid)))
    \<and> get_num_unfinished_requests s = int (card {rid. unfinished s rid})"
proof -
  have ok: "placed {#} s" by (rule sched_reach_placed [OF assms])
  have listed: "rid \<in> set (running s) \<or> rid \<in># queue_bag (waiting s) \<longleftrightarrow> unfinished s rid" for rid
    using placed_listed [OF ok] by simp
  have eq: "mset (running s) + queue_bag (waiting s) = mset (filter (unfinished s) (requests s))" using ok by (simp add: placed_def)
  have "{rid. unfinished s rid} = set (filter (unfinished s) (requests s))" by (auto simp: unfinished_def)
  then have "card {rid. unfinished s rid} = length (filter (unfinished s) (requests s))"
    using ok by (metis distinct_card distinct_filter placed_def)
  also have "\<dots> = length (running s) + len_requests (waiting s)"
    using arg_cong [OF eq, of size] by (simp add: len_requests_bag del: mset_filter)
  finally have card: "get_num_unfinished_requests s = int (card {rid. unfinished s rid})"
    using ok by (simp add: get_num_unfinished_requests_def placed_def)
  have run: "rid \<in> set (running s) \<longleftrightarrow> unfinished s rid \<and> status (objects s rid) = RUNNING" for rid
    using listed [of rid] placed_status [OF ok, of rid] ok by (auto simp: placed_def)
  have wait: "rid \<in># queue_bag (waiting s) \<longleftrightarrow> unfinished s rid \<and> waiting_status (status (objects s rid))" for rid
    using listed [of rid] placed_status [OF ok, of rid] ok by (auto simp: placed_def)
  have "count (mset (running s)) rid + count (queue_bag (waiting s)) rid \<le> 1" for rid
    using ok by (simp add: placed_sets one_of_each_def)
  with ok card listed run wait placed_distinct [OF ok] show ?thesis by (simp add: placed_def)
qed

theorem requests_never_lost_witness:
  "\<exists>s s1 out. demo_waiting = Inr s \<and> schedule demo_settings demo_services 0 s = Inr (s1, out)
     \<and> get_num_unfinished_requests s1 = int (card {rid. unfinished s1 rid}) \<and> running s1 = [''a'', ''b'']"
proof -
  have "(case demo_waiting of Inl _ \<Rightarrow> False | Inr s \<Rightarrow>
     (case schedule demo_settings demo_services 0 s of Inl _ \<Rightarrow> False | Inr (s1, out) \<Rightarrow> running s1 = [''a'', ''b'']))"
    by code_simp
  then obtain s s1 out where s: "demo_waiting = Inr s" "schedule demo_settings demo_services 0 s = Inr (s1, out)" "running s1 = [''a'', ''b'']"
    by (auto split: sum.splits)
  have "sched_reach demo_settings demo_services s1"
    by (rule sched_next [OF demo_reach [OF s(1)] step_schedule [OF s(2)]])
  with requests_never_lost s show ?thesis by blast
qed

subsection \<open>New tokens\<close>

text \<open>The request after the first new tokens, as \<^verbatim>\<open>check_stop\<close> sees it.\<close>

definition with_tokens :: "int list \<Rightarrow> Request \<Rightarrow> Request" where
  "with_tokens ts r = r\<lparr>output_token_ids := output_token_ids r @ ts, all_token_ids := all_token_ids r @ ts\<rparr>"

lemma with_tokens_append [simp]: "with_tokens us (with_tokens ts r) = with_tokens (ts @ us) r"
  by (simp add: with_tokens_def)

lemma with_tokens_status [simp]: "status (with_tokens ts r) = status r"
  by (simp add: with_tokens_def)

lemma append_output_no_hasher [simp]: "append_output_token_ids None ts r = Inr (with_tokens ts r)"
  by (simp add: append_output_token_ids_def with_tokens_def Let_def)

text \<open>The verdict after the last token, \<open>None\<close> if the request goes on.\<close>

lemma check_stop_total:
  assumes "pooling_params r = None" and "sampling_params r \<noteq> None" and "output_token_ids r \<noteq> []"
  shows "\<exists>r' b. check_stop r n = Inr (r', b) \<and> (\<not> b \<longrightarrow> r' = r)"
  using assms by (auto simp: check_stop_def index_last Let_def)

lemma append_until_stop_spec:
  assumes "request_hasher cfg = None" and "pooling_params r = None" and "sampling_params r \<noteq> None"
  shows "\<exists>k r' stopped. k \<le> length ts \<and> append_until_stop cfg ts r = Inr (r', take k ts, stopped)
    \<and> (\<forall>j. 0 < j \<and> j < k \<longrightarrow> check_stop (with_tokens (take j ts) r) (model_len cfg) = Inr (with_tokens (take j ts) r, False))
    \<and> (if stopped then 0 < k \<and> check_stop (with_tokens (take k ts) r) (model_len cfg) = Inr (r', True)
       else k = length ts \<and> r' = with_tokens ts r
         \<and> (0 < k \<longrightarrow> check_stop (with_tokens ts r) (model_len cfg) = Inr (with_tokens ts r, False)))"
  using assms(2,3)
proof (induction ts arbitrary: r)
  case Nil
  have "with_tokens [] r = r" by (simp add: with_tokens_def)
  then show ?case by (intro exI [of _ 0] exI [of _ r] exI [of _ False]) simp
next
  case (Cons t ts)
  let ?r = "with_tokens [t] r"
  have "pooling_params ?r = None" "sampling_params ?r \<noteq> None" "output_token_ids ?r \<noteq> []"
    using Cons.prems by (simp_all add: with_tokens_def)
  note p = this
  obtain r1 b where c: "check_stop ?r (model_len cfg) = Inr (r1, b)" "\<not> b \<Longrightarrow> r1 = ?r" using check_stop_total [OF p] by blast
  show ?case
  proof (cases b)
    case True
    then have "append_until_stop cfg (t # ts) r = Inr (r1, take 1 (t # ts), True)" using c assms(1) by simp
    with True c show ?thesis by (intro exI [of _ 1] exI [of _ r1] exI [of _ True]) auto
  next
    case False
    with c have stop: "check_stop ?r (model_len cfg) = Inr (?r, False)" by simp
    from Cons.IH [OF p(1,2)] obtain k r' stopped where k: "k \<le> length ts"
      "append_until_stop cfg ts ?r = Inr (r', take k ts, stopped)"
      "\<And>j. 0 < j \<Longrightarrow> j < k \<Longrightarrow> check_stop (with_tokens (take j ts) ?r) (model_len cfg) = Inr (with_tokens (take j ts) ?r, False)"
      "if stopped then 0 < k \<and> check_stop (with_tokens (take k ts) ?r) (model_len cfg) = Inr (r', True)
       else k = length ts \<and> r' = with_tokens ts ?r
         \<and> (0 < k \<longrightarrow> check_stop (with_tokens ts ?r) (model_len cfg) = Inr (with_tokens ts ?r, False))" by blast
    have "append_until_stop cfg (t # ts) r = Inr (r', take (Suc k) (t # ts), stopped)" using stop k(2) assms(1) by simp
    moreover have "check_stop (with_tokens (take j (t # ts)) r) (model_len cfg) = Inr (with_tokens (take j (t # ts)) r, False)"
      if "0 < j \<and> j < Suc k" for j
    proof (cases "j = 1")
      case True
      with stop show ?thesis by simp
    next
      case False
      with that obtain i where "j = Suc i" "0 < i" "i < k" by (cases j) auto
      with k(3) [of i] show ?thesis by simp
    qed
    ultimately show ?thesis using k(1,4) stop
      by (intro exI [of _ "Suc k"] exI [of _ r'] exI [of _ stopped]) (cases ts; auto split: if_splits)
  qed
qed

text \<open>
  C32: The sampled tokens of a request are taken up one by one until the first that ends it: the call returns the
  tokens up to and including that one, the request grows by exactly these, no earlier token would have
  ended it, and it is finished exactly if the last one ends it. With asynchronous scheduling the same
  holds and the placeholders shrink by the number of tokens kept, unless the tokens belong to a request
  that was preempted by force; then they are dropped and only the mark is removed. The hypotheses leave out
  hashing (no request hasher) and, with asynchronous scheduling, prefix caching of a running request.
\<close>

theorem new_tokens_until_stop:
  assumes "request_hasher cfg = None" and "pooling_params r = None" and "sampling_params r \<noteq> None"
    and "r = objects s rid" and "async_class cfg \<Longrightarrow> int (length ts) \<le> num_output_placeholders r"
    and "async_class cfg \<Longrightarrow> status r = RUNNING \<Longrightarrow> \<not> kvm_enable_caching (kv_cache_manager s)"
  shows "\<exists>k r' stopped s'. k \<le> length ts \<and> append_until_stop cfg ts r = Inr (r', take k ts, stopped)
    \<and> (\<forall>j. 0 < j \<and> j < k \<longrightarrow> check_stop (with_tokens (take j ts) r) (model_len cfg) = Inr (with_tokens (take j ts) r, False))
    \<and> (if stopped then 0 < k \<and> check_stop (with_tokens (take k ts) r) (model_len cfg) = Inr (r', True)
       else k = length ts \<and> r' = with_tokens ts r)
    \<and> (if async_class cfg \<and> discard_latest_async_tokens r
       then update_request_with_output cfg rid ts s = Inr (s', [], False)
         \<and> objects s' rid = r\<lparr>discard_latest_async_tokens := False\<rparr>
       else update_request_with_output cfg rid ts s = Inr (s', take k ts, stopped)
         \<and> objects s' rid = (if async_class cfg then r'\<lparr>num_output_placeholders := num_output_placeholders r - int k\<rparr> else r')
         \<and> is_finished (objects s' rid) = (stopped \<or> is_finished r))"
proof -
  from append_until_stop_spec [OF assms(1-3)] obtain k r' stopped where k: "k \<le> length ts"
    "append_until_stop cfg ts r = Inr (r', take k ts, stopped)"
    "\<forall>j. 0 < j \<and> j < k \<longrightarrow> check_stop (with_tokens (take j ts) r) (model_len cfg) = Inr (with_tokens (take j ts) r, False)"
    "if stopped then 0 < k \<and> check_stop (with_tokens (take k ts) r) (model_len cfg) = Inr (r', True)
       else k = length ts \<and> r' = with_tokens ts r" by (metis (no_types, lifting))
  have keep: "num_output_placeholders r' = num_output_placeholders r"
    using k(4) by (auto simp: check_stop_def with_tokens_def Let_def elim!: bindE_InrE split: if_splits option.splits)
  have fin: "is_finished r' = (stopped \<or> is_finished r)"
    using append_until_stop_keep [OF k(2)] k(4) by (auto simp: is_finished_def with_tokens_def split: if_splits)
  let ?d = "async_class cfg \<and> discard_latest_async_tokens r"
  define s' where "s' = (if ?d then modify_request rid (\<lambda>r. r\<lparr>discard_latest_async_tokens := False\<rparr>) s
    else modify_request rid (\<lambda>_. if async_class cfg then r'\<lparr>num_output_placeholders := num_output_placeholders r - int k\<rparr> else r') s)"
  have run: "update_request_with_output cfg rid ts s = (if ?d then Inr (s', [], False) else Inr (s', take k ts, stopped))"
    using k(1,2) keep assms(5,6)
    by (auto simp: update_request_with_output_def s'_def Let_def min_def assms(4) [symmetric] kvm_cache_blocks_def)
  have "objects s' rid = (if ?d then r\<lparr>discard_latest_async_tokens := False\<rparr>
      else if async_class cfg then r'\<lparr>num_output_placeholders := num_output_placeholders r - int k\<rparr> else r')"
    by (simp add: s'_def assms(4))
  with run k fin show ?thesis
    by (intro exI [of _ k] exI [of _ r'] exI [of _ stopped] exI [of _ s']) (simp add: is_finished_def)
qed

text \<open>Token 7 is a stop token of the small request.\<close>

theorem new_tokens_until_stop_witness:
  "\<exists>s s'. demo_waiting = Inr s \<and> update_request_with_output demo_settings ''b'' [6, 7, 8] s = Inr (s', [6, 7], True)
     \<and> is_finished (objects s' ''b'') \<and> output_token_ids (objects s' ''b'') = [6, 7]"
proof -
  have "(case demo_waiting of Inl _ \<Rightarrow> False | Inr s \<Rightarrow> objects s ''b'' = demo_text ''b'' [4, 5])"
    by code_simp
  then obtain s where s: "demo_waiting = Inr s" "objects s ''b'' = demo_text ''b'' [4, 5]" by (auto split: sum.splits)
  let ?r = "demo_text ''b'' [4, 5]"
  have h: "request_hasher demo_settings = None" "pooling_params ?r = None" "sampling_params ?r \<noteq> None" "?r = objects s ''b''"
    "\<not> async_class demo_settings"
    by (simp_all add: demo_settings_def demo_text_def demo_request_def s(2))
  have a: "append_until_stop demo_settings [6, 7, 8] ?r
      = Inr ((with_tokens [6, 7] ?r)\<lparr>status := FINISHED_STOPPED, stop_reason := Some 7\<rparr>, [6, 7], True)"
    by code_simp
  from new_tokens_until_stop [OF h(1-4), of "[6, 7, 8]"] h(5) obtain k s' where
    "take k [6, 7, 8] = [6, 7 :: int]" "update_request_with_output demo_settings ''b'' [6, 7, 8] s = Inr (s', take k [6, 7, 8], True)"
    "objects s' ''b'' = (with_tokens [6, 7] ?r)\<lparr>status := FINISHED_STOPPED, stop_reason := Some 7\<rparr>" "is_finished (objects s' ''b'')"
    unfolding a by auto
  with s(1) show ?thesis by (auto simp: with_tokens_def demo_text_def demo_request_def)
qed

subsection \<open>Where the code does not do what it means to\<close>

text \<open>
  C33: A streaming session that stops while it is preempted, with no update of its client waiting in its streaming
  queue, is lost. When the tokens of a step that was still running
  arrive after the preemption and end a resumable request, \<^verbatim>\<open>_handle_stopped_request\<close> puts it into the
  waiting queue a second time, and \<^verbatim>\<open>update_from_output\<close> then removes it from there with
  \<^verbatim>\<open>remove_requests\<close>, which drops every entry. The request stays unfinished in the dictionary but is in no
  queue, so it is never scheduled again and its client waits forever.
\<close>

theorem stopped_preempted_session_is_lost:
  assumes "stop_request cfg sv now rid st s q = Inr (s', q', reason, experts, params)"
    and "resumable (objects s rid)" and "streaming_queue (objects s rid) = None \<or> streaming_queue (objects s rid) = Some []"
    and "rid \<in> set (requests s)" and "st \<noteq> RUNNING" and "rid \<notin> set (running s)" and "rid \<in># queue_bag (waiting s)"
  shows "count (queue_bag (waiting s')) rid \<ge> 2
    \<and> (let s'' = remove_stopped s' q' in unfinished s'' rid \<and> status (objects s'' rid) = WAITING_FOR_STREAMING_REQ
         \<and> rid \<notin># queue_bag (waiting s'') \<and> rid \<notin> set (running s''))"
proof -
  let ?s = "(modify_request rid (\<lambda>x. x\<lparr>status := WAITING_FOR_STREAMING_REQ\<rparr>) s)
    \<lparr>num_waiting_for_streaming_input := num_waiting_for_streaming_input s + 1\<rparr>"
  let ?h = "?s\<lparr>waiting := add_request (objects ?s) rid (waiting ?s)\<rparr>"
  have "handle_stopped_request cfg now rid s = Inr (?h, False)"
    using assms(2,3) by (auto simp: handle_stopped_request_def Let_def split: option.split list.split)
  with assms(1,5) have r: "s' = ?h" "q' = q\<lparr>stopped_preempted_reqs := List.insert rid (stopped_preempted_reqs q)\<rparr>"
    by (auto simp: stop_request_def Let_def elim!: bindE_InrE)
  have q: "queue_bag (waiting s') = add_mset rid (queue_bag (waiting s))" "requests s' = requests s" "running s' = running s"
    "status (objects s' rid) = WAITING_FOR_STREAMING_REQ"
    by (simp_all add: r(1))
  have "count (queue_bag (waiting s)) rid \<ge> 1" using assms(7) by (simp add: Suc_le_eq)
  then have twice: "count (queue_bag (waiting s')) rid \<ge> 2" by (simp add: q(1))
  let ?t = "remove_stopped s' q'"
  have ne: "rid \<in> set (stopped_preempted_reqs q')" by (simp add: r(2))
  then have ne: "stopped_preempted_reqs q' \<noteq> []" "rid \<in> set (stopped_preempted_reqs q')" by auto
  have t: "requests ?t = requests s" "objects ?t = objects s'"
    "queue_bag (waiting ?t) = filter_mset (\<lambda>x. x \<notin> set (stopped_preempted_reqs q')) (queue_bag (waiting s'))"
    "set (running ?t) \<subseteq> set (running s)"
    using ne(1) q by (auto simp: remove_stopped_def remove_all_items_def Let_def dest: subsetD [OF set_remove1_subset] split: if_splits)
  show ?thesis using twice t q assms(4,6) ne(2)
    by (auto simp: unfinished_def is_finished_def status_is_finished_def Let_def)
qed

theorem stopped_preempted_session_is_lost_witness:
  "\<exists>s s' q'. stop_request demo_settings demo_services 0 ''a'' PREEMPTED s new_output_plan
       = Inr (s', q', Some REASON_STOP, None, None)
     \<and> unfinished (remove_stopped s' q') ''a'' \<and> ''a'' \<notin># queue_bag (waiting (remove_stopped s' q'))"
proof -
  let ?r = "(demo_text ''a'' [1, 2, 3])\<lparr>resumable := True, streaming_queue := Some [], status := FINISHED_STOPPED\<rparr>"
  have "(case demo_waiting of Inl _ \<Rightarrow> False | Inr s \<Rightarrow> requests s = [''a'', ''b''] \<and> running s = []
    \<and> waiting s = FCFSRequestQueue [''a'', ''b''])" by code_simp
  then obtain s0 :: "unit Scheduler" where s0: "requests s0 = [''a'', ''b'']" "running s0 = []" "waiting s0 = FCFSRequestQueue [''a'', ''b'']"
    by (auto split: sum.splits)
  define s where "s = modify_request ''a'' (\<lambda>_. ?r) s0"
  have s: "objects s ''a'' = ?r" "requests s = [''a'', ''b'']" "running s = []" "waiting s = FCFSRequestQueue [''a'', ''b'']"
    by (simp_all add: s_def s0)
  have h: "resumable (objects s ''a'')" "streaming_queue (objects s ''a'') = None \<or> streaming_queue (objects s ''a'') = Some []"
    "''a'' \<in> set (requests s)" "PREEMPTED \<noteq> RUNNING" "''a'' \<notin> set (running s)" "''a'' \<in># queue_bag (waiting s)"
    by (simp_all add: s)
  let ?q = "new_output_plan"
  obtain s' q' where run: "stop_request demo_settings demo_services 0 ''a'' PREEMPTED s ?q = Inr (s', q', Some REASON_STOP, None, None)"
    using s(1) by (auto simp: stop_request_def get_routed_experts_def demo_settings_def handle_stopped_request_def Let_def)
  from stopped_preempted_session_is_lost [OF run h] run show ?thesis by (auto simp: Let_def)
qed

text \<open>
  A prompt that fills the context and is computed in one step breaks asynchronous scheduling. While its first
  output token is still pending, the cap by \<^verbatim>\<open>max_model_len - 1\<close> makes the share negative; the test
  \<^verbatim>\<open>num_new_tokens == 0\<close> does not catch this, so the request is scheduled with -1 tokens, the
  token budget grows, and \<^verbatim>\<open>update_from_output\<close> raises an AssertionError for this entry.
\<close>

theorem pending_full_prompt_gets_negative_share:
  assumes "index_py (running s) i = Inr rid" and "r = objects s rid" and "mm_features r = []" and "spec_token_ids r = []"
    and "\<not> need_mamba_block_aligned_split cfg" and "0 < token_budget p" and "num_output_placeholders r = 1" and "1 < max_tokens r"
    and "num_prompt_tokens r = model_len cfg" and "num_tokens r = model_len cfg" and "num_computed_tokens r = model_len cfg"
    and "allocate_slots (use_int_hashes cfg) r (-1) 0 None (num_lookahead_tokens cfg) 0 False 0 (kv_cache_manager s) = Inr (k, Some b)"
  shows "\<exists>s' p'. schedule_running_one cfg sv now s p i = Inr (s', p', i + 1, True)
    \<and> map_of (num_scheduled_tokens p') rid = Some (-1) \<and> token_budget p' = token_budget p + 1
    \<and> process_output cfg sv now out mo failed (rid, -1) x = Inl AssertionError"
proof -
  have n: "running_request_tokens cfg (token_budget p) r = -1"
    using assms(4,6,7,10,11) by (auto simp: running_request_tokens_def cap_prefill_def num_tokens_with_spec_def num_tokens_def)
  have "\<not> has_encoder_inputs r" using assms(3) by (simp add: has_encoder_inputs_def num_encoder_inputs_def)
  then have plan: "running_encoder_plan cfg sv s p r = Inr (encoder_cache_manager s, no_encoder_plan (-1) (encoder_compute_budget p))"
    using n by (simp add: running_encoder_plan_def)
  have split: "running_split cfg r (no_encoder_plan (-1) (encoder_compute_budget p)) = Inr (-1)"
    using assms(5) by (simp add: running_split_def no_encoder_plan_def)
  have going: "\<not> output_is_pending_end r" using assms(7-11) by (simp add: output_is_pending_end_def)
  have loop: "preempt_loop cfg now rid (-1) s p i = Inr (s\<lparr>kv_cache_manager := k\<rparr>, p, i, Some b)"
    using assms(2,12) by (subst preempt_loop.simps) simp
  have none: "scheduled_spec_tokens (-1) r = None" using assms(4) by (simp add: scheduled_spec_tokens_def)
  let ?ep = "no_encoder_plan (-1) (encoder_compute_budget p)"
  let ?p = "p\<lparr>scheduled_running_reqs := scheduled_running_reqs p @ [rid],
    req_to_new_blocks := AList.update rid b (req_to_new_blocks p),
    num_scheduled_tokens := AList.update rid (-1) (num_scheduled_tokens p), token_budget := token_budget p - (-1)\<rparr>"
  let ?s = "modify_request rid (\<lambda>r. r\<lparr>spec_token_ids := []\<rparr>) (s\<lparr>kv_cache_manager := k\<rparr>)"
  have enter: "enter_encoder_inputs sv rid ?ep ?s ?p = Inr (?s\<lparr>encoder_cache_manager := encoder_cache_manager ?s,
      external := external ?s\<rparr>, ?p)"
    by (simp add: enter_encoder_inputs_def no_encoder_plan_def split: option.split)
  have "commit_running sv rid (-1) ?ep b (s\<lparr>kv_cache_manager := k\<rparr>) p i
      = Inr (?s\<lparr>encoder_cache_manager := encoder_cache_manager ?s, external := external ?s\<rparr>, ?p, i + 1, True)"
    using none assms(2) enter by (simp add: commit_running_def Let_def)
  then have "schedule_running_one cfg sv now s p i
      = Inr (?s\<lparr>encoder_cache_manager := encoder_cache_manager ?s, external := external ?s\<rparr>, ?p, i + 1, True)"
    using assms(1) going plan split loop by (simp add: schedule_running_one_def assms(2) [symmetric])
  moreover have "process_output cfg sv now out mo failed (rid, -1) x = Inl AssertionError"
    by (cases x) (simp add: process_output_def)
  moreover have "map_of (num_scheduled_tokens ?p) rid = Some (-1) \<and> token_budget ?p = token_budget p + 1"
    by (simp add: update_conv')
  ultimately show ?thesis by blast
qed

text \<open>The small scheduler with a request of four tokens, the length of the context,
  after a step that has computed them all.\<close>

theorem pending_full_prompt_gets_negative_share_witness:
  "\<exists>(s :: unit Scheduler) s' p'. running s = [''a''] \<and> num_computed_tokens (objects s ''a'') = 4
     \<and> schedule_running_one (demo_settings\<lparr>model_len := 4\<rparr>) demo_services 0 s (new_plan (demo_settings\<lparr>model_len := 4\<rparr>)) 0 = Inr (s', p', 1, True)
     \<and> map_of (num_scheduled_tokens p') ''a'' = Some (-1)"
proof -
  let ?cfg = "demo_settings\<lparr>model_len := 4\<rparr>"
  let ?r = "(demo_text ''a'' [1, 2, 3, 4])\<lparr>status := RUNNING, num_output_placeholders := 1\<rparr>"
  have "(case demo_waiting of Inl _ \<Rightarrow> False | Inr s \<Rightarrow>
    (case allocate_slots False (?r\<lparr>num_output_placeholders := 0\<rparr>) 4 0 None 0 0 False 0 (kv_cache_manager s) of
       Inr (k, Some b) \<Rightarrow> (case allocate_slots False (?r\<lparr>num_computed_tokens := 4\<rparr>) (-1) 0 None 0 0 False 0 k of
           Inr (k', Some b') \<Rightarrow> True | _ \<Rightarrow> False)
     | _ \<Rightarrow> False))" by code_simp
  then obtain s0 :: "unit Scheduler" and k k' b' where k: "allocate_slots False (?r\<lparr>num_computed_tokens := 4\<rparr>) (-1) 0 None 0 0 False 0 k = Inr (k', Some b')"
    by (auto split: sum.splits option.splits)
  define s where "s = modify_request ''a'' (\<lambda>_. ?r\<lparr>num_computed_tokens := 4\<rparr>) (s0\<lparr>running := [''a''], kv_cache_manager := k\<rparr>)"
  let ?q = "?r\<lparr>num_computed_tokens := 4\<rparr>"
  have s: "index_py (running s) 0 = Inr ''a''" "?q = objects s ''a''" "mm_features ?q = []" "spec_token_ids ?q = []"
    "\<not> need_mamba_block_aligned_split ?cfg" "0 < token_budget (new_plan ?cfg)" "num_output_placeholders ?q = 1" "1 < max_tokens ?q"
    "num_prompt_tokens ?q = model_len ?cfg" "num_tokens ?q = model_len ?cfg" "num_computed_tokens ?q = model_len ?cfg"
    by (simp_all add: s_def index_py_def demo_text_def demo_request_def num_tokens_def demo_settings_def
        need_mamba_block_aligned_split_def new_plan_def)
  have a: "allocate_slots (use_int_hashes ?cfg) ?q (-1) 0 None (num_lookahead_tokens ?cfg) 0 False 0 (kv_cache_manager s)
      = Inr (k', Some b')"
    using k by (simp add: s_def demo_settings_def num_lookahead_tokens_def)
  have "running s = [''a'']" "num_computed_tokens (objects s ''a'') = 4" by (simp_all add: s_def)
  with pending_full_prompt_gets_negative_share [OF s a, of demo_services 0] show ?thesis by (metis add_0)
qed

end
