(* ===== verification/Detokenizer.thy ===== *)
theory Detokenizer
  imports Requests
begin

section \<open>Incremental detokenization and stop strings\<close>

text \<open>
  \<^verbatim>\<open>v1/engine/detokenizer.py\<close> and \<^verbatim>\<open>tokenizers/detokenizer_utils.py\<close>: the output tokens of a request
  become text token by token; the text is searched for stop strings, cut there, and handed out in pieces. The
  tokenizer is third-party code: what is called of it is a record of functions, \<open>tokenizer_api\<close>.
  \<open>'s\<close> is the state of its \<^verbatim>\<open>DecodeStream\<close>. A Python \<open>str\<close> is its list of code points.
\<close>

type_synonym py_str = "int list"

definition replacement_char :: int where
  "replacement_char = 0xFFFD"

definition ends_with_replacement :: "py_str \<Rightarrow> bool" where
  "ends_with_replacement t \<longleftrightarrow> t \<noteq> [] \<and> last t = replacement_char"

subsection \<open>What the code asks of a tokenizer\<close>

text \<open>
  \<^verbatim>\<open>DecodeStream.step\<close> may raise; of the other exceptions only those with the message of
  \<^verbatim>\<open>INVALID_PREFIX_ERR_MSG\<close> are distinguished, which is the argument of \<open>StreamException\<close>.
\<close>

datatype stream_error = StreamOverflow | StreamTypeError | StreamException bool

fun raised :: "stream_error \<Rightarrow> py_error" where
  "raised StreamOverflow = OverflowError"
| "raised StreamTypeError = TypeError"
| "raised (StreamException invalid_prefix) = OtherException"

record 's tokenizer_api =
  decode_stream :: "bool \<Rightarrow> 's"
  stream_step :: "'s \<Rightarrow> int \<Rightarrow> 's \<times> (stream_error + py_str option)"
  tokenizer_decode :: "int list \<Rightarrow> py_str"
  added_tokens_decoder :: "(int \<times> py_str) list"
  convert_ids_to_tokens :: "int list \<Rightarrow> bool \<Rightarrow> py_str option list"
  convert_tokens_to_string :: "py_str list \<Rightarrow> py_str"
  added_vocab :: "py_str list"
  all_special_tokens :: "py_str list"
  is_fast :: bool
  is_pretrained_fast :: bool
  vocab_size :: int

subsection \<open>Decoding with the token strings\<close>

definition replace_none_with_empty :: "py_str option list \<Rightarrow> py_str list" where
  "replace_none_with_empty = map (\<lambda>t. case t of None \<Rightarrow> [] | Some t \<Rightarrow> t)"

text \<open>The loop of \<^verbatim>\<open>_convert_tokens_to_string_with_added_encoders\<close>: runs of ordinary tokens are joined by the
  tokenizer, added tokens stand for themselves.\<close>

fun sub_texts :: "'s tokenizer_api \<Rightarrow> bool \<Rightarrow> py_str list \<Rightarrow> py_str list \<Rightarrow> py_str list" where
  "sub_texts tk skip cur [] = (if cur = [] then [] else [convert_tokens_to_string tk cur])"
| "sub_texts tk skip cur (t # ts) =
     (if skip \<and> t \<in> set (all_special_tokens tk) then sub_texts tk skip cur ts
      else if t \<in> set (added_vocab tk) then
        (if cur = [] then [] else [convert_tokens_to_string tk cur]) @ t # sub_texts tk skip [] ts
      else sub_texts tk skip (cur @ [t]) ts)"

fun join_str :: "py_str \<Rightarrow> py_str list \<Rightarrow> py_str" where
  "join_str sep [] = []"
| "join_str sep [t] = t"
| "join_str sep (t # u # ts) = t @ sep @ join_str sep (u # ts)"

definition convert_with_added_encoders :: "'s tokenizer_api \<Rightarrow> py_str list \<Rightarrow> bool \<Rightarrow> bool \<Rightarrow> py_str" where
  "convert_with_added_encoders tk toks skip spaces =
     join_str (if spaces then [32] else []) (sub_texts tk skip [] toks)"

definition initial_offset :: int where
  "initial_offset = 5"

definition convert_prompt_ids_to_tokens ::
    "'s tokenizer_api \<Rightarrow> int list \<Rightarrow> bool \<Rightarrow> py_str list \<times> int \<times> int" where
  "convert_prompt_ids_to_tokens tk prompt_ids skip =
     (let new_tokens = convert_ids_to_tokens tk (slice_from prompt_ids (- initial_offset - 2)) skip;
          read_offset = int (length new_tokens)
      in (replace_none_with_empty new_tokens, max (read_offset - initial_offset) 0, read_offset))"

text \<open>The two texts whose difference is the new text.\<close>

definition tokens_text :: "'s tokenizer_api \<Rightarrow> bool \<Rightarrow> bool \<Rightarrow> py_str list \<Rightarrow> py_str" where
  "tokens_text tk skip spaces toks =
     (if is_fast tk \<or> added_vocab tk = [] then convert_tokens_to_string tk toks
      else convert_with_added_encoders tk toks skip spaces)"

definition detokenize_incrementally ::
    "'s tokenizer_api \<Rightarrow> int list \<Rightarrow> py_str list option \<Rightarrow> int \<Rightarrow> int \<Rightarrow> bool \<Rightarrow> bool
     \<Rightarrow> (py_str list \<times> py_str \<times> int \<times> int) result" where
  "detokenize_incrementally tk all_input_ids prev_tokens prefix_offset read_offset skip spaces =
     bindE (index_py all_input_ids (-1)) (\<lambda>new_token_id.
     let (prev, prefix_offset, read_offset) =
           (case prev_tokens of
              None \<Rightarrow> convert_prompt_ids_to_tokens tk (slice all_input_ids 0 (-1)) skip
            | Some ts \<Rightarrow> (ts, prefix_offset, read_offset));
         new_tokens =
           (if 0 \<le> new_token_id \<and> new_token_id < vocab_size tk
            then replace_none_with_empty (convert_ids_to_tokens tk [new_token_id] skip) else [[]]);
         output_tokens = prev @ new_tokens;
         new_tokens = (if prev_tokens = None then output_tokens else new_tokens);
         prefix_text = tokens_text tk skip spaces (slice output_tokens prefix_offset read_offset);
         new_text = tokens_text tk skip spaces (slice_from output_tokens prefix_offset)
     in if length new_text \<le> length prefix_text \<or> ends_with_replacement new_text
        then Inr (new_tokens, [], prefix_offset, read_offset)
        else Inr (new_tokens, drop (length prefix_text) new_text, read_offset, int (length output_tokens)))"

definition convert_ids_list_to_tokens :: "'s tokenizer_api \<Rightarrow> int list \<Rightarrow> py_str list" where
  "convert_ids_list_to_tokens tk ids = map (\<lambda>i. tokenizer_decode tk [i]) ids"

subsection \<open>Decoding with a stream\<close>

record 's fast_state =
  stream :: 's
  fast_skip_special :: bool
  fast_spaces_between :: bool
  last_special :: bool
  added_token_ids :: "(int \<times> py_str) list"

definition protected_step ::
    "'s tokenizer_api \<Rightarrow> bool \<Rightarrow> 's \<Rightarrow> int \<Rightarrow> ('s \<times> py_str option) result" where
  "protected_step tk skip st tid = (case stream_step tk st tid of
     (st, Inr tok) \<Rightarrow> Inr (st, tok)
   | (st, Inl StreamOverflow) \<Rightarrow> Inr (st, None)
   | (st, Inl StreamTypeError) \<Rightarrow> Inr (st, None)
   | (st, Inl (StreamException invalid_prefix)) \<Rightarrow>
       if \<not> invalid_prefix then Inl OtherException
       else (case stream_step tk (decode_stream tk skip) tid of
               (st, Inr tok) \<Rightarrow> Inr (st, tok)
             | (st, Inl e) \<Rightarrow> Inl (raised e)))"

definition safe_prompt_suffix :: "'s tokenizer_api \<Rightarrow> int list \<Rightarrow> int list" where
  "safe_prompt_suffix tk ids =
     (if length ids > 4
      then (case find (\<lambda>i. replacement_char \<notin> set (tokenizer_decode tk (slice_from ids (- int i))))
                   [4..<min (length ids + 1) 24] of
              None \<Rightarrow> ids
            | Some i \<Rightarrow> slice_from ids (- int i))
      else ids)"

definition fast_init :: "'s tokenizer_api \<Rightarrow> bool \<Rightarrow> bool \<Rightarrow> int list option \<Rightarrow> 's fast_state result" where
  "fast_init tk skip spaces prompt =
     bindE (foldE (\<lambda>tid st. bindE (protected_step tk skip st tid) (\<lambda>(st, _). Inr st))
              (safe_prompt_suffix tk (case prompt of None \<Rightarrow> [] | Some ids \<Rightarrow> ids)) (decode_stream tk skip)) (\<lambda>st.
     let between = skip \<or> spaces in
     Inr \<lparr>stream = st, fast_skip_special = skip,
       fast_spaces_between = between \<or> added_tokens_decoder tk = [], last_special = False,
       added_token_ids = (if between then [] else added_tokens_decoder tk)\<rparr>)"

definition fast_decode_next :: "'s tokenizer_api \<Rightarrow> int \<Rightarrow> 's fast_state \<Rightarrow> ('s fast_state \<times> py_str) result" where
  "fast_decode_next tk tid f =
     bindE (protected_step tk (fast_skip_special f) (stream f) tid) (\<lambda>(st, token).
     let f = f\<lparr>stream := st\<rparr>;
         (f, token) =
           (if fast_spaces_between f then (f, token)
            else let special = map_of (added_token_ids f) tid in
              (f\<lparr>last_special := special \<noteq> None\<rparr>, if special \<noteq> None \<and> last_special f then special else token))
     in Inr (f, case token of None \<Rightarrow> [] | Some t \<Rightarrow> t))"

record slow_state =
  tokens :: "py_str list"
  prefix_offset :: int
  read_offset :: int
  slow_skip_special :: bool
  slow_spaces_between :: bool

definition slow_init :: "'s tokenizer_api \<Rightarrow> bool \<Rightarrow> bool \<Rightarrow> int list option \<Rightarrow> int \<Rightarrow> slow_state" where
  "slow_init tk skip spaces prompt prompt_len =
     (let (toks, prefix_off, read_off) = (case prompt of
            Some ids \<Rightarrow> convert_prompt_ids_to_tokens tk ids skip
          | None \<Rightarrow> (replicate (nat prompt_len) [], 0, 0))
      in \<lparr>tokens = toks, prefix_offset = prefix_off, read_offset = read_off, slow_skip_special = skip,
          slow_spaces_between = spaces\<rparr>)"

definition slow_decode_next :: "'s tokenizer_api \<Rightarrow> int list \<Rightarrow> slow_state \<Rightarrow> (slow_state \<times> py_str) result" where
  "slow_decode_next tk all_ids d =
     bindE (detokenize_incrementally tk all_ids (Some (tokens d)) (prefix_offset d) (read_offset d)
              (slow_skip_special d) (slow_spaces_between d)) (\<lambda>(new_tokens, new_text, prefix_off, read_off).
     Inr (d\<lparr>tokens := tokens d @ new_tokens, prefix_offset := prefix_off, read_offset := read_off\<rparr>, new_text))"

datatype 's decoder = Fast "'s fast_state" | Slow slow_state

fun decode_next :: "'s tokenizer_api \<Rightarrow> int list \<Rightarrow> int \<Rightarrow> 's decoder \<Rightarrow> ('s decoder \<times> py_str) result" where
  "decode_next tk all_ids tid (Fast f) = bindE (fast_decode_next tk tid f) (\<lambda>(f, t). Inr (Fast f, t))"
| "decode_next tk all_ids tid (Slow d) = bindE (slow_decode_next tk all_ids d) (\<lambda>(d, t). Inr (Slow d, t))"

subsection \<open>Stop strings\<close>

text \<open>Python's \<^verbatim>\<open>text.find(sub, start)\<close>: the first occurrence at or after \<open>start\<close>, or \<open>-1\<close>.\<close>

fun find_sub :: "'a list \<Rightarrow> 'a list \<Rightarrow> nat option" where
  "find_sub sub [] = (if sub = [] then Some 0 else None)"
| "find_sub sub (x # xs) =
     (if take (length sub) (x # xs) = sub then Some 0 else map_option Suc (find_sub sub xs))"

definition str_find :: "'a list \<Rightarrow> 'a list \<Rightarrow> int \<Rightarrow> int" where
  "str_find t sub start =
     (let i = (if start < 0 then max 0 (start + int (length t)) else start) in
      if i > int (length t) then -1
      else case find_sub sub (drop (nat i) t) of None \<Rightarrow> -1 | Some k \<Rightarrow> i + int k)"

fun first_stop :: "(py_str \<Rightarrow> int) \<Rightarrow> int \<Rightarrow> bool \<Rightarrow> py_str list \<Rightarrow> (py_str \<times> int) option" where
  "first_stop search len incl [] = None"
| "first_stop search len incl (w # ws) =
     (let i = search w in
      if i = -1 then first_stop search len incl ws
      else if incl
        then (if i + int (length w) \<ge> len then Some (w, -1) else Some (w, i + int (length w)))
        else Some (w, i))"

definition check_stop_strings :: "py_str \<Rightarrow> int \<Rightarrow> py_str list \<Rightarrow> bool \<Rightarrow> (py_str \<times> int) option" where
  "check_stop_strings t new_char_count stop incl =
     (if new_char_count = 0 \<or> stop = [] then None
      else first_stop (\<lambda>w. str_find t w (1 - new_char_count - int (length w))) (int (length t)) incl stop)"

subsection \<open>The detokenizer of a request\<close>

datatype RequestOutputKind = CUMULATIVE | DELTA | FINAL_ONLY

datatype stop_param = NoStop | OneStop py_str | StopList "py_str list"

text \<open>The sampling parameters that only the front end reads.\<close>

record OutputParams = SamplingParams +
  sp_n :: int
  seed :: "int option"
  stop_strings :: stop_param
  detokenize :: bool
  include_stop_str_in_output :: bool
  skip_special_tokens :: bool
  spaces_between_special_tokens :: bool
  output_kind :: RequestOutputKind
  sp_logprobs :: "int option"
  sp_prompt_logprobs :: "int option"
  flat_logprobs :: bool

fun stop_list :: "stop_param \<Rightarrow> py_str list" where
  "stop_list NoStop = []"
| "stop_list (OneStop w) = [w]"
| "stop_list (StopList ws) = ws"

record 's detokenizer =
  dk_token_ids :: "int list"
  dk_prompt_len :: int
  stops :: "py_str list"
  dk_min_tokens :: int
  include_stop :: bool
  stop_buffer_length :: int
  last_output_text_offset :: int
  output_text :: py_str
  dk_decoder :: "'s decoder"

definition stop_buffer :: "py_str list \<Rightarrow> bool \<Rightarrow> int" where
  "stop_buffer ws incl = (if ws \<noteq> [] \<and> \<not> incl then int (Max (set (map length ws))) - 1 else 0)"

definition base_init :: "OutputParams \<Rightarrow> 's decoder \<Rightarrow> int list \<Rightarrow> int \<Rightarrow> 's detokenizer" where
  "base_init sp dec ids prompt_len =
     (let ws = stop_list (stop_strings sp) in
      \<lparr>dk_token_ids = ids, dk_prompt_len = prompt_len, stops = ws, dk_min_tokens = min_tokens sp,
       include_stop = include_stop_str_in_output sp, stop_buffer_length = stop_buffer ws (include_stop_str_in_output sp),
       last_output_text_offset = 0, output_text = [], dk_decoder = dec\<rparr>)"

text \<open>\<^verbatim>\<open>output_token_ids\<close>: the slow detokenizer keeps the prompt in \<^verbatim>\<open>token_ids\<close>.\<close>

definition dk_output_token_ids :: "'s detokenizer \<Rightarrow> int list" where
  "dk_output_token_ids d =
     (if dk_prompt_len d = 0 then dk_token_ids d else slice_from (dk_token_ids d) (dk_prompt_len d))"

definition decode_token :: "'s tokenizer_api \<Rightarrow> int \<Rightarrow> 's detokenizer \<times> int \<Rightarrow> ('s detokenizer \<times> int) result" where
  "decode_token tk tid = (\<lambda>(d, searched).
     let d = d\<lparr>dk_token_ids := dk_token_ids d @ [tid]\<rparr> in
     bindE (decode_next tk (dk_token_ids d) tid (dk_decoder d)) (\<lambda>(dec, t).
     let d = d\<lparr>dk_decoder := dec, output_text := output_text d @ t\<rparr> in
     Inr (d, if dk_min_tokens d \<noteq> 0 \<and> int (length (dk_output_token_ids d)) \<le> dk_min_tokens d
             then int (length (output_text d)) else searched)))"

definition evaluate_stops :: "int \<Rightarrow> 's detokenizer \<Rightarrow> 's detokenizer \<times> py_str option" where
  "evaluate_stops searched d =
     (if stops d \<noteq> [] \<and> int (length (dk_output_token_ids d)) > dk_min_tokens d
      then (case check_stop_strings (output_text d) (int (length (output_text d)) - searched) (stops d) (include_stop d) of
              None \<Rightarrow> (d, None)
            | Some (w, truncate_to) \<Rightarrow>
                (if truncate_to \<noteq> -1 then d\<lparr>output_text := slice (output_text d) 0 truncate_to\<rparr> else d, Some w))
      else (d, None))"

definition update_text ::
    "'s tokenizer_api \<Rightarrow> int list \<Rightarrow> bool \<Rightarrow> 's detokenizer \<Rightarrow> ('s detokenizer \<times> py_str option) result" where
  "update_text tk new_token_ids stop_terminated d =
     (if new_token_ids = [] then Inr (d, None)
      else
        let skip = stop_terminated \<and> \<not> include_stop d;
            ids = (if skip then butlast new_token_ids else new_token_ids)
        in bindE (foldE (decode_token tk) ids (d, int (length (output_text d)))) (\<lambda>(d, searched).
           let d = (if skip then d\<lparr>dk_token_ids := dk_token_ids d @ [last new_token_ids]\<rparr> else d)
           in Inr (evaluate_stops searched d)))"

definition next_text :: "bool \<Rightarrow> bool \<Rightarrow> 's detokenizer \<Rightarrow> 's detokenizer \<times> py_str" where
  "next_text finished delta d =
     (let buffer_length = (if finished then 0 else stop_buffer_length d) in
      if \<not> delta
      then (d, if buffer_length \<noteq> 0 then slice (output_text d) 0 (- buffer_length) else output_text d)
      else
        let len = int (length (output_text d)) - buffer_length; last_offset = last_output_text_offset d in
        if last_offset < len
        then (d\<lparr>last_output_text_offset := len\<rparr>, slice (output_text d) last_offset len)
        else (d, []))"

text \<open>Without a tokenizer only the token ids are kept.\<close>

datatype 's IncrementalDetokenizer = IdsOnly "int list" | Text "'s detokenizer"

definition detokenizer_for ::
    "'s tokenizer_api option \<Rightarrow> OutputParams \<Rightarrow> int list option \<Rightarrow> bytes list option
     \<Rightarrow> 's IncrementalDetokenizer result" where
  "detokenizer_for tokenizer sp prompt embeds = (case tokenizer of
     None \<Rightarrow> Inr (IdsOnly [])
   | Some tk \<Rightarrow>
       if is_pretrained_fast tk
       then bindE (fast_init tk (skip_special_tokens sp) (spaces_between_special_tokens sp) prompt) (\<lambda>f.
            Inr (Text (base_init sp (Fast f) [] 0)))
       else bindE (length_from_prompt_token_ids_or_embeds prompt embeds) (\<lambda>n.
            let s = slow_init tk (skip_special_tokens sp) (spaces_between_special_tokens sp) prompt n;
                ids = (case prompt of Some (i # is) \<Rightarrow> i # is | _ \<Rightarrow> replicate (nat n) 0)
            in Inr (Text (base_init sp (Slow s) ids n))))"

fun detokenizer_update ::
    "'s tokenizer_api option \<Rightarrow> int list \<Rightarrow> bool \<Rightarrow> 's IncrementalDetokenizer
     \<Rightarrow> ('s IncrementalDetokenizer \<times> py_str option) result" where
  "detokenizer_update tk new_token_ids stop_terminated (IdsOnly ids) = Inr (IdsOnly (ids @ new_token_ids), None)"
| "detokenizer_update tk new_token_ids stop_terminated (Text d) =
     bindE (of_option AttributeError tk) (\<lambda>tk.
     bindE (update_text tk new_token_ids stop_terminated d) (\<lambda>(d, w). Inr (Text d, w)))"

fun detokenizer_next_text ::
    "bool \<Rightarrow> bool \<Rightarrow> 's IncrementalDetokenizer \<Rightarrow> 's IncrementalDetokenizer \<times> py_str" where
  "detokenizer_next_text finished delta (IdsOnly ids) = (IdsOnly ids, [])"
| "detokenizer_next_text finished delta (Text d) = (let (d, t) = next_text finished delta d in (Text d, t))"

fun detokenizer_token_ids :: "'s IncrementalDetokenizer \<Rightarrow> int list" where
  "detokenizer_token_ids (IdsOnly ids) = ids"
| "detokenizer_token_ids (Text d) = dk_output_token_ids d"


subsection \<open>The search for stop strings\<close>

definition occurs_at :: "'a list \<Rightarrow> 'a list \<Rightarrow> nat \<Rightarrow> bool" where
  "occurs_at w t i \<longleftrightarrow> i + length w \<le> length t \<and> take (length w) (drop i t) = w"

lemma occurs_at_Nil [simp]: "occurs_at w [] i \<longleftrightarrow> w = [] \<and> i = 0"
  by (auto simp: occurs_at_def)

lemma occurs_at_0: "occurs_at w t 0 \<longleftrightarrow> take (length w) t = w"
proof
  show "take (length w) t = w" if "occurs_at w t 0" using that by (simp add: occurs_at_def)
  show "occurs_at w t 0" if eq: "take (length w) t = w"
  proof -
    have "length w \<le> length t" using arg_cong [OF eq, of length] by (simp only: length_take min_def split: if_splits)
    with eq show ?thesis by (simp add: occurs_at_def)
  qed
qed

lemma occurs_at_Cons_Suc [simp]: "occurs_at w (x # t) (Suc i) \<longleftrightarrow> occurs_at w t i"
  by (auto simp: occurs_at_def)

lemma occurs_at_drop: "k \<le> length t \<Longrightarrow> occurs_at w (drop k t) i \<longleftrightarrow> occurs_at w t (k + i)"
  by (auto simp: occurs_at_def add.commute)

lemma occurs_at_take: "occurs_at w (take k t) i \<longleftrightarrow> occurs_at w t i \<and> i + length w \<le> k"
proof (cases "i + length w \<le> k")
  case True
  then have "take (length w) (drop i (take k t)) = take (length w) (drop i t)"
    by (simp add: drop_take min_def)
  with True show ?thesis by (auto simp: occurs_at_def)
qed (auto simp: occurs_at_def)

lemma find_sub_None: "find_sub w t = None \<longleftrightarrow> (\<forall>i. \<not> occurs_at w t i)"
proof (induction w t rule: find_sub.induct)
  case (2 w x t)
  have "(\<forall>i. \<not> occurs_at w (x # t) i) \<longleftrightarrow> \<not> occurs_at w (x # t) 0 \<and> (\<forall>i. \<not> occurs_at w t i)"
    by (metis occurs_at_Cons_Suc not0_implies_Suc)
  then show ?case using 2 by (simp add: occurs_at_0)
qed auto

lemma find_sub_Some:
  "find_sub w t = Some i \<longleftrightarrow> occurs_at w t i \<and> (\<forall>j. occurs_at w t j \<longrightarrow> i \<le> j)"
proof (induction w t arbitrary: i rule: find_sub.induct)
  case (2 w x t)
  show ?case
  proof (cases "take (length w) (x # t) = w")
    case True
    then have "occurs_at w (x # t) 0" by (simp add: occurs_at_0)
    with True show ?thesis by auto
  next
    case False
    then have no: "\<not> occurs_at w (x # t) 0" by (simp add: occurs_at_0)
    have step: "occurs_at w (x # t) j \<longleftrightarrow> (\<exists>k. j = Suc k \<and> occurs_at w t k)" for j
      using no by (cases j) auto
    have least: "(\<forall>j. occurs_at w (x # t) j \<longrightarrow> Suc k \<le> j) \<longleftrightarrow> (\<forall>j. occurs_at w t j \<longrightarrow> k \<le> j)" for k
      by (auto simp: step)
    show ?thesis
    proof (cases i)
      case 0
      with no False show ?thesis by simp
    next
      case (Suc k)
      have "find_sub w (x # t) = Some i \<longleftrightarrow> find_sub w t = Some k" using False Suc by auto
      then show ?thesis using 2 [OF False] by (simp only: Suc least occurs_at_Cons_Suc)
    qed
  qed
qed auto

lemma str_find_cases:
  obtains (none) "str_find t w start = -1"
      "\<And>i. occurs_at w t i \<Longrightarrow> int i < (if start < 0 then max 0 (start + int (length t)) else start)"
    | (found) i where "str_find t w start = int i" "occurs_at w t i"
      "(if start < 0 then max 0 (start + int (length t)) else start) \<le> int i"
      "\<And>j. occurs_at w t j \<Longrightarrow> (if start < 0 then max 0 (start + int (length t)) else start) \<le> int j \<Longrightarrow> i \<le> j"
proof -
  define lo where "lo = (if start < 0 then max 0 (start + int (length t)) else start)"
  have nonneg: "0 \<le> lo" by (simp add: lo_def)
  show ?thesis
  proof (cases "lo > int (length t)")
    case True
    then have "str_find t w start = -1" by (simp add: str_find_def lo_def)
    moreover have "int i < lo" if "occurs_at w t i" for i using that True by (auto simp: occurs_at_def)
    ultimately show ?thesis using none by (simp add: lo_def)
  next
    case False
    define k where "k = nat lo"
    have k: "int k = lo" "k \<le> length t" using nonneg False by (simp_all add: k_def)
    have val: "str_find t w start = (case find_sub w (drop k t) of None \<Rightarrow> -1 | Some i \<Rightarrow> lo + int i)"
      using False unfolding str_find_def Let_def lo_def [symmetric] k_def by simp
    show ?thesis
    proof (cases "find_sub w (drop k t)")
      case None
      then have "\<not> occurs_at w t i" if "k \<le> i" for i
        using that k(2) by (auto simp: find_sub_None occurs_at_drop dest: spec [where x = "i - k"])
      then have "int i < lo" if "occurs_at w t i" for i using that k(1) by (meson linorder_not_le of_nat_less_iff)
      with None val none show ?thesis by (simp add: lo_def)
    next
      case (Some i)
      then have "occurs_at w t (k + i)" and least: "\<And>j. occurs_at w (drop k t) j \<Longrightarrow> i \<le> j"
        using k(2) by (auto simp: find_sub_Some occurs_at_drop)
      moreover have "k + i \<le> j" if "occurs_at w t j" "lo \<le> int j" for j
        using least [of "j - k"] that k by (simp add: occurs_at_drop)
      moreover have "str_find t w start = int (k + i)" using Some val k(1) by simp
      ultimately show ?thesis using found [of "k + i"] k(1) by (simp add: lo_def)
    qed
  qed
qed

subsection \<open>Searching only the new text is enough\<close>

text \<open>A match that ends in the last \<open>n\<close> characters.\<close>

definition new_match :: "py_str \<Rightarrow> nat \<Rightarrow> py_str \<Rightarrow> nat \<Rightarrow> bool" where
  "new_match t n w i \<longleftrightarrow> occurs_at w t i \<and> length t - n < i + length w"

lemma windowed_find:
  assumes "0 < n" "n \<le> length t" "w \<noteq> []"
  shows "str_find t w (1 - int n - int (length w)) = -1 \<longleftrightarrow> (\<forall>i. \<not> new_match t n w i)"
    and "str_find t w (1 - int n - int (length w)) = int i \<longleftrightarrow> new_match t n w i \<and> (\<forall>j. new_match t n w j \<longrightarrow> i \<le> j)"
proof -
  define lo where "lo = (if 1 - int n - int (length w) < 0 then max 0 (1 - int n - int (length w) + int (length t))
      else 1 - int n - int (length w))"
  have neg: "1 - int n - int (length w) < 0" using assms by (cases w) auto
  have window: "lo \<le> int j \<longleftrightarrow> length t - n < j + length w" for j
    using neg assms(2) by (auto simp: lo_def)
  consider (none) "str_find t w (1 - int n - int (length w)) = -1" "\<And>j. \<not> new_match t n w j"
    | (found) k where "str_find t w (1 - int n - int (length w)) = int k" "new_match t n w k"
        "\<And>j. new_match t n w j \<Longrightarrow> k \<le> j"
  proof (rule str_find_cases [of t w "1 - int n - int (length w)", folded lo_def])
    assume "str_find t w (1 - int n - int (length w)) = -1" "\<And>i. occurs_at w t i \<Longrightarrow> int i < lo"
    then show ?thesis using that(1) window by (meson new_match_def not_le)
  next
    fix i
    assume "str_find t w (1 - int n - int (length w)) = int i" "occurs_at w t i" "lo \<le> int i"
      "\<And>j. occurs_at w t j \<Longrightarrow> lo \<le> int j \<Longrightarrow> i \<le> j"
    then show ?thesis using that(2) window by (meson new_match_def)
  qed
  note outcome = this
  show "str_find t w (1 - int n - int (length w)) = -1 \<longleftrightarrow> (\<forall>i. \<not> new_match t n w i)"
    using outcome by cases auto
  show "str_find t w (1 - int n - int (length w)) = int i \<longleftrightarrow> new_match t n w i \<and> (\<forall>j. new_match t n w j \<longrightarrow> i \<le> j)"
    using outcome by cases (auto intro: le_antisym)
qed

lemma full_find:
  "str_find t w 0 = -1 \<longleftrightarrow> (\<forall>i. \<not> occurs_at w t i)"
  "str_find t w 0 = int i \<longleftrightarrow> occurs_at w t i \<and> (\<forall>j. occurs_at w t j \<longrightarrow> i \<le> j)"
  by (cases rule: str_find_cases [of t w 0]; auto intro: le_antisym)+

lemma str_find_int: "str_find t w start = -1 \<or> (\<exists>i. str_find t w start = int i)"
  by (cases rule: str_find_cases [of t w start]) auto

lemma first_stop_cong:
  "(\<And>w. w \<in> set ws \<Longrightarrow> f w = g w) \<Longrightarrow> first_stop f len incl ws = first_stop g len incl ws"
  by (induction ws) (simp_all add: Let_def)

text \<open>
  C34: The search for stop strings looks only at the end of the text that can contain a match with new
  characters. It finds nothing exactly when no stop string ends in the last \<open>n\<close> characters, and if the older text holds
  no stop string, it gives the same answer as searching the whole text for each of them.
\<close>

theorem stop_string_search_correct:
  assumes "0 < n" "n \<le> length t" "\<forall>w\<in>set ws. w \<noteq> []"
  shows "(check_stop_strings t (int n) ws incl = None \<longleftrightarrow> (\<forall>w\<in>set ws. \<forall>i. \<not> new_match t n w i))
    \<and> ((\<forall>w\<in>set ws. \<forall>i. \<not> occurs_at w (take (length t - n) t) i)
      \<longrightarrow> check_stop_strings t (int n) ws incl = first_stop (\<lambda>w. str_find t w 0) (int (length t)) incl ws)"
proof (intro conjI impI)
  have eq: "check_stop_strings t (int n) ws incl
    = first_stop (\<lambda>w. str_find t w (1 - int n - int (length w))) (int (length t)) incl ws"
    using assms(1) by (cases ws) (simp_all add: check_stop_strings_def)
  have none: "first_stop f len incl ws = None \<longleftrightarrow> (\<forall>w\<in>set ws. f w = -1)" for f len
    by (induction ws) (simp_all add: Let_def)
  show "check_stop_strings t (int n) ws incl = None \<longleftrightarrow> (\<forall>w\<in>set ws. \<forall>i. \<not> new_match t n w i)"
    using assms by (simp add: eq none windowed_find(1))
  assume old: "\<forall>w\<in>set ws. \<forall>i. \<not> occurs_at w (take (length t - n) t) i"
  have "str_find t w (1 - int n - int (length w)) = str_find t w 0" if w: "w \<in> set ws" for w
  proof -
    have all: "new_match t n w i \<longleftrightarrow> occurs_at w t i" for i
      using old w by (auto simp: new_match_def occurs_at_take not_le)
    have "w \<noteq> []" using assms(3) w by simp
    note found = windowed_find [OF assms(1,2) this, unfolded all, folded full_find]
    show ?thesis using str_find_int [of t w 0] found by auto
  qed
  then show "check_stop_strings t (int n) ws incl = first_stop (\<lambda>w. str_find t w 0) (int (length t)) incl ws"
    unfolding eq by (rule first_stop_cong)
qed

subsection \<open>What is streamed\<close>

text \<open>
  A request with streamed deltas: after every batch of new tokens the text so far is handed out, all of it once
  the request ends with the last batch or with a stop string.
\<close>

fun stream_session ::
    "'s tokenizer_api \<Rightarrow> (int list \<times> bool) list \<Rightarrow> 's detokenizer \<Rightarrow> ('s detokenizer \<times> py_str list) result" where
  "stream_session tk [] d = Inr (d, [])"
| "stream_session tk ((ids, stop_terminated) # batches) d =
     bindE (update_text tk ids stop_terminated d) (\<lambda>(d, w).
     let finished = (w \<noteq> None \<or> batches = []); (d, delta) = next_text finished True d in
     if finished then Inr (d, [delta])
     else bindE (stream_session tk batches d) (\<lambda>(d, deltas). Inr (d, delta # deltas)))"

text \<open>The text that was handed out, and that a stop string found later cannot cut into it.\<close>

definition streamed :: "'s detokenizer \<Rightarrow> py_str" where
  "streamed d = take (nat (last_output_text_offset d)) (output_text d)"

definition stream_ok :: "'s detokenizer \<Rightarrow> bool" where
  "stream_ok d \<longleftrightarrow> 0 \<le> last_output_text_offset d
     \<and> (last_output_text_offset d = 0 \<or> last_output_text_offset d + stop_buffer_length d \<le> int (length (output_text d)))
     \<and> stop_buffer_length d = stop_buffer (stops d) (include_stop d) \<and> (\<forall>w\<in>set (stops d). w \<noteq> [])"

definition same_params :: "'s detokenizer \<Rightarrow> 's detokenizer \<Rightarrow> bool" where
  "same_params d d' \<longleftrightarrow> last_output_text_offset d' = last_output_text_offset d \<and> stop_buffer_length d' = stop_buffer_length d
     \<and> stops d' = stops d \<and> include_stop d' = include_stop d \<and> dk_min_tokens d' = dk_min_tokens d"

lemma decode_tokens_append:
  assumes "foldE (decode_token tk) ids (d, n) = Inr (d', n')" and "n \<le> int (length (output_text d))"
  shows "same_params d d' \<and> n \<le> n' \<and> n' \<le> int (length (output_text d'))
    \<and> (\<exists>t. output_text d' = output_text d @ t)"
proof -
  let ?P = "\<lambda>(e, m). same_params d e \<and> n \<le> m \<and> m \<le> int (length (output_text e)) \<and> (\<exists>t. output_text e = output_text d @ t)"
  have "?P (d', n')"
    by (rule foldE_invariant [OF assms(1), where P = ?P])
      (use assms(2) in \<open>auto simp: same_params_def decode_token_def Let_def bindE_Inr_iff split: if_splits prod.splits\<close>)
  then show ?thesis by simp
qed

lemma first_stop_found:
  "first_stop f len incl ws = Some (w, k) \<Longrightarrow> w \<in> set ws \<and> f w \<noteq> -1
    \<and> k = (if incl then if f w + int (length w) \<ge> len then -1 else f w + int (length w) else f w)"
  by (induction ws) (auto simp: Let_def split: if_splits)


lemma stop_buffer_bound:
  "w \<in> set ws \<Longrightarrow> \<not> incl \<Longrightarrow> int (length w) - 1 \<le> stop_buffer ws incl"
proof -
  assume w: "w \<in> set ws" and "\<not> incl"
  have "length w \<le> Max (length ` set ws)" using w by (intro Max_ge) auto
  then have "int (length w) - 1 \<le> int (Max (length ` set ws)) - 1" by simp
  then show ?thesis using w \<open>\<not> incl\<close> by (auto simp: stop_buffer_def)
qed

lemma stop_buffer_nonneg:
  assumes "\<forall>w\<in>set ws. w \<noteq> []"
  shows "0 \<le> stop_buffer ws incl"
proof (cases "ws = [] \<or> incl")
  case False
  then have "hd ws \<in> set ws" "hd ws \<noteq> []" using assms by auto
  then have "1 \<le> length (hd ws)" "int (length (hd ws)) - 1 \<le> stop_buffer ws incl"
    using stop_buffer_bound [of "hd ws" ws incl] False by (auto simp: Suc_le_eq)
  then show ?thesis by linarith
qed (auto simp: stop_buffer_def)

lemma slice_0 [simp]: "0 \<le> k \<Longrightarrow> slice xs 0 k = take (nat k) xs"
  by (simp add: slice_nonneg)

lemma evaluate_stops_cut:
  assumes "evaluate_stops n d = (d', w)" and "0 \<le> n" "n \<le> int (length (output_text d))" and "\<forall>w\<in>set (stops d). w \<noteq> []"
  shows "(w = None \<longrightarrow> d' = d) \<and> same_params d d'
    \<and> (\<exists>k. output_text d' = take k (output_text d) \<and> n \<le> int k + stop_buffer (stops d) (include_stop d))"
proof (cases w)
  case None
  then have "d' = d" using assms(1) by (auto simp: evaluate_stops_def split: if_splits option.splits)
  moreover have "n \<le> int (length (output_text d)) + stop_buffer (stops d) (include_stop d)"
    using assms(3) stop_buffer_nonneg [OF assms(4)] by (smt (verit))
  ultimately show ?thesis using None by (auto simp: same_params_def intro: exI [of _ "length (output_text d)"])
next
  case (Some u)
  define L where "L = length (output_text d)"
  define m where "m = nat (int L - n)"
  obtain k where k: "check_stop_strings (output_text d) (int L - n) (stops d) (include_stop d) = Some (u, k)"
    and d': "d' = (if k \<noteq> -1 then d\<lparr>output_text := slice (output_text d) 0 k\<rparr> else d)"
    using assms(1) Some by (auto simp: evaluate_stops_def L_def split: if_splits option.splits)
  have m: "int m = int L - n" "0 < m" "m \<le> L"
    using k assms(2,3) by (auto simp: m_def L_def check_stop_strings_def split: if_splits)
  have u: "u \<in> set (stops d)" and pos: "str_find (output_text d) u (1 - int m - int (length u)) \<noteq> -1"
    and cut: "k = (if include_stop d
        then if str_find (output_text d) u (1 - int m - int (length u)) + int (length u) \<ge> int L then -1
          else str_find (output_text d) u (1 - int m - int (length u)) + int (length u)
        else str_find (output_text d) u (1 - int m - int (length u)))"
    using first_stop_found [of "\<lambda>v. str_find (output_text d) v (1 - int m - int (length v))" "int L" "include_stop d"
        "stops d" u k] k
    unfolding check_stop_strings_def m(1) [symmetric] L_def [symmetric] by (simp_all split: if_splits)
  obtain i where i: "str_find (output_text d) u (1 - int m - int (length u)) = int i" using pos str_find_int by blast
  have "new_match (output_text d) m u i"
    using windowed_find(2) [of m "output_text d" u i] m u assms(4) i by (auto simp: L_def)
  then have "n < int i + int (length u)" using m by (auto simp: new_match_def L_def)
  moreover have "int (length u) - 1 \<le> stop_buffer (stops d) False" using stop_buffer_bound [OF u, of False] by simp
  moreover have "stop_buffer (stops d) True = 0" by (simp add: stop_buffer_def)
  ultimately have "\<exists>j. output_text d' = take j (output_text d) \<and> n \<le> int j + stop_buffer (stops d) (include_stop d)"
    using d' cut i assms(3)
    by (cases "include_stop d"; cases "k = -1")
      (auto simp: L_def intro: exI [of _ "length (output_text d)"] exI [of _ "nat k"] split: if_splits)
  moreover have "same_params d d'" using d' by (simp add: same_params_def)
  ultimately show ?thesis using Some by simp
qed

lemma update_text_streamed:
  assumes "update_text tk ids st d = Inr (d', w)" and "stream_ok d"
  shows "streamed d' = streamed d \<and> last_output_text_offset d' = last_output_text_offset d
    \<and> last_output_text_offset d \<le> int (length (output_text d')) \<and> (w = None \<longrightarrow> stream_ok d')"
proof (cases "ids = []")
  case True
  then show ?thesis using assms stop_buffer_nonneg [of "stops d" "include_stop d"] by (auto simp: update_text_def stream_ok_def)
next
  case False
  obtain d1 n d2 where run: "foldE (decode_token tk) (if st \<and> \<not> include_stop d then butlast ids else ids)
      (d, int (length (output_text d))) = Inr (d1, n)"
    and d2: "d2 = (if st \<and> \<not> include_stop d then d1\<lparr>dk_token_ids := dk_token_ids d1 @ [last ids]\<rparr> else d1)"
    and stops: "evaluate_stops n d2 = (d', w)"
    using assms(1) False by (auto simp: update_text_def Let_def split: if_splits elim!: bindE_InrE)
  obtain t where d1: "same_params d d1" "int (length (output_text d)) \<le> n" "n \<le> int (length (output_text d1))"
    "output_text d1 = output_text d @ t"
    using decode_tokens_append [OF run] by auto
  have d2': "same_params d d2" "output_text d2 = output_text d @ t" using d1 d2 by (auto simp: same_params_def)
  note ok = assms(2) [unfolded stream_ok_def]
  have nonempty: "\<forall>w\<in>set (stops d2). w \<noteq> []" using ok d2'(1) by (simp add: same_params_def)
  have n: "0 \<le> n" "n \<le> int (length (output_text d2))" using d1 d2'(2) by auto
  obtain k where cut: "w = None \<longrightarrow> d' = d2" "same_params d2 d'" "output_text d' = take k (output_text d2)"
    "n \<le> int k + stop_buffer (stops d2) (include_stop d2)"
    using evaluate_stops_cut [OF stops n nonempty] by blast
  have off: "last_output_text_offset d' = last_output_text_offset d" "0 \<le> last_output_text_offset d"
    using d2'(1) cut(2) ok by (auto simp: same_params_def)
  have buf: "0 \<le> stop_buffer_length d" "stop_buffer (stops d2) (include_stop d2) = stop_buffer_length d"
    using stop_buffer_nonneg [of "stops d" "include_stop d"] ok d2'(1) by (auto simp: same_params_def)
  have le: "last_output_text_offset d \<le> int k" "last_output_text_offset d \<le> int (length (output_text d))"
    using ok cut(4) d1(2) buf by auto
  have "streamed d' = streamed d" using le off cut(3) d2'(2) by (auto simp: streamed_def min_def)
  moreover have "last_output_text_offset d \<le> int (length (output_text d'))"
    using le cut(3) d2'(2) by simp
  moreover have "stream_ok d'" if "w = None"
    using that cut(1) ok d2' by (auto simp: stream_ok_def same_params_def)
  ultimately show ?thesis using off(1) by blast
qed

lemma update_text_params: "update_text tk ids st d = Inr (d', w) \<Longrightarrow> same_params d d'"
proof (cases "ids = []")
  case False
  assume "update_text tk ids st d = Inr (d', w)"
  then obtain d1 n where run: "foldE (decode_token tk) (if st \<and> \<not> include_stop d then butlast ids else ids)
      (d, int (length (output_text d))) = Inr (d1, n)"
    and stops: "evaluate_stops n (if st \<and> \<not> include_stop d then d1\<lparr>dk_token_ids := dk_token_ids d1 @ [last ids]\<rparr> else d1)
      = (d', w)"
    using False by (auto simp: update_text_def Let_def split: if_splits elim!: bindE_InrE)
  from decode_tokens_append [OF run] have "same_params d d1" by simp
  with stops show ?thesis by (auto simp: evaluate_stops_def same_params_def split: if_splits option.splits)
qed (auto simp: update_text_def same_params_def)

lemma next_text_streamed:
  assumes "next_text finished True d = (d', delta)" and "0 \<le> last_output_text_offset d"
    and "last_output_text_offset d \<le> int (length (output_text d))" and "0 \<le> stop_buffer_length d"
  shows "streamed d' = streamed d @ delta \<and> output_text d' = output_text d
    \<and> (finished \<longrightarrow> streamed d' = output_text d') \<and> (\<not> finished \<and> stream_ok d \<longrightarrow> stream_ok d')"
proof -
  define b where "b = int (length (output_text d)) - (if finished then 0 else stop_buffer_length d)"
  define a where "a = last_output_text_offset d"
  have split: "take (nat b) xs = take (nat a) xs @ drop (nat a) (take (nat b) xs)" if "a < b" for xs :: py_str
    using that by (metis append_take_drop_id min.absorb1 nat_mono less_imp_le take_take)
  have step: "if a < b then d' = d\<lparr>last_output_text_offset := b\<rparr> \<and> delta = drop (nat a) (take (nat b) (output_text d))
      else d' = d \<and> delta = []"
    using assms(1,2) by (auto simp: next_text_def Let_def a_def b_def slice_nonneg split: if_splits)
  have same: "output_text d' = output_text d" and grow: "streamed d' = streamed d @ delta"
    using step split [of "output_text d"] by (auto simp: streamed_def a_def split: if_splits)
  moreover have "streamed d' = output_text d'" if "finished"
    using that step assms(3) by (auto simp: streamed_def a_def b_def split: if_splits)
  moreover have "stream_ok d'" if "\<not> finished" "stream_ok d"
    using that step assms(2) by (cases "a < b") (auto simp: stream_ok_def a_def b_def)
  ultimately show ?thesis by blast
qed

lemma stream_session_text:
  assumes "stream_session tk batches d = Inr (d', deltas)" and "batches \<noteq> []" and "stream_ok d"
  shows "output_text d' = streamed d @ concat deltas"
  using assms
proof (induction tk batches d arbitrary: d' deltas rule: stream_session.induct)
  case (2 tk ids st batches d)
  obtain d1 w where upd: "update_text tk ids st d = Inr (d1, w)" using "2.prems"(1) by (auto elim!: bindE_InrE)
  note s1 = update_text_streamed [OF upd "2.prems"(3)]
  define finished where "finished \<longleftrightarrow> w \<noteq> None \<or> batches = []"
  obtain d2 delta where nxt: "next_text finished True d1 = (d2, delta)" by (cases "next_text finished True d1")
  have pre: "0 \<le> last_output_text_offset d1" "last_output_text_offset d1 \<le> int (length (output_text d1))"
    using s1 "2.prems"(3) by (auto simp: stream_ok_def)
  have buf: "0 \<le> stop_buffer_length d1"
    using update_text_params [OF upd] "2.prems"(3) stop_buffer_nonneg [of "stops d" "include_stop d"]
    by (auto simp: stream_ok_def same_params_def)
  note s2 = next_text_streamed [OF nxt pre buf]
  have body: "(if finished then Inr (d2, [delta])
      else bindE (stream_session tk batches d2) (\<lambda>(d, deltas). Inr (d, delta # deltas))) = Inr (d', deltas)"
    using "2.prems"(1) nxt by (simp add: upd finished_def Let_def del: not_None_eq)
  show ?case
  proof (cases finished)
    case True
    then have "d' = d2" "deltas = [delta]"
      using body by simp_all
    moreover have "output_text d2 = streamed d @ delta" using s1 s2 True by metis
    ultimately show ?thesis by simp
  next
    case False
    then obtain rest where rest: "stream_session tk batches d2 = Inr (d', rest)" "deltas = delta # rest"
      using body by (auto elim!: bindE_InrE)
    have "output_text d' = streamed d2 @ concat rest"
      by (rule "2.IH" [OF refl refl nxt [symmetric, unfolded finished_def] _ rest(1)])
        (use False s1 s2 in \<open>auto simp: finished_def\<close>)
    then show ?thesis using rest(2) s1 s2 by simp
  qed
qed simp

text \<open>
  C12: The deltas streamed for a request, put together, are its final text, cut at the stop string: no
  character is handed out that a stop string found later removes, and none is missing or repeated. A client
  that asks for the whole text gets the same.
\<close>

theorem streamed_text_correct:
  assumes "stream_session tk batches (base_init sp dec ids prompt_len) = Inr (d, deltas)"
    and "batches \<noteq> []" and "[] \<notin> set (stop_list (stop_strings sp))"
  shows "concat deltas = output_text d \<and> snd (next_text True False d) = concat deltas"
proof -
  have "stream_ok (base_init sp dec ids prompt_len)" "streamed (base_init sp dec ids prompt_len) = []"
    using assms(3) by (auto simp: stream_ok_def base_init_def streamed_def Let_def)
  with stream_session_text [OF assms(1,2)] show ?thesis by (simp add: next_text_def)
qed

definition char_tokenizer :: "unit tokenizer_api" where
  "char_tokenizer = \<lparr>decode_stream = (\<lambda>_. ()), stream_step = (\<lambda>_ i. ((), Inr (Some [i]))),
     tokenizer_decode = id, added_tokens_decoder = [], convert_ids_to_tokens = (\<lambda>is _. map (\<lambda>i. Some [i]) is),
     convert_tokens_to_string = concat, added_vocab = [], all_special_tokens = [], is_fast = True,
     is_pretrained_fast = True, vocab_size = 70000\<rparr>"

definition demo_params :: "py_str list \<Rightarrow> OutputParams" where
  "demo_params ws = \<lparr>sp_max_tokens = None, min_tokens = 0, ignore_eos = False, stop_token_ids = [],
     structured_outputs = False, sp_skip_reading_prefix_cache = None, sp_n = 1, seed = None, stop_strings = StopList ws,
     detokenize = True, include_stop_str_in_output = False, skip_special_tokens = True,
     spaces_between_special_tokens = True, output_kind = DELTA, sp_logprobs = None, sp_prompt_logprobs = None,
     flat_logprobs = False\<rparr>"

definition demo_fast :: "unit fast_state" where
  "demo_fast = \<lparr>stream = (), fast_skip_special = True, fast_spaces_between = True, last_special = False,
     added_token_ids = []\<rparr>"

theorem streamed_text_correct_witness:
  "\<exists>d. stream_session char_tokenizer [([97, 98], False), ([99], False), ([100, 101], False)]
      (base_init (demo_params [[99, 100]]) (Fast demo_fast) [] 0) = Inr (d, [[97], [98], []]) \<and> output_text d = [97, 98]"
proof -
  have run: "(case stream_session char_tokenizer [([97, 98], False), ([99], False), ([100, 101], False)]
      (base_init (demo_params [[99, 100]]) (Fast demo_fast) [] 0) of
      Inl _ \<Rightarrow> False | Inr (d, deltas) \<Rightarrow> deltas = [[97], [98], []])"
    by code_simp
  then obtain d where d: "stream_session char_tokenizer [([97, 98], False), ([99], False), ([100, 101], False)]
      (base_init (demo_params [[99, 100]]) (Fast demo_fast) [] 0) = Inr (d, [[97], [98], []])"
    by (auto split: sum.splits prod.splits)
  from streamed_text_correct [OF this] have "output_text d = [97, 98]" by (simp add: demo_params_def)
  with d show ?thesis by blast
qed

theorem stop_string_search_correct_witness:
  "check_stop_strings [97, 98, 99, 100] (int 2) [[120], [98, 99]] False
    = first_stop (\<lambda>w. str_find [97, 98, 99, 100] w 0) 4 False [[120], [98, 99]]
    \<and> check_stop_strings [97, 98, 99, 100] (int 2) [[120], [98, 99]] False = Some ([98, 99], 1)"
proof -
  have old: "\<forall>w\<in>set [[120], [98, 99]]. \<forall>i. \<not> occurs_at w (take (length [97, 98, 99, 100] - 2) [97, 98, 99, 100 :: int]) i"
    by (simp flip: find_sub_None)
  have "check_stop_strings [97, 98, 99, 100] (int 2) [[120], [98, 99]] False
    = first_stop (\<lambda>w. str_find [97, 98, 99, 100] w 0) (int (length [97, 98, 99, 100 :: int])) False [[120], [98, 99]]"
    using stop_string_search_correct [of 2 "[97, 98, 99, 100]" "[[120], [98, 99]]" False] old by simp
  moreover have "first_stop (\<lambda>w. str_find [97, 98, 99, 100] w 0) 4 False [[120], [98, 99]] = Some ([98, 99], 1)"
    by code_simp
  ultimately show ?thesis by simp
qed


subsection \<open>Token by token and all at once\<close>

text \<open>Decoding a list of tokens with the slow detokenizer.\<close>

fun slow_session :: "'s tokenizer_api \<Rightarrow> int list \<Rightarrow> int list \<Rightarrow> slow_state \<Rightarrow> (slow_state \<times> py_str) result" where
  "slow_session tk all_ids [] d = Inr (d, [])"
| "slow_session tk all_ids (t # ts) d =
     bindE (slow_decode_next tk (all_ids @ [t]) d) (\<lambda>(d, piece).
     bindE (slow_session tk (all_ids @ [t]) ts d) (\<lambda>(d, rest). Inr (d, piece @ rest)))"

definition slow_ok :: "slow_state \<Rightarrow> bool" where
  "slow_ok d \<longleftrightarrow> 0 \<le> prefix_offset d \<and> prefix_offset d \<le> read_offset d \<and> read_offset d \<le> int (length (tokens d))"

text \<open>
  What a list of token ids stands for: the tokenizer's strings for each id of the vocabulary, the empty
  string where it has none and for an id outside the vocabulary.
\<close>

fun id_strings :: "'s tokenizer_api \<Rightarrow> bool \<Rightarrow> int list \<Rightarrow> py_str list" where
  "id_strings tk skip [] = []"
| "id_strings tk skip (t # ts) =
     (if t < 0 \<or> vocab_size tk \<le> t then [[]]
      else map (\<lambda>s. case s of Some w \<Rightarrow> w | None \<Rightarrow> []) (convert_ids_to_tokens tk [t] skip))
     @ id_strings tk skip ts"

text \<open>What has been decoded but not handed out.\<close>

definition held_back :: "'s tokenizer_api \<Rightarrow> slow_state \<Rightarrow> py_str" where
  "held_back tk d = tokens_text tk (slow_skip_special d) (slow_spaces_between d) (drop (nat (read_offset d)) (tokens d))"

lemma slow_init_ok: "0 \<le> n \<Longrightarrow> slow_ok (slow_init tk skip spaces prompt n)"
  by (cases prompt)
    (simp_all add: slow_ok_def slow_init_def convert_prompt_ids_to_tokens_def initial_offset_def Let_def
      replace_none_with_empty_def)

lemma id_strings_single:
  "id_strings tk skip [t] = (if 0 \<le> t \<and> t < vocab_size tk
    then replace_none_with_empty (convert_ids_to_tokens tk [t] skip) else [[]])"
  by (simp add: replace_none_with_empty_def not_less not_le)

lemma detokenize_incrementally_next:
  "detokenize_incrementally tk (ids @ [t]) (Some prev) p q skip spaces =
    (let new = id_strings tk skip [t];
         prefix_text = tokens_text tk skip spaces (slice (prev @ new) p q);
         new_text = tokens_text tk skip spaces (slice_from (prev @ new) p)
     in if length new_text \<le> length prefix_text \<or> ends_with_replacement new_text
        then Inr (new, [], p, q)
        else Inr (new, drop (length prefix_text) new_text, q, int (length (prev @ new))))"
  unfolding detokenize_incrementally_def id_strings_single by (simp add: index_last Let_def)

lemma slow_step:
  assumes "slow_decode_next tk (ids @ [t]) d = Inr (d', piece)" and "slow_ok d"
    and join: "\<And>xs ys. tokens_text tk (slow_skip_special d) (slow_spaces_between d) (xs @ ys)
      = tokens_text tk (slow_skip_special d) (slow_spaces_between d) xs
        @ tokens_text tk (slow_skip_special d) (slow_spaces_between d) ys"
  shows "slow_ok d' \<and> slow_skip_special d' = slow_skip_special d \<and> slow_spaces_between d' = slow_spaces_between d
    \<and> tokens d' = tokens d @ id_strings tk (slow_skip_special d) [t]
    \<and> piece @ held_back tk d' = held_back tk d
        @ tokens_text tk (slow_skip_special d) (slow_spaces_between d) (id_strings tk (slow_skip_special d) [t])
    \<and> (held_back tk d' = [] \<or> ends_with_replacement (held_back tk d'))"
proof -
  define text_of where "text_of = tokens_text tk (slow_skip_special d) (slow_spaces_between d)"
  define p where "p = nat (prefix_offset d)"
  define q where "q = nat (read_offset d)"
  have pq: "p \<le> q" "q \<le> length (tokens d)" "prefix_offset d = int p" "read_offset d = int q"
    using assms(2) by (auto simp: slow_ok_def p_def q_def)
  have joined: "text_of (xs @ ys) = text_of xs @ text_of ys" for xs ys using join by (simp add: text_of_def)
  have empty: "text_of [] = []" using joined [of "[]" "[]"] by simp
  define new where "new = id_strings tk (slow_skip_special d) [t]"
  have d': "tokens d' = tokens d @ new" "slow_skip_special d' = slow_skip_special d"
      "slow_spaces_between d' = slow_spaces_between d"
    and out: "(if length (text_of (drop p (tokens d @ new))) \<le> length (text_of (drop p (take q (tokens d @ new))))
          \<or> ends_with_replacement (text_of (drop p (tokens d @ new)))
        then prefix_offset d' = int p \<and> read_offset d' = int q \<and> piece = []
        else prefix_offset d' = int q \<and> read_offset d' = int (length (tokens d @ new))
          \<and> piece = drop (length (text_of (drop p (take q (tokens d @ new))))) (text_of (drop p (tokens d @ new))))"
    using assms(1) pq(3,4)
    unfolding slow_decode_next_def detokenize_incrementally_next new_def [symmetric]
    by (auto simp: Let_def slice_nonneg slice_from_nonneg text_of_def elim!: bindE_InrE split: if_splits)
  have split: "drop p (tokens d @ new) = drop p (take q (tokens d @ new)) @ drop q (tokens d @ new)"
  proof -
    have "drop p (take q xs @ drop q xs) = drop p (take q xs) @ drop q xs" if "q \<le> length xs" for xs :: "py_str list"
      using pq(1) that by (subst drop_append) (simp add: min_absorb2)
    from this [of "tokens d @ new"] show ?thesis using pq(2) by (simp only: append_take_drop_id length_append)
  qed
  have whole: "text_of (drop p (tokens d @ new))
      = text_of (drop p (take q (tokens d @ new))) @ text_of (drop q (tokens d @ new))"
    by (subst split) (rule joined)
  have tail: "text_of (drop q (tokens d @ new)) = held_back tk d @ text_of new"
    using pq(2) joined by (simp add: held_back_def text_of_def q_def)
  have tail': "text_of (drop q (tokens d) @ new) = held_back tk d @ text_of new" using tail pq(2) by simp
  have held: "held_back tk d' = text_of (drop (nat (read_offset d')) (tokens d @ new))"
    using d' by (simp add: held_back_def text_of_def)
  have "slow_ok d' \<and> piece @ held_back tk d' = held_back tk d @ text_of new
    \<and> (held_back tk d' = [] \<or> ends_with_replacement (held_back tk d'))"
  proof (cases "length (text_of (drop p (tokens d @ new))) \<le> length (text_of (drop p (take q (tokens d @ new))))
      \<or> ends_with_replacement (text_of (drop p (tokens d @ new)))")
    case True
    then have new: "prefix_offset d' = int p" "read_offset d' = int q" "piece = []" using out by auto
    have "text_of (drop q (tokens d @ new)) = [] \<or> ends_with_replacement (text_of (drop q (tokens d @ new)))"
      using True unfolding whole by (auto simp: ends_with_replacement_def)
    then show ?thesis using new pq(1,2) d'(1) by (simp add: slow_ok_def held tail')
  next
    case False
    have cancel: "drop (length xs) (xs @ ys) = ys" for xs ys :: py_str by simp
    note moved = out [unfolded if_not_P [OF False]]
    have new: "prefix_offset d' = int q" "read_offset d' = int (length (tokens d @ new))"
      "piece = text_of (drop q (tokens d @ new))"
      using conjunct1 [OF moved] conjunct2 [OF moved] by (simp_all only: whole cancel)
    then show ?thesis using pq(1,2) d'(1) by (simp add: slow_ok_def held tail' empty)
  qed
  then show ?thesis using d' by (simp add: text_of_def new_def)
qed

lemma slow_session_step:
  assumes "slow_session tk ids ts d = Inr (d', out)" and "slow_ok d" and "tokens_text tk skip spaces = f"
    and "slow_skip_special d = skip" "slow_spaces_between d = spaces"
    and "held_back tk d = [] \<or> ends_with_replacement (held_back tk d)"
    and join: "\<And>xs ys. f (xs @ ys) = f xs @ f ys"
  shows "slow_skip_special d' = skip \<and> slow_spaces_between d' = spaces
    \<and> tokens d' = tokens d @ id_strings tk skip ts
    \<and> out @ held_back tk d' = held_back tk d @ f (id_strings tk skip ts)
    \<and> (held_back tk d' = [] \<or> ends_with_replacement (held_back tk d'))"
  using assms
proof (induction tk ids ts d arbitrary: d' out rule: slow_session.induct)
  case (1 tk ids d)
  have "f [] = []" using join [of "[]" "[]"] by simp
  with 1 show ?case by auto
next
  case (2 tk ids t ts d)
  from "2.prems"(1) obtain d1 piece rest where s: "slow_decode_next tk (ids @ [t]) d = Inr (d1, piece)"
    and r: "slow_session tk (ids @ [t]) ts d1 = Inr (d', rest)" and out: "out = piece @ rest"
    by (auto elim!: bindE_InrE)
  have "\<And>xs ys. tokens_text tk (slow_skip_special d) (slow_spaces_between d) (xs @ ys)
      = tokens_text tk (slow_skip_special d) (slow_spaces_between d) xs
        @ tokens_text tk (slow_skip_special d) (slow_spaces_between d) ys"
    using "2.prems"(3-5) join by simp
  note step = slow_step [OF s "2.prems"(2) this]
  define new where "new = id_strings tk skip [t]"
  have new: "tokens d1 = tokens d @ new" "piece @ held_back tk d1 = held_back tk d @ f new"
    using step "2.prems"(3-5) unfolding new_def by auto
  have "slow_skip_special d' = skip \<and> slow_spaces_between d' = spaces
    \<and> tokens d' = tokens d1 @ id_strings tk skip ts
    \<and> rest @ held_back tk d' = held_back tk d1 @ f (id_strings tk skip ts)
    \<and> (held_back tk d' = [] \<or> ends_with_replacement (held_back tk d'))"
    by (rule "2.IH" [OF r]) (use step "2.prems"(3-5) join in auto)
  then have more: "tokens d' = tokens d1 @ id_strings tk skip ts"
      "rest @ held_back tk d' = held_back tk d1 @ f (id_strings tk skip ts)"
    and fin: "slow_skip_special d' = skip" "slow_spaces_between d' = spaces"
      "held_back tk d' = [] \<or> ends_with_replacement (held_back tk d')"
    by blast+
  have all: "id_strings tk skip (t # ts) = new @ id_strings tk skip ts" by (simp add: new_def)
  have "out @ held_back tk d' = piece @ held_back tk d1 @ f (id_strings tk skip ts)" using more(2) out by simp
  also have "\<dots> = (held_back tk d @ f new) @ f (id_strings tk skip ts)" using new(2) by (metis append.assoc)
  also have "\<dots> = held_back tk d @ f (id_strings tk skip (t # ts))" unfolding all join by simp
  finally show ?case using fin more(1) new(1) unfolding all by simp
qed

text \<open>
  C35: For a tokenizer that joins token strings by concatenation, the detokenizer appends to its
  tokens exactly the strings of the generated ids \<open>ts\<close> (the empty string for an id outside the
  vocabulary and for one without a string), and the pieces of the token by token detokenization
  are the text of these strings at once, without the rest that is still incomplete: that rest is empty or
  ends with the replacement character.
\<close>

theorem slow_detokenization_loses_no_text:
  assumes "slow_session tk ids ts (slow_init tk skip spaces (Some prompt) n) = Inr (d, out)"
    and "\<And>xs ys. tokens_text tk skip spaces (xs @ ys) = tokens_text tk skip spaces xs @ tokens_text tk skip spaces ys"
  shows "tokens d = tokens (slow_init tk skip spaces (Some prompt) n) @ id_strings tk skip ts
    \<and> (\<exists>rest. tokens_text tk skip spaces (id_strings tk skip ts) = out @ rest
        \<and> (rest = [] \<or> ends_with_replacement rest))"
proof -
  let ?d = "slow_init tk skip spaces (Some prompt) n"
  have empty: "tokens_text tk skip spaces [] = []" using assms(2) [of "[]" "[]"] by simp
  have init: "slow_skip_special ?d = skip" "slow_spaces_between ?d = spaces" "held_back tk ?d = []" "slow_ok ?d"
    using empty
    by (simp_all add: slow_init_def convert_prompt_ids_to_tokens_def held_back_def Let_def slow_ok_def
        replace_none_with_empty_def initial_offset_def)
  from slow_session_step [OF assms(1) init(4) refl init(1,2) _ assms(2)] init(3)
  have "tokens d = tokens ?d @ id_strings tk skip ts"
    "tokens_text tk skip spaces (id_strings tk skip ts) = out @ held_back tk d"
    "held_back tk d = [] \<or> ends_with_replacement (held_back tk d)"
    by simp_all
  then show ?thesis by blast
qed

theorem slow_detokenization_loses_no_text_witness:
  "\<exists>d. slow_session char_tokenizer [1, 2] [97, 0xFFFD, 98, 0xFFFD] (slow_init char_tokenizer True True (Some [1, 2]) 2)
      = Inr (d, [97, 0xFFFD, 98])
    \<and> tokens d = tokens (slow_init char_tokenizer True True (Some [1, 2]) 2) @ [[97], [0xFFFD], [98], [0xFFFD]]"
proof -
  have run: "(case slow_session char_tokenizer [1, 2] [97, 0xFFFD, 98, 0xFFFD] (slow_init char_tokenizer True True (Some [1, 2]) 2) of
      Inl _ \<Rightarrow> False | Inr (d, piece) \<Rightarrow> piece = [97, 0xFFFD, 98])"
    by code_simp
  then obtain d where d: "slow_session char_tokenizer [1, 2] [97, 0xFFFD, 98, 0xFFFD]
      (slow_init char_tokenizer True True (Some [1, 2]) 2) = Inr (d, [97, 0xFFFD, 98])"
    by (auto split: sum.splits prod.splits)
  have "tokens_text char_tokenizer True True (xs @ ys)
      = tokens_text char_tokenizer True True xs @ tokens_text char_tokenizer True True ys" for xs ys
    by (simp add: tokens_text_def char_tokenizer_def)
  from slow_detokenization_loses_no_text [OF d this]
  have "tokens d = tokens (slow_init char_tokenizer True True (Some [1, 2]) 2)
      @ id_strings char_tokenizer True [97, 0xFFFD, 98, 0xFFFD]" by blast
  moreover have "id_strings char_tokenizer True [97, 0xFFFD, 98, 0xFFFD] = [[97], [0xFFFD], [98], [0xFFFD]]"
    by (simp add: char_tokenizer_def)
  ultimately show ?thesis using d by auto
qed

end
