(* ===== verification/Logprobs.thy ===== *)
theory Logprobs
  imports Detokenizer
begin

section \<open>Log probabilities of the output\<close>

text \<open>
  \<^verbatim>\<open>vllm/logprobs.py\<close> and \<^verbatim>\<open>v1/engine/logprobs.py\<close>: per position of the output a dict from token
  ids to log probabilities, either as a list of dicts or flattened into parallel lists (\<^verbatim>\<open>FlatLogprobs\<close>).
  \<open>flat_of\<close> is the list of positions that a flat container stands for. Log probabilities are rationals.
\<close>

subsection \<open>One position\<close>

record Logprob =
  logprob :: rat
  rank :: "int option"
  decoded_token :: "py_str option"

type_synonym position_logprobs = "(int \<times> Logprob) list"

text \<open>A dict built from pairs: a repeated key keeps its place and takes the later value.\<close>

definition dict_of :: "('a \<times> 'b) list \<Rightarrow> ('a \<times> 'b) list" where
  "dict_of kvs = fold (\<lambda>(k, v). AList.update k v) kvs []"

subsection \<open>Flat containers\<close>

record FlatLogprobs =
  start_indices :: "int list"
  end_indices :: "int list"
  flat_token_ids :: "int list"
  flat_values :: "rat list"
  flat_ranks :: "int option list"
  flat_decoded :: "py_str option list"

definition new_flat :: FlatLogprobs where
  "new_flat = \<lparr>start_indices = [], end_indices = [], flat_token_ids = [], flat_values = [], flat_ranks = [],
     flat_decoded = []\<rparr>"

definition flat_add :: "int \<times> Logprob \<Rightarrow> FlatLogprobs \<Rightarrow> FlatLogprobs" where
  "flat_add = (\<lambda>(t, lp) f. f\<lparr>flat_token_ids := flat_token_ids f @ [t], flat_values := flat_values f @ [logprob lp],
     flat_ranks := flat_ranks f @ [rank lp], flat_decoded := flat_decoded f @ [decoded_token lp]\<rparr>)"

definition flat_append :: "position_logprobs option \<Rightarrow> FlatLogprobs \<Rightarrow> FlatLogprobs" where
  "flat_append p f =
     (let f = f\<lparr>start_indices := start_indices f @ [int (length (flat_values f))]\<rparr>;
          f = (case p of None \<Rightarrow> f | Some kvs \<Rightarrow> fold flat_add kvs f)
      in f\<lparr>end_indices := end_indices f @ [int (length (flat_values f))]\<rparr>)"

text \<open>\<^verbatim>\<open>append_fast\<close>: the same from four sequences that are zipped.\<close>

definition zip_logprobs :: "int list \<Rightarrow> rat list \<Rightarrow> int list \<Rightarrow> py_str option list \<Rightarrow> position_logprobs" where
  "zip_logprobs ids lps ranks decoded =
     map (\<lambda>((t, lp), (r, d)). (t, \<lparr>logprob = lp, rank = Some r, decoded_token = d\<rparr>)) (zip (zip ids lps) (zip ranks decoded))"

definition flat_append_fast ::
    "int list \<Rightarrow> rat list \<Rightarrow> int list \<Rightarrow> py_str option list \<Rightarrow> FlatLogprobs \<Rightarrow> FlatLogprobs" where
  "flat_append_fast ids lps ranks decoded f =
     (let f = f\<lparr>start_indices := start_indices f @ [int (length (flat_values f))]\<rparr>;
          f = fold flat_add (zip_logprobs ids lps ranks decoded) f
      in f\<lparr>end_indices := end_indices f @ [int (length (flat_values f))]\<rparr>)"

definition flat_extend :: "position_logprobs option list \<Rightarrow> FlatLogprobs \<Rightarrow> FlatLogprobs" where
  "flat_extend = fold flat_append"

definition flat_length :: "FlatLogprobs \<Rightarrow> int" where
  "flat_length f = int (length (start_indices f))"

definition flat_entry :: "FlatLogprobs \<Rightarrow> int \<Rightarrow> (int \<times> Logprob) result" where
  "flat_entry f i =
     bindE (index_py (flat_token_ids f) i) (\<lambda>t. bindE (index_py (flat_values f) i) (\<lambda>lp.
     bindE (index_py (flat_ranks f) i) (\<lambda>r. bindE (index_py (flat_decoded f) i) (\<lambda>d.
     Inr (t, \<lparr>logprob = lp, rank = r, decoded_token = d\<rparr>)))))"

definition flat_getitem :: "FlatLogprobs \<Rightarrow> int \<Rightarrow> position_logprobs result" where
  "flat_getitem f i =
     bindE (index_py (start_indices f) i) (\<lambda>a. bindE (index_py (end_indices f) i) (\<lambda>b.
     bindE (mapE (flat_entry f) [a..b - 1]) (\<lambda>kvs. Inr (dict_of kvs))))"

text \<open>The slice \<open>[i:j]\<close>; \<open>None\<close> stands for an omitted end. The code never slices with a step; such slices are left out.\<close>

definition slice_to :: "'a list \<Rightarrow> int \<Rightarrow> int option \<Rightarrow> 'a list" where
  "slice_to xs i j = (case j of None \<Rightarrow> slice_from xs i | Some j \<Rightarrow> slice xs i j)"

definition flat_slice :: "FlatLogprobs \<Rightarrow> int \<Rightarrow> int option \<Rightarrow> FlatLogprobs result" where
  "flat_slice f i j =
     bindE (index_py (slice_to (start_indices f) i j) 0) (\<lambda>lo.
     bindE (index_py (slice_to (end_indices f) i j) (-1)) (\<lambda>hi.
     Inr \<lparr>start_indices = map (\<lambda>k. k - lo) (slice_to (start_indices f) i j),
       end_indices = map (\<lambda>k. k - lo) (slice_to (end_indices f) i j),
       flat_token_ids = slice (flat_token_ids f) lo hi, flat_values = slice (flat_values f) lo hi,
       flat_ranks = slice (flat_ranks f) lo hi, flat_decoded = slice (flat_decoded f) lo hi\<rparr>))"

definition flat_iter :: "FlatLogprobs \<Rightarrow> position_logprobs list result" where
  "flat_iter f = mapE (flat_getitem f) [0..flat_length f - 1]"

subsection \<open>Containers\<close>

datatype logprobs_container = Dicts "position_logprobs option list" | Flat FlatLogprobs

definition create_prompt_logprobs :: "bool \<Rightarrow> logprobs_container" where
  "create_prompt_logprobs flat = (if flat then Flat (flat_append None new_flat) else Dicts [None])"

definition create_sample_logprobs :: "bool \<Rightarrow> logprobs_container" where
  "create_sample_logprobs flat = (if flat then Flat new_flat else Dicts [])"

text \<open>The decoded tokens are \<open>None\<close> where the code passes an endless iterator of \<^verbatim>\<open>None\<close>.\<close>

definition append_logprobs_for_next_position ::
    "int list \<Rightarrow> rat list \<Rightarrow> py_str list option \<Rightarrow> int \<Rightarrow> int \<Rightarrow> logprobs_container \<Rightarrow> logprobs_container" where
  "append_logprobs_for_next_position ids lps decoded r num_logprobs c =
     (let n = (if num_logprobs = -1 then int (length lps) else num_logprobs);
          ranks = r # [1..n];
          decoded = (case decoded of None \<Rightarrow> replicate (length ranks) None | Some ds \<Rightarrow> map Some ds)
      in case c of
           Flat f \<Rightarrow> Flat (flat_append_fast ids lps ranks decoded f)
         | Dicts ps \<Rightarrow> Dicts (ps @ [Some (dict_of (zip_logprobs ids lps ranks decoded))]))"

definition container_length :: "logprobs_container \<Rightarrow> int" where
  "container_length c = (case c of Dicts ps \<Rightarrow> int (length ps) | Flat f \<Rightarrow> flat_length f)"

definition container_nonempty :: "logprobs_container option \<Rightarrow> bool" where
  "container_nonempty c = (case c of None \<Rightarrow> False | Some c \<Rightarrow> container_length c \<noteq> 0)"

definition container_slice :: "logprobs_container \<Rightarrow> int \<Rightarrow> int option \<Rightarrow> logprobs_container result" where
  "container_slice c i j = (case c of
     Dicts ps \<Rightarrow> Inr (Dicts (slice_to ps i j))
   | Flat f \<Rightarrow> bindE (flat_slice f i j) (\<lambda>f. Inr (Flat f)))"

subsection \<open>The processor of a request\<close>

record logprobs_processor =
  lp_logprobs :: "logprobs_container option"
  lp_prompt_logprobs :: "logprobs_container option"
  cumulative_logprob :: "rat option"
  num_logprobs :: "int option"
  num_prompt_logprobs :: "int option"

definition new_logprobs_processor :: "OutputParams \<Rightarrow> logprobs_processor" where
  "new_logprobs_processor sp =
     \<lparr>lp_logprobs = map_option (\<lambda>_. create_sample_logprobs (flat_logprobs sp)) (sp_logprobs sp),
      lp_prompt_logprobs = map_option (\<lambda>_. create_prompt_logprobs (flat_logprobs sp)) (sp_prompt_logprobs sp),
      cumulative_logprob = map_option (\<lambda>_. 0) (sp_logprobs sp),
      num_logprobs = sp_logprobs sp, num_prompt_logprobs = sp_prompt_logprobs sp\<rparr>"

text \<open>The token whose logprobs were appended last: \<^verbatim>\<open>next(iter(self.logprobs[-1]))\<close>.\<close>

definition latest_token :: "logprobs_container \<Rightarrow> int result" where
  "latest_token c =
     bindE (case c of
              Dicts ps \<Rightarrow> bindE (index_py ps (-1)) (of_option TypeError)
            | Flat f \<Rightarrow> flat_getitem f (-1)) (\<lambda>kvs.
     case kvs of [] \<Rightarrow> Inl StopIteration | (t, _) # _ \<Rightarrow> Inr t)"

definition correct_decoded_token ::
    "'s tokenizer_api \<Rightarrow> logprobs_container option \<Rightarrow> int list \<Rightarrow> int \<Rightarrow> py_str result" where
  "correct_decoded_token tk c toks idx =
     (let pair = slice toks (idx - 1) (idx + 1); first = tokenizer_decode tk pair in
      if idx > 0 \<and> \<not> ends_with_replacement first then Inr first
      else if container_nonempty c
        then bindE (latest_token (the c)) (\<lambda>t.
          let second = tokenizer_decode tk (t # (if idx > 0 then pair else slice toks idx (idx + 1)))
          in Inr (if \<not> ends_with_replacement second then second else []))
        else Inr [])"

definition verify_tokens ::
    "'s tokenizer_api \<Rightarrow> logprobs_container option \<Rightarrow> py_str list \<Rightarrow> int list \<Rightarrow> py_str list result" where
  "verify_tokens tk c decoded toks =
     mapE (\<lambda>(i, t). if ends_with_replacement t then correct_decoded_token tk c toks i else Inr t)
       (zip [0..int (length decoded) - 1] decoded)"

definition update_sample_one ::
    "'s tokenizer_api option \<Rightarrow> int \<times> rat list \<times> int list \<Rightarrow> logprobs_processor \<Rightarrow> logprobs_processor result" where
  "update_sample_one tk = (\<lambda>(r, lps, ids) p.
     bindE (case tk of
              None \<Rightarrow> Inr None
            | Some tk \<Rightarrow> bindE (verify_tokens tk (lp_logprobs p) (convert_ids_list_to_tokens tk ids) ids) (\<lambda>ds. Inr (Some ds)))
       (\<lambda>decoded.
     bindE (index_py lps 0) (\<lambda>sampled.
     bindE (of_option AssertionError (num_logprobs p)) (\<lambda>n.
     Inr (p\<lparr>cumulative_logprob := map_option (\<lambda>x. x + sampled) (cumulative_logprob p),
       lp_logprobs := map_option (append_logprobs_for_next_position ids lps decoded r n) (lp_logprobs p)\<rparr>)))))"

text \<open>\<^verbatim>\<open>LogprobsLists\<close>: token ids, log probabilities and ranks, one row per new token.\<close>

definition update_sample_logprobs ::
    "'s tokenizer_api option \<Rightarrow> int list list \<times> rat list list \<times> int list \<Rightarrow> logprobs_processor
     \<Rightarrow> logprobs_processor result" where
  "update_sample_logprobs tk = (\<lambda>(ids, lps, ranks) p.
     assertE (num_logprobs p \<noteq> None) (assertE (lp_logprobs p \<noteq> None) (assertE (cumulative_logprob p \<noteq> None)
       (foldE (update_sample_one tk) (zip ranks (zip lps ids)) p))))"

definition update_prompt_one ::
    "'s tokenizer_api option \<Rightarrow> py_str list \<Rightarrow> int \<Rightarrow> int \<times> int \<times> rat list \<times> int list \<Rightarrow> logprobs_processor
     \<Rightarrow> logprobs_processor result" where
  "update_prompt_one tk all_decoded width = (\<lambda>(pos, r, lps, ids) p.
     bindE (case tk of
              None \<Rightarrow> Inr None
            | Some tk \<Rightarrow>
                bindE (verify_tokens tk (lp_logprobs p) (slice all_decoded (pos * width) (pos * width + width)) ids)
                  (\<lambda>ds. Inr (Some ds))) (\<lambda>decoded.
     bindE (of_option AssertionError (num_prompt_logprobs p)) (\<lambda>n.
     Inr (p\<lparr>lp_prompt_logprobs :=
       map_option (append_logprobs_for_next_position ids lps decoded r n) (lp_prompt_logprobs p)\<rparr>))))"

definition update_prompt_logprobs ::
    "'s tokenizer_api option \<Rightarrow> int list list \<times> rat list list \<times> int list \<Rightarrow> logprobs_processor
     \<Rightarrow> logprobs_processor result" where
  "update_prompt_logprobs tk = (\<lambda>(ids, lps, ranks) p.
     assertE (num_prompt_logprobs p \<noteq> None) (assertE (lp_prompt_logprobs p \<noteq> None)
       (let width = (case lps of [] \<Rightarrow> 0 | row # _ \<Rightarrow> int (length row));
            all_decoded = (case tk of None \<Rightarrow> [] | Some tk \<Rightarrow> convert_ids_list_to_tokens tk (concat ids))
        in foldE (update_prompt_one tk all_decoded width)
             (zip [0..int (length lps) - 1] (zip ranks (zip lps ids))) p)))"

definition pop_prompt_logprobs :: "logprobs_processor \<Rightarrow> logprobs_processor \<times> logprobs_container option" where
  "pop_prompt_logprobs p =
     (let plp = lp_prompt_logprobs p in
      (if container_nonempty plp then p\<lparr>lp_prompt_logprobs := Some (Dicts [])\<rparr> else p, plp))"

definition logprobs_update_from_output ::
    "'s tokenizer_api option \<Rightarrow> (int list list \<times> rat list list \<times> int list) option
     \<Rightarrow> (int list list \<times> rat list list \<times> int list) option \<Rightarrow> logprobs_processor \<Rightarrow> logprobs_processor result" where
  "logprobs_update_from_output tk new_logprobs new_prompt_logprobs p =
     bindE (case new_logprobs of None \<Rightarrow> Inr p | Some l \<Rightarrow> update_sample_logprobs tk l p) (\<lambda>p.
     case new_prompt_logprobs of None \<Rightarrow> Inr p | Some l \<Rightarrow> update_prompt_logprobs tk l p)"


subsection \<open>A flat container stands for a list of dicts\<close>

definition flat_of :: "position_logprobs list \<Rightarrow> FlatLogprobs" where
  "flat_of ps = \<lparr>start_indices = map (\<lambda>k. int (length (concat (take k ps)))) [0..<length ps],
     end_indices = map (\<lambda>k. int (length (concat (take (Suc k) ps)))) [0..<length ps],
     flat_token_ids = map fst (concat ps), flat_values = map (\<lambda>(_, lp). logprob lp) (concat ps),
     flat_ranks = map (\<lambda>(_, lp). rank lp) (concat ps), flat_decoded = map (\<lambda>(_, lp). decoded_token lp) (concat ps)\<rparr>"

lemma fold_flat_add:
  "fold flat_add kvs f = f\<lparr>flat_token_ids := flat_token_ids f @ map fst kvs,
     flat_values := flat_values f @ map (\<lambda>(_, lp). logprob lp) kvs,
     flat_ranks := flat_ranks f @ map (\<lambda>(_, lp). rank lp) kvs,
     flat_decoded := flat_decoded f @ map (\<lambda>(_, lp). decoded_token lp) kvs\<rparr>"
  by (induction kvs arbitrary: f) (simp_all add: flat_add_def split: prod.splits)

lemma flat_of_Nil: "flat_of [] = new_flat"
  by (simp add: flat_of_def new_flat_def)

lemma flat_of_snoc:
  "flat_of (ps @ [kvs]) = (let f = (flat_of ps)\<lparr>start_indices := start_indices (flat_of ps) @ [int (length (flat_values (flat_of ps)))]\<rparr>;
      f = fold flat_add kvs f in f\<lparr>end_indices := end_indices f @ [int (length (flat_values f))]\<rparr>)"
  by (simp add: flat_of_def fold_flat_add Let_def)

text \<open>A position without log probabilities is kept as an empty one.\<close>

definition position_dict :: "position_logprobs option \<Rightarrow> position_logprobs" where
  "position_dict p = (case p of None \<Rightarrow> [] | Some kvs \<Rightarrow> kvs)"

lemma flat_of_append: "flat_append p (flat_of ps) = flat_of (ps @ [position_dict p])"
  unfolding flat_of_snoc position_dict_def by (cases p) (simp_all add: flat_append_def Let_def)

lemma flat_of_append_fast:
  "flat_append_fast ids lps ranks decoded (flat_of ps) = flat_of (ps @ [zip_logprobs ids lps ranks decoded])"
  unfolding flat_of_snoc by (simp add: flat_append_fast_def Let_def)

lemma flat_of_extend: "flat_extend qs (flat_of ps) = flat_of (ps @ map position_dict qs)"
  by (induction qs arbitrary: ps) (simp_all add: flat_extend_def flat_of_append)

lemma index_py_map: "index_py (map f xs) i = bindE (index_py xs i) (\<lambda>x. Inr (f x))"
  by (simp add: index_py_def Let_def)

lemma index_py_upt:
  "index_py [0..<length xs] i = Inr k \<Longrightarrow> k < length xs \<and> index_py xs i = Inr (xs ! k)"
  "index_py [0..<length xs] i = Inl e \<Longrightarrow> index_py xs i = Inl e"
  by (auto simp: index_py_def Let_def split: if_splits)

lemma upto_of_nat: "[int a..int b - 1] = map int [a..<b]"
proof (induction b)
  case (Suc b)
  show ?case
  proof (cases "a \<le> b")
    case True
    have "[int a..int b] = [int a..int b - 1] @ [int b]" using True by (intro upto_rec2) simp
    then show ?thesis using Suc True by simp
  qed simp
qed simp

lemma concat_take_split: "concat ps = concat (take k ps) @ concat (drop k ps)"
  by (metis append_take_drop_id concat_append)

lemma flat_entry_of: "k < length (concat ps) \<Longrightarrow> flat_entry (flat_of ps) (int k) = Inr (concat ps ! k)"
  by (simp add: flat_entry_def flat_of_def index_py_nonneg split: prod.splits)

lemma chunk_of_concat:
  assumes "k < length ps"
  shows "map ((!) (concat ps)) [length (concat (take k ps))..<length (concat (take (Suc k) ps))] = ps ! k"
proof -
  have s: "concat (take (Suc k) ps) = concat (take k ps) @ ps ! k" using assms by (simp add: take_Suc_conv_app_nth)
  have whole: "concat ps = concat (take k ps) @ ps ! k @ concat (drop (Suc k) ps)"
    using concat_take_split [of ps "Suc k"] unfolding s by simp
  show ?thesis by (rule nth_equalityI) (simp_all add: s whole nth_append)
qed

lemma flat_of_getitem: "flat_getitem (flat_of ps) i = bindE (index_py ps i) (\<lambda>kvs. Inr (dict_of kvs))"
proof (cases "index_py [0..<length ps] i")
  case (Inl e)
  then show ?thesis using index_py_upt(2) [OF Inl] by (simp add: flat_getitem_def flat_of_def index_py_map)
next
  case (Inr k)
  note k = index_py_upt(1) [OF Inr]
  have "mapE (flat_entry (flat_of ps)) [int (length (concat (take k ps)))..int (length (concat (take (Suc k) ps))) - 1]
    = Inr (map (\<lambda>i. concat ps ! nat i) [int (length (concat (take k ps)))..int (length (concat (take (Suc k) ps))) - 1])"
  proof (rule mapE_total)
    fix i assume "i \<in> set [int (length (concat (take k ps)))..int (length (concat (take (Suc k) ps))) - 1]"
    then have "0 \<le> i" "nat i < length (concat (take (Suc k) ps))" by auto
    moreover have "length (concat (take (Suc k) ps)) \<le> length (concat ps)"
      using concat_take_split [of ps "Suc k"] by (metis le_add1 length_append)
    ultimately show "flat_entry (flat_of ps) i = Inr (concat ps ! nat i)" using flat_entry_of [of "nat i" ps] by simp
  qed
  also have "map (\<lambda>i. concat ps ! nat i) [int (length (concat (take k ps)))..int (length (concat (take (Suc k) ps))) - 1]
      = ps ! k"
    unfolding upto_of_nat by (simp add: comp_def chunk_of_concat k)
  finally show ?thesis
    using Inr k by (simp add: flat_getitem_def index_py_map flat_of_def)
qed

definition slice_end :: "nat \<Rightarrow> int option \<Rightarrow> nat" where
  "slice_end n j = (case j of None \<Rightarrow> n | Some j \<Rightarrow> slice_bound [0..<n] j)"

lemma slice_to_bounds:
  "slice_to xs i j = drop (slice_bound [0..<length xs] i) (take (slice_end (length xs) j) xs)"
proof -
  have bound: "slice_bound xs k = slice_bound [0..<length xs] k" for k
    by (auto simp: slice_bound_def Let_def)
  show ?thesis by (cases j) (simp_all add: slice_to_def slice_from_def slice_def slice_end_def bound)
qed

lemma slice_end_le: "slice_end n j \<le> n"
  by (auto simp: slice_end_def slice_bound_def Let_def split: option.splits)

lemma take_concat: "take (length (concat (take b ps))) (concat ps) = concat (take b ps)"
  using concat_take_split [of ps b] by (metis append_eq_conv_conj)

lemma drop_concat:
  assumes "a \<le> b"
  shows "drop (length (concat (take a ps))) (concat (take b ps)) = concat (drop a (take b ps))"
proof -
  have "concat (take b ps) = concat (take a ps) @ concat (drop a (take b ps))"
    using concat_take_split [of "take b ps" a] assms by (simp add: min_absorb1)
  then show ?thesis by simp
qed

lemma take_drop_concat:
  "length (concat (take k (drop a (take b ps)))) = length (concat (take (a + k) ps)) - length (concat (take a ps))"
  if "a + k \<le> b"
proof -
  have "take (a + k) ps = take a ps @ take k (drop a (take b ps))"
    using that by (simp add: take_add drop_take min_absorb1)
  then show ?thesis by simp
qed

lemma slice_map: "slice (map f xs) i j = map f (slice xs i j)"
  by (simp add: slice_def slice_bound_def take_map drop_map)

lemma length_concat_take:
  "length (concat (take a ps)) \<le> length (concat (take (a + k) ps))"
  "length (concat (take a ps)) \<le> length (concat (take (Suc (a + k)) ps))"
proof -
  show le: "length (concat (take a ps)) \<le> length (concat (take (a + k) ps))" for k by (simp add: take_add)
  show "length (concat (take a ps)) \<le> length (concat (take (Suc (a + k)) ps))" using le [of "Suc k"] by simp
qed

lemma flat_of_slice:
  "flat_slice (flat_of ps) i j
     = (if slice_to ps i j = [] then Inl IndexError else Inr (flat_of (slice_to ps i j)))"
proof -
  define a where "a = slice_bound [0..<length ps] i"
  define b where "b = slice_end (length ps) j"
  have b: "b \<le> length ps" by (simp add: b_def slice_end_le)
  have cut_map: "slice_to (map f [0..<length ps]) i j = map f [a..<b]" for f :: "nat \<Rightarrow> int"
    unfolding slice_to_bounds length_map a_def [symmetric] using b
    by (simp add: a_def [symmetric] b_def [symmetric] drop_map take_map)
  have ps_cut: "slice_to ps i j = drop a (take b ps)" unfolding slice_to_bounds a_def b_def by simp
  show ?thesis
  proof (cases "a < b")
    case False
    then have "slice_to ps i j = []" by (simp add: ps_cut)
    moreover from False have "flat_slice (flat_of ps) i j = Inl IndexError"
      by (simp add: flat_slice_def flat_of_def cut_map index_py_def)
    ultimately show ?thesis by simp
  next
    case True
    define lo where "lo = length (concat (take a ps))"
    define hi where "hi = length (concat (take b ps))"
    have "Suc ([a..<b] ! (b - Suc a)) = b" using True nth_upt [of a "b - Suc a" b] by simp
    then have lohi: "index_py (slice_to (start_indices (flat_of ps)) i j) 0 = Inr (int lo)"
      "index_py (slice_to (end_indices (flat_of ps)) i j) (-1) = Inr (int hi)"
      using True by (simp_all add: flat_of_def cut_map index_py_def lo_def hi_def nat_diff_distrib)
    have nonempty: "slice_to ps i j \<noteq> []" using True b by (simp add: ps_cut)
    have contents: "slice (concat ps) (int lo) (int hi) = concat (drop a (take b ps))"
      using True by (simp add: slice_nonneg hi_def lo_def take_concat drop_concat)
    have starts: "map (\<lambda>k. int (length (concat (take k ps))) - int lo) [a..<b]
        = map (\<lambda>k. int (length (concat (take k (drop a (take b ps)))))) [0..<b - a]"
      by (rule nth_equalityI) (simp_all add: lo_def take_drop_concat length_concat_take of_nat_diff)
    have ends: "map (\<lambda>k. int (length (concat (take (Suc k) ps))) - int lo) [a..<b]
        = map (\<lambda>k. int (length (concat (take (Suc k) (drop a (take b ps)))))) [0..<b - a]"
      by (rule nth_equalityI) (simp_all add: lo_def take_drop_concat length_concat_take of_nat_diff)
    have "length (drop a (take b ps)) = b - a" using b by simp
    then have "flat_slice (flat_of ps) i j = Inr (flat_of (drop a (take b ps)))"
      using lohi starts ends
      by (simp add: flat_slice_def flat_of_def cut_map slice_map contents comp_def)
    then show ?thesis using nonempty by (simp add: ps_cut)
  qed
qed

text \<open>
  C36: The flat container behaves like the list of dicts it replaces: appending, extending, its length, indexing
  (with its errors), iteration and nonempty slices commute with \<open>flat_of\<close>. An empty slice raises \<open>IndexError\<close>,
  where a list gives an empty list.
\<close>

theorem flat_logprobs_refine_list:
  "flat_of [] = new_flat
    \<and> flat_append p (flat_of ps) = flat_of (ps @ [position_dict p])
    \<and> flat_append_fast ids lps ranks decoded (flat_of ps) = flat_of (ps @ [zip_logprobs ids lps ranks decoded])
    \<and> flat_extend qs (flat_of ps) = flat_of (ps @ map position_dict qs)
    \<and> flat_length (flat_of ps) = int (length ps)
    \<and> flat_getitem (flat_of ps) i = bindE (index_py ps i) (\<lambda>kvs. Inr (dict_of kvs))
    \<and> flat_iter (flat_of ps) = Inr (map dict_of ps)
    \<and> flat_slice (flat_of ps) i j
        = (if slice_to ps i j = [] then Inl IndexError else Inr (flat_of (slice_to ps i j)))"
proof -
  have len: "flat_length (flat_of ps) = int (length ps)" by (simp add: flat_length_def flat_of_def)
  have "mapE (flat_getitem (flat_of ps)) [0..int (length ps) - 1]
      = Inr (map (\<lambda>i. dict_of (ps ! nat i)) [0..int (length ps) - 1])"
    by (rule mapE_total) (auto simp: flat_of_getitem index_py_nonneg nat_less_iff)
  also have "map (\<lambda>i. dict_of (ps ! nat i)) [0..int (length ps) - 1] = map dict_of ps"
    using upto_of_nat [of 0 "length ps"] by (auto intro: nth_equalityI)
  finally have "flat_iter (flat_of ps) = Inr (map dict_of ps)" by (simp add: flat_iter_def len)
  then show ?thesis
    by (simp only: flat_of_Nil flat_of_append flat_of_append_fast flat_of_extend len flat_of_getitem flat_of_slice)
qed

end
