(* ===== verification/Parallel_Sampling.thy ===== *)
theory Parallel_Sampling
  imports Logprobs
begin

section \<open>Parallel sampling\<close>

text \<open>
  \<^verbatim>\<open>v1/engine/parallel_sampling.py\<close>: a request with \<open>n > 1\<close> is split into child requests, one per sample; the
  parent collects their outputs. \<^verbatim>\<open>child_requests\<close> is a set in the code; here it is a list without repetition.
\<close>

subsection \<open>Completions\<close>

datatype StopReason = StopToken int | StopString py_str

record CompletionOutput =
  co_index :: int
  co_text :: py_str
  co_token_ids :: "int list"
  co_cumulative_logprob :: "rat option"
  co_logprobs :: "logprobs_container option"
  co_routed_experts :: "int list option"
  co_finish_reason :: "FinishReason option"
  co_stop_reason :: "StopReason option"

definition co_finished :: "CompletionOutput \<Rightarrow> bool" where
  "co_finished c \<longleftrightarrow> co_finish_reason c \<noteq> None"

subsection \<open>Names of child requests\<close>

fun decimal :: "nat \<Rightarrow> string" where
  "decimal n = (if n < 10 then [''0123456789'' ! n] else decimal (n div 10) @ [''0123456789'' ! (n mod 10)])"

declare decimal.simps [simp del]

definition str_of_int :: "int \<Rightarrow> string" where
  "str_of_int i = (if i < 0 then CHR ''-'' # decimal (nat (- i)) else decimal (nat i))"

definition child_req_id :: "int \<Rightarrow> string \<Rightarrow> string" where
  "child_req_id i rid = str_of_int i @ CHR ''_'' # rid"

subsection \<open>The parent request\<close>

record ParentRequest =
  pr_request_id :: string
  pr_external_req_id :: string
  pr_sampling_params :: OutputParams
  child_requests :: "string list"
  output_aggregator :: "CompletionOutput option list"
  max_num_generation_tokens :: int
  cached_child_sampling_params :: "OutputParams option"

definition new_parent :: "string \<Rightarrow> string option \<Rightarrow> OutputParams \<Rightarrow> ParentRequest result" where
  "new_parent rid external sp = (case external of
     None \<Rightarrow> Inl AssertionError
   | Some ext \<Rightarrow> Inr \<lparr>pr_request_id = rid, pr_external_req_id = ext, pr_sampling_params = sp, child_requests = [],
       output_aggregator = (if output_kind sp = FINAL_ONLY then replicate (nat (sp_n sp)) None else []),
       max_num_generation_tokens = 0, cached_child_sampling_params = None\<rparr>)"

definition get_child_sampling_params :: "int \<Rightarrow> ParentRequest \<Rightarrow> ParentRequest \<times> OutputParams" where
  "get_child_sampling_params i p = (case cached_child_sampling_params p of
     Some sp \<Rightarrow> (p, sp)
   | None \<Rightarrow>
       (let sp = (pr_sampling_params p)\<lparr>sp_n := 1\<rparr> in
        case seed (pr_sampling_params p) of
          None \<Rightarrow> (p\<lparr>cached_child_sampling_params := Some sp\<rparr>, sp)
        | Some s \<Rightarrow> (p, sp\<lparr>seed := Some (s + i)\<rparr>)))"

definition get_child_info :: "int \<Rightarrow> ParentRequest \<Rightarrow> ParentRequest \<times> string \<times> OutputParams" where
  "get_child_info i p =
     (let cid = child_req_id i (pr_request_id p);
          p = p\<lparr>child_requests := List.insert cid (child_requests p)\<rparr>;
          (p, sp) = get_child_sampling_params i p
      in (p, cid, sp))"

text \<open>Item assignment to a list, with Python's negative indices.\<close>

definition set_item :: "int \<Rightarrow> 'a \<Rightarrow> 'a list \<Rightarrow> 'a list result" where
  "set_item i x xs =
     (let k = (if i < 0 then i + int (length xs) else i) in
      if 0 \<le> k \<and> k < int (length xs) then Inr (xs[nat k := x]) else Inl IndexError)"

definition get_outputs ::
    "string \<Rightarrow> CompletionOutput \<Rightarrow> ParentRequest \<Rightarrow> (ParentRequest \<times> CompletionOutput option list \<times> bool) result" where
  "get_outputs cid c p =
     (let returned = co_finished c \<and> cid \<notin> set (child_requests p);
          p = (if co_finished c then p\<lparr>child_requests := remove1 cid (child_requests p)\<rparr> else p)
      in if output_kind (pr_sampling_params p) \<noteq> FINAL_ONLY
         then Inr (p, if returned then [] else [Some c], child_requests p = [])
         else bindE (set_item (co_index c) (Some c) (output_aggregator p)) (\<lambda>agg.
              Inr (p\<lparr>output_aggregator := agg\<rparr>, if child_requests p \<noteq> [] then [] else agg, child_requests p = [])))"

definition observe_num_generation_tokens :: "int \<Rightarrow> ParentRequest \<Rightarrow> ParentRequest" where
  "observe_num_generation_tokens n p = p\<lparr>max_num_generation_tokens := max n (max_num_generation_tokens p)\<rparr>"

text \<open>What the iteration statistics record of finished requests.\<close>

record finished_stats =
  max_num_generation_tokens_iter :: "int list"
  n_params_iter :: "int list"

definition observe_finished_request ::
    "ParentRequest option \<Rightarrow> int \<Rightarrow> finished_stats \<Rightarrow> ParentRequest option \<times> finished_stats" where
  "observe_finished_request parent n st =
     (let parent = map_option (observe_num_generation_tokens n) parent;
          n_param = (case parent of None \<Rightarrow> 1 | Some p \<Rightarrow> sp_n (pr_sampling_params p));
          n = (case parent of None \<Rightarrow> n | Some p \<Rightarrow> max_num_generation_tokens p)
      in (parent,
          if (case parent of None \<Rightarrow> True | Some p \<Rightarrow> child_requests p = [])
          then st\<lparr>max_num_generation_tokens_iter := max_num_generation_tokens_iter st @ [n],
                  n_params_iter := n_params_iter st @ [n_param]\<rparr>
          else st))"

subsection \<open>Child names are distinct\<close>

lemma digit_inj: "m < 10 \<Longrightarrow> n < 10 \<Longrightarrow> ''0123456789'' ! m = ''0123456789'' ! n \<longleftrightarrow> m = n"
  by (rule nth_eq_iff_index_eq) simp_all

lemma decimal_not_Nil: "decimal n \<noteq> []"
  by (subst decimal.simps) simp

lemma decimal_inj: "decimal m = decimal n \<Longrightarrow> m = n"
proof (induction m arbitrary: n rule: decimal.induct)
  case (1 m)
  show ?case
  proof (cases "m < 10")
    case True
    with "1.prems" have "n < 10"
      by (subst (asm) (1 2) decimal.simps) (auto simp: decimal_not_Nil decimal_not_Nil [symmetric] split: if_splits)
    with True "1.prems" show ?thesis by (subst (asm) (1 2) decimal.simps) (simp add: digit_inj)
  next
    case False
    with "1.prems" have n: "\<not> n < 10"
      by (subst (asm) (1 2) decimal.simps) (auto simp: decimal_not_Nil decimal_not_Nil [symmetric] split: if_splits)
    with False "1.prems" have "decimal (m div 10) = decimal (n div 10)" "m mod 10 = n mod 10"
      by (subst (asm) (1 2) decimal.simps; simp add: digit_inj)+
    with "1.IH" [OF False] have "m div 10 = n div 10" "m mod 10 = n mod 10" by auto
    then show ?thesis by (metis div_mult_mod_eq)
  qed
qed

lemma child_req_id_inj: "0 \<le> i \<Longrightarrow> 0 \<le> j \<Longrightarrow> child_req_id i rid = child_req_id j rid \<longleftrightarrow> i = j"
  by (auto simp: child_req_id_def str_of_int_def dest: decimal_inj)

subsection \<open>From fan-out to the collected outputs\<close>

text \<open>The fan-out loop of \<^verbatim>\<open>LLMEngine.add_request\<close>, as far as the parent is concerned.\<close>

fun fan_out :: "int list \<Rightarrow> ParentRequest \<Rightarrow> ParentRequest \<times> (string \<times> OutputParams) list" where
  "fan_out [] p = (p, [])"
| "fan_out (i # is) p =
     (let (p, cid, sp) = get_child_info i p; (p, rest) = fan_out is p in (p, (cid, sp) # rest))"

text \<open>The outputs of the children, in the order in which they arrive.\<close>

fun collect_outputs ::
    "(string \<times> CompletionOutput) list \<Rightarrow> ParentRequest
     \<Rightarrow> (ParentRequest \<times> (CompletionOutput option list \<times> bool) list) result" where
  "collect_outputs [] p = Inr (p, [])"
| "collect_outputs ((cid, c) # cs) p =
     bindE (get_outputs cid c p) (\<lambda>(p, outs, finished).
     bindE (collect_outputs cs p) (\<lambda>(p, rest). Inr (p, (outs, finished) # rest)))"

definition child_params :: "OutputParams \<Rightarrow> int \<Rightarrow> OutputParams" where
  "child_params sp i = sp\<lparr>sp_n := 1, seed := map_option (\<lambda>s. s + i) (seed sp)\<rparr>"

definition fresh_children :: "OutputParams \<Rightarrow> ParentRequest \<Rightarrow> bool" where
  "fresh_children sp p \<longleftrightarrow> pr_sampling_params p = sp
     \<and> (\<forall>c. cached_child_sampling_params p = Some c \<longrightarrow> seed sp = None \<and> c = sp\<lparr>sp_n := 1\<rparr>)"

lemma get_child_info_params:
  assumes "fresh_children sp p"
  shows "\<exists>p'. get_child_info i p = (p', child_req_id i (pr_request_id p), child_params sp i) \<and> fresh_children sp p'
    \<and> pr_request_id p' = pr_request_id p \<and> output_aggregator p' = output_aggregator p
    \<and> child_requests p' = List.insert (child_req_id i (pr_request_id p)) (child_requests p)"
proof -
  have "sp\<lparr>sp_n := 1, seed := None\<rparr> = sp\<lparr>sp_n := 1\<rparr>" if "seed sp = None" using that by (cases sp) simp
  then show ?thesis
    using assms
    by (auto simp: get_child_info_def get_child_sampling_params_def fresh_children_def child_params_def Let_def
        split: option.splits)
qed

lemma fan_out_children:
  assumes "fresh_children sp p"
  shows "\<exists>p'. fan_out is p = (p', map (\<lambda>i. (child_req_id i (pr_request_id p), child_params sp i)) is)
    \<and> pr_sampling_params p' = sp \<and> output_aggregator p' = output_aggregator p \<and> pr_request_id p' = pr_request_id p
    \<and> set (child_requests p') = set (child_requests p) \<union> (\<lambda>i. child_req_id i (pr_request_id p)) ` set is
    \<and> (distinct (child_requests p) \<longrightarrow> distinct (child_requests p'))"
  using assms
proof (induction "is" arbitrary: p)
  case Nil
  then show ?case by (simp add: fresh_children_def)
next
  case (Cons i "is")
  obtain p1 where p1: "get_child_info i p = (p1, child_req_id i (pr_request_id p), child_params sp i)" "fresh_children sp p1"
    "pr_request_id p1 = pr_request_id p" "output_aggregator p1 = output_aggregator p"
    "child_requests p1 = List.insert (child_req_id i (pr_request_id p)) (child_requests p)"
    using get_child_info_params [OF Cons.prems] by blast
  from Cons.IH [OF p1(2)] p1 show ?case by (auto simp: Let_def)
qed

lemma collect_outputs_final:
  assumes "output_kind (pr_sampling_params p) = FINAL_ONLY" and "distinct (child_requests p)"
    and "set (child_requests p) = (\<lambda>i. child_req_id (int i) rid) ` set is" and "distinct is" "set is \<subseteq> {0..<n}" "is \<noteq> []"
    and "output_aggregator p = map (\<lambda>i. if i \<in> set is then None else Some (c i)) [0..<n]"
    and outs: "\<And>i. i < n \<Longrightarrow> co_index (c i) = int i \<and> co_finished (c i)"
  shows "\<exists>p'. collect_outputs (map (\<lambda>i. (child_req_id (int i) rid, c i)) is) p
    = Inr (p', replicate (length is - 1) ([], False) @ [(map (\<lambda>i. Some (c i)) [0..<n], True)])"
  using assms
proof (induction "is" arbitrary: p)
  case (Cons i "is")
  have i: "i < n" "i \<notin> set is" using Cons.prems(4,5) by auto
  define p1 where "p1 = p\<lparr>child_requests := remove1 (child_req_id (int i) rid) (child_requests p),
    output_aggregator := (output_aggregator p)[i := Some (c i)]\<rparr>"
  have kids: "set (child_requests p1) = (\<lambda>i. child_req_id (int i) rid) ` set is"
    using Cons.prems(2,3) i(2) by (auto simp: p1_def set_remove1_eq child_req_id_inj)
  have agg: "output_aggregator p1 = map (\<lambda>i. if i \<in> set is then None else Some (c i)) [0..<n]"
    by (rule nth_equalityI) (use Cons.prems(7) i in \<open>auto simp: p1_def nth_list_update\<close>)
  have empty: "child_requests p1 = [] \<longleftrightarrow> is = []" using kids by (metis image_is_empty set_empty)
  have step: "get_outputs (child_req_id (int i) rid) (c i) p
      = Inr (p1, if is \<noteq> [] then [] else output_aggregator p1, is = [])"
    using Cons.prems(1,7) outs [OF i(1)] i empty
    by (simp add: get_outputs_def set_item_def p1_def Let_def)
  show ?case
  proof (cases "is = []")
    case True
    then show ?thesis using agg by (simp add: step)
  next
    case False
    have "\<exists>p'. collect_outputs (map (\<lambda>i. (child_req_id (int i) rid, c i)) is) p1
      = Inr (p', replicate (length is - 1) ([], False) @ [(map (\<lambda>i. Some (c i)) [0..<n], True)])"
      by (rule Cons.IH) (use Cons.prems kids agg False in \<open>auto simp: p1_def\<close>)
    moreover have "replicate (length is) x = x # replicate (length is - 1) x" for x :: "CompletionOutput option list \<times> bool"
      using False by (cases "is") simp_all
    ultimately show ?thesis using False by (auto simp: step)
  qed
qed simp

lemma collect_outputs_stream:
  assumes "output_kind (pr_sampling_params p) \<noteq> FINAL_ONLY" and "distinct (child_requests p)"
    and "set (child_requests p) = (\<lambda>i. child_req_id (int i) rid) ` set is" and "distinct is" "is \<noteq> []"
    and outs: "\<And>i. i \<in> set is \<Longrightarrow> co_finished (c i)"
  shows "\<exists>p'. collect_outputs (map (\<lambda>i. (child_req_id (int i) rid, c i)) is) p
    = Inr (p', map (\<lambda>i. ([Some (c i)], i = last is)) is)"
  using assms
proof (induction "is" arbitrary: p)
  case (Cons i "is")
  define p1 where "p1 = p\<lparr>child_requests := remove1 (child_req_id (int i) rid) (child_requests p)\<rparr>"
  have kids: "set (child_requests p1) = (\<lambda>i. child_req_id (int i) rid) ` set is"
    using Cons.prems(2-4) by (auto simp: p1_def set_remove1_eq child_req_id_inj)
  have empty: "child_requests p1 = [] \<longleftrightarrow> is = []" using kids by (metis image_is_empty set_empty)
  have step: "get_outputs (child_req_id (int i) rid) (c i) p = Inr (p1, [Some (c i)], is = [])"
    using Cons.prems(1,3,6) empty by (simp add: get_outputs_def p1_def Let_def)
  show ?case
  proof (cases "is = []")
    case False
    have "\<exists>p'. collect_outputs (map (\<lambda>i. (child_req_id (int i) rid, c i)) is) p1
      = Inr (p', map (\<lambda>i. ([Some (c i)], i = last is)) is)"
      by (rule Cons.IH) (use Cons.prems kids False in \<open>auto simp: p1_def\<close>)
    moreover have "i \<noteq> last is" using Cons.prems(4) False by auto
    ultimately show ?thesis using False by (auto simp: step)
  qed (simp add: step)
qed simp

text \<open>
  C37: A request with \<open>n\<close> samples becomes \<open>n\<close> children with distinct ids, each for one sample and with its own seed. Each
  child yields one finished output. In whatever order these arrive, a client that wants only the final output gets nothing until the last child
  is done and then all \<open>n\<close> completions in the order of their index; a streaming client gets each completion
  as it arrives, and the last one is marked as finished.
\<close>

theorem parallel_sampling_collects_all:
  assumes "new_parent rid (Some ext) sp = Inr p" and "fan_out (map int [0..<n]) p = (p1, children)"
    and "sp_n sp = int n" and "distinct is" and "set is = {0..<n}" and "0 < n"
    and "\<And>i. i < n \<Longrightarrow> co_index (c i) = int i \<and> co_finished (c i)"
  shows "children = map (\<lambda>i. (child_req_id (int i) rid, child_params sp (int i))) [0..<n] \<and> distinct (map fst children)
    \<and> (\<exists>p2. collect_outputs (map (\<lambda>i. (child_req_id (int i) rid, c i)) is) p1
        = Inr (p2, if output_kind sp = FINAL_ONLY
                   then replicate (n - 1) ([], False) @ [(map (\<lambda>i. Some (c i)) [0..<n], True)]
                   else map (\<lambda>i. ([Some (c i)], i = last is)) is))"
proof -
  have p: "fresh_children sp p" "pr_request_id p = rid" "child_requests p = []"
    "output_aggregator p = (if output_kind sp = FINAL_ONLY then replicate n None else [])"
    using assms(1,3) by (auto simp: new_parent_def fresh_children_def)
  from fan_out_children [OF p(1), of "map int [0..<n]"]
  have kids: "children = map (\<lambda>i. (child_req_id (int i) rid, child_params sp (int i))) [0..<n]"
    and p1: "pr_sampling_params p1 = sp" "output_aggregator p1 = output_aggregator p" "distinct (child_requests p1)"
      "set (child_requests p1) = (\<lambda>i. child_req_id (int i) rid) ` set is"
    using assms(2,5) p(2,3) by (auto simp: image_image comp_def)
  have len: "length is = n" using assms(4,5) by (metis card_atLeastLessThan diff_zero distinct_card)
  then have ne: "is \<noteq> []" using assms(6) by auto
  have ids: "distinct (map fst children)" by (simp add: kids distinct_map inj_on_def child_req_id_inj comp_def)
  show ?thesis
  proof (cases "output_kind sp = FINAL_ONLY")
    case True
    have "output_aggregator p1 = map (\<lambda>i. if i \<in> set is then None else Some (c i)) [0..<n]"
      using True p1(2) p(4) assms(5) by (auto intro: nth_equalityI)
    from collect_outputs_final [OF _ p1(3,4) assms(4) _ ne this assms(7)] True p1(1) assms(5) kids ids len
    show ?thesis by auto
  next
    case False
    from collect_outputs_stream [OF _ p1(3,4) assms(4) ne] assms(5,7) False p1(1) kids ids
    show ?thesis by auto
  qed
qed

definition demo_completion :: "nat \<Rightarrow> CompletionOutput" where
  "demo_completion i = \<lparr>co_index = int i, co_text = [100 + int i], co_token_ids = [int i], co_cumulative_logprob = None,
     co_logprobs = None, co_routed_experts = None, co_finish_reason = Some REASON_STOP, co_stop_reason = None\<rparr>"

definition final_params :: OutputParams where
  "final_params = (demo_params [])\<lparr>sp_n := 2, seed := Some 7, output_kind := FINAL_ONLY\<rparr>"

theorem parallel_sampling_collects_all_witness:
  "\<exists>p p1 children p2. new_parent ''r'' (Some ''x'') final_params = Inr p
    \<and> fan_out (map int [0..<2]) p = (p1, children) \<and> map fst children = [''0_r'', ''1_r'']
    \<and> collect_outputs [(''1_r'', demo_completion 1), (''0_r'', demo_completion 0)] p1
      = Inr (p2, [([], False), ([Some (demo_completion 0), Some (demo_completion 1)], True)])"
proof -
  obtain p where p: "new_parent ''r'' (Some ''x'') final_params = Inr p" by (simp add: new_parent_def)
  obtain p1 children where out: "fan_out (map int [0..<2]) p = (p1, children)" by (cases "fan_out (map int [0..<2]) p")
  have ids: "child_req_id 0 ''r'' = ''0_r''" "child_req_id 1 ''r'' = ''1_r''" by code_simp+
  have upt: "[0..<2] = [0, 1 :: nat]" by (simp add: upt_rec)
  have c: "co_index (demo_completion i) = int i \<and> co_finished (demo_completion i)" for i
    by (simp add: demo_completion_def co_finished_def)
  have kind: "sp_n final_params = int 2" "output_kind final_params = FINAL_ONLY" by (simp_all add: final_params_def)
  have fin: "0 < (2 :: nat)" "distinct [1, 0 :: nat]" "set [1, 0] = {0..<2 :: nat}" by auto
  note result = parallel_sampling_collects_all [OF p out kind(1) fin(2,3,1) c]
  have "map fst children = [''0_r'', ''1_r'']" using result by (simp add: upt ids)
  moreover have "\<exists>p2. collect_outputs [(''1_r'', demo_completion 1), (''0_r'', demo_completion 0)] p1
      = Inr (p2, [([], False), ([Some (demo_completion 0), Some (demo_completion 1)], True)])"
    using result kind(2) by (simp add: upt ids del: collect_outputs.simps)
  ultimately show ?thesis by (elim exE, intro exI conjI) (rule p out | assumption)+
qed

end
