(* ===== verification/Output_Processor.thy ===== *)
theory Output_Processor
  imports Parallel_Sampling Scheduler_Output
begin

section \<open>The output processor\<close>

text \<open>
  \<^verbatim>\<open>v1/engine/output_processor.py\<close> and \<^verbatim>\<open>vllm/outputs.py\<close>: what the engine core returns becomes text and
  request outputs for the clients. Collectors and parent requests are shared between the states of several
  requests, so they live in stores and are referred to by pointers (\<open>nat\<close>). A request state belongs to one dict entry and is a
  value. Iteration statistics, LoRA statistics and tracing are left out; the result of a method holds a copy of the token
  and logprob lists where the code hands out the list itself.
\<close>

subsection \<open>Request outputs\<close>

record RequestOutput =
  ro_request_id :: string
  ro_lora_request :: "LoRARequest option"
  ro_prompt :: "py_str option"
  ro_prompt_token_ids :: "int list option"
  ro_prompt_logprobs :: "logprobs_container option"
  ro_outputs :: "CompletionOutput option list"
  ro_finished :: bool
  ro_kv_transfer_params :: kv_params
  ro_num_cached_tokens :: "int option"

record PoolingRequestOutput =
  po_request_id :: string
  po_data :: bytes
  po_num_cached_tokens :: int
  po_prompt_token_ids :: "int list"
  po_finished :: bool

datatype request_output = Completion RequestOutput | Pooling PoolingRequestOutput

definition STREAM_FINISHED :: RequestOutput where
  "STREAM_FINISHED = \<lparr>ro_request_id = [], ro_lora_request = None, ro_prompt = None, ro_prompt_token_ids = None,
     ro_prompt_logprobs = None, ro_outputs = [], ro_finished = True, ro_kv_transfer_params = None,
     ro_num_cached_tokens = None\<rparr>"

text \<open>\<^verbatim>\<open>RequestOutput.add\<close>. Extending a container by another goes position by position.\<close>

definition container_positions :: "logprobs_container \<Rightarrow> position_logprobs option list result" where
  "container_positions c = (case c of
     Dicts ps \<Rightarrow> Inr ps
   | Flat f \<Rightarrow> bindE (flat_iter f) (\<lambda>ps. Inr (map Some ps)))"

definition container_extend :: "logprobs_container \<Rightarrow> logprobs_container \<Rightarrow> logprobs_container result" where
  "container_extend c c' =
     bindE (container_positions c') (\<lambda>ps.
     Inr (case c of Dicts qs \<Rightarrow> Dicts (qs @ ps) | Flat f \<Rightarrow> Flat (fold flat_append ps f)))"

definition merge_completion :: "CompletionOutput \<Rightarrow> CompletionOutput \<Rightarrow> CompletionOutput result" where
  "merge_completion new old =
     bindE (if container_nonempty (co_logprobs new)
            then bindE (of_option AssertionError (co_logprobs old)) (\<lambda>l.
                 bindE (container_extend l (the (co_logprobs new))) (\<lambda>l. Inr (Some l)))
            else Inr (co_logprobs old)) (\<lambda>lps.
     Inr (old\<lparr>co_text := co_text old @ co_text new, co_token_ids := co_token_ids old @ co_token_ids new,
       co_logprobs := lps, co_cumulative_logprob := co_cumulative_logprob new,
       co_finish_reason := co_finish_reason new, co_stop_reason := co_stop_reason new\<rparr>))"

fun add_completion ::
    "bool \<Rightarrow> CompletionOutput \<Rightarrow> CompletionOutput option list \<Rightarrow> CompletionOutput option list result" where
  "add_completion agg new [] = Inr [Some new]"
| "add_completion agg new (None # cs) = Inl AttributeError"
| "add_completion agg new (Some old # cs) =
     (if co_index old = co_index new
      then (if agg then bindE (merge_completion new old) (\<lambda>c. Inr (Some c # cs)) else Inr (Some new # cs))
      else bindE (add_completion agg new cs) (\<lambda>cs. Inr (Some old # cs)))"

definition add_output :: "bool \<Rightarrow> RequestOutput \<Rightarrow> RequestOutput \<Rightarrow> RequestOutput result" where
  "add_output agg new ro =
     bindE (foldE (\<lambda>c cs. bindE (of_option AttributeError c) (\<lambda>c. add_completion agg c cs)) (ro_outputs new)
              (ro_outputs ro)) (\<lambda>cs.
     Inr (ro\<lparr>ro_finished := ro_finished ro \<or> ro_finished new, ro_kv_transfer_params := ro_kv_transfer_params new,
       ro_outputs := cs\<rparr>))"

subsection \<open>The collector of a client\<close>

datatype collected = Nothing | Collected request_output | Raised py_error

record RequestOutputCollector =
  aggregate :: bool
  collected_output :: collected
  ready :: bool

definition new_collector :: "RequestOutputKind \<Rightarrow> RequestOutputCollector" where
  "new_collector kind = \<lparr>aggregate = (kind = DELTA), collected_output = Nothing, ready = False\<rparr>"

definition collector_put :: "collected \<Rightarrow> RequestOutputCollector \<Rightarrow> RequestOutputCollector result" where
  "collector_put out q =
     (case (collected_output q, out) of
        (_, Raised e) \<Rightarrow> Inr (q\<lparr>collected_output := out, ready := True\<rparr>)
      | (Nothing, _) \<Rightarrow> Inr (q\<lparr>collected_output := out, ready := True\<rparr>)
      | (Collected (Completion ro), Collected (Completion new)) \<Rightarrow>
          bindE (add_output (aggregate q) new ro) (\<lambda>ro. Inr (q\<lparr>collected_output := Collected (Completion ro)\<rparr>))
      | (Collected (Pooling _), Collected (Pooling _)) \<Rightarrow> Inr (q\<lparr>collected_output := out\<rparr>)
      | _ \<Rightarrow> Inr q)"

text \<open>\<^verbatim>\<open>get_nowait\<close>; \<^verbatim>\<open>get\<close> does the same once there is something to get.\<close>

definition collector_get :: "RequestOutputCollector \<Rightarrow> (RequestOutputCollector \<times> request_output option) result" where
  "collector_get q = (case collected_output q of
     Nothing \<Rightarrow> Inr (q, None)
   | Raised e \<Rightarrow> Inl e
   | Collected out \<Rightarrow> Inr (q\<lparr>collected_output := Nothing, ready := False\<rparr>, Some out))"

subsection \<open>Request states\<close>

record input_update =
  iu_prompt :: "py_str option"
  iu_prompt_token_ids :: "int list option"
  iu_arrival_time :: rat
  iu_final :: bool

record 's RequestState =
  rs_request_id :: string
  rs_external_req_id :: string
  rs_parent :: "nat option"
  rs_request_index :: int
  rs_lora_request :: "LoRARequest option"
  rs_output_kind :: RequestOutputKind
  rs_prompt :: "py_str option"
  rs_prompt_token_ids :: "int list option"
  rs_prompt_embeds :: "bytes list option"
  rs_prompt_len :: int
  rs_tokenizer :: "'s tokenizer_api option"
  rs_logprobs :: "logprobs_processor option"
  rs_detokenizer :: "'s IncrementalDetokenizer option"
  is_prefilling :: bool
  rs_queue :: "nat option"
  rs_num_cached_tokens :: int
  rs_stream_interval :: int
  sent_tokens_offset :: int
  streaming_input :: bool
  input_chunk_queue :: "input_update list option"

text \<open>The fields of \<^verbatim>\<open>EngineCoreRequest\<close> that the front end reads.\<close>

record front_request =
  fr_request_id :: string
  fr_external_req_id :: "string option"
  fr_prompt_token_ids :: "int list option"
  fr_prompt_embeds :: "bytes list option"
  fr_sampling_params :: "OutputParams option"
  fr_pooling_output_kind :: "RequestOutputKind option"
  fr_lora_request :: "LoRARequest option"
  fr_arrival_time :: rat
  fr_resumable :: bool

definition apply_streaming_update :: "input_update \<Rightarrow> 's RequestState \<Rightarrow> 's RequestState" where
  "apply_streaming_update u rs =
     (let ids = (case rs_prompt_token_ids rs of
                   Some (i # is) \<Rightarrow> (i # is) @ (case iu_prompt_token_ids u of None \<Rightarrow> [] | Some js \<Rightarrow> js)
                 | _ \<Rightarrow> (case iu_prompt_token_ids u of None \<Rightarrow> [] | Some js \<Rightarrow> js));
          prompt = (case iu_prompt u of
                      None \<Rightarrow> rs_prompt rs
                    | Some [] \<Rightarrow> rs_prompt rs
                    | Some t \<Rightarrow> (case rs_prompt rs of None \<Rightarrow> Some t | Some t' \<Rightarrow> Some (t' @ t)))
      in rs\<lparr>streaming_input := \<not> iu_final u, rs_prompt := prompt, rs_prompt_token_ids := Some ids,
            rs_prompt_len := int (length ids), is_prefilling := True\<rparr>)"

definition request_state_for ::
    "'s tokenizer_api option \<Rightarrow> int \<Rightarrow> front_request \<Rightarrow> py_str option \<Rightarrow> nat option \<Rightarrow> int \<Rightarrow> nat option
     \<Rightarrow> 's RequestState result" where
  "request_state_for tokenizer interval r prompt parent idx queue =
     bindE (case fr_sampling_params r of
              Some sp \<Rightarrow>
                (let tk = (if detokenize sp then tokenizer else None) in
                 bindE (detokenizer_for tk sp (fr_prompt_token_ids r) (fr_prompt_embeds r)) (\<lambda>d.
                 Inr (tk, output_kind sp, Some (new_logprobs_processor sp), Some d)))
            | None \<Rightarrow>
                bindE (of_option AssertionError (fr_pooling_output_kind r)) (\<lambda>kind. Inr (tokenizer, kind, None, None)))
       (\<lambda>(tk, kind, lp, d).
     bindE (of_option AssertionError (fr_external_req_id r)) (\<lambda>ext.
     bindE (length_from_prompt_token_ids_or_embeds (fr_prompt_token_ids r) (fr_prompt_embeds r)) (\<lambda>n.
     Inr \<lparr>rs_request_id = fr_request_id r, rs_external_req_id = ext, rs_parent = parent, rs_request_index = idx,
       rs_lora_request = fr_lora_request r, rs_output_kind = kind, rs_prompt = prompt,
       rs_prompt_token_ids = fr_prompt_token_ids r, rs_prompt_embeds = fr_prompt_embeds r, rs_prompt_len = n,
       rs_tokenizer = tk, rs_logprobs = lp, rs_detokenizer = d, is_prefilling = True, rs_queue = queue,
       rs_num_cached_tokens = 0, rs_stream_interval = interval, sent_tokens_offset = 0,
       streaming_input = fr_resumable r, input_chunk_queue = (if fr_resumable r then Some [] else None)\<rparr>)))"

subsection \<open>Making request outputs\<close>

text \<open>\<^verbatim>\<open>_new_completion_output\<close>. In delta mode \<^verbatim>\<open>logprobs[-len(token_ids):]\<close> is the end of the logprobs,
  or all of them when there are no token ids.\<close>

definition new_completion_output ::
    "int list \<Rightarrow> FinishReason option \<Rightarrow> StopReason option \<Rightarrow> int list option \<Rightarrow> 's RequestState
     \<Rightarrow> ('s RequestState \<times> CompletionOutput) result" where
  "new_completion_output token_ids reason stop experts rs =
     bindE (of_option AssertionError (rs_detokenizer rs)) (\<lambda>d.
     bindE (of_option AssertionError (rs_logprobs rs)) (\<lambda>lp.
     let delta = (rs_output_kind rs = DELTA);
         (d, t) = detokenizer_next_text (reason \<noteq> None) delta d;
         ids = (if delta then token_ids else detokenizer_token_ids d)
     in bindE (if delta \<and> container_nonempty (lp_logprobs lp)
               then bindE (container_slice (the (lp_logprobs lp)) (- int (length ids)) None) (\<lambda>c. Inr (Some c))
               else Inr (lp_logprobs lp)) (\<lambda>lps.
     Inr (rs\<lparr>rs_detokenizer := Some d\<rparr>,
       \<lparr>co_index = rs_request_index rs, co_text = t, co_token_ids = ids,
        co_cumulative_logprob = cumulative_logprob lp, co_logprobs = lps, co_routed_experts = experts,
        co_finish_reason = reason, co_stop_reason = (if reason \<noteq> None then stop else None)\<rparr>))))"

definition new_pooling_request_output ::
    "string \<Rightarrow> bytes \<Rightarrow> bool \<Rightarrow> 's RequestState \<Rightarrow> request_output result" where
  "new_pooling_request_output ext data finished rs =
     bindE (of_option AssertionError (rs_prompt_token_ids rs)) (\<lambda>ids.
     Inr (Pooling \<lparr>po_request_id = ext, po_data = data, po_num_cached_tokens = rs_num_cached_tokens rs,
       po_prompt_token_ids = ids, po_finished = finished\<rparr>))"

definition new_request_output ::
    "string \<Rightarrow> CompletionOutput option list \<Rightarrow> bool \<Rightarrow> kv_params \<Rightarrow> 's RequestState
     \<Rightarrow> ('s RequestState \<times> request_output) result" where
  "new_request_output ext outs finished kv rs =
     bindE (of_option AssertionError (rs_logprobs rs)) (\<lambda>lp.
     let (lp, plp) = (if rs_output_kind rs = DELTA then pop_prompt_logprobs lp else (lp, lp_prompt_logprobs lp));
         ids = (case (rs_prompt_token_ids rs, rs_prompt_embeds rs) of
                  (None, Some es) \<Rightarrow> Some (replicate (length es) 0)
                | (ids, _) \<Rightarrow> ids)
     in Inr (rs\<lparr>rs_logprobs := Some lp\<rparr>,
          Completion \<lparr>ro_request_id = ext, ro_lora_request = rs_lora_request rs, ro_prompt = rs_prompt rs,
            ro_prompt_token_ids = ids, ro_prompt_logprobs = plp, ro_outputs = outs, ro_finished = finished,
            ro_kv_transfer_params = kv, ro_num_cached_tokens = Some (rs_num_cached_tokens rs)\<rparr>))"

text \<open>The stream interval: whether an output is due, and the tokens it carries.\<close>

definition stream_due :: "bool \<Rightarrow> 's RequestState \<Rightarrow> bool result" where
  "stream_due finished rs =
     (if rs_stream_interval rs > 1
      then bindE (of_option AssertionError (rs_detokenizer rs)) (\<lambda>d.
           Inr (finished \<or> sent_tokens_offset rs = 0
             \<or> int (length (detokenizer_token_ids d)) - sent_tokens_offset rs \<ge> rs_stream_interval rs))
      else Inr True)"

definition take_interval :: "int list \<Rightarrow> 's RequestState \<Rightarrow> 's RequestState \<times> int list" where
  "take_interval new_ids rs = (case rs_detokenizer rs of
     Some d \<Rightarrow>
       if rs_stream_interval rs > 1 \<and> rs_output_kind rs = DELTA
       then (rs\<lparr>sent_tokens_offset := int (length (detokenizer_token_ids d))\<rparr>,
             slice_from (detokenizer_token_ids d) (sent_tokens_offset rs))
       else (rs, new_ids)
   | None \<Rightarrow> (rs, new_ids))"

definition parent_outputs ::
    "(nat \<Rightarrow> ParentRequest) \<Rightarrow> CompletionOutput \<Rightarrow> bool \<Rightarrow> 's RequestState
     \<Rightarrow> ((nat \<Rightarrow> ParentRequest) \<times> string \<times> CompletionOutput option list \<times> bool) result" where
  "parent_outputs ps c finished rs = (case rs_parent rs of
     None \<Rightarrow> Inr (ps, rs_external_req_id rs, [Some c], finished)
   | Some p \<Rightarrow>
       bindE (get_outputs (rs_request_id rs) c (ps p)) (\<lambda>(p', outs, finished).
       Inr (ps(p := p'), pr_external_req_id p', outs, finished)))"

definition make_request_output ::
    "int list \<Rightarrow> bytes option \<Rightarrow> FinishReason option \<Rightarrow> StopReason option \<Rightarrow> kv_params \<Rightarrow> int list option
     \<Rightarrow> 's RequestState \<Rightarrow> (nat \<Rightarrow> ParentRequest)
     \<Rightarrow> ('s RequestState \<times> (nat \<Rightarrow> ParentRequest) \<times> request_output option) result" where
  "make_request_output new_ids pooling reason stop kv experts rs ps =
     (let finished = (reason \<noteq> None) in
      if \<not> finished \<and> rs_output_kind rs = FINAL_ONLY then Inr (rs, ps, None)
      else bindE (stream_due finished rs) (\<lambda>due.
      if \<not> due then Inr (rs, ps, None)
      else let (rs, new_ids) = take_interval new_ids rs in
      case pooling of
        Some data \<Rightarrow>
          bindE (new_pooling_request_output (rs_external_req_id rs) data finished rs) (\<lambda>out. Inr (rs, ps, Some out))
      | None \<Rightarrow>
          bindE (new_completion_output new_ids reason stop experts rs) (\<lambda>(rs, c).
          bindE (parent_outputs ps c finished rs) (\<lambda>(ps, ext, outs, finished).
          if outs = [] then Inr (rs, ps, None)
          else bindE (new_request_output ext outs finished kv rs) (\<lambda>(rs, out). Inr (rs, ps, Some out))))))"

subsection \<open>The processor\<close>

record 's OutputProcessor =
  op_tokenizer :: "'s tokenizer_api option"
  op_stream_interval :: int
  request_states :: "(string \<times> 's RequestState) list"
  parent_requests :: "(string \<times> nat) list"
  external_req_ids :: "(string \<times> string list) list"
  parent_objects :: "nat \<Rightarrow> ParentRequest"
  collectors :: "nat \<Rightarrow> RequestOutputCollector"
  requests_drained :: bool

definition output_processor_init ::
    "'s tokenizer_api option \<Rightarrow> int \<Rightarrow> (nat \<Rightarrow> ParentRequest) \<Rightarrow> (nat \<Rightarrow> RequestOutputCollector) \<Rightarrow> 's OutputProcessor" where
  "output_processor_init tk interval ps qs =
     \<lparr>op_tokenizer = tk, op_stream_interval = interval, request_states = [], parent_requests = [],
      external_req_ids = [], parent_objects = ps, collectors = qs, requests_drained = True\<rparr>"

definition op_get_num_unfinished_requests :: "'s OutputProcessor \<Rightarrow> int" where
  "op_get_num_unfinished_requests op = int (length (request_states op))"

definition put_to :: "nat \<Rightarrow> collected \<Rightarrow> 's OutputProcessor \<Rightarrow> 's OutputProcessor result" where
  "put_to q out op =
     bindE (collector_put out (collectors op q)) (\<lambda>c. Inr (op\<lparr>collectors := (collectors op)(q := c)\<rparr>))"

definition propagate_error :: "py_error \<Rightarrow> 's OutputProcessor \<Rightarrow> 's OutputProcessor result" where
  "propagate_error e op =
     foldE (\<lambda>(_, rs) op. bindE (of_option AssertionError (rs_queue rs)) (\<lambda>q. put_to q (Raised e) op)) (request_states op) op"

text \<open>The map from external to internal ids is a \<^verbatim>\<open>defaultdict(list)\<close>; an id list that becomes empty is deleted.\<close>

definition internal_ids :: "string \<Rightarrow> 's OutputProcessor \<Rightarrow> string list" where
  "internal_ids ext op = (case map_of (external_req_ids op) ext of None \<Rightarrow> [] | Some ids \<Rightarrow> ids)"

definition forget_internal :: "string \<Rightarrow> string \<Rightarrow> 's OutputProcessor \<Rightarrow> 's OutputProcessor result" where
  "forget_internal ext rid op =
     (let ids = internal_ids ext op in
      if rid \<notin> set ids then Inl ValueError
      else let ids = remove1 rid ids in
        Inr (op\<lparr>external_req_ids := (if ids = [] then AList.delete ext (external_req_ids op)
                                     else AList.update ext ids (external_req_ids op))\<rparr>))"

definition finish_request_state :: "'s RequestState \<Rightarrow> 's OutputProcessor \<Rightarrow> 's OutputProcessor result" where
  "finish_request_state rs op =
     (let rid = rs_request_id rs in
      if map_of (request_states op) rid = None then Inl KeyError
      else
        bindE (forget_internal (rs_external_req_id rs) rid
                 (op\<lparr>request_states := AList.delete rid (request_states op)\<rparr>)) (\<lambda>op.
        let op = (case rs_parent rs of
                    Some p \<Rightarrow>
                      if child_requests (parent_objects op p) = []
                      then op\<lparr>parent_requests := AList.delete (pr_request_id (parent_objects op p)) (parent_requests op)\<rparr>
                      else op
                  | None \<Rightarrow> op)
        in Inr (if request_states op = [] then op\<lparr>requests_drained := True\<rparr> else op)))"

subsection \<open>Adding requests\<close>

definition store_state :: "'s RequestState \<Rightarrow> 's OutputProcessor \<Rightarrow> 's OutputProcessor" where
  "store_state rs op = op\<lparr>request_states := AList.update (rs_request_id rs) rs (request_states op)\<rparr>"

definition update_streaming_request_state ::
    "'s RequestState \<Rightarrow> front_request \<Rightarrow> py_str option \<Rightarrow> 's OutputProcessor \<Rightarrow> 's OutputProcessor result" where
  "update_streaming_request_state rs r prompt op =
     (if \<not> fr_resumable r
      then (case input_chunk_queue rs of
              None \<Rightarrow>
                bindE (finish_request_state rs op) (\<lambda>op.
                case rs_queue rs of
                  None \<Rightarrow> Inr op
                | Some q \<Rightarrow> put_to q (Collected (Completion STREAM_FINISHED)) op)
            | Some [] \<Rightarrow> Inr (store_state (rs\<lparr>streaming_input := False\<rparr>) op)
            | Some us \<Rightarrow>
                Inr (store_state (rs\<lparr>input_chunk_queue := Some (butlast us @ [(last us)\<lparr>iu_final := True\<rparr>])\<rparr>) op))
      else
        let u = \<lparr>iu_prompt = prompt, iu_prompt_token_ids = fr_prompt_token_ids r,
                 iu_arrival_time = fr_arrival_time r, iu_final = False\<rparr>
        in Inr (store_state
             (case input_chunk_queue rs of
                None \<Rightarrow> (apply_streaming_update u rs)\<lparr>input_chunk_queue := Some []\<rparr>
              | Some us \<Rightarrow> rs\<lparr>input_chunk_queue := Some (us @ [u])\<rparr>) op))"

definition op_add_request ::
    "front_request \<Rightarrow> py_str option \<Rightarrow> nat option \<Rightarrow> int \<Rightarrow> nat option \<Rightarrow> 's OutputProcessor
     \<Rightarrow> 's OutputProcessor result" where
  "op_add_request r prompt parent idx queue op = (case map_of (request_states op) (fr_request_id r) of
     Some rs \<Rightarrow> update_streaming_request_state rs r prompt op
   | None \<Rightarrow>
       bindE (request_state_for (op_tokenizer op) (op_stream_interval op) r prompt parent idx queue) (\<lambda>rs.
       let op = store_state rs (op\<lparr>requests_drained := False\<rparr>);
           op = (case parent of
                   None \<Rightarrow> op
                 | Some p \<Rightarrow> op\<lparr>parent_requests := AList.update (pr_request_id (parent_objects op p)) p (parent_requests op)\<rparr>)
       in Inr (op\<lparr>external_req_ids := AList.update (rs_external_req_id rs)
                    (internal_ids (rs_external_req_id rs) op @ [rs_request_id rs]) (external_req_ids op)\<rparr>)))"

subsection \<open>Aborting requests\<close>

definition resolve_id :: "bool \<Rightarrow> string \<Rightarrow> 's OutputProcessor \<times> string list \<Rightarrow> ('s OutputProcessor \<times> string list) result" where
  "resolve_id internal rid = (\<lambda>(op, ids).
     if internal
     then bindE (case map_of (request_states op) rid of
                   None \<Rightarrow> Inr op
                 | Some rs \<Rightarrow> forget_internal (rs_external_req_id rs) rid op) (\<lambda>op. Inr (op, ids @ [rid]))
     else Inr (op\<lparr>external_req_ids := AList.delete rid (external_req_ids op)\<rparr>, ids @ internal_ids rid op))"

definition abort_state :: "'s RequestState \<Rightarrow> 's OutputProcessor \<Rightarrow> 's OutputProcessor result" where
  "abort_state rs op = (case rs_queue rs of
     None \<Rightarrow> Inr op
   | Some q \<Rightarrow>
       bindE (make_request_output [] (if rs_detokenizer rs = None then Some [] else None) (Some REASON_ABORT) None None
                None rs (parent_objects op)) (\<lambda>(_, ps, out).
       let op = op\<lparr>parent_objects := ps\<rparr> in
       case out of None \<Rightarrow> Inr op | Some out \<Rightarrow> put_to q (Collected out) op))"

definition abort_one ::
    "(string list \<Rightarrow> 's OutputProcessor \<Rightarrow> ('s OutputProcessor \<times> string list) result) \<Rightarrow> string
     \<Rightarrow> 's OutputProcessor \<times> string list \<Rightarrow> ('s OutputProcessor \<times> string list) result" where
  "abort_one abort_children rid = (\<lambda>(op, aborted). case map_of (request_states op) rid of
     Some rs \<Rightarrow>
       bindE (abort_state rs (op\<lparr>request_states := AList.delete rid (request_states op)\<rparr>)) (\<lambda>op.
       Inr (op, aborted @ [rid]))
   | None \<Rightarrow> (case map_of (parent_requests op) rid of
       None \<Rightarrow> Inr (op, aborted)
     | Some p \<Rightarrow>
         bindE (if child_requests (parent_objects op p) = [] then Inr (op, [])
                else abort_children (child_requests (parent_objects op p)) op) (\<lambda>(op, more).
         Inr (op\<lparr>parent_requests := AList.delete rid (parent_requests op)\<rparr>, aborted @ more))))"

text \<open>
  The method calls itself for the children of a parent. The fuel bounds the depth of these calls; running out of it
  stands for the \<^verbatim>\<open>RecursionError\<close> of a parent that is among its own descendants. Children are no parents, so depth two
  suffices.
\<close>

fun abort_requests :: "nat \<Rightarrow> bool \<Rightarrow> string list \<Rightarrow> 's OutputProcessor \<Rightarrow> ('s OutputProcessor \<times> string list) result" where
  "abort_requests 0 internal rids op = Inl NonTermination"
| "abort_requests (Suc n) internal rids op =
     bindE (foldE (resolve_id internal) rids (op, [])) (\<lambda>(op, ids).
     bindE (foldE (abort_one (abort_requests n True)) ids (op, [])) (\<lambda>(op, aborted).
     Inr (if request_states op = [] then op\<lparr>requests_drained := True\<rparr> else op, aborted)))"

subsection \<open>Processing the outputs of the engine core\<close>

record front_output = EngineCoreOutput +
  eco_new_logprobs :: "(int list list \<times> rat list list \<times> int list) option"
  eco_new_prompt_logprobs :: "(int list list \<times> rat list list \<times> int list) option"

text \<open>Detokenization, stop strings and logprobs of one output.\<close>

definition detokenize_output ::
    "front_output \<Rightarrow> 's RequestState \<Rightarrow> ('s RequestState \<times> FinishReason option \<times> StopReason option) result" where
  "detokenize_output eo rs =
     bindE (of_option AssertionError (rs_detokenizer rs)) (\<lambda>d.
     bindE (of_option AssertionError (rs_logprobs rs)) (\<lambda>lp.
     bindE (detokenizer_update (rs_tokenizer rs) (eco_new_token_ids eo) (eco_finish_reason eo = Some REASON_STOP) d)
       (\<lambda>(d, w).
     bindE (logprobs_update_from_output (rs_tokenizer rs) (eco_new_logprobs eo) (eco_new_prompt_logprobs eo) lp) (\<lambda>lp.
     let core_reason = map_option StopToken (eco_stop_reason eo);
         (reason, stop) = (case w of
            Some (c # cs) \<Rightarrow> (Some REASON_STOP, Some (StopString (c # cs)))
          | _ \<Rightarrow> (eco_finish_reason eo, core_reason))
     in Inr (rs\<lparr>rs_detokenizer := Some d, rs_logprobs := Some lp\<rparr>, reason, stop)))))"

definition not_finished :: "request_output \<Rightarrow> request_output" where
  "not_finished out = (case out of
     Completion ro \<Rightarrow> Completion (ro\<lparr>ro_finished := False\<rparr>)
   | Pooling po \<Rightarrow> Pooling (po\<lparr>po_finished := False\<rparr>))"

definition deliver ::
    "'s RequestState \<Rightarrow> request_output option \<Rightarrow> 's OutputProcessor \<Rightarrow> request_output list
     \<Rightarrow> ('s OutputProcessor \<times> request_output list) result" where
  "deliver rs out op outs = (case out of
     None \<Rightarrow> Inr (op, outs)
   | Some out \<Rightarrow>
       let out = (if streaming_input rs then not_finished out else out) in
       case rs_queue rs of
         Some q \<Rightarrow> bindE (put_to q (Collected out) op) (\<lambda>op. Inr (op, outs))
       | None \<Rightarrow> Inr (op, outs @ [out]))"

text \<open>What becomes of a request whose output finished it.\<close>

definition close_output ::
    "bool \<Rightarrow> 's RequestState \<Rightarrow> 's OutputProcessor \<Rightarrow> string list \<Rightarrow> ('s OutputProcessor \<times> string list) result" where
  "close_output core_finished rs op aborts =
     (if streaming_input rs
      then Inr (store_state (case input_chunk_queue rs of
                  Some (u # us) \<Rightarrow> apply_streaming_update u (rs\<lparr>input_chunk_queue := Some us\<rparr>)
                | _ \<Rightarrow> rs\<lparr>input_chunk_queue := None\<rparr>) op, aborts)
      else bindE (finish_request_state rs op) (\<lambda>op.
           Inr (op, if core_finished then aborts else aborts @ [rs_request_id rs])))"

definition process_one ::
    "front_output \<Rightarrow> 's OutputProcessor \<times> request_output list \<times> string list
     \<Rightarrow> ('s OutputProcessor \<times> request_output list \<times> string list) result" where
  "process_one eo = (\<lambda>(op, outs, aborts). case map_of (request_states op) (eco_request_id eo) of
     None \<Rightarrow> Inr (op, outs, aborts)
   | Some rs \<Rightarrow>
       let rs = rs\<lparr>rs_num_cached_tokens := eco_num_cached_tokens eo, is_prefilling := False\<rparr> in
       bindE (if eco_pooling_output eo = None then detokenize_output eo rs
              else Inr (rs, eco_finish_reason eo, map_option StopToken (eco_stop_reason eo))) (\<lambda>(rs, reason, stop).
       bindE (make_request_output (eco_new_token_ids eo) (eco_pooling_output eo) reason stop (eco_kv_transfer_params eo)
                (eco_routed_experts eo) rs (parent_objects op)) (\<lambda>(rs, ps, out).
       bindE (deliver rs out (store_state rs (op\<lparr>parent_objects := ps\<rparr>)) outs) (\<lambda>(op, outs).
       if reason = None then Inr (op, outs, aborts)
       else bindE (close_output (eco_finish_reason eo \<noteq> None) rs op aborts) (\<lambda>(op, aborts).
            Inr (op, outs, aborts))))))"

definition process_outputs ::
    "front_output list \<Rightarrow> 's OutputProcessor \<Rightarrow> ('s OutputProcessor \<times> request_output list \<times> string list) result" where
  "process_outputs eos op = foldE process_one eos (op, [], [])"

end
