(* ===== verification/Output_Tracking.thy ===== *)
theory Output_Tracking
  imports Output_Processor
begin

section \<open>What the output processor keeps of its requests\<close>

text \<open>
  The invariant of the tables of \<^verbatim>\<open>OutputProcessor\<close> over all sequences of its methods (\<open>op_step\<close>,
  \<open>op_reach\<close>): \<open>tracked\<close> relates the map from external ids to the request states, also in the middle of an abort.
\<close>

subsection \<open>Which requests are live\<close>

text \<open>
  \<open>tracked X\<close>: the map from external ids lists every live request except those in \<open>X\<close> (which an abort has already
  taken out of the map) exactly once under its external id, and nothing else.
\<close>

definition live_under :: "'s OutputProcessor \<Rightarrow> string \<Rightarrow> string set" where
  "live_under op ext = {rid. \<exists>rs. map_of (request_states op) rid = Some rs \<and> rs_external_req_id rs = ext}"

definition tracked :: "string set \<Rightarrow> 's OutputProcessor \<Rightarrow> bool" where
  "tracked X op \<longleftrightarrow> (\<forall>rid rs. map_of (request_states op) rid = Some rs \<longrightarrow> rs_request_id rs = rid)
     \<and> (\<forall>ext. distinct (internal_ids ext op) \<and> set (internal_ids ext op) = live_under op ext - X)
     \<and> (\<forall>ext. map_of (external_req_ids op) ext \<noteq> Some [])
     \<and> (requests_drained op \<longrightarrow> request_states op = [])"

definition op_inv :: "'s OutputProcessor \<Rightarrow> bool" where
  "op_inv op \<longleftrightarrow> tracked {} op \<and> (requests_drained op \<longleftrightarrow> request_states op = [])"

text \<open>Operations that leave the tables alone.\<close>

definition same_tables :: "'s OutputProcessor \<Rightarrow> 's OutputProcessor \<Rightarrow> bool" where
  "same_tables op op' \<longleftrightarrow> request_states op' = request_states op \<and> external_req_ids op' = external_req_ids op
     \<and> requests_drained op' = requests_drained op"

lemma same_tables_tracked: "same_tables op op' \<Longrightarrow> tracked X op' = tracked X op \<and> op_inv op' = op_inv op"
  by (simp add: same_tables_def tracked_def op_inv_def internal_ids_def live_under_def)

lemma put_to_tables: "put_to q out op = Inr op' \<Longrightarrow> same_tables op op'"
  by (auto simp: put_to_def same_tables_def elim!: bindE_InrE)

lemma propagate_error_tables: "propagate_error e op = Inr op' \<Longrightarrow> same_tables op op'"
  unfolding propagate_error_def
  by (rule foldE_invariant [where P = "same_tables op"])
    (auto simp: same_tables_def dest!: put_to_tables elim!: bindE_InrE split: prod.splits)

lemma abort_state_tables: "abort_state rs op = Inr op' \<Longrightarrow> same_tables op op'"
  by (auto simp: abort_state_def same_tables_def Let_def dest!: put_to_tables elim!: bindE_InrE split: option.splits)

lemma internal_ids_update:
  "internal_ids e (op\<lparr>external_req_ids := AList.update k v (external_req_ids op)\<rparr>) = (if e = k then v else internal_ids e op)"
  "internal_ids e (op\<lparr>external_req_ids := AList.delete k (external_req_ids op)\<rparr>) = (if e = k then [] else internal_ids e op)"
  by (simp_all add: internal_ids_def AList.update_conv' AList.delete_conv')

lemma forget_internal_tracked:
  assumes "forget_internal ext rid op = Inr op'" and "tracked X op"
  shows "tracked (insert rid X) op' \<and> request_states op' = request_states op \<and> requests_drained op' = requests_drained op
    \<and> rid \<in> live_under op ext - X"
proof -
  from assms(1) have mem: "rid \<in> set (internal_ids ext op)"
    and op': "op' = op\<lparr>external_req_ids := (if remove1 rid (internal_ids ext op) = [] then AList.delete ext (external_req_ids op)
      else AList.update ext (remove1 rid (internal_ids ext op)) (external_req_ids op))\<rparr>"
    by (auto simp: forget_internal_def Let_def split: if_splits)
  have ids: "internal_ids e op' = (if e = ext then remove1 rid (internal_ids ext op) else internal_ids e op)" for e
    unfolding op' by (simp add: internal_ids_update)
  have sets: "set (internal_ids e op) = live_under op e - X" "distinct (internal_ids e op)" for e
    using assms(2) by (simp_all add: tracked_def)
  have rid: "rid \<in> live_under op ext - X" using mem sets(1) by blast
  then have other: "e \<noteq> ext \<Longrightarrow> rid \<notin> live_under op e" for e by (auto simp: live_under_def)
  have live: "live_under op' e = live_under op e" for e unfolding op' by (simp add: live_under_def)
  have "tracked (insert rid X) op'"
    unfolding tracked_def
  proof (intro conjI allI)
    fix e
    show "distinct (internal_ids e op')" using sets(2) by (simp add: ids)
    show "set (internal_ids e op') = live_under op' e - insert rid X"
      using sets other by (auto simp: ids live set_remove1_eq)
    show "map_of (external_req_ids op') e \<noteq> Some []"
      using assms(2) unfolding op' by (auto simp: tracked_def AList.update_conv' AList.delete_conv')
  qed (use assms(2) in \<open>auto simp: tracked_def op'\<close>)
  then show ?thesis using rid unfolding op' by simp
qed

lemma drop_state_tracked:
  assumes "tracked X op" and "rid \<in> X"
  shows "tracked X (op\<lparr>request_states := AList.delete rid (request_states op)\<rparr>)"
  using assms
  by (auto simp: tracked_def live_under_def internal_ids_def AList.delete_conv' split: if_splits)


lemma tracked_insert_dead: "tracked X op \<Longrightarrow> map_of (request_states op) rid = None \<Longrightarrow> tracked (insert rid X) op"
  by (auto simp: tracked_def live_under_def)

lemma resolve_id_tracked:
  assumes "resolve_id internal rid (op, ids) = Inr (op', ids')" and "tracked (X \<union> set ids) op"
  shows "tracked (X \<union> set ids') op' \<and> request_states op' = request_states op \<and> requests_drained op' = requests_drained op"
proof (cases internal)
  case True
  then have ids': "set ids' = insert rid (set ids)" using assms(1) by (auto simp: resolve_id_def elim!: bindE_InrE)
  show ?thesis
  proof (cases "map_of (request_states op) rid")
    case None
    then have "op' = op" using assms(1) True by (simp add: resolve_id_def)
    then show ?thesis using tracked_insert_dead [OF assms(2) None] ids' by simp
  next
    case (Some rs)
    then have "forget_internal (rs_external_req_id rs) rid op = Inr op'"
      using assms(1) True by (auto simp: resolve_id_def elim!: bindE_InrE)
    from forget_internal_tracked [OF this assms(2)] show ?thesis using ids' by simp
  qed
next
  case False
  then have op': "op' = op\<lparr>external_req_ids := AList.delete rid (external_req_ids op)\<rparr>" and ids': "ids' = ids @ internal_ids rid op"
    using assms(1) by (auto simp: resolve_id_def)
  have keep: "e \<noteq> rid \<Longrightarrow> live_under op e \<inter> set (internal_ids rid op) = {}" for e
    using assms(2) by (auto simp: tracked_def live_under_def)
  have live: "live_under op' e = live_under op e" for e unfolding op' by (simp add: live_under_def)
  have ext_ids: "internal_ids e op' = (if e = rid then [] else internal_ids e op)" for e
    unfolding op' by (simp add: internal_ids_update)
  have "tracked (X \<union> set ids') op'"
    unfolding tracked_def
  proof (intro conjI allI)
    fix e
    show "distinct (internal_ids e op')" using assms(2) by (simp add: ext_ids tracked_def)
    show "set (internal_ids e op') = live_under op' e - (X \<union> set ids')"
      using assms(2) keep [of e] unfolding live by (cases "e = rid") (auto simp: ext_ids ids' tracked_def)
    show "map_of (external_req_ids op') e \<noteq> Some []"
      using assms(2) unfolding op' by (simp add: tracked_def AList.delete_conv')
  qed (use assms(2) in \<open>auto simp: tracked_def op'\<close>)
  then show ?thesis unfolding op' by simp
qed

lemma resolve_ids_tracked:
  assumes "foldE (resolve_id internal) rids (op, ids) = Inr (op', ids')" and "tracked (X \<union> set ids) op"
  shows "tracked (X \<union> set ids') op' \<and> request_states op' = request_states op \<and> requests_drained op' = requests_drained op"
  using assms
proof (induction rids arbitrary: op ids)
  case (Cons rid rids)
  obtain op1 ids1 where "resolve_id internal rid (op, ids) = Inr (op1, ids1)"
    "foldE (resolve_id internal) rids (op1, ids1) = Inr (op', ids')"
    using Cons.prems(1) by (auto elim!: bindE_InrE)
  with resolve_id_tracked [OF this(1) Cons.prems(2)] Cons.IH show ?case by auto
qed simp

text \<open>An abort only removes request states.\<close>

definition fewer_states :: "'s OutputProcessor \<Rightarrow> 's OutputProcessor \<Rightarrow> bool" where
  "fewer_states op op' \<longleftrightarrow> (\<forall>rid. map_of (request_states op') rid = None
     \<or> map_of (request_states op') rid = map_of (request_states op) rid)"

lemma fewer_states_trans: "fewer_states op op1 \<Longrightarrow> fewer_states op1 op' \<Longrightarrow> fewer_states op op'"
  unfolding fewer_states_def by metis

lemma abort_one_tracked:
  assumes "abort_one f rid (op, aborted) = Inr (op', aborted')" and "tracked X op" and "rid \<in> X"
    and sub: "\<forall>ids op1 op2 more. f ids op1 = Inr (op2, more) \<and> tracked X op1 \<longrightarrow> tracked X op2 \<and> fewer_states op1 op2"
  shows "tracked X op' \<and> fewer_states op op' \<and> map_of (request_states op') rid = None"
proof (cases "map_of (request_states op) rid")
  case (Some rs)
  then have "abort_state rs (op\<lparr>request_states := AList.delete rid (request_states op)\<rparr>) = Inr op'"
    using assms(1) by (auto simp: abort_one_def elim!: bindE_InrE)
  from abort_state_tables [OF this] drop_state_tracked [OF assms(2,3)] show ?thesis
    by (auto simp: same_tables_tracked fewer_states_def same_tables_def AList.delete_conv' tracked_def live_under_def internal_ids_def)
next
  case None
  note dead = this
  show ?thesis
  proof (cases "map_of (parent_requests op) rid")
    case None
    then show ?thesis using assms(1,2) dead by (auto simp: abort_one_def fewer_states_def)
  next
    case (Some p)
    then obtain op1 more where op1: "(if child_requests (parent_objects op p) = [] then Inr (op, [])
        else f (child_requests (parent_objects op p)) op) = Inr (op1, more)"
      and op': "op' = op1\<lparr>parent_requests := AList.delete rid (parent_requests op1)\<rparr>"
      using assms(1) dead by (auto simp: abort_one_def simp del: if_split elim!: bindE_InrE)
    from op1 have op1: "tracked X op1 \<and> fewer_states op op1"
    proof (cases "child_requests (parent_objects op p) = []")
      case True
      with op1 assms(2) show ?thesis by (simp add: fewer_states_def)
    next
      case False
      with op1 have "f (child_requests (parent_objects op p)) op = Inr (op1, more)" by simp
      with sub assms(2) show ?thesis by blast
    qed
    have "same_tables op1 op'" unfolding op' by (simp add: same_tables_def)
    then have "tracked X op'" "request_states op' = request_states op1" using op1 same_tables_tracked
      by (blast, simp add: same_tables_def)
    then show ?thesis using op1 dead by (auto simp: fewer_states_def)
  qed
qed

lemma abort_loop_tracked:
  assumes "foldE (abort_one f) ids (op, aborted) = Inr (op', aborted')" and "tracked X op" and "set ids \<subseteq> X"
    and sub: "\<forall>ids op1 op2 more. f ids op1 = Inr (op2, more) \<and> tracked X op1 \<longrightarrow> tracked X op2 \<and> fewer_states op1 op2"
  shows "tracked X op' \<and> fewer_states op op' \<and> (\<forall>rid\<in>set ids. map_of (request_states op') rid = None)"
  using assms(1-3)
proof (induction ids arbitrary: op aborted)
  case (Cons rid ids)
  obtain op1 aborted1 where one: "abort_one f rid (op, aborted) = Inr (op1, aborted1)"
    and rest: "foldE (abort_one f) ids (op1, aborted1) = Inr (op', aborted')"
    using Cons.prems(1) by (auto elim!: bindE_InrE)
  have "rid \<in> X" using Cons.prems(3) by simp
  note s1 = abort_one_tracked [OF one Cons.prems(2) this sub]
  have s2: "tracked X op' \<and> fewer_states op1 op' \<and> (\<forall>rid\<in>set ids. map_of (request_states op') rid = None)"
    using Cons.IH [OF rest] s1 Cons.prems(3) by auto
  then have "map_of (request_states op') rid = None" using s1 unfolding fewer_states_def by metis
  then show ?case using s1 s2 fewer_states_trans by auto
qed (simp add: fewer_states_def)

lemma abort_requests_tracked:
  assumes "abort_requests n internal rids op = Inr (op', aborted)" and "tracked X op"
  shows "tracked X op' \<and> fewer_states op op' \<and> (request_states op' = [] \<longrightarrow> requests_drained op')"
  using assms
proof (induction n arbitrary: internal rids op op' aborted X)
  case (Suc n)
  obtain op1 ids op2 where res: "foldE (resolve_id internal) rids (op, []) = Inr (op1, ids)"
    and loop: "foldE (abort_one (abort_requests n True)) ids (op1, []) = Inr (op2, aborted)"
    and op': "op' = (if request_states op2 = [] then op2\<lparr>requests_drained := True\<rparr> else op2)"
    using Suc.prems(1) by (auto elim!: bindE_InrE)
  have r: "tracked (X \<union> set ids) op1" "request_states op1 = request_states op"
    using resolve_ids_tracked [OF res] Suc.prems(2) by auto
  have l: "tracked (X \<union> set ids) op2 \<and> fewer_states op1 op2 \<and> (\<forall>rid\<in>set ids. map_of (request_states op2) rid = None)"
    by (rule abort_loop_tracked [OF loop r(1)]) (use Suc.IH in auto)
  then have "tracked X op2" by (auto simp: tracked_def live_under_def)
  then have "tracked X op'" unfolding op' by (simp add: tracked_def internal_ids_def live_under_def)
  moreover have "fewer_states op op'" using l r(2) unfolding op' by (simp add: fewer_states_def)
  ultimately show ?case by (simp add: op')
qed simp


subsection \<open>Every operation keeps the tables in step\<close>

definition same_request :: "'s RequestState \<Rightarrow> 's RequestState \<Rightarrow> bool" where
  "same_request rs rs' \<longleftrightarrow> rs_request_id rs' = rs_request_id rs \<and> rs_external_req_id rs' = rs_external_req_id rs"

lemma apply_streaming_update_request [simp]:
  "rs_request_id (apply_streaming_update u rs) = rs_request_id rs"
  "rs_external_req_id (apply_streaming_update u rs) = rs_external_req_id rs"
  by (simp_all add: apply_streaming_update_def Let_def)

lemma take_interval_request: "take_interval ids rs = (rs', ids') \<Longrightarrow> same_request rs rs'"
  by (auto simp: take_interval_def same_request_def split: option.splits if_splits)

lemma new_completion_output_request: "new_completion_output ids reason stop experts rs = Inr (rs', c) \<Longrightarrow> same_request rs rs'"
  by (auto simp: new_completion_output_def same_request_def Let_def split: prod.splits elim!: bindE_InrE)

lemma new_request_output_request: "new_request_output ext outs fin kv rs = Inr (rs', out) \<Longrightarrow> same_request rs rs'"
  by (auto simp: new_request_output_def same_request_def Let_def split: prod.splits elim!: bindE_InrE)

lemma make_request_output_request:
  assumes "make_request_output ids pooling reason stop kv experts rs ps = Inr (rs', ps', out)"
  shows "same_request rs rs'"
proof (cases "reason = None \<and> rs_output_kind rs = FINAL_ONLY")
  case True
  then show ?thesis using assms by (simp add: make_request_output_def same_request_def)
next
  case False
  then obtain due where due: "stream_due (reason \<noteq> None) rs = Inr due"
    using assms by (auto simp: make_request_output_def Let_def split: if_splits elim!: bindE_InrE)
  obtain rs1 ids1 where t: "take_interval ids rs = (rs1, ids1)" by (cases "take_interval ids rs")
  note r1 = take_interval_request [OF t]
  show ?thesis
  proof (cases due)
    case False
    then show ?thesis using assms due \<open>\<not> (reason = None \<and> _)\<close> by (auto simp: make_request_output_def same_request_def)
  next
    case True
    then show ?thesis
      using assms due \<open>\<not> (reason = None \<and> _)\<close> t r1
      by (cases pooling)
        (auto simp: make_request_output_def same_request_def Let_def dest!: new_completion_output_request
          new_request_output_request split: if_splits elim!: bindE_InrE)
  qed
qed

lemma detokenize_output_request: "detokenize_output eo rs = Inr (rs', reason, stop) \<Longrightarrow> same_request rs rs'"
  by (auto simp: detokenize_output_def same_request_def Let_def split: option.splits list.splits elim!: bindE_InrE)

lemma store_state_inv:
  assumes "op_inv op" and "map_of (request_states op) (rs_request_id rs) = Some rs0"
    and "rs_external_req_id rs = rs_external_req_id rs0"
  shows "op_inv (store_state rs op)"
proof -
  have states: "map_of (request_states (store_state rs op)) = (map_of (request_states op))(rs_request_id rs \<mapsto> rs)"
    by (simp add: store_state_def AList.update_conv')
  have live: "live_under (store_state rs op) e = live_under op e" for e
    unfolding live_under_def states using assms(2,3) by auto
  have "request_states op \<noteq> []" using assms(2) by auto
  moreover have "request_states (store_state rs op) \<noteq> []" using states by (metis fun_upd_same list.distinct(1) map_of.simps(1) option.distinct(1))
  ultimately show ?thesis
    using assms(1) unfolding op_inv_def tracked_def live
    by (simp add: states) (simp add: store_state_def internal_ids_def)
qed

lemma forget_internal_states:
  "forget_internal ext rid (op\<lparr>request_states := d\<rparr>) = bindE (forget_internal ext rid op) (\<lambda>op. Inr (op\<lparr>request_states := d\<rparr>))"
  by (simp add: forget_internal_def internal_ids_def Let_def)

lemma finish_request_state_inv:
  assumes "op_inv op" and "map_of (request_states op) (rs_request_id rs) = Some rs0"
    and "rs_external_req_id rs = rs_external_req_id rs0"
  shows "\<exists>op'. finish_request_state rs op = Inr op' \<and> op_inv op'
    \<and> map_of (request_states op') = (map_of (request_states op))(rs_request_id rs := None)"
proof -
  let ?rid = "rs_request_id rs" and ?ext = "rs_external_req_id rs"
  have tr: "tracked {} op" using assms(1) by (simp add: op_inv_def)
  then have "?rid \<in> set (internal_ids ?ext op)" using assms(2,3) by (auto simp: tracked_def live_under_def)
  then obtain op1 where op1: "forget_internal ?ext ?rid op = Inr op1" by (auto simp: forget_internal_def Let_def)
  define op2 where "op2 = op1\<lparr>request_states := AList.delete ?rid (request_states op1)\<rparr>"
  have f: "tracked {?rid} op1" "request_states op1 = request_states op" "requests_drained op1 = requests_drained op"
    using forget_internal_tracked [OF op1 tr] by auto
  have op2: "op2 = op1\<lparr>request_states := AList.delete ?rid (request_states op)\<rparr>" by (simp add: op2_def f(2))
  have states: "map_of (request_states op2) = (map_of (request_states op))(?rid := None)"
    by (simp add: op2_def f(2) AList.delete_conv')
  have "tracked {?rid} op2" using drop_state_tracked [OF f(1)] by (simp add: op2_def)
  moreover have "live_under op2 e - {} = live_under op2 e - {?rid}" for e by (auto simp: live_under_def states)
  ultimately have t2: "tracked {} op2" unfolding tracked_def by simp
  have "request_states op \<noteq> []" using assms(2) by (cases "request_states op") simp_all
  then have drained: "\<not> requests_drained op2" using assms(1) f(3) by (simp add: op2_def op_inv_def)
  have f1: "forget_internal ?ext ?rid (op\<lparr>request_states := AList.delete ?rid (request_states op)\<rparr>) = Inr op2"
    by (simp add: forget_internal_states op1 op2)
  define op3 where "op3 = (case rs_parent rs of
      Some p \<Rightarrow> if child_requests (parent_objects op2 p) = []
        then op2\<lparr>parent_requests := AList.delete (pr_request_id (parent_objects op2 p)) (parent_requests op2)\<rparr> else op2
    | None \<Rightarrow> op2)"
  have same: "same_tables op2 op3" by (simp add: op3_def same_tables_def split: option.splits)
  have "finish_request_state rs op = Inr (if request_states op3 = [] then op3\<lparr>requests_drained := True\<rparr> else op3)"
    unfolding finish_request_state_def Let_def f1 bindE.simps op3_def [symmetric] using assms(2) by simp
  moreover have "op_inv (if request_states op3 = [] then op3\<lparr>requests_drained := True\<rparr> else op3)"
    using same t2 drained
    by (auto simp: op_inv_def same_tables_def tracked_def internal_ids_def live_under_def)
  moreover have "request_states op3 = request_states op2" using same by (simp add: same_tables_def)
  ultimately show ?thesis using states by auto
qed


lemma update_streaming_inv:
  assumes "update_streaming_request_state rs r prompt op = Inr op'" and "op_inv op"
    and "map_of (request_states op) (rs_request_id rs) = Some rs"
  shows "op_inv op'"
proof -
  have store: "op_inv (store_state rs' op)" if "same_request rs rs'" for rs'
    by (rule store_state_inv [OF assms(2), of rs' rs]) (use that assms(3) in \<open>simp_all add: same_request_def\<close>)
  obtain op1 where op1: "finish_request_state rs op = Inr op1" "op_inv op1"
    using finish_request_state_inv [OF assms(2,3) refl] by blast
  show ?thesis
    using assms(1) op1
    by (auto simp: update_streaming_request_state_def Let_def same_request_def same_tables_tracked
        split: if_splits option.splits list.splits intro!: store dest!: put_to_tables)
qed

lemma request_state_for_ids:
  "request_state_for tk interval r prompt parent idx queue = Inr rs
    \<Longrightarrow> rs_request_id rs = fr_request_id r \<and> fr_external_req_id r = Some (rs_external_req_id rs)"
  by (auto simp: request_state_for_def Let_def elim!: bindE_InrE)

lemma op_add_request_inv:
  assumes "op_add_request r prompt parent idx queue op = Inr op'" and "op_inv op"
  shows "op_inv op'"
proof (cases "map_of (request_states op) (fr_request_id r)")
  case (Some rs)
  then have "rs_request_id rs = fr_request_id r" using assms(2) by (auto simp: op_inv_def tracked_def)
  then show ?thesis using assms Some update_streaming_inv [of rs r prompt op op'] by (simp add: op_add_request_def)
next
  case None
  then obtain rs where rs: "request_state_for (op_tokenizer op) (op_stream_interval op) r prompt parent idx queue = Inr rs"
    using assms(1) by (auto simp: op_add_request_def elim!: bindE_InrE)
  let ?rid = "rs_request_id rs" and ?ext = "rs_external_req_id rs"
  have fresh: "map_of (request_states op) ?rid = None" using None request_state_for_ids [OF rs] by simp
  have states: "request_states op' = AList.update ?rid rs (request_states op)"
    and drained: "\<not> requests_drained op'"
    and ext: "external_req_ids op' = AList.update ?ext (internal_ids ?ext op @ [?rid]) (external_req_ids op)"
    using assms(1) None rs
    by (auto simp: op_add_request_def Let_def store_state_def internal_ids_def split: option.splits)
  have ids: "internal_ids e op' = (if e = ?ext then internal_ids ?ext op @ [?rid] else internal_ids e op)" for e
    by (simp add: internal_ids_def ext AList.update_conv')
  have live: "live_under op' e = (if e = ?ext then insert ?rid (live_under op ?ext) else live_under op e)" for e
    using fresh by (auto simp: live_under_def states AList.update_conv')
  have tr: "tracked {} op" using assms(2) by (simp add: op_inv_def)
  have "request_states op' \<noteq> []"
    using AList.update_conv' [of ?rid rs "request_states op"] unfolding states
    by (metis fun_upd_same map_of.simps(1) option.distinct(1))
  moreover have "tracked {} op'"
    unfolding tracked_def
  proof (intro conjI allI impI)
    fix e
    have "?rid \<notin> live_under op ?ext" using fresh by (simp add: live_under_def)
    then show "distinct (internal_ids e op')" using tr by (auto simp: ids tracked_def)
    show "set (internal_ids e op') = live_under op' e - {}" using tr by (auto simp: ids live tracked_def)
    show "map_of (external_req_ids op') e \<noteq> Some []" using tr by (simp add: ext AList.update_conv' tracked_def)
  qed (use tr drained in \<open>auto simp: states AList.update_conv' tracked_def split: if_splits\<close>)
  ultimately show ?thesis using drained by (simp add: op_inv_def)
qed

lemma process_one_inv:
  assumes "process_one eo (op, outs, aborts) = Inr (op', outs', aborts')" and "op_inv op"
  shows "op_inv op'"
proof (cases "map_of (request_states op) (eco_request_id eo)")
  case None
  then show ?thesis using assms by (simp add: process_one_def)
next
  case (Some rs)
  define rs0 where "rs0 = rs\<lparr>rs_num_cached_tokens := eco_num_cached_tokens eo, is_prefilling := False\<rparr>"
  have rid: "rs_request_id rs = eco_request_id eo" using Some assms(2) by (auto simp: op_inv_def tracked_def)
  obtain rs1 reason stop where a: "(if eco_pooling_output eo = None then detokenize_output eo rs0
      else Inr (rs0, eco_finish_reason eo, map_option StopToken (eco_stop_reason eo))) = Inr (rs1, reason, stop)"
    and rest: "bindE (make_request_output (eco_new_token_ids eo) (eco_pooling_output eo) reason stop (eco_kv_transfer_params eo)
                (eco_routed_experts eo) rs1 (parent_objects op)) (\<lambda>(rs, ps, out).
       bindE (deliver rs out (store_state rs (op\<lparr>parent_objects := ps\<rparr>)) outs) (\<lambda>(op, outs).
       if reason = None then Inr (op, outs, aborts)
       else bindE (close_output (eco_finish_reason eo \<noteq> None) rs op aborts) (\<lambda>(op, aborts).
            Inr (op, outs, aborts)))) = Inr (op', outs', aborts')"
    using assms(1) Some unfolding process_one_def rs0_def Let_def by (auto elim!: bindE_InrE)
  obtain rs2 ps out where m: "make_request_output (eco_new_token_ids eo) (eco_pooling_output eo) reason stop
      (eco_kv_transfer_params eo) (eco_routed_experts eo) rs1 (parent_objects op) = Inr (rs2, ps, out)"
    using rest by (auto elim!: bindE_InrE)
  obtain op1 outs1 where d: "deliver rs2 out (store_state rs2 (op\<lparr>parent_objects := ps\<rparr>)) outs = Inr (op1, outs1)"
    and c: "(if reason = None then Inr (op1, outs1, aborts)
       else bindE (close_output (eco_finish_reason eo \<noteq> None) rs2 op1 aborts) (\<lambda>(op, aborts).
            Inr (op, outs1, aborts))) = Inr (op', outs', aborts')"
    using rest m by (auto elim!: bindE_InrE)
  have "same_request rs0 rs1" using a by (auto simp: same_request_def dest: detokenize_output_request split: if_splits)
  then have same: "same_request rs rs2"
    using make_request_output_request [OF m] by (simp add: same_request_def rs0_def)
  have inv0: "op_inv (op\<lparr>parent_objects := ps\<rparr>)"
    using assms(2) same_tables_tracked [of op "op\<lparr>parent_objects := ps\<rparr>"] by (simp add: same_tables_def)
  have "op_inv (store_state rs2 (op\<lparr>parent_objects := ps\<rparr>))"
    by (rule store_state_inv [OF inv0, of rs2 rs]) (use same Some rid in \<open>simp_all add: same_request_def\<close>)
  moreover have "same_tables (store_state rs2 (op\<lparr>parent_objects := ps\<rparr>)) op1"
    using d by (auto simp: deliver_def Let_def same_tables_def dest!: put_to_tables elim!: bindE_InrE split: option.splits)
  ultimately have inv1: "op_inv op1" using same_tables_tracked by blast
  have states: "map_of (request_states op1) (rs_request_id rs2) = Some rs2"
    using \<open>same_tables _ op1\<close> by (simp add: same_tables_def store_state_def AList.update_conv')
  show ?thesis
  proof (cases "reason = None")
    case True
    then show ?thesis using c inv1 by simp
  next
    case False
    then obtain aborts2 where close: "close_output (eco_finish_reason eo \<noteq> None) rs2 op1 aborts = Inr (op', aborts2)"
      using c by (auto elim!: bindE_InrE)
    show ?thesis
    proof (cases "streaming_input rs2")
      case True
      have store: "op_inv (store_state rs' op1)" if "same_request rs2 rs'" for rs'
        by (rule store_state_inv [OF inv1, of rs' rs2]) (use that states in \<open>simp_all add: same_request_def\<close>)
      show ?thesis
        using close True
        by (auto simp: close_output_def same_request_def split: option.splits list.splits intro!: store)
    next
      case False
      with close finish_request_state_inv [OF inv1 states refl] show ?thesis
        by (auto simp: close_output_def elim!: bindE_InrE)
    qed
  qed
qed

lemma process_outputs_inv: "process_outputs eos op = Inr (op', outs, aborts) \<Longrightarrow> op_inv op \<Longrightarrow> op_inv op'"
  unfolding process_outputs_def
  by (drule foldE_invariant [where P = "\<lambda>(op, outs, aborts). op_inv op"]) (auto dest: process_one_inv)

lemma abort_requests_inv: "abort_requests n internal rids op = Inr (op', aborted) \<Longrightarrow> op_inv op \<Longrightarrow> op_inv op'"
  using abort_requests_tracked [of n internal rids op op' aborted "{}"] by (auto simp: op_inv_def tracked_def)


text \<open>Any sequence of method calls; \<open>Take\<close> is a client that empties its collector.\<close>

inductive op_step :: "'s OutputProcessor \<Rightarrow> 's OutputProcessor \<Rightarrow> bool" where
  Add: "op_add_request r prompt parent idx queue op = Inr op' \<Longrightarrow> op_step op op'"
| Process: "process_outputs eos op = Inr (op', outs, aborts) \<Longrightarrow> op_step op op'"
| Abort: "abort_requests n internal rids op = Inr (op', aborted) \<Longrightarrow> op_step op op'"
| Fail: "propagate_error e op = Inr op' \<Longrightarrow> op_step op op'"
| Take: "collector_get (collectors op q) = Inr (c, out) \<Longrightarrow> op_step op (op\<lparr>collectors := (collectors op)(q := c)\<rparr>)"

inductive op_reach :: "'s OutputProcessor \<Rightarrow> bool" where
  Init: "op_reach (output_processor_init tk interval ps qs)"
| Step: "op_reach op \<Longrightarrow> op_step op op' \<Longrightarrow> op_reach op'"

lemma op_step_inv: "op_step op op' \<Longrightarrow> op_inv op \<Longrightarrow> op_inv op'"
proof (induction rule: op_step.induct)
  case (Take op q c out)
  then show ?case using same_tables_tracked [of op "op\<lparr>collectors := (collectors op)(q := c)\<rparr>"] by (simp add: same_tables_def)
qed (auto dest: op_add_request_inv process_outputs_inv abort_requests_inv propagate_error_tables simp: same_tables_tracked)

lemma op_reach_inv: "op_reach op \<Longrightarrow> op_inv op"
proof (induction rule: op_reach.induct)
  case (Init tk interval ps qs)
  show ?case by (simp add: op_inv_def tracked_def output_processor_init_def internal_ids_def live_under_def)
qed (rule op_step_inv)

definition demo_request :: "string \<Rightarrow> front_request" where
  "demo_request rid = \<lparr>fr_request_id = rid, fr_external_req_id = Some ''x'', fr_prompt_token_ids = Some [1, 2],
     fr_prompt_embeds = None, fr_sampling_params = Some ((demo_params [[99, 100]])\<lparr>sp_logprobs := Some 1\<rparr>),
     fr_pooling_output_kind = None, fr_lora_request = None, fr_arrival_time = 0, fr_resumable = False\<rparr>"

definition demo_start :: "unit OutputProcessor" where
  "demo_start = output_processor_init (Some char_tokenizer) 1
     (\<lambda>_. \<lparr>pr_request_id = [], pr_external_req_id = [], pr_sampling_params = demo_params [], child_requests = [],
       output_aggregator = [], max_num_generation_tokens = 0, cached_child_sampling_params = None\<rparr>)
     (\<lambda>_. new_collector DELTA)"

text \<open>Two requests of one client.\<close>

definition demo_processor :: "unit OutputProcessor result" where
  "demo_processor =
     bindE (op_add_request (demo_request ''a'') None None 0 (Some 0) demo_start)
       (op_add_request (demo_request ''b'') None None 0 (Some 1))"

lemma demo_processor_reach:
  assumes "demo_processor = Inr op"
  shows "op_reach op"
proof -
  obtain op1 where "op_add_request (demo_request ''a'') None None 0 (Some 0) demo_start = Inr op1"
    "op_add_request (demo_request ''b'') None None 0 (Some 1) op1 = Inr op"
    using assms by (auto simp: demo_processor_def elim!: bindE_InrE)
  moreover have "op_reach demo_start" unfolding demo_start_def by (rule op_reach.Init)
  ultimately show ?thesis by (meson op_reach.Step op_step.Add)
qed

text \<open>
  C11: In every state the output processor reaches, the map from external to internal request ids lists exactly the live
  requests, each once under its external id and without empty entries; a request state is filed under its own
  id; and the drained flag is set exactly when no request is left.
\<close>

theorem output_processor_tracks_requests:
  assumes "op_reach op"
  shows "(\<forall>ext. distinct (internal_ids ext op) \<and> set (internal_ids ext op) = live_under op ext
      \<and> map_of (external_req_ids op) ext \<noteq> Some [])
    \<and> (\<forall>rid. map_of (request_states op) rid \<noteq> None \<longleftrightarrow> (\<exists>ext. rid \<in> live_under op ext))
    \<and> (requests_drained op \<longleftrightarrow> request_states op = [])"
  using op_reach_inv [OF assms] by (auto simp: op_inv_def tracked_def live_under_def)

theorem output_processor_tracks_requests_witness:
  "\<exists>op. demo_processor = Inr op \<and> internal_ids ''x'' op = [''a'', ''b''] \<and> live_under op ''x'' = {''a'', ''b''}"
proof -
  have run: "(case demo_processor of Inl _ \<Rightarrow> False | Inr op \<Rightarrow> internal_ids ''x'' op = [''a'', ''b''])" by code_simp
  then obtain op where op: "demo_processor = Inr op" "internal_ids ''x'' op = [''a'', ''b'']" by (auto split: sum.splits)
  from output_processor_tracks_requests [OF demo_processor_reach [OF op(1)]] op(2)
  have "live_under op ''x'' = {''a'', ''b''}" by (metis list.simps(15) list.set(1))
  with op show ?thesis by blast
qed

subsection \<open>Aborting by external id\<close>

lemma resolve_external:
  assumes "foldE (resolve_id False) exts (op, ids) = Inr (op', ids')" and "tracked (set ids) op"
    and "distinct ids" and "\<forall>rid\<in>set ids. map_of (request_states op) rid \<noteq> None"
  shows "distinct ids' \<and> set ids' = set ids \<union> (\<Union>ext\<in>set exts. live_under op ext)
    \<and> request_states op' = request_states op \<and> parent_requests op' = parent_requests op"
  using assms
proof (induction exts arbitrary: op ids)
  case (Cons ext exts)
  define op1 where "op1 = op\<lparr>external_req_ids := AList.delete ext (external_req_ids op)\<rparr>"
  define ids1 where "ids1 = ids @ internal_ids ext op"
  have one: "resolve_id False ext (op, ids) = Inr (op1, ids1)" by (simp add: resolve_id_def op1_def ids1_def)
  have own: "distinct (internal_ids ext op)" "set (internal_ids ext op) = live_under op ext - set ids"
    using Cons.prems(2) by (simp_all add: tracked_def)
  have t1: "tracked (set ids1) op1"
    using resolve_id_tracked [OF one, of "{}"] Cons.prems(2) by simp
  have live: "live_under op1 e = live_under op e" for e by (simp add: op1_def live_under_def)
  have "distinct ids' \<and> set ids' = set ids1 \<union> (\<Union>e\<in>set exts. live_under op1 e)
    \<and> request_states op' = request_states op1 \<and> parent_requests op' = parent_requests op1"
    by (rule Cons.IH) (use Cons.prems one t1 own in \<open>auto simp: ids1_def op1_def live_under_def\<close>)
  moreover have "request_states op1 = request_states op" "parent_requests op1 = parent_requests op" by (simp_all add: op1_def)
  ultimately show ?case using own by (auto simp: live ids1_def)
qed simp

lemma abort_live_loop:
  assumes "foldE (abort_one f) ids (op, aborted) = Inr (op', aborted')" and "distinct ids"
    and "\<forall>rid\<in>set ids. map_of (request_states op) rid \<noteq> None"
  shows "aborted' = aborted @ ids \<and> map_of (request_states op') = map_of (request_states op) |` (- set ids)
    \<and> parent_requests op' = parent_requests op"
  using assms
proof (induction ids arbitrary: op aborted)
  case (Cons rid ids)
  obtain rs where rs: "map_of (request_states op) rid = Some rs" using Cons.prems(3) by auto
  obtain op1 aborted1 where one: "abort_one f rid (op, aborted) = Inr (op1, aborted1)"
    and run: "foldE (abort_one f) ids (op1, aborted1) = Inr (op', aborted')"
    using Cons.prems(1) by (auto elim!: bindE_InrE)
  have a: "abort_state rs (op\<lparr>request_states := AList.delete rid (request_states op)\<rparr>) = Inr op1"
    and rest: "foldE (abort_one f) ids (op1, aborted @ [rid]) = Inr (op', aborted')"
    using one run rs by (auto simp: abort_one_def elim!: bindE_InrE)
  have states: "map_of (request_states op1) = (map_of (request_states op))(rid := None)"
    using abort_state_tables [OF a] by (simp add: same_tables_def AList.delete_conv')
  have parents: "parent_requests op1 = parent_requests op"
    using a by (auto simp: abort_state_def Let_def put_to_def elim!: bindE_InrE split: option.splits)
  have "aborted' = (aborted @ [rid]) @ ids \<and> map_of (request_states op') = map_of (request_states op1) |` (- set ids)
    \<and> parent_requests op' = parent_requests op1"
    by (rule Cons.IH [OF rest]) (use Cons.prems(2,3) in \<open>auto simp: states\<close>)
  then show ?case by (auto simp: states parents restrict_map_def fun_eq_iff)
qed (simp add: restrict_map_def)

text \<open>
  C38: Aborting by external ids aborts exactly the live requests under these ids, each once, and no other request is touched. It
  leaves all parent requests in their table, also those whose children are all gone.
\<close>

theorem abort_by_external_id:
  assumes "op_reach op" and "abort_requests (Suc n) False exts op = Inr (op', aborted)"
  shows "distinct aborted \<and> set aborted = (\<Union>ext\<in>set exts. live_under op ext)
    \<and> map_of (request_states op') = map_of (request_states op) |` (- set aborted)
    \<and> parent_requests op' = parent_requests op"
proof -
  obtain op1 ids op2 where res: "foldE (resolve_id False) exts (op, []) = Inr (op1, ids)"
    and loop: "foldE (abort_one (abort_requests n True)) ids (op1, []) = Inr (op2, aborted)"
    and op': "op' = (if request_states op2 = [] then op2\<lparr>requests_drained := True\<rparr> else op2)"
    using assms(2) by (auto elim!: bindE_InrE)
  have r: "distinct ids \<and> set ids = (\<Union>ext\<in>set exts. live_under op ext)
      \<and> request_states op1 = request_states op \<and> parent_requests op1 = parent_requests op"
    using resolve_external [OF res] op_reach_inv [OF assms(1)] by (simp add: op_inv_def)
  have "aborted = [] @ ids \<and> map_of (request_states op2) = map_of (request_states op1) |` (- set ids)
    \<and> parent_requests op2 = parent_requests op1"
    by (rule abort_live_loop [OF loop]) (use r in \<open>auto simp: live_under_def\<close>)
  moreover have "request_states op' = request_states op2" "parent_requests op' = parent_requests op2" by (simp_all add: op')
  ultimately show ?thesis using r by simp
qed

theorem abort_by_external_id_witness:
  "\<exists>op op'. demo_processor = Inr op \<and> abort_requests 1 False [''x''] op = Inr (op', [''a'', ''b''])
    \<and> set [''a'', ''b''] = (\<Union>ext\<in>set [''x'']. live_under op ext)"
proof -
  have run: "(case demo_processor of Inl _ \<Rightarrow> False | Inr op \<Rightarrow> (case abort_requests 1 False [''x''] op of
      Inl _ \<Rightarrow> False | Inr (op', aborted) \<Rightarrow> aborted = [''a'', ''b'']))" by code_simp
  then obtain op op' where op: "demo_processor = Inr op" "abort_requests 1 False [''x''] op = Inr (op', [''a'', ''b''])"
    by (auto split: sum.splits prod.splits)
  from op(2) have "abort_requests (Suc 0) False [''x''] op = Inr (op', [''a'', ''b''])" by (simp only: One_nat_def)
  from abort_by_external_id [OF demo_processor_reach [OF op(1)] this] op show ?thesis by blast
qed

text \<open>
  C39: When a streaming request is aborted, its last output carries no new tokens but repeats all log probabilities that
  were streamed before. This is for a request that is no sample of a parent request, streams every token (stream interval at
  most 1) and keeps its log probabilities as a list of dicts.
\<close>

theorem aborted_delta_repeats_logprobs:
  assumes "rs_output_kind rs = DELTA" and "rs_detokenizer rs = Some d" and "rs_logprobs rs = Some lp"
    and "lp_logprobs lp = Some (Dicts ps)" and "rs_parent rs = None" and "rs_stream_interval rs \<le> 1"
  shows "\<exists>rs' ro c. make_request_output [] None (Some REASON_ABORT) None None None rs parents
      = Inr (rs', parents, Some (Completion ro)) \<and> ro_outputs ro = [Some c] \<and> co_token_ids c = []
      \<and> co_logprobs c = Some (Dicts ps)"
  using assms
  by (auto simp: make_request_output_def stream_due_def take_interval_def new_completion_output_def parent_outputs_def
      new_request_output_def container_slice_def slice_to_def slice_from_def slice_bound_def Let_def split: prod.splits)

definition demo_logprobs :: logprobs_processor where
  "demo_logprobs = \<lparr>lp_logprobs = Some (Dicts [Some [(7, \<lparr>logprob = -1, rank = Some 1, decoded_token = None\<rparr>)]]),
     lp_prompt_logprobs = None, cumulative_logprob = Some (-1), num_logprobs = Some 1, num_prompt_logprobs = None\<rparr>"

definition demo_state :: "unit RequestState" where
  "demo_state = \<lparr>rs_request_id = ''a'', rs_external_req_id = ''x'', rs_parent = None, rs_request_index = 0,
     rs_lora_request = None, rs_output_kind = DELTA, rs_prompt = None, rs_prompt_token_ids = Some [1, 2],
     rs_prompt_embeds = None, rs_prompt_len = 2, rs_tokenizer = None, rs_logprobs = Some demo_logprobs,
     rs_detokenizer = Some (IdsOnly [7]), is_prefilling = False, rs_queue = None, rs_num_cached_tokens = 0,
     rs_stream_interval = 1, sent_tokens_offset = 0, streaming_input = False, input_chunk_queue = None\<rparr>"

theorem aborted_delta_repeats_logprobs_witness:
  "\<exists>rs' ro c. make_request_output [] None (Some REASON_ABORT) None None None demo_state (parent_objects demo_start)
      = Inr (rs', parent_objects demo_start, Some (Completion ro)) \<and> ro_outputs ro = [Some c] \<and> co_token_ids c = []
      \<and> co_logprobs c = lp_logprobs demo_logprobs"
  using aborted_delta_repeats_logprobs [of demo_state "IdsOnly [7]" demo_logprobs
      "[Some [(7, \<lparr>logprob = -1, rank = Some 1, decoded_token = None\<rparr>)]]" "parent_objects demo_start"]
  by (simp add: demo_state_def demo_logprobs_def)

text \<open>The stream interval needs a detokenizer, which a pooling request does not have.\<close>

lemma pooling_with_stream_interval_raises:
  "rs_detokenizer rs = None \<Longrightarrow> rs_stream_interval rs > 1
    \<Longrightarrow> make_request_output ids (Some data) (Some reason) stop kv experts rs ps = Inl AssertionError"
  by (simp add: make_request_output_def stream_due_def)

end
