(* ===== verification/Ngram_Proposer.thy ===== *)
theory Ngram_Proposer
  imports Vllm_Prelude
begin

section \<open>The n-gram proposer\<close>

text \<open>
  \<^verbatim>\<open>v1/spec_decode/ngram_proposer.py\<close>: draft tokens for speculative decoding without a model. The end of the
  context is looked up earlier in the context, and what followed there is proposed. The search is the failure function
  of Knuth, Morris and Pratt on the reversed tokens, capped at the maximal length of an n-gram. The loop is a
  \<open>partial_function\<close>, because it ends only when the failure table is right.
\<close>

subsection \<open>The search\<close>

partial_function (option) kmp_loop ::
    "int list \<Rightarrow> nat \<Rightarrow> nat list \<Rightarrow> nat \<Rightarrow> nat \<Rightarrow> nat \<Rightarrow> nat \<Rightarrow> (nat \<times> nat) option" where
  "kmp_loop tokens max_ngram lps prev_lps i longest_ngram position =
     (if i \<ge> length tokens then Some (longest_ngram, position)
      else if tokens ! prev_lps = tokens ! i
      then
        let prev_lps = prev_lps + 1;
            (longest_ngram, position) = (if prev_lps \<ge> longest_ngram then (prev_lps, i) else (longest_ngram, position));
            lps = (if i < max_ngram then lps[i := prev_lps] else lps);
            prev_lps = (if prev_lps = max_ngram then lps ! (max_ngram - 1) else prev_lps)
        in kmp_loop tokens max_ngram lps prev_lps (i + 1) longest_ngram position
      else if prev_lps \<noteq> 0
      then kmp_loop tokens max_ngram lps (lps ! (prev_lps - 1)) i longest_ngram position
      else kmp_loop tokens max_ngram lps prev_lps (i + 1) longest_ngram position)"

definition find_ngram_and_propose :: "int list \<Rightarrow> int \<Rightarrow> int \<Rightarrow> int \<Rightarrow> int \<Rightarrow> int list option" where
  "find_ngram_and_propose origin_tokens min_ngram max_ngram max_model_len k =
     (let total_token = int (length origin_tokens) in
      if total_token < min_ngram then Some []
      else let k = min k (max_model_len - total_token) in
      if k \<le> 0 then Some []
      else (case kmp_loop (rev origin_tokens) (nat max_ngram) (replicate (nat max_ngram) 0) 0 1 0 0 of
              None \<Rightarrow> None
            | Some (longest_ngram, position) \<Rightarrow>
                if int longest_ngram < min_ngram then Some []
                else let start_position = total_token - 1 - int position + int longest_ngram;
                         k = min k (total_token - start_position)
                     in Some (slice origin_tokens start_position (start_position + k))))"

subsection \<open>Proposing for a batch\<close>

text \<open>
  The arrays \<^verbatim>\<open>valid_ngram_draft\<close> and \<^verbatim>\<open>valid_ngram_num_drafts\<close> are kept between calls. The rows of the token
  array are the token ids of the requests; \<^verbatim>\<open>prange\<close> visits different rows, so the order does not matter.
\<close>

record NgramProposer =
  min_n :: int
  max_n :: int
  k_tokens :: int
  ng_max_model_len :: int
  valid_ngram_draft :: "int list list"
  valid_ngram_num_drafts :: "int list"

definition write_row :: "int list \<Rightarrow> int list \<Rightarrow> int list" where
  "write_row new row = new @ drop (length new) row"

definition batch_propose_one ::
    "int list \<Rightarrow> int list list \<Rightarrow> nat \<Rightarrow> NgramProposer \<Rightarrow> NgramProposer result" where
  "batch_propose_one num_tokens_no_spec token_ids_cpu idx p =
     bindE (of_run (map_option Inr (find_ngram_and_propose
              (slice (token_ids_cpu ! idx) 0 (num_tokens_no_spec ! idx)) (min_n p) (max_n p) (ng_max_model_len p) (k_tokens p))))
       (\<lambda>out.
     let p = p\<lparr>valid_ngram_num_drafts := (valid_ngram_num_drafts p)[idx := int (length out)]\<rparr> in
     Inr (if out = [] then p
          else p\<lparr>valid_ngram_draft := (valid_ngram_draft p)[idx := write_row out (valid_ngram_draft p ! idx)]\<rparr>))"

definition batch_propose ::
    "nat \<Rightarrow> nat list \<Rightarrow> int list \<Rightarrow> int list list \<Rightarrow> NgramProposer \<Rightarrow> (NgramProposer \<times> int list list) result" where
  "batch_propose num_requests valid num_tokens_no_spec token_ids_cpu p =
     bindE (foldE (batch_propose_one num_tokens_no_spec token_ids_cpu) valid p) (\<lambda>p.
     Inr (p, map (\<lambda>i. if i \<in> set valid \<and> valid_ngram_num_drafts p ! i > 0
                       then slice (valid_ngram_draft p ! i) 0 (valid_ngram_num_drafts p ! i) else []) [0..<num_requests]))"

definition propose ::
    "int list list \<Rightarrow> int list \<Rightarrow> int list list \<Rightarrow> NgramProposer \<Rightarrow> (NgramProposer \<times> int list list) result" where
  "propose sampled_token_ids num_tokens_no_spec token_ids_cpu p =
     batch_propose (length sampled_token_ids)
       (filter (\<lambda>i. sampled_token_ids ! i \<noteq> [] \<and> num_tokens_no_spec ! i < ng_max_model_len p) [0..<length sampled_token_ids])
       num_tokens_no_spec token_ids_cpu p"

subsection \<open>Borders of prefixes\<close>

text \<open>\<open>border t v j\<close>: the prefix of length \<open>v\<close> is also the end of the prefix of length \<open>j\<close>, and shorter than it.\<close>

definition border :: "'a list \<Rightarrow> nat \<Rightarrow> nat \<Rightarrow> bool" where
  "border t v j \<longleftrightarrow> v < j \<and> j \<le> length t \<and> (\<forall>x<v. t ! x = t ! (j - v + x))"

lemma border_0: "0 < j \<Longrightarrow> j \<le> length t \<Longrightarrow> border t 0 j"
  by (simp add: border_def)

lemma border_Suc: "border t (Suc v) (Suc j) \<longleftrightarrow> border t v j \<and> j < length t \<and> t ! v = t ! j"
  by (auto simp: border_def less_Suc_eq)

lemma border_step: "0 < v \<Longrightarrow> border t v (Suc j) \<longleftrightarrow> border t (v - 1) j \<and> j < length t \<and> t ! (v - 1) = t ! j"
  using border_Suc [of t "v - 1" j] by simp

text \<open>A shorter border is a border of the longer one, and the other way round.\<close>

lemma border_of_border: "border t v j \<Longrightarrow> border t u j \<Longrightarrow> u < v \<Longrightarrow> border t u v"
  unfolding border_def
proof (intro conjI allI impI)
  fix x
  assume v: "v < j \<and> j \<le> length t \<and> (\<forall>x<v. t ! x = t ! (j - v + x))"
    and u: "u < j \<and> j \<le> length t \<and> (\<forall>x<u. t ! x = t ! (j - u + x))" and "u < v" "x < u"
  then have "t ! (v - u + x) = t ! (j - v + (v - u + x))" by auto
  moreover have "j - v + (v - u + x) = j - u + x" using v \<open>u < v\<close> by auto
  ultimately show "t ! x = t ! (v - u + x)" using u \<open>x < u\<close> by auto
qed auto

lemma border_trans: "border t v j \<Longrightarrow> border t u v \<Longrightarrow> border t u j"
  unfolding border_def
proof (intro conjI allI impI)
  fix x
  assume v: "v < j \<and> j \<le> length t \<and> (\<forall>x<v. t ! x = t ! (j - v + x))"
    and u: "u < v \<and> v \<le> length t \<and> (\<forall>x<u. t ! x = t ! (v - u + x))" and "x < u"
  then have "t ! (v - u + x) = t ! (j - v + (v - u + x))" by auto
  moreover have "j - v + (v - u + x) = j - u + x" using v u by auto
  ultimately show "t ! x = t ! (j - u + x)" using u \<open>x < u\<close> by auto
qed auto

definition longest_border :: "'a list \<Rightarrow> nat \<Rightarrow> nat \<Rightarrow> bool" where
  "longest_border t v j \<longleftrightarrow> border t v j \<and> (\<forall>u. border t u j \<longrightarrow> u \<le> v)"


subsection \<open>The invariant of the search\<close>

definition longest_so_far :: "'a list \<Rightarrow> nat \<Rightarrow> nat \<Rightarrow> nat \<Rightarrow> nat \<Rightarrow> bool" where
  "longest_so_far t mx i longest pos \<longleftrightarrow> longest \<le> mx \<and> (\<forall>j v. j \<le> i \<and> border t v j \<and> v \<le> mx \<longrightarrow> v \<le> longest)
     \<and> (longest > 0 \<longrightarrow> border t longest (Suc pos) \<and> pos < i \<and> (\<forall>j. Suc pos < j \<and> j \<le> i \<longrightarrow> \<not> border t longest j))"

definition failure_table :: "'a list \<Rightarrow> nat \<Rightarrow> nat list \<Rightarrow> nat \<Rightarrow> bool" where
  "failure_table t mx lps i \<longleftrightarrow> length lps = mx \<and> (\<forall>j < min i mx. longest_border t (lps ! j) (Suc j))
     \<and> (\<forall>j. i \<le> j \<and> j < mx \<longrightarrow> lps ! j = 0)"

text \<open>Borders longer than \<open>prev\<close> have been tried and do not extend to the next token.\<close>

definition candidate :: "'a list \<Rightarrow> nat \<Rightarrow> nat \<Rightarrow> nat \<Rightarrow> bool" where
  "candidate t mx prev i \<longleftrightarrow> prev < mx \<and> border t prev i
     \<and> (\<forall>v. border t v i \<and> v < mx \<and> prev < v \<longrightarrow> \<not> border t (Suc v) (Suc i))"

definition kmp_inv :: "'a list \<Rightarrow> nat \<Rightarrow> nat list \<Rightarrow> nat \<Rightarrow> nat \<Rightarrow> nat \<Rightarrow> nat \<Rightarrow> bool" where
  "kmp_inv t mx lps prev i longest pos \<longleftrightarrow> 0 < i \<and> failure_table t mx lps i \<and> candidate t mx prev i
     \<and> longest_so_far t mx i longest pos"

lemma candidate_bound:
  assumes "candidate t mx prev i" and "border t v (Suc i)" and "v \<le> mx"
  shows "v \<le> Suc prev"
proof (cases v)
  case (Suc u)
  then have "border t u i" using assms(2) by (simp add: border_Suc)
  then show ?thesis using assms Suc unfolding candidate_def by (metis Suc_le_eq Suc_le_mono not_le)
qed simp

lemma kmp_match:
  assumes "kmp_inv t mx lps prev i longest pos" and "i < length t" and "t ! prev = t ! i"
  defines "lps1 \<equiv> if i < mx then lps[i := Suc prev] else lps"
  shows "kmp_inv t mx lps1 (if Suc prev = mx then lps1 ! (mx - 1) else Suc prev) (Suc i)
    (if Suc prev \<ge> longest then Suc prev else longest) (if Suc prev \<ge> longest then i else pos)"
proof -
  have inv: "0 < i" "failure_table t mx lps i" "candidate t mx prev i" "longest_so_far t mx i longest pos"
    using assms(1) by (simp_all add: kmp_inv_def)
  have prev: "prev < mx" "border t prev i" using inv(3) by (simp_all add: candidate_def)
  have new: "border t (Suc prev) (Suc i)" using prev(2) assms(2,3) by (simp add: border_Suc)
  have most: "v \<le> Suc prev" if "border t v (Suc i)" "v \<le> mx" for v using candidate_bound [OF inv(3) that] .
  have table: "failure_table t mx lps1 (Suc i)"
    unfolding failure_table_def
  proof (intro conjI allI impI)
    show "length lps1 = mx" using inv(2) by (simp add: failure_table_def lps1_def)
    fix j assume j: "j < min (Suc i) mx"
    show "longest_border t (lps1 ! j) (Suc j)"
    proof (cases "j = i")
      case True
      then have "u \<le> Suc prev" if "border t u (Suc i)" for u
        using most [OF that] that j by (auto simp: border_def)
      then show ?thesis using True j new inv(2) by (simp add: longest_border_def lps1_def failure_table_def)
    next
      case False
      then show ?thesis using j inv(2) by (simp add: failure_table_def lps1_def)
    qed
  next
    fix j assume "Suc i \<le> j \<and> j < mx"
    then show "lps1 ! j = 0" using inv(2) by (simp add: failure_table_def lps1_def)
  qed
  have cand: "candidate t mx (if Suc prev = mx then lps1 ! (mx - 1) else Suc prev) (Suc i)"
  proof (cases "Suc prev = mx")
    case True
    have "mx \<le> i" using prev(2) True by (auto simp: border_def)
    then have lb: "longest_border t (lps1 ! (mx - 1)) mx"
      using table True by (auto simp: failure_table_def dest!: spec [of _ "mx - 1"])
    then have "border t (lps1 ! (mx - 1)) (Suc i)" using border_trans [OF new] True by (simp add: longest_border_def)
    moreover have "v \<le> lps1 ! (mx - 1)" if "border t v (Suc i)" "v < mx" for v
      using border_of_border [OF new that(1)] that(2) lb True by (simp add: longest_border_def)
    moreover have "lps1 ! (mx - 1) < mx" using lb by (simp add: longest_border_def border_def)
    ultimately show ?thesis using True unfolding candidate_def by (metis not_le)
  next
    case False
    then have "Suc prev < mx" using prev(1) by simp
    moreover have "\<not> (border t v (Suc i) \<and> v < mx \<and> Suc prev < v)" for v using most [of v] by auto
    ultimately show ?thesis using False new unfolding candidate_def by auto
  qed
  have "longest_so_far t mx (Suc i) (if Suc prev \<ge> longest then Suc prev else longest) (if Suc prev \<ge> longest then i else pos)"
  proof (cases "Suc prev \<ge> longest")
    case True
    have "v \<le> Suc prev" if "j \<le> Suc i" "border t v j" "v \<le> mx" for j v
      using that most inv(4) True unfolding longest_so_far_def by (metis le_SucE order_trans)
    then show ?thesis using True prev(1) new by (auto simp: longest_so_far_def)
  next
    case False
    have "v \<le> longest" if "j \<le> Suc i" "border t v j" "v \<le> mx" for j v
      using that most inv(4) False unfolding longest_so_far_def by (metis le_SucE nle_le order_trans)
    moreover have "\<not> border t longest (Suc i)" using most [of longest] inv(4) False by (auto simp: longest_so_far_def)
    ultimately show ?thesis using False inv(4) by (auto simp: longest_so_far_def le_Suc_eq)
  qed
  with inv(1) table cand show ?thesis by (simp add: kmp_inv_def)
qed

lemma kmp_fallback:
  assumes "kmp_inv t mx lps prev i longest pos" and "i < length t" and "t ! prev \<noteq> t ! i" and "prev \<noteq> 0"
  shows "kmp_inv t mx lps (lps ! (prev - 1)) i longest pos" and "lps ! (prev - 1) < prev"
proof -
  have inv: "0 < i" "failure_table t mx lps i" "candidate t mx prev i" "longest_so_far t mx i longest pos"
    using assms(1) by (simp_all add: kmp_inv_def)
  have prev: "prev < mx" "border t prev i" using inv(3) by (simp_all add: candidate_def)
  have lb: "longest_border t (lps ! (prev - 1)) prev"
    using inv(2) prev assms(4) by (auto simp: failure_table_def border_def dest!: spec [of _ "prev - 1"])
  then show lt: "lps ! (prev - 1) < prev" by (simp add: longest_border_def border_def)
  have "candidate t mx (lps ! (prev - 1)) i"
    unfolding candidate_def
  proof (intro conjI allI impI)
    show "lps ! (prev - 1) < mx" using lt prev(1) by simp
    show "border t (lps ! (prev - 1)) i" using border_trans [OF prev(2)] lb by (simp add: longest_border_def)
    fix v assume v: "border t v i \<and> v < mx \<and> lps ! (prev - 1) < v"
    then have "prev \<le> v"
      using border_of_border [OF prev(2)] lb unfolding longest_border_def by (metis not_le)
    then show "\<not> border t (Suc v) (Suc i)"
      using v inv(3) assms(2,3) unfolding candidate_def by (cases "prev = v") (auto simp: border_Suc)
  qed
  with inv show "kmp_inv t mx lps (lps ! (prev - 1)) i longest pos" by (simp add: kmp_inv_def)
qed

lemma kmp_advance:
  assumes "kmp_inv t mx lps 0 i longest pos" and "i < length t" and "t ! 0 \<noteq> t ! i"
  shows "kmp_inv t mx lps 0 (Suc i) longest pos"
proof -
  have inv: "0 < i" "failure_table t mx lps i" "candidate t mx 0 i" "longest_so_far t mx i longest pos"
    using assms(1) by (simp_all add: kmp_inv_def)
  have none: "v = 0" if "border t v (Suc i)" "v \<le> mx" for v
    using candidate_bound [OF inv(3) that] that assms(3) by (cases v) (auto simp: border_Suc)
  have b0: "border t 0 (Suc i)" using assms(2) by (simp add: border_0)
  have mx: "0 < mx" using inv(3) by (simp add: candidate_def)
  have "failure_table t mx lps (Suc i)"
    unfolding failure_table_def
  proof (intro conjI allI impI)
    fix j assume j: "j < min (Suc i) mx"
    show "longest_border t (lps ! j) (Suc j)"
    proof (cases "j = i")
      case True
      then have "lps ! j = 0" using inv(2) j by (simp add: failure_table_def)
      moreover have "u = 0" if "border t u (Suc i)" for u using none [OF that] that True j by (auto simp: border_def)
      ultimately show ?thesis using True b0 by (simp add: longest_border_def)
    qed (use inv(2) j in \<open>simp add: failure_table_def\<close>)
  qed (use inv(2) in \<open>auto simp: failure_table_def\<close>)
  moreover have "candidate t mx 0 (Suc i)" using b0 mx none unfolding candidate_def by (metis less_imp_le less_not_refl)
  moreover have "longest_so_far t mx (Suc i) longest pos"
    using inv(4) none by (auto simp: longest_so_far_def le_Suc_eq)
  ultimately show ?thesis by (simp add: kmp_inv_def)
qed

lemma kmp_loop_match:
  assumes "i < length t" and "t ! prev = t ! i" and "lps1 = (if i < mx then lps[i := Suc prev] else lps)"
  shows "kmp_loop t mx lps prev i longest pos
    = kmp_loop t mx lps1 (if Suc prev = mx then lps1 ! (mx - 1) else Suc prev) (Suc i)
        (if Suc prev \<ge> longest then Suc prev else longest) (if Suc prev \<ge> longest then i else pos)"
  using assms by (subst kmp_loop.simps) (auto simp: Let_def)

lemma kmp_loop_total:
  assumes "kmp_inv t mx lps prev i longest pos" and "i \<le> length t"
  shows "\<exists>l p. kmp_loop t mx lps prev i longest pos = Some (l, p) \<and> longest_so_far t mx (length t) l p"
  using assms
proof (induction "(length t - i, prev)" arbitrary: lps prev i longest pos
    rule: wf_induct_rule [OF wf_lex_prod [OF wf_less wf_less]])
  case 1
  note inv = "1.prems"(1) and i = "1.prems"(2)
  show ?case
  proof (cases "i = length t")
    case True
    then show ?thesis using inv by (subst kmp_loop.simps) (simp add: kmp_inv_def)
  next
    case False
    then have lt: "i < length t" using i by simp
    consider (match) "t ! prev = t ! i" | (fallback) "t ! prev \<noteq> t ! i" "prev \<noteq> 0" | (advance) "t ! prev \<noteq> t ! i" "prev = 0"
      by blast
    then show ?thesis
    proof cases
      case match
      show ?thesis
        unfolding kmp_loop_match [OF lt match refl]
        by (rule "1.hyps" [OF _ kmp_match [OF inv lt match]]) (use lt in \<open>simp_all add: diff_less_mono2\<close>)
    next
      case fallback
      show ?thesis
        using "1.hyps" [OF _ kmp_fallback(1) [OF inv lt fallback]] kmp_fallback(2) [OF inv lt fallback] lt fallback
        by (subst kmp_loop.simps) simp
    next
      case advance
      show ?thesis
        using "1.hyps" [OF _ kmp_advance [OF _ lt]] inv lt advance by (subst kmp_loop.simps) simp
    qed
  qed
qed


lemma kmp_loop_correct:
  assumes "0 < mx" and "t \<noteq> []"
  shows "\<exists>l p. kmp_loop t mx (replicate mx 0) 0 1 0 0 = Some (l, p) \<and> longest_so_far t mx (length t) l p"
proof (rule kmp_loop_total)
  have one: "border t v (Suc 0) \<longleftrightarrow> v = 0" for v using assms(2) by (auto simp: border_def Suc_le_eq)
  have zero: "\<not> border t v 0" for v by (simp add: border_def)
  show "kmp_inv t mx (replicate mx 0) 0 1 0 0"
    using assms(1) one zero
    by (auto simp: kmp_inv_def failure_table_def candidate_def longest_so_far_def longest_border_def le_Suc_eq)
  show "1 \<le> length t" using assms(2) by (cases t) simp_all
qed

subsection \<open>The search agrees with looking everywhere\<close>

text \<open>The last \<open>n\<close> tokens also start at position \<open>s\<close>, before the end of the context.\<close>

definition ngram_at :: "int list \<Rightarrow> nat \<Rightarrow> nat \<Rightarrow> bool" where
  "ngram_at tokens n s \<longleftrightarrow> s + n < length tokens \<and> take n (drop s tokens) = drop (length tokens - n) tokens"

text \<open>The longest n-gram first, and its earliest position.\<close>

definition ngram_reference :: "int list \<Rightarrow> nat \<Rightarrow> nat \<Rightarrow> int \<Rightarrow> int \<Rightarrow> int list" where
  "ngram_reference tokens min_ngram max_ngram max_model_len k =
     (case find (\<lambda>n. \<exists>s\<in>set [0..<length tokens]. ngram_at tokens n s) (rev [min_ngram..<Suc max_ngram]) of
        None \<Rightarrow> []
      | Some n \<Rightarrow>
          (case find (ngram_at tokens n) [0..<length tokens] of
             None \<Rightarrow> []
           | Some s \<Rightarrow> take (nat (min k (max_model_len - int (length tokens)))) (drop (s + n) tokens)))"

lemma border_ngram:
  assumes "j \<le> length tokens"
  shows "border (rev tokens) n j \<longleftrightarrow> ngram_at tokens n (length tokens - j)"
proof (cases "n < j")
  case True
  have "(\<forall>x<n. rev tokens ! x = rev tokens ! (j - n + x))
    \<longleftrightarrow> take n (drop (length tokens - j) tokens) = drop (length tokens - n) tokens"
  proof
    assume eq: "\<forall>x<n. rev tokens ! x = rev tokens ! (j - n + x)"
    show "take n (drop (length tokens - j) tokens) = drop (length tokens - n) tokens"
    proof (rule nth_equalityI)
      show "length (take n (drop (length tokens - j) tokens)) = length (drop (length tokens - n) tokens)"
        using True assms by simp
      fix y assume "y < length (take n (drop (length tokens - j) tokens))"
      then have y: "y < n" by simp
      then have "rev tokens ! (n - 1 - y) = rev tokens ! (j - n + (n - 1 - y))" using eq by simp
      then show "take n (drop (length tokens - j) tokens) ! y = drop (length tokens - n) tokens ! y"
        using y True assms by (simp add: rev_nth Suc_diff_Suc)
    qed
  next
    assume eq: "take n (drop (length tokens - j) tokens) = drop (length tokens - n) tokens"
    show "\<forall>x<n. rev tokens ! x = rev tokens ! (j - n + x)"
    proof (intro allI impI)
      fix x assume x: "x < n"
      have "take n (drop (length tokens - j) tokens) ! (n - 1 - x) = drop (length tokens - n) tokens ! (n - 1 - x)"
        using eq by simp
      then show "rev tokens ! x = rev tokens ! (j - n + x)"
        using x True assms by (simp add: rev_nth)
    qed
  qed
  moreover have "length tokens - j + n < length tokens" using True assms by linarith
  ultimately show ?thesis using True assms by (simp add: border_def ngram_at_def)
qed (use assms in \<open>auto simp: border_def ngram_at_def\<close>)


lemma find_first:
  "find P [0..<n] = (if \<exists>s<n. P s then Some (LEAST s. P s) else None)"
proof (cases "\<exists>s<n. P s")
  case True
  then obtain s where s: "s < n" "P s" by blast
  then have least: "P (LEAST s. P s)" "(LEAST s. P s) < n"
    using LeastI [of P s] Least_le [of P s] by auto
  have "find P [0..<n] = Some (LEAST s. P s)"
    unfolding find_Some_iff using least not_less_Least by (intro exI [of _ "LEAST s. P s"]) (auto dest: less_trans)
  then show ?thesis using True by simp
qed (auto simp: find_None_iff)

lemma find_after: "find P xs = None \<Longrightarrow> find P (xs @ ys) = find P ys"
  by (induction xs) (auto split: if_splits)

lemma find_longest:
  assumes "m \<le> n" and "n < b" and "P n" and "\<And>v. n < v \<Longrightarrow> v < b \<Longrightarrow> \<not> P v"
  shows "find P (rev [m..<b]) = Some n"
proof -
  have "[m..<b] = [m..<n] @ [n] @ [Suc n..<b]"
    using assms(1,2) by (metis append_Cons append_Nil less_imp_le_nat upt_add_eq_append upt_conv_Cons le_add_diff_inverse)
  moreover have "find P (rev [Suc n..<b]) = None" using assms(4) by (auto simp: find_None_iff)
  ultimately show ?thesis using assms(3) by (simp add: find_after)
qed

lemma find_ngram_reference:
  assumes "1 \<le> mn" and "mn \<le> mx"
  shows "find_ngram_and_propose tokens (int mn) (int mx) max_model_len k
    = Some (ngram_reference tokens mn mx max_model_len k)"
proof -
  define n where "n = length tokens"
  define k0 where "k0 = min k (max_model_len - int n)"
  consider (short) "n < mn" | (full) "mn \<le> n" "k0 \<le> 0" | (search) "mn \<le> n" "0 < k0" by linarith
  then show ?thesis
  proof cases
    case short
    then have "\<not> ngram_at tokens v s" if "mn \<le> v" for v s using that by (auto simp: ngram_at_def n_def)
    then have "find (\<lambda>v. \<exists>s\<in>set [0..<length tokens]. ngram_at tokens v s) (rev [mn..<Suc mx]) = None"
      by (auto simp: find_None_iff)
    then show ?thesis using short by (simp add: find_ngram_and_propose_def ngram_reference_def n_def)
  next
    case full
    then have "ngram_reference tokens mn mx max_model_len k = []"
      by (simp add: ngram_reference_def k0_def n_def split: option.splits)
    then show ?thesis using full by (simp add: find_ngram_and_propose_def k0_def n_def Let_def)
  next
    case search
    have "rev tokens \<noteq> []" "0 < mx" using search assms by (auto simp: n_def)
    then obtain l p where loop: "kmp_loop (rev tokens) mx (replicate mx 0) 0 1 0 0 = Some (l, p)"
      and best: "longest_so_far (rev tokens) mx n l p"
      using kmp_loop_correct [of mx "rev tokens"] by (auto simp: n_def)
    have most: "v \<le> l" if "ngram_at tokens v s" "v \<le> mx" for v s
    proof -
      have "s \<le> n" using that(1) by (simp add: ngram_at_def n_def)
      then have "border (rev tokens) v (n - s)"
        using border_ngram [of "n - s" tokens v] that(1) by (simp add: n_def)
      then show ?thesis using best that(2) unfolding longest_so_far_def by (metis diff_le_self)
    qed
    have run: "find_ngram_and_propose tokens (int mn) (int mx) max_model_len k
      = (if l < mn then Some [] else
          let start = int n - 1 - int p + int l; k = min k0 (int n - start) in Some (slice tokens start (start + k)))"
      using search loop by (simp add: find_ngram_and_propose_def k0_def [symmetric] n_def [symmetric] Let_def)
    show ?thesis
    proof (cases "l < mn")
      case True
      then have "find (\<lambda>v. \<exists>s\<in>set [0..<length tokens]. ngram_at tokens v s) (rev [mn..<Suc mx]) = None"
        using most by (fastforce simp: find_None_iff)
      then show ?thesis using True run by (simp add: ngram_reference_def)
    next
      case False
      then have l: "0 < l" "mn \<le> l" "l \<le> mx" using assms(1) best by (auto simp: longest_so_far_def)
      have p: "border (rev tokens) l (Suc p)" "p < n" "\<And>j. Suc p < j \<Longrightarrow> j \<le> n \<Longrightarrow> \<not> border (rev tokens) l j"
        using best l(1) by (auto simp: longest_so_far_def)
      define s where "s = n - Suc p"
      have at: "ngram_at tokens l s" using border_ngram [of "Suc p" tokens l] p(1,2) by (simp add: s_def n_def)
      have first: "s \<le> s'" if "ngram_at tokens l s'" for s'
      proof (rule ccontr)
        assume "\<not> s \<le> s'"
        then have "Suc p < n - s'" "n - s' \<le> n" by (auto simp: s_def)
        moreover have "s' \<le> n" using that by (simp add: ngram_at_def n_def)
        then have "border (rev tokens) l (n - s')" using border_ngram [of "n - s'" tokens l] that by (simp add: n_def)
        ultimately show False using p(3) by blast
      qed
      have sn: "s + l < n" using at by (simp add: ngram_at_def n_def)
      have "find (\<lambda>v. \<exists>s\<in>set [0..<length tokens]. ngram_at tokens v s) (rev [mn..<Suc mx]) = Some l"
        by (rule find_longest) (use l at most sn in \<open>fastforce simp: n_def\<close>)+
      moreover have "find (ngram_at tokens l) [0..<length tokens] = Some s"
      proof -
        have "\<exists>s'<length tokens. ngram_at tokens l s'" using at sn by (auto simp: n_def intro!: exI [of _ s])
        moreover have "(LEAST s'. ngram_at tokens l s') = s" using at first by (rule Least_equality)
        ultimately show ?thesis by (simp add: find_first)
      qed
      ultimately have ref: "ngram_reference tokens mn mx max_model_len k = take (nat k0) (drop (s + l) tokens)"
        by (simp add: ngram_reference_def k0_def n_def)
      have start: "int n - 1 - int p + int l = int (s + l)" using p(2) by (simp add: s_def)
      have "slice tokens (int (s + l)) (int (s + l) + min k0 (int n - int (s + l))) = take (nat k0) (drop (s + l) tokens)"
      proof -
        have k: "min k0 (int n - int (s + l)) = int (min (nat k0) (n - (s + l)))" using search(2) sn by auto
        have "slice tokens (int (s + l)) (int (s + l) + min k0 (int n - int (s + l)))
          = take (min (nat k0) (n - (s + l))) (drop (s + l) tokens)"
          unfolding k by (simp add: slice_nonneg nat_add_distrib take_drop add.commute)
        also have "\<dots> = take (nat k0) (drop (s + l) tokens)" by (cases "nat k0 \<le> n - (s + l)") (simp_all add: n_def)
        finally show ?thesis .
      qed
      then show ?thesis using run False ref by (simp add: start Let_def del: of_nat_add)
    qed
  qed
qed


text \<open>
  C13: The linear-time search ends and proposes what a search of the whole context proposes: it takes the longest n-gram
  between the bounds that ends the context and occurs earlier in it, at its earliest position, and copies the tokens
  that follow there, up to \<open>k\<close> and never beyond the maximal model length.
\<close>

theorem ngram_search_agrees_with_reference:
  assumes "1 \<le> mn" and "mn \<le> mx"
  shows "find_ngram_and_propose tokens (int mn) (int mx) max_model_len k
    = Some (ngram_reference tokens mn mx max_model_len k)"
  using assms by (rule find_ngram_reference)

theorem ngram_search_agrees_with_reference_witness:
  "find_ngram_and_propose [1, 2, 3, 4, 2, 3, 5, 2, 3] (int 1) (int 3) 100 2
     = Some (ngram_reference [1, 2, 3, 4, 2, 3, 5, 2, 3] 1 3 100 2)
   \<and> ngram_reference [1, 2, 3, 4, 2, 3, 5, 2, 3] 1 3 100 2 = [4, 2]"
proof -
  have "ngram_reference [1, 2, 3, 4, 2, 3, 5, 2, 3] 1 3 100 2 = [4, 2]" by code_simp
  then show ?thesis
    using ngram_search_agrees_with_reference [of 1 3 "[1, 2, 3, 4, 2, 3, 5, 2, 3]" 100 2] by simp
qed

subsection \<open>A batch\<close>

definition request_draft :: "NgramProposer \<Rightarrow> int list \<Rightarrow> int list list \<Rightarrow> nat \<Rightarrow> int list" where
  "request_draft p num_tokens token_ids i =
     ngram_reference (slice (token_ids ! i) 0 (num_tokens ! i)) (nat (min_n p)) (nat (max_n p)) (ng_max_model_len p) (k_tokens p)"

definition same_proposer :: "NgramProposer \<Rightarrow> NgramProposer \<Rightarrow> bool" where
  "same_proposer p q \<longleftrightarrow> min_n q = min_n p \<and> max_n q = max_n p \<and> k_tokens q = k_tokens p
     \<and> ng_max_model_len q = ng_max_model_len p \<and> length (valid_ngram_draft q) = length (valid_ngram_draft p)
     \<and> length (valid_ngram_num_drafts q) = length (valid_ngram_num_drafts p)"

definition has_draft :: "NgramProposer \<Rightarrow> nat \<Rightarrow> int list \<Rightarrow> bool" where
  "has_draft p i out \<longleftrightarrow> valid_ngram_num_drafts p ! i = int (length out)
     \<and> (out \<noteq> [] \<longrightarrow> slice (valid_ngram_draft p ! i) 0 (int (length out)) = out)"

lemma batch_propose_one_draft:
  assumes "1 \<le> min_n p" "min_n p \<le> max_n p" "i < length (valid_ngram_draft p)" "i < length (valid_ngram_num_drafts p)"
  shows "\<exists>q. batch_propose_one num_tokens token_ids i p = Inr q \<and> same_proposer p q
    \<and> has_draft q i (request_draft p num_tokens token_ids i) \<and> (\<forall>j out. j \<noteq> i \<longrightarrow> has_draft q j out = has_draft p j out)"
proof -
  define out where "out = request_draft p num_tokens token_ids i"
  have "find_ngram_and_propose (slice (token_ids ! i) 0 (num_tokens ! i)) (min_n p) (max_n p) (ng_max_model_len p) (k_tokens p)
      = Some out"
    using find_ngram_reference [of "nat (min_n p)" "nat (max_n p)"] assms(1,2) by (simp add: out_def request_draft_def)
  then show ?thesis
    using assms(3,4)
    by (auto simp: batch_propose_one_def of_run_def Let_def same_proposer_def has_draft_def out_def [symmetric]
        write_row_def slice_nonneg)
qed

lemma batch_propose_loop:
  assumes "1 \<le> min_n p" "min_n p \<le> max_n p" "distinct valid"
    and "\<And>i. i \<in> set valid \<Longrightarrow> i < length (valid_ngram_draft p) \<and> i < length (valid_ngram_num_drafts p)"
  shows "\<exists>q. foldE (batch_propose_one num_tokens token_ids) valid p = Inr q \<and> same_proposer p q
    \<and> (\<forall>i\<in>set valid. has_draft q i (request_draft p num_tokens token_ids i))
    \<and> (\<forall>j out. j \<notin> set valid \<longrightarrow> has_draft q j out = has_draft p j out)"
  using assms
proof (induction valid arbitrary: p)
  case (Cons i valid)
  obtain p1 where one: "batch_propose_one num_tokens token_ids i p = Inr p1" "same_proposer p p1"
    "has_draft p1 i (request_draft p num_tokens token_ids i)"
    "\<forall>j out. j \<noteq> i \<longrightarrow> has_draft p1 j out = has_draft p j out"
    using batch_propose_one_draft [of p i num_tokens token_ids] Cons.prems by auto
  have same: "request_draft p1 num_tokens token_ids j = request_draft p num_tokens token_ids j" for j
    using one(2) by (simp add: request_draft_def same_proposer_def)
  obtain q where "foldE (batch_propose_one num_tokens token_ids) valid p1 = Inr q" "same_proposer p1 q"
    "\<forall>i\<in>set valid. has_draft q i (request_draft p1 num_tokens token_ids i)"
    "\<forall>j out. j \<notin> set valid \<longrightarrow> has_draft q j out = has_draft p1 j out"
    using Cons.IH [of p1] Cons.prems one(2) by (auto simp: same_proposer_def)
  then show ?case using one Cons.prems(3) by (auto simp: same same_proposer_def)
qed (simp add: same_proposer_def)

text \<open>
  A batch gets, for each request that sampled a token and is below the maximal length, the proposal of the search in
  its tokens, and for all others nothing, whatever earlier calls left in the draft arrays.
\<close>

theorem batch_gets_proposal_of_each_request:
  assumes "1 \<le> min_n p" and "min_n p \<le> max_n p" and "length sampled \<le> length (valid_ngram_draft p)"
    and "length sampled \<le> length (valid_ngram_num_drafts p)"
  shows "\<exists>q. propose sampled num_tokens token_ids p = Inr (q, map (\<lambda>i.
      if sampled ! i \<noteq> [] \<and> num_tokens ! i < ng_max_model_len p then request_draft p num_tokens token_ids i else [])
      [0..<length sampled])"
proof -
  define valid where "valid = filter (\<lambda>i. sampled ! i \<noteq> [] \<and> num_tokens ! i < ng_max_model_len p) [0..<length sampled]"
  obtain q where q: "foldE (batch_propose_one num_tokens token_ids) valid p = Inr q"
    "\<forall>i\<in>set valid. has_draft q i (request_draft p num_tokens token_ids i)"
    using batch_propose_loop [OF assms(1,2), of valid num_tokens token_ids] assms(3,4) by (auto simp: valid_def)
  have "(if i \<in> set valid \<and> valid_ngram_num_drafts q ! i > 0
      then slice (valid_ngram_draft q ! i) 0 (valid_ngram_num_drafts q ! i) else [])
    = (if sampled ! i \<noteq> [] \<and> num_tokens ! i < ng_max_model_len p then request_draft p num_tokens token_ids i else [])"
    if "i < length sampled" for i
  proof (cases "i \<in> set valid")
    case True
    then have "has_draft q i (request_draft p num_tokens token_ids i)" using q(2) by blast
    then show ?thesis using True by (auto simp: has_draft_def valid_def)
  next
    case False
    then show ?thesis using that by (auto simp: valid_def)
  qed
  then show ?thesis by (simp add: propose_def batch_propose_def valid_def [symmetric] q(1))
qed

definition demo_proposer :: NgramProposer where
  "demo_proposer = \<lparr>min_n = 1, max_n = 3, k_tokens = 2, ng_max_model_len = 100,
     valid_ngram_draft = [[9, 9], [9, 9], [9, 9]], valid_ngram_num_drafts = [2, 2, 2]\<rparr>"

theorem batch_gets_proposal_of_each_request_witness:
  "\<exists>q. propose [[3], [], [7]] [6, 4, 3] [[1, 2, 3, 4, 2, 3], [1, 1, 1, 1], [5, 6, 7]] demo_proposer = Inr (q, [[4, 2], [], []])"
proof -
  have pre: "1 \<le> min_n demo_proposer" "min_n demo_proposer \<le> max_n demo_proposer"
    "length [[3], [], [7 :: int]] \<le> length (valid_ngram_draft demo_proposer)"
    "length [[3], [], [7 :: int]] \<le> length (valid_ngram_num_drafts demo_proposer)"
    by (simp_all add: demo_proposer_def)
  have val: "map (\<lambda>i. if [[3], [], [7 :: int]] ! i \<noteq> [] \<and> [6, 4, 3 :: int] ! i < ng_max_model_len demo_proposer
      then request_draft demo_proposer [6, 4, 3] [[1, 2, 3, 4, 2, 3], [1, 1, 1, 1], [5, 6, 7]] i else [])
      [0..<length [[3], [], [7 :: int]]] = [[4, 2], [], []]"
    by code_simp
  show ?thesis
    using batch_gets_proposal_of_each_request [OF pre, of "[6, 4, 3]" "[[1, 2, 3, 4, 2, 3], [1, 1, 1, 1], [5, 6, 7]]"]
    unfolding val by blast
qed

end
