(* ===== verification/Offloading_Connector.thy ===== *)
theory Offloading_Connector
  imports Offload_Lru Offload_Arc Scheduler_State Kv_Cache_Config
begin

section \<open>The offloading connector, scheduler side\<close>

text \<open>
  \<^verbatim>\<open>distributed/kv_transfer/kv_connector/v1/offloading_connector.py\<close> (\<^verbatim>\<open>OffloadingConnectorScheduler\<close>) and
  \<^verbatim>\<open>kv_offload/cpu.py\<close>: which blocks of a request are loaded from and stored to the offloading medium. The connector
  works on any \<^verbatim>\<open>OffloadingManager\<close>: the methods of the abstract class are the record \<open>manager_ops\<close>, with the
  two managers as instances. A request object is referred to by its identity; \<open>objs\<close> gives its present value. A set is a list without
  repetition: Python leaves the order of iteration open, and no theorem depends on it.
\<close>

subsection \<open>The interface of a manager\<close>

record 'm manager_ops =
  mg_lookup :: "block_hash list \<Rightarrow> 'm \<Rightarrow> int option"
  mg_prepare_load :: "block_hash list \<Rightarrow> 'm \<Rightarrow> ('m \<times> int list) result"
  mg_touch :: "block_hash list \<Rightarrow> 'm \<Rightarrow> 'm result"
  mg_complete_load :: "block_hash list \<Rightarrow> 'm \<Rightarrow> 'm result"
  mg_prepare_store :: "block_hash list \<Rightarrow> 'm \<Rightarrow> ('m \<times> PrepareStoreOutput option) result"
  mg_complete_store :: "block_hash list \<Rightarrow> bool \<Rightarrow> 'm \<Rightarrow> 'm result"
  mg_take_events :: "'m \<Rightarrow> 'm \<times> OffloadingEvent list"

definition lru_ops :: "LRUOffloadingManager manager_ops" where
  "lru_ops = \<lparr>mg_lookup = (\<lambda>hs s. Some (lru_lookup hs s)), mg_prepare_load = lru_prepare_load, mg_touch = lru_touch,
     mg_complete_load = lru_complete_load, mg_prepare_store = lru_prepare_store, mg_complete_store = lru_complete_store,
     mg_take_events = lru_take_events\<rparr>"

definition arc_ops :: "ARCOffloadingManager manager_ops" where
  "arc_ops = \<lparr>mg_lookup = (\<lambda>hs s. Some (arc_lookup hs s)), mg_prepare_load = arc_prepare_load, mg_touch = arc_touch,
     mg_complete_load = arc_complete_load, mg_prepare_store = arc_prepare_store,
     mg_complete_store = (\<lambda>hs success s. Inr (arc_complete_store hs success s)), mg_take_events = arc_take_events\<rparr>"

subsection \<open>Configuration\<close>

text \<open>
  \<^verbatim>\<open>OffloadingSpec\<close> and \<^verbatim>\<open>CPUOffloadingSpec\<close>. The values of \<^verbatim>\<open>kv_connector_extra_config\<close> are \<open>None\<close> where the key is
  absent. \<open>int\<close> of a value that is a number already.
\<close>

record offload_settings =
  os_gpu_block_size :: int
  extra_block_size :: "int option"
  cpu_bytes_to_use :: "int option"
  eviction_policy :: string
  os_world_size :: int
  enable_kv_cache_events :: "bool option"
  enable_prefix_caching :: bool

definition offloaded_size :: "offload_settings \<Rightarrow> int" where
  "offloaded_size cfg = (case extra_block_size cfg of None \<Rightarrow> os_gpu_block_size cfg | Some n \<Rightarrow> n)"

definition check_block_sizes :: "offload_settings \<Rightarrow> unit result" where
  "check_block_sizes cfg =
     (if os_gpu_block_size cfg = 0 then Inl ZeroDivisionError
      else assertE (offloaded_size cfg mod os_gpu_block_size cfg = 0) (Inr ()))"

definition cpu_num_blocks :: "offload_settings \<Rightarrow> KVCacheConfig \<Rightarrow> int result" where
  "cpu_num_blocks cfg kv =
     bindE (check_block_sizes cfg) (\<lambda>_.
     (case cpu_bytes_to_use cfg of
        None \<Rightarrow> Inl OtherException
      | Some cpu_bytes \<Rightarrow>
          if cpu_bytes = 0 then Inl OtherException
          else
            bindE (get_uniform_page_size (map kv_cache_spec (kv_cache_groups kv))) (\<lambda>page_size.
                let kv_bytes_per_block = page_size * int (length (kv_cache_tensors kv)) * os_world_size cfg;
                    per_offloaded_block = kv_bytes_per_block * (offloaded_size cfg div os_gpu_block_size cfg)
                in Inr (if per_offloaded_block > 0 then cpu_bytes div per_offloaded_block else 0))))"

datatype cpu_manager = LRUManager LRUOffloadingManager | ARCManager ARCOffloadingManager

definition get_manager :: "offload_settings \<Rightarrow> int \<Rightarrow> cpu_manager result" where
  "get_manager cfg n =
     (let enable_events = (enable_kv_cache_events cfg = Some True);
          backend = cpu_backend_init (offloaded_size cfg) n
      in if eviction_policy cfg = ''lru'' then Inr (LRUManager (lru_init backend enable_events))
         else if eviction_policy cfg = ''arc'' then Inr (ARCManager (arc_init backend enable_events))
         else Inl ValueError)"

subsection \<open>State\<close>

text \<open>A transfer goes between block numbers of the GPU and of the medium.\<close>

datatype LoadStoreSpec = GPUSpec "int list" | CPUSpec "int list"

type_synonym TransferSpec = "LoadStoreSpec \<times> LoadStoreSpec"

record OffloadingConnectorMetadata =
  meta_reqs_to_load :: "(string, TransferSpec) odict"
  meta_reqs_to_store :: "(string, TransferSpec) odict"

record 'm OffloadingConnectorScheduler =
  gpu_block_size :: int
  offloaded_block_size :: int
  block_size_factor :: int
  oc_manager :: 'm
  oc_requests :: "(string, int) odict"
  request_block_ids :: "(string, int list) odict"
  reqs_to_load :: "(string, TransferSpec) odict"
  next_stored_block_idx :: "(string, int) odict"
  blocks_being_loaded :: "block_hash list option"
  reqs_being_stored :: "(string, block_hash list) odict"
  reqs_being_loaded :: "(string, block_hash list) odict"

definition offloading_connector_init :: "offload_settings \<Rightarrow> 'm \<Rightarrow> 'm OffloadingConnectorScheduler result" where
  "offloading_connector_init cfg m =
     bindE (check_block_sizes cfg) (\<lambda>_.
     Inr \<lparr>gpu_block_size = os_gpu_block_size cfg, offloaded_block_size = offloaded_size cfg,
          block_size_factor = offloaded_size cfg div os_gpu_block_size cfg, oc_manager = m, oc_requests = [],
          request_block_ids = [], reqs_to_load = [], next_stored_block_idx = [],
          blocks_being_loaded = (if enable_prefix_caching cfg then Some [] else None),
          reqs_being_stored = [], reqs_being_loaded = []\<rparr>)"

text \<open>A \<^verbatim>\<open>defaultdict\<close> of sets: reading an absent key gives the empty set.\<close>

definition set_of :: "string \<Rightarrow> (string, block_hash list) odict \<Rightarrow> block_hash list" where
  "set_of rid d = (case map_of d rid of None \<Rightarrow> [] | Some hs \<Rightarrow> hs)"

definition set_union :: "'a list \<Rightarrow> 'a list \<Rightarrow> 'a list" where
  "set_union hs new = hs @ filter (\<lambda>h. h \<notin> set hs) (remdups new)"

subsection \<open>The hashes of the offloaded blocks\<close>

definition islice :: "'a list \<Rightarrow> int \<Rightarrow> int option \<Rightarrow> int \<Rightarrow> 'a list result" where
  "islice xs start stop step =
     (if start < 0 \<or> (case stop of None \<Rightarrow> False | Some e \<Rightarrow> e < 0) \<or> step < 1 then Inl ValueError
      else let e = (case stop of None \<Rightarrow> length xs | Some e \<Rightarrow> min (length xs) (nat e))
           in Inr (map (nth xs) (filter (\<lambda>i. (i - nat start) mod nat step = 0) [nat start..<e])))"

definition oc_get_block_hashes ::
    "'m OffloadingConnectorScheduler \<Rightarrow> Request \<Rightarrow> int \<Rightarrow> int option \<Rightarrow> block_hash list result" where
  "oc_get_block_hashes c r start_idx end_idx =
     islice (block_hashes r) (block_size_factor c * start_idx + block_size_factor c - 1)
       (case end_idx of None \<Rightarrow> None | Some e \<Rightarrow> if e = 0 then None else Some (block_size_factor c * e))
       (block_size_factor c)"

subsection \<open>Looking up and loading\<close>

definition oc_get_num_new_matched_tokens ::
    "'m manager_ops \<Rightarrow> Request \<Rightarrow> int \<Rightarrow> 'm OffloadingConnectorScheduler
     \<Rightarrow> ('m OffloadingConnectorScheduler \<times> int option \<times> bool) result" where
  "oc_get_num_new_matched_tokens mg r num_computed c =
     bindE (floordivE (num_tokens r) (offloaded_block_size c)) (\<lambda>num_blocks.
     bindE (floordivE (int (length (block_hashes r))) (block_size_factor c)) (\<lambda>num_hashed.
     assertE (num_hashed = num_blocks)
     (bindE (oc_get_block_hashes c r 0 None) (\<lambda>hs.
      bindE (mg_touch mg hs (oc_manager c)) (\<lambda>m.
      let c = c\<lparr>oc_manager := m\<rparr>; full_block_tokens = offloaded_block_size c * num_blocks in
      if full_block_tokens - num_computed < offloaded_block_size c then Inr (c, Some 0, False)
      else
        let start_block_idx = num_computed div offloaded_block_size c in
        bindE (oc_get_block_hashes c r start_block_idx None) (\<lambda>hs.
        case mg_lookup mg hs m of
          None \<Rightarrow> Inr (c, None, False)
        | Some hits \<Rightarrow>
            if hits = 0 then Inr (c, Some 0, False)
            else
              let num_hit_tokens = offloaded_block_size c * (start_block_idx + hits) - num_computed in
              if num_hit_tokens < offloaded_block_size c then Inr (c, Some 0, False)
              else (case blocks_being_loaded c of
                  Some (b # bs) \<Rightarrow>
                    bindE (oc_get_block_hashes c r start_block_idx (Some (start_block_idx + hits))) (\<lambda>hs.
                    if \<exists>h \<in> set hs. h \<in> set (b # bs) then Inr (c, None, False)
                    else Inr (c, Some num_hit_tokens, True))
                | _ \<Rightarrow> Inr (c, Some num_hit_tokens, True))))))))"

text \<open>
  \<open>groups\<close>: per cache group the ids of the blocks of the request and their hashes, as
  \<^verbatim>\<open>KVCacheBlocks\<close> gives them.
\<close>

definition start_load ::
    "'m manager_ops \<Rightarrow> Request \<Rightarrow> (int \<times> bytes option) list \<Rightarrow> int \<Rightarrow> 'm OffloadingConnectorScheduler
     \<Rightarrow> 'm OffloadingConnectorScheduler result" where
  "start_load mg r bls num_external c =
     (let rid = request_id r;
          block_ids = map fst bls;
          num_computed_gpu_blocks = length (filter (\<lambda>b. snd b \<noteq> None) bls);
          num_computed_tokens = int num_computed_gpu_blocks * gpu_block_size c;
          full_block_tokens = num_computed_tokens + num_external
      in assertE (full_block_tokens mod offloaded_block_size c = 0)
         (assertE (num_external = (int (length block_ids) - int num_computed_gpu_blocks) * gpu_block_size c)
         (let start_block_idx = num_computed_tokens div offloaded_block_size c;
              num_blocks = full_block_tokens div offloaded_block_size c
          in assertE (int (length (block_hashes r)) div block_size_factor c \<ge> num_blocks)
             (bindE (oc_get_block_hashes c r start_block_idx (Some num_blocks)) (\<lambda>hs.
              bindE (mg_prepare_load mg hs (oc_manager c)) (\<lambda>(m, src).
              let loaded = set_union (set_of rid (reqs_being_loaded c)) hs in
              Inr (c\<lparr>oc_manager := m,
                     reqs_to_load := AList.update rid (CPUSpec src, GPUSpec (drop num_computed_gpu_blocks block_ids)) (reqs_to_load c),
                     reqs_being_loaded := AList.update rid loaded (reqs_being_loaded c),
                     next_stored_block_idx := AList.update rid num_blocks (next_stored_block_idx c),
                     blocks_being_loaded := map_option (\<lambda>s. set_union s loaded) (blocks_being_loaded c)\<rparr>)))))))"

definition oc_update_state_after_alloc ::
    "'m manager_ops \<Rightarrow> Request \<Rightarrow> (int \<times> bytes option) list list \<Rightarrow> int \<Rightarrow> 'm OffloadingConnectorScheduler
     \<Rightarrow> 'm OffloadingConnectorScheduler result" where
  "oc_update_state_after_alloc mg r groups num_external c =
     (let rid = request_id r;
          c = c\<lparr>oc_requests := AList.update rid (py_id r) (oc_requests c),
                request_block_ids := AList.update rid [] (request_block_ids c)\<rparr>
      in if num_external = 0 then Inr c
         else if offloaded_block_size c = 0 \<or> block_size_factor c = 0 then Inl ZeroDivisionError
         else bindE (index_py groups 0) (\<lambda>bls. start_load mg r bls num_external c))"

subsection \<open>Storing\<close>

text \<open>\<^verbatim>\<open>yield_req_data\<close> of \<^verbatim>\<open>kv_connector/utils.py\<close>: id, new block ids by group, whether the request was preempted.\<close>

definition yield_req_data :: "SchedulerOutput \<Rightarrow> (string \<times> int list list option \<times> bool) list" where
  "yield_req_data so =
     map (\<lambda>d. (new_req_id d, Some (new_req_block_ids d), False)) (scheduled_new_data so) @
     map (\<lambda>(rid, ids). (rid, ids, rid \<in> set (resumed_req_ids (scheduled_cached_reqs so))))
       (zip (req_ids (scheduled_cached_reqs so)) (new_block_ids (scheduled_cached_reqs so)))"

text \<open>The GPU blocks that make up the offloaded blocks to be stored.\<close>

definition src_block_ids_of ::
    "'m OffloadingConnectorScheduler \<Rightarrow> int list \<Rightarrow> int \<Rightarrow> block_hash list \<Rightarrow> block_hash list \<Rightarrow> int list result" where
  "src_block_ids_of c block_ids start_block_idx new_hashes to_store =
     foldE (\<lambda>(idx, h) src.
       if h \<notin> set to_store then Inr src
       else bindE (mapE (\<lambda>i. index_py block_ids ((start_block_idx + int idx) * block_size_factor c + int i))
                    [0..<nat (block_size_factor c)]) (\<lambda>ids. Inr (src @ ids)))
       (enumerate 0 new_hashes) []"

text \<open>The block list of a request after the step: reset when it was resumed, then extended.\<close>

definition track_block_ids ::
    "string \<Rightarrow> int list list option \<Rightarrow> bool \<Rightarrow> 'm OffloadingConnectorScheduler \<Rightarrow> 'm OffloadingConnectorScheduler result" where
  "track_block_ids rid new_groups preempted c =
     (let c = (if preempted then c\<lparr>request_block_ids := AList.update rid [] (request_block_ids c)\<rparr> else c) in
      case new_groups of
        Some (new_ids # _) \<Rightarrow>
          bindE (of_option KeyError (map_of (request_block_ids c) rid)) (\<lambda>ids.
          Inr (c\<lparr>request_block_ids := AList.update rid (ids @ new_ids) (request_block_ids c)\<rparr>))
      | _ \<Rightarrow> Inr c)"

text \<open>Storing the offloaded blocks from \<open>start\<close> to \<open>stop\<close> of a request.\<close>

definition store_blocks ::
    "'m manager_ops \<Rightarrow> string \<Rightarrow> Request \<Rightarrow> int list \<Rightarrow> int \<Rightarrow> int
     \<Rightarrow> 'm OffloadingConnectorScheduler \<times> (string, TransferSpec) odict
     \<Rightarrow> ('m OffloadingConnectorScheduler \<times> (string, TransferSpec) odict) result" where
  "store_blocks mg rid r block_ids start stop = (\<lambda>(c, to_store).
     bindE (oc_get_block_hashes c r start (Some stop)) (\<lambda>new_hashes.
     bindE (mg_prepare_store mg new_hashes (oc_manager c)) (\<lambda>(m, out).
     let c = c\<lparr>oc_manager := m\<rparr> in
     case out of
       None \<Rightarrow> Inr (c, to_store)
     | Some out \<Rightarrow>
         let c = c\<lparr>next_stored_block_idx := AList.update rid stop (next_stored_block_idx c)\<rparr> in
         if block_hashes_to_store out = [] then Inr (c, to_store)
         else
           bindE (oc_get_block_hashes c r 0 (Some stop)) (\<lambda>hs.
           bindE (mg_touch mg hs m) (\<lambda>m.
           bindE (src_block_ids_of c block_ids start new_hashes (block_hashes_to_store out)) (\<lambda>src.
           Inr (c\<lparr>oc_manager := m,
                  reqs_being_stored := AList.update rid
                    (set_union (set_of rid (reqs_being_stored c)) (block_hashes_to_store out)) (reqs_being_stored c)\<rparr>,
                AList.update rid (GPUSpec src, CPUSpec (store_spec out)) to_store)))))))"

definition store_request ::
    "'m manager_ops \<Rightarrow> (int \<Rightarrow> Request) \<Rightarrow> SchedulerOutput \<Rightarrow> string \<times> int list list option \<times> bool
     \<Rightarrow> 'm OffloadingConnectorScheduler \<times> (string, TransferSpec) odict
     \<Rightarrow> ('m OffloadingConnectorScheduler \<times> (string, TransferSpec) odict) result" where
  "store_request mg objs so = (\<lambda>(rid, new_groups, preempted) (c, to_store).
     bindE (track_block_ids rid new_groups preempted c) (\<lambda>c.
     bindE (of_option KeyError (map_of (request_block_ids c) rid)) (\<lambda>block_ids.
     bindE (of_option KeyError (map_of (oc_requests c) rid)) (\<lambda>p.
     bindE (of_option KeyError (map_of (out_num_scheduled_tokens so) rid)) (\<lambda>new_tokens.
     bindE (floordivE (num_computed_tokens (objs p) + new_tokens) (offloaded_block_size c)) (\<lambda>num_blocks.
     let start = (case map_of (next_stored_block_idx c) rid of None \<Rightarrow> 0 | Some i \<Rightarrow> i) in
     if num_blocks - start \<le> 0 then Inr (c, to_store)
     else store_blocks mg rid (objs p) block_ids start num_blocks (c, to_store)))))))"

definition get_reqs_to_store ::
    "'m manager_ops \<Rightarrow> (int \<Rightarrow> Request) \<Rightarrow> SchedulerOutput \<Rightarrow> 'm OffloadingConnectorScheduler
     \<Rightarrow> ('m OffloadingConnectorScheduler \<times> (string, TransferSpec) odict) result" where
  "get_reqs_to_store mg objs so c = foldE (store_request mg objs so) (yield_req_data so) (c, [])"

text \<open>The stores of a preempted request: the worker waits for them before the step runs.\<close>

definition complete_preempted ::
    "'m manager_ops \<Rightarrow> string \<Rightarrow> 'm OffloadingConnectorScheduler \<Rightarrow> 'm OffloadingConnectorScheduler result" where
  "complete_preempted mg rid c = (case map_of (reqs_being_stored c) rid of
     Some (h # hs) \<Rightarrow>
       bindE (mg_complete_store mg (h # hs) True (oc_manager c)) (\<lambda>m.
       Inr (c\<lparr>oc_manager := m, reqs_being_stored := AList.update rid [] (reqs_being_stored c)\<rparr>))
   | _ \<Rightarrow> Inr c)"

definition oc_build_connector_meta ::
    "'m manager_ops \<Rightarrow> (int \<Rightarrow> Request) \<Rightarrow> SchedulerOutput \<Rightarrow> 'm OffloadingConnectorScheduler
     \<Rightarrow> ('m OffloadingConnectorScheduler \<times> OffloadingConnectorMetadata) result" where
  "oc_build_connector_meta mg objs so c =
     bindE (get_reqs_to_store mg objs so c) (\<lambda>(c, to_store).
     let md = \<lparr>meta_reqs_to_load = reqs_to_load c, meta_reqs_to_store = to_store\<rparr> in
     bindE (foldE (complete_preempted mg) (preempted_req_ids so) (c\<lparr>reqs_to_load := []\<rparr>)) (\<lambda>c.
     Inr (c, md)))"

subsection \<open>Finished transfers and requests\<close>

definition finish_store ::
    "'m manager_ops \<Rightarrow> string \<Rightarrow> 'm OffloadingConnectorScheduler \<Rightarrow> 'm OffloadingConnectorScheduler result" where
  "finish_store mg rid c =
     (let hs = set_of rid (reqs_being_stored c);
          c = c\<lparr>reqs_being_stored := AList.delete rid (reqs_being_stored c)\<rparr>
      in if hs = [] then Inr c
         else bindE (mg_complete_store mg hs True (oc_manager c)) (\<lambda>m. Inr (c\<lparr>oc_manager := m\<rparr>)))"

definition finish_load ::
    "'m manager_ops \<Rightarrow> string \<Rightarrow> 'm OffloadingConnectorScheduler \<Rightarrow> 'm OffloadingConnectorScheduler result" where
  "finish_load mg rid c =
     (let hs = set_of rid (reqs_being_loaded c);
          c = c\<lparr>reqs_being_loaded := AList.delete rid (reqs_being_loaded c)\<rparr>
      in if hs = [] then Inr c
         else
           let c = c\<lparr>blocks_being_loaded := map_option (filter (\<lambda>h. h \<notin> set hs)) (blocks_being_loaded c)\<rparr>
           in bindE (mg_complete_load mg hs (oc_manager c)) (\<lambda>m. Inr (c\<lparr>oc_manager := m\<rparr>)))"

definition oc_update_connector_output ::
    "'m manager_ops \<Rightarrow> KVConnectorOutput \<Rightarrow> 'm OffloadingConnectorScheduler \<Rightarrow> 'm OffloadingConnectorScheduler result" where
  "oc_update_connector_output mg out c =
     bindE (foldE (finish_store mg) (finished_sending out) c) (foldE (finish_load mg) (finished_recving out))"

definition oc_request_finished ::
    "Request \<Rightarrow> 'm OffloadingConnectorScheduler \<Rightarrow> 'm OffloadingConnectorScheduler \<times> bool" where
  "oc_request_finished r c =
     (let rid = request_id r in
      (c\<lparr>oc_requests := AList.delete rid (oc_requests c), request_block_ids := AList.delete rid (request_block_ids c),
         next_stored_block_idx := AList.delete rid (next_stored_block_idx c)\<rparr>,
       map_of (reqs_being_stored c) rid \<noteq> None))"

definition connector_event :: "OffloadingEvent \<Rightarrow> KVCacheEvent" where
  "connector_event e =
     (if ev_removed e then BlockRemoved (map HashBytes (ev_block_hashes e)) (ev_medium e)
      else BlockStored (map HashBytes (ev_block_hashes e)) None [] (ev_block_size e) None (ev_medium e) None)"

definition oc_take_events ::
    "'m manager_ops \<Rightarrow> 'm OffloadingConnectorScheduler \<Rightarrow> 'm OffloadingConnectorScheduler \<times> KVCacheEvent list" where
  "oc_take_events mg c =
     (case mg_take_events mg (oc_manager c) of (m, evs) \<Rightarrow> (c\<lparr>oc_manager := m\<rparr>, map connector_event evs))"

end
