(* ===== verification/Offloading_Protocol.thy ===== *)
theory Offloading_Protocol
  imports Offloading_Connector
begin

section \<open>The offloading protocol\<close>

text \<open>
  What the connector needs of a manager is the locale \<open>offloading_service\<close>: how each call changes the entries, that is
  the reference counts and block numbers of the hashes. The invariant \<open>connector_ok\<close> ties these entries to the
  transfers that the connector has under way, and is proved once for every manager that keeps the laws. The LRU
  manager is one; the ARC manager is not, as it cannot be told that a block just reserved was used.
\<close>

subsection \<open>Tables of sets\<close>

lemma concat_update:
  "distinct_keys d \<Longrightarrow> mset (concat (map snd (AList.update k v d))) + mset (set_of k d) = mset (concat (map snd d)) + mset v"
proof (induction d)
  case (Cons p d)
  show ?case
  proof (cases "fst p = k")
    case True
    then have "set_of k (p # d) = snd p" by (cases p) (simp add: set_of_def)
    with True show ?thesis by (cases p) simp
  next
    case False
    then have "set_of k (p # d) = set_of k d" by (cases p) (simp add: set_of_def)
    with False Cons show ?thesis by (cases p) (simp add: algebra_simps)
  qed
qed (simp add: set_of_def)

lemma concat_delete:
  assumes "distinct_keys d"
  shows "mset (concat (map snd (AList.delete k d))) + mset (set_of k d) = mset (concat (map snd d))"
  using assms
proof (induction d)
  case (Cons p d)
  show ?case
  proof (cases "fst p = k")
    case True
    then have "map_of d k = None" using Cons.prems by (auto simp: map_of_eq_None_iff)
    then have "AList.delete k (p # d) = d" using True delete_fresh by (cases p) simp
    with True show ?thesis by (cases p) (simp add: set_of_def)
  next
    case False
    then have "set_of k (p # d) = set_of k d" by (cases p) (simp add: set_of_def)
    with False Cons show ?thesis by (cases p) (simp add: algebra_simps)
  qed
qed (simp add: set_of_def)

lemma set_of_subset: "set (set_of k d) \<subseteq> set (concat (map snd d))"
  by (cases "map_of d k") (force simp: set_of_def simp del: map_of_eq_Some_iff dest: map_of_SomeD)+

lemma set_of_mset: "distinct_keys d \<Longrightarrow> mset (set_of k d) \<subseteq># mset (concat (map snd d))"
  using concat_delete [of d k] by (metis mset_subset_eq_add_right)

lemma set_union_set [simp]: "set (set_union hs new) = set hs \<union> set new"
  by (auto simp: set_union_def)

lemma set_union_distinct: "distinct hs \<Longrightarrow> distinct (set_union hs new)"
  by (auto simp: set_union_def)

lemma set_union_fresh: "set hs \<inter> set new = {} \<Longrightarrow> distinct new \<Longrightarrow> set_union hs new = hs @ new"
  by (auto simp: set_union_def distinct_remdups_id intro!: filter_True)

lemma set_keys_update: "distinct_keys d \<Longrightarrow> distinct_keys (AList.update k v d)"
  by (rule distinct_update)

lemma keys_delete_distinct: "distinct_keys d \<Longrightarrow> distinct_keys (AList.delete k d)"
  by (simp add: delete_filter distinct_map_filter)

lemma count_concat_le: "\<forall>p \<in> set d. distinct (snd p) \<Longrightarrow> count (mset (concat (map snd d))) h \<le> length d"
proof (induction d)
  case (Cons p d)
  then have "count (mset (snd p)) h \<le> 1" by (simp add: distinct_count_atmost_1)
  with Cons show ?case by simp
qed simp

subsection \<open>The contract\<close>

definition shift_ref :: "int \<Rightarrow> BlockStatus \<Rightarrow> BlockStatus" where
  "shift_ref k b = b\<lparr>st_ref_cnt := st_ref_cnt b + k\<rparr>"

lemma shift_ref_sel [simp]: "st_ref_cnt (shift_ref k b) = st_ref_cnt b + k" "st_block_id (shift_ref k b) = st_block_id b"
  by (simp_all add: shift_ref_def)

definition make_ready :: "BlockStatus \<Rightarrow> BlockStatus" where
  "make_ready b = (if is_ready b then b else b\<lparr>st_ref_cnt := 0\<rparr>)"

lemma make_ready_sel [simp]: "is_ready (make_ready b)" "st_block_id (make_ready b) = st_block_id b"
  "is_ready b \<Longrightarrow> make_ready b = b" "\<not> is_ready b \<Longrightarrow> st_ref_cnt (make_ready b) = 0"
  by (simp_all add: make_ready_def is_ready_def)

type_synonym entries = "block_hash \<Rightarrow> BlockStatus option"

definition on_hashes :: "block_hash list \<Rightarrow> (BlockStatus \<Rightarrow> BlockStatus) \<Rightarrow> entries \<Rightarrow> entries" where
  "on_hashes hs f e = (\<lambda>h. if h \<in> set hs then map_option f (e h) else e h)"

definition reserved :: "block_hash list \<Rightarrow> entries \<Rightarrow> entries \<Rightarrow> PrepareStoreOutput \<Rightarrow> bool" where
  "reserved hs e e' out \<longleftrightarrow> block_hashes_to_store out = filter (\<lambda>h. e h = None) hs
     \<and> (\<forall>h \<in> set (block_hashes_to_store out). \<exists>b. e' h = Some b \<and> st_ref_cnt b = -1)
     \<and> store_spec out = map (\<lambda>h. st_block_id (the (e' h))) (block_hashes_to_store out)
     \<and> (\<forall>h. h \<notin> set (block_hashes_to_store out) \<longrightarrow> e' h = e h \<or> (\<exists>b. e h = Some b \<and> st_ref_cnt b = 0 \<and> e' h = None))"

locale offloading_service =
  fixes mg :: "'m manager_ops" and ok :: "'m \<Rightarrow> bool" and entry :: "'m \<Rightarrow> entries"
  assumes lookup_law: "mg_lookup mg hs m = Some (int (length (takeWhile (\<lambda>h. \<exists>b. entry m h = Some b \<and> is_ready b) hs)))"
    and touch_law: "ok m \<Longrightarrow> \<exists>m'. mg_touch mg hs m = Inr m' \<and> ok m' \<and> entry m' = entry m"
    and load_law: "ok m \<Longrightarrow> distinct hs \<Longrightarrow>
      \<forall>h \<in> set hs. \<exists>b. entry m h = Some b \<and> is_ready b \<and> st_ref_cnt b < 2 ^ 31 - 1 \<Longrightarrow>
      \<exists>m'. mg_prepare_load mg hs m = Inr (m', map (\<lambda>h. st_block_id (the (entry m h))) hs) \<and> ok m'
        \<and> entry m' = on_hashes hs (shift_ref 1) (entry m)"
    and complete_load_law: "ok m \<Longrightarrow> distinct hs \<Longrightarrow>
      \<forall>h \<in> set hs. \<exists>b. entry m h = Some b \<and> 0 < st_ref_cnt b \<and> st_ref_cnt b < 2 ^ 31 \<Longrightarrow>
      \<exists>m'. mg_complete_load mg hs m = Inr m' \<and> ok m' \<and> entry m' = on_hashes hs (shift_ref (-1)) (entry m)"
    and store_law: "ok m \<Longrightarrow> distinct hs \<Longrightarrow>
      \<exists>m' out. mg_prepare_store mg hs m = Inr (m', out) \<and> ok m'
        \<and> (case out of None \<Rightarrow> entry m' = entry m | Some out \<Rightarrow> reserved hs (entry m) (entry m') out)"
    and complete_store_law: "ok m \<Longrightarrow> \<forall>h \<in> set hs. entry m h \<noteq> None \<Longrightarrow>
      \<exists>m'. mg_complete_store mg hs True m = Inr m' \<and> ok m' \<and> entry m' = on_hashes hs make_ready (entry m)"
    and events_law: "ok m \<Longrightarrow> mg_take_events mg m = (m', evs) \<Longrightarrow> ok m' \<and> entry m' = entry m"
    and blocks_law: "ok m \<Longrightarrow> entry m h = Some b \<Longrightarrow> entry m h' = Some b' \<Longrightarrow> st_block_id b = st_block_id b' \<Longrightarrow> h = h'"

subsection \<open>The invariant of the connector\<close>

definition storing :: "'m OffloadingConnectorScheduler \<Rightarrow> block_hash list" where
  "storing c = concat (map snd (reqs_being_stored c))"

definition loading :: "'m OffloadingConnectorScheduler \<Rightarrow> block_hash list" where
  "loading c = concat (map snd (reqs_being_loaded c))"

text \<open>The blocks not ready are those being stored, by one request each, and a reference count counts the loads.\<close>

definition counts_ok :: "entries \<Rightarrow> block_hash list \<Rightarrow> block_hash list \<Rightarrow> bool" where
  "counts_ok e st ld \<longleftrightarrow> distinct st
     \<and> (\<forall>h. h \<in> set st \<longleftrightarrow> (\<exists>b. e h = Some b \<and> \<not> is_ready b))
     \<and> (\<forall>h b. e h = Some b \<longrightarrow> is_ready b \<longrightarrow> st_ref_cnt b = int (count (mset ld) h))
     \<and> (\<forall>h \<in> set ld. \<exists>b. e h = Some b \<and> is_ready b)"

lemma counts_okD:
  assumes "counts_ok e st ld"
  shows "distinct st" and "h \<in> set st \<longleftrightarrow> (\<exists>b. e h = Some b \<and> \<not> is_ready b)"
    and "e h = Some b \<Longrightarrow> is_ready b \<Longrightarrow> st_ref_cnt b = int (count (mset ld) h)"
    and "h \<in> set ld \<Longrightarrow> \<exists>b. e h = Some b \<and> is_ready b"
  using assms unfolding counts_ok_def by blast+

definition tables_ok :: "'m OffloadingConnectorScheduler \<Rightarrow> bool" where
  "tables_ok c \<longleftrightarrow> distinct_keys (reqs_being_stored c) \<and> distinct_keys (reqs_being_loaded c)
     \<and> (\<forall>p \<in> set (reqs_being_loaded c). distinct (snd p)) \<and> int (length (reqs_being_loaded c)) < 2 ^ 31
     \<and> 0 < gpu_block_size c \<and> 0 < block_size_factor c \<and> offloaded_block_size c = gpu_block_size c * block_size_factor c
     \<and> (\<forall>rid i. map_of (next_stored_block_idx c) rid = Some i \<longrightarrow> 0 \<le> i)
     \<and> (case blocks_being_loaded c of None \<Rightarrow> True | Some hs \<Rightarrow> set hs = set (loading c) \<and> distinct (loading c))"

lemma tables_ok_manager [simp]: "tables_ok (c\<lparr>oc_manager := m\<rparr>) = tables_ok c"
  by (simp add: tables_ok_def loading_def split: option.split)

definition connector_ok :: "('m \<Rightarrow> bool) \<Rightarrow> ('m \<Rightarrow> entries) \<Rightarrow> 'm OffloadingConnectorScheduler \<Rightarrow> bool" where
  "connector_ok ok entry c \<longleftrightarrow> ok (oc_manager c) \<and> tables_ok c \<and> counts_ok (entry (oc_manager c)) (storing c) (loading c)"


subsection \<open>How the four transfers change the counts\<close>

lemma on_hashes_Some: "on_hashes hs f e h = Some b \<longleftrightarrow> (\<exists>b0. e h = Some b0 \<and> b = (if h \<in> set hs then f b0 else b0))"
  by (auto simp: on_hashes_def)

lemma on_hashes_ex:
  assumes "\<And>b. e h = Some b \<Longrightarrow> Q (if h \<in> set hs then f b else b) \<longleftrightarrow> Q b"
  shows "(\<exists>b. on_hashes hs f e h = Some b \<and> Q b) \<longleftrightarrow> (\<exists>b. e h = Some b \<and> Q b)"
  using assms by (cases "e h") (auto simp: on_hashes_def)

lemma counts_store_done:
  assumes c: "counts_ok e st ld" and split: "mset st' + mset hs = mset st"
  shows "counts_ok (on_hashes hs make_ready e) st' ld"
proof -
  have d: "distinct (st' @ hs)" using c split by (metis counts_ok_def mset_append mset_eq_imp_distinct_iff)
  have sets: "set st = set st' \<union> set hs" using split by (metis set_mset_mset set_mset_union)
  note unready = counts_okD(2) [OF c] and refs = counts_okD(3) [OF c] and ld = counts_okD(4) [OF c]
  show ?thesis unfolding counts_ok_def
  proof (intro conjI allI impI ballI)
    show "distinct st'" using d by simp
    show "h \<in> set st' \<longleftrightarrow> (\<exists>b. on_hashes hs make_ready e h = Some b \<and> \<not> is_ready b)" for h
      using unready [of h] sets d by (auto simp: on_hashes_Some)
    show "\<exists>b. on_hashes hs make_ready e h = Some b \<and> is_ready b" if "h \<in> set ld" for h
      using ld [OF that] by (cases "e h") (auto simp: on_hashes_def)
    fix h b assume b: "on_hashes hs make_ready e h = Some b" "is_ready b"
    then obtain b0 where b0: "e h = Some b0" "b = (if h \<in> set hs then make_ready b0 else b0)" by (auto simp: on_hashes_Some)
    show "st_ref_cnt b = int (count (mset ld) h)"
    proof (cases "is_ready b0")
      case True
      then show ?thesis using refs [OF b0(1)] b0(2) by (simp split: if_splits)
    next
      case False
      then have "h \<notin> set ld" using ld [of h] b0(1) by auto
      then show ?thesis using False b0(2) b(2) by (auto simp: count_eq_zero_iff split: if_splits)
    qed
  qed
qed

text \<open>A load or its end changes the counts of its blocks by \<open>k\<close>.\<close>

lemma counts_shifted:
  assumes c: "counts_ok e st ld" and sub: "set ld' \<subseteq> set ld \<union> set hs"
    and count: "\<And>h. int (count (mset ld') h) = int (count (mset ld) h) + (if h \<in> set hs then k else 0)"
    and all: "\<And>h. h \<in> set hs \<Longrightarrow> \<exists>b. e h = Some b \<and> is_ready b"
  shows "counts_ok (on_hashes hs (shift_ref k) e) st ld'"
proof -
  note unready = counts_okD(2) [OF c] and refs = counts_okD(3) [OF c] and ld = counts_okD(4) [OF c]
  have ready: "is_ready (if h \<in> set hs then shift_ref k b else b) \<longleftrightarrow> is_ready b" if b: "e h = Some b" for h b
  proof (cases "h \<in> set hs")
    case True
    with all b have "is_ready b" by fastforce
    with refs [OF b] count [of h] True show ?thesis by (simp add: is_ready_def)
  qed simp
  have unready': "(\<exists>b. on_hashes hs (shift_ref k) e h = Some b \<and> \<not> is_ready b) \<longleftrightarrow> (\<exists>b. e h = Some b \<and> \<not> is_ready b)"
    and ready': "(\<exists>b. on_hashes hs (shift_ref k) e h = Some b \<and> is_ready b) \<longleftrightarrow> (\<exists>b. e h = Some b \<and> is_ready b)" for h
    by (rule on_hashes_ex, use ready in blast)+
  show ?thesis unfolding counts_ok_def unready' ready'
  proof (intro conjI allI impI ballI)
    show "distinct st" using c by (simp add: counts_ok_def)
    show "h \<in> set st \<longleftrightarrow> (\<exists>b. e h = Some b \<and> \<not> is_ready b)" for h by (rule unready)
    show "\<exists>b. e h = Some b \<and> is_ready b" if "h \<in> set ld'" for h using that sub ld all by blast
    fix h b assume b: "on_hashes hs (shift_ref k) e h = Some b" "is_ready b"
    then obtain b0 where b0: "e h = Some b0" "b = (if h \<in> set hs then shift_ref k b0 else b0)" by (auto simp: on_hashes_Some)
    have "is_ready b0" using ready [OF b0(1)] b0(2) b(2) by simp
    then show "st_ref_cnt b = int (count (mset ld') h)" using refs [OF b0(1)] b0(2) count [of h] by simp
  qed
qed

lemma count_distinct: "distinct hs \<Longrightarrow> count (mset hs) h = (if h \<in> set hs then 1 else 0)"
  by (simp add: distinct_count_atmost_1)

lemma counts_load_done:
  assumes c: "counts_ok e st ld" and split: "mset ld' + mset hs = mset ld" and hs: "distinct hs"
  shows "counts_ok (on_hashes hs (shift_ref (-1)) e) st ld'"
proof (rule counts_shifted [OF c])
  have sets: "set ld = set ld' \<union> set hs" using split by (metis set_mset_mset set_mset_union)
  then show "set ld' \<subseteq> set ld \<union> set hs" by blast
  show "\<exists>b. e h = Some b \<and> is_ready b" if "h \<in> set hs" for h
    using counts_okD(4) [OF c] that sets by blast
  show "int (count (mset ld') h) = int (count (mset ld) h) + (if h \<in> set hs then -1 else 0)" for h
    using count_distinct [OF hs, of h] by (simp flip: split)
qed

lemma counts_load:
  assumes c: "counts_ok e st ld" and split: "mset ld' = mset ld + mset hs" and hs: "distinct hs"
    and all: "\<forall>h \<in> set hs. \<exists>b. e h = Some b \<and> is_ready b"
  shows "counts_ok (on_hashes hs (shift_ref 1) e) st ld'"
proof (rule counts_shifted [OF c])
  have "set ld' = set ld \<union> set hs" using split by (metis set_mset_mset set_mset_union)
  then show "set ld' \<subseteq> set ld \<union> set hs" by blast
  show "\<exists>b. e h = Some b \<and> is_ready b" if "h \<in> set hs" for h using all that by blast
  show "int (count (mset ld') h) = int (count (mset ld) h) + (if h \<in> set hs then 1 else 0)" for h
    using count_distinct [OF hs, of h] by (simp add: split)
qed

lemma counts_reserved:
  assumes c: "counts_ok e st ld" and res: "reserved hs e e' out" and hs: "distinct hs"
    and split: "mset st' = mset st + mset (block_hashes_to_store out)"
  shows "counts_ok e' st' ld"
proof -
  let ?new = "block_hashes_to_store out"
  have sets: "set st' = set st \<union> set ?new" using split by (metis set_mset_mset set_mset_union)
  note unready = counts_okD(2) [OF c] and refs = counts_okD(3) [OF c] and ld = counts_okD(4) [OF c]
  have new: "?new = filter (\<lambda>h. e h = None) hs" "\<And>h. h \<in> set ?new \<Longrightarrow> \<exists>b. e' h = Some b \<and> st_ref_cnt b = -1"
    and old: "\<And>h. h \<notin> set ?new \<Longrightarrow> e' h = e h \<or> (\<exists>b. e h = Some b \<and> st_ref_cnt b = 0 \<and> e' h = None)"
    using res unfolding reserved_def by blast+
  have absent: "h \<in> set ?new \<Longrightarrow> e h = None" for h using new(1) by simp
  show ?thesis unfolding counts_ok_def
  proof (intro conjI allI impI ballI)
    have "set st \<inter> set ?new = {}" using unready absent by fastforce
    moreover have "distinct st" "distinct ?new" using c hs new(1) by (simp_all add: counts_ok_def)
    ultimately have "distinct (st @ ?new)" by simp
    moreover have "mset st' = mset (st @ ?new)" using split by simp
    ultimately show "distinct st'" using mset_eq_imp_distinct_iff by blast
    show "h \<in> set st' \<longleftrightarrow> (\<exists>b. e' h = Some b \<and> \<not> is_ready b)" for h
    proof (cases "h \<in> set ?new")
      case True
      then show ?thesis using new(2) [OF True] sets by (auto simp: is_ready_def)
    next
      case False
      with old [OF False] unready [of h] sets show ?thesis by (auto simp: is_ready_def)
    qed
    show "\<exists>b. e' h = Some b \<and> is_ready b" if h: "h \<in> set ld" for h
    proof -
      obtain b where b: "e h = Some b" "is_ready b" using ld [OF h] by blast
      then have "h \<notin> set ?new" using absent by force
      moreover have "st_ref_cnt b \<noteq> 0" using refs [OF b] h by simp
      ultimately have "e' h = Some b" using old b(1) by fastforce
      with b(2) show ?thesis by blast
    qed
    fix h b assume b: "e' h = Some b" "is_ready b"
    then have "h \<notin> set ?new" using new(2) [of h] by (auto simp: is_ready_def)
    then have "e h = Some b" using old b(1) by fastforce
    then show "st_ref_cnt b = int (count (mset ld) h)" using refs b(2) by blast
  qed
qed


subsection \<open>The hashes of a range of offloaded blocks\<close>

lemma filter_stride:
  "filter (\<lambda>i. (i - (Suc g * s + g)) mod Suc g = 0) [Suc g * s + g..<e] = map (\<lambda>k. Suc g * k + g) [s..<e div Suc g]"
proof (induction e)
  case (Suc e)
  let ?f = "Suc g" and ?a = "Suc g * s + g"
  show ?case
  proof (cases "?a \<le> e \<and> (e - ?a) mod ?f = 0")
    case True
    then obtain d where "e - ?a = ?f * d" by (metis mod_0_imp_dvd dvdE)
    moreover have "e = e - ?a + ?a" using True by simp
    ultimately have e: "e = ?f * (s + d) + g" by (simp add: algebra_simps)
    have div: "e div ?f = s + d" by (rule div_nat_eqI) (simp_all add: e)
    have "Suc e = ?f * Suc (s + d)" by (simp add: e)
    then have div': "Suc e div ?f = Suc (s + d)" by (simp only: nonzero_mult_div_cancel_left)
    have "[?a..<Suc e] = [?a..<e] @ [e]" "[s..<Suc (s + d)] = [s..<s + d] @ [s + d]" using True by simp_all
    with Suc True show ?thesis unfolding div div' by (simp add: e)
  next
    case False
    have "[s..<Suc e div ?f] = [s..<e div ?f]"
    proof (cases "Suc e mod ?f = 0")
      case True
      then obtain d where d: "Suc e = ?f * d" by (metis mod_0_imp_dvd dvdE)
      have "d \<le> s"
      proof (rule ccontr)
        assume "\<not> d \<le> s"
        then obtain k where k: "d = Suc (s + k)" by (metis not_less less_iff_Suc_add)
        then have "e = ?a + ?f * k" using d by (simp add: algebra_simps)
        then have "?a \<le> e" "e - ?a = ?f * k" by simp_all
        then have "?a \<le> e \<and> (e - ?a) mod ?f = 0" by (simp only: mod_mult_self1_is_0 simp_thms)
        with False show False by blast
      qed
      then have "Suc e div ?f \<le> s" using d by (metis nonzero_mult_div_cancel_left nat.distinct(1))
      moreover have "e div ?f \<le> Suc e div ?f" by (rule div_le_mono) simp
      ultimately have "Suc e div ?f \<le> s" "e div ?f \<le> s" by linarith+
      then show ?thesis by (simp only: upt_conv_Nil)
    next
      case False
      then show ?thesis by (simp add: div_Suc)
    qed
    with Suc False show ?thesis by auto
  qed
qed simp

text \<open>The hash of the offloaded block \<open>k\<close>: that of the last GPU block in it.\<close>

definition offloaded_hash :: "'m OffloadingConnectorScheduler \<Rightarrow> Request \<Rightarrow> nat \<Rightarrow> block_hash" where
  "offloaded_hash c r k = block_hashes r ! (nat (block_size_factor c) * k + (nat (block_size_factor c) - 1))"

definition num_offloadable :: "'m OffloadingConnectorScheduler \<Rightarrow> Request \<Rightarrow> nat" where
  "num_offloadable c r = length (block_hashes r) div nat (block_size_factor c)"

lemma islice_nat:
  "islice xs (int a) None (int (Suc g)) = Inr (map (nth xs) (filter (\<lambda>i. (i - a) mod Suc g = 0) [a..<length xs]))"
  "islice xs (int a) (Some (int k)) (int (Suc g))
     = Inr (map (nth xs) (filter (\<lambda>i. (i - a) mod Suc g = 0) [a..<min (length xs) k]))"
  by (simp_all add: islice_def del: of_nat_Suc)

lemma get_block_hashes_range:
  assumes f: "0 < block_size_factor c" and start: "0 \<le> start" and stop: "case stop of None \<Rightarrow> True | Some e \<Rightarrow> 0 < e"
  shows "oc_get_block_hashes c r start stop = Inr (map (offloaded_hash c r)
    [nat start..<(case stop of None \<Rightarrow> num_offloadable c r | Some e \<Rightarrow> min (num_offloadable c r) (nat e))])"
proof -
  let ?xs = "block_hashes r"
  obtain g where g: "block_size_factor c = int (Suc g)" using f by (metis gr0_implies_Suc zero_less_imp_eq_int of_nat_0_less_iff)
  obtain s where s: "start = int s" using start nonneg_int_cases by blast
  have hash: "offloaded_hash c r = (\<lambda>k. ?xs ! (Suc g * k + g))" by (simp add: offloaded_hash_def g fun_eq_iff nat_add_distrib)
  have n: "num_offloadable c r = length ?xs div Suc g" by (simp only: num_offloadable_def g nat_int)
  have first: "block_size_factor c * start + block_size_factor c - 1 = int (Suc g * s + g)" by (simp add: g s algebra_simps)
  have pick: "map (nth ?xs) (filter (\<lambda>i. (i - (Suc g * s + g)) mod Suc g = 0) [Suc g * s + g..<e])
      = map (offloaded_hash c r) [s..<e div Suc g]" for e
    unfolding filter_stride hash by simp
  show ?thesis
  proof (cases stop)
    case None
    then show ?thesis unfolding oc_get_block_hashes_def first unfolding g s
      using pick [of "length ?xs"] by (simp add: islice_nat n del: mult_Suc of_nat_Suc of_nat_add of_nat_mult)
  next
    case (Some e)
    with stop obtain k where k: "e = int (Suc k)" by (metis gr0_implies_Suc zero_less_imp_eq_int of_nat_0_less_iff option.simps(5))
    have end_int: "int (Suc g) * e = int (Suc g * Suc k)" unfolding k by (rule of_nat_mult [symmetric])
    have "min (length ?xs) (Suc g * Suc k) div Suc g = min (length ?xs div Suc g) (Suc k)"
    proof (cases "length ?xs \<le> Suc g * Suc k")
      case True
      then have "length ?xs div Suc g \<le> Suc k" by (metis div_le_mono nonzero_mult_div_cancel_left nat.distinct(1))
      with True show ?thesis by (simp add: min_absorb1)
    next
      case False
      then have le: "Suc g * Suc k \<le> length ?xs" by simp
      then have "Suc k \<le> length ?xs div Suc g" by (metis div_le_mono nonzero_mult_div_cancel_left nat.distinct(1))
      moreover have "Suc g * Suc k div Suc g = Suc k" by (rule nonzero_mult_div_cancel_left) simp
      ultimately show ?thesis using le by (simp only: min_absorb2)
    qed
    moreover have "e \<noteq> 0" "nat e = Suc k" using k by simp_all
    ultimately show ?thesis using pick [of "min (length ?xs) (Suc g * Suc k)"]
      unfolding oc_get_block_hashes_def first Some unfolding g s
      by (simp add: islice_nat n end_int del: mult_Suc mult_Suc_right of_nat_Suc of_nat_add of_nat_mult)
  qed
qed

lemma offloaded_index_less:
  assumes "0 < block_size_factor c" and "k < num_offloadable c r"
  shows "nat (block_size_factor c) * k + (nat (block_size_factor c) - 1) < length (block_hashes r)"
proof -
  obtain g where g: "nat (block_size_factor c) = Suc g" using assms(1) by (metis gr0_implies_Suc zero_less_nat_eq)
  have "Suc g * Suc k \<le> Suc g * (length (block_hashes r) div Suc g)"
    using assms(2) by (intro mult_le_mono2) (simp add: num_offloadable_def g)
  also have "\<dots> \<le> length (block_hashes r)" by (metis div_times_less_eq_dividend mult.commute)
  finally show ?thesis by (simp add: g)
qed

lemma offloaded_hashes_distinct:
  assumes "distinct (block_hashes r)" and "0 < block_size_factor c" and "n \<le> num_offloadable c r"
  shows "distinct (map (offloaded_hash c r) [i..<n])"
proof -
  have "inj_on (offloaded_hash c r) {i..<n}"
  proof (rule inj_onI)
    fix x y assume xy: "x \<in> {i..<n}" "y \<in> {i..<n}" and eq: "offloaded_hash c r x = offloaded_hash c r y"
    then have "x < num_offloadable c r" "y < num_offloadable c r" using assms(3) by simp_all
    note less = this [THEN offloaded_index_less [OF assms(2)]]
    have "nat (block_size_factor c) * x = nat (block_size_factor c) * y"
      using nth_eq_iff_index_eq [OF assms(1) less] eq by (simp add: offloaded_hash_def)
    then show "x = y" using assms(2) by simp
  qed
  then show ?thesis by (simp add: distinct_map)
qed


subsection \<open>Entries in transfer keep their block\<close>

definition keeps_blocks :: "entries \<Rightarrow> entries \<Rightarrow> bool" where
  "keeps_blocks e e' \<longleftrightarrow> (\<forall>h b. e h = Some b \<longrightarrow> (\<exists>b'. e' h = Some b' \<and> st_block_id b' = st_block_id b))"

definition keeps_busy :: "entries \<Rightarrow> entries \<Rightarrow> bool" where
  "keeps_busy e e' \<longleftrightarrow> (\<forall>h b. e h = Some b \<longrightarrow> st_ref_cnt b \<noteq> 0 \<longrightarrow> e' h = Some b)"

definition protects :: "entries \<Rightarrow> entries \<Rightarrow> bool" where
  "protects e e' \<longleftrightarrow> (\<forall>h b. e h = Some b \<longrightarrow> st_ref_cnt b \<noteq> 0 \<longrightarrow> (\<exists>b'. e' h = Some b' \<and> st_block_id b' = st_block_id b))"

lemma keeps_blocks_refl [simp]: "keeps_blocks e e" "keeps_busy e e"
  by (simp_all add: keeps_blocks_def keeps_busy_def)

lemma keeps_blocks_trans: "keeps_blocks e e' \<Longrightarrow> keeps_blocks e' e'' \<Longrightarrow> keeps_blocks e e''"
  unfolding keeps_blocks_def by (metis (no_types, lifting))

lemma keeps_busy_trans: "keeps_busy e e' \<Longrightarrow> keeps_busy e' e'' \<Longrightarrow> keeps_busy e e''"
  unfolding keeps_busy_def by blast

lemma protectsI: "keeps_busy e e' \<Longrightarrow> keeps_blocks e' e'' \<Longrightarrow> protects e e''"
  unfolding keeps_busy_def keeps_blocks_def protects_def by blast

lemma keeps_blocks_on_hashes: "(\<And>b. st_block_id (f b) = st_block_id b) \<Longrightarrow> keeps_blocks e (on_hashes hs f e)"
  by (auto simp: keeps_blocks_def on_hashes_def)

lemma reserved_keeps_busy: "reserved hs e e' out \<Longrightarrow> keeps_busy e e'"
  unfolding reserved_def keeps_busy_def by fastforce

lemma on_hashes_Nil [simp]: "on_hashes [] f e = e"
  by (simp add: on_hashes_def)

subsection \<open>The connector on a manager that keeps the contract\<close>

lemma tables_ok_stored:
  "tables_ok c \<Longrightarrow> distinct_keys d \<Longrightarrow> tables_ok (c\<lparr>reqs_being_stored := d, oc_manager := m\<rparr>)"
  by (simp add: tables_ok_def loading_def split: option.splits)

text \<open>The invariant does not speak of the tables that only say what to transfer next.\<close>

lemma connector_ok_frame [simp]:
  "connector_ok ok entry (c\<lparr>request_block_ids := ids\<rparr>) = connector_ok ok entry c"
  "connector_ok ok entry (c\<lparr>oc_requests := rs\<rparr>) = connector_ok ok entry c"
  "connector_ok ok entry (c\<lparr>reqs_to_load := ts\<rparr>) = connector_ok ok entry c"
  by (simp_all add: connector_ok_def tables_ok_def storing_def loading_def split: option.split)

context offloading_service
begin

abbreviation sound :: "'m OffloadingConnectorScheduler \<Rightarrow> bool" where
  "sound \<equiv> connector_ok ok entry"

abbreviation entries_of :: "'m OffloadingConnectorScheduler \<Rightarrow> entries" where
  "entries_of c \<equiv> entry (oc_manager c)"

lemma sound_counts: "sound c \<Longrightarrow> counts_ok (entries_of c) (storing c) (loading c)"
  and sound_tables: "sound c \<Longrightarrow> tables_ok c" and sound_ok: "sound c \<Longrightarrow> ok (oc_manager c)"
  by (simp_all add: connector_ok_def)

text \<open>Completing the stores in \<open>hs\<close>, whatever the table becomes without them.\<close>

lemma complete_stores:
  assumes sound: "sound c" and d: "distinct_keys d"
    and split: "mset (concat (map snd d)) + mset hs = mset (storing c)"
  shows "\<exists>m. mg_complete_store mg hs True (oc_manager c) = Inr m
    \<and> sound (c\<lparr>reqs_being_stored := d, oc_manager := m\<rparr>) \<and> keeps_blocks (entries_of c) (entry m)"
proof -
  have "set hs \<subseteq> set (storing c)" using split by (metis set_mset_mset set_mset_union sup_ge2)
  then have "\<forall>h \<in> set hs. entries_of c h \<noteq> None" using sound_counts [OF sound] unfolding counts_ok_def by fastforce
  from complete_store_law [OF sound_ok [OF sound] this] obtain m where
    m: "mg_complete_store mg hs True (oc_manager c) = Inr m" "ok m" "entry m = on_hashes hs make_ready (entries_of c)" by blast
  have "counts_ok (entry m) (concat (map snd d)) (loading c)"
    using counts_store_done [OF sound_counts [OF sound] split] by (simp add: m(3))
  then have "sound (c\<lparr>reqs_being_stored := d, oc_manager := m\<rparr>)"
    using tables_ok_stored [OF sound_tables [OF sound] d] m(2) by (simp add: connector_ok_def storing_def loading_def)
  then show ?thesis using m(1,3) keeps_blocks_on_hashes [of make_ready] by auto
qed

lemma finish_store_ok:
  assumes sound: "sound c"
  shows "\<exists>c'. finish_store mg rid c = Inr c' \<and> sound c' \<and> keeps_blocks (entries_of c) (entries_of c')"
proof -
  let ?d = "AList.delete rid (reqs_being_stored c)" and ?hs = "set_of rid (reqs_being_stored c)"
  have keys: "distinct_keys (reqs_being_stored c)" using sound_tables [OF sound] by (simp add: tables_ok_def)
  have split: "mset (concat (map snd ?d)) + mset ?hs = mset (storing c)"
    unfolding storing_def by (rule concat_delete [OF keys])
  show ?thesis
  proof (cases "?hs = []")
    case True
    then have st: "mset (storing (c\<lparr>reqs_being_stored := ?d\<rparr>)) = mset (storing c)" using split by (simp add: storing_def)
    have "counts_ok (entries_of c) (storing (c\<lparr>reqs_being_stored := ?d\<rparr>)) (loading c)"
      using counts_store_done [OF sound_counts [OF sound], of _ "[]"] st by simp
    then have "sound (c\<lparr>reqs_being_stored := ?d\<rparr>)"
      using tables_ok_stored [OF sound_tables [OF sound] keys_delete_distinct [OF keys], where m = "oc_manager c"] sound_ok [OF sound]
      by (simp add: connector_ok_def loading_def)
    with True show ?thesis by (simp add: finish_store_def)
  next
    case False
    from complete_stores [OF sound keys_delete_distinct [OF keys] split] obtain m where
      "mg_complete_store mg ?hs True (oc_manager c) = Inr m" "sound (c\<lparr>reqs_being_stored := ?d, oc_manager := m\<rparr>)"
      "keeps_blocks (entries_of c) (entry m)" by blast
    with False show ?thesis by (simp add: finish_store_def)
  qed
qed

lemma complete_preempted_ok:
  assumes sound: "sound c"
  shows "\<exists>c'. complete_preempted mg rid c = Inr c' \<and> sound c' \<and> keeps_blocks (entries_of c) (entries_of c')"
proof (cases "map_of (reqs_being_stored c) rid")
  case None
  with sound show ?thesis by (simp add: complete_preempted_def)
next
  case (Some hs)
  show ?thesis
  proof (cases hs)
    case Nil
    with Some sound show ?thesis by (simp add: complete_preempted_def del: map_of_eq_Some_iff)
  next
    case (Cons h rest)
    let ?d = "AList.update rid [] (reqs_being_stored c)"
    have keys: "distinct_keys (reqs_being_stored c)" using sound_tables [OF sound] by (simp add: tables_ok_def)
    have "mset (concat (map snd ?d)) + mset hs = mset (storing c)"
      using concat_update [OF keys, of rid "[]"] Some by (simp add: storing_def set_of_def)
    from complete_stores [OF sound set_keys_update [OF keys] this] obtain m where
      "mg_complete_store mg hs True (oc_manager c) = Inr m" "sound (c\<lparr>reqs_being_stored := ?d, oc_manager := m\<rparr>)"
      "keeps_blocks (entries_of c) (entry m)" by blast
    moreover have swap: "c\<lparr>oc_manager := m, reqs_being_stored := ?d\<rparr> = c\<lparr>reqs_being_stored := ?d, oc_manager := m\<rparr>" for m by simp
    ultimately show ?thesis using Some Cons by (simp add: complete_preempted_def swap del: map_of_eq_Some_iff)
  qed
qed

lemma finish_load_ok:
  assumes sound: "sound c"
  shows "\<exists>c'. finish_load mg rid c = Inr c' \<and> sound c' \<and> keeps_blocks (entries_of c) (entries_of c')"
proof -
  let ?d = "AList.delete rid (reqs_being_loaded c)" and ?hs = "set_of rid (reqs_being_loaded c)"
  have T: "distinct_keys (reqs_being_loaded c)" "distinct_keys (reqs_being_stored c)"
    "\<forall>p \<in> set (reqs_being_loaded c). distinct (snd p)" "int (length (reqs_being_loaded c)) < 2 ^ 31"
    using sound_tables [OF sound] by (simp_all add: tables_ok_def)
  have split: "mset (concat (map snd ?d)) + mset ?hs = mset (loading c)"
    unfolding loading_def by (rule concat_delete [OF T(1)])
  have hs: "distinct ?hs" using T(3) map_of_SomeD [of "reqs_being_loaded c" rid] by (cases "map_of (reqs_being_loaded c) rid") (force simp: set_of_def simp del: map_of_eq_Some_iff)+
  have sub: "set (concat (map snd ?d)) \<subseteq> set (loading c)" "set ?hs \<subseteq> set (loading c)"
    using split by (metis set_mset_mset set_mset_union sup_ge1 sup_ge2)+
  note counts = sound_counts [OF sound]
  have loaded: "\<exists>b. entries_of c h = Some b \<and> 0 < st_ref_cnt b \<and> st_ref_cnt b < 2 ^ 31" if h: "h \<in> set ?hs" for h
  proof -
    obtain b where b: "entries_of c h = Some b" "is_ready b" using counts_okD(4) [OF counts, of h] h sub(2) by blast
    then have "st_ref_cnt b = int (count (mset (loading c)) h)" by (rule counts_okD(3) [OF counts])
    moreover have "count (mset (loading c)) h \<le> length (reqs_being_loaded c)"
      unfolding loading_def by (rule count_concat_le [OF T(3)])
    moreover have "count (mset (loading c)) h > 0" using h sub(2) by auto
    ultimately show ?thesis using b(1) T(4) by simp
  qed
  define c1 where "c1 = c\<lparr>reqs_being_loaded := ?d, blocks_being_loaded := map_option (filter (\<lambda>h. h \<notin> set ?hs)) (blocks_being_loaded c)\<rparr>"
  have len: "length ?d \<le> length (reqs_being_loaded c)" by (simp add: delete_filter)
  have tables: "tables_ok c1"
  proof -
    have rest: "set (filter (\<lambda>h. h \<notin> set ?hs) bl) = set (concat (map snd ?d)) \<and> distinct (concat (map snd ?d))"
      if bl: "set bl = set (loading c)" "distinct (loading c)" for bl
    proof -
      have "distinct (concat (map snd ?d) @ ?hs)" using bl(2) split by (metis mset_append mset_eq_imp_distinct_iff)
      moreover have "set (loading c) = set (concat (map snd ?d)) \<union> set ?hs"
        using split by (metis set_mset_mset set_mset_union)
      ultimately show ?thesis using bl(1) by auto
    qed
    have "case blocks_being_loaded c of None \<Rightarrow> True | Some bl \<Rightarrow> set bl = set (loading c) \<and> distinct (loading c)"
      using sound_tables [OF sound] by (simp add: tables_ok_def)
    moreover have sel: "loading c1 = concat (map snd ?d)"
      "blocks_being_loaded c1 = map_option (filter (\<lambda>h. h \<notin> set ?hs)) (blocks_being_loaded c)"
      by (simp_all add: c1_def loading_def)
    ultimately have "case blocks_being_loaded c1 of None \<Rightarrow> True | Some bl \<Rightarrow> set bl = set (loading c1) \<and> distinct (loading c1)"
      unfolding sel using rest by (cases "blocks_being_loaded c") (simp_all only: option.case option.map simp_thms)
    moreover have "\<forall>p \<in> set ?d. distinct (snd p)" using T(3) by (simp add: delete_filter)
    moreover have "0 < gpu_block_size c" "0 < block_size_factor c"
      "offloaded_block_size c = gpu_block_size c * block_size_factor c"
      "\<forall>rid i. map_of (next_stored_block_idx c) rid = Some i \<longrightarrow> 0 \<le> i"
      using sound_tables [OF sound] unfolding tables_ok_def by blast+
    moreover have "int (length ?d) < 2 ^ 31" using len T(4) by simp
    ultimately show ?thesis using T(2) keys_delete_distinct [OF T(1), of rid]
      unfolding tables_ok_def by (simp add: c1_def)
  qed
  show ?thesis
  proof (cases "?hs = []")
    case True
    then have same: "c1 = c\<lparr>reqs_being_loaded := ?d\<rparr>" by (cases "blocks_being_loaded c") (simp_all add: c1_def)
    have "counts_ok (entries_of c) (storing c) (concat (map snd ?d))"
      using counts_load_done [OF counts split hs] True by simp
    then have "sound (c1\<lparr>oc_manager := oc_manager c\<rparr>)"
      using tables sound_ok [OF sound] by (simp add: connector_ok_def c1_def storing_def loading_def)
    moreover have "c1\<lparr>oc_manager := oc_manager c\<rparr> = c\<lparr>reqs_being_loaded := ?d\<rparr>" by (simp add: same)
    ultimately show ?thesis using True by (simp add: finish_load_def)
  next
    case False
    from complete_load_law [OF sound_ok [OF sound] hs] loaded obtain m where
      m: "mg_complete_load mg ?hs (oc_manager c) = Inr m" "ok m" "entry m = on_hashes ?hs (shift_ref (-1)) (entries_of c)" by blast
    have "counts_ok (entry m) (storing c) (concat (map snd ?d))"
      using counts_load_done [OF counts split hs] by (simp add: m(3))
    then have "sound (c1\<lparr>oc_manager := m\<rparr>)"
      using tables m(2) by (simp add: connector_ok_def c1_def storing_def loading_def)
    moreover have "finish_load mg rid c = Inr (c1\<lparr>oc_manager := m\<rparr>)" using False m(1) by (simp add: finish_load_def c1_def)
    moreover have "keeps_blocks (entries_of c) (entries_of (c1\<lparr>oc_manager := m\<rparr>))"
      using keeps_blocks_on_hashes [of "shift_ref (-1)"] by (simp add: m(3))
    ultimately show ?thesis by blast
  qed
qed

lemma foldE_total:
  assumes step: "\<And>x c. sound c \<Longrightarrow> \<exists>c'. f x c = Inr c' \<and> sound c' \<and> keeps_blocks (entries_of c) (entries_of c')"
  shows "sound c \<Longrightarrow> \<exists>c'. foldE f xs c = Inr c' \<and> sound c' \<and> keeps_blocks (entries_of c) (entries_of c')"
proof (induction xs arbitrary: c)
  case (Cons x xs)
  from step [OF Cons.prems] obtain c1 where c1: "f x c = Inr c1" "sound c1" "keeps_blocks (entries_of c) (entries_of c1)" by blast
  from Cons.IH [OF c1(2)] obtain c' where "foldE f xs c1 = Inr c'" "sound c'" "keeps_blocks (entries_of c1) (entries_of c')" by blast
  with c1 show ?case using keeps_blocks_trans by auto
qed simp

lemma update_connector_output_ok:
  assumes "sound c"
  shows "\<exists>c'. oc_update_connector_output mg out c = Inr c' \<and> sound c' \<and> keeps_blocks (entries_of c) (entries_of c')"
proof -
  from foldE_total [of "finish_store mg", OF finish_store_ok assms] obtain c1 where
    c1: "foldE (finish_store mg) (finished_sending out) c = Inr c1" "sound c1" "keeps_blocks (entries_of c) (entries_of c1)" by blast
  from foldE_total [of "finish_load mg", OF finish_load_ok c1(2)] obtain c2 where
    "foldE (finish_load mg) (finished_recving out) c1 = Inr c2" "sound c2" "keeps_blocks (entries_of c1) (entries_of c2)" by blast
  with c1 show ?thesis using keeps_blocks_trans by (auto simp: oc_update_connector_output_def)
qed

end

subsection \<open>Storing\<close>

lemma src_block_ids_same:
  assumes eq: "block_size_factor c' = block_size_factor c"
  shows "src_block_ids_of c' = src_block_ids_of c"
  unfolding src_block_ids_of_def [abs_def] eq ..

lemma get_block_hashes_same:
  assumes eq: "block_size_factor c' = block_size_factor c"
  shows "oc_get_block_hashes c' r i e = oc_get_block_hashes c r i e"
  unfolding oc_get_block_hashes_def eq ..

text \<open>The GPU blocks of the offloaded blocks to store, in order, all blocks of one offloaded block together.\<close>

definition gpu_blocks_of :: "nat \<Rightarrow> int list \<Rightarrow> nat \<Rightarrow> int list" where
  "gpu_blocks_of f ids k = map (\<lambda>i. ids ! (k * f + i)) [0..<f]"

lemma src_block_ids_of_eq:
  assumes f: "0 < block_size_factor c" and start: "0 \<le> start"
    and room: "(nat start + length hs) * nat (block_size_factor c) \<le> length ids"
  shows "src_block_ids_of c ids start hs todo = Inr (concat (map (gpu_blocks_of (nat (block_size_factor c)) ids)
    (filter (\<lambda>k. hs ! (k - nat start) \<in> set todo) [nat start..<nat start + length hs])))"
proof -
  obtain f where f: "block_size_factor c = int f" "0 < f" using assms(1) by (metis int_nat_eq less_imp_le zero_less_nat_eq)
  obtain s where s: "start = int s" using start nonneg_int_cases by blast
  define step where "step = (\<lambda>(idx, h) src.
       if h \<notin> set todo then Inr src
       else bindE (mapE (\<lambda>i. index_py ids ((start + int idx) * block_size_factor c + int i))
                    [0..<nat (block_size_factor c)]) (\<lambda>ids. Inr (src @ ids)))"
  have run: "foldE step (enumerate n ws) src = Inr (src @ concat (map (gpu_blocks_of f ids)
      (filter (\<lambda>k. ws ! (k - (s + n)) \<in> set todo) [s + n..<s + n + length ws])))"
    if "(s + n + length ws) * f \<le> length ids" for n src ws
    using that
  proof (induction ws arbitrary: n src)
    case (Cons w ws)
    have small: "(s + n) * f + i < length ids" if "i < f" for i
    proof -
      have "(s + n) * f + i < (s + n) * f + f" using that by simp
      also have "\<dots> = (s + n + 1) * f" by simp
      also have "\<dots> \<le> (s + n + length (w # ws)) * f" by (rule mult_le_mono1) simp
      finally show ?thesis using Cons.prems by simp
    qed
    have "mapE (\<lambda>i. index_py ids ((start + int n) * block_size_factor c + int i)) [0..<nat (block_size_factor c)]
        = Inr (gpu_blocks_of f ids (s + n))"
    proof -
      have "index_py ids ((start + int n) * block_size_factor c + int i) = Inr (ids ! ((s + n) * f + i))" if "i < f" for i
      proof -
        have "(start + int n) * block_size_factor c + int i = int ((s + n) * f + i)" by (simp add: f s)
        with small [OF that] show ?thesis by (simp only: index_py_nonneg of_nat_0_le_iff of_nat_less_iff nat_int if_True)
      qed
      then show ?thesis unfolding gpu_blocks_of_def f nat_int by (intro mapE_total) simp
    qed
    then have one: "step (n, w) src = Inr (src @ (if w \<in> set todo then gpu_blocks_of f ids (s + n) else []))"
      by (simp add: step_def)
    have "foldE step (enumerate (Suc n) ws) src' = Inr (src' @ concat (map (gpu_blocks_of f ids)
      (filter (\<lambda>k. ws ! (k - (s + Suc n)) \<in> set todo) [s + Suc n..<s + Suc n + length ws])))" for src'
      by (rule Cons.IH) (use Cons.prems in simp)
    moreover have "[s + n..<s + n + length (w # ws)] = (s + n) # [s + Suc n..<s + Suc n + length ws]"
      by (rule trans [OF upt_conv_Cons]) simp_all
    moreover have "filter (\<lambda>k. (w # ws) ! (k - (s + n)) \<in> set todo) [s + Suc n..<s + Suc n + length ws]
        = filter (\<lambda>k. ws ! (k - (s + Suc n)) \<in> set todo) [s + Suc n..<s + Suc n + length ws]"
    proof (rule filter_cong)
      fix k assume "k \<in> set [s + Suc n..<s + Suc n + length ws]"
      then have "s + Suc n \<le> k" by auto
      then obtain d where "k = s + Suc n + d" using le_Suc_ex by blast
      then show "((w # ws) ! (k - (s + n)) \<in> set todo) = (ws ! (k - (s + Suc n)) \<in> set todo)" by simp
    qed simp
    ultimately show ?case by (simp add: one)
  qed simp
  have "src_block_ids_of c ids start hs todo = foldE step (enumerate 0 hs) []"
    by (simp add: src_block_ids_of_def step_def)
  with run [where n = 0 and src = "[]" and ws = hs] room f s show ?thesis by simp
qed

context offloading_service
begin

lemma store_blocks_cases:
  assumes sound: "sound c" and keys: "distinct (block_hashes r)" and range: "0 \<le> start" "0 < stop"
  defines "hs \<equiv> map (offloaded_hash c r) [nat start..<min (num_offloadable c r) (nat stop)]"
  obtains (skipped) c' where "store_blocks mg rid r ids start stop (c, ts) = Inr (c', ts)" "sound c'"
      "keeps_busy (entries_of c) (entries_of c')"
  | (stored) c' out where "store_blocks mg rid r ids start stop (c, ts) =
        bindE (src_block_ids_of c ids start hs (block_hashes_to_store out)) (\<lambda>src.
        Inr (c', AList.update rid (GPUSpec src, CPUSpec (store_spec out)) ts))" "sound c'"
      "keeps_busy (entries_of c) (entries_of c')" "reserved hs (entries_of c) (entries_of c') out"
      "block_hashes_to_store out \<noteq> []"
proof -
  note T = sound_tables [OF sound]
  have f: "0 < block_size_factor c" using T by (simp add: tables_ok_def)
  have hs: "oc_get_block_hashes c r start (Some stop) = Inr hs"
    using get_block_hashes_range [OF f range(1), of "Some stop" r] range(2) by (simp add: hs_def)
  have all: "oc_get_block_hashes c r 0 (Some stop) = Inr (map (offloaded_hash c r) [0..<min (num_offloadable c r) (nat stop)])"
    using get_block_hashes_range [OF f order_refl, of "Some stop" r] range(2) by simp
  have d: "distinct hs" unfolding hs_def by (rule offloaded_hashes_distinct [OF keys f]) simp
  from store_law [OF sound_ok [OF sound] d] obtain m out where
    m: "mg_prepare_store mg hs (oc_manager c) = Inr (m, out)" "ok m"
      "case out of None \<Rightarrow> entry m = entries_of c | Some out \<Rightarrow> reserved hs (entries_of c) (entry m) out" by blast
  show ?thesis
  proof (cases out)
    case None
    then have "entry m = entries_of c" using m(3) by simp
    then have "sound (c\<lparr>oc_manager := m\<rparr>)" using sound m(2) by (simp add: connector_ok_def storing_def loading_def)
    moreover have "store_blocks mg rid r ids start stop (c, ts) = Inr (c\<lparr>oc_manager := m\<rparr>, ts)"
      using None by (simp add: store_blocks_def hs m(1))
    ultimately show ?thesis using \<open>entry m = entries_of c\<close> by (intro skipped [of "c\<lparr>oc_manager := m\<rparr>"]) simp_all
  next
    case (Some o1)
    then have res: "reserved hs (entries_of c) (entry m) o1" using m(3) by simp
    define c1 where "c1 = c\<lparr>oc_manager := m, next_stored_block_idx := AList.update rid stop (next_stored_block_idx c)\<rparr>"
    have T1: "tables_ok c1" using T range(2)
      by (simp add: c1_def tables_ok_def loading_def update_conv' split: option.splits)
    show ?thesis
    proof (cases "block_hashes_to_store o1 = []")
      case True
      have "counts_ok (entry m) (storing c) (loading c)"
        by (rule counts_reserved [OF sound_counts [OF sound] res d]) (simp add: True)
      then have "sound c1" using T1 m(2) by (simp add: connector_ok_def c1_def storing_def loading_def)
      moreover have "store_blocks mg rid r ids start stop (c, ts) = Inr (c1, ts)"
        using Some True by (simp add: store_blocks_def hs m(1) c1_def)
      ultimately show ?thesis using reserved_keeps_busy [OF res] by (intro skipped [of c1]) (simp_all add: c1_def)
    next
      case False
      let ?st = "set_of rid (reqs_being_stored c)" and ?new = "block_hashes_to_store o1"
      from touch_law [OF m(2)] obtain m' where m': "mg_touch mg (map (offloaded_hash c r) [0..<min (num_offloadable c r) (nat stop)]) m = Inr m'"
        "ok m'" "entry m' = entry m" by blast
      define c2 where "c2 = c1\<lparr>oc_manager := m', reqs_being_stored := AList.update rid (set_union ?st ?new) (reqs_being_stored c)\<rparr>"
      have kd: "distinct_keys (reqs_being_stored c)" using T by (simp add: tables_ok_def)
      have new: "?new = filter (\<lambda>h. entries_of c h = None) hs" using res by (simp add: reserved_def)
      have "set ?st \<subseteq> set (storing c)" unfolding storing_def by (rule set_of_subset)
      then have "set ?st \<inter> set ?new = {}" using counts_okD(2) [OF sound_counts [OF sound]] new by fastforce
      then have union: "set_union ?st ?new = ?st @ ?new" using d new by (intro set_union_fresh) simp_all
      have "mset (storing c2) + mset ?st = mset (storing c) + mset (set_union ?st ?new)"
        unfolding storing_def c2_def using concat_update [OF kd, of rid "set_union ?st ?new"] by simp
      then have "mset (storing c2) = mset (storing c) + mset ?new" by (simp add: union)
      then have "counts_ok (entry m) (storing c2) (loading c)"
        by (rule counts_reserved [OF sound_counts [OF sound] res d])
      moreover have "tables_ok c2" using T1 set_keys_update [OF kd]
        by (simp add: c2_def tables_ok_def loading_def split: option.splits)
      moreover have e2: "entries_of c2 = entry m" and "loading c2 = loading c" "ok (oc_manager c2)"
        using m' by (simp_all add: c2_def c1_def loading_def)
      ultimately have c2: "sound c2" by (simp add: connector_ok_def)
      have same: "oc_get_block_hashes c1 r 0 (Some stop) = oc_get_block_hashes c r 0 (Some stop)"
        "src_block_ids_of c1 = src_block_ids_of c" "reqs_being_stored c1 = reqs_being_stored c"
        by (rule get_block_hashes_same src_block_ids_same, simp add: c1_def)+ (simp add: c1_def)
      have run: "store_blocks mg rid r ids start stop (c, ts) =
          bindE (src_block_ids_of c ids start hs ?new) (\<lambda>src. Inr (c2, AList.update rid (GPUSpec src, CPUSpec (store_spec o1)) ts))"
      proof -
        have c1: "c\<lparr>oc_manager := m, next_stored_block_idx := AList.update rid stop (next_stored_block_idx (c\<lparr>oc_manager := m\<rparr>))\<rparr> = c1"
          by (simp add: c1_def)
        have "store_blocks mg rid r ids start stop (c, ts) =
          (let c = c1 in bindE (oc_get_block_hashes c r 0 (Some stop)) (\<lambda>hs0.
           bindE (mg_touch mg hs0 m) (\<lambda>m.
           bindE (src_block_ids_of c ids start hs ?new) (\<lambda>src.
           Inr (c\<lparr>oc_manager := m, reqs_being_stored := AList.update rid
                    (set_union (set_of rid (reqs_being_stored c)) ?new) (reqs_being_stored c)\<rparr>,
                AList.update rid (GPUSpec src, CPUSpec (store_spec o1)) ts)))))"
          unfolding store_blocks_def prod.case hs bindE.simps m(1) Some option.case Let_def c1 using False by (simp only: if_False)
        then show ?thesis unfolding Let_def same all bindE.simps m'(1) c2_def .
      qed
      have busy: "keeps_busy (entries_of c) (entries_of c2)"
        and res2: "reserved hs (entries_of c) (entries_of c2) o1"
        using reserved_keeps_busy [OF res] res e2 by simp_all
      show ?thesis by (rule stored [OF run c2 busy res2 False])
    qed
  qed
qed

lemma track_block_ids_ok:
  "track_block_ids rid groups preempted c = Inr c' \<Longrightarrow> sound c \<Longrightarrow>
     sound c' \<and> entries_of c' = entries_of c \<and> next_stored_block_idx c' = next_stored_block_idx c"
  by (auto simp: track_block_ids_def Let_def simp del: map_of_eq_Some_iff
      split: if_splits option.splits list.splits elim!: bindE_InrE)

lemma store_request_ok:
  assumes keys: "\<And>p. distinct (block_hashes (objs p))" and sound: "sound c"
    and run: "store_request mg objs so x (c, ts) = Inr (c', ts')"
  shows "sound c' \<and> keeps_busy (entries_of c) (entries_of c')"
proof -
  obtain rid groups preempted where x: "x = (rid, groups, preempted)" by (metis prod_cases3)
  from run obtain c1 ids p n nb where c1: "track_block_ids rid groups preempted c = Inr c1"
    and rest: "(let start = (case map_of (next_stored_block_idx c1) rid of None \<Rightarrow> 0 | Some i \<Rightarrow> i) in
       if nb - start \<le> 0 then Inr (c1, ts) else store_blocks mg rid (objs p) ids start nb (c1, ts)) = Inr (c', ts')"
    unfolding store_request_def x by (auto elim!: bindE_InrE)
  note t = track_block_ids_ok [OF c1 sound]
  define start where "start = (case map_of (next_stored_block_idx c1) rid of None \<Rightarrow> 0 | Some i \<Rightarrow> i)"
  have "0 \<le> start" using sound_tables [of c1] t by (auto simp: start_def tables_ok_def split: option.splits)
  show ?thesis
  proof (cases "nb - start \<le> 0")
    case True
    then have "c' = c1" using rest by (simp add: start_def [symmetric])
    with t show ?thesis by simp
  next
    case False
    then have run: "store_blocks mg rid (objs p) ids start nb (c1, ts) = Inr (c', ts')" and nb: "0 < nb"
      using rest \<open>0 \<le> start\<close> by (simp_all add: start_def [symmetric])
    have s1: "sound c1" using t by blast
    show ?thesis
    proof (rule store_blocks_cases [OF s1 keys [of p] \<open>0 \<le> start\<close> nb, where rid = rid and ids = ids and ts = ts])
      fix d assume "store_blocks mg rid (objs p) ids start nb (c1, ts) = Inr (d, ts)" "sound d"
        "keeps_busy (entries_of c1) (entries_of d)"
      with run t show ?thesis by simp
    next
      fix d out
      assume eq: "store_blocks mg rid (objs p) ids start nb (c1, ts) = bindE (src_block_ids_of c1 ids start
          (map (offloaded_hash c1 (objs p)) [nat start..<min (num_offloadable c1 (objs p)) (nat nb)]) (block_hashes_to_store out))
          (\<lambda>src. Inr (d, AList.update rid (GPUSpec src, CPUSpec (store_spec out)) ts))"
        and d: "sound d" "keeps_busy (entries_of c1) (entries_of d)"
      from run [unfolded eq] have "c' = d" by (auto elim!: bindE_InrE)
      with d t show ?thesis by simp
    qed
  qed
qed

lemma get_reqs_to_store_ok:
  assumes keys: "\<And>p. distinct (block_hashes (objs p))" and sound: "sound c"
    and run: "get_reqs_to_store mg objs so c = Inr (c', ts)"
  shows "sound c' \<and> keeps_busy (entries_of c) (entries_of c')"
proof -
  have "case (c', ts) of (c', ts) \<Rightarrow> sound c' \<and> keeps_busy (entries_of c) (entries_of c')"
    using run [unfolded get_reqs_to_store_def]
  proof (rule foldE_invariant)
    fix x and u u' :: "'m OffloadingConnectorScheduler \<times> (string, TransferSpec) odict"
    assume u: "case u of (c', ts) \<Rightarrow> sound c' \<and> keeps_busy (entries_of c) (entries_of c')"
      and step: "store_request mg objs so x u = Inr u'"
    obtain d ds d' ds' where eq: "u = (d, ds)" "u' = (d', ds')" by force
    with u have d: "sound d" "keeps_busy (entries_of c) (entries_of d)" by simp_all
    note store_request_ok [where objs = objs, OF keys d(1) step [unfolded eq]]
    then show "case u' of (c', ts) \<Rightarrow> sound c' \<and> keeps_busy (entries_of c) (entries_of c')"
      using keeps_busy_trans [OF d(2)] by (simp add: eq(2))
  qed (simp add: sound)
  then show ?thesis by simp
qed

lemma build_connector_meta_ok:
  assumes keys: "\<And>p. distinct (block_hashes (objs p))" and sound: "sound c"
    and run: "oc_build_connector_meta mg objs so c = Inr (c', md)"
  shows "sound c' \<and> protects (entries_of c) (entries_of c')"
proof -
  from run obtain c1 ts where c1: "get_reqs_to_store mg objs so c = Inr (c1, ts)"
    "foldE (complete_preempted mg) (preempted_req_ids so) (c1\<lparr>reqs_to_load := []\<rparr>) = Inr c'"
    unfolding oc_build_connector_meta_def Let_def by (auto elim!: bindE_InrE)
  note s = get_reqs_to_store_ok [OF keys sound c1(1)]
  then have "sound (c1\<lparr>reqs_to_load := []\<rparr>)" by simp
  from foldE_total [of "complete_preempted mg", OF complete_preempted_ok this, of "preempted_req_ids so"] c1(2)
  have "sound c'" "keeps_blocks (entries_of c1) (entries_of c')" by auto
  with s show ?thesis using protectsI by blast
qed

end

subsection \<open>Querying and loading\<close>

definition num_hits :: "entries \<Rightarrow> 'm OffloadingConnectorScheduler \<Rightarrow> Request \<Rightarrow> int \<Rightarrow> nat" where
  "num_hits e c r nc = length (takeWhile (\<lambda>h. \<exists>b. e h = Some b \<and> is_ready b)
     (map (offloaded_hash c r) [nat (nc div offloaded_block_size c)..<num_offloadable c r]))"

context offloading_service
begin

text \<open>The query, with its calls of the manager evaluated: it depends on the number of hits.\<close>

lemma query_eq:
  fixes r :: Request
  assumes sound: "sound c" and nc: "0 \<le> nc"
  defines "off \<equiv> offloaded_block_size c" and "hits \<equiv> int (num_hits (entries_of c) c r nc)"
  shows "\<exists>m. ok m \<and> entry m = entries_of c \<and> oc_get_num_new_matched_tokens mg r nc c =
     bindE (floordivE (num_tokens r) off) (\<lambda>nb. bindE (floordivE (int (length (block_hashes r))) (block_size_factor c)) (\<lambda>nh.
     assertE (nh = nb)
      (if off * nb - nc < off then Inr (c\<lparr>oc_manager := m\<rparr>, Some 0, False)
       else if hits = 0 then Inr (c\<lparr>oc_manager := m\<rparr>, Some 0, False)
       else if off * (nc div off + hits) - nc < off then Inr (c\<lparr>oc_manager := m\<rparr>, Some 0, False)
       else (case blocks_being_loaded c of
           Some (b # bs) \<Rightarrow>
             bindE (oc_get_block_hashes c r (nc div off) (Some (nc div off + hits))) (\<lambda>hs.
             if \<exists>h \<in> set hs. h \<in> set (b # bs) then Inr (c\<lparr>oc_manager := m\<rparr>, None, False)
             else Inr (c\<lparr>oc_manager := m\<rparr>, Some (off * (nc div off + hits) - nc), True))
         | _ \<Rightarrow> Inr (c\<lparr>oc_manager := m\<rparr>, Some (off * (nc div off + hits) - nc), True)))))"
proof -
  have T: "0 < block_size_factor c" "0 < off" using sound_tables [OF sound] by (simp_all add: tables_ok_def off_def)
  have start: "0 \<le> nc div off" using nc T(2) by (simp add: pos_imp_zdiv_nonneg_iff)
  have all: "oc_get_block_hashes c r 0 None = Inr (map (offloaded_hash c r) [0..<num_offloadable c r])"
    using get_block_hashes_range [OF T(1) order_refl, of None r] by simp
  have from_start: "oc_get_block_hashes c r (nc div off) None = Inr (map (offloaded_hash c r) [nat (nc div off)..<num_offloadable c r])"
    using get_block_hashes_range [OF T(1) start, of None r] by simp
  from touch_law [OF sound_ok [OF sound]] obtain m where
    m: "mg_touch mg (map (offloaded_hash c r) [0..<num_offloadable c r]) (oc_manager c) = Inr m" "ok m" "entry m = entries_of c" by blast
  have lookup: "mg_lookup mg (map (offloaded_hash c r) [nat (nc div off)..<num_offloadable c r]) m = Some hits"
    by (simp add: lookup_law m(3) hits_def num_hits_def off_def)
  have same: "oc_get_block_hashes (c\<lparr>oc_manager := m\<rparr>) r i e = oc_get_block_hashes c r i e" for i e
    by (rule get_block_hashes_same) simp
  show ?thesis using m(2,3)
    unfolding oc_get_num_new_matched_tokens_def Let_def all bindE.simps m(1)
    by (intro exI [of _ m]) (simp add: same from_start lookup off_def [symmetric] cong: if_cong option.case_cong list.case_cong)
qed

lemma query_ok:
  assumes sound: "sound c" and nc: "0 \<le> nc" and run: "oc_get_num_new_matched_tokens mg r nc c = Inr (c', res)"
  shows "sound c' \<and> entries_of c' = entries_of c \<and> (\<exists>m. c' = c\<lparr>oc_manager := m\<rparr>)"
proof -
  from query_eq [OF sound nc, of r] run obtain m where "ok m" "entry m = entries_of c" "c' = c\<lparr>oc_manager := m\<rparr>"
    by (elim exE conjE) (auto simp: bindE_Inr_iff split: if_splits option.splits list.splits)
  then show ?thesis using sound by (auto simp: connector_ok_def storing_def loading_def)
qed

text \<open>The query answers with a number of tokens: the hashes in this range can be read and are not being loaded.\<close>

lemma query_matched:
  fixes r :: Request
  assumes sound: "sound c" and run: "oc_get_num_new_matched_tokens mg r nc c = Inr (c', Some n, True)" and nc: "0 \<le> nc"
  defines "s \<equiv> nat (nc div offloaded_block_size c)" and "hits \<equiv> num_hits (entries_of c) c r nc"
  shows "0 < hits" and "n = offloaded_block_size c * (nc div offloaded_block_size c + int hits) - nc" and "0 < n"
    and "s + hits \<le> num_offloadable c r"
    and "\<forall>k \<in> {s..<s + hits}. (\<exists>b. entries_of c (offloaded_hash c r k) = Some b \<and> is_ready b)
         \<and> (\<forall>bl. blocks_being_loaded c = Some bl \<longrightarrow> offloaded_hash c r k \<notin> set bl)"
proof -
  let ?off = "offloaded_block_size c"
  have T: "0 < block_size_factor c" "0 < ?off" using sound_tables [OF sound] by (simp_all add: tables_ok_def)
  have start: "0 \<le> nc div ?off" using nc T(2) by (simp add: pos_imp_zdiv_nonneg_iff)
  let ?P = "\<lambda>h. \<exists>b. entries_of c h = Some b \<and> is_ready b" and ?hs = "map (offloaded_hash c r) [s..<num_offloadable c r]"
  have hits: "hits = length (takeWhile ?P ?hs)" by (simp add: hits_def num_hits_def s_def)
  have le: "hits \<le> num_offloadable c r - s" unfolding hits using length_takeWhile_le [of ?P ?hs] by simp
  have ready: "?P (offloaded_hash c r k)" if k: "s \<le> k" "k < s + hits" for k
  proof -
    have lt: "k - s < length (takeWhile ?P ?hs)" using k by (simp add: hits)
    have "takeWhile ?P ?hs ! (k - s) = ?hs ! (k - s)" by (rule takeWhile_nth [OF lt])
    also have "\<dots> = offloaded_hash c r k" using k le by simp
    finally have "offloaded_hash c r k \<in> set (takeWhile ?P ?hs)" using nth_mem [OF lt] by simp
    then show ?thesis by (rule set_takeWhileD [THEN conjunct2])
  qed
  have facts: "int hits \<noteq> 0 \<and> n = ?off * (nc div ?off + int hits) - nc \<and> \<not> n < ?off
      \<and> (\<forall>b bs. blocks_being_loaded c = Some (b # bs) \<longrightarrow>
           (\<forall>hs. oc_get_block_hashes c r (nc div ?off) (Some (nc div ?off + int hits)) = Inr hs \<longrightarrow> (\<forall>h \<in> set hs. h \<notin> set (b # bs))))"
    using query_eq [OF sound nc, of r] run unfolding hits_def [symmetric]
    by (elim exE conjE) (auto simp: bindE_Inr_iff split: if_splits option.splits list.splits)
  show pos: "0 < hits" using facts by simp
  show "n = ?off * (nc div ?off + int hits) - nc" using facts by simp
  show "0 < n" using facts T(2) by simp
  show bound: "s + hits \<le> num_offloadable c r" using le pos by linarith
  have "offloaded_hash c r k \<notin> set bl" if "blocks_being_loaded c = Some bl" "s \<le> k" "k < s + hits" for k bl
  proof (cases bl)
    case (Cons b bs)
    have "oc_get_block_hashes c r (nc div ?off) (Some (nc div ?off + int hits)) = Inr (map (offloaded_hash c r) [s..<s + hits])"
      using get_block_hashes_range [OF T(1) start, of "Some (nc div ?off + int hits)" r] start pos bound
      by (simp add: s_def nat_add_distrib min_absorb2)
    with facts Cons that show ?thesis by auto
  qed simp
  then show "\<forall>k \<in> {s..<s + hits}. ?P (offloaded_hash c r k) \<and> (\<forall>bl. blocks_being_loaded c = Some bl \<longrightarrow> offloaded_hash c r k \<notin> set bl)"
    using ready by simp
qed

lemma start_load_ok:
  assumes sound: "sound c" and keys: "distinct (block_hashes r)" and hits: "0 < hits" "s + hits \<le> num_offloadable c r"
    and ready: "\<forall>k \<in> {s..<s + hits}. (\<exists>b. entries_of c (offloaded_hash c r k) = Some b \<and> is_ready b)
         \<and> (\<forall>bl. blocks_being_loaded c = Some bl \<longrightarrow> offloaded_hash c r k \<notin> set bl)"
    and local: "int (length (filter (\<lambda>b. snd b \<noteq> None) bls)) * gpu_block_size c = nc"
    and s: "s = nat (nc div offloaded_block_size c)"
    and n: "n = offloaded_block_size c * (nc div offloaded_block_size c + int hits) - nc"
    and total: "int (length bls) * gpu_block_size c = nc + n"
    and fresh: "map_of (reqs_being_loaded c) (request_id r) = None" "int (length (reqs_being_loaded c)) + 1 < 2 ^ 31"
  shows "\<exists>c'. start_load mg r bls n c = Inr c' \<and> sound c' \<and> keeps_blocks (entries_of c) (entries_of c')
    \<and> reqs_to_load c' = AList.update (request_id r)
        (CPUSpec (map (\<lambda>k. st_block_id (the (entries_of c (offloaded_hash c r k)))) [s..<s + hits]),
         GPUSpec (map fst (drop (length (filter (\<lambda>b. snd b \<noteq> None) bls)) bls))) (reqs_to_load c)
    \<and> set_of (request_id r) (reqs_being_loaded c') = map (offloaded_hash c r) [s..<s + hits]"
proof -
  let ?off = "offloaded_block_size c" and ?g = "gpu_block_size c" and ?rid = "request_id r"
  let ?hs = "map (offloaded_hash c r) [s..<s + hits]"
  note T = sound_tables [OF sound]
  have pos: "0 < ?g" "0 < block_size_factor c" "0 < ?off" using T by (simp_all add: tables_ok_def)
  have nc: "0 \<le> nc" "0 \<le> nc div ?off" using local pos by (auto simp: pos_imp_zdiv_nonneg_iff)
  have full: "nc + n = ?off * (nc div ?off + int hits)" using n by simp
  then have stop: "(nc + n) mod ?off = 0" "(nc + n) div ?off = nc div ?off + int hits" using pos(3) by simp_all
  have hashes: "oc_get_block_hashes c r (nc div ?off) (Some (nc div ?off + int hits)) = Inr ?hs"
    using get_block_hashes_range [OF pos(2) nc(2), of "Some (nc div ?off + int hits)" r] nc(2) hits
    by (simp add: s nat_add_distrib min_absorb2)
  have enough: "int (length (block_hashes r)) div block_size_factor c \<ge> nc div ?off + int hits"
  proof -
    have "int (length (block_hashes r)) div block_size_factor c = int (num_offloadable c r)"
      using pos(2) by (simp add: num_offloadable_def zdiv_int)
    with hits(2) s nc(2) show ?thesis by linarith
  qed
  have d: "distinct ?hs" by (rule offloaded_hashes_distinct [OF keys pos(2) hits(2)])
  have count_small: "st_ref_cnt b < 2 ^ 31 - 1" if "entries_of c h = Some b" "is_ready b" for h b
  proof -
    have "st_ref_cnt b = int (count (mset (loading c)) h)" by (rule counts_okD(3) [OF sound_counts [OF sound] that])
    also have "\<dots> \<le> int (length (reqs_being_loaded c))"
      unfolding loading_def using count_concat_le [of "reqs_being_loaded c" h] T by (simp add: tables_ok_def)
    finally show ?thesis using fresh(2) by linarith
  qed
  have loadable: "\<forall>h \<in> set ?hs. \<exists>b. entries_of c h = Some b \<and> is_ready b \<and> st_ref_cnt b < 2 ^ 31 - 1"
    using ready count_small by fastforce
  from load_law [OF sound_ok [OF sound] d loadable] obtain m where
    m: "mg_prepare_load mg ?hs (oc_manager c) = Inr (m, map (\<lambda>h. st_block_id (the (entries_of c h))) ?hs)" "ok m"
      "entry m = on_hashes ?hs (shift_ref 1) (entries_of c)" by blast
  have none: "set_of ?rid (reqs_being_loaded c) = []" using fresh(1) by (simp add: set_of_def)
  then have union: "set_union (set_of ?rid (reqs_being_loaded c)) ?hs = ?hs"
    using set_union_fresh [of "[]" ?hs] d by simp
  define c' where "c' = c\<lparr>oc_manager := m,
       reqs_to_load := AList.update ?rid (CPUSpec (map (\<lambda>h. st_block_id (the (entries_of c h))) ?hs),
         GPUSpec (drop (length (filter (\<lambda>b. snd b \<noteq> None) bls)) (map fst bls))) (reqs_to_load c),
       reqs_being_loaded := AList.update ?rid ?hs (reqs_being_loaded c),
       next_stored_block_idx := AList.update ?rid (nc div ?off + int hits) (next_stored_block_idx c),
       blocks_being_loaded := map_option (\<lambda>s. set_union s ?hs) (blocks_being_loaded c)\<rparr>"
  have c1: "((nc + n) mod ?off = 0) = True" using stop(1) by simp
  have c2: "(n = (int (length (map fst bls)) - int (length (filter (\<lambda>b. snd b \<noteq> None) bls))) * ?g) = True"
    using local total by (simp add: left_diff_distrib)
  have c3: "(int (length (block_hashes r)) div block_size_factor c \<ge> nc div ?off + int hits) = True" using enough by simp
  have run: "start_load mg r bls n c = Inr c'"
    unfolding start_load_def Let_def local c1 c2 stop(2) c3 assertE_simps hashes bindE.simps m(1) prod.case union c'_def ..
  have upd: "AList.update ?rid ?hs (reqs_being_loaded c) = reqs_being_loaded c @ [(?rid, ?hs)]"
    using fresh(1) by (rule update_fresh)
  then have ld: "loading c' = loading c @ ?hs" by (simp add: c'_def loading_def)
  have "counts_ok (entry m) (storing c) (loading c @ ?hs)"
    unfolding m(3) using counts_load [OF sound_counts [OF sound] _ d] ready by simp
  moreover have "tables_ok c'"
  proof -
    have "case blocks_being_loaded c' of None \<Rightarrow> True | Some hs \<Rightarrow> set hs = set (loading c') \<and> distinct (loading c')"
    proof (cases "blocks_being_loaded c")
      case (Some bl)
      then have bl: "set bl = set (loading c)" "distinct (loading c)" using T by (simp_all add: tables_ok_def)
      have "set bl \<inter> set ?hs = {}" using ready Some by auto
      then have "distinct (loading c @ ?hs)" using bl d by simp
      moreover have "set (set_union bl ?hs) = set (loading c @ ?hs)" using bl by simp
      ultimately show ?thesis unfolding ld using Some by (simp add: c'_def)
    qed (simp add: c'_def)
    moreover have "distinct_keys (reqs_being_loaded c')" "\<forall>p \<in> set (reqs_being_loaded c'). distinct (snd p)"
      "int (length (reqs_being_loaded c')) < 2 ^ 31"
      using T d fresh by (simp_all add: c'_def upd tables_ok_def map_of_eq_None_iff)
    ultimately show ?thesis using T nc hits unfolding tables_ok_def
      by (simp add: c'_def update_conv')
  qed
  ultimately have "sound c'" using m(2) unfolding connector_ok_def ld by (simp add: c'_def storing_def)
  moreover have "keeps_blocks (entries_of c) (entries_of c')"
    using keeps_blocks_on_hashes [of "shift_ref 1" "entries_of c" ?hs] by (simp add: c'_def m(3))
  moreover have "set_of ?rid (reqs_being_loaded c') = ?hs"
    by (simp add: c'_def set_of_def update_conv' del: map_of_eq_Some_iff)
  ultimately show ?thesis using run by (intro exI [of _ c']) (simp add: c'_def drop_map comp_def)
qed

end

end
