(* ===== verification/Offloading_Properties.thy ===== *)
theory Offloading_Properties
  imports Offloading_Protocol
begin

section \<open>Properties of the offloading connector\<close>

text \<open>
  The LRU manager keeps the contract \<open>offloading_service\<close>. The step relation \<open>oc_step\<close> covers all methods of
  the connector, called the way the scheduler calls them; its invariant and what it says of running transfers.
\<close>

subsection \<open>The LRU manager keeps the contract\<close>

lemma wrap32_small: "- (2 ^ 31) \<le> x \<Longrightarrow> x < 2 ^ 31 \<Longrightarrow> wrap32 x = x"
  by (simp add: wrap32_def)

lemma on_hashes_Cons:
  "h \<notin> set hs \<Longrightarrow> on_hashes hs f (e(h \<mapsto> f b)) = on_hashes (h # hs) f (e(h \<mapsto> b))"
  by (auto simp: on_hashes_def fun_eq_iff)

lemma lru_load_loop:
  "lru_ok s \<Longrightarrow> distinct hs \<Longrightarrow> \<forall>h \<in> set hs. \<exists>b. map_of (lru_blocks s) h = Some b \<and> is_ready b \<and> st_ref_cnt b < 2 ^ 31 - 1 \<Longrightarrow>
   \<exists>s'. foldE lru_load_step hs (s, acc) = Inr (s', acc @ map (\<lambda>h. the (map_of (lru_blocks s) h)) hs) \<and> lru_ok s'
     \<and> map_of (lru_blocks s') = on_hashes hs (shift_ref 1) (map_of (lru_blocks s))"
proof (induction hs arbitrary: s acc)
  case (Cons h hs)
  then obtain b where b: "map_of (lru_blocks s) h = Some b" "is_ready b" "st_ref_cnt b < 2 ^ 31 - 1" by auto
  have incr: "incr_status b = shift_ref 1 b"
    using b(2,3) wrap32_small [of "st_ref_cnt b + 1"] by (simp add: incr_status_def shift_ref_def is_ready_def)
  define t where "t = s\<lparr>lru_blocks := AList.update h (shift_ref 1 b) (lru_blocks s)\<rparr>"
  have m: "map_of (lru_blocks t) = (map_of (lru_blocks s))(h \<mapsto> shift_ref 1 b)" by (simp add: t_def update_conv')
  have "lru_ok t" unfolding t_def by (rule lru_update_ok [OF Cons.prems(1) b(1)]) simp
  moreover have "distinct hs" "h \<notin> set hs" using Cons.prems(2) by simp_all
  moreover have "\<forall>q \<in> set hs. \<exists>b. map_of (lru_blocks t) q = Some b \<and> is_ready b \<and> st_ref_cnt b < 2 ^ 31 - 1"
    using Cons.prems(3) \<open>h \<notin> set hs\<close> by (auto simp: m)
  ultimately obtain s' where s': "foldE lru_load_step hs (t, acc @ [b]) = Inr (s', (acc @ [b]) @ map (\<lambda>h. the (map_of (lru_blocks t) h)) hs)"
      "lru_ok s'" "map_of (lru_blocks s') = on_hashes hs (shift_ref 1) (map_of (lru_blocks t))"
    using Cons.IH [of t "acc @ [b]"] by blast
  have "map (\<lambda>h. the (map_of (lru_blocks t) h)) hs = map (\<lambda>h. the (map_of (lru_blocks s) h)) hs"
    using \<open>h \<notin> set hs\<close> by (auto simp: m)
  moreover have "lru_load_step h (s, acc) = Inr (t, acc @ [b])"
    using b by (simp add: lru_load_step_def incr t_def del: map_of_eq_Some_iff)
  moreover have "on_hashes hs (shift_ref 1) (map_of (lru_blocks t)) = on_hashes (h # hs) (shift_ref 1) (map_of (lru_blocks s))"
    unfolding m using on_hashes_Cons [OF \<open>h \<notin> set hs\<close>] b(1) by (simp add: fun_upd_idem del: map_of_eq_Some_iff)
  ultimately show ?case using s' b(1) by (simp del: map_of_eq_Some_iff)
qed simp

lemma lru_complete_load_loop:
  "lru_ok s \<Longrightarrow> distinct hs \<Longrightarrow> \<forall>h \<in> set hs. \<exists>b. map_of (lru_blocks s) h = Some b \<and> 0 < st_ref_cnt b \<and> st_ref_cnt b < 2 ^ 31 \<Longrightarrow>
   \<exists>s'. lru_complete_load hs s = Inr s' \<and> lru_ok s'
     \<and> map_of (lru_blocks s') = on_hashes hs (shift_ref (-1)) (map_of (lru_blocks s))"
proof (induction hs arbitrary: s)
  case Nil
  then show ?case by (simp add: lru_complete_load_def)
next
  case (Cons h hs)
  then obtain b where b: "map_of (lru_blocks s) h = Some b" "0 < st_ref_cnt b" "st_ref_cnt b < 2 ^ 31" by auto
  have decr: "decr_status b = shift_ref (-1) b"
    using b(2,3) wrap32_small [of "st_ref_cnt b - 1"] by (simp add: decr_status_def shift_ref_def)
  define t where "t = s\<lparr>lru_blocks := AList.update h (shift_ref (-1) b) (lru_blocks s)\<rparr>"
  have m: "map_of (lru_blocks t) = (map_of (lru_blocks s))(h \<mapsto> shift_ref (-1) b)" by (simp add: t_def update_conv')
  have "lru_ok t" unfolding t_def by (rule lru_update_ok [OF Cons.prems(1) b(1)]) simp
  moreover have "distinct hs" "h \<notin> set hs" using Cons.prems(2) by simp_all
  moreover have "\<forall>q \<in> set hs. \<exists>b. map_of (lru_blocks t) q = Some b \<and> 0 < st_ref_cnt b \<and> st_ref_cnt b < 2 ^ 31"
    using Cons.prems(3) \<open>h \<notin> set hs\<close> by (auto simp: m)
  ultimately obtain s' where s': "lru_complete_load hs t = Inr s'" "lru_ok s'"
      "map_of (lru_blocks s') = on_hashes hs (shift_ref (-1)) (map_of (lru_blocks t))"
    using Cons.IH [of t] by blast
  moreover have "on_hashes hs (shift_ref (-1)) (map_of (lru_blocks t)) = on_hashes (h # hs) (shift_ref (-1)) (map_of (lru_blocks s))"
    unfolding m using on_hashes_Cons [OF \<open>h \<notin> set hs\<close>] b(1) by (simp add: fun_upd_idem del: map_of_eq_Some_iff)
  moreover have "lru_complete_load (h # hs) s = lru_complete_load hs t"
    using b by (simp add: lru_complete_load_def decr t_def del: map_of_eq_Some_iff)
  ultimately show ?case by simp
qed

lemma map_of_filter_keys: "map_of (filter (\<lambda>p. fst p \<notin> V) d) h = (if h \<in> V then None else map_of d h)"
  by (induction d) auto

lemma lru_reserved:
  assumes ok: "lru_ok s" and hs: "distinct hs"
  shows "\<exists>s' out. lru_prepare_store hs s = Inr (s', out) \<and> lru_ok s'
    \<and> (case out of None \<Rightarrow> map_of (lru_blocks s') = map_of (lru_blocks s)
       | Some out \<Rightarrow> reserved hs (map_of (lru_blocks s)) (map_of (lru_blocks s')) out)"
proof -
  let ?ts = "filter (\<lambda>h. map_of (lru_blocks s) h = None) hs" and ?E = "evictable (lru_blocks s)"
  let ?n = "int (length ?ts) - backend_num_free (lru_backend s)"
  let ?V = "map fst (take (nat ?n) ?E)"
  show ?thesis
  proof (cases "?n > int (length ?E)")
    case True
    with lru_prepare_store_ok(1) [OF ok hs] ok show ?thesis by auto
  next
    case False
    with lru_prepare_store_ok(2) [OF ok hs] obtain s' bls where
      run: "lru_prepare_store hs s = Inr (s', Some \<lparr>block_hashes_to_store = ?ts, store_spec = map st_block_id bls,
          block_hashes_evicted = ?V\<rparr>)" and s': "lru_ok s'" "length bls = length ?ts" "\<forall>b \<in> set bls. st_ref_cnt b = -1"
        "lru_blocks s' = filter (\<lambda>p. fst p \<notin> set ?V) (lru_blocks s) @ zip ?ts bls" by auto
    have ts: "distinct ?ts" using hs by simp
    have new: "map_of (lru_blocks s') (?ts ! i) = Some (bls ! i)" if i: "i < length ?ts" for i
    proof -
      have "map_of (lru_blocks s) (?ts ! i) = None" using nth_mem [OF i] by simp
      then have "map_of (filter (\<lambda>p. fst p \<notin> set ?V) (lru_blocks s)) (?ts ! i) = None" unfolding map_of_filter_keys by simp
      moreover have "map_of (zip ?ts bls) (?ts ! i) = Some (bls ! i)"
        by (rule map_of_zip_nth [OF s'(2) [symmetric] ts]) (use i s'(2) in simp_all)
      ultimately show ?thesis by (simp add: s'(4) map_add_def)
    qed
    have "\<exists>b. map_of (lru_blocks s') h = Some b \<and> st_ref_cnt b = -1" if "h \<in> set ?ts" for h
      using that new s'(2,3) by (metis in_set_conv_nth)
    moreover have "map st_block_id bls = map (\<lambda>h. st_block_id (the (map_of (lru_blocks s') h))) ?ts"
      using new s'(2) by (intro nth_equalityI) simp_all
    moreover have "map_of (lru_blocks s') h = map_of (lru_blocks s) h
        \<or> (\<exists>b. map_of (lru_blocks s) h = Some b \<and> st_ref_cnt b = 0 \<and> map_of (lru_blocks s') h = None)" if h: "h \<notin> set ?ts" for h
    proof -
      have "map fst (zip ?ts bls) = ?ts" using s'(2) by simp
      then have "h \<notin> fst ` set (zip ?ts bls)" using h by (metis list.set_map)
      then have "map_of (zip ?ts bls) h = None" by (rule map_of_eq_None_iff [THEN iffD2])
      then have e: "map_of (lru_blocks s') h = (if h \<in> set ?V then None else map_of (lru_blocks s) h)"
        unfolding s'(4) map_of_append map_add_def map_of_filter_keys by (simp split: option.split)
      have "\<exists>b. map_of (lru_blocks s) h = Some b \<and> st_ref_cnt b = 0" if "h \<in> set ?V"
      proof -
        from that obtain b where "(h, b) \<in> set ?E" using set_take_subset [of "nat ?n" ?E] by fastforce
        then have "(h, b) \<in> set (lru_blocks s)" "st_ref_cnt b = 0" by (auto simp: evictable_def)
        then show ?thesis using map_of_is_SomeI [OF lru_okD(1) [OF ok]] by blast
      qed
      with e show ?thesis by auto
    qed
    ultimately have "reserved hs (map_of (lru_blocks s)) (map_of (lru_blocks s'))
        \<lparr>block_hashes_to_store = ?ts, store_spec = map st_block_id bls, block_hashes_evicted = ?V\<rparr>"
      unfolding reserved_def by simp
    with run s'(1) show ?thesis by auto
  qed
qed

lemma lru_blocks_injective:
  assumes ok: "lru_ok s" and b: "map_of (lru_blocks s) h = Some b" "map_of (lru_blocks s) h' = Some b'" "st_block_id b = st_block_id b'"
  shows "h = h'"
proof -
  have d: "distinct (used_ids (lru_blocks s))" using backend_ok_distinct(1) [OF lru_okD(2) [OF ok]] .
  from b obtain i j where ij: "i < length (lru_blocks s)" "lru_blocks s ! i = (h, b)" "j < length (lru_blocks s)" "lru_blocks s ! j = (h', b')"
    by (metis in_set_conv_nth map_of_SomeD)
  then have "used_ids (lru_blocks s) ! i = used_ids (lru_blocks s) ! j" using b(3) by (simp add: used_ids_def)
  then have "i = j" using nth_eq_iff_index_eq [OF d, of i j] ij by (simp add: used_ids_def)
  with ij show ?thesis by simp
qed

interpretation lru_service: offloading_service lru_ops lru_ok "\<lambda>s. map_of (lru_blocks s)"
proof (unfold_locales, goal_cases)
  case (1 hs m)
  then show ?case by (simp add: lru_ops_def lru_lookup_def lookup_count_takeWhile)
next
  case (2 m hs)
  then show ?case using lru_touch_ok [of m hs] by (auto simp: lru_ops_def)
next
  case (3 m hs)
  from lru_load_loop [OF this, of "[]"] obtain s' where
    "foldE lru_load_step hs (m, []) = Inr (s', map (\<lambda>h. the (map_of (lru_blocks m) h)) hs)" "lru_ok s'"
    "map_of (lru_blocks s') = on_hashes hs (shift_ref 1) (map_of (lru_blocks m))" by auto
  then show ?case by (auto simp: lru_ops_def lru_prepare_load_def get_load_store_spec_def comp_def)
next
  case (4 m hs)
  then show ?case using lru_complete_load_loop [of m hs] by (simp add: lru_ops_def)
next
  case (5 m hs)
  then show ?case using lru_reserved [of m hs] by (simp add: lru_ops_def)
next
  case (6 m hs)
  from lru_complete_store_success [OF this] obtain s' where s': "lru_complete_store hs True m = Inr s'" "lru_ok s'"
    "\<forall>q. map_of (lru_blocks s') q = (if q \<in> set hs
          then map_option (\<lambda>b. if is_ready b then b else b\<lparr>st_ref_cnt := 0\<rparr>) (map_of (lru_blocks m) q)
          else map_of (lru_blocks m) q)" by blast
  have "map_of (lru_blocks s') = on_hashes hs make_ready (map_of (lru_blocks m))"
    using s'(3) by (simp add: fun_eq_iff on_hashes_def make_ready_def [abs_def])
  with s' show ?case by (auto simp: lru_ops_def)
next
  case (7 m m' evs)
  then show ?case by (auto simp: lru_ops_def lru_take_events_def lru_ok_def split: option.splits)
next
  case (8 m h b h' b')
  then show ?case by (rule lru_blocks_injective)
qed

subsection \<open>Steps of the connector\<close>

text \<open>
  The blocks the scheduler allocated after a query: those of the local prefix hit carry their hashes, the others
  are to be loaded.
\<close>

definition allocated_for :: "'m OffloadingConnectorScheduler \<Rightarrow> int \<Rightarrow> int \<Rightarrow> (int \<times> bytes option) list \<Rightarrow> bool" where
  "allocated_for c nc n bls \<longleftrightarrow> int (length (filter (\<lambda>b. snd b \<noteq> None) bls)) * gpu_block_size c = nc
     \<and> int (length bls) * gpu_block_size c = nc + n"

text \<open>
  A request is loaded by one transfer at a time, because it waits for it. Reference counts are 32 bits wide, so fewer than
  \<open>2 ^ 31\<close> requests load at once.
\<close>

definition may_load :: "'m OffloadingConnectorScheduler \<Rightarrow> Request \<Rightarrow> bool" where
  "may_load c r \<longleftrightarrow> map_of (reqs_being_loaded c) (request_id r) = None \<and> int (length (reqs_being_loaded c)) + 1 < 2 ^ 31"

inductive oc_step :: "'m manager_ops \<Rightarrow> 'm OffloadingConnectorScheduler \<Rightarrow> 'm OffloadingConnectorScheduler \<Rightarrow> bool" for mg where
  oc_query: "0 \<le> nc \<Longrightarrow> oc_get_num_new_matched_tokens mg r nc c = Inr (c', res) \<Longrightarrow> oc_step mg c c'"
| oc_admit: "distinct (block_hashes r) \<Longrightarrow> 0 \<le> nc \<Longrightarrow> oc_get_num_new_matched_tokens mg r nc c = Inr (c1, Some n, True) \<Longrightarrow>
    allocated_for c nc n bls \<Longrightarrow> may_load c r \<Longrightarrow>
    oc_update_state_after_alloc mg r (bls # groups) n c1 = Inr c' \<Longrightarrow> oc_step mg c c'"
| oc_track: "oc_update_state_after_alloc mg r groups 0 c = Inr c' \<Longrightarrow> oc_step mg c c'"
| oc_build: "\<forall>p. distinct (block_hashes (objs p)) \<Longrightarrow> oc_build_connector_meta mg objs so c = Inr (c', md) \<Longrightarrow> oc_step mg c c'"
| oc_output: "oc_update_connector_output mg out c = Inr c' \<Longrightarrow> oc_step mg c c'"
| oc_finish: "oc_request_finished r c = (c', async) \<Longrightarrow> oc_step mg c c'"
| oc_events: "oc_take_events mg c = (c', evs) \<Longrightarrow> oc_step mg c c'"

inductive oc_reach :: "'m manager_ops \<Rightarrow> 'm \<Rightarrow> 'm OffloadingConnectorScheduler \<Rightarrow> bool" for mg m0 where
  oc_start: "0 < os_gpu_block_size cfg \<Longrightarrow> 0 < offloaded_size cfg \<Longrightarrow> offloading_connector_init cfg m0 = Inr c \<Longrightarrow> oc_reach mg m0 c"
| oc_next: "oc_reach mg m0 c \<Longrightarrow> oc_step mg c c' \<Longrightarrow> oc_reach mg m0 c'"

lemma protects_same: "keeps_blocks e e' \<Longrightarrow> protects e e'"
  using protectsI keeps_blocks_refl(2) .

context offloading_service
begin

lemma admit_ok:
  assumes sound: "sound c" and keys: "distinct (block_hashes r)" and nc: "0 \<le> nc"
    and query: "oc_get_num_new_matched_tokens mg r nc c = Inr (c1, Some n, True)"
    and alloc: "allocated_for c nc n bls" and may: "may_load c r"
  defines "s \<equiv> nat (nc div offloaded_block_size c)" and "hits \<equiv> num_hits (entries_of c) c r nc"
  shows "\<exists>c'. oc_update_state_after_alloc mg r (bls # groups) n c1 = Inr c' \<and> sound c'
    \<and> keeps_blocks (entries_of c) (entries_of c')
    \<and> map_of (reqs_to_load c') (request_id r) = Some
        (CPUSpec (map (\<lambda>k. st_block_id (the (entries_of c (offloaded_hash c r k)))) [s..<s + hits]),
         GPUSpec (map fst (drop (length (filter (\<lambda>b. snd b \<noteq> None) bls)) bls)))"
proof -
  from query_ok [OF sound nc query] obtain m where c1: "sound c1" "entries_of c1 = entries_of c" "c1 = c\<lparr>oc_manager := m\<rparr>" by blast
  note matched = query_matched [OF sound query nc, folded s_def hits_def]
  define c2 where "c2 = c1\<lparr>oc_requests := AList.update (request_id r) (py_id r) (oc_requests c1),
      request_block_ids := AList.update (request_id r) [] (request_block_ids c1)\<rparr>"
  have s2: "sound c2" using c1(1) by (simp add: c2_def)
  have same: "offloaded_block_size c2 = offloaded_block_size c" "gpu_block_size c2 = gpu_block_size c"
    "block_size_factor c2 = block_size_factor c" "reqs_being_loaded c2 = reqs_being_loaded c"
    "blocks_being_loaded c2 = blocks_being_loaded c" "entries_of c2 = entries_of c"
    using c1(2) by (simp_all add: c2_def c1(3))
  then have hash: "offloaded_hash c2 r = offloaded_hash c r" "num_offloadable c2 r = num_offloadable c r"
    by (simp_all add: offloaded_hash_def num_offloadable_def fun_eq_iff)
  have "\<exists>c'. start_load mg r bls n c2 = Inr c' \<and> sound c' \<and> keeps_blocks (entries_of c2) (entries_of c')
    \<and> reqs_to_load c' = AList.update (request_id r)
        (CPUSpec (map (\<lambda>k. st_block_id (the (entries_of c2 (offloaded_hash c2 r k)))) [s..<s + hits]),
         GPUSpec (map fst (drop (length (filter (\<lambda>b. snd b \<noteq> None) bls)) bls))) (reqs_to_load c2)
    \<and> set_of (request_id r) (reqs_being_loaded c') = map (offloaded_hash c2 r) [s..<s + hits]"
    by (rule start_load_ok [OF s2 keys matched(1)])
      (use matched alloc may in \<open>simp_all add: same hash s_def allocated_for_def may_load_def\<close>)
  then obtain c' where c': "start_load mg r bls n c2 = Inr c'" "sound c'" "keeps_blocks (entries_of c) (entries_of c')"
    "reqs_to_load c' = AList.update (request_id r)
        (CPUSpec (map (\<lambda>k. st_block_id (the (entries_of c (offloaded_hash c r k)))) [s..<s + hits]),
         GPUSpec (map fst (drop (length (filter (\<lambda>b. snd b \<noteq> None) bls)) bls))) (reqs_to_load c2)"
    unfolding same hash by blast
  have "offloaded_block_size c1 \<noteq> 0" "block_size_factor c1 \<noteq> 0" using sound_tables [OF c1(1)] by (auto simp: tables_ok_def)
  then have "oc_update_state_after_alloc mg r (bls # groups) n c1 = start_load mg r bls n c2"
    using matched(3) by (simp add: oc_update_state_after_alloc_def Let_def c2_def [symmetric] index_py_nonneg)
  with c' show ?thesis by (intro exI [of _ c']) (simp add: update_conv' del: map_of_eq_Some_iff)
qed

lemma step_ok:
  assumes "oc_step mg c c'" and sound: "sound c"
  shows "sound c' \<and> protects (entries_of c) (entries_of c')"
  using assms(1)
proof cases
  case (oc_query nc r res)
  then show ?thesis using query_ok [OF sound] protects_same by fastforce
next
  case (oc_admit r nc c1 n bls groups)
  from admit_ok [OF sound oc_admit(1-5), of groups] oc_admit(6) show ?thesis using protects_same by auto
next
  case (oc_track r groups)
  then have "sound c'" "entries_of c' = entries_of c" using sound by (auto simp: oc_update_state_after_alloc_def Let_def)
  then show ?thesis using protects_same by simp
next
  case (oc_build objs so md)
  then show ?thesis using build_connector_meta_ok [of objs, OF _ sound] by blast
next
  case (oc_output out)
  then show ?thesis using update_connector_output_ok [OF sound, of out] protects_same by auto
next
  case (oc_finish r async)
  then have c': "c' = c\<lparr>oc_requests := AList.delete (request_id r) (oc_requests c),
       request_block_ids := AList.delete (request_id r) (request_block_ids c),
       next_stored_block_idx := AList.delete (request_id r) (next_stored_block_idx c)\<rparr>"
    by (simp add: oc_request_finished_def Let_def)
  have "sound c'" using sound
    by (simp add: c' connector_ok_def tables_ok_def storing_def loading_def delete_conv' split: option.splits)
  then show ?thesis using protects_same by (simp add: c')
next
  case (oc_events evs)
  then obtain m evs' where m: "mg_take_events mg (oc_manager c) = (m, evs')" "c' = c\<lparr>oc_manager := m\<rparr>"
    by (auto simp: oc_take_events_def split: prod.splits)
  then show ?thesis using events_law [OF sound_ok [OF sound] m(1)] sound protects_same
    by (auto simp: connector_ok_def storing_def loading_def)
qed

lemma reach_ok:
  assumes "oc_reach mg m0 c" and "ok m0" and "\<And>h. entry m0 h = None"
  shows "sound c"
  using assms(1)
proof induction
  case (oc_start cfg c)
  then have "offloaded_size cfg = os_gpu_block_size cfg * (offloaded_size cfg div os_gpu_block_size cfg)"
    by (auto simp: offloading_connector_init_def check_block_sizes_def elim!: bindE_InrE split: if_splits)
  moreover from this have "0 < offloaded_size cfg div os_gpu_block_size cfg"
    using oc_start(1,2) by (metis mult_pos_pos zero_less_mult_pos)
  ultimately show ?case using oc_start assms(2,3)
    by (auto simp: offloading_connector_init_def connector_ok_def tables_ok_def counts_ok_def storing_def loading_def elim!: bindE_InrE)
next
  case (oc_next c c')
  then show ?case using step_ok by blast
qed

end

subsection \<open>The properties\<close>

abbreviation empty_lru :: "int \<Rightarrow> int \<Rightarrow> bool \<Rightarrow> LRUOffloadingManager" where
  "empty_lru bs n evs \<equiv> lru_init (cpu_backend_init bs n) evs"

lemma lru_reach_sound:
  assumes "oc_reach lru_ops (empty_lru bs n evs) c" and "0 \<le> n"
  shows "connector_ok lru_ok (\<lambda>s. map_of (lru_blocks s)) c"
proof (rule lru_service.reach_ok [OF assms(1)])
  show "lru_ok (empty_lru bs n evs)" by (rule lru_init_ok [OF assms(2)])
qed (simp add: lru_init_def)

lemma transfer_keeps_place:
  assumes "connector_ok lru_ok (\<lambda>s. map_of (lru_blocks s)) c" and "oc_step lru_ops c c'"
    and "h \<in> set (storing c) \<union> set (loading c)"
  shows "\<exists>b b'. map_of (lru_blocks (oc_manager c)) h = Some b \<and> map_of (lru_blocks (oc_manager c')) h = Some b'
    \<and> st_block_id b' = st_block_id b
    \<and> (\<forall>h2 b2. map_of (lru_blocks (oc_manager c')) h2 = Some b2 \<and> st_block_id b2 = st_block_id b \<longrightarrow> h2 = h)"
proof -
  note step = lru_service.step_ok [OF assms(2,1)]
  have counts: "counts_ok (map_of (lru_blocks (oc_manager c))) (storing c) (loading c)"
    using assms(1) by (simp add: connector_ok_def)
  have "\<exists>b. map_of (lru_blocks (oc_manager c)) h = Some b \<and> st_ref_cnt b \<noteq> 0"
  proof (cases "h \<in> set (storing c)")
    case True
    then show ?thesis using counts_okD(2) [OF counts, of h] by (auto simp: is_ready_def)
  next
    case False
    then have h: "h \<in> set (loading c)" using assms(3) by blast
    then obtain b where b: "map_of (lru_blocks (oc_manager c)) h = Some b" "is_ready b" using counts_okD(4) [OF counts] by blast
    then have "st_ref_cnt b = int (count (mset (loading c)) h)" by (rule counts_okD(3) [OF counts])
    moreover have "0 < count (mset (loading c)) h" using h by (simp add: count_greater_zero_iff)
    ultimately show ?thesis using b(1) by auto
  qed
  then obtain b where b: "map_of (lru_blocks (oc_manager c)) h = Some b" "st_ref_cnt b \<noteq> 0" by blast
  with step obtain b' where b': "map_of (lru_blocks (oc_manager c')) h = Some b'" "st_block_id b' = st_block_id b"
    unfolding protects_def by blast
  have "lru_ok (oc_manager c')" using step by (simp add: connector_ok_def)
  then have "h2 = h" if "map_of (lru_blocks (oc_manager c')) h2 = Some b2" "st_block_id b2 = st_block_id b" for h2 b2
    using lru_blocks_injective [OF _ that(1) b'(1)] that(2) b'(2) by simp
  with b b' show ?thesis by blast
qed

text \<open>
  C40: With the LRU manager, in every state that the offloading connector reaches (each request loads in one transfer at a
  time, fewer than \<open>2 ^ 31\<close> at once, and the block hashes of one request differ): the blocks that cannot be read yet are
  exactly those being stored, each by one request; the reference count of any other block is the number of requests that
  load it; blocks being loaded can be read; and a report of finished transfers, whatever requests it names, is
  processed without an exception. And while a block is being stored or loaded, no step of the connector evicts it or gives
  its place in CPU memory to another hash.
\<close>

theorem offloading_transfers_are_safe:
  assumes "oc_reach lru_ops (empty_lru bs n evs) c" and "0 \<le> n"
  shows "distinct (storing c)
   \<and> (\<forall>h. h \<in> set (storing c) \<longleftrightarrow> (\<exists>b. map_of (lru_blocks (oc_manager c)) h = Some b \<and> \<not> is_ready b))
   \<and> (\<forall>h b. map_of (lru_blocks (oc_manager c)) h = Some b \<and> is_ready b \<longrightarrow> st_ref_cnt b = int (count (mset (loading c)) h))
   \<and> (\<forall>h \<in> set (loading c). lru_ready (oc_manager c) h)
   \<and> (\<forall>out. \<exists>c'. oc_update_connector_output lru_ops out c = Inr c')
   \<and> (\<forall>c' h. oc_step lru_ops c c' \<and> h \<in> set (storing c) \<union> set (loading c) \<longrightarrow>
        (\<exists>b b'. map_of (lru_blocks (oc_manager c)) h = Some b \<and> map_of (lru_blocks (oc_manager c')) h = Some b'
          \<and> st_block_id b' = st_block_id b
          \<and> (\<forall>h2 b2. map_of (lru_blocks (oc_manager c')) h2 = Some b2 \<and> st_block_id b2 = st_block_id b \<longrightarrow> h2 = h)))"
proof -
  note sound = lru_reach_sound [OF assms]
  then have counts: "counts_ok (map_of (lru_blocks (oc_manager c))) (storing c) (loading c)" by (simp add: connector_ok_def)
  have report: "\<exists>c'. oc_update_connector_output lru_ops out c = Inr c'" for out
    using lru_service.update_connector_output_ok [OF sound, of out] by blast
  have ready: "\<forall>h \<in> set (loading c). lru_ready (oc_manager c) h"
    using counts unfolding counts_ok_def lru_ready_def by blast
  show ?thesis
    by (intro conjI allI impI report ready transfer_keeps_place [OF sound])
      (use counts in \<open>unfold counts_ok_def; blast\<close>)+
qed

text \<open>
  A connector with GPU blocks of two tokens and CPU blocks of four. A request of eight tokens is computed and its two
  offloaded blocks go to the CPU; the second one is under way when the worker reports.
\<close>

definition demo_offload_settings :: offload_settings where
  "demo_offload_settings = \<lparr>os_gpu_block_size = 2, extra_block_size = Some 4, cpu_bytes_to_use = Some 64, eviction_policy = ''lru'',
     os_world_size = 1, enable_kv_cache_events = None, enable_prefix_caching = True\<rparr>"

definition demo_offload_request :: Request where
  "demo_offload_request = (demo_request ''r'' [1, 2, 3, 4, 5, 6, 7, 8] [] None None)\<lparr>block_hashes := [[1], [2], [3], [4]]\<rparr>"

definition demo_offload_output :: SchedulerOutput where
  "demo_offload_output = \<lparr>scheduled_new_data = [new_request_data demo_offload_request [[1, 2, 3, 4]] None],
     scheduled_cached_reqs = empty_cached_request_data, out_num_scheduled_tokens = [(''r'', 8)], total_num_scheduled_tokens = 8,
     out_spec_decode_tokens = [], out_encoder_inputs = [], num_common_prefix_blocks = [], out_finished_req_ids = {},
     free_encoder_mm_hashes = [], preempted_req_ids = [], has_structured_output_requests = False,
     pending_structured_output_tokens = False, num_invalid_spec_tokens = None\<rparr>"

theorem offloading_transfers_are_safe_witness:
  "\<exists>c c'. oc_reach lru_ops (empty_lru 4 3 False) c \<and> storing c = [[2], [4]]
     \<and> oc_update_connector_output lru_ops \<lparr>finished_sending = [''r''], finished_recving = [''q''], invalid_block_ids = []\<rparr> c = Inr c'
     \<and> (\<exists>b. map_of (lru_blocks (oc_manager c)) [4] = Some b \<and> \<not> is_ready b)"
proof -
  let ?r = demo_offload_request and ?m = "empty_lru 4 3 False"
  have "bindE (offloading_connector_init demo_offload_settings ?m) (\<lambda>c0.
      bindE (oc_update_state_after_alloc lru_ops ?r [] 0 c0) (\<lambda>c1.
      bindE (oc_build_connector_meta lru_ops (\<lambda>_. ?r) demo_offload_output c1) (\<lambda>(c2, md).
      Inr (concat (map snd (reqs_being_stored c2)))))) = Inr [[2], [4]]"
    by code_simp
  then obtain c0 c1 c2 md where run: "offloading_connector_init demo_offload_settings ?m = Inr c0"
    "oc_update_state_after_alloc lru_ops ?r [] 0 c0 = Inr c1"
    "oc_build_connector_meta lru_ops (\<lambda>_. ?r) demo_offload_output c1 = Inr (c2, md)"
    and st: "storing c2 = [[2], [4]]"
    by (auto simp: storing_def elim!: bindE_InrE)
  have cfg: "0 < os_gpu_block_size demo_offload_settings" "0 < offloaded_size demo_offload_settings"
    by (simp_all add: demo_offload_settings_def offloaded_size_def)
  have keys: "\<forall>p :: int. distinct (block_hashes ?r)" by (simp add: demo_offload_request_def)
  have reach: "oc_reach lru_ops ?m c2"
    by (rule oc_next [OF oc_next [OF oc_start [OF cfg run(1)] oc_track [OF run(2)]] oc_build [OF keys run(3)]])
  note safe = offloading_transfers_are_safe [OF reach, simplified]
  from safe st have "\<exists>b. map_of (lru_blocks (oc_manager c2)) [4] = Some b \<and> \<not> is_ready b" by auto
  moreover obtain c3 where "oc_update_connector_output lru_ops
      \<lparr>finished_sending = [''r''], finished_recving = [''q''], invalid_block_ids = []\<rparr> c2 = Inr c3" using safe by blast
  ultimately show ?thesis using reach st by blast
qed

text \<open>
  When the connector answers that \<open>n\<close> tokens can be loaded and the scheduler allocates blocks for them, starting the
  load never raises. The transfer then goes from the CPU blocks that hold the hashes of the missing
  offloaded blocks of the request, in order, to the newly allocated GPU blocks.
\<close>

theorem matched_tokens_can_be_loaded:
  assumes "oc_reach lru_ops (empty_lru bs m evs) c" and "0 \<le> m" and "distinct (block_hashes r)" and "0 \<le> nc"
    and "oc_get_num_new_matched_tokens lru_ops r nc c = Inr (c1, Some n, True)"
    and "allocated_for c nc n bls" and "may_load c r"
  shows "\<exists>c' hits. oc_update_state_after_alloc lru_ops r (bls # groups) n c1 = Inr c'
    \<and> nc + n = offloaded_block_size c * (nc div offloaded_block_size c + int hits)
    \<and> map_of (reqs_to_load c') (request_id r) = Some
        (CPUSpec (map (\<lambda>k. st_block_id (the (map_of (lru_blocks (oc_manager c)) (offloaded_hash c r k))))
                    [nat (nc div offloaded_block_size c)..<nat (nc div offloaded_block_size c) + hits]),
         GPUSpec (map fst (drop (length (filter (\<lambda>b. snd b \<noteq> None) bls)) bls)))
    \<and> (\<forall>k \<in> {nat (nc div offloaded_block_size c)..<nat (nc div offloaded_block_size c) + hits}.
         lru_ready (oc_manager c) (offloaded_hash c r k))"
proof -
  note sound = lru_reach_sound [OF assms(1,2)]
  note matched = lru_service.query_matched [OF sound assms(5,4)]
  show ?thesis
    using lru_service.admit_ok [OF sound assms(3-7), of groups] matched(2,5)
    by (elim exE conjE, intro exI [of _ "num_hits (map_of (lru_blocks (oc_manager c))) c r nc"] exI)
      (auto simp: lru_ready_def simp del: map_of_eq_Some_iff)
qed

text \<open>
  Storing the offloaded blocks from \<open>start\<close> to \<open>stop\<close> of a request whose GPU blocks are known never raises. Either
  nothing is transferred, or exactly the blocks not yet stored are: the GPU blocks of each, in order, go to the CPU block that
  the manager reserved for its hash.
\<close>

theorem stored_blocks_match_gpu_blocks:
  assumes "oc_reach lru_ops (empty_lru bs m evs) c" and "0 \<le> m" and "distinct (block_hashes r)" and "0 \<le> start" and "start < stop"
    and "stop * block_size_factor c \<le> int (length ids)"
  shows "\<exists>c' ts'. store_blocks lru_ops rid r ids start stop (c, ts) = Inr (c', ts')
    \<and> (ts' = ts \<or> (\<exists>ks dst. ts' = AList.update rid
          (GPUSpec (concat (map (gpu_blocks_of (nat (block_size_factor c)) ids) ks)), CPUSpec dst) ts
        \<and> ks = filter (\<lambda>k. map_of (lru_blocks (oc_manager c)) (offloaded_hash c r k) = None)
                 [nat start..<min (num_offloadable c r) (nat stop)]
        \<and> length dst = length ks
        \<and> (\<forall>i < length ks. \<exists>b. map_of (lru_blocks (oc_manager c')) (offloaded_hash c r (ks ! i)) = Some b
             \<and> \<not> is_ready b \<and> st_block_id b = dst ! i)))"
proof -
  let ?e = "map_of (lru_blocks (oc_manager c))" and ?f = "block_size_factor c" and ?N = "min (num_offloadable c r) (nat stop)"
  let ?hs = "map (offloaded_hash c r) [nat start..<?N]"
  define ks where "ks = filter (\<lambda>k. ?e (offloaded_hash c r k) = None) [nat start..<?N]"
  note sound = lru_reach_sound [OF assms(1,2)]
  have pos: "0 < stop" using assms(4,5) by simp
  have f: "0 < ?f" using sound by (simp add: connector_ok_def tables_ok_def)
  show ?thesis
  proof (rule lru_service.store_blocks_cases [OF sound assms(3,4) pos, where rid = rid and ids = ids and ts = ts])
    fix c' assume "store_blocks lru_ops rid r ids start stop (c, ts) = Inr (c', ts)"
    then show ?thesis by blast
  next
    fix c' out
    assume run: "store_blocks lru_ops rid r ids start stop (c, ts) = bindE (src_block_ids_of c ids start ?hs (block_hashes_to_store out))
          (\<lambda>src. Inr (c', AList.update rid (GPUSpec src, CPUSpec (store_spec out)) ts))"
      and res: "reserved ?hs ?e (map_of (lru_blocks (oc_manager c'))) out"
    have new: "block_hashes_to_store out = map (offloaded_hash c r) ks"
      using res by (simp add: reserved_def ks_def filter_map comp_def)
    have "(nat start + length ?hs) * nat ?f \<le> nat stop * nat ?f" using assms(4,5) by (intro mult_le_mono1) auto
    also have "\<dots> = nat (stop * ?f)" using pos f by (simp add: nat_mult_distrib)
    also have "\<dots> \<le> length ids" using assms(6) by simp
    finally have room: "(nat start + length ?hs) * nat ?f \<le> length ids" .
    have "[a..<a + length [a..<b]] = [a..<b]" for a b :: nat by (cases "a \<le> b") simp_all
    then have range: "[nat start..<nat start + length ?hs] = [nat start..<?N]" unfolding length_map .
    have "filter (\<lambda>k. ?hs ! (k - nat start) \<in> set (block_hashes_to_store out)) [nat start..<?N] = ks"
      unfolding ks_def
    proof (rule filter_cong)
      fix k assume k: "k \<in> set [nat start..<?N]"
      then have "k - nat start < length [nat start..<?N]" "nat start + (k - nat start) < ?N" by auto
      then have "?hs ! (k - nat start) = offloaded_hash c r (nat start + (k - nat start))"
        by (simp only: nth_map nth_upt)
      then have "?hs ! (k - nat start) = offloaded_hash c r k" using k by simp
      moreover have "offloaded_hash c r k \<in> set ?hs" using k by simp
      ultimately show "(?hs ! (k - nat start) \<in> set (block_hashes_to_store out)) = (?e (offloaded_hash c r k) = None)"
        using res unfolding reserved_def by (metis (mono_tags, lifting) mem_Collect_eq set_filter)
    qed simp
    then have "src_block_ids_of c ids start ?hs (block_hashes_to_store out)
        = Inr (concat (map (gpu_blocks_of (nat ?f) ids) ks))"
      using src_block_ids_of_eq [OF f assms(4) room] unfolding range by simp
    then have r2: "store_blocks lru_ops rid r ids start stop (c, ts) = Inr (c', AList.update rid
        (GPUSpec (concat (map (gpu_blocks_of (nat ?f) ids) ks)), CPUSpec (store_spec out)) ts)" using run by simp
    have dst: "store_spec out = map (\<lambda>k. st_block_id (the (map_of (lru_blocks (oc_manager c')) (offloaded_hash c r k)))) ks"
      using res new by (simp add: reserved_def)
    have "\<exists>b. map_of (lru_blocks (oc_manager c')) (offloaded_hash c r (ks ! i)) = Some b \<and> \<not> is_ready b
        \<and> st_block_id b = store_spec out ! i" if i: "i < length ks" for i
    proof -
      have "offloaded_hash c r (ks ! i) \<in> set (block_hashes_to_store out)" using i by (simp add: new)
      then obtain b where "map_of (lru_blocks (oc_manager c')) (offloaded_hash c r (ks ! i)) = Some b" "st_ref_cnt b = -1"
        using res unfolding reserved_def by blast
      then show ?thesis using i by (auto simp: dst is_ready_def simp del: map_of_eq_Some_iff)
    qed
    then have dst_ok: "\<forall>i < length ks. \<exists>b. map_of (lru_blocks (oc_manager c')) (offloaded_hash c r (ks ! i)) = Some b \<and> \<not> is_ready b
        \<and> st_block_id b = store_spec out ! i" by blast
    have len: "length (store_spec out) = length ks" by (simp add: dst)
    show ?thesis
      by (rule exI, rule exI, rule conjI, rule r2, rule disjI2, rule exI [of _ ks], rule exI [of _ "store_spec out"])
        (intro conjI refl ks_def len dst_ok)
  qed
qed

subsection \<open>The ARC manager\<close>

lemma arc_touch_step_error: "arc_touch_step q s = Inl e \<Longrightarrow> e = KeyError"
  by (auto simp: arc_touch_step_def move_to_end_def Let_def split: option.splits if_splits)

lemma arc_touch_step_other:
  "arc_touch_step q s = Inr s' \<Longrightarrow> q \<noteq> h \<Longrightarrow> map_of (t1 s') h = map_of (t1 s) h"
  by (auto simp: arc_touch_step_def move_to_end_def Let_def delete_conv' bindE_Inr_iff simp del: map_of_eq_Some_iff
      split: option.splits if_splits)

lemma arc_touch_fails:
  "map_of (t1 s) h = Some b \<Longrightarrow> \<not> is_ready b \<Longrightarrow> h \<in> set hs \<Longrightarrow> foldE arc_touch_step hs s = Inl KeyError"
proof (induction hs arbitrary: s)
  case (Cons q hs)
  show ?case
  proof (cases "q = h")
    case True
    then show ?thesis using arc_touch_unready [OF Cons.prems(1,2)] by simp
  next
    case False
    show ?thesis
    proof (cases "arc_touch_step q s")
      case (Inl e)
      then show ?thesis using arc_touch_step_error [OF Inl] by simp
    next
      case (Inr s')
      then have "foldE arc_touch_step hs s' = Inl KeyError"
        using Cons.IH [of s'] Cons.prems False arc_touch_step_other [OF Inr False] by simp
      with Inr show ?thesis by simp
    qed
  qed
qed simp

text \<open>
  With the ARC manager no block is ever stored: whenever it reserves a block, the connector goes on to touch the blocks of
  the request, the new one among them, and that raises \<^verbatim>\<open>KeyError\<close>.
\<close>

theorem arc_connector_cannot_store:
  assumes "arc_ok (oc_manager c)" and "0 < block_size_factor c" and "distinct (block_hashes r)" and "0 \<le> start" and "start < stop"
    and "oc_get_block_hashes c r start (Some stop) = Inr hs"
    and "arc_prepare_store hs (oc_manager c) = Inr (m, Some out)" and "block_hashes_to_store out \<noteq> []"
  shows "store_blocks arc_ops rid r ids start stop (c, ts) = Inl KeyError"
proof -
  let ?N = "min (num_offloadable c r) (nat stop)"
  have stop: "0 < stop" using assms(4,5) by simp
  have hs: "hs = map (offloaded_hash c r) [nat start..<?N]"
    using get_block_hashes_range [OF assms(2,4), of "Some stop" r] assms(6) stop by simp
  have all: "oc_get_block_hashes c r 0 (Some stop) = Inr (map (offloaded_hash c r) [0..<?N])"
    using get_block_hashes_range [OF assms(2) order_refl, of "Some stop" r] stop by simp
  have d: "distinct hs" unfolding hs by (rule offloaded_hashes_distinct [OF assms(3,2)]) simp
  have st: "arc_stored (oc_manager c) hs m out" using arc_prepare_store_ok [OF assms(1) d] assms(7) by auto
  obtain h where h: "h \<in> set (block_hashes_to_store out)" using assms(8) by (metis list.set_intros(1) neq_Nil_conv)
  then obtain b where "map_of (t1 m) h = Some b" "st_ref_cnt b = -1" using st unfolding arc_stored_def by blast
  moreover have "h \<in> set (rev (map (offloaded_hash c r) [0..<?N]))"
    using h st unfolding arc_stored_def hs by auto
  ultimately have touch: "arc_touch (map (offloaded_hash c r) [0..<?N]) m = Inl KeyError"
    unfolding arc_touch_def using arc_touch_fails [of m h b] by (simp add: is_ready_def)
  have same: "oc_get_block_hashes (c\<lparr>oc_manager := m, next_stored_block_idx := d\<rparr>) r 0 (Some stop) = oc_get_block_hashes c r 0 (Some stop)" for d
    by (rule get_block_hashes_same) simp
  show ?thesis unfolding store_blocks_def using assms(6-8) by (simp add: arc_ops_def same all touch)
qed

end
