(* ===== verification/Spec2Isabelle.thy ===== *)
theory Spec2Isabelle
  imports Free_Queue Requests Block_Hashing Block_Pool Request_Queue Encoder_Cache Offload_Lru Offload_Arc
    Kv_Cache_Groups Hybrid_Lookup Kv_Allocation Scheduler_Properties Output_Tracking Ngram_Proposer
    Offloading_Properties
begin

text \<open>
  The repository bundles several systems (Open WebUI, RAGFlow, vLLM and a small proxy). This development
  verifies the scheduler of the vLLM engine and its memory management, \<^verbatim>\<open>src/repos/vllm/vllm/v1/core\<close> and what it uses of
  \<^verbatim>\<open>v1/kv_offload\<close>, \<^verbatim>\<open>v1/request.py\<close> and \<^verbatim>\<open>v1/kv_cache_interface.py\<close>: the code that decides which
  request runs in which step, which block of GPU memory belongs to which request, and which blocks may be
  shared or overwritten. Beside it stand the two ends of the engine: the front end that turns sampled tokens into
  the text and outputs of the users (\<^verbatim>\<open>v1/engine\<close>), and the proposer of draft tokens by n-gram
  search (\<^verbatim>\<open>v1/spec_decode/ngram_proposer.py\<close>).

  \<^bold>\<open>The parts and how they interact.\<close> A request (\<^verbatim>\<open>request.py\<close>) carries token ids and, as
  they grow, a chain of block hashes. The scheduler keeps requests in a dict and in a waiting queue or the
  list of running requests; a step shares the token budget between them, preempts running requests when blocks
  run out, and takes the sampled tokens of the workers back in. For each request it asks
  the KV cache manager for cached prefix blocks (\<^verbatim>\<open>get_computed_blocks\<close>), then for slots
  (\<^verbatim>\<open>allocate_slots\<close>), and finally frees them. The KV cache manager forwards to a coordinator, which
  calls one manager per cache group; all managers share one block pool. The pool owns the block
  objects, a doubly linked free queue in eviction order, and the map from block hashes to cached blocks.
  The tokens of a step leave the scheduler as engine core outputs; the output processor keeps a state for each
  request, detokenizes the tokens, searches for stop strings, collects log probabilities, joins the samples of one prompt, and
  tells the engine which requests to abort.
  Before any of this, the specs of all layers are turned into cache groups and a number of blocks. The
  encoder cache and the offloading managers are separate caches with their own accounting. The offloading connector
  sits between the scheduler and an offloading manager: it says how many tokens of a request can be loaded from CPU
  memory, starts loads and stores, and learns from the workers which have finished.

  \<^bold>\<open>Theories, in the order of the code.\<close>

  \<^item> \<open>Vllm_Prelude\<close>: Python's exceptions as the values of \<open>py_error\<close>, \<open>'a result = py_error + 'a\<close>
    with \<open>bindE\<close>, loops that may raise (\<open>foldE\<close>, \<open>mapE\<close>), indexing with negative indices, \<open>cdiv\<close>,
    association lists in insertion order for dicts, and their lemmas.
  \<^item> \<open>Free_Queue\<close> (\<^verbatim>\<open>kv_cache_utils.py\<close>, \<^verbatim>\<open>KVCacheBlock\<close>, \<^verbatim>\<open>FreeKVCacheBlockQueue\<close>): the queue at the
    level of its pointer updates on a store. It refines a list; the locale \<open>eviction_queue\<close> is that
    contract.
  \<^item> \<open>Requests\<close> (\<^verbatim>\<open>request.py\<close>, \<^verbatim>\<open>sched/utils.py\<close>): request, status, stop check.
  \<^item> \<open>Block_Hashing\<close> (\<^verbatim>\<open>kv_cache_utils.py\<close>): group ids, extra keys, the request block hasher. The
    hash function is a parameter; injectivity of it is a hypothesis where it is needed.
  \<^item> \<open>Block_Pool\<close> (\<^verbatim>\<open>block_pool.py\<close>): allocation, eviction, touch, free, caching of full blocks, events.
    \<open>pool_inv\<close> is its invariant and the locale \<open>refcounted_pool\<close> its contract.
  \<^item> \<open>Binary_Heap\<close> and \<open>Request_Queue\<close> (\<^verbatim>\<open>sched/request_queue.py\<close>): \<open>heapq\<close> as an interpretation of the
    locale \<open>heap_order\<close>; the two queue classes under the locale \<open>request_queue\<close>.
  \<^item> \<open>Encoder_Cache\<close> (\<^verbatim>\<open>encoder_cache_manager.py\<close>): both managers interpret \<open>encoder_slots\<close>.
  \<^item> \<open>Offload_Lru\<close> and \<open>Offload_Arc\<close> (\<^verbatim>\<open>v1/kv_offload\<close>): both interpret \<open>offloading_manager\<close>.
  \<^item> \<open>Offloading_Connector\<close> (\<^verbatim>\<open>kv_connector/v1/offloading_connector.py\<close>, the scheduler side, and \<^verbatim>\<open>kv_offload/cpu.py\<close>): the
    connector over any manager, a record of functions. \<open>Offloading_Protocol\<close>: the locale \<open>offloading_service\<close> states what it
    needs of a manager, and its invariant ties reference counts to running transfers. \<open>Offloading_Properties\<close>: the LRU
    manager interprets the locale; the step relation \<open>oc_step\<close>; the ARC manager breaks the contract.
  \<^item> \<open>Kv_Cache_Spec\<close>, \<open>Kv_Cache_Config\<close> and \<open>Kv_Cache_Groups\<close> (\<^verbatim>\<open>kv_cache_interface.py\<close>, the second half
    of \<^verbatim>\<open>kv_cache_utils.py\<close>): layer specs, grouping, number of blocks, memory checks, auto-fit. The
    binary searches share the locale \<open>memory_user\<close>.
  \<^item> \<open>Single_Type_Manager\<close> (\<^verbatim>\<open>single_type_kv_cache_manager.py\<close>): the manager classes as one record with a
    class tag and one case per override. \<open>Manager_Invariant\<close>: what a manager holds of the pool.
  \<^item> \<open>Cache_Hit\<close> (same file, \<^verbatim>\<open>find_longest_cache_hit\<close>): the lookups of all classes.
  \<^item> \<open>Coordinator\<close> (\<^verbatim>\<open>kv_cache_coordinator.py\<close>) and \<open>Coordinator_Invariant\<close>: the locale \<open>manager_call\<close>
    states what a call to one manager owes to the others; each operation interprets it, and the loop over the
    managers is verified once.
  \<^item> \<open>Hybrid_Lookup\<close>: the fixed point lookup over several attention types, and why the attention groups
    partition the cache groups.
  \<^item> \<open>Kv_Cache_Manager\<close> (\<^verbatim>\<open>kv_cache_manager.py\<close>), \<open>Kv_Manager_Invariant\<close> with the step relation
    \<open>kvm_step\<close> over all operations, \<open>Kv_Allocation\<close> with the theorems on \<^verbatim>\<open>allocate_slots\<close>, and
    \<open>Fresh_Blocks\<close> on the blocks it newly hands out.
  \<^item> \<open>Scheduler_State\<close>, \<open>Scheduler\<close> and \<open>Scheduler_Output\<close> (\<^verbatim>\<open>sched/scheduler.py\<close>, \<^verbatim>\<open>sched/output.py\<close>):
    the state; the scheduling step, that is the loops over running and waiting requests, preemption and the
    construction of the output; and \<^verbatim>\<open>update_from_output\<close>, finishing, aborting and resetting.
  \<^item> \<open>Scheduler_Invariant\<close>: the loop rules of the step and its budget invariant. \<open>Scheduler_Queues\<close>: the
    invariant \<open>placed\<close>, that every live request is in exactly one place. \<open>Scheduler_Reachable\<close>: every
    operation keeps it, with the step relation \<open>sched_step\<close>. \<open>Scheduler_Properties\<close>: the theorems.
  \<^item> \<open>Detokenizer\<close> (\<^verbatim>\<open>engine/detokenizer.py\<close>): the detokenizer classes as one type with one case per class;
    the tokenizer is a parameter. Stop string search and streamed deltas.
  \<^item> \<open>Logprobs\<close> (\<^verbatim>\<open>engine/logprobs.py\<close>, \<^verbatim>\<open>vllm/logprobs.py\<close>): log probabilities of a request, kept flat or as a list of dicts.
  \<^item> \<open>Parallel_Sampling\<close> (\<^verbatim>\<open>engine/parallel_sampling.py\<close>): the children of a request with several samples.
  \<^item> \<open>Output_Processor\<close> (\<^verbatim>\<open>engine/output_processor.py\<close>): request states, outputs, aborting; \<open>Output_Tracking\<close>:
    its invariant over all operations.
  \<^item> \<open>Ngram_Proposer\<close> (\<^verbatim>\<open>spec_decode/ngram_proposer.py\<close>): the failure function search and the batch.

  \<^bold>\<open>What the theorems show.\<close> Each property of the manifest is preceded by its statement in words. The main line
  is: the free queue refines a list; the pool keeps reference counts, free queue and hash map consistent; equal
  block hashes mean equal token prefixes; the lookups return only blocks with the right hashes, as many
  as possible, and never leave a hole in the attention window; in every reachable state of the cache
  manager the reference count of a block is the number of request entries that hold it; and
  \<^verbatim>\<open>allocate_slots\<close> succeeds whenever its count of free blocks says so. A scheduling step never gives out
  more tokens than its budget nor runs more requests than allowed, no request is lost or in two queues, and a request
  receives the sampled tokens exactly up to the first one that stops it. The text streamed to a user
  is a prefix of the final text at every moment and is cut at the first stop string found; the output processor knows
  exactly the live requests and aborts exactly those asked for; the flat log probabilities refine the list; the
  n-gram search proposes what a search of the whole context proposes; and CPU blocks keep their place and content while they
  are copied. Where the code does not keep
  what it promises, the theorem states what it does instead.

  \<^bold>\<open>Conventions.\<close> Python ints are \<open>int\<close>, bytes are \<open>8 word list\<close>, floats are exact rationals (only usage
  figures and the ARC target are floats). Objects that are compared or mutated by reference live in a store of
  pointers. Loops are structural or have a measure; those whose end depends on the data are
  \<open>partial_function (option)\<close> (walking the free queue, the hashing loop, the fixed point of the hybrid lookup, the n-gram search), and that they
  return is part of the theorems. The iteration over a priority queue uses the length of the heap as fuel: each round pops one element.
  Aborting a request calls itself for the children of a parent request; its fuel is the depth of these calls, two, since a child
  has no children. A Python string is the list of its code points.

  \<^bold>\<open>Limits.\<close> The invariants of the managers (\<open>class_ok\<close>) leave out Mamba in \<open>align\<close> mode and attention
  sinks, whose definitions are given but which keep blocks outside the request tables.
  The KV connectors (of which the offloading connector is modelled by itself), the encoder cache connector and structured output are other components of the engine: the
  scheduler's definitions take them as records of functions on a state of their own, and its theorems hold for all of them.
  The queue invariant of the scheduler leaves out streaming sessions, whose stopped requests the code can lose
  (a theorem shows how). Log probabilities, NaN counts and worker statistics, which the scheduler only passes on, are left
  out of the scheduler, as are log output, the metrics collector and time.
  The front end is modelled without iteration and LoRA statistics, tracing and the asyncio tasks around it; where the code
  hands out its own lists, the model hands out copies.

  \<^bold>\<open>Not modelled.\<close> The engine processes, workers, model
  runner, model code and kernels, distributed connectors and entry points of vLLM: they run on tensors, devices
  and sockets. Open WebUI and RAGFlow are separate applications around databases, HTTP and model
  services, and the proxy forwards HTTP requests.
\<close>

end
